(* ===== verification/Vdfs_Prelude.thy ===== *)
theory Vdfs_Prelude
  imports Main
begin

text \<open>
  Shared vocabulary of the development: the machine integers of the C sources, error codes,
  the outcome of code that may hit \<^verbatim>\<open>BUG()\<close>, and the list and interval lemmas that
  several components use.

  A C integer is an \<^typ>\<open>int\<close>; every assignment or cast that narrows or wraps is written
  out with one of the casts below, so that \<^verbatim>\<open>a + b\<close> in 32-bit arithmetic is
  \<open>u32 (a + b)\<close>. Array indices and sizes of lists are \<^typ>\<open>nat\<close>.
\<close>

named_theorems c_arith \<open>simplification of the casts of C integers\<close>

section \<open>Machine integers\<close>

definition u8 :: "int \<Rightarrow> int" where
  "u8 x = x mod 256"

definition u16 :: "int \<Rightarrow> int" where
  "u16 x = x mod 65536"

definition u32 :: "int \<Rightarrow> int" where
  "u32 x = x mod 4294967296"

definition u64 :: "int \<Rightarrow> int" where
  "u64 x = x mod 18446744073709551616"

lemma u8_id [c_arith]: "0 \<le> x \<Longrightarrow> x < 256 \<Longrightarrow> u8 x = x"
  by (simp add: u8_def)

lemma u16_id [c_arith]: "0 \<le> x \<Longrightarrow> x < 65536 \<Longrightarrow> u16 x = x"
  by (simp add: u16_def)

lemma u32_id [c_arith]: "0 \<le> x \<Longrightarrow> x < 4294967296 \<Longrightarrow> u32 x = x"
  by (simp add: u32_def)

lemma u64_id [c_arith]: "0 \<le> x \<Longrightarrow> x < 18446744073709551616 \<Longrightarrow> u64 x = x"
  by (simp add: u64_def)

lemma u32_nonneg [simp]: "0 \<le> u32 x"
  by (simp add: u32_def)

lemma u32_less [simp]: "u32 x < 4294967296"
  by (simp add: u32_def)

lemma u64_nonneg [simp]: "0 \<le> u64 x"
  by (simp add: u64_def)

lemma u64_less [simp]: "u64 x < 18446744073709551616"
  by (simp add: u64_def)

lemma u32_zero [simp]: "u32 0 = 0"
  by (simp add: u32_def)

lemma u64_zero [simp]: "u64 0 = 0"
  by (simp add: u64_def)

section \<open>Error codes and outcomes\<close>

text \<open>The error numbers the modelled functions return.\<close>

datatype errno = ENOENT | ENOMEM | EINVAL | ENOSPC | EEXIST | EFAULT | EIO | EOPNOTSUPP

text \<open>An \<^verbatim>\<open>int\<close> result that is 0 or a negative error number.\<close>

type_synonym status = "errno option"

abbreviation success :: status where
  "success \<equiv> None"

text \<open>
  The result of code that contains \<^verbatim>\<open>VDFS4_BUG\<close> or \<^verbatim>\<open>VDFS4_BUG_ON\<close>, or that
  reads or writes an array: it completes, the kernel stops at the assertion, or an access lies
  outside its object and C gives it no meaning.
\<close>

datatype 'a outcome = Done 'a | Bug | Undef

definition bind_outcome :: "'a outcome \<Rightarrow> ('a \<Rightarrow> 'b outcome) \<Rightarrow> 'b outcome" where
  "bind_outcome m f = (case m of Done a \<Rightarrow> f a | Bug \<Rightarrow> Bug | Undef \<Rightarrow> Undef)"

lemma bind_outcome_simps [simp]:
  "bind_outcome (Done a) f = f a"
  "bind_outcome Bug f = Bug"
  "bind_outcome Undef f = Undef"
  by (simp_all add: bind_outcome_def)

lemma bind_outcome_Done_iff:
  "bind_outcome m f = Done b \<longleftrightarrow> (\<exists>a. m = Done a \<and> f a = Done b)"
  by (cases m) auto

text \<open>A loop that runs its body on the elements of a list, in order.\<close>

fun for_each :: "('a \<Rightarrow> 's \<Rightarrow> 's outcome) \<Rightarrow> 'a list \<Rightarrow> 's \<Rightarrow> 's outcome" where
  "for_each body [] s = Done s"
| "for_each body (x # xs) s = bind_outcome (body x s) (for_each body xs)"

lemma for_each_append:
  "for_each body (xs @ ys) s = bind_outcome (for_each body xs s) (for_each body ys)"
proof (induction xs arbitrary: s)
  case (Cons x xs)
  then show ?case by (cases "body x s") auto
qed simp

text \<open>An invariant of the body, indexed by the elements still to come, holds after the loop.\<close>

lemma for_each_inv:
  assumes "I xs s" "\<And>x xs s. I (x # xs) s \<Longrightarrow> \<exists>s'. body x s = Done s' \<and> I xs s'"
  shows "\<exists>s'. for_each body xs s = Done s' \<and> I [] s'"
  using assms(1)
proof (induction xs arbitrary: s)
  case (Cons x xs)
  then obtain s1 where "body x s = Done s1" "I xs s1" using assms(2) by blast
  with Cons.IH [of s1] show ?case by simp
qed simp

section \<open>Intervals of block numbers\<close>

text \<open>The blocks of an extent that starts at \<open>s\<close> and is \<open>n\<close> blocks long.\<close>

abbreviation extent_blocks :: "int \<Rightarrow> int \<Rightarrow> int set" where
  "extent_blocks s n \<equiv> {s ..< s + n}"

lemma card_extent_blocks: "0 \<le> n \<Longrightarrow> int (card (extent_blocks s n)) = n"
  by simp

section \<open>Lists\<close>

lemma sum_list_upd_int:
  "i < length xs \<Longrightarrow> sum_list (xs[i := (v::int)]) = sum_list xs - xs ! i + v"
  by (induction xs arbitrary: i) (auto split: nat.splits)

lemma nth_append_mid [simp]: "(xs @ x # ys) ! length xs = x"
  by simp

end
