(* ===== verification/Vdfs_Runtime_Extents.thy ===== *)
theory Vdfs_Runtime_Extents
  imports Vdfs_Prelude
begin

text \<open>
  The list of runtime extents of an inode (\<^verbatim>\<open>linux/fs/vdfs4/extents.c\<close>): the logical
  blocks for which delayed allocation has reserved space but which have no physical block yet.
  The list is a kernel \<^verbatim>\<open>list_head\<close> of \<^verbatim>\<open>struct vdfs4_runtime_extent_info\<close>,
  here a HOL list in list order. \<open>mem_ok\<close> says whether \<^verbatim>\<open>kzalloc\<close> succeeds.
\<close>

section \<open>The list and its operations\<close>

record vdfs4_runtime_extent_info =
  rt_iblock :: int
  rt_alloc_hint :: int
  rt_block_count :: int

abbreviation new_runtime_extent :: "int \<Rightarrow> int \<Rightarrow> vdfs4_runtime_extent_info" where
  "new_runtime_extent ib hint \<equiv> \<lparr>rt_iblock = ib, rt_alloc_hint = hint, rt_block_count = 1\<rparr>"

definition rt_end :: "vdfs4_runtime_extent_info \<Rightarrow> int" where
  "rt_end e = u64 (rt_iblock e + rt_block_count e)"

text \<open>\<^verbatim>\<open>vdfs4_runtime_extent_add\<close>: one block joins an extent, bridges two, or starts one.\<close>

fun vdfs4_runtime_extent_add ::
    "bool \<Rightarrow> int \<Rightarrow> int \<Rightarrow> vdfs4_runtime_extent_info list \<Rightarrow>
     status \<times> vdfs4_runtime_extent_info list" where
  "vdfs4_runtime_extent_add mem_ok ib hint [] =
     (if mem_ok then (success, [new_runtime_extent ib hint]) else (Some ENOMEM, []))"
| "vdfs4_runtime_extent_add mem_ok ib hint (e # es) =
     (if rt_end e = ib then
        let e' = e\<lparr>rt_block_count := u32 (rt_block_count e + 1)\<rparr> in
        (case es of
           [] \<Rightarrow> (success, [e'])
         | nx # rest \<Rightarrow>
             if rt_end e' = rt_iblock nx
             then (success, nx\<lparr>rt_iblock := rt_iblock e',
                               rt_block_count := u32 (rt_block_count nx + rt_block_count e')\<rparr> # rest)
             else (success, e' # es))
      else if rt_iblock e = u64 (ib + 1) then
        (success, e\<lparr>rt_iblock := u64 (rt_iblock e - 1), rt_block_count := u32 (rt_block_count e + 1)\<rparr> # es)
      else if rt_iblock e \<le> ib \<and> ib < rt_end e then (Some EEXIST, e # es)
      else if ib < rt_iblock e then
        (if mem_ok then (success, new_runtime_extent ib hint # e # es)
         else (Some ENOMEM, e # es))
      else
        (case vdfs4_runtime_extent_add mem_ok ib hint es of (r, es') \<Rightarrow> (r, e # es')))"

text \<open>
  \<^verbatim>\<open>vdfs4_runtime_extent_del\<close>. In the middle of a chunk the tail becomes a new extent that
  \<^verbatim>\<open>list_add_tail(&new->list, ptr)\<close> links \<^emph>\<open>before\<close> the entry it was cut from.
\<close>

fun vdfs4_runtime_extent_del ::
    "bool \<Rightarrow> int \<Rightarrow> vdfs4_runtime_extent_info list \<Rightarrow>
     status \<times> vdfs4_runtime_extent_info list" where
  "vdfs4_runtime_extent_del mem_ok ib [] = (Some EINVAL, [])"
| "vdfs4_runtime_extent_del mem_ok ib (e # es) =
     (if rt_iblock e = ib then
        let e' = e\<lparr>rt_iblock := u64 (rt_iblock e + 1), rt_block_count := u32 (rt_block_count e - 1)\<rparr> in
        (success, if rt_block_count e' = 0 then es else e' # es)
      else if rt_end e = u64 (ib + 1) then
        (success, e\<lparr>rt_block_count := u32 (rt_block_count e - 1)\<rparr> # es)
      else if rt_iblock e \<le> ib \<and> ib < rt_end e then
        (if \<not> mem_ok then (Some ENOMEM, e # es)
         else
           let n_ib = u64 (ib + 1);
               n_cnt = u32 (u32 (rt_iblock e - n_ib) + rt_block_count e)
           in (success, \<lparr>rt_iblock = n_ib, rt_alloc_hint = 0, rt_block_count = n_cnt\<rparr>
                        # e\<lparr>rt_block_count := u32 (rt_block_count e - (n_cnt + 1))\<rparr> # es))
      else
        (case vdfs4_runtime_extent_del mem_ok ib es of (r, es') \<Rightarrow> (r, e # es')))"

text \<open>\<^verbatim>\<open>vdfs4_truncate_runtime_blocks\<close>: the total of freed blocks and the list that is left.\<close>

fun vdfs4_truncate_runtime_blocks ::
    "int \<Rightarrow> vdfs4_runtime_extent_info list \<Rightarrow> int \<times> vdfs4_runtime_extent_info list" where
  "vdfs4_truncate_runtime_blocks new_size [] = (0, [])"
| "vdfs4_truncate_runtime_blocks new_size (e # es) =
     (case vdfs4_truncate_runtime_blocks new_size es of (tot, es') \<Rightarrow>
        if new_size \<le> rt_iblock e then (u64 (tot + rt_block_count e), es')
        else if new_size \<le> rt_end e then
          let trunc_size = u32 (new_size - rt_iblock e) in
          (u64 (tot + u32 (rt_block_count e - trunc_size)),
           e\<lparr>rt_block_count := trunc_size\<rparr> # es')
        else (tot, e # es'))"

fun vdfs4_runtime_extent_exists :: "int \<Rightarrow> vdfs4_runtime_extent_info list \<Rightarrow> bool" where
  "vdfs4_runtime_extent_exists ib [] = False"
| "vdfs4_runtime_extent_exists ib (e # es) =
     (if rt_iblock e \<le> ib \<and> ib < rt_end e then True else vdfs4_runtime_extent_exists ib es)"

definition vdfs4_runtime_extent_count :: "vdfs4_runtime_extent_info list \<Rightarrow> int" where
  "vdfs4_runtime_extent_count es = fold (\<lambda>e count. u32 (count + rt_block_count e)) es 0"

section \<open>What the list stands for\<close>

abbreviation rt_eblocks :: "vdfs4_runtime_extent_info \<Rightarrow> int set" where
  "rt_eblocks e \<equiv> extent_blocks (rt_iblock e) (rt_block_count e)"

definition rt_blocks :: "vdfs4_runtime_extent_info list \<Rightarrow> int set" where
  "rt_blocks es = (\<Union>e \<in> set es. rt_eblocks e)"

text \<open>
  An extent of a file: not empty, and its blocks are 32-bit block numbers (the largest file
  has \<open>2 ^ 32 - 1\<close> blocks, as \<^verbatim>\<open>rt_block_count\<close> and \<^verbatim>\<open>total_block_count\<close> are
  32 bits wide).
\<close>

definition rt_ok :: "vdfs4_runtime_extent_info \<Rightarrow> bool" where
  "rt_ok e \<longleftrightarrow> 0 \<le> rt_iblock e \<and> 0 < rt_block_count e \<and> rt_iblock e + rt_block_count e < 4294967296"

fun rt_disjoint :: "vdfs4_runtime_extent_info list \<Rightarrow> bool" where
  "rt_disjoint [] = True"
| "rt_disjoint (e # es) =
     (rt_ok e \<and> (\<forall>f \<in> set es. rt_eblocks e \<inter> rt_eblocks f = {}) \<and> rt_disjoint es)"

text \<open>Sorted with gaps: the form the insertion loop keeps.\<close>

definition rt_before :: "vdfs4_runtime_extent_info \<Rightarrow> vdfs4_runtime_extent_info \<Rightarrow> bool" where
  "rt_before e f \<longleftrightarrow> rt_iblock e + rt_block_count e < rt_iblock f"

definition rt_sorted :: "vdfs4_runtime_extent_info list \<Rightarrow> bool" where
  "rt_sorted es \<longleftrightarrow> (\<forall>e \<in> set es. rt_ok e) \<and> sorted_wrt rt_before es"

lemma rt_blocks_simps [simp]:
  "rt_blocks [] = {}"
  "rt_blocks (e # es) = rt_eblocks e \<union> rt_blocks es"
  by (simp_all add: rt_blocks_def)

lemma rt_eblocks_subset: "e \<in> set es \<Longrightarrow> rt_eblocks e \<subseteq> rt_blocks es"
  unfolding rt_blocks_def by blast

lemma rt_sorted_Nil [simp]: "rt_sorted []"
  by (simp add: rt_sorted_def)

lemma rt_sorted_Cons:
  "rt_sorted (e # es) \<longleftrightarrow> rt_ok e \<and> (\<forall>f \<in> set es. rt_before e f) \<and> rt_sorted es"
  by (auto simp: rt_sorted_def)

lemma rt_sorted_ok: "rt_sorted es \<Longrightarrow> e \<in> set es \<Longrightarrow> rt_ok e"
  by (simp add: rt_sorted_def)

lemma rt_end_ok [c_arith]: "rt_ok e \<Longrightarrow> rt_end e = rt_iblock e + rt_block_count e"
  by (simp add: rt_end_def rt_ok_def c_arith)

lemma rt_sorted_disjoint: "rt_sorted es \<Longrightarrow> rt_disjoint es"
proof (induction es)
  case (Cons e es)
  then show ?case
    by (fastforce simp: rt_sorted_Cons rt_before_def rt_ok_def)
qed simp

lemma rt_sorted_later:
  assumes "rt_sorted (e # es)" "ib \<le> rt_iblock e + rt_block_count e"
  shows "ib \<notin> rt_blocks es"
  using assms by (fastforce simp: rt_sorted_Cons rt_before_def rt_blocks_def)

lemmas rt_defs = rt_sorted_Cons rt_before_def rt_ok_def

section \<open>Reading the list\<close>

lemma vdfs4_runtime_extent_exists_iff:
  "\<forall>e \<in> set es. rt_ok e \<Longrightarrow> vdfs4_runtime_extent_exists ib es \<longleftrightarrow> ib \<in> rt_blocks es"
  by (induction es) (auto simp: c_arith)

lemma rt_blocks_finite [simp]: "finite (rt_blocks es)"
  by (simp add: rt_blocks_def)

lemma rt_disjoint_ok: "rt_disjoint es \<Longrightarrow> \<forall>e \<in> set es. rt_ok e"
  by (induction es) auto

lemma rt_blocks_bounds:
  "\<forall>e \<in> set es. rt_ok e \<Longrightarrow> rt_blocks es \<subseteq> {0 ..< 4294967295}"
  by (fastforce simp: rt_blocks_def rt_ok_def)

lemma rt_card_less:
  assumes "\<forall>e \<in> set es. rt_ok e"
  shows "int (card (rt_blocks es)) < 4294967296"
proof -
  have "card (rt_blocks es) \<le> card {0 ..< (4294967295::int)}"
    using rt_blocks_bounds [OF assms] by (intro card_mono) auto
  then show ?thesis by simp
qed

lemma rt_card_Cons:
  assumes "rt_disjoint (e # es)"
  shows "int (card (rt_blocks (e # es))) = rt_block_count e + int (card (rt_blocks es))"
proof -
  from assms have "rt_eblocks e \<inter> rt_blocks es = {}"
    by (auto simp: rt_blocks_def)
  then have "card (rt_blocks (e # es)) = card (rt_eblocks e) + card (rt_blocks es)"
    by (simp add: card_Un_disjoint)
  moreover have "0 < rt_block_count e" using assms by (simp add: rt_ok_def)
  ultimately show ?thesis by simp
qed

lemma rt_count_fold:
  assumes "rt_disjoint es" "0 \<le> c" "c + int (card (rt_blocks es)) < 4294967296"
  shows "fold (\<lambda>e count. u32 (count + rt_block_count e)) es c = c + int (card (rt_blocks es))"
  using assms
proof (induction es arbitrary: c)
  case (Cons e es)
  have b: "0 < rt_block_count e" using Cons.prems(1) by (simp add: rt_ok_def)
  have card: "int (card (rt_blocks (e # es))) = rt_block_count e + int (card (rt_blocks es))"
    using rt_card_Cons Cons.prems(1) by blast
  then have "u32 (c + rt_block_count e) = c + rt_block_count e"
    using Cons.prems b by (intro u32_id) linarith+
  with Cons.IH [of "c + rt_block_count e"] Cons.prems b card show ?case
    by simp
qed simp

lemma vdfs4_runtime_extent_count_card:
  "rt_disjoint es \<Longrightarrow> vdfs4_runtime_extent_count es = int (card (rt_blocks es))"
  using rt_count_fold [of es 0] rt_card_less [OF rt_disjoint_ok, of es]
  by (simp add: vdfs4_runtime_extent_count_def)

section \<open>Adding a block\<close>

lemma add_lower:
  assumes "rt_sorted es" "\<forall>f \<in> set es. l < rt_iblock f" "0 \<le> l" "l < ib" "ib + 1 < 4294967296"
    and "f \<in> set (snd (vdfs4_runtime_extent_add mem_ok ib hint es))"
  shows "l < rt_iblock f"
  using assms
proof (induction es)
  case (Cons e es)
  then show ?case
    by (auto simp: Let_def c_arith rt_defs split: if_splits list.splits prod.splits)
qed (auto split: if_splits)

text \<open>The branch of the loop that a new block takes at the first entry.\<close>

lemma add_head_new:
  assumes "rt_sorted (e # es)" "ib \<notin> rt_eblocks e" "0 \<le> ib" "ib + 1 < 4294967296"
    and "\<not> rt_iblock e + rt_block_count e < ib"
    and "vdfs4_runtime_extent_add mem_ok ib hint (e # es) = (r, es')"
  shows "r = Some ENOMEM \<and> \<not> mem_ok \<and> es' = e # es \<or>
         r = success \<and> rt_sorted es' \<and> rt_blocks es' = insert ib (rt_blocks (e # es))"
  using assms
  by (cases es) (auto simp: Let_def c_arith rt_defs split: if_splits dest: bspec; fastforce)+

lemma add_new_block:
  assumes "rt_sorted es" "ib \<notin> rt_blocks es" "0 \<le> ib" "ib + 1 < 4294967296"
    and "vdfs4_runtime_extent_add mem_ok ib hint es = (r, es')"
  shows "r = Some ENOMEM \<and> \<not> mem_ok \<and> es' = es \<or>
         r = success \<and> rt_sorted es' \<and> rt_blocks es' = insert ib (rt_blocks es)"
  using assms
proof (induction es arbitrary: es')
  case Nil
  then show ?case
    by (auto simp: rt_sorted_def rt_ok_def split: if_splits)
next
  case (Cons e es)
  show ?case
  proof (cases "rt_iblock e + rt_block_count e < ib")
    case False
    with Cons.prems show ?thesis by (intro add_head_new) auto
  next
    case True
    have ok: "rt_ok e" "rt_sorted es" using Cons.prems by (auto simp: rt_sorted_Cons)
    obtain es2 where rec: "vdfs4_runtime_extent_add mem_ok ib hint es = (r, es2)"
      and es': "es' = e # es2"
      using Cons.prems True ok by (auto simp: c_arith rt_ok_def split: prod.splits)
    have "rt_before e f" if "f \<in> set es2" for f
      using add_lower [of es "rt_iblock e + rt_block_count e" ib f mem_ok hint] that rec Cons.prems True
      by (auto simp: rt_defs)
    with Cons.IH [OF ok(2) _ _ _ rec] Cons.prems es' ok show ?thesis
      by (auto simp: rt_sorted_Cons)
  qed
qed

lemma add_existing_block:
  assumes "rt_sorted es" "ib \<in> rt_blocks es"
  shows "vdfs4_runtime_extent_add mem_ok ib hint es = (Some EEXIST, es)"
  using assms
proof (induction es)
  case (Cons e es)
  show ?case
  proof (cases "ib \<in> rt_eblocks e")
    case True
    with Cons.prems show ?thesis by (auto simp: c_arith rt_defs)
  next
    case False
    then have mem: "ib \<in> rt_blocks es" using Cons.prems(2) by (simp del: atLeastLessThan_iff)
    then have "rt_iblock e + rt_block_count e < ib"
      using rt_sorted_later [OF Cons.prems(1), of ib] by linarith
    moreover have "rt_blocks es \<subseteq> {0 ..< 4294967295}"
      using Cons.prems(1) by (intro rt_blocks_bounds) (simp add: rt_sorted_def)
    then have "0 \<le> ib" "ib + 1 < 4294967296" using mem by auto
    ultimately show ?thesis using mem Cons by (auto simp: c_arith rt_defs)
  qed
qed simp

section \<open>Deleting a block\<close>

text \<open>The entry that holds the block is cut; the pieces cover the rest of it.\<close>

lemma del_head:
  assumes "rt_ok e" "ib \<in> rt_eblocks e"
    and "vdfs4_runtime_extent_del mem_ok ib (e # es) = (r, es')"
  shows "r = Some ENOMEM \<and> \<not> mem_ok \<and> es' = e # es \<or>
         r = success \<and> (\<exists>ps. es' = ps @ es \<and> rt_disjoint ps \<and> rt_blocks ps = rt_eblocks e - {ib})"
proof -
  consider "ib = rt_iblock e" "rt_block_count e = 1" | "ib = rt_iblock e" "rt_block_count e > 1"
    | "ib \<noteq> rt_iblock e" "ib + 1 = rt_iblock e + rt_block_count e"
    | "rt_iblock e < ib" "ib + 1 < rt_iblock e + rt_block_count e"
    using assms(1,2) by (force simp: rt_ok_def)
  then show ?thesis
  proof cases
    case 1
    with assms have "r = success" "es' = [] @ es"
      by (auto simp: rt_ok_def c_arith)
    moreover have "rt_blocks [] = rt_eblocks e - {ib}" using 1 by auto
    ultimately show ?thesis by (metis rt_disjoint.simps(1))
  next
    case 2
    let ?p = "e\<lparr>rt_iblock := rt_iblock e + 1, rt_block_count := rt_block_count e - 1\<rparr>"
    from 2 assms have "r = success" "es' = [?p] @ es"
      by (auto simp: rt_ok_def c_arith)
    moreover have "rt_disjoint [?p]" "rt_blocks [?p] = rt_eblocks e - {ib}"
      using 2 assms(1) by (auto simp: rt_ok_def)
    ultimately show ?thesis by blast
  next
    case 3
    let ?p = "e\<lparr>rt_block_count := rt_block_count e - 1\<rparr>"
    from 3 assms have "r = success" "es' = [?p] @ es"
      by (auto simp: rt_ok_def c_arith rt_end_def)
    moreover have "rt_disjoint [?p]" "rt_blocks [?p] = rt_eblocks e - {ib}"
      using 3 assms(1,2) by (auto simp: rt_ok_def)
    ultimately show ?thesis by blast
  next
    case 4
    let ?n = "\<lparr>rt_iblock = ib + 1, rt_alloc_hint = 0,
               rt_block_count = rt_iblock e + rt_block_count e - (ib + 1)\<rparr>"
    let ?p = "e\<lparr>rt_block_count := ib - rt_iblock e\<rparr>"
    have "u32 (u32 (rt_iblock e - (ib + 1)) + rt_block_count e)
        = u32 (rt_iblock e + rt_block_count e - (ib + 1))"
      by (simp add: u32_def mod_simps algebra_simps)
    with 4 assms have "r = Some ENOMEM \<and> \<not> mem_ok \<and> es' = e # es \<or> r = success \<and> es' = [?n, ?p] @ es"
      by (auto simp: rt_ok_def c_arith rt_end_def Let_def split: if_splits)
    moreover have "rt_disjoint [?n, ?p]" "rt_blocks [?n, ?p] = rt_eblocks e - {ib}"
      using 4 assms(1) by (auto simp: rt_ok_def)
    ultimately show ?thesis by blast
  qed
qed

lemma rt_disjoint_append:
  "rt_disjoint (xs @ ys) \<longleftrightarrow>
     rt_disjoint xs \<and> rt_disjoint ys \<and> (\<forall>x \<in> set xs. \<forall>y \<in> set ys. rt_eblocks x \<inter> rt_eblocks y = {})"
  by (induction xs) auto

lemma rt_blocks_append [simp]: "rt_blocks (xs @ ys) = rt_blocks xs \<union> rt_blocks ys"
  by (auto simp: rt_blocks_def)

lemma rt_disjoint_replace:
  assumes "rt_disjoint (e # es)" "rt_disjoint ps" "rt_blocks ps \<subseteq> rt_eblocks e"
  shows "rt_disjoint (ps @ es)"
proof -
  have "rt_eblocks p \<inter> rt_eblocks f = {}" if "p \<in> set ps" "f \<in> set es" for p f
  proof -
    have "rt_eblocks p \<subseteq> rt_eblocks e" using assms(3) that(1) unfolding rt_blocks_def by blast
    moreover have "rt_eblocks e \<inter> rt_eblocks f = {}" using assms(1) that by auto
    ultimately show ?thesis by blast
  qed
  with assms show ?thesis by (auto simp: rt_disjoint_append)
qed

lemma del_subset:
  assumes "rt_disjoint es" "ib \<in> rt_blocks es"
    and "vdfs4_runtime_extent_del mem_ok ib es = (r, es')"
  shows "r = Some ENOMEM \<and> \<not> mem_ok \<and> es' = es \<or>
         r = success \<and> rt_disjoint es' \<and> rt_blocks es' = rt_blocks es - {ib}"
  using assms
proof (induction es arbitrary: es')
  case (Cons e es)
  have sep: "rt_eblocks e \<inter> rt_blocks es = {}" and ok: "rt_ok e" and dis: "rt_disjoint es"
    using Cons.prems(1) by (auto simp: rt_blocks_def)
  show ?case
  proof (cases "ib \<in> rt_eblocks e")
    case True
    then have notin: "ib \<notin> rt_blocks es" using sep by blast
    consider "r = Some ENOMEM \<and> \<not> mem_ok \<and> es' = e # es"
      | ps where "r = success" "es' = ps @ es" "rt_disjoint ps" "rt_blocks ps = rt_eblocks e - {ib}"
      using del_head [OF ok True Cons.prems(3)] by blast
    then show ?thesis
    proof cases
      case (2 ps)
      then have "rt_disjoint (ps @ es)" using Cons.prems(1) by (intro rt_disjoint_replace) auto
      with 2 notin show ?thesis by auto
    qed simp
  next
    case False
    then have mem: "ib \<in> rt_blocks es" using Cons.prems(2) by (simp del: atLeastLessThan_iff)
    have ibb: "0 \<le> ib" "ib + 1 < 4294967296"
      using mem rt_blocks_bounds [OF rt_disjoint_ok [OF dis]] by auto
    have "rt_end e \<noteq> u64 (ib + 1)"
      using False ok ibb by (auto simp: rt_ok_def c_arith rt_end_def)
    then obtain es2 where rec: "vdfs4_runtime_extent_del mem_ok ib es = (r, es2)"
      and es': "es' = e # es2"
      using False Cons.prems(3) ok by (auto simp: c_arith rt_ok_def split: prod.splits if_splits)
    have "rt_eblocks e \<inter> rt_eblocks f = {}" if "f \<in> set es2" "rt_blocks es2 = rt_blocks es - {ib}" for f
      using that(2) sep rt_eblocks_subset [OF that(1)] by blast
    then show ?thesis
      using Cons.IH [OF dis mem rec] False es' ok by auto
  qed
qed simp

lemma del_missing_block:
  assumes "\<forall>e \<in> set es. rt_ok e" "ib \<notin> rt_blocks es" "0 \<le> ib" "ib + 1 < 4294967296"
  shows "vdfs4_runtime_extent_del mem_ok ib es = (Some EINVAL, es)"
  using assms
proof (induction es)
  case (Cons e es)
  then have "rt_iblock e \<noteq> ib" "rt_end e \<noteq> u64 (ib + 1)" "\<not> (rt_iblock e \<le> ib \<and> ib < rt_end e)"
    by (auto simp: rt_ok_def c_arith rt_end_def)
  with Cons show ?case by (simp cong: if_cong) (blast | auto)
qed simp

section \<open>Truncation\<close>

lemma truncate_spec:
  assumes "rt_disjoint es" "0 \<le> n" "n < 4294967296"
    and "vdfs4_truncate_runtime_blocks n es = (t, es')"
  shows "rt_disjoint es' \<and> rt_blocks es' = rt_blocks es \<inter> {..< n} \<and>
         t = int (card (rt_blocks es \<inter> {n ..}))"
  using assms
proof (induction es arbitrary: t es')
  case (Cons e es)
  obtain t1 es1 where rec: "vdfs4_truncate_runtime_blocks n es = (t1, es1)" by fastforce
  have ok: "rt_ok e" and dis: "rt_disjoint es" and sep: "rt_eblocks e \<inter> rt_blocks es = {}"
    using Cons.prems(1) by (auto simp: rt_blocks_def)
  note IH = Cons.IH [OF dis Cons.prems(2,3) rec]
  have cut: "rt_disjoint (f # es1)" if "rt_ok f" "rt_eblocks f \<subseteq> rt_eblocks e" for f
  proof -
    have "rt_eblocks f \<inter> rt_eblocks g = {}" if "g \<in> set es1" for g
      using sep IH \<open>rt_eblocks f \<subseteq> rt_eblocks e\<close> rt_eblocks_subset [OF that] by blast
    with IH that show ?thesis by simp
  qed
  have card: "int (card (rt_blocks (e # es) \<inter> {n ..}))
      = int (card (rt_eblocks e \<inter> {n ..})) + t1"
    using IH sep by (simp add: Int_Un_distrib2 card_Un_disjoint Int_assoc disjoint_iff)
  have "int (card (rt_blocks (e # es) \<inter> {n ..})) \<le> int (card (rt_blocks (e # es)))"
    by (auto intro!: card_mono)
  then have lim: "int (card (rt_blocks (e # es) \<inter> {n ..})) < 4294967296"
    using rt_card_less [OF rt_disjoint_ok [OF Cons.prems(1)]] by linarith
  consider "n \<le> rt_iblock e" | "rt_iblock e < n" "n \<le> rt_iblock e + rt_block_count e"
    | "rt_iblock e + rt_block_count e < n" by linarith
  then show ?case
  proof cases
    case 1
    then have "rt_eblocks e \<inter> {n ..} = rt_eblocks e" by auto
    with 1 IH rec Cons.prems ok card lim show ?thesis
      by (auto simp: rt_ok_def c_arith)
  next
    case 2
    let ?f = "e\<lparr>rt_block_count := n - rt_iblock e\<rparr>"
    have "rt_eblocks e \<inter> {n ..} = {n ..< rt_iblock e + rt_block_count e}" using 2 by auto
    then have c: "int (card (rt_eblocks e \<inter> {n ..})) = rt_block_count e - (n - rt_iblock e)"
      using 2 by simp
    have u: "u32 (n - rt_iblock e) = n - rt_iblock e"
        "u32 (rt_block_count e - (n - rt_iblock e)) = rt_block_count e - (n - rt_iblock e)"
      using 2 ok Cons.prems(2,3) by (auto simp: rt_ok_def c_arith)
    have "es' = ?f # es1" "t = u64 (t1 + (rt_block_count e - (n - rt_iblock e)))"
      using 2 rec Cons.prems(4) ok u by (auto simp: c_arith Let_def)
    moreover have "rt_disjoint (?f # es1)" using 2 ok by (intro cut) (auto simp: rt_ok_def)
    ultimately show ?thesis using 2 IH c card lim by (auto simp: c_arith)
  next
    case 3
    then have "rt_eblocks e \<inter> {n ..} = {}" by auto
    with 3 IH rec Cons.prems ok card cut [of e] show ?thesis
      by (auto simp: rt_ok_def c_arith rt_end_def)
  qed
qed simp

section \<open>Properties\<close>

text \<open>
  C34. \<^verbatim>\<open>vdfs4_runtime_extent_add\<close> on a sorted list: a reserved block is refused with
  \<^const>\<open>EEXIST\<close> and nothing changes; a new block joins the reservation, the list stays sorted
  with gaps between its extents, and only a failed allocation stops it, leaving the list as it was.
\<close>

theorem runtime_add_correct:
  assumes "rt_sorted es" "0 \<le> ib" "ib + 1 < 4294967296"
    and "vdfs4_runtime_extent_add mem_ok ib hint es = (r, es')"
  shows "if ib \<in> rt_blocks es then r = Some EEXIST \<and> es' = es
         else r = Some ENOMEM \<and> \<not> mem_ok \<and> es' = es \<or>
              r = success \<and> rt_sorted es' \<and> rt_blocks es' = insert ib (rt_blocks es)"
  using add_new_block [OF assms(1) _ assms(2-4)]
    add_existing_block [OF assms(1), of ib mem_ok hint] assms(4) by auto

theorem runtime_add_correct_witness:
  "rt_blocks [new_runtime_extent 5 0, new_runtime_extent 7 0] = {5, 7} \<and>
   vdfs4_runtime_extent_add False 6 0 [new_runtime_extent 5 0, new_runtime_extent 7 0]
     = (success, [\<lparr>rt_iblock = 5, rt_alloc_hint = 0, rt_block_count = 3\<rparr>]) \<and>
   rt_sorted [\<lparr>rt_iblock = 5, rt_alloc_hint = 0, rt_block_count = 3\<rparr>] \<and>
   rt_blocks [\<lparr>rt_iblock = 5, rt_alloc_hint = 0, rt_block_count = 3\<rparr>] = insert 6 {5, 7}"
proof -
  have s: "rt_sorted [new_runtime_extent 5 0, new_runtime_extent 7 0]"
    by (simp add: rt_sorted_def rt_ok_def rt_before_def)
  have b: "rt_blocks [new_runtime_extent 5 0, new_runtime_extent 7 0] = {5, 7}"
    by auto
  have r: "vdfs4_runtime_extent_add False 6 0 [new_runtime_extent 5 0, new_runtime_extent 7 0]
     = (success, [\<lparr>rt_iblock = 5, rt_alloc_hint = 0, rt_block_count = 3\<rparr>])"
    by (simp add: rt_end_def u64_def u32_def)
  from runtime_add_correct [OF s _ _ r] b r show ?thesis by simp
qed

text \<open>
  C35. \<^verbatim>\<open>vdfs4_runtime_extent_del\<close> on any list of disjoint extents: a block that is reserved
  leaves the reservation, and no other; the extents stay disjoint; only a failed allocation stops it,
  leaving the list as it was; a block that is not reserved gives \<^const>\<open>EINVAL\<close>.
\<close>

theorem runtime_del_correct:
  assumes "rt_disjoint es" "0 \<le> ib" "ib + 1 < 4294967296"
    and "vdfs4_runtime_extent_del mem_ok ib es = (r, es')"
  shows "if ib \<in> rt_blocks es
         then r = Some ENOMEM \<and> \<not> mem_ok \<and> es' = es \<or>
              r = success \<and> rt_disjoint es' \<and> rt_blocks es' = rt_blocks es - {ib}
         else r = Some EINVAL \<and> es' = es"
  using del_subset [OF assms(1) _ assms(4)]
    del_missing_block [OF rt_disjoint_ok [OF assms(1)] _ assms(2,3), of mem_ok] assms(4) by auto

theorem runtime_del_correct_witness:
  "vdfs4_runtime_extent_del True 9 [\<lparr>rt_iblock = 0, rt_alloc_hint = 0, rt_block_count = 10\<rparr>]
     = (success, [\<lparr>rt_iblock = 0, rt_alloc_hint = 0, rt_block_count = 9\<rparr>]) \<and>
   rt_blocks [\<lparr>rt_iblock = 0, rt_alloc_hint = 0, rt_block_count = 9\<rparr>]
     = rt_blocks [\<lparr>rt_iblock = 0, rt_alloc_hint = 0, rt_block_count = 10\<rparr>] - {9}"
proof -
  have r: "vdfs4_runtime_extent_del True 9 [\<lparr>rt_iblock = 0, rt_alloc_hint = 0, rt_block_count = 10\<rparr>]
     = (success, [\<lparr>rt_iblock = 0, rt_alloc_hint = 0, rt_block_count = 9\<rparr>])"
    by (simp add: rt_end_def u64_def u32_def)
  have "rt_disjoint [\<lparr>rt_iblock = 0, rt_alloc_hint = 0, rt_block_count = 10\<rparr>]"
    by (simp add: rt_ok_def)
  from runtime_del_correct [OF this _ _ r] r show ?thesis by simp
qed

text \<open>
  \<^verbatim>\<open>vdfs4_truncate_runtime_blocks\<close> keeps exactly the reserved blocks below the new size,
  and the number it returns, by which the caller releases its reservation, is the number of reserved
  blocks it dropped, which \<^verbatim>\<open>vdfs4_runtime_extent_count\<close> sees too.
\<close>

theorem runtime_truncate_correct:
  assumes "rt_disjoint es" "0 \<le> n" "n < 4294967296"
    and "vdfs4_truncate_runtime_blocks n es = (freed, es')"
  shows "rt_disjoint es' \<and> rt_blocks es' = rt_blocks es \<inter> {..< n} \<and>
         freed = vdfs4_runtime_extent_count es - vdfs4_runtime_extent_count es'"
proof -
  note t = truncate_spec [OF assms]
  have b: "rt_blocks es' = rt_blocks es \<inter> {..< n}" using t by blast
  have "rt_blocks es' \<union> (rt_blocks es \<inter> {n ..}) = rt_blocks es" "rt_blocks es' \<inter> (rt_blocks es \<inter> {n ..}) = {}"
    unfolding b by force+
  then have "card (rt_blocks es) = card (rt_blocks es') + card (rt_blocks es \<inter> {n ..})"
    using card_Un_disjoint [of "rt_blocks es'" "rt_blocks es \<inter> {n ..}"] by simp
  with t assms(1) show ?thesis by (simp add: vdfs4_runtime_extent_count_card)
qed

theorem runtime_truncate_correct_witness:
  "vdfs4_truncate_runtime_blocks 7 [\<lparr>rt_iblock = 0, rt_alloc_hint = 0, rt_block_count = 10\<rparr>]
     = (3, [\<lparr>rt_iblock = 0, rt_alloc_hint = 0, rt_block_count = 7\<rparr>]) \<and>
   rt_blocks [\<lparr>rt_iblock = 0, rt_alloc_hint = 0, rt_block_count = 7\<rparr>]
     = rt_blocks [\<lparr>rt_iblock = 0, rt_alloc_hint = 0, rt_block_count = 10\<rparr>] \<inter> {..< 7}"
proof -
  have r: "vdfs4_truncate_runtime_blocks 7 [\<lparr>rt_iblock = 0, rt_alloc_hint = 0, rt_block_count = 10\<rparr>]
     = (3, [\<lparr>rt_iblock = 0, rt_alloc_hint = 0, rt_block_count = 7\<rparr>])"
    by (simp add: rt_end_def u64_def u32_def)
  have "rt_disjoint [\<lparr>rt_iblock = 0, rt_alloc_hint = 0, rt_block_count = 10\<rparr>]"
    by (simp add: rt_ok_def)
  from runtime_truncate_correct [OF this _ _ r] r show ?thesis
    by (simp del: rt_blocks_simps vdfs4_truncate_runtime_blocks.simps)
qed

text \<open>The list after a deletion from the middle of an extent, and after a block of its head is added again.\<close>

definition rt_tail :: "int \<Rightarrow> vdfs4_runtime_extent_info \<Rightarrow> vdfs4_runtime_extent_info" where
  "rt_tail ib e = \<lparr>rt_iblock = ib + 1, rt_alloc_hint = 0, rt_block_count = rt_iblock e + rt_block_count e - (ib + 1)\<rparr>"

definition rt_head :: "int \<Rightarrow> vdfs4_runtime_extent_info \<Rightarrow> vdfs4_runtime_extent_info" where
  "rt_head ib e = e\<lparr>rt_block_count := ib - rt_iblock e\<rparr>"

lemma rt_sorted_append: "rt_sorted (p # pre @ e # post) \<Longrightarrow> rt_ok p \<and> rt_before p e \<and> rt_sorted (pre @ e # post)"
  by (simp add: rt_sorted_Cons)

lemma del_inside:
  assumes "rt_sorted (pre @ e # post)" "rt_iblock e < ib" "ib + 1 < rt_iblock e + rt_block_count e"
  shows "vdfs4_runtime_extent_del True ib (pre @ e # post) = (success, pre @ rt_tail ib e # rt_head ib e # post)"
  using assms(1)
proof (induction pre)
  case Nil
  have ok: "rt_ok e" using Nil by (simp add: rt_sorted_Cons)
  have ib: "u64 (ib + 1) = ib + 1" "rt_end e = rt_iblock e + rt_block_count e" using ok assms(2,3) by (simp_all add: rt_ok_def c_arith)
  have "u32 (u32 (rt_iblock e - (ib + 1)) + rt_block_count e) = u32 (rt_iblock e - (ib + 1) + rt_block_count e)" by (simp add: u32_def mod_simps)
  also have "\<dots> = rt_iblock e + rt_block_count e - (ib + 1)" using ok assms(2,3) by (subst u32_id) (simp_all add: rt_ok_def)
  finally have n: "u32 (u32 (rt_iblock e - (ib + 1)) + rt_block_count e) = rt_iblock e + rt_block_count e - (ib + 1)" .
  have h: "u32 (ib - rt_iblock e) = ib - rt_iblock e" using ok assms(2,3) by (intro u32_id) (simp_all add: rt_ok_def)
  show ?case using assms(2,3) by (simp add: Let_def ib n h rt_tail_def rt_head_def)
next
  case (Cons p pre)
  note s = rt_sorted_append [OF Cons.prems [simplified]]
  have "rt_ok e" using Cons.prems by (simp add: rt_sorted_def)
  then show ?case using Cons.IH s assms(2,3) by (auto simp: c_arith rt_ok_def rt_before_def)
qed

lemma add_to_head:
  assumes "rt_sorted (pre @ e # post)" "rt_iblock e < ib" "ib + 1 < rt_iblock e + rt_block_count e" "rt_iblock e \<le> b" "b < ib"
  shows "vdfs4_runtime_extent_add True b hint (pre @ rt_tail ib e # post') = (success, pre @ new_runtime_extent b hint # rt_tail ib e # post')"
  using assms(1)
proof (induction pre)
  case Nil
  have "rt_ok e" using Nil by (simp add: rt_sorted_Cons)
  then have "rt_end (rt_tail ib e) = rt_iblock e + rt_block_count e" using assms by (simp add: rt_end_def rt_tail_def rt_ok_def c_arith)
  moreover have "u64 (b + 1) = b + 1" using \<open>rt_ok e\<close> assms by (simp add: rt_ok_def c_arith)
  ultimately show ?case using assms(3-5) by (simp add: rt_tail_def)
next
  case (Cons p pre)
  note s = rt_sorted_append [OF Cons.prems [simplified]]
  have "rt_ok e" using Cons.prems by (simp add: rt_sorted_def)
  then show ?case using Cons.IH s assms(2-5) by (auto simp: c_arith rt_ok_def rt_before_def)
qed

lemma rt_count_sum: "vdfs4_runtime_extent_count es = u32 (sum_list (map rt_block_count es))"
proof -
  have "fold (\<lambda>e count. u32 (count + rt_block_count e)) es (u32 c) = u32 (c + sum_list (map rt_block_count es))" for c
  proof (induction es arbitrary: c)
    case (Cons e es)
    have "u32 (u32 c + rt_block_count e) = u32 (c + rt_block_count e)" by (simp add: u32_def mod_simps)
    then show ?case using Cons.IH [of "c + rt_block_count e"] by (simp add: add.assoc)
  qed simp
  from this [of 0] show ?thesis by (simp add: vdfs4_runtime_extent_count_def u32_def)
qed

text \<open>
  C36. Deleting a block from the middle of any extent of a sorted list links the tail before the entry it was
  cut from, so that the list is no longer sorted. From then on \<^verbatim>\<open>vdfs4_runtime_extent_add\<close> accepts every
  block of the head of that extent, although it is reserved already: the reserved blocks stay the same,
  and \<^verbatim>\<open>vdfs4_runtime_extent_count\<close> counts one block more than are reserved.
\<close>

theorem runtime_del_loses_order:
  assumes "rt_sorted es" "e \<in> set es" "rt_iblock e < ib" "ib + 1 < rt_iblock e + rt_block_count e"
    "rt_iblock e \<le> b" "b < ib"
  shows "\<exists>es1 es2. vdfs4_runtime_extent_del True ib es = (success, es1) \<and> b \<in> rt_blocks es1 \<and> \<not> rt_sorted es1 \<and>
     vdfs4_runtime_extent_add True b hint es1 = (success, es2) \<and> rt_blocks es2 = rt_blocks es1 \<and>
     vdfs4_runtime_extent_count es2 = int (card (rt_blocks es2)) + 1"
proof -
  obtain pre post where es: "es = pre @ e # post" using split_list [OF assms(2)] by blast
  note s = assms(1) [unfolded es]
  let ?es1 = "pre @ rt_tail ib e # rt_head ib e # post" and ?es2 = "pre @ new_runtime_extent b hint # rt_tail ib e # rt_head ib e # post"
  have del: "vdfs4_runtime_extent_del True ib es = (success, ?es1)" unfolding es by (rule del_inside [OF s assms(3,4)])
  have add: "vdfs4_runtime_extent_add True b hint ?es1 = (success, ?es2)" by (rule add_to_head [OF s assms(3-6)])
  have hb: "b \<in> rt_eblocks (rt_head ib e)" using assms(5,6) by (simp add: rt_head_def)
  then have b: "b \<in> rt_blocks ?es1" by (auto simp: rt_blocks_def)
  have b2: "rt_blocks ?es2 = rt_blocks ?es1" using hb by (auto simp: rt_blocks_def)
  have ns: "\<not> rt_sorted ?es1"
    using assms(3,4) by (auto simp: rt_sorted_def sorted_wrt_append rt_before_def rt_tail_def rt_head_def)
  have "ib \<in> rt_eblocks e" using assms(3,4) by simp
  then have "ib \<in> rt_blocks es" using rt_eblocks_subset [OF assms(2)] by blast
  then have d1: "rt_disjoint ?es1" "rt_blocks ?es1 = rt_blocks es - {ib}"
    using del_subset [OF rt_sorted_disjoint [OF assms(1)] _ del] by auto
  have "card (rt_blocks ?es1) < card (rt_blocks es)"
    unfolding d1(2) using \<open>ib \<in> rt_blocks es\<close> by (intro card_Diff1_less) simp_all
  then have c: "int (card (rt_blocks ?es1)) + 1 < 4294967296"
    using rt_card_less [of es] assms(1) by (simp add: rt_sorted_def)
  have "vdfs4_runtime_extent_count ?es2 = u32 (vdfs4_runtime_extent_count ?es1 + 1)"
    unfolding rt_count_sum by (simp add: u32_def mod_simps algebra_simps)
  also have "\<dots> = int (card (rt_blocks ?es2)) + 1"
    unfolding vdfs4_runtime_extent_count_card [OF d1(1)] b2 using c by (intro u32_id) simp_all
  finally show ?thesis using del add b b2 ns by blast
qed

theorem runtime_del_loses_order_witness:
  "\<exists>es1 es2. vdfs4_runtime_extent_del True 5 [\<lparr>rt_iblock = 0, rt_alloc_hint = 0, rt_block_count = 10\<rparr>] = (success, es1) \<and>
     3 \<in> rt_blocks es1 \<and> \<not> rt_sorted es1 \<and> vdfs4_runtime_extent_add True 3 0 es1 = (success, es2) \<and>
     vdfs4_runtime_extent_count es2 = int (card (rt_blocks es2)) + 1"
proof -
  let ?e = "\<lparr>rt_iblock = 0, rt_alloc_hint = 0, rt_block_count = 10\<rparr>"
  have "rt_sorted [?e]" by (simp add: rt_sorted_def rt_ok_def)
  from runtime_del_loses_order [OF this, of ?e 5 3 0] show ?thesis
    by (auto simp del: vdfs4_runtime_extent_del.simps vdfs4_runtime_extent_add.simps)
qed

end
