(* ===== verification/Vdfs_Fsm_Tree.thy ===== *)
theory Vdfs_Fsm_Tree
  imports Vdfs_Prelude "HOL-Library.Tree"
begin

text \<open>
  The extents of free space and the red-black trees that hold them (\<^verbatim>\<open>linux/fs/vdfs4/fsm.c\<close>).

  A \<^verbatim>\<open>struct fsm_node\<close> is an object that a tree and a list share, so nodes live in a store and
  trees and lists hold their addresses. A tree node carries the address and the colour bit of its
  \<^verbatim>\<open>rb_node\<close>. The rebalancing of the kernel's \<^verbatim>\<open>lib/rbtree.c\<close> is not part of the
  sources: \<^verbatim>\<open>rb_insert_color\<close> and \<^verbatim>\<open>rb_erase\<close> are the parameters \<open>rb_ops\<close>,
  and \<open>rb_ops_ok\<close> states what they are documented to do to the order of the nodes.
\<close>

section \<open>Nodes, trees and the kernel's tree operations\<close>

record fsm_node =
  nd_start :: int
  nd_length :: int

type_synonym node_store = "nat \<Rightarrow> fsm_node"

type_synonym rb_tree = "(nat \<times> bool) tree"

definition addrs :: "rb_tree \<Rightarrow> nat list" where
  "addrs t = map fst (inorder t)"

lemma addrs_simps [simp]:
  "addrs Leaf = []"
  "addrs (Node l x r) = addrs l @ fst x # addrs r"
  by (simp_all add: addrs_def)

record rb_ops =
  rb_insert_color :: "nat \<Rightarrow> rb_tree \<Rightarrow> rb_tree"
  rb_erase :: "nat \<Rightarrow> rb_tree \<Rightarrow> rb_tree"

definition rb_ops_ok :: "rb_ops \<Rightarrow> bool" where
  "rb_ops_ok ops \<longleftrightarrow>
     (\<forall>a t. distinct (addrs t) \<longrightarrow> a \<in> set (addrs t) \<longrightarrow>
        addrs (rb_insert_color ops a t) = addrs t \<and>
        addrs (rb_erase ops a t) = remove1 a (addrs t))"

lemma rb_ops_okD:
  assumes "rb_ops_ok ops" "distinct (addrs t)" "a \<in> set (addrs t)"
  shows "addrs (rb_insert_color ops a t) = addrs t" "addrs (rb_erase ops a t) = remove1 a (addrs t)"
  using assms by (simp_all add: rb_ops_ok_def)

text \<open>\<^verbatim>\<open>rb_next\<close> and \<^verbatim>\<open>rb_prev\<close>: the neighbours in the order of the tree.\<close>

fun next_in :: "'a \<Rightarrow> 'a list \<Rightarrow> 'a option" where
  "next_in a (x # y # ys) = (if x = a then Some y else next_in a (y # ys))"
| "next_in a _ = None"

fun prev_in :: "'a \<Rightarrow> 'a list \<Rightarrow> 'a option" where
  "prev_in a (x # y # ys) = (if y = a then Some x else prev_in a (y # ys))"
| "prev_in a _ = None"

definition fsm_first :: "rb_tree \<Rightarrow> nat option" where
  "fsm_first t = (case addrs t of [] \<Rightarrow> None | a # _ \<Rightarrow> Some a)"

definition fsm_next :: "nat \<Rightarrow> rb_tree \<Rightarrow> nat option" where
  "fsm_next a t = next_in a (addrs t)"

definition fsm_prev :: "nat \<Rightarrow> rb_tree \<Rightarrow> nat option" where
  "fsm_prev a t = prev_in a (addrs t)"

lemma next_in_split:
  "a \<notin> set xs \<Longrightarrow> next_in a (xs @ a # ys) = (case ys of [] \<Rightarrow> None | y # _ \<Rightarrow> Some y)"
proof (induction xs)
  case Nil
  then show ?case by (cases ys) auto
next
  case (Cons x xs)
  then show ?case by (cases xs) auto
qed

lemma prev_in_first: "a \<notin> set ys \<Longrightarrow> prev_in a (z # ys) = None"
  by (induction ys arbitrary: z) auto

lemma prev_in_split:
  "a \<notin> set xs \<Longrightarrow> a \<notin> set ys \<Longrightarrow>
     prev_in a (xs @ a # ys) = (if xs = [] then None else Some (last xs))"
proof (induction xs)
  case (Cons x xs)
  then show ?case by (cases xs) auto
qed (simp add: prev_in_first)

text \<open>
  \<^verbatim>\<open>rb_link_node\<close> puts a red leaf into an empty child pointer. A child pointer that the search
  loops keep in \<^verbatim>\<open>p\<close> is the path to it from the root (\<^const>\<open>False\<close> to the left);
  \<^verbatim>\<open>rb_insert_after\<close> names it by the parent and a side.
\<close>

definition rb_red :: bool where
  "rb_red = False"

fun rb_link_node :: "nat \<Rightarrow> bool list \<Rightarrow> rb_tree \<Rightarrow> rb_tree" where
  "rb_link_node b [] t = Node Leaf (b, rb_red) Leaf"
| "rb_link_node b (d # p) Leaf = Leaf"
| "rb_link_node b (d # p) (Node l x r) =
     (if d then Node l x (rb_link_node b p r) else Node (rb_link_node b p l) x r)"

fun rb_link_right :: "nat \<Rightarrow> nat \<Rightarrow> rb_tree \<Rightarrow> rb_tree" where
  "rb_link_right b a Leaf = Leaf"
| "rb_link_right b a (Node l x r) =
     (if fst x = a then Node l x (Node Leaf (b, rb_red) Leaf)
      else Node (rb_link_right b a l) x (rb_link_right b a r))"

fun rb_link_left :: "nat \<Rightarrow> nat \<Rightarrow> rb_tree \<Rightarrow> rb_tree" where
  "rb_link_left b a Leaf = Leaf"
| "rb_link_left b a (Node l x r) =
     (if fst x = a then Node (Node Leaf (b, rb_red) Leaf) x r
      else Node (rb_link_left b a l) x (rb_link_left b a r))"

fun rb_right :: "nat \<Rightarrow> rb_tree \<Rightarrow> rb_tree" where
  "rb_right a Leaf = Leaf"
| "rb_right a (Node l x r) =
     (if fst x = a then r else if a \<in> set (addrs l) then rb_right a l else rb_right a r)"

fun rb_left :: "nat \<Rightarrow> rb_tree \<Rightarrow> rb_tree" where
  "rb_left a Leaf = Leaf"
| "rb_left a (Node l x r) =
     (if fst x = a then l else if a \<in> set (addrs l) then rb_left a l else rb_left a r)"

definition rb_insert_after :: "rb_ops \<Rightarrow> nat \<Rightarrow> nat \<Rightarrow> rb_tree \<Rightarrow> rb_tree" where
  "rb_insert_after ops b a t =
     (if rb_right a t \<noteq> Leaf then
        (case fsm_next a t of
           None \<Rightarrow> t
         | Some parent \<Rightarrow> rb_insert_color ops b (rb_link_left b parent t))
      else rb_insert_color ops b (rb_link_right b a t))"

lemma rb_link_right_notin [simp]: "a \<notin> set (addrs t) \<Longrightarrow> rb_link_right b a t = t"
  by (induction t) auto

lemma rb_link_left_notin [simp]: "a \<notin> set (addrs t) \<Longrightarrow> rb_link_left b a t = t"
  by (induction t) auto

text \<open>Linking next to \<open>a\<close> replaces \<open>a\<close> by two addresses, the rest of the order stays.\<close>

definition subst_in :: "'a \<Rightarrow> 'a list \<Rightarrow> 'a list \<Rightarrow> 'a list" where
  "subst_in a w zs = concat (map (\<lambda>z. if z = a then w else [z]) zs)"

lemma subst_in_simps [simp]:
  "subst_in a w [] = []"
  "subst_in a w (z # zs) = (if z = a then w else [z]) @ subst_in a w zs"
  "subst_in a w (xs @ ys) = subst_in a w xs @ subst_in a w ys"
  by (simp_all add: subst_in_def)

lemma subst_in_notin [simp]: "a \<notin> set zs \<Longrightarrow> subst_in a w zs = zs"
  by (induction zs) auto

lemma addrs_link_right:
  "distinct (addrs t) \<Longrightarrow> rb_right a t = Leaf \<Longrightarrow>
     addrs (rb_link_right b a t) = subst_in a [a, b] (addrs t)"
proof (induction t)
  case (Node l x r)
  consider "fst x = a" "a \<notin> set (addrs l)" "r = Leaf"
    | "fst x \<noteq> a" "a \<in> set (addrs l)" "a \<notin> set (addrs r)" | "fst x \<noteq> a" "a \<notin> set (addrs l)"
    using Node.prems by (auto split: if_splits)
  then show ?case using Node by cases auto
qed simp

lemma addrs_link_left:
  "distinct (addrs t) \<Longrightarrow> rb_left a t = Leaf \<Longrightarrow>
     addrs (rb_link_left b a t) = subst_in a [b, a] (addrs t)"
proof (induction t)
  case (Node l x r)
  consider "fst x = a" "a \<notin> set (addrs r)" "l = Leaf"
    | "fst x \<noteq> a" "a \<in> set (addrs l)" "a \<notin> set (addrs r)" | "fst x \<noteq> a" "a \<notin> set (addrs l)"
    using Node.prems by (auto split: if_splits)
  then show ?case using Node by cases auto
qed simp

lemma rb_left_first:
  "distinct (addrs t) \<Longrightarrow> addrs t = n # zs \<Longrightarrow> rb_left n t = Leaf"
proof (induction t arbitrary: zs)
  case (Node l x r)
  show ?case
  proof (cases "addrs l")
    case Nil
    then have "l = Leaf" by (cases l) auto
    with Node.prems show ?thesis by simp
  next
    case (Cons m ws)
    with Node.IH(1) Node.prems show ?thesis by auto
  qed
qed simp

lemma next_in_appendL:
  "next_in a xs = Some n \<Longrightarrow> next_in a (xs @ ys) = Some n"
  by (induction a xs rule: next_in.induct) (auto split: if_splits)

lemma next_in_appendR:
  "a \<notin> set xs \<Longrightarrow> next_in a (xs @ ys) = next_in a ys"
proof (induction xs)
  case (Cons x xs)
  then show ?case by (cases "xs @ ys") auto
qed simp

lemma next_in_mem: "next_in a xs = Some n \<Longrightarrow> n \<in> set xs"
  by (induction a xs rule: next_in.induct) (auto split: if_splits)

lemma rb_right_mem: "rb_right a t \<noteq> Leaf \<Longrightarrow> a \<in> set (addrs t)"
  by (induction t) (auto split: if_splits)

lemma rb_next_left:
  "distinct (addrs t) \<Longrightarrow> rb_right a t \<noteq> Leaf \<Longrightarrow>
     \<exists>n. next_in a (addrs t) = Some n \<and> rb_left n t = Leaf"
proof (induction t)
  case (Node l x r)
  consider (root) "fst x = a" | (left) "fst x \<noteq> a" "a \<in> set (addrs l)"
    | (right) "fst x \<noteq> a" "a \<notin> set (addrs l)" by blast
  then show ?case
  proof cases
    case root
    with Node.prems obtain n zs where r: "addrs r = n # zs" by (cases r; cases "addrs r") auto
    with root Node.prems have "next_in a (addrs (Node l x r)) = Some n"
      by (simp add: next_in_split)
    moreover have "rb_left n (Node l x r) = Leaf"
      using Node.prems root r rb_left_first [of r n zs] by auto
    ultimately show ?thesis by blast
  next
    case left
    then obtain n where n: "next_in a (addrs l) = Some n" "rb_left n l = Leaf"
      using Node by (auto split: if_splits)
    then have "n \<in> set (addrs l)" by (simp add: next_in_mem)
    with n Node.prems show ?thesis by (auto intro!: exI [of _ n] simp: next_in_appendL)
  next
    case right
    then obtain n where n: "next_in a (addrs r) = Some n" "rb_left n r = Leaf"
      using Node by (auto split: if_splits)
    then have "n \<in> set (addrs r)" by (simp add: next_in_mem)
    moreover have "next_in a (addrs (Node l x r)) = Some n"
      using right n next_in_appendR [of a "addrs l @ [fst x]" "addrs r"] by simp
    ultimately show ?thesis using n Node.prems by (auto intro!: exI [of _ n])
  qed
qed simp

lemma addrs_insert_after:
  assumes "rb_ops_ok ops" "distinct (addrs t)" "addrs t = xs @ a # ys" "b \<notin> set (addrs t)"
  shows "addrs (rb_insert_after ops b a t) = xs @ a # b # ys"
proof -
  have dist: "a \<notin> set xs" "a \<notin> set ys" "distinct ys" using assms(2,3) by auto
  show ?thesis
  proof (cases "rb_right a t = Leaf")
    case True
    then have l: "addrs (rb_link_right b a t) = xs @ a # b # ys"
      using addrs_link_right [OF assms(2) True] assms(3) dist by simp
    then have "distinct (addrs (rb_link_right b a t))" using assms(2-4) by auto
    with True l show ?thesis
      using rb_ops_okD(1) [OF assms(1), of "rb_link_right b a t" b] by (simp add: rb_insert_after_def)
  next
    case False
    then obtain n where n: "next_in a (addrs t) = Some n" "rb_left n t = Leaf"
      using rb_next_left [OF assms(2)] by blast
    then obtain zs where ys: "ys = n # zs"
      using assms(3) dist by (auto simp: next_in_split split: list.splits)
    have l: "addrs (rb_link_left b n t) = xs @ a # b # ys"
      using addrs_link_left [OF assms(2) n(2)] assms(2,3) ys by auto
    then have "distinct (addrs (rb_link_left b n t))" using assms(2-4) by auto
    with False n l show ?thesis
      using rb_ops_okD(1) [OF assms(1), of "rb_link_left b n t" b]
      by (simp add: rb_insert_after_def fsm_next_def)
  qed
qed

section \<open>Reading and changing nodes\<close>

abbreviation nd_end :: "fsm_node \<Rightarrow> int" where
  "nd_end n \<equiv> u64 (nd_start n + nd_length n)"

definition fsm_intersects :: "fsm_node \<Rightarrow> int \<Rightarrow> int \<Rightarrow> bool" where
  "fsm_intersects node start len \<longleftrightarrow>
     nd_start node \<le> start \<and> start < nd_end node \<or>
     nd_start node < u64 (start + len) \<and> u64 (start + len) \<le> nd_end node"

definition fsm_max_length :: "fsm_node \<Rightarrow> int \<Rightarrow> int" where
  "fsm_max_length node start = u32 (nd_length node + u32 (nd_start node - start))"

text \<open>
  The search loop that \<^verbatim>\<open>fsm_add_free_space\<close> and \<^verbatim>\<open>fsm_commit_free_space\<close> share: it
  stops at a node that intersects the extent or touches it, or at the empty child pointer where the
  extent belongs.
\<close>

datatype fsm_slot = Intersects nat | Front nat | Back nat | Slot "bool list"

fun slot_below :: "bool \<Rightarrow> fsm_slot \<Rightarrow> fsm_slot" where
  "slot_below d (Slot p) = Slot (d # p)"
| "slot_below d s = s"

fun fsm_descend :: "node_store \<Rightarrow> int \<Rightarrow> int \<Rightarrow> rb_tree \<Rightarrow> fsm_slot" where
  "fsm_descend nd start len Leaf = Slot []"
| "fsm_descend nd start len (Node l x r) =
     (let cur = nd (fst x) in
      if fsm_intersects cur start (u32 len) then Intersects (fst x)
      else if u64 (start + len) = nd_start cur then Front (fst x)
      else if nd_end cur = start then Back (fst x)
      else if start < nd_start cur then slot_below False (fsm_descend nd start len l)
      else slot_below True (fsm_descend nd start len r))"

text \<open>\<^verbatim>\<open>fsm_front_merge\<close> and \<^verbatim>\<open>fsm_back_merge\<close>: the changed store, and the node to drop.\<close>

definition fsm_front_merge :: "node_store \<Rightarrow> rb_tree \<Rightarrow> nat \<Rightarrow> int \<Rightarrow> node_store \<times> nat option" where
  "fsm_front_merge nd t a len =
     (let node = \<lparr>nd_start = u64 (nd_start (nd a) - len), nd_length = u32 (nd_length (nd a) + len)\<rparr>
      in case fsm_prev a t of
           None \<Rightarrow> (nd(a := node), None)
         | Some p \<Rightarrow>
             let prev = nd p in
             if nd_end prev = nd_start node
             then (nd(a := \<lparr>nd_start = u64 (nd_start node - nd_length prev),
                            nd_length = u32 (nd_length node + nd_length prev)\<rparr>), Some p)
             else (nd(a := node), None))"

definition fsm_back_merge :: "node_store \<Rightarrow> rb_tree \<Rightarrow> nat \<Rightarrow> int \<Rightarrow> node_store \<times> nat option" where
  "fsm_back_merge nd t a len =
     (let node = \<lparr>nd_start = nd_start (nd a), nd_length = u32 (nd_length (nd a) + len)\<rparr>
      in case fsm_next a t of
           None \<Rightarrow> (nd(a := node), None)
         | Some n \<Rightarrow>
             let nx = nd n in
             if nd_end node = nd_start nx
             then (nd(a := node\<lparr>nd_length := u32 (nd_length node + nd_length nx)\<rparr>), Some n)
             else (nd(a := node), None))"

text \<open>\<^verbatim>\<open>fsm_find_node\<close>: the node that holds a block.\<close>

fun fsm_find_node :: "node_store \<Rightarrow> int \<Rightarrow> rb_tree \<Rightarrow> nat option" where
  "fsm_find_node nd start Leaf = None"
| "fsm_find_node nd start (Node l x r) =
     (let node = nd (fst x) in
      if nd_start node \<le> start \<and> start < nd_end node then Some (fst x)
      else if start < nd_start node then fsm_find_node nd start l
      else fsm_find_node nd start r)"

section \<open>Areas: sorted lists of extents with gaps between them\<close>

definition node_ok :: "fsm_node \<Rightarrow> bool" where
  "node_ok n \<longleftrightarrow> 0 \<le> nd_start n \<and> 0 < nd_length n \<and> nd_start n + nd_length n < 4294967296"

definition nd_before :: "node_store \<Rightarrow> nat \<Rightarrow> nat \<Rightarrow> bool" where
  "nd_before nd a b \<longleftrightarrow> nd_start (nd a) + nd_length (nd a) < nd_start (nd b)"

definition area_ok :: "node_store \<Rightarrow> nat list \<Rightarrow> bool" where
  "area_ok nd as \<longleftrightarrow> (\<forall>a \<in> set as. node_ok (nd a)) \<and> sorted_wrt (nd_before nd) as"

abbreviation nd_blocks :: "fsm_node \<Rightarrow> int set" where
  "nd_blocks n \<equiv> extent_blocks (nd_start n) (nd_length n)"

definition area_blocks :: "node_store \<Rightarrow> nat list \<Rightarrow> int set" where
  "area_blocks nd as = (\<Union>a \<in> set as. nd_blocks (nd a))"

definition area_total :: "node_store \<Rightarrow> nat list \<Rightarrow> int" where
  "area_total nd as = (\<Sum>a \<leftarrow> as. nd_length (nd a))"

lemma nd_end_ok [c_arith]: "node_ok n \<Longrightarrow> nd_end n = nd_start n + nd_length n"
  by (simp add: node_ok_def c_arith)

lemma area_simps [simp]:
  "area_ok nd []"
  "area_ok nd (a # as) \<longleftrightarrow> node_ok (nd a) \<and> (\<forall>b \<in> set as. nd_before nd a b) \<and> area_ok nd as"
  "area_ok nd (as @ bs) \<longleftrightarrow> area_ok nd as \<and> area_ok nd bs \<and> (\<forall>a \<in> set as. \<forall>b \<in> set bs. nd_before nd a b)"
  "area_blocks nd [] = {}"
  "area_blocks nd (a # as) = nd_blocks (nd a) \<union> area_blocks nd as"
  "area_blocks nd (as @ bs) = area_blocks nd as \<union> area_blocks nd bs"
  "area_total nd [] = 0"
  "area_total nd (a # as) = nd_length (nd a) + area_total nd as"
  "area_total nd (as @ bs) = area_total nd as + area_total nd bs"
  by (auto simp: area_ok_def area_blocks_def area_total_def sorted_wrt_append)

lemma area_upd_other [simp]:
  "a \<notin> set as \<Longrightarrow> area_ok (nd(a := v)) as \<longleftrightarrow> area_ok nd as"
  "a \<notin> set as \<Longrightarrow> area_blocks (nd(a := v)) as = area_blocks nd as"
  "a \<notin> set as \<Longrightarrow> area_total (nd(a := v)) as = area_total nd as"
  by (induction as) (auto simp: nd_before_def)

lemma area_node_ok: "area_ok nd as \<Longrightarrow> a \<in> set as \<Longrightarrow> node_ok (nd a)"
  by (simp add: area_ok_def)

lemma area_blocks_mem: "a \<in> set as \<Longrightarrow> nd_blocks (nd a) \<subseteq> area_blocks nd as"
  unfolding area_blocks_def by blast

lemma area_blocks_start: "area_ok nd as \<Longrightarrow> a \<in> set as \<Longrightarrow> nd_start (nd a) \<in> area_blocks nd as"
  using area_node_ok [of nd as a] area_blocks_mem [of a as nd] by (auto simp: node_ok_def)

lemma area_distinct: "area_ok nd as \<Longrightarrow> distinct as"
  by (induction as) (auto simp: nd_before_def node_ok_def)

lemma area_blocks_finite [simp]: "finite (area_blocks nd as)"
  by (simp add: area_blocks_def)

lemma area_before_blocks:
  assumes "node_ok (nd a)" "\<forall>b \<in> set as. nd_before nd a b"
  shows "nd_blocks (nd a) \<inter> area_blocks nd as = {}"
  using assms by (fastforce simp: area_blocks_def nd_before_def)

lemma area_total_card: "area_ok nd as \<Longrightarrow> area_total nd as = int (card (area_blocks nd as))"
proof (induction as)
  case (Cons a as)
  have "nd_blocks (nd a) \<inter> area_blocks nd as = {}"
    using Cons.prems by (intro area_before_blocks) auto
  then have "card (area_blocks nd (a # as)) = card (nd_blocks (nd a)) + card (area_blocks nd as)"
    by (simp add: card_Un_disjoint)
  moreover have "0 < nd_length (nd a)" using Cons.prems by (simp add: node_ok_def)
  ultimately show ?case using Cons by simp
qed simp

lemma area_bounds: "area_ok nd as \<Longrightarrow> area_blocks nd as \<subseteq> {0 ..< 4294967295}"
  by (fastforce simp: area_ok_def area_blocks_def node_ok_def)

lemma area_total_nonneg: "area_ok nd as \<Longrightarrow> 0 \<le> area_total nd as"
  by (simp add: area_total_card)

section \<open>The search loops on areas\<close>

definition extent_ok :: "int \<Rightarrow> int \<Rightarrow> bool" where
  "extent_ok start len \<longleftrightarrow> 0 \<le> start \<and> 0 < len \<and> start + len < 4294967296"

lemma extent_ok_ends [c_arith]:
  "extent_ok start len \<Longrightarrow> u64 (start + len) = start + len"
  "extent_ok start len \<Longrightarrow> u32 len = len"
  by (simp_all add: extent_ok_def c_arith)

lemma disjoint_not_intersects:
  assumes "node_ok n" "extent_ok start len" "extent_blocks start len \<inter> nd_blocks n = {}"
  shows "\<not> fsm_intersects n start len"
    and "start + len \<le> nd_start n \<or> nd_start n + nd_length n \<le> start"
proof -
  show "start + len \<le> nd_start n \<or> nd_start n + nd_length n \<le> start"
  proof (rule ccontr)
    assume "\<not> ?thesis"
    then have "max start (nd_start n) \<in> extent_blocks start len \<inter> nd_blocks n"
      using assms(1,2) by (auto simp: node_ok_def extent_ok_def)
    with assms(3) show False by blast
  qed
  then show "\<not> fsm_intersects n start len"
    using assms(1,2) by (auto simp: fsm_intersects_def c_arith node_ok_def extent_ok_def)
qed

definition slot_ok :: "node_store \<Rightarrow> int \<Rightarrow> int \<Rightarrow> rb_tree \<Rightarrow> fsm_slot \<Rightarrow> bool" where
  "slot_ok nd start len t s \<longleftrightarrow> (case s of
     Intersects a \<Rightarrow> False
   | Front a \<Rightarrow> a \<in> set (addrs t) \<and> start + len = nd_start (nd a)
   | Back a \<Rightarrow> a \<in> set (addrs t) \<and> nd_start (nd a) + nd_length (nd a) = start
   | Slot p \<Rightarrow> (\<exists>xs ys. addrs t = xs @ ys \<and> (\<forall>b. addrs (rb_link_node b p t) = xs @ b # ys) \<and>
        (\<forall>x \<in> set xs. nd_start (nd x) + nd_length (nd x) < start) \<and>
        (\<forall>y \<in> set ys. start + len < nd_start (nd y))))"

lemma slot_okI:
  assumes "addrs t = xs @ ys" "\<forall>b. addrs (rb_link_node b p t) = xs @ b # ys"
    and "\<forall>x \<in> set xs. nd_start (nd x) + nd_length (nd x) < start"
    and "\<forall>y \<in> set ys. start + len < nd_start (nd y)"
  shows "slot_ok nd start len t (Slot p)"
  using assms unfolding slot_ok_def by auto

lemma slot_ok_left:
  assumes "slot_ok nd start len l s" "start + len < nd_start (nd (fst x))" "node_ok (nd (fst x))"
    and "\<forall>y \<in> set (addrs r). nd_before nd (fst x) y"
  shows "slot_ok nd start len (Node l x r) (slot_below False s)"
proof (cases s)
  case (Slot p)
  then obtain xs ys where "addrs l = xs @ ys" "\<forall>b. addrs (rb_link_node b p l) = xs @ b # ys"
    "\<forall>x \<in> set xs. nd_start (nd x) + nd_length (nd x) < start" "\<forall>y \<in> set ys. start + len < nd_start (nd y)"
    using assms(1) by (auto simp: slot_ok_def)
  moreover have "\<forall>y \<in> set (addrs r). start + len < nd_start (nd y)"
    using assms(2-4) by (fastforce simp: nd_before_def node_ok_def)
  ultimately show ?thesis
    using Slot assms(2) by (auto intro!: slot_okI [of "Node l x r" xs "ys @ fst x # addrs r"])
qed (use assms(1) in \<open>auto simp: slot_ok_def\<close>)

lemma slot_ok_right:
  assumes "slot_ok nd start len r s" "nd_start (nd (fst x)) + nd_length (nd (fst x)) < start"
    and "\<forall>y \<in> set (addrs l). nd_before nd y (fst x)" "node_ok (nd (fst x))"
  shows "slot_ok nd start len (Node l x r) (slot_below True s)"
proof (cases s)
  case (Slot p)
  then obtain xs ys where "addrs r = xs @ ys" "\<forall>b. addrs (rb_link_node b p r) = xs @ b # ys"
    "\<forall>x \<in> set xs. nd_start (nd x) + nd_length (nd x) < start" "\<forall>y \<in> set ys. start + len < nd_start (nd y)"
    using assms(1) by (auto simp: slot_ok_def)
  moreover have "\<forall>y \<in> set (addrs l). nd_start (nd y) + nd_length (nd y) < start"
    using assms(2-4) by (fastforce simp: nd_before_def node_ok_def)
  ultimately show ?thesis
    using Slot assms(2) by (auto intro!: slot_okI [of "Node l x r" "addrs l @ fst x # xs" ys])
qed (use assms(1) in \<open>auto simp: slot_ok_def\<close>)

lemma fsm_descend_ok:
  assumes "area_ok nd (addrs t)" "extent_ok start len"
    and "extent_blocks start len \<inter> area_blocks nd (addrs t) = {}"
  shows "slot_ok nd start len t (fsm_descend nd start len t)"
  using assms(1,3)
proof (induction t)
  case (Node l x r)
  let ?n = "nd (fst x)"
  have ok: "node_ok ?n" using Node.prems by simp
  have sep: "extent_blocks start len \<inter> nd_blocks ?n = {}"
    "extent_blocks start len \<inter> area_blocks nd (addrs l) = {}"
    "extent_blocks start len \<inter> area_blocks nd (addrs r) = {}"
    using Node.prems(2) unfolding addrs_simps area_simps by blast+
  note d = disjoint_not_intersects [OF ok assms(2) sep(1)]
  have l: "slot_ok nd start len l (fsm_descend nd start len l)"
    and r: "slot_ok nd start len r (fsm_descend nd start len r)"
    using Node sep by auto
  consider (front) "start + len = nd_start ?n" | (behind) "nd_start ?n + nd_length ?n = start"
    | (left) "start + len < nd_start ?n" | (right) "nd_start ?n + nd_length ?n < start"
    using d(2) by linarith
  then show ?case
  proof cases
    case front
    then have "fsm_descend nd start len (Node l x r) = Front (fst x)"
      using d(1) extent_ok_ends [OF assms(2)] by (simp add: Let_def)
    with front show ?thesis by (simp add: slot_ok_def)
  next
    case behind
    then show ?thesis
      using d assms(2) ok by (auto simp: slot_ok_def Let_def c_arith extent_ok_def node_ok_def)
  next
    case left
    then have "fsm_descend nd start len (Node l x r) = slot_below False (fsm_descend nd start len l)"
      using d assms(2) ok by (auto simp: Let_def c_arith extent_ok_def node_ok_def)
    with left slot_ok_left [OF l left ok] Node.prems show ?thesis by auto
  next
    case right
    then have "fsm_descend nd start len (Node l x r) = slot_below True (fsm_descend nd start len r)"
      using d assms(2) ok by (auto simp: Let_def c_arith extent_ok_def node_ok_def)
    with right slot_ok_right [OF r right _ ok] Node.prems show ?thesis by auto
  qed
qed (simp add: slot_ok_def)

lemma fsm_find_node_Some:
  "fsm_find_node nd start t = Some a \<Longrightarrow>
     a \<in> set (addrs t) \<and> nd_start (nd a) \<le> start \<and> start < nd_end (nd a)"
  by (induction t) (auto simp: Let_def split: if_splits)

lemma fsm_find_node_None:
  assumes "area_ok nd (addrs t)" "fsm_find_node nd start t = None"
  shows "start \<notin> area_blocks nd (addrs t)"
  using assms
proof (induction t)
  case (Node l x r)
  let ?n = "nd (fst x)"
  have ok: "node_ok ?n" using Node.prems by simp
  have lo: "\<forall>a \<in> set (addrs l). nd_start (nd a) + nd_length (nd a) < nd_start ?n"
    using Node.prems(1) by (auto simp: nd_before_def)
  have hi: "\<forall>a \<in> set (addrs r). nd_start ?n + nd_length ?n < nd_start (nd a)"
    using Node.prems(1) by (auto simp: nd_before_def)
  have out: "start \<notin> nd_blocks ?n" using Node.prems(2) ok by (auto simp: Let_def c_arith split: if_splits)
  show ?case
  proof (cases "start < nd_start ?n")
    case True
    have "start \<notin> area_blocks nd (addrs r)"
      using hi True ok by (fastforce simp: area_blocks_def node_ok_def)
    with Node True out show ?thesis by (auto simp: Let_def split: if_splits)
  next
    case False
    then have ge: "nd_start ?n + nd_length ?n \<le> start" using out by auto
    have "start \<notin> area_blocks nd (addrs l)"
      using lo False by (fastforce simp: area_blocks_def)
    with Node False out ge ok show ?thesis by (auto simp: Let_def c_arith split: if_splits)
  qed
qed simp

section \<open>Merging and inserting extents\<close>

lemma area_replace:
  assumes "area_ok nd (xs @ ys)" "a \<notin> set xs" "a \<notin> set ys" "node_ok v"
    and "\<forall>x \<in> set xs. nd_start (nd x) + nd_length (nd x) < nd_start v"
    and "\<forall>y \<in> set ys. nd_start v + nd_length v < nd_start (nd y)"
  shows "area_ok (nd(a := v)) (xs @ a # ys)"
    and "area_blocks (nd(a := v)) (xs @ a # ys) = area_blocks nd (xs @ ys) \<union> nd_blocks v"
    and "area_total (nd(a := v)) (xs @ a # ys) = area_total nd (xs @ ys) + nd_length v"
  using assms by (auto simp: nd_before_def)

lemma area_blocks_disjoint_mem:
  assumes "area_ok nd as" "extent_ok start len" "extent_blocks start len \<inter> area_blocks nd as = {}" "x \<in> set as"
  shows "start + len \<le> nd_start (nd x) \<or> nd_start (nd x) + nd_length (nd x) \<le> start"
proof -
  have "extent_blocks start len \<inter> nd_blocks (nd x) = {}"
    using assms(3) area_blocks_mem [OF assms(4)] by blast
  then show ?thesis
    using disjoint_not_intersects(2) [OF area_node_ok [OF assms(1,4)] assms(2)] by blast
qed

text \<open>What a merge gives: the area with the extent added, one node fewer when two nodes met.\<close>

definition merged :: "node_store \<Rightarrow> nat list \<Rightarrow> nat \<Rightarrow> int \<Rightarrow> int \<Rightarrow> node_store \<Rightarrow> nat option \<Rightarrow> bool" where
  "merged nd as a start len nd' dr \<longleftrightarrow>
     (\<forall>d. dr = Some d \<longrightarrow> d \<in> set as \<and> d \<noteq> a) \<and> (\<forall>b. b \<noteq> a \<longrightarrow> nd' b = nd b) \<and>
     (let as' = (case dr of None \<Rightarrow> as | Some d \<Rightarrow> remove1 d as) in
      area_ok nd' as' \<and> area_blocks nd' as' = area_blocks nd as \<union> extent_blocks start len \<and>
      area_total nd' as' = area_total nd as + len)"

lemma merged_one:
  assumes "area_ok nd (xs @ a # ys)" "node_ok v"
    and "nd_blocks v = nd_blocks (nd a) \<union> extent_blocks start len" "nd_length v = nd_length (nd a) + len"
    and "\<forall>x \<in> set xs. nd_start (nd x) + nd_length (nd x) < nd_start v"
    and "\<forall>y \<in> set ys. nd_start v + nd_length v < nd_start (nd y)"
  shows "merged nd (xs @ a # ys) a start len (nd(a := v)) None"
proof -
  have "a \<notin> set xs" "a \<notin> set ys" using area_distinct [OF assms(1)] by auto
  note rep = area_replace [OF _ this assms(2) assms(5,6)]
  show ?thesis
    using rep assms(1,3,4) by (auto simp: merged_def Let_def simp del: area_simps(3,6,9))
      (auto)
qed

lemma merged_two:
  assumes "area_ok nd (zs @ mid @ ys)" "mid = [d, a] \<or> mid = [a, d]" "node_ok w"
    and "nd_blocks w = nd_blocks (nd d) \<union> nd_blocks (nd a) \<union> extent_blocks start len"
    and "nd_length w = nd_length (nd d) + nd_length (nd a) + len"
    and "\<forall>x \<in> set zs. nd_start (nd x) + nd_length (nd x) < nd_start w"
    and "\<forall>y \<in> set ys. nd_start w + nd_length w < nd_start (nd y)"
  shows "merged nd (zs @ mid @ ys) a start len (nd(a := w)) (Some d)"
proof -
  have dist: "distinct (zs @ mid @ ys)" by (rule area_distinct [OF assms(1)])
  then have a: "a \<notin> set zs" "a \<notin> set ys" "d \<noteq> a" using assms(2) by auto
  have rm: "remove1 d (zs @ mid @ ys) = zs @ a # ys" using dist assms(2) by (auto simp: remove1_append)
  have "area_ok nd (zs @ ys)" using assms(1) by auto
  note rep = area_replace [OF this a(1,2) assms(3) assms(6,7)]
  have "area_blocks nd (zs @ mid @ ys) = area_blocks nd (zs @ ys) \<union> nd_blocks (nd d) \<union> nd_blocks (nd a)"
    "area_total nd (zs @ mid @ ys) = area_total nd (zs @ ys) + nd_length (nd d) + nd_length (nd a)"
    using assms(2) by auto
  with rep assms(2,4,5) a(3) show ?thesis
    unfolding merged_def option.case rm Let_def by auto
qed

lemma gap_below:
  assumes "area_ok nd (xs @ a # ys)" "extent_ok start len"
    and "extent_blocks start len \<inter> area_blocks nd (xs @ a # ys) = {}" "start + len = nd_start (nd a)"
  shows "\<forall>x \<in> set xs. nd_start (nd x) + nd_length (nd x) \<le> start"
proof
  fix x assume x: "x \<in> set xs"
  then have "nd_start (nd x) + nd_length (nd x) < nd_start (nd a)" "0 < nd_length (nd x)"
    using assms(1) area_node_ok [OF assms(1), of x] by (auto simp: nd_before_def node_ok_def)
  with area_blocks_disjoint_mem [OF assms(1-3), of x] x assms(4)
  show "nd_start (nd x) + nd_length (nd x) \<le> start" by auto
qed

lemma gap_above:
  assumes "area_ok nd (xs @ a # ys)" "extent_ok start len"
    and "extent_blocks start len \<inter> area_blocks nd (xs @ a # ys) = {}"
    and "nd_start (nd a) + nd_length (nd a) = start"
  shows "\<forall>y \<in> set ys. start + len \<le> nd_start (nd y)"
proof
  fix y assume y: "y \<in> set ys"
  then have "nd_start (nd a) + nd_length (nd a) < nd_start (nd y)" "0 < nd_length (nd y)"
    using assms(1) area_node_ok [OF assms(1), of y] by (auto simp: nd_before_def node_ok_def)
  with area_blocks_disjoint_mem [OF assms(1-3), of y] y assms(4)
  show "start + len \<le> nd_start (nd y)" by auto
qed

lemma fsm_front_merge_ok:
  assumes area: "area_ok nd (addrs t)" and ext: "extent_ok start len"
    and sep: "extent_blocks start len \<inter> area_blocks nd (addrs t) = {}"
    and a: "a \<in> set (addrs t)" "start + len = nd_start (nd a)"
    and r: "fsm_front_merge nd t a len = (nd', dr)"
  shows "merged nd (addrs t) a start len nd' dr"
proof -
  obtain xs ys where as: "addrs t = xs @ a # ys" using a(1) split_list by metis
  have dist: "distinct (xs @ a # ys)" and oka: "node_ok (nd a)"
    using area_distinct [OF area] area as by simp_all
  have hi: "\<forall>y \<in> set ys. nd_start (nd a) + nd_length (nd a) < nd_start (nd y)"
    using area as by (auto simp: nd_before_def)
  let ?v = "\<lparr>nd_start = start, nd_length = nd_length (nd a) + len\<rparr>"
  have v: "\<lparr>nd_start = u64 (nd_start (nd a) - len), nd_length = u32 (nd_length (nd a) + len)\<rparr> = ?v"
    using ext oka a(2) by (auto simp: extent_ok_def node_ok_def c_arith)
  have plain: "merged nd (addrs t) a start len (nd(a := ?v)) None"
    if "\<forall>x \<in> set xs. nd_start (nd x) + nd_length (nd x) < start"
    unfolding as using that hi area ext oka a(2) as
    by (intro merged_one) (auto simp: extent_ok_def node_ok_def)
  consider (single) "nd' = nd(a := ?v)" "dr = None" "\<forall>x \<in> set xs. nd_start (nd x) + nd_length (nd x) < start"
    | (double) zs p where "xs = zs @ [p]" "nd_start (nd p) + nd_length (nd p) = start" "dr = Some p"
        "nd' = nd(a := \<lparr>nd_start = u64 (start - nd_length (nd p)),
                        nd_length = u32 (nd_length (nd a) + len + nd_length (nd p))\<rparr>)"
  proof (cases xs rule: rev_cases)
    case Nil
    with single r v dist as show thesis
      by (simp add: fsm_front_merge_def fsm_prev_def prev_in_first)
  next
    case (snoc zs p)
    then have p: "prev_in a (addrs t) = Some p" using as dist prev_in_split [of a xs ys] by auto
    have "node_ok (nd p)" "\<forall>x \<in> set zs. nd_start (nd x) + nd_length (nd x) < nd_start (nd p)"
      using area as snoc by (auto simp: nd_before_def)
    moreover have "nd_start (nd p) + nd_length (nd p) \<le> start"
      using gap_below [of nd xs a ys start len] area ext sep a(2) as snoc by simp
    ultimately show thesis
      using single double [of zs p] snoc r p v
      by (cases "nd_start (nd p) + nd_length (nd p) = start")
        (force simp: fsm_front_merge_def fsm_prev_def Let_def c_arith node_ok_def)+
  qed
  then show ?thesis
  proof cases
    case (double zs p)
    have okp: "node_ok (nd p)" using area as double by simp
    have low: "\<forall>x \<in> set zs. nd_start (nd x) + nd_length (nd x) < nd_start (nd p)"
      using area as double by (auto simp: nd_before_def)
    have t: "addrs t = zs @ [p, a] @ ys" using as double by simp
    show ?thesis
      unfolding t double(3,4) using low hi area okp oka ext a(2) double(2) t
      by (intro merged_two) (auto simp: node_ok_def extent_ok_def c_arith)
  qed (use plain in simp)
qed

lemma fsm_back_merge_ok:
  assumes area: "area_ok nd (addrs t)" and ext: "extent_ok start len"
    and sep: "extent_blocks start len \<inter> area_blocks nd (addrs t) = {}"
    and a: "a \<in> set (addrs t)" "nd_start (nd a) + nd_length (nd a) = start"
    and r: "fsm_back_merge nd t a len = (nd', dr)"
  shows "merged nd (addrs t) a start len nd' dr"
proof -
  obtain xs ys where as: "addrs t = xs @ a # ys" using a(1) split_list by metis
  have dist: "distinct (xs @ a # ys)" and oka: "node_ok (nd a)"
    using area_distinct [OF area] area as by simp_all
  have lo: "\<forall>x \<in> set xs. nd_start (nd x) + nd_length (nd x) < nd_start (nd a)"
    using area as by (auto simp: nd_before_def)
  have v: "u32 (nd_length (nd a) + len) = nd_length (nd a) + len"
    "u64 (nd_start (nd a) + (nd_length (nd a) + len)) = start + len"
    using ext oka a(2) by (auto simp: extent_ok_def node_ok_def c_arith)
  let ?v = "\<lparr>nd_start = nd_start (nd a), nd_length = nd_length (nd a) + len\<rparr>"
  consider (single) "nd' = nd(a := ?v)" "dr = None" "\<forall>y \<in> set ys. start + len < nd_start (nd y)"
    | (double) zs n where "ys = n # zs" "start + len = nd_start (nd n)" "dr = Some n"
        "nd' = nd(a := ?v\<lparr>nd_length := u32 (nd_length (nd a) + len + nd_length (nd n))\<rparr>)"
  proof (cases ys)
    case Nil
    with single r v dist as show thesis
      by (simp add: fsm_back_merge_def fsm_next_def next_in_split)
  next
    case (Cons n zs)
    then have n: "next_in a (addrs t) = Some n" using as dist by (simp add: next_in_split)
    have "node_ok (nd n)" "\<forall>y \<in> set zs. nd_start (nd n) + nd_length (nd n) < nd_start (nd y)"
      using area as Cons by (auto simp: nd_before_def)
    moreover have "start + len \<le> nd_start (nd n)"
      using gap_above [of nd xs a ys start len] area ext sep a(2) as Cons by simp
    ultimately show thesis
      using single double [of n zs] Cons r n v
      by (cases "start + len = nd_start (nd n)")
        (force simp: fsm_back_merge_def fsm_next_def Let_def c_arith node_ok_def)+
  qed
  then show ?thesis
  proof cases
    case single
    then show ?thesis
      unfolding as single(1,2) using lo area ext oka a(2) as
      by (intro merged_one) (auto simp: extent_ok_def node_ok_def)
  next
    case (double zs n)
    have okn: "node_ok (nd n)" and hi: "\<forall>y \<in> set zs. nd_start (nd n) + nd_length (nd n) < nd_start (nd y)"
      using area as double by (auto simp: nd_before_def)
    have t: "addrs t = xs @ [a, n] @ zs" using as double by simp
    show ?thesis
      unfolding t double(3,4) using lo hi area okn oka ext a(2) double(2) t
      by (intro merged_two) (auto simp: node_ok_def extent_ok_def c_arith)
  qed
qed

lemma area_insert_slot:
  assumes "area_ok nd (addrs t)" "extent_ok start len" "b \<notin> set (addrs t)"
    and "slot_ok nd start len t (Slot p)" "rb_ops_ok ops"
  defines "t' \<equiv> rb_insert_color ops b (rb_link_node b p t)"
    and "nd' \<equiv> nd(b := \<lparr>nd_start = start, nd_length = len\<rparr>)"
  shows "area_ok nd' (addrs t')" "set (addrs t') = insert b (set (addrs t))"
    and "length (addrs t') = Suc (length (addrs t))"
    and "area_blocks nd' (addrs t') = area_blocks nd (addrs t) \<union> extent_blocks start len"
    and "area_total nd' (addrs t') = area_total nd (addrs t) + len"
proof -
  obtain xs ys where s: "addrs t = xs @ ys" "\<forall>b. addrs (rb_link_node b p t) = xs @ b # ys"
    "\<forall>x \<in> set xs. nd_start (nd x) + nd_length (nd x) < start" "\<forall>y \<in> set ys. start + len < nd_start (nd y)"
    using assms(4) by (auto simp: slot_ok_def)
  have "distinct (addrs (rb_link_node b p t))"
    using s area_distinct [OF assms(1)] assms(3) by auto
  then have t': "addrs t' = xs @ b # ys"
    unfolding t'_def using rb_ops_okD(1) [OF assms(5)] s(2) by simp
  have "node_ok \<lparr>nd_start = start, nd_length = len\<rparr>" using assms(2) by (simp add: node_ok_def extent_ok_def)
  note rep = area_replace [of nd xs ys b, OF _ _ _ this]
  show "area_ok nd' (addrs t')" "area_blocks nd' (addrs t') = area_blocks nd (addrs t) \<union> extent_blocks start len"
    "area_total nd' (addrs t') = area_total nd (addrs t) + len"
    unfolding t' nd'_def using rep s assms(1,3) by simp_all
  show "set (addrs t') = insert b (set (addrs t))" "length (addrs t') = Suc (length (addrs t))"
    unfolding t' using s by auto
qed

end
