(* ===== verification/Vdfs_Bits.thy ===== *)
theory Vdfs_Bits
  imports Vdfs_Prelude
begin

text \<open>
  Bitmaps kept in blocks (\<^verbatim>\<open>linux/fs/vdfs4/data.c\<close>). Every block of the buffer starts with
  a magic (and version), ends with a CRC, and holds data bits in between.

  A buffer of bytes is the list of its bits: bit \<open>8 * i + j\<close> of the list is bit \<open>j\<close> of byte
  \<open>i\<close>, the numbering of the kernel's bit operations on a little-endian machine. An access outside
  the buffer is undefined in C; the functions below return \<^const>\<open>None\<close> then, so a theorem that
  they return \<^const>\<open>Some\<close> also says that every access is inside.
\<close>

type_synonym bits = "bool list"

definition CRC32_SIZE :: nat where
  "CRC32_SIZE = 4"

section \<open>The bit loops of one block\<close>

text \<open>The inner loop of \<^verbatim>\<open>vdfs4_set_bits\<close>: \<open>n\<close> bits from \<open>pos\<close>, in the block at byte
  offset \<open>cur_blck\<close>.\<close>

fun set_bits_block :: "nat \<Rightarrow> nat \<Rightarrow> nat \<Rightarrow> nat \<Rightarrow> nat \<Rightarrow> bits \<Rightarrow> (status \<times> bits) option" where
  "set_bits_block magic_len blck_size cur_blck 0 pos buff = Some (success, buff)"
| "set_bits_block magic_len blck_size cur_blck (Suc n) pos buff =
     (if cur_blck + pos div 8 + magic_len > cur_blck + blck_size - CRC32_SIZE
      then Some (Some EFAULT, buff)
      else
        let k = 8 * (cur_blck + magic_len) + pos in
        if length buff \<le> k then None
        else if buff ! k then Some (Some EFAULT, buff)
        else set_bits_block magic_len blck_size cur_blck n (pos + 1) (buff[k := True]))"

text \<open>The inner loop of \<^verbatim>\<open>vdfs4_clear_bits\<close>: a bit that is clear already is remembered as
  an error, and the loop goes on.\<close>

fun clear_bits_block ::
    "nat \<Rightarrow> nat \<Rightarrow> nat \<Rightarrow> nat \<Rightarrow> nat \<Rightarrow> status \<Rightarrow> bits \<Rightarrow> (bool \<times> status \<times> bits) option" where
  "clear_bits_block magic_len blck_size cur_blck 0 pos ret buff = Some (True, ret, buff)"
| "clear_bits_block magic_len blck_size cur_blck (Suc n) pos ret buff =
     (if cur_blck + pos div 8 + magic_len > cur_blck + blck_size - CRC32_SIZE
      then Some (False, Some EFAULT, buff)
      else
        let k = 8 * (cur_blck + magic_len) + pos in
        if length buff \<le> k then None
        else clear_bits_block magic_len blck_size cur_blck n (pos + 1)
               (if buff ! k then ret else Some EFAULT) (buff[k := False]))"

section \<open>The loops over the blocks\<close>

text \<open>Bits in the data area of a block: \<^verbatim>\<open>datablock_size\<close>.\<close>

definition datablock_size :: "nat \<Rightarrow> nat \<Rightarrow> nat" where
  "datablock_size magic_len blck_size = (blck_size - (magic_len + CRC32_SIZE)) * 8"

text \<open>
  \<open>n\<close> blocks from the block with index \<open>b\<close>; \<open>pos\<close> is the first position in the first of them
  and 0 in the others. When \<^verbatim>\<open>count < length\<close> the code keeps \<^verbatim>\<open>count\<close> as it is.
\<close>

fun set_bits_blocks ::
    "nat \<Rightarrow> nat \<Rightarrow> nat \<Rightarrow> nat \<Rightarrow> nat \<Rightarrow> nat \<Rightarrow> bits \<Rightarrow> (status \<times> bits) option" where
  "set_bits_blocks magic_len blck_size 0 b pos count buff = Some (success, buff)"
| "set_bits_blocks magic_len blck_size (Suc n) b pos count buff =
     (let len = datablock_size magic_len blck_size - pos;
          (len', count') = (if count < len then (count, count) else (len, count - len))
      in (case set_bits_block magic_len blck_size (b * blck_size) len' pos buff of
            None \<Rightarrow> None
          | Some (Some e, buff') \<Rightarrow> Some (Some e, buff')
          | Some (None, buff') \<Rightarrow>
              set_bits_blocks magic_len blck_size n (b + 1) 0 count' buff'))"

fun clear_bits_blocks ::
    "nat \<Rightarrow> nat \<Rightarrow> nat \<Rightarrow> nat \<Rightarrow> nat \<Rightarrow> nat \<Rightarrow> status \<Rightarrow> bits \<Rightarrow> (status \<times> bits) option" where
  "clear_bits_blocks magic_len blck_size 0 b pos count ret buff = Some (ret, buff)"
| "clear_bits_blocks magic_len blck_size (Suc n) b pos count ret buff =
     (let len = datablock_size magic_len blck_size - pos;
          (len', count') = (if count < len then (count, count - count) else (len, count - len))
      in (case clear_bits_block magic_len blck_size (b * blck_size) len' pos ret buff of
            None \<Rightarrow> None
          | Some (False, ret', buff') \<Rightarrow> Some (ret', buff')
          | Some (True, ret', buff') \<Rightarrow>
              clear_bits_blocks magic_len blck_size n (b + 1) 0 count' ret' buff'))"

text \<open>
  \<^verbatim>\<open>for (cur_blck = start_blck; cur_blck <= end_blck; cur_blck += blck_size)\<close>: the number of
  blocks the loop visits. \<^verbatim>\<open>offset + count - 1\<close> is 32-bit arithmetic.
\<close>

definition blocks_visited :: "nat \<Rightarrow> nat \<Rightarrow> nat \<Rightarrow> nat" where
  "blocks_visited ds offset count =
     nat (u32 (int offset + int count - 1)) div ds + 1 - offset div ds"

definition vdfs4_set_bits :: "bits \<Rightarrow> nat \<Rightarrow> nat \<Rightarrow> nat \<Rightarrow> nat \<Rightarrow> (status \<times> bits) option" where
  "vdfs4_set_bits buff offset count magic_len blck_size =
     (let ds = datablock_size magic_len blck_size
      in set_bits_blocks magic_len blck_size (blocks_visited ds offset count)
           (offset div ds) (offset mod ds) count buff)"

definition vdfs4_clear_bits :: "bits \<Rightarrow> nat \<Rightarrow> nat \<Rightarrow> nat \<Rightarrow> nat \<Rightarrow> (status \<times> bits) option" where
  "vdfs4_clear_bits buff offset count magic_len blck_size =
     (let ds = datablock_size magic_len blck_size
      in clear_bits_blocks magic_len blck_size (blocks_visited ds offset count)
           (offset div ds) (offset mod ds) count success buff)"

section \<open>The abstract bitmap: bit numbers and their place in the buffer\<close>

text \<open>The place of data bit \<open>k\<close>: magic and CRC of the blocks before it are skipped.\<close>

definition bit_place :: "nat \<Rightarrow> nat \<Rightarrow> nat \<Rightarrow> nat" where
  "bit_place magic_len blck_size k =
     (let ds = datablock_size magic_len blck_size
      in 8 * (k div ds * blck_size + magic_len) + k mod ds)"

text \<open>A well-formed geometry: a block has room for magic, CRC and at least one byte of bits.\<close>

definition geom_ok :: "nat \<Rightarrow> nat \<Rightarrow> bool" where
  "geom_ok magic_len blck_size \<longleftrightarrow> magic_len + CRC32_SIZE < blck_size"

text \<open>The reference definitions: bit by bit, without blocks.\<close>

fun set_range :: "nat \<Rightarrow> nat \<Rightarrow> nat \<Rightarrow> nat \<Rightarrow> bits \<Rightarrow> status \<times> bits" where
  "set_range magic_len blck_size k 0 buff = (success, buff)"
| "set_range magic_len blck_size k (Suc n) buff =
     (let p = bit_place magic_len blck_size k
      in if buff ! p then (Some EFAULT, buff)
         else set_range magic_len blck_size (k + 1) n (buff[p := True]))"

fun clear_range :: "nat \<Rightarrow> nat \<Rightarrow> nat \<Rightarrow> nat \<Rightarrow> status \<Rightarrow> bits \<Rightarrow> status \<times> bits" where
  "clear_range magic_len blck_size k 0 ret buff = (ret, buff)"
| "clear_range magic_len blck_size k (Suc n) ret buff =
     (let p = bit_place magic_len blck_size k
      in clear_range magic_len blck_size (k + 1) n
           (if buff ! p then ret else Some EFAULT) (buff[p := False]))"

lemma datablock_size_pos: "geom_ok magic_len blck_size \<Longrightarrow> 0 < datablock_size magic_len blck_size"
  by (simp add: geom_ok_def datablock_size_def)

lemma pos_below_crc:
  assumes "geom_ok magic_len blck_size" "pos < datablock_size magic_len blck_size"
  shows "\<not> cur + blck_size - CRC32_SIZE < cur + pos div 8 + magic_len"
proof -
  have "pos div 8 + magic_len < blck_size - CRC32_SIZE"
    using assms
    by (simp add: geom_ok_def datablock_size_def div_less_iff_less_mult mult.commute less_diff_conv)
  then show ?thesis by linarith
qed

lemma bit_place_in_block:
  assumes "geom_ok magic_len blck_size" "pos < datablock_size magic_len blck_size"
  shows "bit_place magic_len blck_size (b * datablock_size magic_len blck_size + pos)
       = 8 * (b * blck_size + magic_len) + pos"
  using assms datablock_size_pos [OF assms(1)] by (simp add: bit_place_def Let_def)

text \<open>Places lie in the data area of their block, so different bits have different places.\<close>

lemma bit_place_decode:
  assumes "geom_ok magic_len blck_size"
  shows "bit_place magic_len blck_size k div (8 * blck_size) = k div datablock_size magic_len blck_size"
    and "bit_place magic_len blck_size k mod (8 * blck_size)
         = 8 * magic_len + k mod datablock_size magic_len blck_size"
proof -
  let ?ds = "datablock_size magic_len blck_size"
  have lt: "8 * magic_len + k mod ?ds < 8 * blck_size"
  proof -
    have "k mod ?ds < ?ds" using datablock_size_pos [OF assms] by simp
    moreover have "8 * magic_len + ?ds \<le> 8 * blck_size"
      using assms by (simp add: datablock_size_def geom_ok_def)
    ultimately show ?thesis by linarith
  qed
  have eq: "bit_place magic_len blck_size k
      = (8 * magic_len + k mod ?ds) + (8 * blck_size) * (k div ?ds)"
    by (simp add: bit_place_def Let_def algebra_simps)
  show "bit_place magic_len blck_size k div (8 * blck_size) = k div ?ds"
    unfolding eq using lt assms by (simp add: geom_ok_def)
  show "bit_place magic_len blck_size k mod (8 * blck_size) = 8 * magic_len + k mod ?ds"
    unfolding eq using lt by simp
qed

lemma bit_place_inj:
  assumes "geom_ok magic_len blck_size"
  shows "bit_place magic_len blck_size j = bit_place magic_len blck_size k \<longleftrightarrow> j = k"
proof
  assume eq: "bit_place magic_len blck_size j = bit_place magic_len blck_size k"
  have "j div datablock_size magic_len blck_size = k div datablock_size magic_len blck_size"
       "j mod datablock_size magic_len blck_size = k mod datablock_size magic_len blck_size"
    using bit_place_decode [OF assms, of j] bit_place_decode [OF assms, of k] eq by simp_all
  then show "j = k" by (metis div_mult_mod_eq)
qed simp

lemma bit_place_image:
  "geom_ok magic_len blck_size \<Longrightarrow>
     bit_place magic_len blck_size k \<in> bit_place magic_len blck_size ` R \<longleftrightarrow> k \<in> R"
  by (auto simp: image_iff bit_place_inj)

lemma bit_place_bound:
  assumes "geom_ok magic_len blck_size" "k < nb * datablock_size magic_len blck_size"
  shows "bit_place magic_len blck_size k < 8 * (nb * blck_size)"
proof -
  have "k div datablock_size magic_len blck_size < nb"
    using assms(2) by (simp add: less_mult_imp_div_less)
  then have "bit_place magic_len blck_size k div (8 * blck_size) < nb"
    using bit_place_decode(1) [OF assms(1)] by simp
  then have "bit_place magic_len blck_size k < nb * (8 * blck_size)"
    using assms(1) by (simp add: div_less_iff_less_mult geom_ok_def)
  then show ?thesis by (simp add: ac_simps)
qed

section \<open>The block loops are the flat loops\<close>

lemma set_range_append:
  "set_range magic_len blck_size k (m + n) buff =
     (case set_range magic_len blck_size k m buff of
        (None, buff') \<Rightarrow> set_range magic_len blck_size (k + m) n buff'
      | (Some e, buff') \<Rightarrow> (Some e, buff'))"
  by (induction m arbitrary: k buff) (simp_all add: Let_def split: prod.splits option.splits)

lemma clear_range_append:
  "clear_range magic_len blck_size k (m + n) ret buff =
     (case clear_range magic_len blck_size k m ret buff of
        (ret', buff') \<Rightarrow> clear_range magic_len blck_size (k + m) n ret' buff')"
  by (induction m arbitrary: k ret buff) (simp_all add: Let_def split: prod.splits)

lemma set_range_length [simp]: "length (snd (set_range magic_len blck_size k n buff)) = length buff"
  by (induction n arbitrary: k buff) (simp_all add: Let_def)

lemma clear_range_length [simp]:
  "length (snd (clear_range magic_len blck_size k n ret buff)) = length buff"
  by (induction n arbitrary: k ret buff) (simp_all add: Let_def)

lemma set_bits_block_flat:
  assumes "geom_ok magic_len blck_size" "pos + n \<le> datablock_size magic_len blck_size"
    and "\<forall>j < n. bit_place magic_len blck_size (b * datablock_size magic_len blck_size + pos + j) < length buff"
  shows "set_bits_block magic_len blck_size (b * blck_size) n pos buff
       = Some (set_range magic_len blck_size (b * datablock_size magic_len blck_size + pos) n buff)"
  using assms(2,3)
proof (induction n arbitrary: pos buff)
  case (Suc n)
  let ?ds = "datablock_size magic_len blck_size"
  have pos: "pos < ?ds" using Suc.prems(1) by simp
  have place: "bit_place magic_len blck_size (b * ?ds + pos) = 8 * (b * blck_size + magic_len) + pos"
    by (rule bit_place_in_block [OF assms(1) pos])
  have len: "8 * (b * blck_size + magic_len) + pos < length buff"
    using Suc.prems(2) place by force
  have "\<forall>j < n. bit_place magic_len blck_size (b * ?ds + (pos + 1) + j) < length buff"
    using Suc.prems(2) by (metis Suc_less_eq add.assoc add_Suc_right plus_1_eq_Suc)
  with Suc.IH [of "pos + 1"] Suc.prems(1) place len pos_below_crc [OF assms(1) pos]
  show ?case by (simp add: Let_def)
qed simp

lemma clear_bits_block_flat:
  assumes "geom_ok magic_len blck_size" "pos + n \<le> datablock_size magic_len blck_size"
    and "\<forall>j < n. bit_place magic_len blck_size (b * datablock_size magic_len blck_size + pos + j) < length buff"
  shows "clear_bits_block magic_len blck_size (b * blck_size) n pos ret buff
       = Some (True, clear_range magic_len blck_size (b * datablock_size magic_len blck_size + pos) n ret buff)"
  using assms(2,3)
proof (induction n arbitrary: pos ret buff)
  case (Suc n)
  let ?ds = "datablock_size magic_len blck_size"
  have pos: "pos < ?ds" using Suc.prems(1) by simp
  have place: "bit_place magic_len blck_size (b * ?ds + pos) = 8 * (b * blck_size + magic_len) + pos"
    by (rule bit_place_in_block [OF assms(1) pos])
  have len: "8 * (b * blck_size + magic_len) + pos < length buff"
    using Suc.prems(2) place by force
  have "\<forall>j < n. bit_place magic_len blck_size (b * ?ds + (pos + 1) + j) < length buff"
    using Suc.prems(2) by (metis Suc_less_eq add.assoc add_Suc_right plus_1_eq_Suc)
  with Suc.IH [of "pos + 1"] Suc.prems(1) place len pos_below_crc [OF assms(1) pos]
  show ?case by (simp add: Let_def)
qed simp

text \<open>How many blocks a non-empty range needs, one block at a time.\<close>

lemma blocks_step_last:
  assumes "0 < c" "(pos::nat) + c \<le> ds"
  shows "(b * ds + pos + c - 1) div ds = b"
proof -
  have "b * ds + pos + c - 1 = b * ds + (pos + c - 1)" using assms by simp
  moreover have "pos + c - 1 < ds" using assms by linarith
  ultimately show ?thesis by (metis add.commute add_0 div_less div_mult_self3 less_nat_zero_code)
qed

lemma blocks_step_more:
  assumes "(pos::nat) < ds" "ds - pos < c"
  shows "b * ds + pos + c - 1 = (b + 1) * ds + 0 + (c - (ds - pos)) - 1"
  using assms by (simp add: algebra_simps)

lemma range_next_block:
  assumes "\<forall>j < count. P (b * ds + pos + j)" "(pos::nat) < ds" "ds - pos < count"
  shows "\<forall>j < count - (ds - pos). P ((b + 1) * ds + 0 + j)"
proof (intro allI impI)
  fix j
  assume "j < count - (ds - pos)"
  then have "P (b * ds + pos + (ds - pos + j))" using assms by (metis less_diff_conv add.commute)
  moreover have "b * ds + pos + (ds - pos + j) = (b + 1) * ds + 0 + j"
    using assms(2) by (simp add: algebra_simps)
  ultimately show "P ((b + 1) * ds + 0 + j)" by simp
qed

lemma set_bits_blocks_flat:
  fixes magic_len blck_size
  defines "ds \<equiv> datablock_size magic_len blck_size"
  assumes "geom_ok magic_len blck_size" "pos < ds" "0 < count" "n = (b * ds + pos + count - 1) div ds + 1 - b"
    and "\<forall>j < count. bit_place magic_len blck_size (b * ds + pos + j) < length buff"
  shows "set_bits_blocks magic_len blck_size n b pos count buff
       = Some (set_range magic_len blck_size (b * ds + pos) count buff)"
  using assms(3-)
proof (induction n arbitrary: b pos count buff)
  case 0
  have "b * ds div ds \<le> (b * ds + pos + count - 1) div ds"
    using 0 by (intro div_le_mono) simp
  with 0 show ?case by simp
next
  case (Suc n)
  show ?case
  proof (cases "count \<le> ds - pos")
    case True
    then have "n = 0" using Suc.prems blocks_step_last [of count pos ds b] by simp
    moreover have "set_bits_block magic_len blck_size (b * blck_size) count pos buff
        = Some (set_range magic_len blck_size (b * ds + pos) count buff)"
      using True Suc.prems assms(1,2) by (intro set_bits_block_flat [of magic_len blck_size, folded ds_def]) auto
    ultimately show ?thesis
      using True by (auto simp: Let_def ds_def split: prod.splits option.splits)
  next
    case False
    let ?len = "ds - pos"
    have split: "count = ?len + (count - ?len)" using False by simp
    have blk: "set_bits_block magic_len blck_size (b * blck_size) ?len pos buff
        = Some (set_range magic_len blck_size (b * ds + pos) ?len buff)"
      using False Suc.prems assms(1,2) by (intro set_bits_block_flat [of magic_len blck_size, folded ds_def]) auto
    have n: "n = ((b + 1) * ds + 0 + (count - ?len) - 1) div ds + 1 - (b + 1)"
      using Suc.prems(3) blocks_step_more [of pos ds count b] Suc.prems(1) False by simp
    have nxt: "b * ds + pos + ?len = (b + 1) * ds + 0" using Suc.prems(1) by simp
    have rest: "set_bits_blocks magic_len blck_size n (b + 1) 0 (count - ?len) buff'
        = Some (set_range magic_len blck_size (b * ds + pos + ?len) (count - ?len) buff')"
      if "length buff' = length buff" for buff'
    proof -
      have "\<forall>j < count - ?len. bit_place magic_len blck_size ((b + 1) * ds + 0 + j) < length buff'"
        using range_next_block [OF Suc.prems(4,1)] that False by simp
      then show ?thesis
        unfolding nxt using Suc.prems(1) False n by (intro Suc.IH) auto
    qed
    obtain r buff' where rb: "set_range magic_len blck_size (b * ds + pos) ?len buff = (r, buff')"
      by fastforce
    then have l: "length buff' = length buff"
      by (metis set_range_length snd_conv)
    show ?thesis
      using blk rb rest [OF l] False
      by (subst split, subst set_range_append)
        (auto simp: Let_def ds_def [symmetric] split: option.splits)
  qed
qed

lemma clear_bits_blocks_flat:
  fixes magic_len blck_size
  defines "ds \<equiv> datablock_size magic_len blck_size"
  assumes "geom_ok magic_len blck_size" "pos < ds" "0 < count" "n = (b * ds + pos + count - 1) div ds + 1 - b"
    and "\<forall>j < count. bit_place magic_len blck_size (b * ds + pos + j) < length buff"
  shows "clear_bits_blocks magic_len blck_size n b pos count ret buff
       = Some (clear_range magic_len blck_size (b * ds + pos) count ret buff)"
  using assms(3-)
proof (induction n arbitrary: b pos count ret buff)
  case 0
  have "b * ds div ds \<le> (b * ds + pos + count - 1) div ds"
    using 0 by (intro div_le_mono) simp
  with 0 show ?case by simp
next
  case (Suc n)
  show ?case
  proof (cases "count \<le> ds - pos")
    case True
    then have "n = 0" using Suc.prems blocks_step_last [of count pos ds b] by simp
    moreover have "clear_bits_block magic_len blck_size (b * blck_size) count pos ret buff
        = Some (True, clear_range magic_len blck_size (b * ds + pos) count ret buff)"
      using True Suc.prems assms(1,2) by (intro clear_bits_block_flat [of magic_len blck_size, folded ds_def]) auto
    ultimately show ?thesis
      using True by (auto simp: Let_def ds_def split: prod.splits option.splits)
  next
    case False
    let ?len = "ds - pos"
    have split: "count = ?len + (count - ?len)" using False by simp
    have blk: "clear_bits_block magic_len blck_size (b * blck_size) ?len pos ret buff
        = Some (True, clear_range magic_len blck_size (b * ds + pos) ?len ret buff)"
      using False Suc.prems assms(1,2) by (intro clear_bits_block_flat [of magic_len blck_size, folded ds_def]) auto
    have n: "n = ((b + 1) * ds + 0 + (count - ?len) - 1) div ds + 1 - (b + 1)"
      using Suc.prems(3) blocks_step_more [of pos ds count b] Suc.prems(1) False by simp
    have nxt: "b * ds + pos + ?len = (b + 1) * ds + 0" using Suc.prems(1) by simp
    have rest: "clear_bits_blocks magic_len blck_size n (b + 1) 0 (count - ?len) ret' buff'
        = Some (clear_range magic_len blck_size (b * ds + pos + ?len) (count - ?len) ret' buff')"
      if "length buff' = length buff" for buff' ret'
    proof -
      have "\<forall>j < count - ?len. bit_place magic_len blck_size ((b + 1) * ds + 0 + j) < length buff'"
        using range_next_block [OF Suc.prems(4,1)] that False by simp
      then show ?thesis
        unfolding nxt using Suc.prems(1) False n by (intro Suc.IH) auto
    qed
    obtain r buff' where rb: "clear_range magic_len blck_size (b * ds + pos) ?len ret buff = (r, buff')"
      by fastforce
    then have l: "length buff' = length buff"
      by (metis clear_range_length snd_conv)
    show ?thesis
      using blk rb rest [OF l] False
      by (subst split, subst clear_range_append)
        (auto simp: Let_def ds_def [symmetric] split: option.splits)
  qed
qed

section \<open>The bitmap as a set of bit numbers\<close>

definition bitmap_bit :: "nat \<Rightarrow> nat \<Rightarrow> bits \<Rightarrow> nat \<Rightarrow> bool" where
  "bitmap_bit magic_len blck_size buff k = buff ! bit_place magic_len blck_size k"

text \<open>The buffer holds \<open>nb\<close> whole blocks, and the bit numbers fit the 32-bit arithmetic.\<close>

definition bitmap_buffer :: "nat \<Rightarrow> nat \<Rightarrow> nat \<Rightarrow> bits \<Rightarrow> bool" where
  "bitmap_buffer magic_len blck_size nb buff \<longleftrightarrow>
     geom_ok magic_len blck_size \<and> length buff = 8 * (nb * blck_size) \<and>
     nb * datablock_size magic_len blck_size < 4294967296"

lemma blocks_visited_eq:
  assumes "0 < count" "offset + count < 4294967296"
  shows "blocks_visited ds offset count = (offset + count - 1) div ds + 1 - offset div ds"
proof -
  have "u32 (int offset + int count - 1) = int (offset + count - 1)"
    using assms by (subst u32_id) auto
  then show ?thesis by (simp add: blocks_visited_def)
qed

lemma bitmap_place_bound:
  assumes "bitmap_buffer magic_len blck_size nb buff"
    and "k < nb * datablock_size magic_len blck_size"
  shows "bit_place magic_len blck_size k < length buff"
  using assms bit_place_bound [of magic_len blck_size k nb] by (simp add: bitmap_buffer_def)

lemma vdfs4_set_bits_flat:
  assumes "bitmap_buffer magic_len blck_size nb buff" "0 < count"
    and "offset + count \<le> nb * datablock_size magic_len blck_size"
  shows "vdfs4_set_bits buff offset count magic_len blck_size
       = Some (set_range magic_len blck_size offset count buff)"
proof -
  let ?ds = "datablock_size magic_len blck_size"
  have g: "geom_ok magic_len blck_size" using assms(1) by (simp add: bitmap_buffer_def)
  have off: "offset div ?ds * ?ds + offset mod ?ds = offset" by (rule div_mult_mod_eq)
  have "\<forall>j < count. bit_place magic_len blck_size (offset div ?ds * ?ds + offset mod ?ds + j) < length buff"
    unfolding off using assms by (auto intro!: bitmap_place_bound)
  moreover have "blocks_visited ?ds offset count
      = (offset div ?ds * ?ds + offset mod ?ds + count - 1) div ?ds + 1 - offset div ?ds"
    unfolding off using assms by (intro blocks_visited_eq) (auto simp: bitmap_buffer_def)
  moreover have "offset mod ?ds < ?ds" using datablock_size_pos [OF g] by simp
  ultimately show ?thesis
    using set_bits_blocks_flat [OF g, of "offset mod ?ds" count _ "offset div ?ds" buff] assms(2)
    by (simp add: vdfs4_set_bits_def Let_def off)
qed

lemma vdfs4_clear_bits_flat:
  assumes "bitmap_buffer magic_len blck_size nb buff" "0 < count"
    and "offset + count \<le> nb * datablock_size magic_len blck_size"
  shows "vdfs4_clear_bits buff offset count magic_len blck_size
       = Some (clear_range magic_len blck_size offset count success buff)"
proof -
  let ?ds = "datablock_size magic_len blck_size"
  have g: "geom_ok magic_len blck_size" using assms(1) by (simp add: bitmap_buffer_def)
  have off: "offset div ?ds * ?ds + offset mod ?ds = offset" by (rule div_mult_mod_eq)
  have "\<forall>j < count. bit_place magic_len blck_size (offset div ?ds * ?ds + offset mod ?ds + j) < length buff"
    unfolding off using assms by (auto intro!: bitmap_place_bound)
  moreover have "blocks_visited ?ds offset count
      = (offset div ?ds * ?ds + offset mod ?ds + count - 1) div ?ds + 1 - offset div ?ds"
    unfolding off using assms by (intro blocks_visited_eq) (auto simp: bitmap_buffer_def)
  moreover have "offset mod ?ds < ?ds" using datablock_size_pos [OF g] by simp
  ultimately show ?thesis
    using clear_bits_blocks_flat [OF g, of "offset mod ?ds" count _ "offset div ?ds" buff] assms(2)
    by (simp add: vdfs4_clear_bits_def Let_def off)
qed

text \<open>What the flat loops do to every place of the buffer, data bit or not.\<close>

lemma set_range_clear:
  assumes "geom_ok magic_len blck_size" "\<forall>j \<in> {k ..< k + n}. bit_place magic_len blck_size j < length buff"
    and "\<forall>j \<in> {k ..< k + n}. \<not> bitmap_bit magic_len blck_size buff j"
  shows "\<exists>buff'. set_range magic_len blck_size k n buff = (success, buff') \<and>
           (\<forall>i < length buff. buff' ! i \<longleftrightarrow> buff ! i \<or> i \<in> bit_place magic_len blck_size ` {k ..< k + n})"
  using assms(2,3)
proof (induction n arbitrary: k buff)
  case (Suc n)
  let ?p = "bit_place magic_len blck_size k"
  have p: "?p < length buff" "\<not> buff ! ?p" using Suc.prems by (auto simp: bitmap_bit_def)
  have "\<not> bitmap_bit magic_len blck_size (buff[?p := True]) j" if "j \<in> {k + 1 ..< k + 1 + n}" for j
    using Suc.prems(2) that bit_place_inj [OF assms(1), of j k] by (simp add: bitmap_bit_def)
  then obtain buff' where b: "set_range magic_len blck_size (k + 1) n (buff[?p := True]) = (success, buff')"
    "\<forall>i < length buff. buff' ! i \<longleftrightarrow> (buff[?p := True]) ! i
        \<or> i \<in> bit_place magic_len blck_size ` {k + 1 ..< k + 1 + n}"
    using Suc.IH [of "k + 1" "buff[?p := True]"] Suc.prems(1) by auto
  have rng: "{k ..< k + Suc n} = insert k {k + 1 ..< k + 1 + n}" by auto
  show ?case using b p unfolding rng image_insert by (auto simp: nth_list_update Let_def)
qed simp

lemma set_range_busy:
  assumes "geom_ok magic_len blck_size" "j \<in> {k ..< k + n}" "bitmap_bit magic_len blck_size buff j"
  shows "fst (set_range magic_len blck_size k n buff) = Some EFAULT"
  using assms(2,3)
proof (induction n arbitrary: k buff)
  case (Suc n)
  let ?p = "bit_place magic_len blck_size k"
  show ?case
  proof (cases "buff ! ?p")
    case False
    with Suc.prems have "j \<noteq> k" by (auto simp: bitmap_bit_def)
    with Suc.prems have "bitmap_bit magic_len blck_size (buff[?p := True]) j"
      using bit_place_inj [OF assms(1), of j k] by (simp add: bitmap_bit_def)
    with Suc.IH [of "k + 1"] Suc.prems \<open>j \<noteq> k\<close> False show ?thesis
      by (simp add: Let_def)
  qed (simp add: Let_def)
qed simp

lemma clear_range_spec:
  assumes "geom_ok magic_len blck_size" "\<forall>j \<in> {k ..< k + n}. bit_place magic_len blck_size j < length buff"
  shows "\<exists>buff'. clear_range magic_len blck_size k n ret buff =
             (if \<forall>j \<in> {k ..< k + n}. bitmap_bit magic_len blck_size buff j then ret else Some EFAULT, buff')
           \<and> (\<forall>i < length buff. buff' ! i \<longleftrightarrow> buff ! i \<and> i \<notin> bit_place magic_len blck_size ` {k ..< k + n})"
  using assms(2)
proof (induction n arbitrary: k ret buff)
  case (Suc n)
  let ?p = "bit_place magic_len blck_size k"
  have p: "?p < length buff" using Suc.prems by auto
  have same: "bitmap_bit magic_len blck_size (buff[?p := False]) j
      = bitmap_bit magic_len blck_size buff j" if "j \<in> {k + 1 ..< k + 1 + n}" for j
    using that bit_place_inj [OF assms(1), of j k] by (simp add: bitmap_bit_def)
  have rng: "{k ..< k + Suc n} = insert k {k + 1 ..< k + 1 + n}" by auto
  from Suc.IH [of "k + 1" "buff[?p := False]" "if buff ! ?p then ret else Some EFAULT"] Suc.prems
  obtain buff' where "clear_range magic_len blck_size k (Suc n) ret buff =
      (if \<forall>j \<in> {k + 1 ..< k + 1 + n}. bitmap_bit magic_len blck_size (buff[?p := False]) j
       then (if buff ! ?p then ret else Some EFAULT) else Some EFAULT, buff')"
    "\<forall>i < length buff. buff' ! i \<longleftrightarrow> (buff[?p := False]) ! i
        \<and> i \<notin> bit_place magic_len blck_size ` {k + 1 ..< k + 1 + n}"
    by (auto simp: Let_def)
  then show ?case using p same unfolding rng
    by (auto simp: nth_list_update bitmap_bit_def)
qed simp

lemma bit_range_bound:
  assumes "bitmap_buffer magic_len blck_size nb buff"
    and "offset + count \<le> nb * datablock_size magic_len blck_size"
  shows "\<forall>j \<in> {offset ..< offset + count}. bit_place magic_len blck_size j < length buff"
  using assms by (auto intro: bitmap_place_bound)

lemma set_range_buffer [simp]:
  "set_range magic_len blck_size k n buff = (r, buff') \<Longrightarrow> length buff' = length buff"
  by (metis set_range_length snd_conv)

lemma clear_range_buffer [simp]:
  "clear_range magic_len blck_size k n ret buff = (r, buff') \<Longrightarrow> length buff' = length buff"
  by (metis clear_range_length snd_conv)

lemma set_bits_run:
  assumes "bitmap_buffer magic_len blck_size nb buff" "0 < count"
    and "offset + count \<le> nb * datablock_size magic_len blck_size"
    and "\<forall>k \<in> {offset ..< offset + count}. \<not> bitmap_bit magic_len blck_size buff k"
  shows "\<exists>buff'. vdfs4_set_bits buff offset count magic_len blck_size = Some (success, buff') \<and>
           length buff' = length buff \<and>
           (\<forall>i < length buff. buff' ! i \<longleftrightarrow>
              buff ! i \<or> i \<in> bit_place magic_len blck_size ` {offset ..< offset + count})"
proof -
  have "geom_ok magic_len blck_size" using assms(1) by (simp add: bitmap_buffer_def)
  from set_range_clear [OF this bit_range_bound [OF assms(1,3)] assms(4)]
  show ?thesis using vdfs4_set_bits_flat [OF assms(1-3)] by fastforce
qed

lemma clear_bits_run:
  assumes "bitmap_buffer magic_len blck_size nb buff" "0 < count"
    and "offset + count \<le> nb * datablock_size magic_len blck_size"
  shows "\<exists>buff'. vdfs4_clear_bits buff offset count magic_len blck_size =
             Some (if \<forall>k \<in> {offset ..< offset + count}. bitmap_bit magic_len blck_size buff k
                   then success else Some EFAULT, buff') \<and>
           length buff' = length buff \<and>
           (\<forall>i < length buff. buff' ! i \<longleftrightarrow>
              buff ! i \<and> i \<notin> bit_place magic_len blck_size ` {offset ..< offset + count})"
proof -
  have "geom_ok magic_len blck_size" using assms(1) by (simp add: bitmap_buffer_def)
  from clear_range_spec [OF this bit_range_bound [OF assms(1,3)], of success]
  show ?thesis using vdfs4_clear_bits_flat [OF assms(1-3)] by fastforce
qed

section \<open>Properties\<close>

text \<open>
  C33. \<^verbatim>\<open>vdfs4_set_bits\<close> on a range inside the bitmap never leaves the buffer. It succeeds
  exactly when every bit of the range is clear; then the bits of the range are set, and every other
  bit of the buffer, the magics and checksums of the blocks included, is as before. The comment of the
  function says that it updates sign and crc of the buffer; it does not, they are written at the commit.
\<close>

theorem set_bits_correct:
  assumes "bitmap_buffer magic_len blck_size nb buff" "0 < count"
    and "offset + count \<le> nb * datablock_size magic_len blck_size"
  shows "\<exists>r buff'. vdfs4_set_bits buff offset count magic_len blck_size = Some (r, buff') \<and>
           length buff' = length buff \<and>
           (r = success \<longleftrightarrow> (\<forall>k \<in> {offset ..< offset + count}. \<not> bitmap_bit magic_len blck_size buff k)) \<and>
           (r = success \<longrightarrow> (\<forall>i < length buff.
              buff' ! i \<longleftrightarrow> buff ! i \<or> i \<in> bit_place magic_len blck_size ` {offset ..< offset + count}))"
proof (cases "\<forall>k \<in> {offset ..< offset + count}. \<not> bitmap_bit magic_len blck_size buff k")
  case True
  with set_bits_run [OF assms] show ?thesis by auto
next
  case False
  have g: "geom_ok magic_len blck_size" using assms(1) by (simp add: bitmap_buffer_def)
  have "fst (set_range magic_len blck_size offset count buff) = Some EFAULT"
    using False set_range_busy [OF g] by blast
  with False vdfs4_set_bits_flat [OF assms] show ?thesis
    by (cases "set_range magic_len blck_size offset count buff") auto
qed

theorem set_bits_correct_witness:
  "\<exists>buff'. vdfs4_set_bits (replicate 80 False) 6 4 0 5 = Some (success, buff') \<and>
     length buff' = 80 \<and> (\<forall>i < 80. buff' ! i \<longleftrightarrow> i \<in> {6, 7, 40, 41})"
proof -
  have b: "bitmap_buffer 0 5 2 (replicate 80 False)"
    by (simp add: bitmap_buffer_def geom_ok_def datablock_size_def CRC32_SIZE_def)
  have rng: "{6 ..< 6 + (4::nat)} = {6, 7, 8, 9}" by auto
  have img: "bit_place 0 5 ` {6 ..< 6 + 4} = {6, 7, 40, 41}"
    unfolding rng by (simp add: bit_place_def datablock_size_def CRC32_SIZE_def)
  have clear: "\<not> bitmap_bit 0 5 (replicate 80 False) k" if "k \<in> {6 ..< 6 + 4}" for k
    using that bit_place_bound [of 0 5 k 2]
    by (simp add: bitmap_bit_def geom_ok_def datablock_size_def CRC32_SIZE_def)
  from set_bits_correct [OF b, of 4 6, unfolded img] clear show ?thesis
    by (simp add: datablock_size_def CRC32_SIZE_def)
qed

text \<open>
  \<^verbatim>\<open>vdfs4_clear_bits\<close> on a range inside the bitmap never leaves the buffer, clears exactly
  the bits of the range, and reports \<^const>\<open>EFAULT\<close> if and only if one of them was clear before.
\<close>

theorem clear_bits_correct:
  assumes "bitmap_buffer magic_len blck_size nb buff" "0 < count"
    and "offset + count \<le> nb * datablock_size magic_len blck_size"
  shows "\<exists>r buff'. vdfs4_clear_bits buff offset count magic_len blck_size = Some (r, buff') \<and>
           length buff' = length buff \<and>
           r = (if \<forall>k \<in> {offset ..< offset + count}. bitmap_bit magic_len blck_size buff k
                then success else Some EFAULT) \<and>
           (\<forall>i < length buff. buff' ! i \<longleftrightarrow>
              buff ! i \<and> i \<notin> bit_place magic_len blck_size ` {offset ..< offset + count})"
  using clear_bits_run [OF assms] by blast

theorem clear_bits_correct_witness:
  "\<exists>buff'. vdfs4_clear_bits (replicate 80 True) 6 4 0 5 = Some (success, buff') \<and>
     length buff' = 80 \<and> (\<forall>i < 80. buff' ! i \<longleftrightarrow> i \<notin> {6, 7, 40, 41})"
proof -
  have b: "bitmap_buffer 0 5 2 (replicate 80 True)"
    by (simp add: bitmap_buffer_def geom_ok_def datablock_size_def CRC32_SIZE_def)
  have rng: "{6 ..< 6 + (4::nat)} = {6, 7, 8, 9}" by auto
  have img: "bit_place 0 5 ` {6 ..< 6 + 4} = {6, 7, 40, 41}"
    unfolding rng by (simp add: bit_place_def datablock_size_def CRC32_SIZE_def)
  have busy: "bitmap_bit 0 5 (replicate 80 True) k" if "k \<in> {6 ..< 6 + 4}" for k
    using that bit_place_bound [of 0 5 k 2]
    by (simp add: bitmap_bit_def geom_ok_def datablock_size_def CRC32_SIZE_def)
  from clear_bits_correct [OF b, of 4 6, unfolded img] busy show ?thesis
    by (simp add: datablock_size_def CRC32_SIZE_def)
qed

text \<open>
  Freeing what was just allocated restores the bitmap: after a successful
  \<^verbatim>\<open>vdfs4_set_bits\<close>, \<^verbatim>\<open>vdfs4_clear_bits\<close> on the same range succeeds and gives back
  the buffer, bit for bit.
\<close>

theorem set_clear_roundtrip:
  assumes "bitmap_buffer magic_len blck_size nb buff" "0 < count"
    and "offset + count \<le> nb * datablock_size magic_len blck_size"
    and "vdfs4_set_bits buff offset count magic_len blck_size = Some (success, buff')"
  shows "vdfs4_clear_bits buff' offset count magic_len blck_size = Some (success, buff)"
proof -
  let ?R = "{offset ..< offset + count}" and ?pl = "bit_place magic_len blck_size"
  have g: "geom_ok magic_len blck_size" using assms(1) by (simp add: bitmap_buffer_def)
  have clear: "\<forall>k \<in> ?R. \<not> bitmap_bit magic_len blck_size buff k"
    using set_range_busy [OF g] vdfs4_set_bits_flat [OF assms(1-3)] assms(4) by (metis fst_conv option.distinct(1) option.inject)
  have b': "length buff' = length buff" "\<forall>i < length buff. buff' ! i \<longleftrightarrow> buff ! i \<or> i \<in> ?pl ` ?R"
    using set_bits_run [OF assms(1-3) clear] assms(4) by auto
  have buf': "bitmap_buffer magic_len blck_size nb buff'" using assms(1) b' by (simp add: bitmap_buffer_def)
  have set: "\<forall>k \<in> ?R. bitmap_bit magic_len blck_size buff' k"
    using b' bit_range_bound [OF assms(1,3)] by (auto simp: bitmap_bit_def)
  obtain buff'' where c: "vdfs4_clear_bits buff' offset count magic_len blck_size = Some (success, buff'')"
    "length buff'' = length buff" "\<forall>i < length buff. buff'' ! i \<longleftrightarrow> buff' ! i \<and> i \<notin> ?pl ` ?R"
    using clear_bits_run [OF buf' assms(2,3)] set b'(1) by auto
  have "buff'' ! i = buff ! i" if "i < length buff" for i
    using that c(3) b'(2) clear by (auto simp: bitmap_bit_def)
  then have "buff'' = buff" using c(2) by (intro nth_equalityI) auto
  with c(1) show ?thesis by simp
qed

theorem set_clear_roundtrip_witness:
  "vdfs4_clear_bits (replicate 7 False @ [True] @ replicate 32 False @ [True] @ replicate 39 False) 7 2 0 5
     = Some (success, replicate 80 False)"
proof (rule set_clear_roundtrip)
  show "bitmap_buffer 0 5 2 (replicate 80 False)"
    by (simp add: bitmap_buffer_def geom_ok_def datablock_size_def CRC32_SIZE_def)
  show "vdfs4_set_bits (replicate 80 False) 7 2 0 5
    = Some (success, replicate 7 False @ [True] @ replicate 32 False @ [True] @ replicate 39 False)"
    by code_simp
qed (simp_all add: datablock_size_def CRC32_SIZE_def)

end
