(* ===== verification/Vdfs_Fsm.thy ===== *)
theory Vdfs_Fsm
  imports Vdfs_Fsm_Tree Vdfs_Bits "HOL-Library.Multiset"
begin

text \<open>
  The free space manager (\<^verbatim>\<open>linux/fs/vdfs4/fsm.c\<close>): its state, and the operations on the
  trees of free extents.

  The state is \<^verbatim>\<open>struct vdfs4_fsm_info\<close> with the counters it uses in
  \<^verbatim>\<open>struct vdfs4_sb_info\<close>; \<open>nodes\<close> is the memory of the slab cache. Every call of
  \<^verbatim>\<open>kmem_cache_alloc\<close> has a number, the \<open>n\<close>-th call succeeds if \<open>env_mem n\<close>, and the object it
  returns has the address \<open>n\<close>, so a fresh address was never used before.
\<close>

section \<open>The state\<close>

definition VDFS4_FSM_MAX_ORDER :: nat where
  "VDFS4_FSM_MAX_ORDER = 16"

definition VDFS4_FSM_MAX_FREE_NODES :: int where
  "VDFS4_FSM_MAX_FREE_NODES = 20480"

record vdfs4_fsm_info =
  nodes :: node_store
  slab_next :: nat
  free_area :: rb_tree
  free_list :: "nat list list"
  free_area_nodes :: int
  next_free_area :: rb_tree
  next_free_list :: "nat list"
  next_free_nodes :: int
  next_free_blocks :: int
  untracked_blocks :: int
  untracked_next_free :: int
  free_blocks_count :: int
  reserved_blocks_count :: int
  volume_blocks_count :: int
  sb_rdonly :: bool
  fsm_data :: bits
  fsm_block_size :: nat
  erase_blocks_counters :: "int list"
  log_erase_block_size_in_blocks :: nat
  erase_block_size_in_blocks :: int
  dirty_pages :: "int list"
  page_count :: int
  log_super_page_size :: nat
  log_block_size :: nat
  block_size_shift :: nat
  mount_finished :: bool

record fsm_env =
  env_rb :: rb_ops
  env_mem :: "nat \<Rightarrow> bool"
  env_debug :: bool

definition fsm_alloc_node :: "fsm_env \<Rightarrow> vdfs4_fsm_info \<Rightarrow> nat option \<times> vdfs4_fsm_info" where
  "fsm_alloc_node env s =
     (if env_mem env (slab_next s) then Some (slab_next s) else None, s\<lparr>slab_next := Suc (slab_next s)\<rparr>)"

definition fsm_init_tree :: "vdfs4_fsm_info \<Rightarrow> vdfs4_fsm_info" where
  "fsm_init_tree s =
     s\<lparr>free_area_nodes := 0, free_area := Leaf, free_list := replicate (VDFS4_FSM_MAX_ORDER + 1) []\<rparr>"

definition fsm_init_next_tree :: "vdfs4_fsm_info \<Rightarrow> vdfs4_fsm_info" where
  "fsm_init_next_tree s =
     s\<lparr>next_free_blocks := 0, next_free_nodes := 0, next_free_area := Leaf, next_free_list := []\<rparr>"

text \<open>\<^verbatim>\<open>__fls\<close>: the number of the most significant bit.\<close>

fun fls_bit :: "nat \<Rightarrow> nat" where
  "fls_bit n = (if n < 2 then 0 else Suc (fls_bit (n div 2)))"

declare fls_bit.simps [simp del]

definition fsm_order :: "int \<Rightarrow> nat" where
  "fsm_order len = min (fls_bit (nat len)) VDFS4_FSM_MAX_ORDER"

definition fsm_hash :: "nat \<Rightarrow> vdfs4_fsm_info \<Rightarrow> vdfs4_fsm_info" where
  "fsm_hash a s =
     (let i = fsm_order (nd_length (nodes s a))
      in s\<lparr>free_list := (free_list s)[i := free_list s ! i @ [a]]\<rparr>)"

definition fsm_unhash :: "nat \<Rightarrow> vdfs4_fsm_info \<Rightarrow> vdfs4_fsm_info" where
  "fsm_unhash a s = s\<lparr>free_list := map (removeAll a) (free_list s)\<rparr>"

definition fsm_drop :: "fsm_env \<Rightarrow> nat \<Rightarrow> vdfs4_fsm_info \<Rightarrow> vdfs4_fsm_info" where
  "fsm_drop env a s =
     s\<lparr>free_area := rb_erase (env_rb env) a (free_area s), free_area_nodes := u32 (free_area_nodes s - 1)\<rparr>"

section \<open>The consistency check\<close>

text \<open>
  \<^verbatim>\<open>fsm_check_node\<close> for a node on the list \<open>on_list\<close>. \<^verbatim>\<open>fsm_verify_state\<close> walks the
  trees in order, then the lists of every order.
\<close>

definition fsm_check_node :: "node_store \<Rightarrow> nat set \<Rightarrow> nat \<Rightarrow> nat option \<Rightarrow> bool" where
  "fsm_check_node nd on_list a prev \<longleftrightarrow>
     nd_length (nd a) \<noteq> 0 \<and> a \<in> on_list \<and>
     (case prev of None \<Rightarrow> True
      | Some p \<Rightarrow> \<not> nd_start (nd a) \<le> nd_end (nd p) \<and>
                  \<not> fsm_intersects (nd p) (nd_start (nd a)) (nd_length (nd a)))"

fun fsm_check_nodes :: "node_store \<Rightarrow> nat set \<Rightarrow> nat option \<Rightarrow> nat list \<Rightarrow> bool" where
  "fsm_check_nodes nd on_list prev [] = True"
| "fsm_check_nodes nd on_list prev (a # as) =
     (fsm_check_node nd on_list a prev \<and> fsm_check_nodes nd on_list (Some a) as)"

definition fsm_state_ok :: "vdfs4_fsm_info \<Rightarrow> bool" where
  "fsm_state_ok s \<longleftrightarrow>
     fsm_check_nodes (nodes s) (set (next_free_list s)) None (addrs (next_free_area s)) \<and>
     area_total (nodes s) (addrs (next_free_area s)) = next_free_blocks s - untracked_next_free s \<and>
     int (length (addrs (next_free_area s))) = next_free_nodes s \<and>
     fsm_check_nodes (nodes s) (set (concat (free_list s))) None (addrs (free_area s)) \<and>
     (\<forall>i < length (free_list s). \<forall>a \<in> set (free_list s ! i).
        a \<in> set (addrs (free_area s)) \<and> fsm_order (nd_length (nodes s a)) = i) \<and>
     area_total (nodes s) (concat (free_list s)) =
       free_blocks_count s + reserved_blocks_count s - untracked_blocks s \<and>
     int (length (concat (free_list s))) = free_area_nodes s"

definition fsm_verify_state :: "fsm_env \<Rightarrow> vdfs4_fsm_info \<Rightarrow> vdfs4_fsm_info outcome" where
  "fsm_verify_state env s = (if env_debug env \<and> \<not> fsm_state_ok s then Bug else Done s)"

section \<open>Freeing: the extents that wait for the commit\<close>

definition fsm_add_merged ::
    "fsm_env \<Rightarrow> int \<Rightarrow> node_store \<times> nat option \<Rightarrow> vdfs4_fsm_info \<Rightarrow> vdfs4_fsm_info" where
  "fsm_add_merged env len m s =
     (let s1 = s\<lparr>nodes := fst m, next_free_blocks := next_free_blocks s + len\<rparr>
      in case snd m of
           None \<Rightarrow> s1
         | Some d \<Rightarrow> s1\<lparr>next_free_list := removeAll d (next_free_list s),
                        next_free_area := rb_erase (env_rb env) d (next_free_area s),
                        next_free_nodes := u32 (next_free_nodes s - 1)\<rparr>)"

definition fsm_add_new ::
    "fsm_env \<Rightarrow> int \<Rightarrow> int \<Rightarrow> bool list \<Rightarrow> vdfs4_fsm_info \<Rightarrow> vdfs4_fsm_info" where
  "fsm_add_new env start len p s =
     (let s1 = s\<lparr>next_free_blocks := next_free_blocks s + len\<rparr>
      in case fsm_alloc_node env s1 of
           (None, s2) \<Rightarrow> s2\<lparr>untracked_next_free := untracked_next_free s + len\<rparr>
         | (Some b, s2) \<Rightarrow>
             s2\<lparr>nodes := (nodes s)(b := \<lparr>nd_start = start, nd_length = u32 len\<rparr>),
                next_free_area := rb_insert_color (env_rb env) b (rb_link_node b p (next_free_area s)),
                next_free_list := next_free_list s @ [b],
                next_free_nodes := u32 (next_free_nodes s + 1)\<rparr>)"

definition fsm_add_free_space :: "fsm_env \<Rightarrow> int \<Rightarrow> int \<Rightarrow> vdfs4_fsm_info \<Rightarrow> vdfs4_fsm_info" where
  "fsm_add_free_space env start len s =
     (case fsm_descend (nodes s) start len (next_free_area s) of
        Intersects a \<Rightarrow> s\<lparr>sb_rdonly := True\<rparr>
      | Front a \<Rightarrow> fsm_add_merged env len (fsm_front_merge (nodes s) (next_free_area s) a (u32 len)) s
      | Back a \<Rightarrow> fsm_add_merged env len (fsm_back_merge (nodes s) (next_free_area s) a (u32 len)) s
      | Slot p \<Rightarrow> fsm_add_new env start len p s)"

section \<open>The commit: waiting extents become free\<close>

definition fsm_commit_merged ::
    "fsm_env \<Rightarrow> nat \<Rightarrow> node_store \<times> nat option \<Rightarrow> vdfs4_fsm_info \<Rightarrow> vdfs4_fsm_info" where
  "fsm_commit_merged env cur m s =
     (let s1 = (fsm_unhash cur s)\<lparr>nodes := fst m\<rparr>;
          s2 = (case snd m of None \<Rightarrow> s1 | Some d \<Rightarrow> fsm_drop env d (fsm_unhash d s1))
      in fsm_hash cur s2)"

definition fsm_commit_new :: "fsm_env \<Rightarrow> nat \<Rightarrow> bool list \<Rightarrow> vdfs4_fsm_info \<Rightarrow> vdfs4_fsm_info" where
  "fsm_commit_new env a p s =
     (if free_area_nodes s < VDFS4_FSM_MAX_FREE_NODES then
        fsm_hash a (s\<lparr>free_area := rb_insert_color (env_rb env) a (rb_link_node a p (free_area s)),
                      free_area_nodes := u32 (free_area_nodes s + 1)\<rparr>)
      else s\<lparr>untracked_blocks := untracked_blocks s + nd_length (nodes s a)\<rparr>)"

definition fsm_commit_node :: "fsm_env \<Rightarrow> nat \<Rightarrow> vdfs4_fsm_info \<Rightarrow> vdfs4_fsm_info" where
  "fsm_commit_node env a s =
     (let node = nodes s a;
          s1 = s\<lparr>free_blocks_count := u64 (free_blocks_count s + nd_length node)\<rparr>
      in case fsm_descend (nodes s) (nd_start node) (nd_length node) (free_area s) of
           Intersects c \<Rightarrow>
             s1\<lparr>sb_rdonly := True, free_blocks_count := u64 (free_blocks_count s1 - nd_length node),
                untracked_blocks := untracked_blocks s + nd_length node\<rparr>
         | Front c \<Rightarrow> fsm_commit_merged env c (fsm_front_merge (nodes s) (free_area s) c (nd_length node)) s1
         | Back c \<Rightarrow> fsm_commit_merged env c (fsm_back_merge (nodes s) (free_area s) c (nd_length node)) s1
         | Slot p \<Rightarrow> fsm_commit_new env a p s1)"

definition fsm_commit_untracked :: "vdfs4_fsm_info \<Rightarrow> vdfs4_fsm_info" where
  "fsm_commit_untracked s =
     (if untracked_next_free s \<noteq> 0 then
        s\<lparr>free_blocks_count := u64 (free_blocks_count s + untracked_next_free s),
          untracked_blocks := untracked_blocks s + untracked_next_free s,
          untracked_next_free := 0\<rparr>
      else s)"

definition fsm_commit_free_space :: "fsm_env \<Rightarrow> vdfs4_fsm_info \<Rightarrow> vdfs4_fsm_info outcome" where
  "fsm_commit_free_space env s =
     bind_outcome (fsm_verify_state env s) (\<lambda>s.
       fsm_verify_state env
         (fsm_init_next_tree (fsm_commit_untracked (fold (fsm_commit_node env) (next_free_list s) s))))"

section \<open>Taking space from the tree\<close>

text \<open>\<^verbatim>\<open>fsm_choose_node\<close>: the lists from the order of the length upwards, then downwards.\<close>

definition fsm_choose_node :: "int \<Rightarrow> vdfs4_fsm_info \<Rightarrow> nat option" where
  "fsm_choose_node len s =
     (let up = find (\<lambda>i. free_list s ! i \<noteq> []) [fsm_order len ..< VDFS4_FSM_MAX_ORDER + 1];
          down = find (\<lambda>i. free_list s ! i \<noteq> []) (rev [0 ..< VDFS4_FSM_MAX_ORDER + 1])
      in case (case up of Some i \<Rightarrow> Some i | None \<Rightarrow> down) of
           None \<Rightarrow> None
         | Some i \<Rightarrow> Some (hd (free_list s ! i)))"

definition fsm_allocate_from_node ::
    "fsm_env \<Rightarrow> nat \<Rightarrow> int \<Rightarrow> int \<Rightarrow> vdfs4_fsm_info \<Rightarrow> vdfs4_fsm_info outcome" where
  "fsm_allocate_from_node env a start len s =
     (let node = nodes s a;
          max_length = fsm_max_length node start
      in if start < nd_start node \<or> nd_end node \<le> start \<or> max_length < len then Bug
         else
           let s1 = fsm_unhash a s;
               s2 =
                 (if len = max_length then
                    s1\<lparr>nodes := (nodes s1)(a := node\<lparr>nd_length := u32 (nd_length node - len)\<rparr>)\<rparr>
                  else if start = nd_start node then
                    s1\<lparr>nodes := (nodes s1)(a := \<lparr>nd_start = u64 (nd_start node + len),
                                                  nd_length = u32 (nd_length node - len)\<rparr>)\<rparr>
                  else
                    let s3 =
                      (case (if free_area_nodes s1 < VDFS4_FSM_MAX_FREE_NODES
                             then fsm_alloc_node env s1 else (None, s1)) of
                         (None, s2) \<Rightarrow> s2\<lparr>untracked_blocks := untracked_blocks s2 + (max_length - len)\<rparr>
                       | (Some b, s2) \<Rightarrow>
                           fsm_hash b
                             (s2\<lparr>nodes := (nodes s2)(b := \<lparr>nd_start = u64 (start + len),
                                                           nd_length = u32 (max_length - len)\<rparr>),
                                 free_area := rb_insert_after (env_rb env) b a (free_area s2),
                                 free_area_nodes := u32 (free_area_nodes s2 + 1)\<rparr>))
                    in s3\<lparr>nodes := (nodes s3)(a := node\<lparr>nd_length := u32 (nd_length node - max_length)\<rparr>)\<rparr>)
           in Done (if nd_length (nodes s2 a) \<noteq> 0 then fsm_hash a s2 else fsm_drop env a s2))"

fun longest_in :: "node_store \<Rightarrow> nat option \<Rightarrow> nat list \<Rightarrow> nat option" where
  "longest_in nd best [] = best"
| "longest_in nd None (a # as) = longest_in nd (Some a) as"
| "longest_in nd (Some r) (a # as) =
     longest_in nd (Some (if nd_length (nd a) > nd_length (nd r) then a else r)) as"

definition fsm_get_longest_node :: "vdfs4_fsm_info \<Rightarrow> nat option" where
  "fsm_get_longest_node s = longest_in (nodes s) None (addrs (free_area s))"

section \<open>The lists by order\<close>

definition hash_ok :: "node_store \<Rightarrow> nat list list \<Rightarrow> nat set \<Rightarrow> bool" where
  "hash_ok nd fl A \<longleftrightarrow>
     length fl = VDFS4_FSM_MAX_ORDER + 1 \<and> distinct (concat fl) \<and> set (concat fl) = A \<and>
     (\<forall>i < length fl. \<forall>a \<in> set (fl ! i). fsm_order (nd_length (nd a)) = i)"

lemma fsm_order_less: "fsm_order len < VDFS4_FSM_MAX_ORDER + 1"
  by (simp add: fsm_order_def)

lemma concat_upd:
  assumes "i < length fl"
  shows "mset (concat (fl[i := fl ! i @ [a]])) = add_mset a (mset (concat fl))"
  using assms
proof (induction fl arbitrary: i)
  case (Cons x xs)
  then show ?case by (cases i) auto
qed simp

lemma hash_ok_add:
  assumes "hash_ok nd fl A" "a \<notin> A"
  defines "i \<equiv> fsm_order (nd_length (nd a))"
  shows "hash_ok nd (fl[i := fl ! i @ [a]]) (insert a A)"
proof -
  have i: "i < length fl" using assms(1) fsm_order_less by (simp add: hash_ok_def i_def)
  note m = concat_upd [OF i, of a]
  have "set (concat (fl[i := fl ! i @ [a]])) = insert a A"
    using arg_cong [OF m, of set_mset] assms(1) by (simp add: hash_ok_def)
  moreover have "distinct (concat (fl[i := fl ! i @ [a]]))"
  proof -
    have "distinct (a # concat fl)" using assms(1,2) by (simp add: hash_ok_def)
    moreover have "mset (a # concat fl) = mset (concat (fl[i := fl ! i @ [a]]))" using m by simp
    ultimately show ?thesis by (metis mset_eq_imp_distinct_iff)
  qed
  ultimately show ?thesis
    using assms(1) i by (auto simp: hash_ok_def nth_list_update i_def split: if_splits)
qed

lemma concat_removeAll: "concat (map (removeAll a) fl) = removeAll a (concat fl)"
  by (induction fl) auto

lemma hash_ok_del: "hash_ok nd fl A \<Longrightarrow> hash_ok nd (map (removeAll a) fl) (A - {a})"
  by (auto simp: hash_ok_def concat_removeAll distinct_removeAll)

lemma hash_ok_cong:
  "(\<And>a. a \<in> A \<Longrightarrow> nd' a = nd a) \<Longrightarrow> hash_ok nd fl A \<Longrightarrow> hash_ok nd' fl A"
  by (force simp: hash_ok_def)

lemma hash_ok_upd [simp]: "a \<notin> A \<Longrightarrow> hash_ok (nd(a := v)) fl A = hash_ok nd fl A"
  by (metis fun_upd_other hash_ok_cong)

lemma area_total_set: "distinct as \<Longrightarrow> area_total nd as = (\<Sum>a \<in> set as. nd_length (nd a))"
  by (simp add: area_total_def sum_list_distinct_conv_sum_set)

section \<open>The invariant\<close>

abbreviation free_addrs :: "vdfs4_fsm_info \<Rightarrow> nat list" where
  "free_addrs s \<equiv> addrs (free_area s)"

abbreviation next_addrs :: "vdfs4_fsm_info \<Rightarrow> nat list" where
  "next_addrs s \<equiv> addrs (next_free_area s)"

definition free_blocks :: "vdfs4_fsm_info \<Rightarrow> int set" where
  "free_blocks s = area_blocks (nodes s) (free_addrs s)"

definition next_blocks :: "vdfs4_fsm_info \<Rightarrow> int set" where
  "next_blocks s = area_blocks (nodes s) (next_addrs s)"

text \<open>The free tree with its lists, the waiting tree with its list, and the counters.\<close>

definition free_part :: "vdfs4_fsm_info \<Rightarrow> bool" where
  "free_part s \<longleftrightarrow>
     area_ok (nodes s) (free_addrs s) \<and> hash_ok (nodes s) (free_list s) (set (free_addrs s)) \<and>
     free_area_nodes s = int (length (free_addrs s))"

definition next_part :: "vdfs4_fsm_info \<Rightarrow> bool" where
  "next_part s \<longleftrightarrow>
     area_ok (nodes s) (next_addrs s) \<and> distinct (next_free_list s) \<and>
     set (next_free_list s) = set (next_addrs s) \<and> next_free_nodes s = int (length (next_addrs s))"

definition count_part :: "vdfs4_fsm_info \<Rightarrow> bool" where
  "count_part s \<longleftrightarrow>
     area_total (nodes s) (free_addrs s) = free_blocks_count s + reserved_blocks_count s - untracked_blocks s \<and>
     area_total (nodes s) (next_addrs s) = next_free_blocks s - untracked_next_free s \<and>
     0 \<le> free_blocks_count s \<and> 0 \<le> reserved_blocks_count s \<and> 0 \<le> untracked_blocks s \<and>
     0 \<le> untracked_next_free s \<and>
     free_blocks_count s + reserved_blocks_count s + next_free_blocks s < 4294967296"

definition link_part :: "vdfs4_fsm_info \<Rightarrow> bool" where
  "link_part s \<longleftrightarrow>
     set (free_addrs s) \<inter> set (next_addrs s) = {} \<and> free_blocks s \<inter> next_blocks s = {} \<and>
     (\<forall>a \<in> set (free_addrs s) \<union> set (next_addrs s). a < slab_next s)"

definition fsm_inv :: "vdfs4_fsm_info \<Rightarrow> bool" where
  "fsm_inv s \<longleftrightarrow> free_part s \<and> next_part s \<and> link_part s \<and> count_part s"

lemmas fsm_inv_defs = fsm_inv_def free_part_def next_part_def link_part_def count_part_def

lemma area_length: "area_ok nd as \<Longrightarrow> int (length as) \<le> area_total nd as"
  by (induction as) (auto simp: node_ok_def)

lemma area_total_less: "area_ok nd as \<Longrightarrow> area_total nd as < 4294967296"
proof -
  assume ok: "area_ok nd as"
  have "card (area_blocks nd as) \<le> card {0 ..< (4294967295::int)}"
    using area_bounds [OF ok] by (intro card_mono) auto
  then show ?thesis using area_total_card [OF ok] by simp
qed

lemma area_length_less: "area_ok nd as \<Longrightarrow> int (length as) < 4294967296"
  using area_length area_total_less by (metis order_le_less_trans)

lemma area_count_del:
  assumes "area_ok nd as" "d \<in> set as"
  shows "u32 (int (length as) - 1) = int (length (remove1 d as))"
proof -
  have "length as = Suc (length (remove1 d as))"
    using assms(2) length_pos_if_in_set [OF assms(2)] by (simp add: length_remove1)
  then show ?thesis using area_length_less [OF assms(1)] by (simp add: c_arith)
qed

lemma area_count_add: "area_ok nd as \<Longrightarrow> length as = Suc n \<Longrightarrow> u32 (int n + 1) = int n + 1"
  using area_length_less [of nd as] by (intro u32_id) auto

text \<open>The invariant implies the check, so with it \<^verbatim>\<open>fsm_verify_state\<close> never stops the kernel.\<close>

lemma check_nodes_area:
  "area_ok nd as \<Longrightarrow> set as \<subseteq> L \<Longrightarrow>
   (case prev of None \<Rightarrow> True | Some p \<Rightarrow> node_ok (nd p) \<and> (\<forall>a \<in> set as. nd_before nd p a)) \<Longrightarrow>
   fsm_check_nodes nd L prev as"
proof (induction as arbitrary: prev)
  case (Cons a as)
  have oka: "node_ok (nd a)" using Cons.prems by simp
  have "\<not> fsm_intersects (nd p) (nd_start (nd a)) (nd_length (nd a))"
    if "node_ok (nd p)" "nd_before nd p a" for p
    using that oka by (auto simp: fsm_intersects_def c_arith nd_before_def node_ok_def)
  then have "fsm_check_node nd L a prev"
    using Cons.prems oka
    by (auto simp: fsm_check_node_def node_ok_def nd_before_def c_arith split: option.splits)
  with Cons oka show ?case by auto
qed simp

lemma fsm_inv_state_ok:
  assumes "fsm_inv s"
  shows "fsm_state_ok s"
proof -
  have f: "free_part s" and n: "next_part s" and c: "count_part s"
    using assms by (simp_all add: fsm_inv_def)
  have d: "distinct (free_addrs s)" using f area_distinct by (auto simp: free_part_def)
  have "area_total (nodes s) (concat (free_list s)) = area_total (nodes s) (free_addrs s)"
    using f d by (simp add: area_total_set free_part_def hash_ok_def)
  moreover have "length (concat (free_list s)) = length (free_addrs s)"
    using f d distinct_card by (metis free_part_def hash_ok_def)
  moreover have "fsm_check_nodes (nodes s) (set (next_free_list s)) None (next_addrs s)"
    "fsm_check_nodes (nodes s) (set (concat (free_list s))) None (free_addrs s)"
    using f n by (auto simp: free_part_def next_part_def hash_ok_def intro!: check_nodes_area)
  moreover have "\<forall>i < length (free_list s). \<forall>a \<in> set (free_list s ! i).
      a \<in> set (free_addrs s) \<and> fsm_order (nd_length (nodes s a)) = i"
    using f nth_mem by (fastforce simp: free_part_def hash_ok_def)
  ultimately show ?thesis
    using f n c by (simp add: fsm_state_ok_def free_part_def next_part_def count_part_def)
qed

lemma fsm_verify_ok: "fsm_inv s \<Longrightarrow> fsm_verify_state env s = Done s"
  by (simp add: fsm_verify_state_def fsm_inv_state_ok)

section \<open>Adding free space keeps the invariant\<close>

lemma area_cong:
  assumes "\<And>a. a \<in> set as \<Longrightarrow> nd' a = nd a"
  shows "area_ok nd' as = area_ok nd as" "area_blocks nd' as = area_blocks nd as"
    and "area_total nd' as = area_total nd as"
proof -
  show "area_ok nd' as = area_ok nd as" using assms by (induction as) (auto simp: nd_before_def)
  show "area_blocks nd' as = area_blocks nd as" using assms by (simp add: area_blocks_def)
  show "area_total nd' as = area_total nd as" using assms by (induction as) auto
qed

text \<open>Space that is neither free nor waiting may be added; the counters have room for it.\<close>

definition addable :: "int \<Rightarrow> int \<Rightarrow> vdfs4_fsm_info \<Rightarrow> bool" where
  "addable start len s \<longleftrightarrow>
     extent_ok start len \<and> extent_blocks start len \<inter> (free_blocks s \<union> next_blocks s) = {} \<and>
     free_blocks_count s + reserved_blocks_count s + next_free_blocks s + len < 4294967296"

text \<open>What adding \<open>len\<close> blocks from \<open>start\<close> does; only a failed allocation leaves them out of the tree.\<close>

definition added :: "fsm_env \<Rightarrow> int \<Rightarrow> int \<Rightarrow> vdfs4_fsm_info \<Rightarrow> vdfs4_fsm_info \<Rightarrow> bool" where
  "added env start len s s' \<longleftrightarrow>
     free_blocks s' = free_blocks s \<and> free_blocks_count s' = free_blocks_count s \<and>
     reserved_blocks_count s' = reserved_blocks_count s \<and> untracked_blocks s' = untracked_blocks s \<and>
     next_free_blocks s' = next_free_blocks s + len \<and> sb_rdonly s' = sb_rdonly s \<and>
     fsm_data s' = fsm_data s \<and> fsm_block_size s' = fsm_block_size s \<and>
     volume_blocks_count s' = volume_blocks_count s \<and> page_count s' = page_count s \<and>
     erase_blocks_counters s' = erase_blocks_counters s \<and>
     log_erase_block_size_in_blocks s' = log_erase_block_size_in_blocks s \<and>
     erase_block_size_in_blocks s' = erase_block_size_in_blocks s \<and>
     (next_blocks s' = next_blocks s \<union> extent_blocks start len \<and>
        untracked_next_free s' = untracked_next_free s \<or>
      \<not> env_mem env (slab_next s) \<and> next_blocks s' = next_blocks s \<and>
        untracked_next_free s' = untracked_next_free s + len)"

lemma fsm_add_merged_ok:
  assumes "fsm_inv s" "rb_ops_ok (env_rb env)" "addable start len s"
    and "merged (nodes s) (next_addrs s) a start len nd' dr" "a \<in> set (next_addrs s)"
  shows "fsm_inv (fsm_add_merged env len (nd', dr) s) \<and>
         added env start len s (fsm_add_merged env len (nd', dr) s)"
proof -
  let ?s = "fsm_add_merged env len (nd', dr) s"
  have inv: "free_part s" "next_part s" "link_part s" "count_part s" using assms(1) by (simp_all add: fsm_inv_def)
  have dist: "distinct (next_addrs s)" using inv(2) area_distinct by (auto simp: next_part_def)
  have free: "nd' b = nodes s b" if "b \<in> set (free_addrs s)" for b
    using that assms(4,5) inv(3) by (auto simp: merged_def link_part_def)
  have nx: "next_addrs ?s = (case dr of None \<Rightarrow> next_addrs s | Some d \<Rightarrow> remove1 d (next_addrs s))"
    using rb_ops_okD(2) [OF assms(2) dist] assms(4)
    by (auto simp: fsm_add_merged_def merged_def split: option.splits)
  have m: "area_ok nd' (next_addrs ?s)" "area_blocks nd' (next_addrs ?s) = next_blocks s \<union> extent_blocks start len"
    "area_total nd' (next_addrs ?s) = area_total (nodes s) (next_addrs s) + len"
    using assms(4) unfolding nx by (auto simp: merged_def Let_def next_blocks_def)
  have sel [simp]: "nodes ?s = nd'" "free_area ?s = free_area s" "free_list ?s = free_list s"
    "free_area_nodes ?s = free_area_nodes s" "free_blocks_count ?s = free_blocks_count s"
    "reserved_blocks_count ?s = reserved_blocks_count s" "untracked_blocks ?s = untracked_blocks s"
    "untracked_next_free ?s = untracked_next_free s" "next_free_blocks ?s = next_free_blocks s + len"
    "slab_next ?s = slab_next s" "sb_rdonly ?s = sb_rdonly s" "fsm_data ?s = fsm_data s"
    "fsm_block_size ?s = fsm_block_size s" "volume_blocks_count ?s = volume_blocks_count s"
    "page_count ?s = page_count s" "erase_blocks_counters ?s = erase_blocks_counters s"
    "log_erase_block_size_in_blocks ?s = log_erase_block_size_in_blocks s"
    "erase_block_size_in_blocks ?s = erase_block_size_in_blocks s"
    by (simp_all add: fsm_add_merged_def Let_def split: option.splits)
  have fb: "free_blocks ?s = free_blocks s" "next_blocks ?s = next_blocks s \<union> extent_blocks start len"
    using m(2) area_cong(2) [of "free_addrs s" nd' "nodes s"] free by (simp_all add: free_blocks_def next_blocks_def)
  have "free_part ?s"
    using inv(1) free area_cong(1) [of "free_addrs s" nd' "nodes s"] hash_ok_cong [of _ nd' "nodes s"]
    by (simp add: free_part_def)
  moreover have "next_part ?s"
  proof (cases dr)
    case None
    with inv(2) m(1) show ?thesis by (simp add: next_part_def fsm_add_merged_def)
  next
    case (Some d)
    then have d: "d \<in> set (next_addrs s)" using assms(4) by (simp add: merged_def)
    have "next_free_nodes ?s = int (length (next_addrs ?s))"
      using inv(2) Some d nx area_count_del [OF _ d, of "nodes s"] by (simp add: fsm_add_merged_def next_part_def)
    moreover have "next_free_list ?s = removeAll d (next_free_list s)"
      using Some by (simp add: fsm_add_merged_def)
    ultimately show ?thesis
      using inv(2) m(1) nx Some dist sel(1) by (simp add: next_part_def distinct_removeAll set_remove1_eq)
  qed
  moreover have "link_part ?s"
  proof -
    have "set (next_addrs ?s) \<subseteq> set (next_addrs s)"
      unfolding nx by (cases dr) (simp_all add: set_remove1_subset)
    with inv(3) fb assms(3) show ?thesis by (auto simp: link_part_def addable_def)
  qed
  moreover have "count_part ?s"
    using inv(4) m(3) assms(3) area_cong(3) [of "free_addrs s" nd' "nodes s"] free
    by (simp add: count_part_def addable_def)
  ultimately show ?thesis using fb by (simp add: fsm_inv_def added_def)
qed

lemma fsm_add_new_ok:
  assumes "fsm_inv s" "rb_ops_ok (env_rb env)" "addable start len s"
    and "slot_ok (nodes s) start len (next_free_area s) (Slot p)"
  shows "fsm_inv (fsm_add_new env start len p s) \<and> added env start len s (fsm_add_new env start len p s)"
proof -
  have inv: "free_part s" "next_part s" "link_part s" "count_part s" using assms(1) by (simp_all add: fsm_inv_def)
  have ext: "extent_ok start len" "0 < len" "u32 len = len" using assms(3) by (auto simp: addable_def extent_ok_def c_arith)
  let ?b = "slab_next s"
  have b: "?b \<notin> set (free_addrs s)" "?b \<notin> set (next_addrs s)" using inv(3) by (auto simp: link_part_def)
  have na: "area_ok (nodes s) (next_addrs s)" using inv(2) by (simp add: next_part_def)
  note ins = area_insert_slot [OF na ext(1) b(2) assms(4) assms(2)]
  show ?thesis
  proof (cases "env_mem env ?b")
    case False
    then show ?thesis
      using assms(1,3) ext(2)
      by (auto simp: fsm_add_new_def fsm_alloc_node_def fsm_inv_defs added_def addable_def
          free_blocks_def next_blocks_def intro: less_SucI)
  next
    case True
    have cnt: "u32 (int (length (next_addrs s)) + 1) = int (length (next_addrs s)) + 1"
      by (rule area_count_add [OF ins(1,3)])
    let ?s = "fsm_add_new env start len p s"
    have blk: "free_blocks ?s = free_blocks s" "next_blocks ?s = next_blocks s \<union> extent_blocks start len"
      using True ins(4) b ext by (simp_all add: free_blocks_def next_blocks_def fsm_add_new_def fsm_alloc_node_def)
    have "free_part ?s"
      using True inv(1) b ext by (simp add: free_part_def fsm_add_new_def fsm_alloc_node_def)
    moreover have "next_part ?s"
      using True inv(2) b ext ins(1-3) cnt
      by (simp add: next_part_def fsm_add_new_def fsm_alloc_node_def)
    moreover have "link_part ?s"
    proof -
      have "free_blocks ?s \<inter> next_blocks ?s = {}"
        unfolding blk using inv(3) assms(3) by (auto simp: link_part_def addable_def)
      moreover have "slab_next ?s = Suc ?b" "free_area ?s = free_area s"
        "set (next_addrs ?s) = insert ?b (set (next_addrs s))"
        using True ins(2) by (simp_all add: fsm_add_new_def fsm_alloc_node_def)
      ultimately show ?thesis using inv(3) b by (auto simp: link_part_def intro: less_SucI)
    qed
    moreover have "count_part ?s"
      using True inv(4) ins(5) b ext assms(3)
      by (simp add: count_part_def fsm_add_new_def fsm_alloc_node_def addable_def)
    ultimately show ?thesis
      using blk True by (simp add: fsm_inv_def added_def fsm_add_new_def fsm_alloc_node_def)
  qed
qed

lemma fsm_add_free_space_ok:
  assumes "fsm_inv s" "rb_ops_ok (env_rb env)" "addable start len s"
  shows "fsm_inv (fsm_add_free_space env start len s) \<and> added env start len s (fsm_add_free_space env start len s)"
proof -
  have na: "area_ok (nodes s) (next_addrs s)" using assms(1) by (simp add: fsm_inv_defs)
  have ext: "extent_ok start len" "u32 len = len" using assms(3) by (auto simp: addable_def c_arith)
  have sep: "extent_blocks start len \<inter> area_blocks (nodes s) (next_addrs s) = {}"
    using assms(3) by (auto simp: addable_def next_blocks_def)
  note slot = fsm_descend_ok [OF na ext(1) sep]
  show ?thesis
  proof (cases "fsm_descend (nodes s) start len (next_free_area s)")
    case (Intersects a)
    with slot show ?thesis by (simp add: slot_ok_def)
  next
    case (Front a)
    with slot have a: "a \<in> set (next_addrs s)" "start + len = nd_start (nodes s a)" by (simp_all add: slot_ok_def)
    obtain nd' dr where m: "fsm_front_merge (nodes s) (next_free_area s) a len = (nd', dr)" by fastforce
    from fsm_add_merged_ok [OF assms fsm_front_merge_ok [OF na ext(1) sep a m] a(1)] Front m ext
    show ?thesis by (simp add: fsm_add_free_space_def)
  next
    case (Back a)
    with slot have a: "a \<in> set (next_addrs s)" "nd_start (nodes s a) + nd_length (nodes s a) = start"
      by (simp_all add: slot_ok_def)
    obtain nd' dr where m: "fsm_back_merge (nodes s) (next_free_area s) a len = (nd', dr)" by fastforce
    from fsm_add_merged_ok [OF assms fsm_back_merge_ok [OF na ext(1) sep a m] a(1)] Back m ext
    show ?thesis by (simp add: fsm_add_free_space_def)
  next
    case (Slot p)
    with slot fsm_add_new_ok [OF assms, of p] show ?thesis by (simp add: fsm_add_free_space_def)
  qed
qed

section \<open>The commit keeps the invariant\<close>

text \<open>Everything but the free tree, its lists and its counters is the same.\<close>

definition free_frame :: "vdfs4_fsm_info \<Rightarrow> vdfs4_fsm_info \<Rightarrow> bool" where
  "free_frame s s' \<longleftrightarrow>
     next_free_area s' = next_free_area s \<and> next_free_list s' = next_free_list s \<and>
     next_free_nodes s' = next_free_nodes s \<and> next_free_blocks s' = next_free_blocks s \<and>
     untracked_next_free s' = untracked_next_free s \<and> slab_next s' = slab_next s \<and>
     reserved_blocks_count s' = reserved_blocks_count s \<and> fsm_data s' = fsm_data s \<and>
     fsm_block_size s' = fsm_block_size s \<and>
     sb_rdonly s' = sb_rdonly s \<and> volume_blocks_count s' = volume_blocks_count s \<and>
     erase_blocks_counters s' = erase_blocks_counters s \<and> dirty_pages s' = dirty_pages s \<and>
     log_erase_block_size_in_blocks s' = log_erase_block_size_in_blocks s \<and>
     erase_block_size_in_blocks s' = erase_block_size_in_blocks s \<and> page_count s' = page_count s"

text \<open>What committing the waiting node \<open>a\<close> does to the free tree; above the limit of nodes the
  extent is only counted.\<close>

definition committed :: "nat \<Rightarrow> vdfs4_fsm_info \<Rightarrow> vdfs4_fsm_info \<Rightarrow> bool" where
  "committed a s s' \<longleftrightarrow>
     free_part s' \<and> set (free_addrs s') \<subseteq> insert a (set (free_addrs s)) \<and>
     length (free_addrs s') \<le> Suc (length (free_addrs s)) \<and>
     (\<forall>b. b \<notin> set (free_addrs s) \<longrightarrow> nodes s' b = nodes s b) \<and>
     free_frame s s' \<and>
     free_blocks_count s' = free_blocks_count s + nd_length (nodes s a) \<and>
     area_total (nodes s') (free_addrs s') - area_total (nodes s) (free_addrs s)
       = nd_length (nodes s a) - (untracked_blocks s' - untracked_blocks s) \<and>
     (free_blocks s' = free_blocks s \<union> nd_blocks (nodes s a) \<and> untracked_blocks s' = untracked_blocks s \<or>
      VDFS4_FSM_MAX_FREE_NODES \<le> free_area_nodes s \<and> free_blocks s' = free_blocks s \<and>
      untracked_blocks s' = untracked_blocks s + nd_length (nodes s a))"

lemma fsm_commit_merged_ok:
  assumes "free_part s" "rb_ops_ok (env_rb env)" "cur \<in> set (free_addrs s)"
    and "merged (nodes s) (free_addrs s) cur start len nd' dr"
  defines "s' \<equiv> fsm_commit_merged env cur (nd', dr) s"
  shows "free_part s'" "set (free_addrs s') \<subseteq> set (free_addrs s)" "nodes s' = nd'"
    and "length (free_addrs s') \<le> length (free_addrs s)"
    and "free_blocks s' = free_blocks s \<union> extent_blocks start len"
    and "area_total nd' (free_addrs s') = area_total (nodes s) (free_addrs s) + len"
    and "free_frame s s'" "free_blocks_count s' = free_blocks_count s" "untracked_blocks s' = untracked_blocks s"
proof -
  let ?A = "set (free_addrs s)"
  have area: "area_ok (nodes s) (free_addrs s)" and dist: "distinct (free_addrs s)"
    using assms(1) area_distinct by (auto simp: free_part_def)
  have fa: "free_addrs s' = (case dr of None \<Rightarrow> free_addrs s | Some d \<Rightarrow> remove1 d (free_addrs s))"
    using rb_ops_okD(2) [OF assms(2) dist] assms(4)
    by (auto simp: s'_def fsm_commit_merged_def fsm_hash_def fsm_drop_def fsm_unhash_def merged_def Let_def
        split: option.splits)
  show nd: "nodes s' = nd'"
    by (simp add: s'_def fsm_commit_merged_def fsm_hash_def fsm_drop_def fsm_unhash_def Let_def split: option.splits)
  show "free_frame s s'" "free_blocks_count s' = free_blocks_count s" "untracked_blocks s' = untracked_blocks s"
    by (cases dr; simp add: free_frame_def s'_def fsm_commit_merged_def fsm_hash_def fsm_drop_def
        fsm_unhash_def Let_def)+
  show sub: "set (free_addrs s') \<subseteq> ?A" "length (free_addrs s') \<le> length (free_addrs s)"
    unfolding fa by (cases dr; simp add: set_remove1_subset length_remove1)+
  show "free_blocks s' = free_blocks s \<union> extent_blocks start len"
    "area_total nd' (free_addrs s') = area_total (nodes s) (free_addrs s) + len"
    using assms(4) by (auto simp: free_blocks_def nd fa merged_def Let_def)
  have h: "hash_ok nd' (map (removeAll cur) (free_list s)) (?A - {cur})"
    using assms(1,4) by (intro hash_ok_cong [OF _ hash_ok_del, of _ cur nd' "nodes s"])
      (auto simp: merged_def free_part_def)
  have "hash_ok nd' (free_list s') (set (free_addrs s'))"
  proof (cases dr)
    case None
    with hash_ok_add [OF h, of cur] assms(3) fa show ?thesis
      by (simp add: s'_def fsm_commit_merged_def fsm_hash_def fsm_unhash_def Let_def insert_absorb)
  next
    case (Some d)
    then have d: "d \<in> ?A" "d \<noteq> cur" using assms(4) by (auto simp: merged_def)
    have "set (free_addrs s') = insert cur (?A - {cur} - {d})"
      using fa Some dist d assms(3) by (auto simp: set_remove1_eq)
    with hash_ok_add [OF hash_ok_del [OF h, of d], of cur] Some show ?thesis
      by (simp add: s'_def fsm_commit_merged_def fsm_hash_def fsm_unhash_def fsm_drop_def Let_def)
  qed
  moreover have "free_area_nodes s' = int (length (free_addrs s'))"
    using assms(1,4) fa area_count_del [OF area] 
    by (auto simp: s'_def fsm_commit_merged_def fsm_hash_def fsm_unhash_def fsm_drop_def Let_def merged_def
        free_part_def split: option.splits)
  moreover have "area_ok nd' (free_addrs s')" using assms(4) by (simp add: merged_def Let_def fa)
  ultimately show "free_part s'" by (simp add: free_part_def nd)
qed

lemma committed_mergedI:
  assumes "free_part s" "rb_ops_ok (env_rb env)" "cur \<in> set (free_addrs s)"
    and "merged (nodes s) (free_addrs s) cur (nd_start (nodes s a)) (nd_length (nodes s a)) nd' dr"
    and "u64 (free_blocks_count s + nd_length (nodes s a)) = free_blocks_count s + nd_length (nodes s a)"
  shows "committed a s (fsm_commit_merged env cur (nd', dr)
           (s\<lparr>free_blocks_count := u64 (free_blocks_count s + nd_length (nodes s a))\<rparr>))"
proof -
  let ?s1 = "s\<lparr>free_blocks_count := free_blocks_count s + nd_length (nodes s a)\<rparr>"
  let ?s' = "fsm_commit_merged env cur (nd', dr) ?s1"
  have "free_part ?s1" using assms(1) by (simp add: free_part_def)
  note m = fsm_commit_merged_ok [OF this assms(2), of cur "nd_start (nodes s a)" "nd_length (nodes s a)" nd' dr]
  have eqs: "free_blocks ?s1 = free_blocks s" by (simp add: free_blocks_def)
  have "free_frame s ?s'"
    using m(7) assms(3,4) by (simp add: free_frame_def)
  moreover have "\<forall>b. b \<notin> set (free_addrs s) \<longrightarrow> nd' b = nodes s b"
    using assms(3,4) by (auto simp: merged_def)
  moreover have "free_blocks_count ?s' = free_blocks_count s + nd_length (nodes s a)"
    "untracked_blocks ?s' = untracked_blocks s" using m(8,9) assms(3,4) by simp_all
  ultimately show ?thesis
    using m assms(3-5) eqs unfolding committed_def by auto
qed

lemma fsm_commit_new_ok:
  assumes "free_part s" "rb_ops_ok (env_rb env)" "a \<notin> set (free_addrs s)" "node_ok (nodes s a)"
    and "slot_ok (nodes s) (nd_start (nodes s a)) (nd_length (nodes s a)) (free_area s) (Slot p)"
    and "u64 (free_blocks_count s + nd_length (nodes s a)) = free_blocks_count s + nd_length (nodes s a)"
  shows "committed a s (fsm_commit_new env a p
           (s\<lparr>free_blocks_count := u64 (free_blocks_count s + nd_length (nodes s a))\<rparr>))"
proof -
  let ?s1 = "s\<lparr>free_blocks_count := free_blocks_count s + nd_length (nodes s a)\<rparr>"
  let ?s' = "fsm_commit_new env a p ?s1"
  have area: "area_ok (nodes s) (free_addrs s)" using assms(1) by (simp add: free_part_def)
  have ext: "extent_ok (nd_start (nodes s a)) (nd_length (nodes s a))"
    using assms(4) by (simp add: extent_ok_def node_ok_def)
  have same: "(nodes s)(a := \<lparr>nd_start = nd_start (nodes s a), nd_length = nd_length (nodes s a)\<rparr>) = nodes s"
    by (rule fun_upd_idem) (cases "nodes s a"; simp)
  note ins = area_insert_slot [OF area ext assms(3,5,2), unfolded same]
  show ?thesis
  proof (cases "free_area_nodes s < VDFS4_FSM_MAX_FREE_NODES")
    case False
    then have "?s' = ?s1\<lparr>untracked_blocks := untracked_blocks s + nd_length (nodes s a)\<rparr>"
      by (simp add: fsm_commit_new_def)
    with False assms(1,6) show ?thesis
      unfolding committed_def by (auto simp: free_part_def free_blocks_def free_frame_def)
  next
    case True
    let ?fa = "rb_insert_color (env_rb env) a (rb_link_node a p (free_area s))"
    let ?i = "fsm_order (nd_length (nodes s a))"
    have s': "?s' = ?s1\<lparr>free_area := ?fa, free_area_nodes := u32 (free_area_nodes s + 1),
        free_list := (free_list s)[?i := free_list s ! ?i @ [a]]\<rparr>"
      using True by (simp add: fsm_commit_new_def fsm_hash_def Let_def)
    have "free_part ?s'"
      unfolding s' using assms(1,3) ins(1-3) hash_ok_add [of "nodes s" "free_list s" _ a]
        area_count_add [OF ins(1,3)]
      by (simp add: free_part_def)
    moreover have "free_blocks ?s' = free_blocks s \<union> nd_blocks (nodes s a)"
      unfolding s' free_blocks_def using ins(4) by simp
    moreover have "area_total (nodes s) (free_addrs ?s') = area_total (nodes s) (free_addrs s) + nd_length (nodes s a)"
      unfolding s' using ins(5) by simp
    moreover have "free_frame s ?s'" unfolding s' by (simp add: free_frame_def)
    ultimately show ?thesis
      unfolding committed_def assms(6) using ins(2,3) by (simp add: s')
  qed
qed

lemma fsm_commit_node_ok:
  assumes "free_part s" "rb_ops_ok (env_rb env)" "a \<notin> set (free_addrs s)" "node_ok (nodes s a)"
    and sep: "nd_blocks (nodes s a) \<inter> free_blocks s = {}"
    and "0 \<le> free_blocks_count s" "free_blocks_count s + nd_length (nodes s a) < 4294967296"
  shows "committed a s (fsm_commit_node env a s)"
proof -
  have area: "area_ok (nodes s) (free_addrs s)" using assms(1) by (simp add: free_part_def)
  have ext: "extent_ok (nd_start (nodes s a)) (nd_length (nodes s a))"
    using assms(4) by (simp add: extent_ok_def node_ok_def)
  have u: "u64 (free_blocks_count s + nd_length (nodes s a)) = free_blocks_count s + nd_length (nodes s a)"
    using assms(4,6,7) by (simp add: c_arith node_ok_def)
  note sep = sep [unfolded free_blocks_def]
  note slot = fsm_descend_ok [OF area ext sep]
  show ?thesis
  proof (cases "fsm_descend (nodes s) (nd_start (nodes s a)) (nd_length (nodes s a)) (free_area s)")
    case (Intersects c)
    with slot show ?thesis by (simp add: slot_ok_def)
  next
    case (Front c)
    with slot have c: "c \<in> set (free_addrs s)" "nd_start (nodes s a) + nd_length (nodes s a) = nd_start (nodes s c)"
      by (simp_all add: slot_ok_def)
    obtain nd' dr where m: "fsm_front_merge (nodes s) (free_area s) c (nd_length (nodes s a)) = (nd', dr)"
      by fastforce
    from committed_mergedI [OF assms(1,2) c(1) fsm_front_merge_ok [OF area ext sep c m] u] Front m
    show ?thesis by (simp add: fsm_commit_node_def Let_def)
  next
    case (Back c)
    with slot have c: "c \<in> set (free_addrs s)" "nd_start (nodes s c) + nd_length (nodes s c) = nd_start (nodes s a)"
      by (simp_all add: slot_ok_def)
    obtain nd' dr where m: "fsm_back_merge (nodes s) (free_area s) c (nd_length (nodes s a)) = (nd', dr)"
      by fastforce
    from committed_mergedI [OF assms(1,2) c(1) fsm_back_merge_ok [OF area ext sep c m] u] Back m
    show ?thesis by (simp add: fsm_commit_node_def Let_def)
  next
    case (Slot p)
    with slot fsm_commit_new_ok [OF assms(1-4) _ u, of p] show ?thesis
      by (simp add: fsm_commit_node_def Let_def)
  qed
qed

lemma area_disjoint_mem:
  "area_ok nd as \<Longrightarrow> a \<in> set as \<Longrightarrow> b \<in> set as \<Longrightarrow> a \<noteq> b \<Longrightarrow> nd_blocks (nd a) \<inter> nd_blocks (nd b) = {}"
proof (induction as)
  case (Cons x as)
  have "nd_blocks (nd x) \<inter> nd_blocks (nd y) = {}" if "y \<in> set as" for y
    using Cons.prems(1) that by (auto simp: nd_before_def)
  with Cons show ?case by (auto simp del: atLeastLessThan_iff)
qed simp

text \<open>The state of the loop, with the nodes \<open>rest\<close> of the list still to come.\<close>

definition commit_inv :: "vdfs4_fsm_info \<Rightarrow> nat list \<Rightarrow> vdfs4_fsm_info \<Rightarrow> bool" where
  "commit_inv s0 rest s \<longleftrightarrow>
     free_part s \<and> free_frame s0 s \<and> distinct rest \<and> set rest \<subseteq> set (next_addrs s0) \<and>
     set (free_addrs s) \<subseteq> set (free_addrs s0) \<union> (set (next_addrs s0) - set rest) \<and>
     length (free_addrs s) + length rest \<le> length (free_addrs s0) + length (next_addrs s0) \<and>
     (\<forall>b \<in> set rest. nodes s b = nodes s0 b) \<and>
     free_blocks s0 \<subseteq> free_blocks s \<and>
     free_blocks s \<subseteq> free_blocks s0 \<union> (next_blocks s0 - area_blocks (nodes s0) rest) \<and>
     free_blocks_count s + area_total (nodes s0) rest = free_blocks_count s0 + area_total (nodes s0) (next_addrs s0) \<and>
     area_total (nodes s) (free_addrs s) = free_blocks_count s + reserved_blocks_count s - untracked_blocks s \<and>
     0 \<le> untracked_blocks s \<and>
     (int (length (free_addrs s0) + length (next_addrs s0)) \<le> VDFS4_FSM_MAX_FREE_NODES \<longrightarrow>
        untracked_blocks s = untracked_blocks s0 \<and>
        free_blocks s = free_blocks s0 \<union> (next_blocks s0 - area_blocks (nodes s0) rest))"

lemma commit_inv_step:
  assumes inv0: "fsm_inv s0" and ops: "rb_ops_ok (env_rb env)" and c: "commit_inv s0 (a # rest) s"
  shows "commit_inv s0 rest (fsm_commit_node env a s)"
proof -
  let ?s = "fsm_commit_node env a s" and ?n = "nodes s0 a"
  have nxt: "area_ok (nodes s0) (next_addrs s0)" and link: "link_part s0" and cnt: "count_part s0"
    using inv0 by (auto simp: fsm_inv_def next_part_def)
  have a: "a \<in> set (next_addrs s0)" "a \<notin> set rest" "distinct rest" "set rest \<subseteq> set (next_addrs s0)"
    using c by (auto simp: commit_inv_def)
  have afree: "a \<notin> set (free_addrs s)" using c a link by (auto simp: commit_inv_def link_part_def)
  have n: "nodes s a = ?n" using c a afree by (auto simp: commit_inv_def)
  have ok: "node_ok ?n" using area_node_ok [OF nxt a(1)] .
  have sub: "nd_blocks ?n \<subseteq> next_blocks s0" using area_blocks_mem [OF a(1)] by (simp add: next_blocks_def)
  have disj: "nd_blocks ?n \<inter> area_blocks (nodes s0) rest = {}"
    unfolding area_blocks_def using area_disjoint_mem [OF nxt a(1)] a by blast
  have sep: "nd_blocks ?n \<inter> free_blocks s = {}"
    using c sub link by (auto simp: commit_inv_def link_part_def)
  have tot: "area_total (nodes s0) rest \<ge> 0" "area_total (nodes s0) (next_addrs s0) \<le> next_free_blocks s0"
    using cnt area_node_ok [OF nxt] a(4)
    by (auto simp: count_part_def area_total_def node_ok_def less_imp_le subset_iff intro!: sum_list_nonneg)
  have fbc: "0 \<le> free_blocks_count s" "free_blocks_count s + nd_length ?n < 4294967296"
  proof -
    show "free_blocks_count s + nd_length ?n < 4294967296"
      using c tot cnt by (auto simp: commit_inv_def count_part_def)
    have "area_total (nodes s0) (a # rest) \<le> area_total (nodes s0) (next_addrs s0)"
    proof -
      have "(\<Sum>x \<in> set (a # rest). nd_length (nodes s0 x)) \<le> (\<Sum>x \<in> set (next_addrs s0). nd_length (nodes s0 x))"
        using a area_node_ok [OF nxt] by (intro sum_mono2) (auto simp: node_ok_def less_imp_le)
      then show ?thesis using a area_distinct [OF nxt] by (simp add: area_total_set)
    qed
    then show "0 \<le> free_blocks_count s" using c cnt by (auto simp: commit_inv_def count_part_def)
  qed
  have com: "committed a s ?s"
    using fsm_commit_node_ok [of s env a] c ops afree ok sep fbc n by (simp add: commit_inv_def)
  have rest: "next_blocks s0 - area_blocks (nodes s0) rest
      = (next_blocks s0 - area_blocks (nodes s0) (a # rest)) \<union> nd_blocks ?n"
    using sub disj by auto
  have "free_part ?s" "free_frame s0 ?s" "distinct rest" "set rest \<subseteq> set (next_addrs s0)"
    using com c a by (simp_all add: committed_def commit_inv_def free_frame_def)
  moreover have "set (free_addrs ?s) \<subseteq> set (free_addrs s0) \<union> (set (next_addrs s0) - set rest)"
    using com c a by (auto simp: committed_def commit_inv_def)
  moreover have "length (free_addrs ?s) + length rest \<le> length (free_addrs s0) + length (next_addrs s0)"
    using com c by (auto simp: committed_def commit_inv_def)
  moreover have "\<forall>b \<in> set rest. nodes ?s b = nodes s0 b"
  proof
    fix b assume b: "b \<in> set rest"
    have "b \<notin> set (free_addrs s)" using b c a(4) link by (auto simp: commit_inv_def link_part_def)
    then have "nodes ?s b = nodes s b" using com by (simp add: committed_def)
    with b c show "nodes ?s b = nodes s0 b" by (simp add: commit_inv_def)
  qed
  moreover have "free_blocks s0 \<subseteq> free_blocks ?s"
    "free_blocks ?s \<subseteq> free_blocks s0 \<union> (next_blocks s0 - area_blocks (nodes s0) rest)"
    unfolding rest using com c n by (auto simp: committed_def commit_inv_def)
  moreover have "free_blocks_count ?s + area_total (nodes s0) rest
      = free_blocks_count s0 + area_total (nodes s0) (next_addrs s0)"
    "area_total (nodes ?s) (free_addrs ?s) = free_blocks_count ?s + reserved_blocks_count ?s - untracked_blocks ?s"
    "0 \<le> untracked_blocks ?s"
    using com c n ok by (auto simp: committed_def commit_inv_def free_frame_def node_ok_def)
  moreover have "untracked_blocks ?s = untracked_blocks s0 \<and>
      free_blocks ?s = free_blocks s0 \<union> (next_blocks s0 - area_blocks (nodes s0) rest)"
    if "int (length (free_addrs s0) + length (next_addrs s0)) \<le> VDFS4_FSM_MAX_FREE_NODES"
  proof -
    have "free_area_nodes s < VDFS4_FSM_MAX_FREE_NODES"
      using that c by (simp add: commit_inv_def free_part_def)
    then show ?thesis unfolding rest using that com c n by (auto simp: committed_def commit_inv_def)
  qed
  ultimately show ?thesis unfolding commit_inv_def by blast
qed

lemma commit_fold:
  assumes "fsm_inv s0" "rb_ops_ok (env_rb env)" "commit_inv s0 rest s"
  shows "commit_inv s0 [] (fold (fsm_commit_node env) rest s)"
  using assms(3)
proof (induction rest arbitrary: s)
  case (Cons a rest)
  then show ?case using commit_inv_step [OF assms(1,2) Cons.prems] by simp
qed simp

lemma commit_inv_start:
  assumes "fsm_inv s"
  shows "commit_inv s (next_free_list s) s"
proof -
  have d: "distinct (next_addrs s)" using assms area_distinct by (auto simp: fsm_inv_defs)
  have "length (next_free_list s) = length (next_addrs s)"
    using assms d distinct_card by (metis fsm_inv_def next_part_def)
  moreover have "area_blocks (nodes s) (next_free_list s) = next_blocks s"
    using assms by (simp add: fsm_inv_defs area_blocks_def next_blocks_def)
  moreover have "area_total (nodes s) (next_free_list s) = area_total (nodes s) (next_addrs s)"
    using assms d by (simp add: area_total_set fsm_inv_defs)
  ultimately show ?thesis
    using assms by (auto simp: commit_inv_def fsm_inv_defs free_frame_def)
qed

definition commit_frame :: "vdfs4_fsm_info \<Rightarrow> vdfs4_fsm_info \<Rightarrow> bool" where
  "commit_frame s s' \<longleftrightarrow>
     fsm_data s' = fsm_data s \<and> fsm_block_size s' = fsm_block_size s \<and> sb_rdonly s' = sb_rdonly s \<and>
     volume_blocks_count s' = volume_blocks_count s \<and> page_count s' = page_count s \<and>
     erase_blocks_counters s' = erase_blocks_counters s \<and> dirty_pages s' = dirty_pages s \<and>
     log_erase_block_size_in_blocks s' = log_erase_block_size_in_blocks s \<and>
     erase_block_size_in_blocks s' = erase_block_size_in_blocks s"

lemma fsm_commit_free_space_ok:
  assumes inv: "fsm_inv s" and ops: "rb_ops_ok (env_rb env)"
  shows "\<exists>s'. fsm_commit_free_space env s = Done s' \<and> fsm_inv s' \<and>
    free_blocks_count s' = free_blocks_count s + next_free_blocks s \<and>
    reserved_blocks_count s' = reserved_blocks_count s \<and>
    next_free_blocks s' = 0 \<and> untracked_next_free s' = 0 \<and> next_blocks s' = {} \<and>
    commit_frame s s' \<and>
    free_blocks s \<subseteq> free_blocks s' \<and> free_blocks s' \<subseteq> free_blocks s \<union> next_blocks s \<and>
    (int (length (free_addrs s) + length (next_addrs s)) \<le> VDFS4_FSM_MAX_FREE_NODES \<longrightarrow>
       free_blocks s' = free_blocks s \<union> next_blocks s)"
proof -
  let ?f = "fold (fsm_commit_node env) (next_free_list s) s"
  let ?s' = "fsm_init_next_tree (fsm_commit_untracked ?f)"
  have c: "commit_inv s [] ?f" by (rule commit_fold [OF inv ops commit_inv_start [OF inv]])
  have cnt: "count_part s" and link: "link_part s" using inv by (simp_all add: fsm_inv_def)
  have fb: "free_blocks_count ?f = free_blocks_count s + next_free_blocks s - untracked_next_free s"
    using c cnt by (simp add: commit_inv_def count_part_def)
  have tot: "area_total (nodes s) (next_addrs s) \<ge> 0" using inv by (intro area_total_nonneg) (simp add: fsm_inv_defs)
  have fields: "nodes ?s' = nodes ?f" "free_area ?s' = free_area ?f" "free_list ?s' = free_list ?f"
    "free_area_nodes ?s' = free_area_nodes ?f" "next_free_area ?s' = Leaf" "next_free_list ?s' = []"
    "next_free_nodes ?s' = 0" "next_free_blocks ?s' = 0" "untracked_next_free ?s' = 0"
    "untracked_blocks ?s' = untracked_blocks ?f + untracked_next_free s"
    "reserved_blocks_count ?s' = reserved_blocks_count s" "slab_next ?s' = slab_next s"
    "commit_frame s ?s'"
    using c by (auto simp: fsm_init_next_tree_def fsm_commit_untracked_def commit_inv_def free_frame_def commit_frame_def)
  have fbc: "free_blocks_count ?s' = free_blocks_count s + next_free_blocks s"
    using c fb cnt tot
    by (auto simp: fsm_init_next_tree_def fsm_commit_untracked_def commit_inv_def free_frame_def count_part_def c_arith)
  have "free_part ?s'" using c by (simp add: commit_inv_def free_part_def fields)
  moreover have "next_part ?s'" by (simp add: next_part_def fields)
  moreover have "link_part ?s'"
    using c link by (auto simp: link_part_def commit_inv_def next_blocks_def fields)
  moreover have "count_part ?s'"
    using c cnt fb tot by (simp add: count_part_def commit_inv_def fields fbc free_frame_def)
  ultimately have inv': "fsm_inv ?s'" by (simp add: fsm_inv_def)
  have "free_blocks ?s' = free_blocks ?f" "next_blocks ?s' = {}"
    by (simp_all add: free_blocks_def next_blocks_def fields)
  with inv' fbc fields c show ?thesis
    by (intro exI [of _ ?s']) (auto simp: fsm_commit_free_space_def fsm_verify_ok inv commit_inv_def)
qed

section \<open>Allocation from a node\<close>

text \<open>
  Taking \<open>len\<close> blocks from \<open>start\<close> out of the free tree. What is cut off and finds no node
  becomes untracked; otherwise exactly the extent leaves the tree. The caller adjusts the counters.
\<close>

definition tree_inv :: "vdfs4_fsm_info \<Rightarrow> bool" where
  "tree_inv s \<longleftrightarrow> free_part s \<and> next_part s \<and> link_part s"

definition alloc_frame :: "vdfs4_fsm_info \<Rightarrow> vdfs4_fsm_info \<Rightarrow> bool" where
  "alloc_frame s s' \<longleftrightarrow>
     next_free_area s' = next_free_area s \<and> next_free_list s' = next_free_list s \<and>
     next_free_nodes s' = next_free_nodes s \<and> next_free_blocks s' = next_free_blocks s \<and>
     untracked_next_free s' = untracked_next_free s \<and> free_blocks_count s' = free_blocks_count s \<and>
     reserved_blocks_count s' = reserved_blocks_count s \<and> fsm_data s' = fsm_data s \<and>
     fsm_block_size s' = fsm_block_size s \<and> sb_rdonly s' = sb_rdonly s \<and>
     volume_blocks_count s' = volume_blocks_count s \<and>
     erase_blocks_counters s' = erase_blocks_counters s \<and>
     log_erase_block_size_in_blocks s' = log_erase_block_size_in_blocks s \<and>
     erase_block_size_in_blocks s' = erase_block_size_in_blocks s \<and> dirty_pages s' = dirty_pages s \<and>
     page_count s' = page_count s \<and> log_super_page_size s' = log_super_page_size s \<and>
     log_block_size s' = log_block_size s \<and> block_size_shift s' = block_size_shift s \<and>
     mount_finished s' = mount_finished s"

definition taken :: "int \<Rightarrow> int \<Rightarrow> vdfs4_fsm_info \<Rightarrow> vdfs4_fsm_info \<Rightarrow> bool" where
  "taken start len s s' \<longleftrightarrow>
     tree_inv s' \<and> alloc_frame s s' \<and> next_blocks s' = next_blocks s \<and>
     free_blocks s' \<subseteq> free_blocks s - extent_blocks start len \<and>
     untracked_blocks s \<le> untracked_blocks s' \<and>
     area_total (nodes s') (free_addrs s') + len + (untracked_blocks s' - untracked_blocks s)
       = area_total (nodes s) (free_addrs s) \<and>
     (untracked_blocks s' = untracked_blocks s \<longrightarrow> free_blocks s' = free_blocks s - extent_blocks start len)"

lemma area_remove:
  assumes "area_ok nd (xs @ a # ys)"
  shows "area_ok nd (xs @ ys)" "area_blocks nd (xs @ ys) = area_blocks nd (xs @ a # ys) - nd_blocks (nd a)"
    and "a \<notin> set xs" "a \<notin> set ys" "node_ok (nd a)"
    and "\<forall>x \<in> set xs. nd_start (nd x) + nd_length (nd x) < nd_start (nd a)"
    and "\<forall>y \<in> set ys. nd_start (nd a) + nd_length (nd a) < nd_start (nd y)"
proof -
  show "area_ok nd (xs @ ys)" "node_ok (nd a)" using assms by auto
  show "\<forall>x \<in> set xs. nd_start (nd x) + nd_length (nd x) < nd_start (nd a)"
    "\<forall>y \<in> set ys. nd_start (nd a) + nd_length (nd a) < nd_start (nd y)"
    using assms by (auto simp: nd_before_def)
  show a: "a \<notin> set xs" "a \<notin> set ys" using area_distinct [OF assms] by auto
  have "nd_blocks (nd a) \<inter> nd_blocks (nd x) = {}" if "x \<in> set xs \<union> set ys" for x
    using that a by (intro area_disjoint_mem [OF assms]) auto
  then show "area_blocks nd (xs @ ys) = area_blocks nd (xs @ a # ys) - nd_blocks (nd a)"
    unfolding area_blocks_def set_append list.set by blast
qed

lemma taken_shrink:
  assumes inv: "tree_inv s" and as: "free_addrs s = xs @ a # ys"
    and v: "node_ok v" "nd_blocks v = nd_blocks (nodes s a) - extent_blocks start k"
      "nd_start (nodes s a) \<le> nd_start v" "nd_start v + nd_length v \<le> nd_start (nodes s a) + nd_length (nodes s a)"
      "nd_length v + k = nd_length (nodes s a)"
    and k: "0 < len" "len \<le> k" "extent_blocks start k \<subseteq> nd_blocks (nodes s a)" and sn: "slab_next s \<le> sn"
  shows "taken start len s (fsm_hash a ((fsm_unhash a s)\<lparr>slab_next := sn,
      untracked_blocks := untracked_blocks s + (k - len), nodes := (nodes s)(a := v)\<rparr>))"
proof -
  let ?s = "fsm_hash a ((fsm_unhash a s)\<lparr>slab_next := sn,
      untracked_blocks := untracked_blocks s + (k - len), nodes := (nodes s)(a := v)\<rparr>)"
  have inv': "free_part s" "next_part s" "link_part s" using inv by (simp_all add: tree_inv_def)
  have area: "area_ok (nodes s) (xs @ a # ys)" using inv'(1) as by (simp add: free_part_def)
  note rem = area_remove [OF area]
  have rep: "area_ok ((nodes s)(a := v)) (free_addrs s)"
    "area_blocks ((nodes s)(a := v)) (free_addrs s) = area_blocks (nodes s) (xs @ ys) \<union> nd_blocks v"
    "area_total ((nodes s)(a := v)) (free_addrs s) = area_total (nodes s) (xs @ ys) + nd_length v"
    unfolding as using rem v by (intro area_replace; force)+
  have afree: "a \<in> set (free_addrs s)" "a \<notin> set (next_addrs s)" using as inv'(3) by (auto simp: link_part_def)
  have h: "hash_ok ((nodes s)(a := v)) (map (removeAll a) (free_list s)) (set (free_addrs s) - {a})"
    using hash_ok_del [of "nodes s" "free_list s" "set (free_addrs s)" a] inv'(1) by (simp add: free_part_def)
  have fields: "nodes ?s = (nodes s)(a := v)" "free_area ?s = free_area s" "next_free_area ?s = next_free_area s"
    "slab_next ?s = sn" "alloc_frame s ?s" "untracked_blocks ?s = untracked_blocks s + (k - len)"
    "free_area_nodes ?s = free_area_nodes s" "next_free_list ?s = next_free_list s" "next_free_nodes ?s = next_free_nodes s"
    by (simp_all add: fsm_hash_def fsm_unhash_def Let_def alloc_frame_def)
  have fp: "free_part ?s"
    using hash_ok_add [OF h, of a] rep(1) inv'(1) afree
    by (simp add: free_part_def fields insert_absorb) (simp add: fsm_hash_def fsm_unhash_def Let_def)
  have fb: "free_blocks ?s = free_blocks s - extent_blocks start k"
  proof -
    have "nd_blocks (nodes s a) \<subseteq> area_blocks (nodes s) (xs @ a # ys)" by (intro area_blocks_mem) simp
    with k(3) have "area_blocks (nodes s) (xs @ ys) \<union> nd_blocks v = area_blocks (nodes s) (xs @ a # ys) - extent_blocks start k"
      unfolding rem(2) v(2) by blast
    then show ?thesis using rep(2) as by (simp only: free_blocks_def fields)
  qed
  have nb: "next_blocks ?s = next_blocks s" using afree by (simp add: next_blocks_def fields)
  have "next_part ?s" using inv'(2) afree by (simp add: next_part_def fields)
  moreover have "link_part ?s"
    using inv'(3) sn unfolding link_part_def fb nb fields by (auto intro: less_le_trans)
  ultimately have "tree_inv ?s" using fp by (simp add: tree_inv_def)
  moreover have "area_total (nodes ?s) (free_addrs ?s) + len + (untracked_blocks ?s - untracked_blocks s)
      = area_total (nodes s) (free_addrs s)"
    unfolding fields as using v(5) rem(3,4) by simp
  moreover have "extent_blocks start len \<subseteq> extent_blocks start k" using k by auto
  ultimately show ?thesis
    unfolding taken_def fb nb using fields(5,6) k by auto
qed

lemma taken_drop:
  assumes inv: "tree_inv s" and as: "free_addrs s = xs @ a # ys" and ops: "rb_ops_ok (env_rb env)"
  shows "taken (nd_start (nodes s a)) (nd_length (nodes s a)) s
           (fsm_drop env a ((fsm_unhash a s)\<lparr>nodes := (nodes s)(a := v)\<rparr>))"
proof -
  let ?s = "fsm_drop env a ((fsm_unhash a s)\<lparr>nodes := (nodes s)(a := v)\<rparr>)"
  have inv': "free_part s" "next_part s" "link_part s" using inv by (simp_all add: tree_inv_def)
  have area: "area_ok (nodes s) (xs @ a # ys)" using inv'(1) as by (simp add: free_part_def)
  note rem = area_remove [OF area]
  have dist: "distinct (free_addrs s)" using area_distinct [OF area] as by simp
  have fa: "free_addrs ?s = xs @ ys"
    using rb_ops_okD(2) [OF ops dist, of a] as rem(3) by (simp add: fsm_drop_def fsm_unhash_def remove1_append)
  have fields: "nodes ?s = (nodes s)(a := v)" "next_free_area ?s = next_free_area s" "slab_next ?s = slab_next s"
    "alloc_frame s ?s" "untracked_blocks ?s = untracked_blocks s" "next_free_list ?s = next_free_list s"
    "free_list ?s = map (removeAll a) (free_list s)" "next_free_nodes ?s = next_free_nodes s"
    "free_area_nodes ?s = u32 (free_area_nodes s - 1)"
    by (simp_all add: fsm_drop_def fsm_unhash_def alloc_frame_def)
  have afree: "a \<notin> set (next_addrs s)" "set (free_addrs s) - {a} = set (xs @ ys)"
    using as inv'(3) rem(3,4) by (auto simp: link_part_def)
  have "hash_ok ((nodes s)(a := v)) (map (removeAll a) (free_list s)) (set (xs @ ys))"
    using hash_ok_del [of "nodes s" "free_list s" "set (free_addrs s)" a] inv'(1) rem(3,4)
    by (simp add: free_part_def afree(2))
  moreover have "u32 (free_area_nodes s - 1) = int (length (xs @ ys))"
    using area_count_del [OF area, of a] inv'(1) as rem(3) by (simp add: free_part_def remove1_append)
  moreover have "area_ok ((nodes s)(a := v)) (xs @ ys)" using rem(1,3,4) by (subst area_upd_other(1)) auto
  ultimately have "free_part ?s" unfolding free_part_def fa fields by blast
  moreover have "next_part ?s" using inv'(2) afree by (simp add: next_part_def fields)
  moreover have fb: "free_blocks ?s = free_blocks s - nd_blocks (nodes s a)"
    unfolding free_blocks_def fa fields using rem(2-4) as by simp
  moreover have nb: "next_blocks ?s = next_blocks s" using afree by (simp add: next_blocks_def fields)
  moreover have "link_part ?s"
    using inv'(3) as unfolding link_part_def fb nb fields fa by auto
  moreover have "area_total (nodes ?s) (free_addrs ?s) + nd_length (nodes s a) = area_total (nodes s) (free_addrs s)"
    unfolding fields fa as using rem(3,4) by simp
  ultimately show ?thesis unfolding taken_def tree_inv_def fields(5) using fields(4) by simp
qed

lemma taken_split:
  fixes s a b xs ys v w
  defines "nd \<equiv> (nodes s)(b := w, a := v)"
  assumes inv: "tree_inv s" and as: "free_addrs s = xs @ a # ys" and ops: "rb_ops_ok (env_rb env)"
    and b: "slab_next s = b"
    and v: "node_ok v" "nd_start v = nd_start (nodes s a)" "nd_start v + nd_length v = start"
    and w: "node_ok w" "nd_start w = start + len" "nd_start w + nd_length w = nd_start (nodes s a) + nd_length (nodes s a)"
    and len: "0 < len"
    and s': "nodes s' = nd" "free_area s' = rb_insert_after (env_rb env) b a (free_area s)"
      "free_area_nodes s' = u32 (free_area_nodes s + 1)" "slab_next s' = Suc b" "alloc_frame s s'"
      "untracked_blocks s' = untracked_blocks s"
      "hash_ok nd (free_list s') (insert a (insert b (set (free_addrs s) - {a})))"
  shows "taken start len s s'"
proof -
  have inv': "free_part s" "next_part s" "link_part s" using inv by (simp_all add: tree_inv_def)
  have area: "area_ok (nodes s) (xs @ a # ys)" using inv'(1) as by (simp add: free_part_def)
  note rem = area_remove [OF area]
  have fresh: "b \<notin> set (free_addrs s)" "b \<notin> set (next_addrs s)" "a \<notin> set (next_addrs s)" "a < b"
    using inv'(3) as b by (auto simp: link_part_def)
  have fa: "free_addrs s' = xs @ a # b # ys"
    unfolding s'(2) using addrs_insert_after [OF ops _ as fresh(1)] area_distinct [OF area] as by simp
  have bl: "b \<noteq> a" "b \<notin> set xs" "b \<notin> set ys" using fresh as by auto
  have nd: "nd a = v" "nd b = w" "\<And>c. c \<in> set (xs @ ys) \<Longrightarrow> nd c = nodes s c"
    using bl rem(3,4) by (auto simp: nd_def)
  have old: "area_ok nd (xs @ ys)" "area_blocks nd (xs @ ys) = area_blocks (nodes s) (xs @ ys)"
    "area_total nd (xs @ ys) = area_total (nodes s) (xs @ ys)"
    using area_cong [of "xs @ ys" nd "nodes s"] nd(3) rem(1) by blast+
  have gaps: "\<forall>x \<in> set xs. nd_start (nd x) + nd_length (nd x) < nd_start v"
    "\<forall>y \<in> set ys. nd_start w + nd_length w < nd_start (nd y)" "nd_start v + nd_length v < nd_start w"
    using rem(6,7) v w nd(3) len by auto
  have ok: "area_ok nd (free_addrs s')"
    unfolding fa using old(1) gaps v(1) w(1) nd(1,2) by (auto simp: nd_before_def node_ok_def)
  have cover: "nd_blocks v \<union> nd_blocks w = nd_blocks (nodes s a) - extent_blocks start len"
    using v w len by (auto simp: node_ok_def)
  have fb: "free_blocks s' = free_blocks s - extent_blocks start len"
  proof -
    have "nd_blocks (nodes s a) \<subseteq> area_blocks (nodes s) (xs @ a # ys)" by (intro area_blocks_mem) simp
    moreover have "extent_blocks start len \<subseteq> nd_blocks (nodes s a)" using v w by (auto simp: node_ok_def)
    moreover have "free_blocks s' = area_blocks nd (xs @ ys) \<union> (nd_blocks v \<union> nd_blocks w)"
      unfolding free_blocks_def fa s'(1) using nd(1,2) by auto
    ultimately show ?thesis unfolding cover old(2) rem(2) free_blocks_def as by blast
  qed
  have fp: "free_part s'"
  proof -
    have "set (free_addrs s') = insert a (insert b (set (free_addrs s) - {a}))" unfolding fa as by auto
    moreover have "free_area_nodes s' = int (length (free_addrs s'))"
      using area_count_add [OF ok] inv'(1) unfolding s'(3) fa free_part_def as by simp
    ultimately show ?thesis using ok s'(1,7) by (simp add: free_part_def)
  qed
  have nb: "next_blocks s' = next_blocks s" and np: "next_part s'"
    using inv'(2) fresh s'(1,5) by (simp_all add: next_blocks_def next_part_def alloc_frame_def nd_def)
  have "link_part s'"
  proof -
    have "set (free_addrs s') \<inter> set (next_addrs s') = {}"
      using inv'(3) fresh s'(5) fa as by (auto simp: link_part_def alloc_frame_def)
    moreover have "\<forall>c \<in> set (free_addrs s') \<union> set (next_addrs s'). c < slab_next s'"
      using inv'(3) fresh s'(4,5) fa as b by (auto simp: link_part_def alloc_frame_def intro: less_SucI)
    moreover have "free_blocks s' \<inter> next_blocks s' = {}" using inv'(3) unfolding fb nb link_part_def by blast
    ultimately show ?thesis by (simp add: link_part_def)
  qed
  moreover have "area_total (nodes s') (free_addrs s') + len = area_total (nodes s) (free_addrs s)"
    using old(3) nd v w unfolding s'(1) fa as by simp
  ultimately show ?thesis using fp np fb nb s'(5,6) by (simp add: taken_def tree_inv_def)
qed

lemma fsm_max_length_ok:
  assumes "node_ok n" "nd_start n \<le> start" "start < nd_start n + nd_length n"
  shows "fsm_max_length n start = nd_start n + nd_length n - start"
proof -
  have "u32 (nd_length n + u32 (nd_start n - start)) = u32 (nd_start n + nd_length n - start)"
    by (simp add: u32_def mod_simps algebra_simps)
  then show ?thesis using assms by (simp add: fsm_max_length_def c_arith node_ok_def)
qed

text \<open>The two outcomes of cutting an extent out of the middle of a node.\<close>

lemma alloc_mid_trim:
  assumes inv: "tree_inv s" and as: "free_addrs s = xs @ a # ys" and ok: "node_ok (nodes s a)"
    and st: "nd_start (nodes s a) < start" "0 < len" "start + len < nd_start (nodes s a) + nd_length (nodes s a)"
    and notail: "free_area_nodes s < VDFS4_FSM_MAX_FREE_NODES \<Longrightarrow> \<not> env_mem env (slab_next s)"
  shows "\<exists>s'. fsm_allocate_from_node env a start len s = Done s' \<and> taken start len s s'"
proof -
  let ?n = "nodes s a"
  let ?m = "nd_start ?n + nd_length ?n - start"
  let ?v = "?n\<lparr>nd_length := start - nd_start ?n\<rparr>"
  define sn where "sn = (if free_area_nodes s < VDFS4_FSM_MAX_FREE_NODES then Suc (slab_next s) else slab_next s)"
  have max: "fsm_max_length ?n start = ?m" using fsm_max_length_ok [OF ok] st by simp
  have u: "u32 (nd_length ?n - ?m) = start - nd_start ?n" using ok st by (simp add: c_arith node_ok_def)
  have "taken start len s (fsm_hash a ((fsm_unhash a s)\<lparr>slab_next := sn,
      untracked_blocks := untracked_blocks s + (?m - len), nodes := (nodes s)(a := ?v)\<rparr>))"
    using st ok by (intro taken_shrink [OF inv as]) (auto simp: node_ok_def sn_def)
  then show ?thesis
    using st max u notail ok
    by (auto simp: fsm_allocate_from_node_def Let_def fsm_unhash_def fsm_alloc_node_def sn_def c_arith)
qed

lemma alloc_mid_split:
  assumes inv: "tree_inv s" and as: "free_addrs s = xs @ a # ys" and ok: "node_ok (nodes s a)"
    and ops: "rb_ops_ok (env_rb env)"
    and st: "nd_start (nodes s a) < start" "0 < len" "start + len < nd_start (nodes s a) + nd_length (nodes s a)"
    and tail: "free_area_nodes s < VDFS4_FSM_MAX_FREE_NODES" "env_mem env (slab_next s)"
  shows "\<exists>s'. fsm_allocate_from_node env a start len s = Done s' \<and> taken start len s s'"
proof -
  let ?n = "nodes s a" and ?b = "slab_next s"
  let ?m = "nd_start ?n + nd_length ?n - start"
  let ?v = "?n\<lparr>nd_length := start - nd_start ?n\<rparr>"
  let ?w = "\<lparr>nd_start = start + len, nd_length = ?m - len\<rparr>"
  let ?s1 = "(fsm_unhash a s)\<lparr>slab_next := Suc ?b, nodes := (nodes s)(?b := ?w),
    free_area := rb_insert_after (env_rb env) ?b a (free_area s), free_area_nodes := u32 (free_area_nodes s + 1)\<rparr>"
  let ?s3 = "fsm_hash ?b ?s1"
  let ?s' = "fsm_hash a (?s3\<lparr>nodes := (nodes ?s3)(a := ?v)\<rparr>)"
  have max: "fsm_max_length ?n start = ?m" using fsm_max_length_ok [OF ok] st by simp
  have u: "u32 (nd_length ?n - ?m) = start - nd_start ?n" "u64 (start + len) = start + len" "u32 (?m - len) = ?m - len"
    using ok st by (auto simp: c_arith node_ok_def)
  have run: "fsm_allocate_from_node env a start len s = Done ?s'"
    using st max u tail ok
    by (simp add: fsm_allocate_from_node_def Let_def fsm_unhash_def fsm_alloc_node_def fsm_hash_def c_arith)
  have fresh: "?b \<notin> set (free_addrs s)" "a \<noteq> ?b"
    using inv as by (auto simp: tree_inv_def link_part_def)
  let ?A = "set (free_addrs s) - {a}"
  have "hash_ok ((nodes s)(?b := ?w)) (map (removeAll a) (free_list s)) ?A"
    using inv fresh hash_ok_del by (auto simp: tree_inv_def free_part_def)
  from hash_ok_add [OF this, of ?b] fresh
  have "hash_ok ((nodes s)(?b := ?w, a := ?v)) (free_list ?s3) (insert ?b ?A)"
    by (simp add: fsm_hash_def fsm_unhash_def Let_def)
  from hash_ok_add [OF this, of a] fresh
  have h: "hash_ok ((nodes s)(?b := ?w, a := ?v)) (free_list ?s') (insert a (insert ?b ?A))"
    by (simp add: fsm_hash_def fsm_unhash_def Let_def)
  have "taken start len s ?s'"
    by (rule taken_split [OF inv as ops refl, where v = ?v and w = ?w])
      (use st ok h in \<open>simp_all add: fsm_hash_def fsm_unhash_def Let_def alloc_frame_def node_ok_def\<close>)
  with run show ?thesis by blast
qed

lemma fsm_allocate_from_node_ok:
  assumes inv: "tree_inv s" and ops: "rb_ops_ok (env_rb env)" and a: "a \<in> set (free_addrs s)"
    and len: "0 < len" "extent_blocks start len \<subseteq> nd_blocks (nodes s a)"
  shows "\<exists>s'. fsm_allocate_from_node env a start len s = Done s' \<and> taken start len s s'"
proof -
  let ?n = "nodes s a"
  obtain xs ys where as: "free_addrs s = xs @ a # ys" using a split_list by metis
  have ok: "node_ok ?n" using inv as by (simp add: tree_inv_def free_part_def)
  have st: "nd_start ?n \<le> start" "start + len \<le> nd_start ?n + nd_length ?n" using len by auto
  let ?m = "nd_start ?n + nd_length ?n - start"
  have max: "fsm_max_length ?n start = ?m" using fsm_max_length_ok [OF ok] st len by simp
  have guard: "\<not> (start < nd_start ?n \<or> nd_end ?n \<le> start \<or> fsm_max_length ?n start < len)"
    unfolding max using st len ok by (simp add: c_arith)
  consider (all) "start = nd_start ?n" "len = nd_length ?n" | (tail) "nd_start ?n < start" "len = ?m"
    | (head) "start = nd_start ?n" "len < nd_length ?n" | (mid) "nd_start ?n < start" "len < ?m"
    using st by linarith
  then show ?thesis
  proof cases
    case all
    then show ?thesis
      using guard taken_drop [OF inv as ops, of "?n\<lparr>nd_length := 0\<rparr>"] max
      by (simp add: fsm_allocate_from_node_def Let_def fsm_unhash_def)
  next
    case tail
    let ?v = "?n\<lparr>nd_length := start - nd_start ?n\<rparr>"
    have u: "u32 (nd_length ?n - len) = start - nd_start ?n"
      using tail ok len by (simp add: c_arith node_ok_def)
    have "taken start len s (fsm_hash a ((fsm_unhash a s)\<lparr>slab_next := slab_next s,
      untracked_blocks := untracked_blocks s + (len - len), nodes := (nodes s)(a := ?v)\<rparr>))"
      using tail ok len by (intro taken_shrink [OF inv as]) (auto simp: node_ok_def)
    then show ?thesis
      using guard tail max u by (simp add: fsm_allocate_from_node_def Let_def fsm_unhash_def)
  next
    case head
    let ?v = "\<lparr>nd_start = start + len, nd_length = nd_length ?n - len\<rparr>"
    have u: "u32 (nd_length ?n - len) = nd_length ?n - len" "u64 (nd_start ?n + len) = start + len"
      using head ok len by (auto simp: c_arith node_ok_def)
    have "taken start len s (fsm_hash a ((fsm_unhash a s)\<lparr>slab_next := slab_next s,
      untracked_blocks := untracked_blocks s + (len - len), nodes := (nodes s)(a := ?v)\<rparr>))"
      using head ok len by (intro taken_shrink [OF inv as]) (auto simp: node_ok_def)
    then show ?thesis
      using guard head max u by (simp add: fsm_allocate_from_node_def Let_def fsm_unhash_def)
  next
    case mid
    then show ?thesis
      using alloc_mid_trim [OF inv as ok] alloc_mid_split [OF inv as ok ops] len(1) by fastforce
  qed
qed

end
