(* ===== verification/Vdfs_Fsm_Alloc.thy ===== *)
theory Vdfs_Fsm_Alloc
  imports Vdfs_Fsm
begin

text \<open>
  The free space manager against its bitmap (\<^verbatim>\<open>linux/fs/vdfs4/fsm.c\<close>): building the tree from
  the bitmap and rebuilding it, the counters of erase blocks, and the two entry points, allocation
  and freeing of a chunk of blocks.
\<close>

section \<open>The counters of erase blocks\<close>

definition VDFS4_DELAYED_DISCARD_MAGIC :: int where
  "VDFS4_DELAYED_DISCARD_MAGIC = 3740130477"

definition erase_block_num :: "vdfs4_fsm_info \<Rightarrow> int \<Rightarrow> nat" where
  "erase_block_num s b = nat (u64 b div 2 ^ log_erase_block_size_in_blocks s)"

definition fsm_inc_erase_block :: "int \<Rightarrow> vdfs4_fsm_info \<Rightarrow> vdfs4_fsm_info outcome" where
  "fsm_inc_erase_block b s =
     (let i = erase_block_num s b; c = erase_blocks_counters s
      in if length c \<le> i then Undef
         else if c ! i = VDFS4_DELAYED_DISCARD_MAGIC then Done (s\<lparr>erase_blocks_counters := c[i := 1]\<rparr>)
         else if u32 (c ! i + 1) > erase_block_size_in_blocks s then Bug
         else Done (s\<lparr>erase_blocks_counters := c[i := u32 (c ! i + 1)]\<rparr>))"

definition fsm_dec_erase_block :: "int \<Rightarrow> vdfs4_fsm_info \<Rightarrow> vdfs4_fsm_info outcome" where
  "fsm_dec_erase_block b s =
     (let i = erase_block_num s b; c = erase_blocks_counters s
      in if length c \<le> i then Undef
         else if u32 (c ! i - 1) = 0
           then Done (s\<lparr>erase_blocks_counters := c[i := VDFS4_DELAYED_DISCARD_MAGIC]\<rparr>)
         else if u32 (c ! i - 1) > erase_block_size_in_blocks s then Bug
         else Done (s\<lparr>erase_blocks_counters := c[i := u32 (c ! i - 1)]\<rparr>))"

definition fsm_inc_erase_blocks_counters :: "int \<Rightarrow> int \<Rightarrow> vdfs4_fsm_info \<Rightarrow> vdfs4_fsm_info outcome" where
  "fsm_inc_erase_blocks_counters block_offset len =
     for_each fsm_inc_erase_block (map (\<lambda>i. block_offset + int i) [0 ..< nat len])"

definition fsm_dec_erase_blocks_counters :: "int \<Rightarrow> int \<Rightarrow> vdfs4_fsm_info \<Rightarrow> vdfs4_fsm_info outcome" where
  "fsm_dec_erase_blocks_counters block_offset len =
     for_each fsm_dec_erase_block (map (\<lambda>i. block_offset + int i) [0 ..< nat len])"

text \<open>
  \<^verbatim>\<open>fsm_delayed_discard\<close>: \<open>discard i\<close> is the answer of \<^verbatim>\<open>blkdev_issue_discard\<close> for
  erase block \<open>i\<close>. The result also lists the erase blocks for which the command was sent.
\<close>

fun fsm_delayed_discard_from ::
    "(nat \<Rightarrow> status) \<Rightarrow> nat \<Rightarrow> int list \<Rightarrow> (nat list \<times> int list) outcome" where
  "fsm_delayed_discard_from discard i [] = Done ([], [])"
| "fsm_delayed_discard_from discard i (c # cs) =
     (if c \<noteq> VDFS4_DELAYED_DISCARD_MAGIC then
        bind_outcome (fsm_delayed_discard_from discard (Suc i) cs) (\<lambda>(sent, cs'). Done (sent, c # cs'))
      else if discard i \<noteq> success \<and> discard i \<noteq> Some EOPNOTSUPP then Bug
      else bind_outcome (fsm_delayed_discard_from discard (Suc i) cs) (\<lambda>(sent, cs'). Done (i # sent, 0 # cs')))"

definition fsm_delayed_discard ::
    "(nat \<Rightarrow> status) \<Rightarrow> vdfs4_fsm_info \<Rightarrow> (nat list \<times> vdfs4_fsm_info) outcome" where
  "fsm_delayed_discard discard s =
     bind_outcome (fsm_delayed_discard_from discard 0 (erase_blocks_counters s))
       (\<lambda>(sent, c). Done (sent, s\<lparr>erase_blocks_counters := c\<rparr>))"

definition vdfs4_commit_free_space ::
    "fsm_env \<Rightarrow> (nat \<Rightarrow> status) \<Rightarrow> vdfs4_fsm_info \<Rightarrow> (nat list \<times> vdfs4_fsm_info) outcome" where
  "vdfs4_commit_free_space env discard s =
     bind_outcome (fsm_commit_free_space env s) (fsm_delayed_discard discard)"

section \<open>Building the tree from the bitmap\<close>

definition FSM_BMP_MAGIC_LEN :: nat where
  "FSM_BMP_MAGIC_LEN = 12"

text \<open>\<^verbatim>\<open>find_next_bit\<close> and \<^verbatim>\<open>find_next_zero_bit\<close> on a predicate for the bits.\<close>

function find_next :: "(nat \<Rightarrow> bool) \<Rightarrow> nat \<Rightarrow> nat \<Rightarrow> nat" where
  "find_next P sz off = (if off < sz then if P off then off else find_next P sz (Suc off) else sz)"
  by pat_completeness auto
termination by (relation "measure (\<lambda>(P, sz, off). sz - off)") auto

declare find_next.simps [simp del]

definition fsm_append_free_space ::
    "fsm_env \<Rightarrow> nat option \<Rightarrow> int \<Rightarrow> int \<Rightarrow> vdfs4_fsm_info \<Rightarrow> nat option \<times> vdfs4_fsm_info" where
  "fsm_append_free_space env lst start len s0 =
     (let s = s0\<lparr>free_blocks_count := u64 (free_blocks_count s0 + len)\<rparr>;
          new = (\<lambda>s. case (if free_area_nodes s < VDFS4_FSM_MAX_FREE_NODES
                            then fsm_alloc_node env s else (None, s)) of
                   (None, s1) \<Rightarrow> (lst, s1\<lparr>untracked_blocks := untracked_blocks s1 + len\<rparr>)
                 | (Some b, s1) \<Rightarrow>
                     let s2 = s1\<lparr>nodes := (nodes s1)(b := \<lparr>nd_start = start, nd_length = u32 len\<rparr>)\<rparr>;
                         s3 = (case lst of
                                 Some l \<Rightarrow> (fsm_hash l s2)\<lparr>free_area := rb_link_right b l (free_area s2)\<rparr>
                               | None \<Rightarrow> s2\<lparr>free_area := rb_link_node b [] (free_area s2)\<rparr>)
                     in (Some b, s3\<lparr>free_area := rb_insert_color (env_rb env) b (free_area s3),
                                    free_area_nodes := u32 (free_area_nodes s3 + 1)\<rparr>))
      in case lst of
           None \<Rightarrow> new s
         | Some l \<Rightarrow>
             if nd_end (nodes s l) = start
             then (lst, s\<lparr>nodes := (nodes s)(l := (nodes s l)\<lparr>nd_length := u32 (nd_length (nodes s l) + u32 len)\<rparr>)\<rparr>)
             else new s)"

text \<open>
  The loops of \<^verbatim>\<open>fsm_build_tree\<close> and \<^verbatim>\<open>fsm_init_erase_blocks_counters\<close> walk the bitmap
  block by block: \<open>block\<close> is the byte offset of the bits of the current bitmap block,
  \<open>scan_size\<close> its number of bits. \<open>scan_step\<close> is the part they share, the next run of zero bits
  \<open>free_start ..< data_start\<close> and the switch to the next bitmap block. Every iteration moves
  \<open>data_start\<close> forward, so as many iterations as the volume has blocks are enough; \<^const>\<open>Undef\<close>
  stands for more.
\<close>

record bitmap_scan =
  scan_block_start :: nat
  scan_data_start :: nat
  scan_block :: nat
  scan_size :: nat

definition scan_step :: "bits \<Rightarrow> nat \<Rightarrow> nat \<Rightarrow> bitmap_scan \<Rightarrow> nat \<times> bitmap_scan" where
  "scan_step data blk_size bits_count c =
     (let block_start = scan_block_start c;
          block_size = min (scan_size c) (bits_count - block_start);
          bit = (\<lambda>j. data ! (8 * scan_block c + j));
          free_start = block_start + find_next (\<lambda>j. \<not> bit j) block_size (scan_data_start c - block_start);
          data_start = block_start + find_next bit block_size (free_start - block_start)
      in (free_start,
          if data_start = block_start + block_size
          then \<lparr>scan_block_start = block_start + block_size, scan_data_start = data_start,
                scan_block = scan_block c + blk_size, scan_size = block_size\<rparr>
          else c\<lparr>scan_data_start := data_start, scan_size := block_size\<rparr>))"

definition fsm_build_body ::
    "fsm_env \<Rightarrow> nat \<Rightarrow> bitmap_scan \<times> nat option \<times> vdfs4_fsm_info \<Rightarrow>
     bitmap_scan \<times> nat option \<times> vdfs4_fsm_info" where
  "fsm_build_body env bits_count st =
     (case st of (c, lst, s) \<Rightarrow>
        case scan_step (fsm_data s) (fsm_block_size s) bits_count c of (free_start, c') \<Rightarrow>
          (c', if free_start < scan_data_start c'
               then fsm_append_free_space env lst (int free_start)
                      (int (scan_data_start c') - int free_start) s
               else (lst, s)))"

primrec fsm_build_loop ::
    "nat \<Rightarrow> fsm_env \<Rightarrow> nat \<Rightarrow> bitmap_scan \<times> nat option \<times> vdfs4_fsm_info \<Rightarrow>
     (nat option \<times> vdfs4_fsm_info) outcome" where
  "fsm_build_loop 0 env bits_count st =
     (if scan_block_start (fst st) < bits_count then Undef else Done (snd st))"
| "fsm_build_loop (Suc fuel) env bits_count st =
     (if scan_block_start (fst st) < bits_count
      then fsm_build_loop fuel env bits_count (fsm_build_body env bits_count st)
      else Done (snd st))"

definition scan_start :: "vdfs4_fsm_info \<Rightarrow> bitmap_scan" where
  "scan_start s = \<lparr>scan_block_start = 0, scan_data_start = 0, scan_block = FSM_BMP_MAGIC_LEN,
                   scan_size = datablock_size FSM_BMP_MAGIC_LEN (fsm_block_size s)\<rparr>"

definition fsm_build_tree :: "fsm_env \<Rightarrow> vdfs4_fsm_info \<Rightarrow> vdfs4_fsm_info outcome" where
  "fsm_build_tree env s =
     bind_outcome
       (fsm_build_loop (nat (volume_blocks_count s)) env (nat (volume_blocks_count s)) (scan_start s, None, s))
       (\<lambda>(lst, s'). Done (case lst of None \<Rightarrow> s' | Some l \<Rightarrow> fsm_hash l s'))"

primrec fsm_init_erase_loop ::
    "nat \<Rightarrow> nat \<Rightarrow> bitmap_scan \<Rightarrow> vdfs4_fsm_info \<Rightarrow> vdfs4_fsm_info outcome" where
  "fsm_init_erase_loop 0 bits_count c s = (if scan_block_start c < bits_count then Undef else Done s)"
| "fsm_init_erase_loop (Suc fuel) bits_count c s =
     (if scan_block_start c < bits_count then
        case scan_step (fsm_data s) (fsm_block_size s) bits_count c of (free_start, c') \<Rightarrow>
          bind_outcome
            (fsm_inc_erase_blocks_counters (int (scan_data_start c))
               (u32 (int free_start - int (scan_data_start c))) s)
            (fsm_init_erase_loop fuel bits_count c')
      else Done s)"

definition fsm_init_erase_blocks_counters :: "vdfs4_fsm_info \<Rightarrow> vdfs4_fsm_info outcome" where
  "fsm_init_erase_blocks_counters s =
     fsm_init_erase_loop (nat (volume_blocks_count s)) (nat (volume_blocks_count s)) (scan_start s)
       (s\<lparr>erase_blocks_counters := replicate (length (erase_blocks_counters s)) 0\<rparr>)"

section \<open>Rebuilding the tree\<close>

definition fsm_cut_next :: "fsm_env \<Rightarrow> nat \<Rightarrow> vdfs4_fsm_info \<Rightarrow> vdfs4_fsm_info outcome" where
  "fsm_cut_next env a s =
     (let nxt = nodes s a in
      case fsm_find_node (nodes s) (nd_start nxt) (free_area s) of
        None \<Rightarrow>
          if untracked_blocks s < nd_length nxt then Bug
          else Done (s\<lparr>untracked_blocks := untracked_blocks s - nd_length nxt\<rparr>)
      | Some node \<Rightarrow>
          if fsm_max_length (nodes s node) (nd_start nxt) < nd_length nxt then Bug
          else fsm_allocate_from_node env node (nd_start nxt) (nd_length nxt) s)"

definition fsm_cut_next_free :: "fsm_env \<Rightarrow> vdfs4_fsm_info \<Rightarrow> vdfs4_fsm_info outcome" where
  "fsm_cut_next_free env s = for_each (fsm_cut_next env) (next_free_list s) s"

definition fsm_rebuild_tree :: "fsm_env \<Rightarrow> vdfs4_fsm_info \<Rightarrow> vdfs4_fsm_info outcome" where
  "fsm_rebuild_tree env s =
     (if untracked_next_free s \<noteq> 0 \<and> reserved_blocks_count s = 0 then Done s
      else
        let s1 = (if untracked_next_free s \<noteq> 0
                  then s\<lparr>next_free_blocks := next_free_blocks s - untracked_next_free s, untracked_next_free := 0\<rparr>
                  else s);
            s2 = (fsm_init_tree s1)\<lparr>untracked_blocks := 0, free_blocks_count := 0\<rparr>
        in bind_outcome (fsm_build_tree env s2) (\<lambda>s3.
             let s4 = s3\<lparr>free_blocks_count := u64 (free_blocks_count s3 - next_free_blocks s3)\<rparr>;
                 s5 = s4\<lparr>free_blocks_count := u64 (free_blocks_count s4 - reserved_blocks_count s4)\<rparr>
             in bind_outcome (fsm_cut_next_free env s5) (fsm_verify_state env)))"

section \<open>Allocating space\<close>

text \<open>
  One round of \<^verbatim>\<open>fsm_allocate_space\<close>, up to its label \<^verbatim>\<open>nospace\<close>: the node, the start and
  the length of the allocation.
\<close>

definition fsm_allocate_pick :: "int \<Rightarrow> int \<Rightarrow> int \<Rightarrow> vdfs4_fsm_info \<Rightarrow> (nat \<times> int \<times> int) option" where
  "fsm_allocate_pick start min_length len s =
     (let hinted =
        (if start \<noteq> 0 then
           (case fsm_find_node (nodes s) start (free_area s) of
              Some a \<Rightarrow> (let m = fsm_max_length (nodes s a) start
                          in if min_length \<le> m then Some (a, start, min len m) else None)
            | None \<Rightarrow> None)
         else None)
      in case hinted of
           Some r \<Rightarrow> Some r
         | None \<Rightarrow>
             (case fsm_choose_node len s of
                None \<Rightarrow> None
              | Some a \<Rightarrow>
                  if nd_length (nodes s a) < min_length then None
                  else Some (a, u32 (nd_start (nodes s a)), min len (nd_length (nodes s a)))))"

definition fsm_allocate_space ::
    "fsm_env \<Rightarrow> int \<Rightarrow> int \<Rightarrow> int \<Rightarrow> vdfs4_fsm_info \<Rightarrow> (int \<times> int \<times> vdfs4_fsm_info) outcome" where
  "fsm_allocate_space env start min_length len s =
     (let try = (\<lambda>s fail. case fsm_allocate_pick start min_length len s of
            Some (a, st, n) \<Rightarrow>
              bind_outcome (fsm_allocate_from_node env a st n s) (\<lambda>s'. Done (st, n, s'))
          | None \<Rightarrow> fail s);
          give_up = (\<lambda>s. bind_outcome (fsm_verify_state env s) (\<lambda>s. Done (0, len, s)))
      in try s (\<lambda>s. if untracked_blocks s \<noteq> 0
                    then bind_outcome (fsm_rebuild_tree env s) (\<lambda>s. try s give_up)
                    else give_up s))"

section \<open>The entry points\<close>

definition VDFS4_FSM_ALLOC_DELAYED :: nat where "VDFS4_FSM_ALLOC_DELAYED = 1"
definition VDFS4_FSM_ALLOC_ALIGNED :: nat where "VDFS4_FSM_ALLOC_ALIGNED = 2"
definition VDFS4_FSM_FREE_UNUSED :: nat where "VDFS4_FSM_FREE_UNUSED = 16"
definition VDFS4_FSM_FREE_RESERVE :: nat where "VDFS4_FSM_FREE_RESERVE = 32"

definition flag_set :: "nat \<Rightarrow> nat \<Rightarrow> bool" where
  "flag_set flags f \<longleftrightarrow> flags div f mod 2 = 1"

definition PAGE_SHIFT :: nat where
  "PAGE_SHIFT = 12"

text \<open>
  The pages of the bitmap that hold the bits from block \<open>b\<close> on: the bitmap block of the bit, then
  the page of the bitmap block. \<^verbatim>\<open>vdfs4_add_chunk_bitmap\<close> marks a page for the next snapshot.
\<close>

definition fsm_page_of :: "vdfs4_fsm_info \<Rightarrow> int \<Rightarrow> int" where
  "fsm_page_of s b =
     u32 (u64 b div int (datablock_size FSM_BMP_MAGIC_LEN (fsm_block_size s))) div 2 ^ (PAGE_SHIFT - block_size_shift s)"

definition fsm_add_chunk :: "int \<Rightarrow> vdfs4_fsm_info \<Rightarrow> vdfs4_fsm_info outcome" where
  "fsm_add_chunk index s =
     (if page_count s \<le> index then Undef else Done (s\<lparr>dirty_pages := dirty_pages s @ [index]\<rparr>))"

definition fsm_add_chunks :: "int \<Rightarrow> int \<Rightarrow> vdfs4_fsm_info \<Rightarrow> vdfs4_fsm_info outcome" where
  "fsm_add_chunks start_page end_page = for_each fsm_add_chunk [start_page .. end_page]"

definition blocks_per_superpage :: "vdfs4_fsm_info \<Rightarrow> int" where
  "blocks_per_superpage s = 2 ^ (log_super_page_size s - log_block_size s)"

text \<open>The branch of an aligned allocation: one superpage more is taken, to align the start.\<close>

definition fsm_get_aligned ::
    "fsm_env \<Rightarrow> int \<Rightarrow> int \<Rightarrow> int \<Rightarrow> vdfs4_fsm_info \<Rightarrow> (int \<times> int \<times> vdfs4_fsm_info) outcome" where
  "fsm_get_aligned env block_offset len min_blk_count s =
     (let bps = blocks_per_superpage s;
          optimal_length = u32 (len + bps);
          minimal_length = u32 (min_blk_count + bps);
          finish = (\<lambda>off n len' s.
            if n < minimal_length \<or> optimal_length < n then Bug
            else Done (u64 ((off + bps - 1) div bps * bps), len',
                       s\<lparr>untracked_blocks := untracked_blocks s + bps\<rparr>))
      in if len mod bps \<noteq> 0 then Bug
         else bind_outcome (fsm_allocate_space env (u32 block_offset) optimal_length optimal_length s)
           (\<lambda>(off, n, s1).
              if off \<noteq> 0 then finish off n len s1
              else case fsm_get_longest_node s1 of
                     None \<Rightarrow> Done (0, len, s1)
                   | Some a \<Rightarrow>
                       let n = min (nd_length (nodes s1 a) div bps * bps) optimal_length
                       in if n < u32 (minimal_length + bps) then Done (0, len, s1)
                          else bind_outcome (fsm_allocate_from_node env a (nd_start (nodes s1 a)) n s1)
                                 (finish (nd_start (nodes s1 a)) n (u32 (n - bps)))))"

definition vdfs4_fsm_get_free_block ::
    "fsm_env \<Rightarrow> int \<Rightarrow> int \<Rightarrow> int \<Rightarrow> nat \<Rightarrow> vdfs4_fsm_info \<Rightarrow> (int \<times> int \<times> vdfs4_fsm_info) outcome" where
  "vdfs4_fsm_get_free_block env block_offset0 len min_blk_count fsm_flags s =
     (let block_offset = (if volume_blocks_count s \<le> u64 (block_offset0 + len) then 0 else block_offset0);
          delayed = flag_set fsm_flags VDFS4_FSM_ALLOC_DELAYED
      in if free_blocks_count s < len \<and> \<not> delayed then Done (0, len, s)
         else bind_outcome
           (if flag_set fsm_flags VDFS4_FSM_ALLOC_ALIGNED
            then fsm_get_aligned env block_offset len min_blk_count s
            else fsm_allocate_space env (u32 block_offset) 1 len s)
           (\<lambda>(off, n, s1).
              if off = 0 then Done (0, n, s1)
              else
                let s2 = (if delayed
                          then s1\<lparr>reserved_blocks_count := u64 (reserved_blocks_count s1 - n)\<rparr>
                          else s1\<lparr>free_blocks_count := u64 (free_blocks_count s1 - n)\<rparr>)
                in if volume_blocks_count s2 < u64 (off + n) then Bug
                   else case vdfs4_set_bits (fsm_data s2) (nat (u32 off)) (nat n) FSM_BMP_MAGIC_LEN (fsm_block_size s2) of
                          None \<Rightarrow> Undef
                        | Some (Some e, d) \<Rightarrow> Bug
                        | Some (None, d) \<Rightarrow>
                            bind_outcome (fsm_inc_erase_blocks_counters off n (s2\<lparr>fsm_data := d\<rparr>)) (\<lambda>s3.
                              bind_outcome (fsm_add_chunks (fsm_page_of s off) (fsm_page_of s (off + n)) s3) (\<lambda>s4.
                                Done (off, n, s4)))))"

definition fsm_free_block_chunk ::
    "fsm_env \<Rightarrow> int \<Rightarrow> int \<Rightarrow> nat \<Rightarrow> vdfs4_fsm_info \<Rightarrow> vdfs4_fsm_info outcome" where
  "fsm_free_block_chunk env block_offset len fsm_flags s =
     (if volume_blocks_count s < u64 (block_offset + len) then (if mount_finished s then Bug else Done s)
      else
        bind_outcome
          (case vdfs4_clear_bits (fsm_data s) (nat (u32 block_offset)) (nat len) FSM_BMP_MAGIC_LEN (fsm_block_size s) of
             None \<Rightarrow> Undef
           | Some (Some e, d) \<Rightarrow> Done (s\<lparr>fsm_data := d\<rparr>)
           | Some (None, d) \<Rightarrow>
               let s1 = s\<lparr>fsm_data := d\<rparr>;
                   s2 = (if flag_set fsm_flags VDFS4_FSM_FREE_RESERVE
                         then s1\<lparr>reserved_blocks_count := u64 (reserved_blocks_count s1 + len)\<rparr>
                         else if flag_set fsm_flags VDFS4_FSM_FREE_UNUSED
                         then s1\<lparr>free_blocks_count := u64 (free_blocks_count s1 + len)\<rparr>
                         else s1);
                   s3 = (if flag_set fsm_flags VDFS4_FSM_FREE_UNUSED
                         then s2\<lparr>untracked_blocks := untracked_blocks s2 + len\<rparr>
                         else fsm_add_free_space env block_offset len s2)
               in fsm_dec_erase_blocks_counters block_offset len s3)
          (fsm_add_chunks (fsm_page_of s block_offset) (fsm_page_of s (block_offset + len))))"

definition vdfs4_fsm_put_free_block ::
    "fsm_env \<Rightarrow> int \<Rightarrow> int \<Rightarrow> nat \<Rightarrow> vdfs4_fsm_info \<Rightarrow> vdfs4_fsm_info outcome" where
  "vdfs4_fsm_put_free_block env offset len fsm_flags s = fsm_free_block_chunk env offset len fsm_flags s"

text \<open>The state of the manager after a mount, from the bitmap that was read.\<close>

definition vdfs4_fsm_build_state :: "fsm_env \<Rightarrow> vdfs4_fsm_info \<Rightarrow> vdfs4_fsm_info outcome" where
  "vdfs4_fsm_build_state env s =
     bind_outcome (fsm_build_tree env (fsm_init_next_tree (fsm_init_tree s))) (\<lambda>s1.
     bind_outcome (fsm_init_erase_blocks_counters s1) (fsm_verify_state env))"

section \<open>The counters of erase blocks count the allocated blocks\<close>

definition erase_used :: "vdfs4_fsm_info \<Rightarrow> int set \<Rightarrow> nat \<Rightarrow> int set" where
  "erase_used s U i = {b \<in> U. b div 2 ^ log_erase_block_size_in_blocks s = int i}"

definition erase_ok :: "vdfs4_fsm_info \<Rightarrow> int set \<Rightarrow> bool" where
  "erase_ok s U \<longleftrightarrow>
     erase_block_size_in_blocks s = 2 ^ log_erase_block_size_in_blocks s \<and>
     erase_block_size_in_blocks s < VDFS4_DELAYED_DISCARD_MAGIC \<and>
     (\<forall>i < length (erase_blocks_counters s).
        erase_blocks_counters s ! i = int (card (erase_used s U i)) \<or>
        erase_blocks_counters s ! i = VDFS4_DELAYED_DISCARD_MAGIC \<and> card (erase_used s U i) = 0)"

definition erase_range :: "vdfs4_fsm_info \<Rightarrow> int \<Rightarrow> bool" where
  "erase_range s b \<longleftrightarrow> 0 \<le> b \<and> b < 4294967296 \<and>
     b div 2 ^ log_erase_block_size_in_blocks s < int (length (erase_blocks_counters s))"

lemma erase_used_subset:
  "erase_used s U i \<subseteq> extent_blocks (int i * 2 ^ log_erase_block_size_in_blocks s) (2 ^ log_erase_block_size_in_blocks s)"
proof
  fix b assume "b \<in> erase_used s U i"
  then have "b div 2 ^ log_erase_block_size_in_blocks s = int i" by (simp add: erase_used_def)
  then have "b = int i * 2 ^ log_erase_block_size_in_blocks s + b mod 2 ^ log_erase_block_size_in_blocks s"
    by (metis div_mult_mod_eq)
  moreover have "0 \<le> b mod 2 ^ log_erase_block_size_in_blocks s"
    "b mod 2 ^ log_erase_block_size_in_blocks s < 2 ^ log_erase_block_size_in_blocks s" by simp_all
  ultimately show "b \<in> extent_blocks (int i * 2 ^ log_erase_block_size_in_blocks s) (2 ^ log_erase_block_size_in_blocks s)"
    by (metis add_left_mono atLeastLessThan_iff add_less_cancel_left add.right_neutral)
qed

lemma erase_used_finite [simp]: "finite (erase_used s U i)"
  by (rule finite_subset [OF erase_used_subset]) simp

lemma erase_used_card: "int (card (erase_used s U i)) \<le> 2 ^ log_erase_block_size_in_blocks s"
proof -
  have "card (erase_used s U i) \<le> card (extent_blocks (int i * 2 ^ log_erase_block_size_in_blocks s)
      (2 ^ log_erase_block_size_in_blocks s))"
    by (intro card_mono erase_used_subset) simp
  then show ?thesis by (simp add: le_nat_iff)
qed

lemma erase_used_insert:
  "erase_used s (insert b U) i
     = (if b div 2 ^ log_erase_block_size_in_blocks s = int i then insert b (erase_used s U i) else erase_used s U i)"
  by (auto simp: erase_used_def)

lemma erase_used_remove:
  "erase_used s (U - {b}) i = erase_used s U i - {b}"
  by (auto simp: erase_used_def)

lemma erase_block_num_eq:
  "erase_range s b \<Longrightarrow> int (erase_block_num s b) = b div 2 ^ log_erase_block_size_in_blocks s"
  by (simp add: erase_range_def erase_block_num_def c_arith pos_imp_zdiv_nonneg_iff)

lemma fsm_inc_erase_block_ok:
  assumes "erase_ok s U" "erase_range s b" "b \<notin> U"
  shows "\<exists>c. fsm_inc_erase_block b s = Done (s\<lparr>erase_blocks_counters := c\<rparr>) \<and>
    length c = length (erase_blocks_counters s) \<and> erase_ok (s\<lparr>erase_blocks_counters := c\<rparr>) (insert b U)"
proof -
  let ?i = "erase_block_num s b" and ?c = "erase_blocks_counters s"
  have i: "int ?i = b div 2 ^ log_erase_block_size_in_blocks s" "?i < length ?c"
    using erase_block_num_eq [OF assms(2)] assms(2) by (auto simp: erase_range_def)
  have card: "card (erase_used s (insert b U) ?i) = Suc (card (erase_used s U ?i))"
  proof -
    have "b \<notin> erase_used s U ?i" using assms(3) by (simp add: erase_used_def)
    with i(1) show ?thesis by (simp add: erase_used_insert)
  qed
  have bound: "int (card (erase_used s (insert b U) ?i)) \<le> erase_block_size_in_blocks s"
    using erase_used_card assms(1) by (simp add: erase_ok_def)
  have lim: "erase_block_size_in_blocks s < 3740130477"
    using assms(1) by (simp add: erase_ok_def VDFS4_DELAYED_DISCARD_MAGIC_def)
  let ?v = "int (card (erase_used s (insert b U) ?i))"
  have run: "fsm_inc_erase_block b s = Done (s\<lparr>erase_blocks_counters := ?c[?i := ?v]\<rparr>)"
  proof (cases "?c ! ?i = VDFS4_DELAYED_DISCARD_MAGIC")
    case True
    have "int (card (erase_used s U ?i)) < VDFS4_DELAYED_DISCARD_MAGIC"
      using erase_used_card [of s U ?i] assms(1) unfolding erase_ok_def by linarith
    then have "card (erase_used s U ?i) = 0" using True assms(1) i(2) by (auto simp: erase_ok_def)
    with True i(2) card show ?thesis by (simp add: fsm_inc_erase_block_def Let_def)
  next
    case False
    with assms(1) i(2) have "?c ! ?i = int (card (erase_used s U ?i))" by (auto simp: erase_ok_def)
    with False i(2) card bound lim show ?thesis
      by (simp add: fsm_inc_erase_block_def Let_def c_arith add.commute)
  qed
  have other: "erase_used (s\<lparr>erase_blocks_counters := c\<rparr>) U' j = erase_used s U' j" for c U' j
    by (simp add: erase_used_def)
  have "erase_ok (s\<lparr>erase_blocks_counters := ?c[?i := ?v]\<rparr>) (insert b U)"
    using assms(1) i by (auto simp: erase_ok_def other nth_list_update erase_used_insert)
  with run show ?thesis by auto
qed

lemma fsm_dec_erase_block_ok:
  assumes "erase_ok s U" "erase_range s b" "b \<in> U"
  shows "\<exists>c. fsm_dec_erase_block b s = Done (s\<lparr>erase_blocks_counters := c\<rparr>) \<and>
    length c = length (erase_blocks_counters s) \<and> erase_ok (s\<lparr>erase_blocks_counters := c\<rparr>) (U - {b})"
proof -
  let ?i = "erase_block_num s b" and ?c = "erase_blocks_counters s"
  have i: "int ?i = b div 2 ^ log_erase_block_size_in_blocks s" "?i < length ?c"
    using erase_block_num_eq [OF assms(2)] assms(2) by (auto simp: erase_range_def)
  have mem: "b \<in> erase_used s U ?i" using assms(3) i by (simp add: erase_used_def)
  then have pos: "card (erase_used s U ?i) \<noteq> 0" by auto
  have card: "int (card (erase_used s (U - {b}) ?i)) = int (card (erase_used s U ?i)) - 1"
    using card_Suc_Diff1 [OF erase_used_finite mem] by (simp add: erase_used_remove)
  have bound: "int (card (erase_used s U ?i)) \<le> erase_block_size_in_blocks s"
    using erase_used_card assms(1) by (simp add: erase_ok_def)
  have lim: "erase_block_size_in_blocks s < 3740130477"
    using assms(1) by (simp add: erase_ok_def VDFS4_DELAYED_DISCARD_MAGIC_def)
  have ci: "?c ! ?i = int (card (erase_used s U ?i))" using assms(1) i(2) pos by (auto simp: erase_ok_def)
  let ?v = "if card (erase_used s (U - {b}) ?i) = 0 then VDFS4_DELAYED_DISCARD_MAGIC
    else int (card (erase_used s (U - {b}) ?i))"
  have u: "u32 (?c ! ?i - 1) = int (card (erase_used s (U - {b}) ?i))"
    unfolding ci card using bound lim pos by (intro u32_id) linarith+
  have "int (card (erase_used s (U - {b}) ?i)) \<le> erase_block_size_in_blocks s" using card bound by linarith
  then have run: "fsm_dec_erase_block b s = Done (s\<lparr>erase_blocks_counters := ?c[?i := ?v]\<rparr>)"
    using i(2) u by (simp add: fsm_dec_erase_block_def Let_def)
  have other: "erase_used (s\<lparr>erase_blocks_counters := c\<rparr>) U' j = erase_used s U' j" for c U' j
    by (simp add: erase_used_def)
  have stay: "erase_used s (U - {b}) j = erase_used s U j" if "j \<noteq> ?i" for j
    using i(1) that by (auto simp: erase_used_def)
  have "?c[?i := ?v] ! j = int (card (erase_used s (U - {b}) j)) \<or>
      ?c[?i := ?v] ! j = VDFS4_DELAYED_DISCARD_MAGIC \<and> card (erase_used s (U - {b}) j) = 0"
    if "j < length ?c" for j
    using that assms(1) stay [of j] by (cases "j = ?i") (auto simp: erase_ok_def)
  then have "erase_ok (s\<lparr>erase_blocks_counters := ?c[?i := ?v]\<rparr>) (U - {b})"
    using assms(1) by (simp add: erase_ok_def other)
  with run show ?thesis by (metis length_list_update)
qed

lemma erase_frame [simp]:
  "erase_range (s\<lparr>erase_blocks_counters := c\<rparr>) b \<longleftrightarrow>
     0 \<le> b \<and> b < 4294967296 \<and> b div 2 ^ log_erase_block_size_in_blocks s < int (length c)"
  by (simp add: erase_range_def)

lemma for_each_inc:
  assumes "erase_ok s U" "\<forall>b \<in> set bs. erase_range s b" "distinct bs" "set bs \<inter> U = {}"
  shows "\<exists>c. for_each fsm_inc_erase_block bs s = Done (s\<lparr>erase_blocks_counters := c\<rparr>) \<and>
    length c = length (erase_blocks_counters s) \<and> erase_ok (s\<lparr>erase_blocks_counters := c\<rparr>) (U \<union> set bs)"
  using assms
proof (induction bs arbitrary: s U)
  case Nil
  then show ?case by (intro exI [of _ "erase_blocks_counters s"]) simp
next
  case (Cons b bs)
  have pre: "erase_range s b" "b \<notin> U" using Cons.prems by auto
  obtain c where c: "fsm_inc_erase_block b s = Done (s\<lparr>erase_blocks_counters := c\<rparr>)"
    "length c = length (erase_blocks_counters s)" "erase_ok (s\<lparr>erase_blocks_counters := c\<rparr>) (insert b U)"
    using fsm_inc_erase_block_ok [OF Cons.prems(1) pre] by blast
  have "\<forall>x \<in> set bs. erase_range (s\<lparr>erase_blocks_counters := c\<rparr>) x" "set bs \<inter> insert b U = {}" "distinct bs"
    using Cons.prems c(2) by (auto simp: erase_range_def)
  from Cons.IH [OF c(3) this(1,3,2)] obtain c' where
    "for_each fsm_inc_erase_block bs (s\<lparr>erase_blocks_counters := c\<rparr>) = Done (s\<lparr>erase_blocks_counters := c'\<rparr>)"
    "length c' = length c" "erase_ok (s\<lparr>erase_blocks_counters := c'\<rparr>) (insert b U \<union> set bs)" by auto
  with c show ?case by (intro exI [of _ c']) auto
qed

lemma for_each_dec:
  assumes "erase_ok s U" "\<forall>b \<in> set bs. erase_range s b" "distinct bs" "set bs \<subseteq> U"
  shows "\<exists>c. for_each fsm_dec_erase_block bs s = Done (s\<lparr>erase_blocks_counters := c\<rparr>) \<and>
    length c = length (erase_blocks_counters s) \<and> erase_ok (s\<lparr>erase_blocks_counters := c\<rparr>) (U - set bs)"
  using assms
proof (induction bs arbitrary: s U)
  case Nil
  then show ?case by (intro exI [of _ "erase_blocks_counters s"]) simp
next
  case (Cons b bs)
  have pre: "erase_range s b" "b \<in> U" using Cons.prems by auto
  obtain c where c: "fsm_dec_erase_block b s = Done (s\<lparr>erase_blocks_counters := c\<rparr>)"
    "length c = length (erase_blocks_counters s)" "erase_ok (s\<lparr>erase_blocks_counters := c\<rparr>) (U - {b})"
    using fsm_dec_erase_block_ok [OF Cons.prems(1) pre] by blast
  have "\<forall>x \<in> set bs. erase_range (s\<lparr>erase_blocks_counters := c\<rparr>) x" "set bs \<subseteq> U - {b}" "distinct bs"
    using Cons.prems c(2) by (auto simp: erase_range_def)
  from Cons.IH [OF c(3) this(1,3,2)] obtain c' where
    "for_each fsm_dec_erase_block bs (s\<lparr>erase_blocks_counters := c\<rparr>) = Done (s\<lparr>erase_blocks_counters := c'\<rparr>)"
    "length c' = length c" "erase_ok (s\<lparr>erase_blocks_counters := c'\<rparr>) (U - {b} - set bs)" by auto
  moreover have "U - {b} - set bs = U - set (b # bs)" by auto
  ultimately show ?case using c by (intro exI [of _ c']) simp
qed

lemma extent_list: "0 \<le> n \<Longrightarrow> set (map (\<lambda>i. b + int i) [0 ..< nat n]) = extent_blocks b n"
proof -
  assume "0 \<le> n"
  have "x \<in> (\<lambda>i. b + int i) ` {0 ..< nat n}" if "x \<in> extent_blocks b n" for x
    using that by (intro image_eqI [of _ _ "nat (x - b)"]) auto
  then show ?thesis by auto
qed

lemma fsm_inc_erase_ok:
  assumes "erase_ok s U" "\<forall>b \<in> extent_blocks start n. erase_range s b" "extent_blocks start n \<inter> U = {}" "0 \<le> n"
  shows "\<exists>c. fsm_inc_erase_blocks_counters start n s = Done (s\<lparr>erase_blocks_counters := c\<rparr>) \<and>
    length c = length (erase_blocks_counters s) \<and>
    erase_ok (s\<lparr>erase_blocks_counters := c\<rparr>) (U \<union> extent_blocks start n)"
  unfolding fsm_inc_erase_blocks_counters_def
  using for_each_inc [of s U "map (\<lambda>i. start + int i) [0 ..< nat n]"] assms
  unfolding extent_list [OF assms(4)] by (simp add: distinct_map inj_on_def)

lemma fsm_dec_erase_ok:
  assumes "erase_ok s U" "\<forall>b \<in> extent_blocks start n. erase_range s b" "extent_blocks start n \<subseteq> U" "0 \<le> n"
  shows "\<exists>c. fsm_dec_erase_blocks_counters start n s = Done (s\<lparr>erase_blocks_counters := c\<rparr>) \<and>
    length c = length (erase_blocks_counters s) \<and>
    erase_ok (s\<lparr>erase_blocks_counters := c\<rparr>) (U - extent_blocks start n)"
  unfolding fsm_dec_erase_blocks_counters_def
  using for_each_dec [of s U "map (\<lambda>i. start + int i) [0 ..< nat n]"] assms
  unfolding extent_list [OF assms(4)] by (simp add: distinct_map inj_on_def)

section \<open>The bitmap and the trees\<close>

text \<open>
  The blocks whose bit is set, and the invariant that ties the trees to the bitmap: what a tree
  holds is clear in the bitmap, the counters count the clear bits, and the counters of erase
  blocks the set ones. Block 0 holds the superblock and is always allocated.
\<close>

definition fsm_used :: "vdfs4_fsm_info \<Rightarrow> int set" where
  "fsm_used s = {b. 0 \<le> b \<and> b < volume_blocks_count s \<and>
     bitmap_bit FSM_BMP_MAGIC_LEN (fsm_block_size s) (fsm_data s) (nat b)}"

definition fsm_clear :: "vdfs4_fsm_info \<Rightarrow> int set" where
  "fsm_clear s = {0 ..< volume_blocks_count s} - fsm_used s"

definition bitmap_size_ok :: "vdfs4_fsm_info \<Rightarrow> bool" where
  "bitmap_size_ok s \<longleftrightarrow>
     0 \<le> volume_blocks_count s \<and> volume_blocks_count s < 4294967296 \<and>
     (\<exists>nb. bitmap_buffer FSM_BMP_MAGIC_LEN (fsm_block_size s) nb (fsm_data s) \<and>
        volume_blocks_count s \<le> int (nb * datablock_size FSM_BMP_MAGIC_LEN (fsm_block_size s)))"

definition bitmap_inv :: "vdfs4_fsm_info \<Rightarrow> bool" where
  "bitmap_inv s \<longleftrightarrow>
     bitmap_size_ok s \<and> free_blocks s \<union> next_blocks s \<subseteq> fsm_clear s \<and> 0 \<in> fsm_used s \<and>
     int (card (fsm_clear s)) = free_blocks_count s + reserved_blocks_count s + next_free_blocks s \<and>
     erase_ok s (fsm_used s) \<and> (\<forall>b \<in> {0 ..< volume_blocks_count s}. erase_range s b)"

definition fsm_ok :: "vdfs4_fsm_info \<Rightarrow> bool" where
  "fsm_ok s \<longleftrightarrow> fsm_inv s \<and> bitmap_inv s"

lemma nat_range:
  assumes "0 \<le> off" "0 \<le> n" "0 \<le> b"
  shows "nat b \<in> {nat off ..< nat off + nat n} \<longleftrightarrow> b \<in> extent_blocks off n"
  using assms by auto

lemma fsm_set_bits_ok:
  assumes "bitmap_size_ok s" "extent_blocks off n \<subseteq> fsm_clear s" "0 < n" "0 \<le> off"
  shows "\<exists>d. vdfs4_set_bits (fsm_data s) (nat (u32 off)) (nat n) FSM_BMP_MAGIC_LEN (fsm_block_size s) = Some (success, d) \<and>
    bitmap_size_ok (s\<lparr>fsm_data := d\<rparr>) \<and> fsm_used (s\<lparr>fsm_data := d\<rparr>) = fsm_used s \<union> extent_blocks off n"
proof -
  let ?m = FSM_BMP_MAGIC_LEN and ?bs = "fsm_block_size s"
  obtain nb where nb: "bitmap_buffer ?m ?bs nb (fsm_data s)" "volume_blocks_count s \<le> int (nb * datablock_size ?m ?bs)"
    using assms(1) by (auto simp: bitmap_size_ok_def)
  have "off + n - 1 \<in> fsm_clear s" using assms(2,3) by auto
  then have vol: "off + n \<le> volume_blocks_count s" "volume_blocks_count s < 4294967296"
    using assms by (auto simp: fsm_clear_def bitmap_size_ok_def)
  have u: "u32 off = off" using assms vol by (intro u32_id) auto
  have le: "nat off + nat n \<le> nb * datablock_size ?m ?bs" using vol nb(2) assms(3,4) by linarith
  have pn: "0 < nat n" using assms(3) by simp
  have g: "geom_ok ?m ?bs" using nb(1) by (simp add: bitmap_buffer_def)
  have clear: "\<forall>k \<in> {nat off ..< nat off + nat n}. \<not> bitmap_bit ?m ?bs (fsm_data s) k"
  proof
    fix k assume "k \<in> {nat off ..< nat off + nat n}"
    then have "int k \<in> extent_blocks off n" using assms(3,4) by auto
    then have "int k \<in> fsm_clear s" using assms(2) by blast
    then show "\<not> bitmap_bit ?m ?bs (fsm_data s) k" by (auto simp: fsm_clear_def fsm_used_def)
  qed
  obtain d where d: "vdfs4_set_bits (fsm_data s) (nat off) (nat n) ?m ?bs = Some (success, d)"
    "length d = length (fsm_data s)"
    "\<forall>i < length (fsm_data s). d ! i \<longleftrightarrow> fsm_data s ! i \<or> i \<in> bit_place ?m ?bs ` {nat off ..< nat off + nat n}"
    using set_bits_run [OF nb(1) pn le clear] by blast
  have "bitmap_bit ?m ?bs d k \<longleftrightarrow> bitmap_bit ?m ?bs (fsm_data s) k \<or> k \<in> {nat off ..< nat off + nat n}"
    if "int k < volume_blocks_count s" for k
  proof -
    have "k < nb * datablock_size ?m ?bs" using that nb(2) by linarith
    from bitmap_place_bound [OF nb(1) this] d(3) show ?thesis
      by (simp add: bitmap_bit_def bit_place_image [OF g])
  qed
  then have "fsm_used (s\<lparr>fsm_data := d\<rparr>) = fsm_used s \<union> extent_blocks off n"
    using vol assms(3,4) nat_range [of off n] by (auto simp: fsm_used_def)
  moreover have "bitmap_size_ok (s\<lparr>fsm_data := d\<rparr>)"
    using assms(1) d(2) by (auto simp: bitmap_size_ok_def bitmap_buffer_def)
  ultimately show ?thesis using d(1) u by auto
qed

lemma fsm_clear_bits_ok:
  assumes "bitmap_size_ok s" "extent_blocks off n \<subseteq> fsm_used s" "0 < n" "0 \<le> off"
  shows "\<exists>d. vdfs4_clear_bits (fsm_data s) (nat (u32 off)) (nat n) FSM_BMP_MAGIC_LEN (fsm_block_size s) = Some (success, d) \<and>
    bitmap_size_ok (s\<lparr>fsm_data := d\<rparr>) \<and> fsm_used (s\<lparr>fsm_data := d\<rparr>) = fsm_used s - extent_blocks off n"
proof -
  let ?m = FSM_BMP_MAGIC_LEN and ?bs = "fsm_block_size s"
  obtain nb where nb: "bitmap_buffer ?m ?bs nb (fsm_data s)" "volume_blocks_count s \<le> int (nb * datablock_size ?m ?bs)"
    using assms(1) by (auto simp: bitmap_size_ok_def)
  have "off + n - 1 \<in> fsm_used s" using assms(2,3) by auto
  then have vol: "off + n \<le> volume_blocks_count s" "volume_blocks_count s < 4294967296"
    using assms by (auto simp: fsm_used_def bitmap_size_ok_def)
  have u: "u32 off = off" using assms vol by (intro u32_id) auto
  have le: "nat off + nat n \<le> nb * datablock_size ?m ?bs" using vol nb(2) assms(3,4) by linarith
  have pn: "0 < nat n" using assms(3) by simp
  have g: "geom_ok ?m ?bs" using nb(1) by (simp add: bitmap_buffer_def)
  have busy: "\<forall>k \<in> {nat off ..< nat off + nat n}. bitmap_bit ?m ?bs (fsm_data s) k"
  proof
    fix k assume "k \<in> {nat off ..< nat off + nat n}"
    then have "int k \<in> extent_blocks off n" using assms(3,4) by auto
    then have "int k \<in> fsm_used s" using assms(2) by blast
    then show "bitmap_bit ?m ?bs (fsm_data s) k" by (simp add: fsm_used_def)
  qed
  obtain d where d: "vdfs4_clear_bits (fsm_data s) (nat off) (nat n) ?m ?bs = Some (success, d)"
    "length d = length (fsm_data s)"
    "\<forall>i < length (fsm_data s). d ! i \<longleftrightarrow> fsm_data s ! i \<and> i \<notin> bit_place ?m ?bs ` {nat off ..< nat off + nat n}"
    using clear_bits_run [OF nb(1) _ le, unfolded if_P [OF busy]] pn by blast
  have "bitmap_bit ?m ?bs d k \<longleftrightarrow> bitmap_bit ?m ?bs (fsm_data s) k \<and> k \<notin> {nat off ..< nat off + nat n}"
    if "int k < volume_blocks_count s" for k
  proof -
    have "k < nb * datablock_size ?m ?bs" using that nb(2) by linarith
    from bitmap_place_bound [OF nb(1) this] d(3) show ?thesis
      by (simp add: bitmap_bit_def bit_place_image [OF g])
  qed
  then have "fsm_used (s\<lparr>fsm_data := d\<rparr>) = fsm_used s - extent_blocks off n"
    using vol assms(3,4) nat_range [of off n] by (auto simp: fsm_used_def)
  moreover have "bitmap_size_ok (s\<lparr>fsm_data := d\<rparr>)"
    using assms(1) d(2) by (auto simp: bitmap_size_ok_def bitmap_buffer_def)
  ultimately show ?thesis using d(1) u by auto
qed

section \<open>Allocation\<close>

text \<open>The extent has left the free tree, and the counters wait for the caller to subtract it.\<close>

definition carved :: "int \<Rightarrow> int \<Rightarrow> vdfs4_fsm_info \<Rightarrow> vdfs4_fsm_info \<Rightarrow> bool" where
  "carved off n s s1 \<longleftrightarrow>
     0 < n \<and> extent_blocks off n \<subseteq> free_blocks s \<and> tree_inv s1 \<and> alloc_frame s s1 \<and>
     next_blocks s1 = next_blocks s \<and> free_blocks s1 \<subseteq> free_blocks s - extent_blocks off n \<and>
     untracked_blocks s \<le> untracked_blocks s1 \<and>
     area_total (nodes s1) (free_addrs s1) + n + (untracked_blocks s1 - untracked_blocks s)
       = area_total (nodes s) (free_addrs s)"

lemma taken_carved:
  "taken off n s s1 \<Longrightarrow> 0 < n \<Longrightarrow> extent_blocks off n \<subseteq> free_blocks s \<Longrightarrow> carved off n s s1"
  by (simp add: taken_def carved_def)

definition allocated_blocks :: "int \<Rightarrow> int \<Rightarrow> vdfs4_fsm_info \<Rightarrow> vdfs4_fsm_info \<Rightarrow> bool" where
  "allocated_blocks off n s s' \<longleftrightarrow>
     extent_blocks off n \<subseteq> free_blocks s \<and> fsm_used s' = fsm_used s \<union> extent_blocks off n \<and>
     free_blocks s' \<subseteq> free_blocks s - extent_blocks off n \<and> next_blocks s' = next_blocks s"

lemma pages_ok:
  "\<forall>i \<in> set is. i < page_count s \<Longrightarrow>
     for_each fsm_add_chunk is s = Done (s\<lparr>dirty_pages := dirty_pages s @ is\<rparr>)"
proof (induction "is" arbitrary: s)
  case (Cons i "is")
  then show ?case by (simp add: fsm_add_chunk_def)
qed simp

lemma fsm_ok_frame_pages: "fsm_ok (s\<lparr>dirty_pages := ps\<rparr>) = fsm_ok s"
  by (simp add: fsm_ok_def fsm_inv_defs bitmap_inv_def bitmap_size_ok_def fsm_clear_def fsm_used_def
      free_blocks_def next_blocks_def erase_ok_def erase_used_def erase_range_def)

text \<open>The rest of \<^verbatim>\<open>vdfs4_fsm_get_free_block\<close> after the extent is out of the tree.\<close>

definition get_free_finish ::
    "bool \<Rightarrow> int \<Rightarrow> int \<Rightarrow> vdfs4_fsm_info \<Rightarrow> vdfs4_fsm_info \<Rightarrow> (int \<times> int \<times> vdfs4_fsm_info) outcome" where
  "get_free_finish delayed off n s s1 =
     (let s2 = (if delayed
                then s1\<lparr>reserved_blocks_count := u64 (reserved_blocks_count s1 - n)\<rparr>
                else s1\<lparr>free_blocks_count := u64 (free_blocks_count s1 - n)\<rparr>)
      in if volume_blocks_count s2 < u64 (off + n) then Bug
         else case vdfs4_set_bits (fsm_data s2) (nat (u32 off)) (nat n) FSM_BMP_MAGIC_LEN (fsm_block_size s2) of
                None \<Rightarrow> Undef
              | Some (Some e, d) \<Rightarrow> Bug
              | Some (None, d) \<Rightarrow>
                  bind_outcome (fsm_inc_erase_blocks_counters off n (s2\<lparr>fsm_data := d\<rparr>)) (\<lambda>s3.
                    bind_outcome (fsm_add_chunks (fsm_page_of s off) (fsm_page_of s (off + n)) s3) (\<lambda>s4.
                      Done (off, n, s4))))"

lemma count_bounds:
  assumes "fsm_inv s"
  shows "0 \<le> next_free_blocks s" "free_blocks_count s < 4294967296" "reserved_blocks_count s < 4294967296"
proof -
  have "0 \<le> area_total (nodes s) (next_addrs s)"
    using assms by (intro area_total_nonneg) (simp add: fsm_inv_defs)
  then show "0 \<le> next_free_blocks s" "free_blocks_count s < 4294967296" "reserved_blocks_count s < 4294967296"
    using assms unfolding fsm_inv_def count_part_def by linarith+
qed

lemma get_free_counts:
  assumes ok: "fsm_ok s" and c: "carved off n s s1"
    and enough: "if delayed then n \<le> reserved_blocks_count s else n \<le> free_blocks_count s"
  defines "s2 \<equiv> (if delayed
                then s1\<lparr>reserved_blocks_count := u64 (reserved_blocks_count s1 - n)\<rparr>
                else s1\<lparr>free_blocks_count := u64 (free_blocks_count s1 - n)\<rparr>)"
  shows "fsm_inv s2" "free_blocks_count s2 + reserved_blocks_count s2 = free_blocks_count s + reserved_blocks_count s - n"
    and "free_blocks s2 = free_blocks s1" "next_blocks s2 = next_blocks s1" "alloc_frame s (s2\<lparr>free_blocks_count :=
      free_blocks_count s, reserved_blocks_count := reserved_blocks_count s\<rparr>)"
proof -
  have cnt: "count_part s" using ok by (simp add: fsm_ok_def fsm_inv_def)
  have frame: "alloc_frame s s1" and tree: "tree_inv s1" and n: "0 < n" using c by (simp_all add: carved_def)
  have s1: "reserved_blocks_count s1 = reserved_blocks_count s" "free_blocks_count s1 = free_blocks_count s"
    using frame by (simp_all add: alloc_frame_def)
  have lim: "free_blocks_count s < 4294967296" "reserved_blocks_count s < 4294967296"
    using count_bounds ok by (simp_all add: fsm_ok_def)
  have u: "u64 (reserved_blocks_count s1 - n) = reserved_blocks_count s - n" if delayed
    unfolding s1 using that enough n lim by (intro u64_id) auto
  have v: "u64 (free_blocks_count s1 - n) = free_blocks_count s - n" if "\<not> delayed"
    unfolding s1 using that enough n lim by (intro u64_id) auto
  show sum: "free_blocks_count s2 + reserved_blocks_count s2 = free_blocks_count s + reserved_blocks_count s - n"
    using u v frame by (simp add: s2_def alloc_frame_def)
  show blk: "free_blocks s2 = free_blocks s1" "next_blocks s2 = next_blocks s1"
    by (simp_all add: s2_def free_blocks_def next_blocks_def)
  show "alloc_frame s (s2\<lparr>free_blocks_count := free_blocks_count s, reserved_blocks_count := reserved_blocks_count s\<rparr>)"
    using frame by (simp add: s2_def alloc_frame_def)
  have same: "nodes s2 = nodes s1" "free_area s2 = free_area s1" "next_free_area s2 = next_free_area s1"
    "untracked_blocks s2 = untracked_blocks s1" "next_free_blocks s2 = next_free_blocks s"
    "untracked_next_free s2 = untracked_next_free s" "next_free_area s1 = next_free_area s"
    using frame by (simp_all add: s2_def alloc_frame_def)
  have nonneg: "0 \<le> free_blocks_count s2" "0 \<le> reserved_blocks_count s2"
    using u v cnt enough frame by (auto simp: s2_def count_part_def alloc_frame_def split: if_splits)
  have nxt: "area_total (nodes s1) (next_addrs s) = area_total (nodes s) (next_addrs s)"
  proof -
    have "area_ok (nodes s1) (next_addrs s)" "area_ok (nodes s) (next_addrs s)"
      using tree ok same by (simp_all add: tree_inv_def next_part_def fsm_ok_def fsm_inv_def)
    moreover have "area_blocks (nodes s1) (next_addrs s) = area_blocks (nodes s) (next_addrs s)"
      using c same by (simp add: carved_def next_blocks_def)
    ultimately show ?thesis by (simp add: area_total_card)
  qed
  have "count_part s2"
    using cnt c sum nonneg nxt n unfolding count_part_def same by (auto simp: carved_def)
  moreover have "tree_inv s2"
    using tree blk by (simp add: tree_inv_def free_part_def next_part_def link_part_def s2_def)
  ultimately show "fsm_inv s2" by (simp add: fsm_inv_def tree_inv_def)
qed

text \<open>The pages the entry points mark exist; \<^verbatim>\<open>end_page\<close> is the page of the first block after
  the extent.\<close>

definition pages_exist :: "int \<Rightarrow> int \<Rightarrow> vdfs4_fsm_info \<Rightarrow> bool" where
  "pages_exist off n s \<longleftrightarrow> fsm_page_of s (off + n) < page_count s"

lemma fsm_add_chunks_ok:
  "page_count s3 = page_count s \<Longrightarrow> pages_exist off n s \<Longrightarrow>
     fsm_add_chunks p (fsm_page_of s (off + n)) s3
       = Done (s3\<lparr>dirty_pages := dirty_pages s3 @ [p .. fsm_page_of s (off + n)]\<rparr>)"
  unfolding fsm_add_chunks_def by (rule pages_ok) (auto simp: pages_exist_def)

lemma bitmap_inv_move:
  assumes "bitmap_inv s"
    and "bitmap_size_ok s'" "volume_blocks_count s' = volume_blocks_count s"
    and "free_blocks s' \<union> next_blocks s' \<subseteq> fsm_clear s'" "0 \<in> fsm_used s'" "erase_ok s' (fsm_used s')"
    and "length (erase_blocks_counters s') = length (erase_blocks_counters s)"
    and "log_erase_block_size_in_blocks s' = log_erase_block_size_in_blocks s"
    and "int (card (fsm_clear s')) = free_blocks_count s' + reserved_blocks_count s' + next_free_blocks s'"
  shows "bitmap_inv s'"
  using assms by (simp add: bitmap_inv_def erase_range_def)

lemma fsm_used_subset: "fsm_used s \<subseteq> {0 ..< volume_blocks_count s}"
  by (auto simp: fsm_used_def)

lemma fsm_clear_finite [simp]: "finite (fsm_clear s)"
  by (simp add: fsm_clear_def)

lemma get_free_finish_ok:
  assumes ok: "fsm_ok s" and c: "carved off n s s1"
    and enough: "if delayed then n \<le> reserved_blocks_count s else n \<le> free_blocks_count s"
    and pages: "pages_exist off n s"
  shows "\<exists>s'. get_free_finish delayed off n s s1 = Done (off, n, s') \<and> fsm_ok s' \<and>
    allocated_blocks off n s s' \<and>
    free_blocks_count s' + reserved_blocks_count s' = free_blocks_count s + reserved_blocks_count s - n"
proof -
  let ?E = "extent_blocks off n"
  define s2 where "s2 = (if delayed
                then s1\<lparr>reserved_blocks_count := u64 (reserved_blocks_count s1 - n)\<rparr>
                else s1\<lparr>free_blocks_count := u64 (free_blocks_count s1 - n)\<rparr>)"
  note s2 = get_free_counts [OF ok c enough, folded s2_def]
  have bm: "bitmap_inv s" using ok by (simp add: fsm_ok_def)
  have fr: "fsm_data s2 = fsm_data s" "fsm_block_size s2 = fsm_block_size s" "page_count s2 = page_count s"
    "volume_blocks_count s2 = volume_blocks_count s" "erase_blocks_counters s2 = erase_blocks_counters s"
    "log_erase_block_size_in_blocks s2 = log_erase_block_size_in_blocks s"
    "erase_block_size_in_blocks s2 = erase_block_size_in_blocks s" "next_free_blocks s2 = next_free_blocks s"
    using s2(5) by (simp_all add: alloc_frame_def)
  have used: "fsm_used s2 = fsm_used s" "fsm_clear s2 = fsm_clear s"
    by (simp_all add: fsm_used_def fsm_clear_def fr)
  have n: "0 < n" and sub: "?E \<subseteq> fsm_clear s" using c bm by (auto simp: carved_def bitmap_inv_def)
  have off: "0 \<le> off" "off + n \<le> volume_blocks_count s"
  proof -
    have "off \<in> fsm_clear s" "off + n - 1 \<in> fsm_clear s" using sub n by auto
    then show "0 \<le> off" "off + n \<le> volume_blocks_count s" by (auto simp: fsm_clear_def)
  qed
  have vol: "volume_blocks_count s < 4294967296" using bm by (simp add: bitmap_inv_def bitmap_size_ok_def)
  have fits: "\<not> volume_blocks_count s2 < u64 (off + n)" using off n vol by (simp add: fr c_arith)
  have "bitmap_size_ok s2" using bm by (simp add: bitmap_inv_def bitmap_size_ok_def fr)
  from fsm_set_bits_ok [OF this, of off n] sub n off
  obtain d where d: "vdfs4_set_bits (fsm_data s2) (nat (u32 off)) (nat n) FSM_BMP_MAGIC_LEN (fsm_block_size s2) = Some (success, d)"
    "bitmap_size_ok (s2\<lparr>fsm_data := d\<rparr>)" "fsm_used (s2\<lparr>fsm_data := d\<rparr>) = fsm_used s \<union> ?E"
    by (auto simp: used)
  have er: "erase_ok (s2\<lparr>fsm_data := d\<rparr>) (fsm_used s)" "\<forall>b \<in> ?E. erase_range (s2\<lparr>fsm_data := d\<rparr>) b"
    using bm sub by (auto simp: bitmap_inv_def erase_ok_def erase_used_def erase_range_def fr fsm_clear_def)
  have disj: "?E \<inter> fsm_used s = {}" using sub by (auto simp: fsm_clear_def)
  obtain e where e: "fsm_inc_erase_blocks_counters off n (s2\<lparr>fsm_data := d\<rparr>)
      = Done (s2\<lparr>fsm_data := d, erase_blocks_counters := e\<rparr>)" "length e = length (erase_blocks_counters s)"
    "erase_ok (s2\<lparr>fsm_data := d, erase_blocks_counters := e\<rparr>) (fsm_used s \<union> ?E)"
    using fsm_inc_erase_ok [OF er(1) er(2) disj] n by (auto simp: fr)
  define s3 where "s3 = s2\<lparr>fsm_data := d, erase_blocks_counters := e\<rparr>"
  have s3: "fsm_used s3 = fsm_used s \<union> ?E" "fsm_clear s3 = fsm_clear s - ?E" "free_blocks s3 = free_blocks s1"
    "next_blocks s3 = next_blocks s" "fsm_inv s3" "bitmap_size_ok s3"
    "volume_blocks_count s3 = volume_blocks_count s" "next_free_blocks s3 = next_free_blocks s"
    "free_blocks_count s3 + reserved_blocks_count s3 = free_blocks_count s + reserved_blocks_count s - n"
    "erase_ok s3 (fsm_used s3)"
    using d(2,3) s2 c e(3) sub
    by (auto simp: s3_def fsm_used_def fsm_clear_def fr free_blocks_def next_blocks_def carved_def
        fsm_inv_defs bitmap_size_ok_def)
  have "card (fsm_clear s3) + card ?E = card (fsm_clear s)"
    unfolding s3(2) using sub by (metis card_Diff_subset card_mono finite_atLeastLessThan_int fsm_clear_finite le_add_diff_inverse2)
  moreover have "int (card ?E) = n" using n by simp
  moreover have "int (card (fsm_clear s)) = free_blocks_count s + reserved_blocks_count s + next_free_blocks s"
    using bm by (simp add: bitmap_inv_def)
  ultimately have cnt: "int (card (fsm_clear s3)) = free_blocks_count s3 + reserved_blocks_count s3 + next_free_blocks s3"
    using s3(8,9) by linarith
  have "next_blocks s \<inter> ?E = {}" using ok c by (auto simp: fsm_ok_def fsm_inv_def link_part_def carved_def)
  then have "free_blocks s3 \<union> next_blocks s3 \<subseteq> fsm_clear s3"
    unfolding s3(2-4) using bm c by (auto simp: bitmap_inv_def carved_def)
  then have "bitmap_inv s3"
    using bm s3 cnt e(2) by (intro bitmap_inv_move [OF bm]) (auto simp: bitmap_inv_def s3_def fr)
  then have "fsm_ok s3" using s3(5) by (simp add: fsm_ok_def)
  moreover have "get_free_finish delayed off n s s1
      = Done (off, n, s3\<lparr>dirty_pages := dirty_pages s3 @ [fsm_page_of s off .. fsm_page_of s (off + n)]\<rparr>)"
    using fits d(1) e(1) fsm_add_chunks_ok [of s3 s off n] pages
    by (simp add: get_free_finish_def Let_def s2_def [symmetric] s3_def fr)
  ultimately show ?thesis
    using s3 c
    by (auto simp: fsm_ok_frame_pages allocated_blocks_def carved_def fsm_used_def free_blocks_def next_blocks_def)
qed

text \<open>The node that a round picks holds the extent it picks.\<close>

lemma find_SomeD: "find P xs = Some x \<Longrightarrow> P x \<and> x \<in> set xs"
  by (induction xs) (auto split: if_splits)

lemma fsm_choose_node_mem:
  assumes "free_part s" "fsm_choose_node len s = Some a"
  shows "a \<in> set (free_addrs s)"
proof -
  have len: "length (free_list s) = VDFS4_FSM_MAX_ORDER + 1" and A: "set (concat (free_list s)) = set (free_addrs s)"
    using assms(1) by (simp_all add: free_part_def hash_ok_def)
  let ?P = "\<lambda>i. free_list s ! i \<noteq> []"
  obtain i where "find ?P [fsm_order len ..< VDFS4_FSM_MAX_ORDER + 1] = Some i \<or>
      find ?P (rev [0 ..< VDFS4_FSM_MAX_ORDER + 1]) = Some i" and hd: "a = hd (free_list s ! i)"
    using assms(2) unfolding fsm_choose_node_def Let_def by (auto simp del: upt_Suc split: option.splits)
  then have i: "i < VDFS4_FSM_MAX_ORDER + 1" "free_list s ! i \<noteq> []"
    using find_SomeD [of ?P _ i] by (fastforce simp del: upt_Suc)+
  then have "a \<in> set (free_list s ! i)" "free_list s ! i \<in> set (free_list s)" using len hd by auto
  then show ?thesis using A by auto
qed

lemma fsm_pick_ok:
  assumes inv: "free_part s" and p: "fsm_allocate_pick start min_length len s = Some (a, st, n)"
    and len: "0 < len" "0 < min_length"
  shows "a \<in> set (free_addrs s)" "0 < n" "n \<le> len" "extent_blocks st n \<subseteq> nd_blocks (nodes s a)"
    and "min_length \<le> len \<Longrightarrow> min_length \<le> n"
proof -
  have area: "area_ok (nodes s) (free_addrs s)" using inv by (simp add: free_part_def)
  consider (hint) "fsm_find_node (nodes s) start (free_area s) = Some a" "st = start"
      "min_length \<le> fsm_max_length (nodes s a) start" "n = min len (fsm_max_length (nodes s a) start)"
    | (choose) "fsm_choose_node len s = Some a" "st = u32 (nd_start (nodes s a))"
      "min_length \<le> nd_length (nodes s a)" "n = min len (nd_length (nodes s a))"
    using p by (auto simp: fsm_allocate_pick_def Let_def split: option.splits if_splits)
  then have "a \<in> set (free_addrs s) \<and> 0 < n \<and> n \<le> len \<and> extent_blocks st n \<subseteq> nd_blocks (nodes s a) \<and>
      (min_length \<le> len \<longrightarrow> min_length \<le> n)"
  proof cases
    case hint
    have a: "a \<in> set (free_addrs s)" "nd_start (nodes s a) \<le> start" "start < nd_end (nodes s a)"
      using fsm_find_node_Some [OF hint(1)] by auto
    have ok: "node_ok (nodes s a)" using area_node_ok [OF area a(1)] .
    have "fsm_max_length (nodes s a) start = nd_start (nodes s a) + nd_length (nodes s a) - start"
      using a ok by (intro fsm_max_length_ok) (auto simp: c_arith)
    with hint a ok len show ?thesis by (auto simp: c_arith)
  next
    case choose
    have a: "a \<in> set (free_addrs s)" using fsm_choose_node_mem [OF inv choose(1)] .
    have ok: "node_ok (nodes s a)" using area_node_ok [OF area a] .
    then have "u32 (nd_start (nodes s a)) = nd_start (nodes s a)" by (simp add: node_ok_def c_arith)
    with choose a ok len show ?thesis by (auto simp: node_ok_def)
  qed
  then show "a \<in> set (free_addrs s)" "0 < n" "n \<le> len" "extent_blocks st n \<subseteq> nd_blocks (nodes s a)"
    "min_length \<le> len \<Longrightarrow> min_length \<le> n" by blast+
qed

lemma fsm_allocate_space_pick:
  assumes inv: "tree_inv s" and ops: "rb_ops_ok (env_rb env)" and len: "0 < len" "0 < min_length"
    and p: "fsm_allocate_pick start min_length len s = Some (a, st, n)"
  shows "\<exists>s1. fsm_allocate_space env start min_length len s = Done (st, n, s1) \<and> taken st n s s1 \<and>
    0 < n \<and> n \<le> len \<and> (min_length \<le> len \<longrightarrow> min_length \<le> n) \<and> extent_blocks st n \<subseteq> free_blocks s"
proof -
  have "free_part s" using inv by (simp add: tree_inv_def)
  note k = fsm_pick_ok [OF this p len]
  obtain s1 where s1: "fsm_allocate_from_node env a st n s = Done s1" "taken st n s s1"
    using fsm_allocate_from_node_ok [OF inv ops k(1,2,4)] by blast
  have "extent_blocks st n \<subseteq> free_blocks s"
    using k(4) area_blocks_mem [OF k(1)] unfolding free_blocks_def by blast
  then show ?thesis
    using s1 p k(2,3,5) by (simp add: fsm_allocate_space_def Let_def)
qed

lemma fsm_allocate_space_none:
  assumes "fsm_inv s" "fsm_allocate_pick start min_length len s = None" "untracked_blocks s = 0"
  shows "fsm_allocate_space env start min_length len s = Done (0, len, s)"
  using assms by (simp add: fsm_allocate_space_def Let_def fsm_verify_ok)

end
