(* ===== verification/Vdfs_Fsm_Props.thy ===== *)
theory Vdfs_Fsm_Props
  imports Vdfs_Fsm_Alloc
begin

text \<open>
  What the free space manager promises its callers: allocation, freeing, the commit, and the
  tree built at mount. The properties are stated over the entry points of
  \<^verbatim>\<open>linux/fs/vdfs4/fsm.c\<close>.
\<close>

section \<open>Allocation\<close>

lemma find_None: "find P xs = None \<longleftrightarrow> (\<forall>x \<in> set xs. \<not> P x)"
  by (induction xs) auto

lemma fsm_choose_node_None:
  assumes "free_part s" "fsm_choose_node len s = None"
  shows "free_addrs s = []"
proof -
  have len: "length (free_list s) = VDFS4_FSM_MAX_ORDER + 1" and A: "set (concat (free_list s)) = set (free_addrs s)"
    using assms(1) by (simp_all add: free_part_def hash_ok_def)
  have "find (\<lambda>i. free_list s ! i \<noteq> []) (rev [0 ..< VDFS4_FSM_MAX_ORDER + 1]) = None"
    using assms(2) unfolding fsm_choose_node_def Let_def by (auto simp del: upt_Suc split: option.splits)
  then have "\<forall>i < length (free_list s). free_list s ! i = []"
    using len by (auto simp: find_None simp del: upt_Suc)
  then have "concat (free_list s) = []" by (auto simp: in_set_conv_nth)
  with A show ?thesis by simp
qed

lemma fsm_pick_some:
  assumes "free_part s" "free_blocks s \<noteq> {}"
  shows "fsm_allocate_pick start 1 len s \<noteq> None"
proof -
  have "free_addrs s \<noteq> []" using assms(2) by (auto simp: free_blocks_def)
  then obtain a where a: "fsm_choose_node len s = Some a" using fsm_choose_node_None [OF assms(1)] by fastforce
  have "node_ok (nodes s a)"
    using fsm_choose_node_mem [OF assms(1) a] assms(1) area_node_ok by (auto simp: free_part_def)
  with a show ?thesis
    by (auto simp: fsm_allocate_pick_def Let_def node_ok_def split: option.splits if_splits)
qed

lemma fsm_page_mono:
  assumes "0 \<le> a" "a \<le> b" "b < 4294967296"
  shows "fsm_page_of s a \<le> fsm_page_of s b"
proof -
  let ?ds = "int (datablock_size FSM_BMP_MAGIC_LEN (fsm_block_size s))"
  have u: "u64 a = a" "u64 b = b" using assms by (simp_all add: c_arith)
  have d: "a div ?ds \<le> b div ?ds" "0 \<le> a div ?ds" "b div ?ds < 4294967296"
  proof -
    show "0 \<le> a div ?ds" using assms by (simp add: div_int_pos_iff)
    show "a div ?ds \<le> b div ?ds" using assms(2) by (cases "?ds = 0") (auto intro: zdiv_mono1)
    show "b div ?ds < 4294967296"
    proof (cases "?ds = 0")
      case False
      then have "b div ?ds \<le> b" using assms zdiv_mono2 [of b 1 ?ds] by simp
      then show ?thesis using assms by linarith
    qed (use assms in simp)
  qed
  then have "u32 (a div ?ds) = a div ?ds" "u32 (b div ?ds) = b div ?ds" by (simp_all add: c_arith)
  then show ?thesis unfolding fsm_page_of_def u using d by (simp add: zdiv_mono1)
qed

text \<open>The bitmap does not end exactly at the end of its last page.\<close>

definition pages_cover :: "vdfs4_fsm_info \<Rightarrow> bool" where
  "pages_cover s \<longleftrightarrow> fsm_page_of s (volume_blocks_count s) < page_count s"

lemma pages_cover_exist:
  assumes "pages_cover s" "0 \<le> off" "0 \<le> n" "off + n \<le> volume_blocks_count s" "volume_blocks_count s < 4294967296"
  shows "pages_exist off n s"
  using fsm_page_mono [of "off + n" "volume_blocks_count s" s] assms by (simp add: pages_cover_def pages_exist_def)

lemma fsm_clear_bounds:
  assumes "fsm_ok s" "extent_blocks off n \<subseteq> free_blocks s" "0 < n"
  shows "0 < off" "off + n \<le> volume_blocks_count s" "volume_blocks_count s < 4294967296"
proof -
  have "off \<in> extent_blocks off n" "off + n - 1 \<in> extent_blocks off n" using assms(3) by auto
  moreover have "extent_blocks off n \<subseteq> fsm_clear s" "0 \<notin> fsm_clear s"
    using assms(1,2) unfolding fsm_ok_def bitmap_inv_def by (blast, simp add: fsm_clear_def)
  ultimately have "off \<in> fsm_clear s" "off + n - 1 \<in> fsm_clear s" "0 \<notin> fsm_clear s" by blast+
  then show "0 < off" "off + n \<le> volume_blocks_count s" by (auto simp: fsm_clear_def order_le_less)
  show "volume_blocks_count s < 4294967296" using assms(1) by (simp add: fsm_ok_def bitmap_inv_def bitmap_size_ok_def)
qed

text \<open>The branch without alignment: an extent is cut out of the tree, then counted and marked.\<close>

lemma get_free_block_run:
  assumes ok: "fsm_ok s" and ops: "rb_ops_ok (env_rb env)" and len: "0 < len"
    and flags: "\<not> flag_set flags VDFS4_FSM_ALLOC_ALIGNED" and free: "free_blocks s \<noteq> {}"
    and enough: "if flag_set flags VDFS4_FSM_ALLOC_DELAYED then len \<le> reserved_blocks_count s
                 else len \<le> free_blocks_count s"
  shows "\<exists>off n s1. vdfs4_fsm_get_free_block env hint len min_blk flags s =
             get_free_finish (flag_set flags VDFS4_FSM_ALLOC_DELAYED) off n s s1 \<and> taken off n s s1 \<and>
           0 < n \<and> n \<le> len \<and> extent_blocks off n \<subseteq> free_blocks s"
proof -
  have tree: "tree_inv s" "free_part s" using ok by (simp_all add: fsm_ok_def fsm_inv_def tree_inv_def)
  let ?h = "u32 (if volume_blocks_count s \<le> u64 (hint + len) then 0 else hint)"
  obtain a st n where p: "fsm_allocate_pick ?h 1 len s = Some (a, st, n)"
    using fsm_pick_some [OF tree(2) free, of ?h len] by (metis not_None_eq prod_cases3)
  obtain s1 where s1: "fsm_allocate_space env ?h 1 len s = Done (st, n, s1)" "taken st n s s1" "0 < n" "n \<le> len"
    "extent_blocks st n \<subseteq> free_blocks s"
    using fsm_allocate_space_pick [OF tree(1) ops len zero_less_one p] by blast
  have ng: "\<not> (free_blocks_count s < len \<and> \<not> flag_set flags VDFS4_FSM_ALLOC_DELAYED)" using enough by (auto split: if_splits)
  have "vdfs4_fsm_get_free_block env hint len min_blk flags s = get_free_finish (flag_set flags VDFS4_FSM_ALLOC_DELAYED) st n s s1"
    unfolding vdfs4_fsm_get_free_block_def get_free_finish_def Let_def if_not_P [OF ng]
    using s1(1) flags fsm_clear_bounds(1) [OF ok s1(5,3)] by simp
  with s1 show ?thesis by blast
qed

lemma get_free_block_plain:
  assumes ok: "fsm_ok s" and ops: "rb_ops_ok (env_rb env)" and len: "0 < len"
    and flags: "\<not> flag_set flags VDFS4_FSM_ALLOC_ALIGNED" and free: "free_blocks s \<noteq> {}"
    and enough: "if flag_set flags VDFS4_FSM_ALLOC_DELAYED then len \<le> reserved_blocks_count s
                 else len \<le> free_blocks_count s"
    and pages: "pages_cover s"
  shows "\<exists>off n s'. vdfs4_fsm_get_free_block env hint len min_blk flags s = Done (off, n, s') \<and>
           off \<noteq> 0 \<and> 0 < n \<and> n \<le> len \<and> fsm_ok s' \<and> allocated_blocks off n s s' \<and>
           free_blocks_count s' + reserved_blocks_count s' = free_blocks_count s + reserved_blocks_count s - n"
proof -
  let ?del = "flag_set flags VDFS4_FSM_ALLOC_DELAYED"
  obtain st n s1 where s1: "vdfs4_fsm_get_free_block env hint len min_blk flags s = get_free_finish ?del st n s s1" "taken st n s s1"
      "0 < n" "n \<le> len" "extent_blocks st n \<subseteq> free_blocks s"
    using get_free_block_run [OF ok ops len flags free enough] by blast
  note b = fsm_clear_bounds [OF ok s1(5,3)]
  have en: "if ?del then n \<le> reserved_blocks_count s else n \<le> free_blocks_count s"
    using enough s1(4) by (auto split: if_splits)
  have pg: "pages_exist st n s" using pages_cover_exist [OF pages _ _ b(2,3)] b(1) s1(3) by simp
  obtain s' where s': "get_free_finish ?del st n s s1 = Done (st, n, s')" "fsm_ok s'" "allocated_blocks st n s s'"
    "free_blocks_count s' + reserved_blocks_count s' = free_blocks_count s + reserved_blocks_count s - n"
    using get_free_finish_ok [OF ok taken_carved [OF s1(2,3,5)] en pg] by blast
  with s1 b show ?thesis by auto
qed

section \<open>Freeing\<close>

lemma fsm_ok_clear_total: "fsm_ok s \<Longrightarrow> U \<subseteq> fsm_used s \<Longrightarrow> int (card (fsm_clear s)) + int (card U) \<le> volume_blocks_count s"
proof -
  assume ok: "fsm_ok s" and U: "U \<subseteq> fsm_used s"
  have vol: "0 \<le> volume_blocks_count s" using ok by (simp add: fsm_ok_def bitmap_inv_def bitmap_size_ok_def)
  have sub: "fsm_clear s \<union> U \<subseteq> {0 ..< volume_blocks_count s}" "fsm_clear s \<inter> U = {}"
    using U fsm_used_subset by (auto simp: fsm_clear_def)
  then have fin: "finite U" by (meson Un_subset_iff finite_atLeastLessThan_int finite_subset)
  have "card (fsm_clear s) + card U = card (fsm_clear s \<union> U)"
    using sub(2) fin by (simp add: card_Un_disjoint)
  also have "\<dots> \<le> card {0 ..< volume_blocks_count s}" by (rule card_mono [OF _ sub(1)]) simp
  finally show ?thesis using vol by simp
qed

text \<open>From the state with the bits cleared and the tree and the counters updated to the end.\<close>

lemma put_free_finish:
  assumes ok: "fsm_ok s" and n: "0 < n" "0 < off" and sub: "extent_blocks off n \<subseteq> fsm_used s" and pages: "pages_cover s"
    and inv: "fsm_inv s3" and bits: "bitmap_size_ok s3" "fsm_used s3 = fsm_used s - extent_blocks off n"
    and frame: "volume_blocks_count s3 = volume_blocks_count s" "page_count s3 = page_count s"
      "erase_blocks_counters s3 = erase_blocks_counters s"
      "log_erase_block_size_in_blocks s3 = log_erase_block_size_in_blocks s"
      "erase_block_size_in_blocks s3 = erase_block_size_in_blocks s"
    and blk: "free_blocks s3 \<union> next_blocks s3 \<subseteq> fsm_clear s \<union> extent_blocks off n"
    and cnt: "free_blocks_count s3 + reserved_blocks_count s3 + next_free_blocks s3
      = free_blocks_count s + reserved_blocks_count s + next_free_blocks s + n"
  shows "\<exists>e ps. bind_outcome (fsm_dec_erase_blocks_counters off n s3)
      (fsm_add_chunks (fsm_page_of s off) (fsm_page_of s (off + n)))
      = Done (s3\<lparr>erase_blocks_counters := e, dirty_pages := ps\<rparr>) \<and>
    fsm_ok (s3\<lparr>erase_blocks_counters := e, dirty_pages := ps\<rparr>)"
proof -
  let ?E = "extent_blocks off n"
  have bm: "bitmap_inv s" using ok by (simp add: fsm_ok_def)
  have "off + n - 1 \<in> ?E" using n by auto
  then have "off + n - 1 \<in> fsm_used s" using sub by blast
  then have vol: "0 < off" "off + n \<le> volume_blocks_count s" using n by (simp_all add: fsm_used_def)
  have vol3: "volume_blocks_count s < 4294967296" using bm by (simp add: bitmap_inv_def bitmap_size_ok_def)
  have er: "erase_ok s3 (fsm_used s)" "\<forall>b \<in> ?E. erase_range s3 b"
    using bm sub fsm_used_subset [of s]
    by (auto simp: bitmap_inv_def erase_ok_def erase_used_def erase_range_def frame)
  obtain e where e: "fsm_dec_erase_blocks_counters off n s3 = Done (s3\<lparr>erase_blocks_counters := e\<rparr>)"
    "length e = length (erase_blocks_counters s)" "erase_ok (s3\<lparr>erase_blocks_counters := e\<rparr>) (fsm_used s - ?E)"
    using fsm_dec_erase_ok [OF er sub] n frame by auto
  let ?s4 = "s3\<lparr>erase_blocks_counters := e\<rparr>"
  have same: "fsm_used ?s4 = fsm_used s - ?E" "free_blocks ?s4 = free_blocks s3" "next_blocks ?s4 = next_blocks s3"
    "bitmap_size_ok ?s4" "fsm_inv ?s4"
    using bits inv by (simp_all add: fsm_used_def free_blocks_def next_blocks_def bitmap_size_ok_def fsm_inv_defs)
  have clear: "fsm_clear ?s4 = fsm_clear s \<union> ?E"
    using sub fsm_used_subset [of s] by (auto simp: fsm_clear_def same frame)
  have "fsm_clear s \<inter> ?E = {}" using sub by (auto simp: fsm_clear_def)
  then have "int (card (fsm_clear ?s4)) = int (card (fsm_clear s)) + n"
    unfolding clear using n by (simp add: card_Un_disjoint)
  then have "int (card (fsm_clear ?s4)) = free_blocks_count ?s4 + reserved_blocks_count ?s4 + next_free_blocks ?s4"
    using bm cnt by (simp add: bitmap_inv_def)
  then have "bitmap_inv ?s4"
    using bm same e clear blk vol(1) n frame
    by (intro bitmap_inv_move [OF bm]) (auto simp: bitmap_inv_def)
  moreover have "fsm_add_chunks (fsm_page_of s off) (fsm_page_of s (off + n)) ?s4
      = Done (?s4\<lparr>dirty_pages := dirty_pages ?s4 @ [fsm_page_of s off .. fsm_page_of s (off + n)]\<rparr>)"
    using pages_cover_exist [OF pages _ _ vol(2) vol3] vol(1) n frame by (intro fsm_add_chunks_ok) auto
  ultimately show ?thesis
    using e(1) same(5) fsm_ok_frame_pages [where s = ?s4] by (auto simp: fsm_ok_def simp del: fun_upd_apply)
qed

lemma put_free_start:
  assumes ok: "fsm_ok s" and n: "0 < n" and sub: "extent_blocks off n \<subseteq> fsm_used s"
  shows "\<not> volume_blocks_count s < u64 (off + n)" "0 \<le> off" "extent_ok off n"
    and "\<exists>d. vdfs4_clear_bits (fsm_data s) (nat (u32 off)) (nat n) FSM_BMP_MAGIC_LEN (fsm_block_size s) = Some (success, d) \<and>
      bitmap_size_ok (s\<lparr>fsm_data := d\<rparr>) \<and> fsm_used (s\<lparr>fsm_data := d\<rparr>) = fsm_used s - extent_blocks off n"
proof -
  have size: "bitmap_size_ok s" using ok by (simp add: fsm_ok_def bitmap_inv_def)
  have "off \<in> extent_blocks off n" "off + n - 1 \<in> extent_blocks off n" using n by auto
  then have "off \<in> fsm_used s" "off + n - 1 \<in> fsm_used s" using sub by blast+
  then have b: "0 \<le> off" "off + n \<le> volume_blocks_count s" "volume_blocks_count s < 4294967296"
    using size by (auto simp: fsm_used_def bitmap_size_ok_def)
  then show "0 \<le> off" "\<not> volume_blocks_count s < u64 (off + n)" "extent_ok off n"
    using n by (auto simp: c_arith extent_ok_def)
  show "\<exists>d. vdfs4_clear_bits (fsm_data s) (nat (u32 off)) (nat n) FSM_BMP_MAGIC_LEN (fsm_block_size s) = Some (success, d) \<and>
      bitmap_size_ok (s\<lparr>fsm_data := d\<rparr>) \<and> fsm_used (s\<lparr>fsm_data := d\<rparr>) = fsm_used s - extent_blocks off n"
    by (rule fsm_clear_bits_ok [OF size sub n b(1)])
qed

lemma fsm_inv_data: "fsm_inv (s\<lparr>fsm_data := d\<rparr>) = fsm_inv s"
  by (simp add: fsm_inv_defs free_blocks_def next_blocks_def)

lemma put_free_committed:
  assumes ok: "fsm_ok s" and ops: "rb_ops_ok (env_rb env)" and n: "0 < n" "0 < off"
    and sub: "extent_blocks off n \<subseteq> fsm_used s" and pages: "pages_cover s"
    and flags: "\<not> flag_set flags VDFS4_FSM_FREE_RESERVE" "\<not> flag_set flags VDFS4_FSM_FREE_UNUSED"
  shows "\<exists>s'. vdfs4_fsm_put_free_block env off n flags s = Done s' \<and> fsm_ok s' \<and>
    fsm_used s' = fsm_used s - extent_blocks off n \<and> free_blocks s' = free_blocks s \<and>
    free_blocks_count s' = free_blocks_count s \<and> reserved_blocks_count s' = reserved_blocks_count s \<and>
    next_free_blocks s' = next_free_blocks s + n"
proof -
  note st = put_free_start [OF ok n(1) sub]
  obtain d where d: "vdfs4_clear_bits (fsm_data s) (nat (u32 off)) (nat n) FSM_BMP_MAGIC_LEN (fsm_block_size s) = Some (success, d)"
    "bitmap_size_ok (s\<lparr>fsm_data := d\<rparr>)" "fsm_used (s\<lparr>fsm_data := d\<rparr>) = fsm_used s - extent_blocks off n"
    using st(4) by blast
  let ?s1 = "s\<lparr>fsm_data := d\<rparr>"
  let ?s3 = "fsm_add_free_space env off n ?s1"
  have bm: "bitmap_inv s" and inv1: "fsm_inv ?s1" using ok by (simp_all add: fsm_ok_def fsm_inv_data)
  have blk1: "free_blocks ?s1 = free_blocks s" "next_blocks ?s1 = next_blocks s"
    by (simp_all add: free_blocks_def next_blocks_def)
  have "free_blocks_count s + reserved_blocks_count s + next_free_blocks s + n < 4294967296"
  proof -
    have "int (card (fsm_clear s)) + int (card (extent_blocks off n)) \<le> volume_blocks_count s"
      by (rule fsm_ok_clear_total [OF ok sub])
    then show ?thesis using bm n by (auto simp: bitmap_inv_def bitmap_size_ok_def)
  qed
  then have add: "addable off n ?s1"
    using st(3) sub bm by (auto simp: addable_def blk1 bitmap_inv_def fsm_clear_def)
  note a = fsm_add_free_space_ok [OF inv1 ops add]
  then have f3: "free_blocks ?s3 = free_blocks s" "fsm_data ?s3 = d" "volume_blocks_count ?s3 = volume_blocks_count s"
    "fsm_block_size ?s3 = fsm_block_size s" "page_count ?s3 = page_count s"
    "erase_blocks_counters ?s3 = erase_blocks_counters s"
    "log_erase_block_size_in_blocks ?s3 = log_erase_block_size_in_blocks s"
    "erase_block_size_in_blocks ?s3 = erase_block_size_in_blocks s"
    "free_blocks_count ?s3 = free_blocks_count s" "reserved_blocks_count ?s3 = reserved_blocks_count s"
    "next_free_blocks ?s3 = next_free_blocks s + n" "next_blocks ?s3 \<subseteq> next_blocks s \<union> extent_blocks off n"
    using blk1 by (auto simp: added_def)
  have bits: "bitmap_size_ok ?s3" "fsm_used ?s3 = fsm_used s - extent_blocks off n"
    using d(2,3) by (simp_all add: bitmap_size_ok_def fsm_used_def f3)
  have "free_blocks ?s3 \<union> next_blocks ?s3 \<subseteq> fsm_clear s \<union> extent_blocks off n"
    using f3(1,12) bm unfolding bitmap_inv_def by blast
  from put_free_finish [OF ok n sub pages conjunct1 [OF a] bits f3(3,5,6,7,8) this]
  obtain e ps where e: "bind_outcome (fsm_dec_erase_blocks_counters off n ?s3)
      (fsm_add_chunks (fsm_page_of s off) (fsm_page_of s (off + n))) = Done (?s3\<lparr>erase_blocks_counters := e, dirty_pages := ps\<rparr>)"
    "fsm_ok (?s3\<lparr>erase_blocks_counters := e, dirty_pages := ps\<rparr>)"
    using f3(9-11) by auto
  have "vdfs4_fsm_put_free_block env off n flags s = Done (?s3\<lparr>erase_blocks_counters := e, dirty_pages := ps\<rparr>)"
    using st(1) d(1) e(1) flags
    by (simp add: vdfs4_fsm_put_free_block_def fsm_free_block_chunk_def Let_def)
  then show ?thesis
    using e(2) f3 bits(2) by (simp add: fsm_used_def free_blocks_def)
qed

lemma put_free_unused:
  assumes ok: "fsm_ok s" and n: "0 < n" "0 < off"
    and sub: "extent_blocks off n \<subseteq> fsm_used s" and pages: "pages_cover s"
    and flags: "flag_set flags VDFS4_FSM_FREE_UNUSED"
  shows "\<exists>s'. vdfs4_fsm_put_free_block env off n flags s = Done s' \<and> fsm_ok s' \<and>
    fsm_used s' = fsm_used s - extent_blocks off n \<and> free_blocks s' = free_blocks s \<and> next_blocks s' = next_blocks s \<and>
    next_free_blocks s' = next_free_blocks s \<and>
    (if flag_set flags VDFS4_FSM_FREE_RESERVE
     then reserved_blocks_count s' = reserved_blocks_count s + n \<and> free_blocks_count s' = free_blocks_count s
     else free_blocks_count s' = free_blocks_count s + n \<and> reserved_blocks_count s' = reserved_blocks_count s)"
proof -
  let ?R = "flag_set flags VDFS4_FSM_FREE_RESERVE"
  note st = put_free_start [OF ok n(1) sub]
  obtain d where d: "vdfs4_clear_bits (fsm_data s) (nat (u32 off)) (nat n) FSM_BMP_MAGIC_LEN (fsm_block_size s) = Some (success, d)"
    "bitmap_size_ok (s\<lparr>fsm_data := d\<rparr>)" "fsm_used (s\<lparr>fsm_data := d\<rparr>) = fsm_used s - extent_blocks off n"
    using st(4) by blast
  have bm: "bitmap_inv s" and inv: "fsm_inv s" using ok by (simp_all add: fsm_ok_def)
  have lim: "free_blocks_count s + reserved_blocks_count s + next_free_blocks s + n < 4294967296"
    using fsm_ok_clear_total [OF ok sub] bm n by (auto simp: bitmap_inv_def bitmap_size_ok_def)
  have u: "u64 (reserved_blocks_count s + n) = reserved_blocks_count s + n" "u64 (free_blocks_count s + n) = free_blocks_count s + n"
    using lim count_bounds [OF inv] inv n by (auto simp: c_arith fsm_inv_defs)
  define s3 where "s3 = (if ?R then s\<lparr>fsm_data := d, reserved_blocks_count := reserved_blocks_count s + n,
      untracked_blocks := untracked_blocks s + n\<rparr>
    else s\<lparr>fsm_data := d, free_blocks_count := free_blocks_count s + n, untracked_blocks := untracked_blocks s + n\<rparr>)"
  have f3: "free_blocks s3 = free_blocks s" "next_blocks s3 = next_blocks s" "fsm_used s3 = fsm_used s - extent_blocks off n"
    "bitmap_size_ok s3"
    using d(2,3) by (simp_all add: s3_def free_blocks_def next_blocks_def fsm_used_def bitmap_size_ok_def)
  have inv3: "fsm_inv s3"
    using inv lim n count_bounds [OF inv] unfolding s3_def by (auto simp: fsm_inv_defs free_blocks_def next_blocks_def)
  have "free_blocks s3 \<union> next_blocks s3 \<subseteq> fsm_clear s \<union> extent_blocks off n"
    using f3(1,2) bm unfolding bitmap_inv_def by blast
  moreover have "volume_blocks_count s3 = volume_blocks_count s" "page_count s3 = page_count s"
    "erase_blocks_counters s3 = erase_blocks_counters s"
    "log_erase_block_size_in_blocks s3 = log_erase_block_size_in_blocks s"
    "erase_block_size_in_blocks s3 = erase_block_size_in_blocks s"
    "free_blocks_count s3 + reserved_blocks_count s3 + next_free_blocks s3
      = free_blocks_count s + reserved_blocks_count s + next_free_blocks s + n"
    by (simp_all add: s3_def)
  ultimately
  obtain e ps where e: "bind_outcome (fsm_dec_erase_blocks_counters off n s3)
      (fsm_add_chunks (fsm_page_of s off) (fsm_page_of s (off + n))) = Done (s3\<lparr>erase_blocks_counters := e, dirty_pages := ps\<rparr>)"
    "fsm_ok (s3\<lparr>erase_blocks_counters := e, dirty_pages := ps\<rparr>)"
    using put_free_finish [OF ok n sub pages inv3 f3(4,3)] by blast
  have "vdfs4_fsm_put_free_block env off n flags s = Done (s3\<lparr>erase_blocks_counters := e, dirty_pages := ps\<rparr>)"
    using st(1) d(1) e(1) flags u
    by (cases ?R) (simp_all add: vdfs4_fsm_put_free_block_def fsm_free_block_chunk_def Let_def s3_def)
  then show ?thesis
    using e(2) f3 by (auto simp: fsm_used_def free_blocks_def next_blocks_def s3_def)
qed

section \<open>The commit\<close>

lemma commit_ok:
  assumes ok: "fsm_ok s" and ops: "rb_ops_ok (env_rb env)"
  shows "\<exists>s'. fsm_commit_free_space env s = Done s' \<and> fsm_ok s' \<and> fsm_used s' = fsm_used s \<and>
    free_blocks_count s' = free_blocks_count s + next_free_blocks s \<and>
    reserved_blocks_count s' = reserved_blocks_count s \<and>
    next_free_blocks s' = 0 \<and> next_blocks s' = {} \<and> free_blocks s \<subseteq> free_blocks s' \<and>
    free_blocks s' \<subseteq> free_blocks s \<union> next_blocks s \<and>
    (int (length (free_addrs s) + length (next_addrs s)) \<le> VDFS4_FSM_MAX_FREE_NODES \<longrightarrow>
       free_blocks s' = free_blocks s \<union> next_blocks s)"
proof -
  have bm: "bitmap_inv s" and inv: "fsm_inv s" using ok by (simp_all add: fsm_ok_def)
  obtain s' where s': "fsm_commit_free_space env s = Done s'" "fsm_inv s'"
    "free_blocks_count s' = free_blocks_count s + next_free_blocks s"
    "reserved_blocks_count s' = reserved_blocks_count s"
    "next_free_blocks s' = 0" "next_blocks s' = {}" "commit_frame s s'"
    "free_blocks s \<subseteq> free_blocks s'" "free_blocks s' \<subseteq> free_blocks s \<union> next_blocks s"
    "int (length (free_addrs s) + length (next_addrs s)) \<le> VDFS4_FSM_MAX_FREE_NODES \<longrightarrow>
       free_blocks s' = free_blocks s \<union> next_blocks s"
    using fsm_commit_free_space_ok [OF inv ops] by blast
  have used: "fsm_used s' = fsm_used s" "fsm_clear s' = fsm_clear s"
    using s'(7) by (simp_all add: fsm_used_def fsm_clear_def commit_frame_def)
  have "bitmap_inv s'"
    using bm s' used by (auto simp: bitmap_inv_def commit_frame_def bitmap_size_ok_def erase_ok_def erase_used_def erase_range_def)
  with s' used show ?thesis by (auto simp: fsm_ok_def)
qed

section \<open>Aligned allocation\<close>









section \<open>A small volume\<close>

text \<open>
  A volume of 7 blocks with one bitmap block, to show that the hypotheses of the properties can
  hold: blocks 0 and 1 are allocated in \<open>demo_fsm\<close>, block 1 waits for the commit in \<open>demo_next\<close>.
  The tree operations are those of an unbalanced tree.
\<close>

fun join_plain :: "rb_tree \<Rightarrow> rb_tree \<Rightarrow> rb_tree" where
  "join_plain Leaf r = r"
| "join_plain (Node l x m) r = Node l x (join_plain m r)"

fun plain_erase :: "nat \<Rightarrow> rb_tree \<Rightarrow> rb_tree" where
  "plain_erase a Leaf = Leaf"
| "plain_erase a (Node l x r) =
     (if fst x = a then join_plain l r
      else if a \<in> set (addrs l) then Node (plain_erase a l) x r else Node l x (plain_erase a r))"

definition plain_ops :: rb_ops where
  "plain_ops = \<lparr>rb_insert_color = (\<lambda>a t. t), rb_erase = plain_erase\<rparr>"

definition plain_env :: fsm_env where
  "plain_env = \<lparr>env_rb = plain_ops, env_mem = (\<lambda>n. True), env_debug = True\<rparr>"

lemma addrs_join_plain [simp]: "addrs (join_plain l r) = addrs l @ addrs r"
  by (induction l) auto

lemma addrs_plain_erase: "distinct (addrs t) \<Longrightarrow> addrs (plain_erase a t) = remove1 a (addrs t)"
  by (induction t) (auto simp: remove1_append remove1_idem)

lemma plain_ops_ok: "rb_ops_ok (env_rb plain_env)"
  by (simp add: rb_ops_ok_def plain_env_def plain_ops_def addrs_plain_erase)

definition demo_fsm :: vdfs4_fsm_info where
  "demo_fsm = \<lparr>nodes = (\<lambda>a. \<lparr>nd_start = 2, nd_length = 5\<rparr>), slab_next = 1,
     free_area = Node Leaf (0, True) Leaf, free_list = [[], [], [0]] @ replicate 14 [], free_area_nodes = 1,
     next_free_area = Leaf, next_free_list = [], next_free_nodes = 0, next_free_blocks = 0,
     untracked_blocks = 0, untracked_next_free = 0, free_blocks_count = 3, reserved_blocks_count = 2,
     volume_blocks_count = 7, sb_rdonly = False,
     fsm_data = replicate 96 False @ [True, True] @ replicate 38 False, fsm_block_size = 17,
     erase_blocks_counters = [2], log_erase_block_size_in_blocks = 3, erase_block_size_in_blocks = 8,
     dirty_pages = [], page_count = 1, log_super_page_size = 12, log_block_size = 12, block_size_shift = 12,
     mount_finished = True\<rparr>"

definition demo_next :: vdfs4_fsm_info where
  "demo_next = demo_fsm\<lparr>nodes := (nodes demo_fsm)(1 := \<lparr>nd_start = 1, nd_length = 1\<rparr>), slab_next := 2,
     next_free_area := Node Leaf (1, True) Leaf, next_free_list := [1], next_free_nodes := 1, next_free_blocks := 1,
     fsm_data := replicate 96 False @ [True] @ replicate 39 False, erase_blocks_counters := [1]\<rparr>"

lemma demo_sets: "free_blocks demo_fsm = {2 ..< 7}" "next_blocks demo_fsm = {}" "fsm_used demo_fsm = {0 ..< 2}"
  "free_blocks demo_next = {2 ..< 7}" "next_blocks demo_next = {1 ..< 2}" "fsm_used demo_next = {0 ..< 1}"
proof -
  show "free_blocks demo_fsm = {2 ..< 7}" "next_blocks demo_fsm = {}" "free_blocks demo_next = {2 ..< 7}"
    "next_blocks demo_next = {1 ..< 2}"
    by (simp_all add: free_blocks_def next_blocks_def demo_fsm_def demo_next_def)
  have p: "bit_place 12 17 (nat b) = 96 + nat b" if "0 \<le> b" "b < 7" for b
    using that by (simp add: bit_place_def datablock_size_def CRC32_SIZE_def)
  have "b \<in> fsm_used demo_fsm \<longleftrightarrow> b \<in> {0 ..< 2}" for b
    using p [of b] by (auto simp: fsm_used_def demo_fsm_def bitmap_bit_def FSM_BMP_MAGIC_LEN_def nth_append nth_Cons split: nat.splits)
  then show "fsm_used demo_fsm = {0 ..< 2}" by blast
  have "b \<in> fsm_used demo_next \<longleftrightarrow> b \<in> {0 ..< 1}" for b
    using p [of b]
    by (auto simp: fsm_used_def demo_next_def demo_fsm_def bitmap_bit_def FSM_BMP_MAGIC_LEN_def nth_append nth_Cons split: nat.splits)
  then show "fsm_used demo_next = {0 ..< 1}" by blast
qed

lemma demo_fls [simp]: "fls_bit 5 = 2"
  by (simp add: fls_bit.simps)

lemma demo_hash:
  assumes "nd_length (nd 0) = 5"
  shows "hash_ok nd ([[], [], [0]] @ replicate 14 []) {0}"
proof -
  have "hash_ok nd (replicate 17 []) {}" by (simp add: hash_ok_def VDFS4_FSM_MAX_ORDER_def)
  from hash_ok_add [OF this, of 0] assms
  have "hash_ok nd ((replicate 17 [])[2 := [0]]) {0}" by (simp add: fsm_order_def VDFS4_FSM_MAX_ORDER_def)
  moreover have "(replicate 17 [])[2 := [0]] = [[], [], [0::nat]] @ replicate 14 []" by code_simp
  ultimately show ?thesis by simp
qed

lemma demo_inv: "fsm_inv demo_fsm" "fsm_inv demo_next"
proof -
  have "free_part demo_fsm" "free_part demo_next"
    using demo_hash [of "nodes demo_fsm"] demo_hash [of "nodes demo_next"]
    by (simp_all add: free_part_def demo_fsm_def demo_next_def node_ok_def)
  moreover have "next_part demo_fsm" "next_part demo_next" "count_part demo_fsm" "count_part demo_next"
    by (simp_all add: next_part_def count_part_def demo_fsm_def demo_next_def node_ok_def)
  moreover have "link_part demo_fsm" "link_part demo_next"
    unfolding link_part_def demo_sets by (simp_all add: demo_fsm_def demo_next_def)
  ultimately show "fsm_inv demo_fsm" "fsm_inv demo_next" by (simp_all add: fsm_inv_def)
qed

lemma demo_used: "erase_used s U 0 = {b \<in> U. b div 8 = 0}" if "log_erase_block_size_in_blocks s = 3"
  by (simp add: erase_used_def that)

lemma demo_ok: "fsm_ok demo_fsm" "fsm_ok demo_next"
proof -
  have size: "bitmap_size_ok demo_fsm" "bitmap_size_ok demo_next"
    by (auto simp: bitmap_size_ok_def bitmap_buffer_def geom_ok_def demo_fsm_def demo_next_def datablock_size_def
        CRC32_SIZE_def FSM_BMP_MAGIC_LEN_def intro!: exI [of _ 1])
  have sets: "{b. 0 \<le> b \<and> b < 2 \<and> b div 8 = 0} = {0, 1::int}" "{b. 0 \<le> b \<and> b < 1 \<and> b div 8 = 0} = {0::int}"
    by auto
  have er: "erase_ok demo_fsm {0 ..< 2}" "erase_ok demo_next {0 ..< 1}"
    by (auto simp: erase_ok_def demo_used sets demo_fsm_def demo_next_def VDFS4_DELAYED_DISCARD_MAGIC_def)
  have "bitmap_inv demo_fsm" "bitmap_inv demo_next"
    using size er unfolding bitmap_inv_def demo_sets fsm_clear_def
    by (auto simp: demo_fsm_def demo_next_def erase_range_def)
  then show "fsm_ok demo_fsm" "fsm_ok demo_next" using demo_inv by (simp_all add: fsm_ok_def)
qed

lemma demo_pages: "pages_cover demo_fsm"
  by (simp add: pages_cover_def fsm_page_of_def demo_fsm_def datablock_size_def CRC32_SIZE_def FSM_BMP_MAGIC_LEN_def
      PAGE_SHIFT_def u32_def u64_def)

section \<open>The end of the volume\<close>

lemma for_each_undef:
  assumes "x \<in> set xs" "page_count s \<le> x"
  shows "for_each fsm_add_chunk xs s = Undef"
  using assms
proof (induction xs arbitrary: s)
  case (Cons y ys)
  then show ?case by (cases "page_count s \<le> y") (auto simp: fsm_add_chunk_def)
qed simp

lemma put_free_page_overrun:
  assumes ok: "fsm_ok s" and n: "0 < n" and sub: "extent_blocks off n \<subseteq> fsm_used s"
    and flags: "flag_set flags VDFS4_FSM_FREE_UNUSED" and over: "page_count s \<le> fsm_page_of s (off + n)"
    and page: "fsm_page_of s off \<le> fsm_page_of s (off + n)"
  shows "vdfs4_fsm_put_free_block env off n flags s = Undef"
proof -
  note st = put_free_start [OF ok n sub]
  obtain d where d: "vdfs4_clear_bits (fsm_data s) (nat (u32 off)) (nat n) FSM_BMP_MAGIC_LEN (fsm_block_size s) = Some (success, d)"
    using st(4) by blast
  have bm: "bitmap_inv s" using ok by (simp add: fsm_ok_def)
  have undef: "bind_outcome (fsm_dec_erase_blocks_counters off n s3)
      (fsm_add_chunks (fsm_page_of s off) (fsm_page_of s (off + n))) = Undef"
    if f: "page_count s3 = page_count s" "erase_blocks_counters s3 = erase_blocks_counters s"
      "log_erase_block_size_in_blocks s3 = log_erase_block_size_in_blocks s"
      "erase_block_size_in_blocks s3 = erase_block_size_in_blocks s" for s3
  proof -
    have "erase_ok s3 (fsm_used s)" "\<forall>b \<in> extent_blocks off n. erase_range s3 b"
      using bm sub fsm_used_subset [of s]
      by (auto simp: bitmap_inv_def erase_ok_def erase_used_def erase_range_def f)
    from fsm_dec_erase_ok [OF this sub] n obtain e where
      "fsm_dec_erase_blocks_counters off n s3 = Done (s3\<lparr>erase_blocks_counters := e\<rparr>)" by auto
    moreover have "fsm_add_chunks (fsm_page_of s off) (fsm_page_of s (off + n)) (s3\<lparr>erase_blocks_counters := e\<rparr>) = Undef"
      unfolding fsm_add_chunks_def using over page f(1)
      by (intro for_each_undef [of "fsm_page_of s (off + n)"]) auto
    ultimately show ?thesis by simp
  qed
  show ?thesis
    using st(1) d flags
    by (cases "flag_set flags VDFS4_FSM_FREE_RESERVE")
      (simp_all add: vdfs4_fsm_put_free_block_def fsm_free_block_chunk_def Let_def undef)
qed

section \<open>Properties\<close>

text \<open>
  C4. Allocation never hands out a block twice. In a consistent state with a free extent, a request
  that the counters cover succeeds: \<^verbatim>\<open>vdfs4_fsm_get_free_block\<close> returns a start other than 0
  and a length of at most the wish, the extent was free in tree and bitmap, exactly its bits are set
  now, it has left the tree, the right counter has shrunk by its length, and the state is consistent
  again. No assertion stops the kernel and no access leaves the bitmap.
\<close>

theorem get_free_block_correct:
  assumes "fsm_ok s" "rb_ops_ok (env_rb env)" "0 < len"
    and "\<not> flag_set flags VDFS4_FSM_ALLOC_ALIGNED" "free_blocks s \<noteq> {}"
    and "if flag_set flags VDFS4_FSM_ALLOC_DELAYED then len \<le> reserved_blocks_count s
         else len \<le> free_blocks_count s"
    and "pages_cover s"
  shows "\<exists>off n s'. vdfs4_fsm_get_free_block env hint len min_blk flags s = Done (off, n, s') \<and>
           off \<noteq> 0 \<and> 0 < n \<and> n \<le> len \<and> fsm_ok s' \<and>
           extent_blocks off n \<subseteq> free_blocks s \<and> extent_blocks off n \<inter> fsm_used s = {} \<and>
           fsm_used s' = fsm_used s \<union> extent_blocks off n \<and>
           free_blocks s' \<subseteq> free_blocks s - extent_blocks off n \<and> next_blocks s' = next_blocks s \<and>
           free_blocks_count s' + reserved_blocks_count s' = free_blocks_count s + reserved_blocks_count s - n"
proof -
  have "free_blocks s \<inter> fsm_used s = {}"
    using assms(1) by (auto simp: fsm_ok_def bitmap_inv_def fsm_clear_def)
  with get_free_block_plain [OF assms, of hint min_blk] show ?thesis
    unfolding allocated_blocks_def by blast
qed

theorem get_free_block_correct_witness:
  "\<exists>off n s'. vdfs4_fsm_get_free_block plain_env 4 2 2 0 demo_fsm = Done (off, n, s') \<and> off \<noteq> 0 \<and>
     0 < n \<and> n \<le> 2 \<and> fsm_ok s' \<and> extent_blocks off n \<subseteq> {2 ..< 7} \<and> extent_blocks off n \<inter> {0 ..< 2} = {} \<and>
     fsm_used s' = {0 ..< 2} \<union> extent_blocks off n \<and> free_blocks s' \<subseteq> {2 ..< 7} - extent_blocks off n \<and>
     next_blocks s' = {} \<and> free_blocks_count s' + reserved_blocks_count s' = 5 - n"
proof -
  have "\<not> flag_set 0 VDFS4_FSM_ALLOC_ALIGNED" "\<not> flag_set 0 VDFS4_FSM_ALLOC_DELAYED"
    by (simp_all add: flag_set_def)
  moreover have "free_blocks_count demo_fsm = 3" "reserved_blocks_count demo_fsm = 2" by (simp_all add: demo_fsm_def)
  ultimately show ?thesis
    using get_free_block_correct [OF demo_ok(1) plain_ops_ok _ _ _ _ demo_pages, of 2 0 4 2, unfolded demo_sets]
    by simp
qed





text \<open>
  C30. Freed space is not given out at once: right after \<^verbatim>\<open>vdfs4_fsm_put_free_block\<close> on allocated blocks,
  without the flags for unused and reserved blocks, their bits are clear, but they are not in the tree that
  allocation takes from; they are counted as space of the next transaction, and the state is consistent. The statement is
  about this one call: a later allocation that rebuilds the tree (\<^verbatim>\<open>fsm_rebuild_tree\<close>) may put blocks back
  that are not tracked for the next transaction.
\<close>

theorem put_free_block_correct:
  assumes "fsm_ok s" "rb_ops_ok (env_rb env)" "0 < n" "0 < off" "extent_blocks off n \<subseteq> fsm_used s" "pages_cover s"
    and "\<not> flag_set flags VDFS4_FSM_FREE_RESERVE" "\<not> flag_set flags VDFS4_FSM_FREE_UNUSED"
  shows "\<exists>s'. vdfs4_fsm_put_free_block env off n flags s = Done s' \<and> fsm_ok s' \<and>
    fsm_used s' = fsm_used s - extent_blocks off n \<and> free_blocks s' = free_blocks s \<and>
    extent_blocks off n \<inter> free_blocks s' = {} \<and>
    free_blocks_count s' = free_blocks_count s \<and> reserved_blocks_count s' = reserved_blocks_count s \<and>
    next_free_blocks s' = next_free_blocks s + n"
proof -
  have "extent_blocks off n \<inter> free_blocks s = {}"
    using assms(1,5) by (auto simp: fsm_ok_def bitmap_inv_def fsm_clear_def)
  with put_free_committed [OF assms] show ?thesis by auto
qed

theorem put_free_block_correct_witness:
  "\<exists>s'. vdfs4_fsm_put_free_block plain_env 1 1 0 demo_fsm = Done s' \<and> fsm_ok s' \<and> fsm_used s' = {0 ..< 2} - {1 ..< 2} \<and>
     free_blocks s' = {2 ..< 7} \<and> {1 ..< 2} \<inter> free_blocks s' = {} \<and> free_blocks_count s' = 3 \<and>
     reserved_blocks_count s' = 2 \<and> next_free_blocks s' = 1"
proof -
  have f: "\<not> flag_set 0 VDFS4_FSM_FREE_RESERVE" "\<not> flag_set 0 VDFS4_FSM_FREE_UNUSED"
    by (simp_all add: flag_set_def)
  have c: "free_blocks_count demo_fsm = 3" "reserved_blocks_count demo_fsm = 2" "next_free_blocks demo_fsm = 0"
    by (simp_all add: demo_fsm_def)
  show ?thesis
    using put_free_block_correct [OF demo_ok(1) plain_ops_ok _ _ _ demo_pages f, of 1 1, unfolded demo_sets c] by simp
qed

text \<open>
  A failed write undoes its allocation: giving blocks back with \<^verbatim>\<open>VDFS4_FSM_FREE_UNUSED\<close>
  (and \<^verbatim>\<open>VDFS4_FSM_FREE_RESERVE\<close> after a delayed allocation) clears exactly their bits and returns
  them to the counter they came from, leaving both trees as they are and the state consistent.
\<close>

theorem put_unused_block_correct:
  assumes "fsm_ok s" "0 < n" "0 < off" "extent_blocks off n \<subseteq> fsm_used s" "pages_cover s"
    and "flag_set flags VDFS4_FSM_FREE_UNUSED"
  shows "\<exists>s'. vdfs4_fsm_put_free_block env off n flags s = Done s' \<and> fsm_ok s' \<and>
    fsm_used s' = fsm_used s - extent_blocks off n \<and> free_blocks s' = free_blocks s \<and> next_blocks s' = next_blocks s \<and>
    next_free_blocks s' = next_free_blocks s \<and>
    (if flag_set flags VDFS4_FSM_FREE_RESERVE
     then reserved_blocks_count s' = reserved_blocks_count s + n \<and> free_blocks_count s' = free_blocks_count s
     else free_blocks_count s' = free_blocks_count s + n \<and> reserved_blocks_count s' = reserved_blocks_count s)"
  by (rule put_free_unused [OF assms])

theorem put_unused_block_correct_witness:
  "\<exists>s'. vdfs4_fsm_put_free_block plain_env 1 1 48 demo_fsm = Done s' \<and> fsm_ok s' \<and> reserved_blocks_count s' = 3 \<and>
     free_blocks_count s' = 3 \<and> fsm_used s' = {0 ..< 2} - {1 ..< 2}"
proof -
  have f: "flag_set 48 VDFS4_FSM_FREE_RESERVE" "flag_set 48 VDFS4_FSM_FREE_UNUSED"
    by (simp_all add: flag_set_def VDFS4_FSM_FREE_RESERVE_def VDFS4_FSM_FREE_UNUSED_def)
  have c: "free_blocks_count demo_fsm = 3" "reserved_blocks_count demo_fsm = 2"
    by (simp_all add: demo_fsm_def)
  show ?thesis
    using put_unused_block_correct [OF demo_ok(1) _ _ _ demo_pages f(2), of 1 1 plain_env, unfolded demo_sets c] f(1)
    by auto
qed

text \<open>
  C29. The commit makes waiting space free: \<^verbatim>\<open>fsm_commit_free_space\<close> completes, its two
  consistency checks pass, every waiting block is counted as free and none waits any longer, no bit
  changes, and unless the limit of tree nodes is reached the free tree holds exactly the free and the
  waiting extents.
\<close>

theorem commit_free_space_correct:
  assumes "fsm_ok s" "rb_ops_ok (env_rb env)"
  shows "\<exists>s'. fsm_commit_free_space env s = Done s' \<and> fsm_ok s' \<and> fsm_used s' = fsm_used s \<and>
    free_blocks_count s' = free_blocks_count s + next_free_blocks s \<and>
    reserved_blocks_count s' = reserved_blocks_count s \<and> next_free_blocks s' = 0 \<and> next_blocks s' = {} \<and>
    free_blocks s \<subseteq> free_blocks s' \<and> free_blocks s' \<subseteq> free_blocks s \<union> next_blocks s \<and>
    (int (length (free_addrs s) + length (next_addrs s)) \<le> VDFS4_FSM_MAX_FREE_NODES \<longrightarrow>
       free_blocks s' = free_blocks s \<union> next_blocks s)"
  by (rule commit_ok [OF assms])

theorem commit_free_space_correct_witness:
  "\<exists>s'. fsm_commit_free_space plain_env demo_next = Done s' \<and> fsm_ok s' \<and> free_blocks_count s' = 4 \<and>
     next_blocks s' = {} \<and> free_blocks s' = {2 ..< 7} \<union> {1 ..< 2}"
proof -
  have "free_blocks_count demo_next = 3" "next_free_blocks demo_next = 1" "length (free_addrs demo_next) = 1"
    "length (next_addrs demo_next) = 1"
    by (simp_all add: demo_next_def demo_fsm_def)
  then show ?thesis
    using commit_free_space_correct [OF demo_ok(2) plain_ops_ok, unfolded demo_sets]
    by (auto simp: VDFS4_FSM_MAX_FREE_NODES_def)
qed

text \<open>
  C32. \<^verbatim>\<open>end_page\<close> is computed from the first block after the extent. When the bitmap fills its
  last page completely, freeing the last blocks of the volume therefore reads the entry after the
  end of the array \<^verbatim>\<open>fsm->pages\<close>.
\<close>

theorem last_page_overrun:
  assumes "fsm_ok s" "0 < n" "extent_blocks off n \<subseteq> fsm_used s" "flag_set flags VDFS4_FSM_FREE_UNUSED"
    and "block_size_shift s = PAGE_SHIFT" "off + n = volume_blocks_count s"
    and "volume_blocks_count s = page_count s * int (datablock_size FSM_BMP_MAGIC_LEN (fsm_block_size s))"
  shows "vdfs4_fsm_put_free_block env off n flags s = Undef"
proof -
  let ?ds = "int (datablock_size FSM_BMP_MAGIC_LEN (fsm_block_size s))"
  have size: "bitmap_size_ok s" using assms(1) by (simp add: fsm_ok_def bitmap_inv_def)
  have off: "0 \<le> off" using put_free_start(2) [OF assms(1,2,3)] .
  have vol: "volume_blocks_count s < 4294967296" "0 < volume_blocks_count s"
    using size off assms(2,6) by (auto simp: bitmap_size_ok_def)
  have ds: "0 < ?ds"
    using size datablock_size_pos by (auto simp: bitmap_size_ok_def bitmap_buffer_def)
  have "volume_blocks_count s div ?ds = page_count s" using assms(7) ds by simp
  moreover have "page_count s \<le> volume_blocks_count s" "0 \<le> page_count s"
  proof -
    show p: "0 \<le> page_count s" using assms(7) vol(2) ds by (simp add: zero_less_mult_iff)
    show "page_count s \<le> volume_blocks_count s"
      unfolding assms(7) using mult_left_mono [of 1 ?ds "page_count s"] p ds by simp
  qed
  ultimately have "fsm_page_of s (off + n) = page_count s"
    unfolding fsm_page_of_def assms(5,6) using vol by (simp add: c_arith)
  moreover have "fsm_page_of s off \<le> fsm_page_of s (off + n)"
    using fsm_page_mono [of off "off + n" s] off assms(2,6) vol by simp
  ultimately show ?thesis using put_free_page_overrun [OF assms(1-4)] by simp
qed

definition demo_edge :: vdfs4_fsm_info where
  "demo_edge = demo_fsm\<lparr>volume_blocks_count := 8,
     fsm_data := replicate 96 False @ [True, True, False, False, False, False, False, True] @ replicate 32 False,
     erase_blocks_counters := [3]\<rparr>"

lemma demo_edge_ok: "fsm_ok demo_edge" "fsm_used demo_edge = {0, 1, 7}"
proof -
  have p: "bit_place 12 17 (nat b) = 96 + nat b" if "0 \<le> b" "b < 8" for b
    using that by (simp add: bit_place_def datablock_size_def CRC32_SIZE_def)
  have "b \<in> fsm_used demo_edge \<longleftrightarrow> b \<in> {0, 1, 7}" for b
  proof (cases "0 \<le> b \<and> b < 8")
    case True
    then have "b \<in> {0, 1, 2, 3, 4, 5, 6, 7}" by auto
    with p [of b] True show ?thesis
      by (auto simp: fsm_used_def demo_edge_def demo_fsm_def bitmap_bit_def FSM_BMP_MAGIC_LEN_def nth_append)
  qed (auto simp: fsm_used_def demo_edge_def demo_fsm_def)
  then show used: "fsm_used demo_edge = {0, 1, 7}" by blast
  have blk: "free_blocks demo_edge = {2 ..< 7}" "next_blocks demo_edge = {}"
    using demo_sets(1,2) by (simp_all add: demo_edge_def free_blocks_def next_blocks_def)
  have "fsm_inv demo_edge"
    using demo_inv(1) by (simp add: demo_edge_def fsm_inv_defs free_blocks_def next_blocks_def)
  moreover have "bitmap_size_ok demo_edge"
    by (auto simp: bitmap_size_ok_def bitmap_buffer_def geom_ok_def demo_fsm_def demo_edge_def datablock_size_def
        CRC32_SIZE_def FSM_BMP_MAGIC_LEN_def intro!: exI [of _ 1])
  moreover have "{b. (b = 0 \<or> b = 1 \<or> b = 7) \<and> b div 8 = 0} = {0, 1, 7::int}" by auto
  then have "erase_ok demo_edge {0, 1, 7}"
    by (auto simp: erase_ok_def demo_used demo_fsm_def demo_edge_def VDFS4_DELAYED_DISCARD_MAGIC_def)
  moreover have "{0 ..< 8} - {0, 1, 7} = {2 ..< (7::int)}" by auto
  ultimately show "fsm_ok demo_edge"
    unfolding fsm_ok_def bitmap_inv_def blk used fsm_clear_def
    by (auto simp: demo_fsm_def demo_edge_def erase_range_def)
qed

theorem last_page_overrun_witness:
  "fsm_ok demo_edge \<and> page_count demo_edge = 1 \<and> vdfs4_fsm_put_free_block plain_env 7 1 16 demo_edge = Undef"
proof -
  have f: "flag_set 16 VDFS4_FSM_FREE_UNUSED" by (simp add: flag_set_def VDFS4_FSM_FREE_UNUSED_def)
  have "extent_blocks 7 1 \<subseteq> fsm_used demo_edge" unfolding demo_edge_ok by auto
  from last_page_overrun [OF demo_edge_ok(1) _ this f, of plain_env] show ?thesis
    using demo_edge_ok(1)
    by (simp add: demo_edge_def demo_fsm_def PAGE_SHIFT_def datablock_size_def CRC32_SIZE_def FSM_BMP_MAGIC_LEN_def)
qed

end
