(* ===== verification/Vdfs_Bytes.thy ===== *)
theory Vdfs_Bytes
  imports Vdfs_Prelude
begin

text \<open>
  Memory as lists of bytes: little-endian fields of on-disk structures and the copies
  \<^verbatim>\<open>memcpy\<close> and \<^verbatim>\<open>memmove\<close> inside one object. A byte is an \<^typ>\<open>int\<close>; the encoder
  produces values below 256.
\<close>

named_theorems mem_simps \<open>reads after writes of byte arrays\<close>

type_synonym bytes = "int list"

section \<open>Little-endian integers\<close>

primrec le_bytes :: "nat \<Rightarrow> int \<Rightarrow> bytes" where
  "le_bytes 0 x = []"
| "le_bytes (Suc n) x = (x mod 256) # le_bytes n (x div 256)"

primrec le_value :: "bytes \<Rightarrow> int" where
  "le_value [] = 0"
| "le_value (b # bs) = b + 256 * le_value bs"

lemma length_le_bytes [simp]: "length (le_bytes n x) = n"
  by (induction n arbitrary: x) auto

lemma le_value_bytes: "le_value (le_bytes n x) = x mod 256 ^ n"
proof (induction n arbitrary: x)
  case (Suc n)
  have "x mod (256 * 256 ^ n) = 256 * (x div 256 mod 256 ^ n) + x mod 256"
    by (rule zmod_zmult2_eq) simp
  with Suc show ?case by simp
qed simp

lemma le_value_bytes_id [simp]: "0 \<le> x \<Longrightarrow> x < 256 ^ n \<Longrightarrow> le_value (le_bytes n x) = x"
  by (simp add: le_value_bytes)

lemma le_value_nonneg: "\<forall>b \<in> set bs. 0 \<le> b \<Longrightarrow> 0 \<le> le_value bs"
  by (induction bs) auto

lemma le_bytes_range: "b \<in> set (le_bytes n x) \<Longrightarrow> 0 \<le> b \<and> b < 256"
  by (induction n arbitrary: x) auto

section \<open>Reads and writes\<close>

text \<open>\<open>mem_read m p n\<close> is the \<open>n\<close> bytes at offset \<open>p\<close>.\<close>

definition mem_read :: "bytes \<Rightarrow> int \<Rightarrow> int \<Rightarrow> bytes" where
  "mem_read m p n = take (nat n) (drop (nat p) m)"

text \<open>\<open>mem_write m p bs\<close> copies the bytes \<open>bs\<close> to offset \<open>p\<close>.\<close>

definition mem_write :: "bytes \<Rightarrow> int \<Rightarrow> bytes \<Rightarrow> bytes" where
  "mem_write m p bs = take (nat p) m @ bs @ drop (nat p + length bs) m"

text \<open>The bytes lie inside the object.\<close>

definition in_mem :: "bytes \<Rightarrow> int \<Rightarrow> int \<Rightarrow> bool" where
  "in_mem m p n \<longleftrightarrow> 0 \<le> p \<and> 0 \<le> n \<and> p + n \<le> int (length m)"

lemma length_mem_write [simp]:
  "in_mem m p (int (length bs)) \<Longrightarrow> length (mem_write m p bs) = length m"
  by (auto simp: in_mem_def mem_write_def)

lemma length_mem_read [simp]: "in_mem m p n \<Longrightarrow> int (length (mem_read m p n)) = n"
  by (auto simp: in_mem_def mem_read_def)

lemma mem_read_write_same [mem_simps]:
  assumes "in_mem m p (int (length bs))"
  shows "mem_read (mem_write m p bs) p (int (length bs)) = bs"
  using assms by (auto simp: in_mem_def mem_read_def mem_write_def)

lemma mem_read_write_below [mem_simps]:
  assumes "in_mem m p (int (length bs))" "0 \<le> q" "0 \<le> n" "q + n \<le> p"
  shows "mem_read (mem_write m p bs) q n = mem_read m q n"
proof -
  have "nat q + nat n \<le> nat p" "nat p \<le> length m" using assms by (auto simp: in_mem_def)
  then show ?thesis by (simp add: mem_read_def mem_write_def take_drop min_def)
qed

lemma mem_read_write_above [mem_simps]:
  assumes "in_mem m p (int (length bs))" "p + int (length bs) \<le> q"
  shows "mem_read (mem_write m p bs) q n = mem_read m q n"
proof -
  have "nat p \<le> length m" "nat p + length bs \<le> nat q" using assms by (auto simp: in_mem_def)
  then have "drop (nat q) (mem_write m p bs) = drop (nat q) m"
    by (simp add: mem_write_def min_def)
  then show ?thesis by (simp add: mem_read_def)
qed

lemma mem_read_mem_read [mem_simps]:
  "0 \<le> q \<Longrightarrow> 0 \<le> p \<Longrightarrow> 0 \<le> k \<Longrightarrow> q + k \<le> n \<Longrightarrow> mem_read (mem_read m p n) q k = mem_read m (p + q) k"
  by (simp add: mem_read_def drop_take nat_add_distrib add.commute min_def)

lemma mem_read_split:
  assumes "0 \<le> p" "0 \<le> a" "0 \<le> b"
  shows "mem_read m p (a + b) = mem_read m p a @ mem_read m (p + a) b"
  using assms by (simp add: mem_read_def nat_add_distrib take_add add.commute)

lemma mem_read_full [simp]: "mem_read m 0 (int (length m)) = m"
  by (simp add: mem_read_def)

lemma mem_read_append1: "0 \<le> p \<Longrightarrow> 0 \<le> n \<Longrightarrow> p + n \<le> int (length a) \<Longrightarrow> mem_read (a @ b) p n = mem_read a p n"
proof -
  assume "0 \<le> p" "0 \<le> n" "p + n \<le> int (length a)"
  then have "nat p \<le> length a" "nat n - (length a - nat p) = 0" by auto
  then show ?thesis by (simp add: mem_read_def)
qed

lemma mem_read_append2:
  "int (length a) \<le> p \<Longrightarrow> mem_read (a @ b) p n = mem_read b (p - int (length a)) n"
  by (simp add: mem_read_def nat_diff_distrib)

section \<open>Fields\<close>

definition le16_at :: "bytes \<Rightarrow> int \<Rightarrow> int" where
  "le16_at m p = le_value (mem_read m p 2)"

definition le32_at :: "bytes \<Rightarrow> int \<Rightarrow> int" where
  "le32_at m p = le_value (mem_read m p 4)"

definition le64_at :: "bytes \<Rightarrow> int \<Rightarrow> int" where
  "le64_at m p = le_value (mem_read m p 8)"

definition u8_at :: "bytes \<Rightarrow> int \<Rightarrow> int" where
  "u8_at m p = le_value (mem_read m p 1)"

lemma le16_at_write: "in_mem m p 2 \<Longrightarrow> 0 \<le> x \<Longrightarrow> x < 65536 \<Longrightarrow> le16_at (mem_write m p (le_bytes 2 x)) p = x"
  using mem_read_write_same [of m p "le_bytes 2 x"] by (simp add: le16_at_def)

end
