(* ===== verification/Vdfs_Keys.thy ===== *)
theory Vdfs_Keys
  imports Vdfs_Bytes
begin

text \<open>
  The keys of the three metadata trees and their comparison functions
  (\<^verbatim>\<open>vdfs4_exttree_cmpfn\<close>, \<^verbatim>\<open>vdfs4_cattree_cmpfn\<close>, \<^verbatim>\<open>vdfs4_cattree_cmpfn_ci\<close>,
  \<^verbatim>\<open>vdfs4_xattrtree_cmpfn\<close>), read from the bytes of the record, and the contract the
  B-tree relies on: the sign of the comparison is a total preorder. The contract is a locale,
  interpreted for each of the four functions.
\<close>

section \<open>The contract\<close>

text \<open>\<open>valid\<close> says that the bytes hold the whole key.\<close>

locale key_order =
  fixes valid :: "bytes \<Rightarrow> bool" and cmp :: "bytes \<Rightarrow> bytes \<Rightarrow> int"
  assumes cmp_swap: "valid a \<Longrightarrow> valid b \<Longrightarrow> sgn (cmp b a) = - sgn (cmp a b)"
    and cmp_trans: "valid a \<Longrightarrow> valid b \<Longrightarrow> valid c \<Longrightarrow> cmp a b \<le> 0 \<Longrightarrow> cmp b c \<le> 0 \<Longrightarrow> cmp a c \<le> 0"
begin

lemma cmp_refl: "valid a \<Longrightarrow> cmp a a = 0"
  using cmp_swap [of a a] by (simp add: sgn_if split: if_splits)

lemma cmp_gt_lt: "valid a \<Longrightarrow> valid b \<Longrightarrow> 0 < cmp a b \<longleftrightarrow> cmp b a < 0"
  using cmp_swap [of a b] by (auto simp: sgn_if split: if_splits)

lemma cmp_ge_le: "valid a \<Longrightarrow> valid b \<Longrightarrow> 0 \<le> cmp a b \<longleftrightarrow> cmp b a \<le> 0"
  using cmp_swap [of a b] by (auto simp: sgn_if split: if_splits)

lemma cmp_eq_swap: "valid a \<Longrightarrow> valid b \<Longrightarrow> cmp a b = 0 \<longleftrightarrow> cmp b a = 0"
  using cmp_swap [of a b] by (auto simp: sgn_if split: if_splits)

lemma cmp_less_trans:
  "valid a \<Longrightarrow> valid b \<Longrightarrow> valid c \<Longrightarrow> cmp a b < 0 \<Longrightarrow> cmp b c \<le> 0 \<Longrightarrow> cmp a c < 0"
  by (meson cmp_ge_le cmp_trans not_less order.order_iff_strict)

lemma cmp_le_less_trans:
  "valid a \<Longrightarrow> valid b \<Longrightarrow> valid c \<Longrightarrow> cmp a b \<le> 0 \<Longrightarrow> cmp b c < 0 \<Longrightarrow> cmp a c < 0"
  by (meson cmp_ge_le cmp_trans not_less order.order_iff_strict)

end

text \<open>Comparing by one criterion, and by a second where the first finds no difference.\<close>

lemma key_order_seq:
  assumes "key_order V c" "key_order V d"
  shows "key_order V (\<lambda>a b. if c a b \<noteq> 0 then c a b else d a b)"
proof
  fix x y assume v: "V x" "V y"
  show "sgn (if c y x \<noteq> 0 then c y x else d y x) = - sgn (if c x y \<noteq> 0 then c x y else d x y)"
    using key_order.cmp_swap [OF assms(1) v] key_order.cmp_swap [OF assms(2) v]
      key_order.cmp_eq_swap [OF assms(1) v] by simp
next
  fix x y z assume v: "V x" "V y" "V z"
    and le: "(if c x y \<noteq> 0 then c x y else d x y) \<le> 0" "(if c y z \<noteq> 0 then c y z else d y z) \<le> 0"
  note c = key_order.cmp_trans [OF assms(1) v] key_order.cmp_less_trans [OF assms(1) v]
    key_order.cmp_le_less_trans [OF assms(1) v]
  show "(if c x z \<noteq> 0 then c x z else d x z) \<le> 0"
  proof (cases "c x y = 0 \<and> c y z = 0")
    case True
    with le have "d x z \<le> 0" using key_order.cmp_trans [OF assms(2) v] by simp
    with True c(1) show ?thesis by simp
  next
    case False
    with le have "c x y < 0 \<and> c y z \<le> 0 \<or> c x y \<le> 0 \<and> c y z < 0" by (auto split: if_splits)
    then have "c x z < 0" using c by blast
    then show ?thesis by simp
  qed
qed

lemma key_order_diff: "key_order V (\<lambda>a b. (f a :: int) - f b)"
  by unfold_locales (auto simp: sgn_if)

lemma key_order_cong:
  assumes "key_order V c" "\<And>a b. V a \<Longrightarrow> V b \<Longrightarrow> sgn (d a b) = sgn (c a b)"
  shows "key_order V d"
proof -
  have le: "d a b \<le> 0 \<longleftrightarrow> c a b \<le> 0" if "V a" "V b" for a b
    using assms(2) [OF that] by (auto simp: sgn_if split: if_splits)
  show ?thesis
  proof
    fix a b assume v: "V a" "V b"
    show "sgn (d b a) = - sgn (d a b)"
      using assms(2) [OF v] assms(2) [OF v(2) v(1)] key_order.cmp_swap [OF assms(1) v] by presburger
  next
    fix x y z assume v: "V x" "V y" "V z" and "d x y \<le> 0" "d y z \<le> 0"
    then show "d x z \<le> 0" using key_order.cmp_trans [OF assms(1) v] by (simp add: le)
  qed
qed

lemma key_order_image:
  assumes "key_order (\<lambda>_. True) c"
  shows "key_order V (\<lambda>a b. c (f a) (f b))"
proof
  fix a b show "sgn (c (f b) (f a)) = - sgn (c (f a) (f b))"
    by (rule key_order.cmp_swap [OF assms]) simp_all
next
  fix x y z assume "c (f x) (f y) \<le> 0" "c (f y) (f z) \<le> 0"
  then show "c (f x) (f z) \<le> 0" using key_order.cmp_trans [OF assms] by blast
qed

section \<open>The comparison functions\<close>

text \<open>\<^verbatim>\<open>cmp_2_le64\<close>\<close>

definition cmp_2_le64 :: "int \<Rightarrow> int \<Rightarrow> int" where
  "cmp_2_le64 a b = (if a = b then 0 else if a > b then 1 else - 1)"

text \<open>\<^verbatim>\<open>struct vdfs4_exttree_key\<close>: the generic key takes 8 bytes, then two 64-bit numbers.\<close>

definition exttree_object_id :: "bytes \<Rightarrow> int" where
  "exttree_object_id k = le64_at k 8"

definition exttree_iblock :: "bytes \<Rightarrow> int" where
  "exttree_iblock k = le64_at k 16"

definition vdfs4_exttree_cmpfn :: "bytes \<Rightarrow> bytes \<Rightarrow> int" where
  "vdfs4_exttree_cmpfn key1 key2 =
     (if exttree_object_id key1 \<noteq> exttree_object_id key2
      then cmp_2_le64 (exttree_object_id key1) (exttree_object_id key2)
      else cmp_2_le64 (exttree_iblock key1) (exttree_iblock key2))"

text \<open>
  \<^verbatim>\<open>memcmp\<close> of the kernel returns the difference of the first two bytes that differ, and 0
  when there are none; \<^verbatim>\<open>strncasecmp\<close> does the same on the lower-case bytes, and stops at a
  NUL in both.
\<close>

fun memcmp :: "bytes \<Rightarrow> bytes \<Rightarrow> int" where
  "memcmp (a # as) (b # bs) = (if a \<noteq> b then a - b else memcmp as bs)"
| "memcmp _ _ = 0"

definition to_lower :: "int \<Rightarrow> int" where
  "to_lower c = (if 65 \<le> c \<and> c \<le> 90 \<or> 192 \<le> c \<and> c \<le> 222 \<and> c \<noteq> 215 then c + 32 else c)"

fun strncasecmp :: "bytes \<Rightarrow> bytes \<Rightarrow> int" where
  "strncasecmp (a # as) (b # bs) =
     (if to_lower a \<noteq> to_lower b then to_lower a - to_lower b
      else if to_lower a = 0 then 0 else strncasecmp as bs)"
| "strncasecmp _ _ = 0"

text \<open>\<^verbatim>\<open>struct vdfs4_cattree_key\<close>: parent at 8, object at 16, record type at 24, name length at
  25, the name from 26.\<close>

definition cattree_parent_id :: "bytes \<Rightarrow> int" where
  "cattree_parent_id k = le64_at k 8"

definition cattree_object_id :: "bytes \<Rightarrow> int" where
  "cattree_object_id k = le64_at k 16"

definition cattree_name_len :: "bytes \<Rightarrow> int" where
  "cattree_name_len k = u8_at k 25"

definition cattree_name :: "bytes \<Rightarrow> int \<Rightarrow> bytes" where
  "cattree_name k n = mem_read k 26 n"

text \<open>The part of the two catalog comparisons that follows the parent and the name.\<close>

definition cattree_cmp_rest :: "bytes \<Rightarrow> bytes \<Rightarrow> int" where
  "cattree_cmp_rest key1 key2 =
     (if cattree_name_len key1 \<noteq> cattree_name_len key2
      then cattree_name_len key1 - cattree_name_len key2
      else if cattree_object_id key1 < cattree_object_id key2 then - 1
      else if cattree_object_id key1 > cattree_object_id key2 then 1
      else 0)"

definition vdfs4_cattree_cmpfn :: "bytes \<Rightarrow> bytes \<Rightarrow> int" where
  "vdfs4_cattree_cmpfn key1 key2 =
     (if cattree_parent_id key1 < cattree_parent_id key2 then - 1
      else if cattree_parent_id key1 > cattree_parent_id key2 then 1
      else
        let len = min (cattree_name_len key1) (cattree_name_len key2);
            ret = (if len \<noteq> 0 then memcmp (cattree_name key1 len) (cattree_name key2 len) else 0)
        in if ret \<noteq> 0 then ret else cattree_cmp_rest key1 key2)"

definition vdfs4_cattree_cmpfn_ci :: "bytes \<Rightarrow> bytes \<Rightarrow> int" where
  "vdfs4_cattree_cmpfn_ci key1 key2 =
     (if cattree_parent_id key1 < cattree_parent_id key2 then - 1
      else if cattree_parent_id key1 > cattree_parent_id key2 then 1
      else
        let len = min (cattree_name_len key1) (cattree_name_len key2);
            ret = (if len \<noteq> 0 then strncasecmp (cattree_name key1 len) (cattree_name key2 len) else 0)
        in if ret \<noteq> 0 then ret else cattree_cmp_rest key1 key2)"

text \<open>\<^verbatim>\<open>struct vdfs4_xattrtree_key\<close>: object at 8, name length at 16, the name from 17.\<close>

definition xattrtree_object_id :: "bytes \<Rightarrow> int" where
  "xattrtree_object_id k = le64_at k 8"

definition xattrtree_name_len :: "bytes \<Rightarrow> int" where
  "xattrtree_name_len k = u8_at k 16"

definition xattrtree_name :: "bytes \<Rightarrow> int \<Rightarrow> bytes" where
  "xattrtree_name k n = mem_read k 17 n"

definition vdfs4_xattrtree_cmpfn :: "bytes \<Rightarrow> bytes \<Rightarrow> int" where
  "vdfs4_xattrtree_cmpfn key1 key2 =
     (if xattrtree_object_id key1 < xattrtree_object_id key2 then - 1
      else if xattrtree_object_id key1 > xattrtree_object_id key2 then 1
      else
        let len = min (xattrtree_name_len key1) (xattrtree_name_len key2);
            diff = (if len \<noteq> 0 then memcmp (xattrtree_name key1 len) (xattrtree_name key2 len) else 0)
        in if diff \<noteq> 0 then diff else xattrtree_name_len key1 - xattrtree_name_len key2)"

section \<open>Each of them is a total order on keys\<close>

text \<open>Names compare in lexicographic order, a proper prefix first.\<close>

definition name_cmp :: "bytes \<Rightarrow> bytes \<Rightarrow> int" where
  "name_cmp a b = (if memcmp a b \<noteq> 0 then memcmp a b else int (length a) - int (length b))"

lemma name_cmp_Cons [simp]:
  "name_cmp (x # a) (y # b) = (if x \<noteq> y then x - y else name_cmp a b)"
  by (simp add: name_cmp_def)

lemma name_cmp_Nil [simp]: "name_cmp [] b = - int (length b)" "name_cmp a [] = int (length a)"
  by (simp_all add: name_cmp_def)

lemma name_cmp_swap: "sgn (name_cmp b a) = - sgn (name_cmp a b)"
proof (induction a arbitrary: b)
  case (Cons x a)
  have "sgn (y - x) = - sgn (x - y)" for y :: int by (simp add: sgn_if)
  with Cons show ?case by (cases b) auto
qed simp

lemma name_cmp_trans: "name_cmp a b \<le> 0 \<Longrightarrow> name_cmp b c \<le> 0 \<Longrightarrow> name_cmp a c \<le> 0"
proof (induction a arbitrary: b c)
  case (Cons x a)
  from Cons.prems(1) obtain y b' where b: "b = y # b'" by (cases b) auto
  from Cons.prems(2) b obtain z c' where c: "c = z # c'" by (cases c) auto
  show ?case
  proof (cases "x = y \<and> y = z")
    case True
    with Cons b c show ?thesis by auto
  next
    case False
    with Cons.prems b c show ?thesis by (auto split: if_splits)
  qed
qed simp

lemma key_order_name: "key_order (\<lambda>_. True) name_cmp"
  using name_cmp_swap name_cmp_trans by unfold_locales

lemma memcmp_take: "length a \<le> n \<or> length b \<le> n \<Longrightarrow> memcmp (take n a) (take n b) = memcmp a b"
proof (induction n arbitrary: a b)
  case 0
  then show ?case by auto
next
  case (Suc n)
  then show ?case by (cases a; cases b) auto
qed

text \<open>
  \<^verbatim>\<open>strncasecmp\<close> compares the lower-case names, with what follows a NUL masked out.
\<close>

fun fold_name :: "bytes \<Rightarrow> bytes" where
  "fold_name [] = []"
| "fold_name (c # cs) = to_lower c # (if to_lower c = 0 then map (\<lambda>_. 0) cs else fold_name cs)"

lemma length_fold_name [simp]: "length (fold_name s) = length s"
  by (induction s rule: fold_name.induct) auto

lemma memcmp_zeros: "memcmp (map (\<lambda>_. 0) a) (map (\<lambda>_. 0) b) = 0"
proof (induction a arbitrary: b)
  case (Cons x a)
  then show ?case by (cases b) auto
qed simp

lemma strncasecmp_fold: "strncasecmp a b = memcmp (fold_name a) (fold_name b)"
  by (induction a b rule: strncasecmp.induct) (auto simp: memcmp_zeros)

lemma fold_name_take: "fold_name (take n s) = take n (fold_name s)"
proof (induction s arbitrary: n rule: fold_name.induct)
  case (2 c cs)
  then show ?case by (cases n) (auto simp: take_map)
qed simp

text \<open>The keys are whole: the name lies inside the bytes.\<close>

definition cattree_key_valid :: "bytes \<Rightarrow> bool" where
  "cattree_key_valid k \<longleftrightarrow> 0 \<le> cattree_name_len k \<and> 26 + cattree_name_len k \<le> int (length k)"

definition xattrtree_key_valid :: "bytes \<Rightarrow> bool" where
  "xattrtree_key_valid k \<longleftrightarrow> 0 \<le> xattrtree_name_len k \<and> 17 + xattrtree_name_len k \<le> int (length k)"

lemma mem_read_min:
  "0 \<le> n \<Longrightarrow> m \<le> n \<Longrightarrow> mem_read k p m = take (nat m) (mem_read k p n)"
  by (simp add: mem_read_def min_absorb1)

text \<open>Both names cut to the shorter length compare like the whole names.\<close>

lemma memcmp_min_len:
  assumes "0 \<le> n" "0 \<le> m" "length a = nat n" "length b = nat m"
  shows "memcmp (take (nat (min n m)) a) (take (nat (min n m)) b) = memcmp a b"
  by (rule memcmp_take) (use assms in \<open>auto simp: min_def\<close>)

lemma memcmp_if_len: "(if n \<noteq> 0 then memcmp (take (nat n) a) (take (nat n) b) else 0)
    = memcmp (take (nat n) a) (take (nat n) b)"
  by simp

lemma cattree_name_whole:
  assumes "cattree_key_valid k"
  shows "length (cattree_name k (cattree_name_len k)) = nat (cattree_name_len k)"
  using assms by (simp add: cattree_key_valid_def cattree_name_def mem_read_def nat_le_iff min_absorb2)

lemma xattrtree_name_whole:
  assumes "xattrtree_key_valid k"
  shows "length (xattrtree_name k (xattrtree_name_len k)) = nat (xattrtree_name_len k)"
  using assms by (simp add: xattrtree_key_valid_def xattrtree_name_def mem_read_def nat_le_iff min_absorb2)

text \<open>The catalog order, with the names taken whole.\<close>

definition cattree_full_name :: "bytes \<Rightarrow> bytes" where
  "cattree_full_name k = cattree_name k (cattree_name_len k)"

definition xattrtree_full_name :: "bytes \<Rightarrow> bytes" where
  "xattrtree_full_name k = xattrtree_name k (xattrtree_name_len k)"

lemma cattree_cut:
  assumes "cattree_key_valid a" "m \<le> cattree_name_len a"
  shows "cattree_name a m = take (nat m) (cattree_full_name a)"
  using assms mem_read_min [of "cattree_name_len a" m a 26]
  by (simp add: cattree_key_valid_def cattree_full_name_def cattree_name_def)

lemma xattrtree_cut:
  assumes "xattrtree_key_valid a" "m \<le> xattrtree_name_len a"
  shows "xattrtree_name a m = take (nat m) (xattrtree_full_name a)"
  using assms mem_read_min [of "xattrtree_name_len a" m a 17]
  by (simp add: xattrtree_key_valid_def xattrtree_full_name_def xattrtree_name_def)

lemma cattree_names_cmp:
  assumes "cattree_key_valid a" "cattree_key_valid b"
  defines "n \<equiv> min (cattree_name_len a) (cattree_name_len b)"
  shows "(if n \<noteq> 0 then memcmp (cattree_name a n) (cattree_name b n) else 0)
      = memcmp (cattree_full_name a) (cattree_full_name b)"
    and "(if n \<noteq> 0 then strncasecmp (cattree_name a n) (cattree_name b n) else 0)
      = memcmp (fold_name (cattree_full_name a)) (fold_name (cattree_full_name b))"
proof -
  have len: "length (cattree_full_name a) = nat (cattree_name_len a)"
      "length (cattree_full_name b) = nat (cattree_name_len b)"
    using cattree_name_whole assms(1,2) by (simp_all add: cattree_full_name_def)
  have nn: "0 \<le> cattree_name_len a" "0 \<le> cattree_name_len b"
    using assms(1,2) by (simp_all add: cattree_key_valid_def)
  have cut: "cattree_name a n = take (nat n) (cattree_full_name a)"
      "cattree_name b n = take (nat n) (cattree_full_name b)"
    using cattree_cut assms(1,2) by (simp_all add: n_def)
  show "(if n \<noteq> 0 then memcmp (cattree_name a n) (cattree_name b n) else 0)
      = memcmp (cattree_full_name a) (cattree_full_name b)"
    unfolding cut memcmp_if_len unfolding n_def by (rule memcmp_min_len [OF nn len])
  have "memcmp (take (nat n) (fold_name (cattree_full_name a))) (take (nat n) (fold_name (cattree_full_name b)))
      = memcmp (fold_name (cattree_full_name a)) (fold_name (cattree_full_name b))"
    unfolding n_def by (rule memcmp_min_len [OF nn]) (simp_all add: len)
  then show "(if n \<noteq> 0 then strncasecmp (cattree_name a n) (cattree_name b n) else 0)
      = memcmp (fold_name (cattree_full_name a)) (fold_name (cattree_full_name b))"
    unfolding cut strncasecmp_fold fold_name_take memcmp_if_len .
qed

lemma xattrtree_names_cmp:
  assumes "xattrtree_key_valid a" "xattrtree_key_valid b"
  defines "n \<equiv> min (xattrtree_name_len a) (xattrtree_name_len b)"
  shows "(if n \<noteq> 0 then memcmp (xattrtree_name a n) (xattrtree_name b n) else 0)
      = memcmp (xattrtree_full_name a) (xattrtree_full_name b)"
proof -
  have len: "length (xattrtree_full_name a) = nat (xattrtree_name_len a)"
      "length (xattrtree_full_name b) = nat (xattrtree_name_len b)"
    using xattrtree_name_whole assms(1,2) by (simp_all add: xattrtree_full_name_def)
  have nn: "0 \<le> xattrtree_name_len a" "0 \<le> xattrtree_name_len b"
    using assms(1,2) by (simp_all add: xattrtree_key_valid_def)
  have cut: "xattrtree_name a n = take (nat n) (xattrtree_full_name a)"
      "xattrtree_name b n = take (nat n) (xattrtree_full_name b)"
    using xattrtree_cut assms(1,2) by (simp_all add: n_def)
  show ?thesis
    unfolding cut memcmp_if_len unfolding n_def by (rule memcmp_min_len [OF nn len])
qed

text \<open>The catalog comparisons as a sequence of criteria: parent, name, object.\<close>

lemma cattree_cmpfn_seq:
  assumes "cattree_key_valid a" "cattree_key_valid b"
  shows "sgn (vdfs4_cattree_cmpfn a b)
      = sgn (let p = cattree_parent_id a - cattree_parent_id b;
                 m = name_cmp (cattree_full_name a) (cattree_full_name b)
             in if p \<noteq> 0 then p else if m \<noteq> 0 then m else cattree_object_id a - cattree_object_id b)"
    and "sgn (vdfs4_cattree_cmpfn_ci a b)
      = sgn (let p = cattree_parent_id a - cattree_parent_id b;
                 m = name_cmp (fold_name (cattree_full_name a)) (fold_name (cattree_full_name b))
             in if p \<noteq> 0 then p else if m \<noteq> 0 then m else cattree_object_id a - cattree_object_id b)"
proof -
  have len: "int (length (cattree_full_name a)) = cattree_name_len a"
      "int (length (cattree_full_name b)) = cattree_name_len b"
    using cattree_name_whole assms by (simp_all add: cattree_full_name_def cattree_key_valid_def)
  show "sgn (vdfs4_cattree_cmpfn a b)
      = sgn (let p = cattree_parent_id a - cattree_parent_id b;
                 m = name_cmp (cattree_full_name a) (cattree_full_name b)
             in if p \<noteq> 0 then p else if m \<noteq> 0 then m else cattree_object_id a - cattree_object_id b)"
    unfolding vdfs4_cattree_cmpfn_def Let_def cattree_names_cmp [OF assms]
    by (auto simp: name_cmp_def len cattree_cmp_rest_def)
  show "sgn (vdfs4_cattree_cmpfn_ci a b)
      = sgn (let p = cattree_parent_id a - cattree_parent_id b;
                 m = name_cmp (fold_name (cattree_full_name a)) (fold_name (cattree_full_name b))
             in if p \<noteq> 0 then p else if m \<noteq> 0 then m else cattree_object_id a - cattree_object_id b)"
    unfolding vdfs4_cattree_cmpfn_ci_def Let_def cattree_names_cmp [OF assms]
    by (auto simp: name_cmp_def len cattree_cmp_rest_def)
qed

lemma xattrtree_cmpfn_seq:
  assumes "xattrtree_key_valid a" "xattrtree_key_valid b"
  shows "sgn (vdfs4_xattrtree_cmpfn a b)
      = sgn (let p = xattrtree_object_id a - xattrtree_object_id b
             in if p \<noteq> 0 then p else name_cmp (xattrtree_full_name a) (xattrtree_full_name b))"
proof -
  have len: "int (length (xattrtree_full_name a)) = xattrtree_name_len a"
      "int (length (xattrtree_full_name b)) = xattrtree_name_len b"
    using xattrtree_name_whole assms by (simp_all add: xattrtree_full_name_def xattrtree_key_valid_def)
  show ?thesis
    unfolding vdfs4_xattrtree_cmpfn_def Let_def xattrtree_names_cmp [OF assms]
    by (auto simp: name_cmp_def len)
qed

interpretation exttree_keys: key_order "\<lambda>_. True" vdfs4_exttree_cmpfn
  by unfold_locales
     (auto simp: vdfs4_exttree_cmpfn_def cmp_2_le64_def split: if_splits)

interpretation cattree_keys: key_order cattree_key_valid vdfs4_cattree_cmpfn
  by (rule key_order_cong [OF key_order_seq [OF key_order_diff key_order_seq [OF
          key_order_image [OF key_order_name] key_order_diff]]])
     (rule cattree_cmpfn_seq(1) [unfolded Let_def])

interpretation cattree_ci_keys: key_order cattree_key_valid vdfs4_cattree_cmpfn_ci
  by (rule key_order_cong [OF key_order_seq [OF key_order_diff key_order_seq [OF
          key_order_image [OF key_order_name, where f = "\<lambda>k. fold_name (cattree_full_name k)"] key_order_diff]]])
     (rule cattree_cmpfn_seq(2) [unfolded Let_def])

interpretation xattrtree_keys: key_order xattrtree_key_valid vdfs4_xattrtree_cmpfn
  by (rule key_order_cong [OF key_order_seq [OF key_order_diff key_order_image [OF key_order_name]]])
     (rule xattrtree_cmpfn_seq [unfolded Let_def])

end
