(* ===== verification/Vdfs_Bnode.thy ===== *)
theory Vdfs_Bnode
  imports Vdfs_Keys "HOL-Library.Multiset"
begin

text \<open>
  One node of a metadata B-tree (\<^verbatim>\<open>btree.c\<close>, lines 120 to 884): the record area, the table of
  record offsets that grows down from the end of the node, and the operations that read, place,
  delete and search records.

  A node is \<^verbatim>\<open>node_size_bytes\<close> of memory: the descriptor (32 bytes, the fields of the record
  below), the record area from byte 32 on, the offset cells, and the checksum in the last four
  bytes. Cell \<open>i\<close> is the 32-bit word at byte \<open>node_size - 4 - 4 (i + 1)\<close>. The model keeps the
  record area and the cells as two objects; an operation that would make a record and a live
  cell share bytes has no meaning in it and gives \<^const>\<open>Undef\<close>.
\<close>

named_theorems bnode_defs \<open>definitions of the operations on the offset table\<close>

section \<open>State\<close>

record bnode =
  bn_id :: int
  d_magic :: "int list"
  d_free_space :: int
  d_recs_count :: int
  d_node_id :: int
  d_prev :: int
  d_next :: int
  d_type :: int
  bn_data :: bytes
  bn_offs :: "int list"

text \<open>
  What a node needs of its tree (\<^verbatim>\<open>struct vdfs4_btree\<close>) and of the superblock: the size of a
  node, the longest record, the comparison function and whether the mount has finished, which
  decides whether a broken node is an error or stops the kernel.
\<close>

record btree_conf =
  node_size :: int
  max_record_len :: int
  comp_fn :: "bytes \<Rightarrow> bytes \<Rightarrow> int"
  bt_mount_finished :: bool

definition descr_size :: int where
  "descr_size = 32"

definition BT_INVALID_OFFSET :: int where
  "BT_INVALID_OFFSET = 4294967295"

definition INVALID_NODE_ID :: int where
  "INVALID_NODE_ID = 0"

text \<open>\<^verbatim>\<open>VDFS4_MAX_BTREE_REC_LEN\<close>: 288 bytes of catalog key and 312 of file record.\<close>

definition MAX_BTREE_REC_LEN :: int where
  "MAX_BTREE_REC_LEN = 600"

text \<open>\<^verbatim>\<open>struct vdfs4_generic_key\<close>\<close>

definition key_len :: "bytes \<Rightarrow> int" where
  "key_len r = le16_at r 4"

definition record_len :: "bytes \<Rightarrow> int" where
  "record_len r = le16_at r 6"

text \<open>\<^verbatim>\<open>get_value_pointer\<close>: the offset of the value inside the record.\<close>

definition get_value_pointer :: "bytes \<Rightarrow> errno + int" where
  "get_value_pointer r = (if key_len r > 288 then Inl EINVAL else Inr (key_len r))"

section \<open>The offset table\<close>

text \<open>The address of cell \<open>index\<close> inside the node.\<close>

definition cell_addr :: "btree_conf \<Rightarrow> int \<Rightarrow> int" where
  "cell_addr c index = node_size c - 4 - 4 * u32 (index + 1)"

text \<open>\<^verbatim>\<open>vdfs4_get_offset_addr\<close>: the cell, or an error for an index outside the node.\<close>

definition vdfs4_get_offset_addr :: "btree_conf \<Rightarrow> bnode \<Rightarrow> int \<Rightarrow> (errno + nat) outcome" where
  "vdfs4_get_offset_addr c b index =
     (if u32 (cell_addr c index) \<ge> node_size c
      then if \<not> bt_mount_finished c then Done (Inl EFAULT) else Bug
      else if 0 \<le> index \<and> nat index < length (bn_offs b) then Done (Inr (nat index)) else Undef)"

text \<open>\<^verbatim>\<open>__get_offset\<close>\<close>

definition get_offset :: "btree_conf \<Rightarrow> bnode \<Rightarrow> int \<Rightarrow> int outcome" where
  "get_offset c b index = bind_outcome (vdfs4_get_offset_addr c b index) (\<lambda>p.
     case p of Inl _ \<Rightarrow> Done BT_INVALID_OFFSET | Inr i \<Rightarrow> Done (bn_offs b ! i))"

definition is_offset_correct :: "btree_conf \<Rightarrow> int \<Rightarrow> bool" where
  "is_offset_correct c offset \<longleftrightarrow> offset \<noteq> 0 \<and> offset < node_size c"

text \<open>\<^verbatim>\<open>check_bnode_offset_area\<close>\<close>

primrec check_offsets :: "btree_conf \<Rightarrow> bnode \<Rightarrow> nat \<Rightarrow> bool outcome" where
  "check_offsets c b 0 = Done True"
| "check_offsets c b (Suc n) = bind_outcome (check_offsets c b n) (\<lambda>ok.
     if \<not> ok then Done False
     else bind_outcome (get_offset c b (int n)) (\<lambda>offset. Done (is_offset_correct c offset)))"

definition check_bnode_offset_area :: "btree_conf \<Rightarrow> bnode \<Rightarrow> bool outcome" where
  "check_bnode_offset_area c b = check_offsets c b (nat (d_recs_count b))"

text \<open>
  \<^verbatim>\<open>get_record\<close>: the offset of the record with the given index. The bound lets the index equal
  the number of records; that cell holds the offset of the free space.
\<close>

definition get_record :: "btree_conf \<Rightarrow> bnode \<Rightarrow> int \<Rightarrow> (errno + int) outcome" where
  "get_record c b index =
     (if index > d_recs_count b then Done (Inl EINVAL)
      else bind_outcome (get_offset c b index) (\<lambda>offset.
        Done (if \<not> is_offset_correct c offset then Inl EINVAL else Inr offset)))"

text \<open>The bytes of the record that starts at an offset of the node.\<close>

definition rec_in :: "bytes \<Rightarrow> int \<Rightarrow> bytes" where
  "rec_in m offset = mem_read m offset (record_len (drop (nat offset) m))"

definition rec_at :: "bnode \<Rightarrow> int \<Rightarrow> bytes" where
  "rec_at b offset = rec_in (bn_data b) offset"

text \<open>\<^verbatim>\<open>check_set_offset\<close>\<close>

definition check_set_offset :: "btree_conf \<Rightarrow> bnode \<Rightarrow> int \<Rightarrow> int \<Rightarrow> (status \<times> bnode) outcome" where
  "check_set_offset c b index new_val = bind_outcome (vdfs4_get_offset_addr c b index) (\<lambda>p.
     case p of
       Inl _ \<Rightarrow> Done (Some EFAULT, b)
     | Inr i \<Rightarrow> if \<not> is_offset_correct c new_val then Done (Some EFAULT, b)
                else Done (success, b\<lparr>bn_offs := (bn_offs b)[i := new_val]\<rparr>))"

text \<open>\<^verbatim>\<open>is_node_full\<close>\<close>

definition is_node_full :: "bnode \<Rightarrow> int \<Rightarrow> bool" where
  "is_node_full b rec_len \<longleftrightarrow> d_free_space b < rec_len + 4"

section \<open>A new node\<close>

text \<open>\<^verbatim>\<open>vdfs4_init_new_node_descr\<close>\<close>

definition vdfs4_init_new_node_descr :: "btree_conf \<Rightarrow> bnode \<Rightarrow> int \<Rightarrow> bnode outcome" where
  "vdfs4_init_new_node_descr c b type =
     (let b1 = b\<lparr>d_magic := (d_magic b)[0 := 0x4e, 1 := 0x64],
                 d_free_space := u16 (u32 (node_size c - descr_size - 4 - 4)),
                 d_recs_count := 0, d_type := type, d_node_id := bn_id b,
                 d_next := INVALID_NODE_ID, d_prev := INVALID_NODE_ID\<rparr>
      in bind_outcome (check_set_offset c b1 0 descr_size) (\<lambda>(st, b2).
           if st \<noteq> success then Bug else Done b2))"

section \<open>Placing a record\<close>

text \<open>
  \<^verbatim>\<open>memmove\<close> of the offset table: the \<open>n\<close> cells from \<open>pos\<close> on move to the next higher index, over
  cell \<open>pos + n\<close>.
\<close>

definition shift_cells :: "int list \<Rightarrow> nat \<Rightarrow> nat \<Rightarrow> int list" where
  "shift_cells cells pos n = take (Suc pos) cells @ take n (drop pos cells) @ drop (Suc pos + n) cells"

text \<open>
  The copy of a record to the free space: it has to stay inside the record area, below the cells
  of the node after the insertion.
\<close>

definition copy_record :: "btree_conf \<Rightarrow> bnode \<Rightarrow> int \<Rightarrow> bytes \<Rightarrow> int \<Rightarrow> bnode outcome" where
  "copy_record c b offset bs rec_len =
     (if descr_size \<le> offset \<and> int (length bs) \<le> rec_len
         \<and> offset + rec_len \<le> node_size c - 4 - 4 * (d_recs_count b + 2)
         \<and> in_mem (bn_data b) offset rec_len
      then Done (b\<lparr>bn_data := mem_write (bn_data b) offset bs\<rparr>) else Undef)"

text \<open>Where the new record goes: the offset in the cell after the last record.\<close>

definition free_space_offset :: "btree_conf \<Rightarrow> bnode \<Rightarrow> (errno + int) outcome" where
  "free_space_offset c b = bind_outcome (vdfs4_get_offset_addr c b (d_recs_count b)) (\<lambda>p.
     case p of Inl e \<Rightarrow> Done (Inl e)
     | Inr i \<Rightarrow> Done (if \<not> is_offset_correct c (bn_offs b ! i) then Inl EFAULT else Inr (bn_offs b ! i)))"

text \<open>The \<^verbatim>\<open>memmove\<close> that makes room for the new cell.\<close>

definition move_offsets :: "bnode \<Rightarrow> int \<Rightarrow> bnode outcome" where
  "move_offsets b insert_pos =
     (let moving_offsets_num = d_recs_count b - insert_pos
      in if insert_pos < 0 then Undef
         else if moving_offsets_num > 0
         then Done (b\<lparr>bn_offs := shift_cells (bn_offs b) (nat insert_pos) (nat moving_offsets_num)\<rparr>)
         else Done b)"

text \<open>\<^verbatim>\<open>vdfs4_insert_into_node\<close>\<close>

definition vdfs4_insert_into_node :: "btree_conf \<Rightarrow> bnode \<Rightarrow> bytes \<Rightarrow> int \<Rightarrow> (status \<times> bnode) outcome" where
  "vdfs4_insert_into_node c b new_record insert_pos =
     (let len = record_len new_record in
      if d_free_space b < len then Bug
      else if \<not> in_mem new_record 0 len then Undef
      else bind_outcome (free_space_offset c b) (\<lambda>fs. case fs of
        Inl e \<Rightarrow> Done (Some e, b)
      | Inr off \<Rightarrow>
        bind_outcome (copy_record c b off (mem_read new_record 0 len) len) (\<lambda>b1.
        bind_outcome (move_offsets b1 insert_pos) (\<lambda>b2.
        bind_outcome (check_set_offset c b2 (u32 insert_pos) off) (\<lambda>(err, b3).
          if err \<noteq> success then Done (err, b3)
          else if d_free_space b3 < len + 4 then Bug
          else
            let b4 = b3\<lparr>d_recs_count := u16 (d_recs_count b3 + 1),
                        d_free_space := u16 (d_free_space b3 - (len + 4))\<rparr>
            in check_set_offset c b4 (d_recs_count b4) (u32 (off + len)))))))"

text \<open>
  \<^verbatim>\<open>__place_into_node\<close>: like the insertion, with the length given apart and, when only the key
  is placed, the value left as the memory had it. The result is the offset of the new record.
\<close>

definition place_into_node ::
    "btree_conf \<Rightarrow> bnode \<Rightarrow> bytes \<Rightarrow> int \<Rightarrow> int \<Rightarrow> bool \<Rightarrow> ((errno + int) \<times> bnode) outcome" where
  "place_into_node c b new_key new_rec_len insert_pos place_only_key =
     (let data_len = (if place_only_key then key_len new_key else new_rec_len) in
      if d_free_space b < new_rec_len + 4 then Bug
      else if \<not> in_mem new_key 0 data_len then Undef
      else bind_outcome (free_space_offset c b) (\<lambda>fs. case fs of
        Inl e \<Rightarrow> Done (Inl e, b)
      | Inr off \<Rightarrow>
        bind_outcome (copy_record c b off (mem_read new_key 0 data_len) new_rec_len) (\<lambda>b0.
        bind_outcome (copy_record c b0 (off + 6) (le_bytes 2 new_rec_len) (new_rec_len - 6)) (\<lambda>b1.
        bind_outcome (move_offsets b1 insert_pos) (\<lambda>b2.
        bind_outcome (check_set_offset c b2 (u32 insert_pos) off) (\<lambda>(err, b3).
          case err of Some e \<Rightarrow> Done (Inl e, b3)
          | None \<Rightarrow>
            let b4 = b3\<lparr>d_recs_count := u16 (d_recs_count b3 + 1),
                        d_free_space := u16 (d_free_space b3 - (new_rec_len + 4))\<rparr>
            in bind_outcome (check_set_offset c b4 (d_recs_count b4) (u32 (off + new_rec_len))) (\<lambda>(err, b5).
                 case err of Some e \<Rightarrow> Done (Inl e, b5) | None \<Rightarrow> Done (Inr off, b5))))))))"

text \<open>\<^verbatim>\<open>append_bnode\<close>\<close>

definition append_bnode :: "btree_conf \<Rightarrow> bnode \<Rightarrow> bytes \<Rightarrow> (status \<times> bnode) outcome" where
  "append_bnode c b append_record =
     bind_outcome (place_into_node c b append_record (record_len append_record) (d_recs_count b) False)
       (\<lambda>(r, b'). Done (case r of Inl e \<Rightarrow> Some e | Inr _ \<Rightarrow> success, b'))"

text \<open>\<^verbatim>\<open>insert_key_into_bnode\<close>: the result is the position of the record and its offset.\<close>

definition insert_key_into_bnode ::
    "btree_conf \<Rightarrow> bnode \<Rightarrow> bytes \<Rightarrow> int \<Rightarrow> int \<Rightarrow> ((errno + int \<times> int) \<times> bnode) outcome" where
  "insert_key_into_bnode c b new_key new_rec_len insert_pos =
     bind_outcome (place_into_node c b new_key new_rec_len insert_pos True)
       (\<lambda>(r, b'). Done (case r of Inl e \<Rightarrow> Inl e | Inr off \<Rightarrow> Inr (insert_pos, off), b'))"

text \<open>The value part of a record, written through the pointer an insertion returns.\<close>

definition write_value :: "bnode \<Rightarrow> int \<Rightarrow> bytes \<Rightarrow> bnode" where
  "write_value b off v = b\<lparr>bn_data := mem_write (bn_data b) (off + key_len (rec_at b off)) v\<rparr>"

section \<open>Deleting a record\<close>

text \<open>The first loop: offsets behind the deleted record drop by its length.\<close>

definition lower_offset :: "btree_conf \<Rightarrow> int \<Rightarrow> int \<Rightarrow> int \<Rightarrow> status \<times> bnode \<Rightarrow> (status \<times> bnode) outcome" where
  "lower_offset c del_offset rec_len i = (\<lambda>(st, b).
     if st \<noteq> success then Done (st, b)
     else bind_outcome (get_offset c b i) (\<lambda>cur_offs.
       if cur_offs > del_offset then check_set_offset c b i (u32 (cur_offs - rec_len)) else Done (success, b)))"

text \<open>The second loop: the cells behind the deleted index move down by one.\<close>

definition close_offset :: "btree_conf \<Rightarrow> int \<Rightarrow> status \<times> bnode \<Rightarrow> (status \<times> bnode) outcome" where
  "close_offset c i = (\<lambda>(st, b).
     if st \<noteq> success then Done (st, b)
     else bind_outcome (get_offset c b (i + 1)) (\<lambda>next_offset. check_set_offset c b i next_offset))"

definition delete_finish :: "btree_conf \<Rightarrow> bnode \<Rightarrow> int \<Rightarrow> int \<Rightarrow> (status \<times> bnode) outcome" where
  "delete_finish c b rec_len fs_offset =
     (let b1 = b\<lparr>d_recs_count := u16 (d_recs_count b - 1),
                 d_free_space := u16 (d_free_space b + rec_len + 4)\<rparr>
      in check_set_offset c b1 (d_recs_count b1) (u32 (fs_offset - rec_len)))"

text \<open>
  \<^verbatim>\<open>delete_from_node\<close> in a kernel without \<^verbatim>\<open>CONFIG_VDFS4_DEBUG\<close>; the debug build checks the free space
  once more and fills the bytes behind the records with \<open>0xA5\<close>.
\<close>

definition delete_from_node :: "btree_conf \<Rightarrow> bnode \<Rightarrow> int \<Rightarrow> (status \<times> bnode) outcome" where
  "delete_from_node c b del_index =
     bind_outcome (get_record c b del_index) (\<lambda>r. case r of
       Inl _ \<Rightarrow> if \<not> bt_mount_finished c then Done (Some EFAULT, b) else Bug
     | Inr del_offset \<Rightarrow>
       let rec_len = record_len (drop (nat del_offset) (bn_data b)) in
       bind_outcome (get_offset c b (d_recs_count b)) (\<lambda>fs_offset.
         if \<not> is_offset_correct c fs_offset \<or> \<not> is_offset_correct c del_offset then Done (Some EFAULT, b)
         else if rec_len > MAX_BTREE_REC_LEN then
           (if \<not> bt_mount_finished c then Done (Some EFAULT, b) else Bug)
         else if \<not> in_mem (bn_data b) (del_offset + rec_len) (fs_offset - del_offset - rec_len) then Undef
         else
           let b1 = b\<lparr>bn_data := mem_write (bn_data b) del_offset
                        (mem_read (bn_data b) (del_offset + rec_len) (fs_offset - del_offset - rec_len))\<rparr>
           in bind_outcome (for_each (lower_offset c del_offset rec_len)
                (map int [0..<nat (d_recs_count b1)]) (success, b1)) (\<lambda>(st, b2).
                if st \<noteq> success then Done (st, b2)
                else bind_outcome (for_each (close_offset c)
                  (map int [nat del_index..<nat (d_recs_count b2)]) (success, b2)) (\<lambda>(st, b3).
                    if st \<noteq> success then Done (st, b3)
                    else delete_finish c b3 rec_len fs_offset))))"

section \<open>Searching\<close>

text \<open>The loop of \<^verbatim>\<open>binary_search\<close>: the position and the offset it ends with.\<close>

function bsearch_loop :: "btree_conf \<Rightarrow> bnode \<Rightarrow> bytes \<Rightarrow> int \<Rightarrow> int \<Rightarrow> int \<Rightarrow> (errno + int \<times> int) outcome" where
  "bsearch_loop c b key first lst first_record =
     (if first < lst - 1 then
        let mid = first + (lst + 1 - first) div 2 in
        case get_record c b mid of
          Done (Inr r) \<Rightarrow>
            let cmp_res = comp_fn c (rec_at b r) key in
            if cmp_res = 0 then Done (Inr (mid, r))
            else if cmp_res < 0 then bsearch_loop c b key mid lst r
            else bsearch_loop c b key first mid first_record
        | Done (Inl e) \<Rightarrow> Done (Inl e)
        | Bug \<Rightarrow> Bug
        | Undef \<Rightarrow> Undef
      else Done (Inr (first, first_record)))"
  by pat_completeness auto

termination
  by (relation "measure (\<lambda>(c, b, key, first, lst, r). nat (lst - first))") auto

text \<open>\<^verbatim>\<open>binary_search\<close>: the position and the offset of the record found.\<close>

definition binary_search :: "btree_conf \<Rightarrow> bnode \<Rightarrow> bytes \<Rightarrow> (errno + int \<times> int) outcome" where
  "binary_search c b key =
     (let lst = d_recs_count b - 1 in
      bind_outcome (get_record c b 0) (\<lambda>r. case r of
        Inl e \<Rightarrow> Done (Inl e)
      | Inr first_record \<Rightarrow>
        let cmp_res = comp_fn c (rec_at b first_record) key in
        if cmp_res > 0 then Done (Inl ENOENT)
        else if cmp_res = 0 \<or> lst = 0 then Done (Inr (0, first_record))
        else bind_outcome (get_record c b lst) (\<lambda>r. case r of
          Inl e \<Rightarrow> Done (Inl e)
        | Inr record \<Rightarrow>
          if comp_fn c (rec_at b record) key \<le> 0 then Done (Inr (lst, record))
          else bsearch_loop c b key 0 lst first_record)))"

section \<open>The layout of a node\<close>

text \<open>The offsets of records that follow each other from byte \<open>s\<close> on.\<close>

fun blob_offsets :: "int \<Rightarrow> bytes list \<Rightarrow> int list" where
  "blob_offsets s [] = []"
| "blob_offsets s (x # xs) = s # blob_offsets (s + int (length x)) xs"

text \<open>A well-formed record: its length field says how long it is.\<close>

definition rec_ok :: "bytes \<Rightarrow> bool" where
  "rec_ok r \<longleftrightarrow> 8 \<le> length r \<and> length r < 65536 \<and> mem_read r 6 2 = le_bytes 2 (int (length r))"

lemma rec_ok_len:
  assumes "rec_ok r"
  shows "record_len r = int (length r)" "8 \<le> length r"
  using assms by (simp_all add: rec_ok_def record_len_def le16_at_def)

text \<open>The sizes a tree may have.\<close>

definition conf_ok :: "btree_conf \<Rightarrow> bool" where
  "conf_ok c \<longleftrightarrow> 64 \<le> node_size c \<and> node_size c \<le> 65536"

definition node_shape :: "btree_conf \<Rightarrow> bnode \<Rightarrow> bool" where
  "node_shape c b \<longleftrightarrow> conf_ok c \<and> length (bn_data b) = nat (node_size c)
     \<and> length (bn_offs b) = nat (node_size c div 4 - 1)"

text \<open>
  The invariant: the records fill the area from byte 32 to the free space without gaps, in some
  order; the cells name each of them once; the next cell holds the start of the free space; and
  \<^verbatim>\<open>free_space\<close> is the distance from there to that cell.
\<close>

definition node_layout :: "btree_conf \<Rightarrow> bnode \<Rightarrow> bytes list \<Rightarrow> bool" where
  "node_layout c b blobs \<longleftrightarrow> node_shape c b
     \<and> d_recs_count b = int (length blobs)
     \<and> (\<forall>r \<in> set blobs. rec_ok r)
     \<and> mem_read (bn_data b) 32 (int (length (concat blobs))) = concat blobs
     \<and> length blobs < length (bn_offs b)
     \<and> mset (take (length blobs) (bn_offs b)) = mset (blob_offsets 32 blobs)
     \<and> bn_offs b ! length blobs = 32 + int (length (concat blobs))
     \<and> d_free_space b = node_size c - 8 - 4 * d_recs_count b - bn_offs b ! length blobs
     \<and> 0 \<le> d_free_space b"

definition node_ok :: "btree_conf \<Rightarrow> bnode \<Rightarrow> bool" where
  "node_ok c b \<longleftrightarrow> (\<exists>blobs. node_layout c b blobs)"

text \<open>The abstraction: the records of a node in key order.\<close>

definition node_recs :: "bnode \<Rightarrow> bytes list" where
  "node_recs b = map (rec_at b) (take (nat (d_recs_count b)) (bn_offs b))"

text \<open>The part of the descriptor that says where the node stands in its tree.\<close>

definition node_head :: "bnode \<Rightarrow> int \<times> int \<times> int \<times> int \<times> int" where
  "node_head b = (bn_id b, d_node_id b, d_prev b, d_next b, d_type b)"

lemma length_blob_offsets [simp]: "length (blob_offsets s xs) = length xs"
  by (induction xs arbitrary: s) auto

lemma blob_offsets_append:
  "blob_offsets s (xs @ ys) = blob_offsets s xs @ blob_offsets (s + int (length (concat xs))) ys"
  by (induction xs arbitrary: s) (auto simp: algebra_simps)

lemma blob_offsets_split:
  assumes "p \<in> set (blob_offsets s xs)"
  obtains as r bs where "xs = as @ r # bs" "p = s + int (length (concat as))"
  using assms
proof (induction xs arbitrary: s thesis)
  case (Cons x xs)
  show ?case
  proof (cases "p = s")
    case True
    then show ?thesis using Cons.prems(1) [of "[]" x xs] by simp
  next
    case False
    with Cons.prems(2) have "p \<in> set (blob_offsets (s + int (length x)) xs)" by simp
    with Cons.IH obtain as r bs where "xs = as @ r # bs" "p = s + int (length x) + int (length (concat as))"
      by blast
    then show ?thesis using Cons.prems(1) [of "x # as" r bs] by simp
  qed
qed simp

lemma blob_offsets_range:
  assumes "p \<in> set (blob_offsets s xs)" "\<forall>r \<in> set xs. rec_ok r"
  shows "s \<le> p \<and> p + 8 \<le> s + int (length (concat xs))"
proof -
  obtain as r bs where "xs = as @ r # bs" "p = s + int (length (concat as))"
    by (rule blob_offsets_split [OF assms(1)])
  then show ?thesis using assms(2) by (auto simp: rec_ok_def)
qed

lemma record_len_prefix:
  assumes "mem_read m p (int (length r)) = r" "8 \<le> length r" "0 \<le> p"
  shows "record_len (drop (nat p) m) = record_len r"
proof -
  have "mem_read (drop (nat p) m) 6 2 = mem_read m (p + 6) 2"
    using assms(3) by (simp add: mem_read_def nat_add_distrib add.commute)
  also have "\<dots> = mem_read (mem_read m p (int (length r))) 6 2"
    using assms(2,3) by (subst mem_read_mem_read) auto
  finally show ?thesis using assms(1) by (simp add: record_len_def le16_at_def)
qed

lemma rec_in_eq:
  assumes "mem_read m p (int (length r)) = r" "rec_ok r" "0 \<le> p"
  shows "rec_in m p = r"
  using assms record_len_prefix [OF assms(1)] by (simp add: rec_in_def rec_ok_len)

lemma mem_read_concat:
  assumes "mem_read m s (int (length (concat (as @ r # bs)))) = concat (as @ r # bs)" "0 \<le> s"
  shows "mem_read m (s + int (length (concat as))) (int (length r)) = r"
proof -
  let ?a = "int (length (concat as))" and ?r = "int (length r)" and ?b = "int (length (concat bs))"
  have "mem_read m s (?a + (?r + ?b)) = concat as @ r @ concat bs"
    using assms(1) by (simp add: algebra_simps)
  moreover have "mem_read m s (?a + (?r + ?b)) = mem_read m s ?a @ mem_read m (s + ?a) (?r + ?b)"
    using assms(2) by (intro mem_read_split) auto
  moreover have "mem_read m (s + ?a) (?r + ?b) = mem_read m (s + ?a) ?r @ mem_read m (s + ?a + ?r) ?b"
    using assms(2) by (intro mem_read_split) auto
  ultimately have e: "concat as @ r @ concat bs
      = mem_read m s ?a @ mem_read m (s + ?a) ?r @ mem_read m (s + ?a + ?r) ?b" by simp
  have le: "length (mem_read m p (int n)) \<le> n" for p n by (simp add: mem_read_def)
  have len: "length (mem_read m s ?a) = length (concat as) \<and> length (mem_read m (s + ?a) ?r) = length r"
    using arg_cong [OF e, of length] le [of s "length (concat as)"] le [of "s + ?a" "length r"]
      le [of "s + ?a + ?r" "length (concat bs)"] by simp
  from e len show ?thesis by (simp add: append_eq_append_conv)
qed

section \<open>The offset table under the invariant\<close>

lemma node_shapeD:
  assumes "node_shape c b"
  shows "64 \<le> node_size c" "node_size c \<le> 65536" "int (length (bn_data b)) = node_size c"
    "int (length (bn_offs b)) = node_size c div 4 - 1" "length (bn_offs b) < 16384"
proof -
  have n: "64 \<le> node_size c" "node_size c \<le> 65536"
    "length (bn_data b) = nat (node_size c)" "length (bn_offs b) = nat (node_size c div 4 - 1)"
    using assms by (auto simp: node_shape_def conf_ok_def)
  show "64 \<le> node_size c" "node_size c \<le> 65536" by (rule n)+
  show "int (length (bn_data b)) = node_size c" using n by simp
  show l: "int (length (bn_offs b)) = node_size c div 4 - 1" using n by simp
  then show "length (bn_offs b) < 16384" using n by linarith
qed

lemma get_offset_addr_ok:
  assumes "node_shape c b" "0 \<le> i" "i < int (length (bn_offs b))"
  shows "vdfs4_get_offset_addr c b i = Done (Inr (nat i))"
proof -
  note s = node_shapeD [OF assms(1)]
  have u: "u32 (i + 1) = i + 1" using s assms by (intro u32_id) auto
  have i: "i + 1 \<le> node_size c div 4 - 1" using s(4) assms by simp
  have r: "0 \<le> cell_addr c i" "cell_addr c i < node_size c"
    using i s assms by (simp_all add: cell_addr_def u)
  then have "u32 (cell_addr c i) = cell_addr c i" using s by (intro u32_id) auto
  then show ?thesis using r assms by (simp add: vdfs4_get_offset_addr_def nat_less_iff)
qed

lemma get_offset_ok:
  assumes "node_shape c b" "0 \<le> i" "i < int (length (bn_offs b))"
  shows "get_offset c b i = Done (bn_offs b ! nat i)"
  by (simp add: get_offset_def get_offset_addr_ok [OF assms])

lemma check_set_offset_ok:
  assumes "node_shape c b" "0 \<le> i" "i < int (length (bn_offs b))" "0 < v" "v < node_size c"
  shows "check_set_offset c b i v = Done (success, b\<lparr>bn_offs := (bn_offs b)[nat i := v]\<rparr>)"
  using assms by (simp add: check_set_offset_def get_offset_addr_ok is_offset_correct_def)

lemma node_layoutD:
  assumes "node_layout c b blobs"
  shows "node_shape c b" "d_recs_count b = int (length blobs)" "\<forall>r \<in> set blobs. rec_ok r"
    "mem_read (bn_data b) 32 (int (length (concat blobs))) = concat blobs"
    "length blobs < length (bn_offs b)"
    "mset (take (length blobs) (bn_offs b)) = mset (blob_offsets 32 blobs)"
    "bn_offs b ! length blobs = 32 + int (length (concat blobs))"
    "d_free_space b = node_size c - 40 - 4 * int (length blobs) - int (length (concat blobs))"
    "0 \<le> d_free_space b"
  using assms by (simp_all add: node_layout_def)

lemma node_cells_range:
  assumes "node_layout c b blobs" "i < length blobs"
  shows "bn_offs b ! i \<in> set (blob_offsets 32 blobs)"
    and "32 \<le> bn_offs b ! i" "bn_offs b ! i < node_size c"
proof -
  note l = node_layoutD [OF assms(1)]
  have "bn_offs b ! i \<in> set (take (length blobs) (bn_offs b))"
    using assms(2) l(5) by (metis length_take min.absorb4 nth_mem nth_take)
  then show m: "bn_offs b ! i \<in> set (blob_offsets 32 blobs)" using l(6) by (metis mset_eq_setD)
  show "32 \<le> bn_offs b ! i" "bn_offs b ! i < node_size c"
    using blob_offsets_range [OF m l(3)] l(8,9) by auto
qed

lemma node_free_range:
  assumes "node_layout c b blobs"
  shows "32 \<le> bn_offs b ! length blobs" "bn_offs b ! length blobs < node_size c"
  using node_layoutD(7-9) [OF assms] by auto

lemma node_recs_layout:
  assumes "node_layout c b blobs"
  shows "node_recs b = map (rec_at b) (take (length blobs) (bn_offs b))" "length (node_recs b) = length blobs"
  using node_layoutD(2,5) [OF assms] by (simp_all add: node_recs_def)

lemma get_record_ok:
  assumes "node_layout c b blobs" "0 \<le> i" "i < d_recs_count b"
  shows "\<exists>off. get_record c b i = Done (Inr off) \<and> rec_at b off = node_recs b ! nat i
      \<and> off = bn_offs b ! nat i"
proof -
  note l = node_layoutD [OF assms(1)]
  have i: "nat i < length blobs" "i < int (length (bn_offs b))" using assms l(2,5) by auto
  have "get_offset c b i = Done (bn_offs b ! nat i)" using get_offset_ok [OF l(1) assms(2) i(2)] .
  moreover have "is_offset_correct c (bn_offs b ! nat i)"
    using node_cells_range [OF assms(1) i(1)] by (simp add: is_offset_correct_def)
  ultimately show ?thesis using assms i l(5) node_recs_layout [OF assms(1)] by (simp add: get_record_def)
qed

section \<open>Adding a record keeps the layout\<close>

lemma shift_cells_set:
  assumes "pos < cnt" "cnt < length cells"
  shows "(shift_cells cells pos (cnt - pos))[pos := x]
      = take pos cells @ x # take (cnt - pos) (drop pos cells) @ drop (Suc cnt) cells"
  using assms by (simp add: shift_cells_def list_update_append take_Suc_conv_app_nth min_def)

lemma last_cell_set:
  assumes "cnt < length cells"
  shows "cells[cnt := x] = take cnt cells @ x # drop (Suc cnt) cells"
  using assms by (simp add: upd_conv_take_nth_drop)

definition inserted_cells :: "int list \<Rightarrow> nat \<Rightarrow> nat \<Rightarrow> int \<Rightarrow> int \<Rightarrow> int list" where
  "inserted_cells cells pos cnt x y =
     (take pos cells @ x # take (cnt - pos) (drop pos cells)) @ y # drop (Suc (Suc cnt)) cells"

lemma inserted_cells_eq:
  assumes "pos \<le> cnt" "Suc cnt < length cells"
  shows "(take pos cells @ x # take (cnt - pos) (drop pos cells) @ drop (Suc cnt) cells)[Suc cnt := y]
      = inserted_cells cells pos cnt x y"
proof -
  have d: "drop (Suc cnt) cells = cells ! Suc cnt # drop (Suc (Suc cnt)) cells"
    using assms(2) by (simp add: Cons_nth_drop_Suc)
  have "length (take pos cells @ x # take (cnt - pos) (drop pos cells)) = Suc cnt"
    using assms by simp
  then show ?thesis unfolding inserted_cells_def d
    by (metis append_Cons append_assoc list_update_length)
qed

lemma inserted_cells_take:
  assumes "pos \<le> cnt" "Suc cnt < length cells"
  shows "take (Suc cnt) (inserted_cells cells pos cnt x y)
      = take pos cells @ x # take (cnt - pos) (drop pos cells)"
    and "inserted_cells cells pos cnt x y ! Suc cnt = y"
    and "length (inserted_cells cells pos cnt x y) = length cells"
proof -
  have "length (take pos cells @ x # take (cnt - pos) (drop pos cells)) = Suc cnt"
    using assms by simp
  then show "take (Suc cnt) (inserted_cells cells pos cnt x y)
      = take pos cells @ x # take (cnt - pos) (drop pos cells)"
    and "inserted_cells cells pos cnt x y ! Suc cnt = y"
    unfolding inserted_cells_def by (metis append_eq_conv_conj, metis nth_append_length)
  show "length (inserted_cells cells pos cnt x y) = length cells"
    using assms by (simp add: inserted_cells_def)
qed

lemma take_split: "pos \<le> cnt \<Longrightarrow> take cnt xs = take pos xs @ take (cnt - pos) (drop pos xs)"
  by (metis le_add_diff_inverse take_add)

text \<open>A record of the node is where its cell says, whatever happens above the free space.\<close>

lemma rec_in_blob:
  assumes "p \<in> set (blob_offsets s blobs)" "0 \<le> s" "\<forall>r \<in> set blobs. rec_ok r"
    "mem_read m s (int (length (concat blobs))) = concat blobs"
  shows "rec_in m p \<in> set blobs"
    and "mem_read m' s (int (length (concat blobs))) = concat blobs \<Longrightarrow> rec_in m' p = rec_in m p"
proof -
  obtain as r bs where d: "blobs = as @ r # bs" "p = s + int (length (concat as))"
    by (rule blob_offsets_split [OF assms(1)])
  have r: "rec_ok r" "0 \<le> p" using assms(2,3) d by auto
  have m: "rec_in m p = r"
    using mem_read_concat [OF assms(4) [unfolded d(1)] assms(2)] r by (intro rec_in_eq) (simp_all add: d(2))
  then show "rec_in m p \<in> set blobs" by (simp add: d(1))
  assume a: "mem_read m' s (int (length (concat blobs))) = concat blobs"
  have "rec_in m' p = r"
    using mem_read_concat [OF a [unfolded d(1)] assms(2)] r by (intro rec_in_eq) (simp_all add: d(2))
  with m show "rec_in m' p = rec_in m p" by simp
qed

lemma add_record_layout:
  assumes l: "node_layout c b blobs" and r: "rec_ok r" and fits: "int (length r) + 4 \<le> d_free_space b"
    and pos: "pos \<le> length blobs" and len: "length m = length (bn_data b)"
    and old: "mem_read m 32 (int (length (concat blobs))) = concat blobs"
    and new: "mem_read m (32 + int (length (concat blobs))) (int (length r)) = r"
  defines "off \<equiv> bn_offs b ! length blobs"
  defines "b' \<equiv> b\<lparr>bn_data := m,
      bn_offs := inserted_cells (bn_offs b) pos (length blobs) off (off + int (length r)),
      d_recs_count := d_recs_count b + 1, d_free_space := d_free_space b - (int (length r) + 4)\<rparr>"
  shows "node_layout c b' (blobs @ [r])"
    and "node_recs b' = take pos (node_recs b) @ r # drop pos (node_recs b)"
proof -
  note d = node_layoutD [OF l]
  have off: "off = 32 + int (length (concat blobs))" by (simp add: off_def d)
  have "8 \<le> length r" using r by (simp add: rec_ok_def)
  then have cnt: "Suc (length blobs) < length (bn_offs b)"
    using d(8) fits node_shapeD(4) [OF d(1)] by linarith
  note ic = inserted_cells_take [OF pos cnt, of off "off + int (length r)"]
  have ms: "mset (take (Suc (length blobs)) (bn_offs b')) = mset (blob_offsets 32 (blobs @ [r]))"
    using ic(1) take_split [OF pos, of "bn_offs b"] d(6)
    by (simp add: b'_def blob_offsets_append off)
  have area: "mem_read m 32 (int (length (concat (blobs @ [r])))) = concat (blobs @ [r])"
    using mem_read_split [of 32 "int (length (concat blobs))" "int (length r)" m] old new by simp
  have sh: "node_shape c b'" using d(1) ic(3) len by (simp add: node_shape_def b'_def)
  show "node_layout c b' (blobs @ [r])"
    unfolding node_layout_def
    using sh d(2,3,8) r area cnt ms ic(2,3) fits off
    by (auto simp: b'_def)
  have rec: "rec_at b' p = rec_at b p" if "p \<in> set (take (length blobs) (bn_offs b))" for p
  proof -
    have "p \<in> set (blob_offsets 32 blobs)" using that d(6) by (metis mset_eq_setD)
    from rec_in_blob(2) [OF this _ d(3) d(4) old] show ?thesis by (simp add: rec_at_def b'_def)
  qed
  have nr: "rec_at b' off = r" using rec_in_eq [OF new r] by (simp add: rec_at_def b'_def off)
  have "node_recs b' = map (rec_at b') (take pos (bn_offs b) @ off # take (length blobs - pos) (drop pos (bn_offs b)))"
    using ic(1) by (simp add: node_recs_def b'_def d(2) nat_add_distrib)
  also have "\<dots> = map (rec_at b) (take pos (bn_offs b)) @ r # map (rec_at b) (take (length blobs - pos) (drop pos (bn_offs b)))"
    using rec take_split [OF pos, of "bn_offs b"] nr by simp
  also have "\<dots> = take pos (node_recs b) @ r # drop pos (node_recs b)"
    using pos by (simp add: node_recs_layout(1) [OF l] take_map drop_map drop_take)
  finally show "node_recs b' = take pos (node_recs b) @ r # drop pos (node_recs b)" .
qed

section \<open>Placing a record is inserting into the list of records\<close>

lemma mem_write_nested:
  assumes "in_mem m p (int (length k))" "in_mem k q (int (length x))"
  shows "mem_write (mem_write m p k) (p + q) x = mem_write m p (mem_write k q x)"
proof -
  define a where "a = take (nat p) m"
  define e where "e = drop (nat p + length k) m"
  have n: "nat (p + q) = length a + nat q" "nat q + length x \<le> length k"
    using assms by (auto simp: in_mem_def nat_add_distrib a_def)
  have w: "mem_write m p k = a @ k @ e" by (simp add: mem_write_def a_def e_def)
  have "mem_write (a @ k @ e) (p + q) x = a @ (take (nat q) k @ x @ drop (nat q + length x) k) @ e"
    using n by (simp add: mem_write_def)
  moreover have "mem_write m p (mem_write k q x) = a @ mem_write k q x @ e"
    using n(2) by (simp add: mem_write_def a_def e_def)
  ultimately show ?thesis unfolding w by (simp only: mem_write_def [of k q x])
qed

lemma free_space_offset_ok:
  assumes "node_layout c b blobs"
  shows "free_space_offset c b = Done (Inr (bn_offs b ! length blobs))"
proof -
  note d = node_layoutD [OF assms]
  have "vdfs4_get_offset_addr c b (d_recs_count b) = Done (Inr (length blobs))"
    using get_offset_addr_ok [OF d(1), of "d_recs_count b"] d(2,5) by simp
  then show ?thesis
    using node_free_range [OF assms] by (simp add: free_space_offset_def is_offset_correct_def)
qed

text \<open>The steps that follow the copy: make room for the cell, set it, count the record.\<close>

lemma place_cells:
  assumes l: "node_layout c b blobs" and "0 \<le> pos" "pos \<le> d_recs_count b" "8 \<le> len"
    and fits: "len + 4 \<le> d_free_space b" and m: "length m = length (bn_data b)"
  defines "off \<equiv> bn_offs b ! length blobs"
  defines "cells \<equiv> inserted_cells (bn_offs b) (nat pos) (length blobs) off (off + len)"
  shows "\<exists>b2 b3. move_offsets (b\<lparr>bn_data := m\<rparr>) pos = Done b2
      \<and> check_set_offset c b2 (u32 pos) off = Done (success, b3)
      \<and> d_free_space b3 = d_free_space b
      \<and> check_set_offset c (b3\<lparr>d_recs_count := u16 (d_recs_count b3 + 1),
            d_free_space := u16 (d_free_space b3 - (len + 4))\<rparr>)
          (u16 (d_recs_count b3 + 1)) (u32 (off + len))
        = Done (success, b\<lparr>bn_data := m, bn_offs := cells,
            d_recs_count := d_recs_count b + 1, d_free_space := d_free_space b - (len + 4)\<rparr>)"
proof -
  note d = node_layoutD [OF l]
  note s = node_shapeD [OF d(1)]
  have cnt: "Suc (length blobs) < length (bn_offs b)"
    using d(8) fits s(4) \<open>8 \<le> len\<close> by linarith
  have pos: "nat pos \<le> length blobs" using assms(3) d(2) by simp
  have off: "32 \<le> off" "off < node_size c" using node_free_range [OF l] by (simp_all add: off_def)
  have off2: "off + len < node_size c" using d(7,8) fits off(1) by (simp add: off_def)
  define cells1 where "cells1 = (if nat pos < length blobs
      then shift_cells (bn_offs b) (nat pos) (length blobs - nat pos) else bn_offs b)"
  define b2 where "b2 = b\<lparr>bn_data := m, bn_offs := cells1\<rparr>"
  have mv: "move_offsets (b\<lparr>bn_data := m\<rparr>) pos = Done b2"
    using assms(2,3) d(2) by (auto simp: move_offsets_def Let_def b2_def cells1_def nat_diff_distrib)
  have len1: "length cells1 = length (bn_offs b)" using cnt by (auto simp: cells1_def shift_cells_def)
  have sh2: "node_shape c b2" using d(1) m len1 by (simp add: node_shape_def b2_def)
  have up: "u32 pos = pos" using assms(2) pos cnt s(5) by (intro u32_id) linarith+
  define cells2 where "cells2 = take (nat pos) (bn_offs b) @ off #
      take (length blobs - nat pos) (drop (nat pos) (bn_offs b)) @ drop (Suc (length blobs)) (bn_offs b)"
  have c2: "cells1[nat pos := off] = cells2"
    using pos cnt shift_cells_set [of "nat pos" "length blobs" "bn_offs b" off]
      last_cell_set [of "length blobs" "bn_offs b" off]
    by (auto simp: cells1_def cells2_def)
  define b3 where "b3 = b\<lparr>bn_data := m, bn_offs := cells2\<rparr>"
  have st1: "check_set_offset c b2 (u32 pos) off = Done (success, b3)"
    unfolding up using check_set_offset_ok [OF sh2 assms(2), of off] pos cnt off len1 c2
    by (simp add: b2_def b3_def)
  have rc: "u16 (d_recs_count b3 + 1) = d_recs_count b + 1"
    using d(2) cnt s(5) by (simp add: b3_def u16_id)
  have fs: "u16 (d_free_space b3 - (len + 4)) = d_free_space b - (len + 4)"
    unfolding b3_def using fits d(8) s(2) \<open>8 \<le> len\<close> by (intro trans [OF u16_id]) auto
  have uo: "u32 (off + len) = off + len" using off off2 s(2) \<open>8 \<le> len\<close> by (intro u32_id) linarith+
  have sh3: "node_shape c (b3\<lparr>d_recs_count := d_recs_count b + 1,
      d_free_space := d_free_space b - (len + 4)\<rparr>)"
    using sh2 len1 c2 by (simp add: node_shape_def b2_def b3_def flip: c2)
  have "check_set_offset c (b3\<lparr>d_recs_count := u16 (d_recs_count b3 + 1),
            d_free_space := u16 (d_free_space b3 - (len + 4))\<rparr>)
          (u16 (d_recs_count b3 + 1)) (u32 (off + len))
        = Done (success, b\<lparr>bn_data := m, bn_offs := cells2[Suc (length blobs) := off + len],
            d_recs_count := d_recs_count b + 1, d_free_space := d_free_space b - (len + 4)\<rparr>)"
    unfolding rc fs uo
    using check_set_offset_ok [OF sh3, of "d_recs_count b + 1" "off + len"] d(2) cnt off off2
      \<open>8 \<le> len\<close> len1 arg_cong [OF c2, of length]
    by (simp add: b3_def nat_add_distrib)
  moreover have "cells2[Suc (length blobs) := off + len] = cells"
    unfolding cells2_def cells_def by (rule inserted_cells_eq [OF pos cnt])
  ultimately show ?thesis using mv st1 by (auto simp: b3_def)
qed

text \<open>
  \<^verbatim>\<open>__place_into_node\<close>: with room for the record and its cell it succeeds, keeps the layout, and
  the list of records gains one record at the position asked for. The record starts with the
  bytes of the key, its length field set.
\<close>

lemma place_into_node_ok:
  assumes l: "node_layout c b blobs" and pos: "0 \<le> pos" "pos \<le> d_recs_count b"
    and dl: "dl = (if only_key then key_len k else len)" "8 \<le> dl" "dl \<le> len" "in_mem k 0 dl"
    and fits: "\<not> is_node_full b len"
  shows "\<exists>b' r. place_into_node c b k len pos only_key = Done (Inr (bn_offs b ! length blobs), b')
      \<and> node_layout c b' (blobs @ [r]) \<and> int (length r) = len
      \<and> mem_read r 0 dl = mem_write (mem_read k 0 dl) 6 (le_bytes 2 len)
      \<and> rec_at b' (bn_offs b ! length blobs) = r
      \<and> node_recs b' = take (nat pos) (node_recs b) @ r # drop (nat pos) (node_recs b)
      \<and> node_head b' = node_head b
      \<and> d_free_space b' = d_free_space b - (len + 4)
      \<and> take (Suc (length blobs)) (bn_offs b') = take (nat pos) (bn_offs b) @ bn_offs b ! length blobs
          # take (length blobs - nat pos) (drop (nat pos) (bn_offs b))"
proof -
  note d = node_layoutD [OF l]
  note s = node_shapeD [OF d(1)]
  define off where "off = bn_offs b ! length blobs"
  have fs: "len + 4 \<le> d_free_space b" using fits by (simp add: is_node_full_def)
  have off: "off = 32 + int (length (concat blobs))" by (simp add: off_def d)
  define k' where "k' = mem_read k 0 dl"
  have k': "int (length k') = dl" using dl by (simp add: k'_def)
  define key where "key = mem_write k' 6 (le_bytes 2 len)"
  have keylen: "int (length key) = dl" using k' dl by (simp add: key_def in_mem_def)
  have room: "off + len \<le> node_size c - 4 - 4 * (d_recs_count b + 2)"
    using fs d(2,8) by (simp add: off)
  have inm: "in_mem (bn_data b) off len"
    using room s(3) dl(2,3) d(2) by (auto simp: in_mem_def off)
  then have inm': "in_mem (bn_data b) off dl" using dl by (auto simp: in_mem_def)
  define m where "m = mem_write (bn_data b) off key"
  have c1: "copy_record c b off k' len = Done (b\<lparr>bn_data := mem_write (bn_data b) off k'\<rparr>)"
    using room inm k' dl off by (simp add: copy_record_def descr_size_def)
  have "mem_write (mem_write (bn_data b) off k') (off + 6) (le_bytes 2 len) = m"
    unfolding m_def key_def using inm' k' dl by (intro mem_write_nested) (auto simp: in_mem_def)
  moreover have "in_mem (mem_write (bn_data b) off k') (off + 6) (len - 6)"
    using inm inm' k' dl by (auto simp: in_mem_def mem_write_def)
  ultimately have c2: "copy_record c (b\<lparr>bn_data := mem_write (bn_data b) off k'\<rparr>) (off + 6)
      (le_bytes 2 len) (len - 6) = Done (b\<lparr>bn_data := m\<rparr>)"
    using room dl off by (simp add: copy_record_def descr_size_def)
  have lm: "length m = length (bn_data b)" using inm' keylen by (simp add: m_def)
  define r where "r = mem_read m off len"
  have rl: "int (length r) = len"
    unfolding r_def using inm lm by (intro length_mem_read) (simp add: in_mem_def)
  have rdl: "mem_read r 0 dl = key"
    using mem_read_write_same [of "bn_data b" off key] inm' keylen dl off
    by (simp add: r_def mem_read_mem_read m_def)
  have "mem_read r 6 2 = mem_read key 6 2"
    using dl rl by (simp add: mem_read_mem_read flip: rdl)
  also have "\<dots> = le_bytes 2 len"
    unfolding key_def using mem_read_write_same [of k' 6 "le_bytes 2 len"] k' dl by (simp add: in_mem_def)
  finally have rok: "rec_ok r"
    using fs d(8) s(2) rl dl by (auto simp: rec_ok_def)
  have old: "mem_read m 32 (int (length (concat blobs))) = concat blobs"
    unfolding m_def using mem_read_write_below [of "bn_data b" off key 32] inm' keylen d(4) off by simp
  have new: "mem_read m (32 + int (length (concat blobs))) (int (length r)) = r"
    by (simp add: rl off flip: r_def) (simp add: r_def off)
  obtain b2 b3 where st: "move_offsets (b\<lparr>bn_data := m\<rparr>) pos = Done b2"
      "check_set_offset c b2 (u32 pos) off = Done (success, b3)" "d_free_space b3 = d_free_space b"
      "check_set_offset c (b3\<lparr>d_recs_count := u16 (d_recs_count b3 + 1),
            d_free_space := u16 (d_free_space b3 - (len + 4))\<rparr>)
          (u16 (d_recs_count b3 + 1)) (u32 (off + len))
        = Done (success, b\<lparr>bn_data := m, bn_offs := inserted_cells (bn_offs b) (nat pos) (length blobs) off (off + len),
            d_recs_count := d_recs_count b + 1, d_free_space := d_free_space b - (len + 4)\<rparr>)"
    using place_cells [OF l pos _ fs lm] dl unfolding off_def by fastforce
  define b' where "b' = b\<lparr>bn_data := m,
      bn_offs := inserted_cells (bn_offs b) (nat pos) (length blobs) off (off + len),
      d_recs_count := d_recs_count b + 1, d_free_space := d_free_space b - (len + 4)\<rparr>"
  have run: "place_into_node c b k len pos only_key = Done (Inr off, b')"
    unfolding place_into_node_def Let_def free_space_offset_ok [OF l]
    using fs dl(4) c1 c2 st by (simp add: b'_def off_def k'_def flip: dl(1))
  have fits': "int (length r) + 4 \<le> d_free_space b" and p: "nat pos \<le> length blobs"
    using fs rl pos d(2) by auto
  note a = add_record_layout [OF l rok fits' p lm old new, folded off_def, unfolded rl, folded b'_def]
  have cnt: "Suc (length blobs) < length (bn_offs b)" using d(8) fs s(4) dl by linarith
  have "take (Suc (length blobs)) (bn_offs b') = take (nat pos) (bn_offs b) @ off
      # take (length blobs - nat pos) (drop (nat pos) (bn_offs b))"
    using inserted_cells_take(1) [OF p cnt] by (simp add: b'_def)
  moreover have "rec_at b' off = r" using rec_in_eq [OF new rok] by (simp add: rec_at_def b'_def off)
  ultimately show ?thesis
    using run a rl rdl
    by (intro exI [of _ b'] exI [of _ r]) (simp add: off_def key_def k'_def b'_def node_head_def)
qed

lemma mem_write_same: "in_mem m p n \<Longrightarrow> mem_write m p (mem_read m p n) = m"
proof -
  assume "in_mem m p n"
  then have "length (mem_read m p n) = nat n" using length_mem_read [of m p n] by linarith
  then show ?thesis
    by (simp add: mem_write_def) (metis append_take_drop_id drop_drop add.commute mem_read_def)
qed

lemma append_bnode_ok:
  assumes l: "node_layout c b blobs" and r: "rec_ok r" and fits: "\<not> is_node_full b (int (length r))"
  shows "\<exists>b'. append_bnode c b r = Done (success, b') \<and> node_layout c b' (blobs @ [r])
      \<and> node_recs b' = node_recs b @ [r] \<and> node_head b' = node_head b
      \<and> d_free_space b' = d_free_space b - (int (length r) + 4)
      \<and> take (length blobs) (bn_offs b') = take (length blobs) (bn_offs b)"
proof -
  have len: "record_len r = int (length r)" "8 \<le> int (length r)" using rec_ok_len [OF r] by auto
  have wr: "mem_write r 6 (le_bytes 2 (int (length r))) = r"
    using r mem_write_same [of r 6 2] by (simp add: rec_ok_def in_mem_def)
  have rc: "d_recs_count b = int (length blobs)" "length (node_recs b) = length blobs"
    using node_layoutD(2) [OF l] node_recs_layout [OF l] by auto
  have im: "in_mem r 0 (int (length r))" by (simp add: in_mem_def)
  have z: "0 \<le> d_recs_count b" by (simp add: rc)
  have dl: "int (length r) = (if False then key_len r else int (length r))" by simp
  obtain b' r' where p: "place_into_node c b r (int (length r)) (d_recs_count b) False
        = Done (Inr (bn_offs b ! length blobs), b')" "node_layout c b' (blobs @ [r'])"
      "int (length r') = int (length r)"
      "mem_read r' 0 (int (length r)) = mem_write (mem_read r 0 (int (length r))) 6 (le_bytes 2 (int (length r)))"
      "node_recs b' = take (nat (d_recs_count b)) (node_recs b) @ r' # drop (nat (d_recs_count b)) (node_recs b)"
      "node_head b' = node_head b" "d_free_space b' = d_free_space b - (int (length r) + 4)"
      "take (Suc (length blobs)) (bn_offs b') = take (nat (d_recs_count b)) (bn_offs b) @ bn_offs b ! length blobs
          # take (length blobs - nat (d_recs_count b)) (drop (nat (d_recs_count b)) (bn_offs b))"
    using place_into_node_ok [OF l z order_refl dl len(2) order_refl im fits] by blast
  have "take (length blobs) (bn_offs b') = take (length blobs) (take (Suc (length blobs)) (bn_offs b'))" by simp
  also have "\<dots> = take (length blobs) (bn_offs b)" unfolding p(8) using rc node_layoutD(5) [OF l] by simp
  finally have "take (length blobs) (bn_offs b') = take (length blobs) (bn_offs b)" .
  moreover have "r' = r" using p(3,4) wr mem_read_full [of r'] by simp
  ultimately show ?thesis using p rc by (simp add: append_bnode_def len(1))
qed

text \<open>\<^verbatim>\<open>vdfs4_insert_into_node\<close> inserts the record it is given.\<close>

lemma insert_into_node_ok:
  assumes l: "node_layout c b blobs" and r: "rec_ok r" and fits: "\<not> is_node_full b (int (length r))"
    and pos: "0 \<le> pos" "pos \<le> d_recs_count b"
  shows "\<exists>b'. vdfs4_insert_into_node c b r pos = Done (success, b') \<and> node_layout c b' (blobs @ [r])
      \<and> node_recs b' = take (nat pos) (node_recs b) @ r # drop (nat pos) (node_recs b)
      \<and> node_head b' = node_head b"
proof -
  note d = node_layoutD [OF l]
  note s = node_shapeD [OF d(1)]
  let ?len = "int (length r)"
  define off where "off = bn_offs b ! length blobs"
  have len: "record_len r = ?len" "8 \<le> ?len" using rec_ok_len [OF r] by auto
  have fs: "?len + 4 \<le> d_free_space b" using fits by (simp add: is_node_full_def)
  have off: "off = 32 + int (length (concat blobs))" by (simp add: off_def d)
  have room: "off + ?len \<le> node_size c - 4 - 4 * (d_recs_count b + 2)"
    using fs d(2,8) by (simp add: off)
  have inm: "in_mem (bn_data b) off ?len" using room s(3) d(2) by (auto simp: in_mem_def off)
  define m where "m = mem_write (bn_data b) off r"
  have c1: "copy_record c b off r ?len = Done (b\<lparr>bn_data := m\<rparr>)"
    using room inm off by (simp add: copy_record_def descr_size_def m_def)
  have lm: "length m = length (bn_data b)" using inm by (simp add: m_def)
  have old: "mem_read m 32 (int (length (concat blobs))) = concat blobs"
    unfolding m_def using mem_read_write_below [of "bn_data b" off r 32] inm d(4) off by simp
  have new: "mem_read m (32 + int (length (concat blobs))) ?len = r"
    unfolding m_def using mem_read_write_same [OF inm] off by simp
  define b' where "b' = b\<lparr>bn_data := m,
      bn_offs := inserted_cells (bn_offs b) (nat pos) (length blobs) off (off + ?len),
      d_recs_count := d_recs_count b + 1, d_free_space := d_free_space b - (?len + 4)\<rparr>"
  obtain b2 b3 where st: "move_offsets (b\<lparr>bn_data := m\<rparr>) pos = Done b2"
      "check_set_offset c b2 (u32 pos) off = Done (success, b3)" "d_free_space b3 = d_free_space b"
      "check_set_offset c (b3\<lparr>d_recs_count := u16 (d_recs_count b3 + 1),
            d_free_space := u16 (d_free_space b3 - (?len + 4))\<rparr>)
          (u16 (d_recs_count b3 + 1)) (u32 (off + ?len)) = Done (success, b')"
    using place_cells [OF l pos len(2) fs lm] unfolding off_def b'_def by fastforce
  have "vdfs4_insert_into_node c b r pos = Done (success, b')"
    unfolding vdfs4_insert_into_node_def Let_def free_space_offset_ok [OF l] len(1)
    using fs c1 st by (simp add: off_def in_mem_def)
  moreover have p: "nat pos \<le> length blobs" using pos d(2) by auto
  note add_record_layout [OF l r fs p lm old new, folded off_def, folded b'_def]
  moreover have "node_head b' = node_head b" by (simp add: b'_def node_head_def)
  ultimately show ?thesis by blast
qed

section \<open>Deleting a record is removing it from the list of records\<close>

text \<open>What the first loop does to an offset.\<close>

definition lowered :: "int \<Rightarrow> int \<Rightarrow> int \<Rightarrow> int" where
  "lowered del len off = (if off > del then off - len else off)"

lemma node_shape_offs [simp]:
  "length cells = length (bn_offs b) \<Longrightarrow> node_shape c (b\<lparr>bn_offs := cells\<rparr>) = node_shape c b"
  by (simp add: node_shape_def)

lemma lower_loop:
  assumes s: "node_shape c b" and n: "n \<le> length (bn_offs b)"
    and r: "\<forall>i < n. bn_offs b ! i > del \<longrightarrow> 0 < bn_offs b ! i - len \<and> bn_offs b ! i - len < node_size c"
  shows "for_each (lower_offset c del len) (map int [0..<n]) (success, b)
      = Done (success, b\<lparr>bn_offs := map (lowered del len) (take n (bn_offs b)) @ drop n (bn_offs b)\<rparr>)"
  using n r
proof (induction n)
  case (Suc n)
  let ?cells = "map (lowered del len) (take n (bn_offs b)) @ drop n (bn_offs b)"
  let ?b = "b\<lparr>bn_offs := ?cells\<rparr>" and ?v = "bn_offs b ! n"
  have nl: "n < length (bn_offs b)" using Suc.prems by simp
  have s': "node_shape c ?b" using s nl by simp
  have nth: "?cells ! n = ?v" using nl by (simp add: nth_append)
  have d: "drop n (bn_offs b) = ?v # drop (Suc n) (bn_offs b)" using nl by (simp add: Cons_nth_drop_Suc)
  have get: "get_offset c ?b (int n) = Done ?v" using get_offset_ok [OF s', of "int n"] nl nth by simp
  have upd: "?cells[n := lowered del len ?v]
      = map (lowered del len) (take (Suc n) (bn_offs b)) @ drop (Suc n) (bn_offs b)"
    using nl by (simp add: d list_update_append take_Suc_conv_app_nth)
  have step: "lower_offset c del len (int n) (success, ?b)
      = Done (success, b\<lparr>bn_offs := map (lowered del len) (take (Suc n) (bn_offs b)) @ drop (Suc n) (bn_offs b)\<rparr>)"
  proof (cases "?v > del")
    case True
    with Suc.prems(2) have v: "0 < ?v - len" "?v - len < node_size c" by auto
    then have "u32 (?v - len) = ?v - len" using node_shapeD(2) [OF s] by (intro u32_id) auto
    with True v show ?thesis
      using check_set_offset_ok [OF s', of "int n" "?v - len"] nl upd get
      by (simp add: lower_offset_def lowered_def)
  next
    case False
    with upd nl nth have "map (lowered del len) (take (Suc n) (bn_offs b)) @ drop (Suc n) (bn_offs b) = ?cells"
      by (simp add: lowered_def) (metis list_update_id)
    with False get show ?thesis by (simp add: lower_offset_def)
  qed
  show ?case using Suc.IH Suc.prems step by (simp add: for_each_append)
qed simp

lemma close_loop:
  assumes s: "node_shape c b" and n: "d \<le> n" "n < length (bn_offs b)"
    and r: "\<forall>i. d < i \<and> i \<le> n \<longrightarrow> 0 < bn_offs b ! i \<and> bn_offs b ! i < node_size c"
  shows "for_each (close_offset c) (map int [d..<n]) (success, b)
      = Done (success, b\<lparr>bn_offs := take d (bn_offs b) @ take (n - d) (drop (Suc d) (bn_offs b)) @ drop n (bn_offs b)\<rparr>)"
  using n r
proof (induction n rule: dec_induct)
  case base
  then show ?case by simp
next
  case (step n)
  let ?cells = "take d (bn_offs b) @ take (n - d) (drop (Suc d) (bn_offs b)) @ drop n (bn_offs b)"
  let ?b = "b\<lparr>bn_offs := ?cells\<rparr>" and ?v = "bn_offs b ! Suc n"
  have nl: "Suc n < length (bn_offs b)" "d \<le> n" using step by auto
  have len: "length (take d (bn_offs b) @ take (n - d) (drop (Suc d) (bn_offs b))) = n" using nl by simp
  have s': "node_shape c ?b" using s nl by simp
  have d: "drop n (bn_offs b) = bn_offs b ! n # ?v # drop (Suc (Suc n)) (bn_offs b)"
    using nl by (simp add: Cons_nth_drop_Suc)
  have ds: "drop (Suc n) (bn_offs b) = ?v # drop (Suc (Suc n)) (bn_offs b)"
    using nl by (simp add: Cons_nth_drop_Suc)
  have nth: "?cells ! Suc n = ?v" using len nl unfolding d by (auto simp: nth_append)
  have get: "get_offset c ?b (int n + 1) = Done ?v"
    using get_offset_ok [OF s', of "int n + 1"] nl nth by (simp add: nat_add_distrib)
  have tk: "take (Suc n - d) (drop (Suc d) (bn_offs b)) = take (n - d) (drop (Suc d) (bn_offs b)) @ [?v]"
    using nl by (simp add: Suc_diff_le take_Suc_conv_app_nth)
  have upd: "?cells[n := ?v] = take d (bn_offs b) @ take (Suc n - d) (drop (Suc d) (bn_offs b)) @ drop (Suc n) (bn_offs b)"
    unfolding tk d ds using len
    by (simp add: list_update_append del: append_assoc flip: append_assoc)
  have "close_offset c (int n) (success, ?b) = Done (success, b\<lparr>bn_offs := take d (bn_offs b)
      @ take (Suc n - d) (drop (Suc d) (bn_offs b)) @ drop (Suc n) (bn_offs b)\<rparr>)"
    using check_set_offset_ok [OF s', of "int n" ?v] get nl step.prems(2) upd
    by (simp add: close_offset_def)
  moreover have "map int [d..<Suc n] = map int [d..<n] @ [int n]" using nl by simp
  ultimately show ?case using step by (simp add: for_each_append)
qed

lemma blob_offsets_shift: "map (\<lambda>p. p - k) (blob_offsets s xs) = blob_offsets (s - k) xs"
  by (induction xs arbitrary: s) (auto simp: algebra_simps)

lemma distinct_blob_offsets: "\<forall>r \<in> set xs. rec_ok r \<Longrightarrow> distinct (blob_offsets s xs)"
proof (induction xs arbitrary: s)
  case (Cons x xs)
  have "s \<notin> set (blob_offsets (s + int (length x)) xs)"
  proof
    assume "s \<in> set (blob_offsets (s + int (length x)) xs)"
    from blob_offsets_range [OF this] Cons.prems rec_ok_len(2) [of x] show False by auto
  qed
  with Cons show ?case by auto
qed simp

text \<open>The offsets of the records, after the record between \<open>as\<close> and \<open>bs\<close> is gone.\<close>

lemma lowered_offsets:
  fixes s :: int
  assumes "\<forall>x \<in> set (as @ r # bs). rec_ok x"
  defines "del \<equiv> s + int (length (concat as))"
  shows "map (lowered del (int (length r))) (blob_offsets s (as @ r # bs))
      = blob_offsets s as @ del # blob_offsets del bs"
proof -
  have "\<forall>p \<in> set (blob_offsets s as). p < del"
    using blob_offsets_range [of _ s as] assms by fastforce
  then have a: "map (lowered del (int (length r))) (blob_offsets s as) = blob_offsets s as"
    by (intro map_idI) (auto simp: lowered_def)
  have "\<forall>p \<in> set (blob_offsets (del + int (length r)) bs). p > del"
    using blob_offsets_range [of _ "del + int (length r)" bs] assms rec_ok_len(2) [of r] by fastforce
  then have "map (lowered del (int (length r))) (blob_offsets (del + int (length r)) bs)
      = map (\<lambda>p. p - int (length r)) (blob_offsets (del + int (length r)) bs)"
    by (simp add: lowered_def)
  then show ?thesis using a by (simp add: blob_offsets_append blob_offsets_shift del_def lowered_def)
qed

text \<open>The records stay what they were, each at its lowered offset.\<close>

lemma rec_in_lowered:
  assumes ok: "\<forall>x \<in> set (as @ r # bs). rec_ok x" and "0 \<le> s"
    and m: "mem_read m s (int (length (concat (as @ r # bs)))) = concat (as @ r # bs)"
    and m': "mem_read m' s (int (length (concat (as @ bs)))) = concat (as @ bs)"
    and p: "p \<in> set (blob_offsets s (as @ r # bs))" "p \<noteq> s + int (length (concat as))"
  shows "rec_in m' (lowered (s + int (length (concat as))) (int (length r)) p) = rec_in m p"
proof -
  let ?del = "s + int (length (concat as))"
  have eq: "rec_in m1 (s + int (length (concat xs))) = q"
    if "mem_read m1 s (int (length (concat (xs @ q # ys)))) = concat (xs @ q # ys)" "rec_ok q" for m1 xs q ys
    using mem_read_concat [OF that(1) \<open>0 \<le> s\<close>] that(2) \<open>0 \<le> s\<close> by (intro rec_in_eq) auto
  have "p \<in> set (blob_offsets s as) \<or> p \<in> set (blob_offsets (?del + int (length r)) bs)"
    using p by (auto simp: blob_offsets_append)
  then show ?thesis
  proof
    assume "p \<in> set (blob_offsets s as)"
    then obtain xs q ys where d: "as = xs @ q # ys" "p = s + int (length (concat xs))"
      by (rule blob_offsets_split)
    have q: "rec_ok q" "8 \<le> length q" using ok d rec_ok_len(2) [of q] by auto
    have "lowered ?del (int (length r)) p = p" using d q by (simp add: lowered_def)
    then show ?thesis using eq [of m xs q "ys @ r # bs"] eq [of m' xs q "ys @ bs"] m m' q d by simp
  next
    assume "p \<in> set (blob_offsets (?del + int (length r)) bs)"
    then obtain xs q ys where d: "bs = xs @ q # ys" "p = ?del + int (length r) + int (length (concat xs))"
      by (rule blob_offsets_split)
    have q: "rec_ok q" "8 \<le> length r" using ok d rec_ok_len(2) [of r] by auto
    have "lowered ?del (int (length r)) p = s + int (length (concat (as @ xs)))"
      using d q by (simp add: lowered_def)
    moreover have "p = s + int (length (concat (as @ r # xs)))" using d by simp
    moreover have "rec_in m (s + int (length (concat (as @ r # xs)))) = q"
      by (rule eq [of _ _ _ ys]) (use m d q in simp_all)
    moreover have "rec_in m' (s + int (length (concat (as @ xs)))) = q"
      by (rule eq [of _ _ _ ys]) (use m' d q in simp_all)
    ultimately show ?thesis by metis
  qed
qed

text \<open>The \<^verbatim>\<open>memmove\<close> closes the gap.\<close>

lemma delete_memmove:
  assumes m: "mem_read m s (int (length (concat (as @ r # bs)))) = concat (as @ r # bs)" and "0 \<le> s"
    and inm: "in_mem m s (int (length (concat (as @ r # bs))))"
  defines "del \<equiv> s + int (length (concat as))"
  defines "m' \<equiv> mem_write m del (mem_read m (del + int (length r)) (int (length (concat bs))))"
  shows "mem_read m' s (int (length (concat (as @ bs)))) = concat (as @ bs)" "length m' = length m"
proof -
  let ?a = "int (length (concat as))" and ?r = "int (length r)" and ?b = "int (length (concat bs))"
  have tail: "mem_read m (del + ?r) ?b = concat bs"
    using mem_read_concat [of m s "as @ [r]" "concat bs" "[]"] m \<open>0 \<le> s\<close> by (simp add: del_def algebra_simps)
  have im: "in_mem m del ?b" using inm \<open>0 \<le> s\<close> by (auto simp: in_mem_def del_def)
  have head: "mem_read m s ?a = concat as"
    using mem_read_concat [of m s "[]" "concat as" "r # bs"] m \<open>0 \<le> s\<close> by simp
  have "mem_read m' s (?a + ?b) = mem_read m' s ?a @ mem_read m' (s + ?a) ?b"
    using \<open>0 \<le> s\<close> by (intro mem_read_split) auto
  moreover have "mem_read m' s ?a = concat as"
    unfolding m'_def tail using mem_read_write_below [OF im \<open>0 \<le> s\<close>, of ?a] head by (simp add: del_def)
  moreover have "mem_read m' (s + ?a) ?b = concat bs"
    unfolding m'_def tail using mem_read_write_same [OF im] by (simp add: del_def)
  ultimately show "mem_read m' s (int (length (concat (as @ bs)))) = concat (as @ bs)" by simp
  show "length m' = length m" unfolding m'_def tail using im by simp
qed

text \<open>The cells after both loops and the last store.\<close>

lemma deleted_cells:
  fixes cells :: "int list" and f :: "int \<Rightarrow> int"
  assumes "d < cnt" "cnt < length cells"
  defines "low \<equiv> map f (take cnt cells) @ drop cnt cells"
  defines "cl \<equiv> take d low @ take (cnt - d) (drop (Suc d) low) @ drop cnt low"
  shows "take (cnt - 1) (cl[cnt - 1 := v]) = map f (take d cells @ drop (Suc d) (take cnt cells))"
    and "cl[cnt - 1 := v] ! (cnt - 1) = v" "length cl = length cells"
proof -
  have len: "length low = length cells" using assms(2) by (simp add: low_def)
  show lc: "length cl = length cells" using assms(1,2) len by (simp add: cl_def)
  then show "cl[cnt - 1 := v] ! (cnt - 1) = v" using assms(1,2) by simp
  have t: "take cnt low = map f (take cnt cells)" using assms(2) by (simp add: low_def)
  obtain k where k: "cnt = Suc k" "d \<le> k" using assms(1) by (cases cnt) auto
  have "take (cnt - 1) cl = take d low @ take (cnt - Suc d) (drop (Suc d) low)"
    using assms(2) len k by (simp add: cl_def min_absorb1 min_absorb2 Suc_diff_le)
  also have "take d low = map f (take d cells)"
    using t assms(1) by (metis less_imp_le min.absorb1 take_map take_take)
  also have "take (cnt - Suc d) (drop (Suc d) low) = drop (Suc d) (take cnt low)" by (simp add: drop_take)
  finally show "take (cnt - 1) (cl[cnt - 1 := v]) = map f (take d cells @ drop (Suc d) (take cnt cells))"
    unfolding t by (simp add: drop_map)
qed

lemma mset_remove_nth: "i < length xs \<Longrightarrow> mset (take i xs @ drop (Suc i) xs) = mset xs - {#xs ! i#}"
proof -
  assume i: "i < length xs"
  have "mset xs = mset (take i xs @ xs ! i # drop (Suc i) xs)" using i by (metis id_take_nth_drop)
  then show ?thesis by simp
qed

lemma delete_layout:
  assumes l: "node_layout c b (as @ r # bs)" and i: "i \<le> length as + length bs"
    and del: "bn_offs b ! i = 32 + int (length (concat as))"
    and len: "length m = length (bn_data b)" "length cells = length (bn_offs b)"
    and m: "mem_read m 32 (int (length (concat (as @ bs)))) = concat (as @ bs)"
    and cells: "take (length (as @ bs)) cells = map (lowered (bn_offs b ! i) (int (length r)))
        (take i (bn_offs b) @ drop (Suc i) (take (length (as @ r # bs)) (bn_offs b)))"
      "cells ! length (as @ bs) = 32 + int (length (concat (as @ bs)))"
  defines "b' \<equiv> b\<lparr>bn_data := m, bn_offs := cells, d_recs_count := d_recs_count b - 1,
      d_free_space := d_free_space b + int (length r) + 4\<rparr>"
  shows "node_layout c b' (as @ bs)"
    and "node_recs b' = take i (node_recs b) @ drop (Suc i) (node_recs b)"
proof -
  note d = node_layoutD [OF l]
  let ?C = "take (length (as @ r # bs)) (bn_offs b)" and ?f = "lowered (bn_offs b ! i) (int (length r))"
  let ?D = "take i (bn_offs b) @ drop (Suc i) ?C"
  have lC: "length ?C = length (as @ r # bs)" using d(5) by simp
  have iC: "i < length ?C" "?C ! i = bn_offs b ! i" "take i ?C = take i (bn_offs b)" using i lC by auto
  have dist: "distinct ?C" using distinct_blob_offsets [OF d(3)] d(6) by (metis mset_eq_imp_distinct_iff)
  have "mset ?C = mset (take i ?C @ ?C ! i # drop (Suc i) ?C)" using iC(1) by (metis id_take_nth_drop)
  then have mC: "mset ?C = add_mset (bn_offs b ! i) (mset ?D)" using iC by simp
  have "image_mset ?f (mset ?C) = mset (map ?f (blob_offsets 32 (as @ r # bs)))" using d(6) by simp
  also have "\<dots> = add_mset (bn_offs b ! i) (mset (blob_offsets 32 (as @ bs)))"
    using lowered_offsets [of as r bs 32] d(3) by (simp add: del blob_offsets_append)
  finally have ms: "mset (map ?f ?D) = mset (blob_offsets 32 (as @ bs))"
    unfolding mC by (simp add: lowered_def del)
  have tot: "int (length (concat (as @ r # bs))) = int (length r) + int (length (concat (as @ bs)))" by simp
  show "node_layout c b' (as @ bs)"
    unfolding node_layout_def
  proof (intro conjI)
    show "node_shape c b'" using d(1) len by (simp add: node_shape_def b'_def)
    show rc: "d_recs_count b' = int (length (as @ bs))" using d(2) by (simp add: b'_def)
    show "\<forall>x \<in> set (as @ bs). rec_ok x" using d(3) by auto
    show "mem_read (bn_data b') 32 (int (length (concat (as @ bs)))) = concat (as @ bs)"
      using m by (simp add: b'_def)
    show "length (as @ bs) < length (bn_offs b')" using d(5) len by (simp add: b'_def)
    show "mset (take (length (as @ bs)) (bn_offs b')) = mset (blob_offsets 32 (as @ bs))"
      unfolding ms [symmetric] cells(1) [symmetric] by (simp add: b'_def)
    show fo: "d_free_space b' = node_size c - 8 - 4 * d_recs_count b' - bn_offs b' ! length (as @ bs)"
      unfolding rc using d(8) cells(2) tot by (simp add: b'_def)
    show "0 \<le> d_free_space b'" using d(9) by (simp add: b'_def)
    show "bn_offs b' ! length (as @ bs) = 32 + int (length (concat (as @ bs)))"
      using cells(2) by (simp add: b'_def)
  qed
  have rec: "rec_in m (?f p) = rec_at b p" if "p \<in> set ?D" for p
  proof -
    have "p \<in> set ?C" using that mC by (metis insertI2 set_mset_add_mset_insert set_mset_mset)
    then have p: "p \<in> set (blob_offsets 32 (as @ r # bs))" using d(6) by (metis mset_eq_setD)
    have "distinct (take i (bn_offs b) @ bn_offs b ! i # drop (Suc i) ?C)"
      using dist iC by (metis id_take_nth_drop)
    then have "bn_offs b ! i \<notin> set ?D" by simp
    then have "p \<noteq> 32 + int (length (concat as))" using that del by auto
    then show ?thesis using rec_in_lowered [OF d(3) _ d(4) m p] del by (simp add: rec_at_def)
  qed
  have nb: "nat (d_recs_count b') = length (as @ bs)" using d(2) by (simp add: b'_def)
  have "node_recs b' = map (rec_at b') (map ?f ?D)"
    using cells(1) nb by (simp add: node_recs_def) (simp add: b'_def)
  also have "\<dots> = map (rec_at b) ?D" using rec by (simp add: rec_at_def b'_def)
  also have "\<dots> = take i (node_recs b) @ drop (Suc i) (node_recs b)"
    using i by (simp add: node_recs_layout(1) [OF l] take_map drop_map min_def)
  finally show "node_recs b' = take i (node_recs b) @ drop (Suc i) (node_recs b)" .
qed

lemma lowered_range:
  assumes l: "node_layout c b (as @ r # bs)" and j: "j < length (as @ r # bs)"
  defines "del \<equiv> 32 + int (length (concat as))"
  shows "0 < lowered del (int (length r)) (bn_offs b ! j)"
    and "lowered del (int (length r)) (bn_offs b ! j) < node_size c"
proof -
  note d = node_layoutD [OF l]
  have "bn_offs b ! j \<in> set (blob_offsets 32 as) \<or> bn_offs b ! j = del
      \<or> bn_offs b ! j \<in> set (blob_offsets (del + int (length r)) bs)"
    using node_cells_range(1) [OF l j] by (auto simp: blob_offsets_append del_def)
  then have "bn_offs b ! j \<le> del \<or> del + int (length r) \<le> bn_offs b ! j"
    using blob_offsets_range [of _ 32 as] blob_offsets_range [of _ "del + int (length r)" bs] d(3)
    by (fastforce simp: del_def)
  then show "0 < lowered del (int (length r)) (bn_offs b ! j)"
      "lowered del (int (length r)) (bn_offs b ! j) < node_size c"
    using node_cells_range(2,3) [OF l j] by (auto simp: lowered_def del_def)
qed

text \<open>Both loops and the last store, run on a node that has the layout.\<close>

lemma delete_loops:
  assumes l: "node_layout c b (as @ r # bs)" and n: "n < length (as @ r # bs)"
    and m: "length m = length (bn_data b)"
  defines "cnt \<equiv> length (as @ r # bs)" and "del \<equiv> 32 + int (length (concat as))"
    and "fs \<equiv> 32 + int (length (concat (as @ r # bs)))"
  shows "\<exists>low cl. for_each (lower_offset c del (int (length r))) (map int [0..<cnt]) (success, b\<lparr>bn_data := m\<rparr>)
        = Done (success, b\<lparr>bn_data := m, bn_offs := low\<rparr>)
      \<and> for_each (close_offset c) (map int [n..<cnt]) (success, b\<lparr>bn_data := m, bn_offs := low\<rparr>)
        = Done (success, b\<lparr>bn_data := m, bn_offs := cl\<rparr>)
      \<and> length cl = length (bn_offs b)
      \<and> take (cnt - 1) (cl[cnt - 1 := fs - int (length r)])
        = map (lowered del (int (length r))) (take n (bn_offs b) @ drop (Suc n) (take cnt (bn_offs b)))"
proof -
  note d = node_layoutD [OF l]
  define low where "low = map (lowered del (int (length r))) (take cnt (bn_offs b)) @ drop cnt (bn_offs b)"
  define cl where "cl = take n low @ take (cnt - n) (drop (Suc n) low) @ drop cnt low"
  have cl: "cnt < length (bn_offs b)" "n < cnt" using d(5) n by (simp_all add: cnt_def)
  have lr: "0 < lowered del (int (length r)) (bn_offs b ! j)
      \<and> lowered del (int (length r)) (bn_offs b ! j) < node_size c" if "j < cnt" for j
    using lowered_range [OF l] that by (simp add: cnt_def del_def)
  have sh: "node_shape c (b\<lparr>bn_data := m\<rparr>)" using d(1) m by (simp add: node_shape_def)
  have r1: "\<forall>j < cnt. bn_offs b ! j > del \<longrightarrow>
      0 < bn_offs b ! j - int (length r) \<and> bn_offs b ! j - int (length r) < node_size c"
    using lr unfolding lowered_def by presburger
  have L1: "for_each (lower_offset c del (int (length r))) (map int [0..<cnt]) (success, b\<lparr>bn_data := m\<rparr>)
      = Done (success, b\<lparr>bn_data := m, bn_offs := low\<rparr>)"
    using lower_loop [OF sh, of cnt del "int (length r)"] cl(1) r1 by (simp add: low_def)
  have ln: "length low = length (bn_offs b)" using cl(1) by (simp add: low_def)
  have sh2: "node_shape c (b\<lparr>bn_data := m, bn_offs := low\<rparr>)" using sh ln by (simp add: node_shape_def)
  have r2: "\<forall>j. n < j \<and> j \<le> cnt \<longrightarrow> 0 < low ! j \<and> low ! j < node_size c"
    using lr node_free_range [OF l] cl(1) by (auto simp: low_def nth_append le_less cnt_def)
  have L2: "for_each (close_offset c) (map int [n..<cnt]) (success, b\<lparr>bn_data := m, bn_offs := low\<rparr>)
      = Done (success, b\<lparr>bn_data := m, bn_offs := cl\<rparr>)"
    using close_loop [OF sh2, of n cnt] cl ln r2 by (simp add: cl_def)
  show ?thesis
    using L1 L2 deleted_cells(1,3) [OF cl(2,1), of "lowered del (int (length r))", folded low_def, folded cl_def]
    by blast
qed

lemma delete_finish_ok:
  assumes sh: "node_shape c b" and rc: "0 < d_recs_count b" "d_recs_count b \<le> int (length (bn_offs b))"
    and fs: "0 \<le> d_free_space b + len + 4" "d_free_space b + len + 4 < 65536"
    and v: "0 < off - len" "off - len < node_size c"
  shows "delete_finish c b len off = Done (success, b\<lparr>
      bn_offs := (bn_offs b)[nat (d_recs_count b - 1) := off - len],
      d_recs_count := d_recs_count b - 1, d_free_space := d_free_space b + len + 4\<rparr>)"
proof -
  note s = node_shapeD [OF sh]
  have "u16 (d_recs_count b - 1) = d_recs_count b - 1" using rc s(5) by (intro u16_id) linarith+
  moreover have "u16 (d_free_space b + len + 4) = d_free_space b + len + 4" using fs by (intro u16_id)
  moreover have "u32 (off - len) = off - len" using v s(2) by (intro u32_id) linarith+
  moreover have "node_shape c (b\<lparr>d_recs_count := d_recs_count b - 1, d_free_space := d_free_space b + len + 4\<rparr>)"
    using sh by (simp add: node_shape_def)
  note check_set_offset_ok [OF this, of "d_recs_count b - 1" "off - len"]
  ultimately show ?thesis using rc v by (simp add: delete_finish_def Let_def)
qed

text \<open>
  \<^verbatim>\<open>delete_from_node\<close>: the record with the given index goes, the others stay as they are and in
  their order, and the layout is kept.
\<close>

lemma delete_from_node_ok:
  assumes l: "node_layout c b blobs" and i: "0 \<le> i" "i < d_recs_count b"
    and small: "length (node_recs b ! nat i) \<le> 600"
  shows "\<exists>b' blobs'. delete_from_node c b i = Done (success, b') \<and> node_layout c b' blobs'
      \<and> node_recs b' = take (nat i) (node_recs b) @ drop (Suc (nat i)) (node_recs b)
      \<and> node_head b' = node_head b
      \<and> d_free_space b' = d_free_space b + int (length (node_recs b ! nat i)) + 4"
proof -
  note d = node_layoutD [OF l]
  note s = node_shapeD [OF d(1)]
  define n where "n = nat i"
  let ?cnt = "length blobs"
  have n: "n < ?cnt" "i = int n" using i d(2) by (auto simp: n_def)
  define del where "del = bn_offs b ! n"
  obtain as r bs where ab: "blobs = as @ r # bs" "del = 32 + int (length (concat as))"
    unfolding del_def by (rule blob_offsets_split [OF node_cells_range(1) [OF l n(1)]])
  have del: "32 \<le> del" "del < node_size c" using node_cells_range [OF l n(1)] by (simp_all add: del_def)
  obtain off where gr: "get_record c b i = Done (Inr off)" "rec_at b off = node_recs b ! n" "off = del"
    using get_record_ok [OF l i] by (auto simp: n_def del_def)
  have rok: "rec_ok r" "8 \<le> length r" using d(3) ab rec_ok_len(2) [of r] by auto
  have rd: "mem_read (bn_data b) del (int (length r)) = r"
    using mem_read_concat [of "bn_data b" 32 as r bs] d(4) ab by simp
  have rl: "record_len (drop (nat del) (bn_data b)) = int (length r)"
    using record_len_prefix [OF rd rok(2)] del rec_ok_len(1) [OF rok(1)] by simp
  have rr: "node_recs b ! n = r" using rec_in_eq [OF rd rok(1)] del gr by (simp add: rec_at_def)
  define fs where "fs = 32 + int (length (concat blobs))"
  have gfs: "get_offset c b (d_recs_count b) = Done fs"
    using get_offset_ok [OF d(1), of "d_recs_count b"] d(2,5,7) by (simp add: fs_def)
  have fsc: "is_offset_correct c fs" "is_offset_correct c del"
    using node_free_range [OF l] d(7) del by (simp_all add: is_offset_correct_def fs_def)
  have tail: "fs - del - int (length r) = int (length (concat bs))" by (simp add: fs_def ab)
  have inm: "in_mem (bn_data b) 32 (int (length (concat (as @ r # bs))))"
    using d(8,9) s(3) ab by (auto simp: in_mem_def)
  then have inm2: "in_mem (bn_data b) (del + int (length r)) (int (length (concat bs)))"
    using ab by (auto simp: in_mem_def)
  define m where "m = mem_write (bn_data b) del (mem_read (bn_data b) (del + int (length r)) (int (length (concat bs))))"
  have mm: "mem_read m 32 (int (length (concat (as @ bs)))) = concat (as @ bs)" "length m = length (bn_data b)"
    using delete_memmove [OF _ _ inm] d(4) ab unfolding m_def by simp_all
  obtain low cl where L: "for_each (lower_offset c del (int (length r))) (map int [0..<?cnt]) (success, b\<lparr>bn_data := m\<rparr>)
        = Done (success, b\<lparr>bn_data := m, bn_offs := low\<rparr>)"
      "for_each (close_offset c) (map int [n..<?cnt]) (success, b\<lparr>bn_data := m, bn_offs := low\<rparr>)
        = Done (success, b\<lparr>bn_data := m, bn_offs := cl\<rparr>)"
      "length cl = length (bn_offs b)"
      "take (?cnt - 1) (cl[?cnt - 1 := fs - int (length r)])
        = map (lowered del (int (length r))) (take n (bn_offs b) @ drop (Suc n) (take ?cnt (bn_offs b)))"
    using delete_loops [OF l [unfolded ab(1)] n(1) [unfolded ab(1)] mm(2)] ab unfolding fs_def by auto
  define b' where "b' = b\<lparr>bn_data := m, bn_offs := cl[?cnt - 1 := fs - int (length r)],
      d_recs_count := d_recs_count b - 1, d_free_space := d_free_space b + int (length r) + 4\<rparr>"
  have fr: "fs - int (length r) = 32 + int (length (concat (as @ bs)))" by (simp add: fs_def ab)
  have tot: "int (length (concat blobs)) = int (length (concat (as @ bs))) + int (length r)" by (simp add: ab)
  have sh: "node_shape c (b\<lparr>bn_data := m, bn_offs := cl\<rparr>)" using d(1) mm(2) L(3) by (simp add: node_shape_def)
  have pre: "0 < d_recs_count b" "d_recs_count b \<le> int (length cl)" "nat (d_recs_count b - 1) = ?cnt - 1"
      "0 \<le> d_free_space b + int (length r) + 4" "d_free_space b + int (length r) + 4 < 65536"
      "0 < fs - int (length r)" "fs - int (length r) < node_size c"
    using d(2,5,8,9) s(2) n(1) L(3) fr tot by linarith+
  have fin: "delete_finish c (b\<lparr>bn_data := m, bn_offs := cl\<rparr>) (int (length r)) fs = Done (success, b')"
    using delete_finish_ok [OF sh, of "int (length r)" fs] pre by (simp add: b'_def)
  have "delete_from_node c b i = Done (success, b')"
    using gr gfs fsc tail inm2 small rr L fin d(2) n
    by (simp add: delete_from_node_def rl Let_def MAX_BTREE_REC_LEN_def m_def)
  moreover have e: "?cnt - 1 = length (as @ bs)" "n \<le> length as + length bs" using n(1) ab by simp_all
  have c1: "cl[?cnt - 1 := fs - int (length r)] ! length (as @ bs) = 32 + int (length (concat (as @ bs)))"
    using e L(3) d(5) ab fr by simp
  have c2: "take (length (as @ bs)) (cl[?cnt - 1 := fs - int (length r)])
      = map (lowered (bn_offs b ! n) (int (length r)))
        (take n (bn_offs b) @ drop (Suc n) (take (length (as @ r # bs)) (bn_offs b)))"
    using L(4) unfolding e(1) del_def unfolding ab(1) .
  note lay = delete_layout [OF l [unfolded ab(1)] e(2) ab(2) [unfolded del_def] mm(2)
      trans [OF length_list_update L(3)] mm(1) c2 c1]
  moreover note lay [folded b'_def]
  moreover have "node_head b' = node_head b"
      "d_free_space b' = d_free_space b + int (length (node_recs b ! n)) + 4"
    by (simp_all add: b'_def node_head_def rr)
  ultimately show ?thesis unfolding n_def by blast
qed

section \<open>Binary search\<close>

declare bsearch_loop.simps [simp del]

text \<open>The records of a node in strictly increasing key order, all keys whole.\<close>

definition ordered_recs :: "(bytes \<Rightarrow> bool) \<Rightarrow> (bytes \<Rightarrow> bytes \<Rightarrow> int) \<Rightarrow> bytes list \<Rightarrow> bool" where
  "ordered_recs valid cmp rs \<longleftrightarrow> (\<forall>r \<in> set rs. valid r) \<and> sorted_wrt (\<lambda>a b. cmp a b < 0) rs"

text \<open>Position \<open>p\<close> is where the key belongs: the last record that is not after it.\<close>

definition found_at :: "(bytes \<Rightarrow> bytes \<Rightarrow> int) \<Rightarrow> bytes list \<Rightarrow> bytes \<Rightarrow> nat \<Rightarrow> bool" where
  "found_at cmp rs key p \<longleftrightarrow> p < length rs \<and> cmp (rs ! p) key \<le> 0
     \<and> (\<forall>q. p < q \<and> q < length rs \<longrightarrow> 0 < cmp (rs ! q) key)"

context key_order
begin

lemma found_atI:
  assumes o: "ordered_recs valid cmp rs" and k: "valid key" and p: "p < length rs" "cmp (rs ! p) key \<le> 0"
    and n: "Suc p < length rs \<Longrightarrow> 0 < cmp (rs ! Suc p) key"
  shows "found_at cmp rs key p"
proof -
  have v: "valid (rs ! i)" if "i < length rs" for i using o that by (simp add: ordered_recs_def)
  have "0 < cmp (rs ! q) key" if q: "p < q" "q < length rs" for q
  proof (cases "q = Suc p")
    case False
    then have "cmp (rs ! Suc p) (rs ! q) < 0"
      using o q by (auto simp: ordered_recs_def sorted_wrt_iff_nth_less)
    moreover have "cmp key (rs ! Suc p) < 0" using n q k v cmp_gt_lt [of "rs ! Suc p" key] by simp
    ultimately show ?thesis
      using cmp_less_trans [of key "rs ! Suc p" "rs ! q"] v k q cmp_gt_lt [of "rs ! q" key] by simp
  qed (use n q in simp)
  with p show ?thesis by (simp add: found_at_def)
qed

lemma found_at_exact:
  assumes o: "ordered_recs valid cmp rs" and k: "valid key" and p: "p < length rs" "cmp (rs ! p) key = 0"
  shows "found_at cmp rs key p"
proof (rule found_atI [OF o k p(1)])
  have v: "valid (rs ! i)" if "i < length rs" for i using o that by (simp add: ordered_recs_def)
  assume s: "Suc p < length rs"
  then have "cmp (rs ! p) (rs ! Suc p) < 0" using o by (auto simp: ordered_recs_def sorted_wrt_iff_nth_less)
  moreover have "cmp key (rs ! p) \<le> 0" using cmp_eq_swap [of key "rs ! p"] v k p by simp
  ultimately show "0 < cmp (rs ! Suc p) key"
    using cmp_le_less_trans [of key "rs ! p" "rs ! Suc p"] v k p s cmp_gt_lt [of "rs ! Suc p" key] by simp
qed (simp add: p)

lemma bsearch_loop_ok:
  assumes l: "node_layout c b blobs" and cf: "comp_fn c = cmp"
    and o: "ordered_recs valid cmp (node_recs b)" and k: "valid key"
    and inv: "0 \<le> first" "first < lst" "lst < d_recs_count b"
      "cmp (node_recs b ! nat first) key \<le> 0" "0 < cmp (node_recs b ! nat lst) key"
      "fr = bn_offs b ! nat first"
  shows "\<exists>p. bsearch_loop c b key first lst fr = Done (Inr (int p, bn_offs b ! p))
      \<and> found_at cmp (node_recs b) key p"
  using inv
proof (induction "nat (lst - first)" arbitrary: first lst fr rule: less_induct)
  case less
  have len: "length (node_recs b) = nat (d_recs_count b)"
    using node_recs_layout(2) [OF l] node_layoutD(2) [OF l] by simp
  show ?case
  proof (cases "first < lst - 1")
    case False
    with less.prems have "lst = first + 1" by simp
    with less.prems have "found_at cmp (node_recs b) key (nat first)"
      by (intro found_atI [OF o k]) (auto simp: len nat_add_distrib)
    then show ?thesis using False less.prems by (subst bsearch_loop.simps) (auto intro!: exI [of _ "nat first"])
  next
    case True
    define mid where "mid = first + (lst + 1 - first) div 2"
    have mid: "first < mid" "mid < lst" using True by (simp_all add: mid_def)
    obtain r where g: "get_record c b mid = Done (Inr r)" "rec_at b r = node_recs b ! nat mid" "r = bn_offs b ! nat mid"
      using get_record_ok [OF l, of mid] mid less.prems by auto
    let ?x = "cmp (node_recs b ! nat mid) key"
    have unf: "bsearch_loop c b key first lst fr = (if ?x = 0 then Done (Inr (mid, r))
        else if ?x < 0 then bsearch_loop c b key mid lst r else bsearch_loop c b key first mid fr)"
      using True g by (subst bsearch_loop.simps) (simp add: Let_def cf flip: mid_def)
    consider "?x = 0" | "?x < 0" | "?x > 0" by linarith
    then show ?thesis
    proof cases
      case 1
      then have "found_at cmp (node_recs b) key (nat mid)"
        using mid less.prems by (intro found_at_exact [OF o k]) (auto simp: len)
      then show ?thesis using 1 unf g mid less.prems by (auto intro!: exI [of _ "nat mid"])
    next
      case 2
      then have "\<exists>p. bsearch_loop c b key mid lst r = Done (Inr (int p, bn_offs b ! p))
          \<and> found_at cmp (node_recs b) key p"
        using less.hyps [of lst mid r] mid less.prems g by simp
      then show ?thesis using 2 unf by simp
    next
      case 3
      then have "\<exists>p. bsearch_loop c b key first mid fr = Done (Inr (int p, bn_offs b ! p))
          \<and> found_at cmp (node_recs b) key p"
        using less.hyps [of mid first fr] mid less.prems by simp
      then show ?thesis using 3 unf by simp
    qed
  qed
qed

text \<open>
  \<^verbatim>\<open>binary_search\<close> on a node with records: \<^verbatim>\<open>ENOENT\<close> exactly when the key is before the first
  record, otherwise the last record that is not after the key.
\<close>

lemma binary_search_ok:
  assumes l: "node_layout c b blobs" and cf: "comp_fn c = cmp" and ne: "node_recs b \<noteq> []"
    and o: "ordered_recs valid cmp (node_recs b)" and k: "valid key"
  shows "if 0 < cmp (node_recs b ! 0) key then binary_search c b key = Done (Inl ENOENT)
    else \<exists>p. binary_search c b key = Done (Inr (int p, bn_offs b ! p)) \<and> found_at cmp (node_recs b) key p"
proof -
  have len: "length (node_recs b) = nat (d_recs_count b)" "0 < d_recs_count b"
    using node_recs_layout(2) [OF l] node_layoutD(2) [OF l] ne by (auto simp flip: length_greater_0_conv)
  let ?n = "d_recs_count b - 1" and ?z = "cmp (node_recs b ! 0) key"
  obtain f where f: "get_record c b 0 = Done (Inr f)" "rec_at b f = node_recs b ! 0" "f = bn_offs b ! 0"
    using get_record_ok [OF l, of 0] len by auto
  obtain e where e: "get_record c b ?n = Done (Inr e)" "rec_at b e = node_recs b ! nat ?n" "e = bn_offs b ! nat ?n"
    using get_record_ok [OF l, of ?n] len by auto
  let ?y = "cmp (node_recs b ! nat ?n) key"
  have unf: "binary_search c b key = (if ?z > 0 then Done (Inl ENOENT)
      else if ?z = 0 \<or> ?n = 0 then Done (Inr (0, f))
      else if ?y \<le> 0 then Done (Inr (?n, e)) else bsearch_loop c b key 0 ?n f)"
    using f e by (simp add: binary_search_def Let_def cf)
  consider "?z > 0" | "?z \<le> 0" "?z = 0 \<or> ?n = 0" | "?z < 0" "?n \<noteq> 0" "?y \<le> 0" | "?z < 0" "?n \<noteq> 0" "?y > 0"
    by linarith
  then show ?thesis
  proof cases
    case 2
    then have "found_at cmp (node_recs b) key 0"
      using found_at_exact [OF o k, of 0] found_atI [OF o k, of 0] len by (auto simp: nat_less_iff)
    with 2 unf f show ?thesis by (auto intro!: exI [of _ 0])
  next
    case 3
    then have "found_at cmp (node_recs b) key (nat ?n)"
      using len by (intro found_atI [OF o k]) auto
    with 3 unf e len show ?thesis by (auto intro!: exI [of _ "nat ?n"])
  next
    case 4
    with bsearch_loop_ok [OF l cf o k, of 0 ?n f] len f unf show ?thesis by simp
  qed (simp add: unf)
qed

end

end
