(* ===== verification/Vdfs_Bnode_Split.thy ===== *)
theory Vdfs_Bnode_Split
  imports Vdfs_Bnode
begin

text \<open>
  The operations on whole nodes: initialising a node, the sanity check that runs before a node is
  written out (\<^verbatim>\<open>vdfs4_bnode_sanity_check\<close>), and the distribution of the records of a full node
  over two nodes (the loop of \<^verbatim>\<open>split_bnode\<close>).
\<close>

section \<open>A new node is empty and well-formed\<close>

lemma init_new_node_ok:
  assumes "node_shape c b"
  shows "\<exists>b'. vdfs4_init_new_node_descr c b type = Done b' \<and> node_layout c b' [] \<and> node_recs b' = []
      \<and> node_head b' = (bn_id b, bn_id b, 0, 0, type) \<and> d_free_space b' = node_size c - 40"
proof -
  note s = node_shapeD [OF assms]
  define b1 where "b1 = b\<lparr>d_magic := (d_magic b)[0 := 0x4e, 1 := 0x64],
      d_free_space := u16 (u32 (node_size c - descr_size - 4 - 4)),
      d_recs_count := 0, d_type := type, d_node_id := bn_id b,
      d_next := INVALID_NODE_ID, d_prev := INVALID_NODE_ID\<rparr>"
  have sh: "node_shape c b1" using assms by (simp add: node_shape_def b1_def)
  have fs: "u16 (u32 (node_size c - descr_size - 4 - 4)) = node_size c - 40"
    using s by (simp add: descr_size_def u32_id u16_id)
  have len: "0 < length (bn_offs b)" using s by linarith
  have "check_set_offset c b1 0 descr_size = Done (success, b1\<lparr>bn_offs := (bn_offs b1)[0 := 32]\<rparr>)"
    using check_set_offset_ok [OF sh, of 0 32] len s by (simp add: b1_def descr_size_def)
  then have "vdfs4_init_new_node_descr c b type = Done (b1\<lparr>bn_offs := (bn_offs b1)[0 := 32]\<rparr>)"
    by (simp add: vdfs4_init_new_node_descr_def b1_def Let_def)
  moreover have "node_layout c (b1\<lparr>bn_offs := (bn_offs b1)[0 := 32]\<rparr>) []"
    using sh fs len s by (simp add: node_layout_def node_shape_def b1_def mem_read_def)
  ultimately show ?thesis
    by (intro exI [of _ "b1\<lparr>bn_offs := (bn_offs b1)[0 := 32]\<rparr>"])
       (simp add: fs [simplified] b1_def node_recs_def node_head_def INVALID_NODE_ID_def)
qed

section \<open>The sanity check\<close>

text \<open>The first loop: every offset is inside the node; the smallest of them.\<close>

definition scan_offset :: "btree_conf \<Rightarrow> bnode \<Rightarrow> nat \<Rightarrow> bool \<times> int \<Rightarrow> (bool \<times> int) outcome" where
  "scan_offset c b i = (\<lambda>(ok, min_offset).
     if \<not> ok then Done (ok, min_offset)
     else bind_outcome (get_offset c b (int i)) (\<lambda>offset.
       if \<not> is_offset_correct c offset then Done (False, min_offset)
       else Done (True, if min_offset > offset then offset else min_offset)))"

text \<open>The second loop walks the record area by the length fields.\<close>

definition walk_record :: "btree_conf \<Rightarrow> bnode \<Rightarrow> nat \<Rightarrow> bool \<times> int \<Rightarrow> (bool \<times> int) outcome" where
  "walk_record c b i = (\<lambda>(ok, offset).
     if \<not> ok then Done (ok, offset)
     else
       let offset' = u32 (offset + record_len (drop (nat offset) (bn_data b)))
       in Done (is_offset_correct c offset', offset'))"

text \<open>\<^verbatim>\<open>vdfs4_bnode_sanity_check\<close>; \<^verbatim>\<open>max_bnode_size\<close> is the size of the node in pages.\<close>

definition vdfs4_bnode_sanity_check :: "btree_conf \<Rightarrow> bnode \<Rightarrow> bool outcome" where
  "vdfs4_bnode_sanity_check c b =
     (let record_count = d_recs_count b in
      if bn_id b = 0 then Done True
      else if record_count = 0 then
        bind_outcome (get_offset c b 0) (\<lambda>offset. Done (offset = descr_size))
      else if d_free_space b > node_size c then Done False
      else if record_count > 1000 then Done False
      else
        bind_outcome (for_each (scan_offset c b) [0..<nat record_count] (True, node_size c)) (\<lambda>(ok, min_offset).
          if \<not> ok then Done False
          else bind_outcome (for_each (walk_record c b) [0..<nat record_count] (True, min_offset)) (\<lambda>(ok, offset).
            if \<not> ok then Done False
            else bind_outcome (get_offset c b record_count) (\<lambda>free. Done (offset = free)))))"

lemma scan_loop:
  assumes l: "node_layout c b blobs" and n: "n \<le> length blobs"
  shows "for_each (scan_offset c b) [0..<n] (True, m)
      = Done (True, Min (insert m (set (take n (bn_offs b)))))"
  using n
proof (induction n)
  case (Suc n)
  note d = node_layoutD [OF l]
  have n: "n < length blobs" "n < length (bn_offs b)" using Suc.prems d(5) by auto
  let ?o = "bn_offs b ! n"
  define M where "M = Min (insert m (set (take n (bn_offs b))))"
  have "get_offset c b (int n) = Done ?o" using get_offset_ok [OF d(1), of "int n"] n by simp
  moreover have "is_offset_correct c ?o" using node_cells_range [OF l n(1)] by (simp add: is_offset_correct_def)
  ultimately have "scan_offset c b n (True, M) = Done (True, min ?o M)"
    by (simp add: scan_offset_def min_def)
  moreover have "Min (insert m (set (take (Suc n) (bn_offs b)))) = min ?o M"
    using n(2) by (simp add: M_def take_Suc_conv_app_nth insert_commute [of m] Min_insert [of "insert m _"] del: Min_insert)
  ultimately have step: "scan_offset c b n (True, Min (insert m (set (take n (bn_offs b)))))
      = Done (True, Min (insert m (set (take (Suc n) (bn_offs b)))))"
    by (simp only: M_def)
  have "[0..<Suc n] = [0..<n] @ [n]" by simp
  then show ?case using Suc step by (simp only: for_each_append) simp
qed simp

lemma walk_loop:
  assumes l: "node_layout c b (as @ bs)" and n: "length ks = length bs"
  shows "for_each (walk_record c b) ks (True, 32 + int (length (concat as)))
      = Done (True, 32 + int (length (concat (as @ bs))))"
  using assms
proof (induction bs arbitrary: as ks)
  case (Cons r bs)
  note d = node_layoutD [OF Cons.prems(1)]
  obtain k ks' where k: "ks = k # ks'" "length ks' = length bs" using Cons.prems(2) by (cases ks) auto
  have r: "rec_ok r" "8 \<le> length r" using d(3) rec_ok_len(2) [of r] by auto
  let ?p = "32 + int (length (concat as))" and ?q = "32 + int (length (concat (as @ [r])))"
  have rd: "mem_read (bn_data b) ?p (int (length r)) = r" using mem_read_concat [of "bn_data b" 32 as r bs] d(4) by simp
  have rl: "record_len (drop (nat ?p) (bn_data b)) = int (length r)"
    using record_len_prefix [OF rd r(2)] rec_ok_len(1) [OF r(1)] by simp
  have q: "?p + int (length r) = ?q" by simp
  have lt: "?q < node_size c" using d(8,9) by simp
  have "u32 ?q = ?q" using lt node_shapeD(2) [OF d(1)] by (intro u32_id) auto
  then have "walk_record c b k (True, ?p) = Done (True, ?q)"
    unfolding walk_record_def prod.case Let_def rl q using lt by (simp add: is_offset_correct_def)
  then show ?case using Cons.IH [of "as @ [r]" ks'] Cons.prems(1) k by simp
qed simp

text \<open>
  Every node that has the layout passes the check that runs before it is written, as long as it
  has no more than a thousand records.
\<close>

lemma sanity_check_ok:
  assumes l: "node_layout c b blobs" and few: "length blobs \<le> 1000"
  shows "vdfs4_bnode_sanity_check c b = Done True"
proof (cases "blobs = [] \<or> bn_id b = 0")
  case True
  note d = node_layoutD [OF l]
  have "get_offset c b 0 = Done 32" if "blobs = []"
    using get_offset_ok [OF d(1), of 0] d(5,7) that by simp
  with True show ?thesis using d(2) by (auto simp: vdfs4_bnode_sanity_check_def descr_size_def Let_def)
next
  case False
  note d = node_layoutD [OF l]
  have c: "take (length blobs) (bn_offs b) \<noteq> []" using False d(5) by auto
  have set: "set (take (length blobs) (bn_offs b)) = set (blob_offsets 32 blobs)" using d(6) by (metis mset_eq_setD)
  have "32 \<in> set (blob_offsets 32 blobs)" using False by (cases blobs) auto
  moreover have "\<forall>p \<in> set (blob_offsets 32 blobs). 32 \<le> p" using blob_offsets_range d(3) by blast
  moreover have "32 \<le> node_size c" using node_shapeD [OF d(1)] by simp
  ultimately have "Min (insert (node_size c) (set (take (length blobs) (bn_offs b)))) = 32"
    unfolding set by (intro Min_eqI) auto
  then have s: "for_each (scan_offset c b) [0..<length blobs] (True, node_size c) = Done (True, 32)"
    using scan_loop [OF l, of "length blobs" "node_size c"] by simp
  have w: "for_each (walk_record c b) [0..<length blobs] (True, 32) = Done (True, 32 + int (length (concat blobs)))"
    using walk_loop [of c b "[]" blobs] l by simp
  have g: "get_offset c b (d_recs_count b) = Done (32 + int (length (concat blobs)))"
    using get_offset_ok [OF d(1), of "d_recs_count b"] d(2,5,7) by simp
  have "\<not> d_free_space b > node_size c" using d(8) by simp
  with False few s w g d(2) show ?thesis by (simp add: vdfs4_bnode_sanity_check_def Let_def)
qed

section \<open>Splitting a full node\<close>

text \<open>
  The state of the loop of \<^verbatim>\<open>split_bnode\<close>: the index into the old records, whether the new key is
  placed, the space counted so far, which node receives, both nodes, and where the new record
  went (in the right node?, position, offset).
\<close>

record split_state =
  sp_i :: int
  sp_inserted :: bool
  sp_used :: int
  sp_part :: bool
  sp_left :: bnode
  sp_right :: bnode
  sp_res :: "(bool \<times> int \<times> int) option"

text \<open>
  The body of the loop once the key is chosen. The space is counted with the length field of the
  key, also for the new key, which is placed with the length given apart.
\<close>

definition split_put ::
    "btree_conf \<Rightarrow> int \<Rightarrow> bool \<Rightarrow> bytes \<Rightarrow> split_state \<Rightarrow> (status \<times> split_state) outcome" where
  "split_put c new_rec_len new_rec_select key st =
     (let used = u32 (sp_used st + record_len key + 4);
          ins_bnode = (if sp_part st then sp_right st else sp_left st);
          store = (\<lambda>b. if sp_part st then st\<lparr>sp_used := used, sp_right := b\<rparr>
                       else st\<lparr>sp_used := used, sp_left := b\<rparr>);
          finish = (\<lambda>s. s\<lparr>sp_part := (sp_part st \<or> used > node_size c div 2),
                          sp_i := (if new_rec_select then sp_i st else sp_i st + 1),
                          sp_inserted := (sp_inserted st \<or> new_rec_select)\<rparr>)
      in if new_rec_select then
           bind_outcome (insert_key_into_bnode c ins_bnode key new_rec_len (d_recs_count ins_bnode)) (\<lambda>(r, b).
             case r of Inl e \<Rightarrow> Done (Some e, store b)
             | Inr (pos, off) \<Rightarrow> Done (success, finish ((store b)\<lparr>sp_res := Some (sp_part st, pos, off)\<rparr>)))
         else
           bind_outcome (append_bnode c ins_bnode key) (\<lambda>(err, b).
             if err \<noteq> success then Done (err, store b) else Done (success, finish (store b))))"

text \<open>
  The loop, with a bound on its turns: each turn takes one of the old records or the new key, so
  it makes one turn more than there are records.
\<close>

primrec split_loop ::
    "btree_conf \<Rightarrow> bnode \<Rightarrow> bytes \<Rightarrow> int \<Rightarrow> int \<Rightarrow> nat \<Rightarrow> split_state \<Rightarrow> (status \<times> split_state) outcome" where
  "split_loop c orig new_key new_rec_len insert_pos 0 st = Undef"
| "split_loop c orig new_key new_rec_len insert_pos (Suc n) st =
     (if sp_i st < d_recs_count orig \<or> \<not> sp_inserted st then
        let new_rec_select = (sp_i st = insert_pos \<and> \<not> sp_inserted st) in
        bind_outcome (if new_rec_select then Done (Inr new_key)
            else bind_outcome (get_record c orig (sp_i st)) (\<lambda>r. Done (case r of Inl e \<Rightarrow> Inl e | Inr off \<Rightarrow> Inr (rec_at orig off))))
          (\<lambda>key. case key of
             Inl e \<Rightarrow> Done (Some e, st)
           | Inr k \<Rightarrow> bind_outcome (split_put c new_rec_len new_rec_select k st) (\<lambda>(err, st').
               if err \<noteq> success then Done (err, st')
               else split_loop c orig new_key new_rec_len insert_pos n st'))
      else Done (success, st))"

text \<open>\<^verbatim>\<open>split_bnode\<close> up to the point where both nodes hold their records.\<close>

definition split_records ::
    "btree_conf \<Rightarrow> bnode \<Rightarrow> bnode \<Rightarrow> bytes \<Rightarrow> int \<Rightarrow> int \<Rightarrow> (status \<times> split_state) outcome" where
  "split_records c left_bnode right_bnode new_key new_rec_len insert_pos =
     bind_outcome (vdfs4_init_new_node_descr c right_bnode (d_type left_bnode)) (\<lambda>right.
     bind_outcome (vdfs4_init_new_node_descr c left_bnode (d_type left_bnode)) (\<lambda>left.
       if d_recs_count left_bnode = 0 then Bug
       else split_loop c left_bnode new_key new_rec_len insert_pos (nat (d_recs_count left_bnode) + 2)
         \<lparr>sp_i = 0, sp_inserted = False, sp_used = u32 (node_size c - d_free_space left), sp_part = False,
          sp_left = left, sp_right = right, sp_res = None\<rparr>))"

section \<open>The split distributes the records\<close>

text \<open>What the loop takes, in order: the old records, with the new key at its position.\<close>

definition split_items :: "bytes list \<Rightarrow> nat \<Rightarrow> bytes option list" where
  "split_items recs pos = map Some (take pos recs) @ None # map Some (drop pos recs)"

text \<open>The record an insertion of the key \<open>nk\<close> with length \<open>nl\<close> leaves: the key, its length set.\<close>

definition placed_key :: "bytes \<Rightarrow> int \<Rightarrow> bytes \<Rightarrow> bool" where
  "placed_key nk nl r \<longleftrightarrow> rec_ok r \<and> int (length r) = nl
     \<and> mem_read r 0 (key_len nk) = mem_write (mem_read nk 0 (key_len nk)) 6 (le_bytes 2 nl)"

definition item_is :: "bytes \<Rightarrow> int \<Rightarrow> bytes option \<Rightarrow> bytes \<Rightarrow> bool" where
  "item_is nk nl it r = (case it of Some q \<Rightarrow> r = q | None \<Rightarrow> placed_key nk nl r)"

definition item_used :: "bytes \<Rightarrow> bytes option \<Rightarrow> int" where
  "item_used nk it = (case it of Some q \<Rightarrow> int (length q) + 4 | None \<Rightarrow> record_len nk + 4)"

definition item_size :: "int \<Rightarrow> bytes option \<Rightarrow> int" where
  "item_size nl it = (case it of Some q \<Rightarrow> int (length q) + 4 | None \<Rightarrow> nl + 4)"

text \<open>The key can be placed: it lies inside its bytes and fits into the record.\<close>

definition key_ok :: "bytes \<Rightarrow> int \<Rightarrow> bool" where
  "key_ok nk nl \<longleftrightarrow> 8 \<le> key_len nk \<and> key_len nk \<le> nl \<and> key_len nk \<le> int (length nk)
     \<and> nl \<le> 600 \<and> 0 \<le> record_len nk \<and> record_len nk \<le> 600"

lemma place_key_item:
  assumes l: "node_layout c b blobs" and k: "key_ok nk nl" and pos: "0 \<le> pos" "pos \<le> d_recs_count b"
    and fits: "\<not> is_node_full b nl"
  shows "\<exists>b' r. insert_key_into_bnode c b nk nl pos = Done (Inr (pos, bn_offs b ! length blobs), b')
      \<and> node_layout c b' (blobs @ [r]) \<and> placed_key nk nl r
      \<and> rec_at b' (bn_offs b ! length blobs) = r
      \<and> node_recs b' = take (nat pos) (node_recs b) @ r # drop (nat pos) (node_recs b)
      \<and> node_head b' = node_head b \<and> d_free_space b' = d_free_space b - (nl + 4)
      \<and> take (Suc (length blobs)) (bn_offs b') = take (nat pos) (bn_offs b) @ bn_offs b ! length blobs
          # take (length blobs - nat pos) (drop (nat pos) (bn_offs b))"
proof -
  have dl: "key_len nk = (if True then key_len nk else nl)" by simp
  have kk: "8 \<le> key_len nk" "key_len nk \<le> nl" "in_mem nk 0 (key_len nk)"
    using k by (auto simp: key_ok_def in_mem_def)
  obtain b' r where p: "place_into_node c b nk nl pos True = Done (Inr (bn_offs b ! length blobs), b')"
      "node_layout c b' (blobs @ [r])" "int (length r) = nl"
      "mem_read r 0 (key_len nk) = mem_write (mem_read nk 0 (key_len nk)) 6 (le_bytes 2 nl)"
      "rec_at b' (bn_offs b ! length blobs) = r"
      "node_recs b' = take (nat pos) (node_recs b) @ r # drop (nat pos) (node_recs b)"
      "node_head b' = node_head b" "d_free_space b' = d_free_space b - (nl + 4)"
      "take (Suc (length blobs)) (bn_offs b') = take (nat pos) (bn_offs b) @ bn_offs b ! length blobs
          # take (length blobs - nat pos) (drop (nat pos) (bn_offs b))"
    using place_into_node_ok [OF l pos dl kk fits] by blast
  moreover have "rec_ok r" using node_layoutD(3) [OF p(2)] by simp
  ultimately show ?thesis by (simp add: insert_key_into_bnode_def placed_key_def)
qed

text \<open>One turn of the loop, on the node that receives.\<close>

lemma put_item:
  assumes l: "node_layout c b blobs" and k: "key_ok nk nl" and ok: "\<forall>q. it = Some q \<longrightarrow> rec_ok q"
    and fits: "item_size nl it \<le> d_free_space b"
  shows "\<exists>b' r. (case it of
        None \<Rightarrow> insert_key_into_bnode c b nk nl (d_recs_count b)
          = Done (Inr (d_recs_count b, bn_offs b' ! length (node_recs b)), b')
      | Some q \<Rightarrow> append_bnode c b q = Done (success, b'))
    \<and> node_ok c b' \<and> node_recs b' = node_recs b @ [r] \<and> item_is nk nl it r
    \<and> node_head b' = node_head b \<and> d_free_space b' = d_free_space b - item_size nl it
    \<and> (\<forall>i < length (node_recs b). bn_offs b' ! i = bn_offs b ! i)"
proof (cases it)
  case None
  have z: "0 \<le> d_recs_count b" "length (node_recs b) = nat (d_recs_count b)" "nat (d_recs_count b) = length blobs"
    using node_layoutD(2) [OF l] node_recs_layout(2) [OF l] by auto
  have f: "\<not> is_node_full b nl" using fits None by (simp add: is_node_full_def item_size_def)
  obtain b' r where p: "insert_key_into_bnode c b nk nl (d_recs_count b)
        = Done (Inr (d_recs_count b, bn_offs b ! length blobs), b')"
      "node_layout c b' (blobs @ [r])" "placed_key nk nl r"
      "node_recs b' = take (nat (d_recs_count b)) (node_recs b) @ r # drop (nat (d_recs_count b)) (node_recs b)"
      "node_head b' = node_head b" "d_free_space b' = d_free_space b - (nl + 4)"
      "take (Suc (length blobs)) (bn_offs b') = take (nat (d_recs_count b)) (bn_offs b) @ bn_offs b ! length blobs
          # take (length blobs - nat (d_recs_count b)) (drop (nat (d_recs_count b)) (bn_offs b))"
    using place_key_item [OF l k z(1) order_refl f] by blast
  have t: "take (Suc (length blobs)) (bn_offs b') = take (length blobs) (bn_offs b) @ [bn_offs b ! length blobs]"
    using p(7) z by simp
  have "bn_offs b' ! i = (take (length blobs) (bn_offs b) @ [bn_offs b ! length blobs]) ! i"
    if "i \<le> length blobs" for i
    using that unfolding t [symmetric] by simp
  then have "\<forall>i < length (node_recs b). bn_offs b' ! i = bn_offs b ! i"
      "bn_offs b' ! length (node_recs b) = bn_offs b ! length blobs"
    using node_layoutD(5) [OF l] z by (auto simp: nth_append)
  then show ?thesis using p z None
    by (intro exI [of _ b'] exI [of _ r]) (auto simp: item_is_def item_size_def node_ok_def)
next
  case (Some q)
  have r: "rec_ok q" and f: "\<not> is_node_full b (int (length q))"
    using ok fits Some by (auto simp: is_node_full_def item_size_def)
  from append_bnode_ok [OF l r f] obtain b' where b': "append_bnode c b q = Done (success, b')"
      "node_layout c b' (blobs @ [q])" "node_recs b' = node_recs b @ [q]" "node_head b' = node_head b"
      "d_free_space b' = d_free_space b - (int (length q) + 4)"
      "take (length blobs) (bn_offs b') = take (length blobs) (bn_offs b)" by blast
  have "bn_offs b' ! i = bn_offs b ! i" if "i < length (node_recs b)" for i
    using b'(6) that node_recs_layout(2) [OF l] by (metis nth_take)
  then show ?thesis using b' Some by (auto simp: item_is_def item_size_def node_ok_def)
qed

text \<open>The record at a position is the one its cell points to.\<close>

lemma node_recs_cell:
  assumes "node_ok c b" "p < length (node_recs b)"
  shows "rec_at b (bn_offs b ! p) = node_recs b ! p"
proof -
  obtain blobs where l: "node_layout c b blobs" using assms(1) by (auto simp: node_ok_def)
  show ?thesis using get_record_ok [OF l, of "int p"] assms(2) node_recs_layout(2) [OF l] node_layoutD(2) [OF l] by auto
qed

abbreviation used_sum :: "bytes \<Rightarrow> bytes option list \<Rightarrow> int" where
  "used_sum nk its \<equiv> sum_list (map (item_used nk) its)"

abbreviation space_sum :: "int \<Rightarrow> bytes option list \<Rightarrow> int" where
  "space_sum nl its \<equiv> sum_list (map (item_size nl) its)"

lemma item_simps [simp]:
  "item_size nl None = nl + 4" "item_size nl (Some q) = int (length q) + 4"
  "item_used nk None = record_len nk + 4" "item_used nk (Some q) = int (length q) + 4"
  by (simp_all add: item_size_def item_used_def)

text \<open>The key that is counted and the record that is placed differ by no more than 600 bytes.\<close>

lemma size_used_close:
  assumes "key_ok nk nl" "count_list its None \<le> 1"
  shows "\<bar>space_sum nl its - used_sum nk its\<bar> \<le> 600"
proof -
  have z: "space_sum nl xs = used_sum nk xs" if "None \<notin> set xs" for xs
    using that by (induction xs) (auto simp: item_size_def item_used_def split: option.splits)
  show ?thesis
    using assms(2)
  proof (induction its)
    case (Cons x xs)
    show ?case
    proof (cases x)
      case None
      with Cons.prems have "None \<notin> set xs" by (simp add: count_list_0_iff)
      from z [OF this] None assms(1) show ?thesis by (auto simp: key_ok_def abs_le_iff)
    next
      case (Some q)
      with Cons show ?thesis by simp
    qed
  qed simp
qed

lemma split_items_length: "pos \<le> length recs \<Longrightarrow> length (split_items recs pos) = Suc (length recs)"
  by (simp add: split_items_def)

lemma count_split_items: "count_list (take j (split_items recs pos)) None \<le> 1"
  "count_list (drop i (take j (split_items recs pos))) None \<le> 1"
proof -
  have c: "count_list (split_items recs pos) None = 1"
  proof -
    have "count_list (map Some xs) None = 0" for xs :: "bytes list" by (induction xs) auto
    then show ?thesis by (simp add: split_items_def)
  qed
  have t: "count_list (take j xs) y \<le> count_list xs y" for j and xs :: "'a list" and y
    by (metis append_take_drop_id count_list_append le_add1)
  have d: "count_list (drop j xs) y \<le> count_list xs y" for j and xs :: "'a list" and y
    by (metis append_take_drop_id count_list_append le_add2)
  show "count_list (take j (split_items recs pos)) None \<le> 1" using t [of j "split_items recs pos" None] c by simp
  then show "count_list (drop i (take j (split_items recs pos))) None \<le> 1"
    using d [of i "take j (split_items recs pos)" None] by simp
qed

lemma split_items_nth:
  assumes "pos \<le> length recs" "j \<le> length recs"
  shows "split_items recs pos ! j = (if j < pos then Some (recs ! j) else if j = pos then None else Some (recs ! (j - 1)))"
  using assms by (auto simp: split_items_def nth_append nth_Cons split: nat.splits intro!: arg_cong [of _ _ "(!) recs"])

text \<open>Where the new record is: in which node, at which position and offset.\<close>

definition split_place :: "nat \<Rightarrow> bnode \<Rightarrow> bnode \<Rightarrow> bool \<times> int \<times> int" where
  "split_place pos left right =
     (let n = length (node_recs left) in
      if pos < n then (False, int pos, bn_offs left ! pos)
      else (True, int (pos - n), bn_offs right ! (pos - n)))"

text \<open>
  The invariant of the loop after \<open>j\<close> items: the left node holds the first of them, the right
  node the others, nothing goes right before the left half is full, and at most one item
  reaches over the middle.
\<close>

definition split_inv ::
    "btree_conf \<Rightarrow> bytes list \<Rightarrow> bytes \<Rightarrow> int \<Rightarrow> nat \<Rightarrow> bnode \<Rightarrow> bnode \<Rightarrow> nat \<Rightarrow> split_state \<Rightarrow> bool" where
  "split_inv c recs nk nl pos left0 right0 j st \<longleftrightarrow>
     (let its = split_items recs pos; lrs = node_recs (sp_left st); rrs = node_recs (sp_right st) in
      j \<le> Suc (length recs)
      \<and> sp_i st = int (if j \<le> pos then j else j - 1) \<and> sp_inserted st = (pos < j)
      \<and> node_ok c (sp_left st) \<and> node_ok c (sp_right st)
      \<and> list_all2 (item_is nk nl) (take j its) (lrs @ rrs)
      \<and> sp_used st = 40 + used_sum nk (take j its)
      \<and> d_free_space (sp_left st) = node_size c - 40 - space_sum nl (take (length lrs) its)
      \<and> d_free_space (sp_right st) = node_size c - 40 - space_sum nl (drop (length lrs) (take j its))
      \<and> (if sp_part st then 40 + used_sum nk (take (length lrs) its) > node_size c div 2
         else rrs = [] \<and> sp_used st \<le> node_size c div 2)
      \<and> (lrs \<noteq> [] \<longrightarrow> 40 + used_sum nk (take (length lrs - 1) its) \<le> node_size c div 2)
      \<and> node_head (sp_left st) = node_head left0 \<and> node_head (sp_right st) = node_head right0
      \<and> (pos < j \<longrightarrow> sp_res st = Some (split_place pos (sp_left st) (sp_right st))))"


text \<open>What the split needs of the tree and the node: room for a few records in half a node.\<close>

definition split_pre :: "btree_conf \<Rightarrow> bytes list \<Rightarrow> bytes \<Rightarrow> int \<Rightarrow> nat \<Rightarrow> bool" where
  "split_pre c recs nk nl pos \<longleftrightarrow> conf_ok c \<and> 4096 \<le> node_size c \<and> key_ok nk nl \<and> pos \<le> length recs
     \<and> (\<forall>r \<in> set recs. rec_ok r \<and> length r \<le> 600)
     \<and> space_sum nl (map Some recs) \<le> node_size c - 40
     \<and> node_size c - 40 < space_sum nl (map Some recs) + nl + 4"

lemma item_size_range:
  assumes p: "split_pre c recs nk nl pos" and it: "it \<in> set (split_items recs pos)"
  shows "12 \<le> item_size nl it" "item_size nl it \<le> 604" "0 \<le> item_used nk it" "item_used nk it \<le> 604"
    "\<forall>q. it = Some q \<longrightarrow> rec_ok q \<and> record_len q = int (length q)"
proof -
  have "\<forall>q. it = Some q \<longrightarrow> rec_ok q \<and> length q \<le> 600"
    using p it by (auto simp: split_pre_def split_items_def dest: in_set_takeD in_set_dropD)
  then show "12 \<le> item_size nl it" "item_size nl it \<le> 604" "0 \<le> item_used nk it" "item_used nk it \<le> 604"
    "\<forall>q. it = Some q \<longrightarrow> rec_ok q \<and> record_len q = int (length q)"
    using p rec_ok_len by (auto simp: item_size_def item_used_def split_pre_def key_ok_def split: option.splits)
qed

lemma space_sum_items:
  assumes "split_pre c recs nk nl pos"
  shows "space_sum nl (split_items recs pos) = space_sum nl (map Some recs) + nl + 4"
proof -
  have "space_sum nl (map Some recs) = space_sum nl (map Some (take pos recs)) + space_sum nl (map Some (drop pos recs))"
    by (metis append_take_drop_id map_append sum_list_append)
  then show ?thesis by (simp add: split_items_def item_size_def)
qed

lemma sum_nonneg_items:
  assumes "split_pre c recs nk nl pos" "set xs \<subseteq> set (split_items recs pos)"
  shows "0 \<le> space_sum nl xs" "0 \<le> used_sum nk xs"
  using assms item_size_range(1,3) [OF assms(1)] by (force intro!: sum_list_nonneg)+

lemma space_sum_take_drop: "space_sum nl its = space_sum nl (take i its) + space_sum nl (drop i its)"
  by (metis append_take_drop_id map_append sum_list_append)

lemma used_sum_bound:
  assumes p: "split_pre c recs nk nl pos"
  shows "0 \<le> used_sum nk (take k (split_items recs pos))"
    and "used_sum nk (take k (split_items recs pos)) \<le> node_size c + 1200"
proof -
  let ?its = "split_items recs pos"
  show "0 \<le> used_sum nk (take k ?its)" using sum_nonneg_items(2) [OF p] by (simp add: set_take_subset)
  have "used_sum nk (take k ?its) \<le> space_sum nl (take k ?its) + 600"
    using size_used_close [OF _ count_split_items(1) [of k recs pos], of nk nl] p by (simp add: split_pre_def abs_le_iff)
  also have "space_sum nl (take k ?its) \<le> space_sum nl ?its"
    using space_sum_take_drop [of nl ?its k] sum_nonneg_items(1) [OF p, of "drop k ?its"] by (simp add: set_drop_subset)
  also have "\<dots> \<le> node_size c - 40 + 604"
    using space_sum_items [OF p] p by (simp add: split_pre_def key_ok_def)
  finally show "used_sum nk (take k ?its) \<le> node_size c + 1200" by simp
qed

text \<open>The node that receives has room for the next item.\<close>

lemma split_room:
  assumes p: "split_pre c recs nk nl pos" and inv: "split_inv c recs nk nl pos l0 r0 j st" and j: "j \<le> length recs"
  shows "item_size nl (split_items recs pos ! j) \<le> d_free_space (if sp_part st then sp_right st else sp_left st)"
proof -
  define its where "its = split_items recs pos"
  let ?l = "length (node_recs (sp_left st))"
  have lenits: "length its = Suc (length recs)" using split_items_length p by (simp add: its_def split_pre_def)
  have it: "its ! j \<in> set its" using j lenits by simp
  have r: "item_size nl (its ! j) \<le> 604" using item_size_range(2) [OF p] it by (simp add: its_def)
  have ns: "4096 \<le> node_size c" "key_ok nk nl" using p by (auto simp: split_pre_def)
  have len: "?l + length (node_recs (sp_right st)) = j"
    using inv lenits j by (auto simp: split_inv_def Let_def its_def dest: list_all2_lengthD)
  show ?thesis
  proof (cases "sp_part st")
    case False
    then have lj: "?l = j" "40 + used_sum nk (take j its) \<le> node_size c div 2"
        "d_free_space (sp_left st) = node_size c - 40 - space_sum nl (take j its)"
      using inv len by (auto simp: split_inv_def Let_def its_def)
    have "space_sum nl (take j its) \<le> used_sum nk (take j its) + 600"
      using size_used_close [OF ns(2) count_split_items(1) [of j recs pos]] by (simp add: its_def)
    then show ?thesis using False lj r ns by (simp add: its_def)
  next
    case True
    then have h: "40 + used_sum nk (take ?l its) > node_size c div 2"
        "d_free_space (sp_right st) = node_size c - 40 - space_sum nl (drop ?l (take j its))"
      using inv by (auto simp: split_inv_def Let_def its_def)
    have a: "used_sum nk (take ?l its) \<le> space_sum nl (take ?l its) + 600"
      using size_used_close [OF ns(2) count_split_items(1) [of ?l recs pos]] by (simp add: its_def)
    have b: "space_sum nl its \<le> node_size c - 40 + 604"
      using space_sum_items [OF p] p by (simp add: its_def split_pre_def key_ok_def)
    have "its = take ?l its @ drop ?l (take j its) @ its ! j # drop (Suc j) its"
      using len lenits j by (metis append_assoc append_take_drop_id drop_take id_take_nth_drop le_add1 less_Suc_eq_le take_add add_diff_cancel_left')
    then have "space_sum nl its = space_sum nl (take ?l its) + space_sum nl (drop ?l (take j its))
        + item_size nl (its ! j) + space_sum nl (drop (Suc j) its)"
      by (metis (no_types, lifting) add.assoc list.simps(9) map_append sum_list.Cons sum_list_append)
    moreover have "0 \<le> space_sum nl (drop (Suc j) its)"
      using sum_nonneg_items(1) [OF p, of "drop (Suc j) its"] by (simp add: its_def set_drop_subset)
    ultimately show ?thesis using True h a b ns by (simp add: its_def)
  qed
qed


text \<open>One turn of the loop: the next item goes to the node that receives.\<close>

definition split_next :: "btree_conf \<Rightarrow> bytes \<Rightarrow> bytes option \<Rightarrow> bnode \<Rightarrow> int \<Rightarrow> split_state \<Rightarrow> split_state" where
  "split_next c nk it b' off st =
     (let used = sp_used st + item_used nk it in
      \<lparr>sp_i = (if it = None then sp_i st else sp_i st + 1), sp_inserted = (sp_inserted st \<or> it = None),
       sp_used = used, sp_part = (sp_part st \<or> used > node_size c div 2),
       sp_left = (if sp_part st then sp_left st else b'), sp_right = (if sp_part st then b' else sp_right st),
       sp_res = (if it = None then Some (sp_part st, d_recs_count (if sp_part st then sp_right st else sp_left st), off)
                 else sp_res st)\<rparr>)"

lemma split_put_eq:
  assumes u: "u32 (sp_used st + item_used nk it) = sp_used st + item_used nk it"
    and len: "\<forall>q. it = Some q \<longrightarrow> record_len q = int (length q)"
    and b: "b = (if sp_part st then sp_right st else sp_left st)"
    and put: "case it of
        None \<Rightarrow> insert_key_into_bnode c b nk nl (d_recs_count b) = Done (Inr (d_recs_count b, off), b')
      | Some q \<Rightarrow> append_bnode c b q = Done (success, b')"
  shows "split_put c nl (it = None) (case it of None \<Rightarrow> nk | Some q \<Rightarrow> q) st
      = Done (success, split_next c nk it b' off st)"
proof (cases it)
  case None
  with u have "u32 (sp_used st + record_len nk + 4) = sp_used st + item_used nk it" by (simp add: algebra_simps)
  with None put b show ?thesis
    by (cases "sp_part st") (simp_all add: split_put_def split_next_def Let_def)
next
  case (Some q)
  with u len have "u32 (sp_used st + record_len q + 4) = sp_used st + item_used nk it" by (simp add: algebra_simps)
  with Some put b show ?thesis
    by (cases "sp_part st") (simp_all add: split_put_def split_next_def Let_def)
qed

lemma take_Suc_items: "j < length its \<Longrightarrow> take (Suc j) its = take j its @ [its ! j]"
  by (rule take_Suc_conv_app_nth)

lemma split_inv_left:
  assumes inv: "split_inv c recs nk nl pos l0 r0 j st" and np: "\<not> sp_part st" and j: "j \<le> length recs"
    and it: "it = split_items recs pos ! j" "it = None \<longleftrightarrow> j = pos" and pos: "pos \<le> length recs"
    and b': "node_ok c b'" "node_recs b' = node_recs (sp_left st) @ [r]" "item_is nk nl it r"
      "node_head b' = node_head (sp_left st)" "d_free_space b' = d_free_space (sp_left st) - item_size nl it"
      "\<forall>i < length (node_recs (sp_left st)). bn_offs b' ! i = bn_offs (sp_left st) ! i"
    and cnt: "d_recs_count (sp_left st) = int (length (node_recs (sp_left st)))"
  shows "split_inv c recs nk nl pos l0 r0 (Suc j) (split_next c nk it b' (bn_offs b' ! length (node_recs (sp_left st))) st)"
proof -
  define its where "its = split_items recs pos"
  define st' where "st' = split_next c nk it b' (bn_offs b' ! length (node_recs (sp_left st))) st"
  let ?lrs = "node_recs (sp_left st)"
  note I = inv [unfolded split_inv_def Let_def, folded its_def]
  have lenits: "length its = Suc (length recs)" using split_items_length [OF pos] by (simp add: its_def)
  have rr: "node_recs (sp_right st) = []" using I np by simp
  have lj: "length ?lrs = j" using I rr lenits j by (auto dest: list_all2_lengthD)
  have tj: "take (Suc j) its = take j its @ [it]" using take_Suc_items [of j its] lenits j it(1) by (simp add: its_def)
  have sel: "sp_left st' = b'" "sp_right st' = sp_right st" "sp_used st' = 40 + used_sum nk (take (Suc j) its)"
      "sp_part st' = (node_size c div 2 < 40 + used_sum nk (take (Suc j) its))"
      "sp_i st' = int (if Suc j \<le> pos then Suc j else Suc j - 1)" "sp_inserted st' = (pos < Suc j)"
      "sp_res st' = (if j = pos then Some (False, int j, bn_offs b' ! j) else sp_res st)"
    using np I tj it(2) cnt lj by (auto simp: st'_def split_next_def Let_def)
  have ll: "length (node_recs b') = Suc j" "length (node_recs b') - 1 = j" "node_recs b' \<noteq> []" using b'(2) lj by simp_all
  have all: "list_all2 (item_is nk nl) (take (Suc j) its) (node_recs b' @ node_recs (sp_right st))"
    using list_all2_appendI [of "item_is nk nl" "take j its" ?lrs "[it]" "[r]"] I rr b'(2,3) tj by simp
  have res: "sp_res st' = Some (split_place pos b' (sp_right st))" if "pos < Suc j"
  proof (cases "j = pos")
    case False
    with that have "pos < j" by simp
    then have "sp_res st = Some (split_place pos (sp_left st) (sp_right st))" using I by simp
    then show ?thesis using False \<open>pos < j\<close> sel(7) lj ll(1) b'(6) by (simp add: split_place_def Let_def)
  qed (simp add: sel(7) split_place_def Let_def ll(1))
  have half: "40 + used_sum nk (take j its) \<le> node_size c div 2" using I np by simp
  have free: "d_free_space b' = node_size c - 40 - space_sum nl (take (Suc j) its)"
      "d_free_space (sp_right st) = node_size c - 40"
    using I b'(5) tj lj by simp_all
  show ?thesis
    unfolding st'_def [symmetric] unfolding split_inv_def Let_def its_def [symmetric] sel(1-6) ll(1,2)
    using I b'(1,4) all res half free rr j ll(3) by simp
qed

lemma split_inv_right:
  assumes inv: "split_inv c recs nk nl pos l0 r0 j st" and np: "sp_part st" and j: "j \<le> length recs"
    and it: "it = split_items recs pos ! j" "it = None \<longleftrightarrow> j = pos" and pos: "pos \<le> length recs"
    and b': "node_ok c b'" "node_recs b' = node_recs (sp_right st) @ [r]" "item_is nk nl it r"
      "node_head b' = node_head (sp_right st)" "d_free_space b' = d_free_space (sp_right st) - item_size nl it"
      "\<forall>i < length (node_recs (sp_right st)). bn_offs b' ! i = bn_offs (sp_right st) ! i"
    and cnt: "d_recs_count (sp_right st) = int (length (node_recs (sp_right st)))"
  shows "split_inv c recs nk nl pos l0 r0 (Suc j) (split_next c nk it b' (bn_offs b' ! length (node_recs (sp_right st))) st)"
proof -
  define its where "its = split_items recs pos"
  define st' where "st' = split_next c nk it b' (bn_offs b' ! length (node_recs (sp_right st))) st"
  let ?lrs = "node_recs (sp_left st)" and ?rrs = "node_recs (sp_right st)"
  note I = inv [unfolded split_inv_def Let_def, folded its_def]
  have lenits: "length its = Suc (length recs)" using split_items_length [OF pos] by (simp add: its_def)
  have lj: "length ?lrs + length ?rrs = j" using I lenits j by (auto dest: list_all2_lengthD)
  have tj: "take (Suc j) its = take j its @ [it]" using take_Suc_items [of j its] lenits j it(1) by (simp add: its_def)
  have sel: "sp_left st' = sp_left st" "sp_right st' = b'" "sp_used st' = 40 + used_sum nk (take (Suc j) its)"
      "sp_part st'" "sp_i st' = int (if Suc j \<le> pos then Suc j else Suc j - 1)" "sp_inserted st' = (pos < Suc j)"
      "sp_res st' = (if j = pos then Some (True, int (length ?rrs), bn_offs b' ! length ?rrs) else sp_res st)"
    using np I tj it(2) cnt by (auto simp: st'_def split_next_def Let_def)
  have all: "list_all2 (item_is nk nl) (take (Suc j) its) (?lrs @ node_recs b')"
    using list_all2_appendI [of "item_is nk nl" "take j its" "?lrs @ ?rrs" "[it]" "[r]"] I b'(2,3) tj by simp
  have res: "sp_res st' = Some (split_place pos (sp_left st) b')" if "pos < Suc j"
  proof (cases "j = pos")
    case True
    then show ?thesis using sel(7) lj by (auto simp: split_place_def Let_def)
  next
    case False
    with that have "pos < j" by simp
    then have "sp_res st = Some (split_place pos (sp_left st) (sp_right st))" using I by simp
    then show ?thesis using False \<open>pos < j\<close> sel(7) lj b'(6) by (auto simp: split_place_def Let_def)
  qed
  have dr: "drop (length ?lrs) (take (Suc j) its) = drop (length ?lrs) (take j its) @ [it]"
    using lj lenits j by (simp add: tj)
  have free: "d_free_space b' = node_size c - 40 - space_sum nl (drop (length ?lrs) (take (Suc j) its))"
    using I b'(5) dr by simp
  have part: "40 + used_sum nk (take (length ?lrs) its) > node_size c div 2" using I np by simp
  show ?thesis
    unfolding st'_def [symmetric] unfolding split_inv_def Let_def its_def [symmetric] sel(1-3,5,6)
    using I b'(1,4) all res free part j sel(4) by simp
qed

lemma split_step:
  assumes p: "split_pre c recs nk nl pos" and inv: "split_inv c recs nk nl pos l0 r0 j st" and j: "j \<le> length recs"
  defines "it \<equiv> split_items recs pos ! j"
  shows "\<exists>st'. split_put c nl (it = None) (case it of None \<Rightarrow> nk | Some q \<Rightarrow> q) st = Done (success, st')
      \<and> split_inv c recs nk nl pos l0 r0 (Suc j) st'"
proof -
  define b where "b = (if sp_part st then sp_right st else sp_left st)"
  have pos: "pos \<le> length recs" "key_ok nk nl" using p by (auto simp: split_pre_def)
  have lenits: "length (split_items recs pos) = Suc (length recs)" by (rule split_items_length [OF pos(1)])
  have it_in: "it \<in> set (split_items recs pos)" using j lenits by (simp add: it_def)
  note rng = item_size_range [OF p it_in]
  have itn: "it = None \<longleftrightarrow> j = pos" using split_items_nth [OF pos(1) j] by (simp add: it_def)
  have "sp_used st + item_used nk it = 40 + used_sum nk (take (Suc j) (split_items recs pos))"
    using inv take_Suc_items [of j "split_items recs pos"] lenits j by (simp add: split_inv_def Let_def it_def)
  then have u: "u32 (sp_used st + item_used nk it) = sp_used st + item_used nk it"
    using used_sum_bound [OF p, of "Suc j"] p by (intro u32_id) (auto simp: split_pre_def conf_ok_def)
  have "node_ok c b" using inv by (simp add: b_def split_inv_def Let_def)
  then obtain blobs where lb: "node_layout c b blobs" by (auto simp: node_ok_def)
  have cnt: "d_recs_count b = int (length (node_recs b))"
    using node_layoutD(2) [OF lb] node_recs_layout(2) [OF lb] by simp
  have room: "item_size nl it \<le> d_free_space b" using split_room [OF p inv j] unfolding it_def b_def .
  obtain b' r where put: "case it of
        None \<Rightarrow> insert_key_into_bnode c b nk nl (d_recs_count b)
          = Done (Inr (d_recs_count b, bn_offs b' ! length (node_recs b)), b')
      | Some q \<Rightarrow> append_bnode c b q = Done (success, b')"
      "node_ok c b'" "node_recs b' = node_recs b @ [r]" "item_is nk nl it r" "node_head b' = node_head b"
      "d_free_space b' = d_free_space b - item_size nl it" "\<forall>i < length (node_recs b). bn_offs b' ! i = bn_offs b ! i"
    using put_item [OF lb pos(2) _ room] rng(5) by blast
  have "split_put c nl (it = None) (case it of None \<Rightarrow> nk | Some q \<Rightarrow> q) st
      = Done (success, split_next c nk it b' (bn_offs b' ! length (node_recs b)) st)"
    using split_put_eq [OF u _ b_def put(1)] rng(5) by blast
  moreover have "split_inv c recs nk nl pos l0 r0 (Suc j) (split_next c nk it b' (bn_offs b' ! length (node_recs b)) st)"
  proof (cases "sp_part st")
    case True
    then have "b = sp_right st" by (simp add: b_def)
    then show ?thesis using split_inv_right [OF inv True j it_def [THEN meta_eq_to_obj_eq] itn pos(1)] put(2-7) cnt by simp
  next
    case False
    then have "b = sp_left st" by (simp add: b_def)
    then show ?thesis using split_inv_left [OF inv False j it_def [THEN meta_eq_to_obj_eq] itn pos(1)] put(2-7) cnt by simp
  qed
  ultimately show ?thesis by blast
qed


lemma split_loop_ok:
  assumes p: "split_pre c recs nk nl pos" and o: "node_ok c orig" "node_recs orig = recs"
    and inv: "split_inv c recs nk nl pos l0 r0 j st" and n: "Suc (length recs) - j < n"
  shows "\<exists>st'. split_loop c orig nk nl (int pos) n st = Done (success, st')
      \<and> split_inv c recs nk nl pos l0 r0 (Suc (length recs)) st'"
  using inv n
proof (induction n arbitrary: j st)
  case (Suc n)
  have pos: "pos \<le> length recs" using p by (simp add: split_pre_def)
  obtain blobs where lo: "node_layout c orig blobs" using o(1) by (auto simp: node_ok_def)
  have rc: "d_recs_count orig = int (length recs)"
    using node_layoutD(2) [OF lo] node_recs_layout(2) [OF lo] o(2) by simp
  note I = Suc.prems(1) [unfolded split_inv_def Let_def]
  have jl: "j \<le> Suc (length recs)" and si: "sp_i st = int (if j \<le> pos then j else j - 1)" "sp_inserted st = (pos < j)"
    using I by auto
  show ?case
  proof (cases "j = Suc (length recs)")
    case True
    then show ?thesis using Suc.prems(1) si pos rc by simp
  next
    case False
    then have j: "j \<le> length recs" using jl by simp
    let ?it = "split_items recs pos ! j"
    have it: "?it = None \<longleftrightarrow> j = pos" using split_items_nth [OF pos j] by simp
    have go: "sp_i st < d_recs_count orig \<or> \<not> sp_inserted st" "(sp_i st = int pos \<and> \<not> sp_inserted st) = (?it = None)"
      using si rc j it by auto
    have key: "(if ?it = None then Done (Inr nk) else bind_outcome (get_record c orig (sp_i st))
          (\<lambda>r. Done (case r of Inl e \<Rightarrow> Inl e | Inr off \<Rightarrow> Inr (rec_at orig off))))
        = Done (Inr (case ?it of None \<Rightarrow> nk | Some q \<Rightarrow> q))"
    proof (cases "?it = None")
      case False
      then have b: "0 \<le> sp_i st" "sp_i st < d_recs_count orig" "?it = Some (recs ! nat (sp_i st))"
        using si rc j it pos split_items_nth [OF pos j] by auto
      then show ?thesis using get_record_ok [OF lo b(1,2)] o(2) False by auto
    qed simp
    obtain st1 where st1: "split_put c nl (?it = None) (case ?it of None \<Rightarrow> nk | Some q \<Rightarrow> q) st = Done (success, st1)"
        "split_inv c recs nk nl pos l0 r0 (Suc j) st1"
      using split_step [OF p Suc.prems(1) j] by blast
    have "split_loop c orig nk nl (int pos) (Suc n) st = split_loop c orig nk nl (int pos) n st1"
      using go key st1(1) by (simp add: Let_def)
    moreover have "Suc (length recs) - Suc j < n" using Suc.prems(2) j by simp
    ultimately show ?thesis using Suc.IH [OF st1(2)] by simp
  qed
qed simp


lemma map_rec_in:
  assumes "mem_read m s (int (length (concat xs))) = concat xs" "\<forall>x \<in> set xs. rec_ok x" "0 \<le> s"
  shows "map (rec_in m) (blob_offsets s xs) = xs"
  using assms
proof (induction xs arbitrary: s)
  case (Cons x xs)
  have "mem_read m s (int (length x)) = x"
    using mem_read_concat [of m s "[]" x xs] Cons.prems by simp
  then have "rec_in m s = x" using Cons.prems by (intro rec_in_eq) auto
  moreover have "mem_read m (s + int (length x)) (int (length (concat xs))) = concat xs"
    using mem_read_concat [of m s "[x]" "concat xs" "[]"] Cons.prems by simp
  ultimately show ?case using Cons by simp
qed simp

lemma node_recs_mset:
  assumes "node_layout c b blobs"
  shows "mset (node_recs b) = mset blobs"
proof -
  note d = node_layoutD [OF assms]
  have "mset (node_recs b) = image_mset (rec_at b) (mset (blob_offsets 32 blobs))"
    using d(6) by (simp add: node_recs_layout(1) [OF assms])
  also have "\<dots> = mset (map (rec_in (bn_data b)) (blob_offsets 32 blobs))" by (simp add: rec_at_def [abs_def])
  finally show ?thesis using map_rec_in [OF d(4,3)] by simp
qed

lemma sum_list_perm: "mset xs = mset ys \<Longrightarrow> sum_list (map f xs) = sum_list (map (f :: 'a \<Rightarrow> int) ys)"
  by (metis mset_map sum_mset_sum_list)

lemma node_space:
  assumes "node_layout c b blobs"
  shows "space_sum nl (map Some (node_recs b)) = node_size c - 40 - d_free_space b"
proof -
  have "space_sum nl (map Some xs) = int (length (concat xs)) + 4 * int (length xs)" for xs :: "bytes list"
    by (induction xs) auto
  moreover have "space_sum nl (map Some (node_recs b)) = space_sum nl (map Some blobs)"
    using sum_list_perm [OF node_recs_mset [OF assms], of "\<lambda>x. item_size nl (Some x)"] by (simp add: o_def)
  ultimately show ?thesis using node_layoutD(8) [OF assms] by simp
qed

lemma items_are:
  "list_all2 (item_is nk nl) (map Some xs @ None # map Some ys) zs \<longleftrightarrow> (\<exists>x. placed_key nk nl x \<and> zs = xs @ x # ys)"
proof -
  have m: "list_all2 (item_is nk nl) (map Some us) vs \<longleftrightarrow> vs = us" for us vs
    by (induction us arbitrary: vs) (auto simp: list_all2_Cons1 item_is_def)
  show ?thesis by (auto simp: list_all2_append1 list_all2_Cons1 m item_is_def)
qed

text \<open>Both nodes get something: half a node is much, and one record little.\<close>

lemma split_ends:
  assumes p: "split_pre c recs nk nl pos" and inv: "split_inv c recs nk nl pos l0 r0 (Suc (length recs)) st"
  shows "node_recs (sp_left st) \<noteq> []" "node_recs (sp_right st) \<noteq> []"
proof -
  define its where "its = split_items recs pos"
  let ?l = "length (node_recs (sp_left st))"
  note I = inv [unfolded split_inv_def Let_def, folded its_def]
  have ns: "4096 \<le> node_size c" "key_ok nk nl" "pos \<le> length recs" using p by (auto simp: split_pre_def)
  have lenits: "length its = Suc (length recs)" using split_items_length [OF ns(3)] by (simp add: its_def)
  have len: "?l + length (node_recs (sp_right st)) = Suc (length recs)"
    using I lenits by (auto dest: list_all2_lengthD)
  have tot: "node_size c - 40 < space_sum nl its"
    using space_sum_items [OF p] p by (simp add: its_def split_pre_def)
  have cl: "space_sum nl its \<le> used_sum nk its + 600"
    using size_used_close [OF ns(2) count_split_items(1) [of "Suc (length recs)" recs pos]] lenits
    by (simp add: its_def abs_le_iff)
  show "node_recs (sp_left st) \<noteq> []"
  proof
    assume e: "node_recs (sp_left st) = []"
    then have "\<not> sp_part st" using I ns by (auto split: if_splits)
    with I len e show False by simp
  qed
  show "node_recs (sp_right st) \<noteq> []"
  proof
    assume "node_recs (sp_right st) = []"
    then have l: "?l = Suc (length recs)" using len by simp
    then have h: "40 + used_sum nk (take (length recs) its) \<le> node_size c div 2" using I by auto
    have "its = take (length recs) its @ [its ! length recs]"
      using lenits take_Suc_items [of "length recs" its] by simp
    then have "used_sum nk its = used_sum nk (take (length recs) its) + item_used nk (its ! length recs)"
      by (metis (no_types, lifting) list.simps(8) list.simps(9) map_append sum_list.Cons sum_list.Nil sum_list_append add.right_neutral)
    moreover have "item_used nk (its ! length recs) \<le> 604"
      using item_size_range(4) [OF p] lenits by (simp add: its_def)
    ultimately show False using h tot cl ns by linarith
  qed
qed

lemma split_records_ok:
  assumes l: "node_ok c left" and r: "node_shape c right" and k: "key_ok nk nl" and ns: "4096 \<le> node_size c"
    and small: "\<forall>x \<in> set (node_recs left). length x \<le> 600" and full: "is_node_full left nl"
    and pos: "pos \<le> length (node_recs left)"
  shows "\<exists>st. split_records c left right nk nl (int pos) = Done (success, st)
      \<and> node_ok c (sp_left st) \<and> node_ok c (sp_right st)
      \<and> node_recs (sp_left st) \<noteq> [] \<and> node_recs (sp_right st) \<noteq> []
      \<and> (\<exists>x. placed_key nk nl x
          \<and> node_recs (sp_left st) @ node_recs (sp_right st) = take pos (node_recs left) @ x # drop pos (node_recs left))
      \<and> node_head (sp_left st) = (bn_id left, bn_id left, 0, 0, d_type left)
      \<and> node_head (sp_right st) = (bn_id right, bn_id right, 0, 0, d_type left)
      \<and> sp_res st = Some (split_place pos (sp_left st) (sp_right st))"
proof -
  define recs where "recs = node_recs left"
  obtain blobs where lo: "node_layout c left blobs" using l by (auto simp: node_ok_def)
  note d = node_layoutD [OF lo]
  have rc: "d_recs_count left = int (length recs)"
    using d(2) node_recs_layout(2) [OF lo] by (simp add: recs_def)
  have sp: "space_sum nl (map Some recs) = node_size c - 40 - d_free_space left"
    using node_space [OF lo] by (simp add: recs_def)
  have "\<forall>x \<in> set recs. rec_ok x" using d(3) node_recs_mset [OF lo] by (metis recs_def mset_eq_setD)
  then have pre: "split_pre c recs nk nl pos"
    using d(1,9) k ns small full pos sp by (auto simp: split_pre_def node_shape_def recs_def is_node_full_def)
  obtain right' where r': "vdfs4_init_new_node_descr c right (d_type left) = Done right'" "node_layout c right' []"
      "node_recs right' = []" "node_head right' = (bn_id right, bn_id right, 0, 0, d_type left)"
      "d_free_space right' = node_size c - 40"
    using init_new_node_ok [OF r] by blast
  obtain left' where l': "vdfs4_init_new_node_descr c left (d_type left) = Done left'" "node_layout c left' []"
      "node_recs left' = []" "node_head left' = (bn_id left, bn_id left, 0, 0, d_type left)"
      "d_free_space left' = node_size c - 40"
    using init_new_node_ok [OF d(1)] by blast
  have u40: "u32 (node_size c - d_free_space left') = 40" by (simp add: l'(5) u32_def)
  define st0 where "st0 = \<lparr>sp_i = 0, sp_inserted = False, sp_used = 40, sp_part = False,
      sp_left = left', sp_right = right', sp_res = None\<rparr>"
  have inv0: "split_inv c recs nk nl pos left' right' 0 st0"
    using l' r' ns by (auto simp: split_inv_def st0_def node_ok_def Let_def)
  obtain st where st: "split_loop c left nk nl (int pos) (length recs + 2) st0 = Done (success, st)"
      "split_inv c recs nk nl pos left' right' (Suc (length recs)) st"
    using split_loop_ok [OF pre l _ inv0, of "length recs + 2"] by (auto simp: recs_def)
  note I = st(2) [unfolded split_inv_def Let_def]
  have pos': "pos \<le> length recs" using pos by (simp add: recs_def)
  have ne: "recs \<noteq> []"
  proof
    assume "recs = []"
    then have "d_free_space left = node_size c - 40" using sp by simp
    then show False using full k ns by (simp add: is_node_full_def key_ok_def)
  qed
  have run: "split_records c left right nk nl (int pos) = Done (success, st)"
    using r'(1) l'(1) rc ne st(1) by (simp add: split_records_def u40 st0_def del: split_loop.simps)
  have tk: "take (Suc (length recs)) (split_items recs pos) = split_items recs pos"
    using split_items_length [OF pos'] by simp
  note ends = split_ends [OF pre st(2)]
  have "\<exists>x. placed_key nk nl x \<and> node_recs (sp_left st) @ node_recs (sp_right st) = take pos recs @ x # drop pos recs"
    using I tk items_are by (simp add: split_items_def)
  then show ?thesis using run I ends l'(4) r'(4) pos' by (auto simp: recs_def)
qed

end
