(* ===== verification/Vdfs_Bitmap.thy ===== *)
theory Vdfs_Bitmap
  imports Vdfs_Prelude
begin

text \<open>
  The bitmap primitives of the kernel that the snapshot manager, the node allocator of the trees
  and the inode number allocator use. A bitmap is a list of bits; a \<^verbatim>\<open>bitmap_set\<close> or
  \<^verbatim>\<open>bitmap_clear\<close> that reaches over the end of the memory has no meaning and gives \<^const>\<open>Undef\<close>.
\<close>

section \<open>Bitmaps of the kernel\<close>

type_synonym bitmap = "bool list"

text \<open>\<^verbatim>\<open>find_next_bit\<close> and \<^verbatim>\<open>find_next_zero_bit\<close>: the first bit with the value, or the size.\<close>

definition find_next_value :: "bool \<Rightarrow> bitmap \<Rightarrow> nat \<Rightarrow> nat \<Rightarrow> nat" where
  "find_next_value v bits sz start =
     (case find (\<lambda>j. bits ! j = v) [start..<sz] of None \<Rightarrow> sz | Some j \<Rightarrow> j)"

abbreviation find_next_bit :: "bitmap \<Rightarrow> nat \<Rightarrow> nat \<Rightarrow> nat" where
  "find_next_bit \<equiv> find_next_value True"

abbreviation find_next_zero_bit :: "bitmap \<Rightarrow> nat \<Rightarrow> nat \<Rightarrow> nat" where
  "find_next_zero_bit \<equiv> find_next_value False"

definition bitmap_fill :: "bool \<Rightarrow> bitmap \<Rightarrow> nat \<Rightarrow> nat \<Rightarrow> bitmap outcome" where
  "bitmap_fill v bits pos n =
     (if pos + n \<le> length bits then Done (take pos bits @ replicate n v @ drop (pos + n) bits) else Undef)"

abbreviation bitmap_set :: "bitmap \<Rightarrow> nat \<Rightarrow> nat \<Rightarrow> bitmap outcome" where
  "bitmap_set \<equiv> bitmap_fill True"

abbreviation bitmap_clear :: "bitmap \<Rightarrow> nat \<Rightarrow> nat \<Rightarrow> bitmap outcome" where
  "bitmap_clear \<equiv> bitmap_fill False"

text \<open>The set of bits that are set.\<close>

definition bset :: "bitmap \<Rightarrow> nat set" where
  "bset bits = {j. j < length bits \<and> bits ! j}"

text \<open>Round up to a multiple of \<open>2 ^ k\<close>, as the alignment mask does.\<close>

definition align_up :: "nat \<Rightarrow> nat \<Rightarrow> nat" where
  "align_up k i = (i + (2 ^ k - 1)) div 2 ^ k * 2 ^ k"

lemma find_next_value_ge: "start \<le> sz \<Longrightarrow> start \<le> find_next_value v bits sz start"
  by (auto simp: find_next_value_def find_Some_iff split: option.splits)

lemma find_next_value_le: "find_next_value v bits sz start \<le> sz"
  by (auto simp: find_next_value_def find_Some_iff split: option.splits)

lemma find_next_value_hit: "find_next_value v bits sz start < sz \<Longrightarrow> bits ! find_next_value v bits sz start = v"
proof (cases "find (\<lambda>j. bits ! j = v) [start..<sz]")
  case None
  assume "find_next_value v bits sz start < sz"
  then show ?thesis unfolding find_next_value_def None by simp
next
  case (Some q)
  then have "bits ! q = v" unfolding find_Some_iff by blast
  then show ?thesis unfolding find_next_value_def Some option.case .
qed

lemma find_next_value_skip:
  "start \<le> j \<Longrightarrow> j < find_next_value v bits sz start \<Longrightarrow> bits ! j \<noteq> v"
proof (cases "find (\<lambda>j. bits ! j = v) [start..<sz]")
  case None
  assume a: "start \<le> j" "j < find_next_value v bits sz start"
  have "find_next_value v bits sz start = sz" unfolding find_next_value_def None by simp
  with a have "j \<in> set [start..<sz]" by simp
  with None show ?thesis unfolding find_None_iff by blast
next
  case (Some q)
  then obtain i where i: "i < length [start..<sz]" "q = [start..<sz] ! i" "\<forall>l < i. bits ! ([start..<sz] ! l) \<noteq> v"
    unfolding find_Some_iff by blast
  have v: "find_next_value v bits sz start = q" unfolding find_next_value_def Some by simp
  assume a: "start \<le> j" "j < find_next_value v bits sz start"
  then have "j - start < i" using i v by simp
  then have "bits ! ([start..<sz] ! (j - start)) \<noteq> v" using i(3) by blast
  moreover have "[start..<sz] ! (j - start) = j" using a(1) i(1) \<open>j - start < i\<close> by simp
  ultimately show ?thesis by simp
qed

lemma align_up_ge: "i \<le> align_up k i"
proof -
  define x n where "x = i + (2 ^ k - 1)" and "n = (2::nat) ^ k"
  have "x div n * n + x mod n = x" by (rule div_mult_mod_eq)
  moreover have "x mod n < n" by (simp add: n_def)
  moreover have "x + 1 = i + n" by (simp add: x_def n_def)
  ultimately have "i \<le> x div n * n" by linarith
  then show ?thesis by (simp add: align_up_def x_def n_def)
qed

lemma align_up_dvd: "2 ^ k dvd align_up k i"
  by (simp add: align_up_def)

lemma align_up_least: "2 ^ k dvd q \<Longrightarrow> i \<le> q \<Longrightarrow> align_up k i \<le> q"
proof -
  assume a: "2 ^ k dvd q" "i \<le> q"
  then obtain m where m: "q = m * 2 ^ k" by (auto simp: dvd_def mult.commute)
  have "(0::nat) < 2 ^ k" by simp
  then have "i + (2 ^ k - 1) < m * 2 ^ k + 2 ^ k" using a(2) m by linarith
  then have "i + (2 ^ k - 1) < (m + 1) * 2 ^ k" by simp
  then have "(i + (2 ^ k - 1)) div 2 ^ k < m + 1" by (simp add: less_mult_imp_div_less)
  then show ?thesis by (simp add: align_up_def m)
qed

text \<open>
  \<^verbatim>\<open>bitmap_find_next_zero_area\<close>: the first aligned run of \<open>nr\<close> clear bits from \<open>start\<close> on; a result
  beyond the size says there is none.
\<close>

function find_zero_area :: "bitmap \<Rightarrow> nat \<Rightarrow> nat \<Rightarrow> nat \<Rightarrow> nat \<Rightarrow> nat" where
  "find_zero_area bits sz start nr k =
     (let index = align_up k (find_next_zero_bit bits sz start);
          last_bit = index + nr
      in if last_bit > sz then last_bit
         else let i = find_next_bit bits last_bit index
              in if i < last_bit then find_zero_area bits sz (i + 1) nr k else index)"
  by pat_completeness auto

termination
proof (relation "measure (\<lambda>(bits, sz, start, nr, k). sz + 1 - start)")
  fix bits :: bitmap and sz start nr k index last_bit i
  assume a: "index = align_up k (find_next_zero_bit bits sz start)" "last_bit = index + nr"
    "\<not> sz < last_bit" "i = find_next_bit bits last_bit index" "i < last_bit"
  have "start \<le> i"
  proof (cases "start \<le> sz")
    case True
    then have "start \<le> index" using find_next_value_ge [OF True, of False bits] align_up_ge a(1) by (metis order_trans)
    then show ?thesis using find_next_value_ge [of index last_bit True bits] a by simp
  next
    case False
    then have "find_next_zero_bit bits sz start = sz" by (simp add: find_next_value_def)
    then have "sz \<le> index" using a(1) align_up_ge by metis
    moreover have "index \<le> i" using find_next_value_ge [of index last_bit True bits] a by simp
    ultimately show ?thesis using a by simp
  qed
  then show "((bits, sz, i + 1, nr, k), (bits, sz, start, nr, k)) \<in> measure (\<lambda>(bits, sz, start, nr, k). sz + 1 - start)"
    using a by simp
qed simp

declare find_zero_area.simps [simp del]

text \<open>What it returns is free and aligned; and it fails only when there is no such area.\<close>

lemma find_zero_area_sound:
  "find_zero_area bits sz start nr k = p \<Longrightarrow> p \<le> sz \<Longrightarrow> 0 < nr \<Longrightarrow>
    p + nr \<le> sz \<and> 2 ^ k dvd p \<and> (\<forall>j. p \<le> j \<and> j < p + nr \<longrightarrow> \<not> bits ! j)"
proof (induction bits sz start nr k rule: find_zero_area.induct)
  case (1 bits sz start nr k)
  define index where "index = align_up k (find_next_zero_bit bits sz start)"
  define i where "i = find_next_bit bits (index + nr) index"
  have unf: "find_zero_area bits sz start nr k = (if index + nr > sz then index + nr
      else if i < index + nr then find_zero_area bits sz (i + 1) nr k else index)"
    by (subst find_zero_area.simps) (simp add: Let_def index_def i_def)
  show ?case
  proof (cases "index + nr > sz \<or> i < index + nr")
    case True
    then show ?thesis using 1 unf by (auto simp: index_def i_def split: if_splits)
  next
    case False
    then have "p = index" "index + nr \<le> sz" using 1(2) unf by auto
    moreover have "i = index + nr" using False find_next_value_le [of True bits "index + nr" index] by (simp add: i_def)
    then have "\<forall>j. index \<le> j \<and> j < index + nr \<longrightarrow> \<not> bits ! j"
      using find_next_value_skip [of index _ True bits "index + nr"] by (simp add: i_def)
    ultimately show ?thesis using align_up_dvd by (simp add: index_def)
  qed
qed

lemma find_zero_area_complete:
  "sz < find_zero_area bits sz start nr k \<Longrightarrow> 0 < nr \<Longrightarrow> 2 ^ k dvd q \<Longrightarrow> start \<le> q \<Longrightarrow> q + nr \<le> sz \<Longrightarrow>
    \<exists>j. q \<le> j \<and> j < q + nr \<and> bits ! j"
proof (induction bits sz start nr k rule: find_zero_area.induct)
  case (1 bits sz start nr k)
  define index where "index = align_up k (find_next_zero_bit bits sz start)"
  define i where "i = find_next_bit bits (index + nr) index"
  have unf: "find_zero_area bits sz start nr k = (if index + nr > sz then index + nr
      else if i < index + nr then find_zero_area bits sz (i + 1) nr k else index)"
    by (subst find_zero_area.simps) (simp add: Let_def index_def i_def)
  show ?case
  proof (cases "q < find_next_zero_bit bits sz start")
    case True
    then show ?thesis using find_next_value_skip [OF 1(5) True] 1(3) by auto
  next
    case False
    then have iq: "index \<le> q" using align_up_least [OF 1(4)] by (simp add: index_def)
    then have le: "\<not> index + nr > sz" using 1(6) by simp
    with 1(2) unf have lt: "i < index + nr" "sz < find_zero_area bits sz (i + 1) nr k"
      by (auto split: if_splits)
    show ?thesis
    proof (cases "i + 1 \<le> q")
      case True
      then show ?thesis using 1(1) [OF index_def refl le] lt 1(3-6) by (simp add: i_def)
    next
      case False
      have "bits ! i" using find_next_value_hit [of True bits "index + nr" index] lt(1) by (simp add: i_def)
      moreover have "index \<le> i" using find_next_value_ge [of index "index + nr" True bits] by (simp add: i_def)
      ultimately show ?thesis using False iq lt(1) by (intro exI [of _ i]) simp
    qed
  qed
qed

lemma bset_fill:
  assumes "bitmap_fill v bits pos n = Done bits'"
  shows "length bits' = length bits"
    and "bset bits' = (if v then bset bits \<union> {pos..<pos + n} else bset bits - {pos..<pos + n})"
proof -
  have le: "pos + n \<le> length bits" and b: "bits' = take pos bits @ replicate n v @ drop (pos + n) bits"
    using assms by (auto simp: bitmap_fill_def split: if_splits)
  show len: "length bits' = length bits" using le b by simp
  have "bits' ! j = (if pos \<le> j \<and> j < pos + n then v else bits ! j)" if "j < length bits" for j
    using that le by (auto simp: b nth_append)
  then show "bset bits' = (if v then bset bits \<union> {pos..<pos + n} else bset bits - {pos..<pos + n})"
    using len le by (cases v) (auto simp: bset_def split: if_splits)
qed

lemma bitmap_fill_ok: "pos + n \<le> length bits \<Longrightarrow> \<exists>bits'. bitmap_fill v bits pos n = Done bits'"
  by (simp add: bitmap_fill_def)


section \<open>Counting clear bits\<close>

text \<open>
  The loops of \<^verbatim>\<open>free_blocks_in_bitmap\<close> and \<^verbatim>\<open>free_blocks_in_bitmap_contig_check\<close> go from one run of
  clear bits to the next. Both end: where a run is empty, the search for the next clear bit moves
  on, and otherwise the search for the end of the run does.
\<close>

lemma next_run_progress:
  assumes "position < sz"
  shows "position < find_next_zero_bit bits sz (find_next_bit bits sz position)"
proof -
  define n where "n = find_next_bit bits sz position"
  have n: "position \<le> n" "n \<le> sz" using assms find_next_value_ge find_next_value_le by (simp_all add: n_def)
  then have z: "n \<le> find_next_zero_bit bits sz n" using find_next_value_ge by simp
  show ?thesis
  proof (cases "n < sz")
    case True
    have "bits ! n" using find_next_value_hit [of True bits sz position] True by (simp add: n_def)
    then have "find_next_zero_bit bits sz n \<noteq> n"
      using find_next_value_hit [of False bits sz n] True by (cases "find_next_zero_bit bits sz n = n") auto
    then show ?thesis using z n(1) by (simp add: n_def [symmetric])
  next
    case False
    then show ?thesis using z n assms by (simp add: n_def [symmetric])
  qed
qed

function free_blocks_loop :: "bitmap \<Rightarrow> nat \<Rightarrow> nat \<Rightarrow> nat \<Rightarrow> nat" where
  "free_blocks_loop bits sz position free_blocks =
     (if position < sz then
        let next_position = find_next_bit bits sz position
        in if next_position > sz then free_blocks + (next_position - 1 - position)
           else free_blocks_loop bits sz (find_next_zero_bit bits sz next_position)
                  (free_blocks + (next_position - position))
      else free_blocks)"
  by pat_completeness auto

termination
  by (relation "measure (\<lambda>(bits, sz, position, free_blocks). sz - position)")
    (simp, use next_run_progress diff_less_mono2 in fastforce)

declare free_blocks_loop.simps [simp del]

definition free_blocks_in_bitmap :: "bitmap \<Rightarrow> nat \<Rightarrow> nat" where
  "free_blocks_in_bitmap bits sz = free_blocks_loop bits sz (find_next_zero_bit bits sz 0) 0"

function contig_loop :: "bitmap \<Rightarrow> nat \<Rightarrow> nat \<Rightarrow> nat \<Rightarrow> nat \<Rightarrow> bool \<Rightarrow> nat \<times> bool" where
  "contig_loop bits sz contig_len position free_blocks contig_found =
     (if position < sz then
        let next_position = find_next_bit bits sz position
        in if next_position > sz
           then (free_blocks + (next_position - 1 - position),
                 contig_found \<or> next_position - 1 - position \<ge> contig_len)
           else contig_loop bits sz contig_len (find_next_zero_bit bits sz next_position)
                  (free_blocks + (next_position - position))
                  (contig_found \<or> next_position - position \<ge> contig_len)
      else (free_blocks, contig_found))"
  by pat_completeness auto

termination
  by (relation "measure (\<lambda>(bits, sz, contig_len, position, free_blocks, contig_found). sz - position)")
    (simp, use next_run_progress diff_less_mono2 in fastforce)

declare contig_loop.simps [simp del]

definition free_blocks_in_bitmap_contig_check :: "bitmap \<Rightarrow> nat \<Rightarrow> nat \<Rightarrow> nat \<times> bool" where
  "free_blocks_in_bitmap_contig_check bits sz contig_len =
     contig_loop bits sz contig_len (find_next_zero_bit bits sz 0) 0 False"

text \<open>The clear bits from a position on.\<close>

definition clear_from :: "bitmap \<Rightarrow> nat \<Rightarrow> nat \<Rightarrow> nat set" where
  "clear_from bits sz position = {j. position \<le> j \<and> j < sz \<and> \<not> bits ! j}"

lemma clear_from_run:
  fixes bits :: bitmap
  assumes "position \<le> sz"
  defines "n \<equiv> find_next_bit bits sz position"
  shows "clear_from bits sz position = {position..<n} \<union> clear_from bits sz (find_next_zero_bit bits sz n)"
proof -
  define z where "z = find_next_zero_bit bits sz n"
  have o: "position \<le> n" "n \<le> z" "z \<le> sz"
    using assms find_next_value_ge find_next_value_le by (simp_all add: n_def z_def)
  have 1: "\<not> bits ! j" if "position \<le> j" "j < n" for j
    using find_next_value_skip [of position j True] that by (simp add: n_def)
  have 2: "bits ! j" if "n \<le> j" "j < z" for j
    using find_next_value_skip [of n j False] that by (simp add: z_def)
  show ?thesis
    unfolding clear_from_def z_def [symmetric] using o 1 2
    by (auto intro: leI)
qed

lemma card_clear_from:
  fixes bits :: bitmap
  assumes "position \<le> sz"
  defines "n \<equiv> find_next_bit bits sz position"
  shows "card (clear_from bits sz position) =
    (n - position) + card (clear_from bits sz (find_next_zero_bit bits sz n))"
proof -
  have "n \<le> find_next_zero_bit bits sz n"
    using assms find_next_value_ge find_next_value_le by (simp add: n_def)
  then have "{position..<n} \<inter> clear_from bits sz (find_next_zero_bit bits sz n) = {}"
    by (auto simp: clear_from_def)
  moreover have "finite (clear_from bits sz q)" for q by (simp add: clear_from_def)
  ultimately show ?thesis
    using clear_from_run [OF assms(1), of bits] by (simp add: n_def card_Un_disjoint)
qed

lemma free_blocks_loop_card:
  "position \<le> sz \<Longrightarrow> free_blocks_loop bits sz position acc = acc + card (clear_from bits sz position)"
proof (induction bits sz position acc rule: free_blocks_loop.induct)
  case (1 bits sz position acc)
  define n where "n = find_next_bit bits sz position"
  have le: "\<not> n > sz" "find_next_zero_bit bits sz n \<le> sz" using find_next_value_le [of True] find_next_value_le [of False]
    by (simp_all add: n_def not_less)
  show ?case
  proof (cases "position < sz")
    case True
    have "free_blocks_loop bits sz position acc
      = free_blocks_loop bits sz (find_next_zero_bit bits sz n) (acc + (n - position))"
      by (subst free_blocks_loop.simps) (use True le in \<open>simp add: n_def Let_def\<close>)
    also have "\<dots> = acc + (n - position) + card (clear_from bits sz (find_next_zero_bit bits sz n))"
      using 1(1) [OF True n_def le] by simp
    finally show ?thesis using card_clear_from [OF 1(2), of bits] by (simp add: n_def)
  next
    case False
    then have "clear_from bits sz position = {}" by (auto simp: clear_from_def)
    then show ?thesis using False by (simp add: free_blocks_loop.simps)
  qed
qed

lemma free_blocks_in_bitmap_card: "free_blocks_in_bitmap bits sz = card {j. j < sz \<and> \<not> bits ! j}"
proof -
  have "clear_from bits sz (find_next_zero_bit bits sz 0) = {j. j < sz \<and> \<not> bits ! j}"
    using find_next_value_skip [of 0 _ False bits sz] by (auto simp: clear_from_def intro: leI)
  then show ?thesis by (simp add: free_blocks_in_bitmap_def free_blocks_loop_card find_next_value_le)
qed

text \<open>A run of \<open>n\<close> clear bits from a position on.\<close>

definition clear_run :: "bitmap \<Rightarrow> nat \<Rightarrow> nat \<Rightarrow> nat \<Rightarrow> bool" where
  "clear_run bits sz n position \<longleftrightarrow> (\<exists>p\<ge>position. p + n \<le> sz \<and> (\<forall>j. p \<le> j \<and> j < p + n \<longrightarrow> \<not> bits ! j))"

lemma clear_run_step:
  fixes bits :: bitmap
  assumes "position \<le> sz" "0 < k"
  defines "n \<equiv> find_next_bit bits sz position"
  shows "clear_run bits sz k position \<longleftrightarrow>
    k \<le> n - position \<or> clear_run bits sz k (find_next_zero_bit bits sz n)"
proof
  define z where "z = find_next_zero_bit bits sz n"
  have o: "position \<le> n" "n \<le> z" "z \<le> sz"
    using assms find_next_value_ge find_next_value_le by (simp_all add: n_def z_def)
  have 1: "\<not> bits ! j" if "position \<le> j" "j < n" for j
    using find_next_value_skip [of position j True] that by (simp add: n_def)
  have 2: "bits ! j" if "n \<le> j" "j < z" for j
    using find_next_value_skip [of n j False] that by (simp add: z_def)
  { assume "clear_run bits sz k position"
    then obtain p where p: "position \<le> p" "p + k \<le> sz" "\<And>j. p \<le> j \<Longrightarrow> j < p + k \<Longrightarrow> \<not> bits ! j"
      by (auto simp: clear_run_def)
    show "k \<le> n - position \<or> clear_run bits sz k (find_next_zero_bit bits sz n)"
    proof (cases "p < n")
      case True
      have "p + k \<le> n"
      proof (rule ccontr)
        assume "\<not> p + k \<le> n"
        moreover from this have "n < sz" using p(2) by simp
        then have "bits ! n" using find_next_value_hit [of True bits sz position] by (simp add: n_def)
        ultimately show False using p(3) [of n] True by simp
      qed
      then have "k \<le> n - position" using p(1) by linarith
      then show ?thesis ..
    next
      case False
      then have "z \<le> p" using 2 [of p] p(3) [of p] assms(2) by (metis add.right_neutral leI nat_add_left_cancel_less order_refl)
      then show ?thesis using p by (auto simp: clear_run_def z_def [symmetric])
    qed }
  { assume "k \<le> n - position \<or> clear_run bits sz k (find_next_zero_bit bits sz n)"
    then show "clear_run bits sz k position"
    proof
      assume "k \<le> n - position"
      then have "position + k \<le> n" using o assms(2) by simp
      then show ?thesis using o 1 unfolding clear_run_def by (intro exI [of _ position]) simp
    next
      assume "clear_run bits sz k (find_next_zero_bit bits sz n)"
      then show ?thesis using o unfolding clear_run_def z_def [symmetric] by (meson order_trans)
    qed }
qed

lemma contig_loop_spec:
  "position \<le> sz \<Longrightarrow> 0 < k \<Longrightarrow> contig_loop bits sz k position acc found =
    (acc + card (clear_from bits sz position), found \<or> clear_run bits sz k position)"
proof (induction bits sz k position acc found rule: contig_loop.induct)
  case (1 bits sz k position acc found)
  define n where "n = find_next_bit bits sz position"
  have le: "\<not> n > sz" "find_next_zero_bit bits sz n \<le> sz" using find_next_value_le [of True] find_next_value_le [of False]
    by (simp_all add: n_def not_less)
  show ?case
  proof (cases "position < sz")
    case True
    have "contig_loop bits sz k position acc found = contig_loop bits sz k (find_next_zero_bit bits sz n)
        (acc + (n - position)) (found \<or> n - position \<ge> k)"
      by (subst contig_loop.simps) (use True le in \<open>simp add: n_def Let_def\<close>)
    also have "\<dots> = (acc + (n - position) + card (clear_from bits sz (find_next_zero_bit bits sz n)),
        (found \<or> n - position \<ge> k) \<or> clear_run bits sz k (find_next_zero_bit bits sz n))"
      using 1(1) [OF True n_def le] 1(3) by simp
    finally show ?thesis using card_clear_from [OF 1(2), of bits] clear_run_step [OF 1(2,3), of bits]
      by (simp add: n_def)
  next
    case False
    then have "clear_from bits sz position = {}" by (auto simp: clear_from_def)
    moreover have "\<not> clear_run bits sz k position" using False 1(2,3) by (auto simp: clear_run_def)
    ultimately show ?thesis using False by (simp add: contig_loop.simps)
  qed
qed

lemma contig_check_spec:
  assumes "0 < k"
  shows "free_blocks_in_bitmap_contig_check bits sz k =
    (card {j. j < sz \<and> \<not> bits ! j}, clear_run bits sz k 0)"
proof -
  define z where "z = find_next_zero_bit bits sz 0"
  have skip: "bits ! j" if "j < z" for j using find_next_value_skip [of 0 j False bits sz] that by (simp add: z_def)
  have "clear_from bits sz z = {j. j < sz \<and> \<not> bits ! j}"
    using skip by (auto simp: clear_from_def intro: leI)
  moreover have "clear_run bits sz k z = clear_run bits sz k 0"
  proof -
    have "z \<le> p" if "\<forall>j. p \<le> j \<and> j < p + k \<longrightarrow> \<not> bits ! j" for p
      using that skip [of p] assms by (metis add.right_neutral leI nat_add_left_cancel_less order_refl)
    then show ?thesis unfolding clear_run_def by blast
  qed
  moreover have "z \<le> sz" by (simp add: z_def find_next_value_le)
  ultimately show ?thesis
    using contig_loop_spec [of z sz k bits 0 False] assms
    by (simp add: free_blocks_in_bitmap_contig_check_def z_def)
qed

end
