(* ===== verification/Vdfs_Btree.thy ===== *)
theory Vdfs_Btree
  imports Vdfs_Bnode_Split Vdfs_Bitmap
begin

text \<open>
  The metadata trees as a whole (\<^verbatim>\<open>btree.c\<close>, \<^verbatim>\<open>bnode.c\<close>): nodes under their numbers, the head with the
  root and the height, the bitmap of the node numbers in use, the search from the root to a level,
  the step to the next record and the insertion with its splits.

  The trees are B-link trees. The nodes of a level form a doubly linked chain, and a search that
  arrives at a node may go on to the right; so a node that is not yet known to the level above
  (\<^emph>\<open>dangling\<close>) is found all the same.

  A pointer to a node is its number: the nodes are in the page cache, and two pointers to a node
  share its memory. Reference counts, locks and the modes in which a node is held are left out. What
  the page cache and the allocators answer is part of the environment.
\<close>

named_theorems btree_defs \<open>definitions of the operations of a tree\<close>

section \<open>State\<close>

record vdfs4_btree =
  bt_conf :: btree_conf
  bt_nodes :: "int \<Rightarrow> bnode"
  root_bnode_id :: int
  btree_height :: int
  bm_data :: bitmap
  bm_first_free_id :: int
  bm_free_num :: int
  bt_last_table_index :: int
  bt_dirty :: "int list"

text \<open>
  The answers of the environment: reading a node, creating the pages of a new node (with the flag
  \<^verbatim>\<open>force_insert\<close>) and what their memory holds, and the three slab caches.
\<close>

record btree_env =
  be_read :: "int \<Rightarrow> status"
  be_create :: "bool \<Rightarrow> int \<Rightarrow> status"
  be_page :: "int \<Rightarrow> bnode"
  be_rec_info :: bool
  be_stack :: bool
  be_todo :: bool

abbreviation bits_num :: "vdfs4_btree \<Rightarrow> int" where
  "bits_num t \<equiv> int (length (bm_data t))"

definition VDFS4_BTREE_LEAF_LVL :: int where "VDFS4_BTREE_LEAF_LVL = 1"
definition VDFS4_NODE_INDEX :: int where "VDFS4_NODE_INDEX = 1"

text \<open>The number of the node that holds the head of the tree; it is marked when the head changes.\<close>

definition head_bnode_id :: int where "head_bnode_id = 0"

definition set_node :: "int \<Rightarrow> bnode \<Rightarrow> vdfs4_btree \<Rightarrow> vdfs4_btree" where
  "set_node nid b t = t\<lparr>bt_nodes := (bt_nodes t)(nid := b)\<rparr>"

definition vdfs4_mark_bnode_dirty :: "int \<Rightarrow> vdfs4_btree \<Rightarrow> vdfs4_btree" where
  "vdfs4_mark_bnode_dirty nid t = t\<lparr>bt_dirty := bt_dirty t @ [nid]\<rparr>"

definition vdfs4_btree_inc_height :: "vdfs4_btree \<Rightarrow> vdfs4_btree" where
  "vdfs4_btree_inc_height t = vdfs4_mark_bnode_dirty head_bnode_id (t\<lparr>btree_height := u16 (btree_height t + 1)\<rparr>)"

definition vdfs4_btree_set_root_id :: "int \<Rightarrow> vdfs4_btree \<Rightarrow> vdfs4_btree" where
  "vdfs4_btree_set_root_id new_root t = vdfs4_mark_bnode_dirty head_bnode_id (t\<lparr>root_bnode_id := new_root\<rparr>)"

section \<open>Nodes\<close>

text \<open>\<^verbatim>\<open>vdfs4_get_bnode\<close>\<close>

definition vdfs4_get_bnode :: "btree_env \<Rightarrow> vdfs4_btree \<Rightarrow> int \<Rightarrow> status" where
  "vdfs4_get_bnode env t node_id =
     (if node_id \<noteq> 0 \<and> (node_id \<ge> bits_num t \<or> \<not> bm_data t ! nat node_id) then Some ENOENT
      else be_read env node_id)"

text \<open>
  The creation of the pages of a node (\<^verbatim>\<open>read_or_create_bnode_data\<close> with \<^verbatim>\<open>create\<close>): a node past the
  end of the file makes the file longer.
\<close>

definition create_bnode :: "btree_env \<Rightarrow> bool \<Rightarrow> int \<Rightarrow> vdfs4_btree \<Rightarrow> status \<times> vdfs4_btree" where
  "create_bnode env force_insert nid t =
     (case be_create env force_insert nid of
        Some e \<Rightarrow> (Some e, t)
      | None \<Rightarrow> (success, (set_node nid ((be_page env nid)\<lparr>bn_id := nid\<rparr>) t)
                   \<lparr>bt_last_table_index := max (bt_last_table_index t) nid\<rparr>))"

text \<open>
  \<^verbatim>\<open>vdfs4_alloc_new_bnode\<close>: the lowest free number. The bit is set first and cleared again when the
  pages cannot be created.
\<close>

definition vdfs4_alloc_new_bnode :: "btree_env \<Rightarrow> vdfs4_btree \<Rightarrow> ((errno + int) \<times> vdfs4_btree) outcome" where
  "vdfs4_alloc_new_bnode env t =
     (let nid = bm_first_free_id t in
      if bm_free_num t = 0 then Done (Inl ENOSPC, t)
      else if \<not> (0 \<le> nid \<and> nid < bits_num t) then Undef
      else if bm_data t ! nat nid then Done (Inl EFAULT, t)
      else case create_bnode env False nid t of
             (Some e, t1) \<Rightarrow> Done (Inl e, t1)
           | (None, t1) \<Rightarrow>
               let bits = (bm_data t1)[nat nid := True];
                   t2 = t1\<lparr>bm_data := bits,
                           bm_first_free_id := int (find_next_zero_bit bits (length bits) (nat nid)),
                           bm_free_num := u32 (bm_free_num t1 - 1)\<rparr>
               in Done (Inr nid, vdfs4_mark_bnode_dirty head_bnode_id t2))"

text \<open>
  \<^verbatim>\<open>vdfs4_build_free_bnode_bitmap\<close>, when a tree is opened: \<open>bits\<close> are the bits of the bitmap in the head
  node; the memory for the structure may be missing.
\<close>

definition vdfs4_build_free_bnode_bitmap :: "bool \<Rightarrow> bool \<Rightarrow> bitmap \<Rightarrow> int \<Rightarrow> vdfs4_btree \<Rightarrow> status \<times> vdfs4_btree" where
  "vdfs4_build_free_bnode_bitmap host_bnode mem_ok bits start_bnode_id t =
     (if \<not> host_bnode then (Some EINVAL, t)
      else if \<not> mem_ok then (Some ENOMEM, t)
      else (success, t\<lparr>bm_data := bits,
              bm_free_num := u32 (u32 (int (length bits)) - u32 (int (length (filter (\<lambda>b. b) bits)))),
              bm_first_free_id := u32 (u32 (int (find_next_zero_bit bits (length bits) 0)) + start_bnode_id)\<rparr>))"

text \<open>\<^verbatim>\<open>vdfs4_destroy_bnode\<close>, for a node that nobody else holds\<close>

definition vdfs4_destroy_bnode :: "vdfs4_btree \<Rightarrow> int \<Rightarrow> (status \<times> vdfs4_btree) outcome" where
  "vdfs4_destroy_bnode t bnode_id =
     (if bnode_id = INVALID_NODE_ID then Done (Some EINVAL, t)
      else if \<not> (0 \<le> bnode_id \<and> bnode_id < bits_num t) then Undef
      else if \<not> bm_data t ! nat bnode_id then Done (Some EFAULT, t)
      else Done (success, vdfs4_mark_bnode_dirty head_bnode_id
             (t\<lparr>bm_data := (bm_data t)[nat bnode_id := False],
                bm_first_free_id := min (bm_first_free_id t) bnode_id,
                bm_free_num := u32 (bm_free_num t + 1)\<rparr>)))"

text \<open>
  \<^verbatim>\<open>vdfs4_check_bnode_reserve\<close>: nodes are created past the end of the file until four per level are
  free. The counts are unsigned longs; when there are more free nodes than the reserve the deficit
  wraps around, and so does the end of the loop, which then makes no turn.
\<close>

definition vdfs4_prealloc_one_bnode_reserve ::
    "btree_env \<Rightarrow> bool \<Rightarrow> int \<Rightarrow> vdfs4_btree \<Rightarrow> (status \<times> vdfs4_btree) outcome" where
  "vdfs4_prealloc_one_bnode_reserve env force_insert nid t =
     (case create_bnode env force_insert nid t of
        (Some e, t1) \<Rightarrow> Done (Some e, t1)
      | (None, t1) \<Rightarrow>
          bind_outcome (vdfs4_init_new_node_descr (bt_conf t1) (bt_nodes t1 nid) 0) (\<lambda>b.
            Done (success, vdfs4_mark_bnode_dirty nid (set_node nid b t1))))"

definition reserve_step ::
    "btree_env \<Rightarrow> bool \<Rightarrow> int \<Rightarrow> status \<times> vdfs4_btree \<Rightarrow> (status \<times> vdfs4_btree) outcome" where
  "reserve_step env force_insert i = (\<lambda>(st, t).
     if st \<noteq> success then Done (st, t) else vdfs4_prealloc_one_bnode_reserve env force_insert (u32 i) t)"

definition bnodes_deficit :: "vdfs4_btree \<Rightarrow> int" where
  "bnodes_deficit t =
     (let reserve = btree_height t * 4;
          available_bnodes = u64 (bt_last_table_index t + 1);
          used_bnodes = u64 (bits_num t - bm_free_num t);
          free_bnodes = u64 (available_bnodes - used_bnodes)
      in u64 (reserve - free_bnodes))"

definition vdfs4_check_bnode_reserve :: "btree_env \<Rightarrow> bool \<Rightarrow> vdfs4_btree \<Rightarrow> (status \<times> vdfs4_btree) outcome" where
  "vdfs4_check_bnode_reserve env force_insert t =
     (let available_bnodes = u64 (bt_last_table_index t + 1);
          new_bnodes_num = u64 (available_bnodes + bnodes_deficit t)
      in if bnodes_deficit t \<le> 0 then Done (success, t)
         else for_each (reserve_step env force_insert) [available_bnodes..new_bnodes_num - 1] (success, t))"

section \<open>The next record\<close>

text \<open>\<^verbatim>\<open>__vdfs4_get_next_bnode\<close>: the number of the right neighbour\<close>

definition get_next_bnode :: "btree_env \<Rightarrow> vdfs4_btree \<Rightarrow> int \<Rightarrow> errno + int" where
  "get_next_bnode env t nid =
     (let next_id = d_next (bt_nodes t nid) in
      if next_id = INVALID_NODE_ID then Inl ENOENT
      else case vdfs4_get_bnode env t next_id of Some e \<Rightarrow> Inl e | None \<Rightarrow> Inr next_id)"

text \<open>
  \<^verbatim>\<open>__vdfs4_get_next_btree_record\<close>: the node, the index and the offset of the record after the one at
  the given place
\<close>

definition get_next_btree_record ::
    "btree_env \<Rightarrow> vdfs4_btree \<Rightarrow> int \<Rightarrow> int \<Rightarrow> (errno + int \<times> int \<times> int) outcome" where
  "get_next_btree_record env t nid index =
     (if index + 1 < d_recs_count (bt_nodes t nid)
      then bind_outcome (get_record (bt_conf t) (bt_nodes t nid) (index + 1)) (\<lambda>r.
             Done (case r of Inl e \<Rightarrow> Inl e | Inr off \<Rightarrow> Inr (nid, index + 1, off)))
      else case get_next_bnode env t nid of
             Inl e \<Rightarrow> Done (Inl e)
           | Inr next_id \<Rightarrow>
               bind_outcome (get_record (bt_conf t) (bt_nodes t next_id) 0) (\<lambda>r.
                 Done (case r of Inl e \<Rightarrow> Inl e | Inr off \<Rightarrow> Inr (next_id, 0, off))))"

text \<open>\<^verbatim>\<open>form_gen_record\<close> refuses a record whose key is too long for a value to follow.\<close>

definition form_gen_record :: "vdfs4_btree \<Rightarrow> int \<times> int \<times> int \<Rightarrow> errno + int \<times> int \<times> int" where
  "form_gen_record t place =
     (case place of (nid, pos, off) \<Rightarrow>
        (case get_value_pointer (rec_at (bt_nodes t nid) off) of Inl e \<Rightarrow> Inl EINVAL | Inr v \<Rightarrow> Inr place))"

definition vdfs4_get_next_btree_record ::
    "btree_env \<Rightarrow> vdfs4_btree \<Rightarrow> int \<Rightarrow> int \<Rightarrow> (errno + int \<times> int \<times> int) outcome" where
  "vdfs4_get_next_btree_record env t nid index =
     bind_outcome (get_next_btree_record env t nid index) (\<lambda>r.
       Done (case r of Inl e \<Rightarrow> Inl e | Inr place \<Rightarrow> form_gen_record t place))"

section \<open>The search\<close>

text \<open>
  One item of the stack of a descent: the node, the position in it and its level. The stack begins
  with the lowest level; a pointer to one of its items is the part of the stack from there on, and
  \<^verbatim>\<open>NULL\<close> the empty list. The work that is left over is an index record to be inserted: above which
  item, for which node, and the root at that time.
\<close>

type_synonym traverse_stack = "(int \<times> int \<times> int) list"
type_synonym index_work = "traverse_stack \<times> int \<times> int"

definition put_add_index_work ::
    "btree_env \<Rightarrow> traverse_stack \<Rightarrow> int \<Rightarrow> int \<Rightarrow> index_work list \<Rightarrow> index_work list" where
  "put_add_index_work env traverse_data point_to_bnode_id current_root_id todo =
     (if be_todo env then (traverse_data, point_to_bnode_id, current_root_id) # todo else todo)"

text \<open>
  The loop of \<^verbatim>\<open>btree_traverse_level\<close>: while the place found is the last of its node, the right
  neighbour may have a better one. The number of turns is bounded by the fuel; a chain without
  cycle is shorter than the bitmap of the numbers, and in a cycle the code never ends.
\<close>

primrec traverse_right ::
    "nat \<Rightarrow> btree_env \<Rightarrow> vdfs4_btree \<Rightarrow> bytes \<Rightarrow> bool \<Rightarrow> traverse_stack \<Rightarrow> int \<Rightarrow> int \<Rightarrow> index_work list \<Rightarrow>
     ((errno + int \<times> int) \<times> index_work list) outcome" where
  "traverse_right 0 env t key track stack nid pos todo = Undef"
| "traverse_right (Suc fuel) env t key track stack nid pos todo =
     (let b = bt_nodes t nid in
      if pos = d_recs_count b - 1 \<and> d_next b \<noteq> 0 then
        case vdfs4_get_bnode env t (d_next b) of
          Some e \<Rightarrow> Done (Inl e, todo)
        | None \<Rightarrow>
            bind_outcome (binary_search (bt_conf t) (bt_nodes t (d_next b)) key) (\<lambda>r.
              case r of
                Inl e \<Rightarrow> Done (if e = ENOENT then Inr (nid, pos) else Inl e, todo)
              | Inr (dang_pos, off) \<Rightarrow>
                  traverse_right fuel env t key track stack (d_next b) dang_pos
                    (if track then put_add_index_work env stack (d_next b) (root_bnode_id t) todo else todo))
      else Done (Inr (nid, pos), todo))"

definition btree_traverse_level ::
    "btree_env \<Rightarrow> vdfs4_btree \<Rightarrow> bytes \<Rightarrow> int \<Rightarrow> bool \<Rightarrow> traverse_stack \<Rightarrow> index_work list \<Rightarrow>
     ((errno + int \<times> int) \<times> index_work list) outcome" where
  "btree_traverse_level env t key start_bnode_id track stack todo =
     (case vdfs4_get_bnode env t start_bnode_id of
        Some e \<Rightarrow> Done (Inl e, todo)
      | None \<Rightarrow>
          bind_outcome (binary_search (bt_conf t) (bt_nodes t start_bnode_id) key) (\<lambda>r.
            case r of
              Inl e \<Rightarrow> Done (Inl e, todo)
            | Inr (pos, off) \<Rightarrow>
                traverse_right (length (bm_data t) + 1) env t key track stack start_bnode_id pos todo))"

text \<open>The child an index record points to: \<^verbatim>\<open>struct generic_index_value\<close> behind the key.\<close>

definition index_child :: "bytes \<Rightarrow> int" where
  "index_child r = le32_at r (key_len r)"

definition child_at :: "vdfs4_btree \<Rightarrow> int \<Rightarrow> int \<Rightarrow> (errno + int) outcome" where
  "child_at t nid pos =
     bind_outcome (get_record (bt_conf t) (bt_nodes t nid) pos) (\<lambda>r.
       Done (case r of
               Inl e \<Rightarrow> Inl e
             | Inr off \<Rightarrow>
                 (case get_value_pointer (rec_at (bt_nodes t nid) off) of
                    Inl e \<Rightarrow> Inl e
                  | Inr v \<Rightarrow> Inr (index_child (rec_at (bt_nodes t nid) off)))))"

text \<open>The loop of \<^verbatim>\<open>vdfs4_btree_traverse\<close> from \<open>level\<close> on; \<open>n\<close> levels are below.\<close>

primrec traverse_levels ::
    "nat \<Rightarrow> btree_env \<Rightarrow> vdfs4_btree \<Rightarrow> bytes \<Rightarrow> bool \<Rightarrow> int \<Rightarrow> int \<Rightarrow> traverse_stack \<Rightarrow> index_work list \<Rightarrow>
     ((errno + int \<times> int) \<times> traverse_stack \<times> index_work list) outcome" where
  "traverse_levels 0 env t key track level nid stack todo =
     bind_outcome (btree_traverse_level env t key nid track stack todo) (\<lambda>(r, todo1).
       case r of
         Inl e \<Rightarrow> Done (Inl e, stack, todo1)
       | Inr (nid', pos) \<Rightarrow>
           if \<not> track then Done (Inr (nid', pos), stack, todo1)
           else if \<not> be_stack env then Done (Inl ENOMEM, stack, todo1)
           else Done (Inr (nid', pos), (nid', pos, level) # stack, todo1))"
| "traverse_levels (Suc n) env t key track level nid stack todo =
     bind_outcome (btree_traverse_level env t key nid track stack todo) (\<lambda>(r, todo1).
       case r of
         Inl e \<Rightarrow> Done (Inl e, stack, todo1)
       | Inr (nid', pos) \<Rightarrow>
           if track \<and> \<not> be_stack env then Done (Inl ENOMEM, stack, todo1)
           else
             bind_outcome (child_at t nid' pos) (\<lambda>c.
               case c of
                 Inl e \<Rightarrow> Done (Inl e, stack, todo1)
               | Inr child \<Rightarrow>
                   traverse_levels n env t key track (level - 1) child
                     (if track then (nid', pos, level) # stack else stack) todo1))"

definition vdfs4_btree_traverse ::
    "btree_env \<Rightarrow> vdfs4_btree \<Rightarrow> bytes \<Rightarrow> bool \<Rightarrow> int \<Rightarrow>
     ((errno + int \<times> int) \<times> traverse_stack \<times> index_work list) outcome" where
  "vdfs4_btree_traverse env t key track till_level =
     (if btree_height t < till_level then Undef
      else traverse_levels (nat (btree_height t - till_level)) env t key track (btree_height t) (root_bnode_id t) [] [])"

text \<open>\<^verbatim>\<open>vdfs4_btree_find\<close>: the node, the position and the offset of the record\<close>

definition vdfs4_btree_find :: "btree_env \<Rightarrow> vdfs4_btree \<Rightarrow> bytes \<Rightarrow> (errno + int \<times> int \<times> int) outcome" where
  "vdfs4_btree_find env t key =
     (if \<not> be_rec_info env then Done (Inl ENOMEM)
      else bind_outcome (vdfs4_btree_traverse env t key False VDFS4_BTREE_LEAF_LVL) (\<lambda>(r, _).
        case r of
          Inl e \<Rightarrow> Done (Inl e)
        | Inr (nid, pos) \<Rightarrow>
            bind_outcome (get_record (bt_conf t) (bt_nodes t nid) pos) (\<lambda>raw.
              Done (case raw of Inl e \<Rightarrow> Inl e | Inr off \<Rightarrow> form_gen_record t (nid, pos, off)))))"

section \<open>The split of a node\<close>

text \<open>
  \<^verbatim>\<open>split_bnode\<close>: the records are distributed, and the new node is linked in to the right of the old
  one. When the old right neighbour cannot be read, the old node gets its contents back, but the
  result is still success.
\<close>

definition split_bnode ::
    "btree_env \<Rightarrow> vdfs4_btree \<Rightarrow> int \<Rightarrow> int \<Rightarrow> bytes \<Rightarrow> int \<Rightarrow> int \<Rightarrow>
     (status \<times> (bool \<times> int \<times> int) option \<times> vdfs4_btree) outcome" where
  "split_bnode env t left right new_key new_rec_len insert_pos =
     (let orig = bt_nodes t left in
      bind_outcome (split_records (bt_conf t) orig (bt_nodes t right) new_key new_rec_len insert_pos) (\<lambda>(err, st).
        if err \<noteq> success then Done (err, sp_res st, set_node right (sp_right st) t)
        else
          let l = (sp_left st)\<lparr>d_prev := d_prev orig, d_next := d_node_id (sp_right st)\<rparr>;
              r = (sp_right st)\<lparr>d_prev := d_node_id (sp_left st), d_next := d_next orig\<rparr>;
              t1 = set_node right r (set_node left l t)
          in if d_next orig = INVALID_NODE_ID then Done (success, sp_res st, t1)
             else case vdfs4_get_bnode env t1 (d_next orig) of
                    Some e \<Rightarrow> Done (success, sp_res st, set_node left orig t1)
                  | None \<Rightarrow>
                      Done (success, sp_res st,
                        vdfs4_mark_bnode_dirty (d_next orig)
                          (set_node (d_next orig) ((bt_nodes t1 (d_next orig))\<lparr>d_prev := d_node_id r\<rparr>) t1))))"

section \<open>Insertion\<close>

text \<open>
  The item of the stack above: \<^verbatim>\<open>NULL\<close> for the root level. For a lower item that has no successor
  the code takes the head of the list for one.
\<close>

definition parent_item :: "vdfs4_btree \<Rightarrow> traverse_stack \<Rightarrow> traverse_stack outcome" where
  "parent_item t traverse_data =
     (case traverse_data of
        [] \<Rightarrow> Undef
      | (nid, pos, level) # rest \<Rightarrow> if level = btree_height t then Done [] else if rest = [] then Undef else Done rest)"

text \<open>
  \<^verbatim>\<open>place_key_in_bnode\<close>: the place of the new record (node, position, offset), the index record that
  is left to do, and the tree.
\<close>

definition place_by_split ::
    "btree_env \<Rightarrow> vdfs4_btree \<Rightarrow> traverse_stack \<Rightarrow> int \<Rightarrow> int \<Rightarrow> bytes \<Rightarrow> int \<Rightarrow> bool \<Rightarrow>
     ((errno + int \<times> int \<times> int) \<times> index_work list \<times> vdfs4_btree) outcome" where
  "place_by_split env t traverse_data nid pos gen_key new_rec_len force_insert =
     bind_outcome (vdfs4_check_bnode_reserve env force_insert t) (\<lambda>(ret, t1).
       case ret of
         Some e \<Rightarrow> Done (Inl e, [], t1)
       | None \<Rightarrow>
           bind_outcome (vdfs4_alloc_new_bnode env t1) (\<lambda>(r, t2).
             case r of
               Inl e \<Rightarrow> Done (Inl e, [], t2)
             | Inr right \<Rightarrow>
                 bind_outcome (split_bnode env t2 nid right gen_key new_rec_len (pos + 1)) (\<lambda>(ret, res, t3).
                   let t4 = vdfs4_mark_bnode_dirty right (vdfs4_mark_bnode_dirty nid t3) in
                   case ret of
                     Some e \<Rightarrow> bind_outcome (vdfs4_destroy_bnode t4 right) (\<lambda>(_, t5). Done (Inl e, [], t5))
                   | None \<Rightarrow>
                       bind_outcome (parent_item t4 traverse_data) (\<lambda>parent.
                         case res of
                           None \<Rightarrow> Undef
                         | Some (in_right, p, off) \<Rightarrow>
                             Done (Inr (if in_right then right else nid, p, off),
                                   put_add_index_work env parent right (root_bnode_id t4) [], t4)))))"

definition place_key_in_bnode ::
    "btree_env \<Rightarrow> vdfs4_btree \<Rightarrow> traverse_stack \<Rightarrow> int \<Rightarrow> int \<Rightarrow> bytes \<Rightarrow> int \<Rightarrow> bool \<Rightarrow>
     ((errno + int \<times> int \<times> int) \<times> index_work list \<times> vdfs4_btree) outcome" where
  "place_key_in_bnode env t traverse_data nid pos gen_key new_rec_len force_insert =
     (if \<not> be_rec_info env then Done (Inl ENOMEM, [], t)
      else bind_outcome (get_record (bt_conf t) (bt_nodes t nid) pos) (\<lambda>raw.
        case raw of
          Inl e \<Rightarrow> Done (Inl e, [], t)
        | Inr off0 \<Rightarrow>
            if comp_fn (bt_conf t) (rec_at (bt_nodes t nid) off0) gen_key = 0 then Done (Inl EEXIST, [], t)
            else if is_node_full (bt_nodes t nid) (u16 new_rec_len)
            then place_by_split env t traverse_data nid pos gen_key new_rec_len force_insert
            else bind_outcome (insert_key_into_bnode (bt_conf t) (bt_nodes t nid) gen_key new_rec_len (pos + 1)) (\<lambda>(r, b).
                   let t1 = vdfs4_mark_bnode_dirty nid (set_node nid b t) in
                   Done (case r of Inl e \<Rightarrow> Inl e | Inr (p, off) \<Rightarrow> Inr (nid, p, off), [], t1))))"

text \<open>The value of an index record, written through the pointer to the new record.\<close>

definition write_index_value :: "int \<Rightarrow> int \<Rightarrow> int \<Rightarrow> vdfs4_btree \<Rightarrow> vdfs4_btree" where
  "write_index_value nid off child t = set_node nid (write_value (bt_nodes t nid) off (le_bytes 4 child)) t"

text \<open>
  The loop of \<^verbatim>\<open>build_new_root\<close> over the nodes of the root level. It stops early when the new root is
  full.
\<close>

primrec fill_root ::
    "nat \<Rightarrow> btree_env \<Rightarrow> int \<Rightarrow> int \<Rightarrow> int \<Rightarrow> vdfs4_btree \<Rightarrow> (status \<times> vdfs4_btree) outcome" where
  "fill_root 0 env new_root cur pos t = Undef"
| "fill_root (Suc fuel) env new_root cur pos t =
     bind_outcome (get_record (bt_conf t) (bt_nodes t cur) 0) (\<lambda>raw.
       case raw of
         Inl e \<Rightarrow> Done (Some e, t)
       | Inr off \<Rightarrow>
           let key = rec_at (bt_nodes t cur) off in
           if is_node_full (bt_nodes t new_root) (record_len key) then Done (success, t)
           else
             bind_outcome (insert_key_into_bnode (bt_conf t) (bt_nodes t new_root) key (key_len key + 4) pos) (\<lambda>(r, b).
               case r of
                 Inl e \<Rightarrow> Done (Some e, set_node new_root b t)
               | Inr (p, off1) \<Rightarrow>
                   let t1 = write_index_value new_root off1 cur (set_node new_root b t) in
                   (case get_next_bnode env t1 cur of
                      Inl e \<Rightarrow> Done (if e = ENOENT then success else Some e, t1)
                    | Inr next_id \<Rightarrow> fill_root fuel env new_root next_id (pos + 1) t1)))"

definition build_new_root :: "btree_env \<Rightarrow> vdfs4_btree \<Rightarrow> int \<Rightarrow> (status \<times> vdfs4_btree) outcome" where
  "build_new_root env t current_root_id =
     (if current_root_id \<noteq> root_bnode_id t then Done (success, t)
      else if \<not> be_rec_info env then Done (Some ENOMEM, t)
      else bind_outcome (vdfs4_alloc_new_bnode env t) (\<lambda>(r, t1).
        case r of
          Inl e \<Rightarrow> Done (Some e, t1)
        | Inr new_root \<Rightarrow>
            bind_outcome (vdfs4_init_new_node_descr (bt_conf t1) (bt_nodes t1 new_root) VDFS4_NODE_INDEX) (\<lambda>b.
              let t2 = set_node new_root b t1;
                  err_exit = (\<lambda>st u. bind_outcome (vdfs4_destroy_bnode u new_root) (\<lambda>(_, u1). Done (st, u1)))
              in case vdfs4_get_bnode env t2 (root_bnode_id t2) of
                   Some e \<Rightarrow> err_exit (Some e) t2
                 | None \<Rightarrow>
                     if d_next (bt_nodes t2 (root_bnode_id t2)) = INVALID_NODE_ID then err_exit success t2
                     else bind_outcome (fill_root (length (bm_data t2) + 1) env new_root (root_bnode_id t2) 0 t2) (\<lambda>(st, t3).
                       if st \<noteq> success then err_exit st t3
                       else Done (success,
                              vdfs4_mark_bnode_dirty head_bnode_id (vdfs4_mark_bnode_dirty new_root
                                (vdfs4_btree_set_root_id new_root (vdfs4_btree_inc_height t3))))))))"

definition place_index_record ::
    "btree_env \<Rightarrow> vdfs4_btree \<Rightarrow> index_work \<Rightarrow> bool \<Rightarrow> (status \<times> index_work list \<times> vdfs4_btree) outcome" where
  "place_index_record env t work force_insert =
     (case work of (traverse_data, point_to_bnode_id, current_root_id) \<Rightarrow>
        (case traverse_data of
           [] \<Rightarrow> bind_outcome (build_new_root env t current_root_id) (\<lambda>(st, t1). Done (st, [], t1))
         | (start_id, _, _) # _ \<Rightarrow>
             (case vdfs4_get_bnode env t point_to_bnode_id of
                Some e \<Rightarrow> Done (Some e, [], t)
              | None \<Rightarrow>
                  bind_outcome (get_record (bt_conf t) (bt_nodes t point_to_bnode_id) 0) (\<lambda>raw.
                    case raw of
                      Inl e \<Rightarrow> Done (Some e, [], t)
                    | Inr off \<Rightarrow>
                        let gen_key = rec_at (bt_nodes t point_to_bnode_id) off in
                        bind_outcome (btree_traverse_level env t gen_key start_id False [] []) (\<lambda>(r, _).
                          case r of
                            Inl e \<Rightarrow> Done (Some e, [], t)
                          | Inr (nid, pos) \<Rightarrow>
                              bind_outcome (place_key_in_bnode env t traverse_data nid pos gen_key (key_len gen_key + 4) force_insert)
                                (\<lambda>(r, todo, t1).
                                  case r of
                                    Inl e \<Rightarrow> Done (Some e, todo, t1)
                                  | Inr (id1, p, off1) \<Rightarrow>
                                      Done (success, todo,
                                        vdfs4_mark_bnode_dirty id1 (write_index_value id1 off1 point_to_bnode_id t1))))))))"

text \<open>
  The loop over the work that is left; its errors are ignored. Every piece of work leaves at most
  one more, one level higher.
\<close>

lemma bind_DoneE:
  assumes "bind_outcome m f = Done b"
  obtains a where "m = Done a" "f a = Done b"
  using assms by (cases m) auto

definition work_above :: "traverse_stack \<Rightarrow> index_work list \<Rightarrow> bool" where
  "work_above traverse_data todo \<longleftrightarrow> todo = [] \<or> (\<exists>w. todo = [w] \<and> length (fst w) < length traverse_data)"

lemma parent_work: "parent_item t traverse_data = Done parent \<Longrightarrow> work_above traverse_data (put_add_index_work env parent x y [])"
  by (auto simp: parent_item_def put_add_index_work_def work_above_def split: list.splits if_splits)

lemma place_by_split_work:
  "place_by_split env t traverse_data nid pos gen_key len f = Done (r, todo, t') \<Longrightarrow> work_above traverse_data todo"
  unfolding place_by_split_def
  by (auto simp: Let_def work_above_def [of _ "[]"] elim!: bind_DoneE parent_work
      split: if_split_asm sum.split_asm prod.split_asm option.split_asm)

lemma place_key_work:
  assumes "place_key_in_bnode env t traverse_data nid pos gen_key len f = Done (r, todo, t')"
  shows "work_above traverse_data todo"
  using assms place_by_split_work [of env t traverse_data nid pos gen_key len f r todo t'] unfolding place_key_in_bnode_def
  by (auto simp: Let_def work_above_def [of _ "[]"] elim!: bind_DoneE split: if_split_asm sum.split_asm prod.split_asm)

lemma place_index_work:
  assumes "place_index_record env t w f = Done (st, todo, t')"
  shows "todo = [] \<or> work_above (fst w) todo"
  using assms unfolding place_index_record_def
  by (auto simp: Let_def dest!: place_key_work elim!: bind_DoneE split: if_split_asm sum.split_asm prod.split_asm option.split_asm list.split_asm)

function process_todo :: "btree_env \<Rightarrow> index_work list \<Rightarrow> vdfs4_btree \<Rightarrow> vdfs4_btree outcome" where
  "process_todo env [] t = Done t"
| "process_todo env (w # todo) t =
     (case place_index_record env t w True of
        Done (st, new_work, t1) \<Rightarrow> process_todo env (new_work @ todo) t1
      | Bug \<Rightarrow> Bug
      | Undef \<Rightarrow> Undef)"
  by pat_completeness auto

termination
proof (relation "measure (\<lambda>(env, todo, t). sum_list (map (\<lambda>w. Suc (length (fst w))) todo))", simp)
  fix env :: btree_env and w :: index_work and todo :: "index_work list" and t :: vdfs4_btree and a x new_work y t1
  assume "place_index_record env t w True = Done a" "(x, y) = a" "(new_work, t1) = y"
  then have "place_index_record env t w True = Done (x, new_work, t1)" by simp
  from place_index_work [OF this] show "((env, new_work @ todo, t1), env, w # todo, t) \<in> measure (\<lambda>(env, todo, t). sum_list (map (\<lambda>w. Suc (length (fst w))) todo))"
    by (auto simp: work_above_def)
qed

declare process_todo.simps(2) [simp del]

text \<open>\<^verbatim>\<open>place_data_at_level\<close>\<close>

definition place_data_at_level ::
    "btree_env \<Rightarrow> vdfs4_btree \<Rightarrow> bytes \<Rightarrow> int \<Rightarrow> bool \<Rightarrow> ((errno + int \<times> int \<times> int) \<times> vdfs4_btree) outcome" where
  "place_data_at_level env t gen_key level force_insert =
     bind_outcome (vdfs4_btree_traverse env t gen_key True level) (\<lambda>(r, stack, todo).
       case r of
         Inl e \<Rightarrow> Done (Inl e, t)
       | Inr (nid, pos) \<Rightarrow>
           bind_outcome (place_key_in_bnode env t stack nid pos gen_key (record_len gen_key) force_insert) (\<lambda>(place, new_work, t1).
             bind_outcome (process_todo env (new_work @ todo) t1) (\<lambda>t2. Done (place, t2))))"

definition vdfs4_btree_place_data :: "btree_env \<Rightarrow> vdfs4_btree \<Rightarrow> bytes \<Rightarrow> ((errno + int \<times> int \<times> int) \<times> vdfs4_btree) outcome" where
  "vdfs4_btree_place_data env t gen_key = place_data_at_level env t gen_key VDFS4_BTREE_LEAF_LVL False"

text \<open>
  \<^verbatim>\<open>btree_insert_at_level\<close>: the value is copied behind the key. A key that is too long for a value has
  no place for it.
\<close>

definition btree_insert_at_level ::
    "btree_env \<Rightarrow> vdfs4_btree \<Rightarrow> bytes \<Rightarrow> int \<Rightarrow> bool \<Rightarrow> (status \<times> vdfs4_btree) outcome" where
  "btree_insert_at_level env t new_data level force_insert =
     bind_outcome (place_data_at_level env t new_data level force_insert) (\<lambda>(r, t1).
       case r of
         Inl e \<Rightarrow> Done (Some e, t1)
       | Inr (nid, pos, off) \<Rightarrow>
           let val_len = u32 (record_len new_data - key_len new_data) in
           case get_value_pointer new_data of
             Inl e \<Rightarrow> Undef
           | Inr v \<Rightarrow>
               if in_mem new_data v val_len
               then Done (success, set_node nid (write_value (bt_nodes t1 nid) off (mem_read new_data v val_len)) t1)
               else Undef)"

definition vdfs4_btree_insert :: "btree_env \<Rightarrow> vdfs4_btree \<Rightarrow> bytes \<Rightarrow> bool \<Rightarrow> (status \<times> vdfs4_btree) outcome" where
  "vdfs4_btree_insert env t new_data force_insert =
     btree_insert_at_level env t new_data VDFS4_BTREE_LEAF_LVL force_insert"

end
