(* ===== verification/Vdfs_Btree_Search.thy ===== *)
theory Vdfs_Btree_Search
  imports Vdfs_Btree
begin

text \<open>
  The search in a tree. Whether a level is complete or has nodes that the level above does not know
  yet, the search ends at the last record of the level that does not follow the key. A tree is
  described by the list of its levels, the leaves first, each with the numbers of its nodes from
  left to right.
\<close>

section \<open>Keys of trees\<close>

text \<open>Two records with the same key: only the length of the record and the value may differ.\<close>

definition same_key :: "bytes \<Rightarrow> bytes \<Rightarrow> bool" where
  "same_key a b \<longleftrightarrow> key_len b = key_len a \<and> key_len a \<le> int (length b) \<and>
     mem_read b 8 (key_len a - 8) = mem_read a 8 (key_len a - 8)"

text \<open>
  What a tree needs of its keys beyond the order: the key lies inside its bytes, and the order looks
  at nothing but the key.
\<close>

locale tree_keys = key_order +
  assumes valid_len: "valid k \<Longrightarrow> 8 \<le> key_len k \<and> key_len k \<le> 288 \<and> key_len k \<le> int (length k)"
    and same_key_valid: "valid a \<Longrightarrow> same_key a b \<Longrightarrow> valid b"
    and same_key_cmp: "valid a \<Longrightarrow> same_key a b \<Longrightarrow> cmp b x = cmp a x"
begin

lemma same_key_cmp_right:
  assumes "valid a" "same_key a b" "valid x"
  shows "sgn (cmp x b) = sgn (cmp x a)"
proof -
  have "valid b" using assms(1,2) by (rule same_key_valid)
  then have "sgn (cmp x b) = - sgn (cmp b x)" "sgn (cmp x a) = - sgn (cmp a x)"
    using cmp_swap [of b x] cmp_swap [of a x] assms by auto
  then show ?thesis using same_key_cmp [OF assms(1,2)] by simp
qed

lemma same_key_eq: "valid a \<Longrightarrow> same_key a b \<Longrightarrow> cmp b a = 0"
  using same_key_cmp [of a b a] cmp_refl by simp

end

lemma same_key_read:
  assumes "same_key a b" "8 \<le> p" "0 \<le> n" "p + n \<le> key_len a"
  shows "mem_read b p n = mem_read a p n"
proof -
  have "mem_read (mem_read x 8 (key_len a - 8)) (p - 8) n = mem_read x p n" for x
    using assms by (subst mem_read_mem_read) simp_all
  then show ?thesis using assms(1) by (metis same_key_def)
qed

lemma placed_same_key:
  assumes "placed_key nk nl r" "8 \<le> key_len nk" "key_len nk \<le> nl" "key_len nk \<le> int (length nk)"
  shows "same_key nk r"
proof -
  let ?k = "key_len nk"
  have r: "mem_read r 0 ?k = mem_write (mem_read nk 0 ?k) 6 (le_bytes 2 nl)" and l: "int (length r) = nl"
    using assms(1) by (simp_all add: placed_key_def)
  have im: "in_mem (mem_read nk 0 ?k) 6 (int (length (le_bytes 2 nl)))"
    using assms(2,4) by (simp add: in_mem_def mem_read_def)
  have "mem_read r 8 (?k - 8) = mem_read (mem_read r 0 ?k) 8 (?k - 8)"
    using assms(2) by (subst mem_read_mem_read) simp_all
  also have "\<dots> = mem_read (mem_read nk 0 ?k) 8 (?k - 8)"
    unfolding r by (rule mem_read_write_above [OF im]) simp
  also have "\<dots> = mem_read nk 8 (?k - 8)" using assms(2) by (subst mem_read_mem_read) simp_all
  finally have a: "mem_read r 8 (?k - 8) = mem_read nk 8 (?k - 8)" .
  have "mem_read r 4 2 = mem_read (mem_read r 0 ?k) 4 2" using assms(2) by (subst mem_read_mem_read) simp_all
  also have "\<dots> = mem_read (mem_read nk 0 ?k) 4 2" unfolding r by (rule mem_read_write_below [OF im]) simp_all
  also have "\<dots> = mem_read nk 4 2" using assms(2) by (subst mem_read_mem_read) simp_all
  finally have "key_len r = ?k" by (simp add: key_len_def le16_at_def)
  then show ?thesis using a l assms(3) by (simp add: same_key_def)
qed

definition exttree_key_whole :: "bytes \<Rightarrow> bool" where
  "exttree_key_whole k \<longleftrightarrow> 24 \<le> key_len k \<and> key_len k \<le> 288 \<and> key_len k \<le> int (length k)"

definition cattree_key_whole :: "bytes \<Rightarrow> bool" where
  "cattree_key_whole k \<longleftrightarrow> 0 \<le> cattree_name_len k \<and> 26 + cattree_name_len k \<le> key_len k \<and>
     key_len k \<le> 288 \<and> key_len k \<le> int (length k)"

definition xattrtree_key_whole :: "bytes \<Rightarrow> bool" where
  "xattrtree_key_whole k \<longleftrightarrow> 0 \<le> xattrtree_name_len k \<and> 17 + xattrtree_name_len k \<le> key_len k \<and>
     key_len k \<le> 288 \<and> key_len k \<le> int (length k)"

lemma key_order_subset:
  assumes "key_order V c" "\<And>k. W k \<Longrightarrow> V k"
  shows "key_order W c"
  using key_order.cmp_swap [OF assms(1)] key_order.cmp_trans [OF assms(1)] assms(2)
  by (intro key_order.intro) blast+

lemma exttree_same:
  assumes "exttree_key_whole a" "same_key a b"
  shows "exttree_object_id b = exttree_object_id a" "exttree_iblock b = exttree_iblock a" "exttree_key_whole b"
  using assms same_key_read [OF assms(2), of 8 8] same_key_read [OF assms(2), of 16 8]
  by (auto simp: exttree_object_id_def exttree_iblock_def le64_at_def exttree_key_whole_def same_key_def)

lemma cattree_same:
  assumes "cattree_key_whole a" "same_key a b"
  shows "cattree_parent_id b = cattree_parent_id a" "cattree_object_id b = cattree_object_id a"
    "cattree_name_len b = cattree_name_len a" "n \<le> cattree_name_len a \<Longrightarrow> cattree_name b n = cattree_name a n"
proof -
  have w: "26 \<le> key_len a" "26 + cattree_name_len a \<le> key_len a" using assms(1) by (auto simp: cattree_key_whole_def)
  show "cattree_parent_id b = cattree_parent_id a" "cattree_object_id b = cattree_object_id a"
    "cattree_name_len b = cattree_name_len a"
    using same_key_read [OF assms(2)] w
    by (simp_all add: cattree_parent_id_def cattree_object_id_def cattree_name_len_def le64_at_def u8_at_def)
  assume "n \<le> cattree_name_len a"
  then show "cattree_name b n = cattree_name a n"
    using same_key_read [OF assms(2), of 26 n] w by (cases "0 \<le> n") (auto simp: cattree_name_def mem_read_def)
qed

lemma xattrtree_same:
  assumes "xattrtree_key_whole a" "same_key a b"
  shows "xattrtree_object_id b = xattrtree_object_id a" "xattrtree_name_len b = xattrtree_name_len a"
    "n \<le> xattrtree_name_len a \<Longrightarrow> xattrtree_name b n = xattrtree_name a n"
proof -
  have w: "17 \<le> key_len a" "17 + xattrtree_name_len a \<le> key_len a" using assms(1) by (auto simp: xattrtree_key_whole_def)
  show "xattrtree_object_id b = xattrtree_object_id a" "xattrtree_name_len b = xattrtree_name_len a"
    using same_key_read [OF assms(2)] w by (simp_all add: xattrtree_object_id_def xattrtree_name_len_def le64_at_def u8_at_def)
  assume "n \<le> xattrtree_name_len a"
  then show "xattrtree_name b n = xattrtree_name a n"
    using same_key_read [OF assms(2), of 17 n] w by (cases "0 \<le> n") (auto simp: xattrtree_name_def mem_read_def)
qed

interpretation exttree: tree_keys exttree_key_whole vdfs4_exttree_cmpfn
proof (rule tree_keys.intro)
  show "key_order exttree_key_whole vdfs4_exttree_cmpfn" using exttree_keys.key_order_axioms by (rule key_order_subset) simp
  show "tree_keys_axioms exttree_key_whole vdfs4_exttree_cmpfn"
    by unfold_locales (simp_all add: exttree_same vdfs4_exttree_cmpfn_def, simp add: exttree_key_whole_def)
qed

interpretation cattree: tree_keys cattree_key_whole vdfs4_cattree_cmpfn
proof (rule tree_keys.intro)
  show "key_order cattree_key_whole vdfs4_cattree_cmpfn"
    using cattree_keys.key_order_axioms by (rule key_order_subset) (simp add: cattree_key_whole_def cattree_key_valid_def)
  show "tree_keys_axioms cattree_key_whole vdfs4_cattree_cmpfn"
  proof
    show "8 \<le> key_len k \<and> key_len k \<le> 288 \<and> key_len k \<le> int (length k)" if "cattree_key_whole k" for k
      using that by (simp add: cattree_key_whole_def)
    fix a b x assume *: "cattree_key_whole a" "same_key a b"
    note s = cattree_same [OF *]
    show "cattree_key_whole b" using * s(3) by (simp add: cattree_key_whole_def same_key_def)
    show "vdfs4_cattree_cmpfn b x = vdfs4_cattree_cmpfn a x"
      by (simp add: vdfs4_cattree_cmpfn_def cattree_cmp_rest_def s Let_def)
  qed
qed

interpretation cattree_ci: tree_keys cattree_key_whole vdfs4_cattree_cmpfn_ci
proof (rule tree_keys.intro)
  show "key_order cattree_key_whole vdfs4_cattree_cmpfn_ci"
    using cattree_ci_keys.key_order_axioms by (rule key_order_subset) (simp add: cattree_key_whole_def cattree_key_valid_def)
  show "tree_keys_axioms cattree_key_whole vdfs4_cattree_cmpfn_ci"
  proof
    show "8 \<le> key_len k \<and> key_len k \<le> 288 \<and> key_len k \<le> int (length k)" if "cattree_key_whole k" for k
      using that by (simp add: cattree_key_whole_def)
    fix a b x assume *: "cattree_key_whole a" "same_key a b"
    note s = cattree_same [OF *]
    show "cattree_key_whole b" using * s(3) by (simp add: cattree_key_whole_def same_key_def)
    show "vdfs4_cattree_cmpfn_ci b x = vdfs4_cattree_cmpfn_ci a x"
      by (simp add: vdfs4_cattree_cmpfn_ci_def cattree_cmp_rest_def s Let_def)
  qed
qed

interpretation xattrtree: tree_keys xattrtree_key_whole vdfs4_xattrtree_cmpfn
proof (rule tree_keys.intro)
  show "key_order xattrtree_key_whole vdfs4_xattrtree_cmpfn"
    using xattrtree_keys.key_order_axioms by (rule key_order_subset) (simp add: xattrtree_key_whole_def xattrtree_key_valid_def)
  show "tree_keys_axioms xattrtree_key_whole vdfs4_xattrtree_cmpfn"
  proof
    show "8 \<le> key_len k \<and> key_len k \<le> 288 \<and> key_len k \<le> int (length k)" if "xattrtree_key_whole k" for k
      using that by (simp add: xattrtree_key_whole_def)
    fix a b x assume *: "xattrtree_key_whole a" "same_key a b"
    note s = xattrtree_same [OF *]
    show "xattrtree_key_whole b" using * s(2) by (simp add: xattrtree_key_whole_def same_key_def)
    show "vdfs4_xattrtree_cmpfn b x = vdfs4_xattrtree_cmpfn a x"
      by (simp add: vdfs4_xattrtree_cmpfn_def s Let_def)
  qed
qed

section \<open>The levels of a tree\<close>

fun linked :: "(int \<Rightarrow> bnode) \<Rightarrow> int \<Rightarrow> int list \<Rightarrow> bool" where
  "linked ns p [] = True"
| "linked ns p (x # xs) \<longleftrightarrow> d_prev (ns x) = p \<and> d_next (ns x) = (case xs of [] \<Rightarrow> 0 | y # _ \<Rightarrow> y) \<and> linked ns x xs"

text \<open>The records of a level, from left to right.\<close>

definition level_recs :: "(int \<Rightarrow> bnode) \<Rightarrow> int list \<Rightarrow> bytes list" where
  "level_recs ns ids = concat (map (\<lambda>i. node_recs (ns i)) ids)"

definition tree_node :: "btree_conf \<Rightarrow> (int \<Rightarrow> bnode) \<Rightarrow> int \<Rightarrow> bool" where
  "tree_node c ns i \<longleftrightarrow> 0 < i \<and> node_ok c (ns i) \<and> node_recs (ns i) \<noteq> [] \<and> bn_id (ns i) = i \<and> d_node_id (ns i) = i \<and>
     (\<forall>r \<in> set (node_recs (ns i)). length r \<le> 600)"

definition level_ok :: "(bytes \<Rightarrow> bool) \<Rightarrow> btree_conf \<Rightarrow> (int \<Rightarrow> bnode) \<Rightarrow> int list \<Rightarrow> bool" where
  "level_ok valid c ns ids \<longleftrightarrow> ids \<noteq> [] \<and> (\<forall>i \<in> set ids. tree_node c ns i) \<and> linked ns 0 ids \<and>
     ordered_recs valid (comp_fn c) (level_recs ns ids)"

text \<open>
  Every index record points to a node of the level below and has the key of its first record; the
  first one points to the first node. Nodes without index record are allowed.
\<close>

definition index_ok :: "btree_conf \<Rightarrow> (int \<Rightarrow> bnode) \<Rightarrow> int list \<Rightarrow> int list \<Rightarrow> bool" where
  "index_ok c ns upper lower \<longleftrightarrow>
     (\<forall>r \<in> set (level_recs ns upper). int (length r) = key_len r + 4 \<and> index_child r \<in> set lower \<and>
        comp_fn c (hd (node_recs (ns (index_child r)))) r = 0) \<and>
     index_child (hd (level_recs ns upper)) = hd lower"

definition levels_ok :: "(bytes \<Rightarrow> bool) \<Rightarrow> btree_conf \<Rightarrow> (int \<Rightarrow> bnode) \<Rightarrow> int list list \<Rightarrow> bool" where
  "levels_ok valid c ns lv \<longleftrightarrow> lv \<noteq> [] \<and> (\<forall>n < length lv. level_ok valid c ns (lv ! n)) \<and>
     (\<forall>n. Suc n < length lv \<longrightarrow> index_ok c ns (lv ! Suc n) (lv ! n))"

definition tree_ok :: "(bytes \<Rightarrow> bool) \<Rightarrow> vdfs4_btree \<Rightarrow> int list list \<Rightarrow> bool" where
  "tree_ok valid t lv \<longleftrightarrow> levels_ok valid (bt_conf t) (bt_nodes t) lv \<and> btree_height t = int (length lv) \<and>
     root_bnode_id t = hd (last lv) \<and> distinct (concat lv) \<and>
     (\<forall>i \<in> set (concat lv). i < bits_num t \<and> bm_data t ! nat i)"

text \<open>All nodes of the tree can be read.\<close>

definition readable :: "btree_env \<Rightarrow> int list list \<Rightarrow> bool" where
  "readable env lv \<longleftrightarrow> (\<forall>i \<in> set (concat lv). be_read env i = success)"

lemma level_recs_simps [simp]:
  "level_recs ns [] = []"
  "level_recs ns (x # xs) = node_recs (ns x) @ level_recs ns xs"
  "level_recs ns (xs @ ys) = level_recs ns xs @ level_recs ns ys"
  by (simp_all add: level_recs_def)

lemma tree_okD:
  assumes "tree_ok valid t lv"
  shows "lv \<noteq> []" "n < length lv \<Longrightarrow> level_ok valid (bt_conf t) (bt_nodes t) (lv ! n)"
    "Suc n < length lv \<Longrightarrow> index_ok (bt_conf t) (bt_nodes t) (lv ! Suc n) (lv ! n)"
    "btree_height t = int (length lv)" "root_bnode_id t = hd (last lv)" "distinct (concat lv)"
    "i \<in> set (concat lv) \<Longrightarrow> i < bits_num t \<and> bm_data t ! nat i"
    "n < length lv \<Longrightarrow> distinct (lv ! n)"
  using assms by (simp_all add: tree_ok_def levels_ok_def distinct_concat_iff del: set_concat)

lemma linked_next: "linked ns p (pre @ x # post) \<Longrightarrow> d_next (ns x) = (case post of [] \<Rightarrow> 0 | y # _ \<Rightarrow> y)"
  by (induction pre arbitrary: p) auto

lemma tree_node_layout:
  assumes "tree_node c ns i"
  obtains blobs where "node_layout c (ns i) blobs" "d_recs_count (ns i) = int (length (node_recs (ns i)))"
proof -
  obtain blobs where l: "node_layout c (ns i) blobs" using assms by (auto simp: tree_node_def node_ok_def)
  then show thesis using that node_recs_layout(2) [OF l] node_layoutD(2) [OF l] by simp
qed

lemma level_node_record:
  assumes "level_ok valid c ns (pre @ x # post)" "p < length (node_recs (ns x))"
  shows "\<exists>off. get_record c (ns x) (int p) = Done (Inr off) \<and> rec_at (ns x) off = node_recs (ns x) ! p \<and>
    node_recs (ns x) ! p \<in> set (level_recs ns (pre @ x # post)) \<and>
    node_recs (ns x) ! p = level_recs ns (pre @ x # post) ! (length (level_recs ns pre) + p)"
proof -
  have "tree_node c ns x" using assms(1) by (simp add: level_ok_def)
  then obtain blobs where l: "node_layout c (ns x) blobs" "d_recs_count (ns x) = int (length (node_recs (ns x)))"
    by (rule tree_node_layout)
  show ?thesis using get_record_ok [OF l(1), of "int p"] l(2) assms(2) by (auto simp: nth_append)
qed

lemma in_levels: "x \<in> set (lv ! n) \<Longrightarrow> n < length lv \<Longrightarrow> x \<in> set (concat lv)"
  by auto

lemma level_hd:
  assumes "level_ok valid c ns ids" "x \<in> set ids"
  shows "node_recs (ns x) \<noteq> []" "valid (hd (node_recs (ns x)))" "hd (node_recs (ns x)) \<in> set (level_recs ns ids)"
proof -
  show ne: "node_recs (ns x) \<noteq> []" using assms by (simp add: level_ok_def tree_node_def)
  then show m: "hd (node_recs (ns x)) \<in> set (level_recs ns ids)" using assms(2) hd_in_set by (fastforce simp: level_recs_def)
  then show "valid (hd (node_recs (ns x)))" using assms(1) by (simp add: level_ok_def ordered_recs_def)
qed

lemma get_bnode_ok:
  assumes "tree_ok valid t lv" "readable env lv" "i \<in> set (concat lv)"
  shows "vdfs4_get_bnode env t i = success"
proof -
  have "be_read env i = success" using assms(2,3) unfolding readable_def by blast
  then show ?thesis using tree_okD(7) [OF assms(1,3)] by (simp add: vdfs4_get_bnode_def)
qed

section \<open>The search in a level\<close>

context tree_keys
begin

lemma cmp_eq_left:
  assumes "valid a" "valid b" "valid k" "cmp a b = 0"
  shows "0 < cmp a k \<longleftrightarrow> 0 < cmp b k"
  by (metis assms cmp_eq_swap cmp_trans dual_order.refl linorder_not_le)

lemma found_at_unique: "found_at cmp rs key p \<Longrightarrow> found_at cmp rs key q \<Longrightarrow> p = q"
  by (metis found_at_def linorder_cases linorder_not_le)

lemma level_found:
  assumes l: "level_ok valid c ns (pre @ x # post)" and c: "comp_fn c = cmp" and k: "valid key"
    and f: "found_at cmp (node_recs (ns x)) key p"
    and n: "Suc p = length (node_recs (ns x)) \<Longrightarrow> post = [] \<or> 0 < cmp (hd (node_recs (ns (hd post)))) key"
  shows "found_at cmp (level_recs ns (pre @ x # post)) key (length (level_recs ns pre) + p)"
proof (rule found_atI)
  let ?rs = "level_recs ns (pre @ x # post)" and ?m = "length (level_recs ns pre)"
  show "ordered_recs valid cmp ?rs" using l c by (simp add: level_ok_def)
  have p: "p < length (node_recs (ns x))" using f by (simp add: found_at_def)
  show "?m + p < length ?rs" using p by simp
  show "cmp (?rs ! (?m + p)) key \<le> 0" using f p by (simp add: found_at_def nth_append)
  assume s: "Suc (?m + p) < length ?rs"
  show "0 < cmp (?rs ! Suc (?m + p)) key"
  proof (cases "Suc p < length (node_recs (ns x))")
    case True
    then have "?rs ! Suc (?m + p) = node_recs (ns x) ! Suc p" by (simp add: nth_append)
    then show ?thesis using f True by (simp add: found_at_def)
  next
    case False
    then have e: "Suc p = length (node_recs (ns x))" using p by simp
    with s obtain y ys where y: "post = y # ys" by (cases post) auto
    have "tree_node c ns y" using l y by (simp add: level_ok_def)
    then have "node_recs (ns y) \<noteq> []" by (simp add: tree_node_def)
    then have "?rs ! Suc (?m + p) = hd (node_recs (ns y))"
      using e y by (cases "node_recs (ns y)") (auto simp: nth_append)
    then show ?thesis using n [OF e] y by simp
  qed
qed (rule k)

lemma node_search:
  assumes l: "level_ok valid c ns ids" and x: "x \<in> set ids" and c: "comp_fn c = cmp" and k: "valid key"
  shows "if 0 < cmp (hd (node_recs (ns x))) key then binary_search c (ns x) key = Done (Inl ENOENT)
    else \<exists>p off. binary_search c (ns x) key = Done (Inr (int p, off)) \<and> found_at cmp (node_recs (ns x)) key p"
proof -
  have tn: "tree_node c ns x" using l x by (simp add: level_ok_def)
  then obtain blobs where nl: "node_layout c (ns x) blobs" by (auto simp: tree_node_def node_ok_def)
  have ne: "node_recs (ns x) \<noteq> []" using tn by (simp add: tree_node_def)
  obtain pre post where s: "ids = pre @ x # post" using split_list [OF x] by blast
  have "ordered_recs valid cmp (node_recs (ns x))"
    using l c unfolding s by (auto simp: level_ok_def ordered_recs_def sorted_wrt_append)
  from binary_search_ok [OF nl c ne this k] show ?thesis using ne by (auto simp: hd_conv_nth)
qed

lemma traverse_right_ok:
  assumes t: "tree_ok valid t lv" "readable env lv" "n < length lv" and c: "comp_fn (bt_conf t) = cmp" and k: "valid key"
    and ids: "lv ! n = pre @ x # post" and f: "found_at cmp (node_recs (bt_nodes t x)) key p" and fuel: "length post < fuel"
  shows "\<exists>pre' x' post' p' todo'. lv ! n = pre' @ x' # post' \<and> length pre \<le> length pre' \<and>
    traverse_right fuel env t key track stack x (int p) todo = Done (Inr (x', int p'), todo') \<and>
    p' < length (node_recs (bt_nodes t x')) \<and>
    found_at cmp (level_recs (bt_nodes t) (lv ! n)) key (length (level_recs (bt_nodes t) pre') + p') \<and>
    (\<not> track \<longrightarrow> todo' = todo) \<and>
    (post = [] \<or> 0 < cmp (hd (node_recs (bt_nodes t (hd post)))) key \<longrightarrow> todo' = todo)"
  using ids f fuel
proof (induction fuel arbitrary: pre x post p todo)
  case (Suc fuel)
  let ?ns = "bt_nodes t" and ?c = "bt_conf t"
  have lo: "level_ok valid ?c ?ns (lv ! n)" using tree_okD(2) [OF t(1,3)] .
  have lx: "level_ok valid ?c ?ns (pre @ x # post)" using lo Suc.prems(1) by simp
  have tx: "tree_node ?c ?ns x" using lx by (simp add: level_ok_def)
  obtain bx where bx: "d_recs_count (?ns x) = int (length (node_recs (?ns x)))" using tree_node_layout [OF tx] by blast
  have nx: "d_next (?ns x) = (case post of [] \<Rightarrow> 0 | y # _ \<Rightarrow> y)"
    using lx linked_next unfolding level_ok_def by blast
  have plen: "p < length (node_recs (?ns x))" using Suc.prems(2) by (simp add: found_at_def)
  have stop: ?case if tr: "traverse_right (Suc fuel) env t key track stack x (int p) todo = Done (Inr (x, int p), todo)"
      and g: "Suc p = length (node_recs (?ns x)) \<Longrightarrow> post = [] \<or> 0 < cmp (hd (node_recs (?ns (hd post)))) key"
  proof -
    have "found_at cmp (level_recs ?ns (lv ! n)) key (length (level_recs ?ns pre) + p)"
      using level_found [OF lx c k Suc.prems(2) g] Suc.prems(1) by simp
    then show ?thesis using tr plen Suc.prems(1) by blast
  qed
  show ?case
  proof (cases "int p = d_recs_count (?ns x) - 1 \<and> d_next (?ns x) \<noteq> 0")
    case False
    then have "traverse_right (Suc fuel) env t key track stack x (int p) todo = Done (Inr (x, int p), todo)" by (auto simp: Let_def)
    moreover have "Suc p = length (node_recs (?ns x)) \<Longrightarrow> post = []"
      using False bx nx lx by (cases post) (auto simp: level_ok_def tree_node_def)
    ultimately show ?thesis using stop by blast
  next
    case True
    then obtain y ys where post: "post = y # ys" using nx by (cases post) auto
    have dn: "d_next (?ns x) = y" using nx post by simp
    have y: "y \<in> set (lv ! n)" using Suc.prems(1) post by simp
    then have yc: "y \<in> set (concat lv)" using t(3) by auto
    have gb: "vdfs4_get_bnode env t y = success" using get_bnode_ok [OF t(1,2) yc] .
    note ns = node_search [OF lo y c k]
    show ?thesis
    proof (cases "0 < cmp (hd (node_recs (?ns y))) key")
      case yes: True
      then have "binary_search ?c (?ns y) key = Done (Inl ENOENT)" using ns by simp
      then have "traverse_right (Suc fuel) env t key track stack x (int p) todo = Done (Inr (x, int p), todo)"
        using True dn gb by (simp add: Let_def)
      then show ?thesis using stop yes post by simp
    next
      case no: False
      then obtain q off where q: "binary_search ?c (?ns y) key = Done (Inr (int q, off))" "found_at cmp (node_recs (?ns y)) key q"
        using ns by auto
      define todo1 where "todo1 = (if track then put_add_index_work env stack y (root_bnode_id t) todo else todo)"
      have step: "traverse_right (Suc fuel) env t key track stack x (int p) todo =
          traverse_right fuel env t key track stack y (int q) todo1"
        using True dn gb q(1) by (simp add: Let_def todo1_def)
      have "lv ! n = (pre @ [x]) @ y # ys" "length ys < fuel" using Suc.prems(1,3) post by simp_all
      from Suc.IH [OF this(1) q(2) this(2), of todo1] obtain pre' x' post' p' todo' where
        r: "lv ! n = pre' @ x' # post'" "length (pre @ [x]) \<le> length pre'" "traverse_right fuel env t key track stack y (int q) todo1 = Done (Inr (x', int p'), todo')"
          "p' < length (node_recs (?ns x'))"
          "found_at cmp (level_recs ?ns (lv ! n)) key (length (level_recs ?ns pre') + p')"
          "\<not> track \<longrightarrow> todo' = todo1" by blast
      then show ?thesis using r step todo1_def no post
        by (intro exI [of _ pre'] exI [of _ x'] exI [of _ post'] exI [of _ p'] exI [of _ todo']) simp
    qed
  qed
qed simp

lemma level_hd_mono:
  assumes l: "level_ok valid c ns ids" and c: "comp_fn c = cmp"
    and s: "ids = pre @ x # post" "ids = pre' @ x' # post'" "length pre \<le> length pre'"
  shows "cmp (hd (node_recs (ns x))) (hd (node_recs (ns x'))) \<le> 0"
proof -
  have x: "x \<in> set ids" using s(1) by simp
  have x': "x' \<in> set ids" using s(2) by simp
  note h = level_hd [OF l x] level_hd [OF l x']
  consider "length pre = length pre'" | a b where "pre' = a @ x # b"
  proof (cases "length pre = length pre'")
    case False
    then have "x = pre' ! length pre" using s by (metis le_neq_implies_less nth_append_length nth_append_left)
    then have "x \<in> set pre'" using False s(3) by simp
    then show thesis using that(2) by (meson split_list)
  qed simp
  then show ?thesis
  proof cases
    case 1
    then have "x' = x" using s(1,2) by (metis nth_append_length)
    then show ?thesis using cmp_refl [OF h(2)] by simp
  next
    case (2 a b)
    have "sorted_wrt (\<lambda>a b. cmp a b < 0) (level_recs ns (a @ x # b @ x' # post'))"
      using l c s(2) 2 by (simp add: level_ok_def ordered_recs_def)
    then have "\<forall>u \<in> set (node_recs (ns x)). \<forall>v \<in> set (node_recs (ns x')). cmp u v < 0"
      unfolding level_recs_simps sorted_wrt_append set_append by blast
    then have "cmp (hd (node_recs (ns x))) (hd (node_recs (ns x'))) < 0" using hd_in_set [OF h(1)] hd_in_set [OF h(4)] by blast
    then show ?thesis by simp
  qed
qed

lemma traverse_level_ok:
  assumes t: "tree_ok valid t lv" "readable env lv" "n < length lv" and c: "comp_fn (bt_conf t) = cmp" and k: "valid key"
    and x: "lv ! n = pre @ x # post" and f: "\<not> 0 < cmp (hd (node_recs (bt_nodes t x))) key"
  shows "\<exists>pre' x' post' p' todo'. lv ! n = pre' @ x' # post' \<and>
    btree_traverse_level env t key x track stack todo = Done (Inr (x', int p'), todo') \<and>
    p' < length (node_recs (bt_nodes t x')) \<and>
    found_at cmp (level_recs (bt_nodes t) (lv ! n)) key (length (level_recs (bt_nodes t) pre') + p') \<and>
    cmp (hd (node_recs (bt_nodes t x))) (hd (node_recs (bt_nodes t x'))) \<le> 0 \<and> (\<not> track \<longrightarrow> todo' = todo) \<and>
    (post = [] \<or> 0 < cmp (hd (node_recs (bt_nodes t (hd post)))) key \<longrightarrow> todo' = todo)"
proof -
  let ?ns = "bt_nodes t"
  have lo: "level_ok valid (bt_conf t) ?ns (lv ! n)" using tree_okD(2) [OF t(1,3)] .
  have xi: "x \<in> set (lv ! n)" using x by simp
  have gb: "vdfs4_get_bnode env t x = success" using get_bnode_ok [OF t(1,2) in_levels [OF xi t(3)]] .
  obtain p off where p: "binary_search (bt_conf t) (?ns x) key = Done (Inr (int p, off))" "found_at cmp (node_recs (?ns x)) key p"
    using node_search [OF lo xi c k] f by auto
  have "set (lv ! n) \<subseteq> nat -` {..<length (bm_data t)}" using tree_okD(7) [OF t(1)] t(3) lo
    by (fastforce simp: level_ok_def tree_node_def)
  have fuel: "length post < length (bm_data t) + 1"
  proof -
    have "inj_on nat (set (lv ! n))" using lo by (auto simp: inj_on_def level_ok_def tree_node_def)
    then have "card (set (lv ! n)) \<le> card {..<length (bm_data t)}"
      using \<open>set (lv ! n) \<subseteq> _\<close> by (intro card_inj_on_le) auto
    then have "length (lv ! n) \<le> length (bm_data t)" using distinct_card [OF tree_okD(8) [OF t(1,3)]] by simp
    then show ?thesis using x by simp
  qed
  have "btree_traverse_level env t key x track stack todo = traverse_right (length (bm_data t) + 1) env t key track stack x (int p) todo"
    by (simp add: btree_traverse_level_def gb p(1) del: traverse_right.simps)
  moreover obtain pre' x' post' p' todo' where r: "lv ! n = pre' @ x' # post'" "length pre \<le> length pre'"
      "traverse_right (length (bm_data t) + 1) env t key track stack x (int p) todo = Done (Inr (x', int p'), todo')"
      "p' < length (node_recs (?ns x'))" "found_at cmp (level_recs ?ns (lv ! n)) key (length (level_recs ?ns pre') + p')"
      "\<not> track \<longrightarrow> todo' = todo" "post = [] \<or> 0 < cmp (hd (node_recs (?ns (hd post)))) key \<longrightarrow> todo' = todo"
    using traverse_right_ok [OF t c k x p(2) fuel] by blast
  moreover have "cmp (hd (node_recs (?ns x))) (hd (node_recs (?ns x'))) \<le> 0"
    using level_hd_mono [OF lo c x r(1,2)] .
  ultimately show ?thesis by metis
qed

end

section \<open>The descent\<close>

text \<open>The stack of a descent from the root to level \<open>n\<close>.\<close>

fun path_ok :: "(bytes \<Rightarrow> bytes \<Rightarrow> int) \<Rightarrow> (int \<Rightarrow> bnode) \<Rightarrow> int list list \<Rightarrow> nat \<Rightarrow> traverse_stack \<Rightarrow> bool" where
  "path_ok cmp ns lv n [] \<longleftrightarrow> n = length lv"
| "path_ok cmp ns lv n ((i, p, l) # s) \<longleftrightarrow> n < length lv \<and> l = int n + 1 \<and> i \<in> set (lv ! n) \<and>
     (s \<noteq> [] \<longrightarrow> cmp (hd (node_recs (ns (fst (hd s))))) (hd (node_recs (ns i))) \<le> 0) \<and> path_ok cmp ns lv (Suc n) s"

text \<open>A tree in which every node has its index record.\<close>

definition complete :: "(int \<Rightarrow> bnode) \<Rightarrow> int list list \<Rightarrow> bool" where
  "complete ns lv \<longleftrightarrow> (\<forall>n. Suc n < length lv \<longrightarrow> map index_child (level_recs ns (lv ! Suc n)) = lv ! n) \<and>
     length (last lv) = 1"

context tree_keys
begin

lemma path_hd: "path_ok cmp ns lv n s \<Longrightarrow> s \<noteq> [] \<Longrightarrow> n < length lv \<and> fst (hd s) \<in> set (lv ! n)"
  by (cases s) auto

lemma path_head_trans:
  assumes "tree_ok valid t lv" "path_ok cmp (bt_nodes t) lv (Suc n) s" "s \<noteq> []" "x \<in> set (lv ! n)" "y \<in> set (lv ! n)"
    "cmp (hd (node_recs (bt_nodes t (fst (hd s))))) (hd (node_recs (bt_nodes t x))) \<le> 0"
    "cmp (hd (node_recs (bt_nodes t x))) (hd (node_recs (bt_nodes t y))) \<le> 0"
  shows "cmp (hd (node_recs (bt_nodes t (fst (hd s))))) (hd (node_recs (bt_nodes t y))) \<le> 0"
proof -
  have h: "Suc n < length lv" "fst (hd s) \<in> set (lv ! Suc n)" using path_hd [OF assms(2,3)] by simp_all
  then show ?thesis
    using cmp_trans [OF level_hd(2) [OF tree_okD(2) [OF assms(1) h(1)] h(2)]
      level_hd(2) [OF tree_okD(2) [OF assms(1)] assms(4)] level_hd(2) [OF tree_okD(2) [OF assms(1)] assms(5)]] assms(6,7) by simp
qed

lemma child_at_ok:
  assumes t: "tree_ok valid t lv" "Suc n < length lv" and c: "comp_fn (bt_conf t) = cmp" and k: "valid key"
    and x: "lv ! Suc n = pre @ x # post" and p: "p < length (node_recs (bt_nodes t x))"
    and f: "found_at cmp (level_recs (bt_nodes t) (lv ! Suc n)) key (length (level_recs (bt_nodes t) pre) + p)"
  shows "\<exists>y. child_at t x (int p) = Done (Inr y) \<and> y \<in> set (lv ! n) \<and> \<not> 0 < cmp (hd (node_recs (bt_nodes t y))) key \<and>
    cmp (hd (node_recs (bt_nodes t x))) (hd (node_recs (bt_nodes t y))) \<le> 0 \<and>
    y = index_child (level_recs (bt_nodes t) (lv ! Suc n) ! (length (level_recs (bt_nodes t) pre) + p))"
proof -
  let ?ns = "bt_nodes t" and ?c = "bt_conf t"
  define r where "r = node_recs (?ns x) ! p"
  have lo: "level_ok valid ?c ?ns (lv ! Suc n)" "level_ok valid ?c ?ns (lv ! n)" using tree_okD(2) [OF t(1)] t(2) by simp_all
  have io: "index_ok ?c ?ns (lv ! Suc n) (lv ! n)" using tree_okD(3) [OF t] .
  obtain off where off: "get_record ?c (?ns x) (int p) = Done (Inr off)" "rec_at (?ns x) off = r"
      "r \<in> set (level_recs ?ns (lv ! Suc n))" "r = level_recs ?ns (lv ! Suc n) ! (length (level_recs ?ns pre) + p)"
    using level_node_record [OF lo(1) [unfolded x] p] x by (auto simp: r_def)
  have vr: "valid r" using off(3) lo(1) by (simp add: level_ok_def ordered_recs_def)
  have ch: "index_child r \<in> set (lv ! n)" "cmp (hd (node_recs (?ns (index_child r)))) r = 0"
    using io off(3) c by (simp_all add: index_ok_def)
  have ca: "child_at t x (int p) = Done (Inr (index_child r))"
    using valid_len [OF vr] by (simp add: child_at_def off(1,2) get_value_pointer_def)
  have vh: "valid (hd (node_recs (?ns y)))" if "y \<in> set (lv ! n)" for y using level_hd(2) [OF lo(2) that] .
  have rk: "cmp r key \<le> 0" using f off(4) by (simp add: found_at_def)
  have n: "\<not> 0 < cmp (hd (node_recs (?ns (index_child r)))) key"
    using cmp_eq_left [OF vh [OF ch(1)] vr k ch(2)] rk by simp
  have hx: "cmp (hd (node_recs (?ns x))) r \<le> 0"
  proof (cases p)
    case 0
    then have "hd (node_recs (?ns x)) = r" using p by (simp add: r_def hd_conv_nth)
    then show ?thesis using cmp_refl [OF vr] by simp
  next
    case (Suc q)
    have "sorted_wrt (\<lambda>a b. cmp a b < 0) (node_recs (?ns x))"
      using lo(1) x c by (auto simp: level_ok_def ordered_recs_def sorted_wrt_append)
    moreover have "0 < p" "hd (node_recs (?ns x)) = node_recs (?ns x) ! 0" using Suc p by (simp, intro hd_conv_nth) auto
    ultimately have "cmp (hd (node_recs (?ns x))) r < 0" using p unfolding r_def by (simp add: sorted_wrt_iff_nth_less)
    then show ?thesis by simp
  qed
  have vx: "valid (hd (node_recs (?ns x)))" using level_hd(2) [OF lo(1)] x by simp
  have "cmp r (hd (node_recs (?ns (index_child r)))) = 0" using ch(2) cmp_eq_swap [OF vh [OF ch(1)] vr] by simp
  then have "cmp (hd (node_recs (?ns x))) (hd (node_recs (?ns (index_child r)))) \<le> 0"
    using cmp_trans [OF vx vr vh [OF ch(1)] hx] by simp
  then show ?thesis using ca ch(1) n off(4) by blast
qed

lemma complete_next:
  assumes t: "tree_ok valid t lv" "Suc n < length lv" "complete (bt_nodes t) lv" and c: "comp_fn (bt_conf t) = cmp" and k: "valid key"
    and f: "found_at cmp (level_recs (bt_nodes t) (lv ! Suc n)) key q"
    and y: "lv ! n = pre @ y # post" "y = index_child (level_recs (bt_nodes t) (lv ! Suc n) ! q)"
  shows "post = [] \<or> 0 < cmp (hd (node_recs (bt_nodes t (hd post)))) key"
proof (cases post)
  case (Cons z zs)
  let ?rs = "level_recs (bt_nodes t) (lv ! Suc n)"
  have m: "map index_child ?rs = lv ! n" using t(2,3) by (simp add: complete_def)
  have q: "q < length ?rs" using f by (simp add: found_at_def)
  have "(lv ! n) ! q = y" using m q y(2) by (metis nth_map)
  moreover have "(lv ! n) ! length pre = y" using y(1) by simp
  moreover have "q < length (lv ! n)" "length pre < length (lv ! n)" using m q y(1) by (metis length_map, simp)
  ultimately have "length pre = q" using tree_okD(8) [OF t(1), of n] t(2) by (metis Suc_lessD nth_eq_iff_index_eq)
  moreover have len: "length ?rs = length (lv ! n)" using m by (metis length_map)
  ultimately have sq: "Suc q < length ?rs" using y(1) Cons by simp
  have zz: "(lv ! n) ! Suc q = z" using y(1) Cons \<open>length pre = q\<close> by (simp add: nth_append)
  then have z: "index_child (?rs ! Suc q) = z" using m sq by (metis nth_map)
  have "0 < cmp (?rs ! Suc q) key" using f sq by (simp add: found_at_def)
  moreover have "?rs ! Suc q \<in> set ?rs" using sq by simp
  moreover have "index_ok (bt_conf t) (bt_nodes t) (lv ! Suc n) (lv ! n)" using tree_okD(3) [OF t(1,2)] .
  ultimately have e: "cmp (hd (node_recs (bt_nodes t z))) (?rs ! Suc q) = 0" using c z by (auto simp: index_ok_def)
  have lo: "level_ok valid (bt_conf t) (bt_nodes t) (lv ! Suc n)" "level_ok valid (bt_conf t) (bt_nodes t) (lv ! n)"
    using tree_okD(2) [OF t(1)] t(2) by simp_all
  have v: "valid (?rs ! Suc q)" using lo(1) sq by (simp add: level_ok_def ordered_recs_def)
  have "valid (hd (node_recs (bt_nodes t z)))" using level_hd(2) [OF lo(2), of z] y(1) Cons by simp
  from cmp_eq_left [OF this v k e] show ?thesis using f sq Cons by (simp add: found_at_def)
qed simp

lemma traverse_levels_ok:
  assumes t: "tree_ok valid t lv" "readable env lv" and c: "comp_fn (bt_conf t) = cmp" and k: "valid key"
    and st: "track \<longrightarrow> be_stack env"
    and n: "n < length lv" and x: "x \<in> set (lv ! n)" and f: "\<not> 0 < cmp (hd (node_recs (bt_nodes t x))) key"
    and path: "track \<longrightarrow> path_ok cmp (bt_nodes t) lv (Suc n) stack \<and>
      (stack \<noteq> [] \<longrightarrow> cmp (hd (node_recs (bt_nodes t (fst (hd stack))))) (hd (node_recs (bt_nodes t x))) \<le> 0)"
    and nd: "complete (bt_nodes t) lv \<Longrightarrow> (\<And>pre post. lv ! n = pre @ x # post \<Longrightarrow> post = [] \<or> 0 < cmp (hd (node_recs (bt_nodes t (hd post)))) key)"
  shows "\<exists>pre y post p stack' todo'. lv ! 0 = pre @ y # post \<and>
    traverse_levels n env t key track (int n + 1) x stack todo = Done (Inr (y, int p), stack', todo') \<and>
    p < length (node_recs (bt_nodes t y)) \<and>
    found_at cmp (level_recs (bt_nodes t) (lv ! 0)) key (length (level_recs (bt_nodes t) pre) + p) \<and>
    (track \<longrightarrow> path_ok cmp (bt_nodes t) lv 0 stack' \<and> stack' \<noteq> [] \<and> fst (hd stack') = y) \<and>
    (\<not> track \<longrightarrow> todo' = todo) \<and> (complete (bt_nodes t) lv \<longrightarrow> todo' = todo)"
  using n x f path nd
proof (induction n arbitrary: x stack todo)
  case 0
  obtain pre0 post0 where x: "lv ! 0 = pre0 @ x # post0" using split_list [OF 0(2)] by blast
  obtain pre y post p todo' where r: "lv ! 0 = pre @ y # post"
      "btree_traverse_level env t key x track stack todo = Done (Inr (y, int p), todo')"
      "p < length (node_recs (bt_nodes t y))"
      "found_at cmp (level_recs (bt_nodes t) (lv ! 0)) key (length (level_recs (bt_nodes t) pre) + p)"
      "cmp (hd (node_recs (bt_nodes t x))) (hd (node_recs (bt_nodes t y))) \<le> 0" "\<not> track \<longrightarrow> todo' = todo"
      "post0 = [] \<or> 0 < cmp (hd (node_recs (bt_nodes t (hd post0)))) key \<longrightarrow> todo' = todo"
    using traverse_level_ok [OF t 0(1) c k x 0(3), of track stack todo] by blast
  have hm: "cmp (hd (node_recs (bt_nodes t (fst (hd stack))))) (hd (node_recs (bt_nodes t y))) \<le> 0" if "track" "stack \<noteq> []"
    using path_head_trans [OF t(1) _ that(2) 0(2) _ _ r(5)] 0(4) that r(1) by simp
  show ?case
    using r st 0(4) hm 0(5) [OF _ x] 0(1)
    by (intro exI [of _ pre] exI [of _ y] exI [of _ post] exI [of _ p]
        exI [of _ "if track then (y, int p, 1) # stack else stack"] exI [of _ todo']) auto
next
  case (Suc n)
  obtain pre0 post0 where x: "lv ! Suc n = pre0 @ x # post0" using split_list [OF Suc.prems(2)] by blast
  obtain pre y post p todo1 where r: "lv ! Suc n = pre @ y # post"
      "btree_traverse_level env t key x track stack todo = Done (Inr (y, int p), todo1)"
      "p < length (node_recs (bt_nodes t y))"
      "found_at cmp (level_recs (bt_nodes t) (lv ! Suc n)) key (length (level_recs (bt_nodes t) pre) + p)"
      "cmp (hd (node_recs (bt_nodes t x))) (hd (node_recs (bt_nodes t y))) \<le> 0" "\<not> track \<longrightarrow> todo1 = todo"
      "post0 = [] \<or> 0 < cmp (hd (node_recs (bt_nodes t (hd post0)))) key \<longrightarrow> todo1 = todo"
    using traverse_level_ok [OF t Suc.prems(1) c k x Suc.prems(3), of track stack todo] by blast
  obtain z where z: "child_at t y (int p) = Done (Inr z)" "z \<in> set (lv ! n)" "\<not> 0 < cmp (hd (node_recs (bt_nodes t z))) key"
      "cmp (hd (node_recs (bt_nodes t y))) (hd (node_recs (bt_nodes t z))) \<le> 0"
      "z = index_child (level_recs (bt_nodes t) (lv ! Suc n) ! (length (level_recs (bt_nodes t) pre) + p))"
    using child_at_ok [OF t(1) Suc.prems(1) c k r(1,3,4)] by blast
  define stack1 where "stack1 = (if track then (y, int p, int (Suc n) + 1) # stack else stack)"
  have hm: "cmp (hd (node_recs (bt_nodes t (fst (hd stack))))) (hd (node_recs (bt_nodes t y))) \<le> 0" if "track" "stack \<noteq> []"
    using path_head_trans [OF t(1) _ that(2) Suc.prems(2) _ _ r(5)] Suc.prems(4) that r(1) by simp
  have step: "traverse_levels (Suc n) env t key track (int (Suc n) + 1) x stack todo =
      traverse_levels n env t key track (int n + 1) z stack1 todo1"
    using r(2) z(1) st by (simp add: stack1_def add.commute)
  have path1: "track \<longrightarrow> path_ok cmp (bt_nodes t) lv (Suc n) stack1 \<and>
      (stack1 \<noteq> [] \<longrightarrow> cmp (hd (node_recs (bt_nodes t (fst (hd stack1))))) (hd (node_recs (bt_nodes t z))) \<le> 0)"
    using Suc.prems(1,4) hm z(4) r(1) by (simp add: stack1_def)
  have todo1: "complete (bt_nodes t) lv \<longrightarrow> todo1 = todo" using r(7) Suc.prems(5) [OF _ x] by blast
  have n: "n < length lv" using Suc.prems(1) by simp
  have nd1: "complete (bt_nodes t) lv \<Longrightarrow> lv ! n = pre' @ z # post' \<Longrightarrow>
      post' = [] \<or> 0 < cmp (hd (node_recs (bt_nodes t (hd post')))) key" for pre' post'
    using complete_next [OF t(1) Suc.prems(1) _ c k r(4) _ z(5)] by blast
  have "\<exists>pre y post p stack' todo'. lv ! 0 = pre @ y # post \<and>
    traverse_levels n env t key track (int n + 1) z stack1 todo1 = Done (Inr (y, int p), stack', todo') \<and>
    p < length (node_recs (bt_nodes t y)) \<and>
    found_at cmp (level_recs (bt_nodes t) (lv ! 0)) key (length (level_recs (bt_nodes t) pre) + p) \<and>
    (track \<longrightarrow> path_ok cmp (bt_nodes t) lv 0 stack' \<and> stack' \<noteq> [] \<and> fst (hd stack') = y) \<and>
    (\<not> track \<longrightarrow> todo' = todo1) \<and> (complete (bt_nodes t) lv \<longrightarrow> todo' = todo1)"
    by (rule Suc.IH [OF n z(2,3) path1 nd1])
  then show ?case unfolding step using r(6) todo1 by metis
qed

end

section \<open>Finding a record and the next one\<close>

text \<open>The place of record \<open>q\<close> of a level: its node, position and offset.\<close>

definition located :: "(int \<Rightarrow> bnode) \<Rightarrow> int list \<Rightarrow> int \<times> int \<times> int \<Rightarrow> nat \<Rightarrow> bool" where
  "located ns ids place q \<longleftrightarrow> (case place of (i, pos, off) \<Rightarrow>
     \<exists>pre post p. ids = pre @ i # post \<and> pos = int p \<and> p < length (node_recs (ns i)) \<and>
       q = length (level_recs ns pre) + p \<and> rec_at (ns i) off = level_recs ns ids ! q)"

lemma level_recs_hd:
  assumes "level_ok valid c ns ids"
  shows "level_recs ns ids \<noteq> []" "hd (level_recs ns ids) = hd (node_recs (ns (hd ids)))"
proof -
  obtain x xs where x: "ids = x # xs" using assms by (cases ids) (auto simp: level_ok_def)
  then have "node_recs (ns x) \<noteq> []" using level_hd(1) [OF assms] by simp
  then show "level_recs ns ids \<noteq> []" "hd (level_recs ns ids) = hd (node_recs (ns (hd ids)))" using x by simp_all
qed

context tree_keys
begin

lemma first_keys:
  assumes t: "tree_ok valid t lv" and c: "comp_fn (bt_conf t) = cmp" and k: "valid key"
  shows "n < length lv \<Longrightarrow>
    0 < cmp (hd (level_recs (bt_nodes t) (lv ! n))) key \<longleftrightarrow> 0 < cmp (hd (level_recs (bt_nodes t) (lv ! 0))) key"
proof (induction n)
  case (Suc n)
  let ?ns = "bt_nodes t" and ?r = "hd (level_recs (bt_nodes t) (lv ! Suc n))"
  have lo: "level_ok valid (bt_conf t) ?ns (lv ! Suc n)" "level_ok valid (bt_conf t) ?ns (lv ! n)" using tree_okD(2) [OF t] Suc.prems by simp_all
  have io: "index_ok (bt_conf t) ?ns (lv ! Suc n) (lv ! n)" using tree_okD(3) [OF t Suc.prems] .
  have m: "?r \<in> set (level_recs ?ns (lv ! Suc n))" using level_recs_hd(1) [OF lo(1)] by simp
  have "hd (level_recs ?ns (lv ! n)) = hd (node_recs (?ns (index_child ?r)))"
    using level_recs_hd(2) [OF lo(2)] io by (simp add: index_ok_def)
  moreover have "cmp (hd (node_recs (?ns (index_child ?r)))) ?r = 0" using io m c unfolding index_ok_def by blast
  ultimately have "cmp (hd (level_recs ?ns (lv ! n))) ?r = 0" by (rule ssubst)
  moreover have "valid ?r" "valid (hd (level_recs ?ns (lv ! n)))"
    using m level_recs_hd(1) [OF lo(2)] lo by (auto simp: level_ok_def ordered_recs_def)
  ultimately show ?case using cmp_eq_left [of "hd (level_recs ?ns (lv ! n))" ?r key] k Suc by auto
qed simp

lemma btree_traverse_ok:
  assumes t: "tree_ok valid t lv" "readable env lv" and c: "comp_fn (bt_conf t) = cmp" and k: "valid key"
    and st: "track \<longrightarrow> be_stack env" and f: "\<not> 0 < cmp (hd (level_recs (bt_nodes t) (hd lv))) key"
  shows "\<exists>pre y post p stack todo. hd lv = pre @ y # post \<and>
    vdfs4_btree_traverse env t key track 1 = Done (Inr (y, int p), stack, todo) \<and>
    p < length (node_recs (bt_nodes t y)) \<and>
    found_at cmp (level_recs (bt_nodes t) (hd lv)) key (length (level_recs (bt_nodes t) pre) + p) \<and>
    (track \<longrightarrow> path_ok cmp (bt_nodes t) lv 0 stack \<and> stack \<noteq> [] \<and> fst (hd stack) = y) \<and>
    (\<not> track \<longrightarrow> todo = []) \<and> (complete (bt_nodes t) lv \<longrightarrow> todo = [])"
proof -
  let ?n = "length lv - 1" and ?x = "root_bnode_id t"
  have ne: "lv \<noteq> []" using tree_okD(1) [OF t(1)] .
  have n: "?n < length lv" "int ?n + 1 = btree_height t" "Suc ?n = length lv" "hd lv = lv ! 0" "last lv = lv ! ?n"
    using ne tree_okD(4) [OF t(1)] by (simp_all add: hd_conv_nth last_conv_nth Suc_leI of_nat_diff)
  have lo: "level_ok valid (bt_conf t) (bt_nodes t) (lv ! ?n)" using tree_okD(2) [OF t(1) n(1)] .
  have x: "?x = hd (lv ! ?n)" "?x \<in> set (lv ! ?n)" using tree_okD(5) [OF t(1)] n(5) lo by (simp_all add: level_ok_def)
  have fx: "\<not> 0 < cmp (hd (node_recs (bt_nodes t ?x))) key"
    using first_keys [OF t(1) c k n(1)] f level_recs_hd(2) [OF lo] x(1) n(4) by simp
  have path: "track \<longrightarrow> path_ok cmp (bt_nodes t) lv (Suc ?n) [] \<and>
      ([] \<noteq> [] \<longrightarrow> cmp (hd (node_recs (bt_nodes t (fst (hd []))))) (hd (node_recs (bt_nodes t ?x))) \<le> 0)" using n(3) by simp
  have nd: "post = [] \<or> 0 < cmp (hd (node_recs (bt_nodes t (hd post)))) key"
    if "complete (bt_nodes t) lv" "lv ! ?n = pre @ ?x # post" for pre post
  proof -
    have "length (lv ! ?n) = 1" using that(1) n(5) by (simp add: complete_def)
    then show ?thesis using that(2) by simp
  qed
  have "nat (btree_height t - 1) = ?n" "\<not> btree_height t < 1" using n(2) by linarith+
  then have "vdfs4_btree_traverse env t key track 1 = traverse_levels ?n env t key track (int ?n + 1) ?x [] []"
    unfolding n(2) by (simp add: vdfs4_btree_traverse_def)
  then show ?thesis
    using traverse_levels_ok [OF t c k st n(1) x(2) fx path nd, where todo = "[]"] n(4) by simp
qed

lemma btree_traverse_before:
  assumes t: "tree_ok valid t lv" "readable env lv" and c: "comp_fn (bt_conf t) = cmp" and k: "valid key"
    and f: "0 < cmp (hd (level_recs (bt_nodes t) (hd lv))) key"
  shows "vdfs4_btree_traverse env t key track 1 = Done (Inl ENOENT, [], [])"
proof -
  let ?n = "length lv - 1" and ?x = "root_bnode_id t"
  have ne: "lv \<noteq> []" using tree_okD(1) [OF t(1)] .
  have n: "?n < length lv" "int ?n + 1 = btree_height t" "hd lv = lv ! 0" "last lv = lv ! ?n"
    using ne tree_okD(4) [OF t(1)] by (simp_all add: hd_conv_nth last_conv_nth Suc_leI of_nat_diff)
  have lo: "level_ok valid (bt_conf t) (bt_nodes t) (lv ! ?n)" using tree_okD(2) [OF t(1) n(1)] .
  have x: "?x = hd (lv ! ?n)" "?x \<in> set (lv ! ?n)" using tree_okD(5) [OF t(1)] n(4) lo by (simp_all add: level_ok_def)
  have "0 < cmp (hd (node_recs (bt_nodes t ?x))) key"
    using first_keys [OF t(1) c k n(1)] f level_recs_hd(2) [OF lo] x(1) n(3) by simp
  then have "binary_search (bt_conf t) (bt_nodes t ?x) key = Done (Inl ENOENT)" using node_search [OF lo x(2) c k] by simp
  moreover have "vdfs4_get_bnode env t ?x = success" using get_bnode_ok [OF t in_levels [OF x(2) n(1)]] .
  ultimately have "btree_traverse_level env t key ?x track [] [] = Done (Inl ENOENT, [])" by (simp add: btree_traverse_level_def)
  then have "traverse_levels ?n env t key track (btree_height t) ?x [] [] = Done (Inl ENOENT, [], [])"
    by (cases ?n) simp_all
  moreover have "nat (btree_height t - 1) = ?n" "\<not> btree_height t < 1" using n(2) by linarith+
  ultimately show ?thesis by (simp add: vdfs4_btree_traverse_def)
qed

lemma btree_find_ok:
  assumes t: "tree_ok valid t lv" "readable env lv" and c: "comp_fn (bt_conf t) = cmp" and k: "valid key" and m: "be_rec_info env"
  shows "if 0 < cmp (hd (level_recs (bt_nodes t) (hd lv))) key then vdfs4_btree_find env t key = Done (Inl ENOENT)
    else \<exists>place q. vdfs4_btree_find env t key = Done (Inr place) \<and> located (bt_nodes t) (hd lv) place q \<and>
      found_at cmp (level_recs (bt_nodes t) (hd lv)) key q"
proof (cases "0 < cmp (hd (level_recs (bt_nodes t) (hd lv))) key")
  case True
  then have "vdfs4_btree_find env t key = Done (Inl ENOENT)"
    using btree_traverse_before [OF t c k True] m by (simp add: vdfs4_btree_find_def VDFS4_BTREE_LEAF_LVL_def)
  then show ?thesis using True by simp
next
  case False
  have st: "False \<longrightarrow> be_stack env" by simp
  obtain pre y post p stack todo where r: "hd lv = pre @ y # post" "vdfs4_btree_traverse env t key False 1 = Done (Inr (y, int p), stack, todo)"
      "p < length (node_recs (bt_nodes t y))"
      "found_at cmp (level_recs (bt_nodes t) (hd lv)) key (length (level_recs (bt_nodes t) pre) + p)"
    using btree_traverse_ok [OF t c k st False] by blast
  have ne: "lv \<noteq> []" using tree_okD(1) [OF t(1)] .
  then have lo: "level_ok valid (bt_conf t) (bt_nodes t) (pre @ y # post)"
    using tree_okD(2) [OF t(1), of 0] r(1) by (simp add: hd_conv_nth)
  obtain off where off: "get_record (bt_conf t) (bt_nodes t y) (int p) = Done (Inr off)"
      "rec_at (bt_nodes t y) off = node_recs (bt_nodes t y) ! p"
      "node_recs (bt_nodes t y) ! p \<in> set (level_recs (bt_nodes t) (pre @ y # post))"
      "node_recs (bt_nodes t y) ! p = level_recs (bt_nodes t) (pre @ y # post) ! (length (level_recs (bt_nodes t) pre) + p)"
    using level_node_record [OF lo r(3)] by blast
  have "valid (node_recs (bt_nodes t y) ! p)" using off(3) lo by (simp add: level_ok_def ordered_recs_def)
  then have "form_gen_record t (y, int p, off) = Inr (y, int p, off)"
    using valid_len [of "node_recs (bt_nodes t y) ! p"] off(2) by (simp add: form_gen_record_def get_value_pointer_def)
  then have "vdfs4_btree_find env t key = Done (Inr (y, int p, off))"
    using m r(2) off(1) by (simp add: vdfs4_btree_find_def VDFS4_BTREE_LEAF_LVL_def)
  moreover have "located (bt_nodes t) (hd lv) (y, int p, off) (length (level_recs (bt_nodes t) pre) + p)"
    unfolding located_def using r(1,3) off(2,4) by auto
  ultimately show ?thesis using False r(4) by auto
qed

lemma next_record_ok:
  assumes t: "tree_ok valid t lv" "readable env lv" and c: "comp_fn (bt_conf t) = cmp"
    and l: "located (bt_nodes t) (hd lv) (i, pos, off) q"
  shows "if Suc q < length (level_recs (bt_nodes t) (hd lv))
    then \<exists>place. vdfs4_get_next_btree_record env t i pos = Done (Inr place) \<and> located (bt_nodes t) (hd lv) place (Suc q)
    else vdfs4_get_next_btree_record env t i pos = Done (Inl ENOENT)"
proof -
  let ?ns = "bt_nodes t" and ?c = "bt_conf t"
  obtain pre post p where s: "hd lv = pre @ i # post" "pos = int p" "p < length (node_recs (?ns i))" "q = length (level_recs ?ns pre) + p"
    using l by (auto simp: located_def)
  have ne: "lv \<noteq> []" "0 < length lv" using tree_okD(1) [OF t(1)] by simp_all
  have lo0: "level_ok valid ?c ?ns (hd lv)" using tree_okD(2) [OF t(1), of 0] ne by (simp add: hd_conv_nth)
  have lo: "level_ok valid ?c ?ns (pre @ i # post)" using lo0 s(1) by simp
  have cnt: "d_recs_count (?ns i) = int (length (node_recs (?ns i)))"
    using lo tree_node_layout [of ?c ?ns i] by (auto simp: level_ok_def)
  have form: "form_gen_record t (x, int k, o1) = Inr (x, int k, o1)"
    if "rec_at (?ns x) o1 \<in> set (level_recs ?ns (hd lv))" for x k o1
  proof -
    have "valid (rec_at (?ns x) o1)" using that lo0 by (simp add: level_ok_def ordered_recs_def)
    then show ?thesis using valid_len [of "rec_at (?ns x) o1"] by (simp add: form_gen_record_def get_value_pointer_def)
  qed
  show ?thesis
  proof (cases "Suc p < length (node_recs (?ns i))")
    case True
    obtain o1 where o1: "get_record ?c (?ns i) (int (Suc p)) = Done (Inr o1)" "rec_at (?ns i) o1 = node_recs (?ns i) ! Suc p"
        "node_recs (?ns i) ! Suc p \<in> set (level_recs ?ns (pre @ i # post))"
        "node_recs (?ns i) ! Suc p = level_recs ?ns (pre @ i # post) ! (length (level_recs ?ns pre) + Suc p)"
      using level_node_record [OF lo True] by blast
    have "get_next_btree_record env t i pos = Done (Inr (i, int (Suc p), o1))"
      using o1(1) True s(2) cnt by (simp add: get_next_btree_record_def add.commute)
    then have "vdfs4_get_next_btree_record env t i pos = Done (Inr (i, int (Suc p), o1))"
      using form [of i o1 "Suc p"] o1(2,3) s(1) by (simp add: vdfs4_get_next_btree_record_def)
    moreover have "located ?ns (hd lv) (i, int (Suc p), o1) (Suc q)"
      unfolding located_def using s True o1(2,4) by auto
    moreover have "Suc q < length (level_recs ?ns (hd lv))" using s True by simp
    ultimately show ?thesis by auto
  next
    case False
    then have e: "Suc p = length (node_recs (?ns i))" using s(3) by simp
    have nx: "d_next (?ns i) = (case post of [] \<Rightarrow> 0 | y # _ \<Rightarrow> y)" using lo linked_next unfolding level_ok_def by blast
    have unf: "get_next_btree_record env t i pos = (case get_next_bnode env t i of Inl e \<Rightarrow> Done (Inl e)
        | Inr y \<Rightarrow> bind_outcome (get_record ?c (?ns y) 0) (\<lambda>r. Done (case r of Inl e \<Rightarrow> Inl e | Inr o1 \<Rightarrow> Inr (y, 0, o1))))"
      using e s(2) cnt by (simp add: get_next_btree_record_def)
    show ?thesis
    proof (cases post)
      case Nil
      then have "vdfs4_get_next_btree_record env t i pos = Done (Inl ENOENT)"
        using unf nx by (simp add: get_next_bnode_def INVALID_NODE_ID_def vdfs4_get_next_btree_record_def)
      then show ?thesis using s e Nil by simp
    next
      case (Cons y ys)
      have y: "y \<in> set (hd lv)" using s(1) Cons by simp
      have lo': "level_ok valid ?c ?ns ((pre @ [i]) @ y # ys)" using lo Cons by simp
      have yl: "0 < length (node_recs (?ns y))" using level_hd(1) [OF lo0 y] by simp
      have "0 < y" using lo Cons by (simp add: level_ok_def tree_node_def)
      moreover have "vdfs4_get_bnode env t y = success"
        using get_bnode_ok [OF t in_levels [of y lv 0]] y ne by (simp add: hd_conv_nth)
      ultimately have gn: "get_next_bnode env t i = Inr y" using nx Cons by (simp add: get_next_bnode_def INVALID_NODE_ID_def)
      obtain o1 where o1: "get_record ?c (?ns y) (int 0) = Done (Inr o1)" "rec_at (?ns y) o1 = node_recs (?ns y) ! 0"
          "node_recs (?ns y) ! 0 \<in> set (level_recs ?ns ((pre @ [i]) @ y # ys))"
          "node_recs (?ns y) ! 0 = level_recs ?ns ((pre @ [i]) @ y # ys) ! (length (level_recs ?ns (pre @ [i])) + 0)"
        using level_node_record [OF lo' yl] by blast
      have sp: "hd lv = (pre @ [i]) @ y # ys" using s(1) Cons by simp
      have "get_next_btree_record env t i pos = Done (Inr (y, 0, o1))" unfolding unf gn using o1(1) by simp
      then have "vdfs4_get_next_btree_record env t i pos = Done (Inr (y, int 0, o1))"
        using form [of y o1 0] o1(2,3) sp by (simp add: vdfs4_get_next_btree_record_def)
      moreover have q: "Suc q = length (level_recs ?ns (pre @ [i])) + 0" using s(4) e by simp
      have "located ?ns (hd lv) (y, int 0, o1) (Suc q)"
        unfolding located_def q prod.case using sp yl o1(2,4)
        by (intro exI [of _ "pre @ [i]"] exI [of _ ys] exI [of _ 0]) (simp only: simp_thms)
      moreover have "Suc q < length (level_recs ?ns (hd lv))" using s e Cons yl by simp
      ultimately show ?thesis by auto
    qed
  qed
qed

end

end
