(* ===== verification/Vdfs_Btree_Levels.thy ===== *)
theory Vdfs_Btree_Levels
  imports Vdfs_Btree_Search
begin

text \<open>
  What the steps of an insertion do to the nodes, to the chain of a level and to the tree: a record is
  placed, a value is written, a node is split.
\<close>

section \<open>Nodes\<close>

text \<open>Writing the value of a record changes this record only.\<close>

lemma blob_positions:
  assumes "as @ r # bs = as2 @ q # bs2" "length as \<noteq> length as2"
  shows "length (concat as2) + length q \<le> length (concat as) \<or> length (concat as) + length r \<le> length (concat as2)"
proof (cases "length as2 < length as")
  case True
  then have "as2 @ [q] = take (Suc (length as2)) as"
    using arg_cong [OF assms(1), of "take (Suc (length as2))"] by simp
  then have "as = as2 @ [q] @ drop (Suc (length as2)) as" by (metis append_assoc append_take_drop_id)
  then have "length (concat as) = length (concat as2) + length q + length (concat (drop (Suc (length as2)) as))"
    by (metis (no_types, lifting) ab_semigroup_add_class.add_ac(1) append.right_neutral concat.simps concat_append length_append)
  then show ?thesis by simp
next
  case False
  then have "as @ [r] = take (Suc (length as)) as2"
    using assms(2) arg_cong [OF assms(1), of "take (Suc (length as))"] by simp
  then have "as2 = as @ [r] @ drop (Suc (length as)) as2" by (metis append_assoc append_take_drop_id)
  then have "length (concat as2) = length (concat as) + length r + length (concat (drop (Suc (length as)) as2))"
    by (metis (no_types, lifting) ab_semigroup_add_class.add_ac(1) append.right_neutral concat.simps concat_append length_append)
  then show ?thesis by simp
qed

lemma write_area:
  assumes "mem_read m 32 (int (length (concat (as @ r # bs)))) = concat (as @ r # bs)" "32 + length (concat (as @ r # bs)) \<le> length m"
    "k + length v = length r"
  shows "mem_read (mem_write m (32 + int (length (concat as)) + int k) v) 32 (int (length (concat (as @ r # bs)))) =
    concat (as @ (take k r @ v) # bs)"
proof -
  let ?l = "length (concat (as @ r # bs))"
  define A E where "A = take 32 m" and "E = drop (32 + ?l) m"
  have "take ?l (drop 32 m) = concat (as @ r # bs)" using assms(1) unfolding mem_read_def nat_int by simp
  moreover have "m = A @ take ?l (drop 32 m) @ E"
    unfolding A_def E_def by (metis add.commute append_take_drop_id drop_drop)
  ultimately have m: "m = A @ concat as @ r @ concat bs @ E" by (metis append_assoc concat.simps(2) concat_append)
  have a: "length A = 32" using assms(2) by (simp add: A_def)
  have n: "nat (32 + int (length (concat as)) + int k) = length (A @ concat as) + k" using a by simp
  have "mem_write m (32 + int (length (concat as)) + int k) v =
      take (length (A @ concat as) + k) m @ v @ drop (length (A @ concat as) + k + length v) m"
    unfolding mem_write_def n ..
  also have "\<dots> = (A @ concat as @ take k r) @ v @ (concat bs @ E)" using assms(3) by (subst (1 2) m) simp
  finally show ?thesis using a assms(3) by (simp add: mem_read_def)
qed

lemma write_value_ok:
  assumes n: "node_ok c b" and p: "p < length (node_recs b)" and off: "off = bn_offs b ! p"
    and k: "8 \<le> key_len (node_recs b ! p)" "key_len (node_recs b ! p) + int (length v) = int (length (node_recs b ! p))"
  shows "node_ok c (write_value b off v)"
    "node_recs (write_value b off v) = (node_recs b)[p := take (nat (key_len (node_recs b ! p))) (node_recs b ! p) @ v]"
    "node_head (write_value b off v) = node_head b" "bn_offs (write_value b off v) = bn_offs b"
    "d_free_space (write_value b off v) = d_free_space b"
proof -
  let ?b = "write_value b off v" and ?r = "node_recs b ! p"
  obtain blobs where l: "node_layout c b blobs" using n by (auto simp: node_ok_def)
  note d = node_layoutD [OF l] and nr = node_recs_layout [OF l]
  have pl: "p < length blobs" using p nr(2) by simp
  have rat: "rec_at b off = ?r" using node_recs_cell [OF n p] off by simp
  obtain as r bs where s: "blobs = as @ r # bs" "off = 32 + int (length (concat as))"
    using blob_offsets_split [OF node_cells_range(1) [OF l pl]] off by blast
  have rr: "r = ?r"
  proof -
    have "rec_in (bn_data b) off = r"
      using mem_read_concat [OF d(4) [unfolded s(1)]] d(3) s by (intro rec_in_eq) auto
    then show ?thesis using rat by (simp add: rec_at_def)
  qed
  define kl where "kl = nat (key_len ?r)"
  have kk: "8 \<le> kl" "kl + length v = length r" "int kl = key_len ?r" using k rr by (auto simp: kl_def)
  have bd: "bn_data ?b = mem_write (bn_data b) (off + key_len ?r) v" by (simp add: write_value_def rat)
  have len: "32 + length (concat (as @ r # bs)) \<le> length (bn_data b)" using d(8,9) s(1) node_shapeD(3) [OF d(1)] by simp
  have area: "mem_read (bn_data ?b) 32 (int (length (concat (as @ r # bs)))) = concat (as @ (take kl r @ v) # bs)"
    using write_area [OF d(4) [unfolded s(1)] len kk(2)] unfolding bd kk(3) s(2) [symmetric] .
  have ro: "rec_ok (take kl r @ v)"
  proof -
    have "mem_read (take kl r @ v) 6 2 = mem_read r 6 2" using kk(1,2) by (simp add: mem_read_def drop_take)
    then show ?thesis using d(3) s(1) kk(2) by (simp add: rec_ok_def)
  qed
  have in1: "in_mem (bn_data b) (off + key_len ?r) (int (length v))"
    using s len kk by (simp add: in_mem_def)
  have lo: "node_layout c ?b (as @ (take kl r @ v) # bs)"
  proof -
    have "blob_offsets 32 (as @ (take kl r @ v) # bs) = blob_offsets 32 blobs"
      using kk(2) s(1) by (simp add: blob_offsets_append)
    moreover have "length (concat (as @ (take kl r @ v) # bs)) = length (concat blobs)" using kk(2) s(1) by simp
    moreover have "node_shape c ?b" using d(1) in1 by (simp add: node_shape_def write_value_def rat)
    moreover have "mem_read (bn_data ?b) 32 (int (length (concat (as @ (take kl r @ v) # bs)))) = concat (as @ (take kl r @ v) # bs)"
      using area unfolding calculation(2) unfolding s(1) .
    ultimately show ?thesis
      using d ro s(1) unfolding node_layout_def by (simp add: write_value_def)
  qed
  then show "node_ok c ?b" by (auto simp: node_ok_def)
  show "node_head ?b = node_head b" "bn_offs ?b = bn_offs b" "d_free_space ?b = d_free_space b"
    by (simp_all add: write_value_def node_head_def)
  have dist: "distinct (take (length blobs) (bn_offs b))"
    using distinct_blob_offsets [OF d(3)] d(6) by (metis mset_eq_imp_distinct_iff)
  have cell: "rec_at ?b (bn_offs b ! j) = (if j = p then take kl r @ v else rec_at b (bn_offs b ! j))" if jl: "j < length blobs" for j
  proof (cases "j = p")
    case True
    have "mem_read (bn_data ?b) off (int (length (take kl r @ v))) = take kl r @ v"
      using mem_read_concat [OF node_layoutD(4) [OF lo]] s(2) by simp
    then show ?thesis using True ro off rec_in_eq [of "bn_data ?b" off "take kl r @ v"] s(2) by (simp add: rec_at_def)
  next
    case False
    obtain as2 q bs2 where q: "blobs = as2 @ q # bs2" "bn_offs b ! j = 32 + int (length (concat as2))"
      using blob_offsets_split [OF node_cells_range(1) [OF l jl]] by blast
    have "bn_offs b ! j \<noteq> off"
    proof -
      have "take (length blobs) (bn_offs b) ! j \<noteq> take (length blobs) (bn_offs b) ! p"
        using dist False jl pl d(5) by (subst nth_eq_iff_index_eq) auto
      then show ?thesis using jl pl off by simp
    qed
    then have "length as \<noteq> length as2" using q s by (metis append_eq_append_conv)
    from blob_positions [of as r bs as2 q bs2] this q(1) s(1)
    have ap: "length (concat as2) + length q \<le> length (concat as) \<or> length (concat as) + length r \<le> length (concat as2)" by simp
    have "mem_read (bn_data ?b) (bn_offs b ! j) (int (length q)) = mem_read (bn_data b) (bn_offs b ! j) (int (length q))"
      using ap mem_read_write_below [OF in1, of "bn_offs b ! j" "int (length q)"]
        mem_read_write_above [OF in1, of "bn_offs b ! j" "int (length q)"] q(2) s(2) kk
      unfolding bd by auto
    moreover have "mem_read (bn_data b) (bn_offs b ! j) (int (length q)) = q"
      using mem_read_concat [OF d(4) [unfolded q(1)]] q(2) by simp
    moreover have "rec_ok q" using d(3) q(1) by simp
    ultimately show ?thesis using False rec_in_eq [of _ "bn_offs b ! j" q] q(2) by (simp add: rec_at_def)
  qed
  show "node_recs ?b = (node_recs b)[p := take (nat (key_len ?r)) ?r @ v]"
  proof (rule nth_equalityI)
    have "length (node_recs ?b) = length blobs" using node_recs_layout(2) [OF lo] s(1) by simp
    then show "length (node_recs ?b) = length ((node_recs b)[p := take (nat (key_len ?r)) ?r @ v])" using nr(2) by simp
    fix j assume "j < length (node_recs ?b)"
    then have j: "j < length blobs" using \<open>length (node_recs ?b) = length blobs\<close> by simp
    have "node_recs ?b ! j = rec_at ?b (bn_offs b ! j)"
      using node_recs_layout(1) [OF lo] j s(1) d(5) by (simp add: write_value_def)
    moreover have "node_recs b ! j = rec_at b (bn_offs b ! j)" using nr(1) j d(5) by simp
    ultimately show "node_recs ?b ! j = (node_recs b)[p := take (nat (key_len ?r)) ?r @ v] ! j"
      using cell [OF j] j nr(2) rr by (simp add: kl_def nth_list_update)
  qed
qed

lemma node_insert:
  assumes n: "node_ok c b" and k: "key_ok nk nl" and p: "p < length (node_recs b)" and f: "\<not> is_node_full b nl"
  shows "\<exists>b' r. insert_key_into_bnode c b nk nl (int p + 1) = Done (Inr (int p + 1, bn_offs b' ! Suc p), b') \<and> node_ok c b' \<and>
    node_recs b' = take (Suc p) (node_recs b) @ r # drop (Suc p) (node_recs b) \<and> placed_key nk nl r \<and> node_head b' = node_head b"
proof -
  obtain blobs where l: "node_layout c b blobs" using n by (auto simp: node_ok_def)
  have len: "d_recs_count b = int (length (node_recs b))" "length (node_recs b) = length blobs"
    using node_layoutD(2) [OF l] node_recs_layout(2) [OF l] by simp_all
  have pos: "0 \<le> int p + 1" "int p + 1 \<le> d_recs_count b" "nat (int p + 1) = Suc p" using p len by auto
  obtain b' r where b: "insert_key_into_bnode c b nk nl (int p + 1) = Done (Inr (int p + 1, bn_offs b ! length blobs), b')"
      "node_layout c b' (blobs @ [r])" "placed_key nk nl r"
      "node_recs b' = take (Suc p) (node_recs b) @ r # drop (Suc p) (node_recs b)" "node_head b' = node_head b"
      "take (Suc (length blobs)) (bn_offs b') = take (Suc p) (bn_offs b) @ bn_offs b ! length blobs
          # take (length blobs - Suc p) (drop (Suc p) (bn_offs b))"
    using place_key_item [OF l k pos(1,2) f] pos(3) by auto
  have "bn_offs b' ! Suc p = take (Suc (length blobs)) (bn_offs b') ! Suc p" using p len by simp
  also have "\<dots> = bn_offs b ! length blobs"
    unfolding b(6) using p len node_layoutD(5) [OF l] by (simp add: nth_append min_def)
  finally show ?thesis using b by (auto simp: node_ok_def)
qed

section \<open>Levels\<close>

lemma level_recs_cong: "(\<And>i. i \<in> set ids \<Longrightarrow> node_recs (ns' i) = node_recs (ns i)) \<Longrightarrow> level_recs ns' ids = level_recs ns ids"
  by (simp add: level_recs_def cong: map_cong)

lemma linked_cong: "(\<And>i. i \<in> set ids \<Longrightarrow> node_head (ns' i) = node_head (ns i)) \<Longrightarrow> linked ns' p ids = linked ns p ids"
  by (induction ids arbitrary: p) (auto simp: node_head_def)

lemma tree_node_cong: "ns' i = ns i \<Longrightarrow> tree_node c ns' i = tree_node c ns i"
  by (simp add: tree_node_def)

lemma linked_split:
  assumes "linked ns p (pre @ x # post)" "distinct (pre @ x # post)" "y \<notin> set (pre @ x # post)"
    and pre: "\<And>i. i \<in> set pre \<Longrightarrow> node_head (ns' i) = node_head (ns i)"
    and x: "d_prev (ns' x) = d_prev (ns x)" "d_next (ns' x) = y"
    and y: "d_prev (ns' y) = x" "d_next (ns' y) = d_next (ns x)"
    and post: "\<And>i. i \<in> set post \<Longrightarrow> d_next (ns' i) = d_next (ns i) \<and> d_prev (ns' i) = (if i = hd post then y else d_prev (ns i))"
  shows "linked ns' p (pre @ x # y # post)"
  using assms(1-3) pre
proof (induction pre arbitrary: p)
  case Nil
  have "linked ns' y post"
  proof (cases post)
    case (Cons z zs)
    have "linked ns z zs" "z \<notin> set zs" using Nil.prems(1,2) Cons by simp_all
    then have "linked ns' z zs"
    proof -
      have "linked ns' q ws = linked ns q ws" if "set ws \<subseteq> set zs" for q ws
        using that post Cons \<open>z \<notin> set zs\<close> by (induction ws arbitrary: q) auto
      then show ?thesis using \<open>linked ns z zs\<close> by blast
    qed
    then show ?thesis using post [of z] Nil.prems(1) Cons by (cases zs) auto
  qed simp
  then show ?case using Nil.prems(1) x y by simp
next
  case (Cons a pre)
  have "linked ns' a (pre @ x # y # post)" using Cons by simp
  moreover have "d_prev (ns' a) = d_prev (ns a)" "d_next (ns' a) = d_next (ns a)" using Cons.prems(4) [of a] by (simp_all add: node_head_def)
  ultimately show ?case using Cons.prems(1) by (cases pre) auto
qed

text \<open>The place of a record, with the offset its cell has.\<close>

definition cell_at :: "(int \<Rightarrow> bnode) \<Rightarrow> int list \<Rightarrow> int \<times> int \<times> int \<Rightarrow> nat \<Rightarrow> bool" where
  "cell_at ns ids place q \<longleftrightarrow> (case place of (i, pos, off) \<Rightarrow>
     \<exists>pre post p. ids = pre @ i # post \<and> pos = int p \<and> p < length (node_recs (ns i)) \<and>
       q = length (level_recs ns pre) + p \<and> off = bn_offs (ns i) ! p)"

lemma cell_at_cong:
  assumes "\<And>i. i \<in> set ids \<Longrightarrow> ns' i = ns i"
  shows "cell_at ns' ids place q = cell_at ns ids place q"
proof -
  have "level_recs ns' pre = level_recs ns pre" if "ids = pre @ i # post" for pre i post
    using that assms by (intro level_recs_cong) simp
  moreover have "ns' i = ns i" if "ids = pre @ i # post" for pre i post using assms that by simp
  ultimately show ?thesis unfolding cell_at_def by (auto split: prod.split)
qed

context tree_keys
begin

lemma ordered_insert:
  assumes o: "ordered_recs valid cmp rs" and f: "found_at cmp rs key q" and ne: "cmp (rs ! q) key \<noteq> 0"
    and k: "valid key" "same_key key r"
  shows "ordered_recs valid cmp (take (Suc q) rs @ r # drop (Suc q) rs)"
proof -
  have q: "q < length rs" "cmp (rs ! q) key < 0" using f ne by (auto simp: found_at_def)
  have v: "valid r" using same_key_valid [OF k] .
  have vr: "valid x" if "x \<in> set rs" for x using o that by (simp add: ordered_recs_def)
  have s: "sorted_wrt (\<lambda>a b. cmp a b < 0) rs" using o by (simp add: ordered_recs_def)
  have below: "cmp (rs ! i) r < 0" if "i \<le> q" for i
  proof -
    have "cmp (rs ! i) (rs ! q) \<le> 0" using that s q(1) cmp_refl [OF vr [of "rs ! q"]] by (cases "i = q") (auto simp: sorted_wrt_iff_nth_less less_imp_le)
    then have "\<not> cmp key (rs ! i) \<le> 0"
      using cmp_trans [of key "rs ! i" "rs ! q"] vr [of "rs ! i"] vr [of "rs ! q"] that q k(1) cmp_swap [of "rs ! q" key]
      by (auto simp: sgn_if split: if_splits)
    then have "cmp (rs ! i) key < 0" using cmp_swap [of "rs ! i" key] vr [of "rs ! i"] that q k(1) by (auto simp: sgn_if split: if_splits)
    then show ?thesis using same_key_cmp_right [OF k, of "rs ! i"] vr [of "rs ! i"] that q by (auto simp: sgn_if split: if_splits)
  qed
  have above: "cmp r (rs ! i) < 0" if "q < i" "i < length rs" for i
  proof -
    have "0 < cmp (rs ! i) key" using f that by (simp add: found_at_def)
    then have "cmp key (rs ! i) < 0" using cmp_swap [of "rs ! i" key] vr [of "rs ! i"] that k(1) by (auto simp: sgn_if split: if_splits)
    then show ?thesis using same_key_cmp [OF k] by simp
  qed
  have "sorted_wrt (\<lambda>a b. cmp a b < 0) (take (Suc q) rs @ r # drop (Suc q) rs)"
  proof -
    have st: "sorted_wrt (\<lambda>a b. cmp a b < 0) (take (Suc q) rs @ drop (Suc q) rs)" using s by simp
    have 1: "\<forall>x \<in> set (take (Suc q) rs). cmp x r < 0" using below by (auto simp: in_set_conv_nth)
    have 2: "\<forall>x \<in> set (drop (Suc q) rs). cmp r x < 0" using above by (auto simp: in_set_conv_nth)
    show ?thesis using st 1 2 unfolding sorted_wrt_append by auto
  qed
  moreover have "\<forall>x \<in> set (take (Suc q) rs @ r # drop (Suc q) rs). valid x"
    using v vr by (auto dest: in_set_takeD in_set_dropD)
  ultimately show ?thesis by (simp add: ordered_recs_def)
qed

lemma ordered_same:
  assumes o: "ordered_recs valid cmp rs" and q: "q < length rs" and k: "same_key (rs ! q) r"
  shows "ordered_recs valid cmp (rs[q := r])"
proof -
  have vq: "valid (rs ! q)" using o q by (simp add: ordered_recs_def)
  have vr: "valid x" if "x \<in> set rs" for x using o that by (simp add: ordered_recs_def)
  have "cmp (rs[q := r] ! i) (rs[q := r] ! j) < 0" if "i < j" "j < length rs" for i j
  proof -
    have "cmp (rs ! i) (rs ! j) < 0" using o that by (auto simp: ordered_recs_def sorted_wrt_iff_nth_less)
    then show ?thesis
      using same_key_cmp [OF vq k] same_key_cmp_right [OF vq k, of "rs ! i"] vr [of "rs ! i"] that q
      by (auto simp: nth_list_update sgn_if split: if_splits)
  qed
  moreover have "\<forall>x \<in> set (rs[q := r]). valid x" using vr same_key_valid [OF vq k] by (auto dest!: set_update_subset_insert [THEN subsetD])
  ultimately show ?thesis by (auto simp: ordered_recs_def sorted_wrt_iff_nth_less)
qed

end

lemma node_links [simp]:
  "node_recs (b\<lparr>d_prev := u\<rparr>) = node_recs b" "node_recs (b\<lparr>d_next := w\<rparr>) = node_recs b"
  "node_layout c (b\<lparr>d_prev := u\<rparr>) blobs = node_layout c b blobs" "node_layout c (b\<lparr>d_next := w\<rparr>) blobs = node_layout c b blobs"
  "node_ok c (b\<lparr>d_prev := u\<rparr>) = node_ok c b" "node_ok c (b\<lparr>d_next := w\<rparr>) = node_ok c b"
  by (simp_all add: node_recs_def rec_at_def [abs_def] node_ok_def node_layout_def node_shape_def)

lemma insert_mid:
  "p < length rs \<Longrightarrow> as @ (take (Suc p) rs @ r # drop (Suc p) rs) @ bs =
    take (Suc (length as + p)) (as @ rs @ bs) @ r # drop (Suc (length as + p)) (as @ rs @ bs)"
  by simp

lemma level_replace:
  assumes lo: "level_ok valid c ns (pre @ x # post)" and x: "x \<notin> set (pre @ post)"
    and same: "\<And>i. i \<in> set (pre @ post) \<Longrightarrow> ns' i = ns i" and tn: "tree_node c ns' x" and h: "node_head (ns' x) = node_head (ns x)"
    and o: "ordered_recs valid (comp_fn c) (level_recs ns pre @ node_recs (ns' x) @ level_recs ns post)"
  shows "level_ok valid c ns' (pre @ x # post)"
    "level_recs ns' (pre @ x # post) = level_recs ns pre @ node_recs (ns' x) @ level_recs ns post"
proof -
  have r: "level_recs ns' pre = level_recs ns pre" "level_recs ns' post = level_recs ns post"
    using same by (auto intro!: level_recs_cong)
  then show rs: "level_recs ns' (pre @ x # post) = level_recs ns pre @ node_recs (ns' x) @ level_recs ns post" by simp
  have "node_head (ns' i) = node_head (ns i)" if "i \<in> set (pre @ x # post)" for i
    using that h same [of i] by (cases "i = x") auto
  then have "linked ns' 0 (pre @ x # post)"
    using lo linked_cong [of "pre @ x # post" ns' ns 0] by (simp add: level_ok_def)
  moreover have "tree_node c ns' i" if "i \<in> set (pre @ x # post)" for i
    using that tn lo same [of i] tree_node_cong [of ns' i ns c] by (cases "i = x") (auto simp: level_ok_def)
  ultimately show "level_ok valid c ns' (pre @ x # post)" using o rs by (simp add: level_ok_def)
qed

lemma level_split_ok:
  assumes lo: "level_ok valid c ns (pre @ x # post)" and d: "distinct (pre @ x # post)" "y \<notin> set (pre @ x # post)"
    and pre: "\<And>i. i \<in> set pre \<Longrightarrow> ns' i = ns i"
    and post: "\<And>i. i \<in> set post \<Longrightarrow> ns' i = (if i = hd post then (ns i)\<lparr>d_prev := y\<rparr> else ns i)"
    and tn: "tree_node c ns' x" "tree_node c ns' y"
    and x: "d_prev (ns' x) = d_prev (ns x)" "d_next (ns' x) = y"
    and y: "d_prev (ns' y) = x" "d_next (ns' y) = d_next (ns x)"
    and o: "ordered_recs valid (comp_fn c) (level_recs ns pre @ node_recs (ns' x) @ node_recs (ns' y) @ level_recs ns post)"
  shows "level_ok valid c ns' (pre @ x # y # post)"
    "level_recs ns' (pre @ x # y # post) = level_recs ns pre @ node_recs (ns' x) @ node_recs (ns' y) @ level_recs ns post"
proof -
  have "level_recs ns' pre = level_recs ns pre" "level_recs ns' post = level_recs ns post"
    using pre post by (auto intro!: level_recs_cong)
  then show rs: "level_recs ns' (pre @ x # y # post) = level_recs ns pre @ node_recs (ns' x) @ node_recs (ns' y) @ level_recs ns post"
    by simp
  have l: "linked ns 0 (pre @ x # post)" using lo by (simp add: level_ok_def)
  have hp: "node_head (ns' i) = node_head (ns i)" if "i \<in> set pre" for i using pre [OF that] by simp
  have hq: "d_next (ns' i) = d_next (ns i) \<and> d_prev (ns' i) = (if i = hd post then y else d_prev (ns i))" if "i \<in> set post" for i
    using post [OF that] by simp
  have "linked ns' 0 (pre @ x # y # post)" using linked_split [OF l d hp x y hq] .
  moreover have "tree_node c ns' i" if "i \<in> set (pre @ x # y # post)" for i
  proof -
    have "tree_node c ns' i" if "i \<in> set post" using that post [OF that] lo by (auto simp: level_ok_def tree_node_def)
    moreover have "tree_node c ns' i" if "i \<in> set pre" using that pre [OF that] lo by (auto simp: level_ok_def tree_node_def)
    ultimately show ?thesis using that tn by auto
  qed
  ultimately show "level_ok valid c ns' (pre @ x # y # post)" using o rs by (simp add: level_ok_def)
qed

section \<open>Trees\<close>

text \<open>A level of a tree is replaced; the other levels keep their nodes.\<close>

lemma tree_ok_update:
  assumes t: "tree_ok valid t lv" and n: "n < length lv"
    and st: "bt_conf t' = bt_conf t" "btree_height t' = btree_height t" "root_bnode_id t' = root_bnode_id t"
    and lo: "level_ok valid (bt_conf t) (bt_nodes t') ids"
    and ids: "hd ids = hd (lv ! n)" "set (lv ! n) \<subseteq> set ids" "distinct ids" "\<And>i. i \<in> set ids \<Longrightarrow> i \<notin> set (lv ! n) \<Longrightarrow> i \<notin> set (concat lv)"
    and hds: "\<And>i r. i \<in> set (lv ! n) \<Longrightarrow> comp_fn (bt_conf t) (hd (node_recs (bt_nodes t' i))) r = comp_fn (bt_conf t) (hd (node_recs (bt_nodes t i))) r"
    and other: "\<And>m i. m < length lv \<Longrightarrow> m \<noteq> n \<Longrightarrow> i \<in> set (lv ! m) \<Longrightarrow> bt_nodes t' i = bt_nodes t i"
    and io: "0 < n \<Longrightarrow> index_ok (bt_conf t) (bt_nodes t') ids (lv ! (n - 1))"
    and bits: "\<And>i. i \<in> set (concat lv) \<union> set ids \<Longrightarrow> i < bits_num t' \<and> bm_data t' ! nat i"
  shows "tree_ok valid t' (lv[n := ids])"
proof -
  let ?c = "bt_conf t" and ?ns = "bt_nodes t'"
  have level: "level_ok valid ?c ?ns (lv[n := ids] ! m)" if "m < length lv" for m
  proof (cases "m = n")
    case False
    have l: "level_ok valid ?c (bt_nodes t) (lv ! m)" using tree_okD(2) [OF t that] .
    have e: "?ns i = bt_nodes t i" if "i \<in> set (lv ! m)" for i using other \<open>m < length lv\<close> False that by blast
    have "level_recs ?ns (lv ! m) = level_recs (bt_nodes t) (lv ! m)" using e by (intro level_recs_cong) simp
    moreover have "linked ?ns 0 (lv ! m) = linked (bt_nodes t) 0 (lv ! m)" using e by (intro linked_cong) simp
    ultimately have "level_ok valid ?c ?ns (lv ! m)"
      using l e tree_node_cong [of ?ns _ "bt_nodes t" ?c] by (auto simp: level_ok_def)
    then show ?thesis using False by simp
  qed (use n lo in simp)
  have index: "index_ok ?c ?ns (lv[n := ids] ! Suc m) (lv[n := ids] ! m)" if m: "Suc m < length lv" for m
  proof -
    have i: "index_ok ?c (bt_nodes t) (lv ! Suc m) (lv ! m)" using tree_okD(3) [OF t m] .
    consider "Suc m = n" | "m = n" | "m \<noteq> n" "Suc m \<noteq> n" by blast
    then show ?thesis
    proof cases
      case 1
      then show ?thesis using io n by auto
    next
      case 2
      have e: "level_recs ?ns (lv ! Suc m) = level_recs (bt_nodes t) (lv ! Suc m)"
        using other [of "Suc m"] m 2 by (intro level_recs_cong) simp
      have "index_ok ?c ?ns (lv ! Suc m) ids" unfolding index_ok_def e
        using i hds ids(1,2) 2 by (auto simp: index_ok_def)
      then show ?thesis using 2 n by simp
    next
      case 3
      have e: "level_recs ?ns (lv ! Suc m) = level_recs (bt_nodes t) (lv ! Suc m)"
        using other [of "Suc m"] m 3 by (intro level_recs_cong) simp
      have "?ns j = bt_nodes t j" if "j \<in> set (lv ! m)" for j using other [of m] m 3 that by simp
      then have "index_ok ?c ?ns (lv ! Suc m) (lv ! m)" using i unfolding index_ok_def e by auto
      then show ?thesis using 3 by simp
    qed
  qed
  have ne: "lv \<noteq> []" using tree_okD(1) [OF t] .
  have last: "last (lv[n := ids]) = (if n = length lv - 1 then ids else last lv)" using ne n by (simp add: last_list_update)
  have root: "hd (last (lv[n := ids])) = hd (last lv)" using last ids(1) ne by (simp add: last_conv_nth)
  have dis: "distinct (concat (lv[n := ids]))"
  proof -
    define a b where "a = concat (take n lv)" and "b = concat (drop (Suc n) lv)"
    have c: "concat lv = a @ lv ! n @ b" unfolding a_def b_def using arg_cong [OF id_take_nth_drop [OF n], of concat] by simp
    have d: "concat (lv[n := ids]) = a @ ids @ b" unfolding a_def b_def using n by (simp add: upd_conv_take_nth_drop)
    have l: "distinct (a @ lv ! n @ b)" using tree_okD(6) [OF t] unfolding c .
    have "i \<notin> set a \<and> i \<notin> set b" if "i \<in> set ids" for i
    proof (cases "i \<in> set (lv ! n)")
      case True
      then show ?thesis using l by auto
    next
      case False
      then show ?thesis using ids(4) [OF that] unfolding c by simp
    qed
    then have "set a \<inter> set (ids @ b) = {}" "set ids \<inter> set b = {}" using l by auto
    then show ?thesis using l ids(3) unfolding d by simp
  qed
  have sub: "set (concat (lv[n := ids])) \<subseteq> set (concat lv) \<union> set ids"
    using set_update_subset_insert [of lv n ids] by auto
  show ?thesis
    unfolding tree_ok_def levels_ok_def st length_list_update
  proof (intro conjI allI ballI impI)
    show "lv[n := ids] \<noteq> []" using ne by simp
    show "btree_height t = int (length lv)" using tree_okD(4) [OF t] .
    show "root_bnode_id t = hd (last (lv[n := ids]))" using root tree_okD(5) [OF t] by simp
    fix i assume "i \<in> set (concat (lv[n := ids]))"
    then have "i \<in> set (concat lv) \<union> set ids" using sub by blast
    then show "i < bits_num t'" "bm_data t' ! nat i" using bits by blast+
  qed (use level index dis in blast)+
qed

lemma tree_ok_cong:
  assumes "tree_ok valid t lv" "bt_conf t' = bt_conf t" "btree_height t' = btree_height t" "root_bnode_id t' = root_bnode_id t"
    "\<And>i. i \<in> set (concat lv) \<Longrightarrow> bt_nodes t' i = bt_nodes t i"
    "\<And>i. i \<in> set (concat lv) \<Longrightarrow> i < bits_num t' \<and> bm_data t' ! nat i"
  shows "tree_ok valid t' lv"
proof -
  have ne: "0 < length lv" using tree_okD(1) [OF assms(1)] by simp
  have e: "bt_nodes t' i = bt_nodes t i" if "m < length lv" "i \<in> set (lv ! m)" for m i using assms(5) [OF in_levels [OF that(2,1)]] .
  have l: "level_ok valid (bt_conf t) (bt_nodes t) (lv ! 0)" using tree_okD(2) [OF assms(1) ne] .
  have "level_recs (bt_nodes t') (lv ! 0) = level_recs (bt_nodes t) (lv ! 0)" using e [OF ne] by (intro level_recs_cong) simp
  moreover have "linked (bt_nodes t') 0 (lv ! 0) = linked (bt_nodes t) 0 (lv ! 0)" using e [OF ne] by (intro linked_cong) simp
  ultimately have "level_ok valid (bt_conf t) (bt_nodes t') (lv ! 0)"
    using l e [OF ne] tree_node_cong [of "bt_nodes t'" _ "bt_nodes t" "bt_conf t"] by (auto simp: level_ok_def)
  moreover have "comp_fn (bt_conf t) (hd (node_recs (bt_nodes t' i))) r = comp_fn (bt_conf t) (hd (node_recs (bt_nodes t i))) r"
    if "i \<in> set (lv ! 0)" for i r using e [OF ne that] by simp
  moreover have "i < bits_num t' \<and> bm_data t' ! nat i" if "i \<in> set (concat lv) \<union> set (lv ! 0)" for i
    using assms(6) that in_levels [OF _ ne] by blast
  ultimately have "tree_ok valid t' (lv[0 := lv ! 0])"
    using tree_okD(8) [OF assms(1) ne] e
    by (intro tree_ok_update [OF assms(1) ne assms(2-4)]) (simp_all only: subset_refl less_numeral_extra)
  then show ?thesis by simp
qed

end
