(* ===== verification/Vdfs_Btree_Alloc.thy ===== *)
theory Vdfs_Btree_Alloc
  imports Vdfs_Btree_Levels
begin

text \<open>
  The numbers of the nodes and the reserve of nodes: the counters agree with the bitmap, a new node has
  a number that was free, and the reserve is filled behind the end of the file.
\<close>

section \<open>Node numbers\<close>

text \<open>Node 0 holds the head of the tree. The counters say what the bitmap says.\<close>

definition bits_ok :: "vdfs4_btree \<Rightarrow> bool" where
  "bits_ok t \<longleftrightarrow> bm_data t \<noteq> [] \<and> bm_data t ! 0 \<and> bits_num t < 2147483648 \<and>
     bm_free_num t = int (length (filter Not (bm_data t))) \<and>
     bm_first_free_id t = int (find_next_zero_bit (bm_data t) (length (bm_data t)) 0)"

lemma filter_Not_length: "length (filter Not bits) + length (filter (\<lambda>b. b) bits) = length bits"
  by (induction bits) auto

lemma build_bitmap_ok:
  assumes "bits \<noteq> []" "bits ! 0" "length bits < 2147483648"
  shows "fst (vdfs4_build_free_bnode_bitmap True True bits 0 t) = success"
    "bits_ok (snd (vdfs4_build_free_bnode_bitmap True True bits 0 t))"
proof -
  have "find_next_zero_bit bits (length bits) 0 \<le> length bits" by (rule find_next_value_le)
  then show "fst (vdfs4_build_free_bnode_bitmap True True bits 0 t) = success"
    "bits_ok (snd (vdfs4_build_free_bnode_bitmap True True bits 0 t))"
    using assms filter_Not_length [of bits] by (simp_all add: vdfs4_build_free_bnode_bitmap_def bits_ok_def u32_id)
qed

lemma filter_Not_set:
  "i < length bits \<Longrightarrow> \<not> bits ! i \<Longrightarrow> Suc (length (filter Not (bits[i := True]))) = length (filter Not bits)"
  by (induction bits arbitrary: i) (auto simp: nth_Cons split: nat.splits)

lemma filter_Not_clear:
  "i < length bits \<Longrightarrow> bits ! i \<Longrightarrow> length (filter Not (bits[i := False])) = Suc (length (filter Not bits))"
  by (induction bits arbitrary: i) (auto simp: nth_Cons split: nat.splits)

lemma find_next_eqI:
  assumes "q \<le> sz" "\<And>j. j < q \<Longrightarrow> bits ! j \<noteq> v" "q < sz \<Longrightarrow> bits ! q = v" "s \<le> q"
  shows "find_next_value v bits sz s = q"
proof -
  let ?f = "find_next_value v bits sz s"
  have "\<not> ?f < q" using find_next_value_hit [of v bits sz s] assms(1,2) by fastforce
  moreover have "\<not> q < ?f" using find_next_value_skip [OF assms(4), of v bits sz] find_next_value_le [of v bits sz s] assms(3) by fastforce
  ultimately show ?thesis by simp
qed

lemma find_next_from:
  assumes "\<And>j. j < s \<Longrightarrow> bits ! j \<noteq> v" "s \<le> sz"
  shows "find_next_value v bits sz s = find_next_value v bits sz 0"
proof -
  have "find_next_value v bits sz 0 = find_next_value v bits sz s"
  proof (rule find_next_eqI)
    show "bits ! j \<noteq> v" if "j < find_next_value v bits sz s" for j
      using that assms(1) find_next_value_skip [of s j v bits sz] by (cases "j < s") auto
  qed (auto simp: find_next_value_le find_next_value_hit)
  then show ?thesis by simp
qed

lemma first_free:
  assumes "bits_ok t" "bm_free_num t \<noteq> 0"
  shows "0 < bm_first_free_id t" "bm_first_free_id t < bits_num t" "\<not> bm_data t ! nat (bm_first_free_id t)"
    "\<And>j. j < nat (bm_first_free_id t) \<Longrightarrow> bm_data t ! j"
proof -
  let ?f = "find_next_zero_bit (bm_data t) (length (bm_data t)) 0"
  have f: "bm_first_free_id t = int ?f" using assms(1) by (simp add: bits_ok_def)
  show "bm_data t ! j" if "j < nat (bm_first_free_id t)" for j
    using find_next_value_skip [of 0 j False "bm_data t" "length (bm_data t)"] that f by simp
  have "filter Not (bm_data t) \<noteq> []" using assms by (auto simp: bits_ok_def)
  then obtain i where i: "i < length (bm_data t)" "\<not> bm_data t ! i" by (auto simp: filter_empty_conv in_set_conv_nth)
  then have "\<not> i < ?f" using find_next_value_skip [of 0 i False "bm_data t" "length (bm_data t)"] by auto
  then have l: "?f < length (bm_data t)" using i by simp
  then show "bm_first_free_id t < bits_num t" using f by simp
  show b: "\<not> bm_data t ! nat (bm_first_free_id t)" using find_next_value_hit [OF l] f by simp
  moreover have "bm_data t ! 0" using assms(1) by (simp add: bits_ok_def)
  ultimately have "?f \<noteq> 0" using f by (metis nat_int)
  then show "0 < bm_first_free_id t" using f by simp
qed

text \<open>What does not change when nodes are created.\<close>

definition same_head :: "vdfs4_btree \<Rightarrow> vdfs4_btree \<Rightarrow> bool" where
  "same_head t t' \<longleftrightarrow> bt_conf t' = bt_conf t \<and> root_bnode_id t' = root_bnode_id t \<and> btree_height t' = btree_height t"

lemma alloc_new_bnode_ok:
  assumes b: "bits_ok t"
  shows "(\<exists>e. vdfs4_alloc_new_bnode env t = Done (Inl e, t)) \<or>
    (\<exists>y t'. vdfs4_alloc_new_bnode env t = Done (Inr y, t') \<and> 0 < y \<and> y < bits_num t \<and> \<not> bm_data t ! nat y \<and>
      bits_ok t' \<and> bm_data t' = (bm_data t)[nat y := True] \<and> same_head t t' \<and>
      bt_nodes t' = (bt_nodes t)(y := (be_page env y)\<lparr>bn_id := y\<rparr>) \<and>
      bt_last_table_index t' = max (bt_last_table_index t) y \<and> bm_free_num t' = bm_free_num t - 1)"
    "\<forall>f i. be_create env f i = success \<Longrightarrow> 0 < bm_free_num t \<Longrightarrow> \<nexists>e. vdfs4_alloc_new_bnode env t = Done (Inl e, t)"
proof -
  let ?y = "bm_first_free_id t"
  define bits where "bits = (bm_data t)[nat ?y := True]"
  define t' where "t' = vdfs4_mark_bnode_dirty head_bnode_id
    (((set_node ?y ((be_page env ?y)\<lparr>bn_id := ?y\<rparr>) t)\<lparr>bt_last_table_index := max (bt_last_table_index t) ?y\<rparr>)
      \<lparr>bm_data := bits, bm_first_free_id := int (find_next_zero_bit bits (length bits) (nat ?y)), bm_free_num := u32 (bm_free_num t - 1)\<rparr>)"
  have run: "vdfs4_alloc_new_bnode env t = Done (Inr ?y, t')" if "bm_free_num t \<noteq> 0" "be_create env False ?y = success"
    using first_free [OF b that(1)] that
    by (simp add: vdfs4_alloc_new_bnode_def create_bnode_def t'_def bits_def Let_def set_node_def)
  have fail: "vdfs4_alloc_new_bnode env t = Done (Inl (the (be_create env False ?y)), t)" if "bm_free_num t \<noteq> 0" "be_create env False ?y \<noteq> success"
    using first_free [OF b that(1)] that by (auto simp: vdfs4_alloc_new_bnode_def create_bnode_def Let_def)
  have post: "bits_ok t' \<and> bm_data t' = bits \<and> bm_free_num t' = bm_free_num t - 1" if "bm_free_num t \<noteq> 0"
  proof -
    note ff = first_free [OF b that]
    have y: "nat ?y < length (bm_data t)" using ff by simp
    have set: "bits ! j" if "j < Suc (nat ?y)" for j using that y ff(4) by (cases "j = nat ?y") (auto simp: bits_def less_Suc_eq)
    have nz: "find_next_zero_bit bits (length bits) (nat ?y) = find_next_zero_bit bits (length bits) 0"
    proof (rule find_next_from)
      show "bits ! j \<noteq> False" if "j < nat ?y" for j using set [of j] that by simp
      show "nat ?y \<le> length bits" using y by (simp add: bits_def)
    qed
    have fn: "int (length (filter Not bits)) = bm_free_num t - 1"
      using filter_Not_set [OF y ff(3)] b by (simp add: bits_def bits_ok_def)
    have "bm_free_num t \<le> bits_num t" using b filter_Not_length [of "bm_data t"] by (simp add: bits_ok_def)
    moreover have "bits_num t < 2147483648" using b by (simp add: bits_ok_def)
    moreover have "0 \<le> bm_free_num t - 1" using fn [symmetric] by simp
    ultimately have u: "u32 (bm_free_num t - 1) = bm_free_num t - 1" by (intro u32_id) simp_all
    have "bits ! 0" using set [of 0] by simp
    then show ?thesis
      using b fn u nz by (simp add: bits_ok_def t'_def vdfs4_mark_bnode_dirty_def bits_def)
  qed
  have rest: "same_head t t'" "bt_nodes t' = (bt_nodes t)(?y := (be_page env ?y)\<lparr>bn_id := ?y\<rparr>)"
      "bt_last_table_index t' = max (bt_last_table_index t) ?y"
    by (simp_all add: t'_def vdfs4_mark_bnode_dirty_def same_head_def set_node_def)
  show "(\<exists>e. vdfs4_alloc_new_bnode env t = Done (Inl e, t)) \<or>
    (\<exists>y t'. vdfs4_alloc_new_bnode env t = Done (Inr y, t') \<and> 0 < y \<and> y < bits_num t \<and> \<not> bm_data t ! nat y \<and>
      bits_ok t' \<and> bm_data t' = (bm_data t)[nat y := True] \<and> same_head t t' \<and>
      bt_nodes t' = (bt_nodes t)(y := (be_page env y)\<lparr>bn_id := y\<rparr>) \<and>
      bt_last_table_index t' = max (bt_last_table_index t) y \<and> bm_free_num t' = bm_free_num t - 1)"
  proof (cases "bm_free_num t = 0")
    case True
    then show ?thesis by (simp add: vdfs4_alloc_new_bnode_def)
  next
    case False
    show ?thesis
    proof (cases "be_create env False ?y = success")
      case True
      then show ?thesis using run [OF False True] post [OF False] rest first_free [OF b False] by (auto simp: bits_def)
    qed (use fail False in blast)
  qed
  assume "\<forall>f i. be_create env f i = success" "0 < bm_free_num t"
  then show "\<nexists>e. vdfs4_alloc_new_bnode env t = Done (Inl e, t)" using run by simp
qed

lemma destroy_bnode_ok:
  assumes b: "bits_ok t" and y: "0 < y" "y < bits_num t" "bm_data t ! nat y"
  shows "\<exists>t'. vdfs4_destroy_bnode t y = Done (success, t') \<and> bits_ok t' \<and> bm_data t' = (bm_data t)[nat y := False] \<and>
    bm_free_num t' = bm_free_num t + 1 \<and> same_head t t' \<and> bt_nodes t' = bt_nodes t \<and> bt_last_table_index t' = bt_last_table_index t"
proof -
  define bits where "bits = (bm_data t)[nat y := False]"
  define t' where "t' = vdfs4_mark_bnode_dirty head_bnode_id
    (t\<lparr>bm_data := bits, bm_first_free_id := min (bm_first_free_id t) y, bm_free_num := u32 (bm_free_num t + 1)\<rparr>)"
  have run: "vdfs4_destroy_bnode t y = Done (success, t')"
    using y by (simp add: vdfs4_destroy_bnode_def INVALID_NODE_ID_def t'_def bits_def)
  have yl: "nat y < length (bm_data t)" using y by simp
  have fn: "int (length (filter Not bits)) = bm_free_num t + 1"
    using filter_Not_clear [OF yl y(3)] b by (simp add: bits_def bits_ok_def)
  moreover have "length (filter Not bits) \<le> length (bm_data t)" by (simp add: bits_def) (metis length_filter_le length_list_update)
  ultimately have u: "u32 (bm_free_num t + 1) = bm_free_num t + 1" using b by (intro u32_id) (auto simp: bits_ok_def)
  let ?f = "find_next_zero_bit (bm_data t) (length (bm_data t)) 0"
  have "find_next_zero_bit bits (length bits) 0 = min ?f (nat y)"
  proof (rule find_next_eqI)
    show "min ?f (nat y) \<le> length bits" using yl by (simp add: bits_def)
    show "bits ! j \<noteq> False" if "j < min ?f (nat y)" for j
      using that find_next_value_skip [of 0 j False "bm_data t" "length (bm_data t)"] by (simp add: bits_def)
    show "bits ! min ?f (nat y) = False" if "min ?f (nat y) < length bits"
    proof (cases "?f < nat y")
      case True
      then show ?thesis using find_next_value_hit [of False "bm_data t" "length (bm_data t)" 0] yl by (simp add: bits_def min_def)
    qed (use yl in \<open>simp add: bits_def min_def\<close>)
  qed simp
  then have "bits_ok t'"
    using b u fn y yl by (auto simp: bits_ok_def t'_def vdfs4_mark_bnode_dirty_def bits_def min_def)
  then show ?thesis using run u by (auto simp: t'_def vdfs4_mark_bnode_dirty_def bits_def same_head_def)
qed

section \<open>The reserve\<close>

lemma new_bnodes_num:
  assumes "0 \<le> btree_height t" "btree_height t < 65536" "0 \<le> bm_free_num t" "bm_free_num t \<le> bits_num t" "bits_num t < 2147483648"
    "0 \<le> bt_last_table_index t" "bt_last_table_index t < 4294967295"
  shows "u64 (bt_last_table_index t + 1) = bt_last_table_index t + 1"
    "u64 (u64 (bt_last_table_index t + 1) + bnodes_deficit t) = btree_height t * 4 + (bits_num t - bm_free_num t)"
    "bnodes_deficit t \<le> 0 \<longleftrightarrow> btree_height t * 4 + (bits_num t - bm_free_num t) = bt_last_table_index t + 1"
proof -
  show l: "u64 (bt_last_table_index t + 1) = bt_last_table_index t + 1" using assms(6,7) by (intro u64_id) simp_all
  have d: "bnodes_deficit t = u64 (btree_height t * 4 + (bits_num t - bm_free_num t) - (bt_last_table_index t + 1))"
  proof -
    have "u64 (bits_num t - bm_free_num t) = bits_num t - bm_free_num t" using assms(3-5) by (intro u64_id) simp_all
    then show ?thesis unfolding bnodes_deficit_def Let_def l by (simp add: u64_def mod_simps algebra_simps)
  qed
  show n: "u64 (u64 (bt_last_table_index t + 1) + bnodes_deficit t) = btree_height t * 4 + (bits_num t - bm_free_num t)"
    unfolding l d using assms by (simp add: u64_def mod_simps)
  show "bnodes_deficit t \<le> 0 \<longleftrightarrow> btree_height t * 4 + (bits_num t - bm_free_num t) = bt_last_table_index t + 1"
  proof
    assume "bnodes_deficit t \<le> 0"
    moreover have "0 \<le> bnodes_deficit t" unfolding d by simp
    ultimately have "bnodes_deficit t = 0" by simp
    then show "btree_height t * 4 + (bits_num t - bm_free_num t) = bt_last_table_index t + 1" using n l by simp
  qed (simp add: d)
qed

text \<open>
  The loop fills the file up to four nodes per level beside the used ones; nodes that exist already are
  left alone, and there is nothing to do when the reserve is larger.
\<close>

lemma check_reserve_ok:
  assumes b: "bits_ok t" "0 \<le> btree_height t" "btree_height t < 65536" "0 \<le> bt_last_table_index t" "bt_last_table_index t < 4294967295"
    and pages: "\<And>i. node_shape (bt_conf t) (be_page env i)"
  shows "\<exists>st t'. vdfs4_check_bnode_reserve env force t = Done (st, t') \<and> same_head t t' \<and> bm_data t' = bm_data t \<and> bits_ok t' \<and>
    bm_free_num t' = bm_free_num t \<and>
    (\<forall>i \<le> bt_last_table_index t. bt_nodes t' i = bt_nodes t i) \<and> bt_last_table_index t \<le> bt_last_table_index t' \<and>
    bt_last_table_index t' < max (bt_last_table_index t + 1) (btree_height t * 4 + bits_num t) \<and>
    (st = success \<longrightarrow> btree_height t * 4 + (bits_num t - bm_free_num t) \<le> bt_last_table_index t' + 1) \<and>
    ((\<forall>f i. be_create env f i = success) \<longrightarrow> st = success)"
proof -
  let ?l = "bt_last_table_index t" and ?e = "btree_height t * 4 + (bits_num t - bm_free_num t)"
  have fr: "0 \<le> bm_free_num t" "bm_free_num t \<le> bits_num t" "bits_num t < 2147483648"
    using b(1) filter_Not_length [of "bm_data t"] by (auto simp: bits_ok_def)
  note n = new_bnodes_num [OF b(2,3) fr b(4,5)]
  define I where "I = (\<lambda>xs (st, t'). same_head t t' \<and> bm_data t' = bm_data t \<and> bm_first_free_id t' = bm_first_free_id t \<and>
    bm_free_num t' = bm_free_num t \<and> (\<forall>i \<le> ?l. bt_nodes t' i = bt_nodes t i) \<and> ?l \<le> bt_last_table_index t' \<and>
    bt_last_table_index t' < max (?l + 1) ?e \<and>
    (\<exists>k. ?l < k \<and> xs = [k..?e - 1] \<and> (st = success \<longrightarrow> k \<le> bt_last_table_index t' + 1)) \<and>
    ((\<forall>f i. be_create env f i = success) \<longrightarrow> st = success))"
  have step: "\<exists>s'. reserve_step env force x s = Done s' \<and> I xs s'" if i: "I (x # xs) s" for x xs s
  proof -
    obtain st t1 where s: "s = (st, t1)" by (cases s)
    obtain k where k: "?l < k" "x # xs = [k..?e - 1]" "st = success \<longrightarrow> k \<le> bt_last_table_index t1 + 1"
      using i s by (auto simp: I_def)
    then have ke: "k \<le> ?e - 1" using upto_empty [of "?e - 1" k] by (metis list.discI not_le)
    then have xk: "x = k" "xs = [k + 1..?e - 1]" using k(2) upto_rec1 [of k "?e - 1"] by auto
    have u: "u32 k = k" using k(1) ke b(3,4) fr by (intro u32_id) simp_all
    have rest: "same_head t t1" "bm_data t1 = bm_data t" "bm_first_free_id t1 = bm_first_free_id t"
        "bm_free_num t1 = bm_free_num t" "\<forall>i \<le> ?l. bt_nodes t1 i = bt_nodes t i" "?l \<le> bt_last_table_index t1"
        "bt_last_table_index t1 < max (?l + 1) ?e" "(\<forall>f i. be_create env f i = success) \<longrightarrow> st = success"
      using i s by (auto simp: I_def)
    show ?thesis
    proof (cases "st = success \<and> be_create env force k = success")
      case True
      have "node_shape (bt_conf t1) ((be_page env k)\<lparr>bn_id := k\<rparr>)"
        using pages [of k] rest(1) by (simp add: node_shape_def same_head_def)
      then obtain nb where nb: "vdfs4_init_new_node_descr (bt_conf t1) ((be_page env k)\<lparr>bn_id := k\<rparr>) 0 = Done nb"
        using init_new_node_ok by blast
      define t2 where "t2 = vdfs4_mark_bnode_dirty k (set_node k nb
        ((set_node k ((be_page env k)\<lparr>bn_id := k\<rparr>) t1)\<lparr>bt_last_table_index := max (bt_last_table_index t1) k\<rparr>))"
      have "reserve_step env force x s = Done (success, t2)"
        using True nb u s xk(1)
        by (simp add: reserve_step_def vdfs4_prealloc_one_bnode_reserve_def create_bnode_def t2_def set_node_def)
      moreover have "I xs (success, t2)"
        using rest xk(2) k(1) ke
        by (auto simp: I_def t2_def vdfs4_mark_bnode_dirty_def set_node_def same_head_def intro!: exI [of _ "k + 1"])
      ultimately show ?thesis by blast
    next
      case False
      define st' where "st' = (if st \<noteq> success then st else be_create env force k)"
      have "reserve_step env force x s = Done (st', t1)" "st' \<noteq> success"
        using False u s xk(1)
        by (auto simp: reserve_step_def vdfs4_prealloc_one_bnode_reserve_def create_bnode_def st'_def split: option.splits)
      moreover have "I xs (st', t1)" using rest xk(2) k(1) \<open>st' \<noteq> success\<close> False
        by (auto simp: I_def st'_def intro!: exI [of _ "k + 1"])
      ultimately show ?thesis by blast
    qed
  qed
  have init: "I [?l + 1..?e - 1] (success, t)" using b(4) by (auto simp: I_def same_head_def intro!: exI [of _ "?l + 1"])
  obtain st t' where r: "for_each (reserve_step env force) [?l + 1..?e - 1] (success, t) = Done (st, t')" "I [] (st, t')"
    using for_each_inv [of I "[?l + 1..?e - 1]" "(success, t)" "reserve_step env force", OF init step] by auto
  have "vdfs4_check_bnode_reserve env force t = Done (st, t')"
  proof (cases "bnodes_deficit t \<le> 0")
    case True
    then have "[?l + 1..?e - 1] = []" using n(3) by simp
    then show ?thesis using r(1) True by (simp add: vdfs4_check_bnode_reserve_def)
  next
    case False
    then show ?thesis unfolding vdfs4_check_bnode_reserve_def Let_def n(2) unfolding n(1) using r(1) by simp
  qed
  moreover obtain k where "[k..?e - 1] = []" "st = success \<longrightarrow> k \<le> bt_last_table_index t' + 1" using r(2) by (auto simp: I_def)
  moreover have "bits_ok t'" using r(2) b(1) by (auto simp: I_def bits_ok_def)
  ultimately show ?thesis using r(2) fr by (auto simp: I_def)
qed

end
