(* ===== verification/Vdfs_Btree_Insert.thy ===== *)
theory Vdfs_Btree_Insert
  imports Vdfs_Btree_Alloc
begin

text \<open>
  Insertion into a tree. A record is placed in a leaf; a full node is split, and the index record of
  the new node is placed one level higher in the same way, up to a new root. Every step keeps the
  tree well-formed; when a node cannot be allocated on the way, the new node stays dangling.
\<close>

section \<open>Trees that can grow\<close>

definition store_ok :: "(bytes \<Rightarrow> bool) \<Rightarrow> vdfs4_btree \<Rightarrow> int list list \<Rightarrow> bool" where
  "store_ok valid t lv \<longleftrightarrow> tree_ok valid t lv \<and> bits_ok t \<and> 4096 \<le> node_size (bt_conf t) \<and> btree_height t < 65536 \<and>
     0 \<le> bt_last_table_index t \<and> bt_last_table_index t < 4294967295 \<and> (\<forall>i \<in> set (concat lv). i \<le> bt_last_table_index t)"

text \<open>Nodes can be read, and the memory of new pages has the size of a node.\<close>

definition env_ok :: "btree_conf \<Rightarrow> btree_env \<Rightarrow> bool" where
  "env_ok c env \<longleftrightarrow> be_rec_info env \<and> be_stack env \<and> (\<forall>i. be_read env i = success) \<and> (\<forall>i. node_shape c (be_page env i))"

text \<open>Nothing can fail while \<open>k\<close> nodes are allocated.\<close>

definition roomy :: "btree_env \<Rightarrow> nat \<Rightarrow> vdfs4_btree \<Rightarrow> bool" where
  "roomy env k t \<longleftrightarrow> (\<forall>f i. be_create env f i = success) \<and> be_todo env \<and> int k \<le> bm_free_num t"

text \<open>The nodes of the tree are as they were; new nodes may exist behind them.\<close>

definition unchanged :: "vdfs4_btree \<Rightarrow> int list list \<Rightarrow> vdfs4_btree \<Rightarrow> bool" where
  "unchanged t lv t' \<longleftrightarrow> same_head t t' \<and> bits_ok t' \<and> bm_data t' = bm_data t \<and> bm_free_num t' = bm_free_num t \<and>
     (\<forall>i \<in> set (concat lv). bt_nodes t' i = bt_nodes t i) \<and>
     bt_last_table_index t \<le> bt_last_table_index t' \<and> bt_last_table_index t' < 4294967295"

lemma store_okD:
  assumes "store_ok valid t lv"
  shows "tree_ok valid t lv" "bits_ok t" "4096 \<le> node_size (bt_conf t)" "btree_height t < 65536"
    "0 \<le> bt_last_table_index t" "bt_last_table_index t < 4294967295" "i \<in> set (concat lv) \<Longrightarrow> i \<le> bt_last_table_index t"
  using assms unfolding store_ok_def by blast+

lemma unchangedD:
  assumes "unchanged t lv t'"
  shows "same_head t t'" "bits_ok t'" "bm_data t' = bm_data t" "bm_free_num t' = bm_free_num t"
    "i \<in> set (concat lv) \<Longrightarrow> bt_nodes t' i = bt_nodes t i" "bt_last_table_index t \<le> bt_last_table_index t'" "bt_last_table_index t' < 4294967295"
  using assms unfolding unchanged_def by blast+

lemma unchanged_refl: "store_ok valid t lv \<Longrightarrow> unchanged t lv t"
  by (simp add: unchanged_def store_ok_def same_head_def)

lemma unchanged_store:
  assumes "store_ok valid t lv" "unchanged t lv t'"
  shows "store_ok valid t' lv"
proof -
  note s = store_okD [OF assms(1)] and u = unchangedD [OF assms(2)]
  have "tree_ok valid t' lv"
    using tree_okD(7) [OF s(1)] u(1,3,5) by (intro tree_ok_cong [OF s(1)]) (simp_all add: same_head_def)
  then show ?thesis using s u order_trans [OF s(7) u(6)] by (auto simp: store_ok_def same_head_def)
qed

lemma reserve_unchanged:
  assumes s: "store_ok valid t lv" and e: "env_ok (bt_conf t) env"
  shows "\<exists>st t'. vdfs4_check_bnode_reserve env force t = Done (st, t') \<and> unchanged t lv t' \<and> (roomy env k t \<longrightarrow> st = success \<and> roomy env k t')"
proof -
  note d = store_okD [OF s]
  have h: "0 \<le> btree_height t" using tree_okD(4) [OF d(1)] by simp
  have b: "bits_num t < 2147483648" using d(2) by (simp add: bits_ok_def)
  have p: "node_shape (bt_conf t) (be_page env i)" for i using e by (simp add: env_ok_def)
  obtain st t' where r: "vdfs4_check_bnode_reserve env force t = Done (st, t')" "same_head t t'" "bm_data t' = bm_data t" "bits_ok t'"
      "bm_free_num t' = bm_free_num t" "\<forall>i \<le> bt_last_table_index t. bt_nodes t' i = bt_nodes t i"
      "bt_last_table_index t \<le> bt_last_table_index t'"
      "bt_last_table_index t' < max (bt_last_table_index t + 1) (btree_height t * 4 + bits_num t)"
      "(\<forall>f i. be_create env f i = success) \<longrightarrow> st = success"
    using check_reserve_ok [OF d(2) h d(4,5,6) p, of force] by blast
  have "bt_last_table_index t' < 4294967295" using r(8) d(4,6) b by (simp add: max_def split: if_splits)
  then have "unchanged t lv t'" using r d(7) by (auto simp: unchanged_def)
  then show ?thesis using r(1,5,9) by (auto simp: roomy_def)
qed

section \<open>Placing a record\<close>

text \<open>
  A record for \<open>key\<close> has been placed behind record \<open>q\<close> of level \<open>n\<close>, which now consists of \<open>ids\<close>. Its value is
  still to be written.
\<close>

definition placed_at :: "(bytes \<Rightarrow> bool) \<Rightarrow> vdfs4_btree \<Rightarrow> int list list \<Rightarrow> nat \<Rightarrow> bytes \<Rightarrow> int \<Rightarrow> nat \<Rightarrow>
    vdfs4_btree \<Rightarrow> int list \<Rightarrow> int \<times> int \<times> int \<Rightarrow> bytes \<Rightarrow> bool" where
  "placed_at valid t lv n key nl q t' ids place r \<longleftrightarrow> same_head t t' \<and> bits_ok t' \<and>
     level_ok valid (bt_conf t) (bt_nodes t') ids \<and>
     level_recs (bt_nodes t') ids =
       take (Suc q) (level_recs (bt_nodes t) (lv ! n)) @ r # drop (Suc q) (level_recs (bt_nodes t) (lv ! n)) \<and>
     placed_key key nl r \<and> cell_at (bt_nodes t') ids place (Suc q) \<and>
     (\<forall>i \<in> set (lv ! n). hd (node_recs (bt_nodes t' i)) = hd (node_recs (bt_nodes t i))) \<and>
     (\<forall>m < length lv. m \<noteq> n \<longrightarrow> (\<forall>i \<in> set (lv ! m). bt_nodes t' i = bt_nodes t i)) \<and>
     (\<forall>i \<in> set (concat lv) \<union> set ids. i < bits_num t' \<and> bm_data t' ! nat i \<and> i \<le> bt_last_table_index t') \<and>
     0 \<le> bt_last_table_index t' \<and> bt_last_table_index t' < 4294967295"

lemma u16_len: "key_ok key nl \<Longrightarrow> u16 nl = nl"
  by (intro u16_id) (auto simp: key_ok_def)

lemma tree_node_levels: "tree_ok valid t lv \<Longrightarrow> n < length lv \<Longrightarrow> i \<in> set (lv ! n) \<Longrightarrow> tree_node (bt_conf t) (bt_nodes t) i"
  using tree_okD(2) by (fastforce simp: level_ok_def)

lemma concat_disjoint:
  "distinct (concat xs) \<Longrightarrow> m < length xs \<Longrightarrow> n < length xs \<Longrightarrow> m \<noteq> n \<Longrightarrow> i \<in> set (xs ! m) \<Longrightarrow> i \<notin> set (xs ! n)"
proof (induction xs arbitrary: m n)
  case (Cons x xs)
  have in_concat: "j \<in> set (concat xs)" if "j \<in> set (xs ! a)" "a < length xs" for j a using that by auto
  show ?case
  proof (cases m)
    case 0
    then obtain n' where "n = Suc n'" using Cons.prems(4) by (cases n) auto
    then show ?thesis using Cons.prems 0 in_concat [of i n'] by (auto simp del: set_concat)
  next
    case (Suc m')
    then show ?thesis
    proof (cases n)
      case 0
      then show ?thesis using Cons.prems Suc in_concat [of i m'] by (auto simp del: set_concat)
    next
      case (Suc n')
      then show ?thesis using Cons.IH [of m' n'] Cons.prems \<open>m = Suc m'\<close> by simp
    qed
  qed
qed simp

lemma level_disjoint:
  assumes "tree_ok valid t lv" "n < length lv" "m < length lv" "m \<noteq> n" "i \<in> set (lv ! m)"
  shows "i \<notin> set (lv ! n)"
  using concat_disjoint [OF tree_okD(6) [OF assms(1)] assms(3,2,4,5)] .

context tree_keys
begin

lemma place_in_node:
  assumes s: "store_ok valid t lv" and c: "comp_fn (bt_conf t) = cmp" and n: "n < length lv"
    and x: "lv ! n = pre @ x # post" and p: "p < length (node_recs (bt_nodes t x))"
    and f: "found_at cmp (level_recs (bt_nodes t) (lv ! n)) key (length (level_recs (bt_nodes t) pre) + p)"
    and ne: "cmp (node_recs (bt_nodes t x) ! p) key \<noteq> 0" and k: "key_ok key nl" "valid key"
    and full: "\<not> is_node_full (bt_nodes t x) nl"
  shows "\<exists>b r off. insert_key_into_bnode (bt_conf t) (bt_nodes t x) key nl (int p + 1) = Done (Inr (int p + 1, off), b) \<and>
    placed_at valid t lv n key nl (length (level_recs (bt_nodes t) pre) + p) (vdfs4_mark_bnode_dirty x (set_node x b t))
      (lv ! n) (x, int p + 1, off) r"
proof -
  note d = store_okD [OF s]
  let ?ns = "bt_nodes t" and ?c = "bt_conf t" and ?q = "length (level_recs (bt_nodes t) pre) + p"
  have xin: "x \<in> set (lv ! n)" using x by simp
  have lo: "level_ok valid ?c ?ns (pre @ x # post)" using tree_okD(2) [OF d(1) n] x by simp
  have tn: "tree_node ?c ?ns x" using tree_node_levels [OF d(1) n xin] .
  obtain b r where b: "insert_key_into_bnode ?c (?ns x) key nl (int p + 1) = Done (Inr (int p + 1, bn_offs b ! Suc p), b)" "node_ok ?c b"
      "node_recs b = take (Suc p) (node_recs (?ns x)) @ r # drop (Suc p) (node_recs (?ns x))" "placed_key key nl r" "node_head b = node_head (?ns x)"
    using node_insert [OF _ k(1) p full, of ?c] tn unfolding tree_node_def by blast
  define ns' where "ns' = ?ns(x := b)"
  have sk: "same_key key r" using placed_same_key [OF b(4)] k(1) by (simp add: key_ok_def)
  have dx: "x \<notin> set (pre @ post)" using tree_okD(8) [OF d(1) n] x by simp
  have rl: "length r \<le> 600" using b(4) k(1) by (simp add: placed_key_def key_ok_def)
  have tn': "tree_node ?c ns' x"
  proof -
    have "\<forall>y \<in> set (node_recs b). length y \<le> 600"
      using tn rl unfolding b(3) tree_node_def by (auto dest: in_set_takeD in_set_dropD)
    moreover have "node_recs b \<noteq> []" using b(3) by simp
    moreover have "bn_id b = x" "d_node_id b = x" "0 < x" using tn b(5) by (auto simp: tree_node_def node_head_def)
    ultimately show ?thesis using b(2) by (simp add: tree_node_def ns'_def)
  qed
  have rs: "level_recs ?ns pre @ node_recs (ns' x) @ level_recs ?ns post =
      take (Suc ?q) (level_recs ?ns (lv ! n)) @ r # drop (Suc ?q) (level_recs ?ns (lv ! n))"
  proof -
    have "level_recs ?ns (lv ! n) = level_recs ?ns pre @ node_recs (?ns x) @ level_recs ?ns post" "ns' x = b"
      using x by (simp_all add: ns'_def)
    then show ?thesis using insert_mid [OF p, of "level_recs ?ns pre" r "level_recs ?ns post"] b(3) by (simp only:)
  qed
  have ne': "cmp (level_recs ?ns (lv ! n) ! ?q) key \<noteq> 0" using ne p x by (simp add: nth_append)
  have "ordered_recs valid cmp (level_recs ?ns (lv ! n))" using lo c x by (simp add: level_ok_def)
  from ordered_insert [OF this f ne' k(2) sk]
  have o: "ordered_recs valid (comp_fn ?c) (level_recs ?ns pre @ node_recs (ns' x) @ level_recs ?ns post)" unfolding rs c .
  have same: "ns' i = ?ns i" if "i \<in> set (pre @ post)" for i using that dx by (auto simp: ns'_def)
  have nh: "node_head (ns' x) = node_head (?ns x)" using b(5) by (simp add: ns'_def)
  have lr: "level_ok valid ?c ns' (pre @ x # post)"
      "level_recs ns' (pre @ x # post) = level_recs ?ns pre @ node_recs (ns' x) @ level_recs ?ns post"
    using level_replace [where ns' = ns', OF lo dx same tn' nh o] by blast+
  have "level_recs ns' pre = level_recs ?ns pre" using same by (intro level_recs_cong) simp
  then have cell: "cell_at ns' (lv ! n) (x, int p + 1, bn_offs b ! Suc p) (Suc ?q)"
    unfolding cell_at_def prod.case using x p b(3)
    by (intro exI [of _ pre] exI [of _ post] exI [of _ "Suc p"]) (simp add: ns'_def)
  have hds: "\<forall>i \<in> set (lv ! n). hd (node_recs (ns' i)) = hd (node_recs (?ns i))"
    using b(3) p by (cases "node_recs (?ns x)") (auto simp: ns'_def)
  have other: "\<forall>m < length lv. m \<noteq> n \<longrightarrow> (\<forall>i \<in> set (lv ! m). ns' i = ?ns i)"
    using level_disjoint [OF d(1) n] xin by (auto simp: ns'_def)
  have bits: "\<forall>i \<in> set (concat lv) \<union> set (lv ! n). i < bits_num t \<and> bm_data t ! nat i \<and> i \<le> bt_last_table_index t"
    using tree_okD(7) [OF d(1)] d(7) in_levels [OF _ n] by blast
  have "placed_at valid t lv n key nl ?q (vdfs4_mark_bnode_dirty x (set_node x b t)) (lv ! n) (x, int p + 1, bn_offs b ! Suc p) r"
    unfolding placed_at_def vdfs4_mark_bnode_dirty_def set_node_def
    using d(2,5,6) lr x rs b(4) cell hds other bits by (simp add: same_head_def bits_ok_def ns'_def)
  then show ?thesis using b(1) by blast
qed

end

text \<open>The split distributes the records and links the new node in.\<close>

definition split_left :: "bnode \<Rightarrow> bnode \<Rightarrow> int \<Rightarrow> bnode" where
  "split_left orig l y = l\<lparr>d_prev := d_prev orig, d_next := y\<rparr>"

definition split_right :: "bnode \<Rightarrow> bnode \<Rightarrow> int \<Rightarrow> bnode" where
  "split_right orig r x = r\<lparr>d_prev := x, d_next := d_next orig\<rparr>"

definition split_nodes :: "(int \<Rightarrow> bnode) \<Rightarrow> int \<Rightarrow> int \<Rightarrow> bnode \<Rightarrow> bnode \<Rightarrow> int list \<Rightarrow> int \<Rightarrow> bnode" where
  "split_nodes ns x y l r post =
     (let ns1 = ns(x := split_left (ns x) l y, y := split_right (ns x) r x) in
      case post of [] \<Rightarrow> ns1 | z # _ \<Rightarrow> ns1(z := (ns1 z)\<lparr>d_prev := y\<rparr>))"

lemma split_links [simp]:
  "node_recs (split_left orig l y) = node_recs l" "node_ok c (split_left orig l y) = node_ok c l" "bn_offs (split_left orig l y) = bn_offs l"
  "node_recs (split_right orig r x) = node_recs r" "node_ok c (split_right orig r x) = node_ok c r" "bn_offs (split_right orig r x) = bn_offs r"
  by (simp_all add: split_left_def split_right_def)

lemma split_bnode_run:
  assumes l: "node_ok (bt_conf t) (bt_nodes t x)" and r: "node_shape (bt_conf t) (bt_nodes t y)" and k: "key_ok key nl"
    and ns: "4096 \<le> node_size (bt_conf t)" and small: "\<forall>u \<in> set (node_recs (bt_nodes t x)). length u \<le> 600"
    and full: "is_node_full (bt_nodes t x) nl" and p: "p < length (node_recs (bt_nodes t x))"
    and ids: "bn_id (bt_nodes t x) = x" "bn_id (bt_nodes t y) = y" "x \<noteq> y"
    and post: "d_next (bt_nodes t x) = (case post of [] \<Rightarrow> 0 | z # _ \<Rightarrow> z)" "0 \<notin> set post"
    and rd: "\<And>z. z \<in> set post \<Longrightarrow> be_read env z = success \<and> z < bits_num t \<and> bm_data t ! nat z"
  shows "\<exists>lb rb u t'. split_bnode env t x y key nl (int p + 1) = Done (success, Some (split_place (Suc p) lb rb), t') \<and>
    node_ok (bt_conf t) lb \<and> node_ok (bt_conf t) rb \<and> node_recs lb \<noteq> [] \<and> node_recs rb \<noteq> [] \<and>
    placed_key key nl u \<and> node_recs lb @ node_recs rb = take (Suc p) (node_recs (bt_nodes t x)) @ u # drop (Suc p) (node_recs (bt_nodes t x)) \<and>
    bn_id lb = x \<and> d_node_id lb = x \<and> bn_id rb = y \<and> d_node_id rb = y \<and>
    bt_nodes t' = split_nodes (bt_nodes t) x y lb rb post \<and> same_head t t' \<and> bm_data t' = bm_data t \<and> bm_free_num t' = bm_free_num t \<and>
    bm_first_free_id t' = bm_first_free_id t \<and> bt_last_table_index t' = bt_last_table_index t"
proof -
  have sp: "Suc p \<le> length (node_recs (bt_nodes t x))" using p by simp
  obtain st u where st: "split_records (bt_conf t) (bt_nodes t x) (bt_nodes t y) key nl (int (Suc p)) = Done (success, st)"
      "node_ok (bt_conf t) (sp_left st)" "node_ok (bt_conf t) (sp_right st)" "node_recs (sp_left st) \<noteq> []" "node_recs (sp_right st) \<noteq> []"
      "placed_key key nl u"
      "node_recs (sp_left st) @ node_recs (sp_right st) = take (Suc p) (node_recs (bt_nodes t x)) @ u # drop (Suc p) (node_recs (bt_nodes t x))"
      "node_head (sp_left st) = (bn_id (bt_nodes t x), bn_id (bt_nodes t x), 0, 0, d_type (bt_nodes t x))"
      "node_head (sp_right st) = (bn_id (bt_nodes t y), bn_id (bt_nodes t y), 0, 0, d_type (bt_nodes t x))"
      "sp_res st = Some (split_place (Suc p) (sp_left st) (sp_right st))"
    using split_records_ok [OF l r k ns small full sp] by blast
  let ?l = "sp_left st" and ?r = "sp_right st" and ?o = "bt_nodes t x"
  have h: "bn_id ?l = x" "d_node_id ?l = x" "bn_id ?r = y" "d_node_id ?r = y" using st(8,9) ids by (simp_all add: node_head_def)
  define t1 where "t1 = set_node y (split_right ?o ?r x) (set_node x (split_left ?o ?l y) t)"
  define t' where "t' = (case post of [] \<Rightarrow> t1
    | z # _ \<Rightarrow> vdfs4_mark_bnode_dirty z (set_node z ((bt_nodes t1 z)\<lparr>d_prev := y\<rparr>) t1))"
  have run: "split_bnode env t x y key nl (int p + 1) = Done (success, Some (split_place (Suc p) ?l ?r), t')"
  proof (cases post)
    case Nil
    have e: "int p + 1 = int (Suc p)" by simp
    show ?thesis unfolding split_bnode_def Let_def e st(1)
      using Nil post(1) st(10) h
      by (simp add: INVALID_NODE_ID_def t'_def t1_def split_left_def split_right_def del: of_nat_Suc)
  next
    case (Cons z zs)
    have e: "int p + 1 = int (Suc p)" by simp
    have z: "d_next ?o = z" "z \<noteq> 0" using post Cons by auto
    have b: "bm_data t1 = bm_data t" by (simp add: t1_def set_node_def)
    have g: "vdfs4_get_bnode env t1 z = success" using rd [of z] Cons b by (simp add: vdfs4_get_bnode_def)
    have t1e: "set_node y (?r\<lparr>d_prev := d_node_id ?l, d_next := d_next ?o\<rparr>) (set_node x (?l\<lparr>d_prev := d_prev ?o, d_next := d_node_id ?r\<rparr>) t) = t1"
      by (simp add: t1_def split_left_def split_right_def h)
    show ?thesis unfolding split_bnode_def Let_def e st(1) bind_outcome_simps prod.case t1e
      using g z st(10) h Cons by (simp add: INVALID_NODE_ID_def t'_def)
  qed
  have "bt_nodes t' = split_nodes (bt_nodes t) x y ?l ?r post"
    by (auto simp: t'_def t1_def split_nodes_def set_node_def vdfs4_mark_bnode_dirty_def Let_def split: list.split)
  moreover have "same_head t t' \<and> bm_data t' = bm_data t \<and> bm_free_num t' = bm_free_num t \<and>
      bm_first_free_id t' = bm_first_free_id t \<and> bt_last_table_index t' = bt_last_table_index t"
    by (auto simp: t'_def t1_def set_node_def vdfs4_mark_bnode_dirty_def same_head_def split: list.split)
  ultimately show ?thesis using run st(2-7) h by blast
qed

lemma split_nodes_at:
  assumes "distinct (pre @ x # post)" "y \<notin> set (pre @ x # post)"
  shows "split_nodes ns x y l r post x = split_left (ns x) l y" "split_nodes ns x y l r post y = split_right (ns x) r x"
    "i \<in> set pre \<Longrightarrow> split_nodes ns x y l r post i = ns i"
    "i \<in> set post \<Longrightarrow> split_nodes ns x y l r post i = (if i = hd post then (ns i)\<lparr>d_prev := y\<rparr> else ns i)"
    "i \<notin> set (pre @ x # post) \<Longrightarrow> i \<noteq> y \<Longrightarrow> split_nodes ns x y l r post i = ns i"
  using assms by (auto simp: split_nodes_def Let_def split: list.split)

lemma split_cell:
  assumes r: "node_recs (ns x) = node_recs l" "bn_offs (ns x) = bn_offs l" "node_recs (ns y) = node_recs r" "bn_offs (ns y) = bn_offs r"
    and p: "Suc p < length (node_recs l) + length (node_recs r)"
  shows "cell_at ns (pre @ x # y # post) (case split_place (Suc p) l r of (b, pos, off) \<Rightarrow> (if b then y else x, pos, off))
    (length (level_recs ns pre) + Suc p)"
proof (cases "Suc p < length (node_recs l)")
  case True
  then have e: "split_place (Suc p) l r = (False, int (Suc p), bn_offs l ! Suc p)" by (simp add: split_place_def Let_def)
  show ?thesis unfolding e cell_at_def prod.case
    using True r by (intro exI [of _ pre] exI [of _ "y # post"] exI [of _ "Suc p"]) simp
next
  case False
  let ?p = "Suc p - length (node_recs l)"
  have e: "split_place (Suc p) l r = (True, int ?p, bn_offs r ! ?p)" using False by (simp add: split_place_def Let_def)
  show ?thesis unfolding e cell_at_def prod.case
    using False r p by (intro exI [of _ "pre @ [x]"] exI [of _ post] exI [of _ ?p]) simp
qed

context tree_keys
begin

lemma split_placed:
  assumes s: "store_ok valid t lv" and c: "comp_fn (bt_conf t) = cmp" and e: "env_ok (bt_conf t) env" and n: "n < length lv"
    and x: "lv ! n = pre @ x # post" and p: "p < length (node_recs (bt_nodes t x))"
    and f: "found_at cmp (level_recs (bt_nodes t) (lv ! n)) key (length (level_recs (bt_nodes t) pre) + p)"
    and ne: "cmp (node_recs (bt_nodes t x) ! p) key \<noteq> 0" and k: "key_ok key nl" "valid key"
    and full: "is_node_full (bt_nodes t x) nl"
    and a: "bits_ok t2" "0 < y" "y < bits_num t" "\<not> bm_data t ! nat y" "bm_data t2 = (bm_data t)[nat y := True]" "same_head t t2"
      "bt_nodes t2 = (bt_nodes t)(y := (be_page env y)\<lparr>bn_id := y\<rparr>)" "bt_last_table_index t2 = max (bt_last_table_index t) y"
  shows "\<exists>res t3 r. split_bnode env t2 x y key nl (int p + 1) = Done (success, Some res, t3) \<and>
    placed_at valid t lv n key nl (length (level_recs (bt_nodes t) pre) + p) t3 (pre @ x # y # post)
      (case res of (b, pos, off) \<Rightarrow> (if b then y else x, pos, off)) r \<and>
    bm_free_num t3 = bm_free_num t2 \<and> y \<notin> set (concat lv)"
proof -
  note d = store_okD [OF s]
  let ?ns = "bt_nodes t" and ?c = "bt_conf t" and ?q = "length (level_recs (bt_nodes t) pre) + p"
  have yn: "y \<notin> set (concat lv)" using tree_okD(7) [OF d(1), of y] a(4) by blast
  have xin: "x \<in> set (lv ! n)" using x by simp
  have yl: "y \<notin> set (pre @ x # post)" using yn in_levels [of y lv n] n x by auto
  have di: "distinct (pre @ x # post)" using tree_okD(8) [OF d(1) n] x by simp
  have lo: "level_ok valid ?c ?ns (pre @ x # post)" using tree_okD(2) [OF d(1) n] x by simp
  have tn: "tree_node ?c ?ns x" using tree_node_levels [OF d(1) n xin] .
  have xy: "bt_nodes t2 x = ?ns x" "x \<noteq> y" using a(7) yl by auto
  have c2: "bt_conf t2 = ?c" using a(6) by (simp add: same_head_def)
  have nx: "d_next (?ns x) = (case post of [] \<Rightarrow> 0 | z # _ \<Rightarrow> z)" using lo linked_next unfolding level_ok_def by blast
  have z0: "0 \<notin> set post" using lo by (auto simp: level_ok_def tree_node_def)
  have rd: "be_read env z = success \<and> z < bits_num t2 \<and> bm_data t2 ! nat z" if "z \<in> set post" for z
  proof -
    have "z \<in> set (concat lv)" using in_levels [of z lv n] that x n by simp
    then have "z < bits_num t \<and> bm_data t ! nat z" using tree_okD(7) [OF d(1)] by blast
    then show ?thesis using e a(4,5) by (cases "nat z = nat y") (auto simp: env_ok_def nth_list_update)
  qed
  have sh: "node_shape ?c (bt_nodes t2 y)" "bn_id (bt_nodes t2 y) = y" using e a(7) by (simp_all add: env_ok_def node_shape_def)
  have tnd: "node_ok ?c (?ns x)" "\<forall>u \<in> set (node_recs (?ns x)). length u \<le> 600" "bn_id (?ns x) = x" "0 < x"
    using tn by (simp_all add: tree_node_def)
  obtain lb rb u t3 where sp: "split_bnode env t2 x y key nl (int p + 1) = Done (success, Some (split_place (Suc p) lb rb), t3)"
      "node_ok ?c lb" "node_ok ?c rb" "node_recs lb \<noteq> []" "node_recs rb \<noteq> []" "placed_key key nl u"
      "node_recs lb @ node_recs rb = take (Suc p) (node_recs (?ns x)) @ u # drop (Suc p) (node_recs (?ns x))"
      "bn_id lb = x" "d_node_id lb = x" "bn_id rb = y" "d_node_id rb = y"
      "bt_nodes t3 = split_nodes (bt_nodes t2) x y lb rb post" "same_head t2 t3" "bm_data t3 = bm_data t2" "bm_free_num t3 = bm_free_num t2"
      "bm_first_free_id t3 = bm_first_free_id t2" "bt_last_table_index t3 = bt_last_table_index t2"
    using split_bnode_run [of t2 x y key nl p post env, unfolded c2 xy(1), OF tnd(1) sh(1) k(1) d(3) tnd(2) full p tnd(3) sh(2) xy(2) nx z0 rd]
    by blast
  define ns' where "ns' = bt_nodes t3"
  note at = split_nodes_at [OF di yl, where ns = "bt_nodes t2" and l = lb and r = rb, folded sp(12) ns'_def, unfolded xy(1)]
  have old: "bt_nodes t2 i = ?ns i" if "i \<in> set (concat lv)" for i using that yn a(7) by auto
  have inl: "i \<in> set (concat lv)" if "i \<in> set (pre @ x # post)" for i using in_levels [of i lv n] n x that by simp
  have pre: "ns' i = ?ns i" if "i \<in> set pre" for i using at(3) [OF that] old [OF inl, of i] that by simp
  have post: "ns' i = (if i = hd post then (?ns i)\<lparr>d_prev := y\<rparr> else ?ns i)" if "i \<in> set post" for i
  proof -
    have "bt_nodes t2 i = ?ns i" using old [OF inl, of i] that by simp
    then show ?thesis using at(4) [OF that] by (simp only:)
  qed
  have sk: "same_key key u" using placed_same_key [OF sp(6)] k(1) by (simp add: key_ok_def)
  have ul: "length u \<le> 600" using sp(6) k(1) by (simp add: placed_key_def key_ok_def)
  have small: "\<forall>v \<in> set (node_recs lb @ node_recs rb). length v \<le> 600"
    using tnd(2) ul unfolding sp(7) by (auto dest: in_set_takeD in_set_dropD)
  have tn': "tree_node ?c ns' x" "tree_node ?c ns' y"
    using sp(2-5,8-11) small tnd(4) a(2) at(1,2) by (auto simp: tree_node_def split_left_def split_right_def)
  have lk: "d_prev (ns' x) = d_prev (?ns x)" "d_next (ns' x) = y" "d_prev (ns' y) = x" "d_next (ns' y) = d_next (?ns x)"
    using at(1,2) by (simp_all add: split_left_def split_right_def)
  have recs: "node_recs (ns' x) = node_recs lb" "node_recs (ns' y) = node_recs rb" "bn_offs (ns' x) = bn_offs lb" "bn_offs (ns' y) = bn_offs rb"
    using at(1,2) by simp_all
  have rs: "level_recs ?ns pre @ node_recs (ns' x) @ node_recs (ns' y) @ level_recs ?ns post =
      take (Suc ?q) (level_recs ?ns (lv ! n)) @ u # drop (Suc ?q) (level_recs ?ns (lv ! n))"
  proof -
    have "level_recs ?ns (lv ! n) = level_recs ?ns pre @ node_recs (?ns x) @ level_recs ?ns post" using x by simp
    then show ?thesis
      using insert_mid [OF p, of "level_recs ?ns pre" u "level_recs ?ns post", folded sp(7)] recs(1,2) by (simp only: append_assoc)
  qed
  have ne': "cmp (level_recs ?ns (lv ! n) ! ?q) key \<noteq> 0" using ne p x by (simp add: nth_append)
  have "ordered_recs valid cmp (level_recs ?ns (lv ! n))" using lo c x by (simp add: level_ok_def)
  from ordered_insert [OF this f ne' k(2) sk]
  have o: "ordered_recs valid (comp_fn ?c) (level_recs ?ns pre @ node_recs (ns' x) @ node_recs (ns' y) @ level_recs ?ns post)" unfolding rs c .
  note lr = level_split_ok [where ns' = ns', OF lo di yl pre post tn' lk o]
  have len: "length (node_recs lb) + length (node_recs rb) = Suc (length (node_recs (?ns x)))"
    using arg_cong [OF sp(7), of length] p by simp
  have "level_recs ns' pre = level_recs ?ns pre" using pre by (intro level_recs_cong) simp
  then have cell: "cell_at ns' (pre @ x # y # post) (case split_place (Suc p) lb rb of (b, pos, off) \<Rightarrow> (if b then y else x, pos, off)) (Suc ?q)"
    using split_cell [of ns' x lb y rb p pre post] recs p len by simp
  have hx: "hd (node_recs lb) = hd (node_recs (?ns x))"
  proof -
    have "hd (node_recs lb) = hd (node_recs lb @ node_recs rb)" using sp(4) by simp
    also have "\<dots> = hd (node_recs (?ns x))" unfolding sp(7) using p by (cases "node_recs (?ns x)") auto
    finally show ?thesis .
  qed
  have hds: "\<forall>i \<in> set (lv ! n). hd (node_recs (ns' i)) = hd (node_recs (?ns i))"
    using hx recs(1) pre post x by auto
  have other: "ns' i = ?ns i" if "m < length lv" "m \<noteq> n" "i \<in> set (lv ! m)" for m i
  proof -
    have "i \<notin> set (pre @ x # post)" using level_disjoint [OF d(1) n that] x by simp
    moreover have "i \<in> set (concat lv)" "i \<noteq> y" using in_levels [OF that(3,1)] yn by auto
    ultimately show ?thesis using at(5) [of i] old [of i] by simp
  qed
  have bits: "i < bits_num t3 \<and> bm_data t3 ! nat i \<and> i \<le> bt_last_table_index t3" if "i \<in> set (concat lv) \<union> set (pre @ x # y # post)" for i
  proof (cases "i = y")
    case True
    then show ?thesis using a sp(14,17) by simp
  next
    case False
    then have "i \<in> set (concat lv)" using that inl [of i] by auto
    then have "i < bits_num t \<and> bm_data t ! nat i" "i \<le> bt_last_table_index t" using tree_okD(7) [OF d(1)] d(7) by blast+
    then show ?thesis using a(4,5,8) sp(14,17) by (cases "nat i = nat y") (auto simp: nth_list_update)
  qed
  have "y < 2147483648" using a(3) d(2) by (simp add: bits_ok_def)
  then have li: "0 \<le> bt_last_table_index t3" "bt_last_table_index t3 < 4294967295" using d(5,6) a(8) sp(17) by simp_all
  have bo: "bits_ok t3" using a(1) sp(14-16) by (simp add: bits_ok_def)
  have sh3: "same_head t t3" using a(6) sp(13) by (simp add: same_head_def)
  have "placed_at valid t lv n key nl ?q t3 (pre @ x # y # post) (case split_place (Suc p) lb rb of (b, pos, off) \<Rightarrow> (if b then y else x, pos, off)) u"
    unfolding placed_at_def using sh3 bo lr rs sp(6) cell hds other bits li unfolding ns'_def by metis
  then show ?thesis using sp(1,15) yn by blast
qed

end

lemma placed_at_dirty [simp]: "placed_at valid t lv n key nl q (vdfs4_mark_bnode_dirty i t') ids place r = placed_at valid t lv n key nl q t' ids place r"
  by (simp add: placed_at_def vdfs4_mark_bnode_dirty_def same_head_def bits_ok_def)

lemma dirty_simps [simp]:
  "bm_free_num (vdfs4_mark_bnode_dirty i t) = bm_free_num t" "root_bnode_id (vdfs4_mark_bnode_dirty i t) = root_bnode_id t"
  "btree_height (vdfs4_mark_bnode_dirty i t) = btree_height t" "bt_nodes (vdfs4_mark_bnode_dirty i t) = bt_nodes t"
  "bt_conf (vdfs4_mark_bnode_dirty i t) = bt_conf t" "bm_data (vdfs4_mark_bnode_dirty i t) = bm_data t"
  "bt_last_table_index (vdfs4_mark_bnode_dirty i t) = bt_last_table_index t" "bits_ok (vdfs4_mark_bnode_dirty i t) = bits_ok t"
  by (simp_all add: vdfs4_mark_bnode_dirty_def bits_ok_def)

lemma placed_unchanged:
  assumes u: "unchanged t lv t1" and n: "n < length lv" and p: "placed_at valid t1 lv n key nl q t' ids place r"
  shows "placed_at valid t lv n key nl q t' ids place r"
proof -
  have e: "bt_nodes t1 i = bt_nodes t i" if "m < length lv" "i \<in> set (lv ! m)" for m i
    using unchangedD(5) [OF u in_levels [OF that(2,1)]] .
  have "level_recs (bt_nodes t1) (lv ! n) = level_recs (bt_nodes t) (lv ! n)" using e [OF n] by (intro level_recs_cong) simp
  moreover have "bt_conf t1 = bt_conf t" "root_bnode_id t1 = root_bnode_id t" "btree_height t1 = btree_height t"
    using unchangedD(1) [OF u] by (simp_all add: same_head_def)
  ultimately show ?thesis using p e e [OF n] unfolding placed_at_def same_head_def by simp
qed

lemma level_recs_unchanged:
  assumes "unchanged t lv t1" "n < length lv" "set ids \<subseteq> set (lv ! n)"
  shows "level_recs (bt_nodes t1) ids = level_recs (bt_nodes t) ids"
  using unchangedD(5) [OF assms(1)] in_levels [OF _ assms(2)] assms(3) by (intro level_recs_cong) (auto simp del: set_concat)

context tree_keys
begin

lemma place_by_split_ok:
  assumes s: "store_ok valid t lv" and c: "comp_fn (bt_conf t) = cmp" and e: "env_ok (bt_conf t) env" and n: "n < length lv"
    and x: "lv ! n = pre @ x # post" and p: "p < length (node_recs (bt_nodes t x))"
    and f: "found_at cmp (level_recs (bt_nodes t) (lv ! n)) key (length (level_recs (bt_nodes t) pre) + p)"
    and ne: "cmp (node_recs (bt_nodes t x) ! p) key \<noteq> 0" and k: "key_ok key nl" "valid key"
    and full: "is_node_full (bt_nodes t x) nl" and par: "parent_item t stack = Done par"
  shows "(\<exists>err t1. place_by_split env t stack x (int p) key nl force = Done (Inl err, [], t1) \<and> unchanged t lv t1 \<and> \<not> roomy env 1 t) \<or>
    (\<exists>place r t1 y. place_by_split env t stack x (int p) key nl force =
        Done (Inr place, put_add_index_work env par y (root_bnode_id t) [], t1) \<and>
      placed_at valid t lv n key nl (length (level_recs (bt_nodes t) pre) + p) t1 (pre @ x # y # post) place r \<and>
      y \<notin> set (concat lv) \<and> bm_free_num t1 = bm_free_num t - 1)"
proof -
  obtain st t1 where r1: "vdfs4_check_bnode_reserve env force t = Done (st, t1)" "unchanged t lv t1"
      "roomy env 1 t \<longrightarrow> st = success \<and> roomy env 1 t1"
    using reserve_unchanged [OF s e] by blast
  show ?thesis
  proof (cases st)
    case (Some err)
    then have "place_by_split env t stack x (int p) key nl force = Done (Inl err, [], t1)" by (simp add: place_by_split_def r1(1))
    then show ?thesis using r1(2,3) Some by blast
  next
    case None
    have s1: "store_ok valid t1 lv" using unchanged_store [OF s r1(2)] .
    have h: "bt_conf t1 = bt_conf t" "root_bnode_id t1 = root_bnode_id t" "btree_height t1 = btree_height t"
      using unchangedD(1) [OF r1(2)] by (simp_all add: same_head_def)
    have nx: "bt_nodes t1 x = bt_nodes t x" using unchangedD(5) [OF r1(2) in_levels [OF _ n]] x by simp
    note lr = level_recs_unchanged [OF r1(2) n]
    have lrs: "level_recs (bt_nodes t1) (lv ! n) = level_recs (bt_nodes t) (lv ! n)" "level_recs (bt_nodes t1) pre = level_recs (bt_nodes t) pre"
      using lr [of "lv ! n"] lr [of pre] x by auto
    consider err where "vdfs4_alloc_new_bnode env t1 = Done (Inl err, t1)"
      | y t2 where "vdfs4_alloc_new_bnode env t1 = Done (Inr y, t2)" "0 < y" "y < bits_num t1" "\<not> bm_data t1 ! nat y"
        "bits_ok t2" "bm_data t2 = (bm_data t1)[nat y := True]" "same_head t1 t2"
        "bt_nodes t2 = (bt_nodes t1)(y := (be_page env y)\<lparr>bn_id := y\<rparr>)"
        "bt_last_table_index t2 = max (bt_last_table_index t1) y" "bm_free_num t2 = bm_free_num t1 - 1"
      using alloc_new_bnode_ok(1) [OF unchangedD(2) [OF r1(2)], of env] by blast
    then show ?thesis
    proof cases
      case (1 err)
      then have "\<not> roomy env 1 t1" using alloc_new_bnode_ok(2) [OF unchangedD(2) [OF r1(2)], of env] by (auto simp: roomy_def)
      moreover have "place_by_split env t stack x (int p) key nl force = Done (Inl err, [], t1)" by (simp add: place_by_split_def r1(1) None 1)
      ultimately show ?thesis using r1(2,3) by blast
    next
      case (2 y t2)
      obtain res t3 r where sp: "split_bnode env t2 x y key nl (int p + 1) = Done (success, Some res, t3)"
          "placed_at valid t1 lv n key nl (length (level_recs (bt_nodes t) pre) + p) t3 (pre @ x # y # post)
            (case res of (b, pos, off) \<Rightarrow> (if b then y else x, pos, off)) r"
          "bm_free_num t3 = bm_free_num t2" "y \<notin> set (concat lv)"
        using split_placed [of t1 lv env n pre x post p key nl t2 y, unfolded h nx lrs, OF s1 c e n x p f ne k full 2(5,2-4,6-9)] by blast
      obtain b pos off where res: "res = (b, pos, off)" by (cases res)
      have h3: "root_bnode_id t3 = root_bnode_id t" "btree_height t3 = btree_height t"
        using sp(2) h by (simp_all add: placed_at_def same_head_def)
      define t4 where "t4 = vdfs4_mark_bnode_dirty y (vdfs4_mark_bnode_dirty x t3)"
      have "btree_height t4 = btree_height t" using h3 by (simp add: t4_def)
      then have pi: "parent_item t4 stack = Done par" using par unfolding parent_item_def by (simp only:)
      have "place_by_split env t stack x (int p) key nl force =
          Done (Inr (if b then y else x, pos, off), put_add_index_work env par y (root_bnode_id t) [], t4)"
        using pi h3 by (simp add: place_by_split_def r1(1) None 2(1) sp(1) res Let_def t4_def)
      moreover have "placed_at valid t lv n key nl (length (level_recs (bt_nodes t) pre) + p) t4 (pre @ x # y # post) (if b then y else x, pos, off) r"
        using placed_unchanged [OF r1(2) n sp(2)] res by (simp add: t4_def)
      moreover have "bm_free_num t4 = bm_free_num t - 1" using sp(3) 2(10) unchangedD(4) [OF r1(2)] by (simp add: t4_def)
      ultimately show ?thesis using sp(4) by blast
    qed
  qed
qed

lemma place_key_ok:
  assumes s: "store_ok valid t lv" and c: "comp_fn (bt_conf t) = cmp" and e: "env_ok (bt_conf t) env" and n: "n < length lv"
    and x: "lv ! n = pre @ x # post" and p: "p < length (node_recs (bt_nodes t x))"
    and f: "found_at cmp (level_recs (bt_nodes t) (lv ! n)) key (length (level_recs (bt_nodes t) pre) + p)"
    and k: "key_ok key nl" "valid key" and par: "parent_item t stack = Done par"
  shows "if cmp (node_recs (bt_nodes t x) ! p) key = 0 then place_key_in_bnode env t stack x (int p) key nl force = Done (Inl EEXIST, [], t)
    else (\<exists>err t1. place_key_in_bnode env t stack x (int p) key nl force = Done (Inl err, [], t1) \<and> unchanged t lv t1 \<and> \<not> roomy env 1 t) \<or>
    (\<exists>place r t1. place_key_in_bnode env t stack x (int p) key nl force = Done (Inr place, [], t1) \<and>
      placed_at valid t lv n key nl (length (level_recs (bt_nodes t) pre) + p) t1 (lv ! n) place r \<and> bm_free_num t1 = bm_free_num t) \<or>
    (\<exists>place r t1 y. place_key_in_bnode env t stack x (int p) key nl force =
        Done (Inr place, put_add_index_work env par y (root_bnode_id t) [], t1) \<and>
      placed_at valid t lv n key nl (length (level_recs (bt_nodes t) pre) + p) t1 (pre @ x # y # post) place r \<and>
      y \<notin> set (concat lv) \<and> bm_free_num t1 = bm_free_num t - 1)"
proof -
  note d = store_okD [OF s]
  let ?b = "bt_nodes t x"
  have lo: "level_ok valid (bt_conf t) (bt_nodes t) (pre @ x # post)" using tree_okD(2) [OF d(1) n] x by simp
  obtain off where off: "get_record (bt_conf t) ?b (int p) = Done (Inr off)" "rec_at ?b off = node_recs ?b ! p"
    using level_node_record [OF lo p] by blast
  have m: "be_rec_info env" using e by (simp add: env_ok_def)
  have run: "place_key_in_bnode env t stack x (int p) key nl force =
      (if cmp (node_recs ?b ! p) key = 0 then Done (Inl EEXIST, [], t)
       else if is_node_full ?b nl then place_by_split env t stack x (int p) key nl force
       else bind_outcome (insert_key_into_bnode (bt_conf t) ?b key nl (int p + 1)) (\<lambda>(r, b).
              let t1 = vdfs4_mark_bnode_dirty x (set_node x b t) in
              Done (case r of Inl e \<Rightarrow> Inl e | Inr (p, off) \<Rightarrow> Inr (x, p, off), [], t1)))"
    using m off c u16_len [OF k(1)] by (simp add: place_key_in_bnode_def)
  consider "cmp (node_recs ?b ! p) key = 0" | "cmp (node_recs ?b ! p) key \<noteq> 0" "is_node_full ?b nl" | "cmp (node_recs ?b ! p) key \<noteq> 0" "\<not> is_node_full ?b nl" by blast
  then show ?thesis
  proof cases
    case 1
    then show ?thesis using run by simp
  next
    case 2
    then have "place_key_in_bnode env t stack x (int p) key nl force = place_by_split env t stack x (int p) key nl force" using run by simp
    then show ?thesis using place_by_split_ok [OF s c e n x p f 2(1) k 2(2) par, of force] 2(1) by auto
  next
    case 3
    obtain b r off where i: "insert_key_into_bnode (bt_conf t) ?b key nl (int p + 1) = Done (Inr (int p + 1, off), b)"
        "placed_at valid t lv n key nl (length (level_recs (bt_nodes t) pre) + p) (vdfs4_mark_bnode_dirty x (set_node x b t)) (lv ! n) (x, int p + 1, off) r"
      using place_in_node [OF s c n x p f 3(1) k 3(2)] by blast
    have "place_key_in_bnode env t stack x (int p) key nl force = Done (Inr (x, int p + 1, off), [], vdfs4_mark_bnode_dirty x (set_node x b t))"
      using run 3 i(1) by (simp add: Let_def)
    moreover have "bm_free_num (vdfs4_mark_bnode_dirty x (set_node x b t)) = bm_free_num t" by (simp add: set_node_def)
    ultimately show ?thesis using i(2) 3(1) by auto
  qed
qed

end

section \<open>Writing the value\<close>

lemma value_same_key:
  assumes "8 \<le> key_len r" "key_len r + int (length v) = int (length r)"
  shows "same_key r (take (nat (key_len r)) r @ v)"
proof -
  let ?k = "nat (key_len r)"
  have l: "?k \<le> length r" "8 \<le> ?k" using assms by auto
  have e: "mem_read (take ?k r @ v) a b = mem_read r a b" if "0 \<le> a" "0 \<le> b" "a + b \<le> key_len r" for a b
    using that l mem_read_append1 [of a b "take ?k r" v] mem_read_append1 [of a b "take ?k r" "drop ?k r"] by simp
  have "key_len (take ?k r @ v) = key_len r" using e [of 4 2] assms(1) by (simp add: key_len_def [of "take ?k r @ v"] le16_at_def) (simp add: key_len_def le16_at_def)
  then show ?thesis using e [of 8 "key_len r - 8"] assms by (simp add: same_key_def)
qed

context tree_keys
begin

lemma write_cell:
  assumes lo: "level_ok valid c ns ids" and di: "distinct ids" and cm: "comp_fn c = cmp" and ce: "cell_at ns ids (i, pos, off) q"
    and r: "r = level_recs ns ids ! q" and k: "key_len r + int (length v) = int (length r)"
    and ns': "ns' = ns(i := write_value (ns i) off v)"
  shows "level_ok valid c ns' ids" "level_recs ns' ids = (level_recs ns ids)[q := take (nat (key_len r)) r @ v]"
    "j \<in> set ids \<Longrightarrow> cmp (hd (node_recs (ns' j))) z = cmp (hd (node_recs (ns j))) z" "i \<in> set ids" "q < length (level_recs ns ids)"
proof -
  obtain pre post p where s: "ids = pre @ i # post" "pos = int p" "p < length (node_recs (ns i))" "q = length (level_recs ns pre) + p"
      "off = bn_offs (ns i) ! p" using ce by (auto simp: cell_at_def)
  have rp: "r = node_recs (ns i) ! p" using r s by (simp add: nth_append)
  show i: "i \<in> set ids" and q: "q < length (level_recs ns ids)" using s by simp_all
  have tn: "tree_node c ns i" using lo i by (simp add: level_ok_def)
  have o: "ordered_recs valid cmp (level_recs ns ids)" using lo cm by (simp add: level_ok_def)
  then have vr: "valid r" using q r by (simp add: ordered_recs_def)
  have k8: "8 \<le> key_len r" using valid_len [OF vr] by simp
  let ?r = "take (nat (key_len r)) r @ v" and ?b = "write_value (ns i) off v"
  have sk: "same_key r ?r" using value_same_key [OF k8 k] .
  have no: "node_ok c (ns i)" using tn by (simp add: tree_node_def)
  note w = write_value_ok [OF no s(3,5), folded rp, OF k8 k]
  have b: "ns' i = ?b" by (simp add: ns')
  have len: "length ?r = length r" using k k8 by simp
  have tn': "tree_node c ns' i"
  proof -
    have "\<forall>u \<in> set (node_recs ?b). length u \<le> 600"
    proof
      fix u assume "u \<in> set (node_recs ?b)"
      then have "u = ?r \<or> u \<in> set (node_recs (ns i))" unfolding w(2) using set_update_subset_insert [of "node_recs (ns i)" p ?r] by blast
      moreover have "\<forall>u \<in> set (node_recs (ns i)). length u \<le> 600" using tn by (simp add: tree_node_def)
      moreover have "r \<in> set (node_recs (ns i))" using rp s(3) by simp
      ultimately show "length u \<le> 600" using len by fastforce
    qed
    then show ?thesis using tn w(1-3) unfolding tree_node_def b by (auto simp: node_head_def)
  qed
  have dx: "i \<notin> set (pre @ post)" using di s(1) by simp
  have same: "ns' j = ns j" if "j \<in> set (pre @ post)" for j using that dx by (auto simp: ns')
  have nh: "node_head (ns' i) = node_head (ns i)" using w(3) b by simp
  have rs: "level_recs ns pre @ node_recs (ns' i) @ level_recs ns post = (level_recs ns ids)[q := ?r]"
    using s(3,4) unfolding s(1) b w(2) by (simp add: list_update_append)
  have o': "ordered_recs valid (comp_fn c) (level_recs ns pre @ node_recs (ns' i) @ level_recs ns post)"
    unfolding rs cm using ordered_same [OF o q] sk r by simp
  note lr = level_replace [where ns' = ns', OF lo [unfolded s(1)] dx same tn' nh o', folded s(1)]
  show "level_ok valid c ns' ids" by (rule lr(1))
  show "level_recs ns' ids = (level_recs ns ids)[q := ?r]" using lr(2) rs by simp
  show "cmp (hd (node_recs (ns' j))) z = cmp (hd (node_recs (ns j))) z" if "j \<in> set ids"
  proof (cases "j = i")
    case True
    have "hd (node_recs (ns' i)) = (if p = 0 then ?r else hd (node_recs (ns i)))"
      unfolding b w(2) using s(3) by (cases "node_recs (ns i)") (auto split: nat.split)
    moreover have "p = 0 \<Longrightarrow> hd (node_recs (ns i)) = r" using rp s(3) by (cases "node_recs (ns i)") auto
    ultimately show ?thesis using True same_key_cmp [OF vr sk] by simp
  qed (simp add: ns')
qed

end

section \<open>A level with a new record\<close>

definition stored_at :: "(bytes \<Rightarrow> bool) \<Rightarrow> vdfs4_btree \<Rightarrow> int list list \<Rightarrow> nat \<Rightarrow> nat \<Rightarrow> vdfs4_btree \<Rightarrow> int list \<Rightarrow> bytes \<Rightarrow> bool" where
  "stored_at valid t lv n q t' ids r \<longleftrightarrow> same_head t t' \<and> bits_ok t' \<and>
     level_ok valid (bt_conf t) (bt_nodes t') ids \<and>
     level_recs (bt_nodes t') ids =
       take (Suc q) (level_recs (bt_nodes t) (lv ! n)) @ r # drop (Suc q) (level_recs (bt_nodes t) (lv ! n)) \<and>
     (\<forall>i \<in> set (lv ! n). \<forall>z. comp_fn (bt_conf t) (hd (node_recs (bt_nodes t' i))) z = comp_fn (bt_conf t) (hd (node_recs (bt_nodes t i))) z) \<and>
     (\<forall>m < length lv. m \<noteq> n \<longrightarrow> (\<forall>i \<in> set (lv ! m). bt_nodes t' i = bt_nodes t i)) \<and>
     (\<forall>i \<in> set (concat lv) \<union> set ids. i < bits_num t' \<and> bm_data t' ! nat i \<and> i \<le> bt_last_table_index t') \<and>
     0 \<le> bt_last_table_index t' \<and> bt_last_table_index t' < 4294967295"

text \<open>The nodes of the level: as before, or with a new node to the right of \<open>x\<close>.\<close>

definition grown :: "int list list \<Rightarrow> nat \<Rightarrow> int list \<Rightarrow> bool" where
  "grown lv n ids \<longleftrightarrow> ids = lv ! n \<or> (\<exists>pre x y post. lv ! n = pre @ x # post \<and> ids = pre @ x # y # post \<and> y \<notin> set (concat lv))"

lemma placed_stored: "placed_at valid t lv n key nl q t' ids place r \<Longrightarrow> stored_at valid t lv n q t' ids r"
  unfolding placed_at_def stored_at_def by simp

lemma grownD:
  assumes t: "tree_ok valid t lv" and n: "n < length lv" and g: "grown lv n ids"
  shows "hd ids = hd (lv ! n)" "set (lv ! n) \<subseteq> set ids" "distinct ids" "\<And>i. i \<in> set ids \<Longrightarrow> i \<notin> set (lv ! n) \<Longrightarrow> i \<notin> set (concat lv)" "ids \<noteq> []"
proof -
  have d: "distinct (lv ! n)" using tree_okD(8) [OF t n] .
  have "lv ! n \<noteq> []" using tree_okD(2) [OF t n] by (simp add: level_ok_def)
  moreover have "ids = lv ! n \<or> (\<exists>pre x y post. lv ! n = pre @ x # post \<and> ids = pre @ x # y # post \<and> y \<notin> set (concat lv) \<and> y \<notin> set (lv ! n))"
    using g in_levels [of _ lv n] n unfolding grown_def by blast
  ultimately show "hd ids = hd (lv ! n)" "set (lv ! n) \<subseteq> set ids" "distinct ids"
    "\<And>i. i \<in> set ids \<Longrightarrow> i \<notin> set (lv ! n) \<Longrightarrow> i \<notin> set (concat lv)" "ids \<noteq> []"
    using d by (auto simp: hd_append simp del: set_concat)
qed

lemma stored_tree:
  assumes s: "store_ok valid t lv" and n: "n < length lv" and st: "stored_at valid t lv n q t' ids r" and g: "grown lv n ids"
    and io: "0 < n \<Longrightarrow> index_ok (bt_conf t) (bt_nodes t') ids (lv ! (n - 1))"
  shows "store_ok valid t' (lv[n := ids])"
proof -
  note d = store_okD [OF s] and gr = grownD [OF store_okD(1) [OF s] n g]
  have st': "bt_conf t' = bt_conf t" "btree_height t' = btree_height t" "root_bnode_id t' = root_bnode_id t"
      "level_ok valid (bt_conf t) (bt_nodes t') ids" "bits_ok t'"
      "0 \<le> bt_last_table_index t'" "bt_last_table_index t' < 4294967295"
    using st by (simp_all add: stored_at_def same_head_def)
  have hds: "comp_fn (bt_conf t) (hd (node_recs (bt_nodes t' i))) z = comp_fn (bt_conf t) (hd (node_recs (bt_nodes t i))) z"
    if "i \<in> set (lv ! n)" for i z using st that by (simp add: stored_at_def)
  have other: "bt_nodes t' i = bt_nodes t i" if "m < length lv" "m \<noteq> n" "i \<in> set (lv ! m)" for m i
    using st that by (simp add: stored_at_def)
  have bits: "i < bits_num t' \<and> bm_data t' ! nat i \<and> i \<le> bt_last_table_index t'" if "i \<in> set (concat lv) \<union> set ids" for i
    using st that unfolding stored_at_def by blast
  then have b2: "i < bits_num t' \<and> bm_data t' ! nat i" if "i \<in> set (concat lv) \<union> set ids" for i using that by blast
  have "tree_ok valid t' (lv[n := ids])" using tree_ok_update [OF d(1) n st'(1-4) gr(1-4) hds other io b2] .
  moreover have "i \<le> bt_last_table_index t'" if "i \<in> set (concat (lv[n := ids]))" for i
  proof -
    have "i \<in> set (concat lv) \<union> set ids" using that set_update_subset_insert [of lv n ids] by auto
    then show ?thesis using bits by blast
  qed
  ultimately show ?thesis using st' d(3,4) by (simp add: store_ok_def del: set_concat)
qed

end
