(* ===== verification/Vdfs_Btree_Index.thy ===== *)
theory Vdfs_Btree_Index
  imports Vdfs_Btree_Insert
begin

text \<open>
  The work an insertion leaves for the levels above: the index record of a new node, and the new root
  when the root level has two nodes.
\<close>

section \<open>Index records\<close>

text \<open>An index record with the key of \<open>key\<close> for the node \<open>child\<close>.\<close>

definition index_rec :: "bytes \<Rightarrow> int \<Rightarrow> bytes \<Rightarrow> bool" where
  "index_rec key child r \<longleftrightarrow> int (length r) = key_len r + 4 \<and> index_child r = child \<and> same_key key r \<and> length r \<le> 600"

lemma key_len_same: "same_key a b \<Longrightarrow> key_len b = key_len a"
  by (simp add: same_key_def)

lemma same_key_trans:
  assumes "same_key a b" "same_key b c"
  shows "same_key a c"
  using assms by (auto simp: same_key_def)

lemma index_value:
  assumes k: "8 \<le> key_len key" "key_len key \<le> 288" "key_len key \<le> int (length key)"
    and r: "placed_key key (key_len key + 4) r" and c: "0 \<le> child" "child < 4294967296"
  shows "index_rec key child (take (nat (key_len r)) r @ le_bytes 4 child)" "key_len r = key_len key"
    "key_len r + int (length (le_bytes 4 child)) = int (length r)"
proof -
  have sk: "same_key key r" using placed_same_key [OF r] k by simp
  then show kl: "key_len r = key_len key" by (rule key_len_same)
  have l: "int (length r) = key_len key + 4" using r by (simp add: placed_key_def)
  then show kv: "key_len r + int (length (le_bytes 4 child)) = int (length r)" using kl by simp
  let ?r = "take (nat (key_len r)) r @ le_bytes 4 child"
  have s2: "same_key r ?r" using value_same_key [OF _ kv] kl k(1) by simp
  have kl2: "key_len ?r = key_len r" using key_len_same [OF s2] .
  have lr: "length (take (nat (key_len r)) r) = nat (key_len r)" using l kl by simp
  have "mem_read ?r (key_len r) 4 = le_bytes 4 child" using lr kl k(1) by (simp add: mem_read_def)
  then have "index_child ?r = child" using c kl2 by (simp add: index_child_def le32_at_def)
  then show "index_rec key child ?r" using same_key_trans [OF sk s2] kl2 lr kl k by (simp add: index_rec_def)
qed

lemma node_recs_ok:
  assumes "node_ok c b" "r \<in> set (node_recs b)"
  shows "rec_ok r"
proof -
  obtain blobs where l: "node_layout c b blobs" using assms(1) by (auto simp: node_ok_def)
  then show ?thesis using node_recs_mset [OF l] node_layoutD(3) [OF l] assms(2) by (metis mset_eq_setD)
qed

text \<open>The key of a new node and what an index record of it needs.\<close>

context tree_keys
begin

lemma record_key:
  assumes "tree_node c ns i" "r \<in> set (node_recs (ns i))" "valid r"
  shows "key_ok r (key_len r + 4)" "8 \<le> key_len r" "key_len r \<le> 288" "key_len r \<le> int (length r)" "record_len r \<le> 600"
proof -
  have l: "length r \<le> 600" and n: "node_ok c (ns i)" using assms(1,2) by (auto simp: tree_node_def)
  have "record_len r = int (length r)" using rec_ok_len(1) [OF node_recs_ok [OF n assms(2)]] .
  then show "key_ok r (key_len r + 4)" "8 \<le> key_len r" "key_len r \<le> 288" "key_len r \<le> int (length r)" "record_len r \<le> 600"
    using valid_len [OF assms(3)] l by (auto simp: key_ok_def)
qed

lemma level_heads_less:
  assumes l: "level_ok valid c ns ids" and c: "comp_fn c = cmp" and s: "ids = a @ x # b @ y # d"
  shows "cmp (hd (node_recs (ns x))) (hd (node_recs (ns y))) < 0" "0 < cmp (hd (node_recs (ns y))) (hd (node_recs (ns x)))"
proof -
  have "x \<in> set ids" "y \<in> set ids" using s by simp_all
  note h = level_hd [OF l this(1)] level_hd [OF l this(2)]
  have "sorted_wrt (\<lambda>a b. cmp a b < 0) (level_recs ns (a @ x # b @ y # d))"
    using l c s by (simp add: level_ok_def ordered_recs_def)
  then have "\<forall>u \<in> set (node_recs (ns x)). \<forall>v \<in> set (node_recs (ns y)). cmp u v < 0"
    unfolding level_recs_simps sorted_wrt_append set_append by blast
  then show 1: "cmp (hd (node_recs (ns x))) (hd (node_recs (ns y))) < 0" using hd_in_set [OF h(1)] hd_in_set [OF h(4)] by blast
  then show "0 < cmp (hd (node_recs (ns y))) (hd (node_recs (ns x)))"
    using cmp_swap [OF h(2,5)] by (auto simp: sgn_if split: if_splits)
qed

lemma level_heads_differ:
  assumes l: "level_ok valid c ns ids" and c: "comp_fn c = cmp" and x: "x \<in> set ids" "y \<in> set ids" "x \<noteq> y"
  shows "cmp (hd (node_recs (ns x))) (hd (node_recs (ns y))) \<noteq> 0"
proof -
  obtain a b where s: "ids = a @ x # b" using split_list [OF x(1)] by blast
  consider "y \<in> set a" | "y \<in> set b" using x s by auto
  then show ?thesis
  proof cases
    case 1
    then obtain u v where "a = u @ y # v" using split_list by metis
    then have "ids = u @ y # v @ x # b" using s by simp
    from level_heads_less(2) [OF l c this] show ?thesis by simp
  next
    case 2
    then obtain u v where "b = u @ y # v" using split_list by metis
    then have "ids = a @ x # u @ y # v" using s by simp
    from level_heads_less(1) [OF l c this] show ?thesis by simp
  qed
qed

end

section \<open>Work that is left\<close>

text \<open>Every node but \<open>y\<close>, which stands in level \<open>n\<close>, has its index record.\<close>

definition complete_but :: "(int \<Rightarrow> bnode) \<Rightarrow> int list list \<Rightarrow> nat \<Rightarrow> int \<Rightarrow> bool" where
  "complete_but ns lv n y \<longleftrightarrow> (\<exists>pre x post. lv ! n = pre @ x # y # post \<and>
     (\<forall>m. Suc m < length lv \<longrightarrow> map index_child (level_recs ns (lv ! Suc m)) = (if m = n then pre @ x # post else lv ! m)) \<and>
     (if Suc n = length lv then pre = [] \<and> post = [] else length (last lv) = 1))"

definition work_ok :: "(bytes \<Rightarrow> bytes \<Rightarrow> int) \<Rightarrow> vdfs4_btree \<Rightarrow> int list list \<Rightarrow> nat \<Rightarrow> int \<Rightarrow> traverse_stack \<Rightarrow> bool" where
  "work_ok cmp t lv n y stack \<longleftrightarrow> n < length lv \<and> complete_but (bt_nodes t) lv n y \<and> path_ok cmp (bt_nodes t) lv (Suc n) stack \<and>
     (stack \<noteq> [] \<longrightarrow> cmp (hd (node_recs (bt_nodes t (fst (hd stack))))) (hd (node_recs (bt_nodes t y))) \<le> 0)"

lemma parent_path:
  assumes "path_ok cmp ns lv m ((i, p, l) # rest)" "btree_height t = int (length lv)"
  shows "parent_item t ((i, p, l) # rest) = Done rest"
  using assms by (cases rest) (auto simp: parent_item_def)

lemma path_ok_cong:
  assumes "\<And>m i. n \<le> m \<Longrightarrow> m < length lv \<Longrightarrow> i \<in> set (lv ! m) \<Longrightarrow> ns' i = ns i" "length lv' = length lv"
    "\<And>m. n \<le> m \<Longrightarrow> m < length lv \<Longrightarrow> lv' ! m = lv ! m"
  shows "path_ok cmp ns lv n s \<Longrightarrow> path_ok cmp ns' lv' n s"
  using assms
proof (induction s arbitrary: n)
  case (Cons a s)
  obtain i p l where a: "a = (i, p, l)" by (cases a)
  have n: "n < length lv" "i \<in> set (lv ! n)" "l = int n + 1" "path_ok cmp ns lv (Suc n) s" using Cons.prems(1) a by simp_all
  have i: "ns' i = ns i" using Cons.prems(2) [of n i] n by simp
  have s: "path_ok cmp ns' lv' (Suc n) s" 
  proof (rule Cons.IH [OF n(4)])
    show "ns' j = ns j" if "Suc n \<le> m" "m < length lv" "j \<in> set (lv ! m)" for m j using Cons.prems(2) that Suc_leD by blast
    show "lv' ! m = lv ! m" if "Suc n \<le> m" "m < length lv" for m using Cons.prems(4) that Suc_leD by blast
  qed (rule Cons.prems(3))
  have "cmp (hd (node_recs (ns' (fst (hd s))))) (hd (node_recs (ns' i))) \<le> 0" if ne: "s \<noteq> []"
  proof -
    have "Suc n < length lv" "fst (hd s) \<in> set (lv ! Suc n)" using n(4) ne by (cases s; auto)+
    then have "ns' (fst (hd s)) = ns (fst (hd s))" using Cons.prems(2) [of "Suc n"] by simp
    then show ?thesis using Cons.prems(1) a i ne by simp
  qed
  then show ?case using a n i s Cons.prems(3,4) by simp
qed simp

context tree_keys
begin

text \<open>Where the key of the new node belongs among the index records.\<close>

lemma new_node_place:
  assumes t: "tree_ok valid t lv" "Suc n < length lv" and c: "comp_fn (bt_conf t) = cmp"
    and l: "lv ! n = pre @ x # y # post" and m: "map index_child (level_recs (bt_nodes t) (lv ! Suc n)) = pre @ x # post"
  shows "found_at cmp (level_recs (bt_nodes t) (lv ! Suc n)) (hd (node_recs (bt_nodes t y))) (length pre)"
    "r \<in> set (level_recs (bt_nodes t) (lv ! Suc n)) \<Longrightarrow> cmp r (hd (node_recs (bt_nodes t y))) \<noteq> 0"
proof -
  let ?ns = "bt_nodes t" and ?rs = "level_recs (bt_nodes t) (lv ! Suc n)" and ?k = "hd (node_recs (bt_nodes t y))"
  have lo: "level_ok valid (bt_conf t) ?ns (lv ! Suc n)" "level_ok valid (bt_conf t) ?ns (lv ! n)"
    using tree_okD(2) [OF t(1)] t(2) by simp_all
  have io: "index_ok (bt_conf t) ?ns (lv ! Suc n) (lv ! n)" using tree_okD(3) [OF t] .
  have y: "y \<in> set (lv ! n)" using l by simp
  have k: "valid ?k" using level_hd(2) [OF lo(2) y] .
  have o: "ordered_recs valid cmp ?rs" using lo(1) c by (simp add: level_ok_def)
  have vr: "valid r" if "r \<in> set ?rs" for r using o that by (simp add: ordered_recs_def)
  have ch: "cmp (hd (node_recs (?ns (index_child r)))) r = 0" "index_child r \<in> set (lv ! n)" if "r \<in> set ?rs" for r
    using io that c unfolding index_ok_def by blast+
  have e: "0 < cmp r ?k \<longleftrightarrow> 0 < cmp (hd (node_recs (?ns (index_child r)))) ?k" if "r \<in> set ?rs" for r
    using cmp_eq_left [OF level_hd(2) [OF lo(2) ch(2) [OF that]] vr [OF that] k ch(1) [OF that]] by simp
  have len: "length ?rs = Suc (length pre + length post)" using arg_cong [OF m, of length] by simp
  have nth: "index_child (?rs ! i) = (pre @ x # post) ! i" if "i < length ?rs" for i using m that by (metis nth_map)
  show "found_at cmp ?rs ?k (length pre)"
  proof (rule found_atI [OF o k])
    show p: "length pre < length ?rs" using len by simp
    have "cmp (hd (node_recs (?ns x))) ?k < 0" using level_heads_less(1) [OF lo(2) c, of pre x "[]" y post] l by simp
    then show "cmp (?rs ! length pre) ?k \<le> 0" using e [of "?rs ! length pre"] nth [OF p] p by simp
    assume s: "Suc (length pre) < length ?rs"
    then obtain z zs where z: "post = z # zs" using len by (cases post) auto
    have "0 < cmp (hd (node_recs (?ns z))) ?k" using level_heads_less(2) [OF lo(2) c, of "pre @ [x]" y "[]" z zs] l z by simp
    then show "0 < cmp (?rs ! Suc (length pre)) ?k" using e [of "?rs ! Suc (length pre)"] nth [OF s] s z by (simp add: nth_append)
  qed
  assume r: "r \<in> set ?rs"
  have "index_child r \<in> set (pre @ x # post)" using m r by (metis image_eqI list.set_map)
  then have "index_child r \<noteq> y" using tree_okD(8) [OF t(1), of n] t(2) l by auto
  then have "cmp (hd (node_recs (?ns (index_child r)))) ?k \<noteq> 0" using level_heads_differ [OF lo(2) c ch(2) [OF r] y] by blast
  moreover have v: "valid (hd (node_recs (?ns (index_child r))))" using level_hd(2) [OF lo(2) ch(2) [OF r]] .
  moreover have "cmp (hd (node_recs (?ns (index_child r)))) ?k = 0" if "cmp r ?k = 0"
  proof -
    have a: "cmp (hd (node_recs (?ns (index_child r)))) ?k \<le> 0" using cmp_trans [OF v vr [OF r] k] ch(1) [OF r] that by simp
    have "cmp ?k r = 0" using that cmp_eq_swap [OF vr [OF r] k] by simp
    moreover have "cmp r (hd (node_recs (?ns (index_child r)))) = 0" using ch(1) [OF r] cmp_eq_swap [OF v vr [OF r]] by simp
    ultimately have "cmp ?k (hd (node_recs (?ns (index_child r)))) \<le> 0" using cmp_trans [OF k vr [OF r] v] by simp
    then show ?thesis using a cmp_swap [OF v k] by (auto simp: sgn_if split: if_splits)
  qed
  ultimately show "cmp r ?k \<noteq> 0" by blast
qed

text \<open>A placed index record, with its value written.\<close>

lemma index_stored:
  assumes s: "store_ok valid t lv" and c: "comp_fn (bt_conf t) = cmp" and n: "Suc n < length lv" and y: "y \<in> set (lv ! n)"
    and k: "key = hd (node_recs (bt_nodes t y))" and g: "grown lv (Suc n) ids" and q: "q < length (level_recs (bt_nodes t) (lv ! Suc n))"
    and p: "placed_at valid t lv (Suc n) key (key_len key + 4) q t1 ids (i, pos, off) r"
  shows "\<exists>r'. stored_at valid t lv (Suc n) q (write_index_value i off y t1) ids r' \<and> index_rec key y r' \<and>
    index_ok (bt_conf t) (bt_nodes (write_index_value i off y t1)) ids (lv ! n)"
proof -
  note d = store_okD [OF s]
  let ?c = "bt_conf t" and ?rs = "level_recs (bt_nodes t) (lv ! Suc n)" and ?t = "write_index_value i off y t1"
  have n': "n < length lv" using n by simp
  have lo: "level_ok valid ?c (bt_nodes t) (lv ! n)" using tree_okD(2) [OF d(1) n'] .
  have tn: "tree_node ?c (bt_nodes t) y" using tree_node_levels [OF d(1) n' y] .
  have kin: "key \<in> set (node_recs (bt_nodes t y))" "valid key" using level_hd(1,2) [OF lo y] k by simp_all
  note rk = record_key [OF tn kin]
  have yb: "0 \<le> y" "y < 4294967296"
    using tn d(2) tree_okD(7) [OF d(1) in_levels [OF y n']] by (auto simp: tree_node_def bits_ok_def)
  have lo1: "level_ok valid ?c (bt_nodes t1) ids" and lr1: "level_recs (bt_nodes t1) ids = take (Suc q) ?rs @ r # drop (Suc q) ?rs"
    and pk: "placed_key key (key_len key + 4) r" and ce: "cell_at (bt_nodes t1) ids (i, pos, off) (Suc q)"
    using p by (simp_all add: placed_at_def)
  note gd = grownD [OF d(1) n g]
  have rq: "r = level_recs (bt_nodes t1) ids ! Suc q" using q by (simp add: lr1 nth_append)
  note iv = index_value [OF rk(2-4) pk yb]
  define r' where "r' = take (nat (key_len r)) r @ le_bytes 4 y"
  have ns: "bt_nodes ?t = (bt_nodes t1)(i := write_value (bt_nodes t1 i) off (le_bytes 4 y))"
    by (simp add: write_index_value_def set_node_def)
  note w = write_cell [OF lo1 gd(3) c ce rq iv(3) ns, folded r'_def]
  have ir: "index_rec key y r'" using iv(1) by (simp add: r'_def)
  have lr: "level_recs (bt_nodes ?t) ids = take (Suc q) ?rs @ r' # drop (Suc q) ?rs"
    unfolding w(2) lr1 using q by (simp add: list_update_append)
  have oth: "bt_nodes ?t j = bt_nodes t j" if "m < length lv" "m \<noteq> Suc n" "j \<in> set (lv ! m)" for m j
  proof -
    have "j \<notin> set ids"
    proof
      assume "j \<in> set ids"
      moreover have "j \<notin> set (lv ! Suc n)" using level_disjoint [OF d(1) n that] .
      ultimately have "j \<notin> set (concat lv)" using gd(4) by blast
      then show False using in_levels [OF that(3,1)] by blast
    qed
    then have "j \<noteq> i" using w(4) by blast
    then show ?thesis using p that by (simp add: ns placed_at_def)
  qed
  have "stored_at valid t lv (Suc n) q ?t ids r'"
  proof -
    have "comp_fn ?c (hd (node_recs (bt_nodes ?t j))) z = comp_fn ?c (hd (node_recs (bt_nodes t j))) z" if "j \<in> set (lv ! Suc n)" for j z
    proof -
      have "hd (node_recs (bt_nodes t1 j)) = hd (node_recs (bt_nodes t j))" using p that by (simp add: placed_at_def)
      moreover have "j \<in> set ids" using gd(2) that by blast
      ultimately show ?thesis using w(3) [of j z] c by simp
    qed
    moreover have "same_head t1 ?t" "bits_ok ?t = bits_ok t1" "bm_data ?t = bm_data t1" "bt_last_table_index ?t = bt_last_table_index t1"
      by (simp_all add: write_index_value_def set_node_def same_head_def bits_ok_def)
    ultimately show ?thesis using p w(1) lr oth unfolding stored_at_def placed_at_def same_head_def by simp
  qed
  moreover have "index_ok ?c (bt_nodes ?t) ids (lv ! n)"
  proof -
    have io: "index_ok ?c (bt_nodes t) (lv ! Suc n) (lv ! n)" using tree_okD(3) [OF d(1) n] .
    have on: "bt_nodes ?t j = bt_nodes t j" if "j \<in> set (lv ! n)" for j using oth [of n] n' that by simp
    have old: "int (length u) = key_len u + 4 \<and> index_child u \<in> set (lv ! n) \<and> comp_fn ?c (hd (node_recs (bt_nodes ?t (index_child u)))) u = 0"
      if "u \<in> set ?rs" for u
    proof -
      have "int (length u) = key_len u + 4 \<and> index_child u \<in> set (lv ! n) \<and> comp_fn ?c (hd (node_recs (bt_nodes t (index_child u)))) u = 0"
        using io that unfolding index_ok_def by blast
      then show ?thesis using on by simp
    qed
    have "sgn (cmp key r') = sgn (cmp key key)" using same_key_cmp_right [OF kin(2) _ kin(2)] ir by (simp add: index_rec_def)
    then have new: "int (length r') = key_len r' + 4 \<and> index_child r' \<in> set (lv ! n) \<and> comp_fn ?c (hd (node_recs (bt_nodes ?t (index_child r')))) r' = 0"
      using ir y on [OF y] k c cmp_refl [OF kin(2)] by (simp add: index_rec_def sgn_0_0)
    have "hd (level_recs (bt_nodes ?t) ids) = hd ?rs" unfolding lr using q by (cases ?rs) auto
    moreover have "index_child (hd ?rs) = hd (lv ! n)" using io by (simp add: index_ok_def)
    moreover have "u = r' \<or> u \<in> set ?rs" if "u \<in> set (level_recs (bt_nodes ?t) ids)" for u
      using that unfolding lr by (auto dest: in_set_takeD in_set_dropD)
    ultimately show ?thesis using old new unfolding index_ok_def by metis
  qed
  ultimately show ?thesis using ir by blast
qed

end

lemma index_children:
  assumes st: "stored_at valid t lv (Suc n) (length pre) t' ids r" and n: "Suc n < length lv" and r: "index_child r = y"
    and m: "map index_child (level_recs (bt_nodes t) (lv ! Suc n)) = pre @ x # post"
  shows "map index_child (level_recs (bt_nodes t') ids) = pre @ x # y # post"
    "m < length lv \<Longrightarrow> m \<noteq> Suc n \<Longrightarrow> level_recs (bt_nodes t') (lv ! m) = level_recs (bt_nodes t) (lv ! m)"
proof -
  let ?rs = "level_recs (bt_nodes t) (lv ! Suc n)"
  have "level_recs (bt_nodes t') ids = take (Suc (length pre)) ?rs @ r # drop (Suc (length pre)) ?rs" using st by (simp add: stored_at_def)
  then have "map index_child (level_recs (bt_nodes t') ids) =
      take (Suc (length pre)) (map index_child ?rs) @ y # drop (Suc (length pre)) (map index_child ?rs)"
    using r by (simp add: take_map drop_map)
  then show "map index_child (level_recs (bt_nodes t') ids) = pre @ x # y # post" unfolding m by simp
  show "level_recs (bt_nodes t') (lv ! m) = level_recs (bt_nodes t) (lv ! m)" if "m < length lv" "m \<noteq> Suc n"
    using st that by (intro level_recs_cong) (simp add: stored_at_def)
qed

lemma complete_stored:
  assumes n: "Suc n < length lv" and l: "lv ! n = pre @ x # y # post" and one: "length (last lv) = 1"
    and m: "\<And>m. Suc m < length lv \<Longrightarrow> map index_child (level_recs (bt_nodes t) (lv ! Suc m)) = (if m = n then pre @ x # post else lv ! m)"
    and st: "stored_at valid t lv (Suc n) (length pre) t' ids r" "index_child r = y"
  shows "ids = lv ! Suc n \<Longrightarrow> complete (bt_nodes t') lv"
    "lv ! Suc n = pre2 @ x2 # post2 \<Longrightarrow> ids = pre2 @ x2 # y2 # post2 \<Longrightarrow> complete_but (bt_nodes t') (lv[Suc n := ids]) (Suc n) y2"
proof -
  have mn: "map index_child (level_recs (bt_nodes t) (lv ! Suc n)) = pre @ x # post" using m [OF n] by simp
  note ic = index_children [OF st(1) n st(2) mn]
  have up: "map index_child (level_recs (bt_nodes t') (lv[Suc n := ids] ! Suc k)) = lv ! k" if "Suc k < length lv" for k
  proof (cases "k = n")
    case True
    then show ?thesis using ic(1) l n by simp
  next
    case False
    then show ?thesis using ic(2) [OF that] m [OF that] by simp
  qed
  show "complete (bt_nodes t') lv" if "ids = lv ! Suc n" using up one that unfolding complete_def by simp
  show "complete_but (bt_nodes t') (lv[Suc n := ids]) (Suc n) y2" if g: "lv ! Suc n = pre2 @ x2 # post2" "ids = pre2 @ x2 # y2 # post2"
    unfolding complete_but_def
  proof (intro exI conjI allI impI)
    show "lv[Suc n := ids] ! Suc n = pre2 @ x2 # y2 # post2" using n g by simp
    show "map index_child (level_recs (bt_nodes t') (lv[Suc n := ids] ! Suc k)) = (if k = Suc n then pre2 @ x2 # post2 else lv[Suc n := ids] ! k)"
      if "Suc k < length (lv[Suc n := ids])" for k
      using up [of k] that g(1) by (cases "k = Suc n") simp_all
    show "if Suc (Suc n) = length (lv[Suc n := ids]) then pre2 = [] \<and> post2 = [] else length (last (lv[Suc n := ids])) = 1"
    proof (cases "Suc (Suc n) = length lv")
      case True
      then have "last lv = lv ! Suc n" by (metis diff_Suc_1 last_conv_nth length_0_conv nat.distinct(1))
      then show ?thesis using True one g(1) by simp
    next
      case False
      then show ?thesis using one n by (cases lv rule: rev_cases) (auto simp: list_update_append split: nat.splits)
    qed
  qed
qed

text \<open>Nothing changes in the levels up to \<open>n\<close>.\<close>

definition keeps :: "vdfs4_btree \<Rightarrow> int list list \<Rightarrow> nat \<Rightarrow> vdfs4_btree \<Rightarrow> bool" where
  "keeps t lv n t' \<longleftrightarrow> bt_conf t' = bt_conf t \<and> (\<forall>m \<le> n. m < length lv \<longrightarrow> (\<forall>i \<in> set (lv ! m). bt_nodes t' i = bt_nodes t i))"

context tree_keys
begin

lemma place_index_run:
  assumes s: "store_ok valid t lv" and c: "comp_fn (bt_conf t) = cmp" and e: "env_ok (bt_conf t) env"
    and w: "work_ok cmp t lv n y ((i, ip, il) # rest)"
  shows "\<exists>pre x post p. lv ! Suc n = pre @ x # post \<and> p < length (node_recs (bt_nodes t x)) \<and>
    found_at cmp (level_recs (bt_nodes t) (lv ! Suc n)) (hd (node_recs (bt_nodes t y))) (length (level_recs (bt_nodes t) pre) + p) \<and>
    cmp (hd (node_recs (bt_nodes t i))) (hd (node_recs (bt_nodes t x))) \<le> 0 \<and>
    place_index_record env t ((i, ip, il) # rest, y, rt) force =
      (let key = hd (node_recs (bt_nodes t y)) in
       bind_outcome (place_key_in_bnode env t ((i, ip, il) # rest) x (int p) key (key_len key + 4) force) (\<lambda>(r, todo, t1).
         case r of Inl e \<Rightarrow> Done (Some e, todo, t1)
         | Inr (id1, p, off1) \<Rightarrow> Done (success, todo, vdfs4_mark_bnode_dirty id1 (write_index_value id1 off1 y t1))))"
proof -
  note d = store_okD [OF s]
  let ?ns = "bt_nodes t" and ?c = "bt_conf t"
  have n: "n < length lv" "Suc n < length lv" and i: "i \<in> set (lv ! Suc n)" using w by (auto simp: work_ok_def)
  have y: "y \<in> set (lv ! n)" using w by (auto simp: work_ok_def complete_but_def)
  have lo: "level_ok valid ?c ?ns (lv ! n)" using tree_okD(2) [OF d(1) n(1)] .
  have k: "valid (hd (node_recs (?ns y)))" using level_hd(2) [OF lo y] .
  have f: "\<not> 0 < cmp (hd (node_recs (?ns i))) (hd (node_recs (?ns y)))" using w by (simp add: work_ok_def)
  obtain pre0 post0 where i0: "lv ! Suc n = pre0 @ i # post0" using split_list [OF i] by blast
  have rd: "readable env lv" using e by (simp add: env_ok_def readable_def)
  obtain pre x post p todo' where r: "lv ! Suc n = pre @ x # post"
      "btree_traverse_level env t (hd (node_recs (?ns y))) i False [] [] = Done (Inr (x, int p), todo')"
      "p < length (node_recs (?ns x))"
      "found_at cmp (level_recs ?ns (lv ! Suc n)) (hd (node_recs (?ns y))) (length (level_recs ?ns pre) + p)"
      "cmp (hd (node_recs (?ns i))) (hd (node_recs (?ns x))) \<le> 0"
    using traverse_level_ok [OF d(1) rd n(2) c k i0 f, of False "[]" "[]"] by blast
  have gb: "vdfs4_get_bnode env t y = success" using get_bnode_ok [OF d(1) rd in_levels [OF y n(1)]] .
  obtain py qy where ly: "lv ! n = py @ y # qy" using split_list [OF y] by blast
  have ne: "0 < length (node_recs (?ns y))" using level_hd(1) [OF lo y] by simp
  obtain off where off: "get_record ?c (?ns y) (int 0) = Done (Inr off)" "rec_at (?ns y) off = node_recs (?ns y) ! 0"
    using level_node_record [OF lo [unfolded ly] ne] by blast
  have off': "get_record ?c (?ns y) 0 = Done (Inr off)" "rec_at (?ns y) off = hd (node_recs (?ns y))" using off ne by (simp_all add: hd_conv_nth)
  have "place_index_record env t ((i, ip, il) # rest, y, rt) force =
      (let key = hd (node_recs (bt_nodes t y)) in
       bind_outcome (place_key_in_bnode env t ((i, ip, il) # rest) x (int p) key (key_len key + 4) force) (\<lambda>(r, todo, t1).
         case r of Inl e \<Rightarrow> Done (Some e, todo, t1)
         | Inr (id1, p, off1) \<Rightarrow> Done (success, todo, vdfs4_mark_bnode_dirty id1 (write_index_value id1 off1 y t1))))"
    by (simp add: place_index_record_def gb off' r(2) Let_def)
  then show ?thesis using r(1,3-5) by blast
qed

lemma store_dirty [simp]: "store_ok valid (vdfs4_mark_bnode_dirty i t) lv = store_ok valid t lv"
  by (simp add: store_ok_def tree_ok_def)

lemma stored_keeps: "stored_at valid t lv (Suc n) q t' ids r \<Longrightarrow> keeps t lv n t'"
  unfolding stored_at_def keeps_def same_head_def by simp

lemma stored_path:
  assumes s: "store_ok valid t lv" and c: "comp_fn (bt_conf t) = cmp" and n: "n < length lv"
    and st: "stored_at valid t lv n q t' (pre @ x # y # post) r" and x: "lv ! n = pre @ x # post"
    and p: "path_ok cmp (bt_nodes t) lv (Suc n) rest" and i: "i \<in> set (lv ! n)"
    and h: "rest \<noteq> [] \<longrightarrow> cmp (hd (node_recs (bt_nodes t (fst (hd rest))))) (hd (node_recs (bt_nodes t i))) \<le> 0"
      "cmp (hd (node_recs (bt_nodes t i))) (hd (node_recs (bt_nodes t x))) \<le> 0"
  shows "path_ok cmp (bt_nodes t') (lv[n := pre @ x # y # post]) (Suc n) rest"
    "rest \<noteq> [] \<longrightarrow> cmp (hd (node_recs (bt_nodes t' (fst (hd rest))))) (hd (node_recs (bt_nodes t' y))) \<le> 0"
proof -
  note d = store_okD [OF s]
  have oth: "bt_nodes t' j = bt_nodes t j" if "m < length lv" "m \<noteq> n" "j \<in> set (lv ! m)" for m j
    using st that by (simp add: stored_at_def)
  show "path_ok cmp (bt_nodes t') (lv[n := pre @ x # y # post]) (Suc n) rest"
  proof (rule path_ok_cong [OF _ _ _ p])
    show "bt_nodes t' j = bt_nodes t j" if "Suc n \<le> m" "m < length lv" "j \<in> set (lv ! m)" for m j using oth that by simp
    show "lv[n := pre @ x # y # post] ! m = lv ! m" if "Suc n \<le> m" "m < length lv" for m using that by simp
  qed simp
  show "rest \<noteq> [] \<longrightarrow> cmp (hd (node_recs (bt_nodes t' (fst (hd rest))))) (hd (node_recs (bt_nodes t' y))) \<le> 0"
  proof
    assume ne: "rest \<noteq> []"
    let ?f = "fst (hd rest)" and ?g = "\<lambda>ns j. hd (node_recs (ns j))"
    have f: "Suc n < length lv" "?f \<in> set (lv ! Suc n)" using path_hd [OF p ne] by simp_all
    have xin: "x \<in> set (lv ! n)" using x by simp
    have lo: "level_ok valid (bt_conf t) (bt_nodes t) (lv ! n)" using tree_okD(2) [OF d(1) n] .
    have lo': "level_ok valid (bt_conf t) (bt_nodes t') (pre @ x # y # post)" using st by (simp add: stored_at_def)
    have vf: "valid (?g (bt_nodes t) ?f)" using level_hd(2) [OF tree_okD(2) [OF d(1) f(1)] f(2)] .
    have vx: "valid (?g (bt_nodes t) x)" "valid (?g (bt_nodes t) i)" using level_hd(2) [OF lo] xin i by simp_all
    have vx': "valid (?g (bt_nodes t') x)" "valid (?g (bt_nodes t') y)" using level_hd(2) [OF lo'] by simp_all
    have fx: "cmp (?g (bt_nodes t) ?f) (?g (bt_nodes t) x) \<le> 0" using cmp_trans [OF vf vx(2,1)] h ne by simp
    have xy: "cmp (?g (bt_nodes t') x) (?g (bt_nodes t') y) < 0" using level_heads_less(1) [OF lo' c, of pre x "[]" y post] by simp
    have "cmp (?g (bt_nodes t') x) z = cmp (?g (bt_nodes t) x) z" for z using st xin c by (simp add: stored_at_def)
    then have "cmp (?g (bt_nodes t) x) (?g (bt_nodes t') y) < 0" using xy by simp
    then have "cmp (?g (bt_nodes t) ?f) (?g (bt_nodes t') y) \<le> 0" using cmp_trans [OF vf vx(1) vx'(2)] fx by simp
    moreover have "bt_nodes t' ?f = bt_nodes t ?f" using oth [of "Suc n"] f by simp
    ultimately show "cmp (?g (bt_nodes t') ?f) (?g (bt_nodes t') y) \<le> 0" by simp
  qed
qed

lemma place_index_ok:
  assumes s: "store_ok valid t lv" and c: "comp_fn (bt_conf t) = cmp" and e: "env_ok (bt_conf t) env"
    and w: "work_ok cmp t lv n y ((i, ip, il) # rest)"
  shows "(\<exists>err t'. place_index_record env t ((i, ip, il) # rest, y, rt) force = Done (Some err, [], t') \<and> unchanged t lv t' \<and> \<not> roomy env 1 t) \<or>
    (\<exists>t'. place_index_record env t ((i, ip, il) # rest, y, rt) force = Done (success, [], t') \<and>
      store_ok valid t' lv \<and> complete (bt_nodes t') lv \<and> keeps t lv n t') \<or>
    (\<exists>t' y2 ids. place_index_record env t ((i, ip, il) # rest, y, rt) force =
        Done (success, put_add_index_work env rest y2 (root_bnode_id t') [], t') \<and>
      store_ok valid t' (lv[Suc n := ids]) \<and> work_ok cmp t' (lv[Suc n := ids]) (Suc n) y2 rest \<and> keeps t lv n t' \<and>
      btree_height t' = btree_height t \<and> bm_free_num t' = bm_free_num t - 1)"
proof -
  note d = store_okD [OF s]
  let ?ns = "bt_nodes t" and ?key = "hd (node_recs (bt_nodes t y))" and ?S = "(i, ip, il) # rest"
  let ?place = "\<lambda>x p. place_key_in_bnode env t ?S x (int p) ?key (key_len ?key + 4) force"
  have n: "n < length lv" "Suc n < length lv" and i: "i \<in> set (lv ! Suc n)"
    and path: "path_ok cmp ?ns lv (Suc n) ?S" using w by (auto simp: work_ok_def)
  obtain pre0 x0 post0 where cb: "lv ! n = pre0 @ x0 # y # post0" "length (last lv) = 1"
      "\<And>m. Suc m < length lv \<Longrightarrow> map index_child (level_recs ?ns (lv ! Suc m)) = (if m = n then pre0 @ x0 # post0 else lv ! m)"
    using w n(2) unfolding work_ok_def complete_but_def by auto
  have y: "y \<in> set (lv ! n)" using cb(1) by simp
  have tn: "tree_node (bt_conf t) ?ns y" using tree_node_levels [OF d(1) n(1) y] .
  have lo: "level_ok valid (bt_conf t) ?ns (lv ! n)" using tree_okD(2) [OF d(1) n(1)] .
  have kv: "?key \<in> set (node_recs (?ns y))" "valid ?key" using level_hd(1,2) [OF lo y] by simp_all
  have ko: "key_ok ?key (key_len ?key + 4)" using record_key(1) [OF tn kv] .
  have par: "parent_item t ?S = Done rest" using parent_path [OF path tree_okD(4) [OF d(1)]] .
  obtain pre x post p where r: "lv ! Suc n = pre @ x # post" "p < length (node_recs (?ns x))"
      "found_at cmp (level_recs ?ns (lv ! Suc n)) ?key (length (level_recs ?ns pre) + p)"
      "cmp (hd (node_recs (?ns i))) (hd (node_recs (?ns x))) \<le> 0"
      "place_index_record env t (?S, y, rt) force = (bind_outcome (?place x p) (\<lambda>(r, todo, t1).
         case r of Inl e \<Rightarrow> Done (Some e, todo, t1)
         | Inr (id1, p, off1) \<Rightarrow> Done (success, todo, vdfs4_mark_bnode_dirty id1 (write_index_value id1 off1 y t1))))"
    using place_index_run [OF s c e w, of rt force] unfolding Let_def by blast
  have mn: "map index_child (level_recs ?ns (lv ! Suc n)) = pre0 @ x0 # post0" using cb(3) [OF n(2)] by simp
  note np = new_node_place [OF d(1) n(2) c cb(1) mn]
  have q: "length (level_recs ?ns pre) + p = length pre0" using found_at_unique [OF r(3) np(1)] .
  have ql: "length pre0 < length (level_recs ?ns (lv ! Suc n))" using np(1) by (simp add: found_at_def)
  have "node_recs (?ns x) ! p \<in> set (level_recs ?ns (lv ! Suc n))" using r(1,2) by simp
  then have ne: "cmp (node_recs (?ns x) ! p) ?key \<noteq> 0" using np(2) by blast
  consider err t1 where "?place x p = Done (Inl err, [], t1)" "unchanged t lv t1" "\<not> roomy env 1 t"
    | i1 pos off r1 t1 where "?place x p = Done (Inr (i1, pos, off), [], t1)"
        "placed_at valid t lv (Suc n) ?key (key_len ?key + 4) (length pre0) t1 (lv ! Suc n) (i1, pos, off) r1"
    | i1 pos off r1 t1 y2 where "?place x p = Done (Inr (i1, pos, off), put_add_index_work env rest y2 (root_bnode_id t) [], t1)"
        "placed_at valid t lv (Suc n) ?key (key_len ?key + 4) (length pre0) t1 (pre @ x # y2 # post) (i1, pos, off) r1"
        "y2 \<notin> set (concat lv)" "bm_free_num t1 = bm_free_num t - 1"
    using place_key_ok [OF s c e n(2) r(1-3) ko kv(2) par, of force] ne unfolding q by auto
  then show ?thesis
  proof cases
    case (1 err t1)
    then show ?thesis using r(5) by auto
  next
    case (2 i1 pos off r1 t1)
    have g: "grown lv (Suc n) (lv ! Suc n)" by (simp add: grown_def)
    let ?t = "write_index_value i1 off y t1"
    obtain r' where st: "stored_at valid t lv (Suc n) (length pre0) ?t (lv ! Suc n) r'" "index_rec ?key y r'"
        "index_ok (bt_conf t) (bt_nodes ?t) (lv ! Suc n) (lv ! n)"
      using index_stored [OF s c n(2) y refl g ql 2(2)] by blast
    have "store_ok valid ?t (lv[Suc n := lv ! Suc n])" using stored_tree [OF s n(2) st(1) g] st(3) by simp
    moreover have "complete (bt_nodes ?t) lv"
      using complete_stored(1) [OF n(2) cb(1,2) cb(3) st(1)] st(2) by (simp add: index_rec_def)
    moreover have "keeps t lv n ?t" using stored_keeps [OF st(1)] .
    moreover have "place_index_record env t (?S, y, rt) force = Done (success, [], vdfs4_mark_bnode_dirty i1 ?t)" using r(5) 2(1) by simp
    ultimately show ?thesis by (intro disjI2 disjI1 exI [of _ "vdfs4_mark_bnode_dirty i1 ?t"]) (simp add: keeps_def)
  next
    case (3 i1 pos off r1 t1 y2)
    let ?ids = "pre @ x # y2 # post"
    have g: "grown lv (Suc n) ?ids" using r(1) 3(3) unfolding grown_def by blast
    let ?t = "write_index_value i1 off y t1"
    obtain r' where st: "stored_at valid t lv (Suc n) (length pre0) ?t ?ids r'" "index_rec ?key y r'"
        "index_ok (bt_conf t) (bt_nodes ?t) ?ids (lv ! n)"
      using index_stored [OF s c n(2) y refl g ql 3(2)] by blast
    have so: "store_ok valid ?t (lv[Suc n := ?ids])" using stored_tree [OF s n(2) st(1) g] st(3) by simp
    have cm: "complete_but (bt_nodes ?t) (lv[Suc n := ?ids]) (Suc n) y2"
      using complete_stored(2) [OF n(2) cb(1,2) cb(3) st(1) _ r(1) refl] st(2) by (simp add: index_rec_def)
    have h: "rest \<noteq> [] \<longrightarrow> cmp (hd (node_recs (?ns (fst (hd rest))))) (hd (node_recs (?ns i))) \<le> 0" "path_ok cmp ?ns lv (Suc (Suc n)) rest"
      using path by simp_all
    note sp = stored_path [OF s c n(2) st(1) r(1) h(2) i h(1) r(4)]
    have w2: "work_ok cmp ?t (lv[Suc n := ?ids]) (Suc n) y2 rest" unfolding work_ok_def using cm sp n(2) by simp
    have hh: "root_bnode_id ?t = root_bnode_id t" "btree_height ?t = btree_height t" "bm_free_num ?t = bm_free_num t1"
      using st(1) by (simp_all add: stored_at_def same_head_def write_index_value_def set_node_def)
    have "place_index_record env t (?S, y, rt) force =
        Done (success, put_add_index_work env rest y2 (root_bnode_id t) [], vdfs4_mark_bnode_dirty i1 ?t)" using r(5) 3(1) by simp
    moreover have "keeps t lv n ?t" using stored_keeps [OF st(1)] .
    ultimately show ?thesis using so w2 hh 3(4)
      by (intro disjI2 exI [of _ "vdfs4_mark_bnode_dirty i1 ?t"] exI [of _ y2] exI [of _ ?ids]) (simp add: keeps_def work_ok_def)
  qed
qed

end

end
