(* ===== verification/Vdfs_Btree_Root.thy ===== *)
theory Vdfs_Btree_Root
  imports Vdfs_Btree_Index
begin

text \<open>
  A new root: when the root level has been split, a node with the index records of its two nodes
  becomes the root, and the tree is one level higher.
\<close>

section \<open>The node of the root\<close>

lemma node_append:
  assumes n: "node_ok c b" and k: "key_ok key nl" and f: "\<not> is_node_full b nl"
  shows "\<exists>b' r. insert_key_into_bnode c b key nl (int (length (node_recs b))) =
      Done (Inr (int (length (node_recs b)), bn_offs b' ! length (node_recs b)), b') \<and> node_ok c b' \<and>
    node_recs b' = node_recs b @ [r] \<and> placed_key key nl r \<and> node_head b' = node_head b \<and> d_free_space b' = d_free_space b - (nl + 4)"
proof -
  obtain blobs where l: "node_layout c b blobs" using n by (auto simp: node_ok_def)
  have len: "d_recs_count b = int (length (node_recs b))" "length (node_recs b) = length blobs"
    using node_layoutD(2) [OF l] node_recs_layout(2) [OF l] by simp_all
  obtain b' r where b: "insert_key_into_bnode c b key nl (int (length (node_recs b))) = Done (Inr (int (length (node_recs b)), bn_offs b ! length blobs), b')"
      "node_layout c b' (blobs @ [r])" "placed_key key nl r" "node_recs b' = node_recs b @ [r]" "node_head b' = node_head b"
      "d_free_space b' = d_free_space b - (nl + 4)"
      "take (Suc (length blobs)) (bn_offs b') = take (length blobs) (bn_offs b) @ bn_offs b ! length blobs # []"
    using place_key_item [OF l k, of "int (length (node_recs b))"] len f by auto
  have "bn_offs b' ! length blobs = take (Suc (length blobs)) (bn_offs b') ! length blobs" by simp
  also have "\<dots> = bn_offs b ! length blobs" unfolding b(7) using node_layoutD(5) [OF l] by (simp add: nth_append)
  finally show ?thesis using b len by (auto simp: node_ok_def)
qed

text \<open>One turn of the loop of \<^verbatim>\<open>build_new_root\<close>, on the node of the root.\<close>

lemma append_index:
  assumes n: "node_ok c b" and k: "key_ok key (key_len key + 4)" "key_len key \<le> 288" and f: "\<not> is_node_full b (key_len key + 4)"
    and ch: "0 \<le> child" "child < 4294967296"
  shows "\<exists>b' off r. insert_key_into_bnode c b key (key_len key + 4) (int (length (node_recs b))) = Done (Inr (int (length (node_recs b)), off), b') \<and>
    node_ok c (write_value b' off (le_bytes 4 child)) \<and> node_recs (write_value b' off (le_bytes 4 child)) = node_recs b @ [r] \<and>
    index_rec key child r \<and> node_head (write_value b' off (le_bytes 4 child)) = node_head b \<and>
    d_free_space (write_value b' off (le_bytes 4 child)) = d_free_space b - (key_len key + 8)"
proof -
  let ?n = "length (node_recs b)"
  obtain b' r where b: "insert_key_into_bnode c b key (key_len key + 4) (int ?n) = Done (Inr (int ?n, bn_offs b' ! ?n), b')" "node_ok c b'"
      "node_recs b' = node_recs b @ [r]" "placed_key key (key_len key + 4) r" "node_head b' = node_head b"
      "d_free_space b' = d_free_space b - (key_len key + 4 + 4)"
    using node_append [OF n k(1) f] by blast
  have kk: "8 \<le> key_len key" "key_len key \<le> int (length key)" using k(1) by (simp_all add: key_ok_def)
  note iv = index_value [OF kk(1) k(2) kk(2) b(4) ch]
  have r: "node_recs b' ! ?n = r" "?n < length (node_recs b')" using b(3) by simp_all
  note w = write_value_ok [OF b(2) r(2) refl, unfolded r(1), OF _ iv(3), unfolded iv(2), OF kk(1)]
  show ?thesis
    using b(1,3,5,6) iv(1) w by (intro exI [of _ b'] exI [of _ "bn_offs b' ! ?n"] exI [of _ "take (nat (key_len r)) r @ le_bytes 4 child"])
      (simp add: list_update_append iv(2))
qed

context tree_keys
begin

lemma fill_two:
  assumes ty: "tree_node (bt_conf t) (bt_nodes t) x" "tree_node (bt_conf t) (bt_nodes t) y"
    and v: "valid (hd (node_recs (bt_nodes t x)))" "valid (hd (node_recs (bt_nodes t y)))"
    and nx: "d_next (bt_nodes t x) = y" "d_next (bt_nodes t y) = 0" and w: "x \<noteq> w" "y \<noteq> w"
    and rd: "vdfs4_get_bnode env t y = success" and range: "x < 4294967296" "y < 4294967296"
    and b0: "node_ok (bt_conf t) (bt_nodes t w)" "node_recs (bt_nodes t w) = []" "d_free_space (bt_nodes t w) = node_size (bt_conf t) - 40"
      "4096 \<le> node_size (bt_conf t)"
  shows "\<exists>b r1 r2 t'. fill_root (Suc (Suc fuel)) env w x 0 t = Done (success, t') \<and> bt_nodes t' = (bt_nodes t)(w := b) \<and>
    same_head t t' \<and> bm_data t' = bm_data t \<and> (bits_ok t' = bits_ok t) \<and> bt_last_table_index t' = bt_last_table_index t \<and>
    node_ok (bt_conf t) b \<and> node_recs b = [r1, r2] \<and> node_head b = node_head (bt_nodes t w) \<and>
    index_rec (hd (node_recs (bt_nodes t x))) x r1 \<and> index_rec (hd (node_recs (bt_nodes t y))) y r2"
proof -
  let ?c = "bt_conf t" and ?kx = "hd (node_recs (bt_nodes t x))" and ?ky = "hd (node_recs (bt_nodes t y))"
  have first: "\<exists>off. get_record ?c (bt_nodes t i) 0 = Done (Inr off) \<and> rec_at (bt_nodes t i) off = hd (node_recs (bt_nodes t i)) \<and>
      hd (node_recs (bt_nodes t i)) \<in> set (node_recs (bt_nodes t i))" if tn: "tree_node ?c (bt_nodes t) i" for i
  proof -
    have ne: "node_recs (bt_nodes t i) \<noteq> []" using tn by (simp add: tree_node_def)
    obtain blobs where l: "node_layout ?c (bt_nodes t i) blobs" "d_recs_count (bt_nodes t i) = int (length (node_recs (bt_nodes t i)))"
      using tree_node_layout [OF tn] by blast
    show ?thesis using get_record_ok [OF l(1), of 0] l(2) ne by (auto simp: hd_conv_nth)
  qed
  obtain ox where ox: "get_record ?c (bt_nodes t x) 0 = Done (Inr ox)" "rec_at (bt_nodes t x) ox = ?kx" "?kx \<in> set (node_recs (bt_nodes t x))"
    using first [OF ty(1)] by blast
  obtain oy where oy: "get_record ?c (bt_nodes t y) 0 = Done (Inr oy)" "rec_at (bt_nodes t y) oy = ?ky" "?ky \<in> set (node_recs (bt_nodes t y))"
    using first [OF ty(2)] by blast
  note kx = record_key [OF ty(1) ox(3) v(1)] and ky = record_key [OF ty(2) oy(3) v(2)]
  have pos: "0 < x" "0 < y" using ty by (simp_all add: tree_node_def)
  have f1: "\<not> is_node_full (bt_nodes t w) (key_len ?kx + 4)" "\<not> is_node_full (bt_nodes t w) (record_len ?kx)"
    using b0(3,4) kx by (simp_all add: is_node_full_def)
  obtain b1 o1 r1 where b1: "insert_key_into_bnode ?c (bt_nodes t w) ?kx (key_len ?kx + 4) 0 = Done (Inr (0, o1), b1)"
      "node_ok ?c (write_value b1 o1 (le_bytes 4 x))" "node_recs (write_value b1 o1 (le_bytes 4 x)) = [r1]" "index_rec ?kx x r1"
      "node_head (write_value b1 o1 (le_bytes 4 x)) = node_head (bt_nodes t w)"
      "d_free_space (write_value b1 o1 (le_bytes 4 x)) = node_size ?c - 40 - (key_len ?kx + 8)"
    using append_index [OF b0(1) kx(1,3) f1(1), of x] b0(2,3) pos range by auto
  define c1 t1 where "c1 = write_value b1 o1 (le_bytes 4 x)" and "t1 = set_node w c1 t"
  have t1: "write_index_value w o1 x (set_node w b1 t) = t1" by (simp add: write_index_value_def set_node_def t1_def c1_def)
  have f2: "\<not> is_node_full c1 (key_len ?ky + 4)" "\<not> is_node_full c1 (record_len ?ky)"
    using b1(6) b0(4) kx ky by (simp_all add: is_node_full_def c1_def)
  have oc: "node_ok ?c c1" using b1(2) by (simp add: c1_def)
  obtain b2 o2 r2 where b2: "insert_key_into_bnode ?c c1 ?ky (key_len ?ky + 4) 1 = Done (Inr (1, o2), b2)"
      "node_ok ?c (write_value b2 o2 (le_bytes 4 y))" "node_recs (write_value b2 o2 (le_bytes 4 y)) = [r1, r2]" "index_rec ?ky y r2"
      "node_head (write_value b2 o2 (le_bytes 4 y)) = node_head (bt_nodes t w)"
    using append_index [OF oc ky(1,3) f2(1), of y] b1(3,5) pos range by (auto simp: c1_def)
  define t' where "t' = write_index_value w o2 y (set_node w b2 t1)"
  have nodes1: "bt_nodes t1 w = c1" "bt_nodes t1 x = bt_nodes t x" "bt_nodes t1 y = bt_nodes t y" "bt_conf t1 = ?c" "bm_data t1 = bm_data t"
    using w by (simp_all add: t1_def set_node_def)
  have gn: "get_next_bnode env t1 x = Inr y" using rd nx(1) nodes1 pos by (simp add: get_next_bnode_def INVALID_NODE_ID_def vdfs4_get_bnode_def)
  have nodes': "bt_nodes t' y = bt_nodes t y" "bt_nodes t' = (bt_nodes t)(w := write_value b2 o2 (le_bytes 4 y))"
    using w by (auto simp: t'_def t1_def write_index_value_def set_node_def)
  have gn': "get_next_bnode env t' y = Inl ENOENT" using nx(2) nodes'(1) by (simp add: get_next_bnode_def INVALID_NODE_ID_def)
  have step2: "fill_root (Suc fuel) env w y 1 t1 = Done (success, t')"
    using nodes1 oy(1,2) f2(2) b2(1) gn' by (simp add: Let_def t'_def [symmetric])
  have step1: "fill_root (Suc (Suc fuel)) env w x 0 t = fill_root (Suc fuel) env w y 1 t1"
    by (subst fill_root.simps(2)) (simp add: Let_def ox(1,2) f1(2) b1(1) t1 gn del: fill_root.simps)
  have "same_head t t'" "bm_data t' = bm_data t" "bits_ok t' = bits_ok t" "bt_last_table_index t' = bt_last_table_index t"
    by (simp_all add: t'_def t1_def write_index_value_def set_node_def same_head_def bits_ok_def)
  moreover have "fill_root (Suc (Suc fuel)) env w x 0 t = Done (success, t')" unfolding step1 by (rule step2)
  ultimately show ?thesis using nodes'(2) b1(4) b2(2-5) by blast
qed

text \<open>The tree under its new root.\<close>

lemma tree_ok_root:
  assumes t: "tree_ok valid t lv" and c: "comp_fn (bt_conf t) = cmp" and l: "last lv = [x, y]"
    and h: "bt_conf t' = bt_conf t" "btree_height t' = btree_height t + 1" "root_bnode_id t' = w"
    and same: "\<And>i. i \<in> set (concat lv) \<Longrightarrow> bt_nodes t' i = bt_nodes t i"
    and w: "0 < w" "w \<notin> set (concat lv)"
    and b: "node_ok (bt_conf t) (bt_nodes t' w)" "node_recs (bt_nodes t' w) = [r1, r2]" "node_head (bt_nodes t' w) = (w, w, 0, 0, typ)"
    and r: "index_rec (hd (node_recs (bt_nodes t x))) x r1" "index_rec (hd (node_recs (bt_nodes t y))) y r2"
    and bits: "\<And>i. i \<in> set (concat lv) \<or> i = w \<Longrightarrow> i < bits_num t' \<and> bm_data t' ! nat i"
  shows "tree_ok valid t' (lv @ [[w]])"
proof -
  let ?c = "bt_conf t" and ?n = "length lv - 1" and ?kx = "hd (node_recs (bt_nodes t x))" and ?ky = "hd (node_recs (bt_nodes t y))"
  have ne: "lv \<noteq> []" "?n < length lv" using tree_okD(1) [OF t] by (simp_all add: Suc_leI)
  have ln: "lv ! ?n = [x, y]" using l ne by (simp add: last_conv_nth)
  have lo: "level_ok valid ?c (bt_nodes t) [x, y]" using tree_okD(2) [OF t ne(2)] ln by simp
  have vx: "valid ?kx" "valid ?ky" using level_hd(2) [OF lo] by simp_all
  have lt: "cmp ?kx ?ky < 0" using level_heads_less(1) [OF lo c, of "[]" x "[]" y "[]"] by simp
  have sk: "same_key ?kx r1" "same_key ?ky r2" using r by (simp_all add: index_rec_def)
  have xy: "x \<in> set (concat lv)" "y \<in> set (concat lv)" using in_levels [OF _ ne(2)] ln by simp_all
  define t0 where "t0 = t'\<lparr>btree_height := btree_height t, root_bnode_id := root_bnode_id t\<rparr>"
  have "tree_ok valid t0 lv"
    using h(1) same bits by (intro tree_ok_cong [OF t]) (simp_all add: t0_def)
  then have old: "level_ok valid ?c (bt_nodes t') (lv ! m)" "Suc m < length lv \<Longrightarrow> index_ok ?c (bt_nodes t') (lv ! Suc m) (lv ! m)" if "m < length lv" for m
    using tree_okD(2) [of valid t0 lv m] tree_okD(3) [of valid t0 lv m] that h(1) by (simp_all add: t0_def)
  have "cmp r1 r2 = cmp ?kx r2" using same_key_cmp [OF vx(1) sk(1)] .
  moreover have "sgn (cmp ?kx r2) = sgn (cmp ?kx ?ky)" using same_key_cmp_right [OF vx(2) sk(2) vx(1)] .
  ultimately have "cmp r1 r2 < 0" using lt by (auto simp: sgn_if split: if_splits)
  then have "ordered_recs valid cmp [r1, r2]" using same_key_valid [OF vx(1) sk(1)] same_key_valid [OF vx(2) sk(2)] by (simp add: ordered_recs_def)
  then have new: "level_ok valid ?c (bt_nodes t') [w]"
    using b w r c by (simp add: level_ok_def tree_node_def node_head_def index_rec_def)
  have ix: "index_ok ?c (bt_nodes t') [w] [x, y]"
  proof -
    have "sgn (cmp ?kx r1) = sgn (cmp ?kx ?kx)" "sgn (cmp ?ky r2) = sgn (cmp ?ky ?ky)"
      using same_key_cmp_right [OF vx(1) sk(1) vx(1)] same_key_cmp_right [OF vx(2) sk(2) vx(2)] by simp_all
    then have "cmp ?kx r1 = 0" "cmp ?ky r2 = 0" using cmp_refl vx by (simp_all add: sgn_0_0)
    then show ?thesis using b(2) r same [OF xy(1)] same [OF xy(2)] c by (simp add: index_ok_def index_rec_def)
  qed
  show ?thesis
    unfolding tree_ok_def levels_ok_def
  proof (intro conjI allI ballI impI)
    show "level_ok valid (bt_conf t') (bt_nodes t') ((lv @ [[w]]) ! m)" if "m < length (lv @ [[w]])" for m
      using old(1) [of m] new that h(1) by (cases "m < length lv") (auto simp: nth_append less_Suc_eq)
    show "index_ok (bt_conf t') (bt_nodes t') ((lv @ [[w]]) ! Suc m) ((lv @ [[w]]) ! m)" if "Suc m < length (lv @ [[w]])" for m
    proof (cases "Suc m < length lv")
      case True
      then show ?thesis using old(2) [of m] h(1) by (simp add: nth_append)
    next
      case False
      then have m: "m = ?n" "Suc m = length lv" using that by auto
      then show ?thesis using ix ln ne(2) h(1) by (simp add: nth_append)
    qed
    show "btree_height t' = int (length (lv @ [[w]]))" using h(2) tree_okD(4) [OF t] by simp
    show "root_bnode_id t' = hd (last (lv @ [[w]]))" using h(3) by simp
    show "distinct (concat (lv @ [[w]]))" using tree_okD(6) [OF t] w(2) by (simp del: set_concat)
    fix i assume "i \<in> set (concat (lv @ [[w]]))"
    then have "i \<in> set (concat lv) \<or> i = w" by auto
    then show "i < bits_num t'" "bm_data t' ! nat i" using bits by blast+
  qed simp
qed

lemma build_new_root_ok:
  assumes s: "store_ok valid t lv" and c: "comp_fn (bt_conf t) = cmp" and e: "env_ok (bt_conf t) env"
    and w: "work_ok cmp t lv n y []" and h: "btree_height t < 65535"
  shows "(\<exists>err. build_new_root env t (root_bnode_id t) = Done (Some err, t) \<and> \<not> roomy env 1 t) \<or>
    (\<exists>t' r. build_new_root env t (root_bnode_id t) = Done (success, t') \<and> store_ok valid t' (lv @ [[r]]) \<and>
      complete (bt_nodes t') (lv @ [[r]]) \<and> (\<forall>i \<in> set (concat lv). bt_nodes t' i = bt_nodes t i) \<and> bt_conf t' = bt_conf t)"
proof -
  note d = store_okD [OF s]
  let ?c = "bt_conf t"
  have n: "Suc n = length lv" using w by (simp add: work_ok_def)
  obtain x where x: "lv ! n = [x, y]"
      "\<And>m. Suc m < length lv \<Longrightarrow> map index_child (level_recs (bt_nodes t) (lv ! Suc m)) = lv ! m"
    using w n unfolding work_ok_def complete_but_def by auto
  have nl: "n < length lv" "last lv = [x, y]" using n x(1) by (simp, metis diff_Suc_1 last_conv_nth length_0_conv nat.distinct(1))
  have rt: "root_bnode_id t = x" using tree_okD(5) [OF d(1)] nl(2) by simp
  have lo: "level_ok valid ?c (bt_nodes t) [x, y]" using tree_okD(2) [OF d(1) nl(1)] x(1) by simp
  have xin: "x \<in> set (concat lv)" "y \<in> set (concat lv)" using in_levels [OF _ nl(1)] x(1) by simp_all
  have tn: "tree_node ?c (bt_nodes t) x" "tree_node ?c (bt_nodes t) y" using lo by (simp_all add: level_ok_def)
  have lk: "d_next (bt_nodes t x) = y" "d_next (bt_nodes t y) = 0" using lo by (simp_all add: level_ok_def)
  have v: "valid (hd (node_recs (bt_nodes t x)))" "valid (hd (node_recs (bt_nodes t y)))" using level_hd(2) [OF lo] by simp_all
  have bnd: "i < 4294967296" "i < bits_num t \<and> bm_data t ! nat i" if "i \<in> set (concat lv)" for i
    using tree_okD(7) [OF d(1) that] d(2) by (auto simp: bits_ok_def)
  have m: "be_rec_info env" "\<And>i. be_read env i = success" "\<And>i. node_shape ?c (be_page env i)" using e by (simp_all add: env_ok_def)
  consider err where "vdfs4_alloc_new_bnode env t = Done (Inl err, t)"
    | w t1 where "vdfs4_alloc_new_bnode env t = Done (Inr w, t1)" "0 < w" "w < bits_num t" "\<not> bm_data t ! nat w"
      "bits_ok t1" "bm_data t1 = (bm_data t)[nat w := True]" "same_head t t1"
      "bt_nodes t1 = (bt_nodes t)(w := (be_page env w)\<lparr>bn_id := w\<rparr>)"
      "bt_last_table_index t1 = max (bt_last_table_index t) w" "bm_free_num t1 = bm_free_num t - 1"
    using alloc_new_bnode_ok(1) [OF d(2), of env] by blast
  then show ?thesis
  proof cases
    case (1 err)
    then have "\<not> roomy env 1 t" using alloc_new_bnode_ok(2) [OF d(2), of env] by (auto simp: roomy_def)
    moreover have "build_new_root env t (root_bnode_id t) = Done (Some err, t)" using m(1) 1 by (simp add: build_new_root_def)
    ultimately show ?thesis by blast
  next
    case (2 w t1)
    have wn: "w \<notin> set (concat lv)" using bnd(2) [of w] 2(4) by blast
    have sh: "bt_conf t1 = ?c" "root_bnode_id t1 = x" "btree_height t1 = btree_height t" using 2(7) rt by (simp_all add: same_head_def)
    have "node_shape ?c ((be_page env w)\<lparr>bn_id := w\<rparr>)" using m(3) [of w] by (simp add: node_shape_def)
    then obtain b0 where b0: "vdfs4_init_new_node_descr ?c ((be_page env w)\<lparr>bn_id := w\<rparr>) VDFS4_NODE_INDEX = Done b0" "node_layout ?c b0 []"
        "node_recs b0 = []" "node_head b0 = (w, w, 0, 0, VDFS4_NODE_INDEX)" "d_free_space b0 = node_size ?c - 40"
      using init_new_node_ok [of ?c "(be_page env w)\<lparr>bn_id := w\<rparr>" VDFS4_NODE_INDEX] by auto
    define t2 where "t2 = set_node w b0 t1"
    have t2: "bt_conf t2 = ?c" "root_bnode_id t2 = x" "bm_data t2 = bm_data t1" "bt_nodes t2 w = b0" "bt_nodes t2 = (bt_nodes t)(w := b0)"
        "btree_height t2 = btree_height t" "bits_ok t2 = bits_ok t1" "bt_last_table_index t2 = bt_last_table_index t1"
      using sh 2(8) by (auto simp: t2_def set_node_def bits_ok_def)
    have old: "bt_nodes t2 i = bt_nodes t i" if "i \<in> set (concat lv)" for i using that wn t2(5) by auto
    have bits: "i < bits_num t2 \<and> bm_data t2 ! nat i" if "i \<in> set (concat lv) \<or> i = w" for i
      using that bnd(2) [of i] 2(2,3,6) t2(3) by (cases "nat i = nat w") (auto simp: nth_list_update)
    have gb: "vdfs4_get_bnode env t2 i = success" if "i \<in> set (concat lv)" for i using bits [of i] that m(2) by (simp add: vdfs4_get_bnode_def)
    have xw: "x \<noteq> w" "y \<noteq> w" using xin wn by auto
    have eqs: "bt_nodes t2 x = bt_nodes t x" "bt_nodes t2 y = bt_nodes t y" using old xin by simp_all
    have tn2: "tree_node ?c (bt_nodes t2) x" "tree_node ?c (bt_nodes t2) y" using tn eqs tree_node_cong by metis+
    have nob: "node_ok ?c b0" using b0(2) by (auto simp: node_ok_def)
    obtain fuel where fuel: "length (bm_data t2) + 1 = Suc (Suc fuel)" using 2(5) t2(7) by (cases "bm_data t2") (auto simp: bits_ok_def)
    obtain b r1 r2 t3 where f: "fill_root (Suc (Suc fuel)) env w x 0 t2 = Done (success, t3)" "bt_nodes t3 = (bt_nodes t2)(w := b)"
        "same_head t2 t3" "bm_data t3 = bm_data t2" "bits_ok t3 = bits_ok t2" "bt_last_table_index t3 = bt_last_table_index t2"
        "node_ok ?c b" "node_recs b = [r1, r2]" "node_head b = node_head b0"
        "index_rec (hd (node_recs (bt_nodes t x))) x r1" "index_rec (hd (node_recs (bt_nodes t y))) y r2"
      using fill_two [of t2 x y w env fuel, unfolded t2(1,4) eqs, OF tn2 v lk xw gb [OF xin(2)] bnd(1) [OF xin(1)] bnd(1) [OF xin(2)] nob b0(3,5) d(3)]
      by blast
    define t' where "t' = vdfs4_mark_bnode_dirty head_bnode_id (vdfs4_mark_bnode_dirty w (vdfs4_btree_set_root_id w (vdfs4_btree_inc_height t3)))"
    have run: "build_new_root env t (root_bnode_id t) = Done (success, t')"
    proof -
      have "d_next (bt_nodes t2 x) \<noteq> INVALID_NODE_ID" using lk(1) eqs tn(2) by (simp add: INVALID_NODE_ID_def tree_node_def)
      then show ?thesis
        using m(1) f(1) gb [OF xin(1)] fuel
        by (simp add: build_new_root_def 2(1) 2(8) sh b0(1) Let_def t2_def [symmetric] t2(2) t'_def del: fill_root.simps)
    qed
    have height: "btree_height t' = btree_height t + 1" 
      using f(3) t2(6) h tree_okD(4) [OF d(1)] u16_id [of "btree_height t + 1"]
      by (simp add: t'_def vdfs4_btree_set_root_id_def vdfs4_btree_inc_height_def same_head_def)
    have "bits_ok t' = bits_ok t3"
      by (simp add: t'_def vdfs4_btree_set_root_id_def vdfs4_btree_inc_height_def vdfs4_mark_bnode_dirty_def bits_ok_def)
    then have t': "bt_nodes t' = (bt_nodes t)(w := b)" "bt_conf t' = ?c" "root_bnode_id t' = w" "bm_data t' = bm_data t2"
        "bits_ok t' = bits_ok t1" "bt_last_table_index t' = max (bt_last_table_index t) w"
      using f(2-6) t2 2(9) by (simp_all add: t'_def vdfs4_btree_set_root_id_def vdfs4_btree_inc_height_def same_head_def)
    have same: "bt_nodes t' i = bt_nodes t i" if "i \<in> set (concat lv)" for i using that wn t'(1) by auto
    have tr: "tree_ok valid t' (lv @ [[w]])"
      using tree_ok_root [OF d(1) c nl(2) t'(2) height t'(3) same 2(2) wn, of r1 r2 VDFS4_NODE_INDEX] f(7-11) b0(4) t'(1,4) bits by simp
    have wb: "w < 2147483648" using 2(3) d(2) by (simp add: bits_ok_def)
    have li: "i \<le> bt_last_table_index t'" if "i \<in> set (concat (lv @ [[w]]))" for i
      using that d(7) [of i] t'(6) by (auto simp del: set_concat)
    have st: "store_ok valid t' (lv @ [[w]])"
      unfolding store_ok_def using tr 2(5) t'(2,5,6) d(3,5,6) height h li wb by (simp del: set_concat concat_append)
    have "complete (bt_nodes t') (lv @ [[w]])"
      unfolding complete_def
    proof (intro conjI allI impI)
      fix m assume m: "Suc m < length (lv @ [[w]])"
      show "map index_child (level_recs (bt_nodes t') ((lv @ [[w]]) ! Suc m)) = (lv @ [[w]]) ! m"
      proof (cases "Suc m < length lv")
        case True
        have "level_recs (bt_nodes t') (lv ! Suc m) = level_recs (bt_nodes t) (lv ! Suc m)"
          using same in_levels [OF _ True] by (intro level_recs_cong) simp
        then show ?thesis using x(2) [OF True] True by (simp add: nth_append)
      next
        case False
        then have "m = n" using m n by simp
        then show ?thesis using n x(1) t'(1) f(8,10,11) by (simp add: nth_append index_rec_def)
      qed
    qed simp
    then show ?thesis using run st same t'(2) by blast
  qed
qed

end

end
