(* ===== verification/Vdfs_Btree_Put.thy ===== *)
theory Vdfs_Btree_Put
  imports Vdfs_Btree_Root
begin

text \<open>
  The whole insertion: the work for the levels above is done up to the root, and the value of the new
  record is written.
\<close>

lemma keepsI:
  assumes "bt_conf t' = bt_conf t" "\<And>i. i \<in> set (concat lv) \<Longrightarrow> bt_nodes t' i = bt_nodes t i"
  shows "keeps t lv n t'"
  unfolding keeps_def
proof (intro conjI allI impI ballI)
  show "bt_nodes t' i = bt_nodes t i" if "m < length lv" "i \<in> set (lv ! m)" for m i using assms(2) [OF in_levels [OF that(2,1)]] .
qed (rule assms(1))

lemma roomy_mono: "roomy env k t \<Longrightarrow> j \<le> k \<Longrightarrow> roomy env j t"
  unfolding roomy_def by (meson of_nat_mono order_trans)

context tree_keys
begin

lemma process_ok:
  assumes "store_ok valid t lv" "comp_fn (bt_conf t) = cmp" "env_ok (bt_conf t) env" "work_ok cmp t lv n y stack" "btree_height t < 65535"
  shows "\<exists>t' lv'. process_todo env (put_add_index_work env stack y (root_bnode_id t) []) t = Done t' \<and> store_ok valid t' lv' \<and>
    length lv \<le> length lv' \<and> (\<forall>m \<le> n. lv' ! m = lv ! m) \<and> keeps t lv n t' \<and>
    (roomy env (Suc (length stack)) t \<longrightarrow> complete (bt_nodes t') lv')"
  using assms
proof (induction stack arbitrary: t lv n y)
  case Nil
  note p = Nil.prems
  show ?case
  proof (cases "be_todo env")
    case False
    then show ?thesis using p(1) by (intro exI [of _ t] exI [of _ lv]) (simp add: put_add_index_work_def keeps_def roomy_def)
  next
    case True
    have run: "process_todo env (put_add_index_work env [] y (root_bnode_id t) []) t = Done t1"
      if "build_new_root env t (root_bnode_id t) = Done (st, t1)" for st t1
      using that True by (simp add: put_add_index_work_def process_todo.simps(2) place_index_record_def)
    have n: "n < length lv" using p(4) by (simp add: work_ok_def)
    consider err where "build_new_root env t (root_bnode_id t) = Done (Some err, t)" "\<not> roomy env 1 t"
      | t' r where "build_new_root env t (root_bnode_id t) = Done (success, t')" "store_ok valid t' (lv @ [[r]])"
        "complete (bt_nodes t') (lv @ [[r]])" "\<forall>i \<in> set (concat lv). bt_nodes t' i = bt_nodes t i" "bt_conf t' = bt_conf t"
      using build_new_root_ok [OF p] by blast
    then show ?thesis
    proof cases
      case (1 err)
      then show ?thesis using run [OF 1(1)] p(1) by (intro exI [of _ t] exI [of _ lv]) (simp add: keeps_def)
    next
      case (2 t' r)
      have "(lv @ [[r]]) ! m = lv ! m" if "m \<le> n" for m using that n by (simp add: nth_append)
      moreover have "keeps t lv n t'" using 2(4) by (intro keepsI [OF 2(5)]) blast
      ultimately show ?thesis using run [OF 2(1)] 2(2,3) by (intro exI [of _ t'] exI [of _ "lv @ [[r]]"]) simp
    qed
  qed
next
  case (Cons a rest)
  obtain i ip il where a: "a = (i, ip, il)" by (cases a)
  note p = Cons.prems [unfolded a]
  show ?case
  proof (cases "be_todo env")
    case False
    then show ?thesis using p(1) by (intro exI [of _ t] exI [of _ lv]) (simp add: put_add_index_work_def keeps_def roomy_def)
  next
    case True
    let ?S = "(i, ip, il) # rest"
    have run: "process_todo env (put_add_index_work env ?S y (root_bnode_id t) []) t = process_todo env todo t1"
      if "place_index_record env t (?S, y, root_bnode_id t) True = Done (st, todo, t1)" for st todo t1
      using that True by (simp add: put_add_index_work_def process_todo.simps(2))
    have n: "Suc n < length lv" using p(4) by (simp add: work_ok_def)
    consider err t1 where "place_index_record env t (?S, y, root_bnode_id t) True = Done (Some err, [], t1)" "unchanged t lv t1" "\<not> roomy env 1 t"
      | t1 where "place_index_record env t (?S, y, root_bnode_id t) True = Done (success, [], t1)" "store_ok valid t1 lv"
        "complete (bt_nodes t1) lv" "keeps t lv n t1"
      | t1 y2 ids where "place_index_record env t (?S, y, root_bnode_id t) True =
          Done (success, put_add_index_work env rest y2 (root_bnode_id t1) [], t1)" "store_ok valid t1 (lv[Suc n := ids])"
        "work_ok cmp t1 (lv[Suc n := ids]) (Suc n) y2 rest" "keeps t lv n t1" "btree_height t1 = btree_height t" "bm_free_num t1 = bm_free_num t - 1"
      using place_index_ok [OF p(1-4), of "root_bnode_id t" True] by blast
    then show ?thesis
    proof cases
      case (1 err t1)
      have "keeps t lv n t1" using unchangedD(1,5) [OF 1(2)] by (intro keepsI) (simp_all add: same_head_def)
      moreover have "\<not> roomy env (Suc (length (a # rest))) t" using 1(3) roomy_mono [of env "Suc (length (a # rest))" t 1] by auto
      ultimately show ?thesis using run [OF 1(1)] unchanged_store [OF p(1) 1(2)] a by (intro exI [of _ t1] exI [of _ lv]) simp
    next
      case (2 t1)
      then show ?thesis using run [OF 2(1)] a by (intro exI [of _ t1] exI [of _ lv]) simp
    next
      case (3 t1 y2 ids)
      have cf: "bt_conf t1 = bt_conf t" using 3(4) by (simp add: keeps_def)
      have h1: "btree_height t1 < 65535" using 3(5) p(5) by simp
      obtain t' lv' where r: "process_todo env (put_add_index_work env rest y2 (root_bnode_id t1) []) t1 = Done t'" "store_ok valid t' lv'"
          "length (lv[Suc n := ids]) \<le> length lv'" "\<forall>m \<le> Suc n. lv' ! m = lv[Suc n := ids] ! m" "keeps t1 (lv[Suc n := ids]) (Suc n) t'"
          "roomy env (Suc (length rest)) t1 \<longrightarrow> complete (bt_nodes t') lv'"
        using Cons.IH [OF 3(2) _ _ 3(3) h1] p(2,3) cf by auto
      have "\<forall>m \<le> n. lv' ! m = lv ! m" using r(4) by simp
      moreover have "keeps t lv n t'"
        unfolding keeps_def
      proof (intro conjI allI impI ballI)
        show "bt_conf t' = bt_conf t" using r(5) cf by (simp add: keeps_def)
        fix m j assume m: "m \<le> n" "m < length lv" "j \<in> set (lv ! m)"
        have "bt_nodes t1 j = bt_nodes t j" using 3(4) m by (simp add: keeps_def)
        moreover have "lv[Suc n := ids] ! m = lv ! m" "m \<le> Suc n" using m(1) by simp_all
        then have "bt_nodes t' j = bt_nodes t1 j" using r(5) m(2,3) unfolding keeps_def length_list_update by metis
        ultimately show "bt_nodes t' j = bt_nodes t j" by simp
      qed
      moreover have "roomy env (Suc (length (a # rest))) t \<longrightarrow> complete (bt_nodes t') lv'" using r(6) 3(6) by (simp add: roomy_def)
      ultimately show ?thesis using run [OF 3(1)] r(1-3) a by (intro exI [of _ t'] exI [of _ lv']) simp
    qed
  qed
qed

text \<open>The value behind the key makes the record that was given.\<close>

lemma placed_value:
  assumes "placed_key r (record_len r) u" "rec_ok r" "8 \<le> key_len r" "key_len r \<le> int (length r)"
  shows "take (nat (key_len r)) u @ mem_read r (key_len r) (int (length r) - key_len r) = r"
proof -
  let ?k = "key_len r"
  have l: "record_len r = int (length r)" using rec_ok_len(1) [OF assms(2)] .
  have u: "mem_read u 0 ?k = mem_write (mem_read r 0 ?k) 6 (le_bytes 2 (record_len r))" using assms(1) by (simp add: placed_key_def)
  have "le_bytes 2 (record_len r) = mem_read r 6 2" using assms(2) l by (simp add: rec_ok_def)
  also have "\<dots> = mem_read (mem_read r 0 ?k) 6 2" using assms(3) by (subst mem_read_mem_read) simp_all
  finally have "mem_read u 0 ?k = mem_write (mem_read r 0 ?k) 6 (mem_read (mem_read r 0 ?k) 6 2)" using u by simp
  moreover have "in_mem (mem_read r 0 ?k) 6 2" using assms(3,4) by (simp add: in_mem_def)
  ultimately have "mem_read u 0 ?k = mem_read r 0 ?k" by (simp add: mem_write_same)
  then have "take (nat ?k) u = take (nat ?k) r" by (simp add: mem_read_def)
  moreover have "mem_read r ?k (int (length r) - ?k) = drop (nat ?k) r" using assms(3,4) by (simp add: mem_read_def nat_diff_distrib')
  ultimately show ?thesis by simp
qed

text \<open>A value is written in a leaf; nothing else changes.\<close>

lemma write_leaf:
  assumes s: "store_ok valid t lv" and c: "comp_fn (bt_conf t) = cmp" and ce: "cell_at (bt_nodes t) (hd lv) (i, pos, off) q"
    and r: "r = level_recs (bt_nodes t) (hd lv) ! q" and k: "key_len r + int (length v) = int (length r)"
    and t': "t' = set_node i (write_value (bt_nodes t i) off v) t"
  shows "store_ok valid t' lv" "level_recs (bt_nodes t') (hd lv) = (level_recs (bt_nodes t) (hd lv))[q := take (nat (key_len r)) r @ v]"
    "complete (bt_nodes t) lv \<longrightarrow> complete (bt_nodes t') lv"
proof -
  note d = store_okD [OF s]
  have ne: "lv \<noteq> []" "0 < length lv" "hd lv = lv ! 0" using tree_okD(1) [OF d(1)] by (simp_all add: hd_conv_nth)
  have lo: "level_ok valid (bt_conf t) (bt_nodes t) (hd lv)" using tree_okD(2) [OF d(1) ne(2)] ne(3) by simp
  have di: "distinct (hd lv)" using tree_okD(8) [OF d(1) ne(2)] ne(3) by simp
  have ns: "bt_nodes t' = (bt_nodes t)(i := write_value (bt_nodes t i) off v)" by (simp add: t' set_node_def)
  note w = write_cell [OF lo di c ce r k ns]
  show "level_recs (bt_nodes t') (hd lv) = (level_recs (bt_nodes t) (hd lv))[q := take (nat (key_len r)) r @ v]" by (rule w(2))
  have h: "bt_conf t' = bt_conf t" "btree_height t' = btree_height t" "root_bnode_id t' = root_bnode_id t" "bm_data t' = bm_data t"
      "bits_ok t' = bits_ok t" "bt_last_table_index t' = bt_last_table_index t" by (simp_all add: t' set_node_def bits_ok_def)
  have oth: "bt_nodes t' j = bt_nodes t j" if "m < length lv" "m \<noteq> 0" "j \<in> set (lv ! m)" for m j
  proof -
    have "j \<noteq> i" using level_disjoint [OF d(1) ne(2) that] w(4) ne(3) by auto
    then show ?thesis by (simp add: ns)
  qed
  have "tree_ok valid t' (lv[0 := hd lv])"
  proof (rule tree_ok_update [OF d(1) ne(2) h(1-3) w(1)])
    show "comp_fn (bt_conf t) (hd (node_recs (bt_nodes t' j))) z = comp_fn (bt_conf t) (hd (node_recs (bt_nodes t j))) z" if "j \<in> set (lv ! 0)" for j z
      using w(3) [of j z] that c ne(3) by simp
    show "j < bits_num t' \<and> bm_data t' ! nat j" if "j \<in> set (concat lv) \<union> set (hd lv)" for j
      using tree_okD(7) [OF d(1), of j] that in_levels [of j lv 0] ne h(4) by auto
  qed (use ne di oth in auto)
  then have "tree_ok valid t' lv" using ne(3) by simp
  then show "store_ok valid t' lv" using s h by (simp add: store_ok_def)
  have "level_recs (bt_nodes t') (lv ! Suc m) = level_recs (bt_nodes t) (lv ! Suc m)" if "Suc m < length lv" for m
    using oth [OF that] by (intro level_recs_cong) simp
  then show "complete (bt_nodes t) lv \<longrightarrow> complete (bt_nodes t') lv" by (simp add: complete_def)
qed

end

lemma path_length: "path_ok cmp ns lv n s \<Longrightarrow> n + length s = length lv"
  by (induction s arbitrary: n) (auto, fastforce)

lemma complete_leaf:
  assumes c: "complete (bt_nodes t) lv" "lv \<noteq> []" and st: "stored_at valid t lv 0 q t' ids r"
  shows "ids = lv ! 0 \<Longrightarrow> complete (bt_nodes t') lv"
    "lv ! 0 = pre @ x # post \<Longrightarrow> ids = pre @ x # y # post \<Longrightarrow> complete_but (bt_nodes t') (lv[0 := ids]) 0 y"
proof -
  have up: "map index_child (level_recs (bt_nodes t') (lv ! Suc m)) = lv ! m" if "Suc m < length lv" for m
  proof -
    have "level_recs (bt_nodes t') (lv ! Suc m) = level_recs (bt_nodes t) (lv ! Suc m)"
      using st that by (intro level_recs_cong) (simp add: stored_at_def)
    then show ?thesis using c(1) that by (simp add: complete_def)
  qed
  have one: "length (last lv) = 1" using c(1) by (simp add: complete_def)
  show "complete (bt_nodes t') lv" using up one by (simp add: complete_def)
  show "complete_but (bt_nodes t') (lv[0 := ids]) 0 y" if g: "lv ! 0 = pre @ x # post" "ids = pre @ x # y # post"
    unfolding complete_but_def
  proof (intro exI conjI allI impI)
    show "lv[0 := ids] ! 0 = pre @ x # y # post" using c(2) g by simp
    show "map index_child (level_recs (bt_nodes t') (lv[0 := ids] ! Suc k)) = (if k = 0 then pre @ x # post else lv[0 := ids] ! k)"
      if "Suc k < length (lv[0 := ids])" for k
      using up [of k] that g(1) by (cases "k = 0") simp_all
    show "if Suc 0 = length (lv[0 := ids]) then pre = [] \<and> post = [] else length (last (lv[0 := ids])) = 1"
    proof (cases "Suc 0 = length lv")
      case True
      then obtain l0 where "lv = [l0]" by (metis length_0_conv length_Suc_conv)
      then show ?thesis using one g(1) by simp
    next
      case False
      then show ?thesis using one c(2) by (cases lv rule: rev_cases) (auto simp: list_update_append split: nat.splits)
    qed
  qed
qed

context tree_keys
begin

text \<open>A record has been placed in the leaves: the work it leaves is done.\<close>

lemma leaf_work:
  assumes s: "store_ok valid t lv" and c: "comp_fn (bt_conf t) = cmp" and e: "env_ok (bt_conf t) env" and cm: "complete (bt_nodes t) lv"
    and h: "btree_height t < 65535" and x: "lv ! 0 = pre @ x # post" and path: "path_ok cmp (bt_nodes t) lv 0 ((x, xp, xl) # rest)"
    and p: "placed_at valid t lv 0 key nl q t1 ids place r"
    and todo: "ids = lv ! 0 \<and> todo = [] \<or>
      (\<exists>y. ids = pre @ x # y # post \<and> y \<notin> set (concat lv) \<and> todo = put_add_index_work env rest y (root_bnode_id t) [] \<and> bm_free_num t1 = bm_free_num t - 1)"
  shows "\<exists>t' lv'. process_todo env todo t1 = Done t' \<and> store_ok valid t' lv' \<and> hd lv' = ids \<and> bt_conf t' = bt_conf t \<and>
    (\<forall>i \<in> set ids. bt_nodes t' i = bt_nodes t1 i) \<and> (roomy env (length lv + 1) t \<longrightarrow> complete (bt_nodes t') lv')"
proof -
  note d = store_okD [OF s]
  have ne: "lv \<noteq> []" "0 < length lv" using tree_okD(1) [OF d(1)] by simp_all
  have st: "stored_at valid t lv 0 q t1 ids r" using placed_stored [OF p] .
  have cf: "bt_conf t1 = bt_conf t" "root_bnode_id t1 = root_bnode_id t" "btree_height t1 = btree_height t" using p by (simp_all add: placed_at_def same_head_def)
  from todo show ?thesis
  proof
    assume a: "ids = lv ! 0 \<and> todo = []"
    have "store_ok valid t1 (lv[0 := ids])" using stored_tree [OF s ne(2) st] a by (simp add: grown_def)
    then have "store_ok valid t1 lv" using a by simp
    moreover have "complete (bt_nodes t1) lv" using complete_leaf(1) [OF cm ne(1) st] a by simp
    ultimately show ?thesis using a cf(1) ne(1) by (intro exI [of _ t1] exI [of _ lv]) (simp add: hd_conv_nth)
  next
    assume "\<exists>y. ids = pre @ x # y # post \<and> y \<notin> set (concat lv) \<and> todo = put_add_index_work env rest y (root_bnode_id t) [] \<and> bm_free_num t1 = bm_free_num t - 1"
    then obtain y where y: "ids = pre @ x # y # post" "y \<notin> set (concat lv)" "todo = put_add_index_work env rest y (root_bnode_id t1) []"
        "bm_free_num t1 = bm_free_num t - 1" using cf(2) by auto
    let ?lv = "lv[0 := ids]"
    have g: "grown lv 0 ids" using x y(1,2) unfolding grown_def by blast
    have so: "store_ok valid t1 ?lv" using stored_tree [OF s ne(2) st g] by simp
    have xin: "x \<in> set (lv ! 0)" using x by simp
    have vx: "valid (hd (node_recs (bt_nodes t x)))" using level_hd(2) [OF tree_okD(2) [OF d(1) ne(2)] xin] .
    have hx: "rest \<noteq> [] \<longrightarrow> cmp (hd (node_recs (bt_nodes t (fst (hd rest))))) (hd (node_recs (bt_nodes t x))) \<le> 0"
        "cmp (hd (node_recs (bt_nodes t x))) (hd (node_recs (bt_nodes t x))) \<le> 0" "path_ok cmp (bt_nodes t) lv (Suc 0) rest"
      using path cmp_refl [OF vx] by simp_all
    note sp = stored_path [OF s c ne(2) st [unfolded y(1)] x hx(3) xin hx(1,2), folded y(1)]
    have w: "work_ok cmp t1 ?lv 0 y rest"
      unfolding work_ok_def using complete_leaf(2) [OF cm ne(1) st x y(1)] sp ne(2) by simp
    have c1: "comp_fn (bt_conf t1) = cmp" "env_ok (bt_conf t1) env" "btree_height t1 < 65535" using c e h cf by simp_all
    obtain t' lv' where r: "process_todo env todo t1 = Done t'" "store_ok valid t' lv'" "length ?lv \<le> length lv'" "\<forall>m \<le> 0. lv' ! m = ?lv ! m"
        "keeps t1 ?lv 0 t'" "roomy env (Suc (length rest)) t1 \<longrightarrow> complete (bt_nodes t') lv'"
      using process_ok [OF so c1(1,2) w c1(3)] y(3) by blast
    have "lv' \<noteq> []" using r(3) ne by auto
    then have "hd lv' = ids" using r(4) ne by (simp add: hd_conv_nth)
    moreover have "\<forall>i \<in> set ids. bt_nodes t' i = bt_nodes t1 i" using r(5) ne by (simp add: keeps_def)
    moreover have "bt_conf t' = bt_conf t" using r(5) cf by (simp add: keeps_def)
    moreover have "roomy env (length lv + 1) t \<longrightarrow> roomy env (Suc (length rest)) t1"
      using y(4) path_length [OF path] by (auto simp: roomy_def)
    ultimately show ?thesis using r(1,2,6) by blast
  qed
qed

lemma insert_new_ok:
  assumes s: "store_ok valid t lv" and c: "comp_fn (bt_conf t) = cmp" and e: "env_ok (bt_conf t) env" and cm: "complete (bt_nodes t) lv"
    and h: "btree_height t < 65535" and k: "valid r" "rec_ok r" "length r \<le> 600"
    and f: "\<not> 0 < cmp (hd (level_recs (bt_nodes t) (hd lv))) r"
  shows "\<exists>q. found_at cmp (level_recs (bt_nodes t) (hd lv)) r q \<and>
    (if cmp (level_recs (bt_nodes t) (hd lv) ! q) r = 0 then vdfs4_btree_insert env t r force = Done (Some EEXIST, t)
     else \<exists>st t' lv'. vdfs4_btree_insert env t r force = Done (st, t') \<and> store_ok valid t' lv' \<and> bt_conf t' = bt_conf t \<and>
       (if st = success then level_recs (bt_nodes t') (hd lv') =
            take (Suc q) (level_recs (bt_nodes t) (hd lv)) @ r # drop (Suc q) (level_recs (bt_nodes t) (hd lv))
        else level_recs (bt_nodes t') (hd lv') = level_recs (bt_nodes t) (hd lv)) \<and>
       (roomy env (length lv + 1) t \<longrightarrow> st = success \<and> complete (bt_nodes t') lv'))"
proof -
  note d = store_okD [OF s]
  have ne: "lv \<noteq> []" "0 < length lv" "hd lv = lv ! 0" using tree_okD(1) [OF d(1)] by (simp_all add: hd_conv_nth)
  let ?rs = "level_recs (bt_nodes t) (lv ! 0)"
  have rd: "readable env lv" and tr: "True \<longrightarrow> be_stack env" using e by (simp_all add: env_ok_def readable_def)
  obtain pre x post p stack where t1: "lv ! 0 = pre @ x # post" "vdfs4_btree_traverse env t r True 1 = Done (Inr (x, int p), stack, [])"
      "p < length (node_recs (bt_nodes t x))" "found_at cmp ?rs r (length (level_recs (bt_nodes t) pre) + p)"
      "path_ok cmp (bt_nodes t) lv 0 stack" "stack \<noteq> []" "fst (hd stack) = x"
    using btree_traverse_ok [OF d(1) rd c k(1) tr f] cm unfolding ne(3) by blast
  obtain xp xl rest where stk: "stack = (x, xp, xl) # rest" using t1(6,7) by (cases stack) auto
  let ?q = "length (level_recs (bt_nodes t) pre) + p"
  note kl = valid_len [OF k(1)] and rl = rec_ok_len(1) [OF k(2)]
  have ko: "key_ok r (record_len r)" using kl rl k(3) by (simp add: key_ok_def)
  have par: "parent_item t stack = Done rest" using parent_path [OF t1(5) [unfolded stk] tree_okD(4) [OF d(1)]] stk by simp
  have xq: "node_recs (bt_nodes t x) ! p = ?rs ! ?q" using t1(1,3) by (simp add: nth_append)
  let ?place = "place_key_in_bnode env t stack x (int p) r (record_len r) force"
  have run: "vdfs4_btree_insert env t r force = bind_outcome ?place (\<lambda>(place, todo, t1). bind_outcome (process_todo env todo t1) (\<lambda>t2.
      case place of Inl e \<Rightarrow> Done (Some e, t2)
      | Inr (nid, pos, off) \<Rightarrow> Done (success, set_node nid (write_value (bt_nodes t2 nid) off (mem_read r (key_len r) (int (length r) - key_len r))) t2)))"
  proof -
    have v: "u32 (record_len r - key_len r) = int (length r) - key_len r" using kl rl k(3) by (intro u32_id [THEN trans]) simp_all
    have g: "get_value_pointer r = Inr (key_len r)" "in_mem r (key_len r) (int (length r) - key_len r)"
      using kl by (simp_all add: get_value_pointer_def in_mem_def)
    note defs = vdfs4_btree_insert_def btree_insert_at_level_def place_data_at_level_def VDFS4_BTREE_LEAF_LVL_def
    show ?thesis
    proof (cases ?place)
      case (Done a)
      obtain place todo t2 where a: "a = (place, todo, t2)" by (cases a) auto
      show ?thesis unfolding defs t1(2)
        by (cases "process_todo env todo t2") (auto simp: Done a Let_def v g split: sum.split)
    qed (simp_all add: defs t1(2))
  qed
  consider "cmp (?rs ! ?q) r = 0" "?place = Done (Inl EEXIST, [], t)"
    | err t2 where "cmp (?rs ! ?q) r \<noteq> 0" "?place = Done (Inl err, [], t2)" "unchanged t lv t2" "\<not> roomy env 1 t"
    | i pos off u t2 ids todo where "cmp (?rs ! ?q) r \<noteq> 0" "?place = Done (Inr (i, pos, off), todo, t2)"
      "placed_at valid t lv 0 r (record_len r) ?q t2 ids (i, pos, off) u"
      "ids = lv ! 0 \<and> todo = [] \<or>
      (\<exists>y. ids = pre @ x # y # post \<and> y \<notin> set (concat lv) \<and> todo = put_add_index_work env rest y (root_bnode_id t) [] \<and> bm_free_num t2 = bm_free_num t - 1)"
    using place_key_ok [OF s c e ne(2) t1(1,3,4) ko k(1) par, of force] unfolding xq by (auto split: if_splits)
  then show ?thesis
  proof cases
    case 1
    then have "vdfs4_btree_insert env t r force = Done (Some EEXIST, t)" using run by simp
    then show ?thesis using t1(4) 1(1) unfolding ne(3) by auto
  next
    case (2 err t2)
    have "vdfs4_btree_insert env t r force = Done (Some err, t2)" using run 2(2) by simp
    moreover have "store_ok valid t2 lv" using unchanged_store [OF s 2(3)] .
    moreover have "level_recs (bt_nodes t2) (lv ! 0) = ?rs" using level_recs_unchanged [OF 2(3) ne(2), of "lv ! 0"] by simp
    moreover have "\<not> roomy env (length lv + 1) t" using 2(4) roomy_mono [of env "length lv + 1" t 1] by auto
    moreover have "bt_conf t2 = bt_conf t" using unchangedD(1) [OF 2(3)] by (simp add: same_head_def)
    ultimately show ?thesis using t1(4) 2(1) ne(3) by (intro exI [of _ ?q]) (auto intro!: exI [of _ lv])
  next
    case (3 i pos off u t2 ids todo)
    obtain t3 lv' where l: "process_todo env todo t2 = Done t3" "store_ok valid t3 lv'" "hd lv' = ids" "bt_conf t3 = bt_conf t"
        "\<forall>i \<in> set ids. bt_nodes t3 i = bt_nodes t2 i" "roomy env (length lv + 1) t \<longrightarrow> complete (bt_nodes t3) lv'"
      using leaf_work [OF s c e cm h t1(1) t1(5) [unfolded stk] 3(3,4)] by blast
    have lr: "level_recs (bt_nodes t2) ids = take (Suc ?q) ?rs @ u # drop (Suc ?q) ?rs" and pk: "placed_key r (record_len r) u"
      and ce: "cell_at (bt_nodes t2) ids (i, pos, off) (Suc ?q)" using 3(3) by (simp_all add: placed_at_def)
    have ql: "?q < length ?rs" using t1(4) by (simp add: found_at_def)
    have lr3: "level_recs (bt_nodes t3) (hd lv') = take (Suc ?q) ?rs @ u # drop (Suc ?q) ?rs"
      using lr l(3,5) level_recs_cong [of ids "bt_nodes t3" "bt_nodes t2"] by simp
    have ce3: "cell_at (bt_nodes t3) (hd lv') (i, pos, off) (Suc ?q)" using ce cell_at_cong [of ids "bt_nodes t3" "bt_nodes t2"] l(3,5) by simp
    let ?v = "mem_read r (key_len r) (int (length r) - key_len r)"
    have u: "u = level_recs (bt_nodes t3) (hd lv') ! Suc ?q" unfolding lr3 using ql by (simp add: nth_append)
    have ku: "key_len u = key_len r" using key_len_same [OF placed_same_key [OF pk]] kl rl by simp
    have kv: "key_len u + int (length ?v) = int (length u)"
    proof -
      have "int (length ?v) = int (length r) - key_len r" using kl by (intro length_mem_read) (simp add: in_mem_def)
      then show ?thesis using pk rl ku by (simp add: placed_key_def)
    qed
    have c3: "comp_fn (bt_conf t3) = cmp" using l(4) c by simp
    define t' where "t' = set_node i (write_value (bt_nodes t3 i) off ?v) t3"
    note wl = write_leaf [OF l(2) c3 ce3 u kv t'_def]
    have "take (nat (key_len u)) u @ ?v = r" using placed_value [OF pk k(2)] kl ku by simp
    then have "level_recs (bt_nodes t') (hd lv') = take (Suc ?q) ?rs @ r # drop (Suc ?q) ?rs"
      unfolding wl(2) lr3 using ql by (simp add: list_update_append)
    moreover have "vdfs4_btree_insert env t r force = Done (success, t')" using run 3(2) l(1) by (simp add: t'_def)
    moreover have "bt_conf t' = bt_conf t" using l(4) by (simp add: t'_def set_node_def)
    ultimately show ?thesis using t1(4) 3(1) wl(1,3) l(6) ne(3) by (intro exI [of _ ?q]) (auto intro!: exI [of _ lv'])
  qed
qed

end

end
