(* ===== verification/Vdfs_Bnode_Props.thy ===== *)
theory Vdfs_Bnode_Props
  imports Vdfs_Bnode_Split
begin

text \<open>
  The properties of single B-tree nodes: insertion and deletion refine the list operations,
  they undo each other, the search finds the right position, and what they leave passes the
  sanity check. Each property has an instance on a small extents-tree node.
\<close>

section \<open>A small node\<close>

text \<open>An extents-tree record: generic key, object, block, and the extent.\<close>

definition demo_rec :: "int \<Rightarrow> int \<Rightarrow> bytes" where
  "demo_rec obj iblock = [69, 88, 84, 75] @ le_bytes 2 24 @ le_bytes 2 40 @ le_bytes 8 obj @ le_bytes 8 iblock
     @ le_bytes 8 500 @ le_bytes 8 3"

definition demo_conf :: btree_conf where
  "demo_conf = \<lparr>node_size = 256, max_record_len = 40, comp_fn = vdfs4_exttree_cmpfn, bt_mount_finished = True\<rparr>"

text \<open>Two records; the second in key order comes first in the record area.\<close>

definition demo_node :: bnode where
  "demo_node = \<lparr>bn_id = 1, d_magic = [0x4e, 0x64, 0, 0], d_free_space = 128, d_recs_count = 2,
     d_node_id = 1, d_prev = 0, d_next = 0, d_type = 2,
     bn_data = replicate 32 0 @ demo_rec 7 20 @ demo_rec 7 10 @ replicate 144 0,
     bn_offs = [72, 32, 112] @ replicate 60 0\<rparr>"

lemma demo_rec_length [simp]: "length (demo_rec obj iblock) = 40"
  by (simp add: demo_rec_def)

lemma demo_rec_ok: "rec_ok (demo_rec obj iblock)"
  by (simp add: rec_ok_def) (simp add: demo_rec_def mem_read_def numeral_eq_Suc)

lemma demo_layout: "node_layout demo_conf demo_node [demo_rec 7 20, demo_rec 7 10]"
  by (simp add: node_layout_def node_shape_def conf_ok_def demo_conf_def demo_rec_ok)
     (simp add: demo_node_def mem_read_def add_mset_commute)

lemma demo_node_ok: "node_ok demo_conf demo_node"
  using demo_layout by (auto simp: node_ok_def)

lemma demo_recs: "node_recs demo_node = [demo_rec 7 10, demo_rec 7 20]"
proof -
  have "mem_read (bn_data demo_node) 72 40 = demo_rec 7 10" "mem_read (bn_data demo_node) 32 40 = demo_rec 7 20"
    by (simp_all add: demo_node_def mem_read_def)
  then have "rec_in (bn_data demo_node) 72 = demo_rec 7 10" "rec_in (bn_data demo_node) 32 = demo_rec 7 20"
    using rec_in_eq [OF _ demo_rec_ok] by simp_all
  then show ?thesis by (simp add: node_recs_def rec_at_def) (simp add: rec_at_def demo_node_def numeral_2_eq_2)
qed

section \<open>Insertion and deletion\<close>

text \<open>
  C7. Inserting a record into a node that is not full always succeeds, keeps the layout of the
  node (records without gaps or overlap, offsets and free space consistent) and inserts exactly
  that record at that position into the node's list of records; the other records keep their
  bytes and their order.
\<close>

theorem insert_into_node_refines:
  assumes "node_ok c b" "rec_ok r" "\<not> is_node_full b (int (length r))" "0 \<le> pos" "pos \<le> d_recs_count b"
  shows "\<exists>b'. vdfs4_insert_into_node c b r pos = Done (success, b') \<and> node_ok c b'
    \<and> node_recs b' = take (nat pos) (node_recs b) @ r # drop (nat pos) (node_recs b)
    \<and> node_head b' = node_head b"
  using assms insert_into_node_ok unfolding node_ok_def by blast

theorem insert_into_node_refines_witness:
  "\<exists>b'. vdfs4_insert_into_node demo_conf demo_node (demo_rec 7 15) 1 = Done (success, b') \<and> node_ok demo_conf b'
    \<and> node_recs b' = [demo_rec 7 10, demo_rec 7 15, demo_rec 7 20]"
proof -
  have "\<not> is_node_full demo_node (int (length (demo_rec 7 15)))" "(1::int) \<le> d_recs_count demo_node"
    by (simp_all add: is_node_full_def demo_node_def)
  from insert_into_node_refines [OF demo_node_ok demo_rec_ok this(1) _ this(2)]
  show ?thesis by (auto simp: demo_recs)
qed

text \<open>
  C37. Deleting a record always succeeds on a well-formed node, keeps the layout, removes exactly
  the record with that index from the list of records and gives its bytes and its cell back to
  the free space.
\<close>

theorem delete_from_node_refines:
  assumes "node_ok c b" "0 \<le> i" "i < d_recs_count b" "length (node_recs b ! nat i) \<le> 600"
  shows "\<exists>b'. delete_from_node c b i = Done (success, b') \<and> node_ok c b'
    \<and> node_recs b' = take (nat i) (node_recs b) @ drop (Suc (nat i)) (node_recs b)
    \<and> node_head b' = node_head b
    \<and> d_free_space b' = d_free_space b + int (length (node_recs b ! nat i)) + 4"
  using assms delete_from_node_ok unfolding node_ok_def by blast

theorem delete_from_node_refines_witness:
  "\<exists>b'. delete_from_node demo_conf demo_node 0 = Done (success, b') \<and> node_ok demo_conf b'
    \<and> node_recs b' = [demo_rec 7 20] \<and> d_free_space b' = 172"
proof -
  have "(0::int) < d_recs_count demo_node" "length (node_recs demo_node ! nat 0) = 40"
      "d_free_space demo_node = 128"
    by (simp_all add: demo_recs) (simp_all add: demo_node_def)
  with delete_from_node_refines [OF demo_node_ok, of 0] show ?thesis by (auto simp: demo_recs)
qed

text \<open>
  Deleting a record right after inserting it gives back the list of records and the free
  space the node had before.
\<close>

theorem insert_delete_roundtrip:
  assumes "node_ok c b" "rec_ok r" "length r \<le> 600" "\<not> is_node_full b (int (length r))"
    "0 \<le> pos" "pos \<le> d_recs_count b"
  shows "\<exists>b1 b2. vdfs4_insert_into_node c b r pos = Done (success, b1)
    \<and> delete_from_node c b1 pos = Done (success, b2)
    \<and> node_recs b2 = node_recs b \<and> d_free_space b2 = d_free_space b \<and> node_head b2 = node_head b"
proof -
  obtain blobs where l: "node_layout c b blobs" using assms(1) by (auto simp: node_ok_def)
  obtain b1 where b1: "vdfs4_insert_into_node c b r pos = Done (success, b1)" "node_layout c b1 (blobs @ [r])"
      "node_recs b1 = take (nat pos) (node_recs b) @ r # drop (nat pos) (node_recs b)"
      "node_head b1 = node_head b"
    using insert_into_node_ok [OF l assms(2,4,5,6)] by blast
  note d = node_layoutD [OF l] and d1 = node_layoutD [OF b1(2)]
  have p: "nat pos \<le> length (node_recs b)" "length (node_recs b) = length blobs"
    using assms(5,6) d(2) node_recs_layout(2) [OF l] by auto
  have nth: "node_recs b1 ! nat pos = r"
    unfolding b1(3) using p(1) by (metis length_take min.absorb2 nth_append_length)
  have i: "pos < d_recs_count b1" using d(2) d1(2) assms(6) by simp
  obtain b2 where b2: "delete_from_node c b1 pos = Done (success, b2)"
      "node_recs b2 = take (nat pos) (node_recs b1) @ drop (Suc (nat pos)) (node_recs b1)"
      "node_head b2 = node_head b1" "d_free_space b2 = d_free_space b1 + int (length r) + 4"
    using delete_from_node_ok [OF b1(2) assms(5) i] nth assms(3) by auto
  have "node_recs b2 = node_recs b" unfolding b2(2) b1(3) using p(1) by simp
  moreover have "d_free_space b2 = d_free_space b" using b2(4) d(8) d1(8) by simp
  ultimately show ?thesis using b1(1,4) b2(1,3) by auto
qed

theorem insert_delete_roundtrip_witness:
  "\<exists>b1 b2. vdfs4_insert_into_node demo_conf demo_node (demo_rec 7 15) 2 = Done (success, b1)
    \<and> delete_from_node demo_conf b1 2 = Done (success, b2) \<and> node_recs b2 = [demo_rec 7 10, demo_rec 7 20]"
proof -
  have "\<not> is_node_full demo_node (int (length (demo_rec 7 15)))" "(2::int) \<le> d_recs_count demo_node"
      "length (demo_rec 7 15) \<le> 600"
    by (simp_all add: is_node_full_def demo_node_def)
  from insert_delete_roundtrip [OF demo_node_ok demo_rec_ok this(3,1) _ this(2)]
  show ?thesis by (auto simp: demo_recs)
qed

text \<open>
  Every well-formed node of at most a thousand records passes the sanity check that guards
  the write-out, so the operations above never produce a node the check refuses.
\<close>

theorem sanity_check_accepts:
  assumes "node_ok c b" "d_recs_count b \<le> 1000"
  shows "vdfs4_bnode_sanity_check c b = Done True"
  using assms sanity_check_ok node_layoutD(2) unfolding node_ok_def by fastforce

theorem sanity_check_accepts_witness: "vdfs4_bnode_sanity_check demo_conf demo_node = Done True"
  by (rule sanity_check_accepts [OF demo_node_ok]) (simp add: demo_node_def)

text \<open>
  C24. Splitting a full node succeeds for every record and node size the trees use: both nodes
  come out well-formed and not empty, together they hold the old records in order with the new
  key at its position (its value still to be written), and the position reported for it is
  right.
\<close>

theorem split_records_correct:
  assumes "node_ok c left" "node_shape c right" "key_ok nk nl" "4096 \<le> node_size c"
    "\<forall>x \<in> set (node_recs left). length x \<le> 600" "is_node_full left nl" "pos \<le> length (node_recs left)"
  shows "\<exists>st. split_records c left right nk nl (int pos) = Done (success, st)
      \<and> node_ok c (sp_left st) \<and> node_ok c (sp_right st)
      \<and> node_recs (sp_left st) \<noteq> [] \<and> node_recs (sp_right st) \<noteq> []
      \<and> (\<exists>x. placed_key nk nl x
          \<and> node_recs (sp_left st) @ node_recs (sp_right st) = take pos (node_recs left) @ x # drop pos (node_recs left))
      \<and> sp_res st = Some (split_place pos (sp_left st) (sp_right st))"
  using split_records_ok [OF assms] by blast

text \<open>A page-sized node with 92 records, one record short of full.\<close>

definition demo_full_recs :: "bytes list" where
  "demo_full_recs = map (\<lambda>i. demo_rec 7 (int i)) [0..<92]"

definition demo_big_conf :: btree_conf where
  "demo_big_conf = \<lparr>node_size = 4096, max_record_len = 40, comp_fn = vdfs4_exttree_cmpfn, bt_mount_finished = True\<rparr>"

definition demo_full :: bnode where
  "demo_full = \<lparr>bn_id = 1, d_magic = [0x4e, 0x64, 0, 0], d_free_space = 8, d_recs_count = 92,
     d_node_id = 1, d_prev = 0, d_next = 0, d_type = 2,
     bn_data = replicate 32 0 @ concat demo_full_recs @ replicate 384 0,
     bn_offs = map (\<lambda>i. 32 + 40 * int i) [0..<93] @ replicate 930 0\<rparr>"

lemma blob_offsets_same_length:
  "\<forall>x \<in> set xs. length x = n \<Longrightarrow> blob_offsets s xs = map (\<lambda>i. s + int n * int i) [0..<length xs]"
proof (induction xs arbitrary: s)
  case (Cons x xs)
  then show ?case by (simp add: map_upt_Suc algebra_simps del: upt_Suc)
qed simp

lemma demo_full_length: "length demo_full_recs = 92" "length (concat demo_full_recs) = 3680"
proof -
  show "length demo_full_recs = 92" by (simp add: demo_full_recs_def)
  have "length (concat (map (\<lambda>i. demo_rec 7 (int i)) [0..<n])) = 40 * n" for n by (induction n) auto
  then show "length (concat demo_full_recs) = 3680" by (simp add: demo_full_recs_def)
qed

lemma demo_full_layout: "node_layout demo_big_conf demo_full demo_full_recs"
proof -
  have cells: "take 92 (bn_offs demo_full) = blob_offsets 32 demo_full_recs"
  proof -
    have "\<forall>x \<in> set demo_full_recs. length x = 40" by (auto simp: demo_full_recs_def)
    from blob_offsets_same_length [OF this] show ?thesis
      by (simp add: demo_full_length demo_full_def take_map)
  qed
  have "bn_offs demo_full ! 92 = 3712" by (simp add: demo_full_def nth_append)
  moreover have "mem_read (bn_data demo_full) 32 3680 = concat demo_full_recs"
    by (simp add: demo_full_def mem_read_def demo_full_length)
  moreover have "\<forall>x \<in> set demo_full_recs. rec_ok x" by (auto simp: demo_full_recs_def demo_rec_ok)
  moreover have "node_shape demo_big_conf demo_full" "92 < length (bn_offs demo_full)"
    by (simp_all add: node_shape_def conf_ok_def demo_big_conf_def demo_full_def demo_full_length)
  ultimately show ?thesis
    using cells by (simp add: node_layout_def demo_full_length) (simp add: demo_full_def demo_big_conf_def)
qed

theorem split_records_correct_witness:
  "\<exists>st. split_records demo_big_conf demo_full (demo_full\<lparr>bn_id := 2\<rparr>) (demo_rec 8 0) 40 92 = Done (success, st)
    \<and> node_recs (sp_left st) \<noteq> [] \<and> node_recs (sp_right st) \<noteq> []"
proof -
  have l: "node_ok demo_big_conf demo_full" using demo_full_layout by (auto simp: node_ok_def)
  have r: "node_shape demo_big_conf (demo_full\<lparr>bn_id := 2\<rparr>)"
    using node_layoutD(1) [OF demo_full_layout] by (simp add: node_shape_def)
  have k: "key_ok (demo_rec 8 0) 40"
  proof -
    have "key_len (demo_rec 8 0) = 24" by code_simp
    then show ?thesis using rec_ok_len(1) [OF demo_rec_ok, of 8 0] by (simp add: key_ok_def)
  qed
  have "set (node_recs demo_full) = set demo_full_recs"
    using node_recs_mset [OF demo_full_layout] by (metis mset_eq_setD)
  then have s: "\<forall>x \<in> set (node_recs demo_full). length x \<le> 600" by (auto simp: demo_full_recs_def)
  have f: "is_node_full demo_full 40" by (simp add: is_node_full_def demo_full_def)
  have p: "92 \<le> length (node_recs demo_full)"
    using node_recs_layout(2) [OF demo_full_layout] by (simp add: demo_full_length)
  have n: "4096 \<le> node_size demo_big_conf" by (simp add: demo_big_conf_def)
  from split_records_correct [OF l r k n s f p] show ?thesis by auto
qed

section \<open>Search\<close>

text \<open>
  C38. Binary search in a node whose records are in key order, for the extents, catalog (both
  comparisons) and extended-attribute trees: \<^verbatim>\<open>ENOENT\<close> exactly when the key precedes all
  records, otherwise the position of the last record that does not follow the key. In
  particular it ends and never reads outside the node.
\<close>

theorem binary_search_correct:
  assumes "node_ok c b" "node_recs b \<noteq> []" "ordered_recs valid (comp_fn c) (node_recs b)" "valid key"
    "(valid, comp_fn c) \<in> {(\<lambda>_. True, vdfs4_exttree_cmpfn), (cattree_key_valid, vdfs4_cattree_cmpfn),
      (cattree_key_valid, vdfs4_cattree_cmpfn_ci), (xattrtree_key_valid, vdfs4_xattrtree_cmpfn)}"
  shows "if 0 < comp_fn c (node_recs b ! 0) key then binary_search c b key = Done (Inl ENOENT)
    else \<exists>p. binary_search c b key = Done (Inr (int p, bn_offs b ! p))
      \<and> found_at (comp_fn c) (node_recs b) key p"
proof -
  have "key_order valid (comp_fn c)"
    using assms(5) exttree_keys.key_order_axioms cattree_keys.key_order_axioms
      cattree_ci_keys.key_order_axioms xattrtree_keys.key_order_axioms by auto
  moreover obtain blobs where "node_layout c b blobs" using assms(1) by (auto simp: node_ok_def)
  ultimately show ?thesis using key_order.binary_search_ok [OF _ _ refl] assms(2-4) by blast
qed

theorem binary_search_correct_witness:
  "\<exists>p. binary_search demo_conf demo_node (demo_rec 7 12) = Done (Inr (int p, bn_offs demo_node ! p))
    \<and> found_at vdfs4_exttree_cmpfn (node_recs demo_node) (demo_rec 7 12) p"
proof -
  have c: "comp_fn demo_conf = vdfs4_exttree_cmpfn" by (simp add: demo_conf_def)
  have o: "ordered_recs (\<lambda>_. True) (comp_fn demo_conf) (node_recs demo_node)"
    unfolding c demo_recs by (simp add: ordered_recs_def) code_simp
  have n: "\<not> 0 < comp_fn demo_conf (node_recs demo_node ! 0) (demo_rec 7 12)"
    unfolding c demo_recs by code_simp
  have "node_recs demo_node \<noteq> []" by (simp add: demo_recs)
  from binary_search_correct [OF demo_node_ok this o, of "demo_rec 7 12"] n
  show ?thesis by (simp only: c if_False) simp
qed

text \<open>
  The case-sensitive catalog comparison finds no difference between two whole keys exactly
  when parent, name and object agree, and it orders keys by parent first.
\<close>

theorem cattree_cmpfn_equal:
  assumes "cattree_key_valid a" "cattree_key_valid b"
  shows "(vdfs4_cattree_cmpfn a b = 0 \<longleftrightarrow> cattree_parent_id a = cattree_parent_id b
      \<and> cattree_full_name a = cattree_full_name b \<and> cattree_object_id a = cattree_object_id b)
    \<and> (cattree_parent_id a < cattree_parent_id b \<longrightarrow> vdfs4_cattree_cmpfn a b < 0)"
proof -
  have eq0: "name_cmp x y = 0 \<longleftrightarrow> x = y" for x y
  proof (induction x arbitrary: y)
    case (Cons u x)
    then show ?case by (cases y) auto
  qed auto
  have "vdfs4_cattree_cmpfn a b = 0 \<longleftrightarrow> cattree_parent_id a = cattree_parent_id b
      \<and> cattree_full_name a = cattree_full_name b \<and> cattree_object_id a = cattree_object_id b"
    using cattree_cmpfn_seq(1) [OF assms] eq0 [of "cattree_full_name a" "cattree_full_name b"]
    by (auto simp: Let_def sgn_0_0 split: if_splits)
  moreover have "cattree_parent_id a < cattree_parent_id b \<longrightarrow> vdfs4_cattree_cmpfn a b < 0"
    by (simp add: vdfs4_cattree_cmpfn_def)
  ultimately show ?thesis by blast
qed

definition demo_cat_key :: "int \<Rightarrow> bytes \<Rightarrow> int \<Rightarrow> bytes" where
  "demo_cat_key parent name obj = [0, 0, 0, 0] @ le_bytes 2 32 @ le_bytes 2 32 @ le_bytes 8 parent @ le_bytes 8 obj
     @ [1, int (length name)] @ name"

theorem cattree_cmpfn_equal_witness:
  "vdfs4_cattree_cmpfn (demo_cat_key 5 [97, 98] 9) (demo_cat_key 5 [97, 98, 99] 9) \<noteq> 0"
proof -
  have "cattree_key_valid (demo_cat_key 5 [97, 98] 9)" "cattree_key_valid (demo_cat_key 5 [97, 98, 99] 9)"
      "cattree_full_name (demo_cat_key 5 [97, 98] 9) \<noteq> cattree_full_name (demo_cat_key 5 [97, 98, 99] 9)"
    by code_simp+
  with cattree_cmpfn_equal [of "demo_cat_key 5 [97, 98] 9" "demo_cat_key 5 [97, 98, 99] 9"]
  show ?thesis by blast
qed

end
