(* ===== verification/Vdfs_Btree_Props.thy ===== *)
theory Vdfs_Btree_Props
  imports Vdfs_Btree_Put Vdfs_Bnode_Props
begin

text \<open>
  The properties of the trees as a whole, for the four kinds of trees a volume has.
\<close>

section \<open>The trees of a volume\<close>

text \<open>
  The comparison functions of the extents tree, the catalog (both ways to compare names) and the
  tree of extended attributes, each with the keys it is meant for.
\<close>

definition tree_kinds :: "((bytes \<Rightarrow> bool) \<times> (bytes \<Rightarrow> bytes \<Rightarrow> int)) set" where
  "tree_kinds = {(exttree_key_whole, vdfs4_exttree_cmpfn), (cattree_key_whole, vdfs4_cattree_cmpfn),
     (cattree_key_whole, vdfs4_cattree_cmpfn_ci), (xattrtree_key_whole, vdfs4_xattrtree_cmpfn)}"

lemma tree_kinds_keys: "(valid, cmp) \<in> tree_kinds \<Longrightarrow> tree_keys valid cmp"
  using exttree.tree_keys_axioms cattree.tree_keys_axioms cattree_ci.tree_keys_axioms xattrtree.tree_keys_axioms
  by (auto simp: tree_kinds_def)

section \<open>Example\<close>

text \<open>A page-sized node with the given records in order.\<close>

definition demo_bnode :: "int \<Rightarrow> int \<Rightarrow> int \<Rightarrow> int \<Rightarrow> bytes list \<Rightarrow> bnode" where
  "demo_bnode nid prev nxt typ recs =
     (let n = length recs; l = length (concat recs) in
      \<lparr>bn_id = nid, d_magic = [0x4e, 0x64, 0, 0], d_free_space = 4056 - 4 * int n - int l, d_recs_count = int n,
       d_node_id = nid, d_prev = prev, d_next = nxt, d_type = typ,
       bn_data = replicate 32 0 @ concat recs @ replicate (4064 - l) 0,
       bn_offs = blob_offsets 32 recs @ (32 + int l) # replicate (1022 - n) 0\<rparr>)"

lemma demo_bnode_layout:
  assumes "\<forall>r \<in> set recs. rec_ok r" "4 * length recs + length (concat recs) \<le> 4056"
  shows "node_layout demo_big_conf (demo_bnode nid prev nxt typ recs) recs"
    "node_recs (demo_bnode nid prev nxt typ recs) = recs"
proof -
  let ?b = "demo_bnode nid prev nxt typ recs"
  have m: "mem_read (bn_data ?b) 32 (int (length (concat recs))) = concat recs"
    by (simp add: demo_bnode_def Let_def mem_read_def)
  have c: "take (length recs) (bn_offs ?b) = blob_offsets 32 recs" by (simp add: demo_bnode_def Let_def)
  show "node_layout demo_big_conf ?b recs"
    using assms m c
    by (simp add: node_layout_def node_shape_def conf_ok_def demo_big_conf_def) (simp add: demo_bnode_def Let_def nth_append)
  have "node_recs ?b = map (rec_in (bn_data ?b)) (blob_offsets 32 recs)"
    using c by (simp add: node_recs_def rec_at_def [abs_def]) (simp add: demo_bnode_def Let_def)
  then show "node_recs ?b = recs" using map_rec_in [OF m] assms(1) by simp
qed

lemma demo_bnode_head [simp]:
  "bn_id (demo_bnode nid prev nxt typ recs) = nid" "d_node_id (demo_bnode nid prev nxt typ recs) = nid"
  "d_prev (demo_bnode nid prev nxt typ recs) = prev" "d_next (demo_bnode nid prev nxt typ recs) = nxt"
  by (simp_all add: demo_bnode_def Let_def)

text \<open>An index record, and a tree whose root knows one leaf; a second leaf is dangling.\<close>

definition demo_index :: "int \<Rightarrow> int \<Rightarrow> int \<Rightarrow> bytes" where
  "demo_index obj iblock child = [69, 88, 84, 75] @ le_bytes 2 24 @ le_bytes 2 28 @ le_bytes 8 obj @ le_bytes 8 iblock
     @ le_bytes 4 child"

definition demo_tree :: vdfs4_btree where
  "demo_tree = \<lparr>bt_conf = demo_big_conf,
     bt_nodes = (\<lambda>i. if i = 1 then demo_bnode 1 0 0 1 [demo_index 7 10 2]
        else if i = 2 then demo_bnode 2 0 3 2 [demo_rec 7 10, demo_rec 7 20]
        else demo_bnode i 2 0 2 [demo_rec 7 30]),
     root_bnode_id = 1, btree_height = 2, bm_data = [True, True, True, True, False, False, False, False],
     bm_first_free_id = 4, bm_free_num = 4, bt_last_table_index = 7, bt_dirty = []\<rparr>"

definition demo_env :: btree_env where
  "demo_env = \<lparr>be_read = (\<lambda>_. success), be_create = (\<lambda>_ _. success), be_page = (\<lambda>i. demo_bnode i 0 0 2 []),
     be_rec_info = True, be_stack = True, be_todo = True\<rparr>"

lemma demo_index_length [simp]: "length (demo_index obj iblock child) = 28"
  by (simp add: demo_index_def)

lemma demo_index_ok: "rec_ok (demo_index obj iblock child)"
  by (simp add: rec_ok_def) (simp add: demo_index_def mem_read_def numeral_eq_Suc)

lemma demo_tree_recs:
  "node_recs (bt_nodes demo_tree 1) = [demo_index 7 10 2]"
  "node_recs (bt_nodes demo_tree 2) = [demo_rec 7 10, demo_rec 7 20]"
  "node_recs (bt_nodes demo_tree 3) = [demo_rec 7 30]"
  by (simp_all add: demo_tree_def demo_bnode_layout(2) demo_index_ok demo_rec_ok)

lemma demo_tree_links:
  "bn_id (bt_nodes demo_tree i) = i" "d_node_id (bt_nodes demo_tree i) = i"
  "d_prev (bt_nodes demo_tree 1) = 0" "d_next (bt_nodes demo_tree 1) = 0"
  "d_prev (bt_nodes demo_tree 2) = 0" "d_next (bt_nodes demo_tree 2) = 3"
  "d_prev (bt_nodes demo_tree 3) = 2" "d_next (bt_nodes demo_tree 3) = 0"
  "bt_conf demo_tree = demo_big_conf" "comp_fn demo_big_conf = vdfs4_exttree_cmpfn"
  by (simp_all add: demo_tree_def demo_big_conf_def)

lemma demo_tree_ok: "tree_ok exttree_key_whole demo_tree [[2, 3], [1]]"
proof -
  have n: "node_ok demo_big_conf (bt_nodes demo_tree i)" if "i \<in> {1, 2, 3}" for i
    unfolding node_ok_def using that
    by (auto simp: demo_tree_def intro!: exI demo_bnode_layout(1) demo_index_ok demo_rec_ok)
  have t: "tree_node demo_big_conf (bt_nodes demo_tree) i" if "i \<in> {1, 2, 3}" for i
    unfolding tree_node_def using that n [OF that] demo_tree_recs demo_tree_links by auto
  have w: "exttree_key_whole (demo_rec 7 10)" "exttree_key_whole (demo_rec 7 20)" "exttree_key_whole (demo_rec 7 30)"
      "exttree_key_whole (demo_index 7 10 2)" "vdfs4_exttree_cmpfn (demo_rec 7 10) (demo_rec 7 20) < 0"
      "vdfs4_exttree_cmpfn (demo_rec 7 10) (demo_rec 7 30) < 0" "vdfs4_exttree_cmpfn (demo_rec 7 20) (demo_rec 7 30) < 0"
      "vdfs4_exttree_cmpfn (demo_rec 7 10) (demo_index 7 10 2) = 0" "key_len (demo_index 7 10 2) = 24"
      "index_child (demo_index 7 10 2) = 2"
    by code_simp+
  have o: "ordered_recs exttree_key_whole vdfs4_exttree_cmpfn (level_recs (bt_nodes demo_tree) ids)" if "ids \<in> {[2, 3], [1]}" for ids
    using that w by (auto simp: ordered_recs_def demo_tree_recs)
  have l: "level_ok exttree_key_whole demo_big_conf (bt_nodes demo_tree) ids" if "ids \<in> {[2, 3], [1]}" for ids
    using that t o [OF that] by (auto simp: level_ok_def demo_tree_links)
  have i: "index_ok demo_big_conf (bt_nodes demo_tree) [1] [2, 3]"
    using w by (simp add: index_ok_def demo_tree_recs demo_tree_links)
  have "levels_ok exttree_key_whole demo_big_conf (bt_nodes demo_tree) [[2, 3], [1]]"
    using l i by (auto simp: levels_ok_def less_Suc_eq)
  moreover have "btree_height demo_tree = 2" "root_bnode_id demo_tree = 1"
      "bm_data demo_tree = [True, True, True, True, False, False, False, False]" by (simp_all add: demo_tree_def)
  ultimately show ?thesis by (auto simp: tree_ok_def demo_tree_links)
qed

lemma demo_readable: "readable demo_env lv"
  by (simp add: readable_def demo_env_def)

section \<open>Search\<close>

text \<open>
  C15. A search in a tree of any of the four kinds ends, and it finds the last record of the leaves
  that does not follow the key, or answers \<^verbatim>\<open>ENOENT\<close> when the key precedes all records; also when the
  levels above the leaves do not know all nodes below them.
\<close>

theorem btree_find_correct:
  assumes "(valid, comp_fn (bt_conf t)) \<in> tree_kinds" "tree_ok valid t lv" "readable env lv" "valid key" "be_rec_info env"
  shows "if 0 < comp_fn (bt_conf t) (hd (level_recs (bt_nodes t) (hd lv))) key
    then vdfs4_btree_find env t key = Done (Inl ENOENT)
    else \<exists>place q. vdfs4_btree_find env t key = Done (Inr place) \<and> located (bt_nodes t) (hd lv) place q
      \<and> found_at (comp_fn (bt_conf t)) (level_recs (bt_nodes t) (hd lv)) key q"
  using tree_keys.btree_find_ok [OF tree_kinds_keys [OF assms(1)] assms(2,3) refl assms(4,5)] .

theorem btree_find_correct_witness:
  "\<exists>place q. vdfs4_btree_find demo_env demo_tree (demo_rec 7 35) = Done (Inr place)
    \<and> located (bt_nodes demo_tree) [2, 3] place q
    \<and> found_at vdfs4_exttree_cmpfn [demo_rec 7 10, demo_rec 7 20, demo_rec 7 30] (demo_rec 7 35) q"
proof -
  have k: "(exttree_key_whole, comp_fn (bt_conf demo_tree)) \<in> tree_kinds" by (simp add: tree_kinds_def demo_tree_links)
  have v: "exttree_key_whole (demo_rec 7 35)" "\<not> 0 < vdfs4_exttree_cmpfn (demo_rec 7 10) (demo_rec 7 35)" by code_simp+
  have "be_rec_info demo_env" by (simp add: demo_env_def)
  from btree_find_correct [OF k demo_tree_ok demo_readable v(1) this] v(2) show ?thesis
    by (simp add: demo_tree_recs demo_tree_links)
qed

text \<open>
  C18. From any record of the leaves, the step to the next record arrives at the record that follows
  it, across the border of nodes, and answers \<^verbatim>\<open>ENOENT\<close> only after the last one.
\<close>

theorem next_record_correct:
  assumes "(valid, comp_fn (bt_conf t)) \<in> tree_kinds" "tree_ok valid t lv" "readable env lv"
    "located (bt_nodes t) (hd lv) (i, pos, off) q"
  shows "if Suc q < length (level_recs (bt_nodes t) (hd lv))
    then \<exists>place. vdfs4_get_next_btree_record env t i pos = Done (Inr place) \<and> located (bt_nodes t) (hd lv) place (Suc q)
    else vdfs4_get_next_btree_record env t i pos = Done (Inl ENOENT)"
  using tree_keys.next_record_ok [OF tree_kinds_keys [OF assms(1)] assms(2,3) refl assms(4)] .

theorem next_record_correct_witness:
  "\<exists>place. vdfs4_get_next_btree_record demo_env demo_tree 2 1 = Done (Inr place)
    \<and> located (bt_nodes demo_tree) [2, 3] place 2"
proof -
  have k: "(exttree_key_whole, comp_fn (bt_conf demo_tree)) \<in> tree_kinds" by (simp add: tree_kinds_def demo_tree_links)
  have "level_ok exttree_key_whole demo_big_conf (bt_nodes demo_tree) ([] @ 2 # [3])"
    using tree_okD(2) [OF demo_tree_ok, of 0] by (simp add: demo_tree_links)
  from level_node_record [OF this, of 1] obtain off where "rec_at (bt_nodes demo_tree 2) off = demo_rec 7 20"
    by (auto simp: demo_tree_recs)
  then have "located (bt_nodes demo_tree) (hd [[2, 3], [1]]) (2, 1, off) 1"
    unfolding located_def prod.case by (intro exI [of _ "[]"] exI [of _ "[3]"] exI [of _ 1]) (simp add: demo_tree_recs)
  from next_record_correct [OF k demo_tree_ok demo_readable this] show ?thesis by (simp add: demo_tree_recs numeral_2_eq_2)
qed


section \<open>Insertion\<close>

text \<open>A stored key is found where it is.\<close>

context key_order
begin

lemma found_at_self:
  assumes o: "ordered_recs valid cmp rs" and k: "k \<in> set rs" and f: "found_at cmp rs k p"
  shows "rs ! p = k"
proof -
  obtain j where j: "j < length rs" "rs ! j = k" using k by (auto simp: in_set_conv_nth)
  have v: "valid k" "valid (rs ! p)" "p < length rs" using o k f by (auto simp: ordered_recs_def found_at_def)
  have "cmp (rs ! j) (rs ! p) < 0" if "j < p" using o v(3) that sorted_wrt_nth_less [of "\<lambda>a b. cmp a b < 0" rs j p] by (simp add: ordered_recs_def)
  then have "\<not> j < p" using j(2) f cmp_swap [OF v(2,1)] by (auto simp: found_at_def sgn_if split: if_splits)
  moreover have "\<not> p < j" using f j cmp_refl [OF v(1)] by (auto simp: found_at_def)
  ultimately show ?thesis using j(2) by (metis linorder_neqE_nat)
qed

end

context tree_keys
begin

lemma find_stored:
  assumes t: "tree_ok valid t lv" "readable env lv" and c: "comp_fn (bt_conf t) = cmp" and m: "be_rec_info env"
    and k: "k \<in> set (level_recs (bt_nodes t) (hd lv))"
  shows "\<exists>i pos off. vdfs4_btree_find env t k = Done (Inr (i, pos, off)) \<and> rec_at (bt_nodes t i) off = k"
proof -
  let ?rs = "level_recs (bt_nodes t) (hd lv)"
  have o: "ordered_recs valid cmp ?rs"
    using tree_okD(2) [OF t(1), of 0] tree_okD(1) [OF t(1)] c by (simp add: level_ok_def hd_conv_nth)
  have v: "valid k" using o k by (simp add: ordered_recs_def)
  have "\<not> 0 < cmp (hd ?rs) k" using o k cmp_refl [OF v] by (cases ?rs) (auto simp: ordered_recs_def)
  then obtain place q where p: "vdfs4_btree_find env t k = Done (Inr place)" "located (bt_nodes t) (hd lv) place q" "found_at cmp ?rs k q"
    using btree_find_ok [OF t c v m] by auto
  then show ?thesis using found_at_self [OF o k p(3)] by (cases place) (auto simp: located_def)
qed

text \<open>Without memory for the path or for the record the search is given up, and nothing is changed.\<close>

lemma traverse_no_memory:
  assumes t: "tree_ok valid t lv" "readable env lv" and c: "comp_fn (bt_conf t) = cmp" and k: "valid key"
    and f: "\<not> 0 < cmp (hd (level_recs (bt_nodes t) (hd lv))) key" and m: "\<not> be_stack env"
  shows "\<exists>todo. vdfs4_btree_traverse env t key True 1 = Done (Inl ENOMEM, [], todo)"
proof -
  let ?n = "length lv - 1" and ?x = "root_bnode_id t"
  have ne: "lv \<noteq> []" using tree_okD(1) [OF t(1)] .
  have n: "?n < length lv" "int ?n + 1 = btree_height t" "hd lv = lv ! 0" "last lv = lv ! ?n"
    using ne tree_okD(4) [OF t(1)] by (simp_all add: hd_conv_nth last_conv_nth Suc_leI of_nat_diff)
  have lo: "level_ok valid (bt_conf t) (bt_nodes t) (lv ! ?n)" using tree_okD(2) [OF t(1) n(1)] .
  have x: "?x = hd (lv ! ?n)" "?x \<in> set (lv ! ?n)" using tree_okD(5) [OF t(1)] n(4) lo by (simp_all add: level_ok_def)
  have fx: "\<not> 0 < cmp (hd (node_recs (bt_nodes t ?x))) key"
    using first_keys [OF t(1) c k n(1)] f level_recs_hd(2) [OF lo] x(1) n(3) by simp
  obtain pre post where s: "lv ! ?n = pre @ ?x # post" using split_list [OF x(2)] by blast
  obtain y p todo where "btree_traverse_level env t key ?x True [] [] = Done (Inr (y, int p), todo)"
    using traverse_level_ok [OF t n(1) c k s fx, of True "[]" "[]"] by blast
  then have "traverse_levels ?n env t key True (btree_height t) ?x [] [] = Done (Inl ENOMEM, [], todo)"
    using m by (cases ?n) simp_all
  moreover have "nat (btree_height t - 1) = ?n" "\<not> btree_height t < 1" using n(2) by linarith+
  ultimately show ?thesis by (simp add: vdfs4_btree_traverse_def)
qed

lemma insert_no_memory:
  assumes t: "tree_ok valid t lv" "readable env lv" and c: "comp_fn (bt_conf t) = cmp" and k: "valid r"
    and f: "\<not> 0 < cmp (hd (level_recs (bt_nodes t) (hd lv))) r" and cm: "complete (bt_nodes t) lv"
    and m: "\<not> (be_stack env \<and> be_rec_info env)"
  shows "vdfs4_btree_insert env t r force = Done (Some ENOMEM, t)"
proof (cases "be_stack env")
  case False
  then show ?thesis using traverse_no_memory [OF t c k f]
    by (auto simp: vdfs4_btree_insert_def btree_insert_at_level_def place_data_at_level_def VDFS4_BTREE_LEAF_LVL_def)
next
  case True
  then obtain y p stack where "vdfs4_btree_traverse env t r True 1 = Done (Inr (y, int p), stack, [])"
    using btree_traverse_ok [OF t c k _ f, of True] cm by auto
  then show ?thesis using m True
    by (simp add: vdfs4_btree_insert_def btree_insert_at_level_def place_data_at_level_def place_key_in_bnode_def VDFS4_BTREE_LEAF_LVL_def)
qed

end

lemma env_readable: "env_ok c env \<Longrightarrow> readable env lv" "env_ok c env \<Longrightarrow> be_rec_info env"
  by (simp_all add: env_ok_def readable_def)

text \<open>A tree of one leaf, with room for more nodes.\<close>

definition demo_leaf :: vdfs4_btree where
  "demo_leaf = \<lparr>bt_conf = demo_big_conf, bt_nodes = (\<lambda>i. demo_bnode i 0 0 2 [demo_rec 7 10, demo_rec 7 30]),
     root_bnode_id = 1, btree_height = 1, bm_data = [True, True, False, False, False, False, False, False],
     bm_first_free_id = 2, bm_free_num = 6, bt_last_table_index = 3, bt_dirty = []\<rparr>"

lemma demo_leaf_simps [simp]:
  "bt_conf demo_leaf = demo_big_conf" "comp_fn demo_big_conf = vdfs4_exttree_cmpfn" "btree_height demo_leaf = 1"
  "bm_data demo_leaf = [True, True, False, False, False, False, False, False]" "bm_free_num demo_leaf = 6"
  "bt_last_table_index demo_leaf = 3" "root_bnode_id demo_leaf = 1" "node_size demo_big_conf = 4096"
  "node_recs (bt_nodes demo_leaf i) = [demo_rec 7 10, demo_rec 7 30]"
  by (simp_all add: demo_leaf_def demo_big_conf_def demo_bnode_layout(2) demo_rec_ok)

lemma demo_leaf_ok: "store_ok exttree_key_whole demo_leaf [[1]]" "complete (bt_nodes demo_leaf) [[1]]"
  "env_ok demo_big_conf demo_env" "bits_ok demo_leaf"
proof -
  have n: "node_ok demo_big_conf (bt_nodes demo_leaf 1)"
    unfolding node_ok_def by (auto simp: demo_leaf_def intro!: exI demo_bnode_layout(1) demo_rec_ok)
  have w: "exttree_key_whole (demo_rec 7 10)" "exttree_key_whole (demo_rec 7 30)" "vdfs4_exttree_cmpfn (demo_rec 7 10) (demo_rec 7 30) < 0"
    by code_simp+
  have "tree_node demo_big_conf (bt_nodes demo_leaf) 1" using n by (simp add: tree_node_def) (simp add: demo_leaf_def)
  then have "level_ok exttree_key_whole demo_big_conf (bt_nodes demo_leaf) [1]"
    using w by (simp add: level_ok_def ordered_recs_def) (simp add: demo_leaf_def)
  then have t: "tree_ok exttree_key_whole demo_leaf [[1]]" by (simp add: tree_ok_def levels_ok_def)
  show b: "bits_ok demo_leaf" by (simp add: bits_ok_def) (simp add: demo_leaf_def, code_simp)
  show "store_ok exttree_key_whole demo_leaf [[1]]" using t b by (simp add: store_ok_def)
  show "complete (bt_nodes demo_leaf) [[1]]" by (simp add: complete_def)
  show "env_ok demo_big_conf demo_env"
    using demo_bnode_layout(1) [of "[]"] by (simp add: env_ok_def demo_env_def node_layout_def)
qed

lemma demo_leaf_kind: "(exttree_key_whole, comp_fn (bt_conf demo_leaf)) \<in> tree_kinds"
  by (simp add: tree_kinds_def)

lemma demo_new:
  "exttree_key_whole (demo_rec 7 20)" "rec_ok (demo_rec 7 20)" "length (demo_rec 7 20) \<le> 600"
  "vdfs4_exttree_cmpfn (demo_rec 7 10) (demo_rec 7 20) < 0" "0 < vdfs4_exttree_cmpfn (demo_rec 7 30) (demo_rec 7 20)"
  by (code_simp, rule demo_rec_ok, code_simp+)



text \<open>
  C16. After a successful insertion a search for the new key gives the new record, byte by byte, and a
  search for any key stored before gives its record, also when the nodes that the insertion made
  could not be announced to the level above.
\<close>

theorem btree_insert_find:
  assumes "(valid, comp_fn (bt_conf t)) \<in> tree_kinds" "store_ok valid t lv" "env_ok (bt_conf t) env" "complete (bt_nodes t) lv"
    "btree_height t < 65535" "valid r" "rec_ok r" "length r \<le> 600" "vdfs4_btree_insert env t r force = Done (success, t')"
    "k = r \<or> k \<in> set (level_recs (bt_nodes t) (hd lv))"
  shows "\<exists>i pos off. vdfs4_btree_find env t' k = Done (Inr (i, pos, off)) \<and> rec_at (bt_nodes t' i) off = k"
proof -
  note key = tree_kinds_keys [OF assms(1)]
  let ?rs = "level_recs (bt_nodes t) (hd lv)"
  have before: "\<not> 0 < comp_fn (bt_conf t) (hd ?rs) r"
  proof
    assume a: "0 < comp_fn (bt_conf t) (hd ?rs) r"
    show False
      using tree_keys.btree_traverse_before [OF key store_okD(1) [OF assms(2)] env_readable(1) [OF assms(3)] refl assms(6) a, of True] assms(9)
      by (simp add: vdfs4_btree_insert_def btree_insert_at_level_def place_data_at_level_def VDFS4_BTREE_LEAF_LVL_def)
  qed
  obtain q lv' where t': "store_ok valid t' lv'" "bt_conf t' = bt_conf t" "level_recs (bt_nodes t') (hd lv') = take (Suc q) ?rs @ r # drop (Suc q) ?rs"
    using tree_keys.insert_new_ok [OF key assms(2) refl assms(3-8) before, of force] assms(9) by (auto split: if_splits)
  have "k \<in> set (level_recs (bt_nodes t') (hd lv'))"
    using assms(10) set_append [of "take (Suc q) ?rs" "drop (Suc q) ?rs"] t'(3) by auto
  from tree_keys.find_stored [OF key store_okD(1) [OF t'(1)] env_readable(1) [OF assms(3)] _ env_readable(2) [OF assms(3)] this] t'(2)
  show ?thesis by simp
qed

theorem btree_insert_find_witness:
  "\<exists>t'. vdfs4_btree_insert demo_env demo_leaf (demo_rec 7 20) False = Done (success, t') \<and>
    (\<exists>i pos off. vdfs4_btree_find demo_env t' (demo_rec 7 20) = Done (Inr (i, pos, off)) \<and> rec_at (bt_nodes t' i) off = demo_rec 7 20)"
proof -
  have h: "btree_height demo_leaf < 65535" "env_ok (bt_conf demo_leaf) demo_env" using demo_leaf_ok(3) by simp_all
  have before: "\<not> 0 < comp_fn (bt_conf demo_leaf) (hd (level_recs (bt_nodes demo_leaf) (hd [[1]]))) (demo_rec 7 20)" using demo_new(4) by simp
  have q: "found_at vdfs4_exttree_cmpfn [demo_rec 7 10, demo_rec 7 30] (demo_rec 7 20) q \<Longrightarrow> q = 0" for q
    using demo_new(5) by (auto simp: found_at_def less_Suc_eq)
  have "roomy demo_env 2 demo_leaf" by (simp add: roomy_def demo_env_def)
  then obtain t' where t': "vdfs4_btree_insert demo_env demo_leaf (demo_rec 7 20) False = Done (success, t')"
    using exttree.insert_new_ok [OF demo_leaf_ok(1) _ h(2) demo_leaf_ok(2) h(1) demo_new(1-3), of False] before demo_new(4)
    by (force simp: numeral_2_eq_2 dest!: q)
  show ?thesis
    using btree_insert_find [OF demo_leaf_kind demo_leaf_ok(1) h(2) demo_leaf_ok(2) h(1) demo_new(1-3) t', of "demo_rec 7 20"] t' by simp
qed

section \<open>The reserve\<close>

text \<open>
  C26. Filling the reserve of nodes ends and never touches a node that exists: the file grows to four
  nodes per level beyond those in use and stays within four per level beyond the bitmap. The counts
  are unsigned; when more nodes are free than the reserve asks for, the difference wraps around twice
  and nothing is done.
\<close>

theorem check_reserve_correct:
  assumes "bits_ok t" "0 \<le> btree_height t" "btree_height t < 65536" "0 \<le> bt_last_table_index t" "bt_last_table_index t < 4294967295"
    "\<And>i. node_shape (bt_conf t) (be_page env i)"
  shows "\<exists>st t'. vdfs4_check_bnode_reserve env force t = Done (st, t') \<and> bits_ok t' \<and> bm_data t' = bm_data t \<and>
    (\<forall>i \<le> bt_last_table_index t. bt_nodes t' i = bt_nodes t i) \<and> bt_last_table_index t \<le> bt_last_table_index t' \<and>
    bt_last_table_index t' < max (bt_last_table_index t + 1) (btree_height t * 4 + bits_num t) \<and>
    (st = success \<longrightarrow> btree_height t * 4 + (bits_num t - bm_free_num t) \<le> bt_last_table_index t' + 1) \<and>
    ((\<forall>f i. be_create env f i = success) \<longrightarrow> st = success)"
  using check_reserve_ok [OF assms, of force] by (elim exE conjE) (intro exI conjI, assumption+)

theorem check_reserve_correct_witness:
  "\<exists>t'. vdfs4_check_bnode_reserve demo_env False demo_leaf = Done (success, t') \<and> 5 \<le> bt_last_table_index t' \<and>
    bt_last_table_index t' < 12 \<and> (\<forall>i \<le> 3. bt_nodes t' i = bt_nodes demo_leaf i)"
proof -
  have n: "node_shape (bt_conf demo_leaf) (be_page demo_env i)" for i using demo_leaf_ok(3) by (simp add: env_ok_def)
  have "\<forall>f i. be_create demo_env f i = success" by (simp add: demo_env_def)
  then show ?thesis using check_reserve_correct [OF demo_leaf_ok(4) _ _ _ _ n, of False] by auto
qed

end
