(* ===== verification/Vdfs_Exttree.thy ===== *)
theory Vdfs_Exttree
  imports Vdfs_Btree_Props
begin

text \<open>
  The extents tree as a store of extents (\<^verbatim>\<open>extents.c\<close>): records that say where the blocks of a file lie,
  under the number of the file and the first logical block. Lookup and insertion are composed of the
  operations of the trees; the lemmas say what they mean for the extents of one file.
\<close>

section \<open>Operations\<close>

record vdfs4_extent_info =
  first_block :: int
  ex_iblock :: int
  block_count :: int

definition no_extent :: vdfs4_extent_info where
  "no_extent = \<lparr>first_block = 0, ex_iblock = 0, block_count = 0\<rparr>"

text \<open>What the allocators answer: the tree, the slab cache of the keys, the memory for a record.\<close>

record exttree_env =
  ee_tree :: btree_env
  ee_key :: bool
  ee_record :: bool

text \<open>
  A key of the slab cache: the constructor clears it once, and only the two numbers are ever written.
  So the magic and the lengths of a search key are 0.
\<close>

definition exttree_search_key :: "int \<Rightarrow> int \<Rightarrow> bytes" where
  "exttree_search_key object_id ib = replicate 8 0 @ le_bytes 8 object_id @ le_bytes 8 ib"

text \<open>\<^verbatim>\<open>struct vdfs4_exttree_lrecord\<close>, as \<^verbatim>\<open>vdfs4_exttree_add\<close> fills it\<close>

definition exttree_lrecord :: "int \<Rightarrow> vdfs4_extent_info \<Rightarrow> bytes" where
  "exttree_lrecord object_id e =
     [69, 120, 116, 75] @ le_bytes 2 24 @ le_bytes 2 40 @ le_bytes 8 object_id @ le_bytes 8 (ex_iblock e)
       @ le_bytes 8 (first_block e) @ le_bytes 8 (block_count e)"

text \<open>The extent in a record; the length has 64 bits, of which 32 are read.\<close>

definition record_extent :: "bytes \<Rightarrow> vdfs4_extent_info" where
  "record_extent r = \<lparr>first_block = le64_at r 24, ex_iblock = exttree_iblock r, block_count = u32 (le64_at r 32)\<rparr>"

definition IBLOCK_MAX_NUMBER :: int where "IBLOCK_MAX_NUMBER = 4294967294"

definition vdfs4_exttree_get_next_record ::
    "exttree_env \<Rightarrow> vdfs4_btree \<Rightarrow> int \<times> int \<times> int \<Rightarrow> (errno + int \<times> int \<times> int) outcome" where
  "vdfs4_exttree_get_next_record env t record = (case record of (nid, pos, off) \<Rightarrow> get_next_btree_record (ee_tree env) t nid pos)"

definition vdfs4_exttree_find_record_nonstrict ::
    "exttree_env \<Rightarrow> vdfs4_btree \<Rightarrow> int \<Rightarrow> int \<Rightarrow> (errno + int \<times> int \<times> int) outcome" where
  "vdfs4_exttree_find_record_nonstrict env t object_id ib =
     (if \<not> ee_key env then Done (Inl ENOMEM) else vdfs4_btree_find (ee_tree env) t (exttree_search_key object_id ib))"

definition record_bytes :: "vdfs4_btree \<Rightarrow> int \<times> int \<times> int \<Rightarrow> bytes" where
  "record_bytes t record = (case record of (nid, pos, off) \<Rightarrow> rec_at (bt_nodes t nid) off)"

definition vdfs4_exttree_find_record_strict_obj ::
    "exttree_env \<Rightarrow> vdfs4_btree \<Rightarrow> int \<Rightarrow> int \<Rightarrow> (errno + int \<times> int \<times> int) outcome" where
  "vdfs4_exttree_find_record_strict_obj env t object_id ib =
     bind_outcome (vdfs4_exttree_find_record_nonstrict env t object_id ib) (\<lambda>r.
       Done (case r of
               Inl e \<Rightarrow> Inl e
             | Inr record \<Rightarrow> if exttree_object_id (record_bytes t record) \<noteq> object_id then Inl ENOENT else Inr record))"

definition vdfs4_exttree_find_first_record ::
    "exttree_env \<Rightarrow> vdfs4_btree \<Rightarrow> int \<Rightarrow> (errno + int \<times> int \<times> int) outcome" where
  "vdfs4_exttree_find_first_record env t object_id =
     bind_outcome (vdfs4_exttree_find_record_nonstrict env t object_id 0) (\<lambda>r.
       case r of
         Inl e \<Rightarrow> Done (Inl e)
       | Inr record \<Rightarrow>
           if exttree_object_id (record_bytes t record) = object_id then Done (Inr record)
           else bind_outcome (vdfs4_exttree_get_next_record env t record) (\<lambda>r1.
                  Done (case r1 of
                          Inl e \<Rightarrow> Inl e
                        | Inr record1 \<Rightarrow>
                            if exttree_object_id (record_bytes t record1) \<noteq> object_id then Inl ENOENT else Inr record1)))"

definition vdfs4_find_last_extent :: "exttree_env \<Rightarrow> vdfs4_btree \<Rightarrow> int \<Rightarrow> (errno + int \<times> int \<times> int) outcome" where
  "vdfs4_find_last_extent env t object_id = vdfs4_exttree_find_record_strict_obj env t object_id IBLOCK_MAX_NUMBER"

definition vdfs4_exttree_add ::
    "exttree_env \<Rightarrow> vdfs4_btree \<Rightarrow> int \<Rightarrow> vdfs4_extent_info \<Rightarrow> bool \<Rightarrow> (status \<times> vdfs4_btree) outcome" where
  "vdfs4_exttree_add env t object_id e force_insert =
     (if \<not> ee_record env then Done (Some ENOMEM, t)
      else vdfs4_btree_insert (ee_tree env) t (exttree_lrecord object_id e) force_insert)"

definition vdfs4_extree_insert_extent ::
    "exttree_env \<Rightarrow> vdfs4_btree \<Rightarrow> int \<Rightarrow> vdfs4_extent_info \<Rightarrow> bool \<Rightarrow> (status \<times> vdfs4_btree) outcome" where
  "vdfs4_extree_insert_extent env t object_id e force_insert = vdfs4_exttree_add env t object_id e force_insert"

text \<open>
  \<^verbatim>\<open>vdfs4_exttree_get_extent\<close>: the status and the extent. The block right behind an extent is accepted
  too: \<^verbatim>\<open>last_iblock\<close> is one past the end.
\<close>

definition vdfs4_exttree_get_extent ::
    "exttree_env \<Rightarrow> vdfs4_btree \<Rightarrow> int \<Rightarrow> int \<Rightarrow> (status \<times> vdfs4_extent_info) outcome" where
  "vdfs4_exttree_get_extent env t object_id ib =
     bind_outcome (vdfs4_exttree_find_record_strict_obj env t object_id ib) (\<lambda>r.
       Done (case r of
               Inl e \<Rightarrow> (Some e, no_extent)
             | Inr record \<Rightarrow>
                 let e = record_extent (record_bytes t record);
                     last_iblock = u64 (ex_iblock e + block_count e)
                 in (if ex_iblock e \<le> ib \<and> ib \<le> last_iblock then success else Some ENOENT, e)))"

section \<open>Keys and records\<close>

text \<open>A search depends on the key only through the comparison with it.\<close>

definition same_order :: "btree_conf \<Rightarrow> bytes \<Rightarrow> bytes \<Rightarrow> bool" where
  "same_order c k k' \<longleftrightarrow> (\<forall>x. comp_fn c x k = comp_fn c x k')"

lemma bsearch_loop_cong: "same_order c k k' \<Longrightarrow> bsearch_loop c b k f l r = bsearch_loop c b k' f l r"
proof (induction c b k f l r rule: bsearch_loop.induct)
  case (1 c b k f l r)
  then show ?case
    by (subst (1 2) bsearch_loop.simps) (auto simp: Let_def same_order_def split: outcome.split sum.split)
qed

lemma binary_search_cong: "same_order c k k' \<Longrightarrow> binary_search c b k = binary_search c b k'"
  using bsearch_loop_cong [of c k k'] by (simp add: binary_search_def Let_def same_order_def cong: if_cong sum.case_cong)

lemma traverse_right_cong:
  "same_order (bt_conf t) k k' \<Longrightarrow> traverse_right n env t k tr s i p todo = traverse_right n env t k' tr s i p todo"
  using binary_search_cong [of "bt_conf t" k k'] by (induction n arbitrary: i p todo) (simp_all cong: sum.case_cong prod.case_cong option.case_cong if_cong)

lemma traverse_level_cong:
  "same_order (bt_conf t) k k' \<Longrightarrow> btree_traverse_level env t k i tr s todo = btree_traverse_level env t k' i tr s todo"
  using binary_search_cong [of "bt_conf t" k k'] traverse_right_cong [of t k k'] by (simp add: btree_traverse_level_def cong: option.case_cong sum.case_cong)

lemma traverse_levels_cong:
  "same_order (bt_conf t) k k' \<Longrightarrow> traverse_levels n env t k tr l i s todo = traverse_levels n env t k' tr l i s todo"
  using traverse_level_cong [of t k k'] by (induction n arbitrary: l i s todo) (simp_all cong: if_cong sum.case_cong prod.case_cong)

lemma btree_find_cong: "same_order (bt_conf t) k k' \<Longrightarrow> vdfs4_btree_find env t k = vdfs4_btree_find env t k'"
  using traverse_levels_cong [of t k k'] by (simp add: vdfs4_btree_find_def vdfs4_btree_traverse_def)

lemma le64_append: "length a = n \<Longrightarrow> 0 \<le> x \<Longrightarrow> x < 18446744073709551616 \<Longrightarrow> le64_at (a @ le_bytes 8 x @ b) (int n) = x"
  by (simp add: le64_at_def mem_read_def)

text \<open>Numbers a record can hold\<close>

definition extent_fits :: "int \<Rightarrow> vdfs4_extent_info \<Rightarrow> bool" where
  "extent_fits object_id e \<longleftrightarrow> 0 \<le> object_id \<and> object_id < 18446744073709551616 \<and> 0 \<le> ex_iblock e \<and> ex_iblock e < 18446744073709551616 \<and>
     0 \<le> first_block e \<and> first_block e < 18446744073709551616 \<and> 0 \<le> block_count e \<and> block_count e < 4294967296"

lemma lrecord_fields:
  assumes "extent_fits obj e"
  shows "exttree_object_id (exttree_lrecord obj e) = obj" "exttree_iblock (exttree_lrecord obj e) = ex_iblock e"
    "record_extent (exttree_lrecord obj e) = e"
proof -
  let ?m = "[69, 120, 116, 75] @ le_bytes 2 24 @ le_bytes 2 40"
  show o: "exttree_object_id (exttree_lrecord obj e) = obj" and i: "exttree_iblock (exttree_lrecord obj e) = ex_iblock e"
    using le64_append [of ?m 8] le64_append [of "?m @ le_bytes 8 obj" 16] assms
    by (simp_all add: exttree_object_id_def exttree_iblock_def exttree_lrecord_def extent_fits_def)
  have "le64_at (exttree_lrecord obj e) 24 = first_block e" "le64_at (exttree_lrecord obj e) 32 = block_count e"
    using le64_append [of "?m @ le_bytes 8 obj @ le_bytes 8 (ex_iblock e)" 24] assms
      le64_append [of "?m @ le_bytes 8 obj @ le_bytes 8 (ex_iblock e) @ le_bytes 8 (first_block e)" 32 "block_count e" "[]"]
    by (simp_all add: exttree_lrecord_def extent_fits_def)
  then show "record_extent (exttree_lrecord obj e) = e" using i assms by (simp add: record_extent_def extent_fits_def u32_id)
qed

lemma mem_read_mid: "mem_read (a @ b @ c) (int (length a)) (int (length b)) = b"
  by (simp add: mem_read_def)

lemma lrecord_ok:
  "exttree_key_whole (exttree_lrecord obj e)" "rec_ok (exttree_lrecord obj e)" "length (exttree_lrecord obj e) \<le> 600"
proof -
  let ?r = "exttree_lrecord obj e"
  have l: "length ?r = 40" by (simp add: exttree_lrecord_def)
  have "mem_read ?r 4 2 = le_bytes 2 24" "mem_read ?r 6 2 = le_bytes 2 40"
    using mem_read_mid [of "[69, 120, 116, 75]" "le_bytes 2 24"] mem_read_mid [of "[69, 120, 116, 75] @ le_bytes 2 24" "le_bytes 2 40"]
    by (simp_all add: exttree_lrecord_def)
  then show "exttree_key_whole ?r" "rec_ok ?r" "length ?r \<le> 600"
    using l by (simp_all add: exttree_key_whole_def rec_ok_def key_len_def le16_at_def)
qed

lemma search_key_fields:
  assumes "0 \<le> obj" "obj < 18446744073709551616" "0 \<le> ib" "ib < 18446744073709551616"
  shows "exttree_object_id (exttree_search_key obj ib) = obj" "exttree_iblock (exttree_search_key obj ib) = ib"
  using le64_append [of "replicate 8 0" 8 obj] le64_append [of "replicate 8 0 @ le_bytes 8 obj" 16 ib "[]"] assms
  by (simp_all add: exttree_object_id_def exttree_iblock_def exttree_search_key_def)

section \<open>The extents of a file\<close>

definition tree_extents :: "vdfs4_btree \<Rightarrow> int list list \<Rightarrow> int \<Rightarrow> vdfs4_extent_info set" where
  "tree_extents t lv obj = record_extent ` {r \<in> set (level_recs (bt_nodes t) (hd lv)). exttree_object_id r = obj}"

text \<open>The tree of the extents: well formed, and its first record belongs to a smaller object.\<close>

definition exttree_ok :: "vdfs4_btree \<Rightarrow> int list list \<Rightarrow> int \<Rightarrow> bool" where
  "exttree_ok t lv obj \<longleftrightarrow> store_ok exttree_key_whole t lv \<and> comp_fn (bt_conf t) = vdfs4_exttree_cmpfn \<and>
     exttree_object_id (hd (level_recs (bt_nodes t) (hd lv))) < obj"

definition exttree_env_ok :: "vdfs4_btree \<Rightarrow> exttree_env \<Rightarrow> bool" where
  "exttree_env_ok t env \<longleftrightarrow> env_ok (bt_conf t) (ee_tree env) \<and> ee_key env"

definition number_ok :: "int \<Rightarrow> bool" where
  "number_ok x \<longleftrightarrow> 0 \<le> x \<and> x < 18446744073709551616"

lemma cmp_search_key:
  assumes "number_ok obj" "number_ok ib"
  shows "vdfs4_exttree_cmpfn r (exttree_search_key obj ib) \<le> 0 \<longleftrightarrow>
    exttree_object_id r < obj \<or> exttree_object_id r = obj \<and> exttree_iblock r \<le> ib"
  using search_key_fields [of obj ib] assms by (auto simp: vdfs4_exttree_cmpfn_def cmp_2_le64_def number_ok_def)

text \<open>The record found is the last one that does not follow the key.\<close>

lemma find_nonstrict_ok:
  assumes t: "exttree_ok t lv obj" and e: "exttree_env_ok t env" and n: "number_ok obj" "number_ok ib"
  shows "\<exists>i pos off q. vdfs4_exttree_find_record_nonstrict env t obj ib = Done (Inr (i, pos, off)) \<and>
    located (bt_nodes t) (hd lv) (i, pos, off) q \<and>
    found_at vdfs4_exttree_cmpfn (level_recs (bt_nodes t) (hd lv)) (exttree_search_key obj ib) q"
proof -
  let ?k = "exttree_search_key obj ib" and ?k' = "exttree_lrecord obj \<lparr>first_block = 0, ex_iblock = ib, block_count = 0\<rparr>"
    and ?rs = "level_recs (bt_nodes t) (hd lv)"
  note d = store_okD(1) [of exttree_key_whole t lv]
  have s: "store_ok exttree_key_whole t lv" and c: "comp_fn (bt_conf t) = vdfs4_exttree_cmpfn" and h: "exttree_object_id (hd ?rs) < obj"
    using t by (simp_all add: exttree_ok_def)
  have k: "exttree_object_id ?k' = exttree_object_id ?k" "exttree_iblock ?k' = exttree_iblock ?k" "exttree_object_id ?k = obj"
    using n search_key_fields [of obj ib] lrecord_fields [of obj "\<lparr>first_block = 0, ex_iblock = ib, block_count = 0\<rparr>"]
    by (simp_all add: number_ok_def extent_fits_def)
  then have so: "same_order (bt_conf t) ?k ?k'" "\<And>x. vdfs4_exttree_cmpfn x ?k' = vdfs4_exttree_cmpfn x ?k"
    by (simp_all add: same_order_def c vdfs4_exttree_cmpfn_def)
  have "\<not> 0 < vdfs4_exttree_cmpfn (hd ?rs) ?k'" unfolding so(2) using cmp_search_key [OF n, of "hd ?rs"] h by linarith
  moreover have "readable (ee_tree env) lv" "be_rec_info (ee_tree env)" "ee_key env"
    using e env_readable [of "bt_conf t" "ee_tree env"] by (simp_all add: exttree_env_ok_def)
  ultimately obtain place q where p: "vdfs4_btree_find (ee_tree env) t ?k' = Done (Inr place)" "located (bt_nodes t) (hd lv) place q"
      "found_at vdfs4_exttree_cmpfn ?rs ?k' q"
    using exttree.btree_find_ok [OF d [OF s] _ c lrecord_ok(1)] by metis
  moreover have "found_at vdfs4_exttree_cmpfn ?rs ?k q" using p(3) by (simp add: found_at_def so(2))
  ultimately show ?thesis
    using btree_find_cong [OF so(1), of "ee_tree env"] \<open>ee_key env\<close> by (cases place) (auto simp: vdfs4_exttree_find_record_nonstrict_def)
qed

lemma exttree_ordered:
  assumes "exttree_ok t lv obj"
  shows "ordered_recs exttree_key_whole vdfs4_exttree_cmpfn (level_recs (bt_nodes t) (hd lv))"
  using tree_okD(1) [OF store_okD(1)] tree_okD(2) [OF store_okD(1), of exttree_key_whole t lv 0] assms
  by (auto simp: exttree_ok_def level_ok_def hd_conv_nth)

lemma found_last:
  assumes o: "ordered_recs valid vdfs4_exttree_cmpfn rs" and n: "number_ok obj" "number_ok ib"
    and f: "found_at vdfs4_exttree_cmpfn rs (exttree_search_key obj ib) q" and x: "x \<in> set rs" "exttree_object_id x = obj" "exttree_iblock x \<le> ib"
  shows "exttree_object_id (rs ! q) = obj" "exttree_iblock x \<le> exttree_iblock (rs ! q)"
proof -
  obtain j where j: "j < length rs" "rs ! j = x" using x(1) by (auto simp: in_set_conv_nth)
  have c: "vdfs4_exttree_cmpfn (rs ! q) (exttree_search_key obj ib) \<le> 0" and q: "q < length rs" using f by (simp_all add: found_at_def)
  have "\<not> q < j" using f j x cmp_search_key [OF n, of x] by (auto simp: found_at_def)
  moreover have "vdfs4_exttree_cmpfn x (rs ! q) < 0" if "j < q"
    using o that q j sorted_wrt_nth_less [of "\<lambda>a b. vdfs4_exttree_cmpfn a b < 0" rs j q] by (simp add: ordered_recs_def)
  ultimately show "exttree_object_id (rs ! q) = obj" "exttree_iblock x \<le> exttree_iblock (rs ! q)"
    using x(2,3) j c cmp_search_key [OF n, of "rs ! q"]
    by (cases "j = q"; force simp: vdfs4_exttree_cmpfn_def cmp_2_le64_def split: if_splits)+
qed

lemma strict_obj_ok:
  assumes t: "exttree_ok t lv obj" and e: "exttree_env_ok t env" and n: "number_ok obj" "number_ok ib"
  shows "(\<exists>i pos off. vdfs4_exttree_find_record_strict_obj env t obj ib = Done (Inr (i, pos, off)) \<and>
      record_extent (rec_at (bt_nodes t i) off) \<in> tree_extents t lv obj \<and> exttree_iblock (rec_at (bt_nodes t i) off) \<le> ib \<and>
      (\<forall>x \<in> tree_extents t lv obj. ex_iblock x \<le> ib \<longrightarrow> ex_iblock x \<le> exttree_iblock (rec_at (bt_nodes t i) off))) \<or>
    vdfs4_exttree_find_record_strict_obj env t obj ib = Done (Inl ENOENT) \<and> (\<forall>x \<in> tree_extents t lv obj. ib < ex_iblock x)"
proof -
  let ?rs = "level_recs (bt_nodes t) (hd lv)"
  obtain i pos off q where f: "vdfs4_exttree_find_record_nonstrict env t obj ib = Done (Inr (i, pos, off))"
      "located (bt_nodes t) (hd lv) (i, pos, off) q" "found_at vdfs4_exttree_cmpfn ?rs (exttree_search_key obj ib) q"
    using find_nonstrict_ok [OF assms] by blast
  let ?r = "rec_at (bt_nodes t i) off"
  have r: "?r = ?rs ! q" using f(2) by (auto simp: located_def)
  have q: "?r \<in> set ?rs" "vdfs4_exttree_cmpfn ?r (exttree_search_key obj ib) \<le> 0" using f(3) unfolding r by (simp_all add: found_at_def)
  note last = found_last [OF exttree_ordered [OF t] n f(3), folded r]
  show ?thesis
  proof (cases "exttree_object_id ?r = obj")
    case True
    then have "exttree_iblock ?r \<le> ib" using q(2) cmp_search_key [OF n, of ?r] by auto
    moreover have "vdfs4_exttree_find_record_strict_obj env t obj ib = Done (Inr (i, pos, off))"
      using f(1) True by (simp add: vdfs4_exttree_find_record_strict_obj_def record_bytes_def)
    moreover have "record_extent ?r \<in> tree_extents t lv obj" using True q(1) by (auto simp: tree_extents_def)
    moreover have "\<forall>x \<in> tree_extents t lv obj. ex_iblock x \<le> ib \<longrightarrow> ex_iblock x \<le> exttree_iblock ?r"
      using last(2) by (auto simp: tree_extents_def record_extent_def)
    ultimately show ?thesis by blast
  next
    case False
    then have "vdfs4_exttree_find_record_strict_obj env t obj ib = Done (Inl ENOENT)"
      using f(1) by (simp add: vdfs4_exttree_find_record_strict_obj_def record_bytes_def)
    moreover have "\<forall>x \<in> tree_extents t lv obj. ib < ex_iblock x"
      using last(1) False by (fastforce simp: tree_extents_def record_extent_def)
    ultimately show ?thesis by simp
  qed
qed

text \<open>What a lookup means for the extents: \<^verbatim>\<open>vdfs4_exttree_get_extent\<close>.\<close>

lemma get_extent_ok:
  assumes t: "exttree_ok t lv obj" and e: "exttree_env_ok t env" and n: "number_ok obj" "number_ok ib"
  shows "(\<exists>st x. vdfs4_exttree_get_extent env t obj ib = Done (st, x) \<and> (st = success \<or> st = Some ENOENT) \<and>
      x \<in> tree_extents t lv obj \<and> ex_iblock x \<le> ib \<and> (\<forall>y \<in> tree_extents t lv obj. ex_iblock y \<le> ib \<longrightarrow> ex_iblock y \<le> ex_iblock x)) \<or>
    vdfs4_exttree_get_extent env t obj ib = Done (Some ENOENT, no_extent) \<and> (\<forall>y \<in> tree_extents t lv obj. ib < ex_iblock y)"
  using strict_obj_ok [OF assms]
  by (elim disjE exE conjE) (simp_all add: vdfs4_exttree_get_extent_def record_bytes_def record_extent_def Let_def)

text \<open>The extents after an insertion.\<close>

lemma insert_extent_ok:
  assumes t: "exttree_ok t lv obj" and e: "exttree_env_ok t env" and cm: "complete (bt_nodes t) lv" and h: "btree_height t < 65535"
    and f: "extent_fits obj x" and new: "\<forall>y \<in> tree_extents t lv obj. ex_iblock y \<noteq> ex_iblock x"
  shows "\<exists>st t' lv'. vdfs4_extree_insert_extent env t obj x force = Done (st, t') \<and> exttree_ok t' lv' obj \<and> exttree_env_ok t' env \<and>
    (\<forall>ob. tree_extents t' lv' ob = (if st = success \<and> ob = obj then insert x (tree_extents t lv ob) else tree_extents t lv ob)) \<and>
    (roomy (ee_tree env) (length lv + 1) t \<and> ee_record env \<longrightarrow> st = success \<and> complete (bt_nodes t') lv')"
proof (cases "ee_record env")
  case False
  then have "vdfs4_extree_insert_extent env t obj x force = Done (Some ENOMEM, t)"
    by (simp add: vdfs4_extree_insert_extent_def vdfs4_exttree_add_def)
  then show ?thesis using t e False by auto
next
  case True
  let ?rs = "level_recs (bt_nodes t) (hd lv)" and ?r = "exttree_lrecord obj x"
  have s: "store_ok exttree_key_whole t lv" and c: "comp_fn (bt_conf t) = vdfs4_exttree_cmpfn" and hd: "exttree_object_id (hd ?rs) < obj"
    using t by (simp_all add: exttree_ok_def)
  have eo: "env_ok (bt_conf t) (ee_tree env)" using e by (simp add: exttree_env_ok_def)
  note fld = lrecord_fields [OF f]
  have before: "\<not> 0 < vdfs4_exttree_cmpfn (hd ?rs) ?r" using hd fld by (simp add: vdfs4_exttree_cmpfn_def cmp_2_le64_def)
  have ins: "vdfs4_extree_insert_extent env t obj x force = vdfs4_btree_insert (ee_tree env) t ?r force"
    using True by (simp add: vdfs4_extree_insert_extent_def vdfs4_exttree_add_def)
  obtain q where q: "found_at vdfs4_exttree_cmpfn ?rs ?r q"
      "if vdfs4_exttree_cmpfn (?rs ! q) ?r = 0 then vdfs4_btree_insert (ee_tree env) t ?r force = Done (Some EEXIST, t)
       else \<exists>st t' lv'. vdfs4_btree_insert (ee_tree env) t ?r force = Done (st, t') \<and> store_ok exttree_key_whole t' lv' \<and> bt_conf t' = bt_conf t \<and>
         (if st = success then level_recs (bt_nodes t') (hd lv') = take (Suc q) ?rs @ ?r # drop (Suc q) ?rs
          else level_recs (bt_nodes t') (hd lv') = ?rs) \<and>
         (roomy (ee_tree env) (length lv + 1) t \<longrightarrow> st = success \<and> complete (bt_nodes t') lv')"
    using exttree.insert_new_ok [OF s c eo cm h lrecord_ok before, of force] by blast
  have ql: "q < length ?rs" using q(1) by (simp add: found_at_def)
  have "vdfs4_exttree_cmpfn (?rs ! q) ?r \<noteq> 0"
  proof
    assume "vdfs4_exttree_cmpfn (?rs ! q) ?r = 0"
    then have "exttree_object_id (?rs ! q) = obj" "exttree_iblock (?rs ! q) = ex_iblock x"
      using fld by (auto simp: vdfs4_exttree_cmpfn_def cmp_2_le64_def split: if_splits)
    then show False using new ql by (auto simp: tree_extents_def record_extent_def)
  qed
  then obtain st t' lv' where r: "vdfs4_btree_insert (ee_tree env) t ?r force = Done (st, t')" "store_ok exttree_key_whole t' lv'" "bt_conf t' = bt_conf t"
      "level_recs (bt_nodes t') (hd lv') = (if st = success then take (Suc q) ?rs @ ?r # drop (Suc q) ?rs else ?rs)"
      "roomy (ee_tree env) (length lv + 1) t \<longrightarrow> st = success \<and> complete (bt_nodes t') lv'"
    using q(2) by (auto split: if_splits)
  have "set (take (Suc q) ?rs @ ?r # drop (Suc q) ?rs) = insert ?r (set ?rs)"
    using set_append [of "take (Suc q) ?rs" "drop (Suc q) ?rs"] by simp
  then have rs': "set (level_recs (bt_nodes t') (hd lv')) = (if st = success then insert ?r (set ?rs) else set ?rs)" using r(4) by simp
  have "hd (level_recs (bt_nodes t') (hd lv')) = hd ?rs" using r(4) ql by (cases ?rs) auto
  then have "exttree_ok t' lv' obj" using r(2,3) c hd by (simp add: exttree_ok_def)
  moreover have "exttree_env_ok t' env" using e r(3) by (simp add: exttree_env_ok_def)
  moreover have "\<forall>ob. tree_extents t' lv' ob = (if st = success \<and> ob = obj then insert x (tree_extents t lv ob) else tree_extents t lv ob)"
    using fld unfolding tree_extents_def rs' by (auto intro: rev_image_eqI [of ?r])
  ultimately show ?thesis using r(1,5) ins by auto
qed

end
