(* ===== verification/Vdfs_Files.thy ===== *)
theory Vdfs_Files
  imports Vdfs_Runtime_Extents Vdfs_Fsm_Props Vdfs_Exttree
begin

text \<open>
  Where the blocks of a file lie (\<^verbatim>\<open>inode.c\<close>): up to nine extents in the fork of the inode, the others in
  the extents tree; lookup of a logical block, insertion of an extent, reservation of space and the
  allocation of a block for a page. The free space manager, the list of runtime extents and the
  extents tree are composed here.
\<close>

section \<open>State\<close>

definition VDFS4_EXTENTS_COUNT_IN_FORK :: nat where "VDFS4_EXTENTS_COUNT_IN_FORK = 9"

record vdfs4_fork_info =
  total_block_count :: int
  prealloc_block_count :: int
  prealloc_start_block :: int
  extents :: "vdfs4_extent_info list"
  used_extents :: nat

text \<open>The part of an inode that concerns its blocks, with the tree and the free space of its volume.\<close>

record vdfs4_inode_info =
  i_ino :: int
  fork :: vdfs4_fork_info
  runtime_extents :: "vdfs4_runtime_extent_info list"
  i_bytes :: int
  i_dirty :: bool
  extents_tree :: vdfs4_btree
  fsm_info :: vdfs4_fsm_info

text \<open>
  The environment: the trees, the free space manager, the memory for a runtime extent, the zeroing of
  blocks, the space of the metadata area, the size of the device in blocks, the block size.
\<close>

record file_env =
  fe_ext :: exttree_env
  fe_fsm :: fsm_env
  fe_mem :: bool
  fe_zeroout :: "vdfs4_extent_info \<Rightarrow> status"
  fe_meta_space :: status
  fe_bdev_blocks :: int
  fe_blocksize :: int

section \<open>Lookup\<close>

text \<open>The loop over the extents of the fork\<close>

fun find_in_fork :: "int \<Rightarrow> vdfs4_extent_info list \<Rightarrow> vdfs4_extent_info option" where
  "find_in_fork ib [] = None"
| "find_in_fork ib (e # es) =
     (let last_iblock = u64 (ex_iblock e + block_count e - 1)
      in if ex_iblock e \<le> ib \<and> ib \<le> last_iblock then Some e else find_in_fork ib es)"

text \<open>The end of \<^verbatim>\<open>vdfs4_get_iblock_extent\<close> when the block has no place: a hint and an empty result\<close>

definition extent_not_found :: "int \<Rightarrow> vdfs4_extent_info \<Rightarrow> vdfs4_extent_info \<times> int" where
  "extent_not_found ib result =
     (result\<lparr>first_block := 0\<rparr>,
      if ib = u64 (ex_iblock result + block_count result) then u64 (first_block result + block_count result) else 0)"

text \<open>\<^verbatim>\<open>vdfs4_get_iblock_extent\<close>: the status, the result and the hint, from those passed by the caller\<close>

definition vdfs4_get_iblock_extent ::
    "file_env \<Rightarrow> vdfs4_inode_info \<Rightarrow> int \<Rightarrow> vdfs4_extent_info \<Rightarrow> int \<Rightarrow> (status \<times> vdfs4_extent_info \<times> int) outcome" where
  "vdfs4_get_iblock_extent env ino ib result hint =
     (let fk = fork ino; es = take (used_extents fk) (extents fk) in
      if total_block_count fk = 0 \<or> used_extents fk = 0 then Done (success, result, hint)
      else if length (extents fk) < used_extents fk then Undef
      else case find_in_fork ib es of
             Some e \<Rightarrow> Done (success, e, hint)
           | None \<Rightarrow>
               if used_extents fk < VDFS4_EXTENTS_COUNT_IN_FORK then Done (success, extent_not_found ib (last es))
               else bind_outcome (vdfs4_exttree_get_extent (fe_ext env) (extents_tree ino) (i_ino ino) ib) (\<lambda>(ret, e).
                 if ret \<noteq> success \<and> ret \<noteq> Some ENOENT then Done (ret, e, hint)
                 else if first_block e = 0
                 then Done (success, extent_not_found ib (extents fk ! (VDFS4_EXTENTS_COUNT_IN_FORK - 1)))
                 else if ex_iblock e \<le> ib \<and> ib \<le> u64 (ex_iblock e + block_count e - 1) then Done (success, e, hint)
                 else Done (success, extent_not_found ib e)))"

section \<open>Insertion of an extent\<close>

text \<open>The search for the place: the index of the first extent behind the new one\<close>

fun insert_pos :: "vdfs4_extent_info \<Rightarrow> vdfs4_extent_info list \<Rightarrow> nat" where
  "insert_pos x [] = 0"
| "insert_pos x (e # es) = (if ex_iblock x < ex_iblock e then 0 else Suc (insert_pos x es))"

text \<open>The loop that makes room at \<open>pos\<close>, from \<open>n\<close> downwards\<close>

fun shift_extents :: "nat \<Rightarrow> nat \<Rightarrow> vdfs4_extent_info list \<Rightarrow> vdfs4_extent_info list" where
  "shift_extents pos n es =
     (if pos < n then shift_extents pos (n - 1) (es[n := es ! (n - 1)]) else es)"

declare shift_extents.simps [simp del]

definition update_on_disk_layout :: "file_env \<Rightarrow> vdfs4_extent_info \<Rightarrow> bool \<Rightarrow> vdfs4_inode_info \<Rightarrow> vdfs4_inode_info" where
  "update_on_disk_layout env x update_bnode ino =
     ino\<lparr>fork := (fork ino)\<lparr>total_block_count := u32 (total_block_count (fork ino) + block_count x)\<rparr>,
         i_bytes := i_bytes ino + u64 (fe_blocksize env * block_count x),
         i_dirty := (i_dirty ino \<or> update_bnode)\<rparr>"

text \<open>
  From the label \<^verbatim>\<open>insert_in_fork\<close> on: into a free cell, into the tree, or between two extents of the
  fork, where the last extent of a full fork moves to the tree.
\<close>

definition insert_in_fork ::
    "file_env \<Rightarrow> vdfs4_extent_info \<Rightarrow> nat \<Rightarrow> bool \<Rightarrow> vdfs4_inode_info \<Rightarrow> (status \<times> vdfs4_inode_info) outcome" where
  "insert_in_fork env x pos update_bnode ino =
     (let fk = fork ino; finish = (\<lambda>i. Done (success, update_on_disk_layout env x update_bnode i)) in
      if pos < VDFS4_EXTENTS_COUNT_IN_FORK \<and> first_block (extents fk ! pos) = 0
      then finish (ino\<lparr>fork := fk\<lparr>extents := (extents fk)[pos := x], used_extents := used_extents fk + 1\<rparr>\<rparr>)
      else if pos = VDFS4_EXTENTS_COUNT_IN_FORK
      then bind_outcome (vdfs4_extree_insert_extent (fe_ext env) (extents_tree ino) (i_ino ino) x True) (\<lambda>(ret, t).
             if ret \<noteq> success then Done (ret, ino\<lparr>extents_tree := t\<rparr>) else finish (ino\<lparr>extents_tree := t\<rparr>))
      else
        let shift = (\<lambda>used i. finish (i\<lparr>fork := fk\<lparr>extents := (shift_extents pos (used - 1) (extents fk))[pos := x],
                                                used_extents := used\<rparr>\<rparr>))
        in if used_extents fk = VDFS4_EXTENTS_COUNT_IN_FORK
           then bind_outcome (vdfs4_extree_insert_extent (fe_ext env) (extents_tree ino) (i_ino ino)
                  (extents fk ! (VDFS4_EXTENTS_COUNT_IN_FORK - 1)) True) (\<lambda>(ret, t).
                  if ret \<noteq> success then Done (ret, ino\<lparr>extents_tree := t\<rparr>)
                  else shift (used_extents fk) (ino\<lparr>extents_tree := t\<rparr>))
           else shift (used_extents fk + 1) ino)"

definition insert_extent ::
    "file_env \<Rightarrow> vdfs4_extent_info \<Rightarrow> bool \<Rightarrow> bool \<Rightarrow> vdfs4_inode_info \<Rightarrow> (status \<times> vdfs4_inode_info) outcome" where
  "insert_extent env x update_bnode do_erase ino =
     (let fk = fork ino in
      if length (extents fk) \<noteq> VDFS4_EXTENTS_COUNT_IN_FORK \<or> VDFS4_EXTENTS_COUNT_IN_FORK < used_extents fk then Undef
      else if do_erase \<and> fe_zeroout env x \<noteq> success then Done (fe_zeroout env x, ino)
      else if used_extents fk = 0
      then Done (success, update_on_disk_layout env x update_bnode
             (ino\<lparr>fork := fk\<lparr>extents := (extents fk)[0 := x], used_extents := 1\<rparr>\<rparr>))
      else if ex_iblock x < ex_iblock (extents fk ! 0) then insert_in_fork env x 0 update_bnode ino
      else
        let pos = insert_pos x (take (used_extents fk) (extents fk)) - 1;
            p = extents fk ! pos;
            last_iblock = u64 (ex_iblock p + block_count p - 1);
            last_extent_block = u64 (first_block p + block_count p - 1)
        in if u64 (last_iblock + 1) = ex_iblock x \<and> u64 (last_extent_block + 1) = first_block x
           then Done (success, update_on_disk_layout env x update_bnode
                  (ino\<lparr>fork := fk\<lparr>extents := (extents fk)[pos := p\<lparr>block_count := u32 (block_count p + block_count x)\<rparr>]\<rparr>\<rparr>))
           else insert_in_fork env x (pos + 1) update_bnode ino)"

section \<open>Reservation and allocation\<close>

definition vdfs4_free_reserved_space :: "int \<Rightarrow> vdfs4_inode_info \<Rightarrow> vdfs4_inode_info outcome" where
  "vdfs4_free_reserved_space iblocks_count ino =
     (let s = fsm_info ino in
      if iblocks_count = 0 then Done ino
      else if reserved_blocks_count s < iblocks_count then Bug
      else Done (ino\<lparr>fsm_info := s\<lparr>reserved_blocks_count := u64 (reserved_blocks_count s - iblocks_count),
                                  free_blocks_count := u64 (free_blocks_count s + iblocks_count)\<rparr>\<rparr>))"

definition vdfs4_reserve_space :: "int \<Rightarrow> vdfs4_inode_info \<Rightarrow> status \<times> vdfs4_inode_info" where
  "vdfs4_reserve_space iblocks_count ino =
     (let s = fsm_info ino in
      if iblocks_count \<le> free_blocks_count s
      then (success, ino\<lparr>fsm_info := s\<lparr>free_blocks_count := u64 (free_blocks_count s - iblocks_count),
                                       reserved_blocks_count := u64 (reserved_blocks_count s + iblocks_count)\<rparr>\<rparr>)
      else (Some ENOSPC, ino))"

text \<open>
  The end of both ways to map a block, from the label \<^verbatim>\<open>done\<close> on: the block and how many blocks of the
  extent follow.
\<close>

definition map_block :: "file_env \<Rightarrow> bool \<Rightarrow> int \<Rightarrow> vdfs4_extent_info \<Rightarrow> (errno + int \<times> int) outcome" where
  "map_block env mounted ib e =
     (let res_block = u64 (first_block e + (ib - ex_iblock e));
          max_blocks = u32 (block_count e - u32 (ib - ex_iblock e))
      in if u64 (first_block e + block_count e) < res_block then Bug
         else if fe_bdev_blocks env < res_block then (if mounted then Bug else Done (Inl EFAULT))
         else Done (Inr (res_block, max_blocks)))"

text \<open>What becomes of the buffer: left as it is, mapped to a block, or marked as delayed.\<close>

datatype buffer_map = Unmapped | Mapped int int bool | Delayed

text \<open>
  \<^verbatim>\<open>vdfs4_get_block_prep_da\<close>: a mapped block, or the reservation of one. \<open>delay\<close> says that the buffer is
  delayed already, \<open>link\<close> that the inode is a symbolic link.
\<close>

definition vdfs4_get_block_prep_da ::
    "file_env \<Rightarrow> vdfs4_inode_info \<Rightarrow> int \<Rightarrow> bool \<Rightarrow> bool \<Rightarrow> (status \<times> buffer_map \<times> vdfs4_inode_info) outcome" where
  "vdfs4_get_block_prep_da env ino ib delay link =
     bind_outcome (vdfs4_get_iblock_extent env ino ib no_extent 0) (\<lambda>(err, e, offset_alloc_hint).
       if err \<noteq> success then Done (err, Unmapped, ino)
       else if first_block e \<noteq> 0
       then bind_outcome (map_block env (mount_finished (fsm_info ino)) ib e) (\<lambda>r.
              Done (case r of Inl e \<Rightarrow> (Some e, Unmapped, ino) | Inr (b, n) \<Rightarrow> (success, Mapped b n False, ino)))
       else if delay then Done (success, Unmapped, ino)
       else if fe_meta_space env \<noteq> success then Done (fe_meta_space env, Unmapped, ino)
       else if link \<and> runtime_extents ino \<noteq> [] \<and> vdfs4_runtime_extent_exists ib (runtime_extents ino) then Done (success, Delayed, ino)
       else case vdfs4_reserve_space 1 ino of
              (Some e, ino1) \<Rightarrow> Done (Some e, Unmapped, ino1)
            | (None, ino1) \<Rightarrow>
                (case vdfs4_runtime_extent_add (fe_mem env) ib offset_alloc_hint (runtime_extents ino1) of
                   (Some e, l) \<Rightarrow> bind_outcome (vdfs4_free_reserved_space 1 (ino1\<lparr>runtime_extents := l\<rparr>)) (\<lambda>ino2.
                     Done (Some e, Unmapped, ino2))
                 | (None, l) \<Rightarrow> Done (success, Delayed, ino1\<lparr>runtime_extents := l\<rparr>)))"

text \<open>
  \<^verbatim>\<open>vdfs4_get_int_block\<close>: a mapped block, or a block allocated and inserted. A failed insertion gives
  the block back. The size set in the buffer, at most its capacity, and the report of a failed
  delayed allocation are left out.
\<close>

definition vdfs4_get_int_block ::
    "file_env \<Rightarrow> vdfs4_inode_info \<Rightarrow> int \<Rightarrow> bool \<Rightarrow> bool \<Rightarrow> nat \<Rightarrow> (status \<times> buffer_map \<times> vdfs4_inode_info) outcome" where
  "vdfs4_get_int_block env ino ib create delay fsm_flags =
     (let delayed = flag_set fsm_flags VDFS4_FSM_ALLOC_DELAYED;
          mapped = (\<lambda>alloc e i. bind_outcome (map_block env (mount_finished (fsm_info i)) ib e) (\<lambda>r.
            Done (case r of Inl e \<Rightarrow> (Some e, Unmapped, i) | Inr (b, n) \<Rightarrow> (success, Mapped b n alloc, i))))
      in bind_outcome (vdfs4_get_iblock_extent env ino ib no_extent 0) (\<lambda>(err, e, offset_alloc_hint).
        if err \<noteq> success then Done (err, Unmapped, ino)
        else if first_block e \<noteq> 0 then mapped False e ino
        else if \<not> create then Done (success, Unmapped, ino)
        else if (if delayed then \<not> vdfs4_runtime_extent_exists ib (runtime_extents ino) else delay) then Bug
        else bind_outcome (vdfs4_fsm_get_free_block (fe_fsm env) offset_alloc_hint 1 1 fsm_flags (fsm_info ino)) (\<lambda>(off, n, s).
          let ino1 = ino\<lparr>fsm_info := s\<rparr>; x = \<lparr>first_block = off, ex_iblock = ib, block_count = n\<rparr> in
          if off = 0 then Done (Some ENOSPC, Unmapped, ino1)
          else bind_outcome (insert_extent env x True False ino1) (\<lambda>(err, ino2).
            if err \<noteq> success
            then bind_outcome (vdfs4_fsm_put_free_block (fe_fsm env) off n
                     (or fsm_flags (if delayed then or VDFS4_FSM_FREE_UNUSED VDFS4_FSM_FREE_RESERVE else VDFS4_FSM_FREE_UNUSED))
                     (fsm_info ino2)) (\<lambda>s.
                   Done (err, Unmapped, ino2\<lparr>fsm_info := s\<rparr>))
            else if delayed
            then (case vdfs4_runtime_extent_del (fe_mem env) ib (runtime_extents ino2) of
                    (Some e, l) \<Rightarrow> Bug
                  | (None, l) \<Rightarrow> mapped True x (ino2\<lparr>runtime_extents := l\<rparr>))
            else mapped True x ino2))))"

definition vdfs4_get_block :: "file_env \<Rightarrow> vdfs4_inode_info \<Rightarrow> int \<Rightarrow> bool \<Rightarrow> bool \<Rightarrow> (status \<times> buffer_map \<times> vdfs4_inode_info) outcome" where
  "vdfs4_get_block env ino ib create delay = vdfs4_get_int_block env ino ib create delay 0"

definition vdfs4_get_block_da :: "file_env \<Rightarrow> vdfs4_inode_info \<Rightarrow> int \<Rightarrow> bool \<Rightarrow> bool \<Rightarrow> (status \<times> buffer_map \<times> vdfs4_inode_info) outcome" where
  "vdfs4_get_block_da env ino ib create delay = vdfs4_get_int_block env ino ib create delay VDFS4_FSM_ALLOC_DELAYED"

section \<open>The blocks of a file\<close>

definition iext_ok :: "vdfs4_extent_info \<Rightarrow> bool" where
  "iext_ok e \<longleftrightarrow> 0 < first_block e \<and> first_block e + block_count e < 4294967296 \<and>
     0 \<le> ex_iblock e \<and> 0 < block_count e \<and> ex_iblock e + block_count e < 4294967296"

abbreviation ext_iblocks :: "vdfs4_extent_info \<Rightarrow> int set" where
  "ext_iblocks e \<equiv> extent_blocks (ex_iblock e) (block_count e)"

text \<open>An extent maps its logical blocks to consecutive blocks of the volume.\<close>

definition ext_map :: "vdfs4_extent_info \<Rightarrow> (int \<times> int) set" where
  "ext_map e = {(ib, b). ib \<in> ext_iblocks e \<and> b = first_block e + (ib - ex_iblock e)}"

definition ext_before :: "vdfs4_extent_info \<Rightarrow> vdfs4_extent_info \<Rightarrow> bool" where
  "ext_before a b \<longleftrightarrow> ex_iblock a + block_count a \<le> ex_iblock b"

definition fork_list :: "vdfs4_inode_info \<Rightarrow> vdfs4_extent_info list" where
  "fork_list ino = take (used_extents (fork ino)) (extents (fork ino))"

definition overflow :: "vdfs4_inode_info \<Rightarrow> int list list \<Rightarrow> vdfs4_extent_info set" where
  "overflow ino lv = tree_extents (extents_tree ino) lv (i_ino ino)"

definition file_extents :: "vdfs4_inode_info \<Rightarrow> int list list \<Rightarrow> vdfs4_extent_info set" where
  "file_extents ino lv = set (fork_list ino) \<union> overflow ino lv"

definition file_map :: "vdfs4_inode_info \<Rightarrow> int list list \<Rightarrow> (int \<times> int) set" where
  "file_map ino lv = (\<Union>e \<in> file_extents ino lv. ext_map e)"

definition file_iblocks :: "vdfs4_inode_info \<Rightarrow> int list list \<Rightarrow> int set" where
  "file_iblocks ino lv = (\<Union>e \<in> file_extents ino lv. ext_iblocks e)"

text \<open>
  The invariant: the fork is filled from the left, in the order of the logical blocks; the extents in
  the tree follow those of the fork, and there are none while the fork has room; no two overlap; the
  total is right.
\<close>

definition extents_ok :: "vdfs4_extent_info list \<Rightarrow> vdfs4_extent_info set \<Rightarrow> bool" where
  "extents_ok l E \<longleftrightarrow> (\<forall>e \<in> set l \<union> E. iext_ok e) \<and> sorted_wrt ext_before l \<and>
     (\<forall>a \<in> set l. \<forall>b \<in> E. ext_before a b) \<and> (\<forall>a \<in> E. \<forall>b \<in> E. a \<noteq> b \<longrightarrow> ext_before a b \<or> ext_before b a)"

definition fork_shape :: "vdfs4_fork_info \<Rightarrow> vdfs4_extent_info list \<Rightarrow> bool" where
  "fork_shape f l \<longleftrightarrow> length l \<le> VDFS4_EXTENTS_COUNT_IN_FORK \<and> used_extents f = length l \<and>
     (\<exists>z. extents f = l @ z \<and> length z = VDFS4_EXTENTS_COUNT_IN_FORK - length l \<and> (\<forall>e \<in> set z. first_block e = 0))"

definition file_ok :: "vdfs4_inode_info \<Rightarrow> int list list \<Rightarrow> bool" where
  "file_ok ino lv \<longleftrightarrow> exttree_ok (extents_tree ino) lv (i_ino ino) \<and> number_ok (i_ino ino) \<and>
     fork_shape (fork ino) (fork_list ino) \<and> extents_ok (fork_list ino) (overflow ino lv) \<and>
     (length (fork_list ino) < VDFS4_EXTENTS_COUNT_IN_FORK \<longrightarrow> overflow ino lv = {}) \<and>
     total_block_count (fork ino) = int (card (file_iblocks ino lv))"

lemma tree_extents_finite: "finite (overflow ino lv)"
  by (simp add: overflow_def tree_extents_def)

lemma file_iblocks_finite: "finite (file_iblocks ino lv)"
  using tree_extents_finite by (simp add: file_iblocks_def file_extents_def)

lemma file_map_dom: "fst ` file_map ino lv = file_iblocks ino lv"
  by (force simp: file_map_def file_iblocks_def ext_map_def)

section \<open>Lookup\<close>

lemma find_in_fork_ok:
  assumes "\<forall>e \<in> set es. iext_ok e"
  shows "case find_in_fork ib es of Some e \<Rightarrow> e \<in> set es \<and> ib \<in> ext_iblocks e | None \<Rightarrow> \<forall>e \<in> set es. ib \<notin> ext_iblocks e"
  using assms
proof (induction es)
  case (Cons e es)
  have "u64 (ex_iblock e + block_count e - 1) = ex_iblock e + block_count e - 1"
    using Cons.prems by (intro u64_id) (auto simp: iext_ok_def)
  with Cons show ?case by (auto simp: Let_def split: option.splits)
qed simp

lemma extents_disjoint:
  assumes "extents_ok l E" "a \<in> E" "b \<in> E" "ib \<in> ext_iblocks a" "ib \<in> ext_iblocks b"
  shows "a = b"
  using assms by (fastforce simp: extents_ok_def ext_before_def)

text \<open>The nearest extent of the tree decides.\<close>

lemma nearest_extent:
  assumes "extents_ok l E" "x \<in> E" "ex_iblock x \<le> ib" "\<forall>y \<in> E. ex_iblock y \<le> ib \<longrightarrow> ex_iblock y \<le> ex_iblock x" "y \<in> E" "ib \<in> ext_iblocks y"
  shows "y = x"
proof (rule ccontr)
  assume "y \<noteq> x"
  then have "ext_before y x \<or> ext_before x y" using assms(1,2,5) unfolding extents_ok_def by blast
  moreover have "iext_ok x" "iext_ok y" using assms(1,2,5) by (simp_all add: extents_ok_def)
  moreover have "ex_iblock y \<le> ex_iblock x" using assms(4-6) by simp
  ultimately show False using assms(3,6) by (auto simp: ext_before_def iext_ok_def)
qed

lemma lookup_ok:
  assumes f: "file_ok ino lv" and e: "exttree_env_ok (extents_tree ino) (fe_ext env)" and n: "number_ok ib"
  shows "\<exists>x hint. vdfs4_get_iblock_extent env ino ib no_extent 0 = Done (success, x, hint) \<and>
    (if first_block x = 0 then ib \<notin> file_iblocks ino lv else x \<in> file_extents ino lv \<and> ib \<in> ext_iblocks x)"
proof -
  let ?l = "fork_list ino" and ?E = "overflow ino lv" and ?f = "fork ino"
  have sh: "used_extents ?f = length ?l" "used_extents ?f \<le> length (extents ?f)" "length ?l \<le> VDFS4_EXTENTS_COUNT_IN_FORK"
    and xs: "extents_ok ?l ?E" and emp: "length ?l < VDFS4_EXTENTS_COUNT_IN_FORK \<longrightarrow> ?E = {}"
    and tot: "total_block_count ?f = int (card (file_iblocks ino lv))"
    and t: "exttree_ok (extents_tree ino) lv (i_ino ino)" "number_ok (i_ino ino)"
    using f by (auto simp: file_ok_def fork_shape_def)
  have ok: "\<forall>e \<in> set ?l. iext_ok e" "\<forall>e \<in> ?E. iext_ok e" using xs by (simp_all add: extents_ok_def)
  note fnd = find_in_fork_ok [OF ok(1), of ib]
  have es: "take (used_extents ?f) (extents ?f) = ?l" by (simp add: fork_list_def)
  consider "total_block_count ?f = 0 \<or> used_extents ?f = 0" | x where "total_block_count ?f \<noteq> 0" "used_extents ?f \<noteq> 0" "find_in_fork ib ?l = Some x"
    | "total_block_count ?f \<noteq> 0" "used_extents ?f \<noteq> 0" "find_in_fork ib ?l = None" "length ?l < VDFS4_EXTENTS_COUNT_IN_FORK"
    | "total_block_count ?f \<noteq> 0" "used_extents ?f \<noteq> 0" "find_in_fork ib ?l = None" "length ?l = VDFS4_EXTENTS_COUNT_IN_FORK"
    using sh(3) by (cases "find_in_fork ib ?l") (auto simp: le_less)
  then show ?thesis
  proof cases
    case 1
    then have "file_iblocks ino lv = {}"
      using tot file_iblocks_finite [of ino lv] sh(1) emp by (auto simp: file_iblocks_def file_extents_def VDFS4_EXTENTS_COUNT_IN_FORK_def)
    then show ?thesis using 1 by (auto simp: vdfs4_get_iblock_extent_def Let_def no_extent_def)
  next
    case (2 x)
    then have "x \<in> set ?l" "ib \<in> ext_iblocks x" using fnd by simp_all
    moreover have "vdfs4_get_iblock_extent env ino ib no_extent 0 = Done (success, x, 0)"
      unfolding vdfs4_get_iblock_extent_def Let_def es using 2 sh(2) by simp
    moreover have "0 < first_block x" using ok(1) calculation(1) by (simp add: iext_ok_def)
    ultimately show ?thesis by (simp add: file_extents_def)
  next
    case 3
    then have "ib \<notin> file_iblocks ino lv" using fnd emp by (auto simp: file_iblocks_def file_extents_def)
    moreover have "vdfs4_get_iblock_extent env ino ib no_extent 0 = Done (success, extent_not_found ib (last ?l))"
      unfolding vdfs4_get_iblock_extent_def Let_def es using 3 sh(1,2) by simp
    ultimately show ?thesis by (simp add: extent_not_found_def)
  next
    case 4
    have cont: "vdfs4_get_iblock_extent env ino ib no_extent 0 =
      bind_outcome (vdfs4_exttree_get_extent (fe_ext env) (extents_tree ino) (i_ino ino) ib) (\<lambda>(ret, e).
                 if ret \<noteq> success \<and> ret \<noteq> Some ENOENT then Done (ret, e, 0)
                 else if first_block e = 0
                 then Done (success, extent_not_found ib (extents ?f ! (VDFS4_EXTENTS_COUNT_IN_FORK - 1)))
                 else if ex_iblock e \<le> ib \<and> ib \<le> u64 (ex_iblock e + block_count e - 1) then Done (success, e, 0)
                 else Done (success, extent_not_found ib e))"
      unfolding vdfs4_get_iblock_extent_def Let_def es using 4 sh(1,2) by simp
    have notl: "ib \<notin> ext_iblocks e" if "e \<in> set ?l" for e using fnd 4(3) that by simp
    from get_extent_ok [OF t(1) e t(2) n] show ?thesis
    proof
      assume "\<exists>st x. vdfs4_exttree_get_extent (fe_ext env) (extents_tree ino) (i_ino ino) ib = Done (st, x) \<and> (st = success \<or> st = Some ENOENT) \<and>
        x \<in> tree_extents (extents_tree ino) lv (i_ino ino) \<and> ex_iblock x \<le> ib \<and>
        (\<forall>y \<in> tree_extents (extents_tree ino) lv (i_ino ino). ex_iblock y \<le> ib \<longrightarrow> ex_iblock y \<le> ex_iblock x)"
      then obtain st x where x: "vdfs4_exttree_get_extent (fe_ext env) (extents_tree ino) (i_ino ino) ib = Done (st, x)" "st = success \<or> st = Some ENOENT"
          "x \<in> ?E" "ex_iblock x \<le> ib" "\<forall>y \<in> ?E. ex_iblock y \<le> ib \<longrightarrow> ex_iblock y \<le> ex_iblock x" unfolding overflow_def by blast
      have o: "0 < first_block x" "u64 (ex_iblock x + block_count x - 1) = ex_iblock x + block_count x - 1"
        using ok(2) x(3) by (auto simp: iext_ok_def intro!: u64_id)
      show ?thesis
      proof (cases "ib \<in> ext_iblocks x")
        case True
        then show ?thesis using cont x o by (auto simp: file_extents_def)
      next
        case False
        then have "ib \<notin> file_iblocks ino lv"
          using notl nearest_extent [OF xs x(3,4,5)] by (auto simp: file_iblocks_def file_extents_def)
        then show ?thesis using cont x o False by (auto simp: extent_not_found_def)
      qed
    next
      assume a: "vdfs4_exttree_get_extent (fe_ext env) (extents_tree ino) (i_ino ino) ib = Done (Some ENOENT, no_extent) \<and>
        (\<forall>y \<in> tree_extents (extents_tree ino) lv (i_ino ino). ib < ex_iblock y)"
      then have "ib \<notin> file_iblocks ino lv" using notl by (force simp: file_iblocks_def file_extents_def overflow_def)
      then show ?thesis using cont a by (simp add: no_extent_def extent_not_found_def)
    qed
  qed
qed

section \<open>Insertion of an extent\<close>

lemma disjoint_before:
  assumes "iext_ok a" "iext_ok b" "ext_iblocks a \<inter> ext_iblocks b = {}" "ex_iblock a \<le> ex_iblock b"
  shows "ext_before a b"
proof -
  have "ex_iblock b \<in> ext_iblocks b" using assms(2) by (simp add: iext_ok_def)
  then have "ex_iblock b \<notin> ext_iblocks a" using assms(3) by blast
  then show ?thesis using assms(4) by (simp add: ext_before_def)
qed

lemma ext_before_trans: "ext_before a b \<Longrightarrow> ext_before b c \<Longrightarrow> iext_ok b \<Longrightarrow> ext_before a c"
  by (simp add: ext_before_def iext_ok_def)

lemma insert_pos_le: "insert_pos x l \<le> length l"
  by (induction l) auto

lemma insert_pos_take: "e \<in> set (take (insert_pos x l) l) \<Longrightarrow> ex_iblock e \<le> ex_iblock x"
  by (induction l) (auto split: if_splits)

lemma insert_pos_drop:
  assumes "\<forall>e \<in> set l. iext_ok e" "sorted_wrt ext_before l" "e \<in> set (drop (insert_pos x l) l)"
  shows "ex_iblock x < ex_iblock e"
  using assms
proof (induction l)
  case (Cons a l)
  show ?case
  proof (cases "ex_iblock x < ex_iblock a")
    case True
    then have "e = a \<or> ext_before a e \<and> iext_ok a" using Cons.prems by auto
    then show ?thesis using True by (auto simp: ext_before_def iext_ok_def)
  next
    case False
    then show ?thesis using Cons by simp
  qed
qed simp

text \<open>The list with the new extent at its place\<close>

definition insert_at :: "vdfs4_extent_info \<Rightarrow> vdfs4_extent_info list \<Rightarrow> vdfs4_extent_info list" where
  "insert_at x l = take (insert_pos x l) l @ x # drop (insert_pos x l) l"

lemma insert_at_set: "set (insert_at x l) = insert x (set l)" "length (insert_at x l) = Suc (length l)"
  using set_append [of "take (insert_pos x l) l" "drop (insert_pos x l) l"] by (simp_all add: insert_at_def) 

definition apart :: "vdfs4_extent_info \<Rightarrow> vdfs4_extent_info set \<Rightarrow> bool" where
  "apart x S \<longleftrightarrow> iext_ok x \<and> (\<forall>e \<in> S. ext_iblocks x \<inter> ext_iblocks e = {})"

lemma apart_before:
  assumes "apart x S" "e \<in> S" "iext_ok e"
  shows "ex_iblock e \<le> ex_iblock x \<Longrightarrow> ext_before e x" "ex_iblock x \<le> ex_iblock e \<Longrightarrow> ext_before x e"
  using disjoint_before [of e x] disjoint_before [of x e] assms unfolding apart_def by blast+

lemma insert_at_ok:
  assumes o: "extents_ok l E" and a: "apart x (set l \<union> E)" and b: "\<forall>b \<in> E. ext_before x b"
  shows "extents_ok (insert_at x l) E"
proof -
  have l: "\<forall>e \<in> set l. iext_ok e" "sorted_wrt ext_before l" "iext_ok x" using o a by (simp_all add: extents_ok_def apart_def)
  let ?p = "insert_pos x l"
  have t: "sorted_wrt ext_before (take ?p l)" "sorted_wrt ext_before (drop ?p l)" "\<forall>u \<in> set (take ?p l). \<forall>v \<in> set (drop ?p l). ext_before u v"
    using l(2) sorted_wrt_append [of ext_before "take ?p l" "drop ?p l"] by auto
  have "ext_before u x" if "u \<in> set (take ?p l)" for u
  proof -
    have "u \<in> set l" using that by (rule in_set_takeD)
    then show ?thesis using apart_before(1) [OF a, of u] l(1) insert_pos_take [OF that] by simp
  qed
  moreover have "ext_before x v" if "v \<in> set (drop ?p l)" for v
  proof -
    have "v \<in> set l" using that by (rule in_set_dropD)
    then show ?thesis using apart_before(2) [OF a, of v] l(1) insert_pos_drop [OF l(1,2) that] by simp
  qed
  ultimately have "sorted_wrt ext_before (insert_at x l)" using t by (auto simp: insert_at_def sorted_wrt_append)
  then show ?thesis using o b l(3) by (auto simp: extents_ok_def insert_at_set)
qed

lemma extents_ok_move: "extents_ok (l @ [y]) E \<Longrightarrow> extents_ok l (insert y E)"
  by (auto simp: extents_ok_def sorted_wrt_append)

lemma extents_ok_tree:
  assumes o: "extents_ok l E" and a: "apart x (set l \<union> E)" and p: "insert_pos x l = length l"
  shows "extents_ok l (insert x E)"
proof -
  have l: "\<forall>e \<in> set l \<union> E. iext_ok e" "sorted_wrt ext_before l" "iext_ok x" using o a by (simp_all add: extents_ok_def apart_def)
  have "ext_before e x" if "e \<in> set l" for e
    using apart_before(1) [OF a, of e] insert_pos_take [of e x l] l(1) p that by simp
  moreover have "ext_before x e \<or> ext_before e x" if "e \<in> E" for e
    using apart_before [OF a, of e] l(1) that by (cases "ex_iblock x \<le> ex_iblock e") auto
  ultimately show ?thesis using o l(3) by (auto simp: extents_ok_def)
qed

text \<open>An extent that continues its predecessor\<close>

lemma extents_ok_merge:
  assumes o: "extents_ok (l1 @ e # x # l2) E" and j: "ex_iblock x = ex_iblock e + block_count e" "first_block x = first_block e + block_count e"
    and m: "m = e\<lparr>block_count := block_count e + block_count x\<rparr>"
  shows "extents_ok (l1 @ m # l2) E" "ext_iblocks m = ext_iblocks e \<union> ext_iblocks x" "ext_map m = ext_map e \<union> ext_map x"
proof -
  have ok: "iext_ok e" "iext_ok x" using o by (simp_all add: extents_ok_def)
  then have "iext_ok m" using j m by (auto simp: iext_ok_def)
  moreover have "ext_before a e \<Longrightarrow> ext_before a m" "ext_before x b \<Longrightarrow> ext_before m b" for a b
    using j m by (simp_all add: ext_before_def)
  ultimately show "extents_ok (l1 @ m # l2) E" using o by (auto simp: extents_ok_def sorted_wrt_append)
  show "ext_iblocks m = ext_iblocks e \<union> ext_iblocks x" "ext_map m = ext_map e \<union> ext_map x"
    using j m ok by (auto simp: ext_map_def iext_ok_def)
qed

lemma shift_extents_eq:
  "p \<le> n \<Longrightarrow> n < length es \<Longrightarrow> shift_extents p n es = take (Suc p) es @ take (n - p) (drop p es) @ drop (Suc n) es"
proof (induction p n es rule: shift_extents.induct)
  case (1 p n es)
  show ?case
  proof (cases "p < n")
    case True
    let ?es = "es[n := es ! (n - 1)]"
    have n: "n - 1 - p = n - Suc p" "Suc (n - 1) = n" using True by simp_all
    have "shift_extents p n es = take (Suc p) ?es @ take (n - 1 - p) (drop p ?es) @ drop n ?es"
      using 1 True by (subst shift_extents.simps) (simp add: n(2))
    moreover have "take (Suc p) ?es = take (Suc p) es" "take (n - 1 - p) (drop p ?es) = take (n - 1 - p) (drop p es)"
      using True by (simp_all add: drop_update_swap take_update_cancel)
    moreover have "drop n ?es = es ! (n - 1) # drop (Suc n) es" using 1(3) by (simp add: drop_update_swap flip: Cons_nth_drop_Suc)
    moreover have "take (n - p) (drop p es) = take (n - 1 - p) (drop p es) @ [es ! (n - 1)]"
      using True 1(3) take_Suc_conv_app_nth [of "n - 1 - p" "drop p es"] by (simp add: Suc_diff_Suc)
    ultimately show ?thesis by simp
  next
    case False
    then show ?thesis using 1(2,3) by (subst shift_extents.simps) (simp add: le_antisym)
  qed
qed

lemma fork_shape_list:
  assumes "fork_shape (fork ino) l"
  shows "fork_list ino = l"
  using assms by (auto simp: fork_shape_def fork_list_def)

lemma fst_ext_map: "fst ` ext_map e = ext_iblocks e"
  by (force simp: ext_map_def)

lemma fst_ext_maps: "fst ` (\<Union>e \<in> S. ext_map e) = (\<Union>e \<in> S. ext_iblocks e)"
  using fst_ext_map by (auto simp: image_UN)

lemma extents_bounded: "extents_ok l E \<Longrightarrow> (\<Union>e \<in> set l \<union> E. ext_iblocks e) \<subseteq> {0 ..< 4294967295}"
proof -
  assume a: "extents_ok l E"
  have "ext_iblocks e \<subseteq> {0 ..< 4294967295}" if "e \<in> set l \<union> E" for e
  proof -
    have "iext_ok e" using a that unfolding extents_ok_def by blast
    then show ?thesis by (auto simp: iext_ok_def)
  qed
  then show ?thesis by (rule UN_least)
qed

text \<open>The extents of the file and one more\<close>

lemma file_update:
  assumes f: "file_ok ino lv" and a: "apart x (file_extents ino lv)" and t: "exttree_ok (extents_tree ino') lv' (i_ino ino)" "i_ino ino' = i_ino ino"
    and sh: "fork_shape (fork ino') l'" and xs: "extents_ok l' (overflow ino' lv')"
    and emp: "length l' < VDFS4_EXTENTS_COUNT_IN_FORK \<longrightarrow> overflow ino' lv' = {}"
    and maps: "(\<Union>e \<in> set l' \<union> overflow ino' lv'. ext_map e) = file_map ino lv \<union> ext_map x"
    and tot: "total_block_count (fork ino') = u32 (total_block_count (fork ino) + block_count x)"
  shows "file_ok ino' lv'" "file_map ino' lv' = file_map ino lv \<union> ext_map x"
proof -
  have l: "fork_list ino' = l'" using fork_shape_list [OF sh] .
  show m: "file_map ino' lv' = file_map ino lv \<union> ext_map x" using maps by (simp add: file_map_def [of ino'] file_extents_def l)
  have ib: "file_iblocks ino' lv' = file_iblocks ino lv \<union> ext_iblocks x"
    using m by (metis file_map_dom image_Un fst_ext_map)
  have "file_iblocks ino lv \<inter> ext_iblocks x = {}" using a unfolding file_iblocks_def apart_def by blast
  then have "int (card (file_iblocks ino' lv')) = total_block_count (fork ino) + block_count x"
    using f a card_Un_disjoint [OF file_iblocks_finite [of ino lv], of "ext_iblocks x"] by (simp add: ib file_ok_def apart_def iext_ok_def)
  moreover have "card (file_iblocks ino' lv') \<le> card {0 ..< (4294967295::int)}"
    using extents_bounded [OF xs] by (intro card_mono) (auto simp: file_iblocks_def file_extents_def l)
  ultimately have "total_block_count (fork ino') = int (card (file_iblocks ino' lv'))" using tot by (simp add: u32_id)
  then show "file_ok ino' lv'" using f t sh xs emp by (simp add: file_ok_def l)
qed

lemma fork_shapeD:
  assumes "fork_shape f l"
  shows "length (extents f) = VDFS4_EXTENTS_COUNT_IN_FORK" "used_extents f = length l" "length l \<le> VDFS4_EXTENTS_COUNT_IN_FORK"
    "take (length l) (extents f) = l" "i < length l \<Longrightarrow> extents f ! i = l ! i"
    "length l \<le> i \<Longrightarrow> i < VDFS4_EXTENTS_COUNT_IN_FORK \<Longrightarrow> first_block (extents f ! i) = 0"
  using assms by (auto simp: fork_shape_def nth_append)

text \<open>The four ways to place an extent keep the shape of the fork.\<close>

lemma fork_shape_free:
  assumes "fork_shape f l" "length l < VDFS4_EXTENTS_COUNT_IN_FORK"
  shows "fork_shape (f\<lparr>extents := (extents f)[length l := x], used_extents := length l + 1\<rparr>) (l @ [x])"
proof -
  obtain z where z: "extents f = l @ z" "length z = VDFS4_EXTENTS_COUNT_IN_FORK - length l" "\<forall>e \<in> set z. first_block e = 0"
    using assms(1) by (auto simp: fork_shape_def)
  then obtain c z' where "z = c # z'" using assms(2) by (cases z) auto
  then show ?thesis using z assms(2) by (auto simp: fork_shape_def)
qed

lemma fork_shape_shift:
  assumes s: "fork_shape f l" and p: "p < length l"
    and u: "u = (if length l = VDFS4_EXTENTS_COUNT_IN_FORK then length l else length l + 1)"
  shows "fork_shape (f\<lparr>extents := (shift_extents p (u - 1) (extents f))[p := x], used_extents := u\<rparr>) (take u (take p l @ x # drop p l))"
proof -
  obtain z where z: "extents f = l @ z" "length z = VDFS4_EXTENTS_COUNT_IN_FORK - length l" "\<forall>e \<in> set z. first_block e = 0"
      "length l \<le> VDFS4_EXTENTS_COUNT_IN_FORK" using s by (auto simp: fork_shape_def)
  have ul: "p \<le> u - 1" "u - 1 < length (extents f)" "0 < u" "u \<le> VDFS4_EXTENTS_COUNT_IN_FORK" using p u z by auto
  have "(shift_extents p (u - 1) (extents f))[p := x] = take p l @ x # take (u - 1 - p) (drop p (l @ z)) @ drop u (l @ z)"
    unfolding shift_extents_eq [OF ul(1,2)] using z(1) p ul(3) by (simp add: list_update_append take_Suc_conv_app_nth nth_append)
  moreover have "take (u - 1 - p) (drop p (l @ z)) = take (u - 1 - p) (drop p l)" using u p by simp
  moreover have "take u (take p l @ x # drop p l) = take p l @ x # take (u - 1 - p) (drop p l)"
    using p ul(1,3) by (simp add: take_Cons' min_def)
  moreover have "drop u (l @ z) = drop (u - length l) z" using u by (simp split: if_splits)
  ultimately have e: "(shift_extents p (u - 1) (extents f))[p := x] = take u (take p l @ x # drop p l) @ drop (u - length l) z" by simp
  have "length (take u (take p l @ x # drop p l)) = u" using u p by simp
  then show ?thesis using e z ul(4) u by (auto simp: fork_shape_def dest: in_set_dropD split: if_splits)
qed

text \<open>The same tree and place after an extent of the fork went to the tree, or the new one did.\<close>

definition same_file :: "vdfs4_inode_info \<Rightarrow> vdfs4_inode_info \<Rightarrow> bool" where
  "same_file ino ino' \<longleftrightarrow> i_ino ino' = i_ino ino \<and> runtime_extents ino' = runtime_extents ino \<and> fsm_info ino' = fsm_info ino"

definition tree_ready :: "file_env \<Rightarrow> vdfs4_inode_info \<Rightarrow> int list list \<Rightarrow> bool" where
  "tree_ready env ino lv \<longleftrightarrow> exttree_env_ok (extents_tree ino) (fe_ext env) \<and> complete (bt_nodes (extents_tree ino)) lv \<and>
     btree_height (extents_tree ino) < 65535"

definition tree_room :: "file_env \<Rightarrow> vdfs4_inode_info \<Rightarrow> int list list \<Rightarrow> bool" where
  "tree_room env ino lv \<longleftrightarrow> roomy (ee_tree (fe_ext env)) (length lv + 1) (extents_tree ino) \<and> ee_record (fe_ext env)"

lemma tree_put_ok:
  assumes f: "file_ok ino lv" and r: "tree_ready env ino lv" and y: "iext_ok y" "\<forall>e \<in> overflow ino lv. ex_iblock e \<noteq> ex_iblock y"
  shows "\<exists>st t lv'. vdfs4_extree_insert_extent (fe_ext env) (extents_tree ino) (i_ino ino) y True = Done (st, t) \<and>
    exttree_ok t lv' (i_ino ino) \<and> exttree_env_ok t (fe_ext env) \<and>
    tree_extents t lv' (i_ino ino) = (if st = success then insert y (overflow ino lv) else overflow ino lv) \<and>
    (tree_room env ino lv \<longrightarrow> st = success \<and> complete (bt_nodes t) lv')"
proof -
  have "extent_fits (i_ino ino) y" using y(1) f by (auto simp: extent_fits_def iext_ok_def file_ok_def number_ok_def)
  moreover have "exttree_ok (extents_tree ino) lv (i_ino ino)" "exttree_env_ok (extents_tree ino) (fe_ext env)"
      "complete (bt_nodes (extents_tree ino)) lv" "btree_height (extents_tree ino) < 65535"
    using f r by (simp_all add: file_ok_def tree_ready_def)
  ultimately obtain st t lv' where "vdfs4_extree_insert_extent (fe_ext env) (extents_tree ino) (i_ino ino) y True = Done (st, t)"
      "exttree_ok t lv' (i_ino ino)" "exttree_env_ok t (fe_ext env)"
      "\<forall>ob. tree_extents t lv' ob = (if st = success \<and> ob = i_ino ino then insert y (tree_extents (extents_tree ino) lv ob)
        else tree_extents (extents_tree ino) lv ob)"
      "roomy (ee_tree (fe_ext env)) (length lv + 1) (extents_tree ino) \<and> ee_record (fe_ext env) \<longrightarrow> st = success \<and> complete (bt_nodes t) lv'"
    using insert_extent_ok [of "extents_tree ino" lv "i_ino ino" "fe_ext env" y True] y(2) unfolding overflow_def by metis
  then show ?thesis unfolding overflow_def tree_room_def by (intro exI [of _ st] exI [of _ t] exI [of _ lv']) simp
qed

lemma file_okD:
  assumes "file_ok ino lv"
  shows "exttree_ok (extents_tree ino) lv (i_ino ino)" "fork_shape (fork ino) (fork_list ino)" "extents_ok (fork_list ino) (overflow ino lv)"
    "length (fork_list ino) < VDFS4_EXTENTS_COUNT_IN_FORK \<Longrightarrow> overflow ino lv = {}"
  using assms by (simp_all add: file_ok_def)

lemma file_extents_iext: "file_ok ino lv \<Longrightarrow> e \<in> file_extents ino lv \<Longrightarrow> iext_ok e"
  using file_okD(3) unfolding extents_ok_def file_extents_def by blast

text \<open>From the place on: \<^verbatim>\<open>insert_in_fork\<close>\<close>

lemma insert_in_fork_ok:
  assumes f: "file_ok ino lv" and r: "tree_ready env ino lv" and a: "apart x (file_extents ino lv)" and p: "pos = insert_pos x (fork_list ino)"
  shows "\<exists>st ino' lv'. insert_in_fork env x pos ub ino = Done (st, ino') \<and> file_ok ino' lv' \<and> same_file ino ino' \<and>
    exttree_env_ok (extents_tree ino') (fe_ext env) \<and>
    file_map ino' lv' = (if st = success then file_map ino lv \<union> ext_map x else file_map ino lv) \<and>
    (tree_room env ino lv \<longrightarrow> st = success \<and> complete (bt_nodes (extents_tree ino')) lv')"
proof -
  let ?l = "fork_list ino" and ?E = "overflow ino lv" and ?f = "fork ino"
  note d = file_okD [OF f] and sh = fork_shapeD [OF file_okD(2) [OF f]]
  have ax: "apart x (set ?l \<union> ?E)" using a by (simp add: file_extents_def)
  have pl: "pos \<le> length ?l" using p insert_pos_le by simp
  have ix: "0 < first_block e" if "e \<in> set ?l" for e using file_extents_iext [OF f, of e] that by (simp add: file_extents_def iext_ok_def)
  have used: "first_block (extents ?f ! i) \<noteq> 0" if "i < length ?l" for i using sh(5) [OF that] ix [OF nth_mem [OF that]] by simp
  have fm: "file_map ino lv = (\<Union>e \<in> set ?l \<union> ?E. ext_map e)" by (simp add: file_map_def file_extents_def)
  have iat: "insert_at x ?l = take pos ?l @ x # drop pos ?l" by (simp add: insert_at_def p)
  show ?thesis
  proof (cases "length ?l < VDFS4_EXTENTS_COUNT_IN_FORK")
    case True
    then have E: "?E = {}" using d(4) by simp
    have io: "extents_ok (insert_at x ?l) ?E" using insert_at_ok [OF d(3) ax] E by simp
    define f' where "f' = (if pos = length ?l then ?f\<lparr>extents := (extents ?f)[pos := x], used_extents := used_extents ?f + 1\<rparr>
      else ?f\<lparr>extents := (shift_extents pos (used_extents ?f + 1 - 1) (extents ?f))[pos := x], used_extents := used_extents ?f + 1\<rparr>)"
    have s': "fork_shape f' (insert_at x ?l)"
    proof (cases "pos = length ?l")
      case True
      then show ?thesis using fork_shape_free [OF d(2), of x] \<open>length ?l < _\<close> sh(2) by (simp add: f'_def iat)
    next
      case False
      then have "pos < length ?l" using pl by simp
      from fork_shape_shift [OF d(2) this refl, of x] show ?thesis using True False sh(2) pl by (simp add: f'_def iat)
    qed
    define ino' where "ino' = update_on_disk_layout env x ub (ino\<lparr>fork := f'\<rparr>)"
    have i': "i_ino ino' = i_ino ino" "extents_tree ino' = extents_tree ino" "overflow ino' lv = ?E" "same_file ino ino'"
        "fork ino' = f'\<lparr>total_block_count := u32 (total_block_count ?f + block_count x)\<rparr>"
      by (simp_all add: ino'_def update_on_disk_layout_def overflow_def same_file_def f'_def)
    have "insert_in_fork env x pos ub ino = Done (success, ino')"
    proof (cases "pos = length ?l")
      case True
      then show ?thesis using sh(6) [of pos] \<open>length ?l < _\<close> by (simp add: insert_in_fork_def Let_def ino'_def f'_def)
    next
      case False
      then have "first_block (extents ?f ! pos) \<noteq> 0" using pl used by simp
      then show ?thesis using False pl \<open>length ?l < _\<close> sh(2) by (simp add: insert_in_fork_def Let_def ino'_def f'_def)
    qed
    moreover have "fork_shape (fork ino') (insert_at x ?l)" using s' by (simp add: i'(5) fork_shape_def)
    moreover have "(\<Union>e \<in> set (insert_at x ?l) \<union> overflow ino' lv. ext_map e) = file_map ino lv \<union> ext_map x"
      unfolding fm i'(3) insert_at_set by blast
    ultimately show ?thesis
      using file_update [OF f a, of ino' lv "insert_at x ?l"] d(1) io i' E r by (auto simp: insert_at_set tree_ready_def intro!: exI [of _ lv])
  next
    case full: False
    then have len: "length ?l = VDFS4_EXTENTS_COUNT_IN_FORK" using sh(3) by simp
    define y where "y = (if pos = length ?l then x else last ?l)"
    have ne: "?l \<noteq> []" using len by (auto simp: VDFS4_EXTENTS_COUNT_IN_FORK_def)
    have lastl: "extents ?f ! (VDFS4_EXTENTS_COUNT_IN_FORK - 1) = last ?l" using sh(5) [of "length ?l - 1"] len ne by (simp add: last_conv_nth VDFS4_EXTENTS_COUNT_IN_FORK_def)
    define l' where "l' = (if pos = length ?l then ?l else butlast (insert_at x ?l))"
    have bl: "butlast (insert_at x ?l) @ [last ?l] = insert_at x ?l" if "pos \<noteq> length ?l"
    proof -
      have "drop pos ?l \<noteq> []" using that pl by simp
      then have "insert_at x ?l \<noteq> []" "last (insert_at x ?l) = last ?l" by (simp_all add: iat)
      then show ?thesis using append_butlast_last_id [of "insert_at x ?l"] by simp
    qed
    have xs: "extents_ok l' (insert y ?E)"
    proof (cases "pos = length ?l")
      case True
      then show ?thesis using extents_ok_tree [OF d(3) ax] p by (simp add: l'_def y_def)
    next
      case False
      then have "?l ! pos \<in> set (drop pos ?l)" "?l ! pos \<in> set ?l" using pl by (auto simp flip: Cons_nth_drop_Suc)
      moreover have okl: "\<forall>e \<in> set ?l. iext_ok e" "sorted_wrt ext_before ?l" using d(3) by (simp_all add: extents_ok_def)
      ultimately have "ext_before x (?l ! pos)" "iext_ok (?l ! pos)" "\<forall>b \<in> ?E. ext_before (?l ! pos) b"
        using apart_before(2) [OF ax, of "?l ! pos"] insert_pos_drop [OF okl, of "?l ! pos" x] d(3) p by (auto simp: extents_ok_def)
      then have "\<forall>b \<in> ?E. ext_before x b" using ext_before_trans by blast
      from insert_at_ok [OF d(3) ax this] have "extents_ok (butlast (insert_at x ?l) @ [last ?l]) ?E" using bl [OF False] by simp
      from extents_ok_move [OF this] show ?thesis using False by (simp add: l'_def y_def)
    qed
    have sl: "set l' \<union> insert y ?E = insert x (set ?l \<union> ?E)"
    proof (cases "pos = length ?l")
      case False
      have "set (butlast (insert_at x ?l)) \<union> {last ?l} = insert x (set ?l)" using arg_cong [OF bl [OF False], of set] by (simp add: insert_at_set)
      then show ?thesis using False by (auto simp: l'_def y_def)
    qed (auto simp: l'_def y_def)
    have iy: "iext_ok y" using xs by (simp add: extents_ok_def)
    have ny: "\<forall>e \<in> ?E. ex_iblock e \<noteq> ex_iblock y"
    proof (cases "pos = length ?l")
      case True
      have "e \<in> ?E \<Longrightarrow> iext_ok e \<and> ext_iblocks x \<inter> ext_iblocks e = {}" for e using d(3) ax unfolding extents_ok_def apart_def by blast
      then show ?thesis using True iy by (fastforce simp: y_def iext_ok_def)
    next
      case False
      have "e \<in> ?E \<Longrightarrow> ext_before y e" for e using d(3) ne False by (simp add: extents_ok_def y_def)
      then show ?thesis using iy by (fastforce simp: ext_before_def iext_ok_def)
    qed
    obtain st t lv' where put: "vdfs4_extree_insert_extent (fe_ext env) (extents_tree ino) (i_ino ino) y True = Done (st, t)"
        "exttree_ok t lv' (i_ino ino)" "exttree_env_ok t (fe_ext env)"
        "tree_extents t lv' (i_ino ino) = (if st = success then insert y ?E else ?E)"
        "tree_room env ino lv \<longrightarrow> st = success \<and> complete (bt_nodes t) lv'"
      using tree_put_ok [OF f r iy ny] by blast
    define f' where "f' = (if pos = length ?l then ?f
      else ?f\<lparr>extents := (shift_extents pos (used_extents ?f - 1) (extents ?f))[pos := x], used_extents := used_extents ?f\<rparr>)"
    define ino' where "ino' = (if st = success then update_on_disk_layout env x ub (ino\<lparr>extents_tree := t, fork := f'\<rparr>) else ino\<lparr>extents_tree := t\<rparr>)"
    have run: "insert_in_fork env x pos ub ino = Done (st, ino')"
    proof (cases "pos = length ?l")
      case True
      then show ?thesis using put(1) len by (auto simp: insert_in_fork_def Let_def ino'_def f'_def y_def)
    next
      case False
      then have "first_block (extents ?f ! pos) \<noteq> 0" using pl used by simp
      then show ?thesis using put(1) False len sh(2) pl lastl by (auto simp: insert_in_fork_def Let_def ino'_def f'_def y_def)
    qed
    have sf: "same_file ino ino'" "extents_tree ino' = t" by (simp_all add: ino'_def same_file_def update_on_disk_layout_def)
    show ?thesis
    proof (cases "st = success")
      case True
      have ov: "overflow ino' lv' = insert y ?E" "i_ino ino' = i_ino ino" using put(4) True sf by (simp_all add: overflow_def same_file_def)
      have "fork_shape f' l'"
      proof (cases "pos = length ?l")
        case False
        then have "pos < length ?l" using pl by simp
        from fork_shape_shift [OF d(2) this refl, of x] show ?thesis
          using False len sh(2) pl by (simp add: f'_def l'_def butlast_conv_take insert_at_set flip: iat)
      qed (use d(2) in \<open>simp add: f'_def l'_def\<close>)
      then have s': "fork_shape (fork ino') l'" "total_block_count (fork ino') = u32 (total_block_count ?f + block_count x)"
        using True by (simp_all add: ino'_def update_on_disk_layout_def fork_shape_def f'_def)
      have ll: "\<not> length l' < VDFS4_EXTENTS_COUNT_IN_FORK" using len by (simp add: l'_def insert_at_set)
      have "(\<Union>e \<in> set l' \<union> overflow ino' lv'. ext_map e) = file_map ino lv \<union> ext_map x" unfolding ov sl fm by blast
      from file_update [OF f a _ ov(2) s'(1) _ _ this s'(2)] show ?thesis
        using run put True sf xs ll ov(1) by (auto intro!: exI [of _ lv'])
    next
      case False
      then have ov: "overflow ino' lv' = ?E" "fork_list ino' = ?l" "fork ino' = ?f" "i_ino ino' = i_ino ino"
        using put(4) by (auto simp: ino'_def overflow_def fork_list_def)
      then have "file_ok ino' lv'" "file_map ino' lv' = file_map ino lv"
        using f put(2) sf by (simp_all add: file_ok_def file_map_def file_extents_def file_iblocks_def)
      then show ?thesis using run put False sf by (auto intro!: exI [of _ lv'])
    qed
  qed
qed

text \<open>The whole of \<^verbatim>\<open>insert_extent\<close>\<close>

lemma file_insert_ok:
  assumes f: "file_ok ino lv" and r: "tree_ready env ino lv" and a: "apart x (file_extents ino lv)"
  shows "\<exists>st ino' lv'. insert_extent env x ub er ino = Done (st, ino') \<and> file_ok ino' lv' \<and> same_file ino ino' \<and>
    exttree_env_ok (extents_tree ino') (fe_ext env) \<and>
    file_map ino' lv' = (if st = success then file_map ino lv \<union> ext_map x else file_map ino lv) \<and>
    (tree_room env ino lv \<and> (er \<longrightarrow> fe_zeroout env x = success) \<longrightarrow> st = success \<and> complete (bt_nodes (extents_tree ino')) lv')"
proof -
  let ?l = "fork_list ino" and ?E = "overflow ino lv" and ?f = "fork ino"
  note d = file_okD [OF f] and sh = fork_shapeD [OF file_okD(2) [OF f]]
  have ee: "exttree_env_ok (extents_tree ino) (fe_ext env)" "complete (bt_nodes (extents_tree ino)) lv" using r by (simp_all add: tree_ready_def)
  have ax: "apart x (set ?l \<union> ?E)" "iext_ok x" using a by (simp_all add: file_extents_def apart_def)
  have okl: "\<forall>e \<in> set ?l. iext_ok e" using d(3) by (simp add: extents_ok_def)
  have es: "take (used_extents ?f) (extents ?f) = ?l" by (simp add: fork_list_def)
  have s0: "length (extents ?f) = VDFS4_EXTENTS_COUNT_IN_FORK" "\<not> VDFS4_EXTENTS_COUNT_IN_FORK < used_extents ?f" using sh by simp_all
  have same: "same_file ino ino" by (simp add: same_file_def)
  define pos where "pos = insert_pos x ?l"
  define p where "p = extents ?f ! (pos - 1)"
  note fk = insert_in_fork_ok [OF f r a pos_def, of ub]
  consider "er \<and> fe_zeroout env x \<noteq> success" | "\<not> (er \<and> fe_zeroout env x \<noteq> success)" "?l = []"
    | "\<not> (er \<and> fe_zeroout env x \<noteq> success)" "?l \<noteq> []" "pos = 0"
    | "\<not> (er \<and> fe_zeroout env x \<noteq> success)" "?l \<noteq> []" "0 < pos" using neq0_conv by blast
  then show ?thesis
  proof cases
    case 1
    then have "insert_extent env x ub er ino = Done (fe_zeroout env x, ino)" using s0 by (simp add: insert_extent_def Let_def)
    then show ?thesis using 1 f ee same by auto
  next
    case 2
    then have "pos = 0" by (simp add: pos_def)
    moreover have "insert_extent env x ub er ino = insert_in_fork env x 0 ub ino"
      using 2 s0 sh(2) sh(6) [of 0] by (auto simp: insert_extent_def insert_in_fork_def Let_def VDFS4_EXTENTS_COUNT_IN_FORK_def)
    ultimately show ?thesis using fk by fastforce
  next
    case 3
    have "ex_iblock x < ex_iblock (extents ?f ! 0)" using 3 sh(5) [of 0] by (cases ?l) (auto simp: pos_def split: if_splits)
    then have "insert_extent env x ub er ino = insert_in_fork env x pos ub ino" using 3 s0 sh(2) by (auto simp: insert_extent_def Let_def)
    then show ?thesis using fk by fastforce
  next
    case 4
    have pl: "pos \<le> length ?l" "pos - 1 < length ?l" using 4 insert_pos_le [of x ?l] by (simp_all add: pos_def)
    have pe: "p = ?l ! (pos - 1)" "p \<in> set ?l" "iext_ok p" using sh(5) [OF pl(2)] pl(2) okl by (simp_all add: p_def)
    have nb: "\<not> ex_iblock x < ex_iblock (extents ?f ! 0)" using 4 sh(5) [of 0] by (cases ?l) (auto simp: pos_def split: if_splits)
    have wr: "u64 (u64 (ex_iblock p + block_count p - 1) + 1) = ex_iblock p + block_count p"
        "u64 (u64 (first_block p + block_count p - 1) + 1) = first_block p + block_count p"
      using pe(3) by (auto simp: iext_ok_def u64_id)
    have unf: "insert_extent env x ub er ino = (if ex_iblock p + block_count p = ex_iblock x \<and> first_block p + block_count p = first_block x
      then Done (success, update_on_disk_layout env x ub
             (ino\<lparr>fork := ?f\<lparr>extents := (extents ?f)[pos - 1 := p\<lparr>block_count := u32 (block_count p + block_count x)\<rparr>]\<rparr>\<rparr>))
      else insert_in_fork env x pos ub ino)"
      unfolding insert_extent_def Let_def es pos_def [symmetric] p_def [symmetric] wr using 4 nb s0 sh(2) by auto
    show ?thesis
    proof (cases "ex_iblock p + block_count p = ex_iblock x \<and> first_block p + block_count p = first_block x")
      case False
      then show ?thesis using unf fk by fastforce
    next
      case True
      let ?m = "p\<lparr>block_count := block_count p + block_count x\<rparr>" and ?l1 = "take (pos - 1) ?l" and ?l2 = "drop pos ?l"
      have u: "u32 (block_count p + block_count x) = block_count p + block_count x"
        using pe(3) ax(2) True by (intro u32_id) (auto simp: iext_ok_def)
      have sp: "?l = ?l1 @ p # ?l2" using id_take_nth_drop [OF pl(2)] 4 pe(1) by simp
      have "take pos ?l = ?l1 @ [p]" using take_Suc_conv_app_nth [OF pl(2)] 4 pe(1) by simp
      then have iat: "insert_at x ?l = ?l1 @ p # x # ?l2" by (simp add: insert_at_def pos_def)
      have "ext_before x b" if "b \<in> ?E" for b
      proof -
        have "ext_before p b" "iext_ok b" using d(3) pe(2) that unfolding extents_ok_def by blast+
        then show ?thesis using apart_before(2) [OF ax(1), of b] that True by (simp add: ext_before_def)
      qed
      then have "extents_ok (?l1 @ p # x # ?l2) ?E" using insert_at_ok [OF d(3) ax(1)] iat by simp
      from extents_ok_merge [OF this _ _ refl] True have m: "extents_ok (?l1 @ ?m # ?l2) ?E" "ext_map ?m = ext_map p \<union> ext_map x" by simp_all
      define ino' where "ino' = update_on_disk_layout env x ub (ino\<lparr>fork := ?f\<lparr>extents := (extents ?f)[pos - 1 := ?m]\<rparr>\<rparr>)"
      have i': "i_ino ino' = i_ino ino" "extents_tree ino' = extents_tree ino" "overflow ino' lv = ?E" "same_file ino ino'"
          "total_block_count (fork ino') = u32 (total_block_count ?f + block_count x)"
        by (simp_all add: ino'_def update_on_disk_layout_def overflow_def same_file_def)
      have lu: "?l[pos - 1 := ?m] = ?l1 @ ?m # ?l2" using upd_conv_take_nth_drop [OF pl(2)] 4 by simp
      have "fork_shape (fork ino') (?l[pos - 1 := ?m])"
        using d(2) pl(2) by (auto simp: ino'_def update_on_disk_layout_def fork_shape_def list_update_append)
      then have s': "fork_shape (fork ino') (?l1 @ ?m # ?l2)" by (simp only: lu)
      have ll: "length (?l1 @ ?m # ?l2) = length ?l" using lu length_list_update by metis
      have "set ?l = set ?l1 \<union> {p} \<union> set ?l2" using arg_cong [OF sp, of set] by simp
      then have "(\<Union>e \<in> set (?l1 @ ?m # ?l2) \<union> overflow ino' lv. ext_map e) = file_map ino lv \<union> ext_map x"
        unfolding i'(3) file_map_def file_extents_def using m(2) by auto
      from file_update [OF f a _ i'(1) s' _ _ this i'(5)] have "file_ok ino' lv" "file_map ino' lv = file_map ino lv \<union> ext_map x"
        using d(1,4) i' m(1) ll by simp_all
      then show ?thesis using unf True u i' ee by (auto simp: ino'_def intro!: exI [of _ lv])
    qed
  qed
qed

end
