(* ===== verification/Vdfs_Files_Props.thy ===== *)
theory Vdfs_Files_Props
  imports Vdfs_Files
begin

text \<open>
  The promises of the block mapping: a block of a file is found where it was put, the file gets blocks
  that were free, and a failure takes nothing. The free space manager and the extents tree are
  used through the lemmas of their theories.
\<close>

section \<open>What an allocation leaves alone\<close>

lemma for_each_frame:
  assumes "\<And>x s s'. body x s = Done s' \<Longrightarrow> f s' = f s" "for_each body xs s = Done s'"
  shows "f s' = f s"
  using assms(2) by (induction xs arbitrary: s) (auto simp: bind_outcome_Done_iff dest!: assms(1))

definition fsm_fixed :: "vdfs4_fsm_info \<Rightarrow> int \<times> int \<times> nat \<times> nat \<times> bool \<times> int \<times> int" where
  "fsm_fixed s = (volume_blocks_count s, page_count s, fsm_block_size s, block_size_shift s, mount_finished s,
     free_blocks_count s, reserved_blocks_count s)"

lemma inc_erase_fixed:
  assumes "fsm_inc_erase_blocks_counters off n s = Done s'"
  shows "fsm_fixed s' = fsm_fixed s"
  by (rule for_each_frame [where f = fsm_fixed, OF _ assms [unfolded fsm_inc_erase_blocks_counters_def]])
    (auto simp: fsm_inc_erase_block_def Let_def fsm_fixed_def split: if_splits)

lemma add_chunks_fixed:
  assumes "fsm_add_chunks a b s = Done s'"
  shows "fsm_fixed s' = fsm_fixed s"
  by (rule for_each_frame [where f = fsm_fixed, OF _ assms [unfolded fsm_add_chunks_def]])
    (auto simp: fsm_add_chunk_def fsm_fixed_def split: if_splits)

lemma get_free_finish_fixed:
  assumes "get_free_finish delayed off n s s1 = Done (off', n', s')" "alloc_frame s s1"
  shows "fsm_fixed s' = fsm_fixed (if delayed then s\<lparr>reserved_blocks_count := u64 (reserved_blocks_count s - n)\<rparr>
    else s\<lparr>free_blocks_count := u64 (free_blocks_count s - n)\<rparr>)"
  using assms unfolding get_free_finish_def Let_def
  by (auto simp: bind_outcome_Done_iff fsm_fixed_def alloc_frame_def split: if_splits option.splits prod.splits
      dest!: inc_erase_fixed add_chunks_fixed)

text \<open>One block\<close>

lemma alloc_block:
  assumes ok: "fsm_ok s" and ops: "rb_ops_ok (env_rb env)" and flags: "\<not> flag_set flags VDFS4_FSM_ALLOC_ALIGNED"
    and free: "free_blocks s \<noteq> {}" and pages: "pages_cover s"
    and enough: "0 < (if flag_set flags VDFS4_FSM_ALLOC_DELAYED then reserved_blocks_count s else free_blocks_count s)"
  shows "\<exists>b s'. vdfs4_fsm_get_free_block env hint 1 1 flags s = Done (b, 1, s') \<and> 0 < b \<and> b < volume_blocks_count s \<and> fsm_ok s' \<and>
    b \<in> free_blocks s \<and> b \<notin> fsm_used s \<and> fsm_used s' = insert b (fsm_used s) \<and> pages_cover s' \<and> mount_finished s' = mount_finished s \<and>
    volume_blocks_count s' = volume_blocks_count s \<and> volume_blocks_count s < 4294967296"
proof -
  let ?del = "flag_set flags VDFS4_FSM_ALLOC_DELAYED"
  have en: "if ?del then 1 \<le> reserved_blocks_count s else 1 \<le> free_blocks_count s" using enough by (auto split: if_splits)
  obtain off n s1 where r: "vdfs4_fsm_get_free_block env hint 1 1 flags s = get_free_finish ?del off n s s1" "taken off n s s1" "0 < n" "n \<le> 1"
      "extent_blocks off n \<subseteq> free_blocks s"
    using get_free_block_run [OF ok ops zero_less_one flags free en] by blast
  obtain off' n' s' where p: "vdfs4_fsm_get_free_block env hint 1 1 flags s = Done (off', n', s')" "off' \<noteq> 0" "0 < n'" "n' \<le> 1" "fsm_ok s'"
      "allocated_blocks off' n' s s'"
    using get_free_block_plain [OF ok ops zero_less_one flags free en pages] by blast
  have "fsm_fixed s' = fsm_fixed (if ?del then s\<lparr>reserved_blocks_count := u64 (reserved_blocks_count s - n)\<rparr>
      else s\<lparr>free_blocks_count := u64 (free_blocks_count s - n)\<rparr>)"
    using get_free_finish_fixed [of ?del off n s s1 off' n' s'] r(1,2) p(1) by (simp add: taken_def)
  then have g: "volume_blocks_count s' = volume_blocks_count s" "page_count s' = page_count s" "fsm_block_size s' = fsm_block_size s"
      "block_size_shift s' = block_size_shift s" "mount_finished s' = mount_finished s"
    by (auto simp: fsm_fixed_def split: if_splits)
  have n1: "n' = 1" using p(3,4) by simp
  have fr: "extent_blocks off' 1 \<subseteq> free_blocks s" using p(6) n1 by (simp add: allocated_blocks_def)
  note b = fsm_clear_bounds [OF ok fr zero_less_one]
  have "free_blocks s \<inter> fsm_used s = {}" using ok by (auto simp: fsm_ok_def bitmap_inv_def fsm_clear_def)
  moreover have "extent_blocks off' 1 = {off'}" by auto
  moreover have "fsm_used s' = insert off' (fsm_used s)" using p(6) n1 \<open>extent_blocks off' 1 = {off'}\<close> by (simp add: allocated_blocks_def)
  moreover have "pages_cover s'" using pages g by (simp add: pages_cover_def fsm_page_of_def)
  ultimately show ?thesis using p(1,5) n1 fr b g by auto
qed

section \<open>Mapping\<close>

lemma map_block_ok:
  assumes x: "iext_ok x" "ib \<in> ext_iblocks x" and d: "first_block x + (ib - ex_iblock x) \<le> fe_bdev_blocks env"
  shows "map_block env mounted ib x = Done (Inr (first_block x + (ib - ex_iblock x), ex_iblock x + block_count x - ib))"
proof -
  have "u64 (first_block x + (ib - ex_iblock x)) = first_block x + (ib - ex_iblock x)" "u64 (first_block x + block_count x) = first_block x + block_count x"
      "u32 (block_count x - u32 (ib - ex_iblock x)) = ex_iblock x + block_count x - ib"
    using x by (auto simp: iext_ok_def u64_id u32_id)
  then show ?thesis using x d by (auto simp: map_block_def Let_def)
qed

lemma mapped_run:
  assumes x: "x \<in> file_extents ino lv" "ib \<in> ext_iblocks x"
  shows "\<forall>k \<in> {0 ..< ex_iblock x + block_count x - ib}. (ib + k, first_block x + (ib - ex_iblock x) + k) \<in> file_map ino lv"
    "(ib, first_block x + (ib - ex_iblock x)) \<in> file_map ino lv"
  using x by (auto simp: file_map_def ext_map_def intro!: bexI [of _ x])

text \<open>The volume below a file: consistent free space, on the device.\<close>

definition volume_ready :: "file_env \<Rightarrow> vdfs4_inode_info \<Rightarrow> int list list \<Rightarrow> bool" where
  "volume_ready env ino lv \<longleftrightarrow> fsm_ok (fsm_info ino) \<and> rb_ops_ok (env_rb (fe_fsm env)) \<and> pages_cover (fsm_info ino) \<and>
     volume_blocks_count (fsm_info ino) \<le> fe_bdev_blocks env \<and> (\<forall>(ib, b) \<in> file_map ino lv. b \<le> fe_bdev_blocks env)"

text \<open>A block can be had: reserved before, when the allocation is delayed.\<close>

definition space_for :: "bool \<Rightarrow> file_env \<Rightarrow> vdfs4_inode_info \<Rightarrow> int \<Rightarrow> bool" where
  "space_for delayed env ino ib \<longleftrightarrow> free_blocks (fsm_info ino) \<noteq> {} \<and>
     (if delayed then 0 < reserved_blocks_count (fsm_info ino) \<and> rt_disjoint (runtime_extents ino) \<and> ib \<in> rt_blocks (runtime_extents ino) \<and> fe_mem env
      else 0 < free_blocks_count (fsm_info ino))"

lemma flag_bits:
  "flag_set VDFS4_FSM_ALLOC_DELAYED VDFS4_FSM_ALLOC_DELAYED" "\<not> flag_set 0 f" "\<not> flag_set VDFS4_FSM_ALLOC_DELAYED VDFS4_FSM_ALLOC_ALIGNED"
  "flag_set (or VDFS4_FSM_ALLOC_DELAYED (or VDFS4_FSM_FREE_UNUSED VDFS4_FSM_FREE_RESERVE)) VDFS4_FSM_FREE_UNUSED"
  "flag_set (or 0 VDFS4_FSM_FREE_UNUSED) VDFS4_FSM_FREE_UNUSED"
  by (simp_all add: flag_set_def VDFS4_FSM_ALLOC_DELAYED_def VDFS4_FSM_ALLOC_ALIGNED_def VDFS4_FSM_FREE_UNUSED_def VDFS4_FSM_FREE_RESERVE_def)

lemma get_int_block_found:
  assumes f: "file_ok ino lv" and t: "tree_ready env ino lv" and v: "volume_ready env ino lv" and n: "number_ok ib" and ib: "ib \<in> file_iblocks ino lv"
  shows "\<exists>b m. vdfs4_get_int_block env ino ib create delay flags = Done (success, Mapped b m False, ino) \<and> 0 < m \<and>
    (\<forall>k \<in> {0 ..< m}. (ib + k, b + k) \<in> file_map ino lv)"
proof -
  obtain x hint where x: "vdfs4_get_iblock_extent env ino ib no_extent 0 = Done (success, x, hint)" "first_block x \<noteq> 0"
      "x \<in> file_extents ino lv" "ib \<in> ext_iblocks x"
    using lookup_ok [OF f _ n, of env] t ib unfolding tree_ready_def by (metis (full_types))
  note r = mapped_run [OF x(3,4)]
  have "first_block x + (ib - ex_iblock x) \<le> fe_bdev_blocks env" using v r(2) by (auto simp: volume_ready_def)
  from map_block_ok [OF file_extents_iext [OF f x(3)] x(4) this]
  have "vdfs4_get_int_block env ino ib create delay flags =
      Done (success, Mapped (first_block x + (ib - ex_iblock x)) (ex_iblock x + block_count x - ib) False, ino)"
    using x(1,2) by (simp add: vdfs4_get_int_block_def Let_def)
  then show ?thesis using r(1) x(4) by auto
qed

lemma get_int_block_absent:
  assumes f: "file_ok ino lv" and t: "tree_ready env ino lv" and n: "number_ok ib" and ib: "ib \<notin> file_iblocks ino lv"
  shows "\<exists>x hint. vdfs4_get_iblock_extent env ino ib no_extent 0 = Done (success, x, hint) \<and> first_block x = 0"
  using lookup_ok [OF f _ n, of env] t ib unfolding tree_ready_def file_iblocks_def by (metis (no_types, lifting) UN_I)

lemma get_int_block_new:
  assumes f: "file_ok ino lv" and t: "tree_ready env ino lv" and v: "volume_ready env ino lv" and n: "0 \<le> ib" "ib + 1 < 4294967296"
    and ib: "ib \<notin> file_iblocks ino lv" and fl: "flags = (if delayed then VDFS4_FSM_ALLOC_DELAYED else 0)" "delayed \<or> \<not> delay"
    and s: "space_for delayed env ino ib"
  shows "\<exists>st m ino' lv'. vdfs4_get_int_block env ino ib True delay flags = Done (st, m, ino') \<and> file_ok ino' lv' \<and> fsm_ok (fsm_info ino') \<and>
    (if st = success then \<exists>b. m = Mapped b 1 True \<and> b \<in> free_blocks (fsm_info ino) \<and> b \<notin> fsm_used (fsm_info ino) \<and>
        fsm_used (fsm_info ino') = insert b (fsm_used (fsm_info ino)) \<and> file_map ino' lv' = insert (ib, b) (file_map ino lv) \<and>
        rt_blocks (runtime_extents ino') = rt_blocks (runtime_extents ino) - (if delayed then {ib} else {})
     else m = Unmapped \<and> fsm_used (fsm_info ino') = fsm_used (fsm_info ino) \<and> file_map ino' lv' = file_map ino lv \<and>
        runtime_extents ino' = runtime_extents ino) \<and>
    (tree_room env ino lv \<longrightarrow> st = success)"
proof -
  let ?s = "fsm_info ino" and ?rt = "runtime_extents ino"
  have nb: "number_ok ib" using n by (simp add: number_ok_def)
  obtain x0 hint where x0: "vdfs4_get_iblock_extent env ino ib no_extent 0 = Done (success, x0, hint)" "first_block x0 = 0"
    using get_int_block_absent [OF f t nb ib] by blast
  have fa: "\<not> flag_set flags VDFS4_FSM_ALLOC_ALIGNED" and fd: "flag_set flags VDFS4_FSM_ALLOC_DELAYED = delayed"
    using fl(1) flag_bits by (simp_all split: if_splits)
  have vr: "fsm_ok ?s" "rb_ops_ok (env_rb (fe_fsm env))" "pages_cover ?s" "volume_blocks_count ?s \<le> fe_bdev_blocks env" using v by (simp_all add: volume_ready_def)
  have sp: "free_blocks ?s \<noteq> {}" "0 < (if delayed then reserved_blocks_count ?s else free_blocks_count ?s)"
      "delayed \<Longrightarrow> rt_disjoint ?rt \<and> ib \<in> rt_blocks ?rt \<and> fe_mem env"
    using s by (auto simp: space_for_def split: if_splits)
  obtain b s' where b: "vdfs4_fsm_get_free_block (fe_fsm env) hint 1 1 flags ?s = Done (b, 1, s')" "0 < b" "b < volume_blocks_count ?s" "fsm_ok s'"
      "b \<in> free_blocks ?s" "b \<notin> fsm_used ?s" "fsm_used s' = insert b (fsm_used ?s)" "pages_cover s'" "volume_blocks_count ?s < 4294967296"
    using alloc_block [OF vr(1,2) fa sp(1) vr(3), unfolded fd, OF sp(2), of hint] by blast
  let ?x = "\<lparr>first_block = b, ex_iblock = ib, block_count = 1\<rparr>" and ?i = "ino\<lparr>fsm_info := s'\<rparr>"
  have xo: "iext_ok ?x" "ext_map ?x = {(ib, b)}" using b(2,3,9) n by (auto simp: iext_ok_def ext_map_def)
  have sm: "file_ok ?i lv = file_ok ino lv" "tree_ready env ?i lv = tree_ready env ino lv" "file_extents ?i lv = file_extents ino lv"
      "file_map ?i lv = file_map ino lv" "tree_room env ?i lv = tree_room env ino lv"
    by (simp_all add: file_ok_def tree_ready_def tree_room_def file_extents_def file_map_def file_iblocks_def overflow_def fork_list_def)
  have ap: "apart ?x (file_extents ?i lv)"
  proof -
    have "ib \<notin> ext_iblocks e" if "e \<in> file_extents ino lv" for e using ib that unfolding file_iblocks_def by blast
    then have "{ib} \<inter> ext_iblocks e = {}" if "e \<in> file_extents ino lv" for e using that by blast
    moreover have "ext_iblocks ?x = {ib}" by auto
    ultimately show ?thesis using xo(1) unfolding apart_def sm(3) by metis
  qed
  obtain st ino2 lv' where i2: "insert_extent env ?x True False ?i = Done (st, ino2)" "file_ok ino2 lv'" "same_file ?i ino2"
      "file_map ino2 lv' = (if st = success then file_map ino lv \<union> {(ib, b)} else file_map ino lv)"
      "tree_room env ino lv \<longrightarrow> st = success"
    using file_insert_ok [of ?i lv env ?x True False] f t ap sm xo(2) by auto
  have i2s: "fsm_info ino2 = s'" "runtime_extents ino2 = ?rt" using i2(3) by (simp_all add: same_file_def)
  have go: "\<not> (if delayed then \<not> vdfs4_runtime_extent_exists ib ?rt else delay)"
    using sp(3) fl(2) vdfs4_runtime_extent_exists_iff [OF rt_disjoint_ok] by auto
  have bx: "\<not> (b = 0)" using b(2) by simp
  show ?thesis
  proof (cases "st = success")
    case False
    let ?fl = "or flags (if delayed then or VDFS4_FSM_FREE_UNUSED VDFS4_FSM_FREE_RESERVE else VDFS4_FSM_FREE_UNUSED)"
    have "flag_set ?fl VDFS4_FSM_FREE_UNUSED" using fl(1) flag_bits by simp
    moreover have eb: "extent_blocks b 1 = {b}" by auto
    moreover have "extent_blocks b 1 \<subseteq> fsm_used s'" unfolding eb b(7) by simp
    ultimately obtain s2 where s2: "vdfs4_fsm_put_free_block (fe_fsm env) b 1 ?fl s' = Done s2" "fsm_ok s2" "fsm_used s2 = fsm_used s' - extent_blocks b 1"
      using put_free_unused [OF b(4) zero_less_one b(2) _ b(8)] by metis
    let ?i3 = "ino2\<lparr>fsm_info := s2\<rparr>"
    have "vdfs4_get_int_block env ino ib True delay flags = Done (st, Unmapped, ?i3)"
      using x0 go b(1) bx i2(1) i2s(1) s2(1) False by (simp add: vdfs4_get_int_block_def Let_def fd)
    moreover have "file_ok ?i3 lv' = file_ok ino2 lv'" "file_map ?i3 lv' = file_map ino2 lv'"
      by (simp_all add: file_ok_def file_extents_def file_map_def file_iblocks_def overflow_def fork_list_def)
    moreover have "fsm_used s2 = fsm_used ?s" using s2(3) b(6) unfolding eb b(7) by simp
    ultimately show ?thesis using i2 s2(2) i2s(2) False by (intro exI [of _ st] exI [of _ Unmapped] exI [of _ ?i3] exI [of _ lv']) simp
  next
    case True
    have mb: "map_block env mounted ib ?x = Done (Inr (b, 1))" for mounted
      using map_block_ok [OF xo(1), of ib env mounted] b(3) vr(4) by simp
    show ?thesis
    proof (cases delayed)
      case False
      have "vdfs4_get_int_block env ino ib True delay flags = Done (success, Mapped b 1 True, ino2)"
        using x0 go b(1) bx i2(1) True False mb by (simp add: vdfs4_get_int_block_def Let_def fd)
      then show ?thesis using i2 i2s b(4-7) True False by auto
    next
      case del: True
      obtain l where l: "vdfs4_runtime_extent_del (fe_mem env) ib ?rt = (success, l)" "rt_blocks l = rt_blocks ?rt - {ib}"
        using del_subset [of ?rt ib "fe_mem env"] sp(3) [OF del] by (cases "vdfs4_runtime_extent_del (fe_mem env) ib ?rt") auto
      let ?i3 = "ino2\<lparr>runtime_extents := l\<rparr>"
      have "vdfs4_get_int_block env ino ib True delay flags = Done (success, Mapped b 1 True, ?i3)"
        using x0 go b(1) bx i2(1) i2s(2) True del mb l(1) by (simp add: vdfs4_get_int_block_def Let_def fd)
      moreover have "file_ok ?i3 lv' = file_ok ino2 lv'" "file_map ?i3 lv' = file_map ino2 lv'"
        by (simp_all add: file_ok_def file_extents_def file_map_def file_iblocks_def overflow_def fork_list_def)
      ultimately show ?thesis using i2 i2s l(2) b(4-7) True del by (intro exI [of _ success] exI [of _ "Mapped b 1 True"] exI [of _ ?i3] exI [of _ lv']) auto
    qed
  qed
qed

section \<open>Reservation\<close>

text \<open>Moving blocks between the two counters keeps the state consistent.\<close>

lemma move_counters_ok:
  assumes "fsm_ok s" "f + r = free_blocks_count s + reserved_blocks_count s" "0 \<le> f" "0 \<le> r"
  shows "fsm_ok (s\<lparr>free_blocks_count := f, reserved_blocks_count := r\<rparr>)"
    "fsm_used (s\<lparr>free_blocks_count := f, reserved_blocks_count := r\<rparr>) = fsm_used s"
    "free_blocks (s\<lparr>free_blocks_count := f, reserved_blocks_count := r\<rparr>) = free_blocks s"
    "pages_cover (s\<lparr>free_blocks_count := f, reserved_blocks_count := r\<rparr>) = pages_cover s"
proof -
  let ?s = "s\<lparr>free_blocks_count := f, reserved_blocks_count := r\<rparr>"
  show u: "fsm_used ?s = fsm_used s" "free_blocks ?s = free_blocks s" "pages_cover ?s = pages_cover s"
    by (simp_all add: fsm_used_def free_blocks_def pages_cover_def fsm_page_of_def)
  have "next_blocks ?s = next_blocks s" "fsm_clear ?s = fsm_clear s" by (simp_all add: next_blocks_def fsm_clear_def u)
  then have "bitmap_inv ?s" "fsm_inv ?s"
    using assms u
    by (simp_all add: fsm_ok_def bitmap_inv_def bitmap_size_ok_def erase_ok_def erase_used_def erase_range_def
        fsm_inv_def free_part_def next_part_def link_part_def count_part_def)
  then show "fsm_ok ?s" by (simp add: fsm_ok_def)
qed

lemma fsm_counts:
  assumes "fsm_ok s"
  shows "0 \<le> free_blocks_count s" "0 \<le> reserved_blocks_count s" "free_blocks_count s < 4294967296" "reserved_blocks_count s < 4294967296"
  using assms count_bounds(2,3) [of s] by (auto simp: fsm_ok_def fsm_inv_def count_part_def)

text \<open>While nothing is untracked, a reserved block is in the tree of the free space.\<close>

lemma reserved_free:
  assumes "fsm_ok s" "untracked_blocks s = 0" "0 < free_blocks_count s + reserved_blocks_count s"
  shows "free_blocks s \<noteq> {}"
proof -
  have "area_total (nodes s) (free_addrs s) = free_blocks_count s + reserved_blocks_count s" "area_ok (nodes s) (free_addrs s)"
    using assms(1,2) by (simp_all add: fsm_ok_def fsm_inv_def count_part_def free_part_def)
  then show ?thesis using area_total_card [of "nodes s" "free_addrs s"] assms(3) by (auto simp: free_blocks_def)
qed

text \<open>\<^verbatim>\<open>vdfs4_get_block_prep_da\<close> on a block without place\<close>

lemma prep_da_new:
  assumes f: "file_ok ino lv" and t: "tree_ready env ino lv" and ok: "fsm_ok (fsm_info ino)" and n: "0 \<le> ib" "ib + 1 < 4294967296"
    and ib: "ib \<notin> file_iblocks ino lv" "ib \<notin> rt_blocks (runtime_extents ino)" and rt: "rt_sorted (runtime_extents ino)"
  shows "\<exists>st m ino'. vdfs4_get_block_prep_da env ino ib False link = Done (st, m, ino') \<and> file_map ino' lv = file_map ino lv \<and>
    file_ok ino' lv \<and> tree_ready env ino' lv \<and> fork ino' = fork ino \<and> extents_tree ino' = extents_tree ino \<and>
    fsm_used (fsm_info ino') = fsm_used (fsm_info ino) \<and> fsm_ok (fsm_info ino') \<and>
    (if st = success then m = Delayed \<and> rt_sorted (runtime_extents ino') \<and> rt_blocks (runtime_extents ino') = insert ib (rt_blocks (runtime_extents ino)) \<and>
        fsm_info ino' = (fsm_info ino)\<lparr>free_blocks_count := free_blocks_count (fsm_info ino) - 1,
          reserved_blocks_count := reserved_blocks_count (fsm_info ino) + 1\<rparr>
     else ino' = ino) \<and>
    (fe_meta_space env = success \<and> 0 < free_blocks_count (fsm_info ino) \<and> fe_mem env \<longrightarrow> st = success)"
proof -
  let ?s = "fsm_info ino" and ?rt = "runtime_extents ino"
  have nb: "number_ok ib" using n by (simp add: number_ok_def)
  obtain x0 hint where x0: "vdfs4_get_iblock_extent env ino ib no_extent 0 = Done (success, x0, hint)" "first_block x0 = 0"
    using get_int_block_absent [OF f t nb ib(1)] by blast
  have ne: "\<not> vdfs4_runtime_extent_exists ib ?rt"
    using vdfs4_runtime_extent_exists_iff [OF rt_disjoint_ok [OF rt_sorted_disjoint [OF rt]]] ib(2) by simp
  note c = fsm_counts [OF ok]
  show ?thesis
  proof (cases "fe_meta_space env = success \<and> 0 < free_blocks_count ?s")
    case False
    then have "vdfs4_get_block_prep_da env ino ib False link =
        Done (if fe_meta_space env \<noteq> success then fe_meta_space env else Some ENOSPC, Unmapped, ino)"
      using x0 ne by (auto simp: vdfs4_get_block_prep_da_def vdfs4_reserve_space_def Let_def)
    then show ?thesis using f t ok False by auto
  next
    case True
    let ?s1 = "?s\<lparr>free_blocks_count := free_blocks_count ?s - 1, reserved_blocks_count := reserved_blocks_count ?s + 1\<rparr>"
    have u: "u64 (free_blocks_count ?s - 1) = free_blocks_count ?s - 1" "u64 (reserved_blocks_count ?s + 1) = reserved_blocks_count ?s + 1"
      using c True by (auto intro!: u64_id)
    then have rs: "vdfs4_reserve_space 1 ino = (success, ino\<lparr>fsm_info := ?s1\<rparr>)" using True by (simp add: vdfs4_reserve_space_def Let_def)
    obtain r l where a: "vdfs4_runtime_extent_add (fe_mem env) ib hint ?rt = (r, l)" by force
    note sp = add_new_block [OF rt ib(2) n a]
    have same: "file_ok (ino\<lparr>fsm_info := s', runtime_extents := l'\<rparr>) lv = file_ok ino lv" "file_map (ino\<lparr>fsm_info := s', runtime_extents := l'\<rparr>) lv = file_map ino lv"
        "tree_ready env (ino\<lparr>fsm_info := s', runtime_extents := l'\<rparr>) lv = tree_ready env ino lv" for s' l'
      by (simp_all add: file_ok_def file_extents_def file_map_def file_iblocks_def overflow_def fork_list_def tree_ready_def)
    show ?thesis
    proof (cases "r = success")
      case suc: True
      then have "vdfs4_get_block_prep_da env ino ib False link = Done (success, Delayed, ino\<lparr>fsm_info := ?s1, runtime_extents := l\<rparr>)"
        using x0 ne True rs a by (simp add: vdfs4_get_block_prep_da_def)
      moreover have "fsm_ok ?s1" "fsm_used ?s1 = fsm_used ?s"
        using move_counters_ok(1,2) [OF ok, of "free_blocks_count ?s - 1" "reserved_blocks_count ?s + 1"] c True by simp_all
      ultimately show ?thesis using sp suc f t same [of l ?s1] by (intro exI [of _ success] exI [of _ Delayed] exI [of _ "ino\<lparr>fsm_info := ?s1, runtime_extents := l\<rparr>"]) simp
    next
      case False
      then have l: "l = ?rt" "r = Some ENOMEM" "\<not> fe_mem env" using sp by auto
      have "vdfs4_get_block_prep_da env ino ib False link = Done (r, Unmapped, ino)"
        using x0 ne True rs a l(1,2) c u by (simp add: vdfs4_get_block_prep_da_def vdfs4_free_reserved_space_def Let_def u64_id)
      then show ?thesis using f t ok False l by auto
    qed
  qed
qed

section \<open>A file\<close>

text \<open>One extent at most holds a logical block, so the map of a file is a function.\<close>

lemma file_extents_unique:
  assumes f: "file_ok ino lv" and a: "x \<in> file_extents ino lv" "y \<in> file_extents ino lv" "ib \<in> ext_iblocks x" "ib \<in> ext_iblocks y"
  shows "x = y"
proof -
  have xs: "extents_ok (fork_list ino) (overflow ino lv)" using f by (simp add: file_ok_def)
  have "ext_before x y \<or> ext_before y x" if m: "x \<in> set (fork_list ino)" "y \<in> set (fork_list ino)" "x \<noteq> y"
  proof -
    obtain i j where "i < length (fork_list ino)" "x = fork_list ino ! i" "j < length (fork_list ino)" "y = fork_list ino ! j"
      using m(1,2) by (auto simp: in_set_conv_nth)
    moreover have "sorted_wrt ext_before (fork_list ino)" using xs by (simp add: extents_ok_def)
    ultimately show ?thesis using m(3) by (metis nat_neq_iff sorted_wrt_iff_nth_less)
  qed
  then have "x \<noteq> y \<Longrightarrow> ext_before x y \<or> ext_before y x"
    using xs a(1,2) unfolding extents_ok_def file_extents_def by blast
  then show ?thesis using a(3,4) by (fastforce simp: ext_before_def)
qed

lemma file_map_lookup:
  assumes f: "file_ok ino lv" and e: "exttree_env_ok (extents_tree ino) (fe_ext env)" and m: "(ib, b) \<in> file_map ino lv"
  shows "\<exists>x hint. vdfs4_get_iblock_extent env ino ib no_extent 0 = Done (success, x, hint) \<and> (ib, b) \<in> ext_map x \<and> ext_map x \<subseteq> file_map ino lv"
proof -
  obtain y where y: "y \<in> file_extents ino lv" "(ib, b) \<in> ext_map y" using m by (auto simp: file_map_def)
  have iy: "ib \<in> ext_iblocks y" using y(2) by (simp add: ext_map_def)
  have "number_ok ib" using file_extents_iext [OF f y(1)] iy by (auto simp: iext_ok_def number_ok_def)
  moreover have "ib \<in> file_iblocks ino lv" using y(1) iy unfolding file_iblocks_def by blast
  ultimately obtain x hint where x: "vdfs4_get_iblock_extent env ino ib no_extent 0 = Done (success, x, hint)" "x \<in> file_extents ino lv" "ib \<in> ext_iblocks x"
    using lookup_ok [OF f e] by metis
  have "x = y" using file_extents_unique [OF f x(2) y(1) x(3) iy] .
  then show ?thesis using x(1) y unfolding file_map_def by blast
qed

section \<open>An example\<close>

definition demo_inode :: vdfs4_inode_info where
  "demo_inode = \<lparr>i_ino = 8,
     fork = \<lparr>total_block_count = 1, prealloc_block_count = 0, prealloc_start_block = 0,
       extents = \<lparr>first_block = 1, ex_iblock = 0, block_count = 1\<rparr> # replicate 8 no_extent, used_extents = 1\<rparr>,
     runtime_extents = [new_runtime_extent 3 0], i_bytes = 0, i_dirty = False, extents_tree = demo_leaf, fsm_info = demo_fsm\<rparr>"

definition demo_file_env :: file_env where
  "demo_file_env = \<lparr>fe_ext = \<lparr>ee_tree = demo_env, ee_key = True, ee_record = True\<rparr>, fe_fsm = plain_env, fe_mem = True,
     fe_zeroout = (\<lambda>x. success), fe_meta_space = success, fe_bdev_blocks = 1000, fe_blocksize = 4096\<rparr>"

lemma demo_inode_sets:
  "fork_list demo_inode = [\<lparr>first_block = 1, ex_iblock = 0, block_count = 1\<rparr>]" "overflow demo_inode [[1]] = {}"
proof -
  show "fork_list demo_inode = [\<lparr>first_block = 1, ex_iblock = 0, block_count = 1\<rparr>]" by (simp add: fork_list_def demo_inode_def)
  have "exttree_object_id (demo_rec 7 10) = 7" "exttree_object_id (demo_rec 7 30) = 7" by code_simp+
  then show "overflow demo_inode [[1]] = {}" by (auto simp: overflow_def tree_extents_def demo_inode_def)
qed

lemma demo_inode_map: "file_iblocks demo_inode [[1]] = {0}" "file_map demo_inode [[1]] = {(0, 1)}"
  unfolding file_iblocks_def file_map_def file_extents_def demo_inode_sets by (auto simp: ext_map_def)

lemma demo_inode_ok:
  "file_ok demo_inode [[1]]" "tree_ready demo_file_env demo_inode [[1]]" "volume_ready demo_file_env demo_inode [[1]]"
  "tree_room demo_file_env demo_inode [[1]]"
proof -
  have c: "card (file_iblocks demo_inode [[1]]) = 1" "exttree_object_id (demo_rec 7 10) < 8" by (simp add: demo_inode_map, code_simp)
  then show "file_ok demo_inode [[1]]"
    using demo_leaf_ok(1) unfolding file_ok_def demo_inode_sets
    by (simp add: exttree_ok_def extents_ok_def iext_ok_def fork_shape_def VDFS4_EXTENTS_COUNT_IN_FORK_def demo_inode_def no_extent_def number_ok_def)
  show "tree_ready demo_file_env demo_inode [[1]]"
    using demo_leaf_ok by (simp add: tree_ready_def demo_inode_def demo_file_env_def exttree_env_ok_def)
  show "volume_ready demo_file_env demo_inode [[1]]"
    using demo_ok(1) demo_pages plain_ops_ok unfolding volume_ready_def demo_inode_map
    by (simp add: demo_inode_def demo_file_env_def) (simp add: demo_fsm_def)
  show "tree_room demo_file_env demo_inode [[1]]" by (simp add: tree_room_def roomy_def demo_file_env_def demo_inode_def demo_env_def)
qed

lemma demo_inode_space: "space_for False demo_file_env demo_inode ib" "0 < free_blocks_count (fsm_info demo_inode)" "untracked_blocks (fsm_info demo_inode) = 0"
  "free_blocks (fsm_info demo_inode) = {2 ..< 7}" "fsm_used (fsm_info demo_inode) = {0 ..< 2}"
  "rt_blocks (runtime_extents demo_inode) = {3}" "rt_sorted (runtime_extents demo_inode)"
proof -
  show f: "free_blocks (fsm_info demo_inode) = {2 ..< 7}" "fsm_used (fsm_info demo_inode) = {0 ..< 2}" by (simp_all add: demo_inode_def demo_sets)
  show c: "0 < free_blocks_count (fsm_info demo_inode)" "untracked_blocks (fsm_info demo_inode) = 0" by (simp_all add: demo_inode_def demo_fsm_def)
  show "space_for False demo_file_env demo_inode ib" using f c by (simp add: space_for_def)
  show "rt_blocks (runtime_extents demo_inode) = {3}" "rt_sorted (runtime_extents demo_inode)" by (auto simp: demo_inode_def rt_ok_def rt_sorted_def)
qed

section \<open>Properties\<close>

text \<open>
  C12. \<^verbatim>\<open>insert_extent\<close> puts a new extent where the search looks for it, whether it is merged with its left
  neighbour, placed in the fork, pushes the last extent of a full fork into the extents tree, or goes
  into the tree itself. The invariant of the file is kept; afterwards exactly the blocks of the
  extent are new, and the lookup of every block of the file, old or new, gives an extent that maps
  it as before. When the tree or the zeroing of the blocks refuses, the file maps what it mapped.
\<close>

theorem insert_extent_correct:
  assumes "file_ok ino lv" "tree_ready env ino lv" "apart x (file_extents ino lv)"
  shows "\<exists>st ino' lv'. insert_extent env x update_bnode do_erase ino = Done (st, ino') \<and> file_ok ino' lv' \<and>
    file_map ino' lv' = (if st = success then file_map ino lv \<union> ext_map x else file_map ino lv) \<and>
    (\<forall>(ib, b) \<in> file_map ino' lv'. \<exists>e hint. vdfs4_get_iblock_extent env ino' ib no_extent 0 = Done (success, e, hint) \<and>
      (ib, b) \<in> ext_map e \<and> ext_map e \<subseteq> file_map ino' lv') \<and>
    (tree_room env ino lv \<and> (do_erase \<longrightarrow> fe_zeroout env x = success) \<longrightarrow> st = success)"
proof -
  obtain st ino' lv' where i: "insert_extent env x update_bnode do_erase ino = Done (st, ino')" "file_ok ino' lv'"
      "exttree_env_ok (extents_tree ino') (fe_ext env)" "file_map ino' lv' = (if st = success then file_map ino lv \<union> ext_map x else file_map ino lv)"
      "tree_room env ino lv \<and> (do_erase \<longrightarrow> fe_zeroout env x = success) \<longrightarrow> st = success"
    using file_insert_ok [OF assms, of update_bnode do_erase] by blast
  show ?thesis using i file_map_lookup [OF i(2,3)] by (intro exI [of _ st] exI [of _ ino'] exI [of _ lv']) auto
qed

theorem insert_extent_correct_witness:
  "\<exists>ino' lv'. insert_extent demo_file_env \<lparr>first_block = 5, ex_iblock = 2, block_count = 2\<rparr> True False demo_inode = Done (success, ino') \<and>
    file_map ino' lv' = {(0, 1), (2, 5), (3, 6)}"
proof -
  let ?x = "\<lparr>first_block = 5, ex_iblock = 2, block_count = 2\<rparr>"
  have "apart ?x (file_extents demo_inode [[1]])" by (auto simp: apart_def iext_ok_def file_extents_def demo_inode_sets)
  moreover have "ext_map ?x = {(2, 5), (3, 6)}" by (auto simp: ext_map_def)
  ultimately obtain ino' lv' where "insert_extent demo_file_env ?x True False demo_inode = Done (success, ino')"
      "file_map ino' lv' = {(0, 1)} \<union> {(2, 5), (3, 6)}"
    using insert_extent_correct [OF demo_inode_ok(1,2), of ?x True False] demo_inode_ok(4) unfolding demo_inode_map by metis
  then show ?thesis by (intro exI [of _ ino'] exI [of _ lv']) auto
qed

text \<open>
  C5. \<^verbatim>\<open>vdfs4_get_block\<close> on a consistent file and volume ends without failed assertion. A block that has
  a place is mapped to it, with the run of blocks that follow, and nothing changes; a missing block
  is left unmapped when it is only read. Otherwise a block that was free is marked as used and becomes
  the place of the logical block, and every other block keeps its place; when the extent cannot be
  stored the block is given back and the file maps what it mapped.
\<close>

theorem get_block_correct:
  assumes "file_ok ino lv" "tree_ready env ino lv" "volume_ready env ino lv" "0 \<le> ib" "ib + 1 < 4294967296"
  shows "if ib \<in> file_iblocks ino lv
    then \<exists>b m. vdfs4_get_block env ino ib create delay = Done (success, Mapped b m False, ino) \<and> 0 < m \<and>
      (\<forall>k \<in> {0 ..< m}. (ib + k, b + k) \<in> file_map ino lv)
    else if \<not> create then vdfs4_get_block env ino ib create delay = Done (success, Unmapped, ino)
    else space_for False env ino ib \<and> \<not> delay \<longrightarrow>
      (\<exists>st m ino' lv'. vdfs4_get_block env ino ib create delay = Done (st, m, ino') \<and> file_ok ino' lv' \<and> fsm_ok (fsm_info ino') \<and>
        (if st = success
         then \<exists>b. m = Mapped b 1 True \<and> b \<in> free_blocks (fsm_info ino) \<and> b \<notin> fsm_used (fsm_info ino) \<and>
           fsm_used (fsm_info ino') = insert b (fsm_used (fsm_info ino)) \<and> file_map ino' lv' = insert (ib, b) (file_map ino lv)
         else m = Unmapped \<and> fsm_used (fsm_info ino') = fsm_used (fsm_info ino) \<and> file_map ino' lv' = file_map ino lv) \<and>
        (tree_room env ino lv \<longrightarrow> st = success))"
proof -
  have n: "number_ok ib" using assms(4,5) by (simp add: number_ok_def)
  consider "ib \<in> file_iblocks ino lv" | "ib \<notin> file_iblocks ino lv" "\<not> create" | "ib \<notin> file_iblocks ino lv" "create" by blast
  then show ?thesis
  proof cases
    case 1
    then show ?thesis using get_int_block_found [OF assms(1-3) n, of create delay 0] by (simp add: vdfs4_get_block_def)
  next
    case 2
    obtain x hint where "vdfs4_get_iblock_extent env ino ib no_extent 0 = Done (success, x, hint)" "first_block x = 0"
      using get_int_block_absent [OF assms(1,2) n 2(1)] by blast
    then show ?thesis using 2 by (simp add: vdfs4_get_block_def vdfs4_get_int_block_def)
  next
    case 3
    then show ?thesis using get_int_block_new [OF assms(1-5) 3(1), of 0 False delay] unfolding vdfs4_get_block_def by (simp only: if_False simp_thms) metis
  qed
qed

theorem get_block_correct_witness:
  "vdfs4_get_block demo_file_env demo_inode 0 True False = Done (success, Mapped 1 1 False, demo_inode) \<and>
   vdfs4_get_block demo_file_env demo_inode 5 False False = Done (success, Unmapped, demo_inode) \<and>
   (\<exists>b ino' lv'. vdfs4_get_block demo_file_env demo_inode 5 True False = Done (success, Mapped b 1 True, ino') \<and> b \<in> {2 ..< 7} \<and>
     fsm_used (fsm_info ino') = insert b {0 ..< 2} \<and> file_map ino' lv' = {(5, b), (0, 1)})"
proof -
  note g = get_block_correct [OF demo_inode_ok(1-3), unfolded demo_inode_map demo_inode_space(4,5)]
  obtain b m where m: "vdfs4_get_block demo_file_env demo_inode 0 True False = Done (success, Mapped b m False, demo_inode)" "0 < m"
      "\<forall>k \<in> {0 ..< m}. (0 + k, b + k) \<in> {(0, 1)}" using g [of 0 True False] by auto
  have "b = 1" "m = 1" using m(2) bspec [OF m(3), of 0] bspec [OF m(3), of 1] by (force, force)
  moreover have "vdfs4_get_block demo_file_env demo_inode 5 False False = Done (success, Unmapped, demo_inode)" using g [of 5 False False] by simp
  moreover have "\<exists>b ino' lv'. vdfs4_get_block demo_file_env demo_inode 5 True False = Done (success, Mapped b 1 True, ino') \<and> b \<in> {2 ..< 7} \<and>
     fsm_used (fsm_info ino') = insert b {0 ..< 2} \<and> file_map ino' lv' = {(5, b), (0, 1)}"
    using g [of 5 True False] demo_inode_space(1) demo_inode_ok(4) by (simp del: atLeastLessThan_iff) metis
  ultimately show ?thesis using m(1) by simp
qed

text \<open>
  C11. A delayed write whose writeback follows it directly goes through. The write reserves its block
  (\<^verbatim>\<open>vdfs4_get_block_prep_da\<close> answers with a delayed buffer, and no block is taken), and the allocation at
  writeback (\<^verbatim>\<open>vdfs4_get_block_da\<close>), with nothing in between, finds the reservation and a free block and
  succeeds; afterwards a block that was free holds the logical block and the runtime extents are those before the
  write. This is for a block that is neither mapped nor reserved, a free block that is counted, memory
  for the runtime extent, a free tree in which no block is untracked, metadata space, and a tree of the extents
  with room. Without memory to split a runtime extent the writeback stops in an assertion of \<^verbatim>\<open>vdfs4_get_int_block\<close>.
\<close>

theorem delayed_write_correct:
  assumes f: "file_ok ino lv" "tree_ready env ino lv" "volume_ready env ino lv" "tree_room env ino lv" and n: "0 \<le> ib" "ib + 1 < 4294967296"
    and ib: "ib \<notin> file_iblocks ino lv" "ib \<notin> rt_blocks (runtime_extents ino)" "rt_sorted (runtime_extents ino)"
    and sp: "fe_meta_space env = success" "fe_mem env" "0 < free_blocks_count (fsm_info ino)" "untracked_blocks (fsm_info ino) = 0"
  shows "\<exists>ino1 b ino2 lv'. vdfs4_get_block_prep_da env ino ib False link = Done (success, Delayed, ino1) \<and>
    file_map ino1 lv = file_map ino lv \<and> fsm_used (fsm_info ino1) = fsm_used (fsm_info ino) \<and>
    vdfs4_get_block_da env ino1 ib True True = Done (success, Mapped b 1 True, ino2) \<and>
    file_ok ino2 lv' \<and> fsm_ok (fsm_info ino2) \<and> b \<in> free_blocks (fsm_info ino) \<and>
    fsm_used (fsm_info ino2) = insert b (fsm_used (fsm_info ino)) \<and> file_map ino2 lv' = insert (ib, b) (file_map ino lv) \<and>
    rt_blocks (runtime_extents ino2) = rt_blocks (runtime_extents ino)"
proof -
  let ?s = "fsm_info ino" and ?s1 = "(fsm_info ino)\<lparr>free_blocks_count := free_blocks_count (fsm_info ino) - 1,
      reserved_blocks_count := reserved_blocks_count (fsm_info ino) + 1\<rparr>"
  have v: "fsm_ok ?s" "rb_ops_ok (env_rb (fe_fsm env))" "pages_cover ?s" using f(3) by (simp_all add: volume_ready_def)
  obtain ino1 where p: "vdfs4_get_block_prep_da env ino ib False link = Done (success, Delayed, ino1)" "file_map ino1 lv = file_map ino lv"
      "file_ok ino1 lv" "tree_ready env ino1 lv" "fork ino1 = fork ino" "extents_tree ino1 = extents_tree ino"
      "fsm_used (fsm_info ino1) = fsm_used ?s" "fsm_ok (fsm_info ino1)" "rt_sorted (runtime_extents ino1)"
      "rt_blocks (runtime_extents ino1) = insert ib (rt_blocks (runtime_extents ino))" "fsm_info ino1 = ?s1"
    using prep_da_new [OF f(1,2) v(1) n ib, of link] sp(1-3) by auto
  note c = fsm_counts [OF v(1)]
  note mv = move_counters_ok(3,4) [OF v(1), of "free_blocks_count ?s - 1" "reserved_blocks_count ?s + 1"]
  have fr: "free_blocks (fsm_info ino1) = free_blocks ?s" "pages_cover (fsm_info ino1)" using mv c sp(3) v(3) by (simp_all add: p(11))
  have "free_blocks ?s \<noteq> {}" using reserved_free [OF v(1) sp(4)] c sp(3) by simp
  then have s1: "space_for True env ino1 ib"
    using p(9-11) fr sp(2) c rt_sorted_disjoint by (simp add: space_for_def)
  have v1: "volume_ready env ino1 lv" using f(3) p(2,8,11) fr(2) by (simp add: volume_ready_def)
  have r1: "tree_room env ino1 lv" using f(4) p(6) by (simp add: tree_room_def)
  have "file_iblocks ino1 lv = file_iblocks ino lv" unfolding file_map_dom [symmetric] p(2) ..
  then have i1: "ib \<notin> file_iblocks ino1 lv" using ib(1) by simp
  obtain b ino2 lv' where w: "vdfs4_get_block_da env ino1 ib True True = Done (success, Mapped b 1 True, ino2)" "file_ok ino2 lv'" "fsm_ok (fsm_info ino2)"
      "b \<in> free_blocks (fsm_info ino1)" "fsm_used (fsm_info ino2) = insert b (fsm_used (fsm_info ino1))"
      "file_map ino2 lv' = insert (ib, b) (file_map ino1 lv)" "rt_blocks (runtime_extents ino2) = rt_blocks (runtime_extents ino1) - {ib}"
    using get_int_block_new [OF p(3,4) v1 n i1 _ _ s1, of VDFS4_FSM_ALLOC_DELAYED True] r1 unfolding vdfs4_get_block_da_def by auto
  show ?thesis
    using p(1,2,7) w [unfolded p(2,7,10) fr(1)] ib(2) by (intro exI [of _ ino1] exI [of _ b] exI [of _ ino2] exI [of _ lv']) simp
qed

theorem delayed_write_correct_witness:
  "\<exists>ino1 b ino2 lv'. vdfs4_get_block_prep_da demo_file_env demo_inode 4 False False = Done (success, Delayed, ino1) \<and>
    vdfs4_get_block_da demo_file_env ino1 4 True True = Done (success, Mapped b 1 True, ino2) \<and> b \<in> {2 ..< 7} \<and>
    file_map ino2 lv' = {(0, 1), (4, b)} \<and> rt_blocks (runtime_extents ino2) = {3}"
proof -
  have "fe_meta_space demo_file_env = success" "fe_mem demo_file_env" by (simp_all add: demo_file_env_def)
  from delayed_write_correct [OF demo_inode_ok _ _ _ _ demo_inode_space(7) this demo_inode_space(2,3), of 4 False]
  show ?thesis unfolding demo_inode_map demo_inode_space by (auto simp: insert_commute [of "(4, _)"])
qed

end
