(* ===== verification/Vdfs_Btree_Remove.thy ===== *)
theory Vdfs_Btree_Remove
  imports Vdfs_Btree
begin

text \<open>
  Removal from a tree (\<^verbatim>\<open>btree.c\<close>, from \<^verbatim>\<open>btree_update_key\<close> on): the record is deleted from its node; a node
  that becomes empty leaves the chain of its level; when the first record of a node goes, its index
  record is replaced; a node with much free space is merged with a neighbour; a root with a single
  record gives way to its child. Removal and merging of one level call removal one level higher.
\<close>

section \<open>Environment\<close>

text \<open>
  Besides the environment of the trees: whether \<^verbatim>\<open>kzalloc\<close> has memory, and the number that results
  where the code takes a pointer to a node for an error.
\<close>

record remove_env =
  re_tree :: btree_env
  re_alloc :: bool
  re_ptr :: "int \<Rightarrow> status"

definition vdfs4_btree_dec_height :: "vdfs4_btree \<Rightarrow> vdfs4_btree outcome" where
  "vdfs4_btree_dec_height t =
     (let h = u16 (btree_height t - 1) in
      if h = 0 then Bug else Done (vdfs4_mark_bnode_dirty head_bnode_id (t\<lparr>btree_height := h\<rparr>)))"

definition btree_find :: "btree_env \<Rightarrow> vdfs4_btree \<Rightarrow> bytes \<Rightarrow> int \<Rightarrow> (errno + int \<times> int) outcome" where
  "btree_find env t key level = bind_outcome (vdfs4_btree_traverse env t key False level) (\<lambda>(r, _). Done r)"

text \<open>\<^verbatim>\<open>get_child_bnode\<close> of the record at an offset of a node: the number of the child\<close>

definition get_child_bnode :: "btree_env \<Rightarrow> vdfs4_btree \<Rightarrow> bytes \<Rightarrow> (errno + int) outcome" where
  "get_child_bnode env t record =
     (let child = index_child record in
      if child = 0 then (if \<not> bt_mount_finished (bt_conf t) then Done (Inl EFAULT) else Bug)
      else Done (case vdfs4_get_bnode env t child of Some e \<Rightarrow> Inl e | None \<Rightarrow> Inr child))"

section \<open>The index record of a node\<close>

text \<open>
  \<^verbatim>\<open>form_new_adding_record\<close> into a cleared buffer of the longest record: the first key of the node, with the
  length of an index record, and the number of the node.
\<close>

definition form_new_adding_record :: "btree_conf \<Rightarrow> bnode \<Rightarrow> bytes outcome" where
  "form_new_adding_record c new_node =
     bind_outcome (get_record c new_node 0) (\<lambda>r. case r of
       Inl e \<Rightarrow> Bug
     | Inr off \<Rightarrow>
         let new_key = rec_at new_node off; kl = key_len new_key in
         if max_record_len c < record_len new_key then Bug
         else if kl < 8 \<or> int (length new_key) < kl \<or> max_record_len c < kl + 4 then Undef
         else Done (mem_write (mem_read new_key 0 kl) 6 (le_bytes 2 (u16 (kl + 4))) @ le_bytes 4 (bn_id new_node)
                @ replicate (nat (max_record_len c - kl - 4)) 0))"

text \<open>
  \<^verbatim>\<open>btree_update_key\<close>: the new index record is inserted, then the old one is looked for and deleted. The
  fuel bounds the levels; a tree has fewer than 65536.
\<close>

primrec btree_update_key ::
    "nat \<Rightarrow> remove_env \<Rightarrow> vdfs4_btree \<Rightarrow> bytes \<Rightarrow> int \<Rightarrow> int \<Rightarrow> ((errno + bytes) \<times> vdfs4_btree) outcome" where
  "btree_update_key 0 env t key point_to level = Undef"
| "btree_update_key (Suc fuel) env t key point_to level =
     (if \<not> re_alloc env then Done (Inl ENOMEM, t)
      else bind_outcome (form_new_adding_record (bt_conf t) (bt_nodes t point_to)) (\<lambda>new_data.
        bind_outcome (btree_insert_at_level (re_tree env) t new_data level True) (\<lambda>(err, t1).
          case err of
            Some e \<Rightarrow> Done (Inl e, t1)
          | None \<Rightarrow>
              bind_outcome (btree_find (re_tree env) t1 key level) (\<lambda>r.
                case r of
                  Inl e \<Rightarrow> Done (Inl EINVAL, t1)
                | Inr (nid, pos) \<Rightarrow>
                    bind_outcome (get_record (bt_conf t1) (bt_nodes t1 nid) pos) (\<lambda>raw.
                      case raw of
                        Inl e \<Rightarrow> Done (Inl e, t1)
                      | Inr off \<Rightarrow>
                          if comp_fn (bt_conf t1) key (rec_at (bt_nodes t1 nid) off) \<noteq> 0 then Done (Inr new_data, t1)
                          else bind_outcome (delete_from_node (bt_conf t1) (bt_nodes t1 nid) pos) (\<lambda>(err, b).
                            case err of
                              Some e \<Rightarrow> Done (Inl e, set_node nid b t1)
                            | None \<Rightarrow>
                                let t2 = vdfs4_mark_bnode_dirty nid (set_node nid b t1) in
                                if pos = 0 \<and> level < btree_height t2
                                then bind_outcome (btree_update_key fuel env t2 key nid (level + 1)) (\<lambda>(r, t3).
                                       Done (case r of Inl e \<Rightarrow> Inl e | Inr _ \<Rightarrow> Inr new_data, t3))
                                else Done (Inr new_data, t2)))))))"

section \<open>Merging of two nodes\<close>

text \<open>One turn of the loop that appends the offsets of the right node\<close>

definition merge_offset :: "btree_conf \<Rightarrow> bnode \<Rightarrow> int \<Rightarrow> int \<Rightarrow> int \<Rightarrow> status \<times> bnode \<Rightarrow> (status \<times> bnode) outcome" where
  "merge_offset c right start_offset left_count i = (\<lambda>(st, b).
     if st \<noteq> success then Done (st, b)
     else bind_outcome (get_offset c right i) (\<lambda>offset.
       check_set_offset c b (i + left_count) (u32 (start_offset + offset - descr_size))))"

text \<open>
  The part of \<^verbatim>\<open>btree_merge\<close> inside the left node: records, offsets and counters. The records must end below
  the cells of the merged node.
\<close>

definition merge_nodes :: "btree_conf \<Rightarrow> bnode \<Rightarrow> bnode \<Rightarrow> (status \<times> bnode) outcome" where
  "merge_nodes c left right =
     bind_outcome (check_bnode_offset_area c left) (\<lambda>ok1.
     bind_outcome (check_bnode_offset_area c right) (\<lambda>ok2.
       if \<not> ok1 \<or> \<not> ok2 then Done (Some EFAULT, left)
       else bind_outcome (vdfs4_get_offset_addr c left (d_recs_count left)) (\<lambda>p. case p of
         Inl e \<Rightarrow> Done (Some e, left)
       | Inr i \<Rightarrow>
           bind_outcome (get_offset c right (d_recs_count right)) (\<lambda>right_end.
             let start_offset = bn_offs left ! i; n = right_end - descr_size in
             if \<not> (descr_size \<le> start_offset \<and> in_mem (bn_data right) descr_size n \<and> in_mem (bn_data left) start_offset n
                    \<and> start_offset + n \<le> node_size c - 4 - 4 * (d_recs_count left + d_recs_count right + 1))
             then Undef
             else
               let l1 = left\<lparr>bn_data := mem_write (bn_data left) start_offset (mem_read (bn_data right) descr_size n)\<rparr> in
               bind_outcome (for_each (merge_offset c right start_offset (d_recs_count left))
                  (map int [0 ..< nat (d_recs_count right) + 1]) (success, l1)) (\<lambda>(st, l2).
                 Done (if st \<noteq> success then (st, l2)
                       else (success, l2\<lparr>d_free_space := u16 (d_free_space l2 - n - d_recs_count right * 4),
                                         d_recs_count := u16 (d_recs_count l2 + d_recs_count right)\<rparr>)))))))"

text \<open>The key of the index record of the right node, copied from its first record\<close>

definition merged_key :: "bytes \<Rightarrow> bytes outcome" where
  "merged_key record =
     (let kl = key_len record in
      if kl < 8 \<or> int (length record) < kl then Undef
      else Done (mem_write (mem_read record 0 kl) 6 (le_bytes 2 (u16 (kl + 4)))))"

text \<open>
  \<^verbatim>\<open>btree_merge\<close>; \<open>remove\<close> is the removal one level higher. When the node behind the right one cannot be
  read, the code returns the pointer to the right node as if it were an error.
\<close>

definition btree_merge ::
    "(vdfs4_btree \<Rightarrow> bytes \<Rightarrow> (status \<times> vdfs4_btree) outcome) \<Rightarrow> remove_env \<Rightarrow> vdfs4_btree \<Rightarrow> int \<Rightarrow> int \<Rightarrow> bool \<Rightarrow>
     (status \<times> vdfs4_btree) outcome" where
  "btree_merge remove env t left_id right_id is_right_dangling =
     (case vdfs4_get_bnode (re_tree env) t left_id of
        Some e \<Rightarrow> Done (Some e, t)
      | None \<Rightarrow>
          (case vdfs4_get_bnode (re_tree env) t right_id of
             Some e \<Rightarrow> Done (Some e, t)
           | None \<Rightarrow>
               let right = bt_nodes t right_id; next_id = d_next right in
               bind_outcome (merge_nodes (bt_conf t) (bt_nodes t left_id) right) (\<lambda>(st, l).
                 if st \<noteq> success then Done (st, set_node left_id l t)
                 else
                   let t1 = set_node left_id (l\<lparr>d_next := next_id\<rparr>) t;
                       finish = (\<lambda>t2. let t3 = vdfs4_mark_bnode_dirty left_id t2 in
                         if is_right_dangling then vdfs4_destroy_bnode t3 right_id
                         else bind_outcome (get_record (bt_conf t) right 0) (\<lambda>raw. case raw of
                           Inl e \<Rightarrow> Done (Some e, t3)
                         | Inr off \<Rightarrow>
                             if \<not> re_alloc env then Done (Some ENOMEM, t3)
                             else bind_outcome (merged_key (rec_at right off)) (\<lambda>key.
                               bind_outcome (remove t3 key) (\<lambda>(err, t4).
                                 if err \<noteq> success then Done (err, t4) else vdfs4_destroy_bnode t4 right_id))))
                   in if next_id = INVALID_NODE_ID then finish t1
                      else case vdfs4_get_bnode (re_tree env) t1 next_id of
                             Some e \<Rightarrow> Done (re_ptr env right_id, t1)
                           | None \<Rightarrow>
                               finish (vdfs4_mark_bnode_dirty next_id
                                 (set_node next_id ((bt_nodes t1 next_id)\<lparr>d_prev := d_node_id l\<rparr>) t1)))))"

definition is_bnode_dangling :: "btree_conf \<Rightarrow> bnode \<Rightarrow> int \<Rightarrow> int \<Rightarrow> bool outcome" where
  "is_bnode_dangling c parent pos bnode_id =
     bind_outcome (get_record c parent pos) (\<lambda>r. case r of
       Inl e \<Rightarrow> Undef
     | Inr off \<Rightarrow>
         (case get_value_pointer (rec_at parent off) of
            Inl e \<Rightarrow> Undef
          | Inr v \<Rightarrow> Done (index_child (rec_at parent off) \<noteq> bnode_id)))"

text \<open>
  \<^verbatim>\<open>rebalance\<close>, first step: with which neighbour to merge (the previous one?), and whether the right one of the
  two is dangling; nothing when there is no neighbour.
\<close>

definition merge_direction ::
    "remove_env \<Rightarrow> vdfs4_btree \<Rightarrow> bytes \<Rightarrow> int \<Rightarrow> int \<Rightarrow> (errno + (bool \<times> bool) option) outcome" where
  "merge_direction env t key level bnode_id =
     (let cur = bt_nodes t bnode_id in
      if level = btree_height t
      then Done (Inr (if d_prev cur \<noteq> INVALID_NODE_ID then Some (True, True)
                      else if d_next cur \<noteq> INVALID_NODE_ID then Some (False, True) else None))
      else bind_outcome (btree_find (re_tree env) t key (level + 1)) (\<lambda>r. case r of
        Inl e \<Rightarrow> Done (Inl e)
      | Inr (parent, pos) \<Rightarrow>
          if 0 < pos
          then bind_outcome (is_bnode_dangling (bt_conf t) (bt_nodes t parent) pos bnode_id) (\<lambda>d. Done (Inr (Some (True, d))))
          else if pos < d_recs_count (bt_nodes t parent) - 1
          then bind_outcome (is_bnode_dangling (bt_conf t) (bt_nodes t parent) (pos + 1) (d_next cur)) (\<lambda>d. Done (Inr (Some (False, d))))
          else Done (Inr None)))"

definition rebalance ::
    "(vdfs4_btree \<Rightarrow> bytes \<Rightarrow> (status \<times> vdfs4_btree) outcome) \<Rightarrow> remove_env \<Rightarrow> vdfs4_btree \<Rightarrow> bytes \<Rightarrow> int \<Rightarrow> int \<Rightarrow> int \<Rightarrow>
     (status \<times> vdfs4_btree) outcome" where
  "rebalance remove env t key level bnode_id bnode_free_space =
     (case vdfs4_get_bnode (re_tree env) t bnode_id of
        Some e \<Rightarrow> Done (Some e, t)
      | None \<Rightarrow>
          bind_outcome (merge_direction env t key level bnode_id) (\<lambda>r. case r of
            Inl e \<Rightarrow> Done (Some e, t)
          | Inr None \<Rightarrow> Done (success, t)
          | Inr (Some (merge_with_prev, is_right_dangling)) \<Rightarrow>
              let cur = bt_nodes t bnode_id;
                  neigh_id = (if merge_with_prev then d_prev cur else d_next cur);
                  left_id = (if merge_with_prev then neigh_id else d_node_id cur);
                  right_id = (if merge_with_prev then d_node_id cur else neigh_id)
              in case vdfs4_get_bnode (re_tree env) t neigh_id of
                   Some e \<Rightarrow> Done (Some e, t)
                 | None \<Rightarrow>
                     if node_size (bt_conf t) \<le> u32 (bnode_free_space + d_free_space (bt_nodes t neigh_id))
                     then btree_merge remove env t left_id right_id is_right_dangling
                     else Done (success, t)))"

section \<open>Removal\<close>

text \<open>A node without records leaves the chain of its level.\<close>

definition unlink_node :: "btree_env \<Rightarrow> vdfs4_btree \<Rightarrow> int \<Rightarrow> vdfs4_btree outcome" where
  "unlink_node env t nid =
     (let node = bt_nodes t nid in
      bind_outcome
        (if d_prev node = INVALID_NODE_ID then Done t
         else if vdfs4_get_bnode env t (d_prev node) \<noteq> success then Bug
         else Done (vdfs4_mark_bnode_dirty (d_prev node) (set_node (d_prev node) ((bt_nodes t (d_prev node))\<lparr>d_next := d_next node\<rparr>) t))) (\<lambda>t1.
        if d_next node = INVALID_NODE_ID then Done t1
        else if vdfs4_get_bnode env t1 (d_next node) \<noteq> success then Bug
        else Done (vdfs4_mark_bnode_dirty (d_next node) (set_node (d_next node) ((bt_nodes t1 (d_next node))\<lparr>d_prev := d_prev node\<rparr>) t1))))"

text \<open>The end of \<^verbatim>\<open>__btree_remove\<close>: a node with much free space is merged, a root with one record replaced by its child.\<close>

definition remove_balance ::
    "(vdfs4_btree \<Rightarrow> bytes \<Rightarrow> (status \<times> vdfs4_btree) outcome) \<Rightarrow> remove_env \<Rightarrow> vdfs4_btree \<Rightarrow> bytes \<Rightarrow> int \<Rightarrow> int \<Rightarrow>
     (status \<times> vdfs4_btree) outcome" where
  "remove_balance remove env t key level nid =
     (let node = bt_nodes t nid in
      if \<not> node_size (bt_conf t) div 3 < d_free_space node then Done (success, t)
      else if nid \<noteq> root_bnode_id t
      then bind_outcome (rebalance remove env t key level nid (d_free_space node)) (\<lambda>(err, t1).
             if err \<noteq> success \<and> bt_mount_finished (bt_conf t) then Bug else Done (err, t1))
      else if d_recs_count node \<noteq> 1 \<or> btree_height t \<le> 1 then Done (success, t)
      else bind_outcome (get_record (bt_conf t) node 0) (\<lambda>raw. case raw of
        Inl e \<Rightarrow> Done (Some e, t)
      | Inr off \<Rightarrow>
          bind_outcome (get_child_bnode (re_tree env) t (rec_at node off)) (\<lambda>r. case r of
            Inl e \<Rightarrow> Done (Some e, t)
          | Inr child \<Rightarrow>
              bind_outcome (vdfs4_btree_dec_height (vdfs4_btree_set_root_id child t)) (\<lambda>t1. vdfs4_destroy_bnode t1 nid))))"

primrec btree_remove_at :: "nat \<Rightarrow> remove_env \<Rightarrow> vdfs4_btree \<Rightarrow> bytes \<Rightarrow> int \<Rightarrow> (status \<times> vdfs4_btree) outcome" where
  "btree_remove_at 0 env t key level = Undef"
| "btree_remove_at (Suc fuel) env t key level =
     (let remove = (\<lambda>t key. btree_remove_at fuel env t key (level + 1)) in
      if btree_height t < level then Bug
      else bind_outcome (btree_find (re_tree env) t key level) (\<lambda>r. case r of
        Inl e \<Rightarrow> Done (Some e, t)
      | Inr (nid, pos) \<Rightarrow>
          bind_outcome (get_record (bt_conf t) (bt_nodes t nid) pos) (\<lambda>raw. case raw of
            Inl e \<Rightarrow> Done (Some e, t)
          | Inr off \<Rightarrow>
              if comp_fn (bt_conf t) key (rec_at (bt_nodes t nid) off) \<noteq> 0 then Done (Some ENOENT, t)
              else bind_outcome (delete_from_node (bt_conf t) (bt_nodes t nid) pos) (\<lambda>(err, b).
                if err \<noteq> success then Done (err, set_node nid b t)
                else
                  let t1 = vdfs4_mark_bnode_dirty nid (set_node nid b t) in
                  if d_recs_count b = 0
                  then bind_outcome (unlink_node (re_tree env) t1 nid) (\<lambda>t2.
                         if nid = root_bnode_id t2 then Bug
                         else bind_outcome (vdfs4_destroy_bnode t2 nid) (\<lambda>(err, t3).
                           if err \<noteq> success then Done (err, t3)
                           else if level \<noteq> btree_height t3
                           then bind_outcome (remove t3 key) (\<lambda>(err, t4). Done (if err = Some ENOENT then success else err, t4))
                           else Done (success, t3)))
                  else if pos = 0 \<and> level < btree_height t1
                  then bind_outcome (btree_update_key fuel env t1 key nid (level + 1)) (\<lambda>(r, t2). case r of
                         Inl e \<Rightarrow> Done (Some e, t2)
                       | Inr new_key \<Rightarrow> remove_balance remove env t2 new_key level nid)
                  else remove_balance remove env t1 key level nid))))"

definition vdfs4_btree_remove :: "remove_env \<Rightarrow> vdfs4_btree \<Rightarrow> bytes \<Rightarrow> (status \<times> vdfs4_btree) outcome" where
  "vdfs4_btree_remove env t key = btree_remove_at 65536 env t key 1"

section \<open>Two nodes become one\<close>

lemma check_offsets_ok:
  assumes l: "node_layout c b blobs"
  shows "n \<le> length blobs \<Longrightarrow> check_offsets c b n = Done True"
proof (induction n)
  case (Suc n)
  note d = node_layoutD [OF l]
  have "get_offset c b (int n) = Done (bn_offs b ! n)" using get_offset_ok [OF d(1), of "int n"] Suc.prems d(5) by simp
  moreover have "is_offset_correct c (bn_offs b ! n)" using node_cells_range [OF l, of n] Suc.prems by (simp add: is_offset_correct_def)
  ultimately show ?case using Suc by simp
qed simp

lemma rec_in_moved:
  assumes "p \<in> set (blob_offsets s blobs)" "0 \<le> s" "0 \<le> s'" "\<forall>r \<in> set blobs. rec_ok r"
    "mem_read m s (int (length (concat blobs))) = concat blobs" "mem_read m' s' (int (length (concat blobs))) = concat blobs"
  shows "rec_in m' (p + (s' - s)) = rec_in m p"
proof -
  obtain as r bs where d: "blobs = as @ r # bs" "p = s + int (length (concat as))" by (rule blob_offsets_split [OF assms(1)])
  have r: "rec_ok r" using assms(4) d(1) by simp
  have "rec_in m p = r" using mem_read_concat [OF assms(5) [unfolded d(1)] assms(2)] r assms(2) by (intro rec_in_eq) (simp_all add: d(2))
  moreover have "rec_in m' (p + (s' - s)) = r" using mem_read_concat [OF assms(6) [unfolded d(1)] assms(3)] r assms(3) by (intro rec_in_eq) (simp_all add: d(2) add.commute)
  ultimately show ?thesis by simp
qed

lemma merge_loop:
  assumes s: "node_shape c b" "node_shape c right" and n: "cl + n \<le> length (bn_offs b)" "n \<le> length (bn_offs right)"
    and v: "\<And>i. i < n \<Longrightarrow> 0 < start + bn_offs right ! i - 32 \<and> start + bn_offs right ! i - 32 < node_size c"
  shows "for_each (merge_offset c right start (int cl)) (map int [0 ..< n]) (success, b) =
    Done (success, b\<lparr>bn_offs := take cl (bn_offs b) @ map (\<lambda>i. start + bn_offs right ! i - 32) [0 ..< n] @ drop (cl + n) (bn_offs b)\<rparr>)"
  using n v
proof (induction n)
  case (Suc n)
  let ?cells = "take cl (bn_offs b) @ map (\<lambda>i. start + bn_offs right ! i - 32) [0 ..< n] @ drop (cl + n) (bn_offs b)"
  let ?b = "b\<lparr>bn_offs := ?cells\<rparr>" and ?v = "start + bn_offs right ! n - 32"
  have len: "length ?cells = length (bn_offs b)" using Suc.prems by simp
  then have s': "node_shape c ?b" using s(1) by (simp add: node_shape_def)
  have v: "0 < ?v" "?v < node_size c" using Suc.prems(3) [of n] by auto
  then have u: "u32 (start + bn_offs right ! n - descr_size) = ?v" using node_shapeD(2) [OF s(1)] by (simp add: descr_size_def u32_id)
  have d: "drop (cl + n) (bn_offs b) = bn_offs b ! (cl + n) # drop (Suc (cl + n)) (bn_offs b)" using Suc.prems by (simp add: Cons_nth_drop_Suc)
  have "?cells[cl + n := ?v] = take cl (bn_offs b) @ map (\<lambda>i. start + bn_offs right ! i - 32) [0 ..< Suc n] @ drop (cl + Suc n) (bn_offs b)"
    using Suc.prems by (simp add: d list_update_append)
  moreover have "merge_offset c right start (int cl) (int n) (success, ?b) = Done (success, ?b\<lparr>bn_offs := ?cells[cl + n := ?v]\<rparr>)"
    using get_offset_ok [OF s(2), of "int n"] check_set_offset_ok [OF s', of "int n + int cl" ?v] Suc.prems v len u
    by (simp add: merge_offset_def nat_add_distrib add.commute)
  ultimately show ?case using Suc.IH Suc.prems by (simp add: for_each_append)
qed simp

lemma merge_nodes_ok:
  assumes l: "node_layout c l bl" and r: "node_layout c r br" and fits: "node_size c \<le> d_free_space l + d_free_space r"
  shows "\<exists>b. merge_nodes c l r = Done (success, b) \<and> node_layout c b (bl @ br) \<and> node_recs b = node_recs l @ node_recs r \<and>
    node_head b = node_head l \<and> d_magic b = d_magic l"
proof -
  note dl = node_layoutD [OF l] and dr = node_layoutD [OF r] and sl = node_shapeD [OF node_layoutD(1) [OF l]]
  define nl nr where "nl = int (length (concat bl))" and "nr = int (length (concat br))"
  define st where "st = 32 + nl"
  let ?cl = "length bl" and ?cr = "length br"
  have room: "st + nr \<le> node_size c - 48 - 4 * (int ?cl + int ?cr)" "0 \<le> nl" "0 \<le> nr"
    using fits dl(8) dr(8) by (simp_all add: st_def nl_def nr_def)
  have cells: "?cl + ?cr + 1 < length (bn_offs l)" "?cr < length (bn_offs r)" using room sl(4) dr(5) by (simp_all add: st_def)
  have fl: "bn_offs l ! ?cl = st" "bn_offs r ! ?cr = 32 + nr" using dl(7) dr(7) by (simp_all add: st_def nl_def nr_def)
  have chk: "check_bnode_offset_area c l = Done True" "check_bnode_offset_area c r = Done True"
    using check_offsets_ok [OF l, of ?cl] check_offsets_ok [OF r, of ?cr] dl(2) dr(2) by (simp_all add: check_bnode_offset_area_def)
  have lens: "int (length (bn_data r)) = node_size c" using node_shapeD(3) [OF dr(1)] .
  have mem: "in_mem (bn_data r) 32 nr" "in_mem (bn_data l) st nr" using room sl(3) lens by (simp_all add: in_mem_def st_def)
  let ?copy = "mem_read (bn_data r) 32 nr"
  have cp: "?copy = concat br" using dr(4) by (simp add: nr_def)
  define m where "m = mem_write (bn_data l) st ?copy"
  have me: "m = mem_write (bn_data l) st (concat br)" unfolding m_def cp ..
  have wr: "in_mem (bn_data l) st (int (length (concat br)))" using mem(2) by (simp only: nr_def)
  have lm: "length m = length (bn_data l)" using length_mem_write [OF wr] by (simp only: me)
  have ml: "mem_read m 32 nl = concat bl" using mem_read_write_below [OF wr, of 32 nl] dl(4) room(2) by (simp add: me st_def nl_def)
  have mr: "mem_read m st nr = concat br" using mem_read_write_same [OF wr] by (simp only: me nr_def)
  define offs where "offs = take ?cl (bn_offs l) @ map (\<lambda>i. st + bn_offs r ! i - 32) [0 ..< ?cr + 1] @ drop (?cl + (?cr + 1)) (bn_offs l)"
  define b where "b = l\<lparr>bn_data := m, bn_offs := offs, d_free_space := d_free_space l - nr - 4 * int ?cr, d_recs_count := int (?cl + ?cr)\<rparr>"
  have v: "0 < st + bn_offs r ! i - 32 \<and> st + bn_offs r ! i - 32 < node_size c" if "i < ?cr + 1" for i
  proof (cases "i = ?cr")
    case False
    then have "bn_offs r ! i \<in> set (blob_offsets 32 br)" using node_cells_range(1) [OF r, of i] that by simp
    from blob_offsets_range [OF this dr(3)] show ?thesis using room by (simp add: st_def nr_def)
  qed (use fl(2) room in \<open>simp add: st_def\<close>)
  have "node_shape c (l\<lparr>bn_data := m\<rparr>)" using dl(1) lm by (simp add: node_shape_def)
  from merge_loop [OF this dr(1), of ?cl "?cr + 1" st]
  have loop: "for_each (merge_offset c r st (int ?cl)) (map int [0 ..< ?cr + 1]) (success, l\<lparr>bn_data := m\<rparr>) =
      Done (success, l\<lparr>bn_data := m, bn_offs := offs\<rparr>)"
    using cells v by (simp add: offs_def del: upt_Suc)
  have addr: "vdfs4_get_offset_addr c l (int ?cl) = Done (Inr ?cl)" "get_offset c r (int ?cr) = Done (32 + nr)"
    using get_offset_addr_ok [OF dl(1), of "int ?cl"] get_offset_ok [OF dr(1), of "int ?cr"] dl(5) cells(2) fl(2) by simp_all
  have u: "u16 (d_free_space l - nr - int ?cr * 4) = d_free_space l - nr - 4 * int ?cr" "u16 (int ?cl + int ?cr) = int (?cl + ?cr)"
    using dl(8) room sl(1,2) cells(1) sl(5) by (simp_all add: u16_id st_def nl_def)
  have st32: "32 \<le> st" using room(2) by (simp add: st_def)
  have run: "merge_nodes c l r = Done (success, b)"
    unfolding merge_nodes_def chk bind_outcome_simps dl(2) dr(2) addr
    using mem room fl(1) loop u dl(2) st32 by (simp add: Let_def descr_size_def m_def [symmetric] b_def algebra_simps del: upt_Suc)
  have tk: "take (?cl + ?cr) offs = take ?cl (bn_offs l) @ map (\<lambda>p. p + (st - 32)) (take ?cr (bn_offs r))"
  proof -
    have "map (\<lambda>i. st + bn_offs r ! i - 32) [0 ..< ?cr] = map (\<lambda>p. p + (st - 32)) (take ?cr (bn_offs r))"
      using cells(2) by (intro nth_equalityI) simp_all
    then show ?thesis using cells by (simp add: offs_def)
  qed
  have ms: "mset (take (?cl + ?cr) offs) = mset (blob_offsets 32 (bl @ br))"
  proof -
    have "mset (map (\<lambda>p. p + (st - 32)) (take ?cr (bn_offs r))) = mset (map (\<lambda>p. p - (32 - st)) (blob_offsets 32 br))"
      using dr(6) by (simp only: mset_map) (simp add: algebra_simps)
    also have "\<dots> = mset (blob_offsets st br)" by (simp add: blob_offsets_shift)
    finally show ?thesis using dl(6) by (simp add: tk blob_offsets_append st_def nl_def)
  qed
  have "offs ! (?cl + ?cr) = st + nr" using cells fl(2) by (simp add: offs_def nth_append)
  moreover have "mem_read m 32 (int (length (concat (bl @ br)))) = concat (bl @ br)"
    using mem_read_split [of 32 nl nr m] ml mr room by (simp add: nl_def nr_def st_def)
  moreover have "length offs = length (bn_offs l)" using cells by (simp add: offs_def)
  ultimately have lay: "node_layout c b (bl @ br)"
    unfolding node_layout_def using dl(1,3,8) dr(3) lm cells ms room by (auto simp: b_def node_shape_def st_def nl_def nr_def)
  have "node_recs b = map (rec_at b) (take ?cl (bn_offs l)) @ map (\<lambda>p. rec_at b (p + (st - 32))) (take ?cr (bn_offs r))"
    using tk by (simp add: node_recs_def b_def comp_def nat_add_distrib)
  moreover have "rec_at b p = rec_at l p" if "p \<in> set (take ?cl (bn_offs l))" for p
  proof -
    have "p \<in> set (blob_offsets 32 bl)" using that dl(6) by (metis mset_eq_setD)
    from rec_in_blob(2) [OF this _ dl(3) dl(4)] show ?thesis using ml by (simp add: rec_at_def b_def nl_def)
  qed
  moreover have "rec_at b (p + (st - 32)) = rec_at r p" if "p \<in> set (take ?cr (bn_offs r))" for p
  proof -
    have "p \<in> set (blob_offsets 32 br)" using that dr(6) by (metis mset_eq_setD)
    from rec_in_moved [OF this _ _ dr(3) dr(4), of st m] show ?thesis using mr room by (simp add: rec_at_def b_def nr_def st_def)
  qed
  ultimately have "node_recs b = node_recs l @ node_recs r" using dl(2) dr(2) by (simp add: node_recs_def)
  then show ?thesis using run lay by (auto simp: b_def node_head_def)
qed

end
