(* ===== verification/Vdfs_Btree_Removal.thy ===== *)
theory Vdfs_Btree_Removal
  imports Vdfs_Btree_Index Vdfs_Btree_Remove
begin

text \<open>
  What a removal does to a tree in which every node has its index record. The removal of a record that
  is not the first of its node needs no new index record; when the node is merged with a neighbour,
  the index record that goes is again not the first of its node, so the argument climbs to the root.
\<close>

section \<open>The upper levels\<close>

text \<open>The tree of the levels from \<open>n\<close> on: its lowest level is level \<open>n\<close>.\<close>

definition upper :: "nat \<Rightarrow> vdfs4_btree \<Rightarrow> vdfs4_btree" where
  "upper n t = t\<lparr>btree_height := btree_height t - int n\<rparr>"

lemma upper_simps [simp]:
  "bt_conf (upper n t) = bt_conf t" "bt_nodes (upper n t) = bt_nodes t" "root_bnode_id (upper n t) = root_bnode_id t"
  "bm_data (upper n t) = bm_data t" "btree_height (upper n t) = btree_height t - int n" "upper 0 t = t"
  "vdfs4_get_bnode env (upper n t) i = vdfs4_get_bnode env t i"
  by (simp_all add: upper_def vdfs4_get_bnode_def)

lemma child_at_upper [simp]: "child_at (upper n t) i p = child_at t i p"
  unfolding child_at_def upper_simps ..

lemma traverse_right_upper:
  "traverse_right fuel env (upper n t) key track stack x p todo = traverse_right fuel env t key track stack x p todo"
proof (induction fuel arbitrary: x p todo)
  case (Suc fuel)
  show ?case unfolding traverse_right.simps upper_simps Suc.IH ..
qed simp

lemma traverse_level_upper:
  "btree_traverse_level env (upper n t) key x track stack todo = btree_traverse_level env t key x track stack todo"
  unfolding btree_traverse_level_def upper_simps traverse_right_upper ..

lemma traverse_levels_upper:
  "traverse_levels m env (upper n t) key False l x [] todo = traverse_levels m env t key False k x [] todo"
proof (induction m arbitrary: l k x todo)
  case (Suc m)
  have "traverse_levels m env (upper n t) key False (l - 1) y [] u = traverse_levels m env t key False (k - 1) y [] u" for y u
    by (rule Suc.IH)
  then show ?case unfolding traverse_levels.simps traverse_level_upper child_at_upper simp_thms if_False by (simp only:)
next
  case 0
  show ?case unfolding traverse_levels.simps traverse_level_upper simp_thms if_True ..
qed

lemma btree_find_upper: "btree_find env t key (int n + 1) = btree_find env (upper n t) key 1"
proof -
  have "nat (btree_height t - int n - 1) = nat (btree_height t - (int n + 1))" by (simp add: algebra_simps)
  then show ?thesis
    unfolding btree_find_def vdfs4_btree_traverse_def using traverse_levels_upper [of _ env n t key "btree_height t - int n" _ "[]" "btree_height t"]
    by simp
qed

section \<open>Positions\<close>

lemma place_unique:
  assumes e: "pre @ x # post = pre' @ x' # post'" and p: "p < length (node_recs (ns x))" "p' < length (node_recs (ns x'))"
    and q: "length (level_recs ns pre) + p = length (level_recs ns pre') + p'"
  shows "pre = pre' \<and> x = x' \<and> p = p' \<and> post = post'"
proof -
  have no: False if "us @ u # zs = vs @ v # ws" "length us < length vs" "a < length (node_recs (ns u))"
    "length (level_recs ns us) + a = length (level_recs ns vs) + b" for us vs zs ws u v a b
  proof -
    have "us @ [u] = take (Suc (length us)) vs" using that(2) arg_cong [OF that(1), of "take (Suc (length us))"] by simp
    then have "vs = us @ u # drop (Suc (length us)) vs" by (metis append_Cons append_assoc append_Nil append_take_drop_id)
    then obtain ys where "vs = us @ u # ys" by blast
    then show False using that(3,4) by simp
  qed
  have "length pre = length pre'" using no [OF e _ p(1) q] no [OF e [symmetric] _ p(2) q [symmetric]] by (meson linorder_neqE_nat)
  then show ?thesis using e q by simp
qed

text \<open>The list of records without record \<open>q\<close>.\<close>

definition without :: "nat \<Rightarrow> 'a list \<Rightarrow> 'a list" where
  "without q rs = take q rs @ drop (Suc q) rs"

lemma without_mid: "p < length rs \<Longrightarrow> as @ without p rs @ bs = without (length as + p) (as @ rs @ bs)"
  by (simp add: without_def)

lemma map_without: "map f (without q rs) = without q (map f rs)"
  by (simp add: without_def take_map drop_map)

lemma set_without: "set (without q rs) \<subseteq> set rs"
  by (auto simp: without_def dest: in_set_takeD in_set_dropD)

lemma hd_without: "0 < q \<Longrightarrow> hd (without q rs) = hd rs" "0 < q \<Longrightarrow> rs \<noteq> [] \<Longrightarrow> without q rs \<noteq> []"
  by (cases rs; cases q; simp add: without_def)+

lemma length_without: "q < length rs \<Longrightarrow> length (without q rs) = length rs - 1"
  by (simp add: without_def)

lemma ordered_without:
  assumes "ordered_recs valid cmp rs"
  shows "ordered_recs valid cmp (without q rs)"
proof -
  have s: "sorted_wrt (\<lambda>a b. cmp a b < 0) (take q rs @ drop q rs)" using assms by (simp add: ordered_recs_def)
  have d: "set (drop (Suc q) rs) \<subseteq> set (drop q rs)" by (simp add: set_drop_subset_set_drop)
  have "sorted_wrt (\<lambda>a b. cmp a b < 0) (drop (Suc q) rs)" using assms by (simp add: ordered_recs_def sorted_wrt_drop)
  then have "sorted_wrt (\<lambda>a b. cmp a b < 0) (without q rs)" using s d unfolding without_def sorted_wrt_append by blast
  then show ?thesis using assms set_without [of q rs] by (auto simp: ordered_recs_def)
qed

section \<open>Levels on top of each other\<close>

lemma tree_ok_Cons:
  assumes "V \<noteq> []"
  shows "tree_ok valid (upper n t) (L # V) \<longleftrightarrow> tree_ok valid (upper (Suc n) t) V \<and> level_ok valid (bt_conf t) (bt_nodes t) L \<and>
    index_ok (bt_conf t) (bt_nodes t) (hd V) L \<and> distinct L \<and> set L \<inter> set (concat V) = {} \<and> (\<forall>i \<in> set L. i < bits_num t \<and> bm_data t ! nat i)"
proof -
  have l: "(\<forall>m < length (L # V). level_ok valid (bt_conf t) (bt_nodes t) ((L # V) ! m)) \<longleftrightarrow>
      level_ok valid (bt_conf t) (bt_nodes t) L \<and> (\<forall>m < length V. level_ok valid (bt_conf t) (bt_nodes t) (V ! m))"
    by (simp add: All_less_Suc2)
  have i: "(\<forall>m. Suc m < length (L # V) \<longrightarrow> index_ok (bt_conf t) (bt_nodes t) ((L # V) ! Suc m) ((L # V) ! m)) \<longleftrightarrow>
      index_ok (bt_conf t) (bt_nodes t) (hd V) L \<and> (\<forall>m. Suc m < length V \<longrightarrow> index_ok (bt_conf t) (bt_nodes t) (V ! Suc m) (V ! m))"
    (is "?A \<longleftrightarrow> ?B")
  proof
    assume a: ?A
    show ?B using a [rule_format, of 0] a [rule_format, of "Suc _"] assms by (auto simp: hd_conv_nth)
  next
    assume b: ?B
    show ?A
    proof (intro allI impI)
      fix m assume "Suc m < length (L # V)"
      then show "index_ok (bt_conf t) (bt_nodes t) ((L # V) ! Suc m) ((L # V) ! m)"
        using b assms by (cases m) (auto simp: hd_conv_nth)
    qed
  qed
  show ?thesis
    unfolding tree_ok_def levels_ok_def upper_simps l i using assms by (auto simp del: set_concat simp: ball_Un)
qed

lemma tree_ok_single:
  "tree_ok valid (upper n t) [L] \<longleftrightarrow> level_ok valid (bt_conf t) (bt_nodes t) L \<and> btree_height t = int n + 1 \<and> root_bnode_id t = hd L \<and>
    distinct L \<and> (\<forall>i \<in> set L. i < bits_num t \<and> bm_data t ! nat i)"
  by (auto simp: tree_ok_def levels_ok_def)

lemma complete_Cons:
  assumes "V \<noteq> []"
  shows "complete ns (L # V) \<longleftrightarrow> map index_child (level_recs ns (hd V)) = L \<and> complete ns V"
proof -
  have "(\<forall>m. Suc m < length (L # V) \<longrightarrow> map index_child (level_recs ns ((L # V) ! Suc m)) = (L # V) ! m) \<longleftrightarrow>
      map index_child (level_recs ns (hd V)) = L \<and> (\<forall>m. Suc m < length V \<longrightarrow> map index_child (level_recs ns (V ! Suc m)) = V ! m)"
    (is "?A \<longleftrightarrow> ?B")
  proof
    assume a: ?A
    show ?B using a [rule_format, of 0] a [rule_format, of "Suc _"] assms by (auto simp: hd_conv_nth)
  next
    assume b: ?B
    show ?A
    proof (intro allI impI)
      fix m assume "Suc m < length (L # V)"
      then show "map index_child (level_recs ns ((L # V) ! Suc m)) = (L # V) ! m" using b assms by (cases m) (auto simp: hd_conv_nth)
    qed
  qed
  then show ?thesis using assms unfolding complete_def by auto
qed

section \<open>Where a key is found\<close>

context tree_keys
begin

lemma found_before:
  assumes o: "ordered_recs valid cmp rs" and k: "valid key" and f: "found_at cmp rs key q" and i: "i \<le> q"
  shows "cmp (rs ! i) key \<le> 0"
proof (cases "i = q")
  case False
  have q: "q < length rs" "cmp (rs ! q) key \<le> 0" using f by (simp_all add: found_at_def)
  have v: "valid (rs ! i)" "valid (rs ! q)" using o i q(1) by (simp_all add: ordered_recs_def)
  have "cmp (rs ! i) (rs ! q) < 0" using o False i q(1) by (auto simp: ordered_recs_def sorted_wrt_iff_nth_less)
  then show ?thesis using cmp_trans [OF v k] q(2) by simp
qed (use f in \<open>simp add: found_at_def\<close>)

lemma find_place:
  assumes t: "tree_ok valid (upper n t) U" "readable env U" and c: "comp_fn (bt_conf t) = cmp" and k: "valid key"
    and x: "hd U = pre @ x # post" "p < length (node_recs (bt_nodes t x))"
    and f: "found_at cmp (level_recs (bt_nodes t) (hd U)) key (length (level_recs (bt_nodes t) pre) + p)"
  shows "btree_find env t key (int n + 1) = Done (Inr (x, int p))"
proof -
  have ne: "0 < length U" using tree_okD(1) [OF t(1)] by simp
  have lo: "level_ok valid (bt_conf t) (bt_nodes t) (hd U)" using tree_okD(2) [OF t(1) ne] ne by (simp add: hd_conv_nth)
  have o: "ordered_recs valid cmp (level_recs (bt_nodes t) (hd U))" using lo c by (simp add: level_ok_def)
  have b: "\<not> 0 < cmp (hd (level_recs (bt_nodes t) (hd U))) key"
    using found_before [OF o k f, of 0] level_recs_hd(1) [OF lo] by (simp add: hd_conv_nth)
  have "comp_fn (bt_conf (upper n t)) = cmp" "False \<longrightarrow> be_stack env" using c by simp_all
  from btree_traverse_ok [OF t this(1) k this(2)] b obtain pre' y post' p' stack todo where
      r: "hd U = pre' @ y # post'" "vdfs4_btree_traverse env (upper n t) key False 1 = Done (Inr (y, int p'), stack, todo)"
        "p' < length (node_recs (bt_nodes t y))" "found_at cmp (level_recs (bt_nodes t) (hd U)) key (length (level_recs (bt_nodes t) pre') + p')"
    by auto
  have "length (level_recs (bt_nodes t) pre) + p = length (level_recs (bt_nodes t) pre') + p'" using found_at_unique [OF f r(4)] .
  then have "x = y" "p = p'" using place_unique [of pre x post pre' y post' p "bt_nodes t" p'] x r(1,3) by auto
  then show ?thesis unfolding btree_find_upper using r(2) by (simp add: btree_find_def)
qed

text \<open>The index record of the node that holds a key is where the key is found one level higher.\<close>

lemma found_parent:
  assumes t: "tree_ok valid (upper n t) (L # V)" "V \<noteq> []" "complete (bt_nodes t) (L # V)" and c: "comp_fn (bt_conf t) = cmp" and k: "valid key"
    and x: "L = pre @ x # post" "p < length (node_recs (bt_nodes t x))"
    and f: "found_at cmp (level_recs (bt_nodes t) L) key (length (level_recs (bt_nodes t) pre) + p)"
  shows "found_at cmp (level_recs (bt_nodes t) (hd V)) key (length pre)"
proof -
  let ?ns = "bt_nodes t" and ?rs = "level_recs (bt_nodes t) (hd V)" and ?q = "length (level_recs (bt_nodes t) pre) + p"
  note tc = t(1) [unfolded tree_ok_Cons [OF t(2)]]
  have lo: "level_ok valid (bt_conf t) ?ns L" and io: "index_ok (bt_conf t) ?ns (hd V) L" using tc by blast+
  have "level_ok valid (bt_conf t) ?ns (hd V)" using tree_okD(2) [of valid "upper (Suc n) t" V 0] tc t(2) by (simp add: hd_conv_nth)
  then have o: "ordered_recs valid cmp ?rs" using c by (simp add: level_ok_def)
  have o0: "ordered_recs valid cmp (level_recs ?ns L)" using lo c by (simp add: level_ok_def)
  have m: "map index_child ?rs = L" using t(2,3) by (simp add: complete_Cons)
  have ch: "index_child (?rs ! i) = L ! i" "valid (?rs ! i)" "cmp (hd (node_recs (?ns (L ! i)))) (?rs ! i) = 0" "valid (hd (node_recs (?ns (L ! i))))"
    if "i < length L" for i
  proof -
    have i: "i < length ?rs" using m that by (metis length_map)
    show e: "index_child (?rs ! i) = L ! i" using m i by (metis nth_map)
    show "valid (?rs ! i)" using o i by (simp add: ordered_recs_def)
    show "cmp (hd (node_recs (?ns (L ! i)))) (?rs ! i) = 0" using io i c e nth_mem [OF i] unfolding index_ok_def by metis
    show "valid (hd (node_recs (?ns (L ! i))))" using level_hd(2) [OF lo] that by simp
  qed
  have xl: "length pre < length L" "L ! length pre = x" using x(1) by simp_all
  have len: "length ?rs = length L" using m by (metis length_map)
  have "hd (node_recs (?ns x)) = level_recs ?ns L ! length (level_recs ?ns pre)" using x by (cases "node_recs (?ns x)") (auto simp: nth_append)
  then have hx: "cmp (hd (node_recs (?ns x))) key \<le> 0" using found_before [OF o0 k f, of "length (level_recs ?ns pre)"] by simp
  show ?thesis
  proof (rule found_atI [OF o k])
    show "length pre < length ?rs" using xl len by simp
    show "cmp (?rs ! length pre) key \<le> 0"
      using cmp_eq_left [OF ch(4) [OF xl(1)] ch(2) [OF xl(1)] k ch(3) [OF xl(1)]] hx xl(2) by (simp add: not_less [symmetric])
    assume "Suc (length pre) < length ?rs"
    then have s: "Suc (length pre) < length L" using len by simp
    then obtain y ys where y: "post = y # ys" using x(1) by (cases post) auto
    have ly: "L ! Suc (length pre) = y" using x(1) y by (simp add: nth_append)
    have ny: "node_recs (?ns y) \<noteq> []" using level_hd(1) [OF lo, of y] x(1) y by simp
    let ?j = "length (level_recs ?ns pre) + length (node_recs (?ns x))"
    have "hd (node_recs (?ns y)) = level_recs ?ns L ! ?j" "?j < length (level_recs ?ns L)"
      using x(1) y ny by (cases "node_recs (?ns y)"; simp add: nth_append)+
    then have "0 < cmp (hd (node_recs (?ns y))) key" using f x(2) by (simp add: found_at_def)
    then show "0 < cmp (?rs ! Suc (length pre)) key"
      using cmp_eq_left [OF ch(4) [OF s] ch(2) [OF s] k ch(3) [OF s]] ly by simp
  qed
qed

end

section \<open>The deletion in a node\<close>

lemma level_recs_same: "(\<And>i. i \<in> set ids \<Longrightarrow> ns' i = ns i) \<Longrightarrow> level_recs ns' ids = level_recs ns ids"
  by (intro level_recs_cong) simp

lemma levels_apart:
  assumes "tree_ok valid t (L # V)" "x \<in> set L"
  shows "x \<notin> set (concat V)"
  using tree_okD(6) [OF assms(1)] assms(2) by (auto simp del: set_concat)

lemma node_replace:
  assumes t: "tree_ok valid (upper n t) (L # V)" and co: "complete (bt_nodes t) (L # V)" and x: "L = pre @ x # post"
    and b: "node_ok (bt_conf t) b" "node_head b = node_head (bt_nodes t x)" "node_recs b = without p (node_recs (bt_nodes t x))"
    and p: "0 < p" "p < length (node_recs (bt_nodes t x))" and t': "bt_nodes t' = (bt_nodes t)(x := b)" "bt_conf t' = bt_conf t"
      "btree_height t' = btree_height t" "root_bnode_id t' = root_bnode_id t" "bm_data t' = bm_data t"
  shows "tree_ok valid (upper n t') (L # V)" "complete (bt_nodes t') (L # V)"
    "level_recs (bt_nodes t') L = without (length (level_recs (bt_nodes t) pre) + p) (level_recs (bt_nodes t) L)"
proof -
  let ?ns = "bt_nodes t" and ?c = "bt_conf t"
  have lo: "level_ok valid ?c ?ns L" using tree_okD(2) [OF t, of 0] by simp
  have dl: "distinct L" using tree_okD(8) [OF t, of 0] by simp
  then have xn: "x \<notin> set (pre @ post)" using x by simp
  have tx: "tree_node ?c ?ns x" using lo x by (simp add: level_ok_def)
  have hd: "hd (node_recs b) = hd (node_recs (?ns x))" "node_recs b \<noteq> []"
    using b(3) hd_without [OF p(1), of "node_recs (?ns x)"] tx by (simp_all add: tree_node_def)
  have tn: "tree_node ?c (bt_nodes t') x"
    using tx b hd(2) set_without [of p "node_recs (?ns x)"] by (auto simp: tree_node_def t'(1) node_head_def)
  have wo: "level_recs ?ns pre @ node_recs b @ level_recs ?ns post = without (length (level_recs ?ns pre) + p) (level_recs ?ns L)"
    using without_mid [OF p(2)] b(3) x by simp
  have o: "ordered_recs valid (comp_fn ?c) (level_recs ?ns pre @ node_recs (bt_nodes t' x) @ level_recs ?ns post)"
    using ordered_without lo wo by (simp add: level_ok_def t'(1))
  have same: "bt_nodes t' i = ?ns i" if "i \<in> set (pre @ post)" for i using that xn by (auto simp: t'(1))
  have hh: "node_head (bt_nodes t' x) = node_head (?ns x)" using b(2) by (simp add: t'(1))
  note lr = level_replace [where ns' = "bt_nodes t'", OF lo [unfolded x] xn same tn hh o, folded x]
  note lo' = lr(1)
  show "level_recs (bt_nodes t') L = without (length (level_recs ?ns pre) + p) (level_recs ?ns L)"
  proof -
    have "bt_nodes t' x = b" by (simp add: t'(1))
    from lr(2) [unfolded this wo] show ?thesis .
  qed
  have xV: "x \<notin> set (concat V)" using levels_apart [OF t, of x] x by (simp del: set_concat)
  have oth: "bt_nodes t' i = ?ns i" if i: "m < length (L # V)" "m \<noteq> 0" "i \<in> set ((L # V) ! m)" for m i
  proof -
    obtain k where k: "m = Suc k" using i(2) by (cases m) auto
    then have "i \<in> set (concat V)" using i in_levels [of i V k] by (simp del: set_concat)
    then show ?thesis using xV by (auto simp: t'(1))
  qed
  have "tree_ok valid (upper n t') ((L # V)[0 := L])"
  proof (rule tree_ok_update [OF t])
    show "level_ok valid (bt_conf (upper n t)) (bt_nodes (upper n t')) L" using lo' by simp
    show "bt_nodes (upper n t') i = bt_nodes (upper n t) i" if "m < length (L # V)" "m \<noteq> 0" "i \<in> set ((L # V) ! m)" for m i
      using oth [OF that] by simp
    show "i < bits_num (upper n t') \<and> bm_data (upper n t') ! nat i" if "i \<in> set (concat (L # V)) \<union> set L" for i
      using tree_okD(7) [OF t, of i] that t'(5) by auto
  qed (use t' hd(1) dl in auto)
  then show "tree_ok valid (upper n t') (L # V)" by simp
  have "level_recs (bt_nodes t') ((L # V) ! Suc m) = level_recs ?ns ((L # V) ! Suc m)" if "Suc m < length (L # V)" for m
    using oth [OF that] by (intro level_recs_same) simp
  then show "complete (bt_nodes t') (L # V)" using co by (simp add: complete_def)
qed

lemma delete_step:
  assumes t: "tree_ok valid (upper n t) (L # V)" and co: "complete (bt_nodes t) (L # V)" and x: "L = pre @ x # post"
    and p: "0 < p" "p < length (node_recs (bt_nodes t x))"
  obtains b where "delete_from_node (bt_conf t) (bt_nodes t x) (int p) = Done (success, b)" "d_recs_count b = int (length (node_recs b))"
    "node_recs b = without p (node_recs (bt_nodes t x))" "node_ok (bt_conf t) b" "node_head b = node_head (bt_nodes t x)"
proof -
  have "tree_node (bt_conf t) (bt_nodes t) x" using tree_node_levels [OF t, of 0 x] x by simp
  then obtain blobs where l: "node_layout (bt_conf t) (bt_nodes t x) blobs" "d_recs_count (bt_nodes t x) = int (length (node_recs (bt_nodes t x)))"
      "length (node_recs (bt_nodes t x) ! p) \<le> 600"
    using tree_node_layout p(2) by (metis nth_mem tree_node_def)
  then obtain b blobs' where b: "delete_from_node (bt_conf t) (bt_nodes t x) (int p) = Done (success, b)" "node_layout (bt_conf t) b blobs'"
      "node_recs b = without p (node_recs (bt_nodes t x))" "node_head b = node_head (bt_nodes t x)"
    using delete_from_node_ok [OF l(1), of "int p"] p by (auto simp: without_def)
  then show thesis using that node_layoutD(2) [OF b(2)] node_recs_layout(2) [OF b(2)] unfolding node_ok_def by auto
qed

section \<open>The merge of two nodes of a level\<close>

lemma linked_merge:
  assumes "linked ns p (pre @ x # y # post)" "distinct (pre @ x # y # post)"
    and pre: "\<And>i. i \<in> set pre \<Longrightarrow> node_head (ns' i) = node_head (ns i)"
    and x: "d_prev (ns' x) = d_prev (ns x)" "d_next (ns' x) = d_next (ns y)"
    and post: "\<And>i. i \<in> set post \<Longrightarrow> d_next (ns' i) = d_next (ns i) \<and> d_prev (ns' i) = (if i = hd post then x else d_prev (ns i))"
  shows "linked ns' p (pre @ x # post)"
  using assms(1,2) pre
proof (induction pre arbitrary: p)
  case Nil
  have "linked ns' x post"
  proof (cases post)
    case (Cons z zs)
    have "linked ns z zs" "z \<notin> set zs" using Nil.prems(1,2) Cons by simp_all
    moreover have "linked ns' q ws = linked ns q ws" if "set ws \<subseteq> set zs" for q ws
      using that post Cons \<open>z \<notin> set zs\<close> by (induction ws arbitrary: q) auto
    ultimately have "linked ns' z zs" by blast
    then show ?thesis using post [of z] Nil.prems(1) Cons by (cases zs) auto
  qed simp
  then show ?case using Nil.prems(1) x by (cases post) auto
next
  case (Cons a pre)
  have "linked ns' a (pre @ x # post)" using Cons by simp
  moreover have "d_prev (ns' a) = d_prev (ns a)" "d_next (ns' a) = d_next (ns a)" using Cons.prems(3) [of a] by (simp_all add: node_head_def)
  ultimately show ?case using Cons.prems(1) by (cases pre) auto
qed

text \<open>The tree when the records of \<open>r\<close> are in \<open>l\<close> and \<open>r\<close> has left the chain.\<close>

definition merged_tree :: "vdfs4_btree \<Rightarrow> int \<Rightarrow> int \<Rightarrow> bnode \<Rightarrow> vdfs4_btree" where
  "merged_tree t l r m =
     (let y = d_next (bt_nodes t r); t1 = set_node l (m\<lparr>d_next := y\<rparr>) t
      in vdfs4_mark_bnode_dirty l (if y = 0 then t1
           else vdfs4_mark_bnode_dirty y (set_node y ((bt_nodes t1 y)\<lparr>d_prev := d_node_id m\<rparr>) t1)))"

lemma merged_tree_simps [simp]:
  "bt_conf (merged_tree t l r m) = bt_conf t" "btree_height (merged_tree t l r m) = btree_height t"
  "root_bnode_id (merged_tree t l r m) = root_bnode_id t" "bm_data (merged_tree t l r m) = bm_data t"
  "bits_ok (merged_tree t l r m) = bits_ok t" "bt_last_table_index (merged_tree t l r m) = bt_last_table_index t"
  by (simp_all add: merged_tree_def Let_def set_node_def bits_ok_def vdfs4_mark_bnode_dirty_def)

lemma get_bnode_cong: "bm_data t' = bm_data t \<Longrightarrow> vdfs4_get_bnode env t' i = vdfs4_get_bnode env t i"
  by (simp add: vdfs4_get_bnode_def)

lemma btree_merge_run:
  assumes g: "vdfs4_get_bnode (re_tree env) t l = success" "vdfs4_get_bnode (re_tree env) t r = success"
      "d_next (bt_nodes t r) \<noteq> 0 \<Longrightarrow> vdfs4_get_bnode (re_tree env) t (d_next (bt_nodes t r)) = success"
    and m: "merge_nodes (bt_conf t) (bt_nodes t l) (bt_nodes t r) = Done (success, m)"
    and k: "get_record (bt_conf t) (bt_nodes t r) 0 = Done (Inr off)" "merged_key (rec_at (bt_nodes t r) off) = Done key" "re_alloc env"
  shows "btree_merge remove env t l r False = bind_outcome (remove (merged_tree t l r m) key) (\<lambda>(err, t4).
    if err \<noteq> success then Done (err, t4) else vdfs4_destroy_bnode t4 r)"
proof -
  let ?y = "d_next (bt_nodes t r)" and ?t1 = "set_node l (m\<lparr>d_next := d_next (bt_nodes t r)\<rparr>) t"
  have "?y \<noteq> 0 \<Longrightarrow> vdfs4_get_bnode (re_tree env) ?t1 ?y = success"
    using g(3) get_bnode_cong [of ?t1 t "re_tree env" ?y] by (simp add: set_node_def)
  then show ?thesis
    using g(1,2) m k by (simp add: btree_merge_def merged_tree_def Let_def INVALID_NODE_ID_def)
qed

lemma same_key_write:
  assumes "8 \<le> key_len h" "key_len h \<le> int (length h)"
  shows "same_key h (mem_write (mem_read h 0 (key_len h)) 6 (le_bytes 2 v))" (is "same_key h ?w")
proof -
  let ?k = "key_len h"
  have im: "in_mem (mem_read h 0 ?k) 6 (int (length (le_bytes 2 v)))" using assms by (simp add: in_mem_def mem_read_def)
  have "mem_read ?w 8 (?k - 8) = mem_read (mem_read h 0 ?k) 8 (?k - 8)" by (rule mem_read_write_above [OF im]) simp
  also have "\<dots> = mem_read h 8 (?k - 8)" using assms(1) by (subst mem_read_mem_read) simp_all
  finally have a: "mem_read ?w 8 (?k - 8) = mem_read h 8 (?k - 8)" .
  have "mem_read ?w 4 2 = mem_read (mem_read h 0 ?k) 4 2" by (rule mem_read_write_below [OF im]) simp_all
  also have "\<dots> = mem_read h 4 2" using assms(1) by (subst mem_read_mem_read) simp_all
  finally have "key_len ?w = ?k" by (simp add: key_len_def le16_at_def)
  moreover have "int (length ?w) = ?k" using length_mem_write [OF im] assms by (simp add: mem_read_def)
  ultimately show ?thesis using a by (simp add: same_key_def)
qed

context tree_keys
begin

lemma merged_key_ok: "valid h \<Longrightarrow> \<exists>key. merged_key h = Done key \<and> same_key h key"
  using valid_len [of h] same_key_write [of h] by (simp add: merged_key_def Let_def)

text \<open>After the merge the level holds the same records, and the levels above are as they were.\<close>

lemma merged_level:
  assumes t: "tree_ok valid (upper n t) (L # V)" "V \<noteq> []" and L: "L = pre @ l # r # post"
    and m: "node_ok (bt_conf t) m" "node_recs m = node_recs (bt_nodes t l) @ node_recs (bt_nodes t r)" "node_head m = node_head (bt_nodes t l)"
    and t2: "t2 = merged_tree t l r m"
  shows "level_ok valid (bt_conf t) (bt_nodes t2) (pre @ l # post)" "level_recs (bt_nodes t2) (pre @ l # post) = level_recs (bt_nodes t) L"
    "i \<in> set (pre @ l # post) \<Longrightarrow> hd (node_recs (bt_nodes t2 i)) = hd (node_recs (bt_nodes t i))"
    "i \<notin> set L \<Longrightarrow> bt_nodes t2 i = bt_nodes t i" "tree_ok valid (upper (Suc n) t2) V"
proof -
  let ?ns = "bt_nodes t" and ?n2 = "bt_nodes t2"
  have lo: "level_ok valid (bt_conf t) ?ns L" using tree_okD(2) [OF t(1), of 0] by simp
  have di: "distinct L" using tree_okD(8) [OF t(1), of 0] by simp
  have tn: "tree_node (bt_conf t) ?ns i" if "i \<in> set L" for i using lo that by (simp add: level_ok_def)
  have "linked ?ns 0 ((pre @ [l]) @ r # post)" using lo L by (simp add: level_ok_def)
  from linked_next [OF this] have nr: "d_next (?ns r) = (case post of [] \<Rightarrow> 0 | y # _ \<Rightarrow> y)" .
  have ml: "d_node_id m = l" "bn_id m = l" "d_prev m = d_prev (?ns l)" using m(3) tn [of l] L by (auto simp: node_head_def tree_node_def)
  have pos: "0 < i" if "i \<in> set L" for i using tn [OF that] by (simp add: tree_node_def)
  have n2: "?n2 i = (if i = l then m\<lparr>d_next := d_next (?ns r)\<rparr> else if post \<noteq> [] \<and> i = hd post then (?ns i)\<lparr>d_prev := l\<rparr> else ?ns i)" for i
    using di L nr ml(1) pos [of "hd post"] unfolding t2 merged_tree_def Let_def set_node_def by (cases post) auto
  have ne: "node_recs (?ns i) \<noteq> []" if "i \<in> set L" for i using tn [OF that] by (simp add: tree_node_def)
  have lpp: "l \<notin> set pre" "l \<notin> set post" "post \<noteq> [] \<Longrightarrow> hd post \<notin> set pre" using di L by (auto dest: hd_in_set)
  show out: "?n2 i = ?ns i" if "i \<notin> set L" for i using that L n2 by auto
  have rs: "node_recs (?n2 i) = (if i = l then node_recs (?ns l) @ node_recs (?ns r) else node_recs (?ns i))" for i
    using n2 [of i] m(2) by simp
  show "hd (node_recs (?n2 i)) = hd (node_recs (?ns i))" if "i \<in> set (pre @ l # post)" for i using rs [of i] ne [of l] L by simp
  have lp: "level_recs ?n2 pre = level_recs ?ns pre" "level_recs ?n2 post = level_recs ?ns post"
    using rs lpp by (auto intro!: level_recs_cong)
  show lr: "level_recs ?n2 (pre @ l # post) = level_recs ?ns L" using lp rs [of l] L by simp
  have "linked ?n2 0 (pre @ l # post)"
  proof (rule linked_merge [of ?ns 0 pre l r post])
    show "linked ?ns 0 (pre @ l # r # post)" using lo L by (simp add: level_ok_def)
    show "distinct (pre @ l # r # post)" using di L by simp
    show "node_head (?n2 i) = node_head (?ns i)" if "i \<in> set pre" for i using n2 [of i] that lpp by auto
    show "d_prev (?n2 l) = d_prev (?ns l)" "d_next (?n2 l) = d_next (?ns r)" using n2 [of l] ml by simp_all
    show "d_next (?n2 i) = d_next (?ns i) \<and> d_prev (?n2 i) = (if i = hd post then l else d_prev (?ns i))" if "i \<in> set post" for i
      using n2 [of i] that lpp by auto
  qed
  moreover have "tree_node (bt_conf t) ?n2 i" if "i \<in> set (pre @ l # post)" for i
  proof -
    have "length q \<le> 600" if "q \<in> set (node_recs m)" for q using that m(2) tn [of l] tn [of r] L by (auto simp: tree_node_def)
    then have "tree_node (bt_conf t) ?n2 l" using n2 [of l] m(1,2) ml ne [of l] pos [of l] L by (auto simp: tree_node_def)
    moreover have "tree_node (bt_conf t) ?n2 i" if "i \<noteq> l" "i \<in> set L" using n2 [of i] that tn [OF that(2)] by (auto simp: tree_node_def)
    ultimately show ?thesis using that L by (cases "i = l") auto
  qed
  ultimately show "level_ok valid (bt_conf t) ?n2 (pre @ l # post)" using lo lr by (simp add: level_ok_def)
  have "?n2 i = ?ns i" if "i \<in> set (concat V)" for i using out levels_apart [OF t(1)] that by blast
  moreover have tV: "tree_ok valid (upper (Suc n) t) V" using t tree_ok_Cons by blast
  ultimately show "tree_ok valid (upper (Suc n) t2) V"
    using tree_okD(7) [OF tV] t2 by (intro tree_ok_cong [OF tV]) (simp_all del: set_concat)
qed

end

section \<open>What a removal leaves\<close>

text \<open>Nodes outside of the levels \<open>U\<close> are as they were, and nothing new is allocated.\<close>

definition kept :: "vdfs4_btree \<Rightarrow> int list list \<Rightarrow> vdfs4_btree \<Rightarrow> bool" where
  "kept t U t' \<longleftrightarrow> bt_conf t' = bt_conf t \<and> bits_ok t' \<and> bt_last_table_index t' = bt_last_table_index t \<and>
     length (bm_data t') = length (bm_data t) \<and> btree_height t' \<le> btree_height t \<and>
     (\<forall>i > 0. i \<notin> set (concat U) \<longrightarrow> bt_nodes t' i = bt_nodes t i \<and> bm_data t' ! nat i = bm_data t ! nat i)"

text \<open>
  Record \<open>q\<close> of level \<open>n\<close>, the lowest of \<open>U\<close>, is gone; \<open>U'\<close> are the levels now. None is left when the root gave
  way to its only child.
\<close>

definition removed :: "(bytes \<Rightarrow> bool) \<Rightarrow> nat \<Rightarrow> vdfs4_btree \<Rightarrow> int list list \<Rightarrow> nat \<Rightarrow> vdfs4_btree \<Rightarrow> int list list \<Rightarrow> bool" where
  "removed valid n t U q t' U' \<longleftrightarrow> kept t U t' \<and> set (concat U') \<subseteq> set (concat U) \<and>
     (let rs = without q (level_recs (bt_nodes t) (hd U)) in
      if U' = [] then btree_height t' = int n \<and> length rs = 1 \<and> root_bnode_id t' = index_child (hd rs)
      else tree_ok valid (upper n t') U' \<and> complete (bt_nodes t') U' \<and> level_recs (bt_nodes t') (hd U') = rs)"

lemma kept_trans:
  assumes "kept t U t1" "kept t1 W t2" "set (concat W) \<subseteq> set (concat U)"
  shows "kept t U t2"
  using assms unfolding kept_def by (auto simp del: set_concat)

lemma kept_destroy:
  assumes b: "bits_ok t" and y: "0 < y" "y < bits_num t" "bm_data t ! nat y" "y \<in> set (concat U)"
  obtains t' where "vdfs4_destroy_bnode t y = Done (success, t')" "kept t U t'" "bt_nodes t' = bt_nodes t" "same_head t t'"
    "bm_data t' = (bm_data t)[nat y := False]"
proof -
  obtain t' where d: "vdfs4_destroy_bnode t y = Done (success, t')" "bits_ok t'" "bm_data t' = (bm_data t)[nat y := False]"
      "same_head t t'" "bt_nodes t' = bt_nodes t" "bt_last_table_index t' = bt_last_table_index t"
    using destroy_bnode_ok [OF b y(1-3)] by blast
  have "bm_data t' ! nat i = bm_data t ! nat i" if "0 < i" "i \<notin> set (concat U)" for i
  proof -
    have "i \<noteq> y" using that(2) y(4) by blast
    then have "nat i \<noteq> nat y" using that(1) y(1) by simp
    then show ?thesis using d(3) by simp
  qed
  then show thesis using that [OF d(1) _ d(5,4,3)] d(2-6) by (simp add: kept_def same_head_def)
qed

context tree_keys
begin

lemma merge_removed:
  assumes t: "tree_ok valid (upper n t) (L # V)" "V \<noteq> []" and co: "complete (bt_nodes t) (L # V)" and L: "L = pre @ l # r # post" and bits: "bits_ok t"
    and m: "node_ok (bt_conf t) m" "node_recs m = node_recs (bt_nodes t l) @ node_recs (bt_nodes t r)" "node_head m = node_head (bt_nodes t l)"
    and re: "removed valid (Suc n) (merged_tree t l r m) V (Suc (length pre)) t3 V'"
  shows "\<exists>t4. vdfs4_destroy_bnode t3 r = Done (success, t4) \<and> kept t (L # V) t4 \<and> tree_ok valid (upper n t4) ((pre @ l # post) # V') \<and>
    complete (bt_nodes t4) ((pre @ l # post) # V') \<and> level_recs (bt_nodes t4) (pre @ l # post) = level_recs (bt_nodes t) L \<and>
    set (concat V') \<subseteq> set (concat V)"
proof -
  define t2 where "t2 = merged_tree t l r m"
  let ?L = "pre @ l # post" and ?ns = "bt_nodes t" and ?c = "bt_conf t"
  note ml = merged_level [OF t L m t2_def]
  have k3: "kept t2 V t3" "set (concat V') \<subseteq> set (concat V)" using re by (simp_all add: removed_def t2_def del: set_concat)
  have cf: "bt_conf t3 = ?c" "length (bm_data t3) = length (bm_data t)" using k3(1) by (simp_all add: kept_def t2_def)
  have pos: "0 < i" if "i \<in> set L" for i using tree_node_levels [OF t(1), of 0 i] that by (simp add: tree_node_def)
  have same: "bt_nodes t3 i = bt_nodes t2 i" "bm_data t3 ! nat i = bm_data t ! nat i" "i < bits_num t" "bm_data t ! nat i" "i \<notin> set (concat V)"
    if "i \<in> set L" for i
    using that k3(1) pos [OF that] levels_apart [OF t(1) that] tree_okD(7) [OF t(1), of i] by (simp_all add: kept_def t2_def del: set_concat)
  have rL: "r \<in> set L" "set ?L \<subseteq> set L" "r \<notin> set ?L" using L tree_okD(8) [OF t(1), of 0] by auto
  have "bits_ok t3" using k3(1) by (simp add: kept_def)
  then obtain t4 where d: "vdfs4_destroy_bnode t3 r = Done (success, t4)" "kept t3 (L # V) t4" "bt_nodes t4 = bt_nodes t3" "same_head t3 t4"
      "bm_data t4 = (bm_data t3)[nat r := False]"
    by (rule kept_destroy [of t3 r "L # V"]) (use same [OF rL(1)] pos [OF rL(1)] rL(1) cf in auto)
  have k: "kept t (L # V) t4"
  proof (rule kept_trans [OF _ d(2)])
    have "kept t (L # V) t2" using ml(4) bits by (simp add: kept_def t2_def)
    then show "kept t (L # V) t3" by (rule kept_trans [OF _ k3(1)]) simp
  qed simp
  have bit: "i < bits_num t4 \<and> bm_data t4 ! nat i" if "i < bits_num t3 \<and> bm_data t3 ! nat i" "i \<noteq> r" "0 < i" for i
  proof -
    have "nat i \<noteq> nat r" using that(2,3) pos [OF rL(1)] by simp
    then show ?thesis using that(1) d(5) by simp
  qed
  have e: "bt_nodes t4 i = bt_nodes t2 i" if "i \<in> set ?L" for i using same(1) rL(2) that d(3) by auto
  have lr: "level_recs (bt_nodes t4) ?L = level_recs ?ns L" using level_recs_same [of ?L "bt_nodes t4" "bt_nodes t2"] e ml(2) by simp
  have lo: "level_ok valid ?c (bt_nodes t4) ?L"
    using ml(1) lr ml(2) linked_cong [of ?L "bt_nodes t4" "bt_nodes t2" 0] e tree_node_cong [of "bt_nodes t4" _ "bt_nodes t2" ?c]
    by (auto simp: level_ok_def)
  have c4: "bt_conf t4 = ?c" "btree_height t4 = btree_height t3" "root_bnode_id t4 = root_bnode_id t3"
    using d(4) cf by (simp_all add: same_head_def)
  have bits4: "\<forall>i \<in> set ?L. i < bits_num t4 \<and> bm_data t4 ! nat i"
  proof
    fix i assume i: "i \<in> set ?L"
    then have "i \<in> set L" "i \<noteq> r" using rL(2,3) by blast+
    then show "i < bits_num t4 \<and> bm_data t4 ! nat i" using bit [of i] same [of i] pos [of i] cf(2) by simp
  qed
  have dL: "distinct ?L" using tree_okD(8) [OF t(1), of 0] L by simp
  have upV: "level_recs (bt_nodes t2) (hd V) = level_recs ?ns (hd V)"
  proof (rule level_recs_same)
    fix i assume "i \<in> set (hd V)"
    then have "i \<in> set (concat V)" using in_levels [of i V 0] t(2) by (simp add: hd_conv_nth del: set_concat)
    then show "bt_nodes t2 i = ?ns i" using ml(4) levels_apart [OF t(1)] by blast
  qed
  have mc: "map index_child (without (Suc (length pre)) (level_recs (bt_nodes t2) (hd V))) = ?L"
  proof -
    have "level_recs (bt_nodes t2) (hd V) = level_recs ?ns (hd V)"
      by (rule upV)
    then have "map index_child (level_recs (bt_nodes t2) (hd V)) = L" using co t(2) by (simp add: complete_Cons)
    then show ?thesis using L by (simp add: map_without) (simp add: without_def)
  qed
  have fin: "tree_ok valid (upper n t4) (?L # V') \<and> complete (bt_nodes t4) (?L # V')"
  proof (cases "V' = []")
    case True
    let ?rs = "without (Suc (length pre)) (level_recs (bt_nodes t2) (hd V))"
    have h: "btree_height t3 = int (Suc n)" "length ?rs = 1" "root_bnode_id t3 = index_child (hd ?rs)"
      using re True by (simp_all add: removed_def Let_def t2_def)
    obtain r0 where "?rs = [r0]" using h(2) by (auto simp: length_Suc_conv)
    then have "?L = [index_child (hd ?rs)]" using mc by simp
    then have "root_bnode_id t4 = hd ?L" "length ?L = 1" using h(3) c4 by (metis list.sel(1), simp)
    then show ?thesis using True lo bits4 dL h(1) c4 by (simp add: tree_ok_single complete_def)
  next
    case False
    have u: "tree_ok valid (upper (Suc n) t3) V'" "complete (bt_nodes t3) V'"
        "level_recs (bt_nodes t3) (hd V') = without (Suc (length pre)) (level_recs (bt_nodes t2) (hd V))"
      using re False by (simp_all add: removed_def Let_def t2_def)
    have rV: "r \<notin> set (concat V')" using same(5) [OF rL(1)] k3(2) by blast
    have pV: "0 < i" if i: "i \<in> set (concat V')" for i
    proof -
      obtain ids where "ids \<in> set V'" "i \<in> set ids" using i by auto
      then obtain m where "m < length V'" "i \<in> set (V' ! m)" by (metis in_set_conv_nth)
      from tree_node_levels [OF u(1) this] show ?thesis by (simp add: tree_node_def)
    qed
    have tV: "tree_ok valid (upper (Suc n) t4) V'"
    proof (rule tree_ok_cong [OF u(1)])
      show "i < bits_num (upper (Suc n) t4) \<and> bm_data (upper (Suc n) t4) ! nat i" if "i \<in> set (concat V')" for i
        using bit [of i] tree_okD(7) [OF u(1) that] pV [OF that] rV that by (auto simp del: set_concat)
    qed (use c4 d(3) cf in simp_all)
    have m3: "map index_child (level_recs (bt_nodes t4) (hd V')) = ?L" using mc u(3) d(3) by simp
    have cV: "complete (bt_nodes t4) (?L # V')" using m3 u(2) d(3) False by (simp add: complete_Cons)
    have io: "index_ok ?c (bt_nodes t4) (hd V') ?L"
      unfolding index_ok_def
    proof (intro conjI ballI)
      have io: "index_ok ?c ?ns (hd V) L" using t tree_ok_Cons by blast
      have e2: "level_recs (bt_nodes t2) (hd V) = level_recs ?ns (hd V)"
        by (rule upV)
      fix q assume q: "q \<in> set (level_recs (bt_nodes t4) (hd V'))"
      then have old: "q \<in> set (level_recs ?ns (hd V))"
        using u(3) d(3) e2 set_without [of "Suc (length pre)" "level_recs (bt_nodes t2) (hd V)"] by auto
      show "int (length q) = key_len q + 4" using io old by (simp add: index_ok_def)
      show ch: "index_child q \<in> set ?L" using m3 q by (metis image_eqI set_map)
      have "hd (node_recs (bt_nodes t4 (index_child q))) = hd (node_recs (?ns (index_child q)))" using ml(3) [OF ch] e [OF ch] by simp
      then show "comp_fn ?c (hd (node_recs (bt_nodes t4 (index_child q)))) q = 0" using io old by (simp add: index_ok_def)
    next
      have "level_recs (bt_nodes t4) (hd V') \<noteq> []" using m3 by auto
      then show "index_child (hd (level_recs (bt_nodes t4) (hd V'))) = hd ?L" using m3 by (metis list.map_sel(1))
    qed
    have "set ?L \<inter> set (concat V') = {}" using same(5) rL(2) k3(2) by blast
    then show ?thesis using tV cV lo io dL bits4 c4(1) False by (simp add: tree_ok_Cons del: set_concat)
  qed
  show ?thesis using d(1) k fin lr k3(2) by blast
qed

end

section \<open>The steps of a removal\<close>

lemma linked_prev: "linked ns p (pre @ x # post) \<Longrightarrow> d_prev (ns x) = (if pre = [] then p else last pre)"
  by (induction pre arbitrary: p) (auto split: if_splits)

lemma level_index:
  assumes "j < length (level_recs ns ids)"
  obtains pre x post p where "ids = pre @ x # post" "p < length (node_recs (ns x))" "j = length (level_recs ns pre) + p"
  using assms
proof (induction ids arbitrary: j thesis)
  case (Cons i ids)
  show ?case
  proof (cases "j < length (node_recs (ns i))")
    case True
    then show ?thesis using Cons.prems(1) [of "[]" i ids j] by simp
  next
    case False
    have "j - length (node_recs (ns i)) < length (level_recs ns ids)" using Cons.prems(2) False by simp
    then obtain pre x post p where "ids = pre @ x # post" "p < length (node_recs (ns x))" "j - length (node_recs (ns i)) = length (level_recs ns pre) + p"
      using Cons.IH by blast
    then show ?thesis using Cons.prems(1) [of "i # pre" x post p] False by simp
  qed
qed simp

lemma removed_same:
  assumes "kept t (L # V) t'" "tree_ok valid (upper n t') (L # V)" "complete (bt_nodes t') (L # V)"
    "level_recs (bt_nodes t') L = without q (level_recs (bt_nodes t) L)"
  shows "removed valid n t (L # V) q t' (L # V)"
  using assms by (simp add: removed_def del: set_concat)

context tree_keys
begin

lemma found_without:
  assumes o: "ordered_recs valid cmp rs" and k: "valid key" and q: "0 < q" "q < length rs" "cmp (rs ! q) key = 0"
  shows "found_at cmp (without q rs) key (q - 1)"
proof -
  have f: "found_at cmp rs key q" using found_at_exact [OF o k q(2,3)] .
  have "cmp (rs ! (q - 1)) key \<le> 0" using found_before [OF o k f] by simp
  moreover have "0 < cmp (without q rs ! i) key" if "q - 1 < i" "i < length (without q rs)" for i
  proof -
    have "q \<le> i" using that(1) by linarith
    then have "without q rs ! i = rs ! Suc i" using that q by (simp add: without_def nth_append)
    moreover have "Suc i < length rs" using that q by (simp add: length_without)
    ultimately show ?thesis using f \<open>q \<le> i\<close> by (simp add: found_at_def)
  qed
  moreover have "without q rs ! (q - 1) = rs ! (q - 1)" using q by (simp add: without_def nth_append)
  ultimately show ?thesis using q by (simp add: found_at_def length_without)
qed

lemma dangling_child:
  assumes t: "tree_ok valid (upper n t) (L # V)" "V \<noteq> []" and co: "complete (bt_nodes t) (L # V)"
    and w: "hd V = pre @ w # post" "p < length (node_recs (bt_nodes t w))"
  shows "is_bnode_dangling (bt_conf t) (bt_nodes t w) (int p) i = Done (L ! (length (level_recs (bt_nodes t) pre) + p) \<noteq> i)"
proof -
  let ?rs = "level_recs (bt_nodes t) (hd V)" and ?j = "length (level_recs (bt_nodes t) pre) + p"
  have "tree_ok valid (upper (Suc n) t) V" using t tree_ok_Cons by blast
  from tree_okD(2) [OF this, of 0] have lo: "level_ok valid (bt_conf t) (bt_nodes t) (hd V)" using t(2) by (simp add: hd_conv_nth)
  obtain off where off: "get_record (bt_conf t) (bt_nodes t w) (int p) = Done (Inr off)" "rec_at (bt_nodes t w) off = ?rs ! ?j"
      "?rs ! ?j \<in> set ?rs"
    using level_node_record [OF lo [unfolded w(1)] w(2)] w(1) by auto
  have "valid (?rs ! ?j)" using off(3) lo by (simp add: level_ok_def ordered_recs_def)
  then have "get_value_pointer (?rs ! ?j) = Inr (key_len (?rs ! ?j))" using valid_len [of "?rs ! ?j"] by (simp add: get_value_pointer_def)
  moreover have "index_child (?rs ! ?j) = L ! ?j"
  proof -
    have "map index_child ?rs = L" using co t(2) by (simp add: complete_Cons)
    moreover have "?j < length ?rs" using w by simp
    ultimately show ?thesis by (metis nth_map)
  qed
  ultimately show ?thesis using off by (simp add: is_bnode_dangling_def)
qed

lemma remove_start:
  assumes t: "tree_ok valid (upper n t) (L # V)" "readable (re_tree env) (L # V)" and co: "complete (bt_nodes t) (L # V)"
    and c: "comp_fn (bt_conf t) = cmp" and k: "valid key" and x: "L = pre @ x # post" "0 < p" "p < length (node_recs (bt_nodes t x))"
    and e: "cmp (level_recs (bt_nodes t) L ! (length (level_recs (bt_nodes t) pre) + p)) key = 0" and b: "bits_ok t"
  obtains t1 where "btree_remove_at (Suc fuel) env t key (int n + 1) =
      remove_balance (\<lambda>t key. btree_remove_at fuel env t key (int (Suc n) + 1)) env t1 key (int n + 1) x"
    "tree_ok valid (upper n t1) (L # V)" "complete (bt_nodes t1) (L # V)" "kept t (L # V) t1" "bm_data t1 = bm_data t"
    "root_bnode_id t1 = root_bnode_id t" "btree_height t1 = btree_height t" "node_recs (bt_nodes t1 x) = without p (node_recs (bt_nodes t x))"
    "level_recs (bt_nodes t1) L = without (length (level_recs (bt_nodes t) pre) + p) (level_recs (bt_nodes t) L)"
    "level_recs (bt_nodes t1) pre = level_recs (bt_nodes t) pre"
proof -
  let ?q = "length (level_recs (bt_nodes t) pre) + p"
  have lo: "level_ok valid (bt_conf t) (bt_nodes t) L" using tree_okD(2) [OF t(1), of 0] by simp
  have o: "ordered_recs valid cmp (level_recs (bt_nodes t) L)" using lo c by (simp add: level_ok_def)
  have q: "?q < length (level_recs (bt_nodes t) L)" using x by simp
  have f: "found_at cmp (level_recs (bt_nodes t) L) key ?q" using found_at_exact [OF o k q e] .
  have find: "btree_find (re_tree env) t key (int n + 1) = Done (Inr (x, int p))"
    using find_place [OF t c k, of pre x post p] x(1,3) f by simp
  obtain off where off: "get_record (bt_conf t) (bt_nodes t x) (int p) = Done (Inr off)"
      "rec_at (bt_nodes t x) off = level_recs (bt_nodes t) L ! ?q" "level_recs (bt_nodes t) L ! ?q \<in> set (level_recs (bt_nodes t) L)"
    using level_node_record [OF lo [unfolded x(1)] x(3)] x(1) by auto
  have "valid (level_recs (bt_nodes t) L ! ?q)" using o q by (simp add: ordered_recs_def)
  then have ke: "comp_fn (bt_conf t) key (rec_at (bt_nodes t x) off) = 0" using e c off(2) cmp_eq_swap k by simp
  obtain b' where b': "delete_from_node (bt_conf t) (bt_nodes t x) (int p) = Done (success, b')" "d_recs_count b' = int (length (node_recs b'))"
      "node_recs b' = without p (node_recs (bt_nodes t x))" "node_ok (bt_conf t) b'" "node_head b' = node_head (bt_nodes t x)"
    using delete_step [OF t(1) co x] by blast
  define t1 where "t1 = vdfs4_mark_bnode_dirty x (set_node x b' t)"
  have s1: "bt_nodes t1 = (bt_nodes t)(x := b')" "bt_conf t1 = bt_conf t" "btree_height t1 = btree_height t"
      "root_bnode_id t1 = root_bnode_id t" "bm_data t1 = bm_data t" by (simp_all add: t1_def set_node_def)
  note nr = node_replace [OF t(1) co x(1) b'(4,5,3) x(2,3) s1]
  have h: "\<not> btree_height t < int n + 1" using tree_okD(4) [OF t(1)] by simp
  have cnt: "d_recs_count b' \<noteq> 0" using b'(2,3) length_without [OF x(3)] x(2,3) by simp
  have run: "btree_remove_at (Suc fuel) env t key (int n + 1) =
      remove_balance (\<lambda>t key. btree_remove_at fuel env t key (int (Suc n) + 1)) env t1 key (int n + 1) x"
    using h find off(1) ke b'(1) cnt x(2) by (simp add: Let_def t1_def)
  have "kept t (L # V) t1" using b x(1) by (auto simp: kept_def s1 t1_def set_node_def bits_ok_def vdfs4_mark_bnode_dirty_def)
  moreover have "node_recs (bt_nodes t1 x) = without p (node_recs (bt_nodes t x))" using s1(1) b'(3) by simp
  moreover have "x \<notin> set pre" using tree_okD(8) [OF t(1), of 0] x(1) by simp
  then have "level_recs (bt_nodes t1) pre = level_recs (bt_nodes t) pre" by (intro level_recs_same) (auto simp: s1(1))
  ultimately show thesis using that [OF run nr(1,2)] nr(3) s1 by blast
qed

end

section \<open>Removal climbs to the root\<close>

text \<open>What removal in the levels \<open>V\<close> above level \<open>n\<close> promises, for trees that agree with \<open>t\<close> there.\<close>

definition remover :: "(bytes \<Rightarrow> bool) \<Rightarrow> (bytes \<Rightarrow> bytes \<Rightarrow> int) \<Rightarrow> nat \<Rightarrow> vdfs4_btree \<Rightarrow> int list list \<Rightarrow>
    (vdfs4_btree \<Rightarrow> bytes \<Rightarrow> (status \<times> vdfs4_btree) outcome) \<Rightarrow> bool" where
  "remover valid cmp n t V remove \<longleftrightarrow> (\<forall>t2 key pre w post p.
     tree_ok valid (upper (Suc n) t2) V \<and> complete (bt_nodes t2) V \<and> bits_ok t2 \<and> bt_conf t2 = bt_conf t \<and> btree_height t2 = btree_height t \<and>
     bm_data t2 = bm_data t \<and> level_recs (bt_nodes t2) (hd V) = level_recs (bt_nodes t) (hd V) \<and> valid key \<and> hd V = pre @ w # post \<and> 0 < p \<and>
     p < length (node_recs (bt_nodes t2 w)) \<and> cmp (level_recs (bt_nodes t2) (hd V) ! (length (level_recs (bt_nodes t2) pre) + p)) key = 0 \<longrightarrow>
     (\<exists>t' V'. remove t2 key = Done (success, t') \<and> removed valid (Suc n) t2 V (length (level_recs (bt_nodes t2) pre) + p) t' V'))"

context tree_keys
begin

text \<open>The merge of two neighbours, given that removal one level higher works.\<close>

lemma merge_case:
  assumes t: "tree_ok valid (upper n t) (L # V)" "V \<noteq> []" and co: "complete (bt_nodes t) (L # V)" and bits: "bits_ok t"
    and c: "comp_fn (bt_conf t) = cmp" and env: "\<And>i. be_read (re_tree env) i = success" "re_alloc env"
    and L: "L = pre @ l # r # post" and free: "node_size (bt_conf t) \<le> d_free_space (bt_nodes t l) + d_free_space (bt_nodes t r)"
    and w: "hd V = pre1 @ w # post1" "0 < p" "p < length (node_recs (bt_nodes t w))" "Suc (length pre) = length (level_recs (bt_nodes t) pre1) + p"
    and IH: "remover valid cmp n t V remove"
  shows "\<exists>t' V'. btree_merge remove env t l r False = Done (success, t') \<and> kept t (L # V) t' \<and>
    tree_ok valid (upper n t') ((pre @ l # post) # V') \<and> complete (bt_nodes t') ((pre @ l # post) # V') \<and>
    level_recs (bt_nodes t') (pre @ l # post) = level_recs (bt_nodes t) L \<and> set (concat V') \<subseteq> set (concat V)"
proof -
  let ?ns = "bt_nodes t" and ?c = "bt_conf t"
  have lo: "level_ok valid ?c ?ns L" and io: "index_ok ?c ?ns (hd V) L" using t tree_ok_Cons by blast+
  have tn: "tree_node ?c ?ns l" "tree_node ?c ?ns r" using lo L by (simp_all add: level_ok_def)
  obtain bl br where lay: "node_layout ?c (?ns l) bl" "node_layout ?c (?ns r) br" "d_recs_count (?ns r) = int (length (node_recs (?ns r)))"
    using tree_node_layout [OF tn(1)] tree_node_layout [OF tn(2)] by metis
  obtain m where m: "merge_nodes ?c (?ns l) (?ns r) = Done (success, m)" "node_layout ?c m (bl @ br)"
      "node_recs m = node_recs (?ns l) @ node_recs (?ns r)" "node_head m = node_head (?ns l)"
    using merge_nodes_ok [OF lay(1,2) free] by blast
  have mo: "node_ok ?c m" using m(2) by (auto simp: node_ok_def)
  have inL: "l \<in> set L" "r \<in> set L" using L by simp_all
  have ne: "node_recs (?ns r) \<noteq> []" using tn(2) by (simp add: tree_node_def)
  have vh: "valid (hd (node_recs (?ns r)))" using level_hd(2) [OF lo inL(2)] .
  obtain key where key: "merged_key (hd (node_recs (?ns r))) = Done key" "same_key (hd (node_recs (?ns r))) key"
    using merged_key_ok [OF vh] by blast
  obtain off where off: "get_record ?c (?ns r) 0 = Done (Inr off)" "rec_at (?ns r) off = hd (node_recs (?ns r))"
    using get_record_ok [OF lay(2), of 0] lay(3) ne by (auto simp: hd_conv_nth)
  have gb: "vdfs4_get_bnode (re_tree env) t i = success" if "i \<in> set L" for i
    using tree_okD(7) [OF t(1), of i] that env(1) by (simp add: vdfs4_get_bnode_def)
  have "linked ?ns 0 ((pre @ [l]) @ r # post)" using lo L by (simp add: level_ok_def)
  from linked_next [OF this] have nr: "d_next (?ns r) = (case post of [] \<Rightarrow> 0 | y # _ \<Rightarrow> y)" .
  then have gn: "d_next (?ns r) \<noteq> 0 \<Longrightarrow> vdfs4_get_bnode (re_tree env) t (d_next (?ns r)) = success"
    using gb L by (cases post) auto
  define t2 where "t2 = merged_tree t l r m"
  note ml = merged_level [OF t L mo m(3,4) t2_def]
  have run: "btree_merge remove env t l r False = bind_outcome (remove t2 key) (\<lambda>(err, t4).
      if err \<noteq> success then Done (err, t4) else vdfs4_destroy_bnode t4 r)"
    unfolding t2_def using btree_merge_run [OF gb [OF inL(1)] gb [OF inL(2)] gn m(1) off(1) _ env(2)] off(2) key(1) by simp
  have same: "bt_nodes t2 i = ?ns i" if "i \<in> set (concat V)" for i using ml(4) levels_apart [OF t(1)] that by blast
  have hV: "set (hd V) \<subseteq> set (concat V)" using t(2) in_levels [of _ V 0] by (auto simp: hd_conv_nth)
  have sV: "bt_nodes t2 i = ?ns i" if "i \<in> set (hd V)" for i using same hV that by blast
  have lV: "level_recs (bt_nodes t2) (hd V) = level_recs ?ns (hd V)" using sV by (intro level_recs_same)
  have lw: "bt_nodes t2 w = ?ns w" "level_recs (bt_nodes t2) pre1 = level_recs ?ns pre1" using sV w(1) by (simp, intro level_recs_same) simp
  have cV: "complete (bt_nodes t2) V"
  proof -
    have "level_recs (bt_nodes t2) (V ! Suc k) = level_recs ?ns (V ! Suc k)" if "Suc k < length V" for k
      using same in_levels [of _ V "Suc k"] that by (intro level_recs_same) blast
    then show ?thesis using co t(2) by (simp add: complete_Cons) (simp add: complete_def)
  qed
  let ?rs = "level_recs ?ns (hd V)"
  have mc: "map index_child ?rs = L" using co t(2) by (simp add: complete_Cons)
  have jl: "Suc (length pre) < length ?rs" using w by simp
  have ch: "index_child (?rs ! Suc (length pre)) = r"
  proof -
    have "index_child (?rs ! Suc (length pre)) = L ! Suc (length pre)" using mc jl by (metis nth_map)
    then show ?thesis using L by (simp add: nth_append)
  qed
  have vk: "valid key" using same_key_valid [OF vh key(2)] .
  have hc: "cmp (hd (node_recs (?ns r))) (?rs ! Suc (length pre)) = 0" using io ch jl c nth_mem [OF jl] unfolding index_ok_def by metis
  have vr: "valid (?rs ! Suc (length pre))"
  proof -
    have "tree_ok valid (upper (Suc n) t) V" using t tree_ok_Cons by blast
    from tree_okD(2) [OF this, of 0] show ?thesis using t(2) jl by (simp add: hd_conv_nth level_ok_def ordered_recs_def)
  qed
  have ce: "cmp (?rs ! Suc (length pre)) key = 0"
    using same_key_cmp [OF vh key(2), of "?rs ! Suc (length pre)"] hc cmp_eq_swap [OF vk vr] by simp
  have "bits_ok t2" "bt_conf t2 = ?c" "btree_height t2 = btree_height t" "bm_data t2 = bm_data t" using bits by (simp_all add: t2_def)
  then obtain t3 V' where re: "remove t2 key = Done (success, t3)" "removed valid (Suc n) t2 V (Suc (length pre)) t3 V'"
    using IH [unfolded remover_def, rule_format, of t2 key pre1 w post1 p] ml(5) cV vk lV lw w ce by auto
  from merge_removed [OF t co L bits mo m(3,4) re(2) [unfolded t2_def]] show ?thesis using run re(1) by auto
qed

text \<open>The node is the root: it stays, or its only child takes its place.\<close>

lemma root_case:
  assumes t: "tree_ok valid (upper n t) (L # V)" and co: "complete (bt_nodes t) (L # V)" and bits: "bits_ok t" and h: "btree_height t < 65536"
    and x: "x \<in> set L" "x = root_bnode_id t"
    and ch: "\<And>r. 0 < n \<Longrightarrow> r \<in> set (level_recs (bt_nodes t) L) \<Longrightarrow>
      index_child r \<noteq> 0 \<and> vdfs4_get_bnode (re_tree env) t (index_child r) = success"
  shows "remove_balance remove env t key level x = Done (success, t) \<or>
    (\<exists>t'. remove_balance remove env t key level x = Done (success, t') \<and> 0 < n \<and> kept t (L # V) t' \<and> btree_height t' = int n \<and>
      length (level_recs (bt_nodes t) L) = 1 \<and> root_bnode_id t' = index_child (hd (level_recs (bt_nodes t) L)))"
proof (cases "node_size (bt_conf t) div 3 < d_free_space (bt_nodes t x) \<and> d_recs_count (bt_nodes t x) = 1 \<and> 1 < btree_height t")
  case False
  then have "remove_balance remove env t key level x = Done (success, t)" using x(2) by (auto simp: remove_balance_def Let_def)
  then show ?thesis ..
next
  case True
  have V: "V = []"
  proof (rule ccontr)
    assume v: "V \<noteq> []"
    then have "length (last V) = 1" using co by (simp add: complete_def)
    then have "hd (last V) \<in> set (last V)" by (cases "last V") auto
    then have "hd (last V) \<in> set (concat V)" using last_in_set [OF v] by auto
    moreover have "x = hd (last V)" using tree_okD(5) [OF t] x(2) v by simp
    ultimately show False using levels_apart [OF t x(1)] by simp
  qed
  have one: "L = [x]" using co V x(1) by (cases L) (auto simp: complete_def)
  have ht: "btree_height t = int n + 1" using tree_okD(4) [OF t] V by simp
  then have n: "0 < n" using True by simp
  have tx: "tree_node (bt_conf t) (bt_nodes t) x" using tree_node_levels [OF t, of 0 x] x(1) by simp
  then obtain bx where bx: "node_layout (bt_conf t) (bt_nodes t x) bx" "d_recs_count (bt_nodes t x) = int (length (node_recs (bt_nodes t x)))"
    using tree_node_layout by blast
  let ?r = "hd (level_recs (bt_nodes t) L)"
  have len: "length (level_recs (bt_nodes t) L) = 1" "node_recs (bt_nodes t x) ! 0 = ?r" "?r \<in> set (level_recs (bt_nodes t) L)"
    using one bx(2) True by (cases "node_recs (bt_nodes t x)"; simp)+
  obtain off where off: "get_record (bt_conf t) (bt_nodes t x) 0 = Done (Inr off)" "rec_at (bt_nodes t x) off = ?r"
    using get_record_ok [OF bx(1), of 0] True len(2) by auto
  have gc: "get_child_bnode (re_tree env) t ?r = Done (Inr (index_child ?r))" using ch [OF n len(3)] by (simp add: get_child_bnode_def)
  define t1 where "t1 = vdfs4_btree_set_root_id (index_child ?r) t"
  define t2 where "t2 = vdfs4_mark_bnode_dirty head_bnode_id (t1\<lparr>btree_height := int n\<rparr>)"
  have u: "u16 (btree_height t1 - 1) = int n" "int n \<noteq> 0" using ht h n by (simp_all add: t1_def vdfs4_btree_set_root_id_def u16_id)
  then have dec: "vdfs4_btree_dec_height t1 = Done t2" by (simp add: vdfs4_btree_dec_height_def t2_def)
  have s2: "bt_conf t2 = bt_conf t" "bt_nodes t2 = bt_nodes t" "bm_data t2 = bm_data t" "btree_height t2 = int n"
      "root_bnode_id t2 = index_child ?r" "bits_ok t2" "bt_last_table_index t2 = bt_last_table_index t"
    using bits by (simp_all add: t2_def t1_def vdfs4_btree_set_root_id_def bits_ok_def vdfs4_mark_bnode_dirty_def)
  have xb: "0 < x" "x < bits_num t2" "bm_data t2 ! nat x" "x \<in> set (concat (L # V))"
    using tx tree_okD(7) [OF t, of x] x(1) s2(3) by (simp_all add: tree_node_def)
  obtain t' where d: "vdfs4_destroy_bnode t2 x = Done (success, t')" "kept t2 (L # V) t'" "bt_nodes t' = bt_nodes t2" "same_head t2 t'"
    using kept_destroy [OF s2(6) xb] by metis
  have "kept t (L # V) t2" using s2 ht by (simp add: kept_def)
  then have "kept t (L # V) t'" by (rule kept_trans [OF _ d(2)]) simp
  moreover have "remove_balance remove env t key level x = Done (success, t')"
    using True x(2) off gc dec d(1) by (simp add: remove_balance_def t1_def)
  ultimately show ?thesis using n len(1) s2(4,5) d(4) by (auto simp: same_head_def)
qed

text \<open>With which neighbour a node is merged: they have the same parent.\<close>

lemma direction_ok:
  assumes t: "tree_ok valid (upper n t) (L # V)" "V \<noteq> []" and co: "complete (bt_nodes t) (L # V)"
    and c: "comp_fn (bt_conf t) = cmp" and env: "\<And>i. be_read (re_tree env) i = success" and k: "valid key"
    and x: "L = pre @ x # post" "p < length (node_recs (bt_nodes t x))"
    and f: "found_at cmp (level_recs (bt_nodes t) L) key (length (level_recs (bt_nodes t) pre) + p)"
    and d: "merge_direction env t key (int n + 1) x = r"
  obtains (none) "r = Done (Inr None)"
  | (merge) l y pre' post' pre1 w post1 p1 prev where "r = Done (Inr (Some (prev, False)))" "L = pre' @ l # y # post'"
      "if prev then y = x \<and> d_prev (bt_nodes t x) = l else l = x \<and> d_next (bt_nodes t x) = y"
      "hd V = pre1 @ w # post1" "0 < p1" "p1 < length (node_recs (bt_nodes t w))"
      "Suc (length pre') = length (level_recs (bt_nodes t) pre1) + p1"
proof -
  let ?ns = "bt_nodes t" and ?rs = "level_recs (bt_nodes t) (hd V)"
  have lo: "level_ok valid (bt_conf t) ?ns L" using tree_okD(2) [OF t(1), of 0] by simp
  have tV: "tree_ok valid (upper (Suc n) t) V" using t tree_ok_Cons by blast
  have fp: "found_at cmp ?rs key (length pre)" using found_parent [OF t co c k x f] .
  then obtain pre1 w post1 p1 where w: "hd V = pre1 @ w # post1" "p1 < length (node_recs (?ns w))" "length pre = length (level_recs ?ns pre1) + p1"
    using level_index [of "length pre" ?ns "hd V"] unfolding found_at_def by metis
  have rd: "readable (re_tree env) V" using env by (simp add: readable_def)
  have find: "btree_find (re_tree env) t key (int (Suc n) + 1) = Done (Inr (w, int p1))"
    using find_place [OF tV rd c k w(1,2)] fp w(3) by simp
  have "0 < int (length V)" using t(2) by simp
  moreover have "btree_height t - int (Suc n) = int (length V)" using tree_okD(4) [OF tV] by simp
  ultimately have nh: "int n + 1 \<noteq> btree_height t" by linarith
  have lk: "linked ?ns 0 L" using lo by (simp add: level_ok_def)
  have m: "map index_child ?rs = L" using co t(2) by (simp add: complete_Cons)
  have "tree_node (bt_conf t) ?ns w" using tree_node_levels [OF tV, of 0 w] w(1) t(2) by (simp add: hd_conv_nth)
  then obtain bw where cnt: "d_recs_count (?ns w) = int (length (node_recs (?ns w)))" using tree_node_layout by blast
  note dang = dangling_child [OF t co w(1)]
  have md: "merge_direction env t key (int n + 1) x = (if 0 < p1
      then bind_outcome (is_bnode_dangling (bt_conf t) (?ns w) (int p1) x) (\<lambda>d. Done (Inr (Some (True, d))))
      else if int p1 < d_recs_count (?ns w) - 1
      then bind_outcome (is_bnode_dangling (bt_conf t) (?ns w) (int p1 + 1) (d_next (?ns x))) (\<lambda>d. Done (Inr (Some (False, d))))
      else Done (Inr None))"
    using nh find by (simp add: merge_direction_def add.commute)
  show thesis
  proof (cases "0 < p1")
    case True
    then have "pre \<noteq> []" using w(3) by auto
    then obtain pre' l where pl: "pre = pre' @ [l]" by (cases pre rule: rev_cases) auto
    have "is_bnode_dangling (bt_conf t) (?ns w) (int p1) x = Done False" using dang [OF w(2)] w(3) x(1) by (simp add: nth_append)
    then have "r = Done (Inr (Some (True, False)))" using md d True by simp
    moreover have "d_prev (?ns x) = l" using linked_prev [of ?ns 0 pre x post] lk x(1) pl by simp
    ultimately show thesis using merge [of True pre' l x post pre1 w post1 p1] x(1) pl w True by simp
  next
    case False
    show thesis
    proof (cases "Suc p1 < length (node_recs (?ns w))")
      case s: True
      have jl: "Suc (length pre) < length L"
      proof -
        have "length ?rs = length L" using m by (metis length_map)
        then show ?thesis using s w by simp
      qed
      then obtain y ys where y: "post = y # ys" using x(1) by (cases post) auto
      have ly: "L ! Suc (length pre) = y" using x(1) y by (simp add: nth_append)
      have nx: "d_next (?ns x) = y" using linked_next [of ?ns 0 pre x post] lk x(1) y by simp
      have "is_bnode_dangling (bt_conf t) (?ns w) (int (Suc p1)) y = Done False" using dang [OF s] w(3) ly by simp
      then have "r = Done (Inr (Some (False, False)))" using md d False s cnt nx by (simp add: add.commute)
      then show thesis using merge [of False pre x y ys pre1 w post1 "Suc p1"] x(1) y w s nx by simp
    next
      case s: False
      then show thesis using none md d False cnt w(2) by simp
    qed
  qed
qed

lemma rebalance_case:
  assumes t: "tree_ok valid (upper n t) (L # V)" "V \<noteq> []" and co: "complete (bt_nodes t) (L # V)" and bits: "bits_ok t"
    and c: "comp_fn (bt_conf t) = cmp" and env: "\<And>i. be_read (re_tree env) i = success" "re_alloc env" and k: "valid key"
    and x: "L = pre @ x # post" "p < length (node_recs (bt_nodes t x))"
    and f: "found_at cmp (level_recs (bt_nodes t) L) key (length (level_recs (bt_nodes t) pre) + p)"
    and IH: "remover valid cmp n t V remove"
  shows "\<exists>t' W V'. rebalance remove env t key (int n + 1) x (d_free_space (bt_nodes t x)) = Done (success, t') \<and>
    (t' = t \<or> kept t (L # V) t' \<and> tree_ok valid (upper n t') (W # V') \<and> complete (bt_nodes t') (W # V') \<and>
      level_recs (bt_nodes t') W = level_recs (bt_nodes t) L \<and> set (concat (W # V')) \<subseteq> set (concat (L # V)))"
proof -
  let ?ns = "bt_nodes t" and ?c = "bt_conf t"
  have gb: "vdfs4_get_bnode (re_tree env) t i = success" if "i \<in> set L" for i
    using tree_okD(7) [OF t(1), of i] that env(1) by (simp add: vdfs4_get_bnode_def)
  have tn: "tree_node ?c ?ns i" if "i \<in> set L" for i using tree_node_levels [OF t(1), of 0 i] that by simp
  have fs: "0 \<le> d_free_space (?ns i) \<and> d_free_space (?ns i) \<le> 65536" if i: "i \<in> set L" for i
  proof -
    obtain bi where b: "node_layout ?c (?ns i) bi" using tree_node_layout [OF tn [OF i]] by blast
    show ?thesis using node_layoutD(8,9) [OF b] node_shapeD(2) [OF node_layoutD(1) [OF b]] by simp
  qed
  have xL: "x \<in> set L" using x(1) by simp
  have xid: "d_node_id (?ns x) = x" using tn [OF xL] by (simp add: tree_node_def)
  from direction_ok [OF t co c env(1) k x f refl] show ?thesis
  proof cases
    case 1
    then have "rebalance remove env t key (int n + 1) x (d_free_space (?ns x)) = Done (success, t)"
      using gb [OF xL] by (simp add: rebalance_def)
    then show ?thesis by blast
  next
    case (2 l y pre' post' pre1 w post1 p1 prev)
    note merge = this
    have ly: "l \<in> set L" "y \<in> set L" using merge(2) by simp_all
    let ?n = "if prev then l else y" and ?sum = "d_free_space (?ns l) + d_free_space (?ns y)"
    have sum: "u32 (d_free_space (?ns x) + d_free_space (?ns ?n)) = ?sum"
      using merge(3) fs [OF ly(1)] fs [OF ly(2)] by (cases prev) (auto simp: u32_id add.commute)
    have run: "rebalance remove env t key (int n + 1) x (d_free_space (?ns x)) =
        (if node_size ?c \<le> ?sum then btree_merge remove env t l y False else Done (success, t))"
      using merge(1,3) gb [OF xL] gb [OF ly(1)] gb [OF ly(2)] sum xid by (cases prev) (simp_all add: rebalance_def)
    show ?thesis
    proof (cases "node_size ?c \<le> ?sum")
      case True
      obtain t' V' where m: "btree_merge remove env t l y False = Done (success, t')" "kept t (L # V) t'"
          "tree_ok valid (upper n t') ((pre' @ l # post') # V')" "complete (bt_nodes t') ((pre' @ l # post') # V')"
          "level_recs (bt_nodes t') (pre' @ l # post') = level_recs ?ns L" "set (concat V') \<subseteq> set (concat V)"
        using merge_case [OF t co bits c env merge(2) True merge(4-7) IH] by blast
      have "set (concat ((pre' @ l # post') # V')) \<subseteq> set (concat (L # V))" using m(6) merge(2) by auto
      moreover have "rebalance remove env t key (int n + 1) x (d_free_space (?ns x)) = Done (success, t')" using run True m(1) by simp
      ultimately show ?thesis using m(2-5) by blast
    next
      case False
      then show ?thesis using run by auto
    qed
  qed
qed

lemma remove_ok:
  assumes env: "\<And>i. be_read (re_tree env) i = success" "re_alloc env"
  shows "length U \<le> fuel \<Longrightarrow> tree_ok valid (upper n t) U \<Longrightarrow> complete (bt_nodes t) U \<Longrightarrow> bits_ok t \<Longrightarrow> btree_height t < 65536 \<Longrightarrow>
    comp_fn (bt_conf t) = cmp \<Longrightarrow> valid key \<Longrightarrow> hd U = pre @ x # post \<Longrightarrow> 0 < p \<Longrightarrow> p < length (node_recs (bt_nodes t x)) \<Longrightarrow>
    cmp (level_recs (bt_nodes t) (hd U) ! (length (level_recs (bt_nodes t) pre) + p)) key = 0 \<Longrightarrow>
    (\<And>r. 0 < n \<Longrightarrow> r \<in> set (level_recs (bt_nodes t) (hd U)) \<Longrightarrow>
      index_child r \<noteq> 0 \<and> vdfs4_get_bnode (re_tree env) t (index_child r) = success) \<Longrightarrow>
    \<exists>t' U'. btree_remove_at fuel env t key (int n + 1) = Done (success, t') \<and>
      removed valid n t U (length (level_recs (bt_nodes t) pre) + p) t' U' \<and> (n = 0 \<longrightarrow> U' \<noteq> [])"
proof (induction fuel arbitrary: n t U key pre x post p)
  case 0
  then show ?case using tree_okD(1) [OF 0(2)] by simp
next
  case (Suc fuel)
  obtain L V where U: "U = L # V" using tree_okD(1) [OF Suc.prems(2)] by (cases U) auto
  note P = Suc.prems [unfolded U list.sel(1)]
  let ?q = "length (level_recs (bt_nodes t) pre) + p" and ?rem = "\<lambda>t key. btree_remove_at fuel env t key (int (Suc n) + 1)"
  have rd: "readable (re_tree env) W" for W using env(1) by (simp add: readable_def)
  obtain t1 where t1: "btree_remove_at (Suc fuel) env t key (int n + 1) = remove_balance ?rem env t1 key (int n + 1) x"
      "tree_ok valid (upper n t1) (L # V)" "complete (bt_nodes t1) (L # V)" "kept t (L # V) t1" "bm_data t1 = bm_data t"
      "root_bnode_id t1 = root_bnode_id t" "btree_height t1 = btree_height t" "node_recs (bt_nodes t1 x) = without p (node_recs (bt_nodes t x))"
      "level_recs (bt_nodes t1) L = without ?q (level_recs (bt_nodes t) L)" "level_recs (bt_nodes t1) pre = level_recs (bt_nodes t) pre"
    using remove_start [OF P(2) rd P(3) P(6-11) P(4)] by blast
  have cf: "bt_conf t1 = bt_conf t" "bits_ok t1" "comp_fn (bt_conf t1) = cmp" using t1(4) P(6) by (simp_all add: kept_def)
  have quiet: ?case if "remove_balance ?rem env t1 key (int n + 1) x = Done (success, t1)"
    using t1(1) that removed_same [OF t1(4,2,3,9)] U by auto
  have xL: "x \<in> set L" using P(8) by simp
  have h1: "btree_height t1 < 65536" using t1(7) P(5) by simp
  show ?case
  proof (cases "x = root_bnode_id t1")
    case True
    have ch: "index_child r \<noteq> 0 \<and> vdfs4_get_bnode (re_tree env) t1 (index_child r) = success"
      if "0 < n" "r \<in> set (level_recs (bt_nodes t1) L)" for r
      using P(12) [OF that(1)] that(2) t1(9) set_without [of ?q "level_recs (bt_nodes t) L"] get_bnode_cong [OF t1(5)] by auto
    consider "remove_balance ?rem env t1 key (int n + 1) x = Done (success, t1)"
      | t' where "remove_balance ?rem env t1 key (int n + 1) x = Done (success, t')" "0 < n" "kept t1 (L # V) t'"
        "btree_height t' = int n" "length (level_recs (bt_nodes t1) L) = 1" "root_bnode_id t' = index_child (hd (level_recs (bt_nodes t1) L))"
      using root_case [OF t1(2,3) cf(2) h1 xL True ch, of ?rem key "int n + 1"] by blast
    then show ?thesis
    proof cases
      case (2 t')
      note t' = this
      have "removed valid n t (L # V) ?q t' []"
        using kept_trans [OF t1(4) t'(3)] t'(4-6) t1(9) by (simp add: removed_def Let_def)
      then show ?thesis using t1(1) t'(1,2) U by auto
    qed (rule quiet)
  next
    case False
    show ?thesis
    proof (cases "node_size (bt_conf t1) div 3 < d_free_space (bt_nodes t1 x)")
      case small: False
      then show ?thesis using quiet by (simp add: remove_balance_def)
    next
      case big: True
      have V: "V \<noteq> []"
      proof
        assume v: "V = []"
        then have "length L = 1" "root_bnode_id t1 = hd L" using t1(2,3) by (simp_all add: complete_def tree_ok_single)
        then show False using False xL by (cases L) auto
      qed
      have lo: "level_ok valid (bt_conf t) (bt_nodes t) L" using tree_okD(2) [OF P(2), of 0] by simp
      then have o: "ordered_recs valid cmp (level_recs (bt_nodes t) L)" using P(6) by (simp add: level_ok_def)
      have q: "0 < ?q" "?q < length (level_recs (bt_nodes t) L)" using P(8-10) by simp_all
      have f: "found_at cmp (level_recs (bt_nodes t1) L) key (length (level_recs (bt_nodes t1) pre) + (p - 1))"
        using found_without [OF o P(7) q P(11)] P(9) t1(9,10) by simp
      have p1: "p - 1 < length (node_recs (bt_nodes t1 x))" using t1(8) P(9,10) by (simp add: length_without)
      have tV: "tree_ok valid (upper (Suc n) t1) V" and dis: "\<forall>i \<in> set L. i < bits_num t1 \<and> bm_data t1 ! nat i" using t1(2) V tree_ok_Cons by blast+
      have pos: "0 < i" if "i \<in> set L" for i using tree_node_levels [OF t1(2), of 0 i] that by (simp add: tree_node_def)
      have ih: "remover valid cmp n t1 V ?rem"
        unfolding remover_def
      proof (intro allI impI, elim conjE)
        fix t2 key pre1 w post1 p1
        assume a: "tree_ok valid (upper (Suc n) t2) V" "complete (bt_nodes t2) V" "bits_ok t2" "bt_conf t2 = bt_conf t1" "btree_height t2 = btree_height t1"
          "bm_data t2 = bm_data t1" "level_recs (bt_nodes t2) (hd V) = level_recs (bt_nodes t1) (hd V)" "valid key"
          "hd V = pre1 @ w # post1" "0 < p1" "p1 < length (node_recs (bt_nodes t2 w))"
          "cmp (level_recs (bt_nodes t2) (hd V) ! (length (level_recs (bt_nodes t2) pre1) + p1)) key = 0"
        have ch: "index_child r \<noteq> 0 \<and> vdfs4_get_bnode (re_tree env) t2 (index_child r) = success" if r: "r \<in> set (level_recs (bt_nodes t2) (hd V))" for r
        proof -
          have "map index_child (level_recs (bt_nodes t1) (hd V)) = L" using t1(3) V by (simp add: complete_Cons)
          then have "index_child r \<in> set L" using r a(7) by (metis image_eqI set_map)
          then show ?thesis using dis pos [of "index_child r"] env(1) a(6) by (auto simp: vdfs4_get_bnode_def)
        qed
        have "length V \<le> fuel" "btree_height t2 < 65536" "comp_fn (bt_conf t2) = cmp" using P(1) a(4,5) h1 cf(3) by simp_all
        from Suc.IH [OF this(1) a(1-3) this(2,3) a(8-12) ch]
        show "\<exists>t' V'. ?rem t2 key = Done (success, t') \<and> removed valid (Suc n) t2 V (length (level_recs (bt_nodes t2) pre1) + p1) t' V'" by blast
      qed
      obtain t' W V' where r: "rebalance ?rem env t1 key (int n + 1) x (d_free_space (bt_nodes t1 x)) = Done (success, t')"
          "t' = t1 \<or> kept t1 (L # V) t' \<and> tree_ok valid (upper n t') (W # V') \<and> complete (bt_nodes t') (W # V') \<and>
           level_recs (bt_nodes t') W = level_recs (bt_nodes t1) L \<and> set (concat (W # V')) \<subseteq> set (concat (L # V))"
        using rebalance_case [OF t1(2) V t1(3) cf(2,3) env P(7,8) p1 f ih] by blast
      have run: "remove_balance ?rem env t1 key (int n + 1) x = Done (success, t')" using r(1) big False by (simp add: remove_balance_def)
      show ?thesis
      proof (cases "t' = t1")
        case True
        then show ?thesis using quiet run by simp
      next
        case no: False
        then have "removed valid n t (L # V) ?q t' (W # V')"
          using r(2) kept_trans [OF t1(4), of "L # V" t'] t1(9) by (simp add: removed_def del: set_concat)
        then show ?thesis using t1(1) run U by auto
      qed
    qed
  qed
qed

end

end
