(* ===== verification/Vdfs_Btree_Remove_Props.thy ===== *)
theory Vdfs_Btree_Remove_Props
  imports Vdfs_Btree_Props Vdfs_Btree_Removal
begin

text \<open>
  The properties of removal: two nodes merged, a record removed from a tree of any kind, and searches
  after the removal.
\<close>

section \<open>Removal in a whole tree\<close>

text \<open>Record \<open>q\<close> of a level is the first of its node.\<close>

definition starts :: "(int \<Rightarrow> bnode) \<Rightarrow> int list \<Rightarrow> nat \<Rightarrow> bool" where
  "starts ns ids q \<longleftrightarrow> (\<exists>pre post. ids = pre @ post \<and> q = length (level_recs ns pre))"

lemma set_without_others:
  assumes "j < length rs" "j \<noteq> q"
  shows "rs ! j \<in> set (without q rs)"
proof (cases "j < q")
  case True
  then have "take q rs ! j = rs ! j" "j < length (take q rs)" using assms(1) by simp_all
  then show ?thesis using nth_mem [of j "take q rs"] by (simp add: without_def)
next
  case False
  then have "drop (Suc q) rs ! (j - Suc q) = rs ! j" "j - Suc q < length (drop (Suc q) rs)" using assms by simp_all
  then show ?thesis using nth_mem [of "j - Suc q" "drop (Suc q) rs"] by (simp add: without_def)
qed

context tree_keys
begin

lemma ordered_gone:
  assumes o: "ordered_recs valid cmp rs" and q: "q < length rs" and r: "r \<in> set (without q rs)"
  shows "cmp r (rs ! q) \<noteq> 0"
proof -
  have s: "sorted_wrt (\<lambda>a b. cmp a b < 0) (take q rs @ rs ! q # drop (Suc q) rs)"
    using o q by (simp add: ordered_recs_def id_take_nth_drop [symmetric])
  have v: "valid r" "valid (rs ! q)" using o q r set_without [of q rs] by (auto simp: ordered_recs_def)
  have "cmp r (rs ! q) < 0 \<or> cmp (rs ! q) r < 0" using s r unfolding without_def sorted_wrt_append set_append by auto
  then show ?thesis using cmp_eq_swap [OF v] by auto
qed

lemma remove_leaf_ok:
  assumes s: "store_ok valid t lv" and c: "comp_fn (bt_conf t) = cmp" and e: "env_ok (bt_conf t) (re_tree env)" "re_alloc env"
    and co: "complete (bt_nodes t) lv" and k: "valid key" and q: "q < length (level_recs (bt_nodes t) (hd lv))" "\<not> starts (bt_nodes t) (hd lv) q"
    and z: "cmp (level_recs (bt_nodes t) (hd lv) ! q) key = 0"
  shows "\<exists>t' lv'. vdfs4_btree_remove env t key = Done (success, t') \<and> store_ok valid t' lv' \<and> complete (bt_nodes t') lv' \<and>
    bt_conf t' = bt_conf t \<and> set (concat lv') \<subseteq> set (concat lv) \<and>
    level_recs (bt_nodes t') (hd lv') = take q (level_recs (bt_nodes t) (hd lv)) @ drop (Suc q) (level_recs (bt_nodes t) (hd lv))"
proof -
  note d = store_okD [OF s]
  obtain pre x post p where x: "hd lv = pre @ x # post" "p < length (node_recs (bt_nodes t x))" "q = length (level_recs (bt_nodes t) pre) + p"
    using level_index [OF q(1)] by metis
  have p: "0 < p" using q(2) x(1,3) by (cases p) (auto simp: starts_def)
  have rd: "be_read (re_tree env) i = success" for i using e(1) by (simp add: env_ok_def)
  have fuel: "length lv \<le> 65536" using tree_okD(4) [OF d(1)] d(4) by simp
  have t0: "tree_ok valid (upper 0 t) lv" using d(1) by simp
  obtain t' lv' where r: "btree_remove_at 65536 env t key (int 0 + 1) = Done (success, t')" "removed valid 0 t lv q t' lv'" "lv' \<noteq> []"
    using remove_ok [OF rd e(2) fuel t0 co d(2,4) c k x(1) p x(2) z [unfolded x(3)]] x(3) by auto
  have u: "kept t lv t'" "set (concat lv') \<subseteq> set (concat lv)" "tree_ok valid t' lv'" "complete (bt_nodes t') lv'"
      "level_recs (bt_nodes t') (hd lv') = without q (level_recs (bt_nodes t) (hd lv))"
    using r(2,3) by (simp_all add: removed_def Let_def del: set_concat)
  have "store_ok valid t' lv'" using u(1-3) d by (auto simp: store_ok_def kept_def simp del: set_concat)
  moreover have "vdfs4_btree_remove env t key = Done (success, t')" using r(1) by (simp add: vdfs4_btree_remove_def)
  ultimately show ?thesis using u by (auto simp: kept_def without_def simp del: set_concat)
qed

lemma remove_absent:
  assumes t: "tree_ok valid t lv" and e: "env_ok (bt_conf t) (re_tree env)" and c: "comp_fn (bt_conf t) = cmp" and k: "valid key"
    and n: "\<forall>r \<in> set (level_recs (bt_nodes t) (hd lv)). cmp r key \<noteq> 0"
  shows "vdfs4_btree_remove env t key = Done (Some ENOENT, t)"
proof -
  have h: "\<not> btree_height t < 1" using tree_okD(1,4) [OF t] by (cases lv) auto
  have rd: "readable (re_tree env) lv" using e by (simp add: env_ok_def readable_def)
  have unf: "vdfs4_btree_remove env t key = btree_remove_at (Suc 65535) env t key 1" by (simp add: vdfs4_btree_remove_def)
  show ?thesis
  proof (cases "0 < cmp (hd (level_recs (bt_nodes t) (hd lv))) key")
    case True
    then show ?thesis
      using btree_traverse_before [OF t rd c k True, of False] h unfolding unf btree_remove_at.simps by (simp add: btree_find_def Let_def)
  next
    case False
    have st: "False \<longrightarrow> be_stack (re_tree env)" by simp
    obtain pre y post p stack todo where r: "hd lv = pre @ y # post" "vdfs4_btree_traverse (re_tree env) t key False 1 = Done (Inr (y, int p), stack, todo)"
        "p < length (node_recs (bt_nodes t y))"
      using btree_traverse_ok [OF t rd c k st False] by blast
    have lo: "level_ok valid (bt_conf t) (bt_nodes t) (pre @ y # post)"
      using tree_okD(2) [OF t, of 0] tree_okD(1) [OF t] r(1) by (simp add: hd_conv_nth)
    obtain off where off: "get_record (bt_conf t) (bt_nodes t y) (int p) = Done (Inr off)" "rec_at (bt_nodes t y) off = node_recs (bt_nodes t y) ! p"
        "node_recs (bt_nodes t y) ! p \<in> set (level_recs (bt_nodes t) (pre @ y # post))"
      using level_node_record [OF lo r(3)] by blast
    have "valid (node_recs (bt_nodes t y) ! p)" using off(3) lo by (simp add: level_ok_def ordered_recs_def)
    moreover have "cmp (node_recs (bt_nodes t y) ! p) key \<noteq> 0" using n off(3) r(1) by simp
    ultimately have "comp_fn (bt_conf t) key (rec_at (bt_nodes t y) off) \<noteq> 0" using c off(2) k cmp_eq_swap by auto
    then show ?thesis using r(2) off(1) h unfolding unf btree_remove_at.simps by (simp add: btree_find_def Let_def)
  qed
qed

end

section \<open>Example\<close>

text \<open>A tree of two leaves under a root.\<close>

definition demo_full :: vdfs4_btree where
  "demo_full = demo_tree\<lparr>bt_nodes := (\<lambda>i. if i = 1 then demo_bnode 1 0 0 1 [demo_index 7 10 2, demo_index 7 30 3] else bt_nodes demo_tree i)\<rparr>"

definition demo_remove_env :: remove_env where
  "demo_remove_env = \<lparr>re_tree = demo_env, re_alloc = True, re_ptr = (\<lambda>_. Some EINVAL)\<rparr>"

lemma demo_full_simps [simp]:
  "bt_conf demo_full = demo_big_conf" "btree_height demo_full = 2" "root_bnode_id demo_full = 1"
  "node_recs (bt_nodes demo_full 1) = [demo_index 7 10 2, demo_index 7 30 3]"
  "node_recs (bt_nodes demo_full 2) = [demo_rec 7 10, demo_rec 7 20]" "node_recs (bt_nodes demo_full 3) = [demo_rec 7 30]"
  "bm_data demo_full = [True, True, True, True, False, False, False, False]" "bt_last_table_index demo_full = 7"
  "re_tree demo_remove_env = demo_env" "re_alloc demo_remove_env"
  by (simp_all add: demo_full_def demo_tree_recs demo_bnode_layout(2) demo_index_ok demo_remove_env_def) (simp_all add: demo_tree_def)

lemma demo_full_keys:
  "exttree_key_whole (demo_rec 7 10)" "exttree_key_whole (demo_rec 7 20)" "exttree_key_whole (demo_rec 7 30)"
  "exttree_key_whole (demo_index 7 10 2)" "exttree_key_whole (demo_index 7 30 3)"
  "vdfs4_exttree_cmpfn (demo_rec 7 10) (demo_rec 7 20) < 0" "vdfs4_exttree_cmpfn (demo_rec 7 10) (demo_rec 7 30) < 0"
  "vdfs4_exttree_cmpfn (demo_rec 7 20) (demo_rec 7 30) < 0" "vdfs4_exttree_cmpfn (demo_index 7 10 2) (demo_index 7 30 3) < 0"
  "vdfs4_exttree_cmpfn (demo_rec 7 10) (demo_index 7 10 2) = 0" "vdfs4_exttree_cmpfn (demo_rec 7 30) (demo_index 7 30 3) = 0"
  "key_len (demo_index 7 10 2) = 24" "key_len (demo_index 7 30 3) = 24" "index_child (demo_index 7 10 2) = 2" "index_child (demo_index 7 30 3) = 3"
  "vdfs4_exttree_cmpfn (demo_rec 7 20) (demo_rec 7 20) = 0" "0 < vdfs4_exttree_cmpfn (demo_rec 7 30) (demo_rec 7 20)"
  by code_simp+

lemma demo_full_ok: "store_ok exttree_key_whole demo_full [[2, 3], [1]]" "complete (bt_nodes demo_full) [[2, 3], [1]]"
proof -
  let ?t = "demo_full"
  have ns: "bt_nodes ?t i = (if i = 1 then demo_bnode 1 0 0 1 [demo_index 7 10 2, demo_index 7 30 3]
      else if i = 2 then demo_bnode 2 0 3 2 [demo_rec 7 10, demo_rec 7 20] else demo_bnode i 2 0 2 [demo_rec 7 30])" for i
    by (simp add: demo_full_def demo_tree_def)
  have n: "node_ok demo_big_conf (bt_nodes ?t i)" if "i \<in> {1, 2, 3}" for i
    unfolding node_ok_def using that by (auto simp: ns intro!: exI demo_bnode_layout(1) demo_index_ok demo_rec_ok)
  have t: "tree_node demo_big_conf (bt_nodes ?t) i" if "i \<in> {1, 2, 3}" for i
    unfolding tree_node_def using that n [OF that] by auto (auto simp: ns)
  have o: "ordered_recs exttree_key_whole vdfs4_exttree_cmpfn (level_recs (bt_nodes ?t) ids)" if "ids \<in> {[2, 3], [1]}" for ids
    using that demo_full_keys by (auto simp: ordered_recs_def)
  have l: "level_ok exttree_key_whole demo_big_conf (bt_nodes ?t) ids" if "ids \<in> {[2, 3], [1]}" for ids
    using that t o [OF that] by (auto simp: level_ok_def demo_tree_links) (auto simp: ns)
  have i: "index_ok demo_big_conf (bt_nodes ?t) [1] [2, 3]" using demo_full_keys by (simp add: index_ok_def demo_tree_links)
  have "levels_ok exttree_key_whole demo_big_conf (bt_nodes ?t) [[2, 3], [1]]" using l i by (auto simp: levels_ok_def less_Suc_eq)
  then have "tree_ok exttree_key_whole ?t [[2, 3], [1]]" by (simp add: tree_ok_def)
  moreover have "bits_ok ?t" by (simp add: bits_ok_def) (simp add: demo_full_def demo_tree_def, code_simp)
  ultimately show "store_ok exttree_key_whole ?t [[2, 3], [1]]" by (simp add: store_ok_def)
  show "complete (bt_nodes ?t) [[2, 3], [1]]" using demo_full_keys by (simp add: complete_def)
qed

lemma demo_full_starts: "\<not> starts (bt_nodes demo_full) [2, 3] 1"
proof
  assume "starts (bt_nodes demo_full) [2, 3] 1"
  then obtain pre post where s: "pre @ post = [2, 3]" "length (level_recs (bt_nodes demo_full) pre) = 1" by (auto simp: starts_def)
  have "pre = [] \<or> pre = [2] \<or> pre = [2, 3]" using s(1) by (auto simp: append_eq_Cons_conv)
  then show False using s(2) by auto
qed

section \<open>Properties\<close>

text \<open>
  C25. Two well-formed nodes with together at least a node's size of free space become one: its records are those of the
  left node followed by those of the right one, its bytes are laid out as those of any node, no access
  leaves the nodes, and the counters do not wrap around.
\<close>

theorem merge_nodes_refines:
  assumes "node_ok c l" "node_ok c r" "node_size c \<le> d_free_space l + d_free_space r"
  shows "\<exists>b. merge_nodes c l r = Done (success, b) \<and> node_ok c b \<and> node_recs b = node_recs l @ node_recs r \<and> node_head b = node_head l"
  using assms merge_nodes_ok unfolding node_ok_def by blast

theorem merge_nodes_refines_witness:
  "\<exists>b. merge_nodes demo_big_conf (bt_nodes demo_full 2) (bt_nodes demo_full 3) = Done (success, b) \<and> node_ok demo_big_conf b \<and>
    node_recs b = [demo_rec 7 10, demo_rec 7 20, demo_rec 7 30]"
proof -
  have "tree_node demo_big_conf (bt_nodes demo_full) i" if "i \<in> set [2, 3]" for i
    using tree_node_levels [OF store_okD(1) [OF demo_full_ok(1)], of 0 i] that by simp
  then have n: "node_ok demo_big_conf (bt_nodes demo_full 2)" "node_ok demo_big_conf (bt_nodes demo_full 3)" by (simp_all add: tree_node_def)
  have "node_size demo_big_conf \<le> d_free_space (bt_nodes demo_full 2) + d_free_space (bt_nodes demo_full 3)"
    by simp (simp add: demo_full_def demo_tree_def demo_bnode_def Let_def)
  from merge_nodes_refines [OF n this] show ?thesis by auto
qed

text \<open>
  C6. Removal from a tree in which every node has its index record, when the nodes can be read and there is
  memory for the keys that are copied. A key that is not stored is refused with
  \<^verbatim>\<open>ENOENT\<close> and nothing changes. A record that is not the first of its leaf is removed, and nothing else: the
  leaves hold the other records in order, also when nodes are merged on any number of levels and the
  root gives way to its only child; no assertion fails, the nodes that are left belonged to the tree, and each has
  its index record.
\<close>

theorem btree_remove_correct:
  assumes "(valid, comp_fn (bt_conf t)) \<in> tree_kinds" "store_ok valid t lv" "env_ok (bt_conf t) (re_tree env)" "re_alloc env"
    "complete (bt_nodes t) lv" "valid key" "rs = level_recs (bt_nodes t) (hd lv)"
  shows "if \<forall>r \<in> set rs. comp_fn (bt_conf t) r key \<noteq> 0 then vdfs4_btree_remove env t key = Done (Some ENOENT, t)
    else \<exists>q < length rs. comp_fn (bt_conf t) (rs ! q) key = 0 \<and>
      (starts (bt_nodes t) (hd lv) q \<or>
       (\<exists>t' lv'. vdfs4_btree_remove env t key = Done (success, t') \<and> store_ok valid t' lv' \<and> complete (bt_nodes t') lv' \<and>
          bt_conf t' = bt_conf t \<and> set (concat lv') \<subseteq> set (concat lv) \<and> level_recs (bt_nodes t') (hd lv') = take q rs @ drop (Suc q) rs))"
proof (cases "\<forall>r \<in> set rs. comp_fn (bt_conf t) r key \<noteq> 0")
  case True
  then show ?thesis
    using tree_keys.remove_absent [OF tree_kinds_keys [OF assms(1)] store_okD(1) [OF assms(2)] assms(3) refl assms(6)] assms(7) by simp
next
  case False
  then obtain q where q: "q < length rs" "comp_fn (bt_conf t) (rs ! q) key = 0" by (auto simp: in_set_conv_nth)
  note r = tree_keys.remove_leaf_ok [OF tree_kinds_keys [OF assms(1)] assms(2) refl assms(3-6), of q, folded assms(7)]
  show ?thesis unfolding if_not_P [OF False] using q r by blast
qed

theorem btree_remove_correct_witness:
  "\<exists>t' lv'. vdfs4_btree_remove demo_remove_env demo_full (demo_rec 7 20) = Done (success, t') \<and> store_ok exttree_key_whole t' lv' \<and>
    level_recs (bt_nodes t') (hd lv') = [demo_rec 7 10, demo_rec 7 30] \<and> complete (bt_nodes t') lv'"
proof -
  let ?rs = "[demo_rec 7 10, demo_rec 7 20, demo_rec 7 30]"
  have k: "(exttree_key_whole, comp_fn (bt_conf demo_full)) \<in> tree_kinds" by (simp add: tree_kinds_def)
  have e: "env_ok (bt_conf demo_full) (re_tree demo_remove_env)" "re_alloc demo_remove_env" "?rs = level_recs (bt_nodes demo_full) (hd [[2, 3], [1]])"
    using demo_leaf_ok(3) by simp_all
  note p = btree_remove_correct [OF k demo_full_ok(1) e(1,2) demo_full_ok(2) demo_full_keys(2) e(3)]
  have q: "q = 1" if "q < length ?rs" "comp_fn (bt_conf demo_full) (?rs ! q) (demo_rec 7 20) = 0" for q
    using that demo_full_keys(6,17) by (auto simp: less_Suc_eq)
  have "\<not> (\<forall>r \<in> set ?rs. comp_fn (bt_conf demo_full) r (demo_rec 7 20) \<noteq> 0)" using demo_full_keys(16) by simp
  from p [unfolded if_not_P [OF this]] obtain q where
    r: "q < length ?rs" "comp_fn (bt_conf demo_full) (?rs ! q) (demo_rec 7 20) = 0" "starts (bt_nodes demo_full) [2, 3] q \<or>
      (\<exists>t' lv'. vdfs4_btree_remove demo_remove_env demo_full (demo_rec 7 20) = Done (success, t') \<and> store_ok exttree_key_whole t' lv' \<and>
        complete (bt_nodes t') lv' \<and> bt_conf t' = bt_conf demo_full \<and> set (concat lv') \<subseteq> set (concat [[2, 3], [1]]) \<and>
        level_recs (bt_nodes t') (hd lv') = take q ?rs @ drop (Suc q) ?rs)"
    unfolding list.sel by blast
  have "take 1 ?rs @ drop (Suc 1) ?rs = [demo_rec 7 10, demo_rec 7 30]" by simp
  then show ?thesis using r(3) demo_full_starts unfolding q [OF r(1,2)] by metis
qed

text \<open>
  C17. After the removal of a record that is not the first of its leaf, under the same conditions, every other record is found by its key as before, byte by byte, and a search for the removed
  key no longer gives a record with this key.
\<close>

theorem btree_remove_find:
  assumes "(valid, comp_fn (bt_conf t)) \<in> tree_kinds" "store_ok valid t lv" "env_ok (bt_conf t) (re_tree env)" "re_alloc env"
    "complete (bt_nodes t) lv" "rs = level_recs (bt_nodes t) (hd lv)" "q < length rs" "\<not> starts (bt_nodes t) (hd lv) q"
  shows "\<exists>t'. vdfs4_btree_remove env t (rs ! q) = Done (success, t') \<and>
    (\<forall>j < length rs. j \<noteq> q \<longrightarrow> (\<exists>i pos off. vdfs4_btree_find (re_tree env) t' (rs ! j) = Done (Inr (i, pos, off)) \<and>
      rec_at (bt_nodes t' i) off = rs ! j)) \<and>
    (\<forall>i pos off. vdfs4_btree_find (re_tree env) t' (rs ! q) = Done (Inr (i, pos, off)) \<longrightarrow>
      comp_fn (bt_conf t) (rec_at (bt_nodes t' i) off) (rs ! q) \<noteq> 0)"
proof -
  note k = tree_kinds_keys [OF assms(1)]
  note d = store_okD [OF assms(2)]
  have o: "ordered_recs valid (comp_fn (bt_conf t)) rs"
    using tree_okD(2) [OF d(1), of 0] tree_okD(1) [OF d(1)] assms(6) by (simp add: level_ok_def hd_conv_nth)
  have v: "valid (rs ! q)" using o assms(7) by (simp add: ordered_recs_def)
  have z: "comp_fn (bt_conf t) (rs ! q) (rs ! q) = 0" using key_order.cmp_refl [OF tree_keys.axioms(1) [OF k] v] .
  obtain t' lv' where r: "vdfs4_btree_remove env t (rs ! q) = Done (success, t')" "store_ok valid t' lv'" "bt_conf t' = bt_conf t"
      "level_recs (bt_nodes t') (hd lv') = take q rs @ drop (Suc q) rs"
    using tree_keys.remove_leaf_ok [OF k assms(2) refl assms(3-5) v, of q] assms(6-8) z by auto
  have e: "readable (re_tree env) lv'" "be_rec_info (re_tree env)" using env_readable [OF assms(3)] by blast+
  have c: "comp_fn (bt_conf t') = comp_fn (bt_conf t)" using r(3) by simp
  note left = tree_keys.find_stored [OF k store_okD(1) [OF r(2)] e(1) c e(2), unfolded r(4)]
  have other: "rs ! j \<in> set (take q rs @ drop (Suc q) rs)" if "j < length rs" "j \<noteq> q" for j
    using that set_without_others [of j rs q] by (simp add: without_def)
  have gone: "comp_fn (bt_conf t) (rec_at (bt_nodes t' i) off) (rs ! q) \<noteq> 0"
    if f: "vdfs4_btree_find (re_tree env) t' (rs ! q) = Done (Inr (i, pos, off))" for i pos off
  proof -
    obtain p where l: "located (bt_nodes t') (hd lv') (i, pos, off) p" "p < length (level_recs (bt_nodes t') (hd lv'))"
      using tree_keys.btree_find_ok [OF k store_okD(1) [OF r(2)] e(1) c v e(2)] f by (auto simp: found_at_def split: if_splits)
    have "rec_at (bt_nodes t' i) off = level_recs (bt_nodes t') (hd lv') ! p" using l(1) unfolding located_def prod.case by blast
    then have "rec_at (bt_nodes t' i) off \<in> set (level_recs (bt_nodes t') (hd lv'))" using nth_mem [OF l(2)] by (simp only:)
    then have "rec_at (bt_nodes t' i) off \<in> set (without q rs)" unfolding r(4) without_def .
    then show ?thesis using tree_keys.ordered_gone [OF k o assms(7)] by blast
  qed
  show ?thesis using r(1) left other gone by blast
qed

theorem btree_remove_find_witness:
  "\<exists>t' i pos off. vdfs4_btree_remove demo_remove_env demo_full (demo_rec 7 20) = Done (success, t') \<and>
    vdfs4_btree_find demo_env t' (demo_rec 7 30) = Done (Inr (i, pos, off)) \<and> rec_at (bt_nodes t' i) off = demo_rec 7 30"
proof -
  let ?rs = "[demo_rec 7 10, demo_rec 7 20, demo_rec 7 30]"
  have k: "(exttree_key_whole, comp_fn (bt_conf demo_full)) \<in> tree_kinds" by (simp add: tree_kinds_def)
  have e: "env_ok (bt_conf demo_full) (re_tree demo_remove_env)" "re_alloc demo_remove_env" "?rs = level_recs (bt_nodes demo_full) (hd [[2, 3], [1]])"
    using demo_leaf_ok(3) by simp_all
  have q: "1 < length ?rs" "\<not> starts (bt_nodes demo_full) (hd [[2, 3], [1]]) 1" "2 < length ?rs" "(2::nat) \<noteq> 1" "?rs ! 1 = demo_rec 7 20" "?rs ! 2 = demo_rec 7 30"
    using demo_full_starts by simp_all
  from btree_remove_find [OF k demo_full_ok(1) e(1,2) demo_full_ok(2) e(3) q(1,2)] obtain t' where
    t': "vdfs4_btree_remove demo_remove_env demo_full (demo_rec 7 20) = Done (success, t')"
      "\<forall>j < length ?rs. j \<noteq> 1 \<longrightarrow> (\<exists>i pos off. vdfs4_btree_find demo_env t' (?rs ! j) = Done (Inr (i, pos, off)) \<and> rec_at (bt_nodes t' i) off = ?rs ! j)"
    unfolding demo_full_simps q(5) by blast
  show ?thesis using t'(1) t'(2) [rule_format, OF q(3,4), unfolded q(6)] by blast
qed

end
