(* ===== verification/Vdfs_Inode_Record.thy ===== *)
theory Vdfs_Inode_Record
  imports Vdfs_Files
begin

text \<open>
  The record of an inode in the catalog: how \<^verbatim>\<open>vdfs4_fill_cattree_value\<close> and \<^verbatim>\<open>vdfs4_form_fork\<close> write it, byte by
  byte, how \<^verbatim>\<open>vdfs4_fill_inode\<close> and \<^verbatim>\<open>vdfs4_parse_fork\<close> read and check it (\<^verbatim>\<open>cattree-helper.c\<close>, \<^verbatim>\<open>extents.c\<close>,
  \<^verbatim>\<open>inode.c\<close>). An inode that is written and read again maps the same blocks; the checks of a fork do not
  catch everything.
\<close>

section \<open>State\<close>

datatype compr_type = VDFS4_COMPR_UNDEF | VDFS4_COMPR_NONE | VDFS4_COMPR_ZLIB | VDFS4_COMPR_LZO | VDFS4_COMPR_XZ
  | VDFS4_COMPR_LZMA | VDFS4_COMPR_GZIP | VDFS4_COMPR_ZSTD

text \<open>The union of an inode: a fork, the data itself, or the data compressed.\<close>

datatype inode_data = Fork_data vdfs4_fork_info | Inline_data bytes | Comp_inline_data compr_type int bytes

text \<open>
  The parts of the VFS inode and of \<^verbatim>\<open>struct vdfs4_inode_info\<close> that a record holds. \<open>in_comp_size\<close> is the size
  in \<^verbatim>\<open>fbc\<close>, absent without it; \<open>in_link\<close> says that \<^verbatim>\<open>i_link\<close> is set.
\<close>

record vfs_inode =
  in_flags :: nat
  in_immutable :: bool
  in_mode :: int
  in_uid :: int
  in_gid :: int
  in_nlink :: int
  in_generation :: int
  in_next_orphan_id :: int
  in_ctime :: "int \<times> int"
  in_mtime :: "int \<times> int"
  in_atime :: "int \<times> int"
  in_size :: int
  in_rdev :: int
  in_blocks :: int
  in_link :: bool
  in_comp_size :: "int option"
  in_data :: inode_data

definition VDFS4_IMMUTABLE :: nat where "VDFS4_IMMUTABLE = 2"
definition VDFS4_HARD_LINK :: nat where "VDFS4_HARD_LINK = 10"
definition VDFS4_COMPRESSED_FILE :: nat where "VDFS4_COMPRESSED_FILE = 13"
definition VDFS4_AUTH_FILE :: nat where "VDFS4_AUTH_FILE = 15"
definition VDFS4_INLINE_DATA_FILE :: nat where "VDFS4_INLINE_DATA_FILE = 19"
definition VDFS4_COMP_INLINE_DATA_FILE :: nat where "VDFS4_COMP_INLINE_DATA_FILE = 20"
definition VDFS4_INLINE_DATA_MAX_SIZE :: int where "VDFS4_INLINE_DATA_MAX_SIZE = 200"
definition VDFS4_COMP_INLINE_DATA_MAX_SIZE :: int where "VDFS4_COMP_INLINE_DATA_MAX_SIZE = 196"

definition is_vdfs4_inode_flag_set :: "vfs_inode \<Rightarrow> nat \<Rightarrow> bool" where
  "is_vdfs4_inode_flag_set ino f = bit (in_flags ino) f"

definition vdfs4_is_inline_data_inode :: "vfs_inode \<Rightarrow> bool" where
  "vdfs4_is_inline_data_inode ino = is_vdfs4_inode_flag_set ino VDFS4_INLINE_DATA_FILE"

definition vdfs4_is_comp_inline_data_inode :: "vfs_inode \<Rightarrow> bool" where
  "vdfs4_is_comp_inline_data_inode ino = is_vdfs4_inode_flag_set ino VDFS4_COMP_INLINE_DATA_FILE"

text \<open>The type of a file: the bits \<^verbatim>\<open>S_IFMT\<close> of the mode\<close>

definition s_ifmt :: "int \<Rightarrow> int" where "s_ifmt m = m div 4096 mod 16"

abbreviation S_ISLNK :: "int \<Rightarrow> bool" where "S_ISLNK m \<equiv> s_ifmt m = 10"
abbreviation S_ISREG :: "int \<Rightarrow> bool" where "S_ISREG m \<equiv> s_ifmt m = 8"
abbreviation S_ISDIR :: "int \<Rightarrow> bool" where "S_ISDIR m \<equiv> s_ifmt m = 4"
abbreviation S_ISDEV :: "int \<Rightarrow> bool" where "S_ISDEV m \<equiv> s_ifmt m = 2 \<or> s_ifmt m = 6"
abbreviation S_ISFIFO :: "int \<Rightarrow> bool" where "S_ISFIFO m \<equiv> s_ifmt m = 1"
abbreviation S_ISSOCK :: "int \<Rightarrow> bool" where "S_ISSOCK m \<equiv> s_ifmt m = 12"

text \<open>Signed numbers of 64 bits\<close>

definition s64 :: "int \<Rightarrow> int" where
  "s64 x = (if 9223372036854775808 \<le> u64 x then u64 x - 18446744073709551616 else u64 x)"

section \<open>Time and flags\<close>

definition vdfs4_encode_time :: "int \<times> int \<Rightarrow> bytes" where
  "vdfs4_encode_time ts = le_bytes 4 (u32 (fst ts)) @ le_bytes 4 (u32 (u64 (fst ts) div 4294967296)) @ le_bytes 4 (u32 (snd ts))"

definition vdfs4_decode_time :: "bytes \<Rightarrow> int \<Rightarrow> int \<times> int" where
  "vdfs4_decode_time m p = (s64 (le32_at m p + le32_at m (p + 4) * 4294967296), le32_at m (p + 8))"

definition vdfs4_get_vfs_inode_flags :: "vfs_inode \<Rightarrow> vfs_inode" where
  "vdfs4_get_vfs_inode_flags ino =
     ino\<lparr>in_flags := (if in_immutable ino then set_bit VDFS4_IMMUTABLE else id) (unset_bit VDFS4_IMMUTABLE (in_flags ino))\<rparr>"

definition vdfs4_set_vfs_inode_flags :: "vfs_inode \<Rightarrow> vfs_inode" where
  "vdfs4_set_vfs_inode_flags ino = ino\<lparr>in_immutable := bit (in_flags ino) VDFS4_IMMUTABLE\<rparr>"

section \<open>Writing\<close>

text \<open>A cell of the fork, and the fork of 232 bytes\<close>

definition iextent_bytes :: "vdfs4_extent_info \<Rightarrow> bytes" where
  "iextent_bytes e = le_bytes 8 (first_block e) @ le_bytes 8 (block_count e) @ le_bytes 8 (ex_iblock e)"

definition vdfs4_form_fork :: "vfs_inode \<Rightarrow> bytes outcome" where
  "vdfs4_form_fork ino =
     (if S_ISDEV (in_mode ino) then Done (le_bytes 8 (in_rdev ino) @ replicate 224 0)
      else case in_data ino of
             Fork_data ifork \<Rightarrow>
               let size = (if is_vdfs4_inode_flag_set ino VDFS4_COMPRESSED_FILE then in_comp_size ino else Some (in_size ino));
                   es = take (used_extents ifork) (extents ifork)
               in if size = None \<or> length (extents ifork) < used_extents ifork \<or> VDFS4_EXTENTS_COUNT_IN_FORK < used_extents ifork then Undef
                  else Done (le_bytes 8 (the size) @ le_bytes 8 (total_block_count ifork)
                         @ concat (map iextent_bytes es) @ replicate (216 - 24 * length es) 0)
           | _ \<Rightarrow> Undef)"

text \<open>
  \<^verbatim>\<open>vdfs4_fill_cattree_value\<close>: the common part of 80 bytes and, for files and links, the fork. Two bytes of
  padding and what follows the record keep their old contents. The flags of the inode change too.
\<close>

definition common_bytes :: "vfs_inode \<Rightarrow> bytes \<Rightarrow> bytes" where
  "common_bytes ino area =
     le_bytes 4 (u32 (int (in_flags ino))) @ le_bytes 4 (in_generation ino)
       @ le_bytes 8 (if S_ISDEV (in_mode ino) then in_rdev ino else in_size ino) @ le_bytes 8 (in_nlink ino)
       @ le_bytes 8 (in_next_orphan_id ino) @ le_bytes 2 (in_mode ino) @ mem_read area 34 2
       @ le_bytes 4 (in_uid ino) @ le_bytes 4 (in_gid ino)
       @ vdfs4_encode_time (in_ctime ino) @ vdfs4_encode_time (in_mtime ino) @ vdfs4_encode_time (in_atime ino)"

definition vdfs4_fill_cattree_value :: "vfs_inode \<Rightarrow> bytes \<Rightarrow> (bytes \<times> vfs_inode) outcome" where
  "vdfs4_fill_cattree_value ino area =
     (let ino1 = vdfs4_get_vfs_inode_flags ino; has_fork = (S_ISLNK (in_mode ino) \<or> S_ISREG (in_mode ino)) in
      if length area < (if has_fork then 312 else 80) then Undef
      else if has_fork
      then bind_outcome (vdfs4_form_fork ino1) (\<lambda>lfork. Done (common_bytes ino1 area @ lfork @ drop 312 area, ino1))
      else Done (common_bytes ino1 area @ drop 80 area, ino1))"

section \<open>Reading\<close>

definition vdfs4_fill_inode :: "vfs_inode \<Rightarrow> bytes \<Rightarrow> status \<times> vfs_inode" where
  "vdfs4_fill_inode ino val =
     (let ino1 = vdfs4_set_vfs_inode_flags (ino\<lparr>in_flags := unset_bit VDFS4_AUTH_FILE (nat (le32_at val 0))\<rparr>);
          ino2 = ino1\<lparr>in_mode := le16_at val 32, in_uid := le32_at val 36, in_gid := le32_at val 40,
                     in_nlink := u32 (le64_at val 16), in_generation := le32_at val 4, in_next_orphan_id := le64_at val 24,
                     in_mtime := vdfs4_decode_time val 56, in_atime := vdfs4_decode_time val 68,
                     in_ctime := vdfs4_decode_time val 44\<rparr>
      in if S_ISLNK (in_mode ino2) \<or> S_ISREG (in_mode ino2) then (success, ino2)
         else if S_ISDIR (in_mode ino2) then (success, ino2\<lparr>in_size := s64 (le64_at val 8)\<rparr>)
         else if S_ISDEV (in_mode ino2) then (success, ino2\<lparr>in_rdev := u32 (le64_at val 8)\<rparr>)
         else if S_ISFIFO (in_mode ino2) \<or> S_ISSOCK (in_mode ino2) then (success, ino2)
         else (Some EINVAL, ino2))"

definition vdfs4_get_comprtype_by_magic :: "bytes \<Rightarrow> compr_type option" where
  "vdfs4_get_comprtype_by_magic magic =
     (if magic = [76, 122, 111] then Some VDFS4_COMPR_LZO
      else if magic = [90, 105, 112] then Some VDFS4_COMPR_ZLIB
      else if magic = [71, 122, 112] then Some VDFS4_COMPR_GZIP
      else if magic = [90, 115, 116] then Some VDFS4_COMPR_ZSTD
      else None)"

definition iextent_at :: "bytes \<Rightarrow> nat \<Rightarrow> vdfs4_extent_info" where
  "iextent_at lfork i =
     \<lparr>first_block = le64_at lfork (16 + 24 * int i), ex_iblock = le64_at lfork (32 + 24 * int i),
      block_count = u32 (le64_at lfork (24 + 24 * int i))\<rparr>"

definition vdfs4_lfork_to_rfork :: "bytes \<Rightarrow> vdfs4_fork_info \<Rightarrow> vdfs4_fork_info" where
  "vdfs4_lfork_to_rfork lfork rfork =
     (let es = map (iextent_at lfork) [0 ..< VDFS4_EXTENTS_COUNT_IN_FORK]
      in rfork\<lparr>extents := es, used_extents := length (filter (\<lambda>e. first_block e \<noteq> 0) es)\<rparr>)"

text \<open>The size is signed, so a size of at least \<open>2\<^sup>6\<^sup>3\<close> is below the limit.\<close>

definition is_inline_data_fork_valid :: "bytes \<Rightarrow> bool" where
  "is_inline_data_fork_valid lfork \<longleftrightarrow> s64 (le64_at lfork 0) \<le> VDFS4_INLINE_DATA_MAX_SIZE"

definition is_comp_inline_data_fork_valid :: "bytes \<Rightarrow> bool" where
  "is_comp_inline_data_fork_valid lfork \<longleftrightarrow>
     u8_at lfork 19 \<le> VDFS4_COMP_INLINE_DATA_MAX_SIZE \<and> vdfs4_get_comprtype_by_magic (mem_read lfork 16 3) \<noteq> None"

definition is_regular_fork_valid :: "int \<Rightarrow> bytes \<Rightarrow> bool" where
  "is_regular_fork_valid volume_blocks lfork \<longleftrightarrow>
     (\<forall>i < VDFS4_EXTENTS_COUNT_IN_FORK. u64 (le64_at lfork (16 + 24 * int i) + le64_at lfork (24 + 24 * int i)) \<le> volume_blocks)"

definition is_fork_valid :: "int \<Rightarrow> vfs_inode \<Rightarrow> bytes \<Rightarrow> bool" where
  "is_fork_valid volume_blocks ino lfork \<longleftrightarrow> le64_at lfork 8 \<le> volume_blocks \<and>
     (if vdfs4_is_inline_data_inode ino then is_inline_data_fork_valid lfork
      else if vdfs4_is_comp_inline_data_inode ino then is_comp_inline_data_fork_valid lfork
      else is_regular_fork_valid volume_blocks lfork)"

definition vdfs4_fill_ifork :: "bytes \<Rightarrow> vfs_inode \<Rightarrow> vfs_inode" where
  "vdfs4_fill_ifork lfork ino =
     ino\<lparr>in_data := Fork_data (vdfs4_lfork_to_rfork lfork
       \<lparr>total_block_count = u32 (le64_at lfork 8), prealloc_block_count = 0, prealloc_start_block = 0, extents = [], used_extents = 0\<rparr>)\<rparr>"

text \<open>The copy leaves its buffer when the size is too large.\<close>

definition vdfs4_fill_inline_data :: "bytes \<Rightarrow> vfs_inode \<Rightarrow> vfs_inode outcome" where
  "vdfs4_fill_inline_data lfork ino =
     (let size = s64 (le64_at lfork 0) in
      if VDFS4_INLINE_DATA_MAX_SIZE < u64 size then Undef
      else Done (ino\<lparr>in_data := Inline_data (mem_read lfork 16 size @ replicate (nat (VDFS4_INLINE_DATA_MAX_SIZE - size)) 0),
                     in_link := (in_link ino \<or> S_ISLNK (in_mode ino) \<and> size < VDFS4_INLINE_DATA_MAX_SIZE)\<rparr>))"

definition vdfs4_fill_comp_inline_data :: "bytes \<Rightarrow> vfs_inode \<Rightarrow> vfs_inode outcome" where
  "vdfs4_fill_comp_inline_data lfork ino =
     (case vdfs4_get_comprtype_by_magic (mem_read lfork 16 3) of
        None \<Rightarrow> Undef
      | Some type \<Rightarrow> Done (ino\<lparr>in_data := Comp_inline_data type (u8_at lfork 19) (mem_read lfork 20 VDFS4_COMP_INLINE_DATA_MAX_SIZE)\<rparr>))"

text \<open>\<open>block_size_shift\<close> is at least 9, the size of a sector.\<close>

definition vdfs4_parse_fork :: "int \<Rightarrow> nat \<Rightarrow> vfs_inode \<Rightarrow> bytes \<Rightarrow> (status \<times> vfs_inode) outcome" where
  "vdfs4_parse_fork volume_blocks block_shift ino lfork =
     (if \<not> is_fork_valid volume_blocks ino lfork then Done (Some EINVAL, ino)
      else
        let size = s64 (le64_at lfork 0);
            ino1 = ino\<lparr>in_blocks := u64 (le64_at lfork 8 * 2 ^ (block_shift - 9))\<rparr>;
            ino2 = (if S_ISDEV (in_mode ino) then ino1\<lparr>in_rdev := u32 size, in_size := 0\<rparr> else ino1\<lparr>in_size := size\<rparr>)
        in if vdfs4_is_inline_data_inode ino2 then bind_outcome (vdfs4_fill_inline_data lfork ino2) (\<lambda>i. Done (success, i))
           else if vdfs4_is_comp_inline_data_inode ino2 then bind_outcome (vdfs4_fill_comp_inline_data lfork ino2) (\<lambda>i. Done (success, i))
           else Done (success, vdfs4_fill_ifork lfork ino2))"

text \<open>
  The part of \<^verbatim>\<open>vdfs4_get_inode_from_record\<close> that makes the inode from the value of a record, in a fresh
  inode \<open>ino\<close>; \<open>is_file\<close> says that it is the record of a file.
\<close>

definition inode_from_value :: "int \<Rightarrow> nat \<Rightarrow> bool \<Rightarrow> vfs_inode \<Rightarrow> bytes \<Rightarrow> (status \<times> vfs_inode) outcome" where
  "inode_from_value volume_blocks block_shift is_file ino val =
     (case vdfs4_fill_inode ino val of
        (Some e, ino1) \<Rightarrow> Done (Some e, ino1)
      | (None, ino1) \<Rightarrow>
          bind_outcome
            (if is_file \<and> (S_ISLNK (in_mode ino1) \<or> S_ISREG (in_mode ino1))
             then vdfs4_parse_fork volume_blocks block_shift ino1 (drop 80 val) else Done (success, ino1)) (\<lambda>(ret, ino2).
          Done (if ret \<noteq> success then (ret, ino2)
                else if 1 < in_nlink ino2 \<and> \<not> is_vdfs4_inode_flag_set ino2 VDFS4_HARD_LINK then (Some EFAULT, ino2)
                else (success, ino2))))"

section \<open>Bytes of a record\<close>

lemma mem_read_hd: "k = int (length a) \<Longrightarrow> mem_read (a @ b) 0 k = a"
  by (simp add: mem_read_def)

lemma le_value_small: "0 \<le> x \<Longrightarrow> x < 256 ^ n \<Longrightarrow> le_value (le_bytes n x) = x"
  by simp

lemma iextent_bytes_length [simp]: "length (iextent_bytes e) = 24"
  by (simp add: iextent_bytes_def)

lemma no_extent_bytes: "concat (replicate n (iextent_bytes no_extent)) = replicate (24 * n) 0"
proof -
  have "iextent_bytes no_extent = replicate 24 0" by (simp add: iextent_bytes_def no_extent_def) code_simp
  then show ?thesis by (induction n) (simp_all add: replicate_add)
qed

text \<open>Cells of the fork whose numbers fit their fields\<close>

definition cell_ok :: "vdfs4_extent_info \<Rightarrow> bool" where
  "cell_ok e \<longleftrightarrow> 0 \<le> first_block e \<and> first_block e < 18446744073709551616 \<and> 0 \<le> ex_iblock e \<and> ex_iblock e < 18446744073709551616 \<and>
     0 \<le> block_count e \<and> block_count e < 4294967296"

lemma cell_read:
  assumes "i < length es" "length h = 16" "0 \<le> q" "0 \<le> k" "q + k \<le> 24"
  shows "mem_read (h @ concat (map iextent_bytes es) @ r) (16 + 24 * int i + q) k = mem_read (iextent_bytes (es ! i)) q k"
  using assms(1)
proof (induction es arbitrary: i)
  case (Cons e es)
  show ?case
  proof (cases i)
    case 0
    then show ?thesis using assms mem_read_append1 [of q k "iextent_bytes e" "concat (map iextent_bytes es) @ r"] by (simp add: mem_read_append2)
  next
    case (Suc j)
    have "mem_read (h @ concat (map iextent_bytes (e # es)) @ r) (16 + 24 * int i + q) k =
        mem_read (h @ concat (map iextent_bytes es) @ r) (16 + 24 * int j + q) k"
      using assms Suc by (simp add: mem_read_append2)
    then show ?thesis using Cons Suc by simp
  qed
qed simp

lemma cell_fields:
  assumes "i < length es" "length h = 16" "cell_ok (es ! i)" "m = h @ concat (map iextent_bytes es) @ r"
  shows "le64_at m (16 + 24 * int i) = first_block (es ! i)" "le64_at m (24 + 24 * int i) = block_count (es ! i)" "iextent_at m i = es ! i"
proof -
  note c = cell_read [OF assms(1,2), where r = r, folded assms(4)]
  have f: "mem_read (iextent_bytes e) 0 8 = le_bytes 8 (first_block e)" "mem_read (iextent_bytes e) 8 8 = le_bytes 8 (block_count e)"
      "mem_read (iextent_bytes e) 16 8 = le_bytes 8 (ex_iblock e)" for e
    using mem_read_hd [of 8 "le_bytes 8 (ex_iblock e)" "[]"] by (simp_all add: iextent_bytes_def mem_read_append2 mem_read_hd)
  show b: "le64_at m (16 + 24 * int i) = first_block (es ! i)" "le64_at m (24 + 24 * int i) = block_count (es ! i)"
    using c [of 0 8] c [of 8 8] assms(3) by (simp_all add: f le64_at_def cell_ok_def add.commute add.left_commute)
  have "le64_at m (32 + 24 * int i) = ex_iblock (es ! i)" using c [of 16 8] assms(3) by (simp add: f le64_at_def cell_ok_def add.commute add.left_commute)
  then show "iextent_at m i = es ! i" using assms(3) b by (simp add: iextent_at_def cell_ok_def u32_id)
qed

text \<open>Time goes through a record unchanged.\<close>

definition time_ok :: "int \<times> int \<Rightarrow> bool" where
  "time_ok t \<longleftrightarrow> - 9223372036854775808 \<le> fst t \<and> fst t < 9223372036854775808 \<and> 0 \<le> snd t \<and> snd t < 4294967296"

lemma time_bytes_length [simp]: "length (vdfs4_encode_time t) = 12"
  by (simp add: vdfs4_encode_time_def)

lemma s64_id:
  assumes "- 9223372036854775808 \<le> x" "x < 9223372036854775808"
  shows "s64 (u64 x) = x" "s64 x = x"
proof -
  have "u64 x = (if 0 \<le> x then x else x + 18446744073709551616)"
    using assms mod_pos_pos_trivial [of "x + 18446744073709551616" 18446744073709551616] by (simp add: u64_def)
  then show "s64 x = x" using assms by (auto simp: s64_def)
  moreover have "u64 (u64 x) = u64 x" by (simp add: u64_def)
  ultimately show "s64 (u64 x) = x" by (simp add: s64_def split: if_splits)
qed

lemma time_roundtrip:
  assumes "time_ok t" "m = a @ vdfs4_encode_time t @ b" "p = int (length a)"
  shows "vdfs4_decode_time m p = t"
proof -
  have r: "le32_at m p = u32 (fst t)" "le32_at m (p + 4) = u32 (u64 (fst t) div 4294967296)" "le32_at m (p + 8) = u32 (snd t)"
    unfolding assms(2,3) le32_at_def vdfs4_encode_time_def by (simp_all add: mem_read_append2 mem_read_hd)
  have "u32 (u64 (fst t) div 4294967296) = u64 (fst t) div 4294967296"
    using u64_less [of "fst t"] u64_nonneg [of "fst t"] by (intro u32_id) linarith+
  moreover have "u32 (fst t) = u64 (fst t) mod 4294967296" by (simp add: u32_def u64_def mod_mod_cancel)
  ultimately have "u32 (fst t) + u32 (u64 (fst t) div 4294967296) * 4294967296 = u64 (fst t)" by simp
  moreover have "s64 (u64 (fst t)) = fst t" "u32 (snd t) = snd t"
    using assms(1) s64_id [of "fst t"] by (auto simp: time_ok_def u32_id)
  ultimately show ?thesis by (simp add: vdfs4_decode_time_def r)
qed

section \<open>Round trip\<close>

text \<open>The numbers of an inode fit their fields, and its flags need nothing that a record does not hold.\<close>

definition inode_ok :: "vfs_inode \<Rightarrow> bool" where
  "inode_ok ino \<longleftrightarrow> in_flags ino < 4294967296 \<and> \<not> bit (in_flags ino) VDFS4_AUTH_FILE \<and> 0 \<le> in_mode ino \<and> in_mode ino < 65536 \<and>
     0 \<le> in_uid ino \<and> in_uid ino < 4294967296 \<and> 0 \<le> in_gid ino \<and> in_gid ino < 4294967296 \<and>
     0 \<le> in_nlink ino \<and> in_nlink ino < 4294967296 \<and> (1 < in_nlink ino \<longrightarrow> bit (in_flags ino) VDFS4_HARD_LINK) \<and>
     0 \<le> in_generation ino \<and> in_generation ino < 4294967296 \<and> 0 \<le> in_next_orphan_id ino \<and> in_next_orphan_id ino < 18446744073709551616 \<and>
     time_ok (in_ctime ino) \<and> time_ok (in_mtime ino) \<and> time_ok (in_atime ino) \<and>
     0 \<le> in_size ino \<and> in_size ino < 9223372036854775808 \<and> 0 \<le> in_rdev ino \<and> in_rdev ino < 4294967296"

definition stored_part :: "vfs_inode \<Rightarrow> nat \<times> bool \<times> int \<times> int \<times> int \<times> int \<times> int \<times> int \<times> (int \<times> int) \<times> (int \<times> int) \<times> (int \<times> int)" where
  "stored_part ino = (in_flags ino, in_immutable ino, in_mode ino, in_uid ino, in_gid ino, in_nlink ino, in_generation ino,
     in_next_orphan_id ino, in_ctime ino, in_mtime ino, in_atime ino)"

lemma common_read:
  fixes r :: bytes
  assumes "inode_ok ino" "80 \<le> length area"
  defines "m \<equiv> common_bytes ino area @ r"
  shows "length (common_bytes ino area) = 80" "le32_at m 0 = int (in_flags ino)" "le32_at m 4 = in_generation ino"
    "le64_at m 8 = (if S_ISDEV (in_mode ino) then in_rdev ino else in_size ino)" "le64_at m 16 = in_nlink ino"
    "le64_at m 24 = in_next_orphan_id ino" "le16_at m 32 = in_mode ino" "le32_at m 36 = in_uid ino" "le32_at m 40 = in_gid ino"
    "vdfs4_decode_time m 44 = in_ctime ino" "vdfs4_decode_time m 56 = in_mtime ino" "vdfs4_decode_time m 68 = in_atime ino"
proof -
  have pad: "length (mem_read area 34 2) = 2" using assms(2) by (simp add: mem_read_def)
  then show "length (common_bytes ino area) = 80" by (simp add: common_bytes_def)
  note d = m_def common_bytes_def append_assoc and rd = mem_read_append2 mem_read_hd pad
  have fl: "u32 (int (in_flags ino)) = int (in_flags ino)" using assms(1) by (simp add: inode_ok_def u32_id)
  show "le32_at m 0 = int (in_flags ino)" "le32_at m 4 = in_generation ino"
    "le64_at m 8 = (if S_ISDEV (in_mode ino) then in_rdev ino else in_size ino)" "le64_at m 16 = in_nlink ino"
    "le64_at m 24 = in_next_orphan_id ino" "le16_at m 32 = in_mode ino" "le32_at m 36 = in_uid ino" "le32_at m 40 = in_gid ino"
    using assms(1) fl unfolding le32_at_def le64_at_def le16_at_def d by (simp_all add: rd inode_ok_def del: append_assoc)
  let ?t = "vdfs4_encode_time (in_ctime ino)" and ?u = "vdfs4_encode_time (in_mtime ino)" and ?v = "vdfs4_encode_time (in_atime ino)"
  define h where "h = le_bytes 4 (u32 (int (in_flags ino))) @ le_bytes 4 (in_generation ino)
       @ le_bytes 8 (if S_ISDEV (in_mode ino) then in_rdev ino else in_size ino) @ le_bytes 8 (in_nlink ino)
       @ le_bytes 8 (in_next_orphan_id ino) @ le_bytes 2 (in_mode ino) @ mem_read area 34 2
       @ le_bytes 4 (in_uid ino) @ le_bytes 4 (in_gid ino)"
  have h: "m = h @ ?t @ ?u @ ?v @ r" "length h = 44" using pad unfolding d h_def by simp_all
  have t: "time_ok (in_ctime ino)" "time_ok (in_mtime ino)" "time_ok (in_atime ino)" using assms(1) by (simp_all add: inode_ok_def)
  show "vdfs4_decode_time m 44 = in_ctime ino" using time_roundtrip [OF t(1), of m h "?u @ ?v @ r"] h by simp
  show "vdfs4_decode_time m 56 = in_mtime ino" using time_roundtrip [OF t(2), of m "h @ ?t" "?v @ r"] h by simp
  show "vdfs4_decode_time m 68 = in_atime ino" using time_roundtrip [OF t(3), of m "h @ ?t @ ?u" r] h by simp
qed

lemma get_flags_ok:
  assumes "inode_ok ino"
  shows "inode_ok (vdfs4_get_vfs_inode_flags ino)" "bit (in_flags (vdfs4_get_vfs_inode_flags ino)) VDFS4_IMMUTABLE = in_immutable ino"
    "k \<noteq> VDFS4_IMMUTABLE \<Longrightarrow> bit (in_flags (vdfs4_get_vfs_inode_flags ino)) k = bit (in_flags ino) k"
proof -
  let ?f = "in_flags (vdfs4_get_vfs_inode_flags ino)"
  show b: "bit ?f VDFS4_IMMUTABLE = in_immutable ino" by (simp add: vdfs4_get_vfs_inode_flags_def bit_unset_bit_iff bit_set_bit_iff)
  show o: "k \<noteq> VDFS4_IMMUTABLE \<Longrightarrow> bit ?f k = bit (in_flags ino) k" for k
    by (auto simp: vdfs4_get_vfs_inode_flags_def bit_unset_bit_iff bit_set_bit_iff)
  have "take_bit 32 (in_flags ino) = in_flags ino" using assms by (simp add: inode_ok_def take_bit_nat_eq_self)
  then have "\<not> bit (in_flags ino) k" if "32 \<le> k" for k using that bit_take_bit_iff [of 32 "in_flags ino" k] by simp
  then have "n < 32" if "bit ?f n" for n using that o [of n] by (cases "n = VDFS4_IMMUTABLE") (auto simp: VDFS4_IMMUTABLE_def not_less [symmetric])
  then have "take_bit 32 ?f = ?f" by (auto simp: bit_eq_iff bit_take_bit_iff)
  then have "?f < 4294967296" using take_bit_nat_less_exp [of 32 ?f] by simp
  moreover have "bit ?f VDFS4_AUTH_FILE = bit (in_flags ino) VDFS4_AUTH_FILE" "bit ?f VDFS4_HARD_LINK = bit (in_flags ino) VDFS4_HARD_LINK"
    using o by (simp_all add: VDFS4_AUTH_FILE_def VDFS4_HARD_LINK_def VDFS4_IMMUTABLE_def)
  ultimately show "inode_ok (vdfs4_get_vfs_inode_flags ino)"
    using assms by (simp add: inode_ok_def) (simp add: vdfs4_get_vfs_inode_flags_def)
qed

text \<open>The common part\<close>

lemma fill_inode_ok:
  assumes "inode_ok ino" "80 \<le> length area" "s_ifmt (in_mode ino) \<in> {10, 8, 4, 2, 6, 1, 12}" "bit (in_flags ino) VDFS4_IMMUTABLE = in_immutable ino"
  shows "\<exists>ino'. vdfs4_fill_inode i0 (common_bytes ino area @ r) = (success, ino') \<and> stored_part ino' = stored_part ino \<and>
    in_link ino' = in_link i0 \<and> in_comp_size ino' = in_comp_size i0 \<and>
    (S_ISDIR (in_mode ino) \<longrightarrow> in_size ino' = in_size ino) \<and> (S_ISDEV (in_mode ino) \<longrightarrow> in_rdev ino' = in_rdev ino)"
proof -
  note c = common_read(2-12) [OF assms(1,2), of r]
  have "unset_bit VDFS4_AUTH_FILE (in_flags ino) = in_flags ino" using assms(1) by (intro bit_eqI) (auto simp: bit_unset_bit_iff inode_ok_def)
  moreover have "u32 (in_nlink ino) = in_nlink ino" "s64 (in_size ino) = in_size ino" "u32 (in_rdev ino) = in_rdev ino"
    using assms(1) s64_id(2) [of "in_size ino"] by (simp_all add: inode_ok_def u32_id)
  ultimately show ?thesis
    using assms(3,4) unfolding vdfs4_fill_inode_def c Let_def vdfs4_set_vfs_inode_flags_def
    by (auto simp: stored_part_def)
qed

text \<open>The fork\<close>

definition stored_fork :: "vdfs4_fork_info \<Rightarrow> vdfs4_fork_info" where
  "stored_fork f = f\<lparr>prealloc_block_count := 0, prealloc_start_block := 0,
     extents := take (used_extents f) (extents f) @ replicate (VDFS4_EXTENTS_COUNT_IN_FORK - used_extents f) no_extent\<rparr>"

definition fork_in_volume :: "int \<Rightarrow> vdfs4_fork_info \<Rightarrow> bool" where
  "fork_in_volume volume_blocks f \<longleftrightarrow> 0 \<le> total_block_count f \<and> total_block_count f < 4294967296 \<and> total_block_count f \<le> volume_blocks \<and>
     fork_shape f (take (used_extents f) (extents f)) \<and>
     (\<forall>e \<in> set (take (used_extents f) (extents f)). iext_ok e \<and> first_block e + block_count e \<le> volume_blocks)"

lemma form_fork_ok:
  assumes "in_data ino = Fork_data f" "fork_in_volume vol f" "\<not> S_ISDEV (in_mode ino)" "\<not> is_vdfs4_inode_flag_set ino VDFS4_COMPRESSED_FILE"
  shows "vdfs4_form_fork ino = Done (le_bytes 8 (in_size ino) @ le_bytes 8 (total_block_count f) @ concat (map iextent_bytes (extents (stored_fork f))))"
    "length (extents (stored_fork f)) = VDFS4_EXTENTS_COUNT_IN_FORK"
    "\<forall>e \<in> set (extents (stored_fork f)). cell_ok e \<and> first_block e + block_count e \<le> vol"
    "length (filter (\<lambda>e. first_block e \<noteq> 0) (extents (stored_fork f))) = used_extents f"
proof -
  let ?es = "take (used_extents f) (extents f)"
  have sh: "fork_shape f ?es" "\<forall>e \<in> set ?es. iext_ok e \<and> first_block e + block_count e \<le> vol" "0 \<le> vol"
    using assms(2) by (auto simp: fork_in_volume_def)
  note d = fork_shapeD [OF sh(1)]
  have l: "length ?es = used_extents f" "used_extents f \<le> VDFS4_EXTENTS_COUNT_IN_FORK" "length (extents f) = VDFS4_EXTENTS_COUNT_IN_FORK" using d by simp_all
  show "length (extents (stored_fork f)) = VDFS4_EXTENTS_COUNT_IN_FORK" using l by (simp add: stored_fork_def)
  show "\<forall>e \<in> set (extents (stored_fork f)). cell_ok e \<and> first_block e + block_count e \<le> vol"
    using sh(2,3) by (auto simp: stored_fork_def cell_ok_def iext_ok_def no_extent_def)
  have "filter (\<lambda>e. first_block e \<noteq> 0) ?es = ?es" using sh(2) by (auto simp: filter_id_conv iext_ok_def)
  then show "length (filter (\<lambda>e. first_block e \<noteq> 0) (extents (stored_fork f))) = used_extents f"
    using l by (simp add: stored_fork_def no_extent_def)
  have "216 - 24 * used_extents f = 24 * (VDFS4_EXTENTS_COUNT_IN_FORK - used_extents f)" by (simp add: VDFS4_EXTENTS_COUNT_IN_FORK_def)
  then show "vdfs4_form_fork ino = Done (le_bytes 8 (in_size ino) @ le_bytes 8 (total_block_count f) @ concat (map iextent_bytes (extents (stored_fork f))))"
    using assms l by (simp add: vdfs4_form_fork_def Let_def stored_fork_def no_extent_bytes)
qed

lemma parse_fork_ok:
  assumes f: "fork_in_volume vol f" and s: "0 \<le> sz" "sz < 9223372036854775808" and v: "vol < 18446744073709551616"
    and t: "\<not> S_ISDEV (in_mode ino)" "\<not> vdfs4_is_inline_data_inode ino" "\<not> vdfs4_is_comp_inline_data_inode ino"
    and l: "lfork = le_bytes 8 sz @ le_bytes 8 (total_block_count f) @ concat (map iextent_bytes (extents (stored_fork f))) @ r"
  shows "vdfs4_parse_fork vol sh ino lfork =
    Done (success, ino\<lparr>in_blocks := u64 (total_block_count f * 2 ^ (sh - 9)), in_size := sz, in_data := Fork_data (stored_fork f)\<rparr>)"
proof -
  let ?es = "extents (stored_fork f)"
  have tot: "0 \<le> total_block_count f" "total_block_count f < 4294967296" "total_block_count f \<le> vol" using f by (simp_all add: fork_in_volume_def)
  have es: "length ?es = VDFS4_EXTENTS_COUNT_IN_FORK" "\<forall>e \<in> set ?es. cell_ok e \<and> first_block e + block_count e \<le> vol"
      "length (filter (\<lambda>e. first_block e \<noteq> 0) ?es) = used_extents f"
    using form_fork_ok(2-4) [of "ino\<lparr>in_data := Fork_data f, in_mode := 0, in_flags := 0\<rparr>" f vol] f
    by (simp_all add: s_ifmt_def is_vdfs4_inode_flag_set_def)
  have hd: "le64_at lfork 0 = sz" "le64_at lfork 8 = total_block_count f"
    using s tot unfolding l le64_at_def by (simp_all add: mem_read_append2 mem_read_hd)
  note cf = cell_fields [of _ ?es "le_bytes 8 sz @ le_bytes 8 (total_block_count f)" lfork r]
  have cell: "le64_at lfork (16 + 24 * int i) = first_block (?es ! i)" "le64_at lfork (24 + 24 * int i) = block_count (?es ! i)"
      "iextent_at lfork i = ?es ! i" "?es ! i \<in> set ?es" if "i < VDFS4_EXTENTS_COUNT_IN_FORK" for i
    using cf [of i] that es(1,2) l by simp_all
  have "map (iextent_at lfork) [0 ..< VDFS4_EXTENTS_COUNT_IN_FORK] = ?es" using cell(3) es(1) by (intro nth_equalityI) simp_all
  then have rf: "vdfs4_fill_ifork lfork i = i\<lparr>in_data := Fork_data (stored_fork f)\<rparr>" for i
    using es(3) tot unfolding vdfs4_fill_ifork_def vdfs4_lfork_to_rfork_def Let_def hd by (simp add: u32_id) (simp add: stored_fork_def)
  have "u64 (le64_at lfork (16 + 24 * int i) + le64_at lfork (24 + 24 * int i)) \<le> vol" if i: "i < VDFS4_EXTENTS_COUNT_IN_FORK" for i
  proof -
    have "0 \<le> first_block (?es ! i) + block_count (?es ! i)" "first_block (?es ! i) + block_count (?es ! i) \<le> vol"
      using es(2) cell(4) [OF i] by (auto simp: cell_ok_def)
    then show ?thesis using v by (simp add: cell [OF i] u64_id)
  qed
  then have "is_fork_valid vol ino lfork" using tot t by (simp add: is_fork_valid_def hd is_regular_fork_valid_def)
  then show ?thesis using t s s64_id(2) [of sz] by (simp add: vdfs4_parse_fork_def Let_def hd rf vdfs4_is_inline_data_inode_def vdfs4_is_comp_inline_data_inode_def is_vdfs4_inode_flag_set_def)
qed

section \<open>Properties\<close>

text \<open>The blocks of a file do not depend on the unused cells of its fork.\<close>

lemma stored_fork_list:
  assumes "fork_in_volume vol (fork ino)"
  shows "fork_list (ino\<lparr>fork := stored_fork (fork ino)\<rparr>) = fork_list ino" "total_block_count (stored_fork f) = total_block_count f"
    "used_extents (stored_fork f) = used_extents f"
proof -
  let ?f = "fork ino"
  have "fork_shape ?f (take (used_extents ?f) (extents ?f))" using assms by (simp add: fork_in_volume_def)
  note d = fork_shapeD [OF this]
  then show "fork_list (ino\<lparr>fork := stored_fork ?f\<rparr>) = fork_list ino" by (simp add: fork_list_def stored_fork_def)
qed (simp_all add: stored_fork_def)

lemma stored_fork_map:
  assumes "fork_in_volume vol (fork ino)"
  shows "file_map (ino\<lparr>fork := stored_fork (fork ino)\<rparr>) lv = file_map ino lv"
  unfolding file_map_def file_extents_def stored_fork_list(1) [OF assms] by (simp add: overflow_def)

text \<open>
  C13. An inode that is written into its catalog record and read again is the same: flags, mode, owner,
  link count, generation, orphan link, times before and after 1970 with their nanoseconds, the size of files,
  links and directories, the number of a device; a file gets its blocks back, extent by extent. Writing
  changes nothing behind the record, and the checks of the reader accept what the writer wrote.
\<close>

theorem inode_roundtrip:
  assumes ok: "inode_ok ino" and kind: "s_ifmt (in_mode ino) \<in> {10, 8, 4, 2, 6, 1, 12}" and area: "312 \<le> length area"
    and vol: "vol < 18446744073709551616" and fl: "is_file \<longleftrightarrow> S_ISLNK (in_mode ino) \<or> S_ISREG (in_mode ino)"
    and data: "is_file \<Longrightarrow> in_data ino = Fork_data f \<and> fork_in_volume vol f \<and> \<not> is_vdfs4_inode_flag_set ino VDFS4_COMPRESSED_FILE \<and>
      \<not> vdfs4_is_inline_data_inode ino \<and> \<not> vdfs4_is_comp_inline_data_inode ino"
  shows "\<exists>val ino1 ino'. vdfs4_fill_cattree_value ino area = Done (val, ino1) \<and> length val = length area \<and> drop 312 val = drop 312 area \<and>
    inode_from_value vol block_shift is_file fresh val = Done (success, ino') \<and> stored_part ino' = stored_part ino1 \<and>
    ino1 = ino\<lparr>in_flags := in_flags ino1\<rparr> \<and> (\<forall>k. k \<noteq> VDFS4_IMMUTABLE \<longrightarrow> bit (in_flags ino1) k = bit (in_flags ino) k) \<and>
    (is_file \<or> S_ISDIR (in_mode ino) \<longrightarrow> in_size ino' = in_size ino) \<and> (S_ISDEV (in_mode ino) \<longrightarrow> in_rdev ino' = in_rdev ino) \<and>
    (is_file \<longrightarrow> in_data ino' = Fork_data (stored_fork f) \<and> in_blocks ino' = u64 (total_block_count f * 2 ^ (block_shift - 9)) \<and>
      (\<forall>i lv. fork i = f \<longrightarrow> file_map (i\<lparr>fork := stored_fork f\<rparr>) lv = file_map i lv))"
proof -
  define ino1 where "ino1 = vdfs4_get_vfs_inode_flags ino"
  have i1: "inode_ok ino1" "bit (in_flags ino1) VDFS4_IMMUTABLE = in_immutable ino1" "\<And>k. k \<noteq> VDFS4_IMMUTABLE \<Longrightarrow> bit (in_flags ino1) k = bit (in_flags ino) k"
      "ino1 = ino\<lparr>in_flags := in_flags ino1\<rparr>" "in_mode ino1 = in_mode ino"
    using get_flags_ok [OF ok] by (simp_all add: ino1_def) (simp_all add: vdfs4_get_vfs_inode_flags_def)
  have l80: "80 \<le> length area" "s_ifmt (in_mode ino1) \<in> {10, 8, 4, 2, 6, 1, 12}" using area kind i1(5) by simp_all
  define r where "r = (if is_file then le_bytes 8 (in_size ino) @ le_bytes 8 (total_block_count f) @ concat (map iextent_bytes (extents (stored_fork f))) @ drop 312 area
    else drop 80 area)"
  define val where "val = common_bytes ino1 area @ r"
  obtain ino2 where i2: "vdfs4_fill_inode fresh val = (success, ino2)" "stored_part ino2 = stored_part ino1"
      "S_ISDIR (in_mode ino1) \<longrightarrow> in_size ino2 = in_size ino1" "S_ISDEV (in_mode ino1) \<longrightarrow> in_rdev ino2 = in_rdev ino1"
    using fill_inode_ok [OF i1(1) l80 i1(2), of fresh r] unfolding val_def by blast
  have st: "in_flags ino2 = in_flags ino1" "in_mode ino2 = in_mode ino" "in_nlink ino2 = in_nlink ino1" using i2(2) i1(5) by (simp_all add: stored_part_def)
  have nl: "\<not> (1 < in_nlink ino2 \<and> \<not> is_vdfs4_inode_flag_set i VDFS4_HARD_LINK)" if "in_flags i = in_flags ino2" for i
    using i1(1) st that by (simp add: inode_ok_def is_vdfs4_inode_flag_set_def)
  have len: "length (common_bytes ino1 area) = 80" by (rule common_read(1) [OF i1(1) l80(1)])
  have io: "in_size ino1 = in_size ino" "in_rdev ino1 = in_rdev ino" "in_data ino1 = in_data ino" by (simp_all add: ino1_def vdfs4_get_vfs_inode_flags_def)
  show ?thesis
  proof (cases is_file)
    case False
    have w: "vdfs4_fill_cattree_value ino area = Done (val, ino1)"
      using False fl area by (simp add: vdfs4_fill_cattree_value_def Let_def ino1_def [symmetric] val_def r_def)
    have "inode_from_value vol block_shift is_file fresh val = Done (success, ino2)"
      using False nl [of ino2] by (simp add: inode_from_value_def i2(1))
    moreover have "length val = length area" "drop 312 val = drop 312 area" using False len area by (simp_all add: val_def r_def)
    ultimately show ?thesis
      using False w i1 i2 io by (intro exI [of _ val] exI [of _ ino1] exI [of _ ino2]) auto
  next
    case True
    note d = data [OF True]
    have fs: "is_vdfs4_inode_flag_set i k = is_vdfs4_inode_flag_set ino k" if "in_flags i = in_flags ino1" "k \<noteq> VDFS4_IMMUTABLE" for i k
      using i1(3) [OF that(2)] that(1) by (simp add: is_vdfs4_inode_flag_set_def)
    have nd: "\<not> S_ISDEV (in_mode ino)" using True fl by auto
    have fv: "fork_in_volume vol f" "in_data ino1 = Fork_data f" "\<not> is_vdfs4_inode_flag_set ino1 VDFS4_COMPRESSED_FILE"
        "\<not> vdfs4_is_inline_data_inode ino2" "\<not> vdfs4_is_comp_inline_data_inode ino2"
      using d io(3) fs [of ino1] fs [of ino2] st(1)
      by (simp_all add: vdfs4_is_inline_data_inode_def vdfs4_is_comp_inline_data_inode_def VDFS4_COMPRESSED_FILE_def VDFS4_IMMUTABLE_def
          VDFS4_INLINE_DATA_FILE_def VDFS4_COMP_INLINE_DATA_FILE_def)
    note ff = form_fork_ok [OF fv(2,1) _ fv(3)]
    have w: "vdfs4_fill_cattree_value ino area = Done (val, ino1)"
      using True fl area ff(1) nd i1(5) io(1) by (auto simp: vdfs4_fill_cattree_value_def Let_def ino1_def [symmetric] val_def r_def)
    have sz: "0 \<le> in_size ino" "in_size ino < 9223372036854775808" using ok by (simp_all add: inode_ok_def)
    have "drop 80 val = r" using len by (simp add: val_def)
    then have p: "vdfs4_parse_fork vol block_shift ino2 (drop 80 val) = Done (success,
        ino2\<lparr>in_blocks := u64 (total_block_count f * 2 ^ (block_shift - 9)), in_size := in_size ino, in_data := Fork_data (stored_fork f)\<rparr>)"
      using parse_fork_ok [OF fv(1) sz vol _ fv(4,5), of _ "drop 312 area" block_shift] True nd st(2) by (simp add: r_def)
    let ?i = "ino2\<lparr>in_blocks := u64 (total_block_count f * 2 ^ (block_shift - 9)), in_size := in_size ino, in_data := Fork_data (stored_fork f)\<rparr>"
    have rd: "inode_from_value vol block_shift is_file fresh val = Done (success, ?i)"
      using True fl nl [of ?i] p st(2) by (auto simp: inode_from_value_def i2(1))
    have "length (concat (map iextent_bytes (extents (stored_fork f)))) = 216"
      using ff(2) nd i1(5) by (simp add: length_concat comp_def sum_list_const_mult VDFS4_EXTENTS_COUNT_IN_FORK_def sum_list_triv)
    then have "length val = length area" "drop 312 val = drop 312 area" using True len area by (simp_all add: val_def r_def)
    moreover have "stored_part ?i = stored_part ino1" using i2(2) by (simp add: stored_part_def)
    moreover have "\<forall>i lv. fork i = f \<longrightarrow> file_map (i\<lparr>fork := stored_fork f\<rparr>) lv = file_map i lv" using stored_fork_map [of vol] fv(1) by blast
    ultimately show ?thesis using w rd i1(3,4) nd by (intro exI [of _ val] exI [of _ ino1] exI [of _ ?i]) auto
  qed
qed

definition demo_file_fork :: vdfs4_fork_info where
  "demo_file_fork = \<lparr>total_block_count = 3, prealloc_block_count = 0, prealloc_start_block = 0,
     extents = [\<lparr>first_block = 11, ex_iblock = 0, block_count = 2\<rparr>, \<lparr>first_block = 55, ex_iblock = 5, block_count = 1\<rparr>] @ replicate 7 no_extent,
     used_extents = 2\<rparr>"

definition demo_vfs_inode :: vfs_inode where
  "demo_vfs_inode = \<lparr>in_flags = 0, in_immutable = True, in_mode = 33188, in_uid = 7, in_gid = 8, in_nlink = 1, in_generation = 3,
     in_next_orphan_id = 0, in_ctime = (- 5, 6), in_mtime = (1700000000, 999), in_atime = (5000000000, 0), in_size = 12000, in_rdev = 0,
     in_blocks = 24, in_link = False, in_comp_size = None, in_data = Fork_data demo_file_fork\<rparr>"

theorem inode_roundtrip_witness:
  "\<exists>val ino1 ino'. vdfs4_fill_cattree_value demo_vfs_inode (replicate 320 1) = Done (val, ino1) \<and> length val = 320 \<and>
    inode_from_value 1000 12 True demo_vfs_inode val = Done (success, ino') \<and> in_ctime ino' = (- 5, 6) \<and> in_immutable ino' \<and>
    in_size ino' = 12000 \<and> in_data ino' = Fork_data demo_file_fork"
proof -
  have o: "inode_ok demo_vfs_inode" by (simp add: inode_ok_def demo_vfs_inode_def time_ok_def)
  have s: "fork_shape demo_file_fork (take 2 (extents demo_file_fork))"
    by (simp add: fork_shape_def demo_file_fork_def VDFS4_EXTENTS_COUNT_IN_FORK_def no_extent_def)
  have f: "fork_in_volume 1000 demo_file_fork" using s by (simp add: fork_in_volume_def) (simp add: demo_file_fork_def iext_ok_def)
  have "s_ifmt (in_mode demo_vfs_inode) = 8" by (simp add: s_ifmt_def demo_vfs_inode_def)
  moreover have "in_data demo_vfs_inode = Fork_data demo_file_fork" "\<not> is_vdfs4_inode_flag_set demo_vfs_inode k" for k
    by (simp_all add: demo_vfs_inode_def is_vdfs4_inode_flag_set_def)
  moreover have "stored_fork demo_file_fork = demo_file_fork" by (simp add: stored_fork_def demo_file_fork_def VDFS4_EXTENTS_COUNT_IN_FORK_def)
  moreover have "stored_part ino' = stored_part ino1 \<Longrightarrow> ino1 = demo_vfs_inode\<lparr>in_flags := n\<rparr> \<Longrightarrow>
      in_ctime ino' = (- 5, 6) \<and> in_immutable ino'" for ino' ino1 n by (simp add: stored_part_def demo_vfs_inode_def)
  moreover have "in_size demo_vfs_inode = 12000" by (simp add: demo_vfs_inode_def)
  ultimately show ?thesis
    using inode_roundtrip [OF o, of "replicate 320 1" 1000 True demo_file_fork 12 demo_vfs_inode] f
    by (simp add: vdfs4_is_inline_data_inode_def vdfs4_is_comp_inline_data_inode_def) metis
qed

text \<open>
  C39. Data inside the inode: a record with at most 200 bytes of data is read as these bytes, padded with
  zeros, and a short link gets its fast path; larger sizes are refused. But the size is compared as a
  signed number, so a record with a size of at least \<open>2\<^sup>6\<^sup>3\<close> passes the check, and the copy leaves
  the inode.
\<close>

theorem parse_inline_fork:
  assumes "vdfs4_is_inline_data_inode ino" "\<not> S_ISDEV (in_mode ino)" "le64_at lfork 8 \<le> vol" "0 \<le> le64_at lfork 0" "le64_at lfork 0 < 18446744073709551616"
    "232 \<le> length lfork"
  shows "if 9223372036854775808 \<le> le64_at lfork 0 then vdfs4_parse_fork vol block_shift ino lfork = Undef
    else if 200 < le64_at lfork 0 then vdfs4_parse_fork vol block_shift ino lfork = Done (Some EINVAL, ino)
    else \<exists>ino' d. vdfs4_parse_fork vol block_shift ino lfork = Done (success, ino') \<and> in_data ino' = Inline_data d \<and> length d = 200 \<and>
      take (nat (le64_at lfork 0)) d = take (nat (le64_at lfork 0)) (drop 16 lfork) \<and> (\<forall>i < 200. le64_at lfork 0 \<le> int i \<longrightarrow> d ! i = 0) \<and>
      in_size ino' = le64_at lfork 0 \<and> in_link ino' = (in_link ino \<or> S_ISLNK (in_mode ino) \<and> le64_at lfork 0 < 200)"
proof -
  let ?n = "le64_at lfork 0"
  have u: "u64 ?n = ?n" using assms by (simp add: u64_id)
  have inl: "vdfs4_is_inline_data_inode (ino\<lparr>in_blocks := b, in_size := z\<rparr>)" for b z using assms(1) by (simp add: vdfs4_is_inline_data_inode_def is_vdfs4_inode_flag_set_def)
  consider "9223372036854775808 \<le> ?n" | "200 < ?n" "?n < 9223372036854775808" | "?n \<le> 200" by linarith
  then show ?thesis
  proof cases
    case 1
    then have z: "s64 ?n = ?n - 18446744073709551616" by (simp add: s64_def u)
    then have "is_fork_valid vol ino lfork" using assms(1,3,5) by (simp add: is_fork_valid_def is_inline_data_fork_valid_def VDFS4_INLINE_DATA_MAX_SIZE_def)
    moreover have "u64 (?n - 18446744073709551616) = ?n" using assms(4,5) by (simp add: u64_def mod_diff_right_eq [symmetric, of _ "18446744073709551616"])
    ultimately show ?thesis using 1 assms(2) inl by (simp add: vdfs4_parse_fork_def Let_def vdfs4_fill_inline_data_def z VDFS4_INLINE_DATA_MAX_SIZE_def)
  next
    case 2
    then have "s64 ?n = ?n" using assms(4) by (simp add: s64_id(2))
    then have "\<not> is_fork_valid vol ino lfork" using 2 assms(1) by (simp add: is_fork_valid_def is_inline_data_fork_valid_def VDFS4_INLINE_DATA_MAX_SIZE_def)
    then show ?thesis using 2 by (simp add: vdfs4_parse_fork_def)
  next
    case 3
    then have z: "s64 ?n = ?n" using assms(4) by (simp add: s64_id(2))
    then have v: "is_fork_valid vol ino lfork" using 3 assms(1,3) by (simp add: is_fork_valid_def is_inline_data_fork_valid_def VDFS4_INLINE_DATA_MAX_SIZE_def)
    let ?d = "mem_read lfork 16 ?n @ replicate (nat (200 - ?n)) 0"
    have l: "length (mem_read lfork 16 ?n) = nat ?n" using 3 assms(4,6) by (simp add: mem_read_def)
    have "\<forall>i < 200. ?n \<le> int i \<longrightarrow> ?d ! i = 0" using l by (auto simp: nth_append)
    moreover have "take (nat ?n) ?d = take (nat ?n) (drop 16 lfork)" using l by (simp add: mem_read_def)
    moreover have "length ?d = 200" using l 3 assms(4) by simp
    ultimately show ?thesis using 3 v assms(2) inl by (simp add: vdfs4_parse_fork_def Let_def vdfs4_fill_inline_data_def z u VDFS4_INLINE_DATA_MAX_SIZE_def)
  qed
qed

theorem parse_inline_fork_witness:
  "vdfs4_parse_fork 1000 12 (demo_vfs_inode\<lparr>in_flags := 2 ^ 19\<rparr>) (le_bytes 8 9223372036854775808 @ le_bytes 8 0 @ replicate 216 0) = Undef"
proof -
  let ?m = "le_bytes 8 9223372036854775808 @ le_bytes 8 0 @ replicate 216 0" and ?i = "demo_vfs_inode\<lparr>in_flags := 2 ^ 19\<rparr>"
  have i: "vdfs4_is_inline_data_inode ?i"
    by (simp add: vdfs4_is_inline_data_inode_def is_vdfs4_inode_flag_set_def VDFS4_INLINE_DATA_FILE_def bit_exp_iff del: power_numeral)
  have m: "le64_at ?m 0 = 9223372036854775808" "le64_at ?m 8 = 0" unfolding le64_at_def by (simp_all add: mem_read_append2 mem_read_hd)
  have "232 \<le> length ?m" "\<not> S_ISDEV (in_mode ?i)" by simp (simp add: demo_vfs_inode_def s_ifmt_def)
  from parse_inline_fork [OF i this(2) _ _ _ this(1), of 1000 12, unfolded m] show ?thesis by simp
qed

text \<open>
  The check that the extents of a file lie on the volume adds begin and length modulo \<open>2\<^sup>6\<^sup>4\<close>: it accepts
  a file whose first extent begins far behind the end of the volume, and the inode maps its blocks
  there.
\<close>

theorem fork_check_wraps:
  "\<exists>lfork ino'. length lfork = 232 \<and> vdfs4_parse_fork 1000 12 demo_vfs_inode lfork = Done (success, ino') \<and>
    (\<exists>f. in_data ino' = Fork_data f \<and> used_extents f = 1 \<and> 1000 < first_block (extents f ! 0) \<and> block_count (extents f ! 0) = 2)"
proof -
  define es where "es = \<lparr>first_block = 18446744073709551615, ex_iblock = 0, block_count = 2\<rparr> # replicate 8 no_extent"
  define h where "h = le_bytes 8 4096 @ le_bytes 8 2"
  define m where "m = h @ concat (map iextent_bytes es) @ []"
  have e: "length es = VDFS4_EXTENTS_COUNT_IN_FORK" "\<forall>e \<in> set es. cell_ok e \<and> u64 (first_block e + block_count e) \<le> 1000" "length h = 16"
    by (simp_all add: es_def h_def VDFS4_EXTENTS_COUNT_IN_FORK_def cell_ok_def no_extent_def u64_def)
  have c: "le64_at m (16 + 24 * int i) = first_block (es ! i)" "le64_at m (24 + 24 * int i) = block_count (es ! i)" "iextent_at m i = es ! i"
      "u64 (first_block (es ! i) + block_count (es ! i)) \<le> 1000" if "i < VDFS4_EXTENTS_COUNT_IN_FORK" for i
    using cell_fields [OF _ e(3) _ m_def, of i] e(1,2) that by simp_all
  have hd: "le64_at m 8 = 2" unfolding m_def h_def le64_at_def by (simp add: mem_read_append2 mem_read_hd)
  have len: "length m = 232" using e by (simp add: m_def length_concat comp_def sum_list_triv VDFS4_EXTENTS_COUNT_IN_FORK_def)
  have mp: "map (iextent_at m) [0 ..< VDFS4_EXTENTS_COUNT_IN_FORK] = es" using c(3) e(1) by (intro nth_equalityI) simp_all
  have "\<not> bit (in_flags demo_vfs_inode) k" for k by (simp add: demo_vfs_inode_def)
  then have i: "\<not> vdfs4_is_inline_data_inode i" "\<not> vdfs4_is_comp_inline_data_inode i" if "in_flags i = in_flags demo_vfs_inode" for i
    using that by (simp_all add: vdfs4_is_inline_data_inode_def vdfs4_is_comp_inline_data_inode_def is_vdfs4_inode_flag_set_def)
  then have v: "is_fork_valid 1000 demo_vfs_inode m" using c hd by (simp add: is_fork_valid_def is_regular_fork_valid_def)
  have "\<not> S_ISDEV (in_mode demo_vfs_inode)" by (simp add: demo_vfs_inode_def s_ifmt_def)
  then show ?thesis using v i len
    by (intro exI [of _ m]) (simp add: vdfs4_parse_fork_def Let_def vdfs4_fill_ifork_def vdfs4_lfork_to_rfork_def mp, simp add: es_def no_extent_def)
qed

end
