(* ===== verification/Vdfs_Inode_Numbers.thy ===== *)
theory Vdfs_Inode_Numbers
  imports Vdfs_Bitmap
begin

text \<open>
  The numbers of inodes (\<^verbatim>\<open>inode.c\<close>): a bitmap in pages, one bit per number. \<^verbatim>\<open>vdfs4_get_free_inode\<close> looks
  for a run of free numbers within one page, from the last one used, round the pages, and adds a
  page when none has room; \<^verbatim>\<open>vdfs4_free_inode_n\<close> gives numbers back.
\<close>

section \<open>State and operations\<close>

text \<open>The bits of a page of 4096 bytes without its magic, version and checksum; the first number of a file\<close>

definition INODE_BITS :: nat where "INODE_BITS = (4096 - (12 + 4)) * 8"

definition VDFS4_1ST_FILE_INO :: nat where "VDFS4_1ST_FILE_INO = 9"

text \<open>
  The pages of the bitmap file, how many there are, the dirty ones, the last number used; the generation
  of inodes in the superblock.
\<close>

record free_inode_bitmap =
  ib_page :: "nat \<Rightarrow> bitmap"
  ib_pages :: nat
  ib_dirty :: "nat set"
  last_used :: nat
  generation :: int
  super_dirty :: bool

text \<open>
  \<^verbatim>\<open>vdfs4_read_or_create_page\<close>: an error of the environment, the page, or a page of zeros behind the last one.
  The growth of the special file is an answer of the environment here.
\<close>

definition read_or_create_page :: "(nat \<Rightarrow> status) \<Rightarrow> nat \<Rightarrow> free_inode_bitmap \<Rightarrow> errno + free_inode_bitmap" where
  "read_or_create_page env i s =
     (case env i of
        Some e \<Rightarrow> Inl e
      | None \<Rightarrow> Inr (if i < ib_pages s then s
                     else s\<lparr>ib_page := (ib_page s)(i := replicate INODE_BITS False), ib_pages := i + 1\<rparr>))"

text \<open>The branch of the loop where a free area was found at bit \<open>i\<close> of the page\<close>

definition take_inodes :: "nat \<Rightarrow> nat \<Rightarrow> nat \<Rightarrow> free_inode_bitmap \<Rightarrow> (status \<times> nat \<times> free_inode_bitmap) outcome" where
  "take_inodes count page_index i s =
     (let bits = ib_page s page_index; ino = i + page_index * INODE_BITS in
      if ino < VDFS4_1ST_FILE_INO then Bug
      else bind_outcome (if 1 < count then bitmap_set bits i count else if bits ! i then Bug else Done (bits[i := True])) (\<lambda>bits'.
        Done (success, ino,
          s\<lparr>ib_page := (ib_page s)(page_index := bits'),
            last_used := (if last_used s < ino + count - 1 then ino + count - 1 else last_used s),
            ib_dirty := insert page_index (ib_dirty s)\<rparr>)))"

text \<open>The branch where the page has no room: the next page, where to start in it, the pass, the state\<close>

definition next_page :: "nat \<Rightarrow> nat \<Rightarrow> nat \<Rightarrow> nat \<Rightarrow> free_inode_bitmap \<Rightarrow> nat \<times> nat \<times> nat \<times> free_inode_bitmap" where
  "next_page start_page total_pages page_index pass s =
     (let p = (if page_index + 1 = total_pages then 0 else page_index + 1);
          p1 = (if pass = 1 then total_pages else p);
          pass1 = (if pass \<noteq> 1 \<and> p = start_page then pass + 1 else pass)
      in if p1 = 0
         then (p1, VDFS4_1ST_FILE_INO, pass1,
               s\<lparr>last_used := VDFS4_1ST_FILE_INO, generation := u32 (generation s + 1), super_dirty := True\<rparr>)
         else (p1, 0, pass1, s))"

partial_function (option) get_free_loop ::
    "(nat \<Rightarrow> status) \<Rightarrow> nat \<Rightarrow> nat \<Rightarrow> nat \<Rightarrow> nat \<Rightarrow> nat \<Rightarrow> nat \<Rightarrow> free_inode_bitmap \<Rightarrow> (status \<times> nat \<times> free_inode_bitmap) outcome option" where
  "get_free_loop env count start_page total_pages page_index find_from pass s =
     (case read_or_create_page env page_index s of
        Inl e \<Rightarrow> Some (Done (Some e, 0, s))
      | Inr s1 \<Rightarrow>
          let i = find_zero_area (ib_page s1 page_index) INODE_BITS find_from count 0 in
          if u32 (int i + int count - 1) < int INODE_BITS then Some (take_inodes count page_index i s1)
          else case next_page start_page total_pages page_index pass s1 of
                 (p, from, pass1, s2) \<Rightarrow> get_free_loop env count start_page total_pages p from pass1 s2)"

definition vdfs4_get_free_inode ::
    "(nat \<Rightarrow> status) \<Rightarrow> nat \<Rightarrow> free_inode_bitmap \<Rightarrow> (status \<times> nat \<times> free_inode_bitmap) outcome option" where
  "vdfs4_get_free_inode env count s =
     (let page_index = last_used s div INODE_BITS; find_from = last_used s mod INODE_BITS in
      if INODE_BITS < count then Some (Done (Some ENOMEM, 0, s))
      else get_free_loop env count page_index (ib_pages s) page_index find_from 0 s)"

text \<open>The loop of \<^verbatim>\<open>vdfs4_free_inode_n\<close>, from the last bit down\<close>

fun clear_inodes :: "nat \<Rightarrow> nat \<Rightarrow> bitmap \<Rightarrow> bitmap outcome" where
  "clear_inodes off 0 bits = Done bits"
| "clear_inodes off (Suc n) bits =
     (if length bits \<le> off + n then Undef
      else if \<not> bits ! (off + n) then Bug
      else clear_inodes off n (bits[off + n := False]))"

definition vdfs4_free_inode_n :: "(nat \<Rightarrow> status) \<Rightarrow> nat \<Rightarrow> nat \<Rightarrow> free_inode_bitmap \<Rightarrow> (status \<times> free_inode_bitmap) outcome" where
  "vdfs4_free_inode_n env inode_n count s =
     (let page_index = inode_n div INODE_BITS; int_offset = inode_n mod INODE_BITS in
      case read_or_create_page env page_index s of
        Inl e \<Rightarrow> Done (Some e, s)
      | Inr s1 \<Rightarrow> bind_outcome (clear_inodes int_offset count (ib_page s1 page_index)) (\<lambda>bits.
          Done (success, s1\<lparr>ib_page := (ib_page s1)(page_index := bits), ib_dirty := insert page_index (ib_dirty s1)\<rparr>)))"

section \<open>The numbers in use\<close>

definition used_inodes :: "free_inode_bitmap \<Rightarrow> nat set" where
  "used_inodes s = (\<Union>p < ib_pages s. (\<lambda>j. p * INODE_BITS + j) ` bset (ib_page s p))"

definition ib_ok :: "free_inode_bitmap \<Rightarrow> bool" where
  "ib_ok s \<longleftrightarrow> (\<forall>p < ib_pages s. length (ib_page s p) = INODE_BITS) \<and> VDFS4_1ST_FILE_INO \<le> last_used s \<and>
     last_used s < ib_pages s * INODE_BITS"

text \<open>A run of free numbers within a page\<close>

definition room_in :: "nat \<Rightarrow> nat \<Rightarrow> free_inode_bitmap \<Rightarrow> bool" where
  "room_in count p s \<longleftrightarrow> (\<exists>q. q + count \<le> INODE_BITS \<and> VDFS4_1ST_FILE_INO \<le> p * INODE_BITS + q \<and>
     (\<forall>j. q \<le> j \<and> j < q + count \<longrightarrow> \<not> ib_page s p ! j))"

lemma inode_bits: "VDFS4_1ST_FILE_INO < INODE_BITS" "0 < INODE_BITS" "INODE_BITS < 100000" "0 < VDFS4_1ST_FILE_INO"
  by (simp_all add: INODE_BITS_def VDFS4_1ST_FILE_INO_def)

lemma used_inodes_iff:
  assumes "\<forall>p < ib_pages s. length (ib_page s p) = INODE_BITS"
  shows "n \<in> used_inodes s \<longleftrightarrow> n div INODE_BITS < ib_pages s \<and> n mod INODE_BITS \<in> bset (ib_page s (n div INODE_BITS))"
proof
  assume "n \<in> used_inodes s"
  then obtain p j where p: "p < ib_pages s" "j \<in> bset (ib_page s p)" "n = p * INODE_BITS + j" by (auto simp: used_inodes_def)
  then have "j < INODE_BITS" using assms by (simp add: bset_def)
  then show "n div INODE_BITS < ib_pages s \<and> n mod INODE_BITS \<in> bset (ib_page s (n div INODE_BITS))" using p by simp
next
  assume "n div INODE_BITS < ib_pages s \<and> n mod INODE_BITS \<in> bset (ib_page s (n div INODE_BITS))"
  then show "n \<in> used_inodes s" unfolding used_inodes_def by (metis (no_types, lifting) UN_I div_mult_mod_eq imageI lessThan_iff)
qed

text \<open>A range of numbers within a page is a range of bits.\<close>

lemma page_range:
  assumes "i + c \<le> INODE_BITS"
  shows "n \<in> {i + p * INODE_BITS ..< i + p * INODE_BITS + c} \<longleftrightarrow> n div INODE_BITS = p \<and> n mod INODE_BITS \<in> {i ..< i + c}"
proof
  assume a: "n \<in> {i + p * INODE_BITS ..< i + p * INODE_BITS + c}"
  define j where "j = n - p * INODE_BITS"
  have "n = p * INODE_BITS + j" "i \<le> j" "j < i + c" using a by (auto simp: j_def)
  then show "n div INODE_BITS = p \<and> n mod INODE_BITS \<in> {i ..< i + c}" using assms by simp
next
  assume "n div INODE_BITS = p \<and> n mod INODE_BITS \<in> {i ..< i + c}"
  then show "n \<in> {i + p * INODE_BITS ..< i + p * INODE_BITS + c}" using div_mult_mod_eq [of n INODE_BITS] by auto
qed

lemma used_inodes_update:
  assumes s: "\<forall>p < ib_pages s. length (ib_page s p) = INODE_BITS" and p: "p < ib_pages s" "i + c \<le> INODE_BITS"
    and b: "length b = INODE_BITS" "bset b = (if v then bset (ib_page s p) \<union> {i ..< i + c} else bset (ib_page s p) - {i ..< i + c})"
    and s': "ib_pages s' = ib_pages s" "ib_page s' = (ib_page s)(p := b)"
  shows "used_inodes s' = (if v then used_inodes s \<union> {i + p * INODE_BITS ..< i + p * INODE_BITS + c}
    else used_inodes s - {i + p * INODE_BITS ..< i + p * INODE_BITS + c})"
proof -
  have "\<forall>q < ib_pages s'. length (ib_page s' q) = INODE_BITS" using s b(1) s' by simp
  note u = used_inodes_iff [OF this] and w = used_inodes_iff [OF s] and r = page_range [OF p(2)]
  show ?thesis by (rule set_eqI) (cases v; simp only: Un_iff Diff_iff u w r s' b(2) if_True if_False fun_upd_apply; use p(1) b(2) in auto)
qed

section \<open>Search in a page\<close>

lemma find_zero_area_bounds:
  "start \<le> sz \<Longrightarrow> start \<le> find_zero_area bits sz start nr 0 \<and> find_zero_area bits sz start nr 0 \<le> sz + nr"
proof (induction bits sz start nr "0 :: nat" rule: find_zero_area.induct)
  case (1 bits sz start nr)
  define index where "index = find_next_zero_bit bits sz start"
  define i where "i = find_next_bit bits (index + nr) index"
  have a: "align_up 0 x = x" for x by (simp add: align_up_def)
  have unf: "find_zero_area bits sz start nr 0 = (if index + nr > sz then index + nr
      else if i < index + nr then find_zero_area bits sz (i + 1) nr 0 else index)"
    by (subst find_zero_area.simps) (simp add: Let_def index_def i_def a)
  have b: "start \<le> index" "index \<le> sz" "index \<le> i"
    using find_next_value_ge [OF 1(2), of False bits] find_next_value_le [of False bits sz start] find_next_value_ge [of index "index + nr" True bits]
    by (simp_all add: index_def i_def)
  show ?case
  proof (cases "\<not> index + nr > sz \<and> i < index + nr")
    case True
    then have "i + 1 \<le> find_zero_area bits sz (i + 1) nr 0 \<and> find_zero_area bits sz (i + 1) nr 0 \<le> sz + nr"
      using 1(1) [OF refl refl, unfolded a] by (simp add: index_def i_def)
    then show ?thesis using True unf b by simp
  next
    case False
    then show ?thesis using unf b by auto
  qed
qed

text \<open>The test of the code separates success from failure; a failure means that no area starts there.\<close>

lemma page_search:
  assumes "from \<le> INODE_BITS" "0 < count" "count \<le> INODE_BITS" "find_zero_area bits INODE_BITS from count 0 = i"
  shows "u32 (int i + int count - 1) < int INODE_BITS \<longleftrightarrow> i + count \<le> INODE_BITS" "from \<le> i"
    "i + count \<le> INODE_BITS \<Longrightarrow> \<forall>j. i \<le> j \<and> j < i + count \<longrightarrow> \<not> bits ! j"
    "\<not> i + count \<le> INODE_BITS \<Longrightarrow> from \<le> q \<Longrightarrow> q + count \<le> INODE_BITS \<Longrightarrow> \<exists>j. q \<le> j \<and> j < q + count \<and> bits ! j"
proof -
  note b = find_zero_area_bounds [OF assms(1), of bits count, unfolded assms(4)]
  then have "u32 (int i + int count - 1) = int i + int count - 1" using assms(2,3) inode_bits(3) by (intro u32_id) linarith+
  then show "u32 (int i + int count - 1) < int INODE_BITS \<longleftrightarrow> i + count \<le> INODE_BITS" "from \<le> i" using b by auto
  show "i + count \<le> INODE_BITS \<Longrightarrow> \<forall>j. i \<le> j \<and> j < i + count \<longrightarrow> \<not> bits ! j" using find_zero_area_sound [OF assms(4) _ assms(2)] by simp
  assume n: "\<not> i + count \<le> INODE_BITS" and q: "from \<le> q" "q + count \<le> INODE_BITS"
  have "INODE_BITS < find_zero_area bits INODE_BITS from count 0" using n find_zero_area_sound [OF assms(4) _ assms(2)] assms(4) by (meson not_le)
  from find_zero_area_complete [OF this assms(2) _ q] show "\<exists>j. q \<le> j \<and> j < q + count \<and> bits ! j" by simp
qed

section \<open>The loop\<close>

definition alloc_result :: "nat \<Rightarrow> free_inode_bitmap \<Rightarrow> status \<Rightarrow> nat \<Rightarrow> free_inode_bitmap \<Rightarrow> bool" where
  "alloc_result count s st i s' \<longleftrightarrow> ib_ok s' \<and>
     (if st = success
      then {i ..< i + count} \<inter> used_inodes s = {} \<and> used_inodes s' = used_inodes s \<union> {i ..< i + count} \<and>
        VDFS4_1ST_FILE_INO \<le> i \<and> (i + count - 1) div INODE_BITS = i div INODE_BITS
      else i = 0 \<and> used_inodes s' = used_inodes s)"

text \<open>The loop ends well: with a result, without growth of the bitmap when a page of \<open>R\<close> has room.\<close>

definition served :: "(nat \<Rightarrow> status) \<Rightarrow> nat \<Rightarrow> free_inode_bitmap \<Rightarrow> nat set \<Rightarrow> (status \<times> nat \<times> free_inode_bitmap) outcome option \<Rightarrow> bool" where
  "served env count s R x \<longleftrightarrow> (\<exists>st i s'. x = Some (Done (st, i, s')) \<and> alloc_result count s st i s' \<and>
     ((\<forall>p. env p = success) \<longrightarrow> st = success) \<and> ((\<exists>p \<in> R. room_in count p s) \<longrightarrow> ib_pages s' = ib_pages s))"

lemma served_mono:
  assumes "served env count s R x" "\<And>p. p \<in> R' \<Longrightarrow> room_in count p s \<Longrightarrow> p \<in> R"
  shows "served env count s R' x"
  using assms unfolding served_def by (metis (no_types, lifting))

lemma take_ok:
  assumes s: "ib_ok s" and p: "p < ib_pages s" and c: "0 < count" "i + count \<le> INODE_BITS" and f: "\<forall>j. i \<le> j \<and> j < i + count \<longrightarrow> \<not> ib_page s p ! j"
    and n: "VDFS4_1ST_FILE_INO \<le> i + p * INODE_BITS"
  shows "\<exists>s'. take_inodes count p i s = Done (success, i + p * INODE_BITS, s') \<and> alloc_result count s success (i + p * INODE_BITS) s' \<and> ib_pages s' = ib_pages s"
proof -
  let ?b = "ib_page s p" and ?n = "i + p * INODE_BITS"
  have l: "\<forall>q < ib_pages s. length (ib_page s q) = INODE_BITS" using s by (simp add: ib_ok_def)
  then have lb: "length ?b = INODE_BITS" using p by simp
  obtain b where b: "bitmap_set ?b i count = Done b" using bitmap_fill_ok [of i count ?b True] lb c(2) by auto
  have b1: "length b = INODE_BITS" "bset b = (if True then bset ?b \<union> {i ..< i + count} else bset ?b - {i ..< i + count})"
    using bset_fill [OF b] lb by simp_all
  have one: "b = ?b[i := True]" if "count = 1" using b that lb c(2) by (auto simp: bitmap_fill_def upd_conv_take_nth_drop)
  have "\<not> ?b ! i" using f c(1) by simp
  then have set: "(if 1 < count then bitmap_set ?b i count else if ?b ! i then Bug else Done (?b[i := True])) = Done b"
    using b one c(1) by (cases "count = 1") auto
  let ?s = "s\<lparr>ib_page := (ib_page s)(p := b), last_used := (if last_used s < ?n + count - 1 then ?n + count - 1 else last_used s),
      ib_dirty := insert p (ib_dirty s)\<rparr>"
  have t: "take_inodes count p i s = Done (success, ?n, ?s)" using n unfolding take_inodes_def Let_def set by simp
  have u: "used_inodes ?s = used_inodes s \<union> {?n ..< ?n + count}" using used_inodes_update [OF l p c(2) b1, of ?s] by simp
  have "{?n ..< ?n + count} \<inter> used_inodes s = {}"
    using used_inodes_iff [OF l] page_range [OF c(2), of _ p] f by (auto simp: bset_def)
  moreover have "?n + count - 1 \<in> {?n ..< ?n + count}" "?n \<in> {?n ..< ?n + count}" using c(1) by auto
  then have "(?n + count - 1) div INODE_BITS = p" "?n div INODE_BITS = p" using page_range [OF c(2), of _ p] by blast+
  moreover have "?n + count - 1 < ib_pages s * INODE_BITS"
  proof -
    have "(p + 1) * INODE_BITS \<le> ib_pages s * INODE_BITS" using p by (intro mult_le_mono1) simp
    then show ?thesis using c by (simp add: algebra_simps)
  qed
  then have "ib_ok ?s" using s l b1(1) n by (auto simp: ib_ok_def)
  ultimately show ?thesis using t u n by (simp add: alloc_result_def)
qed

text \<open>Pages that are not the start of numbers are searched from bit 0.\<close>

definition from_of :: "nat \<Rightarrow> nat" where
  "from_of p = (if p = 0 then VDFS4_1ST_FILE_INO else 0)"

lemma from_of_number: "VDFS4_1ST_FILE_INO \<le> p * INODE_BITS + q \<longleftrightarrow> from_of p \<le> q"
proof (cases p)
  case (Suc k)
  then have "VDFS4_1ST_FILE_INO \<le> p * INODE_BITS + q" using inode_bits(1) by simp
  then show ?thesis using Suc by (simp add: from_of_def)
qed (simp add: from_of_def)

lemma same_pages:
  assumes "ib_page s' = ib_page s" "ib_pages s' = ib_pages s"
  shows "used_inodes s' = used_inodes s" "room_in count p s' = room_in count p s" "served env count s' R x \<Longrightarrow> served env count s R x"
proof -
  show u: "used_inodes s' = used_inodes s" "room_in count p s' = room_in count p s" for p by (simp_all add: used_inodes_def room_in_def assms)
  then show "served env count s' R x \<Longrightarrow> served env count s R x" unfolding served_def alloc_result_def u assms(2) by -
qed

text \<open>One turn: an error, a result, or no room from \<open>from\<close> on\<close>

lemma turn:
  assumes s: "ib_ok s" "p < ib_pages s" and c: "0 < count" "count \<le> INODE_BITS" and fr: "from \<le> INODE_BITS" "from_of p \<le> from"
    and more: "env p = success \<Longrightarrow> (\<And>q. from \<le> q \<Longrightarrow> q + count \<le> INODE_BITS \<Longrightarrow> \<exists>j. q \<le> j \<and> j < q + count \<and> ib_page s p ! j) \<Longrightarrow>
      served env count s R (case next_page start tot p pass s of (p', from', pass', s2) \<Rightarrow> get_free_loop env count start tot p' from' pass' s2)"
  shows "served env count s R (get_free_loop env count start tot p from pass s)"
proof (cases "env p")
  case (Some e)
  then have "get_free_loop env count start tot p from pass s = Some (Done (Some e, 0, s))"
    by (subst get_free_loop.simps) (simp add: read_or_create_page_def)
  then show ?thesis using s(1) Some by (auto simp: served_def alloc_result_def)
next
  case None
  define i where "i = find_zero_area (ib_page s p) INODE_BITS from count 0"
  note f = page_search [OF fr(1) c i_def [symmetric]]
  have unf: "get_free_loop env count start tot p from pass s = (if i + count \<le> INODE_BITS then Some (take_inodes count p i s)
      else case next_page start tot p pass s of (p', from', pass', s2) \<Rightarrow> get_free_loop env count start tot p' from' pass' s2)"
    using f(1) None s(2) by (subst get_free_loop.simps) (simp add: read_or_create_page_def i_def Let_def)
  show ?thesis
  proof (cases "i + count \<le> INODE_BITS")
    case True
    have "VDFS4_1ST_FILE_INO \<le> i + p * INODE_BITS" using from_of_number [of p i] fr(2) f(2) by (simp add: add.commute)
    from take_ok [OF s c(1) True f(3) [OF True] this] show ?thesis using True unf by (auto simp: served_def)
  next
    case False
    then show ?thesis using more [OF None f(4) [OF False]] unf by simp
  qed
qed

text \<open>The new page\<close>

lemma new_page_ok:
  assumes s: "ib_ok s" and c: "0 < count" "count \<le> INODE_BITS"
  shows "served env count s {} (get_free_loop env count start (ib_pages s) (ib_pages s) 0 pass s)"
proof (cases "env (ib_pages s)")
  case (Some e)
  then have "get_free_loop env count start (ib_pages s) (ib_pages s) 0 pass s = Some (Done (Some e, 0, s))"
    by (subst get_free_loop.simps) (simp add: read_or_create_page_def)
  then show ?thesis using s(1) Some by (auto simp: served_def alloc_result_def)
next
  case None
  let ?p = "ib_pages s" and ?s = "s\<lparr>ib_page := (ib_page s)(ib_pages s := replicate INODE_BITS False), ib_pages := ib_pages s + 1\<rparr>"
  have ok: "ib_ok ?s" using s by (auto simp: ib_ok_def less_Suc_eq)
  have "bset (replicate INODE_BITS False) = {}" by (auto simp: bset_def)
  then have u: "used_inodes ?s = used_inodes s" by (simp add: used_inodes_def lessThan_Suc)
  have bits: "ib_page ?s ?p = replicate INODE_BITS False" by simp
  define i where "i = find_zero_area (replicate INODE_BITS False) INODE_BITS 0 count 0"
  note f = page_search [OF _ c i_def [symmetric]]
  have room: "i + count \<le> INODE_BITS"
  proof (rule ccontr)
    assume "\<not> i + count \<le> INODE_BITS"
    from f(4) [OF _ this, of 0] show False using c by auto
  qed
  have "get_free_loop env count start (ib_pages s) (ib_pages s) 0 pass s = Some (take_inodes count ?p i ?s)"
    using f(1) room None by (subst get_free_loop.simps) (simp add: read_or_create_page_def i_def [symmetric] Let_def)
  moreover have "0 < ib_pages s" using s by (cases "ib_pages s") (auto simp: ib_ok_def)
  then have "VDFS4_1ST_FILE_INO \<le> i + ?p * INODE_BITS" using from_of_number [of ?p i] by (simp add: from_of_def add.commute)
  ultimately show ?thesis
    using take_ok [OF ok _ c(1) room _, of ?p] f(3) [OF _ room] u by (auto simp: served_def alloc_result_def)
qed

text \<open>The start page for the second time\<close>

lemma second_pass_ok:
  assumes s: "ib_ok s" "start < ib_pages s" and c: "0 < count" "count \<le> INODE_BITS"
  shows "served env count s {start} (get_free_loop env count start (ib_pages s) start (from_of start) 1 s)"
proof (rule turn [OF s c])
  show "from_of start \<le> INODE_BITS" using inode_bits(1) by (simp add: from_of_def)
  show "from_of start \<le> from_of start" ..
  assume full: "from_of start \<le> q \<Longrightarrow> q + count \<le> INODE_BITS \<Longrightarrow> \<exists>j. q \<le> j \<and> j < q + count \<and> ib_page s start ! j" for q
  then have "\<not> room_in count start s" unfolding room_in_def from_of_number by blast
  moreover have "next_page start (ib_pages s) start 1 s = (ib_pages s, 0, 1, s)" using s(2) by (simp add: next_page_def Let_def)
  ultimately show "served env count s {start} (case next_page start (ib_pages s) start 1 s of (p', from', pass', s2) \<Rightarrow>
      get_free_loop env count start (ib_pages s) p' from' pass' s2)"
    using new_page_ok [OF s(1) c, of env start 1] by (auto simp: served_def)
qed

text \<open>The first pass; the distance to the start page decreases.\<close>

definition distance :: "nat \<Rightarrow> nat \<Rightarrow> nat \<Rightarrow> nat" where
  "distance start tot p = (if p \<le> start then start - p else start + tot - p)"

lemma next_page_first:
  assumes s: "ib_ok s" and p: "p < ib_pages s" "start < ib_pages s"
  obtains q s2 where "next_page start (ib_pages s) p 0 s = (q, from_of q, if q = start then 1 else 0, s2)" "q < ib_pages s"
    "ib_page s2 = ib_page s" "ib_pages s2 = ib_pages s" "ib_ok s2" "q = (if p + 1 = ib_pages s then 0 else p + 1)"
proof -
  define q where "q = (if p + 1 = ib_pages s then 0 else p + 1)"
  define s2 where "s2 = (if q = 0 then s\<lparr>last_used := VDFS4_1ST_FILE_INO, generation := u32 (generation s + 1), super_dirty := True\<rparr> else s)"
  have "VDFS4_1ST_FILE_INO < ib_pages s * INODE_BITS" using p(1) inode_bits(1) by (cases "ib_pages s") auto
  then have "ib_ok s2" using s by (simp add: s2_def ib_ok_def)
  moreover have "next_page start (ib_pages s) p 0 s = (q, from_of q, if q = start then 1 else 0, s2)"
    by (simp add: next_page_def Let_def q_def s2_def from_of_def)
  ultimately show thesis using that [of q s2] p by (auto simp: q_def s2_def)
qed

lemma first_pass_ok:
  assumes c: "0 < count" "count \<le> INODE_BITS"
  shows "ib_ok s \<Longrightarrow> p < ib_pages s \<Longrightarrow> start < ib_pages s \<Longrightarrow> p \<noteq> start \<Longrightarrow>
    served env count s {q. q < ib_pages s \<and> distance start (ib_pages s) q \<le> distance start (ib_pages s) p}
      (get_free_loop env count start (ib_pages s) p (from_of p) 0 s)"
proof (induction "distance start (ib_pages s) p" arbitrary: p s rule: less_induct)
  case less
  let ?R = "\<lambda>p. {q. q < ib_pages s \<and> distance start (ib_pages s) q \<le> distance start (ib_pages s) p}"
  show ?case
  proof (rule turn [OF less.prems(1,2) c])
    show "from_of p \<le> INODE_BITS" using inode_bits(1) by (simp add: from_of_def)
    show "from_of p \<le> from_of p" ..
    assume full: "from_of p \<le> q \<Longrightarrow> q + count \<le> INODE_BITS \<Longrightarrow> \<exists>j. q \<le> j \<and> j < q + count \<and> ib_page s p ! j" for q
    then have nr: "\<not> room_in count p s" unfolding room_in_def from_of_number by blast
    obtain q s2 where q: "next_page start (ib_pages s) p 0 s = (q, from_of q, if q = start then 1 else 0, s2)" "q < ib_pages s"
        "ib_page s2 = ib_page s" "ib_pages s2 = ib_pages s" "ib_ok s2" "q = (if p + 1 = ib_pages s then 0 else p + 1)"
      using next_page_first [OF less.prems(1-3)] by blast
    have d: "distance start (ib_pages s) p = Suc (distance start (ib_pages s) q)"
      using q(6) less.prems(2-4) by (auto simp: distance_def)
    have "distance start (ib_pages s) x = distance start (ib_pages s) p \<Longrightarrow> x < ib_pages s \<Longrightarrow> x = p" for x
      using less.prems(2-4) by (auto simp: distance_def split: if_splits)
    then have R: "?R p \<subseteq> insert p (?R q)" using d by (auto simp: le_Suc_eq)
    have "served env count s2 (?R q) (get_free_loop env count start (ib_pages s) q (from_of q) (if q = start then 1 else 0) s2)"
    proof (cases "q = start")
      case True
      then have "?R q \<subseteq> {start}" using less.prems(2,3) by (auto simp: distance_def split: if_splits)
      then show ?thesis using second_pass_ok [OF q(5) _ c, of start env] True q(4) less.prems(3) by (auto simp: served_def)
    next
      case False
      then show ?thesis using less.hyps [of s2 q] d q(2,4,5) less.prems(3) by simp
    qed
    from same_pages(3) [OF q(3,4) this]
    have "served env count s (?R p) (get_free_loop env count start (ib_pages s) q (from_of q) (if q = start then 1 else 0) s2)"
    proof (rule served_mono)
      show "x \<in> ?R q" if "x \<in> ?R p" "room_in count x s" for x using that nr R by blast
    qed
    then show "served env count s (?R p) (case next_page start (ib_pages s) p 0 s of (p', from', pass', s2) \<Rightarrow>
        get_free_loop env count start (ib_pages s) p' from' pass' s2)"
      using q(1) by simp
  qed
qed

lemma get_free_inode_ok:
  assumes s: "ib_ok s" and c: "0 < count" "count \<le> INODE_BITS"
  shows "served env count s {p. p < ib_pages s} (vdfs4_get_free_inode env count s)"
proof -
  let ?p = "last_used s div INODE_BITS" and ?f = "last_used s mod INODE_BITS"
  have p: "?p < ib_pages s" using s by (simp add: ib_ok_def less_mult_imp_div_less)
  have fr: "?f \<le> INODE_BITS" "from_of ?p \<le> ?f"
    using inode_bits(2) from_of_number [of ?p ?f] s by (simp_all add: ib_ok_def less_imp_le)
  have "served env count s {p. p < ib_pages s} (get_free_loop env count ?p (ib_pages s) ?p ?f 0 s)"
  proof (rule turn [OF s p c fr])
    obtain q s2 where q: "next_page ?p (ib_pages s) ?p 0 s = (q, from_of q, if q = ?p then 1 else 0, s2)" "q < ib_pages s"
        "ib_page s2 = ib_page s" "ib_pages s2 = ib_pages s" "ib_ok s2" "q = (if ?p + 1 = ib_pages s then 0 else ?p + 1)"
      using next_page_first [OF s p p] by blast
    have "served env count s2 {p. p < ib_pages s} (get_free_loop env count ?p (ib_pages s) q (from_of q) (if q = ?p then 1 else 0) s2)"
    proof (cases "q = ?p")
      case True
      then have "{p. p < ib_pages s} \<subseteq> {?p}" using q(6) p by (auto split: if_splits)
      then show ?thesis using second_pass_ok [OF q(5) _ c, of ?p env] True q(4) p by (auto simp: served_def)
    next
      case False
      have "{p. p < ib_pages s} = {r. r < ib_pages s \<and> distance ?p (ib_pages s) r \<le> distance ?p (ib_pages s) q}"
        using q(6) p False by (auto simp: distance_def split: if_splits)
      then show ?thesis using first_pass_ok [OF c q(5), of q ?p env] False q(2,4) p by simp
    qed
    from same_pages(3) [OF q(3,4) this] show "served env count s {p. p < ib_pages s} (case next_page ?p (ib_pages s) ?p 0 s of (p', from', pass', s2) \<Rightarrow>
        get_free_loop env count ?p (ib_pages s) p' from' pass' s2)"
      using q(1) by simp
  qed
  then show ?thesis using c(2) by (simp add: vdfs4_get_free_inode_def Let_def)
qed

section \<open>Giving numbers back\<close>

lemma clear_inodes_ok:
  assumes "off + n \<le> length bits" "{off ..< off + n} \<subseteq> bset bits"
  shows "\<exists>b. clear_inodes off n bits = Done b \<and> length b = length bits \<and> bset b = bset bits - {off ..< off + n}"
  using assms
proof (induction n arbitrary: bits)
  case (Suc n)
  have "off + n \<in> bset bits" using Suc.prems(2) by auto
  then have c: "off + n < length bits" "bits ! (off + n)" by (simp_all add: bset_def)
  have b: "bset (bits[off + n := False]) = bset bits - {off + n}" using c by (auto simp: bset_def nth_list_update split: if_splits)
  have "{off ..< off + n} \<subseteq> bset (bits[off + n := False])" using Suc.prems(2) b by auto
  from Suc.IH [OF _ this] c show ?case using b by (auto simp: atLeastLessThanSuc)
qed simp

section \<open>Properties\<close>

text \<open>
  C14. The search for free inode numbers ends, whatever the pages answer, although its loop has no bound
  of its own: after one round over the pages and a second look at the first one it adds a page. The
  numbers it gives are free, lie in one page, are none of the special ones and are marked afterwards;
  an error of a page marks nothing. The bitmap grows only when no page has room.
\<close>

theorem get_free_inode_correct:
  assumes "ib_ok s" "0 < count" "count \<le> INODE_BITS"
  shows "\<exists>st i s'. vdfs4_get_free_inode env count s = Some (Done (st, i, s')) \<and> ib_ok s' \<and>
    (if st = success
     then {i ..< i + count} \<inter> used_inodes s = {} \<and> used_inodes s' = used_inodes s \<union> {i ..< i + count} \<and>
       VDFS4_1ST_FILE_INO \<le> i \<and> (i + count - 1) div INODE_BITS = i div INODE_BITS
     else i = 0 \<and> used_inodes s' = used_inodes s) \<and>
    ((\<forall>p. env p = success) \<longrightarrow> st = success) \<and>
    ((\<exists>p < ib_pages s. room_in count p s) \<longrightarrow> ib_pages s' = ib_pages s)"
  using get_free_inode_ok [OF assms, of env] unfolding served_def alloc_result_def
  by (elim exE conjE) (intro exI conjI, assumption+, blast)

definition demo_inodes :: free_inode_bitmap where
  "demo_inodes = \<lparr>ib_page = (\<lambda>p. replicate INODE_BITS True), ib_pages = 2, ib_dirty = {}, last_used = 9, generation = 1, super_dirty = False\<rparr>"

lemma demo_inodes_ok: "ib_ok demo_inodes"
  using inode_bits(1) by (simp add: ib_ok_def demo_inodes_def VDFS4_1ST_FILE_INO_def)

theorem get_free_inode_correct_witness:
  "\<exists>i s'. vdfs4_get_free_inode (\<lambda>p. success) 3 demo_inodes = Some (Done (success, i, s')) \<and> {i ..< i + 3} \<inter> used_inodes demo_inodes = {} \<and>
    used_inodes s' = used_inodes demo_inodes \<union> {i ..< i + 3}"
  using get_free_inode_correct [OF demo_inodes_ok, of 3 "\<lambda>p. success"] by (auto simp: INODE_BITS_def)

text \<open>
  C40. Numbers given back are free again: after \<^verbatim>\<open>vdfs4_free_inode_n\<close> on numbers that \<^verbatim>\<open>vdfs4_get_free_inode\<close> gave, the
  numbers in use are those before.
\<close>

theorem inode_numbers_roundtrip:
  assumes "ib_ok s" "0 < count" "count \<le> INODE_BITS" "vdfs4_get_free_inode env count s = Some (Done (success, i, s'))"
  shows "\<exists>st s2. vdfs4_free_inode_n env2 i count s' = Done (st, s2) \<and> ib_ok s2 \<and>
    used_inodes s2 = (if st = success then used_inodes s else used_inodes s') \<and> st = env2 (i div INODE_BITS)"
proof -
  have g: "ib_ok s'" "{i ..< i + count} \<inter> used_inodes s = {}" "used_inodes s' = used_inodes s \<union> {i ..< i + count}"
      "(i + count - 1) div INODE_BITS = i div INODE_BITS"
    using get_free_inode_ok [OF assms(1-3), of env] assms(4) by (auto simp: served_def alloc_result_def)
  let ?p = "i div INODE_BITS" and ?o = "i mod INODE_BITS"
  have l: "\<forall>q < ib_pages s'. length (ib_page s' q) = INODE_BITS" using g(1) by (simp add: ib_ok_def)
  note u = used_inodes_iff [OF l]
  have o: "?o + count \<le> INODE_BITS"
  proof -
    have "i + count - 1 = ?p * INODE_BITS + (i + count - 1) mod INODE_BITS" using g(4) div_mult_mod_eq [of "i + count - 1" INODE_BITS] by simp
    moreover have "(i + count - 1) mod INODE_BITS < INODE_BITS" using inode_bits(2) by simp
    ultimately show ?thesis using div_mult_mod_eq [of i INODE_BITS] assms(2) by linarith
  qed
  have n: "?o + ?p * INODE_BITS = i" by simp
  have "i \<in> used_inodes s'" using g(3) assms(2) by simp
  then have p: "?p < ib_pages s'" using u by simp
  then have lp: "length (ib_page s' ?p) = INODE_BITS" using l by simp
  have "{?o ..< ?o + count} \<subseteq> bset (ib_page s' ?p)"
  proof
    fix j assume j: "j \<in> {?o ..< ?o + count}"
    then have "(?p * INODE_BITS + j) div INODE_BITS = ?p \<and> (?p * INODE_BITS + j) mod INODE_BITS = j" using o by simp
    moreover have "?p * INODE_BITS + j \<in> used_inodes s'" using g(3) page_range [OF o, of "?p * INODE_BITS + j" ?p] calculation j n by simp
    ultimately show "j \<in> bset (ib_page s' ?p)" using u by metis
  qed
  from clear_inodes_ok [OF _ this] o lp obtain b where b: "clear_inodes ?o count (ib_page s' ?p) = Done b" "length b = INODE_BITS"
      "bset b = bset (ib_page s' ?p) - {?o ..< ?o + count}" by auto
  show ?thesis
  proof (cases "env2 ?p")
    case (Some e)
    then show ?thesis using g(1) by (simp add: vdfs4_free_inode_n_def read_or_create_page_def Let_def)
  next
    case None
    let ?s = "s'\<lparr>ib_page := (ib_page s')(?p := b), ib_dirty := insert ?p (ib_dirty s')\<rparr>"
    have "vdfs4_free_inode_n env2 i count s' = Done (success, ?s)"
      using None p b(1) by (simp add: vdfs4_free_inode_n_def read_or_create_page_def Let_def)
    moreover have "used_inodes ?s = used_inodes s' - {i ..< i + count}"
      using used_inodes_update [OF l p o b(2), of False ?s] b(3) n by simp
    moreover have "ib_ok ?s" using g(1) b(2) by (simp add: ib_ok_def)
    ultimately show ?thesis using g(2,3) None by auto
  qed
qed

theorem inode_numbers_roundtrip_witness:
  "\<exists>i s' s2. vdfs4_get_free_inode (\<lambda>p. success) 3 demo_inodes = Some (Done (success, i, s')) \<and>
    vdfs4_free_inode_n (\<lambda>p. success) i 3 s' = Done (success, s2) \<and> used_inodes s2 = used_inodes demo_inodes"
proof -
  have c: "0 < (3 :: nat)" "3 \<le> INODE_BITS" by (simp_all add: INODE_BITS_def)
  obtain i s' where g: "vdfs4_get_free_inode (\<lambda>p. success) 3 demo_inodes = Some (Done (success, i, s'))"
    using get_free_inode_ok [OF demo_inodes_ok c, of "\<lambda>p. success"] by (auto simp: served_def)
  show ?thesis using inode_numbers_roundtrip [OF demo_inodes_ok c g, of "\<lambda>p. success"] g by auto
qed

end
