(* ===== verification/Vdfs_Snapshot.thy ===== *)
theory Vdfs_Snapshot
  imports Vdfs_Bitmap
begin

text \<open>
  The snapshot manager (\<^verbatim>\<open>snapshot.c\<close>). The metadata files (three trees and two bitmaps) live in the
  metadata area, and the base table says in which blocks of it each page of them is. A page that
  changes is moved to free blocks first, so that the state of the last commit stays on the medium
  until the next one is complete. This theory holds the state, the translation tables, the
  allocation and the moves; the theories that import it hold the growth of the area and the tables
  on the medium.

  The base table is a header of 104 bytes (the descriptor and two arrays of five 64-bit numbers)
  and records of 16 bytes. It is modelled as the header fields and the list of records; a table
  offset that is no multiple of the record size behind the header is not a record of the list and
  its use gives \<^const>\<open>Undef\<close>, as does an index outside the list.
\<close>

section \<open>State\<close>

text \<open>Numbers cut to 32 bits, for positions and offsets that are natural numbers.\<close>

definition u32n :: "nat \<Rightarrow> nat" where
  "u32n n = n mod 4294967296"

lemma u32n_id [c_arith]: "n < 4294967296 \<Longrightarrow> u32n n = n"
  by (simp add: u32n_def)

record base_table_record =
  rec_meta_iblock :: nat
  rec_sync_count :: nat
  rec_mount_count :: nat

record base_table =
  bt_sync_count :: nat
  bt_mount_count :: nat
  bt_checksum_offset :: nat
  last_page_index :: "nat list"
  translation_table_offsets :: "nat list"
  bt_records :: "base_table_record list"

record extended_record =
  er_object_id :: nat
  er_table_index :: nat
  er_meta_iblock :: nat

text \<open>
  \<^verbatim>\<open>struct vdfs4_snapshot_info\<close> with the geometry and the mount counter of the superblock. The
  extended table is a page; its records and its count are the list \<open>ext_records\<close>. The buffer of the
  base table has \<open>base_pages\<close> pages.
\<close>

record vdfs4_snapshot_info =
  snapshot_bitmap :: bitmap
  next_snapshot_bitmap :: bitmap
  moved_iblock :: bitmap
  cow_blocks :: nat
  bitmap_size_in_bits :: nat
  hint_btree :: nat
  hint_bitmaps :: nat
  base_t :: base_table
  base_pages :: nat
  ext_records :: "extended_record list"
  iblock :: nat
  sn_sync_count :: nat
  dirty_pages_count :: nat
  use_base_table :: bool
  extended_table_count :: nat
  mount_counter :: nat
  log_blocks_in_leb :: nat
  log_blocks_in_page :: nat
  sn_block_size_shift :: nat

definition VDFS4_CAT_TREE_INO :: nat where "VDFS4_CAT_TREE_INO = 2"
definition VDFS4_SPACE_BITMAP_INO :: nat where "VDFS4_SPACE_BITMAP_INO = 3"
definition VDFS4_EXTENTS_TREE_INO :: nat where "VDFS4_EXTENTS_TREE_INO = 4"
definition VDFS4_FREE_INODE_BITMAP_INO :: nat where "VDFS4_FREE_INODE_BITMAP_INO = 5"
definition VDFS4_XATTR_TREE_INO :: nat where "VDFS4_XATTR_TREE_INO = 6"

lemmas ino_defs = VDFS4_CAT_TREE_INO_def VDFS4_SPACE_BITMAP_INO_def VDFS4_EXTENTS_TREE_INO_def
  VDFS4_FREE_INODE_BITMAP_INO_def VDFS4_XATTR_TREE_INO_def

abbreviation VDFS4_FSFILE :: nat where "VDFS4_FSFILE \<equiv> VDFS4_CAT_TREE_INO"
abbreviation VDFS4_LSFILE :: nat where "VDFS4_LSFILE \<equiv> VDFS4_XATTR_TREE_INO"

definition special_files :: "nat list" where
  "special_files = [VDFS4_FSFILE ..< Suc VDFS4_LSFILE]"

definition is_tree :: "nat \<Rightarrow> bool" where
  "is_tree ino \<longleftrightarrow> ino = VDFS4_CAT_TREE_INO \<or> ino = VDFS4_EXTENTS_TREE_INO \<or> ino = VDFS4_XATTR_TREE_INO"

definition VDFS4_SF_INDEX :: "nat \<Rightarrow> nat" where
  "VDFS4_SF_INDEX ino = ino - VDFS4_FSFILE"

definition VDFS4_LAST_TABLE_INDEX :: "base_table \<Rightarrow> nat \<Rightarrow> nat" where
  "VDFS4_LAST_TABLE_INDEX b ino = last_page_index b ! VDFS4_SF_INDEX ino"

definition VDFS4_GET_TABLE_OFFSET :: "base_table \<Rightarrow> nat \<Rightarrow> nat" where
  "VDFS4_GET_TABLE_OFFSET b ino = u32n (translation_table_offsets b ! VDFS4_SF_INDEX ino)"

definition PAGE_SHIFT_bits :: nat where "PAGE_SHIFT_bits = 12"

text \<open>
  \<^verbatim>\<open>GET_TABLE_INDEX\<close>. Tree nodes are at least a page long (\<open>geometry_ok\<close> below), so the shift is not
  negative.
\<close>

definition GET_TABLE_INDEX :: "vdfs4_snapshot_info \<Rightarrow> nat \<Rightarrow> nat \<Rightarrow> nat" where
  "GET_TABLE_INDEX s ino page_index =
     (if is_tree ino then page_index div 2 ^ (log_blocks_in_leb s + sn_block_size_shift s - PAGE_SHIFT_bits)
      else page_index)"

section \<open>The translation tables\<close>

definition base_header_size :: nat where "base_header_size = 104"
definition base_record_size :: nat where "base_record_size = 16"

text \<open>\<^verbatim>\<open>vdfs4_get_table\<close>: the number of the first record of the table of a file.\<close>

definition vdfs4_get_table :: "base_table \<Rightarrow> nat \<Rightarrow> nat outcome" where
  "vdfs4_get_table b ino =
     (let offset = VDFS4_GET_TABLE_OFFSET b ino
      in if offset < base_header_size \<or> (offset - base_header_size) mod base_record_size \<noteq> 0 then Undef
         else Done ((offset - base_header_size) div base_record_size))"

definition table_read :: "base_table \<Rightarrow> nat \<Rightarrow> nat \<Rightarrow> base_table_record outcome" where
  "table_read b ino i =
     bind_outcome (vdfs4_get_table b ino) (\<lambda>t.
       if t + i < length (bt_records b) then Done (bt_records b ! (t + i)) else Undef)"

definition table_write :: "base_table \<Rightarrow> nat \<Rightarrow> nat \<Rightarrow> base_table_record \<Rightarrow> base_table outcome" where
  "table_write b ino i r =
     bind_outcome (vdfs4_get_table b ino) (\<lambda>t.
       if t + i < length (bt_records b) then Done (b\<lparr>bt_records := (bt_records b)[t + i := r]\<rparr>) else Undef)"

definition vdfs4_get_meta_iblock :: "vdfs4_snapshot_info \<Rightarrow> nat \<Rightarrow> nat \<Rightarrow> (errno + nat) outcome" where
  "vdfs4_get_meta_iblock s ino page_index =
     (let table_page_index = GET_TABLE_INDEX s ino page_index
      in if table_page_index > VDFS4_LAST_TABLE_INDEX (base_t s) ino then Done (Inl EINVAL)
         else bind_outcome (table_read (base_t s) ino table_page_index) (\<lambda>r. Done (Inr (rec_meta_iblock r))))"

section \<open>Allocation and moves\<close>

definition order_of :: "vdfs4_snapshot_info \<Rightarrow> nat \<Rightarrow> nat" where
  "order_of s ino = (if is_tree ino then log_blocks_in_leb s else log_blocks_in_page s)"

definition hint_of :: "vdfs4_snapshot_info \<Rightarrow> nat \<Rightarrow> nat" where
  "hint_of s ino = (if is_tree ino then hint_btree s else hint_bitmaps s)"

definition set_hint :: "nat \<Rightarrow> nat \<Rightarrow> vdfs4_snapshot_info \<Rightarrow> vdfs4_snapshot_info" where
  "set_hint ino h s = (if is_tree ino then s\<lparr>hint_btree := h\<rparr> else s\<lparr>hint_bitmaps := h\<rparr>)"

definition get_new_meta_iblock ::
    "vdfs4_snapshot_info \<Rightarrow> nat \<Rightarrow> ((errno + nat) \<times> vdfs4_snapshot_info) outcome" where
  "get_new_meta_iblock s ino =
     (let k = order_of s ino; nr = 2 ^ k; sz = bitmap_size_in_bits s;
          position1 = find_zero_area (snapshot_bitmap s) sz (hint_of s ino) nr k;
          position = (if position1 > sz then find_zero_area (snapshot_bitmap s) sz 0 nr k else position1)
      in if position > sz then Done (Inl ENOSPC, set_hint ino 0 s)
         else bind_outcome (bitmap_set (snapshot_bitmap s) (u32n position) nr) (\<lambda>b1.
              bind_outcome (bitmap_set (next_snapshot_bitmap s) (u32n position) nr) (\<lambda>b2.
              bind_outcome (bitmap_set (moved_iblock s) (u32n position) nr) (\<lambda>b3.
                Done (Inr position, set_hint ino (position + nr)
                        (s\<lparr>snapshot_bitmap := b1, next_snapshot_bitmap := b2, moved_iblock := b3\<rparr>))))))"

definition move_iblock ::
    "vdfs4_snapshot_info \<Rightarrow> nat \<Rightarrow> nat \<Rightarrow> nat \<Rightarrow> (nat \<times> vdfs4_snapshot_info) outcome" where
  "move_iblock s ino current_iblock page_index =
     (let nr = 2 ^ order_of s ino; table_index = GET_TABLE_INDEX s ino page_index
      in if table_index > VDFS4_LAST_TABLE_INDEX (base_t s) ino then Bug
         else bind_outcome (get_new_meta_iblock s ino) (\<lambda>(ret, s1).
              bind_outcome
                (case ret of
                   Inr new_position \<Rightarrow>
                     bind_outcome (bitmap_clear (next_snapshot_bitmap s1) (u32n current_iblock) nr) (\<lambda>b.
                       Done (new_position, s1\<lparr>next_snapshot_bitmap := b, cow_blocks := cow_blocks s1 + nr\<rparr>))
                 | Inl e \<Rightarrow>
                     bind_outcome (bitmap_set (moved_iblock s1) (u32n current_iblock) nr) (\<lambda>b.
                       Done (current_iblock, s1\<lparr>moved_iblock := b\<rparr>)))
                (\<lambda>(new_position, s2).
                   bind_outcome (table_read (base_t s2) ino table_index) (\<lambda>r.
                   bind_outcome (table_write (base_t s2) ino table_index (r\<lparr>rec_meta_iblock := new_position\<rparr>)) (\<lambda>b.
                     Done (new_position, s2\<lparr>base_t := b\<rparr>))))))"

definition PAGE_SIZE_bytes :: nat where "PAGE_SIZE_bytes = 4096"
definition ext_header_size :: nat where "ext_header_size = 32"
definition ext_record_size :: nat where "ext_record_size = 24"
definition CRC32_SIZE_bytes :: nat where "CRC32_SIZE_bytes = 4"

definition update_extended_table ::
    "vdfs4_snapshot_info \<Rightarrow> nat \<Rightarrow> nat \<Rightarrow> nat \<Rightarrow> vdfs4_snapshot_info" where
  "update_extended_table s ino page_index new_iblock =
     (if use_base_table s then s
      else if (length (ext_records s) + 1) * ext_record_size + ext_header_size + CRC32_SIZE_bytes > PAGE_SIZE_bytes
      then s\<lparr>use_base_table := True\<rparr>
      else s\<lparr>ext_records := ext_records s @
             [\<lparr>er_object_id = ino, er_table_index = GET_TABLE_INDEX s ino page_index, er_meta_iblock = new_iblock\<rparr>]\<rparr>)"

definition vdfs4_add_chunk_no_lock ::
    "vdfs4_snapshot_info \<Rightarrow> nat \<Rightarrow> nat \<Rightarrow> vdfs4_snapshot_info outcome" where
  "vdfs4_add_chunk_no_lock s object_id page_index =
     (if object_id < VDFS4_FSFILE \<or> object_id > VDFS4_LSFILE then Bug
      else bind_outcome (vdfs4_get_meta_iblock s object_id page_index) (\<lambda>ret.
        case ret of
          Inl e \<Rightarrow> Bug
        | Inr meta_iblock \<Rightarrow>
            if \<not> u32n meta_iblock < length (moved_iblock s) then Undef
            else if moved_iblock s ! u32n meta_iblock then Done s
            else bind_outcome (move_iblock s object_id meta_iblock page_index) (\<lambda>(new_iblock, s1).
              if is_tree object_id \<and> new_iblock mod 2 ^ log_blocks_in_leb s1 \<noteq> 0 then Bug
              else let s2 = update_extended_table s1 object_id page_index new_iblock
                   in Done (s2\<lparr>dirty_pages_count := u32n (dirty_pages_count s2 +
                              (if is_tree object_id then 2 ^ log_blocks_in_leb s2 else 1))\<rparr>))))"

text \<open>
  \<^verbatim>\<open>vdfs4_add_chunk_bitmap\<close> and \<^verbatim>\<open>vdfs4_add_chunk_bnode\<close>: the pages of a dirty node or bitmap page have
  been moved before. The dirty flags of the pages are the set \<open>dirty\<close> of inode and page numbers.
\<close>

definition vdfs4_add_chunk_bitmap ::
    "(nat \<times> nat) set \<Rightarrow> vdfs4_snapshot_info \<Rightarrow> nat \<Rightarrow> nat \<Rightarrow> ((nat \<times> nat) set \<times> vdfs4_snapshot_info) outcome" where
  "vdfs4_add_chunk_bitmap dirty s ino page_index =
     (if (ino, page_index) \<in> dirty then Done (dirty, s)
      else bind_outcome (vdfs4_add_chunk_no_lock s ino page_index) (\<lambda>s'.
             Done (insert (ino, page_index) dirty, s')))"

definition get_bnode_size_in_pages :: "(nat \<Rightarrow> nat) \<Rightarrow> nat \<Rightarrow> nat outcome" where
  "get_bnode_size_in_pages pages_per_node ino =
     (if ino = VDFS4_CAT_TREE_INO then Done (pages_per_node ino)
      else if ino = VDFS4_EXTENTS_TREE_INO then Done (pages_per_node ino)
      else if ino = VDFS4_XATTR_TREE_INO then Done (pages_per_node ino)
      else Bug)"

definition vdfs4_add_chunk_bnode ::
    "(nat \<Rightarrow> nat) \<Rightarrow> (nat \<times> nat) set \<Rightarrow> vdfs4_snapshot_info \<Rightarrow> nat \<Rightarrow> nat \<Rightarrow>
     ((nat \<times> nat) set \<times> vdfs4_snapshot_info) outcome" where
  "vdfs4_add_chunk_bnode pages_per_node dirty s ino page_index =
     bind_outcome (get_bnode_size_in_pages pages_per_node ino) (\<lambda>n.
       let node_pages = map (\<lambda>c. (ino, page_index + c)) [0 ..< n]
       in if (ino, page_index) \<in> dirty
          then if list_all (\<lambda>p. p \<in> dirty) node_pages then Done (dirty, s) else Bug
          else bind_outcome (vdfs4_add_chunk_no_lock s ino page_index) (\<lambda>s'.
                 Done (dirty \<union> set node_pages, s')))"

section \<open>Commit\<close>

text \<open>
  \<^verbatim>\<open>vdfs4_update_bitmaps\<close>. The bitmaps are copied and cleared by whole words, that is, over all of
  their memory. \<open>debug\<close> is the build option \<^verbatim>\<open>CONFIG_VDFS4_DEBUG\<close>.
\<close>

definition vdfs4_update_bitmaps :: "bool \<Rightarrow> vdfs4_snapshot_info \<Rightarrow> vdfs4_snapshot_info outcome" where
  "vdfs4_update_bitmaps debug s =
     (if debug \<and> find_next_bit (moved_iblock s) (bitmap_size_in_bits s) 0 \<noteq> bitmap_size_in_bits s then Bug
      else Done (s\<lparr>moved_iblock := replicate (length (moved_iblock s)) False,
                  snapshot_bitmap := next_snapshot_bitmap s, cow_blocks := 0\<rparr>))"

text \<open>\<^verbatim>\<open>vdfs4_test_and_clear_bit\<close> for the blocks of one chunk, and the loop over the chunks.\<close>

definition clear_moved :: "nat \<Rightarrow> bitmap \<Rightarrow> bitmap outcome" where
  "clear_moved b bits = (if \<not> b < length bits then Undef else if bits ! b then Done (bits[b := False]) else Bug)"

definition check_moved_chunk :: "nat \<Rightarrow> nat \<Rightarrow> nat \<Rightarrow> vdfs4_snapshot_info \<Rightarrow> vdfs4_snapshot_info outcome" where
  "check_moved_chunk chunk_size ino page_index s =
     bind_outcome (vdfs4_get_meta_iblock s ino page_index) (\<lambda>ret.
       case ret of
         Inl e \<Rightarrow> Bug
       | Inr meta_iblock \<Rightarrow>
           bind_outcome (for_each clear_moved [meta_iblock ..< meta_iblock + chunk_size] (moved_iblock s)) (\<lambda>m.
             Done (s\<lparr>moved_iblock := m\<rparr>)))"

function check_moved_from ::
    "nat \<Rightarrow> nat \<Rightarrow> nat list \<Rightarrow> nat \<Rightarrow> vdfs4_snapshot_info \<Rightarrow> vdfs4_snapshot_info outcome" where
  "check_moved_from chunk_size ino pages pos s =
     (if chunk_size = 0 \<or> \<not> pos < length pages then Undef
      else bind_outcome (check_moved_chunk chunk_size ino (pages ! pos) s) (\<lambda>s'.
        if pos + chunk_size < length pages then check_moved_from chunk_size ino pages (pos + chunk_size) s'
        else Done s'))"
  by pat_completeness auto
termination
  by (relation "measure (\<lambda>(c, i, pages, pos, s). length pages - pos)") auto

declare check_moved_from.simps [simp del]

text \<open>
  \<^verbatim>\<open>vdfs4_check_moved_iblocks\<close> (debug builds): every page that is written has been moved. \<open>pages\<close> are the
  numbers of the pages of one file.
\<close>

definition vdfs4_check_moved_iblocks ::
    "(nat \<Rightarrow> nat) \<Rightarrow> nat \<Rightarrow> nat list \<Rightarrow> vdfs4_snapshot_info \<Rightarrow> vdfs4_snapshot_info outcome" where
  "vdfs4_check_moved_iblocks pages_per_node ino pages s =
     bind_outcome (if is_tree ino then get_bnode_size_in_pages pages_per_node ino else Done 1) (\<lambda>chunk_size.
       check_moved_from chunk_size ino pages 0 s)"

section \<open>The tables as lists of positions\<close>

text \<open>
  What the base table means: for every special file the list of the positions of its chunks. The
  layout is the one that \<^verbatim>\<open>mkfs\<close> and \<^verbatim>\<open>insert_new_iblocks\<close> make: the five tables lie next to each other
  behind the header, without overlap.
\<close>

definition special :: "nat \<Rightarrow> bool" where
  "special ino \<longleftrightarrow> VDFS4_FSFILE \<le> ino \<and> ino \<le> VDFS4_LSFILE"

lemma special_files_set: "set special_files = {ino. special ino}"
  by (auto simp: special_files_def special_def)

definition slot :: "base_table \<Rightarrow> nat \<Rightarrow> nat" where
  "slot b ino = (translation_table_offsets b ! VDFS4_SF_INDEX ino - base_header_size) div base_record_size"

definition slots :: "base_table \<Rightarrow> nat \<Rightarrow> nat set" where
  "slots b ino = {slot b ino ..< slot b ino + Suc (VDFS4_LAST_TABLE_INDEX b ino)}"

definition layout_ok :: "base_table \<Rightarrow> bool" where
  "layout_ok b \<longleftrightarrow>
     length (last_page_index b) = 5 \<and> length (translation_table_offsets b) = 5 \<and>
     bt_checksum_offset b = base_header_size + base_record_size * length (bt_records b) \<and>
     bt_checksum_offset b < 4294967296 \<and>
     (\<forall>ino. special ino \<longrightarrow>
        translation_table_offsets b ! VDFS4_SF_INDEX ino = base_header_size + base_record_size * slot b ino \<and>
        slots b ino \<subseteq> {..< length (bt_records b)}) \<and>
     (\<forall>ino ino'. special ino \<longrightarrow> special ino' \<longrightarrow> ino \<noteq> ino' \<longrightarrow> slots b ino \<inter> slots b ino' = {})"

definition positions :: "base_table \<Rightarrow> nat \<Rightarrow> nat list" where
  "positions b ino =
     map (\<lambda>i. rec_meta_iblock (bt_records b ! (slot b ino + i))) [0 ..< Suc (VDFS4_LAST_TABLE_INDEX b ino)]"

lemma length_positions [simp]: "length (positions b ino) = Suc (VDFS4_LAST_TABLE_INDEX b ino)"
  by (simp add: positions_def)

lemma nth_positions:
  "i \<le> VDFS4_LAST_TABLE_INDEX b ino \<Longrightarrow> positions b ino ! i = rec_meta_iblock (bt_records b ! (slot b ino + i))"
  by (simp add: positions_def del: upt_Suc)

lemma layout_slot_less:
  assumes "layout_ok b" "special ino" "i \<le> VDFS4_LAST_TABLE_INDEX b ino"
  shows "slot b ino + i < length (bt_records b)"
proof -
  have "slot b ino + i \<in> slots b ino" using assms(3) by (simp add: slots_def)
  then show ?thesis using assms(1,2) by (auto simp: layout_ok_def)
qed

lemma vdfs4_get_table_ok:
  assumes "layout_ok b" "special ino"
  shows "vdfs4_get_table b ino = Done (slot b ino)"
proof -
  have off: "translation_table_offsets b ! VDFS4_SF_INDEX ino = base_header_size + base_record_size * slot b ino"
    using assms by (simp add: layout_ok_def)
  moreover have "slot b ino < length (bt_records b)" using layout_slot_less [OF assms, of 0] by simp
  then have "base_header_size + base_record_size * slot b ino < 4294967296"
    using assms(1) by (simp add: layout_ok_def base_header_size_def base_record_size_def)
  ultimately show ?thesis
    by (simp add: vdfs4_get_table_def VDFS4_GET_TABLE_OFFSET_def Let_def u32n_id base_record_size_def)
qed

lemma table_read_ok:
  "layout_ok b \<Longrightarrow> special ino \<Longrightarrow> i \<le> VDFS4_LAST_TABLE_INDEX b ino \<Longrightarrow>
    table_read b ino i = Done (bt_records b ! (slot b ino + i))"
  by (simp add: table_read_def vdfs4_get_table_ok layout_slot_less)

lemma table_write_ok:
  "layout_ok b \<Longrightarrow> special ino \<Longrightarrow> i \<le> VDFS4_LAST_TABLE_INDEX b ino \<Longrightarrow>
    table_write b ino i r = Done (b\<lparr>bt_records := (bt_records b)[slot b ino + i := r]\<rparr>)"
  by (simp add: table_write_def vdfs4_get_table_ok layout_slot_less)

lemma records_frame [simp]:
  "slot (b\<lparr>bt_records := rs\<rparr>) ino = slot b ino"
  "VDFS4_LAST_TABLE_INDEX (b\<lparr>bt_records := rs\<rparr>) ino = VDFS4_LAST_TABLE_INDEX b ino"
  "slots (b\<lparr>bt_records := rs\<rparr>) ino = slots b ino"
  by (simp_all add: slot_def VDFS4_LAST_TABLE_INDEX_def slots_def)

lemma layout_ok_update:
  "length rs = length (bt_records b) \<Longrightarrow> layout_ok (b\<lparr>bt_records := rs\<rparr>) = layout_ok b"
  by (simp add: layout_ok_def)

lemma positions_update:
  assumes "layout_ok b" "special ino" "special ino'" "i \<le> VDFS4_LAST_TABLE_INDEX b ino"
  shows "positions (b\<lparr>bt_records := (bt_records b)[slot b ino + i := r]\<rparr>) ino'
    = (if ino' = ino then (positions b ino)[i := rec_meta_iblock r] else positions b ino')"
    (is "positions ?b ino' = ?R")
proof (rule nth_equalityI)
  show "length (positions ?b ino') = length ?R" by simp
  fix j assume "j < length (positions ?b ino')"
  then have j: "j \<le> VDFS4_LAST_TABLE_INDEX b ino'" by simp
  have lt: "slot b ino + i < length (bt_records b)" using layout_slot_less assms by blast
  have ne: "slot b ino + i \<noteq> slot b ino' + j" if "ino \<noteq> ino'"
  proof -
    have "slot b ino + i \<in> slots b ino" "slot b ino' + j \<in> slots b ino'" using assms(4) j by (simp_all add: slots_def)
    then show ?thesis using assms(1-3) that unfolding layout_ok_def by (metis disjoint_iff)
  qed
  show "positions ?b ino' ! j = ?R ! j"
    using j lt ne assms(4) by (auto simp: nth_positions nth_list_update)
qed

end
