(* ===== verification/Vdfs_Snapshot_Cow.thy ===== *)
theory Vdfs_Snapshot_Cow
  imports Vdfs_Snapshot "HOL-Library.Disjoint_Sets"
begin

text \<open>
  Copy on write. The invariant of the snapshot manager relates the bitmaps to the translation
  tables: the next state owns exactly the blocks the tables refer to, and the current state owns
  those and the blocks of the last commit. Every move keeps it, and a commit makes the next state
  the committed one.
\<close>

section \<open>Chunks\<close>

definition area :: "vdfs4_snapshot_info \<Rightarrow> nat \<Rightarrow> nat \<Rightarrow> nat set" where
  "area s ino p = {p ..< p + 2 ^ order_of s ino}"

text \<open>The chunks are numbered by inode and table index.\<close>

definition keys :: "vdfs4_snapshot_info \<Rightarrow> (nat \<times> nat) set" where
  "keys s = {(ino, i). special ino \<and> i \<le> VDFS4_LAST_TABLE_INDEX (base_t s) ino}"

definition position :: "vdfs4_snapshot_info \<Rightarrow> nat \<times> nat \<Rightarrow> nat" where
  "position s k = positions (base_t s) (fst k) ! snd k"

definition chunk :: "vdfs4_snapshot_info \<Rightarrow> nat \<times> nat \<Rightarrow> nat set" where
  "chunk s k = area s (fst k) (position s k)"

definition refs :: "vdfs4_snapshot_info \<Rightarrow> nat set" where
  "refs s = \<Union> (chunk s ` keys s)"

definition shape_ok :: "vdfs4_snapshot_info \<Rightarrow> bool" where
  "shape_ok s \<longleftrightarrow>
     PAGE_SHIFT_bits \<le> log_blocks_in_leb s + sn_block_size_shift s \<and> layout_ok (base_t s) \<and>
     length (next_snapshot_bitmap s) = length (snapshot_bitmap s) \<and>
     length (moved_iblock s) = length (snapshot_bitmap s) \<and>
     bitmap_size_in_bits s \<le> length (snapshot_bitmap s) \<and> bitmap_size_in_bits s < 4294967296"

text \<open>
  The invariant, for the set \<open>C\<close> of blocks of the last commit. A chunk that has not been moved since
  is where that commit has it.
\<close>

definition cow_inv :: "nat set \<Rightarrow> vdfs4_snapshot_info \<Rightarrow> bool" where
  "cow_inv C s \<longleftrightarrow>
     shape_ok s \<and> disjoint_family_on (chunk s) (keys s) \<and>
     refs s \<subseteq> {..< bitmap_size_in_bits s} \<and> C \<subseteq> {..< bitmap_size_in_bits s} \<and>
     bset (next_snapshot_bitmap s) = refs s \<and> bset (snapshot_bitmap s) = C \<union> refs s \<and>
     bset (moved_iblock s) \<subseteq> refs s \<and>
     (\<forall>k \<in> keys s. chunk s k \<subseteq> bset (moved_iblock s) \<or> chunk s k \<inter> bset (moved_iblock s) = {} \<and> chunk s k \<subseteq> C) \<and>
     (\<forall>k \<in> keys s. 2 ^ order_of s (fst k) dvd position s k) \<and>
     cow_blocks s = card (C - refs s)"

lemma set_hint_sel [simp]:
  "snapshot_bitmap (set_hint ino h s) = snapshot_bitmap s"
  "next_snapshot_bitmap (set_hint ino h s) = next_snapshot_bitmap s"
  "moved_iblock (set_hint ino h s) = moved_iblock s"
  "cow_blocks (set_hint ino h s) = cow_blocks s"
  "bitmap_size_in_bits (set_hint ino h s) = bitmap_size_in_bits s"
  "base_t (set_hint ino h s) = base_t s"
  "base_pages (set_hint ino h s) = base_pages s"
  "log_blocks_in_leb (set_hint ino h s) = log_blocks_in_leb s"
  "log_blocks_in_page (set_hint ino h s) = log_blocks_in_page s"
  "sn_block_size_shift (set_hint ino h s) = sn_block_size_shift s"
  "ext_records (set_hint ino h s) = ext_records s"
  "use_base_table (set_hint ino h s) = use_base_table s"
  "dirty_pages_count (set_hint ino h s) = dirty_pages_count s"
  "mount_counter (set_hint ino h s) = mount_counter s"
  "sn_sync_count (set_hint ino h s) = sn_sync_count s"
  "iblock (set_hint ino h s) = iblock s"
  "extended_table_count (set_hint ino h s) = extended_table_count s"
  by (simp_all add: set_hint_def)

text \<open>Two states that agree on geometry and tables have the same chunks.\<close>

definition same_tables :: "vdfs4_snapshot_info \<Rightarrow> vdfs4_snapshot_info \<Rightarrow> bool" where
  "same_tables s s' \<longleftrightarrow> base_t s' = base_t s \<and> log_blocks_in_leb s' = log_blocks_in_leb s \<and>
     log_blocks_in_page s' = log_blocks_in_page s \<and> sn_block_size_shift s' = sn_block_size_shift s"

lemma order_of_eq:
  "log_blocks_in_leb s' = log_blocks_in_leb s \<Longrightarrow> log_blocks_in_page s' = log_blocks_in_page s \<Longrightarrow>
    order_of s' = order_of s"
  by (rule ext) (simp add: order_of_def)

lemma same_tables_chunks:
  assumes "same_tables s s'"
  shows "order_of s' = order_of s" "keys s' = keys s" "position s' = position s" "chunk s' = chunk s" "refs s' = refs s"
    "area s' = area s" "GET_TABLE_INDEX s' = GET_TABLE_INDEX s"
proof -
  show o: "order_of s' = order_of s" by (rule order_of_eq) (use assms in \<open>simp_all add: same_tables_def\<close>)
  show k: "keys s' = keys s" using assms by (simp add: same_tables_def keys_def)
  show p: "position s' = position s" using assms by (intro ext) (simp add: same_tables_def position_def)
  show a: "area s' = area s" by (intro ext) (simp add: area_def o)
  show c: "chunk s' = chunk s" by (intro ext) (simp add: chunk_def p a)
  show "refs s' = refs s" by (simp add: refs_def c k)
  show "GET_TABLE_INDEX s' = GET_TABLE_INDEX s"
    using assms by (intro ext) (simp add: same_tables_def GET_TABLE_INDEX_def)
qed

section \<open>Allocation\<close>

text \<open>A free area of the size and alignment of a chunk of the file.\<close>

definition free_area_at :: "vdfs4_snapshot_info \<Rightarrow> nat \<Rightarrow> nat \<Rightarrow> bool" where
  "free_area_at s ino q \<longleftrightarrow> 2 ^ order_of s ino dvd q \<and> q + 2 ^ order_of s ino \<le> bitmap_size_in_bits s \<and>
     area s ino q \<inter> bset (snapshot_bitmap s) = {}"

definition no_free_area :: "vdfs4_snapshot_info \<Rightarrow> nat \<Rightarrow> bool" where
  "no_free_area s ino \<longleftrightarrow> (\<forall>q. \<not> free_area_at s ino q)"

text \<open>The state after the area at \<open>p\<close> has been taken.\<close>

definition area_taken :: "nat \<Rightarrow> nat \<Rightarrow> vdfs4_snapshot_info \<Rightarrow> vdfs4_snapshot_info \<Rightarrow> bool" where
  "area_taken ino p s s' \<longleftrightarrow>
     (\<exists>b1 b2 b3 h. s' = set_hint ino h (s\<lparr>snapshot_bitmap := b1, next_snapshot_bitmap := b2, moved_iblock := b3\<rparr>) \<and>
        length b1 = length (snapshot_bitmap s) \<and> length b2 = length (next_snapshot_bitmap s) \<and>
        length b3 = length (moved_iblock s) \<and>
        bset b1 = bset (snapshot_bitmap s) \<union> area s ino p \<and>
        bset b2 = bset (next_snapshot_bitmap s) \<union> area s ino p \<and>
        bset b3 = bset (moved_iblock s) \<union> area s ino p)"

lemma bitmap_set_area:
  assumes "p + 2 ^ order_of s ino \<le> length bits"
  obtains bits' where "bitmap_set bits p (2 ^ order_of s ino) = Done bits'" "length bits' = length bits"
    "bset bits' = bset bits \<union> area s ino p"
proof -
  obtain bits' where b: "bitmap_set bits p (2 ^ order_of s ino) = Done bits'" using bitmap_fill_ok [OF assms] by blast
  then show ?thesis using that [OF b] bset_fill [OF b] by (simp add: area_def)
qed

lemma bitmap_clear_area:
  assumes "p + 2 ^ order_of s ino \<le> length bits"
  obtains bits' where "bitmap_clear bits p (2 ^ order_of s ino) = Done bits'" "length bits' = length bits"
    "bset bits' = bset bits - area s ino p"
proof -
  obtain bits' where b: "bitmap_clear bits p (2 ^ order_of s ino) = Done bits'" using bitmap_fill_ok [OF assms] by blast
  then show ?thesis using that [OF b] bset_fill [OF b] by (simp add: area_def)
qed

lemma find_zero_area_free:
  assumes "shape_ok s" "find_zero_area (snapshot_bitmap s) (bitmap_size_in_bits s) h (2 ^ order_of s ino) (order_of s ino) = p"
    "p \<le> bitmap_size_in_bits s"
  shows "free_area_at s ino p"
  using find_zero_area_sound [OF assms(2,3)] by (auto simp: free_area_at_def area_def bset_def)

lemma find_zero_area_none:
  assumes "shape_ok s"
    "bitmap_size_in_bits s < find_zero_area (snapshot_bitmap s) (bitmap_size_in_bits s) 0 (2 ^ order_of s ino) (order_of s ino)"
  shows "no_free_area s ino"
proof (unfold no_free_area_def, intro allI notI)
  fix q assume q: "free_area_at s ino q"
  then obtain j where j: "q \<le> j" "j < q + 2 ^ order_of s ino" "snapshot_bitmap s ! j"
    using find_zero_area_complete [OF assms(2)] by (auto simp: free_area_at_def)
  moreover have "j < length (snapshot_bitmap s)" using j q assms(1) by (simp add: free_area_at_def shape_ok_def)
  ultimately have "j \<in> area s ino q \<inter> bset (snapshot_bitmap s)" by (simp add: area_def bset_def)
  with q show False by (auto simp: free_area_at_def)
qed

lemma get_new_meta_iblock_cases:
  assumes "shape_ok s"
  shows "(\<exists>p s'. get_new_meta_iblock s ino = Done (Inr p, s') \<and> free_area_at s ino p \<and> area_taken ino p s s') \<or>
    get_new_meta_iblock s ino = Done (Inl ENOSPC, set_hint ino 0 s) \<and> no_free_area s ino"
proof -
  define k sz where "k = order_of s ino" and "sz = bitmap_size_in_bits s"
  define p1 where "p1 = find_zero_area (snapshot_bitmap s) sz (hint_of s ino) (2 ^ k) k"
  define p where "p = (if p1 > sz then find_zero_area (snapshot_bitmap s) sz 0 (2 ^ k) k else p1)"
  have unf: "get_new_meta_iblock s ino =
      (if p > sz then Done (Inl ENOSPC, set_hint ino 0 s)
       else bind_outcome (bitmap_set (snapshot_bitmap s) (u32n p) (2 ^ k)) (\<lambda>b1.
            bind_outcome (bitmap_set (next_snapshot_bitmap s) (u32n p) (2 ^ k)) (\<lambda>b2.
            bind_outcome (bitmap_set (moved_iblock s) (u32n p) (2 ^ k)) (\<lambda>b3.
              Done (Inr p, set_hint ino (p + 2 ^ k)
                (s\<lparr>snapshot_bitmap := b1, next_snapshot_bitmap := b2, moved_iblock := b3\<rparr>))))))"
    unfolding get_new_meta_iblock_def Let_def k_def sz_def p_def p1_def by (rule refl)
  show ?thesis
  proof (cases "p > sz")
    case True
    then have "no_free_area s ino"
      using find_zero_area_none [OF assms, of ino] by (auto simp: p_def k_def sz_def split: if_splits)
    moreover have "get_new_meta_iblock s ino = Done (Inl ENOSPC, set_hint ino 0 s)"
      using True unf by simp
    ultimately show ?thesis by blast
  next
    case False
    then have free: "free_area_at s ino p"
      using find_zero_area_free [OF assms] by (auto simp: p_def p1_def k_def sz_def split: if_splits)
    then have le: "p + 2 ^ order_of s ino \<le> length (snapshot_bitmap s)" "u32n p = p"
      using assms by (auto simp: free_area_at_def shape_ok_def u32n_def)
    have lens: "length (next_snapshot_bitmap s) = length (snapshot_bitmap s)" "length (moved_iblock s) = length (snapshot_bitmap s)"
      using assms by (simp_all add: shape_ok_def)
    obtain b1 where b1: "bitmap_set (snapshot_bitmap s) p (2 ^ order_of s ino) = Done b1" "length b1 = length (snapshot_bitmap s)"
      "bset b1 = bset (snapshot_bitmap s) \<union> area s ino p" using bitmap_set_area le by metis
    obtain b2 where b2: "bitmap_set (next_snapshot_bitmap s) p (2 ^ order_of s ino) = Done b2" "length b2 = length (next_snapshot_bitmap s)"
      "bset b2 = bset (next_snapshot_bitmap s) \<union> area s ino p" using bitmap_set_area le lens by metis
    obtain b3 where b3: "bitmap_set (moved_iblock s) p (2 ^ order_of s ino) = Done b3" "length b3 = length (moved_iblock s)"
      "bset b3 = bset (moved_iblock s) \<union> area s ino p" using bitmap_set_area le lens by metis
    let ?s' = "set_hint ino (p + 2 ^ order_of s ino) (s\<lparr>snapshot_bitmap := b1, next_snapshot_bitmap := b2, moved_iblock := b3\<rparr>)"
    have "get_new_meta_iblock s ino = Done (Inr p, ?s')"
      using False b1(1) b2(1) b3(1) le(2) unf by (simp add: k_def)
    moreover have "area_taken ino p s ?s'" unfolding area_taken_def using b1 b2 b3 by blast
    ultimately show ?thesis using free by blast
  qed
qed

section \<open>Moves keep the invariant\<close>

text \<open>Replacing one member of a disjoint family by a set outside of the family.\<close>

lemma disjoint_family_replace:
  assumes "disjoint_family_on F I" "k \<in> I" "N \<inter> \<Union> (F ` I) = {}"
    "\<And>j. j \<in> I \<Longrightarrow> G j = (if j = k then N else F j)"
  shows "disjoint_family_on G I" "\<Union> (G ` I) = \<Union> (F ` I) - F k \<union> N"
proof -
  have d: "F i \<inter> F j = {}" if "i \<in> I" "j \<in> I" "i \<noteq> j" for i j
    using assms(1) that by (simp add: disjoint_family_on_def)
  have n: "N \<inter> F i = {}" if "i \<in> I" for i using assms(3) that by blast
  show "disjoint_family_on G I"
    unfolding disjoint_family_on_def
  proof (intro ballI impI)
    fix i j assume "i \<in> I" "j \<in> I" "i \<noteq> j"
    then show "G i \<inter> G j = {}" using d [of i j] n [of i] n [of j] assms(4) by auto
  qed
  show "\<Union> (G ` I) = \<Union> (F ` I) - F k \<union> N"
  proof -
    have "\<Union> (G ` I) = N \<union> \<Union> (F ` (I - {k}))"
    proof -
      have "G k = N" "G ` (I - {k}) = F ` (I - {k})" using assms(2,4) by (simp, intro image_cong) auto
      moreover have "I = insert k (I - {k})" using assms(2) by blast
      ultimately show ?thesis by (metis Union_insert image_insert)
    qed
    moreover have "\<Union> (F ` (I - {k})) = \<Union> (F ` I) - F k" using d assms(2) by blast
    ultimately show ?thesis by blast
  qed
qed

lemma cow_inv_chunk_le:
  assumes "cow_inv C s" "k \<in> keys s"
  shows "chunk s k \<subseteq> refs s" "position s k + 2 ^ order_of s (fst k) \<le> bitmap_size_in_bits s"
    "u32n (position s k) = position s k"
proof -
  show sub: "chunk s k \<subseteq> refs s" using assms(2) by (auto simp: refs_def)
  have "0 < (2::nat) ^ order_of s (fst k)" by simp
  then have "position s k + 2 ^ order_of s (fst k) - 1 \<in> chunk s k"
    unfolding chunk_def area_def atLeastLessThan_iff by linarith
  then have "position s k + 2 ^ order_of s (fst k) - 1 < bitmap_size_in_bits s"
    using sub assms(1) by (auto simp: cow_inv_def)
  then show le: "position s k + 2 ^ order_of s (fst k) \<le> bitmap_size_in_bits s" by simp
  have "bitmap_size_in_bits s < 4294967296" using assms(1) by (simp add: cow_inv_def shape_ok_def)
  moreover have "0 < (2::nat) ^ order_of s (fst k)" by simp
  ultimately have "position s k < 4294967296" using le by linarith
  then show "u32n (position s k) = position s k" by (rule u32n_id)
qed

text \<open>The tables after the entry of one chunk has been changed.\<close>

definition repoint :: "nat \<times> nat \<Rightarrow> nat \<Rightarrow> base_table \<Rightarrow> base_table" where
  "repoint k p b = b\<lparr>bt_records := (bt_records b)[slot b (fst k) + snd k :=
     (bt_records b ! (slot b (fst k) + snd k))\<lparr>rec_meta_iblock := p\<rparr>]\<rparr>"

lemma repoint_ok:
  assumes "layout_ok (base_t s)" "k \<in> keys s" "base_t s' = repoint k p (base_t s)"
    "log_blocks_in_leb s' = log_blocks_in_leb s" "log_blocks_in_page s' = log_blocks_in_page s"
  shows "layout_ok (base_t s')" "keys s' = keys s" "order_of s' = order_of s" "area s' = area s"
    and "j \<in> keys s \<Longrightarrow> position s' j = (if j = k then p else position s j)"
    and "j \<in> keys s \<Longrightarrow> chunk s' j = (if j = k then area s (fst k) p else chunk s j)"
proof -
  have k: "special (fst k)" "snd k \<le> VDFS4_LAST_TABLE_INDEX (base_t s) (fst k)"
    using assms(2) by (auto simp: keys_def)
  show "layout_ok (base_t s')" using assms(1,3) by (simp add: repoint_def layout_ok_update)
  show keys: "keys s' = keys s" by (simp add: keys_def assms(3) repoint_def)
  show o: "order_of s' = order_of s" by (rule order_of_eq) (use assms in simp_all)
  show a: "area s' = area s" by (intro ext) (simp add: area_def o)
  show p: "position s' j = (if j = k then p else position s j)" if "j \<in> keys s" for j
  proof -
    have j: "special (fst j)" "snd j \<le> VDFS4_LAST_TABLE_INDEX (base_t s) (fst j)"
      using that by (auto simp: keys_def)
    show ?thesis unfolding position_def assms(3) repoint_def positions_update [OF assms(1) k(1) j(1) k(2)]
      using k(2) j(2) by (cases j, cases k) (auto simp: nth_list_update)
  qed
  show "chunk s' j = (if j = k then area s (fst k) p else chunk s j)" if "j \<in> keys s" for j
    using p [OF that] a by (simp add: chunk_def)
qed

text \<open>A move to the free area at \<open>p\<close>, and the fall back that stays where it is.\<close>

definition same_geometry :: "vdfs4_snapshot_info \<Rightarrow> vdfs4_snapshot_info \<Rightarrow> bool" where
  "same_geometry s s' \<longleftrightarrow> log_blocks_in_leb s' = log_blocks_in_leb s \<and> log_blocks_in_page s' = log_blocks_in_page s \<and>
     sn_block_size_shift s' = sn_block_size_shift s \<and> bitmap_size_in_bits s' = bitmap_size_in_bits s \<and>
     length (snapshot_bitmap s') = length (snapshot_bitmap s) \<and>
     length (next_snapshot_bitmap s') = length (next_snapshot_bitmap s) \<and>
     length (moved_iblock s') = length (moved_iblock s)"

definition moved_to :: "nat \<times> nat \<Rightarrow> nat \<Rightarrow> vdfs4_snapshot_info \<Rightarrow> vdfs4_snapshot_info \<Rightarrow> bool" where
  "moved_to k p s s' \<longleftrightarrow> same_geometry s s' \<and> base_t s' = repoint k p (base_t s) \<and>
     bset (snapshot_bitmap s') = bset (snapshot_bitmap s) \<union> area s (fst k) p \<and>
     bset (next_snapshot_bitmap s') = bset (next_snapshot_bitmap s) \<union> area s (fst k) p - chunk s k \<and>
     bset (moved_iblock s') = bset (moved_iblock s) \<union> area s (fst k) p \<and>
     cow_blocks s' = cow_blocks s + 2 ^ order_of s (fst k)"

definition moved_in_place :: "nat \<times> nat \<Rightarrow> vdfs4_snapshot_info \<Rightarrow> vdfs4_snapshot_info \<Rightarrow> bool" where
  "moved_in_place k s s' \<longleftrightarrow> same_geometry s s' \<and> base_t s' = base_t s \<and>
     bset (snapshot_bitmap s') = bset (snapshot_bitmap s) \<and>
     bset (next_snapshot_bitmap s') = bset (next_snapshot_bitmap s) \<and>
     bset (moved_iblock s') = bset (moved_iblock s) \<union> chunk s k \<and>
     cow_blocks s' = cow_blocks s"

lemma cow_inv_moved_to:
  assumes inv: "cow_inv C s" and k: "k \<in> keys s" and free: "free_area_at s (fst k) p"
    and unmoved: "chunk s k \<inter> bset (moved_iblock s) = {}" and m: "moved_to k p s s'"
  shows "cow_inv C s'"
proof -
  define N A where "N = area s (fst k) p" and "A = chunk s k"
  have lay: "layout_ok (base_t s)" and refs_def': "refs s = \<Union> (chunk s ` keys s)"
    using inv by (simp_all add: cow_inv_def shape_ok_def refs_def)
  note rp = repoint_ok [OF lay k, of s' p]
  have g: "same_geometry s s'" and b: "base_t s' = repoint k p (base_t s)" using m by (simp_all add: moved_to_def)
  note rp = rp [OF b] and gg = g [unfolded same_geometry_def]
  have keys: "keys s' = keys s" and ord: "order_of s' = order_of s" using rp(2,3) gg by simp_all
  have chunk: "chunk s' j = (if j = k then N else chunk s j)" if "j \<in> keys s" for j
    using rp(6) [OF _ _ that] gg by (simp add: N_def)
  have pos: "position s' j = (if j = k then p else position s j)" if "j \<in> keys s" for j
    using rp(5) [OF _ _ that] gg by simp
  have snap: "bset (snapshot_bitmap s) = C \<union> refs s" "bset (next_snapshot_bitmap s) = refs s" "bset (moved_iblock s) \<subseteq> refs s"
    and dis: "disjoint_family_on (chunk s) (keys s)" and bnd: "refs s \<subseteq> {..<bitmap_size_in_bits s}" "C \<subseteq> {..<bitmap_size_in_bits s}"
    using inv by (simp_all add: cow_inv_def)
  have N: "N \<inter> (C \<union> refs s) = {}" "N \<subseteq> {..<bitmap_size_in_bits s}"
    using free snap(1) by (auto simp: free_area_at_def N_def area_def)
  have A0: "A \<noteq> {}" "card A = 2 ^ order_of s (fst k)" "finite A" by (simp_all add: A_def chunk_def area_def)
  moreover have "A \<subseteq> bset (moved_iblock s) \<or> A \<inter> bset (moved_iblock s) = {} \<and> A \<subseteq> C"
    using inv k by (simp add: cow_inv_def A_def)
  ultimately have A: "A \<subseteq> C" "A \<subseteq> refs s" "A \<inter> bset (moved_iblock s) = {}" "A \<noteq> {}" "card A = 2 ^ order_of s (fst k)" "finite A"
    using unmoved cow_inv_chunk_le(1) [OF inv k] by (auto simp: A_def)
  have fam: "disjoint_family_on (chunk s') (keys s')" "refs s' = refs s - A \<union> N"
    using disjoint_family_replace [OF dis k, of N "chunk s'"] N chunk
    by (simp_all add: refs_def keys A_def Int_Un_distrib)
  have others: "chunk s j \<inter> A = {}" if "j \<in> keys s" "j \<noteq> k" for j
    using dis that k by (auto simp: disjoint_family_on_def A_def)
  have mv: "bset (snapshot_bitmap s') = C \<union> refs s \<union> N" "bset (next_snapshot_bitmap s') = refs s \<union> N - A"
    "bset (moved_iblock s') = bset (moved_iblock s) \<union> N" "cow_blocks s' = card (C - refs s) + card A"
    using m snap inv A(5) by (simp_all add: moved_to_def N_def A_def cow_inv_def)
  have shape: "shape_ok s'" using inv rp(1) gg by (simp add: cow_inv_def shape_ok_def)
  have cow: "card (C - refs s') = card (C - refs s) + card A"
  proof -
    have "C - refs s' = (C - refs s) \<union> A" using fam(2) N(1) A(1,2) by blast
    moreover have "finite (C - refs s)" using bnd(2) finite_subset by blast
    moreover have "(C - refs s) \<inter> A = {}" using A(2) by blast
    ultimately show ?thesis using A(6) by (simp add: card_Un_disjoint)
  qed
  have each: "chunk s' j \<subseteq> bset (moved_iblock s') \<or> chunk s' j \<inter> bset (moved_iblock s') = {} \<and> chunk s' j \<subseteq> C"
    if "j \<in> keys s" for j
  proof (cases "j = k")
    case True
    then show ?thesis using chunk [OF that] mv(3) by simp
  next
    case False
    have "chunk s j \<inter> N = {}" using N(1) cow_inv_chunk_le(1) [OF inv that] by blast
    moreover have "chunk s j \<subseteq> bset (moved_iblock s) \<or> chunk s j \<inter> bset (moved_iblock s) = {} \<and> chunk s j \<subseteq> C"
      using inv that by (simp add: cow_inv_def)
    ultimately show ?thesis using chunk [OF that] mv(3) False by auto
  qed
  have al: "2 ^ order_of s' (fst j) dvd position s' j" if "j \<in> keys s" for j
    using pos [OF that] inv free that by (simp add: cow_inv_def ord free_area_at_def)
  show ?thesis
    unfolding cow_inv_def
  proof (intro conjI ballI)
    show "shape_ok s'" "disjoint_family_on (chunk s') (keys s')" by fact+
    show "refs s' \<subseteq> {..<bitmap_size_in_bits s'}" using fam(2) bnd(1) N(2) gg by auto
    show "C \<subseteq> {..<bitmap_size_in_bits s'}" using bnd(2) gg by simp
    show "bset (next_snapshot_bitmap s') = refs s'" using mv(2) fam(2) N(1) A(2) by blast
    show "bset (snapshot_bitmap s') = C \<union> refs s'" using mv(1) fam(2) A(1) by blast
    show "bset (moved_iblock s') \<subseteq> refs s'" using mv(3) fam(2) snap(3) A(3) by blast
    show "cow_blocks s' = card (C - refs s')" using mv(4) cow by simp
  next
    fix j assume "j \<in> keys s'"
    then show "chunk s' j \<subseteq> bset (moved_iblock s') \<or> chunk s' j \<inter> bset (moved_iblock s') = {} \<and> chunk s' j \<subseteq> C"
      "2 ^ order_of s' (fst j) dvd position s' j" using each al keys by simp_all
  qed
qed

lemma cow_inv_moved_in_place:
  assumes inv: "cow_inv C s" and k: "k \<in> keys s" and m: "moved_in_place k s s'"
  shows "cow_inv C s'"
proof -
  have st: "same_tables s s'" using m by (simp add: moved_in_place_def same_geometry_def same_tables_def)
  note same = same_tables_chunks [OF st]
  have shape: "shape_ok s'" using inv m by (simp add: cow_inv_def shape_ok_def moved_in_place_def same_geometry_def)
  have mv: "bset (moved_iblock s') = bset (moved_iblock s) \<union> chunk s k" using m by (simp add: moved_in_place_def)
  have each: "chunk s j \<subseteq> bset (moved_iblock s') \<or> chunk s j \<inter> bset (moved_iblock s') = {} \<and> chunk s j \<subseteq> C"
    if "j \<in> keys s" for j
  proof -
    have "chunk s j \<inter> chunk s k = {}" if "j \<noteq> k"
      using inv that \<open>j \<in> keys s\<close> k by (auto simp: cow_inv_def disjoint_family_on_def)
    moreover have "chunk s j \<subseteq> bset (moved_iblock s) \<or> chunk s j \<inter> bset (moved_iblock s) = {} \<and> chunk s j \<subseteq> C"
      using inv that by (simp add: cow_inv_def)
    ultimately show ?thesis using mv by (cases "j = k") auto
  qed
  have "bset (moved_iblock s') \<subseteq> refs s" using inv mv cow_inv_chunk_le(1) [OF inv k] by (auto simp: cow_inv_def)
  moreover have "\<forall>j \<in> keys s. chunk s j \<subseteq> bset (moved_iblock s') \<or> chunk s j \<inter> bset (moved_iblock s') = {} \<and> chunk s j \<subseteq> C"
    using each by blast
  moreover have "bitmap_size_in_bits s' = bitmap_size_in_bits s" "bset (next_snapshot_bitmap s') = bset (next_snapshot_bitmap s)"
    "bset (snapshot_bitmap s') = bset (snapshot_bitmap s)" "cow_blocks s' = cow_blocks s"
    using m by (simp_all add: moved_in_place_def same_geometry_def)
  ultimately show ?thesis using inv shape unfolding cow_inv_def same by simp
qed

text \<open>What \<^verbatim>\<open>move_iblock\<close> does to the chunk \<open>k\<close> that page \<open>page_index\<close> is in.\<close>

lemma repoint_same:
  assumes "layout_ok (base_t s)" "k \<in> keys s"
  shows "repoint k (position s k) (base_t s) = base_t s"
proof -
  have "snd k \<le> VDFS4_LAST_TABLE_INDEX (base_t s) (fst k)" using assms(2) by (auto simp: keys_def)
  then have "position s k = rec_meta_iblock (bt_records (base_t s) ! (slot (base_t s) (fst k) + snd k))"
    by (simp add: position_def nth_positions)
  then show ?thesis by (simp add: repoint_def)
qed

lemma move_iblock_ok:
  assumes inv: "cow_inv C s" and k: "k = (ino, GET_TABLE_INDEX s ino page_index)" "k \<in> keys s"
  shows "(\<exists>p s'. move_iblock s ino (position s k) page_index = Done (p, s') \<and> free_area_at s ino p \<and> moved_to k p s s' \<and>
        s' = s\<lparr>snapshot_bitmap := snapshot_bitmap s', next_snapshot_bitmap := next_snapshot_bitmap s', moved_iblock := moved_iblock s',
          cow_blocks := cow_blocks s', hint_btree := hint_btree s', hint_bitmaps := hint_bitmaps s', base_t := base_t s'\<rparr>) \<or>
    (\<exists>s'. move_iblock s ino (position s k) page_index = Done (position s k, s') \<and> no_free_area s ino \<and> moved_in_place k s s' \<and>
        s' = s\<lparr>moved_iblock := moved_iblock s', hint_btree := hint_btree s', hint_bitmaps := hint_bitmaps s'\<rparr>)"
    (is "?A \<or> ?B")
proof -
  have shape: "shape_ok s" and lay: "layout_ok (base_t s)" using inv by (simp_all add: cow_inv_def shape_ok_def)
  have ti: "special ino" "\<not> GET_TABLE_INDEX s ino page_index > VDFS4_LAST_TABLE_INDEX (base_t s) ino"
    using k by (auto simp: keys_def)
  let ?i = "GET_TABLE_INDEX s ino page_index"
  have wr: "bind_outcome (table_read (base_t s) ino ?i) (\<lambda>r.
      bind_outcome (table_write (base_t s) ino ?i (r\<lparr>rec_meta_iblock := q\<rparr>)) f) = f (repoint k q (base_t s))" for q and f :: "base_table \<Rightarrow> 'a outcome"
    using ti by (simp add: table_read_ok [OF lay] table_write_ok [OF lay] repoint_def k(1))
  note cl = cow_inv_chunk_le [OF inv k(2)]
  have fk: "fst k = ino" by (simp add: k(1))
  have le: "position s k + 2 ^ order_of s ino \<le> length (snapshot_bitmap s)"
    using cl(2) shape by (simp add: shape_ok_def fk)
  from get_new_meta_iblock_cases [OF shape, of ino] show ?thesis
  proof
    assume "\<exists>p s'. get_new_meta_iblock s ino = Done (Inr p, s') \<and> free_area_at s ino p \<and> area_taken ino p s s'"
    then obtain p s1 where p: "get_new_meta_iblock s ino = Done (Inr p, s1)" "free_area_at s ino p" "area_taken ino p s s1" by blast
    then obtain b1 b2 b3 h where s1: "s1 = set_hint ino h (s\<lparr>snapshot_bitmap := b1, next_snapshot_bitmap := b2, moved_iblock := b3\<rparr>)"
      "length b1 = length (snapshot_bitmap s)" "length b2 = length (next_snapshot_bitmap s)" "length b3 = length (moved_iblock s)"
      "bset b1 = bset (snapshot_bitmap s) \<union> area s ino p" "bset b2 = bset (next_snapshot_bitmap s) \<union> area s ino p"
      "bset b3 = bset (moved_iblock s) \<union> area s ino p"
      unfolding area_taken_def by blast
    have "position s k + 2 ^ order_of s ino \<le> length b2" using le s1(3) shape by (simp add: shape_ok_def)
    then obtain b4 where b4: "bitmap_clear b2 (position s k) (2 ^ order_of s ino) = Done b4" "length b4 = length b2"
      "bset b4 = bset b2 - area s ino (position s k)" by (rule bitmap_clear_area)
    let ?s2 = "s1\<lparr>next_snapshot_bitmap := b4, cow_blocks := cow_blocks s1 + 2 ^ order_of s ino\<rparr>"
    let ?s' = "?s2\<lparr>base_t := repoint k p (base_t s)\<rparr>"
    have "move_iblock s ino (position s k) page_index = Done (p, ?s')"
      using ti(2) p(1) b4(1) cl(3) wr [of p "\<lambda>b. Done (p, ?s2\<lparr>base_t := b\<rparr>)"]
      by (simp add: move_iblock_def Let_def s1(1))
    moreover have "moved_to k p s ?s'"
      using s1(2-7) b4(2,3) unfolding s1(1) by (simp add: moved_to_def same_geometry_def fk chunk_def)
    moreover have "?s' = s\<lparr>snapshot_bitmap := snapshot_bitmap ?s', next_snapshot_bitmap := next_snapshot_bitmap ?s',
        moved_iblock := moved_iblock ?s', cow_blocks := cow_blocks ?s', hint_btree := hint_btree ?s',
        hint_bitmaps := hint_bitmaps ?s', base_t := base_t ?s'\<rparr>"
      unfolding s1(1) by (simp add: set_hint_def)
    ultimately have ?A using p(2) by blast
    then show ?thesis ..
  next
    assume none: "get_new_meta_iblock s ino = Done (Inl ENOSPC, set_hint ino 0 s) \<and> no_free_area s ino"
    have "position s k + 2 ^ order_of s ino \<le> length (moved_iblock s)" using le shape by (simp add: shape_ok_def)
    then obtain b where b: "bitmap_set (moved_iblock s) (position s k) (2 ^ order_of s ino) = Done b" "length b = length (moved_iblock s)"
      "bset b = bset (moved_iblock s) \<union> area s ino (position s k)" by (rule bitmap_set_area)
    let ?s2 = "(set_hint ino 0 s)\<lparr>moved_iblock := b\<rparr>"
    have same: "repoint k (position s k) (base_t s) = base_t s" using repoint_same [OF lay k(2)] .
    have "move_iblock s ino (position s k) page_index = Done (position s k, ?s2\<lparr>base_t := base_t s\<rparr>)"
      using ti(2) none b(1) cl(3) wr [of "position s k" "\<lambda>b. Done (position s k, ?s2\<lparr>base_t := b\<rparr>)"]
      by (simp add: move_iblock_def Let_def same)
    moreover have "?s2\<lparr>base_t := base_t s\<rparr> = ?s2" by (simp add: set_hint_def)
    moreover have "moved_in_place k s ?s2"
      using b(2,3) by (simp add: moved_in_place_def same_geometry_def fk chunk_def)
    moreover have "?s2 = s\<lparr>moved_iblock := moved_iblock ?s2, hint_btree := hint_btree ?s2, hint_bitmaps := hint_bitmaps ?s2\<rparr>"
      by (simp add: set_hint_def)
    ultimately have ?B using none by metis
    then show ?thesis ..
  qed
qed

section \<open>Adding a chunk to the transaction\<close>

lemma cow_inv_frame:
  assumes "same_tables s s'" "snapshot_bitmap s' = snapshot_bitmap s" "next_snapshot_bitmap s' = next_snapshot_bitmap s"
    "moved_iblock s' = moved_iblock s" "bitmap_size_in_bits s' = bitmap_size_in_bits s" "cow_blocks s' = cow_blocks s"
  shows "cow_inv C s' = cow_inv C s"
  using assms(2-6) unfolding cow_inv_def shape_ok_def same_tables_chunks [OF assms(1)]
  using assms(1) by (simp add: same_tables_def)

text \<open>The last steps, which only touch the extended table and the count of dirty pages.\<close>

definition note_chunk :: "vdfs4_snapshot_info \<Rightarrow> nat \<Rightarrow> nat \<Rightarrow> nat \<Rightarrow> vdfs4_snapshot_info" where
  "note_chunk s ino page_index new_iblock =
     (let s2 = update_extended_table s ino page_index new_iblock
      in s2\<lparr>dirty_pages_count := u32n (dirty_pages_count s2 + (if is_tree ino then 2 ^ log_blocks_in_leb s2 else 1))\<rparr>)"

lemma note_chunk_sel [simp]:
  "snapshot_bitmap (note_chunk s ino i p) = snapshot_bitmap s"
  "next_snapshot_bitmap (note_chunk s ino i p) = next_snapshot_bitmap s"
  "moved_iblock (note_chunk s ino i p) = moved_iblock s"
  "cow_blocks (note_chunk s ino i p) = cow_blocks s"
  "bitmap_size_in_bits (note_chunk s ino i p) = bitmap_size_in_bits s"
  "base_t (note_chunk s ino i p) = base_t s"
  "log_blocks_in_leb (note_chunk s ino i p) = log_blocks_in_leb s"
  "log_blocks_in_page (note_chunk s ino i p) = log_blocks_in_page s"
  "sn_block_size_shift (note_chunk s ino i p) = sn_block_size_shift s"
  "mount_counter (note_chunk s ino i p) = mount_counter s"
  "sn_sync_count (note_chunk s ino i p) = sn_sync_count s"
  by (simp_all add: note_chunk_def update_extended_table_def Let_def)

lemma note_chunk_tables: "same_tables s (note_chunk s ino i p)"
  by (simp add: same_tables_def)

lemma cow_inv_note_chunk: "cow_inv C (note_chunk s ino i p) = cow_inv C s"
  by (rule cow_inv_frame [OF note_chunk_tables]) simp_all

definition ext_size :: "extended_record list \<Rightarrow> nat" where
  "ext_size rs = length rs * ext_record_size + ext_header_size + CRC32_SIZE_bytes"

lemma note_chunk_ext:
  "use_base_table (note_chunk s ino i p) \<or>
   \<not> use_base_table s \<and> ext_records (note_chunk s ino i p) = ext_records s @
     [\<lparr>er_object_id = ino, er_table_index = GET_TABLE_INDEX s ino i, er_meta_iblock = p\<rparr>] \<and>
   ext_size (ext_records (note_chunk s ino i p)) \<le> PAGE_SIZE_bytes"
  by (simp add: note_chunk_def update_extended_table_def ext_size_def Let_def)

lemma get_meta_iblock_ok:
  assumes "layout_ok (base_t s)" "(ino, GET_TABLE_INDEX s ino page_index) \<in> keys s"
  shows "vdfs4_get_meta_iblock s ino page_index = Done (Inr (position s (ino, GET_TABLE_INDEX s ino page_index)))"
  using assms by (simp add: vdfs4_get_meta_iblock_def Let_def keys_def table_read_ok position_def nth_positions)

definition chunk_added :: "nat \<times> nat \<Rightarrow> nat set \<Rightarrow> vdfs4_snapshot_info \<Rightarrow> vdfs4_snapshot_info \<Rightarrow> bool" where
  "chunk_added k C s s' \<longleftrightarrow>
     keys s' = keys s \<and> chunk s' k \<subseteq> bset (moved_iblock s') \<and>
     (\<forall>j \<in> keys s - {k}. position s' j = position s j) \<and>
     (if no_free_area s (fst k) then position s' k = position s k else chunk s' k \<inter> (C \<union> refs s) = {})"

lemma add_chunk_moved:
  assumes inv: "cow_inv C s" and k: "k = (ino, GET_TABLE_INDEX s ino page_index)" "k \<in> keys s"
    and moved: "chunk s k \<subseteq> bset (moved_iblock s)"
  shows "vdfs4_add_chunk_no_lock s ino page_index = Done s"
proof -
  have "position s k \<in> chunk s k" by (simp add: chunk_def area_def)
  then have b: "position s k \<in> bset (moved_iblock s)" using moved by blast
  have "special ino" using k by (simp add: keys_def)
  moreover have "layout_ok (base_t s)" using inv by (simp add: cow_inv_def shape_ok_def)
  note get_meta_iblock_ok [OF this k(2) [unfolded k(1)], folded k(1)]
  ultimately show ?thesis
    using b cow_inv_chunk_le(3) [OF inv k(2)] by (simp add: vdfs4_add_chunk_no_lock_def special_def bset_def)
qed

lemma add_chunk_unmoved:
  assumes inv: "cow_inv C s" and k: "k = (ino, GET_TABLE_INDEX s ino page_index)" "k \<in> keys s"
    and un: "\<not> chunk s k \<subseteq> bset (moved_iblock s)"
  shows "\<exists>p s1. move_iblock s ino (position s k) page_index = Done (p, s1) \<and>
     vdfs4_add_chunk_no_lock s ino page_index = Done (note_chunk s1 ino page_index p) \<and>
     cow_inv C s1 \<and> chunk_added k C s s1 \<and> position s1 k = p \<and>
     ext_records s1 = ext_records s \<and> use_base_table s1 = use_base_table s \<and> base_t s1 = repoint k p (base_t s) \<and>
     GET_TABLE_INDEX s1 = GET_TABLE_INDEX s"
proof -
  have un': "chunk s k \<inter> bset (moved_iblock s) = {}" using inv k(2) un by (auto simp: cow_inv_def)
  have sp: "special ino" using k by (simp add: keys_def)
  have lay: "layout_ok (base_t s)" using inv by (simp add: cow_inv_def shape_ok_def)
  note get = get_meta_iblock_ok [OF lay k(2) [unfolded k(1)], folded k(1)]
  note cl = cow_inv_chunk_le [OF inv k(2)]
  have fk: "fst k = ino" by (simp add: k(1))
  have lt: "position s k < length (moved_iblock s)"
  proof -
    have "0 < (2::nat) ^ order_of s (fst k)" by simp
    then show ?thesis using cl(2) inv unfolding cow_inv_def shape_ok_def by linarith
  qed
  moreover have "position s k \<in> chunk s k" by (simp add: chunk_def area_def)
  ultimately have nb: "\<not> moved_iblock s ! position s k" using un' by (auto simp: bset_def)
  have step: "vdfs4_add_chunk_no_lock s ino page_index = Done (note_chunk s1 ino page_index p)"
    if "move_iblock s ino (position s k) page_index = Done (p, s1)" "2 ^ order_of s1 ino dvd p" for p s1
  proof -
    have "\<not> (is_tree ino \<and> p mod 2 ^ log_blocks_in_leb s1 \<noteq> 0)" using that(2) by (auto simp: order_of_def)
    then show ?thesis
      using sp get cl(3) lt nb that(1) by (simp add: vdfs4_add_chunk_no_lock_def special_def note_chunk_def Let_def)
  qed
  from move_iblock_ok [OF inv k] show ?thesis
  proof (elim disjE exE conjE)
    fix p s1
    assume m: "move_iblock s ino (position s k) page_index = Done (p, s1)" "free_area_at s ino p" "moved_to k p s s1"
      and eq: "s1 = s\<lparr>snapshot_bitmap := snapshot_bitmap s1, next_snapshot_bitmap := next_snapshot_bitmap s1, moved_iblock := moved_iblock s1,
          cow_blocks := cow_blocks s1, hint_btree := hint_btree s1, hint_bitmaps := hint_bitmaps s1, base_t := base_t s1\<rparr>"
    have inv1: "cow_inv C s1" using cow_inv_moved_to [OF inv k(2) _ un' m(3)] m(2) fk by simp
    have g: "base_t s1 = repoint k p (base_t s)" "log_blocks_in_leb s1 = log_blocks_in_leb s" "log_blocks_in_page s1 = log_blocks_in_page s"
      "sn_block_size_shift s1 = sn_block_size_shift s"
      using m(3) by (simp_all add: moved_to_def same_geometry_def)
    note rp = repoint_ok [OF lay k(2) g(1-3)]
    have al: "2 ^ order_of s1 ino dvd p" using m(2) rp(3) by (simp add: free_area_at_def)
    have ck: "chunk s1 k = area s ino p" using rp(6) [OF k(2)] fk by simp
    have "bset (snapshot_bitmap s) = C \<union> refs s" using inv by (simp add: cow_inv_def)
    then have "chunk s1 k \<inter> (C \<union> refs s) = {}" using m(2) ck by (simp add: free_area_at_def)
    moreover have "chunk s1 k \<subseteq> bset (moved_iblock s1)" using m(3) ck by (simp add: moved_to_def fk)
    moreover have "\<not> no_free_area s (fst k)" using m(2) by (auto simp: no_free_area_def fk)
    ultimately have "chunk_added k C s s1" using rp(2,5) by (simp add: chunk_added_def)
    moreover have "position s1 k = p" using rp(5) [OF k(2)] by simp
    moreover have "ext_records s1 = ext_records s" "use_base_table s1 = use_base_table s" by (subst eq, simp)+
    moreover have "GET_TABLE_INDEX s1 = GET_TABLE_INDEX s" using g by (intro ext) (simp add: GET_TABLE_INDEX_def)
    ultimately show ?thesis using m(1) step [OF m(1) al] inv1 g(1) by blast
  next
    fix s1
    assume m: "move_iblock s ino (position s k) page_index = Done (position s k, s1)" "no_free_area s ino" "moved_in_place k s s1"
      and eq: "s1 = s\<lparr>moved_iblock := moved_iblock s1, hint_btree := hint_btree s1, hint_bitmaps := hint_bitmaps s1\<rparr>"
    have inv1: "cow_inv C s1" using cow_inv_moved_in_place [OF inv k(2) m(3)] .
    have st: "same_tables s s1" using m(3) by (simp add: moved_in_place_def same_geometry_def same_tables_def)
    note same = same_tables_chunks [OF st]
    have al: "2 ^ order_of s1 ino dvd position s k" using inv k(2) fk same by (auto simp: cow_inv_def)
    have "chunk_added k C s s1" using m(2,3) same by (simp add: chunk_added_def moved_in_place_def fk)
    moreover have "ext_records s1 = ext_records s" "use_base_table s1 = use_base_table s" by (subst eq, simp)+
    moreover have "base_t s1 = repoint k (position s k) (base_t s)"
      using repoint_same [OF lay k(2)] m(3) by (simp add: moved_in_place_def)
    ultimately show ?thesis using m(1) step [OF m(1) al] inv1 same by metis
  qed
qed

lemma note_chunk_added: "chunk_added k C s (note_chunk s1 ino i p) = chunk_added k C s s1"
  unfolding chunk_added_def same_tables_chunks [OF note_chunk_tables] by simp

lemma add_chunk_ok:
  assumes inv: "cow_inv C s" and k: "k = (ino, GET_TABLE_INDEX s ino page_index)" "k \<in> keys s"
  shows "\<exists>s'. vdfs4_add_chunk_no_lock s ino page_index = Done s' \<and> cow_inv C s' \<and>
    (if chunk s k \<subseteq> bset (moved_iblock s) then s' = s else chunk_added k C s s')"
proof (cases "chunk s k \<subseteq> bset (moved_iblock s)")
  case True
  then show ?thesis using add_chunk_moved [OF inv k] inv by simp
next
  case False
  obtain p s1 where s1: "vdfs4_add_chunk_no_lock s ino page_index = Done (note_chunk s1 ino page_index p)"
    "cow_inv C s1" "chunk_added k C s s1"
    using add_chunk_unmoved [OF inv k False] by blast
  then show ?thesis using False by (simp add: cow_inv_note_chunk note_chunk_added)
qed

section \<open>Commit\<close>

text \<open>After a commit the committed blocks are those of the tables, and nothing else is owned.\<close>

lemma update_bitmaps_ok:
  assumes "cow_inv C s"
  shows "\<exists>s'. vdfs4_update_bitmaps False s = Done s' \<and> cow_inv (refs s) s' \<and> refs s' = refs s \<and>
    bset (snapshot_bitmap s') = refs s \<and> bset (moved_iblock s') = {} \<and> base_t s' = base_t s"
proof -
  let ?s' = "s\<lparr>moved_iblock := replicate (length (moved_iblock s)) False,
                  snapshot_bitmap := next_snapshot_bitmap s, cow_blocks := 0\<rparr>"
  have st: "same_tables s ?s'" by (simp add: same_tables_def)
  note same = same_tables_chunks [OF st]
  have e: "bset (replicate n False) = {}" for n by (auto simp: bset_def)
  have "shape_ok ?s'" using assms by (simp add: cow_inv_def shape_ok_def)
  moreover have "chunk s k \<subseteq> refs s" if "k \<in> keys s" for k using cow_inv_chunk_le(1) [OF assms that] .
  ultimately have "cow_inv (refs s) ?s'"
    using assms unfolding cow_inv_def same by (simp add: e)
  moreover have "bset (snapshot_bitmap ?s') = refs s" using assms by (simp add: cow_inv_def)
  ultimately show ?thesis using same e by (simp add: vdfs4_update_bitmaps_def)
qed

end
