(* ===== verification/Vdfs_Snapshot_Tables.thy ===== *)
theory Vdfs_Snapshot_Tables
  imports Vdfs_Snapshot_Cow Vdfs_Bytes
begin

text \<open>
  The translation tables on the medium (\<^verbatim>\<open>snapshot.c\<close>, \<^verbatim>\<open>data.c\<close>). A commit writes either the whole base
  table, to the half of the tables area that the last one is not in, or an extended table with the
  entries that have changed, behind the tables written before. A mount takes the newer valid base
  table and applies the extended tables that follow it.

  \<^verbatim>\<open>crc32\<close> is a function of the kernel; it is the parameter \<open>crc\<close> of the definitions that use it.
\<close>

section \<open>Layout on the medium\<close>

definition VDFS4_SNAPSHOT_BASE_TABLE :: bytes where "VDFS4_SNAPSHOT_BASE_TABLE = [67, 111, 87, 66]"
definition VDFS4_SNAPSHOT_EXTENDED_TABLE :: bytes where "VDFS4_SNAPSHOT_EXTENDED_TABLE = [67, 111, 87, 69]"

definition encode_descriptor :: "bytes \<Rightarrow> nat \<Rightarrow> nat \<Rightarrow> nat \<Rightarrow> bytes" where
  "encode_descriptor signature sync mount checksum_offset =
     signature @ le_bytes 4 (int sync) @ le_bytes 8 (int mount) @ le_bytes 8 (int checksum_offset)"

definition encode_record :: "base_table_record \<Rightarrow> bytes" where
  "encode_record r =
     le_bytes 8 (int (rec_meta_iblock r)) @ le_bytes 4 (int (rec_sync_count r)) @ le_bytes 4 (int (rec_mount_count r))"

definition encode_base :: "base_table \<Rightarrow> bytes" where
  "encode_base b =
     encode_descriptor VDFS4_SNAPSHOT_BASE_TABLE (bt_sync_count b) (bt_mount_count b) (bt_checksum_offset b) @
     concat (map (\<lambda>x. le_bytes 8 (int x)) (last_page_index b)) @
     concat (map (\<lambda>x. le_bytes 8 (int x)) (translation_table_offsets b)) @
     concat (map encode_record (bt_records b))"

definition encode_ext_record :: "extended_record \<Rightarrow> bytes" where
  "encode_ext_record r =
     le_bytes 8 (int (er_object_id r)) @ le_bytes 8 (int (er_table_index r)) @ le_bytes 8 (int (er_meta_iblock r))"

text \<open>The extended table: descriptor, number of records, padding, records.\<close>

record extended_table =
  et_sync_count :: nat
  et_mount_count :: nat
  et_checksum_offset :: nat
  et_records :: "extended_record list"

definition encode_ext :: "extended_table \<Rightarrow> bytes" where
  "encode_ext e =
     encode_descriptor VDFS4_SNAPSHOT_EXTENDED_TABLE (et_sync_count e) (et_mount_count e) (et_checksum_offset e) @
     le_bytes 4 (int (length (et_records e))) @ le_bytes 4 0 @ concat (map encode_ext_record (et_records e))"

text \<open>The structures of a buffer: what the casts of the source make of its bytes.\<close>

definition nat32_at :: "bytes \<Rightarrow> nat \<Rightarrow> nat" where
  "nat32_at m p = nat (le_value (take 4 (drop p m)))"

definition nat64_at :: "bytes \<Rightarrow> nat \<Rightarrow> nat" where
  "nat64_at m p = nat (le_value (take 8 (drop p m)))"

definition decode_record :: "bytes \<Rightarrow> nat \<Rightarrow> base_table_record" where
  "decode_record m p = \<lparr>rec_meta_iblock = nat64_at m p, rec_sync_count = nat32_at m (p + 8), rec_mount_count = nat32_at m (p + 12)\<rparr>"

definition decode_base :: "bytes \<Rightarrow> base_table" where
  "decode_base m =
     \<lparr>bt_sync_count = nat32_at m 4, bt_mount_count = nat64_at m 8, bt_checksum_offset = nat64_at m 16,
      last_page_index = map (\<lambda>i. nat64_at m (24 + 8 * i)) [0 ..< 5],
      translation_table_offsets = map (\<lambda>i. nat64_at m (64 + 8 * i)) [0 ..< 5],
      bt_records = map (\<lambda>i. decode_record m (base_header_size + base_record_size * i))
        [0 ..< (nat64_at m 16 - base_header_size) div base_record_size]\<rparr>"

definition decode_ext :: "bytes \<Rightarrow> extended_table" where
  "decode_ext m =
     \<lparr>et_sync_count = nat32_at m 4, et_mount_count = nat64_at m 8, et_checksum_offset = nat64_at m 16,
      et_records = map (\<lambda>i. let p = ext_header_size + ext_record_size * i in
          \<lparr>er_object_id = nat64_at m p, er_table_index = nat64_at m (p + 8), er_meta_iblock = nat64_at m (p + 16)\<rparr>)
        [0 ..< nat32_at m 24]\<rparr>"

section \<open>Versions and validation\<close>

definition VDFS4_SNAPSHOT_VERSION :: "nat \<Rightarrow> nat \<Rightarrow> nat" where
  "VDFS4_SNAPSHOT_VERSION mount sync = u32n mount * 4294967296 + sync"

definition VDFS4_MOUNT_COUNT :: "nat \<Rightarrow> nat" where "VDFS4_MOUNT_COUNT version = u32n (version div 4294967296)"
definition VDFS4_SYNC_COUNT :: "nat \<Rightarrow> nat" where "VDFS4_SYNC_COUNT version = u32n version"

definition table_version :: "bytes \<Rightarrow> nat" where
  "table_version m = VDFS4_SNAPSHOT_VERSION (nat64_at m 8) (nat32_at m 4)"

definition VDFS4_IS_COW_TABLE :: "bytes \<Rightarrow> bool" where
  "VDFS4_IS_COW_TABLE m \<longleftrightarrow> take 4 m = VDFS4_SNAPSHOT_BASE_TABLE"

text \<open>
  \<^verbatim>\<open>validate_base_table\<close>: \<open>no_check_sign\<close> is the mount flag that ignores the checksum in the superblock
  (\<open>checksum_on_sb\<close>); \<open>debug_auth\<close> is the build option \<^verbatim>\<open>CONFIG_VDFS4_DEBUG_AUTHENTICAION\<close>, which only reports
  that the two checksums differ. A table whose checksum offset lies outside of the buffer is not read.
\<close>

definition validate_base_table :: "(bytes \<Rightarrow> nat) \<Rightarrow> bool \<Rightarrow> bool \<Rightarrow> nat \<Rightarrow> bytes \<Rightarrow> nat outcome" where
  "validate_base_table crc debug_auth no_check_sign checksum_on_sb m =
     (let off = u32n (nat64_at m 16)
      in if off + 4 > length m then Undef
         else
           let checksum_on_basetable = nat32_at m off; checksum = crc (take off m)
           in if \<not> VDFS4_IS_COW_TABLE m then Done 0
              else if no_check_sign then
                (if checksum = checksum_on_basetable then Done (table_version m) else Done 0)
              else if checksum \<noteq> checksum_on_sb \<and> \<not> debug_auth then Done 0
              else Done (table_version m))"

definition validate_extended_table :: "(bytes \<Rightarrow> nat) \<Rightarrow> bytes \<Rightarrow> nat outcome" where
  "validate_extended_table crc m =
     (if take 4 m \<noteq> VDFS4_SNAPSHOT_EXTENDED_TABLE then Done 0
      else
        let off = u32n (nat64_at m 16)
        in if off + 4 > length m then Undef
           else if crc (take off m) \<noteq> nat32_at m off then Done 0
           else Done (table_version m))"

section \<open>Applying an extended table\<close>

definition parse_record :: "nat \<Rightarrow> nat \<Rightarrow> extended_record \<Rightarrow> base_table \<Rightarrow> base_table outcome" where
  "parse_record mount sync r b =
     (if \<not> (VDFS4_FSFILE \<le> er_object_id r \<and> er_object_id r \<le> VDFS4_LSFILE) then Undef
      else if er_table_index r > VDFS4_LAST_TABLE_INDEX b (er_object_id r) then Bug
      else table_write b (er_object_id r) (er_table_index r)
             \<lparr>rec_meta_iblock = er_meta_iblock r, rec_sync_count = sync, rec_mount_count = u32n mount\<rparr>)"

definition parse_extended_table :: "extended_table \<Rightarrow> base_table \<Rightarrow> base_table outcome" where
  "parse_extended_table e b =
     bind_outcome (for_each (parse_record (et_mount_count e) (et_sync_count e)) (et_records e) b) (\<lambda>b'.
       Done (b'\<lparr>bt_mount_count := et_mount_count e, bt_sync_count := et_sync_count e\<rparr>))"

section \<open>The bitmaps of a mounted volume\<close>

definition set_table_bits :: "nat \<Rightarrow> base_table \<Rightarrow> nat \<Rightarrow> bitmap \<Rightarrow> bitmap outcome" where
  "set_table_bits order b ino bits =
     (if VDFS4_GET_TABLE_OFFSET b ino = 0 then Done bits
      else for_each (\<lambda>i bits. bind_outcome (table_read b ino i) (\<lambda>r. bitmap_set bits (u32n (rec_meta_iblock r)) (2 ^ order)))
             [0 ..< Suc (VDFS4_LAST_TABLE_INDEX b ino)] bits)"

definition build_snapshot_bitmaps :: "vdfs4_snapshot_info \<Rightarrow> vdfs4_snapshot_info outcome" where
  "build_snapshot_bitmaps s =
     bind_outcome (for_each (\<lambda>ino. set_table_bits (order_of s ino) (base_t s) ino) special_files (snapshot_bitmap s)) (\<lambda>bits.
       Done (s\<lparr>snapshot_bitmap := bits, next_snapshot_bitmap := bits\<rparr>))"

section \<open>Reading and writing the tables area\<close>

text \<open>
  The sectors of the device, 512 bytes each, and what the block layer answers to the next requests:
  success, or an error after some of the pages of a write have reached the medium.
\<close>

datatype io_result = IoOk | IoFail errno nat

record tables_area =
  tb_data :: "nat \<Rightarrow> bytes"
  tb_script :: "io_result list"
  tb_begin :: nat
  tb_length :: nat
  tb_sectors :: nat
  tb_block_size_shift :: nat

definition next_io :: "tables_area \<Rightarrow> io_result \<times> tables_area" where
  "next_io m = (case tb_script m of [] \<Rightarrow> (IoOk, m) | r # rs \<Rightarrow> (r, m\<lparr>tb_script := rs\<rparr>))"

text \<open>The sector at which a block of the tables area begins.\<close>

definition block_sector :: "tables_area \<Rightarrow> nat \<Rightarrow> nat" where
  "block_sector m iblk = (tb_begin m + iblk) * 2 ^ (tb_block_size_shift m - 9)"

definition vdfs4_get_table_sector :: "tables_area \<Rightarrow> nat \<Rightarrow> errno + nat" where
  "vdfs4_get_table_sector m iblk =
     (let result = block_sector m iblk
      in if iblk > tb_length m then Inl EINVAL
         else if result \<ge> tb_sectors m then Inl EINVAL
         else Inr result)"

definition page_of :: "bytes \<Rightarrow> nat \<Rightarrow> bytes" where
  "page_of buf i = take PAGE_SIZE_bytes (drop (PAGE_SIZE_bytes * i) buf)"

definition pages_in :: "nat \<Rightarrow> nat" where
  "pages_in size_in_bytes = (size_in_bytes + PAGE_SIZE_bytes - 1) div PAGE_SIZE_bytes"

text \<open>A page is eight sectors, wherever on the device it begins.\<close>

definition page_at :: "tables_area \<Rightarrow> nat \<Rightarrow> bytes" where
  "page_at m sector = concat (map (\<lambda>k. tb_data m (sector + k)) [0 ..< 8])"

definition store_pages :: "nat \<Rightarrow> nat \<Rightarrow> bytes \<Rightarrow> (nat \<Rightarrow> bytes) \<Rightarrow> nat \<Rightarrow> bytes" where
  "store_pages start n buf sectors =
     (\<lambda>s. if start \<le> s \<and> s < start + 8 * n then take 512 (drop (512 * (s - start)) buf) else sectors s)"

text \<open>
  \<^verbatim>\<open>vdfs4_table_IO\<close> for writing and for reading. The pages follow each other on the device from the sector of
  the first block; the block number is advanced by the number of pages, whatever the size of a block.
\<close>

definition table_write_IO :: "bytes \<Rightarrow> nat \<Rightarrow> nat \<Rightarrow> tables_area \<Rightarrow> status \<times> nat \<times> tables_area" where
  "table_write_IO buf buffer_size iblk m =
     (case vdfs4_get_table_sector m iblk of
        Inl e \<Rightarrow> (Some e, iblk, m)
      | Inr start_sector \<Rightarrow>
          (case next_io m of
             (IoOk, m1) \<Rightarrow> (success, iblk + pages_in buffer_size,
                m1\<lparr>tb_data := store_pages start_sector (pages_in buffer_size) buf (tb_data m1)\<rparr>)
           | (IoFail e n, m1) \<Rightarrow> (Some e, iblk,
                m1\<lparr>tb_data := store_pages start_sector (min n (pages_in buffer_size)) buf (tb_data m1)\<rparr>)))"

definition table_read_IO :: "nat \<Rightarrow> nat \<Rightarrow> tables_area \<Rightarrow> (errno + bytes) \<times> tables_area" where
  "table_read_IO buffer_size iblk m =
     (case vdfs4_get_table_sector m iblk of
        Inl e \<Rightarrow> (Inl e, m)
      | Inr start_sector \<Rightarrow>
          (case next_io m of
             (IoOk, m1) \<Rightarrow> (Inr (concat (map (\<lambda>i. page_at m1 (start_sector + 8 * i)) [0 ..< pages_in buffer_size])), m1)
           | (IoFail e n, m1) \<Rightarrow> (Inl e, m1)))"

section \<open>Writing a commit\<close>

datatype snapshot_table_type = SNAPSHOT_BASE_TABLE | SNAPSHOT_EXT_TABLE

definition base_table_bytes_count :: "base_table \<Rightarrow> nat" where
  "base_table_bytes_count b =
     base_header_size + sum_list (map (\<lambda>ino. base_record_size * (VDFS4_LAST_TABLE_INDEX b ino + 1)) special_files)"

definition fill_base_descriptor :: "vdfs4_snapshot_info \<Rightarrow> base_table" where
  "fill_base_descriptor s =
     (base_t s)\<lparr>bt_checksum_offset := u32n (base_table_bytes_count (base_t s)),
               bt_mount_count := mount_counter s, bt_sync_count := sn_sync_count s\<rparr>"

definition fill_ext_descriptor :: "vdfs4_snapshot_info \<Rightarrow> extended_table" where
  "fill_ext_descriptor s =
     \<lparr>et_sync_count = sn_sync_count s, et_mount_count = mount_counter s,
      et_checksum_offset = ext_header_size + ext_record_size * length (ext_records s), et_records = ext_records s\<rparr>"

text \<open>
  A table in its buffer of \<open>n\<close> pages, with the checksum at \<open>off\<close>. The bytes behind the table are not
  read again; they are shown as 0.
\<close>

definition sign_table :: "(bytes \<Rightarrow> nat) \<Rightarrow> nat \<Rightarrow> nat \<Rightarrow> bytes \<Rightarrow> bytes outcome" where
  "sign_table crc n off m =
     (let buf = m @ replicate (n * PAGE_SIZE_bytes - length m) 0
      in if off + 4 > length buf then Undef
         else Done (take off buf @ le_bytes 4 (int (crc (take off buf))) @ drop (off + 4) buf))"

text \<open>Repeating a failed write; the number of retries that are left is returned.\<close>

fun retry_write :: "nat \<Rightarrow> bytes \<Rightarrow> nat \<Rightarrow> nat \<Rightarrow> tables_area \<Rightarrow> status \<times> nat \<times> nat \<times> tables_area" where
  "retry_write retry_count buf sz iblk m =
     (case table_write_IO buf sz iblk m of
        (None, iblk', m') \<Rightarrow> (None, iblk', retry_count, m')
      | (Some e, iblk', m') \<Rightarrow>
          (case retry_count of 0 \<Rightarrow> (Some e, iblk', 0, m') | Suc n \<Rightarrow> retry_write n buf sz iblk' m'))"

declare retry_write.simps [simp del]

definition VDFS4_SNAPSHOT_TABLES_COUNT :: nat where "VDFS4_SNAPSHOT_TABLES_COUNT = 8"

text \<open>The choice between the two kinds of tables, with the block to write to.\<close>

definition choose_table :: "tables_area \<Rightarrow> vdfs4_snapshot_info \<Rightarrow> snapshot_table_type \<times> nat \<times> vdfs4_snapshot_info" where
  "choose_table m s =
     (if extended_table_count s \<ge> VDFS4_SNAPSHOT_TABLES_COUNT \<or> use_base_table s
      then (SNAPSHOT_BASE_TABLE, if iblock s \<ge> tb_length m div 2 then 0 else tb_length m div 2,
            s\<lparr>use_base_table := False, extended_table_count := 0\<rparr>)
      else (SNAPSHOT_EXT_TABLE, iblock s, s\<lparr>extended_table_count := extended_table_count s + 1\<rparr>))"

definition write_table ::
    "bytes \<Rightarrow> nat \<Rightarrow> snapshot_table_type \<Rightarrow> nat \<Rightarrow> vdfs4_snapshot_info \<Rightarrow> tables_area \<Rightarrow>
     status \<times> vdfs4_snapshot_info \<times> tables_area" where
  "write_table buf table_size type iblk s m =
     (let (ret1, s_iblock, retries, m1) =
        (if table_size > PAGE_SIZE_bytes \<and> type = SNAPSHOT_BASE_TABLE
         then retry_write 3 (drop PAGE_SIZE_bytes buf) (table_size - PAGE_SIZE_bytes) (iblk + 1) m
         else (success, 0, 3, m))
      in if ret1 \<noteq> success then (ret1, s, m1)
         else
           let (ret2, iblk', _, m2) = retry_write retries buf PAGE_SIZE_bytes iblk m1
           in if ret2 \<noteq> success then (ret2, s, m2)
              else (success, s\<lparr>iblock := (if s_iblock \<noteq> 0 then s_iblock else iblk'), dirty_pages_count := 0, ext_records := []\<rparr>, m2))"

definition vdfs4_update_translation_tables ::
    "(bytes \<Rightarrow> nat) \<Rightarrow> vdfs4_snapshot_info \<Rightarrow> tables_area \<Rightarrow> (status \<times> vdfs4_snapshot_info \<times> tables_area) outcome" where
  "vdfs4_update_translation_tables crc s m =
     (case choose_table m s of
        (SNAPSHOT_BASE_TABLE, iblk, s1) \<Rightarrow>
          let b = fill_base_descriptor s1; s2 = s1\<lparr>base_t := b\<rparr>
          in bind_outcome (sign_table crc (base_pages s2) (bt_checksum_offset b) (encode_base b)) (\<lambda>buf.
               Done (write_table buf (bt_checksum_offset b + CRC32_SIZE_bytes) SNAPSHOT_BASE_TABLE iblk s2 m))
      | (SNAPSHOT_EXT_TABLE, iblk, s1) \<Rightarrow>
          let e = fill_ext_descriptor s1
          in bind_outcome (sign_table crc 1 (et_checksum_offset e) (encode_ext e)) (\<lambda>buf.
               if et_checksum_offset e + CRC32_SIZE_bytes > PAGE_SIZE_bytes then Bug
               else Done (write_table buf (et_checksum_offset e + CRC32_SIZE_bytes) SNAPSHOT_EXT_TABLE iblk s1 m)))"

section \<open>Mounting\<close>

text \<open>\<^verbatim>\<open>get_table_version\<close>; \<open>alloc\<close> tells whether there is a page for the first page of the table.\<close>

definition get_table_version :: "bool \<Rightarrow> nat \<Rightarrow> tables_area \<Rightarrow> (errno + nat \<times> nat option) \<times> tables_area" where
  "get_table_version alloc iblk m =
     (case vdfs4_get_table_sector m iblk of
        Inl e \<Rightarrow> (Inl e, m)
      | Inr start_sector \<Rightarrow>
          if \<not> alloc then (Inl ENOMEM, m)
          else (case table_read_IO PAGE_SIZE_bytes iblk m of
                  (Inl e, m1) \<Rightarrow> (Inl e, m1)
                | (Inr page, m1) \<Rightarrow>
                    if \<not> VDFS4_IS_COW_TABLE page then (Inr (0, None), m1)
                    else (Inr (table_version page, Some (nat64_at page 16 + CRC32_SIZE_bytes)), m1)))"

text \<open>The extended superblock and its copy: the counters and the rest.\<close>

record exsb_info =
  ex_mount_counter :: nat
  ex_sync_counter :: nat
  ex_body :: bytes

definition VDFS4_EXSB_VERSION :: "exsb_info \<Rightarrow> nat" where
  "VDFS4_EXSB_VERSION e = ex_mount_counter e * 4294967296 + ex_sync_counter e"

text \<open>\<^verbatim>\<open>restore_exsb\<close>; \<open>sync_exsb\<close> is what writing a superblock back returns.\<close>

definition restore_exsb ::
    "(nat \<Rightarrow> status) \<Rightarrow> bool \<Rightarrow> nat \<Rightarrow> exsb_info \<Rightarrow> exsb_info \<Rightarrow> status \<times> exsb_info \<times> exsb_info" where
  "restore_exsb sync_exsb rdonly version exsb exsb_copy =
     (if VDFS4_EXSB_VERSION exsb = VDFS4_EXSB_VERSION exsb_copy then (success, exsb, exsb_copy)
      else if version \<noteq> VDFS4_EXSB_VERSION exsb_copy
      then (if rdonly then success else sync_exsb 1, exsb, exsb)
      else (if rdonly then success else sync_exsb 0, exsb_copy, exsb_copy))"

record mount_env =
  mo_crc :: "bytes \<Rightarrow> nat"
  mo_debug_auth :: bool
  mo_no_check_sign :: bool
  mo_checksum_on_sb :: nat
  mo_rdonly :: bool
  mo_sync_exsb :: "nat \<Rightarrow> status"
  mo_vmalloc :: bool
  mo_vmalloc_ext :: bool
  mo_kzalloc :: bool
  mo_kzalloc_bitmaps :: bool
  mo_alloc_page :: "nat \<Rightarrow> bool"

text \<open>
  The part of \<^verbatim>\<open>load_base_table\<close> after the label \<^verbatim>\<open>read_basetable\<close>, which runs a second time with
  \<^verbatim>\<open>opposite\<close> set when the first table is not valid. A size that was never read is not used: the
  version is 0 then.
\<close>

definition pick_table ::
    "nat \<times> nat option \<Rightarrow> nat \<times> nat option \<Rightarrow> nat \<Rightarrow> bool \<Rightarrow> nat \<times> nat option \<times> nat" where
  "pick_table t1 t2 half opposite =
     (if (fst t1 > fst t2) \<noteq> opposite then (fst t1, snd t1, 0) else (fst t2, snd t2, half))"

definition read_basetable ::
    "mount_env \<Rightarrow> nat \<times> nat option \<Rightarrow> nat \<times> nat option \<Rightarrow> bool \<Rightarrow> tables_area \<Rightarrow>
     ((errno + (bytes \<times> nat \<times> nat) option) \<times> tables_area) outcome" where
  "read_basetable env t1 t2 opposite m =
     (let (version, sz, table_start) = pick_table t1 t2 (tb_length m div 2) opposite
      in case sz of
           None \<Rightarrow> Done (Inl EINVAL, m)
         | Some size_in_bytes \<Rightarrow>
             if version = 0 \<or> size_in_bytes = 0 then Done (Inl EINVAL, m)
             else if \<not> mo_vmalloc env then Done (Inl ENOMEM, m)
             else (case table_read_IO size_in_bytes table_start m of
                     (Inl e, m1) \<Rightarrow> Done (Inl e, m1)
                   | (Inr buf, m1) \<Rightarrow>
                       bind_outcome (validate_base_table (mo_crc env) (mo_debug_auth env) (mo_no_check_sign env) (mo_checksum_on_sb env) buf) (\<lambda>checked.
                         if checked = 0 then Done (Inr None, m1)
                         else Done (Inr (Some (buf, table_start + pages_in size_in_bytes, version)), m1))))"

text \<open>The buffer of the table, the block behind it, its version, and the superblocks.\<close>

definition load_base_table ::
    "mount_env \<Rightarrow> exsb_info \<times> exsb_info \<Rightarrow> tables_area \<Rightarrow>
     ((errno + bytes \<times> nat \<times> nat) \<times> (exsb_info \<times> exsb_info) \<times> tables_area) outcome" where
  "load_base_table env sb m =
     (case get_table_version (mo_alloc_page env 1) 0 m of
        (Inl e, m1) \<Rightarrow> Done (Inl e, sb, m1)
      | (Inr t1, m1) \<Rightarrow>
          (case get_table_version (mo_alloc_page env 2) (tb_length m1 div 2) m1 of
             (Inl e, m2) \<Rightarrow> Done (Inl e, sb, m2)
           | (Inr t2, m2) \<Rightarrow>
               bind_outcome
                 (bind_outcome (read_basetable env t1 t2 False m2) (\<lambda>(r, m3).
                    if r = Inr None then read_basetable env t1 t2 True m3 else Done (r, m3)))
                 (\<lambda>(r, m3).
                    case r of
                      Inl e \<Rightarrow> Done (Inl e, sb, m3)
                    | Inr None \<Rightarrow> Done (Inl EFAULT, sb, m3)
                    | Inr (Some (buf, iblk, version)) \<Rightarrow>
                        let (ret, sb') = restore_exsb (mo_sync_exsb env) (mo_rdonly env) version (fst sb) (snd sb)
                        in (case ret of
                              Some e \<Rightarrow> Done (Inl e, sb', m3)
                            | None \<Rightarrow> Done (Inr (buf, iblk, version), sb', m3)))))"

text \<open>The loop over the extended tables: at most 8, as long as each continues the one before.\<close>

primrec replay_tables ::
    "(bytes \<Rightarrow> nat) \<Rightarrow> nat \<Rightarrow> base_table \<Rightarrow> nat \<Rightarrow> nat \<Rightarrow> nat \<Rightarrow> tables_area \<Rightarrow>
     ((errno + base_table \<times> nat \<times> nat) \<times> tables_area) outcome" where
  "replay_tables crc 0 b version iblk n m = Done (Inr (b, iblk, n), m)"
| "replay_tables crc (Suc fuel) b version iblk n m =
     (case table_read_IO PAGE_SIZE_bytes iblk m of
        (Inl e, m1) \<Rightarrow> Done (Inl e, m1)
      | (Inr page, m1) \<Rightarrow>
          bind_outcome (validate_extended_table crc page) (\<lambda>ext_version.
            if VDFS4_MOUNT_COUNT ext_version \<noteq> VDFS4_MOUNT_COUNT version \<or>
               VDFS4_SYNC_COUNT ext_version \<noteq> u32n (VDFS4_SYNC_COUNT version + 1)
            then Done (Inr (b, iblk, n), m1)
            else bind_outcome (parse_extended_table (decode_ext page) b) (\<lambda>b'.
              replay_tables crc fuel b' (VDFS4_SNAPSHOT_VERSION (bt_mount_count b') (bt_sync_count b')) (iblk + 1) (n + 1) m1)))"

definition bits_to_longs :: "nat \<Rightarrow> nat" where
  "bits_to_longs n = (n + 63) div 64"

text \<open>
  \<^verbatim>\<open>vdfs4_build_snapshot_manager\<close>; \<open>s0\<close> carries the geometry and the mount counter. Everything else of the
  new state is zero.
\<close>

definition vdfs4_build_snapshot_manager ::
    "mount_env \<Rightarrow> nat \<Rightarrow> exsb_info \<times> exsb_info \<Rightarrow> vdfs4_snapshot_info \<Rightarrow> tables_area \<Rightarrow>
     ((errno + vdfs4_snapshot_info) \<times> (exsb_info \<times> exsb_info) \<times> tables_area) outcome" where
  "vdfs4_build_snapshot_manager env meta_tbc sb s0 m =
     (if \<not> mo_kzalloc env then Done (Inl ENOMEM, sb, m)
      else bind_outcome (load_base_table env sb m) (\<lambda>(r, sb1, m1).
        case r of
          Inl e \<Rightarrow> Done (Inl e, sb1, m1)
        | Inr (buf, iblk, version) \<Rightarrow>
            if \<not> mo_kzalloc_bitmaps env \<or> \<not> mo_vmalloc_ext env then Done (Inl ENOMEM, sb1, m1)
            else bind_outcome (replay_tables (mo_crc env) 8 (decode_base buf) version iblk 0 m1) (\<lambda>(r2, m2).
              case r2 of
                Inl e \<Rightarrow> Done (Inl e, sb1, m2)
              | Inr (b, iblk', n) \<Rightarrow>
                  let zero = replicate (64 * bits_to_longs meta_tbc) False;
                      s = s0\<lparr>snapshot_bitmap := zero, next_snapshot_bitmap := zero, moved_iblock := zero, cow_blocks := 0,
                             bitmap_size_in_bits := meta_tbc, hint_btree := 0, hint_bitmaps := 0, base_t := b,
                             base_pages := length buf div PAGE_SIZE_bytes, ext_records := [], iblock := iblk',
                             sn_sync_count := 0, dirty_pages_count := 0, use_base_table := False, extended_table_count := n\<rparr>
                  in bind_outcome (build_snapshot_bitmaps s) (\<lambda>s'. Done (Inr s', sb1, m2)))))"

end
