(* ===== verification/Vdfs_Snapshot_Format.thy ===== *)
theory Vdfs_Snapshot_Format
  imports Vdfs_Snapshot_Tables
begin

text \<open>
  The formats of the tables: reading a table that has been written gives the table back, and a
  signed table passes its validation.
\<close>

section \<open>Fields\<close>

lemma take_drop_block:
  assumes "\<And>x. x \<in> set xs \<Longrightarrow> length (f x) = n" "i < length xs"
  shows "take n (drop (n * i) (concat (map f xs) @ r)) = f (xs ! i)"
  using assms
proof (induction xs arbitrary: i)
  case (Cons x xs)
  show ?case
  proof (cases i)
    case 0
    then show ?thesis using Cons.prems(1) [of x] by simp
  next
    case (Suc j)
    have lx: "length (f x) = n" using Cons.prems(1) by simp
    have "drop (n * i) (concat (map f (x # xs)) @ r) = drop (n * j) (concat (map f xs) @ r)"
      using lx by (simp add: Suc drop_append)
    then show ?thesis using Cons Suc by simp
  qed
qed simp

lemma length_blocks: "(\<And>x. x \<in> set xs \<Longrightarrow> length (f x) = n) \<Longrightarrow> length (concat (map f xs)) = n * length xs"
  by (induction xs) auto

lemma nat64_at_eq: "take 8 (drop p m) = le_bytes 8 (int v) \<Longrightarrow> v < 18446744073709551616 \<Longrightarrow> nat64_at m p = v"
  by (simp add: nat64_at_def le_value_bytes)

lemma nat32_at_eq: "take 4 (drop p m) = le_bytes 4 (int v) \<Longrightarrow> v < 4294967296 \<Longrightarrow> nat32_at m p = v"
  by (simp add: nat32_at_def le_value_bytes)

text \<open>Numbers that fit into their fields.\<close>

definition record_fits :: "base_table_record \<Rightarrow> bool" where
  "record_fits r \<longleftrightarrow> rec_meta_iblock r < 18446744073709551616 \<and> rec_sync_count r < 4294967296 \<and> rec_mount_count r < 4294967296"

definition base_fits :: "base_table \<Rightarrow> bool" where
  "base_fits b \<longleftrightarrow> bt_sync_count b < 4294967296 \<and> bt_mount_count b < 18446744073709551616 \<and>
     bt_checksum_offset b = base_header_size + base_record_size * length (bt_records b) \<and>
     bt_checksum_offset b < 4294967296 \<and>
     length (last_page_index b) = 5 \<and> length (translation_table_offsets b) = 5 \<and>
     (\<forall>x \<in> set (last_page_index b). x < 18446744073709551616) \<and>
     (\<forall>x \<in> set (translation_table_offsets b). x < 18446744073709551616) \<and>
     (\<forall>r \<in> set (bt_records b). record_fits r)"

section \<open>The base table\<close>

lemma length_encode_record [simp]: "length (encode_record r) = 16"
  by (simp add: encode_record_def)

lemma length_encode_descriptor: "length sig = 4 \<Longrightarrow> length (encode_descriptor sig a b c) = 24"
  by (simp add: encode_descriptor_def)

lemma signature_length [simp]:
  "length VDFS4_SNAPSHOT_BASE_TABLE = 4" "length VDFS4_SNAPSHOT_EXTENDED_TABLE = 4"
  by (simp_all add: VDFS4_SNAPSHOT_BASE_TABLE_def VDFS4_SNAPSHOT_EXTENDED_TABLE_def)

lemma length_encode_base:
  "length (last_page_index b) = 5 \<Longrightarrow> length (translation_table_offsets b) = 5 \<Longrightarrow>
    length (encode_base b) = base_header_size + base_record_size * length (bt_records b)"
  by (simp add: encode_base_def length_encode_descriptor length_blocks [where n = 8] length_blocks [where n = 16]
      base_header_size_def base_record_size_def)

lemma descriptor_fields:
  assumes "length sig = 4" "s < 4294967296" "mt < 18446744073709551616" "c < 18446744073709551616"
  shows "take 4 (encode_descriptor sig s mt c @ r) = sig" "nat32_at (encode_descriptor sig s mt c @ r) 4 = s"
    "nat64_at (encode_descriptor sig s mt c @ r) 8 = mt" "nat64_at (encode_descriptor sig s mt c @ r) 16 = c"
proof -
  show "take 4 (encode_descriptor sig s mt c @ r) = sig" using assms(1) by (simp add: encode_descriptor_def)
  show "nat32_at (encode_descriptor sig s mt c @ r) 4 = s"
    by (rule nat32_at_eq) (use assms in \<open>simp_all add: encode_descriptor_def\<close>)
  show "nat64_at (encode_descriptor sig s mt c @ r) 8 = mt"
    by (rule nat64_at_eq) (use assms in \<open>simp_all add: encode_descriptor_def\<close>)
  show "nat64_at (encode_descriptor sig s mt c @ r) 16 = c"
    by (rule nat64_at_eq) (use assms in \<open>simp_all add: encode_descriptor_def\<close>)
qed

lemma array_field:
  assumes "length pre = p" "i < length xs" "xs ! i < 18446744073709551616"
  shows "nat64_at (pre @ concat (map (\<lambda>x. le_bytes 8 (int x)) xs) @ r) (p + 8 * i) = xs ! i"
proof (rule nat64_at_eq)
  show "take 8 (drop (p + 8 * i) (pre @ concat (map (\<lambda>x. le_bytes 8 (int x)) xs) @ r)) = le_bytes 8 (int (xs ! i))"
    using take_drop_block [of xs "\<lambda>x. le_bytes 8 (int x)" 8 i r] assms(1,2) by (simp add: drop_append)
qed (use assms in simp)

lemma nat64_shift: "nat64_at (pre @ m) (length pre + q) = nat64_at m q"
  by (simp add: nat64_at_def)

lemma nat32_shift: "nat32_at (pre @ m) (length pre + q) = nat32_at m q"
  by (simp add: nat32_at_def)

lemma record_field:
  assumes "length pre = p" "i < length rs" "record_fits (rs ! i)"
  shows "decode_record (pre @ concat (map encode_record rs) @ r) (p + 16 * i) = rs ! i"
proof -
  let ?m = "concat (map encode_record rs) @ r"
  have blk: "take 16 (drop (16 * i) ?m) = encode_record (rs ! i)" using take_drop_block [of rs encode_record 16 i r] assms(2) by simp
  define t where "t = drop (16 * i) ?m"
  have t: "take 16 t = encode_record (rs ! i)" using blk by (simp add: t_def)
  have part: "take k (drop j t) = take k (drop j (take 16 t))" if "j + k \<le> 16" for j k
    using that by (simp add: drop_take min_def)
  have "drop (p + 16 * i + j) (pre @ M) = drop j (drop (16 * i) M)" for j and M :: bytes
    using assms(1) by (simp add: add.commute)
  then have e: "drop (p + 16 * i + j) (pre @ ?m) = drop j t" for j by (simp only: t_def)
  have "nat64_at (pre @ ?m) (p + 16 * i) = rec_meta_iblock (rs ! i)"
    by (rule nat64_at_eq) (use e [of 0] part [of 0 8] t assms(3) in \<open>simp_all add: encode_record_def record_fits_def\<close>)
  moreover have "nat32_at (pre @ ?m) (p + 16 * i + 8) = rec_sync_count (rs ! i)"
    by (rule nat32_at_eq) (use e [of 8] part [of 8 4] t assms(3) in \<open>simp_all add: encode_record_def record_fits_def\<close>)
  moreover have "nat32_at (pre @ ?m) (p + 16 * i + 12) = rec_mount_count (rs ! i)"
    by (rule nat32_at_eq) (use e [of 12] part [of 12 4] t assms(3) in \<open>simp_all add: encode_record_def record_fits_def\<close>)
  ultimately show ?thesis by (simp add: decode_record_def)
qed

lemma decode_encode_base:
  assumes "base_fits b"
  shows "decode_base (encode_base b @ r) = b"
proof -
  let ?d = "encode_descriptor VDFS4_SNAPSHOT_BASE_TABLE (bt_sync_count b) (bt_mount_count b) (bt_checksum_offset b)"
  let ?l = "concat (map (\<lambda>x. le_bytes 8 (int x)) (last_page_index b))"
  let ?o = "concat (map (\<lambda>x. le_bytes 8 (int x)) (translation_table_offsets b))"
  let ?r = "concat (map encode_record (bt_records b)) @ r"
  let ?m = "encode_base b @ r"
  have f: "bt_sync_count b < 4294967296" "bt_mount_count b < 18446744073709551616" "bt_checksum_offset b < 18446744073709551616"
    "length (last_page_index b) = 5" "length (translation_table_offsets b) = 5"
    "bt_checksum_offset b = base_header_size + base_record_size * length (bt_records b)"
    using assms by (simp_all add: base_fits_def)
  have m: "?m = ?d @ ?l @ ?o @ ?r" by (simp add: encode_base_def)
  note d = descriptor_fields [OF signature_length(1) f(1-3), of "?l @ ?o @ ?r", folded m]
  have ld: "length ?d = 24" "length (?d @ ?l) = 64" "length (?d @ ?l @ ?o) = 104"
    using f(4,5) by (simp_all add: length_encode_descriptor length_blocks [where n = 8])
  have l: "nat64_at ?m (24 + 8 * i) = last_page_index b ! i" if "i < 5" for i
    using array_field [OF ld(1), of i "last_page_index b" "?o @ ?r"] that f(4) assms by (simp add: m base_fits_def)
  have o: "nat64_at ?m (64 + 8 * i) = translation_table_offsets b ! i" if "i < 5" for i
    using array_field [OF ld(2), of i "translation_table_offsets b" ?r] that f(5) assms by (simp add: m base_fits_def)
  have rr: "decode_record ?m (104 + 16 * i) = bt_records b ! i" if "i < length (bt_records b)" for i
    using record_field [OF ld(3), of i "bt_records b" r] that assms by (simp add: m base_fits_def)
  have n: "(nat64_at ?m 16 - base_header_size) div base_record_size = length (bt_records b)"
    using d(4) f(6) by (simp add: base_record_size_def)
  have "map (\<lambda>i. nat64_at ?m (24 + 8 * i)) [0 ..< 5] = last_page_index b"
    by (rule nth_equalityI) (use l f(4) in simp_all)
  moreover have "map (\<lambda>i. nat64_at ?m (64 + 8 * i)) [0 ..< 5] = translation_table_offsets b"
    by (rule nth_equalityI) (use o f(5) in simp_all)
  moreover have "map (\<lambda>i. decode_record ?m (base_header_size + base_record_size * i)) [0 ..< length (bt_records b)] = bt_records b"
    by (rule nth_equalityI) (use rr in \<open>simp_all add: base_header_size_def base_record_size_def\<close>)
  ultimately show ?thesis using d(2-4) n by (simp add: decode_base_def)
qed

section \<open>The extended table\<close>

definition ext_record_fits :: "extended_record \<Rightarrow> bool" where
  "ext_record_fits r \<longleftrightarrow> er_object_id r < 18446744073709551616 \<and> er_table_index r < 18446744073709551616 \<and>
     er_meta_iblock r < 18446744073709551616"

definition ext_fits :: "extended_table \<Rightarrow> bool" where
  "ext_fits e \<longleftrightarrow> et_sync_count e < 4294967296 \<and> et_mount_count e < 18446744073709551616 \<and>
     et_checksum_offset e = ext_header_size + ext_record_size * length (et_records e) \<and>
     et_checksum_offset e < 4294967296 \<and> (\<forall>r \<in> set (et_records e). ext_record_fits r)"

lemma length_encode_ext_record [simp]: "length (encode_ext_record r) = 24"
  by (simp add: encode_ext_record_def)

lemma length_encode_ext: "length (encode_ext e) = ext_header_size + ext_record_size * length (et_records e)"
  by (simp add: encode_ext_def length_encode_descriptor length_blocks [where n = 24] ext_header_size_def ext_record_size_def)

lemma ext_record_field:
  fixes r :: bytes
  assumes "length pre = p" "i < length rs" "ext_record_fits (rs ! i)"
  defines "m \<equiv> pre @ concat (map encode_ext_record rs) @ r"
  shows "nat64_at m (p + 24 * i) = er_object_id (rs ! i)" "nat64_at m (p + 24 * i + 8) = er_table_index (rs ! i)"
    "nat64_at m (p + 24 * i + 16) = er_meta_iblock (rs ! i)"
proof -
  let ?m = "concat (map encode_ext_record rs) @ r"
  define t where "t = drop (24 * i) ?m"
  have t: "take 24 t = encode_ext_record (rs ! i)"
    using take_drop_block [of rs encode_ext_record 24 i r] assms(2) by (simp add: t_def)
  have part: "take k (drop j t) = take k (drop j (take 24 t))" if "j + k \<le> 24" for j k
    using that by (simp add: drop_take min_def)
  have "drop (p + 24 * i + j) (pre @ M) = drop j (drop (24 * i) M)" for j and M :: bytes
    using assms(1) by (simp add: add.commute)
  then have e: "drop (p + 24 * i + j) m = drop j t" for j by (simp only: t_def m_def)
  show "nat64_at m (p + 24 * i) = er_object_id (rs ! i)"
    by (rule nat64_at_eq) (use e [of 0] part [of 0 8] t assms(3) in \<open>simp_all add: encode_ext_record_def ext_record_fits_def\<close>)
  show "nat64_at m (p + 24 * i + 8) = er_table_index (rs ! i)"
    by (rule nat64_at_eq) (use e [of 8] part [of 8 8] t assms(3) in \<open>simp_all add: encode_ext_record_def ext_record_fits_def\<close>)
  show "nat64_at m (p + 24 * i + 16) = er_meta_iblock (rs ! i)"
    by (rule nat64_at_eq) (use e [of 16] part [of 16 8] t assms(3) in \<open>simp_all add: encode_ext_record_def ext_record_fits_def\<close>)
qed

lemma decode_encode_ext:
  assumes "ext_fits e"
  shows "decode_ext (encode_ext e @ r) = e"
proof -
  let ?d = "encode_descriptor VDFS4_SNAPSHOT_EXTENDED_TABLE (et_sync_count e) (et_mount_count e) (et_checksum_offset e)"
  let ?c = "le_bytes 4 (int (length (et_records e))) @ le_bytes 4 0"
  let ?m = "encode_ext e @ r"
  have f: "et_sync_count e < 4294967296" "et_mount_count e < 18446744073709551616" "et_checksum_offset e < 18446744073709551616"
    "length (et_records e) < 4294967296"
    using assms by (simp_all add: ext_fits_def ext_record_size_def)
  have m: "?m = ?d @ ?c @ concat (map encode_ext_record (et_records e)) @ r" by (simp add: encode_ext_def)
  note d = descriptor_fields [OF signature_length(2) f(1-3), of "?c @ concat (map encode_ext_record (et_records e)) @ r", folded m]
  have n: "nat32_at ?m 24 = length (et_records e)"
    by (rule nat32_at_eq) (use f(4) in \<open>simp_all add: m length_encode_descriptor\<close>)
  have ld: "length (?d @ ?c) = 32" by (simp add: length_encode_descriptor)
  have rec: "nat64_at ?m (32 + 24 * i) = er_object_id (et_records e ! i)" "nat64_at ?m (32 + 24 * i + 8) = er_table_index (et_records e ! i)"
    "nat64_at ?m (32 + 24 * i + 16) = er_meta_iblock (et_records e ! i)" if "i < length (et_records e)" for i
    using ext_record_field [OF ld that, of r] assms that by (simp_all add: m ext_fits_def)
  have "map (\<lambda>i. let p = ext_header_size + ext_record_size * i in
          \<lparr>er_object_id = nat64_at ?m p, er_table_index = nat64_at ?m (p + 8), er_meta_iblock = nat64_at ?m (p + 16)\<rparr>)
        [0 ..< length (et_records e)] = et_records e"
    by (rule nth_equalityI) (use rec in \<open>simp_all add: ext_header_size_def ext_record_size_def Let_def\<close>)
  then show ?thesis using d(2-4) n by (simp add: decode_ext_def)
qed

section \<open>Signed tables are valid\<close>

lemma sign_table_ok:
  assumes "sign_table crc n (length m) m = Done buf"
  shows "\<exists>r. buf = m @ le_bytes 4 (int (crc m)) @ r" "length buf = n * PAGE_SIZE_bytes" "length m + 4 \<le> n * PAGE_SIZE_bytes"
proof -
  let ?buf = "m @ replicate (n * PAGE_SIZE_bytes - length m) 0"
  have le: "length m + 4 \<le> length ?buf" and b: "buf = take (length m) ?buf @ le_bytes 4 (int (crc (take (length m) ?buf))) @ drop (length m + 4) ?buf"
    using assms by (auto simp: sign_table_def Let_def split: if_splits)
  then show "length m + 4 \<le> n * PAGE_SIZE_bytes" by (simp split: if_splits)
  then show "length buf = n * PAGE_SIZE_bytes" using b by simp
  show "\<exists>r. buf = m @ le_bytes 4 (int (crc m)) @ r" using b by auto
qed

lemma validate_base_signed:
  assumes fits: "base_fits b" and crc: "crc (encode_base b) < 4294967296" "no_check \<or> checksum_on_sb = crc (encode_base b)"
    and buf: "buf = encode_base b @ le_bytes 4 (int (crc (encode_base b))) @ r"
  shows "validate_base_table crc debug_auth no_check checksum_on_sb buf = Done (VDFS4_SNAPSHOT_VERSION (bt_mount_count b) (bt_sync_count b))"
proof -
  have f: "bt_sync_count b < 4294967296" "bt_mount_count b < 18446744073709551616" "bt_checksum_offset b < 18446744073709551616"
    "bt_checksum_offset b < 4294967296"
    using fits by (simp_all add: base_fits_def)
  have len: "length (encode_base b) = bt_checksum_offset b" using fits by (simp add: base_fits_def length_encode_base)
  obtain rest where rest: "buf = encode_descriptor VDFS4_SNAPSHOT_BASE_TABLE (bt_sync_count b) (bt_mount_count b) (bt_checksum_offset b) @ rest"
    by (simp add: buf encode_base_def)
  note d = descriptor_fields [OF signature_length(1) f(1-3), of rest, folded rest]
  have c: "nat32_at buf (bt_checksum_offset b) = crc (encode_base b)"
    by (rule nat32_at_eq) (use len crc(1) in \<open>simp_all add: buf\<close>)
  have t: "take (bt_checksum_offset b) buf = encode_base b" using len by (simp add: buf)
  have l: "bt_checksum_offset b + 4 \<le> length buf" using len by (simp add: buf)
  show ?thesis
    unfolding validate_base_table_def Let_def d u32n_id [OF f(4)] c t VDFS4_IS_COW_TABLE_def table_version_def
    using l crc(2) by auto
qed

lemma validate_ext_signed:
  assumes fits: "ext_fits e" and crc: "crc (encode_ext e) < 4294967296"
    and buf: "buf = encode_ext e @ le_bytes 4 (int (crc (encode_ext e))) @ r"
  shows "validate_extended_table crc buf = Done (VDFS4_SNAPSHOT_VERSION (et_mount_count e) (et_sync_count e))"
proof -
  have f: "et_sync_count e < 4294967296" "et_mount_count e < 18446744073709551616" "et_checksum_offset e < 18446744073709551616"
    "et_checksum_offset e < 4294967296"
    using fits by (simp_all add: ext_fits_def)
  have len: "length (encode_ext e) = et_checksum_offset e" using fits by (simp add: ext_fits_def length_encode_ext)
  obtain rest where rest: "buf = encode_descriptor VDFS4_SNAPSHOT_EXTENDED_TABLE (et_sync_count e) (et_mount_count e) (et_checksum_offset e) @ rest"
    by (simp add: buf encode_ext_def)
  note d = descriptor_fields [OF signature_length(2) f(1-3), of rest, folded rest]
  have c: "nat32_at buf (et_checksum_offset e) = crc (encode_ext e)"
    by (rule nat32_at_eq) (use len crc in \<open>simp_all add: buf\<close>)
  have t: "take (et_checksum_offset e) buf = encode_ext e" using len by (simp add: buf)
  have l: "et_checksum_offset e + 4 \<le> length buf" using len by (simp add: buf)
  show ?thesis
    unfolding validate_extended_table_def Let_def d u32n_id [OF f(4)] c t table_version_def
    using l by simp
qed

end
