(* ===== verification/Vdfs_Snapshot_Grow.thy ===== *)
theory Vdfs_Snapshot_Grow
  imports Vdfs_Snapshot_Cow Vdfs_Fsm_Alloc
begin

text \<open>
  The growth of the metadata (\<^verbatim>\<open>snapshot.c\<close>): how large a step is, the expansion of the metadata area
  with blocks of the free space manager, new entries of the translation tables, and the checks
  that decide when an expansion or a commit is needed.
\<close>

section \<open>State\<close>

text \<open>
  The snapshot manager together with the free space manager and the fields of the superblock it
  uses. \<open>meta_dirty\<close> are the dirty pages of the metadata files; \<open>bdev_bytes\<close> is the size of the device.
\<close>

record vdfs4_meta =
  snapshot_info :: vdfs4_snapshot_info
  fsm_info :: vdfs4_fsm_info
  exsb_meta :: "(int \<times> int) list"
  exsb_meta_tbc :: int
  exsb_tables_begin :: int
  exsb_tables_length :: int
  exsb_dirty :: bool
  meta_dirty :: "(nat \<times> nat) set"
  bdev_bytes :: int
  sbi_block_size :: int

text \<open>What the allocators of the kernel answer, and the environment of the free space manager.\<close>

record meta_env =
  me_fsm :: fsm_env
  me_vmalloc :: bool
  me_kzalloc :: bool

definition VDFS4_META_BTREE_EXTENTS :: nat where "VDFS4_META_BTREE_EXTENTS = 96"
definition VDFS4_FSM_ALLOC_METADATA :: nat where "VDFS4_FSM_ALLOC_METADATA = 4"

section \<open>Sizes\<close>

text \<open>
  \<^verbatim>\<open>__fls\<close> of 0 and a shift of an \<^verbatim>\<open>int\<close> by 32 have no meaning.
\<close>

definition align_to_power_of_two :: "int \<Rightarrow> int outcome" where
  "align_to_power_of_two v =
     (if v = 0 then Undef
      else let pow2 = fls_bit (nat v);
               pow2_align = (if v \<noteq> 2 ^ pow2 then Suc pow2 else pow2)
           in if pow2_align \<ge> 32 then Undef else Done (2 ^ pow2_align))"

definition get_minimal_meta_expand_step :: "vdfs4_meta \<Rightarrow> int outcome" where
  "get_minimal_meta_expand_step m =
     (let lsp = log_super_page_size (fsm_info m); lb = log_block_size (fsm_info m);
          step = u32 (2 * (3 * 2 ^ lsp + 2 * sbi_block_size m));
          bps = 2 ^ (lsp - lb);
          step1 = step div 2 ^ lb
      in align_to_power_of_two (u32 (step1 + (bps - step1 mod bps))))"

definition calculate_expand_step :: "vdfs4_meta \<Rightarrow> int outcome" where
  "calculate_expand_step m =
     bind_outcome (get_minimal_meta_expand_step m) (\<lambda>minimal.
       let volume_size = bdev_bytes m div 2 ^ 5
       in if u32 (minimal * 2 ^ log_block_size (fsm_info m)) > volume_size then Done (u32 (minimal * 2))
          else align_to_power_of_two
                 (max (u32 (free_blocks_count (fsm_info m)) div int VDFS4_META_BTREE_EXTENTS) (u32 (minimal * 4))))"

definition blocks_per_node :: "vdfs4_snapshot_info \<Rightarrow> nat \<Rightarrow> int" where
  "blocks_per_node s ino =
     2 ^ (if is_tree ino then log_blocks_in_page s + log_blocks_in_leb s else log_blocks_in_page s)"

definition meta_area_free_blocks :: "vdfs4_meta \<Rightarrow> int" where
  "meta_area_free_blocks m =
     fold (\<lambda>ino free_blocks.
             u32 (free_blocks - u32 (blocks_per_node (snapshot_info m) ino *
               u32 (u32 (int (VDFS4_LAST_TABLE_INDEX (base_t (snapshot_info m)) ino)) + 1))))
       special_files (exsb_meta_tbc m)"

definition is_lackage_meta_free_blocks_to_use :: "vdfs4_meta \<Rightarrow> int \<Rightarrow> bool" where
  "is_lackage_meta_free_blocks_to_use m threshold =
     (let free_blocks = meta_area_free_blocks m; cow = int (cow_blocks (snapshot_info m))
      in if free_blocks < cow then False
         else free_blocks - cow < u64 (free_blocks div 100 * threshold))"

text \<open>\<open>threshold_in_blocks\<close> is an \<^verbatim>\<open>int\<close>; compared with an \<^verbatim>\<open>unsigned long\<close> it is not negative for areas below 2147483648 blocks.\<close>

definition vdfs4_is_enospc :: "vdfs4_meta \<Rightarrow> int \<Rightarrow> bool" where
  "vdfs4_is_enospc m threshold =
     (let ttb = exsb_meta_tbc m
      in if threshold < 0 \<or> threshold > 100 then True
         else if meta_area_free_blocks m > ttb div 3 then False
         else ttb div 100 * threshold >
           int (free_blocks_in_bitmap (snapshot_bitmap (snapshot_info m)) (bitmap_size_in_bits (snapshot_info m))))"

definition is_commit_required :: "vdfs4_meta \<Rightarrow> bool" where
  "is_commit_required m =
     (if free_blocks_count (fsm_info m) = 0 \<and> next_free_blocks (fsm_info m) \<noteq> 0 then True
      else is_lackage_meta_free_blocks_to_use m 5)"

definition vdfs4_special_file_size :: "vdfs4_meta \<Rightarrow> nat \<Rightarrow> int" where
  "vdfs4_special_file_size m ino =
     (let lpi = int (VDFS4_LAST_TABLE_INDEX (base_t (snapshot_info m)) ino)
      in if is_tree ino then 2 ^ log_super_page_size (fsm_info m) * (lpi + 1)
         else int PAGE_SIZE_bytes * (lpi + 1))"

section \<open>Expanding the metadata area\<close>

text \<open>
  The pages of the free space bitmap that the free space manager has changed are chunks of the
  metadata too: \<^verbatim>\<open>vdfs4_fsm_get_free_block\<close> ends with a call of \<^verbatim>\<open>vdfs4_add_chunk_bitmap\<close> for each of
  them. The model of the free space manager lists them.
\<close>

definition add_fsm_pages :: "vdfs4_fsm_info \<Rightarrow> vdfs4_fsm_info \<Rightarrow> vdfs4_meta \<Rightarrow> vdfs4_meta outcome" where
  "add_fsm_pages old new m =
     bind_outcome
       (for_each (\<lambda>p (d, s). vdfs4_add_chunk_bitmap d s VDFS4_SPACE_BITMAP_INO (nat p))
          (drop (length (dirty_pages old)) (dirty_pages new)) (meta_dirty m, snapshot_info m))
       (\<lambda>(d, s). Done (m\<lparr>fsm_info := new, meta_dirty := d, snapshot_info := s\<rparr>))"

text \<open>
  \<^verbatim>\<open>expand_area\<close> on the extents of the metadata area. With no extent in use the pointer to the last
  one lies before the array.
\<close>

definition expand_area :: "meta_env \<Rightarrow> int \<Rightarrow> int \<Rightarrow> vdfs4_meta \<Rightarrow> (status \<times> vdfs4_meta) outcome" where
  "expand_area env min_expand_blk_count max_expand_blk_count m =
     (let extents = exsb_meta m;
          used = length (takeWhile (\<lambda>e. fst e \<noteq> 0) (take VDFS4_META_BTREE_EXTENTS extents))
      in if used \<ge> VDFS4_META_BTREE_EXTENTS then Done (Some ENOSPC, m)
         else if used = 0 then Undef
         else
           let (begin, len) = extents ! (used - 1);
               end_offset = u64 (begin + u32 len)
           in bind_outcome
                (vdfs4_fsm_get_free_block (me_fsm env) end_offset max_expand_blk_count min_expand_blk_count
                   (VDFS4_FSM_ALLOC_ALIGNED + VDFS4_FSM_ALLOC_METADATA) (fsm_info m))
                (\<lambda>(start_offset, n, f). bind_outcome (add_fsm_pages (fsm_info m) f m) (\<lambda>m1.
                   if start_offset = 0 then Done (Some ENOSPC, m1)
                   else
                     let extents' = (if end_offset = start_offset
                                     then extents[used - 1 := (begin, u32 (u32 len + n))]
                                     else extents[used := (start_offset, u32 n)])
                     in Done (success, m1\<lparr>exsb_meta := extents', exsb_meta_tbc := u32 (exsb_meta_tbc m1 + n)\<rparr>))))"

definition vdfs4_check_meta_space :: "meta_env \<Rightarrow> vdfs4_meta \<Rightarrow> (status \<times> vdfs4_meta) outcome" where
  "vdfs4_check_meta_space env m =
     (if meta_area_free_blocks m > exsb_meta_tbc m div 3 then Done (success, m)
      else bind_outcome (get_minimal_meta_expand_step m) (\<lambda>mn.
           bind_outcome (calculate_expand_step m) (\<lambda>mx.
           bind_outcome (expand_area env mn mx m) (\<lambda>(ret, m1).
             Done (success, if ret = success then m1\<lparr>exsb_dirty := True\<rparr> else m1)))))"

section \<open>New entries of the translation tables\<close>

text \<open>
  \<^verbatim>\<open>memmove\<close> of the records behind the table of the file; the gap keeps its old bytes until the new
  records are written over them.
\<close>

definition open_gap :: "nat \<Rightarrow> nat \<Rightarrow> base_table_record list \<Rightarrow> base_table_record list" where
  "open_gap p n recs =
     take p recs @
     take n (drop p recs @ replicate n \<lparr>rec_meta_iblock = 0, rec_sync_count = 0, rec_mount_count = 0\<rparr>) @
     drop p recs"

definition shift_offset :: "base_table \<Rightarrow> nat \<Rightarrow> nat \<Rightarrow> nat \<Rightarrow> nat list \<Rightarrow> nat list" where
  "shift_offset b ino add_size other offs =
     (if offs ! VDFS4_SF_INDEX ino \<ge> offs ! VDFS4_SF_INDEX other then offs
      else offs[VDFS4_SF_INDEX other := offs ! VDFS4_SF_INDEX other + add_size])"

definition insert_record ::
    "nat \<Rightarrow> nat \<Rightarrow> vdfs4_snapshot_info \<Rightarrow> vdfs4_snapshot_info outcome" where
  "insert_record ino i s =
     bind_outcome (get_new_meta_iblock s ino) (\<lambda>(ret, s1).
       case ret of
         Inl e \<Rightarrow> Bug
       | Inr new_position \<Rightarrow>
           bind_outcome (table_write (base_t s1) ino i
             \<lparr>rec_meta_iblock = new_position, rec_sync_count = sn_sync_count s1, rec_mount_count = mount_counter s1\<rparr>)
             (\<lambda>b. Done (s1\<lparr>base_t := b\<rparr>)))"

definition insert_new_iblocks :: "nat \<Rightarrow> nat \<Rightarrow> vdfs4_snapshot_info \<Rightarrow> vdfs4_snapshot_info outcome" where
  "insert_new_iblocks ino new_last_table_index s =
     (let b = base_t s; last_table_index = VDFS4_LAST_TABLE_INDEX b ino
      in if last_table_index > new_last_table_index then Bug
         else bind_outcome (vdfs4_get_table b ino) (\<lambda>t.
           let n = new_last_table_index - last_table_index;
               add_size = base_record_size * n;
               p = t + (last_table_index + 1)
           in if bt_checksum_offset b + add_size > base_pages s * PAGE_SIZE_bytes \<or> p > length (bt_records b) then Undef
              else
                let b1 = b\<lparr>bt_records := open_gap p n (bt_records b),
                           translation_table_offsets := fold (shift_offset b ino add_size) special_files (translation_table_offsets b),
                           bt_checksum_offset := u32n (u32n (bt_checksum_offset b) + add_size)\<rparr>
                in bind_outcome (for_each (insert_record ino) [last_table_index + 1 ..< new_last_table_index + 1] (s\<lparr>base_t := b1\<rparr>)) (\<lambda>s1.
                     Done (s1\<lparr>base_t := (base_t s1)\<lparr>last_page_index :=
                               (last_page_index (base_t s1))[VDFS4_SF_INDEX ino := u32n new_last_table_index]\<rparr>,
                             dirty_pages_count := u32n (dirty_pages_count s1 +
                               (if is_tree ino then 2 ^ log_blocks_in_leb s1 * n else n))\<rparr>))))"

section \<open>Growing the tables and the special files\<close>

definition VDFS4_SNAPSHOT_EXT_SIZE :: int where "VDFS4_SNAPSHOT_EXT_SIZE = 4096"
definition VDFS4_SNAPSHOT_EXT_TABLES :: int where "VDFS4_SNAPSHOT_EXT_TABLES = 8"

definition div_round_up :: "nat \<Rightarrow> nat \<Rightarrow> nat" where
  "div_round_up a b = (a + b - 1) div b"

text \<open>The memory of a bitmap of \<open>n\<close> bits, and its growth.\<close>

definition bitmap_words :: "nat \<Rightarrow> nat" where
  "bitmap_words n = div_round_up n 64 * 64"

definition grow_bitmap :: "nat \<Rightarrow> bitmap \<Rightarrow> bitmap" where
  "grow_bitmap n bits = bits @ replicate (bitmap_words n - length bits) False"

definition expand_translation_tables ::
    "meta_env \<Rightarrow> nat \<Rightarrow> nat \<Rightarrow> vdfs4_meta \<Rightarrow> (status \<times> vdfs4_meta) outcome" where
  "expand_translation_tables env ino new_table_index m =
     (let s = snapshot_info m; tables_size = bt_checksum_offset (base_t s) + CRC32_SIZE_bytes;
          grow_table = tables_size mod PAGE_SIZE_bytes + base_record_size > PAGE_SIZE_bytes;
          grow_bits = exsb_meta_tbc m > int (bitmap_size_in_bits s)
      in if int (tables_size + base_record_size) >
              u64 (exsb_tables_length m div 2 - VDFS4_SNAPSHOT_EXT_TABLES * VDFS4_SNAPSHOT_EXT_SIZE)
         then Done (Some ENOSPC, m)
         else if grow_table \<and> \<not> me_vmalloc env then Done (Some ENOMEM, m)
         else
           let s1 = (if grow_table then s\<lparr>base_pages := div_round_up (tables_size + base_record_size) PAGE_SIZE_bytes\<rparr> else s)
           in if grow_bits \<and> \<not> me_kzalloc env then Done (Some ENOMEM, m\<lparr>snapshot_info := s1\<rparr>)
              else
                let sz = nat (exsb_meta_tbc m);
                    s2 = (if grow_bits
                          then s1\<lparr>snapshot_bitmap := grow_bitmap sz (snapshot_bitmap s1),
                                  moved_iblock := grow_bitmap sz (moved_iblock s1),
                                  next_snapshot_bitmap := grow_bitmap sz (next_snapshot_bitmap s1),
                                  bitmap_size_in_bits := sz\<rparr>
                          else s1)
                in bind_outcome (insert_new_iblocks ino new_table_index s2) (\<lambda>s3.
                     Done (success, m\<lparr>snapshot_info := s3\<rparr>)))"

definition expand_special_file ::
    "meta_env \<Rightarrow> nat \<Rightarrow> nat \<Rightarrow> bool \<Rightarrow> vdfs4_meta \<Rightarrow> (status \<times> vdfs4_meta) outcome" where
  "expand_special_file env ino new_table_index force_insert m =
     (let s = snapshot_info m; last_table_index = VDFS4_LAST_TABLE_INDEX (base_t s) ino;
          meta_tbc = exsb_meta_tbc m
      in if new_table_index \<le> last_table_index then Done (Some EINVAL, m)
         else
           let new_blocks_count = u32 (u32 (int (new_table_index - last_table_index)) * blocks_per_node s ino);
               free_blocks = meta_area_free_blocks m
           in if free_blocks - new_blocks_count < meta_tbc div 3 then
                bind_outcome (get_minimal_meta_expand_step m) (\<lambda>mn.
                bind_outcome (calculate_expand_step m) (\<lambda>mx.
                bind_outcome (expand_area env mn mx m) (\<lambda>(ret, m1).
                  case ret of
                    Some e \<Rightarrow>
                      let s1 = snapshot_info m1;
                          (free, contig_avail) = free_blocks_in_bitmap_contig_check (snapshot_bitmap s1)
                             (bitmap_size_in_bits s1) (nat new_blocks_count)
                      in bind_outcome (get_minimal_meta_expand_step m1) (\<lambda>mn1.
                           if \<not> force_insert \<and> int free - new_blocks_count < 10 * mn1 then Done (Some e, m1)
                           else if \<not> contig_avail then Done (Some ENOSPC, m1)
                           else expand_translation_tables env ino new_table_index m1)
                  | None \<Rightarrow> expand_translation_tables env ino new_table_index (m1\<lparr>exsb_dirty := True\<rparr>))))
              else expand_translation_tables env ino new_table_index m)"

text \<open>
  \<^verbatim>\<open>vdfs4_check_page_offset\<close>: besides the status, the new value of \<^verbatim>\<open>is_new\<close> if it is set, and the new
  size of the special file if it changes.
\<close>

definition vdfs4_check_page_offset ::
    "meta_env \<Rightarrow> nat \<Rightarrow> nat \<Rightarrow> bool \<Rightarrow> vdfs4_meta \<Rightarrow>
     (status \<times> bool option \<times> int option \<times> vdfs4_meta) outcome" where
  "vdfs4_check_page_offset env object_id page_index force_insert m =
     (let s = snapshot_info m; table_index = GET_TABLE_INDEX s object_id page_index
      in if table_index > VDFS4_LAST_TABLE_INDEX (base_t s) object_id then
           bind_outcome (expand_special_file env object_id table_index force_insert m) (\<lambda>(ret, m1).
             case ret of
               Some e \<Rightarrow> Done (Some e, None, None, m1)
             | None \<Rightarrow>
                 let m2 = m1\<lparr>snapshot_info := (snapshot_info m1)\<lparr>use_base_table := True\<rparr>\<rparr>
                 in Done (success, Some True, Some (vdfs4_special_file_size m2 object_id), m2))
         else Done (success, Some False, None, m))"

definition vdfs4_get_page_version :: "vdfs4_snapshot_info \<Rightarrow> nat \<Rightarrow> nat \<Rightarrow> nat outcome" where
  "vdfs4_get_page_version s ino page_index =
     bind_outcome (table_read (base_t s) ino (GET_TABLE_INDEX s ino page_index)) (\<lambda>r.
       Done (rec_mount_count r * 2 ^ 32 + rec_sync_count r))"

section \<open>Transactions\<close>

text \<open>
  \<^verbatim>\<open>vdfs4_start_transaction\<close> and \<^verbatim>\<open>vdfs4_stop_transaction\<close> of one task: its nesting depth, and how often
  it holds the transaction lock for reading. \<open>flush\<close> says that the delayed commit runs first,
  \<open>schedule\<close> that a delayed commit is queued.
\<close>

record task_state =
  transaction_count :: nat
  readers :: nat

definition vdfs4_start_transaction :: "bool \<Rightarrow> task_state \<Rightarrow> bool \<times> task_state" where
  "vdfs4_start_transaction commit_required t =
     (if transaction_count t = 0
      then (commit_required, t\<lparr>readers := readers t + 1, transaction_count := transaction_count t + 1\<rparr>)
      else (False, t\<lparr>transaction_count := transaction_count t + 1\<rparr>))"

definition vdfs4_stop_transaction :: "task_state \<Rightarrow> (bool \<times> task_state) outcome" where
  "vdfs4_stop_transaction t =
     (if transaction_count t = 0 then Bug
      else if transaction_count t = 1 then Done (True, t\<lparr>readers := readers t - 1, transaction_count := 0\<rparr>)
      else Done (False, t\<lparr>transaction_count := transaction_count t - 1\<rparr>))"

end
