(* ===== verification/Vdfs_Snapshot_Insert.thy ===== *)
theory Vdfs_Snapshot_Insert
  imports Vdfs_Snapshot_Grow
begin

text \<open>
  New entries of the translation tables keep the invariant of the snapshot manager: the tables of
  the other files keep their entries, and the new chunks lie outside of the committed and of the
  current state.
\<close>

section \<open>One more chunk\<close>

lemma cow_inv_cong:
  assumes inv: "cow_inv C s" and g: "same_geometry s s'" "layout_ok (base_t s')" "keys s' = keys s"
    and pos: "\<And>k. k \<in> keys s \<Longrightarrow> position s' k = position s k"
    and b: "snapshot_bitmap s' = snapshot_bitmap s" "next_snapshot_bitmap s' = next_snapshot_bitmap s"
      "moved_iblock s' = moved_iblock s" "cow_blocks s' = cow_blocks s"
  shows "cow_inv C s'" "refs s' = refs s"
proof -
  have gg: "log_blocks_in_leb s' = log_blocks_in_leb s" "log_blocks_in_page s' = log_blocks_in_page s"
    "sn_block_size_shift s' = sn_block_size_shift s" "bitmap_size_in_bits s' = bitmap_size_in_bits s"
    using g(1) by (simp_all add: same_geometry_def)
  have o: "order_of s' = order_of s" by (rule order_of_eq) (use gg in simp_all)
  have ch: "chunk s' k = chunk s k" if "k \<in> keys s" for k
    using pos [OF that] by (simp add: chunk_def area_def o)
  show r: "refs s' = refs s" using ch by (simp add: refs_def g(3))
  have "disjoint_family_on (chunk s') (keys s') = disjoint_family_on (chunk s) (keys s)"
    unfolding g(3) disjoint_family_on_def using ch by (auto simp: disjoint_iff)
  moreover have "shape_ok s'" using inv g(2) gg b by (simp add: cow_inv_def shape_ok_def)
  ultimately show "cow_inv C s'"
    using inv ch pos unfolding cow_inv_def g(3) r b gg o by auto
qed

lemma cow_inv_grow:
  assumes inv: "cow_inv C s" and k: "k \<notin> keys s" and free: "free_area_at s (fst k) p"
    and g: "same_geometry s s'" "layout_ok (base_t s')" "keys s' = insert k (keys s)"
    and pos: "\<And>j. j \<in> keys s' \<Longrightarrow> position s' j = (if j = k then p else position s j)"
    and b: "bset (snapshot_bitmap s') = bset (snapshot_bitmap s) \<union> area s (fst k) p"
      "bset (next_snapshot_bitmap s') = bset (next_snapshot_bitmap s) \<union> area s (fst k) p"
      "bset (moved_iblock s') = bset (moved_iblock s) \<union> area s (fst k) p"
      "cow_blocks s' = cow_blocks s"
  shows "cow_inv C s'" "refs s' = refs s \<union> area s (fst k) p"
proof -
  define N where "N = area s (fst k) p"
  have gg: "log_blocks_in_leb s' = log_blocks_in_leb s" "log_blocks_in_page s' = log_blocks_in_page s"
    "sn_block_size_shift s' = sn_block_size_shift s" "bitmap_size_in_bits s' = bitmap_size_in_bits s"
    using g(1) by (simp_all add: same_geometry_def)
  have o: "order_of s' = order_of s" by (rule order_of_eq) (use gg in simp_all)
  have ck: "chunk s' k = N" using pos [of k] g(3) by (simp add: chunk_def area_def o N_def)
  have ch: "chunk s' j = chunk s j" if "j \<in> keys s" for j
  proof -
    have "j \<noteq> k" using that k by blast
    then show ?thesis using pos [of j] g(3) that by (simp add: chunk_def area_def o)
  qed
  have i: "disjoint_family_on (chunk s) (keys s)" "refs s \<subseteq> {..<bitmap_size_in_bits s}" "C \<subseteq> {..<bitmap_size_in_bits s}"
    "bset (next_snapshot_bitmap s) = refs s" "bset (snapshot_bitmap s) = C \<union> refs s" "bset (moved_iblock s) \<subseteq> refs s"
    "cow_blocks s = card (C - refs s)"
    using inv by (simp_all add: cow_inv_def)
  have N: "N \<inter> (C \<union> refs s) = {}" "N \<subseteq> {..<bitmap_size_in_bits s}"
    using free i(5) by (auto simp: free_area_at_def N_def area_def)
  show r: "refs s' = refs s \<union> area s (fst k) p" using ch ck by (auto simp: refs_def g(3) N_def)
  have dis: "disjoint_family_on (chunk s') (keys s')"
    unfolding disjoint_family_on_def g(3)
  proof (intro ballI impI)
    fix x y assume xy: "x \<in> insert k (keys s)" "y \<in> insert k (keys s)" "x \<noteq> y"
    have n: "chunk s j \<inter> N = {}" if "j \<in> keys s" for j using N(1) cow_inv_chunk_le(1) [OF inv that] by blast
    show "chunk s' x \<inter> chunk s' y = {}"
      using xy ck ch [of x] ch [of y] n [of x] n [of y] i(1) Int_commute [of N "chunk s y"]
      by (cases "x = k"; cases "y = k") (simp_all add: disjoint_family_on_def)
  qed
  have shape: "shape_ok s'" using inv g(1,2) by (simp add: cow_inv_def shape_ok_def same_geometry_def)
  have each: "chunk s' j \<subseteq> bset (moved_iblock s') \<or> chunk s' j \<inter> bset (moved_iblock s') = {} \<and> chunk s' j \<subseteq> C"
    if "j \<in> keys s'" for j
  proof (cases "j = k")
    case True
    then show ?thesis using ck b(3) by (simp add: N_def)
  next
    case False
    then have j: "j \<in> keys s" using that g(3) by simp
    have "chunk s j \<inter> N = {}" using N(1) cow_inv_chunk_le(1) [OF inv j] by blast
    moreover have "chunk s j \<subseteq> bset (moved_iblock s) \<or> chunk s j \<inter> bset (moved_iblock s) = {} \<and> chunk s j \<subseteq> C"
      using inv j by (simp add: cow_inv_def)
    ultimately show ?thesis using ch [OF j] b(3) by (auto simp: N_def)
  qed
  have al: "2 ^ order_of s' (fst j) dvd position s' j" if "j \<in> keys s'" for j
  proof (cases "j = k")
    case True
    then show ?thesis using pos [OF that] free o by (simp add: free_area_at_def)
  next
    case False
    then show ?thesis using pos [OF that] that g(3) inv o by (simp add: cow_inv_def)
  qed
  have "C - refs s' = C - refs s" using N(1) r by (auto simp: N_def)
  then show "cow_inv C s'"
    unfolding cow_inv_def using shape dis i N each al b r gg by (auto simp: N_def)
qed

section \<open>Opening the gap\<close>

lemma length_open_gap [simp]: "p \<le> length recs \<Longrightarrow> length (open_gap p n recs) = length recs + n"
  by (simp add: open_gap_def)

lemma nth_open_gap:
  assumes "p \<le> length recs"
  shows "i < p \<Longrightarrow> open_gap p n recs ! i = recs ! i"
    and "p \<le> i \<Longrightarrow> i < length recs \<Longrightarrow> open_gap p n recs ! (i + n) = recs ! i"
proof -
  define mid where "mid = take n (drop p recs @ replicate n \<lparr>rec_meta_iblock = 0, rec_sync_count = 0, rec_mount_count = 0\<rparr>)"
  have len: "length mid = n" and eq: "open_gap p n recs = (take p recs @ mid) @ drop p recs"
    by (simp_all add: mid_def open_gap_def)
  show "open_gap p n recs ! i = recs ! i" if "i < p" using that assms by (simp add: eq nth_append)
  show "open_gap p n recs ! (i + n) = recs ! i" if "p \<le> i" "i < length recs"
    using that assms len by (simp add: eq nth_append)
qed

text \<open>The loop over the offsets shifts the tables that lie behind the one that grows.\<close>

lemma special_cases: "special ino \<longleftrightarrow> ino = 2 \<or> ino = 3 \<or> ino = 4 \<or> ino = 5 \<or> ino = 6"
  by (auto simp: special_def ino_defs)

lemma special_files_eq: "special_files = [2, 3, 4, 5, 6]"
  by (simp add: special_files_def ino_defs upt_rec)

lemma SF_INDEX_less: "special ino \<Longrightarrow> VDFS4_SF_INDEX ino < 5"
  by (auto simp: special_cases VDFS4_SF_INDEX_def ino_defs)

lemma SF_INDEX_inj: "special a \<Longrightarrow> special b \<Longrightarrow> VDFS4_SF_INDEX a = VDFS4_SF_INDEX b \<longleftrightarrow> a = b"
  by (auto simp: special_def VDFS4_SF_INDEX_def)

lemma fold_shift_offset:
  assumes "special ino" "set xs \<subseteq> {x. special x}" "distinct xs" "length offs = 5" "special x"
  shows "length (fold (shift_offset b ino n) xs offs) = 5"
    and "fold (shift_offset b ino n) xs offs ! VDFS4_SF_INDEX x =
      (if x \<in> set xs \<and> offs ! VDFS4_SF_INDEX ino < offs ! VDFS4_SF_INDEX x
       then offs ! VDFS4_SF_INDEX x + n else offs ! VDFS4_SF_INDEX x)"
proof -
  have "length (fold (shift_offset b ino n) xs offs) = 5 \<and>
    (\<forall>x. special x \<longrightarrow> fold (shift_offset b ino n) xs offs ! VDFS4_SF_INDEX x =
      (if x \<in> set xs \<and> offs ! VDFS4_SF_INDEX ino < offs ! VDFS4_SF_INDEX x
       then offs ! VDFS4_SF_INDEX x + n else offs ! VDFS4_SF_INDEX x))"
    using assms(2-4)
  proof (induction xs arbitrary: offs)
    case (Cons y ys)
    define offs1 where "offs1 = shift_offset b ino n y offs"
    have y: "special y" "y \<notin> set ys" using Cons.prems by simp_all
    have len1: "length offs1 = 5" using Cons.prems by (simp add: offs1_def shift_offset_def)
    have o1: "offs1 ! VDFS4_SF_INDEX z = (if z = y \<and> offs ! VDFS4_SF_INDEX ino < offs ! VDFS4_SF_INDEX y
        then offs ! VDFS4_SF_INDEX y + n else offs ! VDFS4_SF_INDEX z)" if "special z" for z
      using that y(1) SF_INDEX_inj [OF that y(1)] SF_INDEX_less [OF y(1)] Cons.prems(3)
      by (auto simp: offs1_def shift_offset_def nth_list_update)
    have o2: "offs1 ! VDFS4_SF_INDEX ino = offs ! VDFS4_SF_INDEX ino" using o1 [OF assms(1)] by auto
    have ih: "length (fold (shift_offset b ino n) ys offs1) = 5 \<and>
      (\<forall>x. special x \<longrightarrow> fold (shift_offset b ino n) ys offs1 ! VDFS4_SF_INDEX x =
        (if x \<in> set ys \<and> offs1 ! VDFS4_SF_INDEX ino < offs1 ! VDFS4_SF_INDEX x
         then offs1 ! VDFS4_SF_INDEX x + n else offs1 ! VDFS4_SF_INDEX x))"
      using Cons.IH [of offs1] Cons.prems len1 by simp
    show ?case
      using ih o1 o2 y(2) by (auto simp: offs1_def [symmetric])
  qed simp
  then show "length (fold (shift_offset b ino n) xs offs) = 5"
    "fold (shift_offset b ino n) xs offs ! VDFS4_SF_INDEX x =
      (if x \<in> set xs \<and> offs ! VDFS4_SF_INDEX ino < offs ! VDFS4_SF_INDEX x
       then offs ! VDFS4_SF_INDEX x + n else offs ! VDFS4_SF_INDEX x)"
    using assms(5) by simp_all
qed

text \<open>The tables after the gap has been opened: every file keeps its entries.\<close>

definition gap_table :: "nat \<Rightarrow> nat \<Rightarrow> base_table \<Rightarrow> base_table" where
  "gap_table ino n b = b\<lparr>
     bt_records := open_gap (slot b ino + Suc (VDFS4_LAST_TABLE_INDEX b ino)) n (bt_records b),
     translation_table_offsets := fold (shift_offset b ino (base_record_size * n)) special_files (translation_table_offsets b),
     bt_checksum_offset := bt_checksum_offset b + base_record_size * n\<rparr>"

lemma gap_slot:
  assumes "layout_ok b" "special ino" "special x"
  shows "translation_table_offsets (gap_table ino n b) ! VDFS4_SF_INDEX x =
      base_header_size + base_record_size * (if slot b ino < slot b x then slot b x + n else slot b x)"
    and "slot (gap_table ino n b) x = (if slot b ino < slot b x then slot b x + n else slot b x)"
    and "VDFS4_LAST_TABLE_INDEX (gap_table ino n b) x = VDFS4_LAST_TABLE_INDEX b x"
proof -
  have off: "translation_table_offsets b ! VDFS4_SF_INDEX z = base_header_size + base_record_size * slot b z" if "special z" for z
    using assms(1) that by (simp add: layout_ok_def)
  have len: "length (translation_table_offsets b) = 5" using assms(1) by (simp add: layout_ok_def)
  have sf: "set special_files \<subseteq> {x. special x}" "distinct special_files" "x \<in> set special_files"
    using assms(3) by (simp_all add: special_files_set) (simp add: special_files_eq)
  show o: "translation_table_offsets (gap_table ino n b) ! VDFS4_SF_INDEX x =
      base_header_size + base_record_size * (if slot b ino < slot b x then slot b x + n else slot b x)"
    using fold_shift_offset(2) [OF assms(2) sf(1,2) len assms(3), of b "base_record_size * n"] sf(3) off assms(2,3)
    by (simp add: gap_table_def base_record_size_def algebra_simps)
  show "slot (gap_table ino n b) x = (if slot b ino < slot b x then slot b x + n else slot b x)"
    using o by (simp add: slot_def base_record_size_def)
  show "VDFS4_LAST_TABLE_INDEX (gap_table ino n b) x = VDFS4_LAST_TABLE_INDEX b x"
    by (simp add: gap_table_def VDFS4_LAST_TABLE_INDEX_def)
qed

lemma layout_order:
  assumes "layout_ok b" "special x" "special y" "x \<noteq> y"
  shows "slot b x + Suc (VDFS4_LAST_TABLE_INDEX b x) \<le> slot b y \<or> slot b y + Suc (VDFS4_LAST_TABLE_INDEX b y) \<le> slot b x"
proof (rule ccontr)
  assume "\<not> ?thesis"
  then have "max (slot b x) (slot b y) \<in> slots b x" "max (slot b x) (slot b y) \<in> slots b y"
    by (auto simp: slots_def)
  then show False using assms unfolding layout_ok_def by blast
qed

lemma gap_slots:
  assumes "layout_ok b" "special ino" "special x"
  shows "slots (gap_table ino n b) x = (if slot b ino < slot b x then (\<lambda>i. i + n) ` slots b x else slots b x)"
  using gap_slot [OF assms, of n] by (auto simp: slots_def image_add_atLeastLessThan' add.commute add.left_commute)

lemma gap_layout:
  assumes lay: "layout_ok b" and ino: "special ino" and b: "bt_checksum_offset b + base_record_size * n < 4294967296"
  shows "layout_ok (gap_table ino n b)"
proof -
  let ?p = "slot b ino + Suc (VDFS4_LAST_TABLE_INDEX b ino)"
  have p: "?p \<le> length (bt_records b)" using layout_slot_less [OF lay ino order_refl] by simp
  have lenr: "length (bt_records (gap_table ino n b)) = length (bt_records b) + n"
    using p by (simp add: gap_table_def)
  have leno: "length (translation_table_offsets (gap_table ino n b)) = 5"
    using fold_shift_offset(1) [OF ino _ _ _ ino, of special_files] lay
    by (simp add: gap_table_def layout_ok_def special_files_set) (simp add: special_files_eq)
  have in_b: "slots b x \<subseteq> {..<length (bt_records b)}" if "special x" for x
    using lay that by (simp add: layout_ok_def)
  have dis: "slots (gap_table ino n b) x \<inter> slots (gap_table ino n b) y = {}" if xy: "special x" "special y" "x \<noteq> y" for x y
  proof -
    have 1: "slot b x + Suc (VDFS4_LAST_TABLE_INDEX b x) \<le> slot b y \<or> slot b y + Suc (VDFS4_LAST_TABLE_INDEX b y) \<le> slot b x"
      using layout_order [OF lay xy] .
    show ?thesis using 1 gap_slot [OF lay ino xy(1), of n] gap_slot [OF lay ino xy(2), of n]
      by (auto simp: slots_def)
  qed
  have "slots (gap_table ino n b) x \<subseteq> {..<length (bt_records b) + n}" if "special x" for x
    using in_b [OF that] gap_slots [OF lay ino that, of n] by (auto simp: subset_iff)
  moreover have "translation_table_offsets (gap_table ino n b) ! VDFS4_SF_INDEX x
      = base_header_size + base_record_size * slot (gap_table ino n b) x" if "special x" for x
    using gap_slot [OF lay ino that, of n] by simp
  moreover have "bt_checksum_offset (gap_table ino n b) = base_header_size + base_record_size * (length (bt_records b) + n)"
    "length (last_page_index (gap_table ino n b)) = 5" "bt_checksum_offset (gap_table ino n b) < 4294967296"
    using lay b by (simp_all add: gap_table_def layout_ok_def algebra_simps)
  ultimately show ?thesis unfolding layout_ok_def using lenr leno dis by simp
qed

lemma gap_positions:
  assumes lay: "layout_ok b" and ino: "special ino" "special x"
  shows "positions (gap_table ino n b) x = positions b x"
proof -
  let ?p = "slot b ino + Suc (VDFS4_LAST_TABLE_INDEX b ino)"
  have p: "?p \<le> length (bt_records b)" using layout_slot_less [OF lay ino(1) order_refl] by simp
  have "bt_records (gap_table ino n b) ! (slot (gap_table ino n b) x + i) = bt_records b ! (slot b x + i)"
    if i: "i \<le> VDFS4_LAST_TABLE_INDEX b x" for i
  proof -
    have lt: "slot b x + i < length (bt_records b)" using layout_slot_less [OF lay ino(2) i] .
    show ?thesis
    proof (cases "slot b ino < slot b x")
      case True
      then have "ino \<noteq> x" by auto
      then have "?p \<le> slot b x" using layout_order [OF lay ino] True by auto
      then have "open_gap ?p n (bt_records b) ! (slot b x + i + n) = bt_records b ! (slot b x + i)"
        using nth_open_gap(2) [OF p] lt by simp
      then show ?thesis using gap_slot(2) [OF lay ino, of n] True by (simp add: gap_table_def add.commute add.left_commute)
    next
      case False
      have "slot b x + i < ?p"
      proof (cases "x = ino")
        case False
        then show ?thesis using layout_order [OF lay ino(2,1) False] \<open>\<not> slot b ino < slot b x\<close> i by auto
      qed (use i in simp)
      then show ?thesis using gap_slot(2) [OF lay ino, of n] False nth_open_gap(1) [OF p] by (simp add: gap_table_def)
    qed
  qed
  then show ?thesis
    using gap_slot(3) [OF lay ino, of n] by (simp add: positions_def del: upt_Suc)
qed

section \<open>Filling the gap\<close>

text \<open>The table with the last index of a file changed, and a state with such a table.\<close>

definition set_last :: "nat \<Rightarrow> nat \<Rightarrow> base_table \<Rightarrow> base_table" where
  "set_last ino m b = b\<lparr>last_page_index := (last_page_index b)[VDFS4_SF_INDEX ino := m]\<rparr>"

definition with_last :: "nat \<Rightarrow> nat \<Rightarrow> vdfs4_snapshot_info \<Rightarrow> vdfs4_snapshot_info" where
  "with_last ino m s = s\<lparr>base_t := set_last ino m (base_t s)\<rparr>"

lemma with_last_sel [simp]:
  "snapshot_bitmap (with_last ino m s) = snapshot_bitmap s"
  "next_snapshot_bitmap (with_last ino m s) = next_snapshot_bitmap s"
  "moved_iblock (with_last ino m s) = moved_iblock s"
  "cow_blocks (with_last ino m s) = cow_blocks s"
  "bitmap_size_in_bits (with_last ino m s) = bitmap_size_in_bits s"
  "log_blocks_in_leb (with_last ino m s) = log_blocks_in_leb s"
  "log_blocks_in_page (with_last ino m s) = log_blocks_in_page s"
  "sn_block_size_shift (with_last ino m s) = sn_block_size_shift s"
  "base_t (with_last ino m s) = set_last ino m (base_t s)"
  by (simp_all add: with_last_def)

lemma with_last_area [simp]:
  "order_of (with_last ino m s) = order_of s" "area (with_last ino m s) = area s"
  "free_area_at (with_last ino m s) = free_area_at s"
proof -
  show o: "order_of (with_last ino m s) = order_of s" by (rule order_of_eq) simp_all
  show a: "area (with_last ino m s) = area s" by (intro ext) (simp add: area_def o)
  show "free_area_at (with_last ino m s) = free_area_at s" by (intro ext) (simp add: free_area_at_def o a)
qed

lemma set_last_sel [simp]:
  "bt_records (set_last ino m b) = bt_records b"
  "slot (set_last ino m b) x = slot b x"
  by (simp_all add: set_last_def slot_def)

lemma set_last_LAST:
  "length (last_page_index b) = 5 \<Longrightarrow> special ino \<Longrightarrow> special x \<Longrightarrow>
    VDFS4_LAST_TABLE_INDEX (set_last ino m b) x = (if x = ino then m else VDFS4_LAST_TABLE_INDEX b x)"
  using SF_INDEX_less [of ino] SF_INDEX_inj [of ino x]
  by (auto simp: set_last_def VDFS4_LAST_TABLE_INDEX_def nth_list_update)

lemma set_last_id: "special ino \<Longrightarrow> set_last ino (VDFS4_LAST_TABLE_INDEX b ino) b = b"
  by (simp add: set_last_def VDFS4_LAST_TABLE_INDEX_def)

lemma layout_set_last_mono:
  assumes "layout_ok (set_last ino m b)" "m' \<le> m" "special ino"
  shows "layout_ok (set_last ino m' b)"
proof -
  have len: "length (last_page_index b) = 5" using assms(1) by (simp add: layout_ok_def set_last_def)
  have sub: "slots (set_last ino m' b) x \<subseteq> slots (set_last ino m b) x" if "special x" for x
    using set_last_LAST [OF len assms(3) that] assms(2) by (auto simp: slots_def)
  have o: "translation_table_offsets (set_last ino j b) = translation_table_offsets b"
    "bt_checksum_offset (set_last ino j b) = bt_checksum_offset b" for j by (simp_all add: set_last_def)
  have "length (last_page_index (set_last ino m' b)) = 5" using len by (simp add: set_last_def)
  then show ?thesis
    using assms(1) sub unfolding layout_ok_def o set_last_sel by blast
qed

text \<open>One round of the loop: the entry \<open>Suc m\<close> of the table is made.\<close>

lemma insert_record_step:
  assumes inv: "cow_inv C (with_last ino m s)" and lay: "layout_ok (set_last ino new (base_t s))"
    and ino: "special ino" and m: "m < new" "VDFS4_LAST_TABLE_INDEX (base_t s) ino \<le> m"
    and p: "get_new_meta_iblock s ino = Done (Inr p, s1)" "free_area_at s ino p" "area_taken ino p s s1"
  shows "\<exists>s'. insert_record ino (Suc m) s = Done s' \<and> cow_inv C (with_last ino (Suc m) s') \<and>
    layout_ok (set_last ino new (base_t s')) \<and> VDFS4_LAST_TABLE_INDEX (base_t s') ino = VDFS4_LAST_TABLE_INDEX (base_t s) ino \<and>
    refs (with_last ino (Suc m) s') = refs (with_last ino m s) \<union> area s ino p \<and>
    bset (snapshot_bitmap s') = bset (snapshot_bitmap s) \<union> area s ino p \<and> same_geometry s s' \<and>
    (\<forall>k \<in> keys (with_last ino m s). position (with_last ino (Suc m) s') k = position (with_last ino m s) k) \<and>
    position (with_last ino (Suc m) s') (ino, Suc m) = p \<and> (\<exists>b. base_t s' = (base_t s)\<lparr>bt_records := b\<rparr>)"
proof -
  obtain b1 b2 b3 h where s1: "s1 = set_hint ino h (s\<lparr>snapshot_bitmap := b1, next_snapshot_bitmap := b2, moved_iblock := b3\<rparr>)"
    "length b1 = length (snapshot_bitmap s)" "length b2 = length (next_snapshot_bitmap s)" "length b3 = length (moved_iblock s)"
    "bset b1 = bset (snapshot_bitmap s) \<union> area s ino p" "bset b2 = bset (next_snapshot_bitmap s) \<union> area s ino p"
    "bset b3 = bset (moved_iblock s) \<union> area s ino p"
    using p(3) unfolding area_taken_def by blast
  let ?b = "base_t s"
  have len: "length (last_page_index ?b) = 5" using lay by (simp add: layout_ok_def set_last_def)
  have layb: "layout_ok ?b"
    using layout_set_last_mono [OF lay _ ino, of "VDFS4_LAST_TABLE_INDEX ?b ino"] m by (simp add: set_last_id ino)
  define r where "r = \<lparr>rec_meta_iblock = p, rec_sync_count = sn_sync_count s1, rec_mount_count = mount_counter s1\<rparr>"
  define b' where "b' = ?b\<lparr>bt_records := (bt_records ?b)[slot ?b ino + Suc m := r]\<rparr>"
  have LN: "VDFS4_LAST_TABLE_INDEX (set_last ino new ?b) ino = new" using set_last_LAST [OF len ino ino] by simp
  have lt: "slot ?b ino + Suc m < length (bt_records ?b)"
    using layout_slot_less [OF lay ino, of "Suc m"] m LN by simp
  have "table_write ?b ino (Suc m) r = Done b'"
    using lt by (simp add: table_write_def vdfs4_get_table_ok [OF layb ino] b'_def)
  then have res: "insert_record ino (Suc m) s = Done (s1\<lparr>base_t := b'\<rparr>)"
    using p(1) by (simp add: insert_record_def s1(1) r_def)
  let ?v = "with_last ino m s" and ?v' = "with_last ino (Suc m) (s1\<lparr>base_t := b'\<rparr>)"
  have lenb': "length (last_page_index b') = 5" using len by (simp add: b'_def)
  have Lb': "VDFS4_LAST_TABLE_INDEX b' x = VDFS4_LAST_TABLE_INDEX ?b x" "slot b' x = slot ?b x" for x
    by (simp_all add: b'_def)
  have layb': "layout_ok (set_last ino new b')"
  proof -
    have "set_last ino new b' = (set_last ino new ?b)\<lparr>bt_records := (bt_records ?b)[slot ?b ino + Suc m := r]\<rparr>"
      by (simp add: b'_def set_last_def)
    then show ?thesis using lay by (simp add: layout_ok_update)
  qed
  have keys: "keys ?v' = insert (ino, Suc m) (keys ?v)"
  proof -
    have "(x, i) \<in> keys ?v' \<longleftrightarrow> (x, i) \<in> insert (ino, Suc m) (keys ?v)" for x i
    proof (cases "special x")
      case True
      then show ?thesis using set_last_LAST [OF len ino True] set_last_LAST [OF lenb' ino True] ino Lb'
        by (auto simp: keys_def)
    qed (use ino in \<open>auto simp: keys_def\<close>)
    then show ?thesis by auto
  qed
  have nk: "(ino, Suc m) \<notin> keys ?v" using set_last_LAST [OF len ino ino, of m] by (simp add: keys_def)
  have rec: "bt_records b' ! (slot ?b x + i) = (if (x, i) = (ino, Suc m) then r else bt_records ?b ! (slot ?b x + i))"
    if "(x, i) \<in> keys ?v'" for x i
  proof -
    have xi: "special x" "i \<le> VDFS4_LAST_TABLE_INDEX (set_last ino (Suc m) b') x" using that by (simp_all add: keys_def)
    then have i: "if x = ino then i \<le> Suc m else i \<le> VDFS4_LAST_TABLE_INDEX ?b x"
      using set_last_LAST [OF lenb' ino xi(1), of "Suc m"] Lb' by auto
    have "slot ?b x + i \<noteq> slot ?b ino + Suc m" if "x \<noteq> ino"
    proof -
      have "slot ?b x + i \<in> slots (set_last ino new ?b) x"
        using i that set_last_LAST [OF len ino xi(1), of new] by (auto simp: slots_def)
      moreover have "slot ?b ino + Suc m \<in> slots (set_last ino new ?b) ino" using LN m by (simp add: slots_def)
      ultimately show ?thesis using lay xi(1) ino that unfolding layout_ok_def by (metis disjoint_iff)
    qed
    then show ?thesis using lt by (cases "x = ino") (auto simp: b'_def nth_list_update)
  qed
  have pos: "position ?v' k = (if k = (ino, Suc m) then p else position ?v k)" if "k \<in> keys ?v'" for k
  proof -
    obtain x i where k: "k = (x, i)" by (cases k)
    have i': "i \<le> VDFS4_LAST_TABLE_INDEX (base_t ?v') x" using that k by (simp add: keys_def)
    have "position ?v' k = rec_meta_iblock (bt_records b' ! (slot ?b x + i))"
      using nth_positions [OF i'] by (simp add: k position_def Lb')
    moreover have "position ?v k = rec_meta_iblock (bt_records ?b ! (slot ?b x + i))" if "k \<noteq> (ino, Suc m)"
    proof -
      have "k \<in> keys ?v" using \<open>k \<in> keys ?v'\<close> that unfolding keys by blast
      then have "i \<le> VDFS4_LAST_TABLE_INDEX (base_t ?v) x" using k by (simp add: keys_def)
      then show ?thesis using nth_positions [of i "base_t ?v" x] by (simp add: k position_def)
    qed
    ultimately show ?thesis using rec [of x i] that k by (auto simp: r_def)
  qed
  have geo: "same_geometry s (s1\<lparr>base_t := b'\<rparr>)" using s1(2-4) by (simp add: same_geometry_def s1(1))
  have geo': "same_geometry ?v ?v'" using s1(2-4) by (simp add: same_geometry_def s1(1))
  have lay': "layout_ok (base_t ?v')" using layout_set_last_mono [OF layb' _ ino, of "Suc m"] m(1) by simp
  have free: "free_area_at ?v (fst (ino, Suc m)) p" using p(2) by simp
  note grow = cow_inv_grow [OF inv nk free geo' lay' keys pos]
  have "cow_inv C ?v'" by (rule grow(1)) (use s1 in simp_all)
  moreover have "refs ?v' = refs ?v \<union> area s ino p" by (rule grow(2) [unfolded fst_conv with_last_area]) (use s1 in simp_all)
  moreover have "\<forall>k \<in> keys ?v. position ?v' k = position ?v k" using pos keys nk by auto
  moreover have "position ?v' (ino, Suc m) = p" using pos [of "(ino, Suc m)"] keys by simp
  moreover have "\<exists>b. base_t (s1\<lparr>base_t := b'\<rparr>) = ?b\<lparr>bt_records := b\<rparr>" by (auto simp: b'_def)
  moreover have "bset (snapshot_bitmap (s1\<lparr>base_t := b'\<rparr>)) = bset (snapshot_bitmap s) \<union> area s ino p" using s1 by simp
  ultimately show ?thesis using res layb' Lb' geo by auto
qed

text \<open>The aligned areas that are still free; every new entry takes one of them.\<close>

definition free_slots :: "vdfs4_snapshot_info \<Rightarrow> nat \<Rightarrow> nat set" where
  "free_slots s ino = {q. free_area_at s ino q}"

lemma finite_free_slots [simp]: "finite (free_slots s ino)"
  by (rule finite_subset [of _ "{..bitmap_size_in_bits s}"]) (auto simp: free_slots_def free_area_at_def)

lemma aligned_disjoint:
  assumes "(2::nat) ^ k dvd p" "2 ^ k dvd q" "p \<noteq> q"
  shows "{p..<p + 2 ^ k} \<inter> {q..<q + 2 ^ k} = {}"
proof -
  obtain a b where ab: "p = 2 ^ k * a" "q = 2 ^ k * b" using assms(1,2) by (auto simp: dvd_def)
  have "a \<noteq> b" using assms(3) ab by auto
  then have "a + 1 \<le> b \<or> b + 1 \<le> a" by arith
  then have "2 ^ k * (a + 1) \<le> 2 ^ k * b \<or> 2 ^ k * (b + 1) \<le> 2 ^ k * a" using mult_le_mono2 by blast
  then have "p + 2 ^ k \<le> q \<or> q + 2 ^ k \<le> p" using ab by (simp add: algebra_simps)
  then show ?thesis by auto
qed

lemma free_slots_taken:
  assumes "free_area_at s ino p" "bset (snapshot_bitmap s') = bset (snapshot_bitmap s) \<union> area s ino p" "same_geometry s s'"
  shows "free_slots s' ino = free_slots s ino - {p}"
proof -
  have o: "order_of s' = order_of s" by (rule order_of_eq) (use assms(3) in \<open>simp_all add: same_geometry_def\<close>)
  have a: "area s' = area s" by (intro ext) (simp add: area_def o)
  have z: "bitmap_size_in_bits s' = bitmap_size_in_bits s" using assms(3) by (simp add: same_geometry_def)
  have ne: "area s ino p \<inter> area s ino p \<noteq> {}" by (simp add: area_def)
  have dis: "area s ino q \<inter> area s ino p = {} \<longleftrightarrow> q \<noteq> p" if "2 ^ order_of s ino dvd q" for q
    using aligned_disjoint [OF that, of p] assms(1) ne by (cases "q = p") (auto simp: free_area_at_def area_def)
  have "free_area_at s' ino q \<longleftrightarrow> free_area_at s ino q \<and> q \<noteq> p" for q
    unfolding free_area_at_def o a z assms(2) using dis [of q] by blast
  then show ?thesis by (auto simp: free_slots_def)
qed

definition entries_grown :: "nat set \<Rightarrow> nat \<Rightarrow> nat \<Rightarrow> vdfs4_snapshot_info \<Rightarrow> nat \<Rightarrow> vdfs4_snapshot_info \<Rightarrow> bool" where
  "entries_grown C ino m s new s' \<longleftrightarrow>
     cow_inv C (with_last ino new s') \<and> refs (with_last ino m s) \<subseteq> refs (with_last ino new s') \<and>
     (\<forall>k \<in> keys (with_last ino m s). position (with_last ino new s') k = position (with_last ino m s) k) \<and>
     (\<forall>i. m < i \<and> i \<le> new \<longrightarrow> chunk (with_last ino new s') (ino, i) \<inter> (C \<union> refs (with_last ino m s)) = {}) \<and>
     same_geometry s s' \<and> (\<exists>b. base_t s' = (base_t s)\<lparr>bt_records := b\<rparr>)"

lemma insert_records_loop:
  assumes "cow_inv C (with_last ino m s)" "layout_ok (set_last ino new (base_t s))" "special ino" "m \<le> new"
    "VDFS4_LAST_TABLE_INDEX (base_t s) ino \<le> m"
  shows "(\<exists>s'. for_each (insert_record ino) [Suc m ..< Suc new] s = Done s' \<and> entries_grown C ino m s new s' \<and>
      new - m \<le> card (free_slots s ino)) \<or>
    for_each (insert_record ino) [Suc m ..< Suc new] s = Bug \<and> card (free_slots s ino) < new - m"
  using assms
proof (induction "new - m" arbitrary: m s)
  case 0
  then show ?case by (auto simp: entries_grown_def same_geometry_def intro: exI [of _ "bt_records (base_t s)"])
next
  case (Suc n)
  note inv = Suc.prems(1) and lay = Suc.prems(2) and ino = Suc.prems(3)
  have lt: "m < new" and n: "n = new - Suc m" using Suc.hyps(2) by simp_all
  have lst: "[Suc m ..< Suc new] = Suc m # [Suc (Suc m) ..< Suc new]" using lt by (simp add: upt_rec)
  have shape: "shape_ok s"
  proof -
    have "layout_ok (base_t s)"
      using layout_set_last_mono [OF lay _ ino, of "VDFS4_LAST_TABLE_INDEX (base_t s) ino"] Suc.prems(4,5) by (simp add: set_last_id ino)
    then show ?thesis using inv by (simp add: cow_inv_def shape_ok_def)
  qed
  from get_new_meta_iblock_cases [OF shape, of ino] show ?case
  proof (elim disjE exE conjE)
    fix p s1
    assume p: "get_new_meta_iblock s ino = Done (Inr p, s1)" "free_area_at s ino p" "area_taken ino p s s1"
    obtain s2 b where s2: "insert_record ino (Suc m) s = Done s2" "cow_inv C (with_last ino (Suc m) s2)"
      "layout_ok (set_last ino new (base_t s2))" "VDFS4_LAST_TABLE_INDEX (base_t s2) ino = VDFS4_LAST_TABLE_INDEX (base_t s) ino"
      "refs (with_last ino (Suc m) s2) = refs (with_last ino m s) \<union> area s ino p"
      "bset (snapshot_bitmap s2) = bset (snapshot_bitmap s) \<union> area s ino p" "same_geometry s s2"
      "\<forall>k \<in> keys (with_last ino m s). position (with_last ino (Suc m) s2) k = position (with_last ino m s) k"
      "position (with_last ino (Suc m) s2) (ino, Suc m) = p" "base_t s2 = (base_t s)\<lparr>bt_records := b\<rparr>"
      using insert_record_step [OF inv lay ino lt Suc.prems(5) p] by blast
    have le: "Suc m \<le> new" "VDFS4_LAST_TABLE_INDEX (base_t s2) ino \<le> Suc m" using lt s2(4) Suc.prems(5) by simp_all
    have slots: "card (free_slots s ino) = Suc (card (free_slots s2 ino))"
      using free_slots_taken [OF p(2) s2(6,7)] p(2) card_Suc_Diff1 [OF finite_free_slots, of p s ino]
      by (simp add: free_slots_def)
    have eqn: "Suc n = new - m" "new - Suc m = n" using Suc.hyps(2) n by simp_all
    note ih = Suc.hyps(1) [OF n s2(2,3) ino le]
    have fe: "for_each (insert_record ino) [Suc m ..< Suc new] s = for_each (insert_record ino) [Suc (Suc m) ..< Suc new] s2"
      unfolding lst using s2(1) by simp
    from ih show ?thesis
    proof (elim disjE exE conjE)
      fix s' assume s': "for_each (insert_record ino) [Suc (Suc m) ..< Suc new] s2 = Done s'"
        "entries_grown C ino (Suc m) s2 new s'" "new - Suc m \<le> card (free_slots s2 ino)"
      have len: "length (last_page_index (base_t s)) = 5" "length (last_page_index (base_t s2)) = 5"
        using lay s2(3) by (simp_all add: layout_ok_def set_last_def)
      have sub: "keys (with_last ino m s) \<subseteq> keys (with_last ino (Suc m) s2)" "(ino, Suc m) \<in> keys (with_last ino (Suc m) s2)"
        using set_last_LAST [OF len(1) ino, of _ m] set_last_LAST [OF len(2) ino, of _ "Suc m"] s2(10) ino
        by (auto simp: keys_def)
      have o: "order_of (with_last ino new s') = order_of s"
        using s'(2) s2(7) by (intro order_of_eq) (simp_all add: entries_grown_def same_geometry_def)
      have pk: "position (with_last ino new s') k = position (with_last ino (Suc m) s2) k"
        if "k \<in> keys (with_last ino (Suc m) s2)" for k using s'(2) that by (simp add: entries_grown_def)
      have refs_le: "refs (with_last ino m s) \<subseteq> refs (with_last ino (Suc m) s2)" using s2(5) by blast
      have ap: "area s ino p \<inter> (C \<union> refs (with_last ino m s)) = {}"
        using p(2) inv by (simp add: free_area_at_def cow_inv_def)
      have new1: "chunk (with_last ino new s') (ino, Suc m) = area s ino p"
        using pk [OF sub(2)] s2(9) by (simp add: chunk_def area_def o del: with_last_area)
      have "chunk (with_last ino new s') (ino, i) \<inter> (C \<union> refs (with_last ino m s)) = {}" if "m < i" "i \<le> new" for i
      proof (cases "i = Suc m")
        case True
        then show ?thesis using new1 ap by simp
      next
        case False
        then have "chunk (with_last ino new s') (ino, i) \<inter> (C \<union> refs (with_last ino (Suc m) s2)) = {}"
          using s'(2) that by (simp add: entries_grown_def)
        then show ?thesis using refs_le by blast
      qed
      moreover have "same_geometry s s'" using s2(7) s'(2) by (simp add: entries_grown_def same_geometry_def)
      moreover have "\<exists>b. base_t s' = (base_t s)\<lparr>bt_records := b\<rparr>" using s2(10) s'(2) by (auto simp: entries_grown_def)
      moreover have "\<forall>k \<in> keys (with_last ino m s). position (with_last ino new s') k = position (with_last ino m s) k"
        using pk sub(1) s2(8) by (metis subsetD)
      moreover have "cow_inv C (with_last ino new s')" "refs (with_last ino (Suc m) s2) \<subseteq> refs (with_last ino new s')"
        using s'(2) by (simp_all add: entries_grown_def)
      ultimately have "entries_grown C ino m s new s'" using refs_le unfolding entries_grown_def by blast
      then show ?thesis using s'(1,3) fe slots eqn by auto
    next
      assume "for_each (insert_record ino) [Suc (Suc m)..<Suc new] s2 = Bug" "card (free_slots s2 ino) < new - Suc m"
      then show ?thesis using fe slots eqn by simp
    qed
  next
    assume none: "get_new_meta_iblock s ino = Done (Inl ENOSPC, set_hint ino 0 s)" "no_free_area s ino"
    then have "free_slots s ino = {}" by (simp add: free_slots_def no_free_area_def)
    moreover have "insert_record ino (Suc m) s = Bug" using none(1) by (simp add: insert_record_def)
    then have "for_each (insert_record ino) [Suc m ..< Suc new] s = Bug" unfolding lst by simp
    ultimately show ?thesis using lt by simp
  qed
qed

section \<open>The whole insertion\<close>

lemma gap_last: "set_last ino new (gap_table ino n b) = (gap_table ino n b)\<lparr>last_page_index := (last_page_index b)[VDFS4_SF_INDEX ino := new]\<rparr>"
  by (simp add: set_last_def gap_table_def)

text \<open>The layout with the gap given to the file that grows.\<close>

lemma gap_layout_last:
  assumes lay: "layout_ok b" and ino: "special ino" and new: "VDFS4_LAST_TABLE_INDEX b ino \<le> new"
    and b: "bt_checksum_offset b + base_record_size * (new - VDFS4_LAST_TABLE_INDEX b ino) < 4294967296"
  shows "layout_ok (set_last ino new (gap_table ino (new - VDFS4_LAST_TABLE_INDEX b ino) b))"
proof -
  let ?n = "new - VDFS4_LAST_TABLE_INDEX b ino"
  let ?g = "gap_table ino ?n b"
  have g: "layout_ok ?g" using gap_layout [OF lay ino b] .
  have len: "length (last_page_index ?g) = 5" using g by (simp add: layout_ok_def)
  have lenr: "length (bt_records ?g) = length (bt_records b) + ?n"
    using layout_slot_less [OF lay ino order_refl] by (simp add: gap_table_def)
  have L: "VDFS4_LAST_TABLE_INDEX (set_last ino new ?g) x = (if x = ino then new else VDFS4_LAST_TABLE_INDEX b x)"
    if "special x" for x using set_last_LAST [OF len ino that] gap_slot(3) [OF lay ino that] by simp
  define f where "f = (\<lambda>z. if slot b ino < z then z + ?n else z)"
  have sl: "slot (set_last ino new ?g) x = f (slot b x)" if "special x" for x
    using gap_slot(2) [OF lay ino that] by (simp add: f_def)
  have "slots (set_last ino new ?g) x \<subseteq> {..<length (bt_records ?g)}" if x: "special x" for x
  proof -
    have "slot b x + VDFS4_LAST_TABLE_INDEX b x < length (bt_records b)" using layout_slot_less [OF lay x order_refl] .
    moreover have "f (slot b x) + (if x = ino then new else VDFS4_LAST_TABLE_INDEX b x) \<le> slot b x + VDFS4_LAST_TABLE_INDEX b x + ?n"
      using new unfolding f_def by (cases "x = ino"; cases "slot b ino < slot b x") auto
    ultimately show ?thesis unfolding slots_def L [OF x] sl [OF x] lenr by auto
  qed
  moreover have "slots (set_last ino new ?g) x \<inter> slots (set_last ino new ?g) y = {}"
    if xy: "special x" "special y" "x \<noteq> y" for x y
  proof -
    have o: "slot b u + Suc (VDFS4_LAST_TABLE_INDEX b u) \<le> slot b v \<or> slot b v + Suc (VDFS4_LAST_TABLE_INDEX b v) \<le> slot b u"
      if "special u" "special v" "u \<noteq> v" for u v using layout_order [OF lay that] .
    have shift: "f u + d \<le> f v" if "u + d \<le> v" for u v d using that by (auto simp: f_def)
    have own: "f (slot b ino) = slot b ino" "VDFS4_LAST_TABLE_INDEX (set_last ino new ?g) ino = new"
      using L [OF ino] by (simp_all add: f_def)
    have after: "slot b ino + Suc new \<le> f (slot b z) \<or> f (slot b z) + Suc (VDFS4_LAST_TABLE_INDEX b z) \<le> slot b ino"
      if "special z" "z \<noteq> ino" for z using o [OF ino that(1)] that(2) new by (auto simp: f_def)
    have "f (slot b x) + Suc (VDFS4_LAST_TABLE_INDEX (set_last ino new ?g) x) \<le> f (slot b y) \<or>
      f (slot b y) + Suc (VDFS4_LAST_TABLE_INDEX (set_last ino new ?g) y) \<le> f (slot b x)"
    proof (cases "x = ino \<or> y = ino")
      case True
      then show ?thesis using after [OF xy(1)] after [OF xy(2)] xy(3) own L [OF xy(1)] L [OF xy(2)] by auto
    next
      case False
      then have "VDFS4_LAST_TABLE_INDEX (set_last ino new ?g) x = VDFS4_LAST_TABLE_INDEX b x"
        "VDFS4_LAST_TABLE_INDEX (set_last ino new ?g) y = VDFS4_LAST_TABLE_INDEX b y"
        using L [OF xy(1)] L [OF xy(2)] by simp_all
      then show ?thesis using o [OF xy] shift by metis
    qed
    then have "slot (set_last ino new ?g) x + Suc (VDFS4_LAST_TABLE_INDEX (set_last ino new ?g) x) \<le> slot (set_last ino new ?g) y \<or>
      slot (set_last ino new ?g) y + Suc (VDFS4_LAST_TABLE_INDEX (set_last ino new ?g) y) \<le> slot (set_last ino new ?g) x"
      unfolding sl [OF xy(1)] sl [OF xy(2)] .
    then show ?thesis by (auto simp: slots_def)
  qed
  moreover have "length (last_page_index (set_last ino new ?g)) = 5" using len by (simp add: set_last_def)
  moreover have "translation_table_offsets (set_last ino new ?g) = translation_table_offsets ?g"
    "bt_checksum_offset (set_last ino new ?g) = bt_checksum_offset ?g" by (simp_all add: set_last_def)
  ultimately show ?thesis using g unfolding layout_ok_def set_last_sel by simp
qed

text \<open>The buffer of the base table has room for \<open>n\<close> more records.\<close>

definition room_for :: "nat \<Rightarrow> vdfs4_snapshot_info \<Rightarrow> bool" where
  "room_for n s \<longleftrightarrow> bt_checksum_offset (base_t s) + base_record_size * n \<le> base_pages s * PAGE_SIZE_bytes \<and>
     bt_checksum_offset (base_t s) + base_record_size * n < 4294967296"

definition chunks_inserted :: "nat set \<Rightarrow> nat \<Rightarrow> nat \<Rightarrow> vdfs4_snapshot_info \<Rightarrow> vdfs4_snapshot_info \<Rightarrow> bool" where
  "chunks_inserted C ino new s s' \<longleftrightarrow>
     cow_inv C s' \<and> keys s' = keys s \<union> {(ino, i) | i. VDFS4_LAST_TABLE_INDEX (base_t s) ino < i \<and> i \<le> new} \<and>
     (\<forall>k \<in> keys s. position s' k = position s k) \<and>
     (\<forall>i. VDFS4_LAST_TABLE_INDEX (base_t s) ino < i \<and> i \<le> new \<longrightarrow> chunk s' (ino, i) \<inter> (C \<union> refs s) = {}) \<and>
     bt_checksum_offset (base_t s') =
       bt_checksum_offset (base_t s) + base_record_size * (new - VDFS4_LAST_TABLE_INDEX (base_t s) ino)"

lemma gap_state:
  assumes inv: "cow_inv C s" and ino: "special ino" and b: "bt_checksum_offset (base_t s) + base_record_size * n < 4294967296"
  defines "s0 \<equiv> s\<lparr>base_t := gap_table ino n (base_t s)\<rparr>"
  shows "cow_inv C s0" "refs s0 = refs s" "keys s0 = keys s" "\<And>k. k \<in> keys s \<Longrightarrow> position s0 k = position s k"
proof -
  have lay: "layout_ok (base_t s)" using inv by (simp add: cow_inv_def shape_ok_def)
  have geo: "same_geometry s s0" by (simp add: s0_def same_geometry_def)
  have lay0: "layout_ok (base_t s0)" using gap_layout [OF lay ino b] by (simp add: s0_def)
  show keys: "keys s0 = keys s" using gap_slot(3) [OF lay ino] by (auto simp: keys_def s0_def)
  show pos: "position s0 k = position s k" if "k \<in> keys s" for k
    using gap_positions [OF lay ino, of "fst k"] that by (auto simp: keys_def position_def s0_def)
  show "cow_inv C s0" "refs s0 = refs s"
    using cow_inv_cong [OF inv geo lay0 keys pos] by (simp_all add: s0_def)
qed

lemma insert_new_iblocks_ok:
  assumes inv: "cow_inv C s" and ino: "special ino" and new: "VDFS4_LAST_TABLE_INDEX (base_t s) ino \<le> new" "new < 4294967296"
    and room: "room_for (new - VDFS4_LAST_TABLE_INDEX (base_t s) ino) s"
  shows "(\<exists>s'. insert_new_iblocks ino new s = Done s' \<and> chunks_inserted C ino new s s' \<and>
      new - VDFS4_LAST_TABLE_INDEX (base_t s) ino \<le> card (free_slots s ino)) \<or>
    insert_new_iblocks ino new s = Bug \<and> card (free_slots s ino) < new - VDFS4_LAST_TABLE_INDEX (base_t s) ino"
proof -
  let ?b = "base_t s"
  define last where "last = VDFS4_LAST_TABLE_INDEX ?b ino"
  define n where "n = new - last"
  define g where "g = gap_table ino n ?b"
  let ?s0 = "s\<lparr>base_t := g\<rparr>"
  have lay: "layout_ok ?b" using inv by (simp add: cow_inv_def shape_ok_def)
  have small: "bt_checksum_offset ?b + base_record_size * n < 4294967296"
    and fits: "\<not> bt_checksum_offset ?b + base_record_size * n > base_pages s * PAGE_SIZE_bytes"
    using room by (simp_all add: room_for_def n_def last_def)
  note gs = gap_state [OF inv ino small, folded g_def]
  have Lg: "VDFS4_LAST_TABLE_INDEX g ino = last" using gap_slot(3) [OF lay ino ino] by (simp add: g_def last_def)
  have w0: "with_last ino last ?s0 = ?s0" using set_last_id [OF ino, of g] Lg by (simp add: with_last_def)
  have layn: "layout_ok (set_last ino new (base_t ?s0))"
    using gap_layout_last [OF lay ino new(1)] small by (simp add: g_def n_def last_def)
  have slots0: "free_slots ?s0 ino = free_slots s ino"
    by (simp add: free_slots_def free_area_at_def area_def order_of_def)
  have le: "last \<le> new" using new(1) by (simp add: last_def)
  have p_le: "slot ?b ino + Suc last \<le> length (bt_records ?b)"
    using layout_slot_less [OF lay ino, of last] by (simp add: last_def)
  have g_eq: "?b\<lparr>bt_records := open_gap (slot ?b ino + Suc last) n (bt_records ?b),
      translation_table_offsets := fold (shift_offset ?b ino (base_record_size * n)) special_files (translation_table_offsets ?b),
      bt_checksum_offset := u32n (u32n (bt_checksum_offset ?b) + base_record_size * n)\<rparr> = g"
    using small by (simp add: g_def gap_table_def last_def u32n_def)
  define fin where "fin = (\<lambda>s1 :: vdfs4_snapshot_info. Done (s1\<lparr>base_t := (base_t s1)\<lparr>last_page_index :=
      (last_page_index (base_t s1))[VDFS4_SF_INDEX ino := u32n new]\<rparr>,
      dirty_pages_count := u32n (dirty_pages_count s1 + (if is_tree ino then 2 ^ log_blocks_in_leb s1 * n else n))\<rparr>))"
  have unf: "insert_new_iblocks ino new s = bind_outcome (for_each (insert_record ino) [Suc last ..< Suc new] ?s0) fin"
    unfolding insert_new_iblocks_def Let_def last_def [symmetric] n_def [symmetric] vdfs4_get_table_ok [OF lay ino] fin_def
    using le p_le fits g_eq by simp
  from insert_records_loop [of C ino last ?s0 new, unfolded w0] gs(1) layn ino le Lg
  consider (ok) s1 where "for_each (insert_record ino) [Suc last ..< Suc new] ?s0 = Done s1"
      "entries_grown C ino last ?s0 new s1" "new - last \<le> card (free_slots ?s0 ino)"
    | (bug) "for_each (insert_record ino) [Suc last ..< Suc new] ?s0 = Bug" "card (free_slots ?s0 ino) < new - last"
    by (auto simp del: upt_Suc)
  then show ?thesis
  proof cases
    case ok
    define s' where "s' = (with_last ino new s1)\<lparr>dirty_pages_count :=
      u32n (dirty_pages_count s1 + (if is_tree ino then 2 ^ log_blocks_in_leb s1 * n else n))\<rparr>"
    have res: "insert_new_iblocks ino new s = Done s'"
      using unf ok(1) new(2) by (simp add: fin_def s'_def with_last_def set_last_def u32n_id)
    have st: "same_tables (with_last ino new s1) s'" by (simp add: same_tables_def s'_def)
    note same = same_tables_chunks [OF st]
    have eg: "cow_inv C (with_last ino new s1)" "\<forall>k \<in> keys ?s0. position (with_last ino new s1) k = position ?s0 k"
      "\<forall>i. last < i \<and> i \<le> new \<longrightarrow> chunk (with_last ino new s1) (ino, i) \<inter> (C \<union> refs ?s0) = {}"
      "\<exists>b. base_t s1 = g\<lparr>bt_records := b\<rparr>"
      using ok(2) unfolding entries_grown_def w0 by simp_all
    have inv': "cow_inv C s'" using cow_inv_frame [OF st, of C] eg(1) by (simp add: s'_def)
    have keys': "keys s' = keys s \<union> {(ino, i) | i. last < i \<and> i \<le> new}"
    proof -
      obtain rs where rs: "base_t s1 = g\<lparr>bt_records := rs\<rparr>" using eg(4) by blast
      have len: "length (last_page_index (base_t s1)) = 5" using layn rs by (simp add: layout_ok_def set_last_def)
      have "(x, i) \<in> keys s' \<longleftrightarrow> (x, i) \<in> keys s \<union> {(ino, i) | i. last < i \<and> i \<le> new}" for x i
      proof (cases "special x")
        case True
        have "VDFS4_LAST_TABLE_INDEX (set_last ino new (base_t s1)) x = (if x = ino then new else VDFS4_LAST_TABLE_INDEX ?b x)"
          using set_last_LAST [OF len ino True] gap_slot(3) [OF lay ino True] rs by (simp add: g_def)
        then show ?thesis using True le unfolding same(2) by (auto simp: keys_def last_def)
      next
        case False
        then show ?thesis using ino by (auto simp: keys_def)
      qed
      then show ?thesis by auto
    qed
    have "bt_checksum_offset (base_t s') = bt_checksum_offset ?b + base_record_size * n"
      using eg(4) by (auto simp: s'_def set_last_def g_def gap_table_def)
    then have "chunks_inserted C ino new s s'"
      unfolding chunks_inserted_def last_def [symmetric] n_def [symmetric]
      using inv' keys' eg(2,3) gs(2,3,4) same by simp
    then show ?thesis using res ok(3) slots0 by (auto simp: last_def)
  next
    case bug
    then show ?thesis using unf slots0 by (simp add: last_def del: upt_Suc)
  qed
qed

end
