(* ===== verification/Vdfs_Snapshot_Commit.thy ===== *)
theory Vdfs_Snapshot_Commit
  imports Vdfs_Snapshot_Format Vdfs_Snapshot_Insert
begin

text \<open>
  Commit and mount: the bitmaps of a mounted volume satisfy the invariant, the extended table
  records exactly the moves since the last commit, and a commit writes only to blocks of the
  tables area that the tables of the last commit do not use.
\<close>

section \<open>Mounting establishes the invariant\<close>

definition tables_ok :: "vdfs4_snapshot_info \<Rightarrow> bool" where
  "tables_ok s \<longleftrightarrow> shape_ok s \<and> disjoint_family_on (chunk s) (keys s) \<and> refs s \<subseteq> {..< bitmap_size_in_bits s} \<and>
     (\<forall>k \<in> keys s. 2 ^ order_of s (fst k) dvd position s k)"

lemma tables_ok_chunk:
  assumes "tables_ok s" "k \<in> keys s"
  shows "position s k + 2 ^ order_of s (fst k) \<le> length (snapshot_bitmap s)" "u32n (position s k) = position s k"
proof -
  have "0 < (2::nat) ^ order_of s (fst k)" by simp
  then have "position s k + 2 ^ order_of s (fst k) - 1 \<in> chunk s k"
    unfolding chunk_def area_def atLeastLessThan_iff by linarith
  then have "position s k + 2 ^ order_of s (fst k) - 1 < bitmap_size_in_bits s"
    using assms by (auto simp: tables_ok_def refs_def)
  moreover have "bitmap_size_in_bits s \<le> length (snapshot_bitmap s)" "bitmap_size_in_bits s < 4294967296"
    using assms(1) by (simp_all add: tables_ok_def shape_ok_def)
  ultimately show "position s k + 2 ^ order_of s (fst k) \<le> length (snapshot_bitmap s)" "u32n (position s k) = position s k"
    using \<open>0 < 2 ^ order_of s (fst k)\<close> by (simp, simp add: u32n_def)
qed

lemma set_table_bits_loop:
  assumes ok: "tables_ok s" and ino: "special ino" and xs: "\<forall>i \<in> set xs. i \<le> VDFS4_LAST_TABLE_INDEX (base_t s) ino"
    and len: "length bits = length (snapshot_bitmap s)"
  shows "\<exists>bits'. for_each (\<lambda>i bits. bind_outcome (table_read (base_t s) ino i)
        (\<lambda>r. bitmap_set bits (u32n (rec_meta_iblock r)) (2 ^ order_of s ino))) xs bits = Done bits' \<and>
      length bits' = length bits \<and> bset bits' = bset bits \<union> (\<Union>i \<in> set xs. chunk s (ino, i))"
  using xs len
proof (induction xs arbitrary: bits)
  case (Cons i xs)
  have k: "(ino, i) \<in> keys s" using Cons.prems ino by (simp add: keys_def)
  have lay: "layout_ok (base_t s)" using ok by (simp add: tables_ok_def shape_ok_def)
  have pos: "rec_meta_iblock (bt_records (base_t s) ! (slot (base_t s) ino + i)) = position s (ino, i)"
    using Cons.prems by (simp add: position_def nth_positions)
  have "position s (ino, i) + 2 ^ order_of s ino \<le> length bits" using tables_ok_chunk(1) [OF ok k] Cons.prems by simp
  then obtain b1 where b1: "bitmap_set bits (position s (ino, i)) (2 ^ order_of s ino) = Done b1" "length b1 = length bits"
    "bset b1 = bset bits \<union> area s ino (position s (ino, i))" by (rule bitmap_set_area)
  have "table_read (base_t s) ino i = Done (bt_records (base_t s) ! (slot (base_t s) ino + i))"
    using table_read_ok [OF lay ino] Cons.prems by simp
  then have step: "bind_outcome (table_read (base_t s) ino i) (\<lambda>r. bitmap_set bits (u32n (rec_meta_iblock r)) (2 ^ order_of s ino)) = Done b1"
    using b1(1) pos tables_ok_chunk(2) [OF ok k] by simp
  obtain b2 where "for_each (\<lambda>i bits. bind_outcome (table_read (base_t s) ino i)
        (\<lambda>r. bitmap_set bits (u32n (rec_meta_iblock r)) (2 ^ order_of s ino))) xs b1 = Done b2"
      "length b2 = length b1" "bset b2 = bset b1 \<union> (\<Union>i \<in> set xs. chunk s (ino, i))"
    using Cons.IH [of b1] Cons.prems b1(2) by auto
  then show ?case using step b1 by (auto simp: chunk_def)
qed simp

lemma set_table_bits_ok:
  assumes ok: "tables_ok s" and ino: "special ino" and len: "length bits = length (snapshot_bitmap s)"
  shows "\<exists>bits'. set_table_bits (order_of s ino) (base_t s) ino bits = Done bits' \<and>
      length bits' = length bits \<and> bset bits' = bset bits \<union> \<Union> (chunk s ` {k \<in> keys s. fst k = ino})"
proof -
  have lay: "layout_ok (base_t s)" using ok by (simp add: tables_ok_def shape_ok_def)
  have "VDFS4_GET_TABLE_OFFSET (base_t s) ino \<noteq> 0"
    using vdfs4_get_table_ok [OF lay ino] by (auto simp: vdfs4_get_table_def Let_def base_header_size_def split: if_splits)
  moreover have ks: "{k \<in> keys s. fst k = ino} = Pair ino ` set [0 ..< Suc (VDFS4_LAST_TABLE_INDEX (base_t s) ino)]"
    using ino by (auto simp: keys_def simp del: upt_Suc)
  have "\<forall>i \<in> set [0 ..< Suc (VDFS4_LAST_TABLE_INDEX (base_t s) ino)]. i \<le> VDFS4_LAST_TABLE_INDEX (base_t s) ino"
    by (simp del: upt_Suc)
  note loop = set_table_bits_loop [OF ok ino this len]
  ultimately show ?thesis using loop unfolding ks set_table_bits_def image_image by simp
qed

lemma build_bitmaps_loop:
  assumes ok: "tables_ok s" and xs: "\<forall>ino \<in> set xs. special ino" and len: "length bits = length (snapshot_bitmap s)"
  shows "\<exists>bits'. for_each (\<lambda>ino. set_table_bits (order_of s ino) (base_t s) ino) xs bits = Done bits' \<and>
      length bits' = length bits \<and> bset bits' = bset bits \<union> \<Union> (chunk s ` {k \<in> keys s. fst k \<in> set xs})"
  using xs len
proof (induction xs arbitrary: bits)
  case (Cons ino xs)
  obtain b1 where b1: "set_table_bits (order_of s ino) (base_t s) ino bits = Done b1" "length b1 = length bits"
    "bset b1 = bset bits \<union> \<Union> (chunk s ` {k \<in> keys s. fst k = ino})"
    using set_table_bits_ok [OF ok, of ino bits] Cons.prems by auto
  obtain b2 where "for_each (\<lambda>ino. set_table_bits (order_of s ino) (base_t s) ino) xs b1 = Done b2"
    "length b2 = length b1" "bset b2 = bset b1 \<union> \<Union> (chunk s ` {k \<in> keys s. fst k \<in> set xs})"
    using Cons.IH [of b1] Cons.prems b1(2) by auto
  moreover have "\<Union> (chunk s ` {k \<in> keys s. fst k = ino}) \<union> \<Union> (chunk s ` {k \<in> keys s. fst k \<in> set xs})
    = \<Union> (chunk s ` {k \<in> keys s. fst k \<in> set (ino # xs)})" by auto
  ultimately show ?case using b1 by (simp add: Un_assoc)
qed simp

lemma build_snapshot_bitmaps_ok:
  assumes ok: "tables_ok s" and z: "bset (snapshot_bitmap s) = {}" "bset (moved_iblock s) = {}" "cow_blocks s = 0"
  shows "\<exists>s'. build_snapshot_bitmaps s = Done s' \<and> cow_inv (refs s) s' \<and> refs s' = refs s \<and> base_t s' = base_t s"
proof -
  obtain bits where b: "for_each (\<lambda>ino. set_table_bits (order_of s ino) (base_t s) ino) special_files (snapshot_bitmap s) = Done bits"
    "length bits = length (snapshot_bitmap s)" "bset bits = \<Union> (chunk s ` {k \<in> keys s. fst k \<in> set special_files})"
    using build_bitmaps_loop [OF ok, of special_files "snapshot_bitmap s"] z(1) by (auto simp: special_files_set)
  let ?s' = "s\<lparr>snapshot_bitmap := bits, next_snapshot_bitmap := bits\<rparr>"
  have "{k \<in> keys s. fst k \<in> set special_files} = keys s" by (auto simp: keys_def special_files_set)
  then have bs: "bset bits = refs s" using b(3) by (simp add: refs_def)
  have st: "same_tables s ?s'" by (simp add: same_tables_def)
  note same = same_tables_chunks [OF st]
  have "shape_ok ?s'" using ok b(2) by (simp add: tables_ok_def shape_ok_def)
  moreover have "chunk s k \<subseteq> refs s" if "k \<in> keys s" for k using that by (auto simp: refs_def)
  ultimately have "cow_inv (refs s) ?s'"
    using ok z(2,3) bs unfolding cow_inv_def same tables_ok_def by simp
  then show ?thesis using b(1) same by (simp add: build_snapshot_bitmaps_def)
qed

section \<open>The extended table records the moves\<close>

definition same_layout :: "base_table \<Rightarrow> base_table \<Rightarrow> bool" where
  "same_layout a b \<longleftrightarrow> last_page_index a = last_page_index b \<and> translation_table_offsets a = translation_table_offsets b \<and>
     length (bt_records a) = length (bt_records b)"

definition same_positions :: "base_table \<Rightarrow> base_table \<Rightarrow> bool" where
  "same_positions a b \<longleftrightarrow> (\<forall>ino. special ino \<longrightarrow> positions a ino = positions b ino)"

text \<open>Applied to the tables \<open>B\<close> of the last commit, the extended table gives the current tables.\<close>

definition log_ok :: "nat \<Rightarrow> nat \<Rightarrow> base_table \<Rightarrow> vdfs4_snapshot_info \<Rightarrow> bool" where
  "log_ok mount sync B s \<longleftrightarrow> use_base_table s \<or>
     (\<exists>B'. for_each (parse_record mount sync) (ext_records s) B = Done B' \<and> layout_ok B' \<and>
        same_layout B' (base_t s) \<and> same_positions B' (base_t s) \<and> ext_size (ext_records s) \<le> PAGE_SIZE_bytes)"

lemma same_layout_eq:
  assumes "same_layout a b"
  shows "VDFS4_LAST_TABLE_INDEX a ino = VDFS4_LAST_TABLE_INDEX b ino" "slot a ino = slot b ino"
  using assms by (simp_all add: same_layout_def VDFS4_LAST_TABLE_INDEX_def slot_def)

lemma for_each_snoc: "for_each f (xs @ [x]) s = bind_outcome (for_each f xs s) (f x)"
proof -
  have "for_each f [x] = f x"
  proof
    fix t show "for_each f [x] t = f x t" by (cases "f x t") simp_all
  qed
  then show ?thesis by (simp add: for_each_append)
qed

lemma log_ok_add_chunk:
  assumes inv: "cow_inv C s" and log: "log_ok mount sync B s" and k: "k = (ino, GET_TABLE_INDEX s ino page_index)" "k \<in> keys s"
    and add: "vdfs4_add_chunk_no_lock s ino page_index = Done s'"
  shows "log_ok mount sync B s'"
proof (cases "chunk s k \<subseteq> bset (moved_iblock s)")
  case True
  then show ?thesis using add_chunk_moved [OF inv k] add log by simp
next
  case False
  obtain p s1 where s1: "vdfs4_add_chunk_no_lock s ino page_index = Done (note_chunk s1 ino page_index p)"
    "ext_records s1 = ext_records s" "use_base_table s1 = use_base_table s" "base_t s1 = repoint k p (base_t s)"
    "GET_TABLE_INDEX s1 = GET_TABLE_INDEX s"
    using add_chunk_unmoved [OF inv k False] by blast
  then have s': "s' = note_chunk s1 ino page_index p" using add by simp
  show ?thesis
  proof (cases "use_base_table s'")
    case False
    let ?i = "GET_TABLE_INDEX s ino page_index"
    define r where "r = \<lparr>er_object_id = ino, er_table_index = ?i, er_meta_iblock = p\<rparr>"
    have u: "\<not> use_base_table s" and e: "ext_records s' = ext_records s @ [r]" "ext_size (ext_records s') \<le> PAGE_SIZE_bytes"
      using note_chunk_ext [of s1 ino page_index p] False s1(2,3,5) by (auto simp: s' r_def)
    obtain B1 where B1: "for_each (parse_record mount sync) (ext_records s) B = Done B1" "layout_ok B1"
      "same_layout B1 (base_t s)" "same_positions B1 (base_t s)"
      using log u by (auto simp: log_ok_def)
    have lay: "layout_ok (base_t s)" using inv by (simp add: cow_inv_def shape_ok_def)
    have sp: "special ino" and le: "?i \<le> VDFS4_LAST_TABLE_INDEX (base_t s) ino" using k by (auto simp: keys_def)
    note eq = same_layout_eq [OF B1(3)]
    let ?r = "\<lparr>rec_meta_iblock = p, rec_sync_count = sync, rec_mount_count = u32n mount\<rparr>"
    define B2 where "B2 = B1\<lparr>bt_records := (bt_records B1)[slot B1 ino + ?i := ?r]\<rparr>"
    have w: "parse_record mount sync r B1 = Done B2"
      using sp le eq table_write_ok [OF B1(2) sp, of ?i ?r] by (simp add: parse_record_def r_def special_def B2_def)
    have bs': "base_t s' = repoint k p (base_t s)" using s1(4) by (simp add: s')
    have "positions B2 x = positions (base_t s') x" if "special x" for x
    proof -
      have "positions B2 x = (if x = ino then (positions B1 ino)[?i := p] else positions B1 x)"
        using positions_update [OF B1(2) sp that, of ?i ?r] le eq by (simp add: B2_def)
      moreover have "positions (base_t s') x = (if x = ino then (positions (base_t s) ino)[?i := p] else positions (base_t s) x)"
        using positions_update [OF lay sp that le] by (simp add: bs' repoint_def k(1))
      ultimately show ?thesis using B1(4) sp that by (simp add: same_positions_def)
    qed
    moreover have "same_layout B2 (base_t s')" using B1(3) by (simp add: same_layout_def B2_def bs' repoint_def)
    moreover have "layout_ok B2" using B1(2) by (simp add: B2_def layout_ok_update)
    ultimately show ?thesis
      using B1(1) w e by (auto simp: log_ok_def for_each_snoc same_positions_def)
  qed (simp add: log_ok_def)
qed

section \<open>What a commit writes\<close>

definition same_area :: "tables_area \<Rightarrow> tables_area \<Rightarrow> bool" where
  "same_area m m' \<longleftrightarrow> tb_begin m' = tb_begin m \<and> tb_length m' = tb_length m \<and> tb_sectors m' = tb_sectors m \<and>
     tb_block_size_shift m' = tb_block_size_shift m"

definition untouched :: "nat set \<Rightarrow> tables_area \<Rightarrow> tables_area \<Rightarrow> bool" where
  "untouched W m m' \<longleftrightarrow> same_area m m' \<and> (\<forall>b. b \<notin> W \<longrightarrow> tb_data m' b = tb_data m b)"

lemma untouched_refl [simp]: "untouched W m m"
  by (simp add: untouched_def same_area_def)

lemma untouched_trans: "untouched W m m1 \<Longrightarrow> untouched W m1 m2 \<Longrightarrow> untouched W m m2"
  by (simp add: untouched_def same_area_def)

lemma untouched_mono: "untouched V m m' \<Longrightarrow> V \<subseteq> W \<Longrightarrow> untouched W m m'"
  by (auto simp: untouched_def)

text \<open>The sectors of \<open>n\<close> pages from a block on.\<close>

definition page_sectors :: "tables_area \<Rightarrow> nat \<Rightarrow> nat \<Rightarrow> nat set" where
  "page_sectors m iblk n = {block_sector m iblk ..< block_sector m iblk + 8 * n}"

lemma same_area_sector: "same_area m m' \<Longrightarrow> block_sector m' = block_sector m" "same_area m m' \<Longrightarrow> page_sectors m' = page_sectors m"
  by (simp_all add: same_area_def block_sector_def [abs_def] page_sectors_def [abs_def])

lemma untouched_page:
  assumes "untouched W m m'" "W \<inter> {sec ..< sec + 8} = {}"
  shows "page_at m' sec = page_at m sec"
  using assms unfolding page_at_def untouched_def by (intro arg_cong [where f = concat] map_cong) auto

lemma concat_takes: "concat (map (\<lambda>k. take n (drop (n * k) xs)) [0 ..< m]) = take (n * m) xs"
  by (induction m) (simp_all add: take_add [symmetric] add.commute)

text \<open>The sectors from \<open>sec\<close> on hold the first \<open>n\<close> pages of a buffer.\<close>

definition stored :: "nat \<Rightarrow> nat \<Rightarrow> bytes \<Rightarrow> tables_area \<Rightarrow> bool" where
  "stored sec n buf m \<longleftrightarrow> (\<forall>k < 8 * n. tb_data m (sec + k) = take 512 (drop (512 * k) buf))"

lemma stored_page:
  assumes "stored sec n buf m" "i < n"
  shows "page_at m (sec + 8 * i) = page_of buf i"
proof -
  have "tb_data m (sec + 8 * i + k) = take 512 (drop (512 * k) (drop (4096 * i) buf))" if "k < 8" for k
    using assms(1) [unfolded stored_def, rule_format, of "8 * i + k"] assms(2) that by (simp add: algebra_simps)
  then have "page_at m (sec + 8 * i) = concat (map (\<lambda>k. take 512 (drop (512 * k) (drop (4096 * i) buf))) [0 ..< 8])"
    unfolding page_at_def by (intro arg_cong [where f = concat] map_cong) auto
  also have "\<dots> = take (512 * 8) (drop (4096 * i) buf)" by (rule concat_takes)
  finally show ?thesis by (simp add: page_of_def PAGE_SIZE_bytes_def mult.commute)
qed

lemma stored_first: "stored sec n buf m \<Longrightarrow> 0 < n \<Longrightarrow> page_at m sec = page_of buf 0"
  using stored_page [of sec n buf m 0] by simp

lemma all_less_add: "(\<forall>k < a + b. P k) \<longleftrightarrow> (\<forall>k < a. P k) \<and> (\<forall>k < b. P (a + k))" for a b :: nat
proof -
  have "P k" if "\<forall>k < a. P k" "\<forall>k < b. P (a + k)" "k < a + b" for k
    using that(1,3) that(2) [rule_format, of "k - a"] by (cases "k < a") auto
  then show ?thesis by auto
qed

lemma stored_Suc: "stored sec (Suc n) buf m \<longleftrightarrow> stored sec 1 buf m \<and> stored (sec + 8) n (drop PAGE_SIZE_bytes buf) m"
proof -
  have eq: "8 * Suc n = 8 + 8 * n" by simp
  have "drop (512 * k) (drop PAGE_SIZE_bytes buf) = drop (512 * (8 + k)) buf" for k by (simp add: PAGE_SIZE_bytes_def algebra_simps)
  then show ?thesis unfolding stored_def eq all_less_add by (simp add: add.assoc)
qed

lemma stored_untouched: "stored sec n buf m \<Longrightarrow> untouched W m m' \<Longrightarrow> W \<inter> {sec ..< sec + 8 * n} = {} \<Longrightarrow> stored sec n buf m'"
  by (simp add: stored_def untouched_def disjoint_iff) (metis le_add1 nat_add_left_cancel_less)

lemma table_write_IO_untouched:
  assumes "table_write_IO buf sz iblk m = (ret, iblk', m')"
  shows "untouched (page_sectors m iblk (pages_in sz)) m m'"
    and "ret = success \<Longrightarrow> iblk' = iblk + pages_in sz \<and> stored (block_sector m iblk) (pages_in sz) buf m'"
    and "ret \<noteq> success \<Longrightarrow> iblk' = iblk"
  using assms
  by (auto simp: table_write_IO_def vdfs4_get_table_sector_def Let_def next_io_def untouched_def same_area_def store_pages_def page_sectors_def stored_def
      split: sum.splits list.splits io_result.splits if_splits)

lemma retry_write_untouched:
  "retry_write n buf sz iblk m = (ret, iblk', n', m') \<Longrightarrow>
    untouched (page_sectors m iblk (pages_in sz)) m m' \<and>
    (ret = success \<longrightarrow> iblk' = iblk + pages_in sz \<and> stored (block_sector m iblk) (pages_in sz) buf m')"
proof (induction n buf sz iblk m rule: retry_write.induct)
  case (1 n buf sz iblk m)
  obtain r1 i1 m1 where w: "table_write_IO buf sz iblk m = (r1, i1, m1)" by (metis prod_cases3)
  note fr = table_write_IO_untouched [OF w]
  show ?case
  proof (cases r1)
    case None
    then have "ret = None" "iblk' = i1" "m' = m1" using 1(2) w by (simp_all add: retry_write.simps)
    then show ?thesis using fr None by auto
  next
    case (Some e)
    have i1: "i1 = iblk" using fr(3) Some by simp
    show ?thesis
    proof (cases n)
      case 0
      then have "ret = Some e" "m' = m1" using 1(2) w Some by (simp_all add: retry_write.simps)
      then show ?thesis using fr(1) by simp
    next
      case (Suc k)
      then have "retry_write k buf sz iblk m1 = (ret, iblk', n', m')" using 1(2) w Some i1 by (simp add: retry_write.simps)
      moreover have "block_sector m1 = block_sector m" "page_sectors m1 = page_sectors m"
        using fr(1) same_area_sector [of m m1] by (simp_all add: untouched_def)
      ultimately show ?thesis
        using 1(1) [OF w [symmetric] Some refl Suc] untouched_trans [OF fr(1)] i1 by auto
    qed
  qed
qed

text \<open>The sectors a table of \<open>table_size\<close> bytes covers, on a volume with blocks of one page.\<close>

definition table_sectors :: "tables_area \<Rightarrow> nat \<Rightarrow> nat \<Rightarrow> nat set" where
  "table_sectors m iblk table_size = page_sectors m iblk (max 1 (pages_in table_size))"

lemma page_blocks: "tb_block_size_shift m = 12 \<Longrightarrow> block_sector m (b + i) = block_sector m b + 8 * i"
  by (simp add: block_sector_def algebra_simps)

lemma pages_in_rest: "table_size > PAGE_SIZE_bytes \<Longrightarrow> pages_in table_size = Suc (pages_in (table_size - PAGE_SIZE_bytes))"
proof -
  assume a: "table_size > PAGE_SIZE_bytes"
  then have "table_size + PAGE_SIZE_bytes - 1 = (table_size - PAGE_SIZE_bytes + PAGE_SIZE_bytes - 1) + PAGE_SIZE_bytes" by simp
  moreover have "(x + PAGE_SIZE_bytes) div PAGE_SIZE_bytes = Suc (x div PAGE_SIZE_bytes)" for x
    by (simp add: PAGE_SIZE_bytes_def)
  ultimately show ?thesis by (simp add: pages_in_def)
qed

lemma pages_in_page: "0 < table_size \<Longrightarrow> table_size \<le> PAGE_SIZE_bytes \<Longrightarrow> pages_in table_size = 1"
  by (auto simp: pages_in_def PAGE_SIZE_bytes_def)

lemma page_of_drop: "page_of (drop PAGE_SIZE_bytes buf) i = page_of buf (Suc i)"
  by (simp add: page_of_def add.commute)

text \<open>What the writes of a table do to the state, whatever the size of a block is.\<close>

lemma write_table_state:
  assumes w: "write_table buf table_size ty iblk s m = (ret, s', m')"
    and sz: "0 < table_size" "ty = SNAPSHOT_EXT_TABLE \<Longrightarrow> table_size \<le> PAGE_SIZE_bytes"
  shows "ret = success \<Longrightarrow> s' = s\<lparr>iblock := iblk + pages_in table_size, dirty_pages_count := 0, ext_records := []\<rparr>"
    and "ret \<noteq> success \<Longrightarrow> s' = s"
proof -
  let ?big = "table_size > PAGE_SIZE_bytes \<and> ty = SNAPSHOT_BASE_TABLE"
  obtain ret1 si rt m1 where f: "(if ?big then retry_write 3 (drop PAGE_SIZE_bytes buf) (table_size - PAGE_SIZE_bytes) (iblk + 1) m
      else (success, 0, 3, m)) = (ret1, si, rt, m1)" by (metis prod_cases4)
  obtain ret2 i2 rt2 m2 where g: "retry_write rt buf PAGE_SIZE_bytes iblk m1 = (ret2, i2, rt2, m2)" by (metis prod_cases4)
  have unf: "(ret, s', m') = (if ret1 \<noteq> success then (ret1, s, m1)
      else if ret2 \<noteq> success then (ret2, s, m2)
      else (success, s\<lparr>iblock := (if si \<noteq> 0 then si else i2), dirty_pages_count := 0, ext_records := []\<rparr>, m2))"
    using w unfolding write_table_def f Let_def prod.case g by (rule sym)
  then show "s' = s" if "ret \<noteq> success" using that by (auto split: if_splits)
  assume "ret = success"
  then have ok: "ret1 = success" "ret2 = success" "s' = s\<lparr>iblock := (if si \<noteq> 0 then si else i2), dirty_pages_count := 0, ext_records := []\<rparr>"
    using unf by (auto split: if_splits)
  have p1: "pages_in PAGE_SIZE_bytes = 1" by (simp add: pages_in_page PAGE_SIZE_bytes_def)
  have i2: "i2 = iblk + 1" using retry_write_untouched [OF g] ok(2) p1 by simp
  have "(if si \<noteq> 0 then si else i2) = iblk + pages_in table_size"
  proof (cases ?big)
    case True
    have "retry_write 3 (drop PAGE_SIZE_bytes buf) (table_size - PAGE_SIZE_bytes) (iblk + 1) m = (ret1, si, rt, m1)" using f unfolding if_P [OF True] .
    from retry_write_untouched [OF this] ok(1) have "si = iblk + 1 + pages_in (table_size - PAGE_SIZE_bytes)" by simp
    then show ?thesis using True pages_in_rest [of table_size] by simp
  next
    case False
    have "si = 0" using f unfolding if_not_P [OF False] by simp
    moreover have "pages_in table_size = 1" using False sz pages_in_page [of table_size] by (cases ty) auto
    ultimately show ?thesis using i2 by simp
  qed
  then show "s' = s\<lparr>iblock := iblk + pages_in table_size, dirty_pages_count := 0, ext_records := []\<rparr>" using ok(3) by simp
qed

text \<open>
  What they do to the medium. The pages of a table that is longer than one page follow each other without a gap
  and without overlap only when a block is a page.
\<close>

lemma write_table_ok:
  assumes w: "write_table buf table_size ty iblk s m = (ret, s', m')" and blk: "tb_block_size_shift m = 12 \<or> ty = SNAPSHOT_EXT_TABLE"
    and sz: "0 < table_size" "ty = SNAPSHOT_EXT_TABLE \<Longrightarrow> table_size \<le> PAGE_SIZE_bytes"
  shows "untouched (table_sectors m iblk table_size) m m'"
    and "ret = success \<Longrightarrow> stored (block_sector m iblk) (pages_in table_size) buf m'"
proof -
  let ?big = "table_size > PAGE_SIZE_bytes \<and> ty = SNAPSHOT_BASE_TABLE" and ?n = "pages_in table_size" and ?s = "block_sector m iblk"
  obtain ret1 si rt m1 where f: "(if ?big then retry_write 3 (drop PAGE_SIZE_bytes buf) (table_size - PAGE_SIZE_bytes) (iblk + 1) m
      else (success, 0, 3, m)) = (ret1, si, rt, m1)" by (metis prod_cases4)
  obtain ret2 i2 rt2 m2 where g: "retry_write rt buf PAGE_SIZE_bytes iblk m1 = (ret2, i2, rt2, m2)" by (metis prod_cases4)
  have p1: "pages_in PAGE_SIZE_bytes = 1" by (simp add: pages_in_page PAGE_SIZE_bytes_def)
  have pn: "?n = (if ?big then Suc (pages_in (table_size - PAGE_SIZE_bytes)) else 1)"
    using sz pages_in_rest [of table_size] pages_in_page [of table_size] by (cases ty) auto
  have W: "table_sectors m iblk table_size = {?s ..< ?s + 8 * ?n}" using pn by (simp add: table_sectors_def page_sectors_def)
  have r1: "untouched ({?s + 8 ..< ?s + 8 * ?n}) m m1 \<and>
    (ret1 = success \<longrightarrow> stored (?s + 8) (?n - 1) (drop PAGE_SIZE_bytes buf) m1)"
  proof (cases ?big)
    case True
    then have "tb_block_size_shift m = 12" using blk by auto
    then have sec: "block_sector m (iblk + 1) = ?s + 8" using page_blocks [of m iblk 1] by simp
    have "retry_write 3 (drop PAGE_SIZE_bytes buf) (table_size - PAGE_SIZE_bytes) (iblk + 1) m = (ret1, si, rt, m1)" using f unfolding if_P [OF True] .
    from retry_write_untouched [OF this, unfolded page_sectors_def sec] show ?thesis using pn True by (simp add: algebra_simps)
  next
    case False
    have "m1 = m" using f unfolding if_not_P [OF False] by simp
    moreover have "?n = 1" using pn False by simp
    ultimately show ?thesis by (simp add: stored_def)
  qed
  have sa: "block_sector m1 = block_sector m" "page_sectors m1 = page_sectors m" using r1 same_area_sector [of m m1] by (simp_all add: untouched_def)
  note h2 = retry_write_untouched [OF g, unfolded sa p1, simplified]
  have u2: "untouched {?s ..< ?s + 8} m1 m2" using h2 by (simp add: page_sectors_def)
  have n1: "0 < ?n" using pn by auto
  have u: "untouched (table_sectors m iblk table_size) m m1" "untouched (table_sectors m iblk table_size) m1 m2"
    using untouched_mono [OF conjunct1 [OF r1]] untouched_mono [OF u2] n1 by (auto simp: W)
  have unf: "(ret, s', m') = (if ret1 \<noteq> success then (ret1, s, m1)
      else if ret2 \<noteq> success then (ret2, s, m2)
      else (success, s\<lparr>iblock := (if si \<noteq> 0 then si else i2), dirty_pages_count := 0, ext_records := []\<rparr>, m2))"
    using w unfolding write_table_def f Let_def prod.case g by (rule sym)
  then show "untouched (table_sectors m iblk table_size) m m'" using u(1) untouched_trans [OF u] by (auto split: if_splits)
  assume ok: "ret = success"
  then have ok': "ret1 = success" "ret2 = success" "m' = m2" using unf by (auto split: if_splits)
  have "stored (?s + 8) (?n - 1) (drop PAGE_SIZE_bytes buf) m2" using r1 ok'(1) by (intro stored_untouched [OF _ u2]) auto
  then show "stored ?s ?n buf m'" using stored_Suc [of ?s "?n - 1" buf m2] h2 ok' n1 by simp
qed

section \<open>Recovery after a commit\<close>

text \<open>
  The tables of the last commit lie in the blocks from \<open>start\<close> to the first free block; \<open>start\<close> is the
  beginning of one of the two halves of the tables area.
\<close>

definition halves_ok :: "nat \<Rightarrow> vdfs4_snapshot_info \<Rightarrow> tables_area \<Rightarrow> bool" where
  "halves_ok start s m \<longleftrightarrow> start = 0 \<and> iblock s < tb_length m div 2 \<or> start = tb_length m div 2 \<and> start \<le> iblock s"

lemma update_tables_cases:
  assumes u: "vdfs4_update_translation_tables crc s m = Done (ret, s', m')"
    and fits: "bt_checksum_offset (fill_base_descriptor s) = base_header_size + base_record_size * length (bt_records (base_t s))"
      "length (last_page_index (base_t s)) = 5" "length (translation_table_offsets (base_t s)) = 5"
  shows "if extended_table_count s \<ge> VDFS4_SNAPSHOT_TABLES_COUNT \<or> use_base_table s
    then \<exists>buf. sign_table crc (base_pages s) (length (encode_base (fill_base_descriptor s))) (encode_base (fill_base_descriptor s)) = Done buf \<and>
      write_table buf (length (encode_base (fill_base_descriptor s)) + 4) SNAPSHOT_BASE_TABLE
        (if iblock s \<ge> tb_length m div 2 then 0 else tb_length m div 2)
        (s\<lparr>use_base_table := False, extended_table_count := 0, base_t := fill_base_descriptor s\<rparr>) m = (ret, s', m')
    else \<exists>buf. sign_table crc 1 (length (encode_ext (fill_ext_descriptor s))) (encode_ext (fill_ext_descriptor s)) = Done buf \<and>
      length (encode_ext (fill_ext_descriptor s)) + 4 \<le> PAGE_SIZE_bytes \<and>
      write_table buf (length (encode_ext (fill_ext_descriptor s)) + 4) SNAPSHOT_EXT_TABLE (iblock s)
        (s\<lparr>extended_table_count := extended_table_count s + 1\<rparr>) m = (ret, s', m')"
proof -
  have fb: "fill_base_descriptor (s\<lparr>use_base_table := False, extended_table_count := 0\<rparr>) = fill_base_descriptor s"
    "fill_ext_descriptor (s\<lparr>extended_table_count := n\<rparr>) = fill_ext_descriptor s" for n
    by (simp_all add: fill_base_descriptor_def fill_ext_descriptor_def)
  have le: "length (encode_base (fill_base_descriptor s)) = bt_checksum_offset (fill_base_descriptor s)"
    using fits by (simp add: length_encode_base fill_base_descriptor_def)
  have lx: "length (encode_ext (fill_ext_descriptor s)) = et_checksum_offset (fill_ext_descriptor s)"
    by (simp add: length_encode_ext fill_ext_descriptor_def)
  show ?thesis
    using u unfolding vdfs4_update_translation_tables_def choose_table_def le lx
    by (auto simp: Let_def fb bind_outcome_Done_iff CRC32_SIZE_bytes_def split: if_splits)
qed

text \<open>The table a commit writes and the block it begins at; the table on the medium is followed by its checksum.\<close>

definition commit_table :: "vdfs4_snapshot_info \<Rightarrow> tables_area \<Rightarrow> bytes \<times> nat" where
  "commit_table s m =
     (if extended_table_count s \<ge> VDFS4_SNAPSHOT_TABLES_COUNT \<or> use_base_table s
      then (encode_base (fill_base_descriptor s), if iblock s \<ge> tb_length m div 2 then 0 else tb_length m div 2)
      else (encode_ext (fill_ext_descriptor s), iblock s))"

definition table_on_medium :: "(bytes \<Rightarrow> nat) \<Rightarrow> bytes \<Rightarrow> nat \<Rightarrow> tables_area \<Rightarrow> bool" where
  "table_on_medium crc tbl iblk m \<longleftrightarrow>
     (\<exists>r. stored (block_sector m iblk) (pages_in (length tbl + 4)) (tbl @ le_bytes 4 (int (crc tbl)) @ r) m)"

lemma update_tables_written:
  assumes u: "vdfs4_update_translation_tables crc s m = Done (success, s', m')"
    and fits: "bt_checksum_offset (fill_base_descriptor s) = base_header_size + base_record_size * length (bt_records (base_t s))"
      "length (last_page_index (base_t s)) = 5" "length (translation_table_offsets (base_t s)) = 5"
    and t: "commit_table s m = (tbl, b)"
  shows "tb_block_size_shift m = 12 \<Longrightarrow> table_on_medium crc tbl b m'"
    and "iblock s' = b + pages_in (length tbl + 4) \<and> sn_sync_count s' = sn_sync_count s"
proof -
  obtain buf ty n t where w: "sign_table crc n (length tbl) tbl = Done buf" "write_table buf (length tbl + 4) ty b t m = (success, s', m')"
    "ty = SNAPSHOT_EXT_TABLE \<Longrightarrow> length tbl + 4 \<le> PAGE_SIZE_bytes" "sn_sync_count t = sn_sync_count s"
  proof (cases "extended_table_count s \<ge> VDFS4_SNAPSHOT_TABLES_COUNT \<or> use_base_table s")
    case True
    then show thesis using update_tables_cases [OF u fits] t that unfolding commit_table_def if_P [OF True] by force
  next
    case False
    then show thesis using update_tables_cases [OF u fits] t that unfolding commit_table_def if_not_P [OF False] by force
  qed
  have "s' = t\<lparr>iblock := b + pages_in (length tbl + 4), dirty_pages_count := 0, ext_records := []\<rparr>"
    using write_table_state(1) [OF w(2) _ w(3) refl] by simp
  then show "iblock s' = b + pages_in (length tbl + 4) \<and> sn_sync_count s' = sn_sync_count s" using w(4) by simp
  assume blk: "tb_block_size_shift m = 12"
  note o = write_table_ok [OF w(2) disjI1 [OF blk] _ w(3), simplified]
  have "block_sector m' = block_sector m" using o(1) same_area_sector(1) [of m m'] by (simp add: untouched_def)
  then show "table_on_medium crc tbl b m'" using o(2) sign_table_ok(1) [OF w(1)] by (auto simp: table_on_medium_def)
qed

text \<open>
  Whatever the block layer does, a commit leaves the blocks of the last commit alone, as long as
  the tables fit into their halves.
\<close>

lemma update_tables_untouched:
  assumes u: "vdfs4_update_translation_tables crc s m = Done (ret, s', m')"
    and fits: "bt_checksum_offset (fill_base_descriptor s) = base_header_size + base_record_size * length (bt_records (base_t s))"
      "length (last_page_index (base_t s)) = 5" "length (translation_table_offsets (base_t s)) = 5"
    and half: "halves_ok start s m" "pages_in (length (encode_base (fill_base_descriptor s)) + 4) \<le> tb_length m div 2"
    and blk: "tb_block_size_shift m = 12"
  shows "same_area m m' \<and> (\<forall>b. start \<le> b \<and> b < iblock s \<longrightarrow> page_at m' (block_sector m b) = page_at m (block_sector m b))"
proof -
  note c = update_tables_cases [OF u fits]
  let ?h = "tb_length m div 2"
  have page: "page_at m' (block_sector m b) = page_at m (block_sector m b)"
    if "untouched (table_sectors m i n) m m'" "b < i \<or> i + max 1 (pages_in n) \<le> b" for b i n
  proof (rule untouched_page [OF that(1)])
    have s: "block_sector m b = block_sector m 0 + 8 * b" "block_sector m i = block_sector m 0 + 8 * i"
      by (simp_all add: block_sector_def blk)
    show "table_sectors m i n \<inter> {block_sector m b ..< block_sector m b + 8} = {}"
      using that(2) unfolding table_sectors_def page_sectors_def s by auto
  qed
  show ?thesis
  proof (cases "extended_table_count s \<ge> VDFS4_SNAPSHOT_TABLES_COUNT \<or> use_base_table s")
    case True
    let ?n = "length (encode_base (fill_base_descriptor s)) + 4"
    let ?i = "if iblock s \<ge> ?h then 0 else ?h"
    obtain buf where w: "write_table buf ?n SNAPSHOT_BASE_TABLE ?i
        (s\<lparr>use_base_table := False, extended_table_count := 0, base_t := fill_base_descriptor s\<rparr>) m = (ret, s', m')"
      using c unfolding if_P [OF True] by blast
    have un: "untouched (table_sectors m ?i ?n) m m'" using write_table_ok(1) [OF w] blk by simp
    have "b < ?i \<or> ?i + max 1 (pages_in ?n) \<le> b" if "start \<le> b" "b < iblock s" for b
    proof (cases "iblock s \<ge> ?h")
      case True
      then have "start = ?h" using half(1) by (auto simp: halves_ok_def)
      moreover have "max 1 (pages_in ?n) \<le> ?h \<or> ?h = 0" using half(2) by (cases "?h = 0") auto
      ultimately show ?thesis using True that half(2) by (cases "?h = 0") (auto simp: pages_in_def PAGE_SIZE_bytes_def)
    next
      case False
      then show ?thesis using that by simp
    qed
    then show ?thesis using un page [OF un] by (simp add: untouched_def)
  next
    case False
    obtain buf where w: "length (encode_ext (fill_ext_descriptor s)) + 4 \<le> PAGE_SIZE_bytes"
      "write_table buf (length (encode_ext (fill_ext_descriptor s)) + 4) SNAPSHOT_EXT_TABLE (iblock s)
        (s\<lparr>extended_table_count := extended_table_count s + 1\<rparr>) m = (ret, s', m')"
      using c unfolding if_not_P [OF False] by blast
    have un: "untouched (table_sectors m (iblock s) (length (encode_ext (fill_ext_descriptor s)) + 4)) m m'"
      using write_table_ok(1) [OF w(2)] w(1) by simp
    then show ?thesis using page [OF un] by (simp add: untouched_def)
  qed
qed

text \<open>A commit with an extended table is replayed to the current tables by the next mount.\<close>

lemma page_of_one: "length buf = PAGE_SIZE_bytes \<Longrightarrow> page_of buf 0 = buf"
  by (simp add: page_of_def)

lemma parse_table_positions:
  assumes "for_each (parse_record mount sync) rs B = Done B'"
  shows "parse_extended_table \<lparr>et_sync_count = sync, et_mount_count = mount, et_checksum_offset = c, et_records = rs\<rparr> B
    = Done (B'\<lparr>bt_mount_count := mount, bt_sync_count := sync\<rparr>)"
  using assms by (simp add: parse_extended_table_def)

lemma same_positions_counts: "same_positions (B\<lparr>bt_mount_count := a, bt_sync_count := c\<rparr>) b = same_positions B b"
  by (simp add: same_positions_def positions_def slot_def VDFS4_LAST_TABLE_INDEX_def)

lemma ext_commit_replayed:
  assumes u: "vdfs4_update_translation_tables crc s m = Done (success, s', m')"
    and ext: "\<not> (extended_table_count s \<ge> VDFS4_SNAPSHOT_TABLES_COUNT \<or> use_base_table s)"
    and fits: "bt_checksum_offset (fill_base_descriptor s) = base_header_size + base_record_size * length (bt_records (base_t s))"
      "length (last_page_index (base_t s)) = 5" "length (translation_table_offsets (base_t s)) = 5"
    and fit: "sn_sync_count s < 4294967296" "mount_counter s < 4294967296" "\<forall>r \<in> set (ext_records s). ext_record_fits r"
      "crc (encode_ext (fill_ext_descriptor s)) < 4294967296"
    and log: "log_ok (mount_counter s) (sn_sync_count s) B s"
    and chain: "VDFS4_MOUNT_COUNT version = mount_counter s" "sn_sync_count s = u32n (VDFS4_SYNC_COUNT version + 1)"
    and io: "tb_script m' = []" "vdfs4_get_table_sector m' (iblock s) = Inr sec"
  shows "\<exists>B'. replay_tables crc 1 B version (iblock s) n m' = Done (Inr (B', iblock s', Suc n), m') \<and>
    same_positions B' (base_t s') \<and> base_t s' = base_t s \<and> iblock s' = Suc (iblock s) \<and> ext_records s' = []"
proof -
  let ?e = "fill_ext_descriptor s"
  obtain buf where b: "sign_table crc 1 (length (encode_ext ?e)) (encode_ext ?e) = Done buf"
    "length (encode_ext ?e) + 4 \<le> PAGE_SIZE_bytes"
    "write_table buf (length (encode_ext ?e) + 4) SNAPSHOT_EXT_TABLE (iblock s)
        (s\<lparr>extended_table_count := extended_table_count s + 1\<rparr>) m = (success, s', m')"
    using update_tables_cases [OF u fits] unfolding if_not_P [OF ext] by blast
  have p1: "pages_in (length (encode_ext ?e) + 4) = 1" using pages_in_page b(2) by simp
  have sm: "block_sector m' = block_sector m"
    using write_table_ok(1) [OF b(3)] b(2) same_area_sector(1) [of m m'] by (simp add: untouched_def)
  have w: "page_at m' (block_sector m' (iblock s)) = page_of buf 0"
    "s' = (s\<lparr>extended_table_count := extended_table_count s + 1\<rparr>)\<lparr>iblock := Suc (iblock s), dirty_pages_count := 0, ext_records := []\<rparr>"
    using write_table_ok(2) [OF b(3) _ _ _ refl] write_table_state(1) [OF b(3) _ _ refl] b(2) p1 sm stored_first by simp_all
  have ib: "iblock s' = Suc (iblock s)" by (subst w(2)) simp
  have s': "base_t s' = base_t s" "ext_records s' = []" by (subst w(2), simp)+
  have e: "ext_fits ?e" using fit b(2)
    by (simp add: ext_fits_def length_encode_ext fill_ext_descriptor_def PAGE_SIZE_bytes_def)
  obtain r where r: "buf = encode_ext ?e @ le_bytes 4 (int (crc (encode_ext ?e))) @ r" and len: "length buf = PAGE_SIZE_bytes"
    using sign_table_ok [OF b(1)] by auto
  have page: "page_at m' (block_sector m' (iblock s)) = buf" using w(1) page_of_one [OF len] by simp
  have sec: "sec = block_sector m' (iblock s)" using io(2) by (auto simp: vdfs4_get_table_sector_def Let_def split: if_splits)
  have read: "table_read_IO PAGE_SIZE_bytes (iblock s) m' = (Inr buf, m')"
    using io page sec by (simp add: table_read_IO_def next_io_def pages_in_page PAGE_SIZE_bytes_def)
  have val: "validate_extended_table crc buf = Done (VDFS4_SNAPSHOT_VERSION (mount_counter s) (sn_sync_count s))"
    using validate_ext_signed [where crc = crc, OF e fit(4) r] by (simp add: fill_ext_descriptor_def)
  have dec: "decode_ext buf = ?e" using decode_encode_ext [OF e] r by simp
  obtain B1 where B1: "for_each (parse_record (mount_counter s) (sn_sync_count s)) (ext_records s) B = Done B1" "same_positions B1 (base_t s)"
    using log ext by (auto simp: log_ok_def)
  let ?B = "B1\<lparr>bt_mount_count := mount_counter s, bt_sync_count := sn_sync_count s\<rparr>"
  have parse: "parse_extended_table (decode_ext buf) B = Done ?B"
    unfolding dec fill_ext_descriptor_def by (rule parse_table_positions [OF B1(1)])
  have ver: "VDFS4_MOUNT_COUNT (VDFS4_SNAPSHOT_VERSION (mount_counter s) (sn_sync_count s)) = mount_counter s"
    "VDFS4_SYNC_COUNT (VDFS4_SNAPSHOT_VERSION (mount_counter s) (sn_sync_count s)) = sn_sync_count s"
    using fit(1,2) by (simp_all add: VDFS4_MOUNT_COUNT_def VDFS4_SYNC_COUNT_def VDFS4_SNAPSHOT_VERSION_def u32n_def)
  have "replay_tables crc 1 B version (iblock s) n m' = Done (Inr (?B, iblock s', Suc n), m')"
    using read val parse ver chain ib by simp
  then show ?thesis using B1(2) s' ib by (auto simp: same_positions_counts)
qed

text \<open>A commit with a base table: the table is on the medium, valid and complete.\<close>

lemma concat_pages:
  assumes "length buf = n * PAGE_SIZE_bytes"
  shows "k \<le> n \<Longrightarrow> concat (map (page_of buf) [0 ..< k]) = take (k * PAGE_SIZE_bytes) buf"
proof (induction k)
  case (Suc k)
  have "take (Suc k * PAGE_SIZE_bytes) buf = take (k * PAGE_SIZE_bytes) buf @ page_of buf k"
    by (simp add: page_of_def take_add [symmetric] add.commute mult.commute)
  then show ?case using Suc by simp
qed simp

lemma base_commit_readable:
  assumes u: "vdfs4_update_translation_tables crc s m = Done (success, s', m')"
    and base: "extended_table_count s \<ge> VDFS4_SNAPSHOT_TABLES_COUNT \<or> use_base_table s"
    and fits: "bt_checksum_offset (fill_base_descriptor s) = base_header_size + base_record_size * length (bt_records (base_t s))"
      "length (last_page_index (base_t s)) = 5" "length (translation_table_offsets (base_t s)) = 5"
    and fit: "base_fits (fill_base_descriptor s)" "crc (encode_base (fill_base_descriptor s)) < 4294967296"
    and h: "h = (if iblock s \<ge> tb_length m div 2 then 0 else tb_length m div 2)"
    and io: "tb_script m' = []" "vdfs4_get_table_sector m' h = Inr sec" and blk: "tb_block_size_shift m = 12"
    and sign: "no_check \<or> c = crc (encode_base (fill_base_descriptor s))"
  shows "\<exists>buf. table_read_IO (bt_checksum_offset (fill_base_descriptor s) + 4) h m' = (Inr buf, m') \<and>
    decode_base buf = base_t s' \<and>
    validate_base_table crc dbg no_check c buf = Done (VDFS4_SNAPSHOT_VERSION (mount_counter s) (sn_sync_count s)) \<and>
    base_t s' = fill_base_descriptor s \<and> same_positions (base_t s') (base_t s) \<and> iblock s' = h + pages_in (bt_checksum_offset (fill_base_descriptor s) + 4)"
proof -
  let ?b = "fill_base_descriptor s"
  have len: "length (encode_base ?b) = bt_checksum_offset ?b" using fit(1) by (simp add: base_fits_def length_encode_base)
  obtain buf where b: "sign_table crc (base_pages s) (length (encode_base ?b)) (encode_base ?b) = Done buf"
    "write_table buf (length (encode_base ?b) + 4) SNAPSHOT_BASE_TABLE h
        (s\<lparr>use_base_table := False, extended_table_count := 0, base_t := ?b\<rparr>) m = (success, s', m')"
    using update_tables_cases [OF u fits] unfolding if_P [OF base] h by blast
  let ?n = "pages_in (bt_checksum_offset ?b + 4)"
  have sm: "block_sector m' = block_sector m"
    using write_table_ok(1) [OF b(2)] blk same_area_sector(1) [of m m'] by (simp add: untouched_def)
  have sec: "sec = block_sector m' h" using io(2) by (auto simp: vdfs4_get_table_sector_def Let_def split: if_splits)
  have w: "stored sec ?n buf m'"
    "s' = (s\<lparr>use_base_table := False, extended_table_count := 0, base_t := ?b\<rparr>)\<lparr>iblock := h + ?n, dirty_pages_count := 0, ext_records := []\<rparr>"
    using write_table_ok(2) [OF b(2) _ _ _ refl] write_table_state(1) [OF b(2) _ _ refl] len blk sec sm by simp_all
  have bt: "base_t s' = ?b" "iblock s' = h + ?n" by (subst w(2), simp)+
  note sg = sign_table_ok [OF b(1)]
  obtain r where r: "buf = encode_base ?b @ le_bytes 4 (int (crc (encode_base ?b))) @ r" using sg(1) by blast
  have np: "?n \<le> base_pages s" "bt_checksum_offset ?b + 4 \<le> ?n * PAGE_SIZE_bytes"
    using sg(3) len by (auto simp: pages_in_def PAGE_SIZE_bytes_def)
  have rd: "concat (map (\<lambda>i. page_at m' (sec + 8 * i)) [0 ..< ?n]) = take (?n * PAGE_SIZE_bytes) buf"
  proof -
    have "map (\<lambda>i. page_at m' (sec + 8 * i)) [0 ..< ?n] = map (page_of buf) [0 ..< ?n]" using stored_page [OF w(1)] by simp
    then show ?thesis using concat_pages [OF sg(2) np(1)] by (simp only:)
  qed
  have tk: "take (?n * PAGE_SIZE_bytes) buf = encode_base ?b @ le_bytes 4 (int (crc (encode_base ?b))) @ take (?n * PAGE_SIZE_bytes - (bt_checksum_offset ?b + 4)) r"
    using r len np(2) by (simp add: take_append)
  have "validate_base_table crc dbg no_check c (take (?n * PAGE_SIZE_bytes) buf) = Done (VDFS4_SNAPSHOT_VERSION (mount_counter s) (sn_sync_count s))"
    using validate_base_signed [where crc = crc, OF fit(1,2) sign tk] by (simp add: fill_base_descriptor_def)
  moreover have "decode_base (take (?n * PAGE_SIZE_bytes) buf) = base_t s'" unfolding tk bt(1) by (rule decode_encode_base [OF fit(1)])
  moreover have "same_positions (base_t s') (base_t s)"
    unfolding bt(1) by (simp add: same_positions_def positions_def slot_def VDFS4_LAST_TABLE_INDEX_def fill_base_descriptor_def)
  ultimately show ?thesis
    using io rd bt by (simp add: table_read_IO_def next_io_def)
qed

section \<open>A commit always comes to an end\<close>

lemma update_tables_done:
  assumes fits: "bt_checksum_offset (fill_base_descriptor s) = base_header_size + base_record_size * length (bt_records (base_t s))"
      "length (last_page_index (base_t s)) = 5" "length (translation_table_offsets (base_t s)) = 5"
    and room: "bt_checksum_offset (fill_base_descriptor s) + 4 \<le> base_pages s * PAGE_SIZE_bytes"
    and ext: "use_base_table s \<or> ext_size (ext_records s) \<le> PAGE_SIZE_bytes"
  shows "\<exists>ret s' m'. vdfs4_update_translation_tables crc s m = Done (ret, s', m')"
proof -
  have sg: "\<exists>buf. sign_table crc n off t = Done buf" if "off + 4 \<le> n * PAGE_SIZE_bytes" for n off t
    using that by (auto simp: sign_table_def Let_def)
  have fb: "fill_base_descriptor (s\<lparr>use_base_table := False, extended_table_count := 0\<rparr>) = fill_base_descriptor s"
    "fill_ext_descriptor (s\<lparr>extended_table_count := n\<rparr>) = fill_ext_descriptor s" for n
    by (simp_all add: fill_base_descriptor_def fill_ext_descriptor_def)
  show ?thesis
  proof (cases "extended_table_count s \<ge> VDFS4_SNAPSHOT_TABLES_COUNT \<or> use_base_table s")
    case True
    obtain buf where "sign_table crc (base_pages s) (bt_checksum_offset (fill_base_descriptor s)) (encode_base (fill_base_descriptor s)) = Done buf"
      using sg [OF room] by blast
    then show ?thesis using True by (simp add: vdfs4_update_translation_tables_def choose_table_def Let_def fb) (metis prod_cases3)
  next
    case False
    have le: "et_checksum_offset (fill_ext_descriptor s) + 4 \<le> 1 * PAGE_SIZE_bytes"
      using ext False by (simp add: fill_ext_descriptor_def ext_size_def CRC32_SIZE_bytes_def mult.commute)
    obtain buf where "sign_table crc 1 (et_checksum_offset (fill_ext_descriptor s)) (encode_ext (fill_ext_descriptor s)) = Done buf"
      using sg [OF le] by blast
    then show ?thesis using False le
      by (simp add: vdfs4_update_translation_tables_def choose_table_def Let_def fb CRC32_SIZE_bytes_def) (metis prod_cases3)
  qed
qed

text \<open>Without errors of the block layer every write succeeds.\<close>

definition tables_area_ok :: "tables_area \<Rightarrow> bool" where
  "tables_area_ok m \<longleftrightarrow> tb_script m = [] \<and> block_sector m (tb_length m) < tb_sectors m"

lemma tables_area_ok_sector:
  assumes "tables_area_ok m" "i \<le> tb_length m"
  shows "\<exists>sec. vdfs4_get_table_sector m i = Inr sec"
proof -
  have "block_sector m i \<le> block_sector m (tb_length m)"
    using assms(2) by (simp add: block_sector_def)
  also have "\<dots> < tb_sectors m" using assms(1) by (simp add: tables_area_ok_def)
  finally show ?thesis using assms(2) by (simp add: vdfs4_get_table_sector_def Let_def)
qed

lemma retry_write_success:
  assumes "tables_area_ok m" "i \<le> tb_length m"
  shows "\<exists>m'. retry_write n buf sz i m = (success, i + pages_in sz, n, m') \<and> tables_area_ok m' \<and> same_area m m'"
proof -
  obtain sec where "vdfs4_get_table_sector m i = Inr sec" using tables_area_ok_sector [OF assms] by blast
  then show ?thesis using assms(1)
    by (simp add: retry_write.simps table_write_IO_def next_io_def tables_area_ok_def same_area_def block_sector_def)
qed

lemma write_table_success:
  assumes "tables_area_ok m" "i + 1 \<le> tb_length m"
  shows "\<exists>s' m'. write_table buf sz ty i s m = (success, s', m') \<and> tables_area_ok m' \<and> same_area m m'"
proof (cases "sz > PAGE_SIZE_bytes \<and> ty = SNAPSHOT_BASE_TABLE")
  case True
  obtain m1 where m1: "retry_write 3 (drop PAGE_SIZE_bytes buf) (sz - PAGE_SIZE_bytes) (i + 1) m = (success, i + 1 + pages_in (sz - PAGE_SIZE_bytes), 3, m1)"
    "tables_area_ok m1" "same_area m m1" using retry_write_success [OF assms(1), of "i + 1"] assms(2) by blast
  moreover have "i \<le> tb_length m1" using m1(3) assms(2) by (simp add: same_area_def)
  then obtain m2 where "retry_write 3 buf PAGE_SIZE_bytes i m1 = (success, i + pages_in PAGE_SIZE_bytes, 3, m2)" "tables_area_ok m2" "same_area m1 m2"
    using retry_write_success [OF m1(2)] by blast
  ultimately show ?thesis using True by (auto simp: write_table_def same_area_def)
next
  case False
  have "i \<le> tb_length m" using assms(2) by simp
  then obtain m2 where "retry_write 3 buf PAGE_SIZE_bytes i m = (success, i + pages_in PAGE_SIZE_bytes, 3, m2)" "tables_area_ok m2" "same_area m m2"
    using retry_write_success [OF assms(1)] by blast
  then show ?thesis unfolding write_table_def if_not_P [OF False] by simp
qed

lemma update_tables_success:
  assumes fits: "bt_checksum_offset (fill_base_descriptor s) = base_header_size + base_record_size * length (bt_records (base_t s))"
      "length (last_page_index (base_t s)) = 5" "length (translation_table_offsets (base_t s)) = 5"
    and room: "bt_checksum_offset (fill_base_descriptor s) + 4 \<le> base_pages s * PAGE_SIZE_bytes"
    and ext: "use_base_table s \<or> ext_size (ext_records s) \<le> PAGE_SIZE_bytes"
    and io: "tables_area_ok m" "iblock s + 1 \<le> tb_length m" "2 \<le> tb_length m"
  shows "\<exists>s' m'. vdfs4_update_translation_tables crc s m = Done (success, s', m') \<and> tables_area_ok m' \<and> same_area m m'"
proof -
  obtain ret s' m' where u: "vdfs4_update_translation_tables crc s m = Done (ret, s', m')" using update_tables_done [OF fits room ext] by blast
  note c = update_tables_cases [OF u fits]
  have h: "(if iblock s \<ge> tb_length m div 2 then 0 else tb_length m div 2) + 1 \<le> tb_length m" using io(3) by auto
  have "ret = success \<and> tables_area_ok m' \<and> same_area m m'"
  proof (cases "extended_table_count s \<ge> VDFS4_SNAPSHOT_TABLES_COUNT \<or> use_base_table s")
    case True
    show ?thesis using c unfolding if_P [OF True]
      by (elim exE conjE) (insert write_table_success [OF io(1) h], metis prod.inject)
  next
    case False
    show ?thesis using c unfolding if_not_P [OF False]
      by (elim exE conjE) (insert write_table_success [OF io(1,2)], metis prod.inject)
  qed
  then show ?thesis using u by blast
qed

end
