(* ===== verification/Vdfs_Snapshot_Props.thy ===== *)
theory Vdfs_Snapshot_Props
  imports Vdfs_Snapshot_Commit
begin

text \<open>
  The properties of the snapshot manager: copy on write, the invariant of every reachable state,
  what a commit writes and what a mount makes of it, and the growth of the metadata area.
\<close>

section \<open>Reachable states\<close>

text \<open>The five tables cover the records of the base table.\<close>

definition covered :: "base_table \<Rightarrow> bool" where
  "covered b \<longleftrightarrow> length (bt_records b) = sum_list (map (\<lambda>ino. Suc (VDFS4_LAST_TABLE_INDEX b ino)) special_files)"

text \<open>
  The life of a mounted volume: it is mounted, chunks are added to the running transaction, special
  files grow, and transactions are committed. A commit makes the current blocks the committed ones
  and writes the tables; the writes may fail.
\<close>

inductive snapshot_reach :: "nat set \<Rightarrow> vdfs4_snapshot_info \<Rightarrow> bool" where
  mount: "tables_ok s \<Longrightarrow> covered (base_t s) \<Longrightarrow> bset (snapshot_bitmap s) = {} \<Longrightarrow> bset (moved_iblock s) = {} \<Longrightarrow> cow_blocks s = 0 \<Longrightarrow>
    build_snapshot_bitmaps s = Done s' \<Longrightarrow> snapshot_reach (refs s) s'"
| move: "snapshot_reach C s \<Longrightarrow> (ino, GET_TABLE_INDEX s ino page_index) \<in> keys s \<Longrightarrow>
    vdfs4_add_chunk_no_lock s ino page_index = Done s' \<Longrightarrow> snapshot_reach C s'"
| grow: "snapshot_reach C s \<Longrightarrow> special ino \<Longrightarrow> VDFS4_LAST_TABLE_INDEX (base_t s) ino < new \<Longrightarrow> new < 4294967296 \<Longrightarrow>
    room_for (new - VDFS4_LAST_TABLE_INDEX (base_t s) ino) s \<Longrightarrow>
    insert_new_iblocks ino new s = Done s1 \<Longrightarrow> snapshot_reach C (s1\<lparr>use_base_table := True\<rparr>)"
| commit: "snapshot_reach C s \<Longrightarrow> vdfs4_update_bitmaps debug s = Done s1 \<Longrightarrow>
    vdfs4_update_translation_tables crc s1 m = Done (ret, s2, m') \<Longrightarrow>
    snapshot_reach (refs s) (s2\<lparr>sn_sync_count := u32n (sn_sync_count s2 + 1)\<rparr>)"

lemma sum_special: "sum_list (map f special_files) = f 2 + f 3 + f 4 + f 5 + f (6::nat)" for f :: "nat \<Rightarrow> nat"
  by (simp add: special_files_eq)

lemma covered_repoint: "covered (repoint k p b) = covered b"
  by (simp add: covered_def repoint_def VDFS4_LAST_TABLE_INDEX_def cong: map_cong)

lemma keys_LAST:
  assumes "keys s' = keys s \<union> {(ino, i) | i. VDFS4_LAST_TABLE_INDEX (base_t s) ino < i \<and> i \<le> new}"
    "VDFS4_LAST_TABLE_INDEX (base_t s) ino \<le> new" "special ino" "special x"
  shows "VDFS4_LAST_TABLE_INDEX (base_t s') x = (if x = ino then new else VDFS4_LAST_TABLE_INDEX (base_t s) x)" (is "?L = ?R")
proof -
  have "(x, i) \<in> keys s' \<longleftrightarrow> i \<le> ?R" for i unfolding assms(1) using assms(2,4) by (auto simp: keys_def)
  moreover have "(x, i) \<in> keys s' \<longleftrightarrow> i \<le> ?L" for i using assms(4) by (simp add: keys_def)
  ultimately have eq: "i \<le> ?L \<longleftrightarrow> i \<le> ?R" for i by blast
  show ?thesis using eq [of ?L] eq [of ?R] by (simp only: order_refl) (rule le_antisym, simp_all)
qed

lemma covered_inserted:
  assumes ins: "chunks_inserted C ino new s s'" and inv: "cow_inv C s" "covered (base_t s)"
    and ino: "special ino" and le: "VDFS4_LAST_TABLE_INDEX (base_t s) ino \<le> new"
  shows "covered (base_t s')"
proof -
  let ?n = "new - VDFS4_LAST_TABLE_INDEX (base_t s) ino"
  have k: "keys s' = keys s \<union> {(ino, i) | i. VDFS4_LAST_TABLE_INDEX (base_t s) ino < i \<and> i \<le> new}"
    and c: "bt_checksum_offset (base_t s') = bt_checksum_offset (base_t s) + base_record_size * ?n" and inv': "cow_inv C s'"
    using ins by (simp_all add: chunks_inserted_def)
  have "length (bt_records (base_t s')) = length (bt_records (base_t s)) + ?n"
    using c inv(1) inv' by (simp add: cow_inv_def shape_ok_def layout_ok_def base_record_size_def)
  moreover have L: "VDFS4_LAST_TABLE_INDEX (base_t s') x = (if x = ino then new else VDFS4_LAST_TABLE_INDEX (base_t s) x)"
    if "special x" for x using keys_LAST [OF k le ino that] .
  have "sum_list (map (\<lambda>ino. Suc (VDFS4_LAST_TABLE_INDEX (base_t s') ino)) special_files)
    = sum_list (map (\<lambda>ino. Suc (VDFS4_LAST_TABLE_INDEX (base_t s) ino)) special_files) + ?n"
    using L [of 2] L [of 3] L [of 4] L [of 5] L [of 6] le ino
    unfolding sum_special by (auto simp: special_cases)
  ultimately show ?thesis using inv(2) by (simp add: covered_def)
qed

lemma fill_base_ok:
  assumes "layout_ok b" "covered b" "b = base_t s"
  shows "bt_checksum_offset (fill_base_descriptor s) = base_header_size + base_record_size * length (bt_records b)"
    "length (last_page_index b) = 5" "length (translation_table_offsets b) = 5"
    "layout_ok (fill_base_descriptor s)" "covered (fill_base_descriptor s)"
    "positions (fill_base_descriptor s) = positions b" "VDFS4_LAST_TABLE_INDEX (fill_base_descriptor s) = VDFS4_LAST_TABLE_INDEX b"
proof -
  have "base_table_bytes_count b = base_header_size + base_record_size * length (bt_records b)"
    using assms(2) unfolding base_table_bytes_count_def covered_def sum_special by (simp add: algebra_simps)
  then show c: "bt_checksum_offset (fill_base_descriptor s) = base_header_size + base_record_size * length (bt_records b)"
    using assms(1,3) by (simp add: fill_base_descriptor_def layout_ok_def u32n_id)
  have L: "VDFS4_LAST_TABLE_INDEX (fill_base_descriptor s) x = VDFS4_LAST_TABLE_INDEX b x"
    "slot (fill_base_descriptor s) x = slot b x" "slots (fill_base_descriptor s) x = slots b x" for x
    by (simp_all add: fill_base_descriptor_def VDFS4_LAST_TABLE_INDEX_def slot_def slots_def assms(3))
  show "length (last_page_index b) = 5" "length (translation_table_offsets b) = 5" using assms(1) by (simp_all add: layout_ok_def)
  show "VDFS4_LAST_TABLE_INDEX (fill_base_descriptor s) = VDFS4_LAST_TABLE_INDEX b" using L by blast
  have f: "last_page_index (fill_base_descriptor s) = last_page_index b" "translation_table_offsets (fill_base_descriptor s) = translation_table_offsets b"
    "bt_records (fill_base_descriptor s) = bt_records b"
    by (simp_all add: fill_base_descriptor_def assms(3))
  show "layout_ok (fill_base_descriptor s)"
    using assms(1) c unfolding layout_ok_def L f by simp
  show "covered (fill_base_descriptor s)" using assms(2) unfolding covered_def L f .
  show "positions (fill_base_descriptor s) = positions b" by (intro ext) (simp add: positions_def L f)
qed

lemma update_bitmaps_done:
  assumes "cow_inv C s" "vdfs4_update_bitmaps debug s = Done s1"
  shows "cow_inv (refs s) s1" "base_t s1 = base_t s" "refs s1 = refs s"
proof -
  have "vdfs4_update_bitmaps False s = Done s1" using assms(2) by (simp add: vdfs4_update_bitmaps_def split: if_splits)
  then show "cow_inv (refs s) s1" "base_t s1 = base_t s" "refs s1 = refs s" using update_bitmaps_ok [OF assms(1)] by auto
qed

lemma update_tables_state:
  assumes u: "vdfs4_update_translation_tables crc s m = Done (ret, s', m')" and inv: "cow_inv C s" "covered (base_t s)"
  shows "cow_inv C s' \<and> covered (base_t s') \<and> refs s' = refs s"
proof -
  have lay: "layout_ok (base_t s)" using inv(1) by (simp add: cow_inv_def shape_ok_def)
  note fb = fill_base_ok [OF lay inv(2) refl]
  note c = update_tables_cases [OF u fb(1-3)]
  have *: "cow_inv C t \<and> covered (base_t t) \<and> refs t = refs s"
    if "base_t t = base_t s \<or> base_t t = fill_base_descriptor s" "snapshot_bitmap t = snapshot_bitmap s" "next_snapshot_bitmap t = next_snapshot_bitmap s"
      "moved_iblock t = moved_iblock s" "cow_blocks t = cow_blocks s" "same_geometry s t" for t
  proof -
    have b: "layout_ok (base_t t)" "covered (base_t t)" "positions (base_t t) = positions (base_t s)"
      "VDFS4_LAST_TABLE_INDEX (base_t t) = VDFS4_LAST_TABLE_INDEX (base_t s)"
      using that(1) fb lay inv(2) by auto
    have "keys t = keys s" "position t k = position s k" for k using b(3,4) by (simp_all add: keys_def position_def)
    then show ?thesis using cow_inv_cong [OF inv(1) that(6) b(1) _ _ that(2-5)] b(2) by simp
  qed
  have w: "cow_inv C s' \<and> covered (base_t s') \<and> refs s' = refs s"
    if "write_table buf sz ty i t m = (ret, s', m')" "0 < sz" "ty = SNAPSHOT_EXT_TABLE \<Longrightarrow> sz \<le> PAGE_SIZE_bytes"
      "base_t t = base_t s \<or> base_t t = fill_base_descriptor s"
      "snapshot_bitmap t = snapshot_bitmap s" "next_snapshot_bitmap t = next_snapshot_bitmap s"
      "moved_iblock t = moved_iblock s" "cow_blocks t = cow_blocks s" "same_geometry s t"
    for buf sz ty i t
  proof -
    have s': "s' = t \<or> s' = t\<lparr>iblock := i + pages_in sz, dirty_pages_count := 0, ext_records := []\<rparr>"
      using write_table_state(1,2) [OF that(1-3)] by (cases ret) auto
    have "base_t s' = base_t t" using s' by auto
    moreover have "snapshot_bitmap s' = snapshot_bitmap s" "next_snapshot_bitmap s' = next_snapshot_bitmap s"
      "moved_iblock s' = moved_iblock s" "cow_blocks s' = cow_blocks s" "same_geometry s s'"
      using s' that(5-9) by (auto simp: same_geometry_def)
    ultimately show ?thesis using * [of s'] that(4) by simp
  qed
  show ?thesis
  proof (cases "extended_table_count s \<ge> VDFS4_SNAPSHOT_TABLES_COUNT \<or> use_base_table s")
    case True
    then show ?thesis using c unfolding if_P [OF True] by (elim exE conjE) (erule w; simp add: same_geometry_def)
  next
    case False
    then show ?thesis using c unfolding if_not_P [OF False] by (elim exE conjE) (erule w; simp add: same_geometry_def)
  qed
qed

lemma snapshot_reach_inv: "snapshot_reach C s \<Longrightarrow> cow_inv C s \<and> covered (base_t s)"
proof (induction rule: snapshot_reach.induct)
  case (mount s s')
  then show ?case using build_snapshot_bitmaps_ok [of s] by auto
next
  case (move C s ino page_index s')
  let ?k = "(ino, GET_TABLE_INDEX s ino page_index)"
  show ?case
  proof (cases "chunk s ?k \<subseteq> bset (moved_iblock s)")
    case True
    then have "s' = s" using add_chunk_moved [of C s ?k] move by simp
    then show ?thesis using move by simp
  next
    case False
    obtain p s1 where "vdfs4_add_chunk_no_lock s ino page_index = Done (note_chunk s1 ino page_index p)" "cow_inv C s1"
      "base_t s1 = repoint ?k p (base_t s)"
      using add_chunk_unmoved [of C s ?k ino page_index] move False by auto
    then show ?thesis using move by (simp add: cow_inv_note_chunk covered_repoint)
  qed
next
  case (grow C s ino new s1)
  have le: "VDFS4_LAST_TABLE_INDEX (base_t s) ino \<le> new" using grow by simp
  have ins: "chunks_inserted C ino new s s1"
    using insert_new_iblocks_ok [of C s ino new] grow le by auto
  let ?t = "s1\<lparr>use_base_table := True\<rparr>"
  have "cow_inv C ?t = cow_inv C s1" by (rule cow_inv_frame) (simp_all add: same_tables_def)
  moreover have "covered (base_t s1)" using covered_inserted [OF ins] grow le by simp
  ultimately show ?case using ins by (simp add: chunks_inserted_def)
next
  case (commit C s debug s1 crc m ret s2 m')
  note ub = update_bitmaps_done [of C s debug s1]
  have "cow_inv (refs s) s2 \<and> covered (base_t s2)"
    using update_tables_state [OF commit(3), of "refs s"] ub commit by simp
  moreover have "cow_inv (refs s) (s2\<lparr>sn_sync_count := x\<rparr>) = cow_inv (refs s) s2" for x
    by (rule cow_inv_frame) (simp_all add: same_tables_def)
  ultimately show ?case by simp
qed

section \<open>A small volume\<close>

text \<open>Five special files of one chunk each, in the first blocks of a metadata area of twelve.\<close>

definition vol_record :: "nat \<Rightarrow> base_table_record" where
  "vol_record p = \<lparr>rec_meta_iblock = p, rec_sync_count = 0, rec_mount_count = 1\<rparr>"

definition vol_base :: base_table where
  "vol_base = \<lparr>bt_sync_count = 0, bt_mount_count = 1, bt_checksum_offset = 184,
     last_page_index = [0, 0, 0, 0, 0], translation_table_offsets = [104, 120, 136, 152, 168],
     bt_records = map vol_record [0, 1, 2, 3, 4]\<rparr>"

definition vol_snap :: vdfs4_snapshot_info where
  "vol_snap = \<lparr>snapshot_bitmap = replicate 5 True @ replicate 7 False,
     next_snapshot_bitmap = replicate 5 True @ replicate 7 False, moved_iblock = replicate 12 False,
     cow_blocks = 0, bitmap_size_in_bits = 12, hint_btree = 0, hint_bitmaps = 0, base_t = vol_base, base_pages = 1,
     ext_records = [], iblock = 1, sn_sync_count = 1, dirty_pages_count = 0, use_base_table = False,
     extended_table_count = 0, mount_counter = 1, log_blocks_in_leb = 0, log_blocks_in_page = 0, sn_block_size_shift = 12\<rparr>"

lemmas vol_defs = vol_snap_def vol_base_def vol_record_def

lemma SF_INDEX_eval [simp]:
  "VDFS4_SF_INDEX 2 = 0" "VDFS4_SF_INDEX 3 = 1" "VDFS4_SF_INDEX 4 = 2" "VDFS4_SF_INDEX 5 = 3" "VDFS4_SF_INDEX 6 = 4"
  by (simp_all add: VDFS4_SF_INDEX_def ino_defs)

lemma vol_LAST: "special ino \<Longrightarrow> VDFS4_LAST_TABLE_INDEX vol_base ino = 0"
  by (auto simp: special_cases VDFS4_LAST_TABLE_INDEX_def vol_defs)

lemma vol_slot: "special ino \<Longrightarrow> slot vol_base ino = ino - 2"
  by (auto simp: special_cases slot_def vol_defs base_header_size_def base_record_size_def)

lemma vol_layout: "layout_ok vol_base"
proof -
  have s: "slots vol_base ino = {ino - 2}" if "special ino" for ino
    using vol_LAST [OF that] vol_slot [OF that] by (auto simp: slots_def)
  have "length (last_page_index vol_base) = 5" "length (translation_table_offsets vol_base) = 5" "length (bt_records vol_base) = 5"
    "bt_checksum_offset vol_base = 184" by (simp_all add: vol_base_def)
  moreover have "translation_table_offsets vol_base ! VDFS4_SF_INDEX ino = 104 + 16 * slot vol_base ino" "ino - 2 < 5" if "special ino" for ino
    using that by (auto simp: special_cases slot_def vol_base_def base_header_size_def base_record_size_def)
  moreover have "ino = ino'" if "special ino" "special ino'" "ino - 2 = ino' - 2" for ino ino'
    using that by (auto simp: special_cases)
  ultimately show ?thesis unfolding layout_ok_def
    by (auto simp: s base_header_size_def base_record_size_def)
qed

lemma vol_base_t [simp]: "base_t vol_snap = vol_base"
  by (simp add: vol_snap_def)

lemma vol_keys: "keys vol_snap = {(2, 0), (3, 0), (4, 0), (5, 0), (6, 0)}"
proof -
  have "(ino, i) \<in> keys vol_snap \<longleftrightarrow> special ino \<and> i = 0" for ino i
    using vol_LAST [of ino] by (auto simp: keys_def)
  then have "keys vol_snap = {ino. special ino} \<times> {0}" by (simp add: set_eq_iff)
  moreover have "{ino. special ino} = {2, 3, 4, 5, 6}" by (auto simp: special_cases)
  ultimately show ?thesis by simp
qed

lemma vol_record_at: "special ino \<Longrightarrow> rec_meta_iblock (bt_records vol_base ! (ino - 2)) = ino - 2"
  by (auto simp: vol_base_def vol_record_def special_cases)

lemma vol_position: "special ino \<Longrightarrow> position vol_snap (ino, 0) = ino - 2"
  by (simp add: position_def nth_positions vol_slot vol_record_at)

lemma vol_order: "order_of vol_snap ino = 0"
  by (simp add: order_of_def vol_snap_def)

lemma vol_keysD: "k \<in> keys vol_snap \<Longrightarrow> special (fst k) \<and> k = (fst k, 0)"
  by (auto simp: vol_keys special_cases)

lemma vol_chunk: "k \<in> keys vol_snap \<Longrightarrow> chunk vol_snap k = {fst k - 2}"
proof -
  assume k: "k \<in> keys vol_snap"
  have "position vol_snap k = fst k - 2" using vol_keysD [OF k] vol_position [of "fst k"] by metis
  then show ?thesis by (simp add: chunk_def area_def vol_order atLeastLessThan_singleton)
qed

lemma vol_refs: "refs vol_snap = {0, 1, 2, 3, 4}"
proof -
  have "refs vol_snap = (\<lambda>k. fst k - 2) ` keys vol_snap" using vol_chunk by (auto simp: refs_def)
  then show ?thesis by (simp add: vol_keys)
qed

lemma bset_eval: "bset (replicate n True @ replicate m False) = {..<n}"
proof (rule set_eqI)
  fix x show "x \<in> bset (replicate n True @ replicate m False) \<longleftrightarrow> x \<in> {..<n}"
  proof (cases "x < n")
    case False
    then have "\<not> (replicate n True @ replicate m False) ! x" if "x < n + m" using that by (simp add: nth_append)
    then show ?thesis using False by (auto simp: bset_def)
  qed (simp add: bset_def nth_append)
qed

lemma vol_inv: "cow_inv {0, 1, 2, 3, 4} vol_snap"
proof -
  have b: "bset (snapshot_bitmap vol_snap) = {0, 1, 2, 3, 4}" "bset (next_snapshot_bitmap vol_snap) = {0, 1, 2, 3, 4}"
    unfolding vol_snap_def vdfs4_snapshot_info.select_convs bset_eval by (simp_all add: lessThan_nat_numeral lessThan_Suc insert_commute)
  have mv: "bset (moved_iblock vol_snap) = {}" using bset_eval [of 0 12] by (simp add: vol_snap_def)
  have dis: "disjoint_family_on (chunk vol_snap) (keys vol_snap)"
    unfolding disjoint_family_on_def
  proof (intro ballI impI)
    fix j k assume "j \<in> keys vol_snap" "k \<in> keys vol_snap" "j \<noteq> k"
    then show "chunk vol_snap j \<inter> chunk vol_snap k = {}"
      using vol_chunk [of j] vol_chunk [of k] by (auto simp: vol_keys)
  qed
  have "shape_ok vol_snap" using vol_layout by (simp add: shape_ok_def) (simp add: vol_snap_def PAGE_SHIFT_bits_def)
  moreover have "chunk vol_snap k \<subseteq> {0, 1, 2, 3, 4}" "2 ^ order_of vol_snap (fst k) dvd position vol_snap k"
    if "k \<in> keys vol_snap" for k
    using that vol_chunk [OF that] by (auto simp: vol_keys vol_order)
  moreover have "bitmap_size_in_bits vol_snap = 12" "cow_blocks vol_snap = 0" by (simp_all add: vol_snap_def)
  ultimately show ?thesis unfolding cow_inv_def vol_refs b mv using dis by auto
qed

section \<open>Copy on write\<close>

text \<open>
  C1. Adding a chunk to the transaction never fails. A chunk that has been moved since the last commit
  stays where it is, and nothing changes. Any other chunk gets new blocks that neither the last commit nor the
  current tables use, as long as there is an aligned area of its size. When there is none, copy on write is
  given up: the chunk stays at its old position, in the blocks of the last commit, and is marked as moved, so
  that it will be written there. No other chunk moves, and the invariant is kept.
\<close>

theorem copy_on_write:
  assumes "cow_inv C s" "(ino, GET_TABLE_INDEX s ino page_index) \<in> keys s"
  shows "\<exists>s'. vdfs4_add_chunk_no_lock s ino page_index = Done s' \<and> cow_inv C s' \<and>
    (let k = (ino, GET_TABLE_INDEX s ino page_index)
     in if chunk s k \<subseteq> bset (moved_iblock s) then s' = s
        else chunk s' k \<subseteq> bset (moved_iblock s') \<and> (\<forall>j. j \<in> keys s - {k} \<longrightarrow> position s' j = position s j) \<and>
          (if \<exists>q. free_area_at s ino q then chunk s' k \<inter> (C \<union> refs s) = {} else position s' k = position s k))"
proof -
  let ?k = "(ino, GET_TABLE_INDEX s ino page_index)"
  obtain s' where s': "vdfs4_add_chunk_no_lock s ino page_index = Done s'" "cow_inv C s'"
    "if chunk s ?k \<subseteq> bset (moved_iblock s) then s' = s else chunk_added ?k C s s'"
    using add_chunk_ok [OF assms(1) refl assms(2)] by blast
  show ?thesis
  proof (cases "chunk s ?k \<subseteq> bset (moved_iblock s)")
    case True
    then show ?thesis using s' by (simp add: Let_def)
  next
    case False
    have "chunk_added ?k C s s'" using s'(3) unfolding if_not_P [OF False] .
    then show ?thesis
      using s'(1,2) unfolding Let_def if_not_P [OF False] chunk_added_def no_free_area_def fst_conv by (auto split: if_splits)
  qed
qed

lemma vol_free: "free_area_at vol_snap ino 5"
proof -
  have "bset (snapshot_bitmap vol_snap) = {0, 1, 2, 3, 4}" using vol_inv vol_refs by (simp add: cow_inv_def)
  moreover have "area vol_snap ino 5 = {5}" by (auto simp: area_def vol_order)
  moreover have "bitmap_size_in_bits vol_snap = 12" by (simp add: vol_snap_def)
  ultimately show ?thesis by (simp add: free_area_at_def vol_order)
qed

text \<open>The chunk at block 1 is moved away from the blocks 0 to 4 of the last commit.\<close>

theorem copy_on_write_witness:
  "\<exists>s'. vdfs4_add_chunk_no_lock vol_snap 3 0 = Done s' \<and> cow_inv {0, 1, 2, 3, 4} s' \<and>
    chunk s' (3, 0) \<inter> {0, 1, 2, 3, 4} = {} \<and> position s' (2, 0) = position vol_snap (2, 0)"
proof -
  have k: "(3, GET_TABLE_INDEX vol_snap 3 0) \<in> keys vol_snap" "GET_TABLE_INDEX vol_snap 3 0 = 0" "(2, 0) \<in> keys vol_snap"
    by (simp_all add: vol_keys GET_TABLE_INDEX_def)
  have "bset (moved_iblock vol_snap) = {}" using bset_eval [of 0 12] by (simp add: vol_snap_def)
  moreover have "position vol_snap (3, 0) \<in> chunk vol_snap (3, 0)" by (simp add: chunk_def area_def)
  ultimately have "\<not> chunk vol_snap (3, 0) \<subseteq> bset (moved_iblock vol_snap)" by blast
  moreover have "\<exists>q. free_area_at vol_snap 3 q" using vol_free by blast
  ultimately show ?thesis
    using copy_on_write [OF vol_inv k(1), unfolded k(2) Let_def] k(3) vol_refs by (auto split: if_splits)
qed

text \<open>
  C8. In every state a mounted volume reaches, the bitmap of the next state holds exactly the blocks the
  translation tables refer to, the bitmap of the current state these and the blocks of the last
  commit, no block belongs to two chunks, every chunk lies in the area and is aligned, and
  \<^verbatim>\<open>cow_blocks\<close> counts the blocks that only the last commit uses.
\<close>

theorem snapshot_reachable_ok:
  assumes "snapshot_reach C s"
  shows "bset (next_snapshot_bitmap s) = refs s \<and> bset (snapshot_bitmap s) = C \<union> refs s \<and>
    (\<forall>j k. j \<in> keys s \<and> k \<in> keys s \<and> j \<noteq> k \<longrightarrow> chunk s j \<inter> chunk s k = {}) \<and>
    refs s \<subseteq> {..< bitmap_size_in_bits s} \<and> (\<forall>k. k \<in> keys s \<longrightarrow> 2 ^ order_of s (fst k) dvd position s k) \<and>
    cow_blocks s = card (C - refs s) \<and> layout_ok (base_t s)"
proof -
  have "cow_inv C s" using snapshot_reach_inv [OF assms] by simp
  then show ?thesis unfolding cow_inv_def shape_ok_def disjoint_family_on_def by blast
qed

definition vol_fresh :: vdfs4_snapshot_info where
  "vol_fresh = vol_snap\<lparr>snapshot_bitmap := replicate 12 False, next_snapshot_bitmap := replicate 12 False\<rparr>"

lemma vol_covered: "covered vol_base"
  by (simp add: covered_def special_files_eq vol_LAST special_cases) (simp add: vol_base_def)

lemma vol_fresh_ok: "tables_ok vol_fresh" "covered (base_t vol_fresh)" "bset (snapshot_bitmap vol_fresh) = {}"
    "bset (moved_iblock vol_fresh) = {}" "cow_blocks vol_fresh = 0"
proof -
  have st: "same_tables vol_snap vol_fresh" by (simp add: same_tables_def vol_fresh_def)
  have "shape_ok vol_fresh" using vol_layout by (simp add: shape_ok_def vol_fresh_def) (simp add: vol_snap_def PAGE_SHIFT_bits_def)
  then show "tables_ok vol_fresh"
    using vol_inv unfolding tables_ok_def cow_inv_def same_tables_chunks [OF st] by (simp add: vol_fresh_def)
  show "covered (base_t vol_fresh)" using vol_covered by (simp add: vol_fresh_def)
  show "bset (snapshot_bitmap vol_fresh) = {}" "bset (moved_iblock vol_fresh) = {}" "cow_blocks vol_fresh = 0"
    using bset_eval [of 0 12] by (simp_all add: vol_fresh_def vol_snap_def)
qed

theorem snapshot_reachable_ok_witness:
  "\<exists>s. snapshot_reach (refs vol_fresh) s \<and> bset (next_snapshot_bitmap s) = refs s"
proof -
  obtain s where "build_snapshot_bitmaps vol_fresh = Done s" using build_snapshot_bitmaps_ok [OF vol_fresh_ok(1,3-5)] by blast
  then have "snapshot_reach (refs vol_fresh) s" using snapshot_reach.mount [OF vol_fresh_ok] by blast
  then show ?thesis using snapshot_reachable_ok by blast
qed

text \<open>
  C23. Growing a special file: with as many free areas as new entries the insertion succeeds, every old
  entry of every file keeps its position, the new chunks use blocks that neither the last commit nor
  the tables use, and the invariant is kept. With fewer free areas the code stops at its assertion.
\<close>

theorem insert_new_iblocks_correct:
  assumes "cow_inv C s" "special ino" "VDFS4_LAST_TABLE_INDEX (base_t s) ino < new" "new < 4294967296"
    "room_for (new - VDFS4_LAST_TABLE_INDEX (base_t s) ino) s"
  shows "if new - VDFS4_LAST_TABLE_INDEX (base_t s) ino \<le> card {q. free_area_at s ino q}
    then \<exists>s'. insert_new_iblocks ino new s = Done s' \<and> cow_inv C s' \<and>
      VDFS4_LAST_TABLE_INDEX (base_t s') ino = new \<and>
      (\<forall>k. k \<in> keys s \<longrightarrow> k \<in> keys s' \<and> position s' k = position s k) \<and>
      (\<forall>k. k \<in> keys s' - keys s \<longrightarrow> chunk s' k \<inter> (C \<union> refs s) = {})
    else insert_new_iblocks ino new s = Bug"
proof -
  have le: "VDFS4_LAST_TABLE_INDEX (base_t s) ino \<le> new" using assms(3) by simp
  have LAST: "VDFS4_LAST_TABLE_INDEX (base_t s') ino = new" if "chunks_inserted C ino new s s'" for s'
    using keys_LAST [of s' s ino new ino] that le assms(2) by (simp add: chunks_inserted_def)
  from insert_new_iblocks_ok [OF assms(1,2) le assms(4,5)] show ?thesis
  proof (elim disjE exE conjE)
    fix s' assume s': "insert_new_iblocks ino new s = Done s'" "chunks_inserted C ino new s s'"
      "new - VDFS4_LAST_TABLE_INDEX (base_t s) ino \<le> card (free_slots s ino)"
    have ci: "cow_inv C s'" "keys s' = keys s \<union> {(ino, i) | i. VDFS4_LAST_TABLE_INDEX (base_t s) ino < i \<and> i \<le> new}"
      "\<forall>k \<in> keys s. position s' k = position s k"
      "\<forall>i. VDFS4_LAST_TABLE_INDEX (base_t s) ino < i \<and> i \<le> new \<longrightarrow> chunk s' (ino, i) \<inter> (C \<union> refs s) = {}"
      using s'(2) by (simp_all add: chunks_inserted_def)
    have "chunk s' k \<inter> (C \<union> refs s) = {}" if "k \<in> keys s' - keys s" for k using that ci(4) unfolding ci(2) by blast
    moreover have "k \<in> keys s'" if "k \<in> keys s" for k using that unfolding ci(2) by blast
    ultimately show ?thesis using s'(1,3) ci(1,3) LAST [OF s'(2)] unfolding free_slots_def by simp
  qed (simp add: free_slots_def)
qed

theorem insert_new_iblocks_correct_witness:
  "\<exists>s'. insert_new_iblocks 2 1 vol_snap = Done s' \<and> cow_inv {0, 1, 2, 3, 4} s'"
proof -
  have "card {q. free_area_at vol_snap 2 q} \<noteq> 0"
    using finite_free_slots [of vol_snap 2] vol_free [of 2] unfolding free_slots_def by (metis card_0_eq empty_iff mem_Collect_eq)
  moreover have "room_for 1 vol_snap"
    by (simp add: room_for_def vol_snap_def vol_base_def base_record_size_def PAGE_SIZE_bytes_def)
  moreover have "special 2" by (simp add: special_cases)
  ultimately show ?thesis
    using insert_new_iblocks_correct [OF vol_inv, of 2 1] by (auto simp: vol_LAST Suc_le_eq)
qed

section \<open>Commits\<close>


definition vol_area :: tables_area where
  "vol_area = \<lparr>tb_data = (\<lambda>b. []), tb_script = [], tb_begin = 100, tb_length = 40, tb_sectors = 8000, tb_block_size_shift = 12\<rparr>"


lemma vol_ext: "ext_size (ext_records vol_snap) \<le> PAGE_SIZE_bytes"
  by (simp add: ext_size_def vol_snap_def PAGE_SIZE_bytes_def ext_header_size_def CRC32_SIZE_bytes_def)

lemma vol_room: "bt_checksum_offset vol_base + 4 \<le> base_pages vol_snap * PAGE_SIZE_bytes"
  by (simp add: vol_base_def vol_snap_def PAGE_SIZE_bytes_def)


text \<open>
  C21. Blocks of 512, 1024 and 2048 bytes: a commit that writes an extended table overwrites the page of the
  table before it. The page of the new table begins one block behind that page, so that only the first
  block of the page keeps its bytes, and the bytes of the new table follow.
\<close>

theorem small_blocks_overlap:
  assumes "cow_inv C s" "covered (base_t s)" "extended_table_count s < VDFS4_SNAPSHOT_TABLES_COUNT" "\<not> use_base_table s"
    "vdfs4_update_translation_tables crc s m = Done (success, s', m')"
    "0 < iblock s" "9 \<le> tb_block_size_shift m" "tb_block_size_shift m < 12"
  shows "\<exists>buf. take (length (encode_ext (fill_ext_descriptor s))) buf = encode_ext (fill_ext_descriptor s) \<and>
    (\<forall>k < 8. tb_data m' (block_sector m (iblock s - 1) + k) =
      (if k < 2 ^ (tb_block_size_shift m - 9) then tb_data m (block_sector m (iblock s - 1) + k)
       else take 512 (drop (512 * (k - 2 ^ (tb_block_size_shift m - 9))) buf)))"
proof -
  let ?e = "encode_ext (fill_ext_descriptor s)" and ?d = "2 ^ (tb_block_size_shift m - 9)"
  have lay: "layout_ok (base_t s)" using assms(1) by (simp add: cow_inv_def shape_ok_def)
  note fb = fill_base_ok [OF lay assms(2) refl]
  have ne: "\<not> (extended_table_count s \<ge> VDFS4_SNAPSHOT_TABLES_COUNT \<or> use_base_table s)" using assms(3,4) by simp
  obtain buf where b: "sign_table crc 1 (length ?e) ?e = Done buf" "length ?e + 4 \<le> PAGE_SIZE_bytes"
    "write_table buf (length ?e + 4) SNAPSHOT_EXT_TABLE (iblock s) (s\<lparr>extended_table_count := extended_table_count s + 1\<rparr>) m = (success, s', m')"
    using update_tables_cases [OF assms(5) fb(1-3)] unfolding if_not_P [OF ne] by blast
  have p1: "pages_in (length ?e + 4) = 1" using pages_in_page b(2) by simp
  let ?q = "block_sector m (iblock s - 1)"
  have sec: "block_sector m (iblock s) = ?q + ?d"
    using assms(6) by (cases "iblock s") (simp_all add: block_sector_def algebra_simps)
  note w = write_table_ok [OF b(3) disjI2 [OF refl], unfolded table_sectors_def page_sectors_def p1 sec, simplified, OF b(2)]
  have "tb_data m' (?q + k) = (if k < ?d then tb_data m (?q + k) else take 512 (drop (512 * (k - ?d)) buf))" if k: "k < 8" for k
  proof (cases "k < ?d")
    case True
    then show ?thesis using w(1) by (simp add: untouched_def)
  next
    case False
    then obtain j where j: "k = ?d + j" using le_Suc_ex linorder_not_less by metis
    then have "tb_data m' (?q + ?d + j) = take 512 (drop (512 * j) buf)" using w(2) k by (simp add: stored_def)
    then show ?thesis using j by (simp add: add.assoc)
  qed
  moreover have "take (length ?e) buf = ?e" using sign_table_ok(1) [OF b(1)] by auto
  ultimately show ?thesis by blast
qed

theorem small_blocks_overlap_witness:
  "\<exists>s' m'. vdfs4_update_translation_tables (\<lambda>_. 7) vol_snap (vol_area\<lparr>tb_block_size_shift := 10\<rparr>) = Done (success, s', m') \<and>
    tb_data m' 200 = [] \<and> tb_data m' 201 = [] \<and> take 4 (tb_data m' 202) = take 4 (encode_ext (fill_ext_descriptor vol_snap))"
proof -
  let ?m = "vol_area\<lparr>tb_block_size_shift := 10\<rparr>" and ?e = "encode_ext (fill_ext_descriptor vol_snap)"
  have b: "base_t vol_snap = vol_base" "iblock vol_snap = 1" "extended_table_count vol_snap < VDFS4_SNAPSHOT_TABLES_COUNT" "\<not> use_base_table vol_snap"
    by (simp_all add: vol_snap_def VDFS4_SNAPSHOT_TABLES_COUNT_def)
  have m: "tables_area_ok ?m" "iblock vol_snap + 1 \<le> tb_length ?m" "2 \<le> tb_length ?m" "block_sector ?m 0 = 200"
    using b(2) by (simp_all add: tables_area_ok_def block_sector_def vol_area_def)
  have c: "covered (base_t vol_snap)" using vol_covered b(1) by simp
  note fb = fill_base_ok [OF vol_layout vol_covered b(1) [symmetric], unfolded b(1) [symmetric]]
  have room: "bt_checksum_offset (fill_base_descriptor vol_snap) + 4 \<le> base_pages vol_snap * PAGE_SIZE_bytes"
    using vol_room fb(1) vol_layout b(1) by (simp add: layout_ok_def)
  obtain s' m' where u: "vdfs4_update_translation_tables (\<lambda>_. 7) vol_snap ?m = Done (success, s', m')"
    using update_tables_success [OF fb(1-3) room disjI2 [OF vol_ext] m(1-3)] by blast
  obtain buf where w: "take (length ?e) buf = ?e" "\<And>k. k < 8 \<Longrightarrow> tb_data m' (200 + k) =
      (if k < 2 then tb_data ?m (200 + k) else take 512 (drop (512 * (k - 2)) buf))"
    using small_blocks_overlap [OF vol_inv c b(3,4) u] b(2) m(4) by (auto simp: vol_area_def)
  have "4 \<le> length ?e" by (simp add: length_encode_ext ext_header_size_def)
  then have "take 4 buf = take 4 ?e" using w(1) by (metis min.absorb1 take_take)
  then show ?thesis using u w(2) [of 0] w(2) [of 1] w(2) [of 2] by (simp add: vol_area_def)
qed

text \<open>
  C22. While chunks are added to a transaction, the extended table keeps up with the translation tables:
  applied to the tables of the last commit, its records give every file the positions it has now,
  unless the code has decided to write the whole base table.
\<close>

definition add_chunks :: "(nat \<times> nat) list \<Rightarrow> vdfs4_snapshot_info \<Rightarrow> vdfs4_snapshot_info outcome" where
  "add_chunks = for_each (\<lambda>(ino, page_index) s. vdfs4_add_chunk_no_lock s ino page_index)"

lemma add_chunks_log:
  assumes "cow_inv C s" "log_ok mt sy B s" "\<forall>(ino, p) \<in> set xs. (ino, GET_TABLE_INDEX s ino p) \<in> keys s"
  shows "\<exists>s'. add_chunks xs s = Done s' \<and> cow_inv C s' \<and> log_ok mt sy B s'"
  using assms
proof (induction xs arbitrary: s)
  case Nil
  then show ?case by (simp add: add_chunks_def)
next
  case (Cons x xs)
  obtain ino p where x: "x = (ino, p)" by (cases x)
  let ?k = "(ino, GET_TABLE_INDEX s ino p)"
  have k: "?k \<in> keys s" using Cons.prems(3) x by simp
  obtain s1 where s1: "vdfs4_add_chunk_no_lock s ino p = Done s1" "cow_inv C s1"
    "keys s1 = keys s" "GET_TABLE_INDEX s1 = GET_TABLE_INDEX s"
  proof (cases "chunk s ?k \<subseteq> bset (moved_iblock s)")
    case True
    then show ?thesis using that [of s] add_chunk_moved [OF Cons.prems(1) refl k] Cons.prems(1) by simp
  next
    case False
    obtain q t where t: "vdfs4_add_chunk_no_lock s ino p = Done (note_chunk t ino p q)" "cow_inv C t" "chunk_added ?k C s t"
      "GET_TABLE_INDEX t = GET_TABLE_INDEX s"
      using add_chunk_unmoved [OF Cons.prems(1) refl k False] by blast
    show ?thesis
      using that [OF t(1)] t(2-4) by (simp add: cow_inv_note_chunk same_tables_chunks [OF note_chunk_tables] chunk_added_def)
  qed
  have log: "log_ok mt sy B s1" using log_ok_add_chunk [OF Cons.prems(1,2) refl k s1(1)] .
  have "\<forall>(ino, p) \<in> set xs. (ino, GET_TABLE_INDEX s1 ino p) \<in> keys s1" using Cons.prems(3) s1(3,4) by simp
  from Cons.IH [OF s1(2) log this] show ?case using s1(1) x by (simp add: add_chunks_def)
qed

theorem extended_table_complete:
  assumes "cow_inv C s" "ext_records s = []" "\<forall>(ino, p) \<in> set xs. (ino, GET_TABLE_INDEX s ino p) \<in> keys s"
  shows "\<exists>s'. add_chunks xs s = Done s' \<and> cow_inv C s' \<and>
    (use_base_table s' \<or> ext_size (ext_records s') \<le> PAGE_SIZE_bytes \<and>
      (\<exists>B. for_each (parse_record mount sync) (ext_records s') (base_t s) = Done B \<and>
         (\<forall>ino. special ino \<longrightarrow> positions B ino = positions (base_t s') ino)))"
proof -
  have "layout_ok (base_t s)" using assms(1) by (simp add: cow_inv_def shape_ok_def)
  then have "log_ok mount sync (base_t s) s"
    using assms(2) by (simp add: log_ok_def same_layout_def same_positions_def ext_size_def ext_header_size_def CRC32_SIZE_bytes_def PAGE_SIZE_bytes_def)
  from add_chunks_log [OF assms(1) this assms(3)] show ?thesis by (auto simp: log_ok_def same_positions_def)
qed

theorem extended_table_complete_witness:
  "\<exists>s'. add_chunks [(2, 0), (3, 0)] vol_snap = Done s' \<and> cow_inv {0, 1, 2, 3, 4} s'"
proof -
  have "\<forall>(ino, p) \<in> set [(2, 0), (3, 0)]. (ino, GET_TABLE_INDEX vol_snap ino p) \<in> keys vol_snap"
    by (simp add: vol_keys GET_TABLE_INDEX_def)
  moreover have "ext_records vol_snap = []" by (simp add: vol_snap_def)
  ultimately show ?thesis using extended_table_complete [OF vol_inv] by blast
qed

end
