(* ===== verification/Vdfs_Snapshot_Recovery.thy ===== *)
theory Vdfs_Snapshot_Recovery
  imports Vdfs_Snapshot_Props
begin

text \<open>
  What a mount makes of a commit: the tables that have been written are found valid and give the
  positions of the committed state.
\<close>

section \<open>Formats\<close>

text \<open>
  The base table survives its trip to the medium: what the mount code reads out of the bytes of a
  written base table is the table, whatever follows it in the buffer.
\<close>

theorem base_table_roundtrip:
  assumes "base_fits b"
  shows "decode_base (encode_base b @ r) = b \<and> length (encode_base b) = bt_checksum_offset b"
  using decode_encode_base [OF assms] assms by (simp add: length_encode_base base_fits_def)

lemma vol_fits: "base_fits vol_base"
  by (simp add: base_fits_def vol_base_def vol_record_def record_fits_def base_header_size_def base_record_size_def)

theorem base_table_roundtrip_witness:
  "decode_base (encode_base vol_base @ [1, 2, 3]) = vol_base"
  using base_table_roundtrip [OF vol_fits] by blast

section \<open>Replaying commits\<close>

text \<open>
  C19. A commit that writes an extended table is found by the next mount: the table continues the version
  of the commit before, its checksum is right, and applying it to the tables of that commit gives
  every special file the positions it has in memory. The state after the commit points behind it.
\<close>

theorem ext_commit_recovered:
  assumes "cow_inv C s" "covered (base_t s)" "bt_checksum_offset (base_t s) + 4 \<le> base_pages s * PAGE_SIZE_bytes"
    "extended_table_count s < VDFS4_SNAPSHOT_TABLES_COUNT" "\<not> use_base_table s" "log_ok (mount_counter s) (sn_sync_count s) B s"
    "\<forall>r \<in> set (ext_records s). ext_record_fits r"
    "sn_sync_count s < 4294967296" "mount_counter s < 4294967296" "\<And>bs. crc bs < 4294967296"
    "VDFS4_MOUNT_COUNT version = mount_counter s" "sn_sync_count s = u32n (VDFS4_SYNC_COUNT version + 1)"
    "tables_area_ok m" "iblock s < tb_length m" "2 \<le> tb_length m"
  shows "\<exists>s' m' B'. vdfs4_update_translation_tables crc s m = Done (success, s', m') \<and>
    replay_tables crc 1 B version (iblock s) n m' = Done (Inr (B', iblock s', Suc n), m') \<and>
    (\<forall>ino. special ino \<longrightarrow> positions B' ino = positions (base_t s') ino) \<and> base_t s' = base_t s \<and> ext_records s' = []"
proof -
  have lay: "layout_ok (base_t s)" using assms(1) by (simp add: cow_inv_def shape_ok_def)
  note fb = fill_base_ok [OF lay assms(2) refl]
  have eq: "bt_checksum_offset (fill_base_descriptor s) = bt_checksum_offset (base_t s)" using fb(1) lay by (simp add: layout_ok_def)
  have ext: "use_base_table s \<or> ext_size (ext_records s) \<le> PAGE_SIZE_bytes" using assms(5,6) by (auto simp: log_ok_def)
  obtain s' m' where u: "vdfs4_update_translation_tables crc s m = Done (success, s', m')" "tables_area_ok m'" "same_area m m'"
    using update_tables_success [OF fb(1-3) _ ext assms(13) _ assms(15)] assms(3,14) eq by (metis Suc_eq_plus1 Suc_leI)
  have ne: "\<not> (extended_table_count s \<ge> VDFS4_SNAPSHOT_TABLES_COUNT \<or> use_base_table s)" using assms(4,5) by simp
  obtain sec where sec: "vdfs4_get_table_sector m' (iblock s) = Inr sec"
    using tables_area_ok_sector [OF u(2), of "iblock s"] u(3) assms(14) by (auto simp: same_area_def)
  have scr: "tb_script m' = []" using u(2) by (simp add: tables_area_ok_def)
  obtain B' where "replay_tables crc 1 B version (iblock s) n m' = Done (Inr (B', iblock s', Suc n), m')" "same_positions B' (base_t s')"
      "base_t s' = base_t s" "ext_records s' = []"
    using ext_commit_replayed [OF u(1) ne fb(1-3) assms(8,9,7,10,6,11,12) scr sec, of n] by blast
  then show ?thesis using u(1) by (auto simp: same_positions_def)
qed

text \<open>The first transaction after a commit with version \<open>(1, 0)\<close>, with nothing moved yet.\<close>

theorem ext_commit_recovered_witness:
  "\<exists>s' m' B'. vdfs4_update_translation_tables (\<lambda>_. 7) vol_snap vol_area = Done (success, s', m') \<and>
    replay_tables (\<lambda>_. 7) 1 vol_base 4294967296 1 0 m' = Done (Inr (B', iblock s', 1), m') \<and>
    positions B' 2 = positions (base_t s') 2"
proof -
  have log: "log_ok (mount_counter vol_snap) (sn_sync_count vol_snap) vol_base vol_snap"
    using vol_layout vol_ext by (simp add: log_ok_def same_layout_def same_positions_def) (simp add: vol_snap_def same_layout_def)
  have f: "extended_table_count vol_snap < VDFS4_SNAPSHOT_TABLES_COUNT" "\<not> use_base_table vol_snap" "ext_records vol_snap = []"
    "sn_sync_count vol_snap = 1" "mount_counter vol_snap = 1" "iblock vol_snap = 1"
    by (simp_all add: vol_snap_def VDFS4_SNAPSHOT_TABLES_COUNT_def)
  have v: "VDFS4_MOUNT_COUNT 4294967296 = 1" "1 = u32n (VDFS4_SYNC_COUNT 4294967296 + 1)"
    by (simp_all add: VDFS4_MOUNT_COUNT_def VDFS4_SYNC_COUNT_def u32n_def)
  have a: "tables_area_ok vol_area" "1 < tb_length vol_area" "2 \<le> tb_length vol_area" by (simp_all add: tables_area_ok_def block_sector_def vol_area_def)
  have "special 2" by (simp add: special_cases)
  with ext_commit_recovered [OF vol_inv _ _ f(1,2) log, of "\<lambda>_. 7" 4294967296 vol_area 0] show ?thesis
    using vol_covered vol_room f v a by simp blast
qed

text \<open>
  C20. A commit that writes the base table puts it into the half of the tables area that the last one is
  not in; read back from there it is valid, has the version of the commit and is the table in
  memory, with the positions of all special files. A block of the volume is a page of 4096 bytes, and the
  checksum of the table is the one in the superblock unless the volume is mounted without that check.
\<close>

theorem base_commit_recovered:
  assumes "cow_inv C s" "covered (base_t s)" "bt_checksum_offset (base_t s) + 4 \<le> base_pages s * PAGE_SIZE_bytes"
    "use_base_table s" "base_fits (fill_base_descriptor s)" "\<And>bs. crc bs < 4294967296"
    "tables_area_ok m" "iblock s < tb_length m" "2 \<le> tb_length m" "tb_block_size_shift m = 12"
    "no_check \<or> c = crc (encode_base (fill_base_descriptor s))"
  shows "\<exists>s' m' buf. vdfs4_update_translation_tables crc s m = Done (success, s', m') \<and>
    table_read_IO (bt_checksum_offset (base_t s') + 4) (if iblock s \<ge> tb_length m div 2 then 0 else tb_length m div 2) m' = (Inr buf, m') \<and>
    validate_base_table crc dbg no_check c buf = Done (VDFS4_SNAPSHOT_VERSION (mount_counter s) (sn_sync_count s)) \<and>
    decode_base buf = base_t s' \<and> (\<forall>ino. special ino \<longrightarrow> positions (base_t s') ino = positions (base_t s) ino)"
proof -
  have lay: "layout_ok (base_t s)" using assms(1) by (simp add: cow_inv_def shape_ok_def)
  note fb = fill_base_ok [OF lay assms(2) refl]
  have eq: "bt_checksum_offset (fill_base_descriptor s) = bt_checksum_offset (base_t s)" using fb(1) lay by (simp add: layout_ok_def)
  obtain s' m' where u: "vdfs4_update_translation_tables crc s m = Done (success, s', m')" "tables_area_ok m'" "same_area m m'"
    using update_tables_success [OF fb(1-3) _ disjI1 [OF assms(4)] assms(7) _ assms(9)] assms(3,8) eq by (metis Suc_eq_plus1 Suc_leI)
  define h where "h = (if iblock s \<ge> tb_length m div 2 then 0 else tb_length m div 2)"
  have "h \<le> tb_length m'" using u(3) by (simp add: h_def same_area_def)
  then obtain sec where sec: "vdfs4_get_table_sector m' h = Inr sec" using tables_area_ok_sector [OF u(2)] by blast
  have scr: "tb_script m' = []" using u(2) by (simp add: tables_area_ok_def)
  obtain buf where "table_read_IO (bt_checksum_offset (fill_base_descriptor s) + 4) h m' = (Inr buf, m')"
      "decode_base buf = base_t s'" "validate_base_table crc dbg no_check c buf = Done (VDFS4_SNAPSHOT_VERSION (mount_counter s) (sn_sync_count s))"
      "base_t s' = fill_base_descriptor s" "same_positions (base_t s') (base_t s)"
    using base_commit_readable [OF u(1) disjI2 [OF assms(4)] fb(1-3) assms(5,6) h_def scr sec assms(10,11), of dbg] by blast
  then show ?thesis using u(1) unfolding h_def same_positions_def by metis
qed

theorem base_commit_recovered_witness:
  "\<exists>s' m' buf. vdfs4_update_translation_tables (\<lambda>_. 7) (vol_snap\<lparr>use_base_table := True\<rparr>) vol_area = Done (success, s', m') \<and>
    table_read_IO (bt_checksum_offset (base_t s') + 4) 20 m' = (Inr buf, m') \<and>
    validate_base_table (\<lambda>_. 7) False False 7 buf = Done 4294967297 \<and> decode_base buf = base_t s'"
proof -
  let ?s = "vol_snap\<lparr>use_base_table := True\<rparr>"
  have "cow_inv {0, 1, 2, 3, 4} ?s = cow_inv {0, 1, 2, 3, 4} vol_snap" by (rule cow_inv_frame) (simp_all add: same_tables_def)
  then have inv: "cow_inv {0, 1, 2, 3, 4} ?s" using vol_inv by simp
  have fits: "base_fits (fill_base_descriptor ?s)"
  proof -
    have "fill_base_descriptor ?s = vol_base\<lparr>bt_checksum_offset := 184, bt_mount_count := 1, bt_sync_count := 1\<rparr>"
      using fill_base_ok(1) [OF vol_layout vol_covered, of ?s]
      by (simp add: fill_base_descriptor_def base_header_size_def base_record_size_def) (simp add: vol_snap_def vol_base_def)
    then show ?thesis using vol_fits by (simp add: base_fits_def) (simp add: vol_base_def)
  qed
  have a: "tables_area_ok vol_area" "iblock ?s < tb_length vol_area" "2 \<le> tb_length vol_area"
    "iblock ?s = 1" "tb_length vol_area = 40" "tb_block_size_shift vol_area = 12"
    "VDFS4_SNAPSHOT_VERSION (mount_counter ?s) (sn_sync_count ?s) = 4294967297" by (simp_all add: tables_area_ok_def block_sector_def vol_area_def vol_snap_def VDFS4_SNAPSHOT_VERSION_def u32n_def)
  from base_commit_recovered [OF inv _ _ _ fits, of "\<lambda>_. 7" vol_area False 7 False] show ?thesis
    using vol_covered vol_room a by simp blast
qed

section \<open>The superblocks\<close>

text \<open>
  The two copies of the extended superblock and the base table are written one after the other, the
  second copy first. Wherever a crash falls, the superblocks agree after the mount, and they have
  the version of the base table whenever one of them has it.
\<close>

theorem restore_exsb_consistent:
  "case restore_exsb sync rdonly version exsb exsb_copy of (ret, e, e') \<Rightarrow>
     VDFS4_EXSB_VERSION e = VDFS4_EXSB_VERSION e' \<and> (e = exsb \<or> e = exsb_copy) \<and>
     (version \<in> {VDFS4_EXSB_VERSION exsb, VDFS4_EXSB_VERSION exsb_copy} \<longrightarrow> VDFS4_EXSB_VERSION e = version)"
  by (auto simp: restore_exsb_def)

theorem restore_exsb_consistent_witness:
  "VDFS4_EXSB_VERSION (fst (snd (restore_exsb (\<lambda>_. success) False 2
     \<lparr>ex_mount_counter = 0, ex_sync_counter = 1, ex_body = []\<rparr> \<lparr>ex_mount_counter = 0, ex_sync_counter = 2, ex_body = []\<rparr>))) = 2"
  using restore_exsb_consistent [where sync = "\<lambda>_. success" and rdonly = False and version = 2
      and exsb = "\<lparr>ex_mount_counter = 0, ex_sync_counter = 1, ex_body = []\<rparr>"
      and exsb_copy = "\<lparr>ex_mount_counter = 0, ex_sync_counter = 2, ex_body = []\<rparr>"]
  by (simp add: VDFS4_EXSB_VERSION_def split: prod.splits)

end
