(* ===== verification/Vdfs_Snapshot_Grow_Props.thy ===== *)
theory Vdfs_Snapshot_Grow_Props
  imports Vdfs_Snapshot_Props
begin

text \<open>
  Properties of the growth of the metadata area: the size of the steps, the counting of free blocks,
  and two places where the checks of the code do not do what they are for.
\<close>

section \<open>The size of a step\<close>

lemma fls_bit_bounds: "0 < n \<Longrightarrow> 2 ^ fls_bit n \<le> n \<and> n < 2 ^ Suc (fls_bit n)"
proof (induction n rule: fls_bit.induct)
  case (1 n)
  show ?case
  proof (cases "n < 2")
    case True
    then show ?thesis using 1(2) by (simp add: fls_bit.simps)
  next
    case False
    then have "2 ^ fls_bit (n div 2) \<le> n div 2 \<and> n div 2 < 2 ^ Suc (fls_bit (n div 2))" using 1(1) by simp
    moreover have "fls_bit n = Suc (fls_bit (n div 2))" using False by (subst fls_bit.simps) simp
    ultimately show ?thesis by auto
  qed
qed

lemma align_to_power_of_two_ok:
  assumes "0 < v" "v \<le> 2147483648"
  shows "\<exists>k. align_to_power_of_two v = Done (2 ^ k) \<and> v \<le> 2 ^ k \<and> 2 ^ k < 2 * v"
proof -
  define p where "p = fls_bit (nat v)"
  have b: "2 ^ p \<le> nat v" "nat v < 2 ^ Suc p" using fls_bit_bounds [of "nat v"] assms(1) by (simp_all add: p_def)
  then have b': "2 ^ p \<le> v" "v < 2 ^ Suc p" using assms(1) by (simp_all add: nat_less_iff le_nat_iff)
  define q where "q = (if v \<noteq> 2 ^ p then Suc p else p)"
  have q: "v \<le> 2 ^ q" "2 ^ q < 2 * v" using b' by (auto simp: q_def)
  have "(2::int) ^ q < 2 ^ 32" using q(2) assms(2) by simp
  then have "q < 32" by (rule power_less_imp_less_exp [rotated]) simp
  then have "align_to_power_of_two v = Done (2 ^ q)"
    using assms(1) by (simp add: align_to_power_of_two_def Let_def p_def [symmetric] q_def [symmetric])
  then show ?thesis using q by blast
qed

lemma power_dvd_power: "(2::int) ^ j \<le> 2 ^ k \<Longrightarrow> 2 ^ j dvd (2::int) ^ k"
  by (simp add: le_imp_power_dvd)

text \<open>
  The step by which the metadata area grows is a power of two, a multiple of the superpage and not
  smaller than the least step, so that the allocator of aligned space, which stops at an assertion
  for other lengths, can be asked for it. Nothing wraps for superpages of up to 16 MB.
\<close>

theorem expand_step_aligned:
  assumes "log_block_size (fsm_info m) \<le> log_super_page_size (fsm_info m)" "log_super_page_size (fsm_info m) \<le> 24"
    "sbi_block_size m = 2 ^ log_block_size (fsm_info m)"
  shows "\<exists>mn mx. get_minimal_meta_expand_step m = Done (2 ^ mn) \<and> calculate_expand_step m = Done (2 ^ mx) \<and> mn < mx \<and>
    blocks_per_superpage (fsm_info m) dvd 2 ^ mn \<and> blocks_per_superpage (fsm_info m) dvd 2 ^ mx"
proof -
  let ?lsp = "log_super_page_size (fsm_info m)" and ?lb = "log_block_size (fsm_info m)"
  define bps :: int where "bps = 2 ^ (?lsp - ?lb)"
  have split: "(2::int) ^ ?lsp = bps * 2 ^ ?lb" using assms(1) by (simp add: bps_def power_add [symmetric])
  have pos: "0 < bps" by (simp add: bps_def)
  have "(2::int) ^ ?lsp \<le> 2 ^ 24" using assms(2) by (intro power_increasing) simp_all
  then have lim: "(2::int) ^ ?lsp \<le> 16777216" by simp
  have blim: "bps \<le> 16777216"
  proof -
    have "bps \<le> bps * 2 ^ ?lb" using pos by simp
    then show ?thesis using lim split by simp
  qed
  have lbl: "(2::int) ^ ?lb \<le> 2 ^ ?lsp" using assms(1) by (intro power_increasing) simp_all
  define step1 where "step1 = 6 * bps + 4"
  have step: "u32 (2 * (3 * 2 ^ ?lsp + 2 * sbi_block_size m)) div 2 ^ ?lb = step1"
  proof -
    have eq: "2 * (3 * 2 ^ ?lsp + 2 * sbi_block_size m) = step1 * 2 ^ ?lb"
      by (simp add: assms(3) split step1_def algebra_simps)
    have "2 * (3 * P + 2 * Q) < 4294967296" if "P \<le> 16777216" "Q \<le> P" for P Q :: int using that by simp
    from this [OF lim lbl] have "2 * (3 * 2 ^ ?lsp + 2 * sbi_block_size m) < 4294967296" unfolding assms(3) .
    moreover have "0 \<le> 2 * (3 * 2 ^ ?lsp + 2 * sbi_block_size m)" by (simp add: assms(3))
    ultimately show ?thesis using eq by (simp add: u32_id)
  qed
  define v where "v = step1 + (bps - step1 mod bps)"
  have md: "0 \<le> step1 mod bps" "step1 mod bps < bps" using pos by simp_all
  then have v: "bps < v" "v \<le> 7 * bps + 4" using pos step1_def v_def by linarith+
  then have vb: "0 < v" "v < 4294967296" "v \<le> 2147483648" using pos blim by simp_all
  have mineq: "get_minimal_meta_expand_step m = align_to_power_of_two v"
    unfolding get_minimal_meta_expand_step_def Let_def step bps_def [symmetric] v_def [symmetric]
    using vb by (simp add: u32_id)
  obtain mn where mn: "align_to_power_of_two v = Done (2 ^ mn)" "v \<le> 2 ^ mn" "2 ^ mn < 2 * v"
    using align_to_power_of_two_ok [OF vb(1,3)] by blast
  have mnb: "(2::int) ^ mn < 268435464" using mn(3) v(2) blim by linarith
  have dmn: "bps dvd 2 ^ mn" unfolding bps_def by (rule power_dvd_power) (use v(1) mn(2) in \<open>unfold bps_def, linarith\<close>)
  define a where "a = max (u32 (free_blocks_count (fsm_info m)) div int VDFS4_META_BTREE_EXTENTS) (2 ^ mn * 4)"
  have fb: "u32 (free_blocks_count (fsm_info m)) div 96 < 44739243"
    using u32_less [of "free_blocks_count (fsm_info m)"] u32_nonneg [of "free_blocks_count (fsm_info m)"] by linarith
  have ab: "0 < a" "a \<le> 2147483648" "2 ^ mn * 4 \<le> a"
    using fb mnb by (auto simp: a_def VDFS4_META_BTREE_EXTENTS_def less_max_iff_disj)
  obtain mx where mx: "align_to_power_of_two a = Done (2 ^ mx)" "a \<le> 2 ^ mx"
    using align_to_power_of_two_ok [OF ab(1,2)] by blast
  have u: "u32 (2 ^ mn * 2) = 2 ^ Suc mn" "u32 (2 ^ mn * 4) = 2 ^ mn * 4" using mnb by (simp_all add: u32_id)
  have calc: "calculate_expand_step m = (if u32 (2 ^ mn * 2 ^ ?lb) > bdev_bytes m div 2 ^ 5 then Done (2 ^ Suc mn)
      else Done (2 ^ mx))"
    unfolding calculate_expand_step_def mineq mn(1) bind_outcome_simps Let_def u a_def [symmetric] mx(1) ..
  have "(2::int) ^ mn < 2 ^ mx" using ab(3) mx(2) ab(1) by (smt (verit) zero_less_power)
  then have lt: "mn < mx" by (rule power_less_imp_less_exp [rotated]) simp
  have d: "bps dvd 2 ^ q" if "mn \<le> q" for q using dmn le_imp_power_dvd [OF that, of "2::int"] dvd_trans by blast
  define q where "q = (if u32 (2 ^ mn * 2 ^ ?lb) > bdev_bytes m div 2 ^ 5 then Suc mn else mx)"
  have "calculate_expand_step m = Done (2 ^ q)" "mn < q" using calc lt by (simp_all add: q_def)
  moreover have "get_minimal_meta_expand_step m = Done (2 ^ mn)" using mineq mn(1) by simp
  moreover have "bps dvd 2 ^ mn" "bps dvd 2 ^ q" using d \<open>mn < q\<close> by simp_all
  ultimately show ?thesis unfolding blocks_per_superpage_def bps_def [symmetric] by blast
qed

text \<open>A volume with 4 KB blocks and superpages of 16 KB.\<close>

definition vol_meta :: "vdfs4_fsm_info \<Rightarrow> vdfs4_meta" where
  "vol_meta f = \<lparr>snapshot_info = vol_snap,
     fsm_info = f\<lparr>log_block_size := 12, log_super_page_size := 14, free_blocks_count := 1000\<rparr>,
     exsb_meta = [(16, 12)], exsb_meta_tbc = 12, exsb_tables_begin = 100, exsb_tables_length = 40, exsb_dirty = False,
     meta_dirty = {}, bdev_bytes = 67108864, sbi_block_size = 4096\<rparr>"

theorem expand_step_aligned_witness:
  "\<exists>f mn mx. get_minimal_meta_expand_step (vol_meta f) = Done (2 ^ mn) \<and> calculate_expand_step (vol_meta f) = Done (2 ^ mx) \<and> mn < mx"
  using expand_step_aligned [of "vol_meta undefined"] by (auto simp: vol_meta_def)

section \<open>Counting free blocks\<close>

text \<open>
  The run-by-run counters agree with their specification: the number of clear bits below the size,
  and whether there are \<open>k\<close> clear bits in a row. Both loops end for every bitmap.
\<close>

theorem free_blocks_counted:
  "free_blocks_in_bitmap bits sz = card {j. j < sz \<and> \<not> bits ! j} \<and>
   (0 < k \<longrightarrow> free_blocks_in_bitmap_contig_check bits sz k =
     (card {j. j < sz \<and> \<not> bits ! j}, \<exists>p. p + k \<le> sz \<and> (\<forall>j. p \<le> j \<and> j < p + k \<longrightarrow> \<not> bits ! j)))"
  using contig_check_spec [of k bits sz] free_blocks_in_bitmap_card [of bits sz] by (simp add: clear_run_def)

theorem free_blocks_counted_witness:
  "snd (free_blocks_in_bitmap_contig_check [True, False, False] 3 2)"
proof -
  have "[True, False, False] ! j = False" if "1 \<le> j" "j < 3" for j :: nat using that by (cases j) (auto simp: nth_Cons split: nat.splits)
  then have "\<exists>p. p + 2 \<le> (3::nat) \<and> (\<forall>j. p \<le> j \<and> j < p + 2 \<longrightarrow> \<not> [True, False, False] ! j)"
    by (intro exI [of _ 1]) simp
  then show ?thesis using free_blocks_counted [of "[True, False, False]" 3 2] by simp
qed

section \<open>Checks that miss their purpose\<close>

lemma space_check_passes:
  assumes "0 \<le> exsb_tables_length m" "exsb_tables_length m < 65536" "bt_checksum_offset b < 4294967296"
  shows "\<not> int (bt_checksum_offset b + CRC32_SIZE_bytes + base_record_size) >
    u64 (exsb_tables_length m div 2 - VDFS4_SNAPSHOT_EXT_TABLES * VDFS4_SNAPSHOT_EXT_SIZE)"
proof -
  define x where "x = exsb_tables_length m div 2 - 32768"
  have x: "- 32768 \<le> x" "x < 0" using assms(1,2) by (auto simp: x_def)
  have "u64 x = (x + 18446744073709551616) mod 18446744073709551616" by (simp add: u64_def)
  also have "\<dots> = x + 18446744073709551616" using x by (intro mod_pos_pos_trivial) linarith+
  finally have "18446744073709518848 \<le> u64 x" using x by linarith
  moreover have "int (bt_checksum_offset b + CRC32_SIZE_bytes + base_record_size) < 4294967400"
    using assms(3) by (simp add: CRC32_SIZE_bytes_def base_record_size_def)
  ultimately show ?thesis by (simp add: x_def VDFS4_SNAPSHOT_EXT_TABLES_def VDFS4_SNAPSHOT_EXT_SIZE_def)
qed

text \<open>
  C28. The check of \<^verbatim>\<open>expand_translation_tables\<close> that the base table still fits into its half of the tables area
  never fails for an area of fewer than 65536 blocks: it compares a size in bytes with half the number
  of blocks less 32768, and the subtraction wraps around.
\<close>

theorem tables_space_check_never_fails:
  assumes "0 \<le> exsb_tables_length m" "exsb_tables_length m < 65536" "bt_checksum_offset (base_t (snapshot_info m)) < 4294967296"
  shows "expand_translation_tables env ino new_table_index m \<noteq> Done (Some ENOSPC, m')"
proof -
  have "\<not> int (bt_checksum_offset (base_t (snapshot_info m)) + CRC32_SIZE_bytes + base_record_size) >
      u64 (exsb_tables_length m div 2 - VDFS4_SNAPSHOT_EXT_TABLES * VDFS4_SNAPSHOT_EXT_SIZE)"
    using space_check_passes [OF assms] .
  then show ?thesis unfolding expand_translation_tables_def Let_def
    by (auto simp: bind_outcome_Done_iff split: if_splits)
qed

theorem tables_space_check_never_fails_witness:
  "\<forall>env f m'. expand_translation_tables env 2 1000000 (vol_meta f) \<noteq> Done (Some ENOSPC, m')"
proof (intro allI)
  fix env f m'
  show "expand_translation_tables env 2 1000000 (vol_meta f) \<noteq> Done (Some ENOSPC, m')"
    by (rule tables_space_check_never_fails) (simp_all add: vol_meta_def vol_base_def)
qed

text \<open>
  C27. A special file that needs a new chunk when the moves of the running transaction have used up the free
  areas makes the code stop at its assertion: the quick count of free blocks does not see the blocks of
  the last commit, so \<^verbatim>\<open>expand_special_file\<close> goes on although \<^verbatim>\<open>get_new_meta_iblock\<close> has to fail.
\<close>

theorem expand_special_file_stops:
  assumes "cow_inv C (snapshot_info m)" "special ino"
    "VDFS4_LAST_TABLE_INDEX (base_t (snapshot_info m)) ino < new" "new < 4294967296"
    "room_for (new - VDFS4_LAST_TABLE_INDEX (base_t (snapshot_info m)) ino) (snapshot_info m)"
    "\<forall>q. \<not> free_area_at (snapshot_info m) ino q"
    "exsb_meta_tbc m = int (bitmap_size_in_bits (snapshot_info m))"
    "exsb_meta_tbc m div 3 \<le> meta_area_free_blocks m -
       u32 (u32 (int (new - VDFS4_LAST_TABLE_INDEX (base_t (snapshot_info m)) ino)) * blocks_per_node (snapshot_info m) ino)"
    "0 \<le> exsb_tables_length m" "exsb_tables_length m < 65536"
    "(bt_checksum_offset (base_t (snapshot_info m)) + 4) mod PAGE_SIZE_bytes + 16 \<le> PAGE_SIZE_bytes"
  shows "expand_special_file env ino new force_insert m = Bug"
proof -
  let ?s = "snapshot_info m"
  have le: "VDFS4_LAST_TABLE_INDEX (base_t ?s) ino \<le> new" using assms(3) by simp
  have "free_slots ?s ino = {}" using assms(6) by (simp add: free_slots_def)
  then have ins: "insert_new_iblocks ino new ?s = Bug"
    using insert_new_iblocks_ok [OF assms(1,2) le assms(4,5)] assms(3) by auto
  have small: "bt_checksum_offset (base_t ?s) < 4294967296" using assms(1) by (simp add: cow_inv_def shape_ok_def layout_ok_def)
  have "expand_translation_tables env ino new m = Bug"
  proof -
    have "\<not> int (bt_checksum_offset (base_t ?s) + CRC32_SIZE_bytes + base_record_size) >
        u64 (exsb_tables_length m div 2 - VDFS4_SNAPSHOT_EXT_TABLES * VDFS4_SNAPSHOT_EXT_SIZE)"
      using space_check_passes [OF assms(9,10) small] .
    moreover have "\<not> (bt_checksum_offset (base_t ?s) + CRC32_SIZE_bytes) mod PAGE_SIZE_bytes + base_record_size > PAGE_SIZE_bytes"
      using assms(11) by (simp add: CRC32_SIZE_bytes_def base_record_size_def)
    ultimately show ?thesis using assms(7) ins by (simp add: expand_translation_tables_def Let_def)
  qed
  then show ?thesis using assms(3,8) by (simp add: expand_special_file_def Let_def)
qed

text \<open>All five chunks moved in an area of ten blocks: the other five are those of the last commit.\<close>

definition full_base :: base_table where
  "full_base = vol_base\<lparr>bt_records := map vol_record [5, 6, 7, 8, 9]\<rparr>"

definition full_snap :: vdfs4_snapshot_info where
  "full_snap = vol_snap\<lparr>snapshot_bitmap := replicate 10 True, next_snapshot_bitmap := replicate 5 False @ replicate 5 True,
     moved_iblock := replicate 5 False @ replicate 5 True, cow_blocks := 5, bitmap_size_in_bits := 10, base_t := full_base\<rparr>"

lemma full_LAST: "VDFS4_LAST_TABLE_INDEX full_base ino = VDFS4_LAST_TABLE_INDEX vol_base ino" "slot full_base ino = slot vol_base ino"
  by (simp_all add: full_base_def)

lemma full_layout: "layout_ok full_base"
  using vol_layout unfolding full_base_def by (subst layout_ok_update) (simp_all add: vol_base_def)

lemma full_keys: "keys full_snap = keys vol_snap"
  by (simp add: keys_def full_LAST) (simp add: full_snap_def full_LAST)

lemma full_order: "order_of full_snap ino = 0"
  by (simp add: order_of_def full_snap_def vol_snap_def)

lemma full_position: "special ino \<Longrightarrow> position full_snap (ino, 0) = ino + 3"
proof -
  assume ino: "special ino"
  have "rec_meta_iblock (bt_records full_base ! (ino - 2)) = ino + 3"
    using ino by (auto simp: full_base_def vol_record_def special_cases)
  then show ?thesis using ino by (simp add: position_def nth_positions full_LAST vol_slot full_snap_def)
qed

lemma full_chunk: "k \<in> keys full_snap \<Longrightarrow> chunk full_snap k = {fst k + 3}"
proof -
  assume k: "k \<in> keys full_snap"
  then have "position full_snap k = fst k + 3" using vol_keysD [of k] full_position [of "fst k"] unfolding full_keys by metis
  then show ?thesis by (auto simp: chunk_def area_def full_order)
qed

lemma full_refs: "refs full_snap = {5, 6, 7, 8, 9}"
proof -
  have "refs full_snap = (\<lambda>k. fst k + 3) ` keys full_snap" using full_chunk by (auto simp: refs_def)
  then show ?thesis by (simp add: full_keys vol_keys)
qed

lemma full_bits:
  "bset (snapshot_bitmap full_snap) = {0, 1, 2, 3, 4, 5, 6, 7, 8, 9}"
  "bset (next_snapshot_bitmap full_snap) = {5, 6, 7, 8, 9}" "bset (moved_iblock full_snap) = {5, 6, 7, 8, 9}"
proof -
  have "bset (replicate 5 False @ replicate 5 True) = {5..<10}" by (auto simp: bset_def nth_append)
  also have "\<dots> = {5, 6, 7, 8, 9}" using set_upt [of 5 10] by (simp add: upt_rec)
  finally show "bset (next_snapshot_bitmap full_snap) = {5, 6, 7, 8, 9}" "bset (moved_iblock full_snap) = {5, 6, 7, 8, 9}"
    unfolding full_snap_def vdfs4_snapshot_info.update_convs vdfs4_snapshot_info.select_convs by simp_all
  have "snapshot_bitmap full_snap = replicate 10 True @ replicate 0 False" by (simp add: full_snap_def)
  then show "bset (snapshot_bitmap full_snap) = {0, 1, 2, 3, 4, 5, 6, 7, 8, 9}"
    unfolding bset_eval by (simp add: bset_eval lessThan_nat_numeral lessThan_Suc insert_commute del: replicate.simps)
qed

lemma full_inv: "cow_inv {0, 1, 2, 3, 4} full_snap"
proof -
  have dis: "disjoint_family_on (chunk full_snap) (keys full_snap)"
    unfolding disjoint_family_on_def
  proof (intro ballI impI)
    fix j k assume jk: "j \<in> keys full_snap" "k \<in> keys full_snap" "j \<noteq> k"
    then show "chunk full_snap j \<inter> chunk full_snap k = {}"
      using full_chunk [OF jk(1)] full_chunk [OF jk(2)] by (auto simp: vol_keys full_keys)
  qed
  have bt: "base_t full_snap = full_base" by (simp add: full_snap_def)
  have "shape_ok full_snap"
    using full_layout unfolding shape_ok_def bt by (simp add: full_snap_def) (simp add: vol_snap_def PAGE_SHIFT_bits_def)
  moreover have "chunk full_snap k \<subseteq> {5, 6, 7, 8, 9}" "2 ^ order_of full_snap (fst k) dvd position full_snap k"
    if "k \<in> keys full_snap" for k
    using that full_chunk [OF that] by (auto simp: vol_keys full_keys full_order)
  moreover have "bitmap_size_in_bits full_snap = 10" "cow_blocks full_snap = 5" by (simp_all add: full_snap_def)
  moreover have "{0, 1, 2, 3, 4} - {5, 6, 7, 8, 9} = {0, 1, 2, 3, 4::nat}" by auto
  moreover have "card {0, 1, 2, 3, 4::nat} = 5" by simp
  ultimately show ?thesis unfolding cow_inv_def full_refs full_bits using dis by auto
qed

theorem expand_special_file_stops_witness:
  "\<forall>env f. expand_special_file env 2 1 False ((vol_meta f)\<lparr>snapshot_info := full_snap, exsb_meta_tbc := 10\<rparr>) = Bug"
proof (intro allI)
  fix env f
  let ?m = "(vol_meta f)\<lparr>snapshot_info := full_snap, exsb_meta_tbc := 10\<rparr>"
  have s: "snapshot_info ?m = full_snap" "base_t full_snap = full_base" by (simp_all add: full_snap_def)
  have L: "VDFS4_LAST_TABLE_INDEX full_base ino = 0" if "special ino" for ino using full_LAST(1) vol_LAST [OF that] by simp
  have sp: "special 2" "special 3" "special 4" "special 5" "special 6" by (simp_all add: special_cases)
  have none: "\<not> free_area_at full_snap 2 q" for q
  proof
    assume "free_area_at full_snap 2 q"
    then have "q < 10" "q \<notin> bset (snapshot_bitmap full_snap)"
      by (auto simp: free_area_at_def area_def full_order) (simp add: full_snap_def)
    then show False unfolding full_bits by auto
  qed
  have g: "log_blocks_in_page full_snap = 0" "log_blocks_in_leb full_snap = 0" "bitmap_size_in_bits full_snap = 10"
    "base_pages full_snap = 1" by (simp_all add: full_snap_def vol_snap_def)
  have b: "blocks_per_node full_snap ino = 1" for ino using g by (simp add: blocks_per_node_def)
  have free: "meta_area_free_blocks ?m = 5"
    unfolding meta_area_free_blocks_def s special_files_eq b using L sp by (simp add: vol_meta_def u32_def)
  have c: "bt_checksum_offset full_base = 184" by (simp add: full_base_def vol_base_def)
  show "expand_special_file env 2 1 False ?m = Bug"
  proof (rule expand_special_file_stops [of "{0, 1, 2, 3, 4}"])
    show "room_for (1 - VDFS4_LAST_TABLE_INDEX (base_t (snapshot_info ?m)) 2) (snapshot_info ?m)"
      unfolding s L [OF sp(1)] by (simp add: room_for_def s(2) c g base_record_size_def PAGE_SIZE_bytes_def)
    show "exsb_meta_tbc ?m div 3 \<le> meta_area_free_blocks ?m -
        u32 (u32 (int (1 - VDFS4_LAST_TABLE_INDEX (base_t (snapshot_info ?m)) 2)) * blocks_per_node (snapshot_info ?m) 2)"
      unfolding free s L [OF sp(1)] b by (simp add: u32_def)
  qed (use full_inv sp none g in \<open>simp_all add: s(2) L c PAGE_SIZE_bytes_def vol_meta_def\<close>)
qed

end
