(* ===== verification/Vdfs_Sync.thy ===== *)
theory Vdfs_Sync
  imports Vdfs_Snapshot_Recovery Vdfs_Snapshot_Grow_Props Vdfs_Fsm_Props
begin

text \<open>
  The commit of a transaction, \<^verbatim>\<open>vdfs4_sync_metadata\<close> of \<^verbatim>\<open>data.c\<close>: how the superblock, the pages of the metadata
  files, the translation tables and the free space manager are taken to the next state, in this
  order.
\<close>

section \<open>The commit\<close>

text \<open>
  What the parts that only do input and output answer: the statistics of the device, the writing of
  the superblocks and of the dirty metadata pages, and the discard commands. Of \<^verbatim>\<open>vdfs4_meta_write\<close> only the
  result is modelled: the mount and sync counts it puts into the table records of the pages it signs
  (\<^verbatim>\<open>data.c\<close>, 1212 to 1215 and 1240 to 1243) and the moved bitmap it checks in a debug build are left out.
  They do not change the position of any chunk.
\<close>

record sync_env =
  sy_meta :: meta_env
  sy_crc :: "bytes \<Rightarrow> nat"
  sy_debug :: bool
  sy_rdonly :: bool
  sy_kbytes_changed :: bool
  sy_sync_exsb :: "nat \<Rightarrow> status"
  sy_meta_write :: status
  sy_discard :: "nat \<Rightarrow> status"

definition sync_tables ::
    "sync_env \<Rightarrow> vdfs4_meta \<Rightarrow> tables_area \<Rightarrow> (status \<times> vdfs4_meta \<times> tables_area) outcome" where
  "sync_tables env m ta =
     bind_outcome (vdfs4_update_bitmaps (sy_debug env) (snapshot_info m)) (\<lambda>s1.
     bind_outcome (vdfs4_update_translation_tables (sy_crc env) s1 ta) (\<lambda>(ret, s2, ta').
       if ret \<noteq> success then Done (ret, m\<lparr>snapshot_info := s2\<rparr>, ta')
       else
         let ret' = (if exsb_dirty m then sy_sync_exsb env 0 else success)
         in bind_outcome (vdfs4_commit_free_space (me_fsm (sy_meta env)) (sy_discard env) (fsm_info m)) (\<lambda>(sent, f).
              Done (ret', m\<lparr>exsb_dirty := False, fsm_info := f,
                      snapshot_info := s2\<lparr>sn_sync_count := u32n (sn_sync_count s2 + 1)\<rparr>\<rparr>, ta'))))"

definition vdfs4_sync_metadata ::
    "sync_env \<Rightarrow> vdfs4_meta \<Rightarrow> tables_area \<Rightarrow> (status \<times> vdfs4_meta \<times> tables_area) outcome" where
  "vdfs4_sync_metadata env m ta =
     (if dirty_pages_count (snapshot_info m) = 0 then Done (success, m, ta)
      else if sy_rdonly env then Done (success, m, ta)
      else
        let m1 = (if sy_kbytes_changed env then m\<lparr>exsb_dirty := True\<rparr> else m);
            m2 = (if exsb_dirty m1 then m1\<lparr>snapshot_info := (snapshot_info m1)\<lparr>use_base_table := True\<rparr>\<rparr> else m1)
        in if exsb_dirty m1 \<and> sy_sync_exsb env 1 \<noteq> success then Done (sy_sync_exsb env 1, m2, ta)
           else if sy_meta_write env \<noteq> success then Done (sy_meta_write env, m2, ta)
           else sync_tables env m2 ta)"

section \<open>Order of the commit\<close>

lemma delayed_discard_frame:
  assumes "fsm_delayed_discard discard s = Done (sent, s')"
  shows "s' = s\<lparr>erase_blocks_counters := erase_blocks_counters s'\<rparr>"
  using assms by (auto simp: fsm_delayed_discard_def bind_outcome_Done_iff split: prod.splits)

lemma discard_blocks: "free_blocks (s\<lparr>erase_blocks_counters := c\<rparr>) = free_blocks s" "next_blocks (s\<lparr>erase_blocks_counters := c\<rparr>) = next_blocks s"
  "fsm_used (s\<lparr>erase_blocks_counters := c\<rparr>) = fsm_used s"
  by (simp_all add: free_blocks_def next_blocks_def fsm_used_def)

text \<open>
  The free space after a commit: what was free stays free, everything that waited is counted, nothing else is
  added to the tree, and all that waited is in the tree unless there are more extents than nodes.
\<close>

definition space_freed :: "vdfs4_fsm_info \<Rightarrow> vdfs4_fsm_info \<Rightarrow> bool" where
  "space_freed f f' \<longleftrightarrow> free_blocks f \<subseteq> free_blocks f' \<and> free_blocks f' \<subseteq> free_blocks f \<union> next_blocks f \<and> next_blocks f' = {} \<and>
     free_blocks_count f' = free_blocks_count f + next_free_blocks f \<and> fsm_used f' = fsm_used f \<and>
     (int (length (free_addrs f) + length (next_addrs f)) \<le> VDFS4_FSM_MAX_FREE_NODES \<longrightarrow> free_blocks f' = free_blocks f \<union> next_blocks f)"

lemma commit_free_space_blocks:
  assumes ok: "fsm_ok f" and ops: "rb_ops_ok (env_rb env)" and c: "vdfs4_commit_free_space env discard f = Done (sent, f')"
  shows "space_freed f f'"
proof -
  obtain f1 where f1: "fsm_commit_free_space env f = Done f1" "fsm_used f1 = fsm_used f" "next_blocks f1 = {}" "free_blocks f \<subseteq> free_blocks f1"
    "free_blocks f1 \<subseteq> free_blocks f \<union> next_blocks f" "free_blocks_count f1 = free_blocks_count f + next_free_blocks f"
    "int (length (free_addrs f) + length (next_addrs f)) \<le> VDFS4_FSM_MAX_FREE_NODES \<longrightarrow> free_blocks f1 = free_blocks f \<union> next_blocks f"
    using commit_ok [OF ok ops] by blast
  have "fsm_delayed_discard discard f1 = Done (sent, f')" using c f1(1) by (simp add: vdfs4_commit_free_space_def)
  then have eq: "f' = f1\<lparr>erase_blocks_counters := erase_blocks_counters f'\<rparr>" by (rule delayed_discard_frame)
  have "free_blocks f' = free_blocks f1" "next_blocks f' = next_blocks f1" "fsm_used f' = fsm_used f1" "free_blocks_count f' = free_blocks_count f1"
    by (subst eq, simp add: discard_blocks)+
  then show ?thesis using f1(2-7) by (simp add: space_freed_def)
qed

lemma sync_tables_cases:
  assumes "sync_tables env m ta = Done (ret, m', ta')"
  obtains "fsm_info m' = fsm_info m" "ret \<noteq> success"
  | s1 s2 sent f where "vdfs4_update_bitmaps (sy_debug env) (snapshot_info m) = Done s1"
    "vdfs4_update_translation_tables (sy_crc env) s1 ta = Done (success, s2, ta')"
    "vdfs4_commit_free_space (me_fsm (sy_meta env)) (sy_discard env) (fsm_info m) = Done (sent, f)"
    "fsm_info m' = f" "snapshot_info m' = s2\<lparr>sn_sync_count := u32n (sn_sync_count s2 + 1)\<rparr>"
proof -
  obtain s1 where s1: "vdfs4_update_bitmaps (sy_debug env) (snapshot_info m) = Done s1"
    using assms by (auto simp: sync_tables_def bind_outcome_Done_iff)
  note d = assms [unfolded sync_tables_def s1 bind_outcome_simps Let_def]
  obtain r s2 t where s2: "vdfs4_update_translation_tables (sy_crc env) s1 ta = Done (r, s2, t)"
    using d by (auto simp: bind_outcome_Done_iff)
  note d' = d [unfolded s2 bind_outcome_simps prod.case]
  show thesis
  proof (cases "r = success")
    case False
    then show thesis using d' that(1) by auto
  next
    case True
    obtain sent f where f: "vdfs4_commit_free_space (me_fsm (sy_meta env)) (sy_discard env) (fsm_info m) = Done (sent, f)"
      using d' True by (auto simp: bind_outcome_Done_iff)
    have "(if exsb_dirty m then sy_sync_exsb env 0 else success,
        m\<lparr>exsb_dirty := False, fsm_info := f, snapshot_info := s2\<lparr>sn_sync_count := u32n (sn_sync_count s2 + 1)\<rparr>\<rparr>, t) = (ret, m', ta')"
      using d' True f by simp
    then have "t = ta'" "fsm_info m' = f" "snapshot_info m' = s2\<lparr>sn_sync_count := u32n (sn_sync_count s2 + 1)\<rparr>" by auto
    then show thesis using that(2) [OF s1 _ f] s2 True by simp
  qed
qed

lemma sync_metadata_cases:
  assumes "vdfs4_sync_metadata env m ta = Done (ret, m', ta')"
  obtains "fsm_info m' = fsm_info m" "ta' = ta"
  | m2 where "sy_meta_write env = success" "sync_tables env m2 ta = Done (ret, m', ta')" "fsm_info m2 = fsm_info m"
    "snapshot_info m2 = snapshot_info m \<or> snapshot_info m2 = (snapshot_info m)\<lparr>use_base_table := True\<rparr>"
proof -
  define m1 where "m1 = (if sy_kbytes_changed env then m\<lparr>exsb_dirty := True\<rparr> else m)"
  define m2 where "m2 = (if exsb_dirty m1 then m1\<lparr>snapshot_info := (snapshot_info m1)\<lparr>use_base_table := True\<rparr>\<rparr> else m1)"
  have f2: "fsm_info m2 = fsm_info m" by (simp add: m2_def m1_def)
  have s2: "snapshot_info m2 = snapshot_info m \<or> snapshot_info m2 = (snapshot_info m)\<lparr>use_base_table := True\<rparr>" by (simp add: m2_def m1_def)
  note d = assms [unfolded vdfs4_sync_metadata_def Let_def, folded m1_def, folded m2_def]
  consider "(ret, m', ta') = (success, m, ta)" | e where "(ret, m', ta') = (e, m2, ta)"
    | "sy_meta_write env = success" "sync_tables env m2 ta = Done (ret, m', ta')"
    using d by (metis outcome.inject)
  then show thesis using that f2 s2 by cases auto
qed

text \<open>
  C9. Blocks that a transaction has freed stay out of the free space until the tables of its commit are on
  the medium. When writing the second superblock, the metadata pages or the tables fails, the free
  space is left as it was; when the commit goes through, exactly blocks freed before it are added and
  the bitmap of the current state is the one of the tables.
\<close>

theorem freed_blocks_wait_for_commit:
  assumes "cow_inv C (snapshot_info m)" "covered (base_t (snapshot_info m))" "fsm_ok (fsm_info m)"
    "rb_ops_ok (env_rb (me_fsm (sy_meta env)))"
    "vdfs4_sync_metadata env m ta = Done (ret, m', ta')"
  shows "fsm_info m' = fsm_info m \<or>
    (sy_meta_write env = success \<and>
     (\<exists>s1 s2. vdfs4_update_translation_tables (sy_crc env) s1 ta = Done (success, s2, ta') \<and> refs s1 = refs (snapshot_info m)) \<and>
     free_blocks (fsm_info m) \<subseteq> free_blocks (fsm_info m') \<and>
     free_blocks (fsm_info m') \<subseteq> free_blocks (fsm_info m) \<union> next_blocks (fsm_info m) \<and> next_blocks (fsm_info m') = {} \<and>
     cow_inv (refs (snapshot_info m)) (snapshot_info m') \<and> bset (snapshot_bitmap (snapshot_info m')) = refs (snapshot_info m') \<and>
     refs (snapshot_info m') = refs (snapshot_info m))"
  using assms(5)
proof (cases rule: sync_metadata_cases)
  case (2 m2)
  have st: "same_tables (snapshot_info m) (snapshot_info m2)" using 2(4) by (auto simp: same_tables_def)
  have inv2: "cow_inv C (snapshot_info m2)" and cov2: "covered (base_t (snapshot_info m2))"
    using cow_inv_frame [OF st, of C] 2(4) assms(1,2) by auto
  have r2: "refs (snapshot_info m2) = refs (snapshot_info m)" using same_tables_chunks(5) [OF st] .
  show ?thesis
    using 2(2)
  proof (cases rule: sync_tables_cases)
    case 1
    then show ?thesis using 2(3) by simp
  next
    case (2 s1 s2 sent f)
    note ub = update_bitmaps_done [OF inv2 2(1)]
    have i2: "cow_inv (refs (snapshot_info m)) s2" and s2r: "refs s2 = refs s1"
      using update_tables_state [OF 2(2), of "refs (snapshot_info m)"] ub cov2 r2 by simp_all
    have st': "same_tables s2 (snapshot_info m')" by (simp add: same_tables_def 2(5))
    have i': "cow_inv (refs (snapshot_info m)) (snapshot_info m')"
      using cow_inv_frame [OF st', of "refs (snapshot_info m)"] i2 by (simp add: 2(5))
    have r': "refs (snapshot_info m') = refs (snapshot_info m)" using same_tables_chunks(5) [OF st'] s2r ub(3) r2 by simp
    have b': "bset (snapshot_bitmap (snapshot_info m')) = refs (snapshot_info m')" using i' r' by (simp add: cow_inv_def)
    have t': "\<exists>s1 s2. vdfs4_update_translation_tables (sy_crc env) s1 ta = Done (success, s2, ta') \<and> refs s1 = refs (snapshot_info m)"
      using 2(2) ub(3) r2 by auto
    have "vdfs4_commit_free_space (me_fsm (sy_meta env)) (sy_discard env) (fsm_info m) = Done (sent, fsm_info m')"
      using 2(3,4) \<open>fsm_info m2 = fsm_info m\<close> by simp
    note cf = commit_free_space_blocks [OF assms(3,4) this, unfolded space_freed_def]
    show ?thesis using \<open>sy_meta_write env = success\<close> t' i' r' b' cf by blast
  qed
qed simp

text \<open>The volume of the examples, with one block freed and one dirty page, and a medium that never fails.\<close>

definition vol_sync_env :: sync_env where
  "vol_sync_env = \<lparr>sy_meta = \<lparr>me_fsm = plain_env, me_vmalloc = True, me_kzalloc = True\<rparr>, sy_crc = (\<lambda>_. 7), sy_debug = False,
     sy_rdonly = False, sy_kbytes_changed = True, sy_sync_exsb = (\<lambda>_. success), sy_meta_write = success, sy_discard = (\<lambda>_. success)\<rparr>"

definition vol_dirty :: vdfs4_meta where
  "vol_dirty = (vol_meta demo_next)\<lparr>fsm_info := demo_next, snapshot_info := vol_snap\<lparr>dirty_pages_count := 1\<rparr>\<rparr>"

lemma vol_dirty_inv: "cow_inv {0, 1, 2, 3, 4} (snapshot_info vol_dirty)"
proof -
  have "cow_inv {0, 1, 2, 3, 4} (vol_snap\<lparr>dirty_pages_count := 1\<rparr>) = cow_inv {0, 1, 2, 3, 4} vol_snap"
    by (rule cow_inv_frame) (simp_all add: same_tables_def)
  then show ?thesis using vol_inv by (simp add: vol_dirty_def)
qed

lemma delayed_discard_from_ok:
  "\<exists>sent cs'. fsm_delayed_discard_from (\<lambda>_. success) i cs = Done (sent, cs')"
proof (induction cs arbitrary: i)
  case (Cons c cs)
  obtain sent cs' where "fsm_delayed_discard_from (\<lambda>_. success) (Suc i) cs = Done (sent, cs')" using Cons by blast
  then show ?case by simp
qed simp

lemma commit_free_space_done:
  assumes "fsm_ok f" "rb_ops_ok (env_rb env)" "discard = (\<lambda>_. success)"
  shows "\<exists>sent f'. vdfs4_commit_free_space env discard f = Done (sent, f')"
proof -
  obtain f1 where f1: "fsm_commit_free_space env f = Done f1" using commit_ok [OF assms(1,2)] by blast
  obtain sent c where "fsm_delayed_discard_from discard 0 (erase_blocks_counters f1) = Done (sent, c)"
    using delayed_discard_from_ok assms(3) by blast
  then show ?thesis using f1 by (simp add: vdfs4_commit_free_space_def fsm_delayed_discard_def)
qed

lemma sync_tables_done:
  assumes inv: "cow_inv C (snapshot_info m)" and cov: "covered (base_t (snapshot_info m))"
    and fsm: "fsm_ok (fsm_info m)" "rb_ops_ok (env_rb (me_fsm (sy_meta env)))" "sy_discard env = (\<lambda>_. success)"
    and io: "\<not> sy_debug env" "sy_sync_exsb env = (\<lambda>_. success)" "tables_area_ok ta"
      "iblock (snapshot_info m) < tb_length ta" "2 \<le> tb_length ta"
    and room: "bt_checksum_offset (base_t (snapshot_info m)) + 4 \<le> base_pages (snapshot_info m) * PAGE_SIZE_bytes"
      "use_base_table (snapshot_info m) \<or> ext_size (ext_records (snapshot_info m)) \<le> PAGE_SIZE_bytes"
  shows "\<exists>m' ta'. sync_tables env m ta = Done (success, m', ta')"
proof -
  obtain s1 where s1: "vdfs4_update_bitmaps False (snapshot_info m) = Done s1" using update_bitmaps_ok [OF inv] by blast
  have f1: "base_t s1 = base_t (snapshot_info m)" "base_pages s1 = base_pages (snapshot_info m)" "iblock s1 = iblock (snapshot_info m)"
    "use_base_table s1 = use_base_table (snapshot_info m)" "ext_records s1 = ext_records (snapshot_info m)"
    using s1 by (auto simp: vdfs4_update_bitmaps_def)
  have lay: "layout_ok (base_t s1)" using inv f1 by (simp add: cow_inv_def shape_ok_def)
  have cov1: "covered (base_t s1)" using cov f1 by simp
  note fb = fill_base_ok [OF lay cov1 refl]
  have eq: "bt_checksum_offset (fill_base_descriptor s1) = bt_checksum_offset (base_t s1)" using fb(1) lay by (simp add: layout_ok_def)
  have "bt_checksum_offset (fill_base_descriptor s1) + 4 \<le> base_pages s1 * PAGE_SIZE_bytes"
    "use_base_table s1 \<or> ext_size (ext_records s1) \<le> PAGE_SIZE_bytes" "iblock s1 + 1 \<le> tb_length ta"
    using room io(4) f1 eq by auto
  from update_tables_success [OF fb(1-3) this(1,2) io(3) this(3) io(5)]
  obtain s2 ta' where t: "vdfs4_update_translation_tables (sy_crc env) s1 ta = Done (success, s2, ta')" by blast
  obtain sent f where f: "vdfs4_commit_free_space (me_fsm (sy_meta env)) (sy_discard env) (fsm_info m) = Done (sent, f)"
    using commit_free_space_done [OF fsm] by blast
  have "sy_debug env = False" using io(1) by simp
  then show ?thesis unfolding sync_tables_def Let_def using io(2) by (simp add: s1 t f)
qed

lemma sync_tables_exsb:
  assumes "sync_tables env m ta = Done (success, m', ta')"
  shows "\<not> exsb_dirty m'"
proof -
  obtain s1 where s1: "vdfs4_update_bitmaps (sy_debug env) (snapshot_info m) = Done s1"
    using assms by (auto simp: sync_tables_def bind_outcome_Done_iff)
  note d = assms [unfolded sync_tables_def s1 bind_outcome_simps Let_def]
  obtain r s2 t where s2: "vdfs4_update_translation_tables (sy_crc env) s1 ta = Done (r, s2, t)"
    using d by (auto simp: bind_outcome_Done_iff)
  note d' = d [unfolded s2 bind_outcome_simps prod.case]
  have r: "r = success" using d' by (cases r) simp_all
  obtain sent f where f: "vdfs4_commit_free_space (me_fsm (sy_meta env)) (sy_discard env) (fsm_info m) = Done (sent, f)"
    using d' r by (auto simp: bind_outcome_Done_iff)
  show ?thesis using d' r f by auto
qed

lemma sync_tables_written:
  assumes inv: "cow_inv C s" "covered (base_t s)" and u: "vdfs4_update_bitmaps debug s = Done s1"
    "vdfs4_update_translation_tables crc s1 ta = Done (success, s2, ta')"
  shows "sn_sync_count s2 = sn_sync_count s" "iblock s2 = snd (commit_table s ta) + pages_in (length (fst (commit_table s ta)) + 4)"
    "tb_block_size_shift ta = 12 \<Longrightarrow> table_on_medium crc (fst (commit_table s ta)) (snd (commit_table s ta)) ta'"
proof -
  have f1: "base_t s1 = base_t s" "iblock s1 = iblock s" "use_base_table s1 = use_base_table s" "ext_records s1 = ext_records s"
    "extended_table_count s1 = extended_table_count s" "sn_sync_count s1 = sn_sync_count s" "mount_counter s1 = mount_counter s"
    using u(1) by (auto simp: vdfs4_update_bitmaps_def split: if_splits)
  have lay: "layout_ok (base_t s1)" and cov: "covered (base_t s1)" using inv f1 by (simp_all add: cow_inv_def shape_ok_def)
  note fb = fill_base_ok [OF lay cov refl]
  have "commit_table s1 ta = commit_table s ta"
    by (simp add: commit_table_def fill_base_descriptor_def fill_ext_descriptor_def f1)
  then have "commit_table s1 ta = (fst (commit_table s ta), snd (commit_table s ta))" by simp
  from update_tables_written [OF u(2) fb(1-3) this] f1(6)
  show "sn_sync_count s2 = sn_sync_count s" "iblock s2 = snd (commit_table s ta) + pages_in (length (fst (commit_table s ta)) + 4)"
    "tb_block_size_shift ta = 12 \<Longrightarrow> table_on_medium crc (fst (commit_table s ta)) (snd (commit_table s ta)) ta'" by simp_all
qed

lemma sync_metadata_ok:
  assumes "cow_inv C (snapshot_info m)" "covered (base_t (snapshot_info m))" "fsm_ok (fsm_info m)"
    "rb_ops_ok (env_rb (me_fsm (sy_meta env)))" "sy_discard env = (\<lambda>_. success)" "\<not> sy_debug env" "\<not> sy_rdonly env"
    "sy_sync_exsb env = (\<lambda>_. success)" "sy_meta_write env = success" "tables_area_ok ta"
    "iblock (snapshot_info m) < tb_length ta" "2 \<le> tb_length ta" "dirty_pages_count (snapshot_info m) \<noteq> 0"
    "bt_checksum_offset (base_t (snapshot_info m)) + 4 \<le> base_pages (snapshot_info m) * PAGE_SIZE_bytes"
    "exsb_dirty m \<or> sy_kbytes_changed env \<or> use_base_table (snapshot_info m) \<or>
       ext_size (ext_records (snapshot_info m)) \<le> PAGE_SIZE_bytes"
  shows "\<exists>m' ta'. vdfs4_sync_metadata env m ta = Done (success, m', ta') \<and> space_freed (fsm_info m) (fsm_info m') \<and> \<not> exsb_dirty m' \<and>
    bset (snapshot_bitmap (snapshot_info m')) = refs (snapshot_info m) \<and> refs (snapshot_info m') = refs (snapshot_info m) \<and>
    sn_sync_count (snapshot_info m') = u32n (sn_sync_count (snapshot_info m) + 1) \<and>
    (case commit_table ((snapshot_info m)\<lparr>use_base_table := use_base_table (snapshot_info m) \<or> exsb_dirty m \<or> sy_kbytes_changed env\<rparr>) ta of
       (tbl, b) \<Rightarrow> iblock (snapshot_info m') = b + pages_in (length tbl + 4) \<and>
         (tb_block_size_shift ta = 12 \<longrightarrow> table_on_medium (sy_crc env) tbl b ta'))"
proof -
  define m1 where "m1 = (if sy_kbytes_changed env then m\<lparr>exsb_dirty := True\<rparr> else m)"
  define m2 where "m2 = (if exsb_dirty m1 then m1\<lparr>snapshot_info := (snapshot_info m1)\<lparr>use_base_table := True\<rparr>\<rparr> else m1)"
  have eq: "vdfs4_sync_metadata env m ta = sync_tables env m2 ta"
    using assms(7,9,13) by (simp add: vdfs4_sync_metadata_def [of env m ta, unfolded Let_def, folded m1_def, folded m2_def] assms(8))
  let ?s = "(snapshot_info m)\<lparr>use_base_table := use_base_table (snapshot_info m) \<or> exsb_dirty m \<or> sy_kbytes_changed env\<rparr>"
  have s2: "snapshot_info m2 = snapshot_info m \<or> snapshot_info m2 = (snapshot_info m)\<lparr>use_base_table := True\<rparr>"
    and f2: "fsm_info m2 = fsm_info m" and s2': "snapshot_info m2 = ?s"
    by (simp_all add: m2_def m1_def)
  have u2: "use_base_table (snapshot_info m2) \<or> ext_size (ext_records (snapshot_info m2)) \<le> PAGE_SIZE_bytes"
    using assms(15) by (simp add: m2_def m1_def) blast
  have st: "same_tables (snapshot_info m) (snapshot_info m2)" using s2 by (auto simp: same_tables_def)
  have inv2: "cow_inv C (snapshot_info m2)" using cow_inv_frame [OF st, of C] s2 assms(1) by auto
  have same: "base_t (snapshot_info m2) = base_t (snapshot_info m)" "base_pages (snapshot_info m2) = base_pages (snapshot_info m)"
    "iblock (snapshot_info m2) = iblock (snapshot_info m)" using s2 by auto
  have r2: "refs (snapshot_info m2) = refs (snapshot_info m)" using same_tables_chunks(5) [OF st] .
  obtain m' ta' where d: "sync_tables env m2 ta = Done (success, m', ta')"
    using sync_tables_done [OF inv2 assms(2) [folded same(1)] assms(3) [folded f2] assms(4,5,6,8,10)
      assms(11) [folded same(3)] assms(12) assms(14) [folded same(1,2)] u2] by blast
  have ed: "\<not> exsb_dirty m'"
    using d by (rule sync_tables_exsb)
  show ?thesis
    using d
  proof (cases rule: sync_tables_cases)
    case (2 s1 t2 sent f)
    note ub = update_bitmaps_done [OF inv2 2(1)]
    have i2: "cow_inv (refs s1) t2" and s2r: "refs t2 = refs s1"
      using update_tables_state [OF 2(2), of "refs s1"] ub assms(2) same by simp_all
    have st': "same_tables t2 (snapshot_info m')" by (simp add: same_tables_def 2(5))
    have "refs (snapshot_info m') = refs (snapshot_info m)" using same_tables_chunks(5) [OF st'] s2r ub(3) r2 by simp
    moreover have "bset (snapshot_bitmap (snapshot_info m')) = refs (snapshot_info m)"
      using i2 s2r ub(3) r2 2(5) by (simp add: cow_inv_def)
    moreover have "space_freed (fsm_info m) (fsm_info m')"
      using commit_free_space_blocks [OF _ assms(4) 2(3)] assms(3) f2 2(4) by simp
    moreover have "sn_sync_count (snapshot_info m') = u32n (sn_sync_count (snapshot_info m) + 1)"
      "iblock (snapshot_info m') = snd (commit_table ?s ta) + pages_in (length (fst (commit_table ?s ta)) + 4)"
      "tb_block_size_shift ta = 12 \<Longrightarrow> table_on_medium (sy_crc env) (fst (commit_table ?s ta)) (snd (commit_table ?s ta)) ta'"
      using sync_tables_written [OF inv2 _ 2(1,2)] assms(2) same(1) 2(5) unfolding s2' by simp_all
    ultimately show ?thesis using d ed unfolding eq by (intro exI [of _ m'] exI [of _ ta']) (simp add: case_prod_beta)
  qed simp
qed


lemma vol_dirty_facts:
  "fsm_info vol_dirty = demo_next" "covered (base_t (snapshot_info vol_dirty))" "iblock (snapshot_info vol_dirty) = 1"
  "dirty_pages_count (snapshot_info vol_dirty) = 1"
  "bt_checksum_offset (base_t (snapshot_info vol_dirty)) + 4 \<le> base_pages (snapshot_info vol_dirty) * PAGE_SIZE_bytes"
  using vol_covered vol_room by (simp_all add: vol_dirty_def) (simp add: vol_snap_def)

lemma vol_area_ok: "tables_area_ok vol_area" "tb_length vol_area = 40"
  by (simp_all add: tables_area_ok_def block_sector_def vol_area_def)

lemma vol_sync_facts:
  "me_fsm (sy_meta vol_sync_env) = plain_env" "sy_discard vol_sync_env = (\<lambda>_. success)" "\<not> sy_debug vol_sync_env" "\<not> sy_rdonly vol_sync_env"
  "sy_sync_exsb vol_sync_env = (\<lambda>_. success)" "sy_meta_write vol_sync_env = success" "sy_kbytes_changed vol_sync_env"
  by (simp_all add: vol_sync_env_def)

lemma vol_fsm_facts: "fsm_ok (fsm_info vol_dirty)" "rb_ops_ok (env_rb (me_fsm (sy_meta vol_sync_env)))"
  using plain_ops_ok demo_ok(2) by (simp_all add: vol_sync_facts vol_dirty_facts)


text \<open>Block 1 was freed before the commit and may be used after it.\<close>

theorem freed_blocks_wait_for_commit_witness:
  "\<exists>m' ta'. vdfs4_sync_metadata vol_sync_env vol_dirty vol_area = Done (success, m', ta') \<and>
     {2 ..< 7} \<subseteq> free_blocks (fsm_info m') \<and> free_blocks (fsm_info m') \<subseteq> {2 ..< 7} \<union> {1 ..< 2} \<and>
     cow_inv (refs (snapshot_info vol_dirty)) (snapshot_info m')"
proof -
  obtain m' ta' where d: "vdfs4_sync_metadata vol_sync_env vol_dirty vol_area = Done (success, m', ta')" "next_blocks (fsm_info m') = {}"
    using sync_metadata_ok [OF vol_dirty_inv vol_dirty_facts(2) vol_fsm_facts vol_sync_facts(2-6) vol_area_ok(1) _ _ _ vol_dirty_facts(5)]
    by (auto simp: vol_dirty_facts vol_area_ok vol_sync_facts space_freed_def)
  have "fsm_info m' \<noteq> fsm_info vol_dirty" using d(2) demo_sets by (auto simp: vol_dirty_facts)
  then show ?thesis
    using freed_blocks_wait_for_commit [OF vol_dirty_inv vol_dirty_facts(2) vol_fsm_facts d(1)] d(1)
    by (simp add: vol_dirty_facts demo_sets)
qed

end
