(* ===== verification/Spec2Isabelle.thy ===== *)
theory Spec2Isabelle
  imports Vdfs_Files_Props Vdfs_Btree_Remove_Props Vdfs_Inode_Record Vdfs_Inode_Numbers Vdfs_Sync
begin

text \<open>
  \<^bold>\<open>The program.\<close> VDFS4 is a file system for Linux: a kernel driver (\<^verbatim>\<open>src/linux/fs/vdfs4\<close>) and tools that
  build images (\<^verbatim>\<open>src/vdfs-tools\<close>). Everything about files is kept in three B-trees (catalog, extents,
  extended attributes) and two bitmaps (blocks, inode numbers). These five are special files in a
  metadata area, and the \<^emph>\<open>snapshot manager\<close> translates their pages to blocks of that area. A
  transaction does not overwrite a metadata block of the last commit as long as the area has space: a chunk that
  becomes dirty is moved to free blocks first, and the commit writes the changed translation tables. The \<^emph>\<open>free space
  manager\<close> hands out the blocks of the volume; blocks freed by a transaction may be reused only
  after its commit. The driver's own logic is in these parts; this development models them.

  \<^bold>\<open>Conventions\<close> (\<^verbatim>\<open>Vdfs_Prelude\<close>, \<^verbatim>\<open>Vdfs_Bytes\<close>). The integers of C are \<^typ>\<open>int\<close> or \<^typ>\<open>nat\<close>, and the places
  where a width matters have the casts \<open>u8\<close> to \<open>u64\<close>. An \<^verbatim>\<open>int\<close> result is a \<open>status\<close>: \<open>None\<close> for 0, or the error
  number. A pointer that may be an error is a sum. Code that can reach \<^verbatim>\<open>VDFS4_BUG\<close> or leave its objects
  has a result of type \<open>outcome\<close>: \<open>Done\<close>, \<open>Bug\<close> (an assertion of the code) or \<open>Undef\<close> (no meaning in C). A
  theorem about a result \<open>Done\<close> shows that neither of the others occurs. Memory is a list of bytes.
  What the kernel decides (allocations, reads, writes, the page cache) is a record of answers passed
  as argument; the theorems hold for all answers unless they say otherwise. The model is the driver without
  \<^verbatim>\<open>CONFIG_VDFS4_DEBUG\<close>, except where a definition has the option as an argument.

  \<^bold>\<open>Runtime extents\<close> (\<^verbatim>\<open>Vdfs_Runtime_Extents\<close>, \<^verbatim>\<open>extents.c\<close>): the list of the delayed blocks of an inode. Adding,
  removing and truncating have the effect of the set operations; the order of the list is not always kept.

  \<^bold>\<open>Bitmaps in blocks\<close> (\<^verbatim>\<open>Vdfs_Bits\<close>, \<^verbatim>\<open>data.c\<close>; \<^verbatim>\<open>Vdfs_Bitmap\<close> for the primitives of the kernel): setting and
  clearing ranges of bits across the blocks with their magic numbers and checksums.

  \<^bold>\<open>Free space manager\<close> (\<^verbatim>\<open>Vdfs_Fsm_Tree\<close>, \<^verbatim>\<open>Vdfs_Fsm\<close>, \<^verbatim>\<open>Vdfs_Fsm_Alloc\<close>, \<^verbatim>\<open>Vdfs_Fsm_Props\<close>; \<^verbatim>\<open>fsm.c\<close>): the extents of free
  space in a tree ordered by place and in lists by size, their merging and splitting, the bitmap, the
  hints, the extents to be freed at the commit. The invariant relates tree, lists, bitmap and counter. An
  allocation hands out blocks that were free, aligned if asked for; freed blocks go to the tree of the next
  transaction, and the commit brings them back. The rebuilding of the tree from the bitmap is defined; the
  theorems are about states in which it is not needed.

  \<^bold>\<open>Keys\<close> (\<^verbatim>\<open>Vdfs_Keys\<close>; \<^verbatim>\<open>cattree.c\<close>, \<^verbatim>\<open>extents.c\<close>, \<^verbatim>\<open>xattr.c\<close>): the four comparison functions over the bytes of
  the keys. The locale \<open>key_order\<close> states what a search needs of them; each function interprets it.

  \<^bold>\<open>Nodes of the trees\<close> (\<^verbatim>\<open>Vdfs_Bnode\<close>, \<^verbatim>\<open>Vdfs_Bnode_Split\<close>, \<^verbatim>\<open>Vdfs_Bnode_Props\<close>; \<^verbatim>\<open>btree.c\<close>): the record area with the
  table of offsets. Insertion, deletion, binary search and split refine operations on the list of
  records, for every node that satisfies the layout invariant, and keep the invariant.

  \<^bold>\<open>Trees\<close> (\<^verbatim>\<open>btree.c\<close>, \<^verbatim>\<open>bnode.c\<close>). \<^verbatim>\<open>Vdfs_Btree\<close>: nodes under their numbers, chained in levels; the descent,
  the next record, insertion with the work for the levels above. \<^verbatim>\<open>Vdfs_Btree_Search\<close>: the invariant of
  a tree, which allows nodes the level above does not know, and the search. \<^verbatim>\<open>Vdfs_Btree_Levels\<close> and
  \<^verbatim>\<open>_Alloc\<close>: changes of one level, node numbers and the reserve. \<^verbatim>\<open>_Insert\<close>, \<^verbatim>\<open>_Index\<close>, \<^verbatim>\<open>_Root\<close>, \<^verbatim>\<open>_Put\<close>: a
  record placed with or without split, its index record, a new root, the whole insertion. \<^verbatim>\<open>_Props\<close>: the
  theorems. The locale \<open>tree_keys\<close> extends \<open>key_order\<close> with what a tree needs of its keys; the four kinds of
  trees interpret it. Insertion refines insertion into the sorted list of the records of the leaves; it
  is assumed that the nodes can be read and that each has its index record, and every refused allocation is a case. The loops along a level have the size of the bitmap of numbers as
  fuel: a chain has no node twice, so this is enough, and it is proved that searches and insertions in
  well-formed trees return. The loop over the work that is left ends because each piece leaves at most
  one, one level higher.

  \<^bold>\<open>Removal from the trees\<close> (\<^verbatim>\<open>btree.c\<close>). \<^verbatim>\<open>Vdfs_Btree_Remove\<close>: deletion of the record, the emptied node, the replaced index
  key, the merge with a neighbour, the root that gives way to its child, each with the calls one level
  higher; the levels are bounded by the 16 bits of the height, which is the fuel. \<^verbatim>\<open>_Removal\<close>: the removal of
  records with a left neighbour in their node, by induction from the leaves to the root over the part of
  the tree above a level. \<^verbatim>\<open>_Remove_Props\<close>: the theorems. The removal of the first record of a node, which
  replaces its index key, and the emptying of a node are defined but not covered by a theorem.

  \<^bold>\<open>Extents tree\<close> (\<^verbatim>\<open>Vdfs_Exttree\<close>, \<^verbatim>\<open>extents.c\<close>): one tree as a store of the extents of all files. The lookup of
  a block gives the nearest extent of its file; insertion adds one extent.

  \<^bold>\<open>Files\<close> (\<^verbatim>\<open>Vdfs_Files\<close>, \<^verbatim>\<open>Vdfs_Files_Props\<close>; \<^verbatim>\<open>inode.c\<close>): the map from the logical blocks of a file to blocks of
  the volume, as nine extents in the fork of the inode and the others in the extents tree. The
  invariant says how the two share the extents. Insertion of an extent refines the union of the
  maps; \<^verbatim>\<open>vdfs4_get_block\<close> and its delayed variants compose the free space manager, the runtime extents and
  the extents tree: a new block was free, the others stay, and a writeback that follows its reservation
  directly gets a block.

  \<^bold>\<open>Inodes\<close> (\<^verbatim>\<open>Vdfs_Inode_Record\<close>; \<^verbatim>\<open>cattree-helper.c\<close>, \<^verbatim>\<open>extents.c\<close>, \<^verbatim>\<open>inode.c\<close>): the catalog record of an inode in bytes, its
  writer and its reader with the checks of forks and inline data. What is written is read back; the
  checks accept some forks that they should refuse. \<^verbatim>\<open>Vdfs_Inode_Numbers\<close>: the bitmap of inode numbers. The
  search is a \<open>partial_function\<close>, and it is proved that it returns.

  \<^bold>\<open>Snapshot manager\<close> (\<^verbatim>\<open>snapshot.c\<close>). \<^verbatim>\<open>Vdfs_Snapshot\<close>: bitmaps of the committed, the next and the moved
  blocks, the translation tables, moving a chunk. \<^verbatim>\<open>Vdfs_Snapshot_Tables\<close>, \<^verbatim>\<open>_Format\<close>: the tables on the medium,
  their validation, the mount, the writing at commit. \<^verbatim>\<open>Vdfs_Snapshot_Grow\<close>, \<^verbatim>\<open>_Insert\<close>: growth of the area
  and of the tables. \<^verbatim>\<open>Vdfs_Snapshot_Cow\<close>: the invariant. \<^verbatim>\<open>Vdfs_Snapshot_Commit\<close>, \<^verbatim>\<open>_Props\<close>, \<^verbatim>\<open>_Recovery\<close>, \<^verbatim>\<open>_Grow_Props\<close>:
  copy on write with its fallback when the area is full, the invariant in every reachable state, a commit writes
  beside the tables in use whatever the medium answers, a mount finds what a commit wrote, and where the checks
  for space fail. The medium is a map from sectors of 512 bytes; tables are written in pages from the
  sector of a block. For blocks of one page the pages of different blocks do not meet; for smaller blocks,
  which the mount code accepts, the tables of two commits overlap.

  \<^bold>\<open>Commit\<close> (\<^verbatim>\<open>Vdfs_Sync\<close>, \<^verbatim>\<open>data.c\<close>): \<^verbatim>\<open>vdfs4_sync_metadata\<close> composes the snapshot manager and the free space
  manager; freed blocks wait for the tables, and the commit succeeds when the medium does and leaves the new
  table on it. Of the writing of the dirty metadata pages only the result is modelled, not the version numbers it
  puts into the table records.

  \<^bold>\<open>Not modelled.\<close> The removal of extents and truncation, which build on the removal from trees; the operations of
  the VFS on names and directories; reading and writing of pages and bios; compression, signatures, ioctls, tracing; locks
  and reference counts (every operation here runs under its lock); the tools, which repeat the formats
  of the driver in user space.
\<close>

end
